(* ===== verification/Rust_Prelude.thy ===== *)
theory Rust_Prelude
  imports Main "HOL-Library.Word"
begin

section \<open>Shared vocabulary of the component theories\<close>

text \<open>
  What the component theories share: Rust's \<open>Result\<close> as a sum with its
  combinators, the integer types the sources use with their checked operations,
  the ASCII byte classes of \<^verbatim>\<open>u8::is_ascii_*\<close>, and the contract of a pure state
  reducer with the facts every component that owns one derives from it.
\<close>

named_theorems rust_defs \<open>unfolding of integer and byte-class definitions\<close>

subsection \<open>Result\<close>

type_synonym ('a, 'e) result = "'e + 'a"

abbreviation Ok :: "'a \<Rightarrow> 'e + 'a" where
  "Ok \<equiv> Inr"

abbreviation Err :: "'e \<Rightarrow> 'e + 'a" where
  "Err \<equiv> Inl"

text \<open>The \<open>?\<close> operator and \<open>Result::and_then\<close>.\<close>

definition and_then :: "'e + 'a \<Rightarrow> ('a \<Rightarrow> 'e + 'b) \<Rightarrow> 'e + 'b" where
  "and_then r f = (case r of Inl e \<Rightarrow> Inl e | Inr a \<Rightarrow> f a)"

definition ok_or :: "'a option \<Rightarrow> 'e \<Rightarrow> 'e + 'a" where
  "ok_or x e = (case x of None \<Rightarrow> Inl e | Some a \<Rightarrow> Inr a)"

definition map_err :: "('e \<Rightarrow> 'f) \<Rightarrow> 'e + 'a \<Rightarrow> 'f + 'a" where
  "map_err f r = (case r of Inl e \<Rightarrow> Inl (f e) | Inr a \<Rightarrow> Inr a)"

definition is_ok :: "'e + 'a \<Rightarrow> bool" where
  "is_ok r = (case r of Inl e \<Rightarrow> False | Inr a \<Rightarrow> True)"

lemma and_then_simps [simp]:
  "and_then (Inl e) f = Inl e"
  "and_then (Inr a) f = f a"
  by (simp_all add: and_then_def)

lemma ok_or_simps [simp]:
  "ok_or None e = Inl e"
  "ok_or (Some a) e = Inr a"
  by (simp_all add: ok_or_def)

lemma map_err_simps [simp]:
  "map_err g (Inl e) = Inl (g e)"
  "map_err g (Inr a) = Inr a"
  by (simp_all add: map_err_def)

lemma is_ok_simps [simp]:
  "\<not> is_ok (Inl e)"
  "is_ok (Inr a)"
  by (simp_all add: is_ok_def)

lemma and_then_Inr_iff: "and_then r f = Inr b \<longleftrightarrow> (\<exists>a. r = Inr a \<and> f a = Inr b)"
  by (cases r) auto

lemma and_then_Inl_iff:
  "and_then r f = Inl e \<longleftrightarrow> r = Inl e \<or> (\<exists>a. r = Inr a \<and> f a = Inl e)"
  by (cases r) auto

lemma ok_or_Inr_iff [simp]: "ok_or x e = Inr a \<longleftrightarrow> x = Some a"
  by (cases x) auto

lemma ok_or_Inl_iff [simp]: "ok_or x e = Inl d \<longleftrightarrow> x = None \<and> d = e"
  by (cases x) auto

lemma map_err_Inr_iff [simp]: "map_err g r = Inr a \<longleftrightarrow> r = Inr a"
  by (cases r) auto

lemma map_err_Inl_iff: "map_err g r = Inl d \<longleftrightarrow> (\<exists>e. r = Inl e \<and> d = g e)"
  by (cases r) auto

lemma is_ok_iff: "is_ok r \<longleftrightarrow> (\<exists>a. r = Inr a)"
  by (cases r) auto

lemmas result_iffs = and_then_Inr_iff and_then_Inl_iff map_err_Inl_iff is_ok_iff

subsection \<open>Integers\<close>

text \<open>
  Unsigned machine integers are words, so that their range is part of the type.
  Signed 64-bit integers are \<open>int\<close>; the checked operations test the range.
\<close>

type_synonym u8 = "8 word"
type_synonym u32 = "32 word"
type_synonym u64 = "64 word"
type_synonym bytes = "u8 list"

definition i64_min :: int where
  "i64_min = - (2 ^ 63)"

definition i64_max :: int where
  "i64_max = 2 ^ 63 - 1"

definition in_i64 :: "int \<Rightarrow> bool" where
  "in_i64 n \<longleftrightarrow> i64_min \<le> n \<and> n \<le> i64_max"

definition i64_checked_add :: "int \<Rightarrow> int \<Rightarrow> int option" where
  "i64_checked_add a b = (if in_i64 (a + b) then Some (a + b) else None)"

definition u64_checked_add :: "u64 \<Rightarrow> u64 \<Rightarrow> u64 option" where
  "u64_checked_add a b = (if unat a + unat b < 2 ^ 64 then Some (a + b) else None)"

text \<open>The largest \<open>i64\<close> as the \<open>u64\<close> the sources compare with (\<open>i64::MAX as u64\<close>).\<close>

definition i64_max_u64 :: u64 where
  "i64_max_u64 = 9223372036854775807"

lemmas i64_defs = i64_min_def i64_max_def in_i64_def

lemma i64_checked_add_Some:
  "i64_checked_add a b = Some c \<longleftrightarrow> c = a + b \<and> in_i64 (a + b)"
  by (auto simp: i64_checked_add_def)

lemma i64_checked_add_None [simp]:
  "i64_checked_add a b = None \<longleftrightarrow> \<not> in_i64 (a + b)"
  by (simp add: i64_checked_add_def)

lemma u64_checked_add_unat:
  "u64_checked_add a b = Some c \<Longrightarrow> unat c = unat a + unat b"
  by (auto simp: u64_checked_add_def unat_word_ariths split: if_splits)

lemma u64_checked_add_None [simp]:
  "u64_checked_add a b = None \<longleftrightarrow> 2 ^ 64 \<le> unat a + unat b"
  by (auto simp: u64_checked_add_def)

lemma u64_checked_add_le:
  assumes "u64_checked_add a b = Some c"
  shows "a \<le> c" and "b \<le> c"
  using u64_checked_add_unat [OF assms] by (simp_all add: word_le_nat_alt)

lemma u64_checked_add_less:
  assumes "u64_checked_add a b = Some c" and "b \<noteq> 0"
  shows "a < c"
  using u64_checked_add_unat [OF assms(1)] assms(2)
  by (simp add: word_less_nat_alt unat_gt_0)

subsection \<open>Bytes of a string\<close>

text \<open>
  A Rust \<open>str\<close> whose code looks at bytes only is a \<open>string\<close>, one \<open>char\<close> per byte.
\<close>

definition byte_of :: "char \<Rightarrow> nat" where
  "byte_of c = of_char c"

definition is_ascii_lowercase :: "char \<Rightarrow> bool" where
  "is_ascii_lowercase c \<longleftrightarrow> 97 \<le> byte_of c \<and> byte_of c \<le> 122"

definition is_ascii_uppercase :: "char \<Rightarrow> bool" where
  "is_ascii_uppercase c \<longleftrightarrow> 65 \<le> byte_of c \<and> byte_of c \<le> 90"

definition is_ascii_digit :: "char \<Rightarrow> bool" where
  "is_ascii_digit c \<longleftrightarrow> 48 \<le> byte_of c \<and> byte_of c \<le> 57"

definition is_ascii_alphanumeric :: "char \<Rightarrow> bool" where
  "is_ascii_alphanumeric c \<longleftrightarrow> is_ascii_lowercase c \<or> is_ascii_uppercase c \<or> is_ascii_digit c"

lemmas ascii_defs = byte_of_def is_ascii_lowercase_def is_ascii_uppercase_def
  is_ascii_digit_def is_ascii_alphanumeric_def

declare i64_defs [rust_defs] ascii_defs [rust_defs]

text \<open>\<open>Display\<close> of an unsigned integer: canonical decimal digits.\<close>

definition digit_char :: "nat \<Rightarrow> char" where
  "digit_char d = char_of (48 + d)"

definition digit_value :: "char \<Rightarrow> nat" where
  "digit_value c = byte_of c - 48"

fun show_nat :: "nat \<Rightarrow> string" where
  "show_nat n = (if n < 10 then [digit_char n] else show_nat (n div 10) @ [digit_char (n mod 10)])"

declare show_nat.simps [simp del]

text \<open>Horner evaluation of decimal digits, the reference for the parsers.\<close>

definition digits_value :: "nat \<Rightarrow> string \<Rightarrow> nat" where
  "digits_value = foldl (\<lambda>n c. n * 10 + digit_value c)"

lemma digits_value_simps [simp]:
  "digits_value acc [] = acc"
  "digits_value acc (c # cs) = digits_value (acc * 10 + digit_value c) cs"
  "digits_value acc (cs @ [c]) = digits_value acc cs * 10 + digit_value c"
  by (simp_all add: digits_value_def)

lemma byte_of_less [simp]: "byte_of c < 256"
  using nat_of_char_less_256 [of c] by (simp add: byte_of_def)

lemma byte_of_inject: "byte_of c = byte_of d \<longleftrightarrow> c = d"
  by (simp add: byte_of_def)

lemma byte_of_char_of [simp]: "n < 256 \<Longrightarrow> byte_of (char_of n) = n"
  by (simp add: byte_of_def)

lemma byte_of_digit_char [simp]: "d < 10 \<Longrightarrow> byte_of (digit_char d) = 48 + d"
  by (simp add: byte_of_def digit_char_def)

lemma digit_value_digit_char [simp]: "d < 10 \<Longrightarrow> digit_value (digit_char d) = d"
  by (simp add: digit_value_def)

lemma is_ascii_digit_digit_char [simp]: "d < 10 \<Longrightarrow> is_ascii_digit (digit_char d)"
  by (simp add: is_ascii_digit_def)

lemma digit_value_less: "is_ascii_digit c \<Longrightarrow> digit_value c < 10"
  by (auto simp: digit_value_def is_ascii_digit_def)

lemma digit_char_digit_value: "is_ascii_digit c \<Longrightarrow> digit_char (digit_value c) = c"
  by (simp add: digit_value_def digit_char_def is_ascii_digit_def byte_of_def)

lemma show_nat_digits: "list_all is_ascii_digit (show_nat n)"
proof (induction n rule: show_nat.induct)
  case (1 n)
  then show ?case by (subst show_nat.simps) simp
qed

lemma show_nat_value: "digits_value 0 (show_nat n) = n"
proof (induction n rule: show_nat.induct)
  case (1 n)
  then show ?case by (subst show_nat.simps) simp
qed

lemma show_nat_nonempty [simp]: "show_nat n \<noteq> []"
  by (subst show_nat.simps) simp

lemma hd_show_nat: "0 < n \<Longrightarrow> digit_value (hd (show_nat n)) \<noteq> 0"
proof (induction n rule: show_nat.induct)
  case (1 n)
  show ?case
  proof (cases "n < 10")
    case True
    with 1 show ?thesis by (subst show_nat.simps) simp
  next
    case False
    then have "digit_value (hd (show_nat (n div 10))) \<noteq> 0"
      by (intro "1.IH") auto
    with False show ?thesis by (subst show_nat.simps) simp
  qed
qed

text \<open>A digit string without a leading zero is the display of its value.\<close>

lemma show_nat_digits_value:
  assumes "cs \<noteq> []" and "list_all is_ascii_digit cs" and "digit_value (hd cs) \<noteq> 0"
  shows "show_nat (digits_value 0 cs) = cs \<and> 0 < digits_value 0 cs"
  using assms
proof (induction cs rule: rev_induct)
  case Nil
  then show ?case by simp
next
  case (snoc c cs)
  have c: "is_ascii_digit c" "digit_value c < 10"
    using snoc.prems digit_value_less by auto
  show ?case
  proof (cases "cs = []")
    case True
    with snoc.prems c show ?thesis
      by (subst show_nat.simps) (simp add: digit_char_digit_value)
  next
    case False
    then have IH: "show_nat (digits_value 0 cs) = cs" "0 < digits_value 0 cs"
      using snoc by auto
    then have "\<not> digits_value 0 cs * 10 + digit_value c < 10" by simp
    with IH c show ?thesis
      by (subst show_nat.simps) (simp add: digit_char_digit_value)
  qed
qed

text \<open>Splitting at a separator, as \<open>str::split\<close> does.\<close>

fun split_on :: "'a \<Rightarrow> 'a list \<Rightarrow> 'a list list" where
  "split_on d [] = [[]]"
| "split_on d (x # xs) =
     (if x = d then [] # split_on d xs
      else (x # hd (split_on d xs)) # tl (split_on d xs))"

lemma split_on_nonempty [simp]: "split_on d xs \<noteq> []"
  by (cases xs) simp_all

lemma split_on_hd_nil: "hd (split_on d xs) = [] \<longleftrightarrow> xs = [] \<or> hd xs = d"
  by (cases xs) auto

subsection \<open>Big-endian bytes and length-prefixed framing\<close>

text \<open>\<open>to_be_bytes\<close> of an unsigned integer of \<open>w\<close> bytes.\<close>

fun be_bytes :: "nat \<Rightarrow> nat \<Rightarrow> bytes" where
  "be_bytes 0 n = []"
| "be_bytes (Suc w) n = be_bytes w (n div 256) @ [word_of_nat n]"

definition be_bytes_u64 :: "nat \<Rightarrow> bytes" where
  "be_bytes_u64 n = be_bytes 8 n"

definition ascii_bytes :: "string \<Rightarrow> bytes" where
  "ascii_bytes = map (word_of_nat \<circ> byte_of)"

text \<open>Every field preceded by its length in \<open>w\<close> bytes.\<close>

definition framed :: "nat \<Rightarrow> bytes list \<Rightarrow> bytes" where
  "framed w fields = concat (map (\<lambda>f. be_bytes w (length f) @ f) fields)"

lemma be_bytes_length [simp]: "length (be_bytes w n) = w"
  by (induction w arbitrary: n) simp_all

lemma be_bytes_inject:
  "be_bytes w m = be_bytes w n \<Longrightarrow> m < 256 ^ w \<Longrightarrow> n < 256 ^ w \<Longrightarrow> m = n"
proof (induction w arbitrary: m n)
  case (Suc w)
  then have "m div 256 = n div 256"
    by (intro Suc.IH) (auto simp: less_mult_imp_div_less mult.commute)
  moreover have "m mod 256 = n mod 256"
    using Suc.prems(1) by (simp add: word_of_nat_eq_iff take_bit_eq_mod)
  ultimately show ?case by (metis div_mult_mod_eq)
qed simp

lemma be_bytes_u64_length [simp]: "length (be_bytes_u64 n) = 8"
  by (simp add: be_bytes_u64_def)

lemma u64_range: "(256 :: nat) ^ 8 = 2 ^ 64"
  using power_mult [of "2 :: nat" 8 8] by simp

lemma be_bytes_u64_inject:
  "be_bytes_u64 m = be_bytes_u64 n \<Longrightarrow> m < 2 ^ 64 \<Longrightarrow> n < 2 ^ 64 \<Longrightarrow> m = n"
  unfolding be_bytes_u64_def u64_range [symmetric] by (rule be_bytes_inject)

lemma ascii_bytes_length [simp]: "length (ascii_bytes s) = length s"
  by (simp add: ascii_bytes_def)

lemma ascii_bytes_inject [simp]: "ascii_bytes s = ascii_bytes t \<longleftrightarrow> s = t"
proof -
  have "c = d" if "(word_of_nat (byte_of c) :: u8) = word_of_nat (byte_of d)" for c d
    using that byte_of_less [of c] byte_of_less [of d]
    by (simp add: word_of_nat_eq_iff take_bit_eq_mod byte_of_inject)
  then have "inj (word_of_nat \<circ> byte_of :: char \<Rightarrow> u8)" by (auto intro: injI)
  then show ?thesis unfolding ascii_bytes_def by (rule inj_map_eq_map)
qed

lemma framed_Cons [simp]: "framed w (f # fs) = be_bytes w (length f) @ f @ framed w fs"
  by (simp add: framed_def)

lemma framed_Nil [simp]: "framed w [] = []"
  by (simp add: framed_def)

lemma framed_inject:
  "framed w xs @ r = framed w ys @ r' \<Longrightarrow> length xs = length ys \<Longrightarrow>
   list_all (\<lambda>f. length f < 256 ^ w) xs \<Longrightarrow> list_all (\<lambda>f. length f < 256 ^ w) ys \<Longrightarrow> xs = ys \<and> r = r'"
proof (induction xs arbitrary: ys)
  case (Cons x xs)
  then obtain y ys' where ys: "ys = y # ys'" by (cases ys) auto
  have eq: "be_bytes w (length x) @ x @ framed w xs @ r = be_bytes w (length y) @ y @ framed w ys' @ r'"
    using Cons.prems(1) ys by simp
  then have "be_bytes w (length x) = be_bytes w (length y)" by (simp add: append_eq_append_conv)
  then have "length x = length y"
    using Cons.prems(3,4) ys by (intro be_bytes_inject) auto
  with eq have "x = y \<and> framed w xs @ r = framed w ys' @ r'" by (simp add: append_eq_append_conv)
  with Cons ys show ?case by auto
qed simp

subsection \<open>Unicode strings\<close>

text \<open>Where a source tests UTF-8 lengths or character classes, a string is its list of Unicode scalar values.\<close>

type_synonym ustring = "nat list"

definition utf8_width :: "nat \<Rightarrow> nat" where
  "utf8_width c = (if c < 128 then 1 else if c < 2048 then 2 else if c < 65536 then 3 else 4)"

definition utf8_len :: "ustring \<Rightarrow> nat" where
  "utf8_len s = sum_list (map utf8_width s)"

text \<open>\<open>char::is_control\<close>: general category Cc.\<close>

definition char_is_control :: "nat \<Rightarrow> bool" where
  "char_is_control c \<longleftrightarrow> c < 32 \<or> 127 \<le> c \<and> c < 160"

subsection \<open>Pure reducers\<close>

text \<open>
  Several components own a pure transition over a validated snapshot: a refused input
  leaves the snapshot as it was, an accepted one yields the next snapshot and moves a
  version coordinate. \<open>run_inputs\<close> feeds a sequence of inputs to such a reducer the way
  their hosts do, keeping the old snapshot on an error.
\<close>

definition keep_on_err :: "'s \<Rightarrow> 'e + 's \<Rightarrow> 's" where
  "keep_on_err s r = (case r of Inl e \<Rightarrow> s | Inr s' \<Rightarrow> s')"

fun run_inputs :: "('s \<Rightarrow> 'i \<Rightarrow> 'e + 's) \<Rightarrow> 's \<Rightarrow> 'i list \<Rightarrow> 's" where
  "run_inputs step s [] = s"
| "run_inputs step s (i # is) = run_inputs step (keep_on_err s (step s i)) is"

lemma keep_on_err_simps [simp]:
  "keep_on_err s (Inl e) = s"
  "keep_on_err s (Inr s') = s'"
  by (simp_all add: keep_on_err_def)

lemma run_inputs_append [simp]:
  "run_inputs step s (xs @ ys) = run_inputs step (run_inputs step s xs) ys"
  by (induction xs arbitrary: s) auto

locale reducer =
  fixes step :: "'s \<Rightarrow> 'i \<Rightarrow> 'e + 's"
    and valid :: "'s \<Rightarrow> bool"
    and version :: "'s \<Rightarrow> 'v::preorder"
  assumes step_valid: "valid s \<Longrightarrow> step s i = Inr s' \<Longrightarrow> valid s'"
    and step_version: "valid s \<Longrightarrow> step s i = Inr s' \<Longrightarrow> version s \<le> version s'"
begin

lemma kept_valid: "valid s \<Longrightarrow> valid (keep_on_err s (step s i))"
  by (cases "step s i") (auto dest: step_valid)

lemma kept_version: "valid s \<Longrightarrow> version s \<le> version (keep_on_err s (step s i))"
  by (cases "step s i") (auto dest: step_version)

lemma run_valid: "valid s \<Longrightarrow> valid (run_inputs step s is)"
  by (induction "is" arbitrary: s) (auto intro: kept_valid)

lemma run_version: "valid s \<Longrightarrow> version s \<le> version (run_inputs step s is)"
proof (induction "is" arbitrary: s)
  case Nil
  then show ?case by simp
next
  case (Cons i "is")
  have "version s \<le> version (keep_on_err s (step s i))"
    using Cons.prems by (rule kept_version)
  also have "\<dots> \<le> version (run_inputs step (keep_on_err s (step s i)) is)"
    by (rule Cons.IH) (rule kept_valid [OF Cons.prems])
  finally show ?case by simp
qed

text \<open>Whatever holds in the initial snapshot and is kept by accepted steps holds in every run.\<close>

lemma run_invariant:
  assumes "valid s" and "P s"
    and "\<And>s i s'. valid s \<Longrightarrow> P s \<Longrightarrow> step s i = Inr s' \<Longrightarrow> P s'"
  shows "P (run_inputs step s is)"
  using assms(1,2)
proof (induction "is" arbitrary: s)
  case Nil
  then show ?case by simp
next
  case (Cons i "is")
  then have "P (keep_on_err s (step s i))"
    by (cases "step s i") (auto intro: assms(3))
  then show ?case
    using Cons.prems Cons.IH kept_valid by simp
qed

end

end
