(* ===== verification/Contract_Values.thy ===== *)
theory Contract_Values
  imports Rust_Prelude
begin

unbundle bit_operations_syntax

section \<open>Contract values (\<^verbatim>\<open>crates/contract\<close>)\<close>

text \<open>
  The authority-free value types of \<^verbatim>\<open>crates/contract/src/lib.rs\<close>: time points, page
  cursors, contract identifiers, versions, schema digests and descriptors, and the closed
  error vocabulary of \<^verbatim>\<open>safe_error.rs\<close>. The scanners of the source work byte by byte; the
  theorems relate each of them to a reference notion: base64url tokens to the RFC 4648
  encoder, identifiers to dotted lower-kebab segments, versions to their display.
\<close>

subsection \<open>Time points\<close>

datatype timepoint_error = BeforeEpoch | TimeOverflow

text \<open>
  A \<open>Duration\<close> is a number of nanoseconds, a \<open>SystemTime\<close> a signed offset from the epoch.
  Which offsets a platform can represent is the parameter \<open>representable\<close>.
\<close>

type_synonym duration = nat
type_synonym system_time = int
type_synonym timepoint = int

definition as_secs :: "duration \<Rightarrow> nat" where
  "as_secs d = d div 1000000000"

definition duration_since_epoch :: "system_time \<Rightarrow> duration option" where
  "duration_since_epoch t = (if t < 0 then None else Some (nat t))"

definition saturating_from_duration :: "duration \<Rightarrow> timepoint" where
  "saturating_from_duration d = (if int (as_secs d) \<le> i64_max then int (as_secs d) else i64_max)"

definition saturating_from_system_time :: "system_time \<Rightarrow> timepoint" where
  "saturating_from_system_time t =
     (case duration_since_epoch t of None \<Rightarrow> 0 | Some d \<Rightarrow> saturating_from_duration d)"

definition try_from_duration :: "duration \<Rightarrow> timepoint_error + timepoint" where
  "try_from_duration d =
     (if int (as_secs d) \<le> i64_max then Ok (int (as_secs d)) else Err TimeOverflow)"

definition timepoint_try_from_system_time :: "system_time \<Rightarrow> timepoint_error + timepoint" where
  "timepoint_try_from_system_time t =
     and_then (ok_or (duration_since_epoch t) BeforeEpoch) try_from_duration"

definition timepoint_try_from_i64 :: "int \<Rightarrow> timepoint_error + timepoint" where
  "timepoint_try_from_i64 v = (if v < 0 then Err BeforeEpoch else Ok v)"

definition to_system_time ::
  "(system_time \<Rightarrow> bool) \<Rightarrow> timepoint \<Rightarrow> timepoint_error + system_time" where
  "to_system_time representable p =
     (if p < 0 then Err BeforeEpoch
      else (let t = p * 1000000000 in if representable t then Ok t else Err TimeOverflow))"

subsection \<open>Page cursors\<close>

datatype page_cursor_error = CursorMalformed | CursorTooLong | CursorStale

definition base64url_value :: "char \<Rightarrow> nat option" where
  "base64url_value c =
     (let b = byte_of c in
      if 65 \<le> b \<and> b \<le> 90 then Some (b - 65)
      else if 97 \<le> b \<and> b \<le> 122 then Some (b - 97 + 26)
      else if 48 \<le> b \<and> b \<le> 57 then Some (b - 48 + 52)
      else if b = 45 then Some 62
      else if b = 95 then Some 63
      else None)"

definition canonical_base64url_no_pad :: "string \<Rightarrow> bool" where
  "canonical_base64url_no_pad s =
     (if s = [] \<or> length s mod 4 = 1 then False
      else if \<not> list_all (\<lambda>c. base64url_value c \<noteq> None) s then False
      else if length s mod 4 = 2 then
        (case base64url_value (s ! (length s - 1)) of None \<Rightarrow> False | Some v \<Rightarrow> v AND 15 = 0)
      else if length s mod 4 = 3 then
        (case base64url_value (s ! (length s - 1)) of None \<Rightarrow> False | Some v \<Rightarrow> v AND 3 = 0)
      else True)"

definition page_cursor_parse :: "string \<Rightarrow> page_cursor_error + string" where
  "page_cursor_parse raw =
     (if length raw > 4096 then Err CursorTooLong
      else if \<not> canonical_base64url_no_pad raw then Err CursorMalformed
      else Ok raw)"

subsection \<open>Contract identifiers, versions and digests\<close>

datatype identity_error = IdEmpty | IdTooLong | IdInvalidFormat | IdZeroVersion

fun contract_id_scan :: "bool \<Rightarrow> bool \<Rightarrow> string \<Rightarrow> bool" where
  "contract_id_scan segment_start dotted [] = (dotted \<and> \<not> segment_start)"
| "contract_id_scan segment_start dotted (b # bs) =
     (if segment_start then
        (if \<not> is_ascii_lowercase b then False else contract_id_scan False dotted bs)
      else if b = CHR ''.'' then contract_id_scan True True bs
      else if b = CHR ''-'' then
        (case bs of
           [] \<Rightarrow> False
         | n # _ \<Rightarrow>
             if \<not> (is_ascii_lowercase n \<or> is_ascii_digit n) then False
             else contract_id_scan False dotted bs)
      else if \<not> (is_ascii_lowercase b \<or> is_ascii_digit b) then False
      else contract_id_scan False dotted bs)"

definition valid_contract_id :: "string \<Rightarrow> bool" where
  "valid_contract_id s =
     (if s = [] \<or> length s > 255 then False else contract_id_scan True False s)"

definition contract_id_parse :: "string \<Rightarrow> identity_error + string" where
  "contract_id_parse s =
     (if s = [] then Err IdEmpty
      else if length s > 255 then Err IdTooLong
      else if \<not> valid_contract_id s then Err IdInvalidFormat
      else Ok s)"

definition u32_max :: nat where
  "u32_max = 4294967295"

text \<open>\<open>str::parse::<u32>\<close> of the standard library: checked multiply and add per digit.\<close>

fun parse_u32_digits :: "nat \<Rightarrow> string \<Rightarrow> nat option" where
  "parse_u32_digits acc [] = Some acc"
| "parse_u32_digits acc (c # cs) =
     (if \<not> is_ascii_digit c then None
      else if acc * 10 > u32_max then None
      else if acc * 10 + digit_value c > u32_max then None
      else parse_u32_digits (acc * 10 + digit_value c) cs)"

definition parse_u32 :: "string \<Rightarrow> nat option" where
  "parse_u32 s =
     (if s = [] then None
      else if hd s = CHR ''+'' \<and> tl s \<noteq> [] then parse_u32_digits 0 (tl s)
      else parse_u32_digits 0 s)"

definition contract_version_from_major :: "nat \<Rightarrow> identity_error + nat" where
  "contract_version_from_major major = (if major = 0 then Err IdZeroVersion else Ok major)"

definition contract_version_parse :: "string \<Rightarrow> identity_error + nat" where
  "contract_version_parse s =
     (case s of
        [] \<Rightarrow> Err IdInvalidFormat
      | c # digits \<Rightarrow>
          if c \<noteq> CHR ''v'' then Err IdInvalidFormat
          else if digits = [] \<or> hd digits = CHR ''0'' \<or> \<not> list_all is_ascii_digit digits
          then Err IdInvalidFormat
          else and_then (ok_or (parse_u32 digits) IdInvalidFormat) contract_version_from_major)"

definition contract_version_display :: "nat \<Rightarrow> string" where
  "contract_version_display major = CHR ''v'' # show_nat major"

text \<open>
  Compile-time construction; a failed \<open>assert!\<close> is a panic, the value \<open>None\<close>.
\<close>

fun static_version_loop :: "nat \<Rightarrow> string \<Rightarrow> nat option" where
  "static_version_loop major [] = Some major"
| "static_version_loop major (b # bs) =
     (if \<not> is_ascii_digit b then None
      else if \<not> major \<le> (u32_max - digit_value b) div 10 then None
      else static_version_loop (major * 10 + digit_value b) bs)"

definition parse_static_version :: "string \<Rightarrow> nat option" where
  "parse_static_version s =
     (if \<not> (length s \<ge> 2 \<and> s ! 0 = CHR ''v'') then None
      else if \<not> (length s = 2 \<or> s ! 1 \<noteq> CHR ''0'') then None
      else (case static_version_loop 0 (drop 1 s) of
              None \<Rightarrow> None
            | Some major \<Rightarrow> if major = 0 then None else Some major))"

definition valid_schema_digest :: "string \<Rightarrow> bool" where
  "valid_schema_digest s =
     (if length s \<noteq> 7 + 64 then False
      else take 7 s = ''sha256:'' \<and>
           list_all (\<lambda>b. is_ascii_digit b \<or> 97 \<le> byte_of b \<and> byte_of b \<le> 102) (drop 7 s))"

definition schema_digest_parse :: "string \<Rightarrow> identity_error + string" where
  "schema_digest_parse s = (if \<not> valid_schema_digest s then Err IdInvalidFormat else Ok s)"

record contract_descriptor =
  cd_id :: string
  cd_version :: nat
  cd_schema_digest :: string

definition descriptor_from_static_parts ::
  "string \<Rightarrow> nat \<Rightarrow> string \<Rightarrow> contract_descriptor option" where
  "descriptor_from_static_parts i v d =
     (if \<not> valid_contract_id i then None
      else if \<not> valid_schema_digest d then None
      else Some \<lparr>cd_id = i, cd_version = v, cd_schema_digest = d\<rparr>)"

definition descriptor_from_static_version ::
  "string \<Rightarrow> string \<Rightarrow> string \<Rightarrow> contract_descriptor option" where
  "descriptor_from_static_version i v d =
     (case parse_static_version v of None \<Rightarrow> None | Some m \<Rightarrow> descriptor_from_static_parts i m d)"

definition descriptor_from_static ::
  "string \<Rightarrow> nat \<Rightarrow> string \<Rightarrow> contract_descriptor option" where
  "descriptor_from_static i m d = (if m = 0 then None else descriptor_from_static_parts i m d)"

subsection \<open>Closed vocabularies\<close>

datatype data_class = DC_Public | DC_Internal | DC_Pii | DC_Secret

fun data_class_as_str :: "data_class \<Rightarrow> string" where
  "data_class_as_str DC_Public = ''public''"
| "data_class_as_str DC_Internal = ''internal''"
| "data_class_as_str DC_Pii = ''pii''"
| "data_class_as_str DC_Secret = ''secret''"

datatype safe_error_category =
  SEC_InvalidInput | SEC_Authentication | SEC_Authorization | SEC_NotFound
  | SEC_Conflict | SEC_RateLimited | SEC_Unavailable | SEC_Internal

fun safe_error_category_as_str :: "safe_error_category \<Rightarrow> string" where
  "safe_error_category_as_str SEC_InvalidInput = ''invalid-input''"
| "safe_error_category_as_str SEC_Authentication = ''authentication''"
| "safe_error_category_as_str SEC_Authorization = ''authorization''"
| "safe_error_category_as_str SEC_NotFound = ''not-found''"
| "safe_error_category_as_str SEC_Conflict = ''conflict''"
| "safe_error_category_as_str SEC_RateLimited = ''rate-limited''"
| "safe_error_category_as_str SEC_Unavailable = ''unavailable''"
| "safe_error_category_as_str SEC_Internal = ''internal''"

datatype safe_error_code =
  SE_InvalidInput | SE_Unauthenticated | SE_Forbidden | SE_NotFound
  | SE_Conflict | SE_RateLimited | SE_Unavailable | SE_Internal

fun safe_error_code_as_str :: "safe_error_code \<Rightarrow> string" where
  "safe_error_code_as_str SE_InvalidInput = ''invalid-input''"
| "safe_error_code_as_str SE_Unauthenticated = ''unauthenticated''"
| "safe_error_code_as_str SE_Forbidden = ''forbidden''"
| "safe_error_code_as_str SE_NotFound = ''not-found''"
| "safe_error_code_as_str SE_Conflict = ''conflict''"
| "safe_error_code_as_str SE_RateLimited = ''rate-limited''"
| "safe_error_code_as_str SE_Unavailable = ''unavailable''"
| "safe_error_code_as_str SE_Internal = ''internal''"

fun safe_error_code_category :: "safe_error_code \<Rightarrow> safe_error_category" where
  "safe_error_code_category SE_InvalidInput = SEC_InvalidInput"
| "safe_error_code_category SE_Unauthenticated = SEC_Authentication"
| "safe_error_code_category SE_Forbidden = SEC_Authorization"
| "safe_error_code_category SE_NotFound = SEC_NotFound"
| "safe_error_code_category SE_Conflict = SEC_Conflict"
| "safe_error_code_category SE_RateLimited = SEC_RateLimited"
| "safe_error_code_category SE_Unavailable = SEC_Unavailable"
| "safe_error_code_category SE_Internal = SEC_Internal"

fun safe_error_code_message :: "safe_error_code \<Rightarrow> string" where
  "safe_error_code_message SE_InvalidInput = ''invalid input''"
| "safe_error_code_message SE_Unauthenticated = ''authentication required''"
| "safe_error_code_message SE_Forbidden = ''access denied''"
| "safe_error_code_message SE_NotFound = ''not found''"
| "safe_error_code_message SE_Conflict = ''conflict''"
| "safe_error_code_message SE_RateLimited = ''rate limited''"
| "safe_error_code_message SE_Unavailable = ''service unavailable''"
| "safe_error_code_message SE_Internal = ''internal error''"

section \<open>Properties\<close>

subsection \<open>Base64url tokens\<close>

text \<open>The RFC 4648 unpadded encoder, the reference for canonical tokens.\<close>

definition b64_char :: "nat \<Rightarrow> char" where
  "b64_char n =
     (if n < 26 then char_of (65 + n)
      else if n < 52 then char_of (71 + n)
      else if n < 62 then char_of (n - 4)
      else if n = 62 then CHR ''-'' else CHR ''_'')"

fun b64_encode :: "nat list \<Rightarrow> string" where
  "b64_encode [] = []"
| "b64_encode [a] = [b64_char (a div 4), b64_char (a mod 4 * 16)]"
| "b64_encode [a, b] =
     [b64_char (a div 4), b64_char (a mod 4 * 16 + b div 16), b64_char (b mod 16 * 4)]"
| "b64_encode (a # b # c # r) =
     b64_char (a div 4) # b64_char (a mod 4 * 16 + b div 16) #
     b64_char (b mod 16 * 4 + c div 64) # b64_char (c mod 64) # b64_encode r"

text \<open>Canonical tokens, four characters at a time.\<close>

fun b64_canon :: "string \<Rightarrow> bool" where
  "b64_canon [] = True"
| "b64_canon [w] = False"
| "b64_canon [w, x] =
     (base64url_value w \<noteq> None \<and> (\<exists>v. base64url_value x = Some v \<and> v mod 16 = 0))"
| "b64_canon [w, x, y] =
     (base64url_value w \<noteq> None \<and> base64url_value x \<noteq> None \<and>
      (\<exists>v. base64url_value y = Some v \<and> v mod 4 = 0))"
| "b64_canon (w # x # y # z # r) =
     (base64url_value w \<noteq> None \<and> base64url_value x \<noteq> None \<and>
      base64url_value y \<noteq> None \<and> base64url_value z \<noteq> None \<and> b64_canon r)"

lemma base64url_value_char: "n < 64 \<Longrightarrow> base64url_value (b64_char n) = Some n"
  by (auto simp: base64url_value_def b64_char_def byte_of_def Let_def)

lemma char_base64url_value:
  assumes "base64url_value c = Some n"
  shows "n < 64" and "b64_char n = c"
proof -
  have sym: "byte_of CHR ''-'' = 45" "byte_of CHR ''_'' = 95"
    by (simp_all add: byte_of_def)
  have *: "n < 64 \<and> byte_of (b64_char n) = byte_of c"
    using assms sym by (auto simp: base64url_value_def b64_char_def Let_def split: if_splits)
  then show "n < 64" and "b64_char n = c" by (simp_all add: byte_of_inject)
qed

lemma and_low_bits: "(v::nat) AND 15 = v mod 16" "(v::nat) AND 3 = v mod 4"
proof -
  have "(v::nat) AND mask 4 = v mod 16" "(v::nat) AND mask 2 = v mod 4"
    by (simp_all flip: take_bit_eq_mask add: take_bit_eq_mod)
  then show "(v::nat) AND 15 = v mod 16" "(v::nat) AND 3 = v mod 4"
    by (simp_all add: mask_eq_exp_minus_1)
qed

lemma canonical_iff_canon: "canonical_base64url_no_pad s \<longleftrightarrow> s \<noteq> [] \<and> b64_canon s"
proof (induction s rule: b64_canon.induct)
  case (5 w x y z r)
  show ?case
  proof (cases "r = []")
    case True
    then show ?thesis by (auto simp: canonical_base64url_no_pad_def)
  next
    case False
    then have "(w # x # y # z # r) ! (length (w # x # y # z # r) - 1) = r ! (length r - 1)"
      by (simp add: nth_Cons' numeral_eq_Suc)
    with False 5 show ?thesis
      by (auto simp: canonical_base64url_no_pad_def split: option.splits if_splits)
  qed
qed (auto simp: canonical_base64url_no_pad_def and_low_bits split: option.splits)

lemma b64_canon_encode: "\<forall>b \<in> set bs. b < 256 \<Longrightarrow> b64_canon (b64_encode bs)"
proof (induction bs rule: b64_encode.induct)
  case (2 a)
  then show ?case by (simp add: base64url_value_char)
next
  case (3 a b)
  then have "a mod 4 * 16 + b div 16 < 64" "b mod 16 * 4 < 64" "a div 4 < 64"
    by auto
  then show ?case by (simp add: base64url_value_char)
next
  case (4 a b c r)
  then have "a mod 4 * 16 + b div 16 < 64" "b mod 16 * 4 + c div 64 < 64" "a div 4 < 64"
    by auto
  with 4 show ?case by (simp add: base64url_value_char)
qed simp

lemma b64_encode_surj: "b64_canon s \<Longrightarrow> \<exists>bs. (\<forall>b \<in> set bs. b < 256) \<and> b64_encode bs = s"
proof (induction s rule: b64_canon.induct)
  case 1
  show ?case by (rule exI [of _ "[]"]) simp
next
  case (3 w x)
  then obtain u v where v: "base64url_value w = Some u" "base64url_value x = Some v" "v mod 16 = 0"
    by auto
  note b = char_base64url_value [OF v(1)] char_base64url_value [OF v(2)]
  show ?case
    by (rule exI [of _ "[u * 4 + v div 16]"]) (use b v(3) in \<open>auto simp: mult_ac\<close>)
next
  case (4 w x y)
  then obtain u v t where v: "base64url_value w = Some u" "base64url_value x = Some v"
    "base64url_value y = Some t" "t mod 4 = 0" by auto
  note b = char_base64url_value [OF v(1)] char_base64url_value [OF v(2)] char_base64url_value [OF v(3)]
  have "v mod 16 * 16 + t div 4 < 256" "(v mod 16 * 16 + t div 4) div 16 = v mod 16"
    "(v mod 16 * 16 + t div 4) mod 16 = t div 4"
    using b by auto
  then show ?case
    by (intro exI [of _ "[u * 4 + v div 16, v mod 16 * 16 + t div 4]"])
      (use b v(4) in \<open>auto simp: mult_ac\<close>)
next
  case (5 w x y z r)
  then obtain u v t q where v: "base64url_value w = Some u" "base64url_value x = Some v"
    "base64url_value y = Some t" "base64url_value z = Some q" by auto
  note b = char_base64url_value [OF v(1)] char_base64url_value [OF v(2)]
    char_base64url_value [OF v(3)] char_base64url_value [OF v(4)]
  from 5 obtain bs where bs: "\<forall>b \<in> set bs. b < 256" "b64_encode bs = r" by auto
  have "v mod 16 * 16 + t div 4 < 256" "(v mod 16 * 16 + t div 4) div 16 = v mod 16"
    "(v mod 16 * 16 + t div 4) mod 16 = t div 4" "t mod 4 * 64 + q < 256"
    "(t mod 4 * 64 + q) div 64 = t mod 4" "(t mod 4 * 64 + q) mod 64 = q"
    using b by auto
  then show ?case
    by (intro exI [of _ "(u * 4 + v div 16) # (v mod 16 * 16 + t div 4) # (t mod 4 * 64 + q) # bs"])
      (use b bs in \<open>auto simp: mult_ac\<close>)
qed auto

text \<open>
  A page cursor is accepted exactly when it is at most 4096 bytes long and is the
  unpadded base64url encoding of some non-empty byte string; in particular every token has
  one spelling, since trailing bits that the encoder leaves zero must be zero.
\<close>

theorem page_cursor_parse_iff_encoding:
  "page_cursor_parse raw = Ok tok \<longleftrightarrow>
     tok = raw \<and> length raw \<le> 4096 \<and>
     (\<exists>bs. bs \<noteq> [] \<and> set bs \<subseteq> {..<256} \<and> b64_encode bs = raw)"
proof -
  have nil: "b64_encode bs = [] \<longleftrightarrow> bs = []" for bs
    by (induction bs rule: b64_encode.induct) auto
  have "canonical_base64url_no_pad raw \<longleftrightarrow>
      (\<exists>bs. bs \<noteq> [] \<and> set bs \<subseteq> {..<256} \<and> b64_encode bs = raw)"
    unfolding canonical_iff_canon
    using b64_encode_surj [of raw] b64_canon_encode nil by (auto simp: subset_iff)
  then show ?thesis
    by (auto simp: page_cursor_parse_def)
qed

subsection \<open>Contract identifiers\<close>

definition lower_or_digit :: "char \<Rightarrow> bool" where
  "lower_or_digit c \<longleftrightarrow> is_ascii_lowercase c \<or> is_ascii_digit c"

text \<open>
  The documented grammar: a lower-kebab segment starts with a lowercase letter and its
  hyphen-separated pieces are non-empty runs of lowercase letters and digits.
\<close>

definition kebab_segment :: "string \<Rightarrow> bool" where
  "kebab_segment s \<longleftrightarrow>
     s \<noteq> [] \<and> is_ascii_lowercase (hd s) \<and>
     (\<forall>p \<in> set (split_on CHR ''-'' s). p \<noteq> [] \<and> list_all lower_or_digit p)"

definition kebab_tail :: "string \<Rightarrow> bool" where
  "kebab_tail s \<longleftrightarrow>
     list_all lower_or_digit (hd (split_on CHR ''-'' s)) \<and>
     (\<forall>p \<in> set (tl (split_on CHR ''-'' s)). p \<noteq> [] \<and> list_all lower_or_digit p)"

lemma not_lower_or_digit [simp]:
  "\<not> lower_or_digit CHR ''-''" "\<not> lower_or_digit CHR ''.''"
  "\<not> is_ascii_lowercase CHR ''-''" "\<not> is_ascii_lowercase CHR ''.''"
  by (simp_all add: lower_or_digit_def rust_defs)

lemma kebab_segment_Cons: "kebab_segment (b # s) \<longleftrightarrow> is_ascii_lowercase b \<and> kebab_tail s"
proof (cases "b = CHR ''-''")
  case False
  have "set (split_on CHR ''-'' s) = insert (hd (split_on CHR ''-'' s)) (set (tl (split_on CHR ''-'' s)))"
    by (cases "split_on CHR ''-'' s") auto
  with False show ?thesis
    by (auto simp: kebab_segment_def kebab_tail_def lower_or_digit_def)
qed (simp add: kebab_segment_def)

lemma kebab_tail_Nil [simp]: "kebab_tail []"
  by (simp add: kebab_tail_def)

lemma kebab_tail_hyphen:
  "kebab_tail (CHR ''-'' # s) \<longleftrightarrow> s \<noteq> [] \<and> lower_or_digit (hd s) \<and> kebab_tail s"
proof (cases s)
  case (Cons c cs)
  have "set (split_on CHR ''-'' s) = insert (hd (split_on CHR ''-'' s)) (set (tl (split_on CHR ''-'' s)))"
    by (cases "split_on CHR ''-'' s") auto
  with Cons show ?thesis
    by (auto simp: kebab_tail_def)
qed (simp add: kebab_tail_def)

lemma kebab_tail_char:
  "b \<noteq> CHR ''-'' \<Longrightarrow> kebab_tail (b # s) \<longleftrightarrow> lower_or_digit b \<and> kebab_tail s"
  by (auto simp: kebab_tail_def)

lemma contract_id_scan_segments:
  "contract_id_scan False d s \<longleftrightarrow>
     kebab_tail (hd (split_on CHR ''.'' s)) \<and>
     list_all kebab_segment (tl (split_on CHR ''.'' s)) \<and> (d \<or> tl (split_on CHR ''.'' s) \<noteq> [])"
  "contract_id_scan True d s \<longleftrightarrow>
     list_all kebab_segment (split_on CHR ''.'' s) \<and> (d \<or> tl (split_on CHR ''.'' s) \<noteq> [])"
proof (induction s arbitrary: d)
  case Nil
  {
    case 1
    show ?case by simp
  next
    case 2
    show ?case by (simp add: kebab_segment_def)
  }
next
  case (Cons b s)
  have hd_split: "s \<noteq> [] \<Longrightarrow> lower_or_digit (hd s) \<Longrightarrow>
      hd (split_on CHR ''.'' s) \<noteq> [] \<and> hd (hd (split_on CHR ''.'' s)) = hd s"
    by (cases s) auto
  have hd_split': "hd (split_on CHR ''.'' s) \<noteq> [] \<Longrightarrow>
      s \<noteq> [] \<and> hd (hd (split_on CHR ''.'' s)) = hd s"
    by (cases s) (auto split: if_splits)
  {
    case 1
    consider (hyphen) "b = CHR ''-''" | (dot) "b = CHR ''.''"
      | (other) "b \<noteq> CHR ''-''" "b \<noteq> CHR ''.''" by blast
    then show ?case
    proof cases
      case hyphen
      have "contract_id_scan False d (b # s) \<longleftrightarrow>
          s \<noteq> [] \<and> lower_or_digit (hd s) \<and> contract_id_scan False d s"
        using hyphen by (simp add: lower_or_digit_def split: list.splits)
      also have "\<dots> \<longleftrightarrow> kebab_tail (b # hd (split_on CHR ''.'' s)) \<and>
          list_all kebab_segment (tl (split_on CHR ''.'' s)) \<and> (d \<or> tl (split_on CHR ''.'' s) \<noteq> [])"
        unfolding hyphen kebab_tail_hyphen Cons(1) using hd_split hd_split' by metis
      finally show ?thesis using hyphen by simp
    next
      case dot
      then show ?thesis by (simp add: Cons(2))
    next
      case other
      then have "contract_id_scan False d (b # s) \<longleftrightarrow> lower_or_digit b \<and> contract_id_scan False d s"
        by (simp add: lower_or_digit_def)
      with other show ?thesis by (simp add: Cons(1) kebab_tail_char)
    qed
  next
    case 2
    have "contract_id_scan True d (b # s) \<longleftrightarrow> is_ascii_lowercase b \<and> contract_id_scan False d s"
      by simp
    moreover have "\<not> kebab_segment []"
      by (simp add: kebab_segment_def)
    ultimately show ?case
      by (cases "b = CHR ''.''") (simp_all add: Cons(1) kebab_segment_Cons del: contract_id_scan.simps)
  }
qed

text \<open>
  \<open>ContractId::parse\<close> accepts exactly the documented identifiers: at most 255 bytes,
  at least two dot-separated segments, each in lower-kebab form. The value is kept as it is.
\<close>

theorem contract_id_parse_iff_grammar:
  "contract_id_parse s = Ok r \<longleftrightarrow>
     r = s \<and> length s \<le> 255 \<and> 2 \<le> length (split_on CHR ''.'' s) \<and>
     list_all kebab_segment (split_on CHR ''.'' s)"
proof -
  have len: "2 \<le> length (split_on CHR ''.'' s) \<longleftrightarrow> tl (split_on CHR ''.'' s) \<noteq> []"
    by (cases "split_on CHR ''.'' s"; cases "tl (split_on CHR ''.'' s)") auto
  have "s = [] \<Longrightarrow> \<not> list_all kebab_segment (split_on CHR ''.'' s)"
    by (simp add: kebab_segment_def)
  then show ?thesis
    unfolding contract_id_parse_def valid_contract_id_def contract_id_scan_segments len
    by auto
qed

subsection \<open>Contract versions\<close>

lemma parse_u32_digits_value:
  "list_all is_ascii_digit cs \<Longrightarrow> acc \<le> u32_max \<Longrightarrow>
     parse_u32_digits acc cs =
       (if digits_value acc cs \<le> u32_max then Some (digits_value acc cs) else None)"
proof (induction cs arbitrary: acc)
  case Nil
  then show ?case by simp
next
  case (Cons c cs)
  have mono: "acc \<le> digits_value acc cs" for acc
    by (induction cs arbitrary: acc) (simp, fastforce intro: order_trans [rotated])
  show ?case
    using Cons mono [of "acc * 10 + digit_value c"] by auto
qed

lemma static_version_loop_eq:
  "acc \<le> u32_max \<Longrightarrow> static_version_loop acc cs = parse_u32_digits acc cs"
proof (induction cs arbitrary: acc)
  case (Cons c cs)
  have "is_ascii_digit c \<Longrightarrow> (acc \<le> (u32_max - digit_value c) div 10 \<longleftrightarrow>
      acc * 10 + digit_value c \<le> u32_max)"
    using digit_value_less [of c] by (auto simp: u32_max_def less_eq_div_iff_mult_less_eq)
  with Cons show ?case by auto
qed simp

lemma digit_zero_iff: "is_ascii_digit c \<Longrightarrow> digit_value c = 0 \<longleftrightarrow> c = CHR ''0''"
proof -
  have "byte_of CHR ''0'' = 48" by (simp add: byte_of_def)
  moreover assume "is_ascii_digit c"
  ultimately show ?thesis
    by (subst byte_of_inject [symmetric]) (auto simp: digit_value_def is_ascii_digit_def)
qed

lemma plus_not_digit [simp]: "\<not> is_ascii_digit CHR ''+''"
  by (simp add: rust_defs)

lemma contract_version_parse_digits:
  "contract_version_parse (CHR ''v'' # cs) = Ok m \<longleftrightarrow>
     cs \<noteq> [] \<and> hd cs \<noteq> CHR ''0'' \<and> list_all is_ascii_digit cs \<and>
     parse_u32_digits 0 cs = Some m \<and> m \<noteq> 0"
  by (cases cs) (auto simp: contract_version_parse_def parse_u32_def contract_version_from_major_def
      result_iffs split: if_splits)

text \<open>
  Version parsing and display are inverse to each other: a string parses to a version
  exactly when it is the display of that version and the version is a non-zero \<open>u32\<close>.
\<close>

theorem contract_version_roundtrip:
  "contract_version_parse s = Ok m \<longleftrightarrow>
     s = contract_version_display m \<and> 0 < m \<and> m \<le> u32_max"
proof
  assume "contract_version_parse s = Ok m"
  moreover from this obtain cs where s: "s = CHR ''v'' # cs"
    by (auto simp: contract_version_parse_def split: list.splits if_splits)
  ultimately have cs: "cs \<noteq> []" "hd cs \<noteq> CHR ''0''" "list_all is_ascii_digit cs"
      "parse_u32_digits 0 cs = Some m"
    by (auto simp: contract_version_parse_digits)
  then have m: "m = digits_value 0 cs" "m \<le> u32_max"
    by (auto simp: parse_u32_digits_value split: if_splits)
  have "digit_value (hd cs) \<noteq> 0"
    using cs by (cases cs) (auto simp: digit_zero_iff)
  with show_nat_digits_value [of cs] cs m s
  show "s = contract_version_display m \<and> 0 < m \<and> m \<le> u32_max"
    by (simp add: contract_version_display_def)
next
  assume a: "s = contract_version_display m \<and> 0 < m \<and> m \<le> u32_max"
  have d: "list_all is_ascii_digit (show_nat m)" by (rule show_nat_digits)
  then have "is_ascii_digit (hd (show_nat m))"
    by (cases "show_nat m") auto
  with a hd_show_nat [of m] have "hd (show_nat m) \<noteq> CHR ''0''"
    by (auto simp: digit_zero_iff)
  with a d show "contract_version_parse s = Ok m"
    by (simp add: contract_version_display_def contract_version_parse_digits
        parse_u32_digits_value show_nat_value)
qed

text \<open>
  The compile-time parser and the run-time parser agree: a static version literal
  survives the assertions exactly when \<open>ContractVersion::parse\<close> accepts it, with the same value.
\<close>

theorem parse_static_version_agrees:
  "parse_static_version s = Some m \<longleftrightarrow> contract_version_parse s = Ok m"
proof (cases s)
  case Nil
  then show ?thesis by (simp add: parse_static_version_def contract_version_parse_def)
next
  case (Cons c cs)
  show ?thesis
  proof (cases "c = CHR ''v'' \<and> cs \<noteq> []")
    case True
    then obtain d ds where ds: "cs = d # ds" by (cases cs) auto
    have digits: "parse_u32_digits a xs = Some n \<Longrightarrow> list_all is_ascii_digit xs" for a xs n
      by (induction xs arbitrary: a) (auto split: if_splits)
    have "digit_value CHR ''0'' = 0"
      by (simp add: digit_value_def byte_of_def)
    then have zero: "d = CHR ''0'' \<Longrightarrow> ds = [] \<Longrightarrow> parse_u32_digits 0 cs = Some m \<Longrightarrow> m = 0"
      using ds by (auto split: if_splits)
    have "parse_static_version s = Some m \<longleftrightarrow>
        (ds = [] \<or> d \<noteq> CHR ''0'') \<and> parse_u32_digits 0 cs = Some m \<and> m \<noteq> 0"
      using True Cons ds by (auto simp: parse_static_version_def static_version_loop_eq
          simp del: static_version_loop.simps parse_u32_digits.simps split: option.splits)
    also have "\<dots> \<longleftrightarrow> contract_version_parse s = Ok m"
      using True Cons ds zero digits [of 0 cs m]
      by (auto simp: contract_version_parse_digits simp del: parse_u32_digits.simps)
    finally show ?thesis .
  next
    case False
    with Cons show ?thesis
      by (auto simp: parse_static_version_def contract_version_parse_def)
  qed
qed

end
