(* ===== verification/Device_Command.thy ===== *)
theory Device_Command
  imports Rust_Prelude
begin

section \<open>Device commands (\<^verbatim>\<open>crates/device-command\<close>)\<close>

text \<open>
  The command lifecycle of \<^verbatim>\<open>model.rs\<close> and \<^verbatim>\<open>state.rs\<close>: identities and coordinates, the
  persisted record with its validator, the \<open>decision\<close> table, and the single reducer
  \<open>Command::transition\<close> with its device-facing wrapper \<open>Command::report\<close>. A \<open>Command\<close> of
  the source is a record that passed \<open>validate\<close>; here it is the record itself and the
  theorems carry \<open>valid_record\<close>. The main theorem shows that on validated commands the
  reducer is exactly the abstract lifecycle automaton with a clock guard.
\<close>

subsection \<open>Values\<close>

datatype dc_error =
  DC_InvalidValue | DC_InvalidSnapshot | DC_DeadlineElapsed | DC_Fenced | DC_Conflict
  | DC_VersionOverflow

type_synonym uuid = "128 word"
type_synonym tenant_id = uuid
type_synonym device_id = uuid
type_synonym command_id = string
type_synonym state_digest = bytes

text \<open>\<open>Uuid::parse_str\<close> is the parser of the \<^verbatim>\<open>uuid\<close> crate, a parameter here.\<close>

definition device_id_parse :: "(string \<Rightarrow> uuid option) \<Rightarrow> string \<Rightarrow> dc_error + device_id" where
  "device_id_parse parse_str raw =
     and_then (ok_or (parse_str raw) DC_InvalidValue)
       (\<lambda>i. if i = 0 then Err DC_InvalidValue else Ok i)"

definition command_id_byte :: "char \<Rightarrow> bool" where
  "command_id_byte b \<longleftrightarrow> is_ascii_alphanumeric b \<or> b \<in> set ''_.:-''"

definition command_id_parse :: "string \<Rightarrow> dc_error + command_id" where
  "command_id_parse raw =
     (if raw = [] \<or> length raw > 255 \<or> \<not> list_all command_id_byte raw
      then Err DC_InvalidValue else Ok raw)"

record dc_scope =
  tenant :: tenant_id
  device :: device_id

record coordinate =
  generation :: int
  epoch :: int

definition coordinate_new :: "int \<Rightarrow> int \<Rightarrow> dc_error + coordinate" where
  "coordinate_new g e =
     (if g < 1 \<or> e < 1 then Err DC_InvalidValue else Ok \<lparr>generation = g, epoch = e\<rparr>)"

definition supersedes :: "coordinate \<Rightarrow> coordinate \<Rightarrow> bool" where
  "supersedes new old \<longleftrightarrow> generation new \<ge> generation old \<and> epoch new > epoch old"

record command_spec =
  spec_scope :: dc_scope
  spec_id :: command_id
  spec_coordinate :: coordinate
  expected :: state_digest
  deadline :: int

datatype device_event = DevReceived | DevRejected | DevReported state_digest

record device_report =
  rep_scope :: dc_scope
  rep_command_id :: command_id
  rep_coordinate :: coordinate
  rep_event :: device_event

definition dc_batch_limit_new :: "nat \<Rightarrow> dc_error + nat" where
  "dc_batch_limit_new v = (if v = 0 \<or> v > 64 then Err DC_InvalidValue else Ok v)"

subsection \<open>Status vocabulary\<close>

datatype status =
  Queued | Published | Received | Applied | Rejected | TimedOut | Superseded | Cancelled

definition status_all :: "status list" where
  "status_all = [Queued, Published, Received, Applied, Rejected, TimedOut, Superseded, Cancelled]"

fun status_as_str :: "status \<Rightarrow> string" where
  "status_as_str Queued = ''queued''"
| "status_as_str Published = ''published''"
| "status_as_str Received = ''received''"
| "status_as_str Applied = ''applied''"
| "status_as_str Rejected = ''rejected''"
| "status_as_str TimedOut = ''timed_out''"
| "status_as_str Superseded = ''superseded''"
| "status_as_str Cancelled = ''cancelled''"

definition status_restore :: "string \<Rightarrow> dc_error + status" where
  "status_restore raw = ok_or (List.find (\<lambda>s. status_as_str s = raw) status_all) DC_InvalidSnapshot"

definition is_terminal :: "status \<Rightarrow> bool" where
  "is_terminal s \<longleftrightarrow> s \<notin> {Queued, Published, Received}"

datatype event =
  EvPublished | EvReceived | EvReported state_digest | EvRejected | EvExpire | EvCancel | EvSupersede

datatype outcome = Advanced | Duplicate | Late | OutOfOrder

subsection \<open>Persisted record and its validator\<close>

record command =
  spec :: command_spec
  version :: int
  status :: status
  queued_at :: int
  published_at :: "int option"
  received_at :: "int option"
  terminal_at :: "int option"

definition steps_of :: "command \<Rightarrow> int" where
  "steps_of r =
     1 + of_bool (published_at r \<noteq> None) + of_bool (received_at r \<noteq> None)
       + of_bool (terminal_at r \<noteq> None)"

fun monotone_times :: "int \<Rightarrow> int list \<Rightarrow> bool" where
  "monotone_times previous [] = True"
| "monotone_times previous (t # ts) = (if t < previous then False else monotone_times t ts)"

definition milestones :: "command \<Rightarrow> int list" where
  "milestones r = List.map_filter id [published_at r, received_at r, terminal_at r]"

fun status_shape :: "command \<Rightarrow> bool" where
  "status_shape r =
     (case status r of
        Queued \<Rightarrow> published_at r = None \<and> received_at r = None \<and> terminal_at r = None
      | Published \<Rightarrow> published_at r \<noteq> None \<and> received_at r = None \<and> terminal_at r = None
      | Received \<Rightarrow> published_at r \<noteq> None \<and> received_at r \<noteq> None \<and> terminal_at r = None
      | Applied \<Rightarrow> received_at r \<noteq> None \<and> terminal_at r \<noteq> None
      | Rejected \<Rightarrow> published_at r \<noteq> None \<and> terminal_at r \<noteq> None
      | _ \<Rightarrow> terminal_at r \<noteq> None)"

definition validate :: "command \<Rightarrow> dc_error + unit" where
  "validate r =
     (if version r \<noteq> steps_of r \<or> queued_at r \<ge> deadline (spec r) then Err DC_InvalidSnapshot
      else if \<not> monotone_times (queued_at r) (milestones r) then Err DC_InvalidSnapshot
      else if received_at r \<noteq> None \<and> published_at r = None then Err DC_InvalidSnapshot
      else if \<not> status_shape r
           \<or> (case published_at r of None \<Rightarrow> False | Some t \<Rightarrow> t \<ge> deadline (spec r))
           \<or> (case received_at r of None \<Rightarrow> False | Some t \<Rightarrow> t \<ge> deadline (spec r))
      then Err DC_InvalidSnapshot
      else (case terminal_at r of
              None \<Rightarrow> Ok ()
            | Some t \<Rightarrow>
                if (status r = TimedOut \<and> t < deadline (spec r))
                   \<or> (status r = Applied \<and> t \<ge> deadline (spec r))
                then Err DC_InvalidSnapshot else Ok ()))"

definition restore :: "command \<Rightarrow> dc_error + command" where
  "restore r = and_then (validate r) (\<lambda>_. Ok r)"

definition queue :: "command_spec \<Rightarrow> int \<Rightarrow> dc_error + command" where
  "queue sp now =
     (if now \<ge> deadline sp then Err DC_DeadlineElapsed
      else restore \<lparr>spec = sp, version = 1, status = Queued, queued_at = now,
                    published_at = None, received_at = None, terminal_at = None\<rparr>)"

subsection \<open>Decision table and reducer\<close>

text \<open>\<open>decision\<close>: \<open>Ok\<close> the next status, \<open>Err\<close> the outcome that leaves the command unchanged.\<close>

fun duplicate_terminal :: "status \<Rightarrow> event \<Rightarrow> bool" where
  "duplicate_terminal Applied (EvReported d) = True"
| "duplicate_terminal Rejected EvRejected = True"
| "duplicate_terminal TimedOut EvExpire = True"
| "duplicate_terminal Cancelled EvCancel = True"
| "duplicate_terminal Superseded EvSupersede = True"
| "duplicate_terminal _ _ = False"

fun live_decision :: "status \<Rightarrow> event \<Rightarrow> outcome + status" where
  "live_decision _ EvCancel = Ok Cancelled"
| "live_decision _ EvSupersede = Ok Superseded"
| "live_decision _ EvExpire = Err Duplicate"
| "live_decision Queued EvPublished = Ok Published"
| "live_decision Published EvReceived = Ok Received"
| "live_decision Received (EvReported d) = Ok Applied"
| "live_decision Published EvRejected = Ok Rejected"
| "live_decision Received EvRejected = Ok Rejected"
| "live_decision Published EvPublished = Err Duplicate"
| "live_decision Received EvPublished = Err Duplicate"
| "live_decision Received EvReceived = Err Duplicate"
| "live_decision _ _ = Err OutOfOrder"

definition decision :: "status \<Rightarrow> event \<Rightarrow> bool \<Rightarrow> outcome + status" where
  "decision s e expired =
     (if is_terminal s then Err (if duplicate_terminal s e then Duplicate else Late)
      else (case e of
              EvCancel \<Rightarrow> Ok Cancelled
            | EvSupersede \<Rightarrow> Ok Superseded
            | EvRejected \<Rightarrow> if s = Published \<or> s = Received then Ok Rejected else Err OutOfOrder
            | _ \<Rightarrow> if expired then Ok TimedOut else live_decision s e))"

definition authorized :: "event \<Rightarrow> coordinate \<Rightarrow> command \<Rightarrow> bool" where
  "authorized e current c =
     (if e = EvSupersede then supersedes current (spec_coordinate (spec c))
      else current = spec_coordinate (spec c))"

definition digest_conflict :: "event \<Rightarrow> command \<Rightarrow> bool" where
  "digest_conflict e c = (case e of EvReported d \<Rightarrow> d \<noteq> expected (spec c) | _ \<Rightarrow> False)"

text \<open>The milestone a new status stamps.\<close>

definition stamp :: "status \<Rightarrow> int \<Rightarrow> command \<Rightarrow> command" where
  "stamp s now r =
     (case s of
        Published \<Rightarrow> r\<lparr>status := s, published_at := Some now\<rparr>
      | Received \<Rightarrow> r\<lparr>status := s, received_at := Some now\<rparr>
      | _ \<Rightarrow> r\<lparr>status := s, terminal_at := Some now\<rparr>)"

text \<open>
  \<open>Command::transition\<close> mutates \<open>self\<close> and returns the outcome; here the outcome comes with
  the resulting command.
\<close>

definition transition ::
  "command \<Rightarrow> event \<Rightarrow> coordinate \<Rightarrow> int \<Rightarrow> dc_error + (outcome \<times> command)" where
  "transition c e current now =
     (if \<not> authorized e current c then Err DC_Fenced
      else if digest_conflict e c then Err DC_Conflict
      else (case decision (status c) e (now \<ge> deadline (spec c)) of
              Inl out \<Rightarrow> Ok (out, c)
            | Inr s \<Rightarrow>
                and_then (ok_or (i64_checked_add (version c) 1) DC_VersionOverflow) (\<lambda>v.
                and_then (restore (stamp s now (c\<lparr>version := v\<rparr>))) (\<lambda>c'.
                Ok (Advanced, c')))))"

fun event_of_report :: "device_event \<Rightarrow> event" where
  "event_of_report DevReceived = EvReceived"
| "event_of_report DevRejected = EvRejected"
| "event_of_report (DevReported d) = EvReported d"

definition report ::
  "command \<Rightarrow> device_report \<Rightarrow> coordinate \<Rightarrow> int \<Rightarrow> dc_error + (outcome \<times> command)" where
  "report c input current now =
     (if rep_scope input \<noteq> spec_scope (spec c) \<or> rep_command_id input \<noteq> spec_id (spec c)
         \<or> rep_coordinate input \<noteq> spec_coordinate (spec c)
      then Err DC_Fenced
      else transition c (event_of_report (rep_event input)) current now)"

section \<open>Properties\<close>

definition valid_record :: "command \<Rightarrow> bool" where
  "valid_record r \<longleftrightarrow> validate r = Ok ()"

text \<open>Server time of the latest stamped milestone.\<close>

definition last_time :: "command \<Rightarrow> int" where
  "last_time r =
     (case terminal_at r of Some t \<Rightarrow> t
      | None \<Rightarrow> (case received_at r of Some t \<Rightarrow> t
        | None \<Rightarrow> (case published_at r of Some t \<Rightarrow> t | None \<Rightarrow> queued_at r)))"

lemma restore_Ok_iff: "restore r = Ok r' \<longleftrightarrow> r' = r \<and> valid_record r"
  by (auto simp: restore_def valid_record_def and_then_Inr_iff)

lemma restore_Err: "restore r = Err e \<Longrightarrow> e = DC_InvalidSnapshot \<and> \<not> valid_record r"
  by (auto simp: restore_def valid_record_def validate_def and_then_Inl_iff
      split: if_splits option.splits)

text \<open>What validation says of a live command, and of a terminal one.\<close>

lemma valid_live:
  assumes "valid_record c"
  shows "status c = Queued \<Longrightarrow> published_at c = None \<and> received_at c = None \<and>
           terminal_at c = None \<and> version c = 1 \<and> queued_at c < deadline (spec c)"
    and "status c = Published \<Longrightarrow> \<exists>p. published_at c = Some p \<and> received_at c = None \<and>
           terminal_at c = None \<and> version c = 2 \<and> queued_at c \<le> p \<and> p < deadline (spec c)"
    and "status c = Received \<Longrightarrow> \<exists>p r. published_at c = Some p \<and> received_at c = Some r \<and>
           terminal_at c = None \<and> version c = 3 \<and> queued_at c \<le> p \<and> p \<le> r \<and> r < deadline (spec c)"
  using assms unfolding valid_record_def validate_def steps_of_def
  by (auto simp: milestones_def map_filter_simps split: if_splits option.splits)

lemma valid_applied:
  assumes "valid_record c" and "status c = Applied"
  shows "\<exists>p r t. published_at c = Some p \<and> received_at c = Some r \<and> terminal_at c = Some t \<and>
    queued_at c \<le> p \<and> p \<le> r \<and> r \<le> t \<and> t < deadline (spec c)"
  using assms unfolding valid_record_def validate_def
  by (auto simp: milestones_def map_filter_simps split: if_splits option.splits)

lemma valid_version: "valid_record c \<Longrightarrow> 1 \<le> version c \<and> version c \<le> 4"
  by (auto simp: valid_record_def validate_def steps_of_def split: if_splits)

lemma live_cases: "\<not> is_terminal s \<Longrightarrow> s = Queued \<or> s = Published \<or> s = Received"
  by (auto simp: is_terminal_def)

text \<open>Exactly these next statuses leave the decision table.\<close>

lemma decision_Ok_iff:
  "decision s e expired = Ok s' \<longleftrightarrow> \<not> is_terminal s \<and>
     (e = EvCancel \<and> s' = Cancelled \<or> e = EvSupersede \<and> s' = Superseded \<or>
      e = EvRejected \<and> s \<noteq> Queued \<and> s' = Rejected \<or>
      e \<notin> {EvCancel, EvSupersede, EvRejected} \<and>
        (expired \<and> s' = TimedOut \<or>
         \<not> expired \<and> (s = Queued \<and> e = EvPublished \<and> s' = Published \<or>
           s = Published \<and> e = EvReceived \<and> s' = Received \<or>
           s = Received \<and> (\<exists>d. e = EvReported d) \<and> s' = Applied)))"
  by (cases s; cases e) (auto simp: decision_def is_terminal_def)

lemma stamp_fields [simp]:
  "spec (stamp s now c) = spec c" "version (stamp s now c) = version c"
  "status (stamp s now c) = s" "queued_at (stamp s now c) = queued_at c"
  by (cases s; simp add: stamp_def)+

lemma valid_record_iff:
  "valid_record r \<longleftrightarrow>
     version r = steps_of r \<and> queued_at r < deadline (spec r) \<and>
     monotone_times (queued_at r) (milestones r) \<and>
     (published_at r = None \<longrightarrow> received_at r = None) \<and> status_shape r \<and>
     (\<forall>t. published_at r = Some t \<longrightarrow> t < deadline (spec r)) \<and>
     (\<forall>t. received_at r = Some t \<longrightarrow> t < deadline (spec r)) \<and>
     (\<forall>t. terminal_at r = Some t \<longrightarrow>
        (status r = TimedOut \<longrightarrow> deadline (spec r) \<le> t) \<and>
        (status r = Applied \<longrightarrow> t < deadline (spec r)))"
  unfolding valid_record_def validate_def
  by (simp add: not_less not_le split: option.splits)

lemmas stamp_eval = valid_record_iff stamp_def steps_of_def last_time_def milestones_def
  map_filter_simps

lemma stamp_valid:
  assumes v: "valid_record c" and l: "last_time c \<le> now"
    and d: "decision (status c) e (now \<ge> deadline (spec c)) = Ok s"
  shows "valid_record (stamp s now (c\<lparr>version := version c + 1\<rparr>))"
proof -
  have n: "\<not> is_terminal (status c)" using d by (simp add: decision_Ok_iff)
  then consider "status c = Queued" | "status c = Published" | "status c = Received"
    using live_cases by blast
  then show ?thesis
  proof cases
    case 1
    then have "s \<in> {Cancelled, Superseded} \<or> s = TimedOut \<and> deadline (spec c) \<le> now \<or>
        s = Published \<and> now < deadline (spec c)"
      using d by (auto simp: decision_Ok_iff)
    with valid_live(1) [OF v 1] l show ?thesis
      by (elim disjE conjE) (auto simp: stamp_eval)
  next
    case 2
    then have "s \<in> {Cancelled, Superseded, Rejected} \<or> s = TimedOut \<and> deadline (spec c) \<le> now \<or>
        s = Received \<and> now < deadline (spec c)"
      using d by (auto simp: decision_Ok_iff)
    with valid_live(2) [OF v 2] l show ?thesis
      by (elim disjE conjE exE) (auto simp: stamp_eval)
  next
    case 3
    then have "s \<in> {Cancelled, Superseded, Rejected} \<or> s = TimedOut \<and> deadline (spec c) \<le> now \<or>
        s = Applied \<and> now < deadline (spec c)"
      using d by (auto simp: decision_Ok_iff)
    with valid_live(3) [OF v 3] l show ?thesis
      by (elim disjE conjE exE) (auto simp: stamp_eval)
  qed
qed

lemma stamp_stale:
  assumes v: "valid_record c" and l: "now < last_time c" and n: "\<not> is_terminal (status c)"
    and s: "s \<noteq> Queued" "s = Published \<Longrightarrow> status c = Queued" "s = Received \<Longrightarrow> status c = Published"
  shows "\<not> valid_record (stamp s now (c\<lparr>version := v'\<rparr>))"
proof -
  consider "status c = Queued" | "status c = Published" | "status c = Received"
    using n live_cases by blast
  then show ?thesis
  proof cases
    case 1
    from valid_live(1) [OF v 1] 1 l s show ?thesis
      by (cases s) (simp_all add: stamp_eval)
  next
    case 2
    from valid_live(2) [OF v 2] 2 l s show ?thesis
      by (cases s) (auto simp: stamp_eval)
  next
    case 3
    from valid_live(3) [OF v 3] 3 l s show ?thesis
      by (cases s) (auto simp: stamp_eval)
  qed
qed

text \<open>
  C2. On a validated command and a clock that has not gone behind the last milestone the
  reducer is exactly the lifecycle table: it fences, reports a digest conflict, leaves the
  command alone with the table's outcome, or stamps the next status and adds one to the
  version. The version-overflow and invalid-snapshot errors of the code cannot occur.
\<close>

theorem transition_exact:
  assumes "valid_record c" and "last_time c \<le> now"
  shows "transition c e current now =
    (if \<not> authorized e current c then Err DC_Fenced
     else if digest_conflict e c then Err DC_Conflict
     else (case decision (status c) e (now \<ge> deadline (spec c)) of
             Inl out \<Rightarrow> Ok (out, c)
           | Inr s \<Rightarrow> Ok (Advanced, stamp s now (c\<lparr>version := version c + 1\<rparr>))))"
proof -
  have "i64_checked_add (version c) 1 = Some (version c + 1)"
    using valid_version [OF assms(1)] by (simp add: i64_checked_add_Some i64_defs)
  moreover have "restore (stamp s now (c\<lparr>version := version c + 1\<rparr>)) =
      Ok (stamp s now (c\<lparr>version := version c + 1\<rparr>))"
    if "decision (status c) e (now \<ge> deadline (spec c)) = Ok s" for s
    using stamp_valid [OF assms that] by (simp add: restore_Ok_iff)
  ultimately show ?thesis
    by (simp add: transition_def split: sum.split)
qed

definition sample_spec :: command_spec where
  "sample_spec =
     \<lparr>spec_scope = \<lparr>tenant = 7, device = 9\<rparr>, spec_id = ''cmd-1'',
      spec_coordinate = \<lparr>generation = 1, epoch = 1\<rparr>, expected = [1, 2], deadline = 100\<rparr>"

definition sample_queued :: command where
  "sample_queued =
     \<lparr>spec = sample_spec, version = 1, status = Queued, queued_at = 10,
      published_at = None, received_at = None, terminal_at = None\<rparr>"

lemma sample_queued_valid: "valid_record sample_queued"
  by (simp add: valid_record_def validate_def sample_queued_def sample_spec_def steps_of_def
      milestones_def map_filter_simps)

theorem transition_exact_witness:
  "transition sample_queued EvPublished \<lparr>generation = 1, epoch = 1\<rparr> 20 =
     Ok (Advanced, sample_queued\<lparr>version := 2, status := Published, published_at := Some 20\<rparr>)"
proof -
  have "last_time sample_queued \<le> 20" by (simp add: last_time_def sample_queued_def)
  from transition_exact [OF sample_queued_valid this, of EvPublished "\<lparr>generation = 1, epoch = 1\<rparr>"]
  show ?thesis
    by (simp add: sample_queued_def sample_spec_def authorized_def digest_conflict_def
        decision_def is_terminal_def stamp_def)
qed

subsection \<open>Runs of the reducer\<close>

text \<open>One input of a run: an event, the coordinate in force and the provider's clock.\<close>

type_synonym dc_input = "event \<times> coordinate \<times> int"

definition transition_step :: "command \<Rightarrow> dc_input \<Rightarrow> dc_error + command" where
  "transition_step c i =
     (case i of (e, current, now) \<Rightarrow>
       and_then (transition c e current now) (\<lambda>(out, c'). Ok c'))"

lemma transition_step_cases:
  assumes "transition_step c (e, current, now) = Ok c'"
  obtains "c' = c"
  | s where "authorized e current c" and "\<not> digest_conflict e c"
      and "decision (status c) e (now \<ge> deadline (spec c)) = Ok s"
      and "c' = stamp s now (c\<lparr>version := version c + 1\<rparr>)" and "valid_record c'"
  using assms
  by (auto simp: transition_step_def transition_def result_iffs i64_checked_add_Some restore_Ok_iff
      split: if_splits sum.splits prod.splits)

lemma transition_step_valid:
  assumes "valid_record c" and "transition_step c i = Ok c'"
  shows "valid_record c'"
  using assms by (cases i) (auto elim!: transition_step_cases)

lemma transition_step_version:
  assumes "transition_step c i = Ok c'"
  shows "version c \<le> version c'" and "spec c' = spec c"
  using assms by (cases i; auto elim!: transition_step_cases)+

interpretation dc: reducer transition_step valid_record version
  by unfold_locales (auto intro: transition_step_valid transition_step_version)

lemma terminal_step: "is_terminal (status c) \<Longrightarrow> keep_on_err c (transition_step c i) = c"
  by (cases i; cases "transition_step c i") (auto elim!: transition_step_cases simp: decision_Ok_iff)

lemma run_terminal: "is_terminal (status c) \<Longrightarrow> run_inputs transition_step c inputs = c"
  by (induction inputs) (simp_all add: terminal_step)

text \<open>
  Terminal commands absorb every later input, whatever the events, coordinates and clock
  readings: the stored snapshot, its version and its milestones never change again.
\<close>

theorem terminal_absorbs:
  assumes "is_terminal (status c)"
  shows "run_inputs transition_step c inputs = c"
  using assms by (rule run_terminal)

theorem terminal_absorbs_witness:
  "run_inputs transition_step (sample_queued\<lparr>status := Cancelled\<rparr>)
     [(EvReported [1, 2], \<lparr>generation = 1, epoch = 1\<rparr>, 50)] = sample_queued\<lparr>status := Cancelled\<rparr>"
  by (rule terminal_absorbs) (simp add: is_terminal_def)

text \<open>Evidence that an applied command leaves in the inputs that drove it.\<close>

definition applied_by :: "dc_input list \<Rightarrow> command \<Rightarrow> bool" where
  "applied_by inputs c \<longleftrightarrow>
     (\<exists>now. (EvReported (expected (spec c)), spec_coordinate (spec c), now) \<in> set inputs \<and>
        terminal_at c = Some now)"

lemma step_to_applied:
  assumes "transition_step c (e, current, now) = Ok c'" and "status c' = Applied"
    and "status c \<noteq> Applied"
  shows "e = EvReported (expected (spec c)) \<and> current = spec_coordinate (spec c) \<and>
    terminal_at c' = Some now"
  using assms(1)
proof (cases rule: transition_step_cases)
  case 1
  with assms show ?thesis by simp
next
  case (2 s)
  with assms(2) show ?thesis
    by (auto simp: decision_Ok_iff authorized_def digest_conflict_def stamp_def)
qed

lemma run_to_applied:
  assumes "status c \<noteq> Applied" and "status (run_inputs transition_step c inputs) = Applied"
  shows "applied_by inputs (run_inputs transition_step c inputs)"
  using assms
proof (induction inputs arbitrary: c)
  case Nil
  then show ?case by simp
next
  case (Cons i inputs)
  obtain e current now where i: "i = (e, current, now)" by (cases i)
  let ?c = "keep_on_err c (transition_step c i)"
  show ?case
  proof (cases "status ?c = Applied")
    case True
    with Cons.prems(1) obtain c' where c': "transition_step c i = Ok c'" "?c = c'"
      by (cases "transition_step c i") auto
    have "run_inputs transition_step ?c inputs = ?c"
      by (rule run_terminal) (use True in \<open>simp add: is_terminal_def\<close>)
    with step_to_applied [of c e current now c'] c' True Cons.prems(1) i
      transition_step_version(2) [OF c'(1)]
    show ?thesis by (auto simp: applied_by_def)
  next
    case False
    then have "applied_by inputs (run_inputs transition_step ?c inputs)"
      using Cons by simp
    then show ?thesis by (auto simp: applied_by_def)
  qed
qed

text \<open>
  C1. No command is reported applied without evidence. Whatever sequence of events,
  coordinates and clock readings is fed to a freshly queued command, if it ends up applied
  then the sequence holds a device report of exactly the expected digest under exactly the
  command's coordinate, the command was published and received before, the milestones are in
  order, and all of this happened before the deadline.
\<close>

theorem applied_has_evidence:
  assumes "queue sp t0 = Ok c0" and "status (run_inputs transition_step c0 inputs) = Applied"
  shows "\<exists>p r t. (EvReported (expected sp), spec_coordinate sp, t) \<in> set inputs \<and>
    published_at (run_inputs transition_step c0 inputs) = Some p \<and>
    received_at (run_inputs transition_step c0 inputs) = Some r \<and>
    terminal_at (run_inputs transition_step c0 inputs) = Some t \<and>
    t0 \<le> p \<and> p \<le> r \<and> r \<le> t \<and> t < deadline sp"
proof -
  let ?c = "run_inputs transition_step c0 inputs"
  have c0: "valid_record c0" "status c0 = Queued" "spec c0 = sp" "queued_at c0 = t0"
    using assms(1) by (auto simp: queue_def restore_Ok_iff split: if_splits)
  have "spec ?c = sp \<and> queued_at ?c = t0"
  proof (rule dc.run_invariant [OF c0(1)])
    show "spec c0 = sp \<and> queued_at c0 = t0" using c0 by simp
  next
    fix s i s'
    assume "spec s = sp \<and> queued_at s = t0" and "transition_step s i = Ok s'"
    then show "spec s' = sp \<and> queued_at s' = t0"
      by (cases i) (auto elim!: transition_step_cases)
  qed
  moreover have "applied_by inputs ?c"
    by (rule run_to_applied) (use assms(2) c0 in simp_all)
  moreover have "valid_record ?c" using c0(1) by (rule dc.run_valid)
  ultimately show ?thesis
    using valid_applied [of ?c] assms(2) by (auto simp: applied_by_def)
qed

definition sample_run :: "dc_input list" where
  "sample_run =
     [(EvPublished, \<lparr>generation = 1, epoch = 1\<rparr>, 20), (EvReceived, \<lparr>generation = 1, epoch = 1\<rparr>, 30),
      (EvReported [1, 2], \<lparr>generation = 1, epoch = 1\<rparr>, 40)]"

lemma sample_run_result:
  "run_inputs transition_step sample_queued sample_run =
     sample_queued\<lparr>version := 4, status := Applied, published_at := Some 20,
       received_at := Some 30, terminal_at := Some 40\<rparr>"
  by (simp add: sample_run_def transition_step_def transition_def sample_queued_def sample_spec_def
      authorized_def digest_conflict_def decision_def is_terminal_def stamp_def restore_def validate_def
      steps_of_def milestones_def map_filter_simps i64_checked_add_def i64_defs)

theorem applied_has_evidence_witness:
  "\<exists>p r t. (EvReported [1, 2], \<lparr>generation = 1, epoch = 1\<rparr>, t) \<in> set sample_run \<and>
     published_at (run_inputs transition_step sample_queued sample_run) = Some p \<and>
     received_at (run_inputs transition_step sample_queued sample_run) = Some r \<and>
     terminal_at (run_inputs transition_step sample_queued sample_run) = Some t \<and>
     10 \<le> p \<and> p \<le> r \<and> r \<le> t \<and> t < 100"
proof -
  have q: "queue sample_spec 10 = Ok sample_queued"
    using sample_queued_valid
    by (simp add: queue_def restore_Ok_iff sample_queued_def sample_spec_def)
  have "status (run_inputs transition_step sample_queued sample_run) = Applied"
    by (simp add: sample_run_result)
  from applied_has_evidence [OF q this] show ?thesis
    by (simp add: sample_spec_def)
qed

text \<open>
  A clock that has gone behind the last milestone never damages a command: an event the
  table would let advance is refused as an invalid snapshot and nothing is stored.
\<close>

theorem clock_regression_refused:
  assumes "valid_record c" and "now < last_time c" and "authorized e current c"
    and "\<not> digest_conflict e c" and "decision (status c) e (now \<ge> deadline (spec c)) = Ok s"
  shows "transition c e current now = Err DC_InvalidSnapshot"
proof -
  have add: "i64_checked_add (version c) 1 = Some (version c + 1)"
    using valid_version [OF assms(1)] by (simp add: i64_checked_add_Some i64_defs)
  have "\<not> valid_record (stamp s now (c\<lparr>version := version c + 1\<rparr>))"
    by (rule stamp_stale) (use assms in \<open>auto simp: decision_Ok_iff\<close>)
  then have "restore (stamp s now (c\<lparr>version := version c + 1\<rparr>)) = Err DC_InvalidSnapshot"
    using restore_Err restore_Ok_iff by (metis sum.exhaust)
  with assms add show ?thesis
    by (simp add: transition_def)
qed

theorem clock_regression_refused_witness:
  "transition (sample_queued\<lparr>version := 2, status := Published, published_at := Some 20\<rparr>)
     EvReceived \<lparr>generation = 1, epoch = 1\<rparr> 15 = Err DC_InvalidSnapshot"
proof (rule clock_regression_refused)
  let ?c = "sample_queued\<lparr>version := 2, status := Published, published_at := Some 20\<rparr>"
  show "valid_record ?c"
    by (simp add: valid_record_def validate_def sample_queued_def sample_spec_def steps_of_def
        milestones_def map_filter_simps)
  show "15 < last_time ?c" by (simp add: last_time_def sample_queued_def)
  show "authorized EvReceived \<lparr>generation = 1, epoch = 1\<rparr> ?c"
    by (simp add: authorized_def sample_queued_def sample_spec_def)
  show "\<not> digest_conflict EvReceived ?c" by (simp add: digest_conflict_def)
  show "decision (status ?c) EvReceived (15 \<ge> deadline (spec ?c)) = Ok Received"
    by (simp add: decision_def is_terminal_def sample_queued_def sample_spec_def)
qed

text \<open>
  The stored status labels are a faithful code of the lifecycle: a label is restored to
  a status exactly when it is that status's own label, so unknown labels are refused.
\<close>

theorem status_label_roundtrip:
  "status_restore raw = Ok s \<longleftrightarrow> raw = status_as_str s"
proof
  assume "status_restore raw = Ok s"
  then show "raw = status_as_str s"
    by (auto simp: status_restore_def find_Some_iff)
next
  assume "raw = status_as_str s"
  then show "status_restore raw = Ok s"
    by (cases s) (simp_all add: status_restore_def status_all_def)
qed

end
