(* ===== verification/Observation.thy ===== *)
theory Observation
  imports Contract_Values "HOL-Library.List_Lexorder" "HOL-Library.Multiset"
begin

section \<open>Observation (\<^verbatim>\<open>crates/observation\<close>)\<close>

text \<open>
  Reliable observation: identities (\<^verbatim>\<open>identity.rs\<close>), bounded reports with their canonical
  form (\<^verbatim>\<open>report.rs\<close>), admission grants (\<^verbatim>\<open>admission.rs\<close>), and the snapshot/delta integrity
  state machine (\<^verbatim>\<open>state.rs\<close>, \<^verbatim>\<open>store.rs\<close>). Identifiers are lists of Unicode scalar values,
  because the source tests both the UTF-8 length and the characters. The JSON encoder and
  decoder of \<^verbatim>\<open>serde_json\<close> and the SHA-256 digest are parameters.
\<close>

subsection \<open>Errors and identities\<close>

datatype obs_error =
  OInvalidInput | OUnauthorized | OConflict | OLifecycleConflict | OStaleEpoch | OUnknownStream
  | OStorage | OInvariant | OCommitUnknown | ORollbackFailed | ODeadline | OClosed

type_synonym obs_id = ustring

definition obs_id_new :: "ustring \<Rightarrow> obs_error + obs_id" where
  "obs_id_new v =
     (if v = [] \<or> utf8_len v > 256 \<or> list_ex char_is_control v then Err OInvalidInput else Ok v)"

record obs_scope =
  os_tenant :: "128 word"
  os_object :: obs_id
  os_registration :: obs_id
  os_source :: obs_id
  os_dataset :: obs_id
  os_epoch :: obs_id

subsection \<open>Reports\<close>

record coverage =
  cov_id :: obs_id
  cov_version :: obs_id
  cov_definition :: obs_id
  cov_format :: obs_id

record change =
  ch_key :: obs_id
  ch_value :: "bytes option"

definition change_upsert :: "obs_id \<Rightarrow> bytes \<Rightarrow> change" where
  "change_upsert k v = \<lparr>ch_key = k, ch_value = Some v\<rparr>"

definition change_delete :: "obs_id \<Rightarrow> change" where
  "change_delete k = \<lparr>ch_key = k, ch_value = None\<rparr>"

datatype body =
  BSnapshot "change list"
| BDelta obs_id u64 "change list"
| BPartial "change list"
| BFailed obs_id

fun body_changes :: "body \<Rightarrow> change list" where
  "body_changes (BSnapshot v) = v"
| "body_changes (BPartial v) = v"
| "body_changes (BDelta b p v) = v"
| "body_changes (BFailed c) = []"

fun set_changes :: "body \<Rightarrow> change list \<Rightarrow> body" where
  "set_changes (BSnapshot v) cs = BSnapshot cs"
| "set_changes (BPartial v) cs = BPartial cs"
| "set_changes (BDelta b p v) cs = BDelta b p cs"
| "set_changes (BFailed c) cs = BFailed c"

text \<open>\<open>changes.windows(2).any(..)\<close>: two neighbours with the same key.\<close>

fun adjacent_equal :: "change list \<Rightarrow> bool" where
  "adjacent_equal (a # b # cs) = (ch_key a = ch_key b \<or> adjacent_equal (b # cs))"
| "adjacent_equal _ = False"

definition oversized :: "bool \<Rightarrow> change \<Rightarrow> bool" where
  "oversized snapshot c \<longleftrightarrow>
     (case ch_value c of Some v \<Rightarrow> length v > 65536 | None \<Rightarrow> False) \<or> (snapshot \<and> ch_value c = None)"

definition normalize :: "body \<Rightarrow> obs_error + body" where
  "normalize b =
     (case b of
        BFailed c \<Rightarrow> Ok (BFailed c)
      | _ \<Rightarrow>
        (let snapshot = (case b of BSnapshot _ \<Rightarrow> True | _ \<Rightarrow> False);
             changes = body_changes b
         in if length changes > 1000 \<or> list_ex (oversized snapshot) changes then Err OInvalidInput
            else (let sorted_changes = sort_key ch_key changes
                  in if adjacent_equal sorted_changes then Err OInvalidInput
                     else Ok (set_changes b sorted_changes))))"

record wire_batch =
  wb_version :: nat
  wb_id :: obs_id
  wb_sequence :: u64
  wb_observed_at :: int
  wb_coverage :: coverage
  wb_body :: body

record batch =
  wire :: wire_batch
  canonical :: bytes

definition max_batch :: nat where
  "max_batch = 4 * 1024 * 1024"

text \<open>
  \<open>BoundedEncoding\<close>: the writer refuses a write that would pass the bound. The encoder hands
  it the encoding in pieces; the parameter \<open>to_writer\<close> gives the pieces for a wire batch.
\<close>

definition bounded_write :: "bytes \<Rightarrow> bytes \<Rightarrow> obs_error + bytes" where
  "bounded_write buf piece =
     (if length piece > max_batch - length buf then Err OInvalidInput else Ok (buf @ piece))"

fun write_all :: "bytes \<Rightarrow> bytes list \<Rightarrow> obs_error + bytes" where
  "write_all buf [] = Ok buf"
| "write_all buf (p # ps) = and_then (bounded_write buf p) (\<lambda>buf'. write_all buf' ps)"

type_synonym encoder = "wire_batch \<Rightarrow> bytes list"
type_synonym decoder = "bytes \<Rightarrow> wire_batch option"

definition batch_validated :: "encoder \<Rightarrow> wire_batch \<Rightarrow> obs_error + batch" where
  "batch_validated to_writer w =
     (if wb_version w \<noteq> 1 \<or> wb_observed_at w < 0 then Err OInvalidInput
      else and_then (normalize (wb_body w)) (\<lambda>b.
        (let w' = w\<lparr>wb_body := b\<rparr> in
         and_then (write_all [] (to_writer w')) (\<lambda>enc.
           if length enc > max_batch then Err OInvalidInput
           else Ok \<lparr>wire = w', canonical = enc\<rparr>))))"

definition batch_new ::
  "encoder \<Rightarrow> obs_id \<Rightarrow> u64 \<Rightarrow> timepoint \<Rightarrow> coverage \<Rightarrow> body \<Rightarrow> obs_error + batch" where
  "batch_new to_writer i s t cov b =
     batch_validated to_writer
       \<lparr>wb_version = 1, wb_id = i, wb_sequence = s, wb_observed_at = t, wb_coverage = cov, wb_body = b\<rparr>"

definition batch_decode :: "encoder \<Rightarrow> decoder \<Rightarrow> bytes \<Rightarrow> obs_error + batch" where
  "batch_decode to_writer from_slice raw =
     (if length raw > max_batch then Err OInvalidInput
      else and_then (ok_or (from_slice raw) OInvalidInput) (batch_validated to_writer))"

text \<open>
  \<open>Batch::fingerprint\<close>: each part is preceded by its length as eight big-endian bytes.
\<close>

definition fingerprint_input :: "bytes \<Rightarrow> bytes \<Rightarrow> bytes" where
  "fingerprint_input scope_json enc =
     map (word_of_nat \<circ> of_char) ''rss-observation-v1'' @
     be_bytes_u64 (length scope_json) @ scope_json @ be_bytes_u64 (length enc) @ enc"

definition fingerprint ::
  "(bytes \<Rightarrow> bytes) \<Rightarrow> (obs_scope \<Rightarrow> bytes option) \<Rightarrow> obs_scope \<Rightarrow> batch \<Rightarrow> obs_error + bytes" where
  "fingerprint sha256 scope_encode scope b =
     and_then (ok_or (scope_encode scope) OInvalidInput)
       (\<lambda>s. Ok (sha256 (fingerprint_input s (canonical b))))"

subsection \<open>Admission\<close>

datatype access =
  ARead obs_scope | ASubmit obs_scope coverage | AActivate obs_scope | AReadJournal "128 word"

record verified_batch =
  vb_scope :: obs_scope
  vb_batch :: batch
  vb_fingerprint :: bytes

definition verify_batch ::
  "(access \<Rightarrow> obs_error + unit) \<Rightarrow> (obs_scope \<Rightarrow> batch \<Rightarrow> obs_error + bytes)
     \<Rightarrow> obs_scope \<Rightarrow> batch \<Rightarrow> obs_error + verified_batch" where
  "verify_batch authorize fprint scope b =
     and_then (authorize (ASubmit scope (wb_coverage (wire b)))) (\<lambda>_.
     and_then (fprint scope b) (\<lambda>f.
     Ok \<lparr>vb_scope = scope, vb_batch = b, vb_fingerprint = f\<rparr>))"

definition journal_read_grant ::
  "(access \<Rightarrow> obs_error + unit) \<Rightarrow> 128 word \<Rightarrow> obs_error + 128 word" where
  "journal_read_grant authorize t = and_then (authorize (AReadJournal t)) (\<lambda>_. Ok t)"

definition read_grant :: "(access \<Rightarrow> obs_error + unit) \<Rightarrow> obs_scope \<Rightarrow> obs_error + obs_scope" where
  "read_grant authorize s = and_then (authorize (ARead s)) (\<lambda>_. Ok s)"

definition lifecycle_grant :: "(access \<Rightarrow> obs_error + unit) \<Rightarrow> obs_scope \<Rightarrow> obs_error + obs_scope" where
  "lifecycle_grant authorize s = and_then (authorize (AActivate s)) (\<lambda>_. Ok s)"

subsection \<open>Integrity state\<close>

record policy =
  pol_version :: nat
  retry_seconds :: u64
  safety_seconds :: u64
  baseline_seconds :: u64

definition policy_new :: "u64 \<Rightarrow> u64 \<Rightarrow> u64 \<Rightarrow> obs_error + policy" where
  "policy_new retry safety baseline_s =
     (if retry = 0 \<or> safety = 0 \<or> baseline_s = 0
         \<or> (case u64_checked_add retry safety of None \<Rightarrow> True | Some n \<Rightarrow> n > i64_max_u64)
         \<or> baseline_s > i64_max_u64
      then Err OInvalidInput
      else Ok \<lparr>pol_version = 1, retry_seconds = retry, safety_seconds = safety,
               baseline_seconds = baseline_s\<rparr>)"

definition policy_try_from :: "policy \<Rightarrow> obs_error + policy" where
  "policy_try_from w =
     (if pol_version w \<noteq> 1 then Err OInvalidInput
      else policy_new (retry_seconds w) (safety_seconds w) (baseline_seconds w))"

definition policy_decode :: "(string \<Rightarrow> policy option) \<Rightarrow> string \<Rightarrow> obs_error + policy" where
  "policy_decode from_str raw =
     and_then (ok_or (from_str raw) OInvalidInput) (\<lambda>w. map_err (\<lambda>_. OInvalidInput) (policy_try_from w))"

datatype need_snapshot =
  MissingBaseline | BaselineMismatch | Gap | BaselineExpired | NPartial | CollectionFailed

datatype sync_outcome = SSnapshot | SDelta | SNeedSnapshot need_snapshot | SStale

definition is_applicable :: "sync_outcome \<Rightarrow> bool" where
  "is_applicable s \<longleftrightarrow> s \<in> {SSnapshot, SDelta}"

record baseline =
  bl_id :: obs_id
  bl_coverage :: coverage
  expires_at :: u64

record obs_state =
  st_version :: nat
  revision :: u64
  high_water :: "u64 option"
  cursor :: "u64 option"
  st_baseline :: "baseline option"
  need :: "need_snapshot option"

definition initial :: obs_state where
  "initial = \<lparr>st_version = 1, revision = 0, high_water = None, cursor = None,
              st_baseline = None, need = None\<rparr>"

record decision =
  d_version :: nat
  before :: obs_state
  after :: obs_state
  d_outcome :: sync_outcome

definition require :: "obs_state \<Rightarrow> need_snapshot \<Rightarrow> obs_state \<times> sync_outcome" where
  "require s reason = (s\<lparr>need := Some reason\<rparr>, SNeedSnapshot reason)"

definition delta_failure ::
  "obs_state \<Rightarrow> batch \<Rightarrow> obs_id \<Rightarrow> u64 \<Rightarrow> u64 \<Rightarrow> need_snapshot option" where
  "delta_failure s b base previous now =
     (case need s of
        Some reason \<Rightarrow> Some reason
      | None \<Rightarrow>
        (case st_baseline s of
           None \<Rightarrow> Some MissingBaseline
         | Some active \<Rightarrow>
             if now \<ge> expires_at active then Some BaselineExpired
             else if bl_id active \<noteq> base \<or> bl_coverage active \<noteq> wb_coverage (wire b)
             then Some BaselineMismatch
             else if cursor s \<noteq> Some previous
                  \<or> u64_checked_add previous 1 \<noteq> Some (wb_sequence (wire b))
             then Some Gap
             else None))"

definition apply_new ::
  "obs_state \<Rightarrow> batch \<Rightarrow> u64 \<Rightarrow> policy \<Rightarrow> obs_error + (obs_state \<times> sync_outcome)" where
  "apply_new s b received pol =
     (case wb_body (wire b) of
        BSnapshot _ \<Rightarrow>
          and_then (ok_or (u64_checked_add received (baseline_seconds pol)) OInvalidInput) (\<lambda>e.
            Ok (s\<lparr>st_baseline := Some \<lparr>bl_id = wb_id (wire b), bl_coverage = wb_coverage (wire b),
                                       expires_at = e\<rparr>,
                  cursor := Some (wb_sequence (wire b)), need := None\<rparr>, SSnapshot))
      | BPartial _ \<Rightarrow> Ok (require s NPartial)
      | BFailed _ \<Rightarrow> Ok (require s CollectionFailed)
      | BDelta base previous _ \<Rightarrow>
          (case delta_failure s b base previous received of
             Some reason \<Rightarrow> Ok (require s reason)
           | None \<Rightarrow> Ok (s\<lparr>cursor := Some (wb_sequence (wire b))\<rparr>, SDelta)))"

definition advance :: "obs_state \<Rightarrow> batch \<Rightarrow> u64 \<Rightarrow> policy \<Rightarrow> obs_error + decision" where
  "advance s b received pol =
     and_then (ok_or (u64_checked_add (revision s) 1) OInvariant) (\<lambda>rev.
     and_then
       (if (case high_water s of None \<Rightarrow> False | Some h \<Rightarrow> wb_sequence (wire b) \<le> h)
        then Ok (s\<lparr>revision := rev\<rparr>, SStale)
        else apply_new (s\<lparr>revision := rev, high_water := Some (wb_sequence (wire b))\<rparr>) b received pol)
       (\<lambda>(next_state, out).
     Ok \<lparr>d_version = 1, before = s, after = next_state, d_outcome = out\<rparr>))"

definition valid_baseline :: "obs_state \<Rightarrow> bool" where
  "valid_baseline s =
     (case (st_baseline s, cursor s, need s) of
        (None, None, Some reason) \<Rightarrow> reason \<in> {MissingBaseline, NPartial, CollectionFailed}
      | (Some b, Some c, None) \<Rightarrow> expires_at b > 0 \<and> high_water s = Some c
      | (Some b, Some c, Some reason) \<Rightarrow>
          expires_at b > 0 \<and> reason \<noteq> MissingBaseline \<and>
          (case high_water s of None \<Rightarrow> False | Some h \<Rightarrow> h > c)
      | _ \<Rightarrow> False)"

definition state_validate :: "obs_state \<Rightarrow> obs_error + unit" where
  "state_validate s =
     (if st_version s \<noteq> 1 then Err OInvalidInput
      else if revision s = 0 then (if s = initial then Ok () else Err OInvariant)
      else if high_water s = None \<or> (cursor s \<noteq> None) \<noteq> (st_baseline s \<noteq> None) \<or> \<not> valid_baseline s
      then Err OInvariant
      else Ok ())"

text \<open>
  \<open>State::decode\<close> and \<open>Decision::restore\<close>: the parameters are the JSON readers of the raw
  wire records; validation and recomputation are the code's own.
\<close>

definition state_decode :: "(string \<Rightarrow> obs_state option) \<Rightarrow> string \<Rightarrow> obs_error + obs_state" where
  "state_decode from_str raw =
     and_then (ok_or (from_str raw) OInvalidInput) (\<lambda>s.
     and_then (map_err (\<lambda>_. OInvalidInput) (state_validate s)) (\<lambda>_. Ok s))"

definition decision_restore ::
  "(string \<Rightarrow> decision option) \<Rightarrow> string \<Rightarrow> batch \<Rightarrow> u64 \<Rightarrow> policy \<Rightarrow> obs_error + decision" where
  "decision_restore from_str raw b received pol =
     and_then (ok_or (from_str raw) OInvalidInput) (\<lambda>d.
       if \<not> is_ok (state_validate (before d)) \<or> \<not> is_ok (state_validate (after d)) then Err OInvalidInput
       else if d_version d \<noteq> 1 then Err OInvalidInput
       else and_then (advance (before d) b received pol) (\<lambda>d'.
         if d' \<noteq> d then Err OInvariant else Ok d))"

record obs_record =
  r_scope :: obs_scope
  r_batch :: batch
  r_received_at :: u64
  r_policy :: policy
  r_decision :: decision

definition record_from_durable ::
  "obs_scope \<Rightarrow> batch \<Rightarrow> u64 \<Rightarrow> policy \<Rightarrow> decision \<Rightarrow> obs_error + obs_record" where
  "record_from_durable scope b received pol d =
     and_then (advance (before d) b received pol) (\<lambda>d'.
       if d' \<noteq> d then Err OInvariant
       else Ok \<lparr>r_scope = scope, r_batch = b, r_received_at = received, r_policy = pol,
                r_decision = d\<rparr>)"

definition into_applicable :: "obs_record \<Rightarrow> obs_error + obs_record" where
  "into_applicable r =
     (if \<not> is_applicable (d_outcome (r_decision r)) then Err OInvalidInput else Ok r)"

section \<open>Properties of the integrity state\<close>

definition valid_state :: "obs_state \<Rightarrow> bool" where
  "valid_state s \<longleftrightarrow> state_validate s = Ok ()"

lemma valid_initial [simp]: "valid_state initial"
  by (simp add: valid_state_def state_validate_def initial_def)

lemma valid_state_iff:
  "valid_state s \<longleftrightarrow> st_version s = 1 \<and>
     (if revision s = 0 then s = initial
      else high_water s \<noteq> None \<and> (cursor s \<noteq> None \<longleftrightarrow> st_baseline s \<noteq> None) \<and> valid_baseline s)"
  by (auto simp: valid_state_def state_validate_def)

lemma valid_baseline_revision [simp]: "valid_baseline (s\<lparr>revision := r\<rparr>) = valid_baseline s"
  by (simp add: valid_baseline_def split: option.split)

text \<open>How \<open>advance\<close> can succeed, one case per recorded outcome.\<close>

lemma advance_cases:
  assumes "advance s b received pol = Ok d"
  obtains (stale) h where "high_water s = Some h" and "wb_sequence (wire b) \<le> h"
      and "d_outcome d = SStale" and "after d = s\<lparr>revision := revision s + 1\<rparr>"
  | (snapshot) cs e where "\<And>h. high_water s = Some h \<Longrightarrow> h < wb_sequence (wire b)"
      and "wb_body (wire b) = BSnapshot cs" and "d_outcome d = SSnapshot"
      and "u64_checked_add received (baseline_seconds pol) = Some e"
      and "after d = s\<lparr>revision := revision s + 1, high_water := Some (wb_sequence (wire b)),
        st_baseline := Some \<lparr>bl_id = wb_id (wire b), bl_coverage = wb_coverage (wire b), expires_at = e\<rparr>,
        cursor := Some (wb_sequence (wire b)), need := None\<rparr>"
  | (delta) base previous cs where "\<And>h. high_water s = Some h \<Longrightarrow> h < wb_sequence (wire b)"
      and "wb_body (wire b) = BDelta base previous cs" and "d_outcome d = SDelta"
      and "need s = None" and "cursor s = Some previous"
      and "u64_checked_add previous 1 = Some (wb_sequence (wire b))"
      and "\<exists>bl. st_baseline s = Some bl \<and> bl_id bl = base \<and>
        bl_coverage bl = wb_coverage (wire b) \<and> received < expires_at bl"
      and "after d = s\<lparr>revision := revision s + 1, high_water := Some (wb_sequence (wire b)),
        cursor := Some (wb_sequence (wire b))\<rparr>"
  | (resync) reason where "\<And>h. high_water s = Some h \<Longrightarrow> h < wb_sequence (wire b)"
      and "d_outcome d = SNeedSnapshot reason"
      and "reason \<in> {NPartial, CollectionFailed} \<or> need s = Some reason \<or>
        need s = None \<and> (reason = MissingBaseline \<longleftrightarrow> st_baseline s = None)"
      and "after d = s\<lparr>revision := revision s + 1, high_water := Some (wb_sequence (wire b)),
        need := Some reason\<rparr>"
proof -
  have rev: "u64_checked_add (revision s) 1 = Some r \<Longrightarrow> r = revision s + 1" for r
    by (simp add: u64_checked_add_def split: if_splits)
  show ?thesis
  proof (cases "\<exists>h. high_water s = Some h \<and> wb_sequence (wire b) \<le> h")
    case True
    then show ?thesis
      using assms stale rev by (auto simp: advance_def and_then_Inr_iff split: option.splits)
  next
    case False
    then have new: "\<And>h. high_water s = Some h \<Longrightarrow> h < wb_sequence (wire b)"
      by (auto simp: not_le)
    let ?s = "s\<lparr>revision := revision s + 1, high_water := Some (wb_sequence (wire b))\<rparr>"
    obtain st out where ap: "apply_new ?s b received pol = Ok (st, out)"
      and d: "after d = st" "d_outcome d = out"
      using assms False rev
      by (auto simp: advance_def and_then_Inr_iff not_le split: option.splits if_splits)
    show ?thesis
    proof (cases "wb_body (wire b)")
      case (BSnapshot cs)
      with ap d obtain e where "u64_checked_add received (baseline_seconds pol) = Some e"
        by (auto simp: apply_new_def and_then_Inr_iff)
      with ap d new BSnapshot show ?thesis
        by (intro snapshot [of cs e]) (auto simp: apply_new_def)
    next
      case (BDelta base previous cs)
      show ?thesis
      proof (cases "delta_failure ?s b base previous received")
        case None
        with ap d new BDelta show ?thesis
          by (intro delta) (auto simp: apply_new_def delta_failure_def split: option.splits if_splits)
      next
        case (Some reason)
        with ap d new BDelta show ?thesis
          by (intro resync [of reason])
            (auto simp: apply_new_def delta_failure_def require_def split: option.splits if_splits)
      qed
    next
      case (BPartial cs)
      with ap d new show ?thesis
        by (intro resync [of NPartial]) (auto simp: apply_new_def require_def)
    next
      case (BFailed c)
      with ap d new show ?thesis
        by (intro resync [of CollectionFailed]) (auto simp: apply_new_def require_def)
    qed
  qed
qed

lemma advance_meta:
  assumes "advance s b received pol = Ok d"
  shows "before d = s" and "d_version d = 1" and "unat (revision (after d)) = unat (revision s) + 1"
    and "st_version (after d) = st_version s"
proof -
  have "\<exists>r. u64_checked_add (revision s) 1 = Some r \<and> r = revision s + 1"
    using assms by (auto simp: advance_def and_then_Inr_iff u64_checked_add_def split: if_splits)
  then have r: "unat (revision s + 1) = unat (revision s) + 1"
    using u64_checked_add_unat by fastforce
  show "before d = s" and "d_version d = 1"
    using assms by (auto simp: advance_def and_then_Inr_iff)
  show "unat (revision (after d)) = unat (revision s) + 1" and "st_version (after d) = st_version s"
    using assms r by (cases rule: advance_cases; simp)+
qed

lemma valid_with_cursor:
  "valid_state s \<Longrightarrow> cursor s = Some c \<Longrightarrow>
     \<exists>bl h. st_baseline s = Some bl \<and> 0 < expires_at bl \<and> high_water s = Some h \<and> c \<le> h \<and>
       (need s = None \<longrightarrow> c = h) \<and> need s \<noteq> Some MissingBaseline"
  by (auto simp: valid_state_iff valid_baseline_def initial_def split: if_splits option.splits)

lemma valid_without_cursor:
  "valid_state s \<Longrightarrow> cursor s = None \<Longrightarrow> st_baseline s = None \<and>
     (need s = None \<or> need s \<in> Some ` {MissingBaseline, NPartial, CollectionFailed})"
  by (auto simp: valid_state_iff valid_baseline_def initial_def split: if_splits option.splits)

lemma advance_valid:
  assumes v: "valid_state s" and a: "advance s b received pol = Ok d" and p: "baseline_seconds pol \<noteq> 0"
  shows "valid_state (after d)"
proof -
  have nz: "revision (after d) \<noteq> 0"
    using advance_meta(3) [OF a] by (metis Suc_eq_plus1 old.nat.distinct(2) unat_0)
  have ver: "st_version (after d) = 1"
    using advance_meta(4) [OF a] v by (simp add: valid_state_iff)
  from a show ?thesis
  proof (cases rule: advance_cases)
    case stale
    then have "revision s \<noteq> 0"
      using v by (auto simp: valid_state_iff initial_def)
    with stale v nz ver show ?thesis
      by (simp add: valid_state_iff)
  next
    case (snapshot cs e)
    then have "0 < e"
      using u64_checked_add_less p word_gt_0 by (metis u64_checked_add_le(2) word_le_0_iff)
    with snapshot nz ver show ?thesis
      by (simp add: valid_state_iff valid_baseline_def)
  next
    case (delta base previous cs)
    with valid_with_cursor [OF v, of previous] nz ver show ?thesis
      by (auto simp: valid_state_iff valid_baseline_def)
  next
    case (resync reason)
    show ?thesis
    proof (cases "cursor s")
      case None
      with resync valid_without_cursor [OF v None] nz ver show ?thesis
        by (auto simp: valid_state_iff valid_baseline_def)
    next
      case (Some c)
      with resync valid_with_cursor [OF v Some] nz ver show ?thesis
        by (auto simp: valid_state_iff valid_baseline_def)
    qed
  qed
qed

subsection \<open>Runs\<close>

text \<open>
  One received report: the batch, the provider's receipt time and the three durations of the
  lifecycle policy, which only \<open>Policy::new\<close> can turn into a policy.
\<close>

type_synonym obs_input = "batch \<times> u64 \<times> u64 \<times> u64 \<times> u64"

definition receive_step :: "obs_state \<Rightarrow> obs_input \<Rightarrow> obs_error + obs_state" where
  "receive_step s i =
     (case i of (b, received, retry, safety, base) \<Rightarrow>
        and_then (policy_new retry safety base) (\<lambda>pol.
        and_then (advance s b received pol) (\<lambda>d. Ok (after d))))"

lemma policy_new_baseline: "policy_new x y z = Ok pol \<Longrightarrow> baseline_seconds pol \<noteq> 0"
  by (auto simp: policy_new_def split: if_splits)

lemma receive_step_advance:
  assumes "receive_step s (b, received, x, y, z) = Ok s'"
  obtains pol d where "advance s b received pol = Ok d" and "after d = s'"
    and "baseline_seconds pol \<noteq> 0"
  using assms policy_new_baseline by (auto simp: receive_step_def and_then_Inr_iff)

interpretation obs: reducer receive_step valid_state revision
proof
  fix s i s'
  assume v: "valid_state s" and st: "receive_step s i = Ok s'"
  obtain b r x y z where i: "i = (b, r, x, y, z)" by (cases i)
  from st [unfolded i] obtain pol d where d: "advance s b r pol = Ok d" "after d = s'"
    "baseline_seconds pol \<noteq> 0" by (rule receive_step_advance)
  from advance_valid [OF v d(1,3)] d(2) show "valid_state s'" by simp
  from advance_meta(3) [OF d(1)] d(2) show "revision s \<le> revision s'"
    by (simp add: word_le_nat_alt)
qed

text \<open>
  C5. The persisted integrity state is always restorable: every state the stream reaches
  from its activation, through any reports, receipt times and admitted policies, passes the
  validation that the decoder applies, and its revision never goes back.
\<close>

theorem reachable_state_valid:
  "state_validate (run_inputs receive_step initial inputs) = Ok ()"
  using obs.run_valid [OF valid_initial, of inputs] by (simp add: valid_state_def)

subsection \<open>The read model that follows the applicable reports\<close>

text \<open>
  The read model of \<^verbatim>\<open>crates/examples/src/observation/model.rs\<close>, for one projection generation and one
  scope: a fact is keyed by the coverage it was reported under and its key. It applies exactly the
  applicable reports, in receipt order. A snapshot first deletes the facts of its own coverage; then
  every change is an upsert or a deletion under that coverage.
\<close>

type_synonym facts = "obs_id \<times> obs_id \<rightharpoonup> bytes"

definition clear_coverage :: "obs_id \<Rightarrow> facts \<Rightarrow> facts" where
  "clear_coverage cov f = (\<lambda>(k, key). if k = cov then None else f (k, key))"

definition apply_change :: "obs_id \<Rightarrow> change \<Rightarrow> facts \<Rightarrow> facts" where
  "apply_change cov c f = f((cov, ch_key c) := ch_value c)"

definition apply_body :: "coverage \<Rightarrow> body \<Rightarrow> facts \<Rightarrow> facts" where
  "apply_body cov b f =
     fold (apply_change (cov_id cov)) (body_changes b)
       (case b of BSnapshot _ \<Rightarrow> clear_coverage (cov_id cov) f | _ \<Rightarrow> f)"

definition replica_step :: "obs_state \<times> facts \<Rightarrow> obs_input \<Rightarrow> obs_error + obs_state \<times> facts" where
  "replica_step sf i =
     (case i of (b, received, retry, safety, base) \<Rightarrow>
        and_then (policy_new retry safety base) (\<lambda>pol.
        and_then (advance (fst sf) b received pol) (\<lambda>d.
        Ok (after d, if is_applicable (d_outcome d)
                     then apply_body (wb_coverage (wire b)) (wb_body (wire b)) (snd sf)
                     else snd sf))))"

text \<open>The facts held under one coverage, and one change seen there.\<close>

definition region :: "facts \<Rightarrow> obs_id \<Rightarrow> obs_id \<rightharpoonup> bytes" where
  "region f k = (\<lambda>key. f (k, key))"

definition change_region :: "change \<Rightarrow> (obs_id \<rightharpoonup> bytes) \<Rightarrow> obs_id \<rightharpoonup> bytes" where
  "change_region c r = r(ch_key c := ch_value c)"

lemma region_clear [simp]: "region (clear_coverage cov f) k = (if k = cov then Map.empty else region f k)"
  by (auto simp: region_def clear_coverage_def)

lemma region_changes [simp]:
  "region (fold (apply_change cov) cs f) k = (if k = cov then fold change_region cs (region f k) else region f k)"
proof (induction cs arbitrary: f)
  case (Cons c cs)
  have "region (apply_change cov c f) k = (if k = cov then change_region c (region f k) else region f k)"
    by (auto simp: region_def apply_change_def change_region_def)
  then show ?case by (auto simp: Cons.IH)
qed simp

text \<open>
  A producer with true facts \<open>T k n\<close> about coverage \<open>k\<close> at sequence \<open>n\<close> sends honest reports: a
  snapshot carries all of \<open>T k n\<close>, a delta after \<open>previous\<close> turns \<open>T k previous\<close> into \<open>T k n\<close>. Nothing
  is assumed of partial or failed collections, nor of the order, loss or repetition of reports.
\<close>

definition report_coverage :: "batch \<Rightarrow> obs_id" where
  "report_coverage b = cov_id (wb_coverage (wire b))"

definition honest :: "(obs_id \<Rightarrow> u64 \<Rightarrow> obs_id \<rightharpoonup> bytes) \<Rightarrow> batch \<Rightarrow> bool" where
  "honest T b \<longleftrightarrow>
     (case wb_body (wire b) of
        BSnapshot cs \<Rightarrow> fold change_region cs Map.empty = T (report_coverage b) (wb_sequence (wire b))
      | BDelta _ previous cs \<Rightarrow>
          fold change_region cs (T (report_coverage b) previous) = T (report_coverage b) (wb_sequence (wire b))
      | _ \<Rightarrow> True)"

text \<open>The active coverage is current, and every other one is as initially or as some report left it.\<close>

definition follows_producer ::
  "(obs_id \<Rightarrow> u64 \<Rightarrow> obs_id \<rightharpoonup> bytes) \<Rightarrow> facts \<Rightarrow> obs_state \<times> facts \<Rightarrow> bool" where
  "follows_producer T f0 sf \<longleftrightarrow>
     (\<forall>c. cursor (fst sf) = Some c \<longrightarrow> (\<exists>bl. st_baseline (fst sf) = Some bl \<and>
        region (snd sf) (cov_id (bl_coverage bl)) = T (cov_id (bl_coverage bl)) c)) \<and>
     (\<forall>k. region (snd sf) k = region f0 k \<or> (\<exists>n. region (snd sf) k = T k n))"

lemma replica_step_sound:
  assumes h: "honest T b" and st: "replica_step (s, f) (b, r, x, y, z) = Ok (s', f')"
    and inv: "follows_producer T f0 (s, f)"
  shows "follows_producer T f0 (s', f') \<and> (\<forall>k. k \<noteq> report_coverage b \<longrightarrow> region f' k = region f k)"
proof -
  from st obtain pol d where a: "advance s b r pol = Ok d" and s': "s' = after d"
    and f': "f' = (if is_applicable (d_outcome d) then apply_body (wb_coverage (wire b)) (wb_body (wire b)) f else f)"
    by (auto simp: replica_step_def and_then_Inr_iff)
  from a show ?thesis
    by (cases rule: advance_cases)
      (use h inv in \<open>auto simp: s' f' is_applicable_def apply_body_def honest_def
        follows_producer_def report_coverage_def\<close>)
qed

lemma replica_run_sound:
  assumes "\<forall>(b, r, x, y, z) \<in> set inputs. honest T b" and "follows_producer T f0 sf"
  shows "follows_producer T f0 (run_inputs replica_step sf inputs) \<and>
    (\<forall>k. (\<forall>(b, r, x, y, z) \<in> set inputs. report_coverage b \<noteq> k) \<longrightarrow>
      region (snd (run_inputs replica_step sf inputs)) k = region (snd sf) k)"
  using assms
proof (induction inputs arbitrary: sf)
  case (Cons i inputs)
  obtain b r x y z where i: "i = (b, r, x, y, z)" by (cases i)
  let ?sf = "keep_on_err sf (replica_step sf i)"
  have "follows_producer T f0 ?sf \<and> (\<forall>k. k \<noteq> report_coverage b \<longrightarrow> region (snd ?sf) k = region (snd sf) k)"
    using Cons.prems replica_step_sound [of T b "fst sf" "snd sf" r x y z _ _ f0]
    by (cases "replica_step sf i") (auto simp: i)
  then show ?case using Cons.IH [of ?sf] Cons.prems(1) by (auto simp: i)
qed simp

text \<open>
  C3. Convergence under loss, reordering and repetition. Feed any sequence of honest reports to a
  freshly activated stream: whenever the stream has an applicable cursor, the read model built from
  the applicable reports holds, under the active coverage, exactly the producer's facts at that
  cursor; every other coverage holds its initial facts or the producer's facts at some report, and
  facts under a coverage no report names are untouched.
\<close>

theorem replica_follows_producer:
  assumes "\<forall>(b, r, x, y, z) \<in> set inputs. honest T b"
    and "run_inputs replica_step (initial, f0) inputs = (s, f)"
  shows "(\<forall>c. cursor s = Some c \<longrightarrow> (\<exists>bl. st_baseline s = Some bl \<and>
      region f (cov_id (bl_coverage bl)) = T (cov_id (bl_coverage bl)) c)) \<and>
    (\<forall>k. region f k = region f0 k \<or> (\<exists>n. region f k = T k n)) \<and>
    (\<forall>k. (\<forall>(b, r, x, y, z) \<in> set inputs. report_coverage b \<noteq> k) \<longrightarrow> region f k = region f0 k)"
proof -
  have "follows_producer T f0 (initial, f0)" by (simp add: follows_producer_def initial_def)
  from replica_run_sound [OF assms(1) this] show ?thesis
    by (simp add: assms(2) follows_producer_def)
qed

definition sample_coverage :: coverage where
  "sample_coverage = \<lparr>cov_id = [97], cov_version = [98], cov_definition = [99], cov_format = [100]\<rparr>"

definition sample_batch :: "u64 \<Rightarrow> body \<Rightarrow> batch" where
  "sample_batch n b =
     \<lparr>wire = \<lparr>wb_version = 1, wb_id = [115], wb_sequence = n, wb_observed_at = 5,
              wb_coverage = sample_coverage, wb_body = b\<rparr>, canonical = []\<rparr>"

definition sample_inputs :: "obs_input list" where
  "sample_inputs =
     [(sample_batch 0 (BSnapshot [\<lparr>ch_key = [1], ch_value = Some [7]\<rparr>]), 10, 5, 5, 100),
      (sample_batch 1 (BDelta [115] 0 [\<lparr>ch_key = [1], ch_value = None\<rparr>]), 11, 5, 5, 100)]"

definition sample_facts :: "obs_id \<Rightarrow> u64 \<Rightarrow> obs_id \<rightharpoonup> bytes" where
  "sample_facts k n = (if n = 0 then [[1] \<mapsto> [7]] else Map.empty)"

definition other_facts :: facts where
  "other_facts = [([99], [5]) \<mapsto> [8]]"

lemmas obs_eval = sample_inputs_def sample_batch_def sample_coverage_def replica_step_def
  policy_new_def i64_max_u64_def u64_checked_add_def advance_def apply_new_def initial_def
  delta_failure_def is_applicable_def apply_body_def apply_change_def

lemma sample_inputs_run:
  "\<exists>f. run_inputs replica_step (initial, other_facts) sample_inputs =
     (\<lparr>st_version = 1, revision = 2, high_water = Some 1, cursor = Some 1,
       st_baseline = Some \<lparr>bl_id = [115], bl_coverage = sample_coverage, expires_at = 110\<rparr>,
       need = None\<rparr>, f)"
  by (simp add: obs_eval)

theorem replica_follows_producer_witness:
  "\<exists>s f. run_inputs replica_step (initial, other_facts) sample_inputs = (s, f) \<and> cursor s = Some 1 \<and>
     region f [97] = Map.empty \<and> region f [99] = region other_facts [99] \<and> region other_facts [99] [5] = Some [8]"
proof -
  have h: "\<forall>(b, r, x, y, z) \<in> set sample_inputs. honest sample_facts b"
    by (simp add: sample_inputs_def honest_def sample_batch_def sample_facts_def change_region_def
        fun_upd_idem_iff)
  obtain s f where run: "run_inputs replica_step (initial, other_facts) sample_inputs = (s, f)"
    and s: "cursor s = Some 1" "st_baseline s = Some \<lparr>bl_id = [115], bl_coverage = sample_coverage, expires_at = 110\<rparr>"
    using sample_inputs_run by auto
  note t = replica_follows_producer [OF h run]
  have "region f (cov_id sample_coverage) = sample_facts (cov_id sample_coverage) 1"
    using conjunct1 [OF t] s by simp
  moreover have "region f [99] = region other_facts [99]"
    using conjunct2 [OF conjunct2 [OF t]]
    by (simp add: sample_inputs_def sample_batch_def sample_coverage_def report_coverage_def)
  ultimately show ?thesis
    using run s by (simp add: sample_coverage_def sample_facts_def other_facts_def region_def)
qed

text \<open>
  C23. A stream that needs resynchronisation recovers only through a complete snapshot above
  everything it has seen: no delta, partial, failed or late report clears the reason, and the
  applicable cursor stays where it was.
\<close>

theorem resync_needs_newer_snapshot:
  assumes "need s = Some reason" and "advance s b received pol = Ok d"
  shows "if need (after d) = None
    then d_outcome d = SSnapshot \<and> cursor (after d) = Some (wb_sequence (wire b)) \<and>
      (case high_water s of None \<Rightarrow> True | Some h \<Rightarrow> h < wb_sequence (wire b))
    else cursor (after d) = cursor s \<and> \<not> is_applicable (d_outcome d)"
  using assms(2) assms(1)
  by (cases rule: advance_cases) (auto simp: is_applicable_def split: option.splits)

definition gap_state :: obs_state where
  "gap_state =
     \<lparr>st_version = 1, revision = 2, high_water = Some 5, cursor = Some 1,
      st_baseline = Some \<lparr>bl_id = [115], bl_coverage = sample_coverage, expires_at = 110\<rparr>,
      need = Some Gap\<rparr>"

theorem resync_needs_newer_snapshot_witness:
  "\<exists>d. advance gap_state (sample_batch 6 (BSnapshot [])) 20
        \<lparr>pol_version = 1, retry_seconds = 5, safety_seconds = 5, baseline_seconds = 9\<rparr> = Ok d \<and>
     need (after d) = None \<and> cursor (after d) = Some 6 \<and> d_outcome d = SSnapshot"
proof -
  let ?b = "sample_batch 6 (BSnapshot [])"
  let ?p = "\<lparr>pol_version = 1, retry_seconds = 5, safety_seconds = 5, baseline_seconds = 9 :: u64\<rparr>"
  obtain d where d: "advance gap_state ?b 20 ?p = Ok d" and n: "need (after d) = None"
    by (simp add: obs_eval gap_state_def)
  have "need gap_state = Some Gap" by (simp add: gap_state_def)
  from resync_needs_newer_snapshot [OF this d] n d show ?thesis
    by (auto simp: sample_batch_def)
qed

lemma reachable_two_reports:
  "st_baseline (run_inputs receive_step initial inputs) \<noteq> None \<and>
   need (run_inputs receive_step initial inputs) \<noteq> None \<longrightarrow>
     2 \<le> unat (revision (run_inputs receive_step initial inputs))"
proof (rule obs.run_invariant [OF valid_initial])
  show "st_baseline initial \<noteq> None \<and> need initial \<noteq> None \<longrightarrow> 2 \<le> unat (revision initial)"
    by (simp add: initial_def)
next
  fix s i s'
  assume v: "valid_state s" and st: "receive_step s i = Ok s'"
  obtain b r x y z where i: "i = (b, r, x, y, z)" by (cases i)
  from st [unfolded i] obtain pol d where d: "advance s b r pol = Ok d" "after d = s'"
    by (rule receive_step_advance)
  have "st_baseline s \<noteq> None \<Longrightarrow> revision s \<noteq> 0"
    using v by (auto simp: valid_state_iff initial_def)
  then have "st_baseline s \<noteq> None \<Longrightarrow> 1 \<le> unat (revision s)"
    using unat_gt_0 [of "revision s"] by linarith
  moreover have "st_baseline s' \<noteq> None \<and> need s' \<noteq> None \<Longrightarrow> st_baseline s \<noteq> None"
    using d(1) by (cases rule: advance_cases) (auto simp: d(2) [symmetric])
  ultimately show "st_baseline s' \<noteq> None \<and> need s' \<noteq> None \<longrightarrow> 2 \<le> unat (revision s')"
    using advance_meta(3) [OF d(1)] d(2) by auto
qed

text \<open>
  The decoder admits states that no stream can reach: a state that already has both a
  baseline and a resynchronisation reason at its very first revision passes validation,
  although every reachable state with both has seen at least two reports.
\<close>

theorem validated_state_may_be_unreachable:
  "\<exists>s. state_validate s = Ok () \<and> (\<forall>inputs. run_inputs receive_step initial inputs \<noteq> s)"
proof (intro exI conjI allI)
  let ?s = "gap_state\<lparr>revision := 1\<rparr>"
  show "state_validate ?s = Ok ()"
    by (simp add: state_validate_def gap_state_def valid_baseline_def)
  fix inputs
  show "run_inputs receive_step initial inputs \<noteq> ?s"
  proof
    assume "run_inputs receive_step initial inputs = ?s"
    with reachable_two_reports [of inputs] show False by (simp add: gap_state_def)
  qed
qed

section \<open>Properties of reports\<close>

lemma adjacent_equal_sorted:
  "sorted (map ch_key cs) \<Longrightarrow> \<not> adjacent_equal cs \<longleftrightarrow> distinct (map ch_key cs)"
proof (induction cs rule: adjacent_equal.induct)
  case (1 a b cs)
  then have "sorted (map ch_key (b # cs))" by simp
  moreover have "ch_key a \<noteq> ch_key b \<Longrightarrow> ch_key a \<notin> ch_key ` set (b # cs)"
    using "1.prems" by fastforce
  ultimately show ?case using 1 by auto
qed auto

definition bounded_changes :: "bool \<Rightarrow> change list \<Rightarrow> bool" where
  "bounded_changes snapshot cs \<longleftrightarrow>
     length cs \<le> 1000 \<and> list_all (\<lambda>c. \<not> oversized snapshot c) cs \<and> distinct (map ch_key cs)"

definition is_snapshot :: "body \<Rightarrow> bool" where
  "is_snapshot b = (case b of BSnapshot _ \<Rightarrow> True | _ \<Rightarrow> False)"

lemma normalize_eq:
  "normalize b =
     (if bounded_changes (is_snapshot b) (body_changes b)
      then Ok (set_changes b (sort_key ch_key (body_changes b))) else Err OInvalidInput)"
proof -
  have "\<not> adjacent_equal (sort_key ch_key cs) \<longleftrightarrow> distinct (map ch_key cs)" for cs :: "change list"
    by (subst adjacent_equal_sorted) (simp_all add: distinct_map)
  then show ?thesis
    by (cases b) (auto simp: normalize_def bounded_changes_def is_snapshot_def Let_def list_all_iff list_ex_iff)
qed

text \<open>Two bodies that differ only in the order of their operations.\<close>

definition same_facts :: "body \<Rightarrow> body \<Rightarrow> bool" where
  "same_facts b b' \<longleftrightarrow> mset (body_changes b) = mset (body_changes b') \<and> set_changes b [] = set_changes b' []"

lemma set_changes_same: "set_changes b [] = set_changes b' [] \<Longrightarrow> set_changes b cs = set_changes b' cs"
  by (cases b; cases b') auto

text \<open>
  The canonical form of a report does not depend on the order of its operations: two
  bodies with the same operations normalise to the same result, whether it is the sorted body
  or the refusal, so their encodings and fingerprints agree.
\<close>

theorem normalize_order_independent:
  assumes "same_facts b b'"
  shows "normalize b = normalize b'"
proof -
  have m: "mset (body_changes b) = mset (body_changes b')" and k: "set_changes b [] = set_changes b' []"
    using assms by (auto simp: same_facts_def)
  have "bounded_changes (is_snapshot b) (body_changes b) \<longleftrightarrow>
      bounded_changes (is_snapshot b') (body_changes b')"
  proof -
    have "is_snapshot b = is_snapshot b'"
      using k by (cases b; cases b') (auto simp: is_snapshot_def)
    moreover have "distinct (map ch_key (body_changes b)) \<longleftrightarrow> distinct (map ch_key (body_changes b'))"
      using m by (metis mset_eq_imp_distinct_iff mset_map)
    ultimately show ?thesis
      using m by (auto simp: bounded_changes_def list_all_iff dest: mset_eq_length mset_eq_setD)
  qed
  moreover have "sort_key ch_key (body_changes b) = sort_key ch_key (body_changes b')"
    if "distinct (map ch_key (body_changes b))"
    using m that by (intro sort_key_inj_key_eq)
      (auto simp: distinct_map dest: mset_eq_setD)
  ultimately show ?thesis
    using set_changes_same [OF k] by (auto simp: normalize_eq bounded_changes_def)
qed

definition shuffled_snapshot :: body where
  "shuffled_snapshot = BSnapshot [\<lparr>ch_key = [2], ch_value = Some [8]\<rparr>, \<lparr>ch_key = [1], ch_value = Some [7]\<rparr>]"

definition sorted_snapshot :: body where
  "sorted_snapshot = BSnapshot [\<lparr>ch_key = [1], ch_value = Some [7]\<rparr>, \<lparr>ch_key = [2], ch_value = Some [8]\<rparr>]"

theorem normalize_order_independent_witness: "normalize shuffled_snapshot = normalize sorted_snapshot"
  by (rule normalize_order_independent)
    (simp add: same_facts_def shuffled_snapshot_def sorted_snapshot_def add_mset_commute)

subsection \<open>Bounded encoding\<close>

lemma write_all_concat:
  "length buf \<le> max_batch \<Longrightarrow>
     write_all buf ps =
       (if length (buf @ concat ps) \<le> max_batch then Ok (buf @ concat ps) else Err OInvalidInput)"
proof (induction ps arbitrary: buf)
  case Nil
  then show ?case by simp
next
  case (Cons p ps)
  show ?case
  proof (cases "length p > max_batch - length buf")
    case True
    with Cons.prems show ?thesis by (simp add: bounded_write_def)
  next
    case False
    with Cons.prems have "length (buf @ p) \<le> max_batch" by simp
    with False Cons.IH [of "buf @ p"] show ?thesis by (simp add: bounded_write_def)
  qed
qed

lemma normalize_idem: "normalize b = Ok b' \<Longrightarrow> normalize b' = Ok b'"
  using properties_for_sort_key [of "sort_key ch_key cs" "sort_key ch_key cs" ch_key for cs]
  by (cases b) (auto simp: normalize_eq bounded_changes_def is_snapshot_def list_all_iff distinct_map
      split: if_splits)

lemma batch_validated_Ok_iff:
  "batch_validated enc w = Ok b \<longleftrightarrow>
     wb_version w = 1 \<and> 0 \<le> wb_observed_at w \<and>
     (\<exists>body'. normalize (wb_body w) = Ok body' \<and>
        wire b = w\<lparr>wb_body := body'\<rparr> \<and> canonical b = concat (enc (wire b)) \<and>
        length (canonical b) \<le> max_batch)"
  by (cases b) (auto simp: batch_validated_def result_iffs write_all_concat Let_def split: if_splits)

text \<open>
  C30. Encoding and decoding a report are inverse: the canonical bytes of a validated report
  decode to the very same report, provided only that the JSON reader inverts the JSON writer
  on this report. The reader of the source reapplies every construction check on the way.
\<close>

theorem batch_decode_encode:
  assumes "batch_validated to_writer w = Ok b"
    and "from_slice (concat (to_writer (wire b))) = Some (wire b)"
  shows "batch_decode to_writer from_slice (canonical b) = Ok b"
proof -
  from assms(1) obtain body' where w: "wb_version w = 1" "0 \<le> wb_observed_at w"
    "normalize (wb_body w) = Ok body'" "wire b = w\<lparr>wb_body := body'\<rparr>"
    "canonical b = concat (to_writer (wire b))" "length (canonical b) \<le> max_batch"
    by (auto simp: batch_validated_Ok_iff)
  have "batch_validated to_writer (wire b) = Ok b"
    unfolding batch_validated_Ok_iff using w normalize_idem [OF w(3)] by simp
  with w assms(2) show ?thesis
    by (simp add: batch_decode_def)
qed

definition sample_wire :: wire_batch where
  "sample_wire =
     \<lparr>wb_version = 1, wb_id = [115], wb_sequence = 3, wb_observed_at = 5,
      wb_coverage = sample_coverage, wb_body = BSnapshot []\<rparr>"

theorem batch_decode_encode_witness:
  "\<exists>b. batch_validated (\<lambda>_. [[1], [2]]) sample_wire = Ok b \<and>
     batch_decode (\<lambda>_. [[1], [2]]) (\<lambda>raw. if raw = [1, 2] then Some sample_wire else None)
       (canonical b) = Ok b"
proof -
  let ?b = "\<lparr>wire = sample_wire, canonical = [1, 2]\<rparr>"
  have "batch_validated (\<lambda>_. [[1], [2]]) sample_wire = Ok ?b"
    by (simp add: batch_validated_Ok_iff normalize_eq bounded_changes_def sample_wire_def max_batch_def)
  from batch_decode_encode [OF this, of "\<lambda>raw. if raw = [1, 2] then Some sample_wire else None"] this
  show ?thesis by auto
qed

subsection \<open>Fingerprint framing\<close>

text \<open>
  The digest input of a fingerprint determines the scope encoding and the report
  encoding: two different pairs are never concatenated to the same bytes, so a collision of
  fingerprints is a collision of the hash itself.
\<close>

theorem fingerprint_input_injective:
  assumes "fingerprint_input s e = fingerprint_input s' e'"
    and "length s < 2 ^ 64" and "length s' < 2 ^ 64"
  shows "s = s' \<and> e = e'"
proof -
  have eq: "be_bytes_u64 (length s) @ s @ be_bytes_u64 (length e) @ e =
      be_bytes_u64 (length s') @ s' @ be_bytes_u64 (length e') @ e'"
    using assms(1) by (simp add: fingerprint_input_def)
  then have "length s = length s'"
    using assms(2,3) be_bytes_u64_inject [of "length s" "length s'"] by (auto simp: append_eq_append_conv)
  with eq show ?thesis
    by (simp add: append_eq_append_conv)
qed

theorem fingerprint_input_injective_witness:
  "fingerprint_input [1] [2, 3] \<noteq> fingerprint_input [1, 2] [3]"
  using fingerprint_input_injective [of "[1]" "[2, 3]" "[1, 2]" "[3]"] by auto

subsection \<open>Restoring recorded decisions\<close>

text \<open>
  A recorded decision is restored exactly when its evidence is true: the restored value
  is the decision that the state machine itself computes for the recorded prior state, report,
  receipt time and policy, and every decision the machine computes from a valid state is
  restored.
\<close>

theorem decision_restore_iff:
  assumes "baseline_seconds pol \<noteq> 0" and "from_str raw = Some d"
  shows "decision_restore from_str raw b received pol = Ok d' \<longleftrightarrow>
    d' = d \<and> state_validate (before d) = Ok () \<and> advance (before d) b received pol = Ok d"
proof
  assume "decision_restore from_str raw b received pol = Ok d'"
  then show "d' = d \<and> state_validate (before d) = Ok () \<and> advance (before d) b received pol = Ok d"
    using assms(2) by (auto simp: decision_restore_def result_iffs split: if_splits)
next
  assume a: "d' = d \<and> state_validate (before d) = Ok () \<and> advance (before d) b received pol = Ok d"
  then have "state_validate (after d) = Ok ()"
    using advance_valid [of "before d" b received pol d] assms(1) by (simp add: valid_state_def)
  with a assms(2) show "decision_restore from_str raw b received pol = Ok d'"
    using advance_meta(2) [of "before d" b received pol d] by (simp add: decision_restore_def)
qed

definition sample_decision :: decision where
  "sample_decision =
     \<lparr>d_version = 1, before = initial,
      after = initial\<lparr>revision := 1, high_water := Some 4, need := Some NPartial\<rparr>,
      d_outcome = SNeedSnapshot NPartial\<rparr>"

theorem decision_restore_iff_witness:
  "decision_restore (\<lambda>_. Some sample_decision) ''d'' (sample_batch 4 (BPartial [])) 20
     \<lparr>pol_version = 1, retry_seconds = 5, safety_seconds = 5, baseline_seconds = 9\<rparr> = Ok sample_decision"
proof -
  let ?p = "\<lparr>pol_version = 1, retry_seconds = 5, safety_seconds = 5, baseline_seconds = 9 :: u64\<rparr>"
  have "state_validate initial = Ok ()"
    using valid_initial by (simp add: valid_state_def)
  moreover have "advance initial (sample_batch 4 (BPartial [])) 20 ?p = Ok sample_decision"
    by (simp add: obs_eval sample_decision_def require_def)
  ultimately show ?thesis
    using decision_restore_iff [of ?p "\<lambda>_. Some sample_decision" "''d''" sample_decision
        "sample_batch 4 (BPartial [])" 20 sample_decision]
    by (simp add: sample_decision_def)
qed

end
