(* ===== verification/Projection.thy ===== *)
theory Projection
  imports Rust_Prelude "HOL-Library.List_Lexorder" "HOL-Library.Char_ord"
begin

section \<open>Projection (\<^verbatim>\<open>crates/projection\<close>)\<close>

text \<open>
  The ordered projection engine: names, positions and generation starts (\<^verbatim>\<open>model.rs\<close>), the
  budget that bounds every provider stage (\<^verbatim>\<open>control.rs\<close>), the runner loop with its report and
  its observation handle (\<^verbatim>\<open>runner.rs\<close>, \<^verbatim>\<open>observation.rs\<close>), and the at-least-once composition
  of a checkpoint with an external target (\<^verbatim>\<open>ports.rs\<close>).

  Asynchronous operations are functions on an explicit world \<open>'w\<close> that return a result and
  the next world. The traits \<open>Source\<close>, \<open>Execution\<close>, \<open>ExternalCheckpoint\<close> and
  \<open>ExternalTarget\<close> are records of such operations.
\<close>

subsection \<open>Errors, names and positions\<close>

datatype proj_error =
  PInvalidInput | PScopeMismatch | POutOfOrder | PSourceContract | PConflict | PFenced
  | PUnavailable | PRejected | PCancelled | PDeadline | PCommitUnknown | PRollbackFailed
  | PStorageContract

definition uncertain :: "proj_error \<Rightarrow> proj_error" where
  "uncertain k = (if k \<in> {PCancelled, PDeadline} then PCommitUnknown else k)"

definition name_byte :: "char \<Rightarrow> bool" where
  "name_byte b \<longleftrightarrow> is_ascii_alphanumeric b \<or> b \<in> set ''-_.:''"

definition validate_name :: "string \<Rightarrow> proj_error + unit" where
  "validate_name v =
     (if v = [] \<or> length v > 128 \<or> \<not> list_all name_byte v then Err PInvalidInput else Ok ())"

type_synonym position = nat
type_synonym definition_identity = bytes

definition position_new :: "nat \<Rightarrow> proj_error + position" where
  "position_new v = (if int v > i64_max then Err PInvalidInput else Ok v)"

definition proj_batch_limit_new :: "nat \<Rightarrow> proj_error + nat" where
  "proj_batch_limit_new v = (if v = 0 \<or> v > 1000 then Err PInvalidInput else Ok v)"

record source_scope =
  ss_tenant :: "128 word"
  ss_source :: string

definition source_scope_new :: "128 word \<Rightarrow> string \<Rightarrow> proj_error + source_scope" where
  "source_scope_new t s =
     and_then (validate_name s) (\<lambda>_. Ok \<lparr>ss_tenant = t, ss_source = s\<rparr>)"

record projection_scope =
  ps_source :: source_scope
  ps_projection :: string
  ps_generation :: string

definition projection_scope_new ::
  "source_scope \<Rightarrow> string \<Rightarrow> string \<Rightarrow> proj_error + projection_scope" where
  "projection_scope_new s p g =
     and_then (validate_name p) (\<lambda>_. and_then (validate_name g) (\<lambda>_.
       Ok \<lparr>ps_source = s, ps_projection = p, ps_generation = g\<rparr>))"

record receipt_query =
  rq_scope :: projection_scope
  rq_definition :: definition_identity
  rq_event_id :: string

definition receipt_query_new ::
  "projection_scope \<Rightarrow> definition_identity \<Rightarrow> string \<Rightarrow> proj_error + receipt_query" where
  "receipt_query_new s d e =
     and_then (validate_name e) (\<lambda>_. Ok \<lparr>rq_scope = s, rq_definition = d, rq_event_id = e\<rparr>)"

record proj_event =
  ev_source :: source_scope
  ev_position :: position
  ev_id :: string
  ev_payload :: bytes

definition proj_event_new ::
  "source_scope \<Rightarrow> position \<Rightarrow> string \<Rightarrow> bytes \<Rightarrow> proj_error + proj_event" where
  "proj_event_new s p i payload =
     and_then (validate_name i) (\<lambda>_.
       if length payload > 1048576 then Err PInvalidInput
       else Ok \<lparr>ev_source = s, ev_position = p, ev_id = i, ev_payload = payload\<rparr>)"

text \<open>\<open>Event::fingerprint\<close>: SHA-256 of the payload; the hash is a parameter.\<close>

definition event_fingerprint :: "(bytes \<Rightarrow> bytes) \<Rightarrow> proj_event \<Rightarrow> bytes" where
  "event_fingerprint sha256 e = sha256 (ev_payload e)"

datatype replay_bound = Live | Through "position option"

record checkpoint =
  cp_position :: "position option"
  cp_bound :: replay_bound

datatype receipt_status = Uninitialized | Pending checkpoint | Settled checkpoint

fun receipt_checkpoint :: "receipt_status \<Rightarrow> checkpoint option" where
  "receipt_checkpoint Uninitialized = None"
| "receipt_checkpoint (Pending c) = Some c"
| "receipt_checkpoint (Settled c) = Some c"

definition is_settled :: "receipt_status \<Rightarrow> bool" where
  "is_settled r = (case r of Settled _ \<Rightarrow> True | _ \<Rightarrow> False)"

datatype apply_outcome = AppApplied | AppDuplicate | AppFiltered

subsection \<open>Generation start\<close>

record baseline_receipt =
  br_source :: source_scope
  br_position :: position
  br_id :: string
  br_fingerprint :: bytes

definition baseline_receipt_new ::
  "source_scope \<Rightarrow> position \<Rightarrow> string \<Rightarrow> bytes \<Rightarrow> proj_error + baseline_receipt" where
  "baseline_receipt_new s p i f =
     and_then (validate_name i) (\<lambda>_.
       Ok \<lparr>br_source = s, br_position = p, br_id = i, br_fingerprint = f\<rparr>)"

definition receipt_from_event :: "(bytes \<Rightarrow> bytes) \<Rightarrow> proj_event \<Rightarrow> baseline_receipt" where
  "receipt_from_event sha256 e =
     \<lparr>br_source = ev_source e, br_position = ev_position e, br_id = ev_id e,
      br_fingerprint = event_fingerprint sha256 e\<rparr>"

record generation_start =
  gs_after :: "position option"
  gs_receipts :: "baseline_receipt list"

definition gs_beginning :: generation_start where
  "gs_beginning = \<lparr>gs_after = None, gs_receipts = []\<rparr>"

text \<open>The loop over the supplied receipts; the accumulator is the map from ids to receipts.\<close>

fun unique_receipts ::
  "position \<Rightarrow> (string \<rightharpoonup> baseline_receipt) \<Rightarrow> baseline_receipt list
     \<Rightarrow> proj_error + (string \<rightharpoonup> baseline_receipt)" where
  "unique_receipts p unique [] = Ok unique"
| "unique_receipts p unique (r # rs) =
     (if br_position r > p then Err PInvalidInput
      else (case unique (br_id r) of
              Some old \<Rightarrow>
                if br_source old \<noteq> br_source r \<or> br_fingerprint old \<noteq> br_fingerprint r
                then Err PConflict else unique_receipts p unique rs
            | None \<Rightarrow> unique_receipts p (unique(br_id r \<mapsto> r)) rs))"

text \<open>\<open>BTreeMap::into_values\<close> yields the values in the order of the ids.\<close>

definition into_values :: "string list \<Rightarrow> (string \<rightharpoonup> 'a) \<Rightarrow> 'a list" where
  "into_values ks m = List.map_filter m (sort (remdups ks))"

definition gs_after_position :: "position \<Rightarrow> baseline_receipt list \<Rightarrow> proj_error + generation_start" where
  "gs_after_position p rs =
     (if rs = [] then Err PInvalidInput
      else and_then (unique_receipts p Map.empty rs) (\<lambda>unique.
        Ok \<lparr>gs_after = Some p, gs_receipts = into_values (map br_id rs) unique\<rparr>))"

subsection \<open>Control\<close>

text \<open>
  Cancellation and the deadline, observed in the current world. \<open>ctl_interrupt w w'\<close> is the
  outcome of the race in \<open>Control::run\<close> for an operation that would turn \<open>w\<close> into \<open>w'\<close>: no
  interruption, or a cancellation (\<open>True\<close>) or deadline (\<open>False\<close>) with the world in which the
  operation was dropped, which may hold none, some or all of its effects.
\<close>

record 'w control =
  ctl_cancelled :: "'w \<Rightarrow> bool"
  ctl_expired :: "'w \<Rightarrow> bool"
  ctl_interrupt :: "'w \<Rightarrow> 'w \<Rightarrow> (bool \<times> 'w) option"

type_synonym ('a, 'w) op = "'w \<Rightarrow> (proj_error + 'a) \<times> 'w"

definition control_check :: "'w control \<Rightarrow> 'w \<Rightarrow> proj_error + unit" where
  "control_check c w =
     (if ctl_cancelled c w then Err PCancelled
      else if ctl_expired c w then Err PDeadline else Ok ())"

definition control_run :: "'w control \<Rightarrow> ('a, 'w) op \<Rightarrow> ('a, 'w) op" where
  "control_run c f w =
     (case control_check c w of
        Inl e \<Rightarrow> (Err e, w)
      | Inr _ \<Rightarrow>
          (case f w of (r, w') \<Rightarrow>
            (case ctl_interrupt c w w' of
               None \<Rightarrow> (r, w')
             | Some (cancelled, w'') \<Rightarrow> (Err (if cancelled then PCancelled else PDeadline), w''))))"

subsection \<open>Ports\<close>

record 'w execution =
  ex_scope :: projection_scope
  ex_definition :: definition_identity
  ex_checkpoint :: "(checkpoint, 'w) op"
  ex_execute :: "position option \<Rightarrow> proj_event \<Rightarrow> 'w control \<Rightarrow> (apply_outcome, 'w) op"

type_synonym 'w source_read =
  "source_scope \<Rightarrow> position option \<Rightarrow> nat \<Rightarrow> (proj_event list, 'w) op"

record 'w external_checkpoint =
  xc_scope :: projection_scope
  xc_definition :: definition_identity
  xc_load :: "(checkpoint, 'w) op"
  xc_advance :: "position option \<Rightarrow> proj_event \<Rightarrow> 'w control \<Rightarrow> (unit, 'w) op"

type_synonym 'w external_target =
  "projection_scope \<Rightarrow> definition_identity \<Rightarrow> proj_event \<Rightarrow> 'w control \<Rightarrow> (apply_outcome, 'w) op"

definition validate_next :: "checkpoint \<Rightarrow> proj_event \<Rightarrow> proj_error + unit" where
  "validate_next cp e =
     (if (case cp_position cp of None \<Rightarrow> False | Some p \<Rightarrow> ev_position e \<le> p) then Err POutOfOrder
      else (case cp_bound cp of
              Through None \<Rightarrow> Err POutOfOrder
            | Through (Some end_at) \<Rightarrow> if ev_position e > end_at then Err POutOfOrder else Ok ()
            | Live \<Rightarrow> Ok ()))"

text \<open>\<open>AtLeastOnce::execute\<close>: load, fence, apply to the target, then advance the checkpoint.\<close>

definition at_least_once_execute ::
  "'w external_checkpoint \<Rightarrow> 'w external_target \<Rightarrow> position option \<Rightarrow> proj_event \<Rightarrow> 'w control
     \<Rightarrow> (apply_outcome, 'w) op" where
  "at_least_once_execute xc target expected e c w =
     (if ev_source e \<noteq> ps_source (xc_scope xc) then (Err PScopeMismatch, w)
      else (case control_run c (xc_load xc) w of
        (Inl k, w1) \<Rightarrow> (Err k, w1)
      | (Inr current, w1) \<Rightarrow>
          if cp_position current \<noteq> expected then (Err PFenced, w1)
          else (case validate_next current e of
            Inl k \<Rightarrow> (Err k, w1)
          | Inr _ \<Rightarrow>
              (case control_run c (target (xc_scope xc) (xc_definition xc) e c) w1 of
                (Inl k, w2) \<Rightarrow> (Err (uncertain k), w2)
              | (Inr out, w2) \<Rightarrow>
                  (case control_run c (xc_advance xc expected e c) w2 of
                    (Inl k, w3) \<Rightarrow> (Err (uncertain k), w3)
                  | (Inr _, w3) \<Rightarrow> (Ok out, w3))))))"

definition at_least_once :: "'w external_checkpoint \<Rightarrow> 'w external_target \<Rightarrow> 'w execution" where
  "at_least_once xc target =
     \<lparr>ex_scope = xc_scope xc, ex_definition = xc_definition xc, ex_checkpoint = xc_load xc,
      ex_execute = at_least_once_execute xc target\<rparr>"

subsection \<open>Runner\<close>

record run_limit =
  rl_batch :: nat
  rl_events :: nat

definition run_limit_new :: "nat \<Rightarrow> nat \<Rightarrow> proj_error + run_limit" where
  "run_limit_new b n = (if n = 0 then Err PInvalidInput else Ok \<lparr>rl_batch = b, rl_events = n\<rparr>)"

datatype stop = CaughtUp | EventLimit | StopFailed proj_error

record run_report =
  rr_position :: "position option"
  rr_applied :: nat
  rr_duplicates :: nat
  rr_filtered :: nat
  rr_stop :: stop

definition report_into_result :: "run_report \<Rightarrow> proj_error + run_report" where
  "report_into_result r = (case rr_stop r of StopFailed e \<Rightarrow> Err e | _ \<Rightarrow> Ok r)"

text \<open>The per-invocation observation that the publisher stores.\<close>

record confirmed_progress =
  pr_position :: "position option"
  pr_applied :: nat
  pr_duplicates :: nat
  pr_filtered :: nat

datatype observation_status =
  ObsPending | ObsRunning confirmed_progress | ObsStopped run_report
  | ObsUnavailable "confirmed_progress option"

definition from_report :: "run_report \<Rightarrow> confirmed_progress" where
  "from_report r =
     \<lparr>pr_position = rr_position r, pr_applied = rr_applied r, pr_duplicates = rr_duplicates r,
      pr_filtered = rr_filtered r\<rparr>"

definition publisher_confirmed :: "run_report \<Rightarrow> observation_status" where
  "publisher_confirmed r = ObsRunning (from_report r)"

definition publisher_finish :: "run_report \<Rightarrow> observation_status" where
  "publisher_finish r = ObsStopped r"

fun publisher_drop :: "observation_status \<Rightarrow> observation_status" where
  "publisher_drop ObsPending = ObsUnavailable None"
| "publisher_drop (ObsRunning p) = ObsUnavailable (Some p)"
| "publisher_drop (ObsStopped r) = ObsStopped r"
| "publisher_drop (ObsUnavailable p) = ObsUnavailable p"

fun validate_events :: "source_scope \<Rightarrow> position option \<Rightarrow> proj_event list \<Rightarrow> proj_error + unit" where
  "validate_events s previous [] = Ok ()"
| "validate_events s previous (e # es) =
     (if ev_source e \<noteq> s then Err PScopeMismatch
      else if (case previous of None \<Rightarrow> False | Some p \<Rightarrow> ev_position e \<le> p) then Err POutOfOrder
      else validate_events s (Some (ev_position e)) es)"

definition validate_batch ::
  "proj_event list \<Rightarrow> 'w execution \<Rightarrow> position option \<Rightarrow> nat \<Rightarrow> proj_error + unit" where
  "validate_batch es ex after limit =
     (if length es > limit then Err PSourceContract
      else validate_events (ps_source (ex_scope ex)) after es)"

definition replay_done :: "checkpoint \<Rightarrow> bool" where
  "replay_done cp =
     (case cp_bound cp of
        Live \<Rightarrow> False
      | Through None \<Rightarrow> True
      | Through (Some end_at) \<Rightarrow> (case cp_position cp of None \<Rightarrow> False | Some p \<Rightarrow> p \<ge> end_at))"

definition empty_stop :: "checkpoint \<Rightarrow> proj_error + stop" where
  "empty_stop cp =
     (if (case cp_bound cp of Through (Some _) \<Rightarrow> True | _ \<Rightarrow> False) \<and> \<not> replay_done cp
      then Err PSourceContract else Ok CaughtUp)"

text \<open>The variables of \<open>drive\<close>: checkpoint, report, remaining budget, observation, world.\<close>

record 'w drive_state =
  ds_checkpoint :: checkpoint
  ds_report :: run_report
  ds_remaining :: nat
  ds_status :: observation_status
  ds_world :: 'w

definition count_outcome :: "apply_outcome \<Rightarrow> run_report \<Rightarrow> run_report" where
  "count_outcome out r =
     (case out of
        AppApplied \<Rightarrow> r\<lparr>rr_applied := rr_applied r + 1\<rparr>
      | AppDuplicate \<Rightarrow> r\<lparr>rr_duplicates := rr_duplicates r + 1\<rparr>
      | AppFiltered \<Rightarrow> r\<lparr>rr_filtered := rr_filtered r + 1\<rparr>)"

definition acknowledge :: "apply_outcome \<Rightarrow> proj_event \<Rightarrow> 'w drive_state \<Rightarrow> 'w drive_state" where
  "acknowledge out e st =
     (let r = (count_outcome out (ds_report st))\<lparr>rr_position := Some (ev_position e)\<rparr>
      in st\<lparr>ds_checkpoint := (ds_checkpoint st)\<lparr>cp_position := Some (ev_position e)\<rparr>,
            ds_report := r, ds_status := publisher_confirmed r,
            ds_remaining := ds_remaining st - 1\<rparr>)"

fun drive_events ::
  "'w control \<Rightarrow> 'w execution \<Rightarrow> proj_event list \<Rightarrow> 'w drive_state
     \<Rightarrow> (proj_error + stop option) \<times> 'w drive_state" where
  "drive_events c ex [] st = (Ok None, st)"
| "drive_events c ex (e # es) st =
     (if (case cp_bound (ds_checkpoint st) of Through (Some end_at) \<Rightarrow> ev_position e > end_at | _ \<Rightarrow> False)
      then (Err PSourceContract, st)
      else (case control_check c (ds_world st) of
        Inl k \<Rightarrow> (Err k, st)
      | Inr _ \<Rightarrow>
          (case control_run c (ex_execute ex (cp_position (ds_checkpoint st)) e c) (ds_world st) of
            (Inl k, w') \<Rightarrow> (Err (uncertain k), st\<lparr>ds_world := w'\<rparr>)
          | (Inr out, w') \<Rightarrow>
              (let st' = acknowledge out e (st\<lparr>ds_world := w'\<rparr>)
               in if replay_done (ds_checkpoint st') then (Ok (Some CaughtUp), st')
                  else drive_events c ex es st'))))"

lemma acknowledge_fields [simp]:
  "ds_remaining (acknowledge out e st) = ds_remaining st - 1"
  "ds_checkpoint (acknowledge out e st) = (ds_checkpoint st)\<lparr>cp_position := Some (ev_position e)\<rparr>"
  "ds_world (acknowledge out e st) = ds_world st"
  by (simp_all add: acknowledge_def Let_def)

lemma drive_events_remaining:
  "drive_events c ex es st = (Ok None, st') \<Longrightarrow> ds_remaining st' = ds_remaining st - length es"
  by (induction c ex es st rule: drive_events.induct)
    (auto simp: Let_def split: if_splits sum.splits prod.splits)

function drive_loop ::
  "'w source_read \<Rightarrow> 'w execution \<Rightarrow> 'w control \<Rightarrow> run_limit \<Rightarrow> 'w drive_state
     \<Rightarrow> (proj_error + stop) \<times> 'w drive_state" where
  "drive_loop src ex c lim st =
     (case control_check c (ds_world st) of
        Inl k \<Rightarrow> (Err k, st)
      | Inr _ \<Rightarrow>
          if ds_remaining st = 0 then (Ok EventLimit, st)
          else if replay_done (ds_checkpoint st) then (Ok CaughtUp, st)
          else (case proj_batch_limit_new (min (ds_remaining st) (rl_batch lim)) of
            Inl k \<Rightarrow> (Err k, st)
          | Inr limit \<Rightarrow>
              (case control_run c (src (ps_source (ex_scope ex)) (cp_position (ds_checkpoint st)) limit)
                      (ds_world st) of
                (Inl k, w') \<Rightarrow> (Err k, st\<lparr>ds_world := w'\<rparr>)
              | (Inr events, w') \<Rightarrow>
                  (case validate_batch events ex (cp_position (ds_checkpoint st)) limit of
                    Inl k \<Rightarrow> (Err k, st\<lparr>ds_world := w'\<rparr>)
                  | Inr _ \<Rightarrow>
                      if events = [] then
                        (case empty_stop (ds_checkpoint st) of
                           Inl k \<Rightarrow> (Err k, st\<lparr>ds_world := w'\<rparr>)
                         | Inr s \<Rightarrow> (Ok s, st\<lparr>ds_world := w'\<rparr>))
                      else (case drive_events c ex events (st\<lparr>ds_world := w'\<rparr>) of
                        (Inl k, st') \<Rightarrow> (Err k, st')
                      | (Inr (Some s), st') \<Rightarrow> (Ok s, st')
                      | (Inr None, st') \<Rightarrow> drive_loop src ex c lim st')))))"
  by pat_completeness auto
termination
proof (relation "measure (\<lambda>(src, ex, c, lim, st). ds_remaining st)", goal_cases)
  case 1
  then show ?case by simp
next
  case (2 src ex c lim st)
  then show ?case
    by (auto dest!: drive_events_remaining [OF sym] simp: length_greater_0_conv [symmetric]
        simp del: length_greater_0_conv)
qed

declare drive_loop.simps [simp del]

definition drive ::
  "'w source_read \<Rightarrow> 'w execution \<Rightarrow> 'w control \<Rightarrow> run_limit \<Rightarrow> run_report \<Rightarrow> 'w
     \<Rightarrow> (proj_error + stop) \<times> 'w drive_state" where
  "drive src ex c lim r w =
     (case control_run c (ex_checkpoint ex) w of
        (Inl k, w') \<Rightarrow>
          (Err k, \<lparr>ds_checkpoint = \<lparr>cp_position = None, cp_bound = Live\<rparr>, ds_report = r,
                   ds_remaining = rl_events lim, ds_status = ObsPending, ds_world = w'\<rparr>)
      | (Inr cp, w') \<Rightarrow>
          (let r' = r\<lparr>rr_position := cp_position cp\<rparr>
           in drive_loop src ex c lim
                \<lparr>ds_checkpoint = cp, ds_report = r', ds_remaining = rl_events lim,
                 ds_status = publisher_confirmed r', ds_world = w'\<rparr>))"

definition initial_report :: run_report where
  "initial_report =
     \<lparr>rr_position = None, rr_applied = 0, rr_duplicates = 0, rr_filtered = 0, rr_stop = CaughtUp\<rparr>"

text \<open>\<open>run\<close>: the report, the final observation and the world.\<close>

definition run ::
  "'w source_read \<Rightarrow> 'w execution \<Rightarrow> 'w control \<Rightarrow> run_limit \<Rightarrow> 'w
     \<Rightarrow> run_report \<times> observation_status \<times> 'w" where
  "run src ex c lim w =
     (case drive src ex c lim initial_report w of
        (res, st) \<Rightarrow>
          (let r = (ds_report st)\<lparr>rr_stop := (case res of Inl e \<Rightarrow> StopFailed e | Inr s \<Rightarrow> s)\<rparr>
           in (r, publisher_finish r, ds_world st)))"

subsection \<open>Ordered sessions\<close>

text \<open>
  The specification of one invocation, as a step relation: from the loaded checkpoint the
  session reads the source and acknowledges events one after the other. An event is executed
  with the position of its predecessor as the expected position, only from the projection's
  source, above the last position and within the replay bound. The log lists the acknowledged
  events with their outcomes.
\<close>

inductive ordered_session ::
  "'w source_read \<Rightarrow> 'w execution \<Rightarrow> 'w control \<Rightarrow> checkpoint \<Rightarrow> 'w
     \<Rightarrow> (proj_event \<times> apply_outcome) list \<Rightarrow> position option \<Rightarrow> 'w \<Rightarrow> bool"
  for src ex c cp w0 where
  os_start: "ordered_session src ex c cp w0 [] (cp_position cp) w0"
| os_read: "ordered_session src ex c cp w0 log p w \<Longrightarrow>
    control_run c (src (ps_source (ex_scope ex)) p n) w = (r, w') \<Longrightarrow>
    ordered_session src ex c cp w0 log p w'"
| os_ack: "ordered_session src ex c cp w0 log p w \<Longrightarrow>
    ev_source e = ps_source (ex_scope ex) \<Longrightarrow>
    validate_next (cp\<lparr>cp_position := p\<rparr>) e = Ok () \<Longrightarrow>
    control_run c (ex_execute ex p e c) w = (Ok out, w') \<Longrightarrow>
    ordered_session src ex c cp w0 (log @ [(e, out)]) (Some (ev_position e)) w'"

text \<open>How a report and a final position read off the log.\<close>

definition outcomes :: "apply_outcome \<Rightarrow> (proj_event \<times> apply_outcome) list \<Rightarrow> nat" where
  "outcomes out log = count_list (map snd log) out"

definition log_position :: "position option \<Rightarrow> (proj_event \<times> apply_outcome) list \<Rightarrow> position option" where
  "log_position p log = (if log = [] then p else Some (ev_position (fst (last log))))"

definition report_of_log ::
  "position option \<Rightarrow> (proj_event \<times> apply_outcome) list \<Rightarrow> run_report \<Rightarrow> bool" where
  "report_of_log p log r \<longleftrightarrow>
     rr_position r = log_position p log \<and> rr_applied r = outcomes AppApplied log \<and>
     rr_duplicates r = outcomes AppDuplicate log \<and> rr_filtered r = outcomes AppFiltered log"

lemma outcomes_simps [simp]:
  "outcomes out [] = 0"
  "outcomes out (log @ [(e, out')]) = outcomes out log + (if out' = out then 1 else 0)"
  by (simp_all add: outcomes_def count_list_append)

lemma log_position_simps [simp]:
  "log_position p [] = p"
  "log_position p (log @ [x]) = Some (ev_position (fst x))"
  by (simp_all add: log_position_def)

lemma outcomes_total: "outcomes AppApplied log + outcomes AppDuplicate log + outcomes AppFiltered log = length log"
proof (induction log rule: rev_induct)
  case (snoc x log)
  then show ?case by (cases x; cases "snd x") auto
qed simp

lemma session_position: "ordered_session src ex c cp w0 log p w \<Longrightarrow> p = log_position (cp_position cp) log"
  by (induction rule: ordered_session.induct) simp_all

lemma validate_next_Ok_iff:
  "validate_next cp e = Ok () \<longleftrightarrow>
     (\<forall>p. cp_position cp = Some p \<longrightarrow> p < ev_position e) \<and>
     (case cp_bound cp of Live \<Rightarrow> True | Through None \<Rightarrow> False | Through (Some b) \<Rightarrow> ev_position e \<le> b)"
  by (auto simp: validate_next_def split: option.splits replay_bound.splits)

text \<open>Whatever the session acknowledged lies strictly in order above the checkpoint and within the bound.\<close>

definition above :: "position option \<Rightarrow> position \<Rightarrow> bool" where
  "above p q \<longleftrightarrow> (case p of None \<Rightarrow> True | Some x \<Rightarrow> x < q)"

definition within :: "replay_bound \<Rightarrow> position \<Rightarrow> bool" where
  "within b q \<longleftrightarrow> (case b of Live \<Rightarrow> True | Through None \<Rightarrow> False | Through (Some x) \<Rightarrow> q \<le> x)"

lemma above_simps [simp]:
  "above None q"
  "above (Some x) q \<longleftrightarrow> x < q"
  by (simp_all add: above_def)

lemma validate_next_within:
  "validate_next cp e = Ok () \<longleftrightarrow> above (cp_position cp) (ev_position e) \<and> within (cp_bound cp) (ev_position e)"
  by (auto simp: validate_next_def above_def within_def split: option.splits replay_bound.splits)

definition log_ordered ::
  "checkpoint \<Rightarrow> source_scope \<Rightarrow> (proj_event \<times> apply_outcome) list \<Rightarrow> bool" where
  "log_ordered cp s log \<longleftrightarrow>
     sorted_wrt (<) (map (ev_position \<circ> fst) log) \<and>
     list_all (\<lambda>(e, _). above (cp_position cp) (ev_position e) \<and> within (cp_bound cp) (ev_position e)
                \<and> ev_source e = s) log"

lemma log_ordered_snoc:
  assumes "log_ordered cp s log" and "above (log_position (cp_position cp) log) (ev_position e)"
    and "within (cp_bound cp) (ev_position e)" and "ev_source e = s"
  shows "log_ordered cp s (log @ [(e, out)])"
proof (cases log rule: rev_cases)
  case Nil
  then show ?thesis using assms by (simp add: log_ordered_def)
next
  case (snoc es x)
  obtain d out' where x: "x = (d, out')" by (cases x)
  have le: "ev_position (fst y) \<le> ev_position d" if "y \<in> set log" for y
    using that assms(1) unfolding snoc x log_ordered_def by (auto simp: sorted_wrt_append)
  have "ev_position d < ev_position e" using assms(2) by (simp add: snoc x)
  moreover from this have "above (cp_position cp) (ev_position e)"
    using assms(1) by (auto simp: snoc x log_ordered_def above_def split: option.splits)
  ultimately show ?thesis
    using assms le by (fastforce simp: log_ordered_def sorted_wrt_append)
qed

lemma session_log_ordered:
  "ordered_session src ex c cp w0 log p w \<Longrightarrow> log_ordered cp (ps_source (ex_scope ex)) log"
proof (induction rule: ordered_session.induct)
  case os_start
  then show ?case by (simp add: log_ordered_def)
next
  case (os_ack log p w e out w')
  then show ?case
    using session_position [OF os_ack.hyps(1)]
    by (intro log_ordered_snoc) (auto simp: validate_next_within)
qed simp

subsection \<open>The runner implements ordered sessions\<close>

text \<open>The state of \<open>drive\<close> after a session, against the budget the invocation started with.\<close>

definition drive_inv ::
  "'w source_read \<Rightarrow> 'w execution \<Rightarrow> 'w control \<Rightarrow> checkpoint \<Rightarrow> 'w \<Rightarrow> nat
     \<Rightarrow> (proj_event \<times> apply_outcome) list \<Rightarrow> 'w drive_state \<Rightarrow> bool" where
  "drive_inv src ex c cp w0 budget log st \<longleftrightarrow>
     ordered_session src ex c cp w0 log (cp_position (ds_checkpoint st)) (ds_world st) \<and>
     cp_bound (ds_checkpoint st) = cp_bound cp \<and>
     report_of_log (cp_position cp) log (ds_report st) \<and>
     ds_remaining st + length log = budget"

lemma drive_inv_read:
  "drive_inv src ex c cp w0 budget log st \<Longrightarrow>
   control_run c (src (ps_source (ex_scope ex)) (cp_position (ds_checkpoint st)) n) (ds_world st) = (r, w') \<Longrightarrow>
   drive_inv src ex c cp w0 budget log (st\<lparr>ds_world := w'\<rparr>)"
  by (auto simp: drive_inv_def intro: os_read)

lemma drive_inv_ack:
  assumes "drive_inv src ex c cp w0 budget log st" and "0 < ds_remaining st"
    and "ev_source e = ps_source (ex_scope ex)"
    and "above (cp_position (ds_checkpoint st)) (ev_position e)" "within (cp_bound cp) (ev_position e)"
    and "control_run c (ex_execute ex (cp_position (ds_checkpoint st)) e c) (ds_world st) = (Ok out, w')"
  shows "drive_inv src ex c cp w0 budget (log @ [(e, out)]) (acknowledge out e (st\<lparr>ds_world := w'\<rparr>))"
proof -
  have "ordered_session src ex c cp w0 (log @ [(e, out)]) (Some (ev_position e)) w'"
    using assms by (intro os_ack) (auto simp: drive_inv_def validate_next_within)
  then show ?thesis
    using assms(1,2)
    by (cases out) (auto simp: drive_inv_def report_of_log_def acknowledge_def Let_def count_outcome_def)
qed

text \<open>The events a batch may hold: from the source, ascending, within the budget.\<close>

lemma validate_events_Cons:
  "validate_events s p (e # es) = Ok () \<longleftrightarrow>
     ev_source e = s \<and> above p (ev_position e) \<and> validate_events s (Some (ev_position e)) es = Ok ()"
  by (auto simp: above_def split: option.splits)

text \<open>How an invocation ends: after a session, possibly with one execution that failed.\<close>

definition ends_after ::
  "'w source_read \<Rightarrow> 'w execution \<Rightarrow> 'w control \<Rightarrow> checkpoint \<Rightarrow> 'w \<Rightarrow> nat
     \<Rightarrow> proj_error + 's \<Rightarrow> 'w drive_state \<Rightarrow> bool" where
  "ends_after src ex c cp w0 budget res st \<longleftrightarrow>
     (\<exists>log. drive_inv src ex c cp w0 budget log st \<or>
       (\<exists>w e k. drive_inv src ex c cp w0 budget log (st\<lparr>ds_world := w\<rparr>) \<and>
          control_run c (ex_execute ex (cp_position (ds_checkpoint st)) e c) w = (Err k, ds_world st) \<and>
          res = Err (uncertain k)))"

lemma ends_after_session: "drive_inv src ex c cp w0 budget log st \<Longrightarrow> ends_after src ex c cp w0 budget res st"
  by (auto simp: ends_after_def)

lemma ends_after_failure:
  assumes "drive_inv src ex c cp w0 budget log st"
    and "control_run c (ex_execute ex (cp_position (ds_checkpoint st)) e c) (ds_world st) = (Err k, w')"
  shows "ends_after src ex c cp w0 budget (Err (uncertain k)) (st\<lparr>ds_world := w'\<rparr>)"
proof -
  have "drive_inv src ex c cp w0 budget log (st\<lparr>ds_world := w', ds_world := ds_world st\<rparr>)"
    using assms(1) by simp
  then show ?thesis using assms(2) unfolding ends_after_def by fastforce
qed

lemma drive_events_inv:
  assumes "drive_inv src ex c cp w0 budget log st"
    and "validate_events (ps_source (ex_scope ex)) (cp_position (ds_checkpoint st)) es = Ok ()"
    and "length es \<le> ds_remaining st" and "cp_bound cp \<noteq> Through None"
    and "drive_events c ex es st = (res, st')"
  shows "ends_after src ex c cp w0 budget res st' \<and>
         (\<forall>s. res = Ok s \<longrightarrow> (\<exists>log'. drive_inv src ex c cp w0 budget log' st'))"
  using assms
proof (induction es arbitrary: log st)
  case Nil
  then show ?case by (auto simp: ends_after_def)
next
  case (Cons e es)
  note inv = Cons.prems(1)
  have bound: "cp_bound (ds_checkpoint st) = cp_bound cp" using inv by (simp add: drive_inv_def)
  have ev: "ev_source e = ps_source (ex_scope ex)" "above (cp_position (ds_checkpoint st)) (ev_position e)"
    "validate_events (ps_source (ex_scope ex)) (Some (ev_position e)) es = Ok ()"
    using Cons.prems(2) unfolding validate_events_Cons by simp_all
  show ?case
  proof (cases "within (cp_bound cp) (ev_position e)")
    case False
    then have "drive_events c ex (e # es) st = (Err PSourceContract, st)"
      using Cons.prems(4) by (auto simp: bound within_def split: replay_bound.splits option.splits)
    with Cons.prems(1,5) show ?thesis by (auto simp: ends_after_def)
  next
    case True
    then have in_bound: "\<not> (case cp_bound cp of Through (Some b) \<Rightarrow> ev_position e > b | _ \<Rightarrow> False)"
      by (auto simp: within_def split: replay_bound.splits option.splits)
    obtain r w' where run: "control_run c (ex_execute ex (cp_position (ds_checkpoint st)) e c) (ds_world st) = (r, w')"
      by fastforce
    show ?thesis
    proof (cases r)
      case (Inl k)
      with Cons.prems(5) run in_bound inv show ?thesis
        by (cases "control_check c (ds_world st)")
          (auto simp: bound intro: ends_after_session ends_after_failure)
    next
      case (Inr out)
      have inv': "drive_inv src ex c cp w0 budget (log @ [(e, out)]) (acknowledge out e (st\<lparr>ds_world := w'\<rparr>))"
        using Cons.prems(3) run Inr by (intro drive_inv_ack [OF inv]) (auto simp: ev True)
      from Cons.IH [OF inv'] Cons.prems(3,4,5) ev(3) inv inv' run Inr in_bound show ?thesis
        by (cases "control_check c (ds_world st)")
          (auto simp: ends_after_def Let_def bound split: if_splits)
    qed
  qed
qed

lemma drive_loop_inv:
  assumes "drive_inv src ex c cp w0 budget log st" "drive_loop src ex c lim st = (res, st')"
  shows "ends_after src ex c cp w0 budget res st'"
  using assms
proof (induction src ex c lim st arbitrary: log rule: drive_loop.induct)
  case (1 src ex c lim st)
  note inv = "1.prems"(1)
  define limit where "limit = min (ds_remaining st) (rl_batch lim)"
  obtain r w' where read: "control_run c (src (ps_source (ex_scope ex)) (cp_position (ds_checkpoint st)) limit) (ds_world st) = (r, w')"
    by fastforce
  note inv' = drive_inv_read [OF inv read]
  have stay: ?case if "st' = st \<or> st' = st\<lparr>ds_world := w'\<rparr>"
    using that inv inv' by (auto simp: ends_after_def)
  show ?case
  proof (cases "control_check c (ds_world st) = Ok () \<and> ds_remaining st \<noteq> 0 \<and> \<not> replay_done (ds_checkpoint st)
      \<and> is_ok (proj_batch_limit_new limit) \<and> (\<exists>es. r = Ok es \<and> es \<noteq> [] \<and>
          validate_batch es ex (cp_position (ds_checkpoint st)) limit = Ok ())")
    case False
    then have "st' = st \<or> st' = st\<lparr>ds_world := w'\<rparr>"
      using "1.prems"(2) read
      by (subst (asm) drive_loop.simps)
        (auto simp: limit_def [symmetric] proj_batch_limit_new_def split: sum.splits if_splits)
    then show ?thesis by (rule stay)
  next
    case True
    then obtain es where go: "control_check c (ds_world st) = Ok ()" "ds_remaining st \<noteq> 0"
        "\<not> replay_done (ds_checkpoint st)" "proj_batch_limit_new limit = Ok limit" "r = Ok es" "es \<noteq> []"
        "validate_batch es ex (cp_position (ds_checkpoint st)) limit = Ok ()"
      by (auto simp: proj_batch_limit_new_def split: if_splits)
    obtain res1 st1 where ev: "drive_events c ex es (st\<lparr>ds_world := w'\<rparr>) = (res1, st1)" by fastforce
    have "cp_bound cp \<noteq> Through None"
      using go(3) inv by (auto simp: replay_done_def drive_inv_def)
    then have step: "ends_after src ex c cp w0 budget res1 st1"
        "\<And>s. res1 = Ok s \<Longrightarrow> \<exists>log'. drive_inv src ex c cp w0 budget log' st1"
      using drive_events_inv [OF inv' _ _ _ ev] go(7)
      by (auto simp: validate_batch_def limit_def split: if_splits)
    have unfold: "drive_loop src ex c lim st =
        (case res1 of Inl k \<Rightarrow> (Err k, st1) | Inr (Some s) \<Rightarrow> (Ok s, st1)
         | Inr None \<Rightarrow> drive_loop src ex c lim st1)"
      by (subst drive_loop.simps) (simp add: go read ev limit_def [symmetric] split: sum.splits option.splits)
    show ?thesis
    proof (cases "res1 = Ok None")
      case True
      then obtain log' where "drive_inv src ex c cp w0 budget log' st1" using step(2) by blast
      from "1.IH" [OF go(1,2,3) _ _ _ _ _ _ _ _ this] show ?thesis
        using True "1.prems"(2) unfold go read ev by (simp add: limit_def [symmetric])
    next
      case False
      then show ?thesis
        using step(1) "1.prems"(2) unfold
        by (auto simp: ends_after_def split: sum.splits option.splits)
    qed
  qed
qed

text \<open>Every invocation that loaded a checkpoint is an ordered session.\<close>

lemma run_session:
  assumes "control_run c (ex_checkpoint ex) w = (Ok cp, w0)"
    and "run src ex c lim w = (r, obs, w')"
  shows "\<exists>log p w1. ordered_session src ex c cp w0 log p w1 \<and> report_of_log (cp_position cp) log r \<and>
           length log \<le> rl_events lim \<and>
           (w' = w1 \<or> (\<exists>e k. control_run c (ex_execute ex p e c) w1 = (Err k, w') \<and> rr_stop r = StopFailed (uncertain k)))"
proof -
  define st where "st = \<lparr>ds_checkpoint = cp, ds_report = initial_report\<lparr>rr_position := cp_position cp\<rparr>,
      ds_remaining = rl_events lim,
      ds_status = publisher_confirmed (initial_report\<lparr>rr_position := cp_position cp\<rparr>), ds_world = w0\<rparr>"
  obtain res st' where loop: "drive_loop src ex c lim st = (res, st')" by fastforce
  have "drive_inv src ex c cp w0 (rl_events lim) [] st"
    by (simp add: drive_inv_def st_def report_of_log_def initial_report_def ordered_session.os_start)
  from drive_loop_inv [OF this loop] have "ends_after src ex c cp w0 (rl_events lim) res st'" .
  moreover have "r = (ds_report st')\<lparr>rr_stop := (case res of Inl e \<Rightarrow> StopFailed e | Inr s \<Rightarrow> s)\<rparr>" "w' = ds_world st'"
    using assms loop by (auto simp: run_def drive_def Let_def st_def [symmetric])
  ultimately show ?thesis
    unfolding ends_after_def drive_inv_def report_of_log_def by fastforce
qed

text \<open>An invocation with budget one that finds an event.\<close>

definition one_event_report :: "position \<Rightarrow> run_report" where
  "one_event_report p =
     \<lparr>rr_position = Some p, rr_applied = 1, rr_duplicates = 0, rr_filtered = 0, rr_stop = EventLimit\<rparr>"

lemma run_one_event:
  assumes "\<And>w. control_check c w = Ok ()"
    and "control_run c (ex_checkpoint ex) w = (Ok \<lparr>cp_position = None, cp_bound = Live\<rparr>, w0)"
    and "control_run c (src (ps_source (ex_scope ex)) None (Suc 0)) w0 = (Ok [e], w1)"
    and "ev_source e = ps_source (ex_scope ex)"
    and "control_run c (ex_execute ex None e c) w1 = (Ok AppApplied, w2)"
  shows "run src ex c \<lparr>rl_batch = 10, rl_events = 1\<rparr> w =
           (one_event_report (ev_position e), ObsStopped (one_event_report (ev_position e)), w2)"
proof -
  define st where "st = \<lparr>ds_checkpoint = \<lparr>cp_position = Some (ev_position e), cp_bound = Live\<rparr>,
      ds_report = (one_event_report (ev_position e))\<lparr>rr_stop := CaughtUp\<rparr>, ds_remaining = 0,
      ds_status = publisher_confirmed ((one_event_report (ev_position e))\<lparr>rr_stop := CaughtUp\<rparr>), ds_world = w2\<rparr>"
  have stop: "drive_loop src ex c lim st = (Ok EventLimit, st)" for lim
    by (subst drive_loop.simps) (simp add: st_def assms(1))
  have "drive src ex c \<lparr>rl_batch = 10, rl_events = 1\<rparr> initial_report w =
      drive_loop src ex c \<lparr>rl_batch = 10, rl_events = 1\<rparr> st"
    unfolding drive_def assms(2)
    by (subst drive_loop.simps)
      (simp add: assms(1,3,4,5) Let_def proj_batch_limit_new_def replay_done_def validate_batch_def
        acknowledge_def count_outcome_def initial_report_def st_def one_event_report_def)
  then show ?thesis
    by (simp add: run_def stop Let_def publisher_finish_def) (simp add: st_def one_event_report_def)
qed

subsection \<open>Executions that settle what they acknowledge\<close>

text \<open>
  The contract a provider gives the runner: a durable fact about events that an acknowledged
  execution establishes and that no later operation of the session takes away, whatever
  admissible control interrupts it.
\<close>

locale settling_execution =
  fixes src :: "'w source_read"
    and ex :: "'w execution"
    and admissible :: "'w control \<Rightarrow> bool"
    and fact :: "'w \<Rightarrow> proj_event \<Rightarrow> bool"
  assumes read_keeps: "admissible c \<Longrightarrow> fact w d \<Longrightarrow> fact (snd (control_run c (src s p n) w)) d"
    and execute_keeps: "admissible c \<Longrightarrow> fact w d \<Longrightarrow> fact (snd (control_run c (ex_execute ex p e c) w)) d"
    and execute_settles: "admissible c \<Longrightarrow> control_run c (ex_execute ex p e c) w = (Ok out, w') \<Longrightarrow> fact w' e"
begin

lemma session_settled:
  assumes "admissible c" and "ordered_session src ex c cp w0 log p w"
  shows "list_all (\<lambda>(e, _). fact w e) log"
  using assms(2)
proof (induction rule: ordered_session.induct)
  case (os_read log p w n r w')
  then show ?case
    using read_keeps [OF assms(1), of w _ "ps_source (ex_scope ex)" p n] by (auto simp: list_all_iff)
next
  case (os_ack log p w e out w')
  then show ?case
    using execute_keeps [OF assms(1), of w _ p e] execute_settles [OF assms(1) os_ack.hyps(4)]
    by (auto simp: list_all_iff)
qed simp

lemma run_settled:
  assumes "admissible c" and "control_run c (ex_checkpoint ex) w = (Ok cp, w0)"
    and "run src ex c lim w = (r, obs, w')"
  shows "\<exists>log. report_of_log (cp_position cp) log r \<and> log_ordered cp (ps_source (ex_scope ex)) log \<and>
           length log \<le> rl_events lim \<and> list_all (\<lambda>(e, _). fact w' e) log"
proof -
  obtain log p w1 where s: "ordered_session src ex c cp w0 log p w1" "report_of_log (cp_position cp) log r"
      "length log \<le> rl_events lim"
      "w' = w1 \<or> (\<exists>e k. control_run c (ex_execute ex p e c) w1 = (Err k, w'))"
    using run_session [OF assms(2,3)] by blast
  have "fact w' e" if "fact w1 e" for e
    using s(4) that execute_keeps [OF assms(1) that] by (metis snd_conv)
  with session_settled [OF assms(1) s(1)] have "list_all (\<lambda>(e, _). fact w' e) log"
    by (auto simp: list_all_iff)
  then show ?thesis using s(2,3) session_log_ordered [OF s(1)] by blast
qed

end

text \<open>How far an at-least-once execution came.\<close>

lemma at_least_once_cases:
  assumes "at_least_once_execute xc target expected e c w = (r, w')"
  obtains (unscoped) "r = Err PScopeMismatch" "w' = w" "ev_source e \<noteq> ps_source (xc_scope xc)"
  | (unattempted) l k where "control_run c (xc_load xc) w = (l, w')" "r = Err k"
      "l = Err k \<or> k \<in> {PFenced, POutOfOrder}"
  | (uncertain_target) cur w1 k where "control_run c (xc_load xc) w = (Ok cur, w1)"
      "cp_position cur = expected" "validate_next cur e = Ok ()"
      "control_run c (target (xc_scope xc) (xc_definition xc) e c) w1 = (Err k, w')" "r = Err (uncertain k)"
  | (advanced) cur w1 w2 out a where "control_run c (xc_load xc) w = (Ok cur, w1)"
      "cp_position cur = expected" "validate_next cur e = Ok ()"
      "control_run c (target (xc_scope xc) (xc_definition xc) e c) w1 = (Ok out, w2)"
      "control_run c (xc_advance xc expected e c) w2 = (a, w')"
      "r = (case a of Inl k \<Rightarrow> Err (uncertain k) | Inr _ \<Rightarrow> Ok out)"
proof (cases "ev_source e = ps_source (xc_scope xc)")
  case False
  with assms unscoped show ?thesis by (simp add: at_least_once_execute_def)
next
  case True
  obtain l w1 where l: "control_run c (xc_load xc) w = (l, w1)" by fastforce
  show ?thesis
  proof (cases "\<exists>cur. l = Ok cur \<and> cp_position cur = expected \<and> validate_next cur e = Ok ()")
    case False
    then show ?thesis
      using assms l True unattempted
      by (auto simp: at_least_once_execute_def validate_next_def split: sum.splits if_splits option.splits replay_bound.splits)
  next
    case ok: True
    then obtain cur where cur: "l = Ok cur" "cp_position cur = expected" "validate_next cur e = Ok ()" by blast
    obtain t w2 where t: "control_run c (target (xc_scope xc) (xc_definition xc) e c) w1 = (t, w2)" by fastforce
    show ?thesis
    proof (cases t)
      case (Inl k)
      with assms l cur t True uncertain_target show ?thesis by (simp add: at_least_once_execute_def)
    next
      case (Inr out)
      with assms l cur t True advanced show ?thesis
        by (simp add: at_least_once_execute_def split: prod.splits sum.splits)
    qed
  qed
qed

text \<open>The same contract for the checkpoint half of an external projection.\<close>

locale settling_checkpoint =
  fixes src :: "'w source_read"
    and xc :: "'w external_checkpoint"
    and target :: "'w external_target"
    and admissible :: "'w control \<Rightarrow> bool"
    and fact :: "'w \<Rightarrow> proj_event \<Rightarrow> bool"
  assumes source_keeps: "admissible c \<Longrightarrow> fact w d \<Longrightarrow> fact (snd (control_run c (src s p n) w)) d"
    and load_keeps: "admissible c \<Longrightarrow> fact w d \<Longrightarrow> fact (snd (control_run c (xc_load xc) w)) d"
    and target_keeps: "admissible c \<Longrightarrow> fact w d \<Longrightarrow> fact (snd (control_run c (target sc df e c) w)) d"
    and advance_keeps: "admissible c \<Longrightarrow> fact w d \<Longrightarrow> fact (snd (control_run c (xc_advance xc p e c) w)) d"
    and advance_settles: "admissible c \<Longrightarrow> control_run c (xc_advance xc p e c) w = (Ok u, w') \<Longrightarrow> fact w' e"
    and interrupt_keeps: "admissible c \<Longrightarrow> ctl_interrupt c w w' = Some (b, w'') \<Longrightarrow> fact w d \<Longrightarrow> fact w' d \<Longrightarrow> fact w'' d"
begin

lemma at_least_once_keeps:
  assumes "admissible c" and "fact w d" and "at_least_once_execute xc target expected e c w = (r, w')"
  shows "fact w' d"
  using assms(3)
proof (cases rule: at_least_once_cases)
  case unscoped
  with assms(2) show ?thesis by simp
next
  case unattempted
  with load_keeps [OF assms(1,2)] show ?thesis by simp
next
  case (uncertain_target cur w1 k)
  with load_keeps [OF assms(1,2)] have "fact w1 d" by simp
  from target_keeps [OF assms(1) this] uncertain_target show ?thesis by (metis snd_conv)
next
  case (advanced cur w1 w2 out a)
  with load_keeps [OF assms(1,2)] have "fact w1 d" by simp
  from target_keeps [OF assms(1) this] advanced have "fact w2 d" by (metis snd_conv)
  from advance_keeps [OF assms(1) this] advanced show ?thesis by (metis snd_conv)
qed

lemma at_least_once_settles:
  assumes "admissible c" and "at_least_once_execute xc target expected e c w = (Ok out, w')"
  shows "fact w' e"
  using assms(2)
  by (cases rule: at_least_once_cases) (auto dest: advance_settles [OF assms(1)] split: sum.splits)

end

lemma control_run_Ok: "control_run c f w = (Ok v, w') \<Longrightarrow> f w = (Ok v, w')"
  by (auto simp: control_run_def split: sum.splits prod.splits option.splits if_splits)

sublocale settling_checkpoint \<subseteq> settling_execution src "at_least_once xc target" admissible fact
proof unfold_locales
  fix c w d s p n
  assume "admissible c" and "fact w d"
  then show "fact (snd (control_run c (src s p n) w)) d" by (rule source_keeps)
next
  fix c w d p e
  assume adm: "admissible c" and fact: "fact w d"
  have "fact (snd (at_least_once_execute xc target p e c w)) d"
    using at_least_once_keeps [OF adm fact] by (metis surjective_pairing)
  then show "fact (snd (control_run c (ex_execute (at_least_once xc target) p e c) w)) d"
    using fact interrupt_keeps [OF adm]
    by (auto simp: control_run_def at_least_once_def split: sum.splits prod.splits option.splits)
next
  fix c p e w out w'
  assume "admissible c" and "control_run c (ex_execute (at_least_once xc target) p e c) w = (Ok out, w')"
  then show "fact w' e"
    by (auto simp: at_least_once_def dest!: control_run_Ok intro: at_least_once_settles)
qed

subsection \<open>Generation starts\<close>

text \<open>One step of the loop, as a case rule.\<close>

lemma unique_receipts_Cons:
  assumes "unique_receipts p u (r # rs) = Ok u'"
  obtains (old) old where "br_position r \<le> p" "u (br_id r) = Some old" "br_source old = br_source r"
      "br_fingerprint old = br_fingerprint r" "unique_receipts p u rs = Ok u'"
  | (new) "br_position r \<le> p" "u (br_id r) = None" "unique_receipts p (u(br_id r \<mapsto> r)) rs = Ok u'"
  using assms by (auto split: option.splits if_splits)

lemma unique_receipts_keeps:
  "unique_receipts p u rs = Ok u' \<Longrightarrow> u i = Some r \<Longrightarrow> u' i = Some r"
proof (induction rs arbitrary: u)
  case (Cons x rs)
  from Cons.prems(1) show ?case
  proof (cases rule: unique_receipts_Cons)
    case old
    with Cons show ?thesis by blast
  next
    case new
    then have "(u(br_id x \<mapsto> x)) i = Some r" using Cons.prems(2) by auto
    with Cons.IH [OF new(3)] show ?thesis .
  qed
qed simp

lemma unique_receipts_range:
  "unique_receipts p u rs = Ok u' \<Longrightarrow> u' i = Some r \<Longrightarrow> u i = Some r \<or> (r \<in> set rs \<and> br_id r = i)"
proof (induction rs arbitrary: u)
  case (Cons x rs)
  from Cons.prems(1) show ?case
  proof (cases rule: unique_receipts_Cons)
    case old
    with Cons show ?thesis by auto
  next
    case new
    from Cons.IH [OF new(3) Cons.prems(2)] show ?thesis by (auto split: if_splits)
  qed
qed simp

lemma unique_receipts_covers:
  "unique_receipts p u rs = Ok u' \<Longrightarrow> r \<in> set rs \<Longrightarrow>
     br_position r \<le> p \<and> (\<exists>r'. u' (br_id r) = Some r' \<and> br_source r' = br_source r \<and> br_fingerprint r' = br_fingerprint r)"
proof (induction rs arbitrary: u)
  case (Cons x rs)
  from Cons.prems(1) show ?case
  proof (cases rule: unique_receipts_Cons)
    case (old y)
    from unique_receipts_keeps [OF old(5,2)] Cons.IH [OF old(5)] Cons.prems(2) old show ?thesis by auto
  next
    case new
    from unique_receipts_keeps [OF new(3), of "br_id x" x] Cons.IH [OF new(3)] Cons.prems(2) new show ?thesis by auto
  qed
qed simp

definition agree :: "baseline_receipt \<Rightarrow> baseline_receipt \<Rightarrow> bool" where
  "agree r r' \<longleftrightarrow> (br_id r = br_id r' \<longrightarrow> br_source r = br_source r' \<and> br_fingerprint r = br_fingerprint r')"

lemma unique_receipts_ok:
  assumes "list_all (\<lambda>r. br_position r \<le> p) rs" and "pairwise agree (set rs \<union> ran u)"
    and "\<forall>i r. u i = Some r \<longrightarrow> br_id r = i"
  shows "\<exists>u'. unique_receipts p u rs = Ok u'"
  using assms
proof (induction rs arbitrary: u)
  case (Cons r rs)
  show ?case
  proof (cases "u (br_id r)")
    case None
    then have "ran (u(br_id r \<mapsto> r)) = insert r (ran u)" by (rule ran_map_upd)
    then have "pairwise agree (set rs \<union> ran (u(br_id r \<mapsto> r)))"
      using Cons.prems(2) by simp
    moreover have "\<forall>i x. (u(br_id r \<mapsto> r)) i = Some x \<longrightarrow> br_id x = i" using Cons.prems(3) by simp
    moreover have "list_all (\<lambda>r. br_position r \<le> p) rs" using Cons.prems(1) by simp
    ultimately have "\<exists>u'. unique_receipts p (u(br_id r \<mapsto> r)) rs = Ok u'" by (intro Cons.IH)
    then show ?thesis using Cons.prems(1) None by auto
  next
    case (Some old)
    then have old: "old \<in> ran u" "br_id old = br_id r" using Cons.prems(3) by (auto simp: ran_def)
    then have "old = r \<or> agree r old"
      using Cons.prems(2) by (auto simp: pairwise_def)
    then have same: "br_source old = br_source r" "br_fingerprint old = br_fingerprint r"
      using old by (auto simp: agree_def)
    have "pairwise agree (set rs \<union> ran u)"
      using Cons.prems(2) by (rule pairwise_subset) auto
    then have "\<exists>u'. unique_receipts p u rs = Ok u'" using Cons by auto
    then show ?thesis using Cons.prems(1) Some same by auto
  qed
qed simp

lemma into_values_map:
  assumes "\<And>i. i \<in> set ks \<Longrightarrow> \<exists>r. m i = Some r \<and> f r = i"
  shows "map f (into_values ks m) = sort (remdups ks)"
proof -
  have "map f (List.map_filter m xs) = xs" if "set xs \<subseteq> set ks" for xs
    using that by (induction xs) (use assms in \<open>force simp: List.map_filter_simps\<close>)+
  then show ?thesis by (simp add: into_values_def)
qed

lemma into_values_set: "r \<in> set (into_values ks m) \<Longrightarrow> \<exists>i. m i = Some r"
  by (auto simp: into_values_def List.map_filter_def)

lemma gs_after_position_values:
  assumes "gs_after_position p rs = Ok g"
  shows "gs_after g = Some p" and "set (gs_receipts g) \<subseteq> set rs"
    and "map br_id (gs_receipts g) = sort (remdups (map br_id rs))"
proof -
  from assms obtain u where u: "unique_receipts p Map.empty rs = Ok u"
      "g = \<lparr>gs_after = Some p, gs_receipts = into_values (map br_id rs) u\<rparr>"
    by (auto simp: gs_after_position_def and_then_Inr_iff split: if_splits)
  show "gs_after g = Some p" using u(2) by simp
  show "set (gs_receipts g) \<subseteq> set rs"
    using u(2) unique_receipts_range [OF u(1)] by (auto dest!: into_values_set)
  have "\<exists>r'. u i = Some r' \<and> br_id r' = i" if "i \<in> set (map br_id rs)" for i
    using that unique_receipts_covers [OF u(1)] unique_receipts_range [OF u(1)] by fastforce
  from into_values_map [of "map br_id rs" u br_id, OF this]
  show "map br_id (gs_receipts g) = sort (remdups (map br_id rs))"
    using u(2) by simp
qed

lemma gs_after_position_accepts:
  "(\<exists>g. gs_after_position p rs = Ok g) \<longleftrightarrow>
     rs \<noteq> [] \<and> list_all (\<lambda>r. br_position r \<le> p) rs \<and> pairwise agree (set rs)"
proof
  assume "\<exists>g. gs_after_position p rs = Ok g"
  then obtain u where u: "rs \<noteq> []" "unique_receipts p Map.empty rs = Ok u"
    by (auto simp: gs_after_position_def and_then_Inr_iff split: if_splits)
  have "agree r r'" if "r \<in> set rs" "r' \<in> set rs" for r r'
    using unique_receipts_covers [OF u(2)] that unfolding agree_def by (metis option.inject)
  then show "rs \<noteq> [] \<and> list_all (\<lambda>r. br_position r \<le> p) rs \<and> pairwise agree (set rs)"
    using u unique_receipts_covers [OF u(2)] by (simp add: list_all_iff pairwise_def)
next
  assume a: "rs \<noteq> [] \<and> list_all (\<lambda>r. br_position r \<le> p) rs \<and> pairwise agree (set rs)"
  then show "\<exists>g. gs_after_position p rs = Ok g"
    using unique_receipts_ok [of p rs Map.empty] by (auto simp: gs_after_position_def)
qed

text \<open>
  A generation start after a position is accepted exactly when the baseline is not empty,
  lies at or before the position and never names one event id with two sources or
  fingerprints; an accepted baseline lists one of the supplied receipts for each supplied id,
  in ascending order of the ids.
\<close>

theorem gs_after_position_spec:
  "case gs_after_position p rs of
     Inl _ \<Rightarrow> rs = [] \<or> \<not> list_all (\<lambda>r. br_position r \<le> p) rs \<or> \<not> pairwise agree (set rs)
   | Inr g \<Rightarrow> rs \<noteq> [] \<and> list_all (\<lambda>r. br_position r \<le> p) rs \<and> pairwise agree (set rs) \<and>
       gs_after g = Some p \<and> set (gs_receipts g) \<subseteq> set rs \<and>
       map br_id (gs_receipts g) = sort (remdups (map br_id rs))"
  using gs_after_position_accepts [of p rs] gs_after_position_values [of p rs]
  by (cases "gs_after_position p rs") auto

theorem gs_after_position_spec_witness:
  "case gs_after_position 5 [\<lparr>br_source = \<lparr>ss_tenant = 1, ss_source = ''s''\<rparr>, br_position = 3, br_id = ''e'', br_fingerprint = []\<rparr>] of
     Inl _ \<Rightarrow> False | Inr g \<Rightarrow> gs_after g = Some 5 \<and> map br_id (gs_receipts g) = [''e'']"
  using gs_after_position_spec [where p = 5 and rs = "[\<lparr>br_source = \<lparr>ss_tenant = 1, ss_source = ''s''\<rparr>, br_position = 3, br_id = ''e'', br_fingerprint = []\<rparr>]"]
  by (auto split: sum.splits)

text \<open>
  C11. For every source, execution and control, an invocation that loads its checkpoint is an
  ordered session: the acknowledged events ascend strictly from the checkpoint within the
  replay bound, each one executed with its predecessor's position as the expected position;
  the report counts exactly the log and ends at its last position, within the event budget;
  the invocation always returns, publishes the report it returns, and at most one execution
  follows the log, whose failure is then the reported stop with interruptions reported as
  unknown commits.
\<close>

theorem run_is_ordered_session:
  assumes "control_run c (ex_checkpoint ex) w = (Ok cp, w0)"
  shows "\<exists>r w' log p w1. run src ex c lim w = (r, ObsStopped r, w') \<and>
           ordered_session src ex c cp w0 log p w1 \<and>
           log_ordered cp (ps_source (ex_scope ex)) log \<and> p = log_position (cp_position cp) log \<and>
           report_of_log (cp_position cp) log r \<and> length log \<le> rl_events lim \<and>
           (w' = w1 \<or> (\<exists>e k. control_run c (ex_execute ex p e c) w1 = (Err k, w') \<and>
                        rr_stop r = StopFailed (uncertain k)))"
proof -
  obtain r obs w' where run: "run src ex c lim w = (r, obs, w')" by (metis prod_cases3)
  then have "obs = ObsStopped r"
    by (auto simp: run_def publisher_finish_def Let_def split: prod.splits)
  with run run_session [OF assms run] session_log_ordered session_position show ?thesis by metis
qed

theorem run_is_ordered_session_witness:
  "\<exists>log. length log \<le> 1 \<and> report_of_log None log (one_event_report 4)"
proof -
  define e where "e = \<lparr>ev_source = \<lparr>ss_tenant = 1, ss_source = ''s''\<rparr>, ev_position = 4, ev_id = ''e'', ev_payload = []\<rparr>"
  define ex :: "nat execution" where "ex =
    \<lparr>ex_scope = \<lparr>ps_source = ev_source e, ps_projection = ''p'', ps_generation = ''g''\<rparr>, ex_definition = [],
     ex_checkpoint = (\<lambda>w. (Ok \<lparr>cp_position = None, cp_bound = Live\<rparr>, w)),
     ex_execute = (\<lambda>_ _ _ w. (Ok AppApplied, w + 1))\<rparr>"
  define c :: "nat control" where "c = \<lparr>ctl_cancelled = (\<lambda>_. False), ctl_expired = (\<lambda>_. False), ctl_interrupt = (\<lambda>_ _. None)\<rparr>"
  define src :: "nat source_read" where "src = (\<lambda>_ _ _ w. (Ok [e], w))"
  have load: "control_run c (ex_checkpoint ex) 0 = (Ok \<lparr>cp_position = None, cp_bound = Live\<rparr>, 0)"
    by (simp add: control_run_def control_check_def c_def ex_def)
  have "run src ex c \<lparr>rl_batch = 10, rl_events = 1\<rparr> 0 =
      (one_event_report (ev_position e), ObsStopped (one_event_report (ev_position e)), 1)"
    by (rule run_one_event) (rule load | simp add: control_run_def control_check_def c_def ex_def src_def)+
  then show ?thesis
    using run_is_ordered_session [OF load, of src "\<lparr>rl_batch = 10, rl_events = 1\<rparr>"]
    by (auto simp: e_def)
qed

text \<open>
  An at-least-once execution that reports a plain cancellation or deadline never reached
  the target: only the load was interrupted. Once the target was called, an interruption is
  reported as an unknown commit.
\<close>

theorem at_least_once_interruption_definite:
  assumes "at_least_once_execute xc target expected e c w = (Err k, w')" and "k = PCancelled \<or> k = PDeadline"
  shows "control_run c (xc_load xc) w = (Err k, w')"
  using assms(1)
  by (cases rule: at_least_once_cases) (use assms(2) in \<open>auto simp: uncertain_def split: sum.splits if_splits\<close>)

theorem at_least_once_interruption_definite_witness:
  "\<exists>xc :: nat external_checkpoint. \<exists>target c. 
     at_least_once_execute xc target None
       \<lparr>ev_source = \<lparr>ss_tenant = 1, ss_source = ''s''\<rparr>, ev_position = 4, ev_id = ''e'', ev_payload = []\<rparr> c 0 = (Err PDeadline, 0) \<and>
     control_run c (xc_load xc) 0 = (Err PDeadline, 0)"
proof -
  define s :: source_scope where "s = \<lparr>ss_tenant = 1, ss_source = ''s''\<rparr>"
  define xc :: "nat external_checkpoint" where "xc =
    \<lparr>xc_scope = \<lparr>ps_source = s, ps_projection = ''p'', ps_generation = ''g''\<rparr>, xc_definition = [],
     xc_load = (\<lambda>w. (Ok \<lparr>cp_position = None, cp_bound = Live\<rparr>, w)), xc_advance = (\<lambda>_ _ _ w. (Ok (), w))\<rparr>"
  define c :: "nat control" where "c = \<lparr>ctl_cancelled = (\<lambda>_. False), ctl_expired = (\<lambda>_. True), ctl_interrupt = (\<lambda>_ _. None)\<rparr>"
  define t :: "nat external_target" where "t = (\<lambda>_ _ _ _ w. (Ok AppApplied, w))"
  have "at_least_once_execute xc t None \<lparr>ev_source = s, ev_position = 4, ev_id = ''e'', ev_payload = []\<rparr> c 0 = (Err PDeadline, 0)"
    by (simp add: at_least_once_execute_def xc_def c_def control_run_def control_check_def)
  from at_least_once_interruption_definite [OF this] this show ?thesis unfolding s_def by auto
qed

end
