(* ===== verification/Projection_Postgres.thy ===== *)
theory Projection_Postgres
  imports Projection
begin

section \<open>PostgreSQL projection store (\<^verbatim>\<open>crates/projection-postgres\<close>)\<close>

text \<open>
  The component tables and the functions of \<^verbatim>\<open>migrations/*.sql\<close> in their revision-3 form, the
  transaction wrapper of \<^verbatim>\<open>transaction.rs\<close>, the journal of \<^verbatim>\<open>journal.rs\<close> and the claims,
  sessions and checkpoints of \<^verbatim>\<open>execution.rs\<close>.

  A transaction is atomic: every function that writes first takes the row lock of the
  generation or of the source, which serialises the writers of one generation. What the
  server and the driver may do to a transaction (refuse it, abort a statement, lose the
  acknowledgement of a commit with or without its effect) is the \<open>fate\<close> argument, and what
  other sessions commit in between is a list of actions, so every statement below holds for
  any interleaving and any failure pattern.
\<close>

subsection \<open>Tables\<close>

type_synonym token = "128 word"
type_synonym sqlstate = string

record event_row =
  er_source :: source_scope
  er_position :: int
  er_id :: string
  er_payload :: bytes

record checkpoint_row =
  cr_start :: "int option"
  cr_position :: "int option"
  cr_replay :: bool
  cr_end :: "int option"
  cr_epoch :: int
  cr_token :: "token option"
  cr_definition :: definition_identity

record receipt_row =
  rc_scope :: projection_scope
  rc_event :: string
  rc_fingerprint :: bytes
  rc_baseline :: bool

text \<open>
  Application SQL runs beside the journal tables and has no rights on checkpoints and
  receipts; its own tables are the type parameter.
\<close>

record 'm pg_app =
  app_sources :: "source_scope \<rightharpoonup> int"
  app_events :: "event_row list"
  app_model :: 'm

record 'm pg_db =
  db_app :: "'m pg_app"
  db_checkpoints :: "projection_scope \<rightharpoonup> checkpoint_row"
  db_receipts :: "receipt_row list"

definition code_kind :: "sqlstate option \<Rightarrow> proj_error" where
  "code_kind code =
     (if code = Some ''P1001'' then PScopeMismatch
      else if code = Some ''P1002'' then PFenced
      else if code = Some ''P1003'' then PConflict
      else if code = Some ''P1004'' then POutOfOrder
      else if code \<in> Some ` {''23514'', ''22003''} then PInvalidInput
      else if code \<in> Some ` {''08000'', ''08001'', ''08003'', ''08006'', ''08007'', ''40001'', ''40P01'',
                      ''53200'', ''53300'', ''55P03'', ''57014'', ''57P01'', ''57P02'', ''57P03''}
      then PUnavailable else PStorageContract)"

text \<open>The driver errors the classification distinguishes.\<close>

datatype io_kind = IoInvalidInput | IoInvalidData | IoOther

datatype sqlx_error = SxDatabase "sqlstate option" | SxIo io_kind | SxPoolTimedOut | SxWorkerCrashed | SxOther

fun classify :: "sqlx_error \<Rightarrow> proj_error" where
  "classify (SxDatabase code) = code_kind code"
| "classify (SxIo IoInvalidInput) = PStorageContract"
| "classify (SxIo IoInvalidData) = PStorageContract"
| "classify (SxIo IoOther) = PUnavailable"
| "classify SxPoolTimedOut = PUnavailable"
| "classify SxWorkerCrashed = PUnavailable"
| "classify SxOther = PStorageContract"

definition application_sql :: "sqlx_error \<Rightarrow> proj_error" where
  "application_sql e = (if classify e = PUnavailable then PUnavailable else PRejected)"

definition encode_position :: "position option \<Rightarrow> int option" where
  "encode_position p = map_option int p"

definition decode_position :: "int \<Rightarrow> proj_error + position" where
  "decode_position v = (if v < 0 then Err PStorageContract else position_new (nat v))"

definition decode_optional :: "int option \<Rightarrow> proj_error + position option" where
  "decode_optional v =
     (case v of None \<Rightarrow> Ok None | Some x \<Rightarrow> and_then (decode_position x) (\<lambda>p. Ok (Some p)))"

subsection \<open>Component functions\<close>

definition assert_tenant :: "128 word \<Rightarrow> 128 word \<Rightarrow> sqlstate + unit" where
  "assert_tenant current t = (if t \<noteq> current then Err ''P1001'' else Ok ())"

definition check_name :: "string \<Rightarrow> bool" where
  "check_name v \<longleftrightarrow> is_ok (validate_name v)"

definition find_event :: "source_scope \<Rightarrow> string \<Rightarrow> event_row list \<Rightarrow> event_row option" where
  "find_event s i rows = find (\<lambda>r. er_source r = s \<and> er_id r = i) rows"

definition append_event ::
  "128 word \<Rightarrow> source_scope \<Rightarrow> string \<Rightarrow> bytes \<Rightarrow> 'm pg_app \<Rightarrow> sqlstate + (int \<times> 'm pg_app)" where
  "append_event tenant s i payload app =
     and_then (assert_tenant tenant (ss_tenant s)) (\<lambda>_.
       if \<not> check_name (ss_source s) then Err ''23514''
       else let n = (case app_sources app s of None \<Rightarrow> 0 | Some n \<Rightarrow> n);
                app1 = app\<lparr>app_sources := (app_sources app)(s \<mapsto> n)\<rparr>
         in case find_event s i (app_events app1) of
              Some old \<Rightarrow> if er_payload old \<noteq> payload then Err ''P1003'' else Ok (er_position old, app1)
            | None \<Rightarrow>
                if \<not> check_name i \<or> length payload > 1048576 then Err ''23514''
                else (case i64_checked_add n 1 of
                  None \<Rightarrow> Err ''22003''
                | Some n' \<Rightarrow>
                    Ok (n, app1\<lparr>app_events := app_events app1 @
                              [\<lparr>er_source = s, er_position = n, er_id = i, er_payload = payload\<rparr>],
                            app_sources := (app_sources app1)(s \<mapsto> n')\<rparr>)))"

definition find_receipt :: "projection_scope \<Rightarrow> string \<Rightarrow> receipt_row list \<Rightarrow> receipt_row option" where
  "find_receipt sc i rows = find (\<lambda>r. rc_scope r = sc \<and> rc_event r = i) rows"

text \<open>The constraints of the checkpoints table on a new row.\<close>

definition checkpoint_checks ::
  "projection_scope \<Rightarrow> int option \<Rightarrow> bool \<Rightarrow> int option \<Rightarrow> definition_identity \<Rightarrow> bool" where
  "checkpoint_checks sc start_at is_replay end_at d \<longleftrightarrow>
     check_name (ss_source (ps_source sc)) \<and> check_name (ps_projection sc) \<and>
     check_name (ps_generation sc) \<and>
     (case start_at of None \<Rightarrow> True | Some x \<Rightarrow> 0 \<le> x) \<and>
     (case end_at of None \<Rightarrow> True | Some x \<Rightarrow> 0 \<le> x) \<and>
     (\<not> is_replay \<or> start_at = None \<or>
       (case end_at of None \<Rightarrow> False | Some x \<Rightarrow> the start_at \<le> x)) \<and>
     (is_replay \<or> end_at = None) \<and> length d = 32"

fun insert_baseline ::
  "projection_scope \<Rightarrow> (string \<times> bytes) list \<Rightarrow> receipt_row list \<Rightarrow> sqlstate + receipt_row list" where
  "insert_baseline sc [] rows = Ok rows"
| "insert_baseline sc ((i, d) # rest) rows =
     (if \<not> check_name i \<or> length d \<noteq> 32 then Err ''23514''
      else if find_receipt sc i rows \<noteq> None then Err ''23505''
      else insert_baseline sc rest
             (rows @ [\<lparr>rc_scope = sc, rc_event = i, rc_fingerprint = d, rc_baseline = True\<rparr>]))"

definition baseline_of :: "projection_scope \<Rightarrow> receipt_row list \<Rightarrow> (string \<times> bytes) list" where
  "baseline_of sc rows =
     map (\<lambda>r. (rc_event r, rc_fingerprint r)) (filter (\<lambda>r. rc_scope r = sc \<and> rc_baseline r) rows)"

definition sql_initialize ::
  "128 word \<Rightarrow> projection_scope \<Rightarrow> int option \<Rightarrow> bool \<Rightarrow> int option \<Rightarrow> string list \<Rightarrow> bytes list
     \<Rightarrow> definition_identity \<Rightarrow> 'm pg_db \<Rightarrow> sqlstate + (unit \<times> 'm pg_db)" where
  "sql_initialize tenant sc start_at is_replay end_at ids digests d db =
     and_then (assert_tenant tenant (ss_tenant (ps_source sc))) (\<lambda>_.
       if length d \<noteq> 32 then Err ''P1003''
       else if length ids \<noteq> length digests \<or> (start_at = None \<and> ids \<noteq> [])
             \<or> (start_at \<noteq> None \<and> ids = []) then Err ''23514''
       else if \<not> checkpoint_checks sc start_at is_replay end_at d then Err ''23514''
       else (case db_checkpoints db sc of
          None \<Rightarrow>
            and_then (insert_baseline sc (zip ids digests) (db_receipts db)) (\<lambda>rows.
              Ok ((), db\<lparr>db_checkpoints := (db_checkpoints db)(sc \<mapsto>
                          \<lparr>cr_start = start_at, cr_position = start_at, cr_replay = is_replay,
                           cr_end = end_at, cr_epoch = 0, cr_token = None, cr_definition = d\<rparr>),
                        db_receipts := rows\<rparr>))
        | Some c \<Rightarrow>
            if cr_definition c \<noteq> d \<or> cr_start c \<noteq> start_at \<or> cr_replay c \<noteq> is_replay
               \<or> cr_end c \<noteq> end_at then Err ''P1003''
            else if set (zip ids digests) \<noteq> set (baseline_of sc (db_receipts db)) then Err ''P1003''
            else Ok ((), db)))"

definition sql_takeover ::
  "128 word \<Rightarrow> projection_scope \<Rightarrow> token \<Rightarrow> definition_identity \<Rightarrow> 'm pg_db
     \<Rightarrow> sqlstate + (int \<times> 'm pg_db)" where
  "sql_takeover tenant sc tok d db =
     and_then (assert_tenant tenant (ss_tenant (ps_source sc))) (\<lambda>_.
       case db_checkpoints db sc of
         None \<Rightarrow> Err ''P1002''
       | Some c \<Rightarrow>
           if cr_definition c \<noteq> d then Err ''P1003''
           else (case i64_checked_add (cr_epoch c) 1 of
                   None \<Rightarrow> Err ''22003''
                 | Some n \<Rightarrow> Ok (n, db\<lparr>db_checkpoints := (db_checkpoints db)(sc \<mapsto>
                                     c\<lparr>cr_epoch := n, cr_token := Some tok\<rparr>)\<rparr>)))"

definition lock_event ::
  "128 word \<Rightarrow> projection_scope \<Rightarrow> int \<Rightarrow> token \<Rightarrow> int option \<Rightarrow> int \<Rightarrow> string \<Rightarrow> bytes
     \<Rightarrow> definition_identity \<Rightarrow> 'm pg_db \<Rightarrow> sqlstate + bool" where
  "lock_event tenant sc worker_epoch tok expected at_position i digest d db =
     and_then (assert_tenant tenant (ss_tenant (ps_source sc))) (\<lambda>_.
       case db_checkpoints db sc of
         None \<Rightarrow> Err ''P1002''
       | Some c \<Rightarrow>
           if cr_epoch c \<noteq> worker_epoch \<or> cr_token c \<noteq> Some tok \<or> cr_position c \<noteq> expected
           then Err ''P1002''
           else if cr_definition c \<noteq> d then Err ''P1003''
           else if at_position < 0 \<or> (case cr_position c of None \<Rightarrow> False | Some p \<Rightarrow> at_position \<le> p)
               \<or> (cr_replay c \<and> (case cr_end c of None \<Rightarrow> True | Some e \<Rightarrow> at_position > e))
           then Err ''P1004''
           else if length digest \<noteq> 32 then Err ''P1003''
           else (case find_receipt sc i (db_receipts db) of
                   None \<Rightarrow> Ok False
                 | Some previous \<Rightarrow>
                     if rc_fingerprint previous \<noteq> digest then Err ''P1003'' else Ok True))"

definition finish_event ::
  "128 word \<Rightarrow> projection_scope \<Rightarrow> int \<Rightarrow> token \<Rightarrow> int option \<Rightarrow> int \<Rightarrow> string \<Rightarrow> bytes
     \<Rightarrow> definition_identity \<Rightarrow> 'm pg_db \<Rightarrow> sqlstate + (unit \<times> 'm pg_db)" where
  "finish_event tenant sc worker_epoch tok expected at_position i digest d db =
     and_then (lock_event tenant sc worker_epoch tok expected at_position i digest d db) (\<lambda>_.
       let present = find_receipt sc i (db_receipts db) \<noteq> None in
       if \<not> check_name i then Err ''23514''
       else Ok ((), db\<lparr>
         db_receipts := (if present then db_receipts db
           else db_receipts db @
             [\<lparr>rc_scope = sc, rc_event = i, rc_fingerprint = digest, rc_baseline = False\<rparr>]),
         db_checkpoints := (db_checkpoints db)
           (sc := map_option (\<lambda>c. c\<lparr>cr_position := Some at_position\<rparr>) (db_checkpoints db sc))\<rparr>))"

subsection \<open>Transactions\<close>

datatype transaction_mode = ReadOnly | ReadWrite

fun settlement_error :: "transaction_mode \<Rightarrow> proj_error \<Rightarrow> proj_error" where
  "settlement_error ReadOnly mutating = PUnavailable"
| "settlement_error ReadWrite mutating = mutating"

datatype commit_fate = CommitAcked | CommitLostAck | CommitLost

record fate =
  f_start :: "proj_error option"
  f_statement :: "proj_error option"
  f_commit :: commit_fate
  f_rollback :: bool

definition no_fault :: fate where
  "no_fault = \<lparr>f_start = None, f_statement = None, f_commit = CommitAcked, f_rollback = True\<rparr>"

type_synonym ('r, 'm) tx_op = "'m pg_db \<Rightarrow> proj_error + ('r \<times> 'm pg_db)"

text \<open>
  \<open>transact_with_mode\<close>: acquire, begin and setup may fail before the operation; the operation
  may fail by itself or by a lost statement and is then rolled back; a commit may lose its
  acknowledgement after or before taking effect.
\<close>

definition transact_with_mode ::
  "transaction_mode \<Rightarrow> fate \<Rightarrow> ('r, 'm) tx_op \<Rightarrow> 'm pg_db \<Rightarrow> (proj_error + 'r) \<times> 'm pg_db" where
  "transact_with_mode mode f operation db =
     (case f_start f of
        Some k \<Rightarrow> (Err k, db)
      | None \<Rightarrow>
          (case (case f_statement f of Some k \<Rightarrow> Err k | None \<Rightarrow> operation db) of
             Inr (v, db') \<Rightarrow>
               (case f_commit f of
                  CommitAcked \<Rightarrow> (Ok v, db')
                | CommitLostAck \<Rightarrow> (Err (settlement_error mode PCommitUnknown), db')
                | CommitLost \<Rightarrow> (Err (settlement_error mode PCommitUnknown), db))
           | Inl k \<Rightarrow>
               (Err (if f_rollback f then k else settlement_error mode PRollbackFailed), db)))"

definition sql :: "sqlstate + 'a \<Rightarrow> proj_error + 'a" where
  "sql r = map_err (\<lambda>code. classify (SxDatabase (Some code))) r"

subsection \<open>Claims and the operations of a session\<close>

record pg_claim =
  cl_scope :: projection_scope
  cl_definition :: definition_identity
  cl_epoch :: int
  cl_token :: token
  cl_store :: nat

definition claim_tenant :: "pg_claim \<Rightarrow> 128 word" where
  "claim_tenant cl = ss_tenant (ps_source (cl_scope cl))"

definition check_claim :: "nat \<Rightarrow> pg_claim \<Rightarrow> proj_error + unit" where
  "check_claim identity cl = (if cl_store cl = identity then Ok () else Err PScopeMismatch)"

datatype effect_outcome = EffApplied | EffFiltered

type_synonym 'm pg_effect =
  "projection_scope \<Rightarrow> proj_event \<Rightarrow> 'm pg_app \<Rightarrow> proj_error + (effect_outcome \<times> 'm pg_app)"

definition initialize_op ::
  "projection_scope \<Rightarrow> definition_identity \<Rightarrow> generation_start \<Rightarrow> replay_bound \<Rightarrow> (unit, 'm) tx_op" where
  "initialize_op sc d start bound db =
     (case (case bound of Live \<Rightarrow> (False, None) | Through e \<Rightarrow> (True, e)) of (replay, end_at) \<Rightarrow>
        sql (sql_initialize (ss_tenant (ps_source sc)) sc (encode_position (gs_after start)) replay
               (encode_position end_at) (map br_id (gs_receipts start))
               (map br_fingerprint (gs_receipts start)) d db))"

definition takeover_op ::
  "nat \<Rightarrow> projection_scope \<Rightarrow> definition_identity \<Rightarrow> token \<Rightarrow> (pg_claim, 'm) tx_op" where
  "takeover_op store sc d tok db =
     and_then (sql (sql_takeover (ss_tenant (ps_source sc)) sc tok d db)) (\<lambda>(epoch, db').
       Ok (\<lparr>cl_scope = sc, cl_definition = d, cl_epoch = epoch, cl_token = tok, cl_store = store\<rparr>, db'))"

definition lock_tx ::
  "(bytes \<Rightarrow> bytes) \<Rightarrow> pg_claim \<Rightarrow> position option \<Rightarrow> proj_event \<Rightarrow> 'm pg_db \<Rightarrow> proj_error + bool" where
  "lock_tx sha256 cl expected e db =
     sql (lock_event (claim_tenant cl) (cl_scope cl) (cl_epoch cl) (cl_token cl)
            (encode_position expected) (int (ev_position e)) (ev_id e) (event_fingerprint sha256 e)
            (cl_definition cl) db)"

definition finish_tx ::
  "(bytes \<Rightarrow> bytes) \<Rightarrow> pg_claim \<Rightarrow> position option \<Rightarrow> proj_event \<Rightarrow> (unit, 'm) tx_op" where
  "finish_tx sha256 cl expected e db =
     sql (finish_event (claim_tenant cl) (cl_scope cl) (cl_epoch cl) (cl_token cl)
            (encode_position expected) (int (ev_position e)) (ev_id e) (event_fingerprint sha256 e)
            (cl_definition cl) db)"

text \<open>The transaction body of \<open>PgProjection::execute\<close>: lock, effect unless duplicate, finish.\<close>

definition execute_op ::
  "(bytes \<Rightarrow> bytes) \<Rightarrow> 'm pg_effect \<Rightarrow> pg_claim \<Rightarrow> position option \<Rightarrow> proj_event
     \<Rightarrow> (apply_outcome, 'm) tx_op" where
  "execute_op sha256 eff cl expected e db =
     and_then (lock_tx sha256 cl expected e db) (\<lambda>duplicate.
     and_then (if duplicate then Ok (AppDuplicate, db)
               else and_then (eff (cl_scope cl) e (db_app db)) (\<lambda>(out, app).
                 Ok (case out of EffApplied \<Rightarrow> AppApplied | EffFiltered \<Rightarrow> AppFiltered,
                     db\<lparr>db_app := app\<rparr>))) (\<lambda>(outcome, db1).
     and_then (finish_tx sha256 cl expected e db1) (\<lambda>(_, db2). Ok (outcome, db2))))"

definition append_op :: "source_scope \<Rightarrow> string \<Rightarrow> bytes \<Rightarrow> (position, 'm) tx_op" where
  "append_op s i payload db =
     and_then (and_then (position_new 0) (\<lambda>p. proj_event_new s p i payload)) (\<lambda>checked.
     and_then (sql (append_event (ss_tenant s) s (ev_id checked) (ev_payload checked) (db_app db)))
       (\<lambda>(n, app). and_then (decode_position n) (\<lambda>p. Ok (p, db\<lparr>db_app := app\<rparr>))))"

text \<open>\<open>PgTransaction::append\<close> inside a transaction bound to a tenant.\<close>

definition tx_append :: "128 word \<Rightarrow> source_scope \<Rightarrow> string \<Rightarrow> bytes \<Rightarrow> (position, 'm) tx_op" where
  "tx_append tenant s i payload db =
     (if tenant \<noteq> ss_tenant s then Err PScopeMismatch else append_op s i payload db)"

definition checkpoint_op :: "pg_claim \<Rightarrow> 'm pg_db \<Rightarrow> proj_error + checkpoint" where
  "checkpoint_op cl db =
     (case db_checkpoints db (cl_scope cl) of
        None \<Rightarrow> Err PFenced
      | Some c \<Rightarrow>
          if cr_epoch c \<noteq> cl_epoch cl \<or> cr_token c \<noteq> Some (cl_token cl) then Err PFenced
          else if cr_definition c \<noteq> cl_definition cl then Err PConflict
          else and_then (decode_optional (cr_position c)) (\<lambda>position.
               and_then (decode_optional (cr_end c)) (\<lambda>end_at.
                 Ok \<lparr>cp_position = position, cp_bound = (if cr_replay c then Through end_at else Live)\<rparr>)))"

definition receipt_status_op :: "receipt_query \<Rightarrow> 'm pg_db \<Rightarrow> proj_error + receipt_status" where
  "receipt_status_op q db =
     (case db_checkpoints db (rq_scope q) of
        None \<Rightarrow> Ok Uninitialized
      | Some c \<Rightarrow>
          if cr_definition c \<noteq> rq_definition q then Err PConflict
          else and_then (decode_optional (cr_position c)) (\<lambda>position.
               and_then (if cr_replay c then and_then (decode_optional (cr_end c)) (\<lambda>e. Ok (Through e))
                         else Ok Live) (\<lambda>bound.
                 let cp = \<lparr>cp_position = position, cp_bound = bound\<rparr>
                 in Ok (if find_receipt (rq_scope q) (rq_event_id q) (db_receipts db) \<noteq> None
                        then Settled cp else Pending cp))))"

text \<open>\<open>Source::read\<close> and \<open>high_water\<close> over the committed events.\<close>

fun insert_by_position :: "event_row \<Rightarrow> event_row list \<Rightarrow> event_row list" where
  "insert_by_position x [] = [x]"
| "insert_by_position x (y # ys) =
     (if er_position x \<le> er_position y then x # y # ys else y # insert_by_position x ys)"

definition order_by_position :: "event_row list \<Rightarrow> event_row list" where
  "order_by_position rows = foldr insert_by_position rows []"

fun decode_rows :: "source_scope \<Rightarrow> event_row list \<Rightarrow> proj_error + proj_event list" where
  "decode_rows s [] = Ok []"
| "decode_rows s (r # rs) =
     and_then (decode_position (er_position r)) (\<lambda>p.
     and_then (proj_event_new s p (er_id r) (er_payload r)) (\<lambda>e.
     and_then (decode_rows s rs) (\<lambda>es. Ok (e # es))))"

definition read_op ::
  "source_scope \<Rightarrow> position option \<Rightarrow> nat \<Rightarrow> 'm pg_db \<Rightarrow> proj_error + proj_event list" where
  "read_op s after limit db =
     decode_rows s (take limit (order_by_position
       (filter (\<lambda>r. er_source r = s \<and>
                 (case encode_position after of None \<Rightarrow> True | Some p \<Rightarrow> er_position r > p))
          (app_events (db_app db)))))"

definition high_water_op :: "source_scope \<Rightarrow> 'm pg_db \<Rightarrow> proj_error + position option" where
  "high_water_op s db =
     (case map er_position (filter (\<lambda>r. er_source r = s) (app_events (db_app db))) of
        [] \<Rightarrow> Ok None
      | p # ps \<Rightarrow> decode_optional (Some (fold max ps p)))"

subsection \<open>Transactions of all sessions\<close>

text \<open>
  Application SQL, which sees the application tables and the journal and fails with any error;
  the component tables are reached through the component functions only. A callback of
  \<open>local_tx\<close> is such a function, journal appends included.
\<close>

type_synonym 'm app_sql = "'m pg_app \<Rightarrow> proj_error + 'm pg_app"

definition app_op :: "'m app_sql \<Rightarrow> (unit, 'm) tx_op" where
  "app_op f db = and_then (f (db_app db)) (\<lambda>app. Ok ((), db\<lparr>db_app := app\<rparr>))"

text \<open>
  \<open>append_in_transaction\<close> stages an append in a transaction the caller owns, between the caller's
  own statements.
\<close>

definition owned_op ::
  "'m app_sql \<Rightarrow> source_scope \<Rightarrow> string \<Rightarrow> bytes \<Rightarrow> 'm app_sql \<Rightarrow> (unit, 'm) tx_op" where
  "owned_op before s i payload after db =
     and_then (app_op before db) (\<lambda>(_, db1).
     and_then (append_op s i payload db1) (\<lambda>(_, db2). app_op after db2))"

text \<open>
  The writing transactions any session may issue: those of the component, the application
  transactions of \<open>local_tx\<close> and those the application owns and appends in. A \<open>history\<close> is a
  sequence of them with their fates; it covers concurrent workers, takeovers, retries and crashes,
  since a crashed session is one that issues no further transaction.
\<close>

datatype 'm action =
  AInitialize projection_scope definition_identity generation_start replay_bound
  | ATakeover projection_scope definition_identity token
  | AExecute pg_claim "position option" proj_event
  | AAdvance pg_claim "position option" proj_event
  | AAppend source_scope string bytes
  | ALocal "'m app_sql"
  | AOwned "'m app_sql" source_scope string bytes "'m app_sql"

type_synonym 'm history = "('m action \<times> fate) list"

definition unit_op :: "('r, 'm) tx_op \<Rightarrow> (unit, 'm) tx_op" where
  "unit_op f db = and_then (f db) (\<lambda>(_, db'). Ok ((), db'))"

fun action_op :: "(bytes \<Rightarrow> bytes) \<Rightarrow> 'm pg_effect \<Rightarrow> 'm action \<Rightarrow> (unit, 'm) tx_op" where
  "action_op sha256 eff (AInitialize sc d start bound) =
     (\<lambda>db. if \<exists>r \<in> set (gs_receipts start). br_source r \<noteq> ps_source sc then Err PScopeMismatch
           else initialize_op sc d start bound db)"
| "action_op sha256 eff (ATakeover sc d tok) = unit_op (takeover_op 0 sc d tok)"
| "action_op sha256 eff (AExecute cl expected e) =
     (\<lambda>db. if ev_source e \<noteq> ps_source (cl_scope cl) then Err PScopeMismatch
           else unit_op (execute_op sha256 eff cl expected e) db)"
| "action_op sha256 eff (AAdvance cl expected e) =
     (\<lambda>db. if ev_source e \<noteq> ps_source (cl_scope cl) then Err PScopeMismatch
           else finish_tx sha256 cl expected e db)"
| "action_op sha256 eff (AAppend s i payload) = unit_op (append_op s i payload)"
| "action_op sha256 eff (ALocal f) = app_op f"
| "action_op sha256 eff (AOwned before s i payload after) = owned_op before s i payload after"

definition do_action :: "(bytes \<Rightarrow> bytes) \<Rightarrow> 'm pg_effect \<Rightarrow> 'm action \<times> fate \<Rightarrow> 'm pg_db \<Rightarrow> 'm pg_db" where
  "do_action sha256 eff af db = snd (transact_with_mode ReadWrite (snd af) (action_op sha256 eff (fst af)) db)"

definition run_history :: "(bytes \<Rightarrow> bytes) \<Rightarrow> 'm pg_effect \<Rightarrow> 'm history \<Rightarrow> 'm pg_db \<Rightarrow> 'm pg_db" where
  "run_history sha256 eff h db = fold (do_action sha256 eff) h db"

lemma run_history_simps [simp]:
  "run_history sha256 eff [] db = db"
  "run_history sha256 eff (a # h) db = run_history sha256 eff h (do_action sha256 eff a db)"
  "run_history sha256 eff (h @ h') db = run_history sha256 eff h' (run_history sha256 eff h db)"
  by (simp_all add: run_history_def)

subsection \<open>The session of one worker\<close>

text \<open>
  The world of a worker: the database, and for each of its coming transactions the history the
  other sessions commit before it and its own fate; the external target owns \<open>pw_external\<close>.
\<close>

record ('m, 'x) pg_world =
  pw_db :: "'m pg_db"
  pw_schedule :: "('m history \<times> fate) list"
  pw_external :: 'x

definition transact ::
  "(bytes \<Rightarrow> bytes) \<Rightarrow> 'm pg_effect \<Rightarrow> transaction_mode \<Rightarrow> ('r, 'm) tx_op
     \<Rightarrow> ('r, ('m, 'x) pg_world) op" where
  "transact sha256 eff mode operation w =
     (case (case pw_schedule w of [] \<Rightarrow> ([], no_fault) | hf # _ \<Rightarrow> hf) of (h, f) \<Rightarrow>
        (case transact_with_mode mode f operation (run_history sha256 eff h (pw_db w)) of (r, db') \<Rightarrow>
           (r, w\<lparr>pw_db := db', pw_schedule := tl (pw_schedule w)\<rparr>)))"

definition controlled_tx ::
  "(bytes \<Rightarrow> bytes) \<Rightarrow> 'm pg_effect \<Rightarrow> ('m, 'x) pg_world control \<Rightarrow> ('r, 'm) tx_op
     \<Rightarrow> ('r, ('m, 'x) pg_world) op" where
  "controlled_tx sha256 eff c operation w =
     (case control_check c w of
        Inl k \<Rightarrow> (Err k, w)
      | Inr _ \<Rightarrow> (case control_run c (transact sha256 eff ReadWrite operation) w of
                    (r, w') \<Rightarrow> (map_err uncertain r, w')))"

text \<open>
  \<open>local_tx\<close> runs application SQL and journal appends; its callback fails with application
  errors only.
\<close>

definition local_tx ::
  "(bytes \<Rightarrow> bytes) \<Rightarrow> 'm pg_effect \<Rightarrow> ('m, 'x) pg_world control \<Rightarrow> ('m pg_app \<Rightarrow> proj_error + ('r \<times> 'm pg_app))
     \<Rightarrow> ('r, ('m, 'x) pg_world) op" where
  "local_tx sha256 eff c operation =
     controlled_tx sha256 eff c
       (\<lambda>db. and_then (operation (db_app db)) (\<lambda>(r, app). Ok (r, db\<lparr>db_app := app\<rparr>)))"

text \<open>The transaction of \<open>local_tx\<close> is the application action with the same statements.\<close>

lemma local_tx_action:
  "unit_op (\<lambda>db. and_then (operation (db_app db)) (\<lambda>(r, app). Ok (r, db\<lparr>db_app := app\<rparr>))) =
     action_op sha256 eff (ALocal (\<lambda>app. and_then (operation app) (\<lambda>(r, app'). Ok app')))"
  by (rule ext) (simp add: unit_op_def app_op_def and_then_def split: sum.split prod.split)

datatype close_outcome = Drained | CloseCancelled | CloseDeadline

definition pg_close :: "'w control \<Rightarrow> ('w \<Rightarrow> 'w) \<Rightarrow> 'w \<Rightarrow> close_outcome \<times> 'w" where
  "pg_close c drain w =
     (case control_run c (\<lambda>w. (Ok (), drain w)) w of
        (Inr _, w') \<Rightarrow> (Drained, w')
      | (Inl k, w') \<Rightarrow> (if k = PCancelled then CloseCancelled else CloseDeadline, w'))"

definition controlled_read ::
  "(bytes \<Rightarrow> bytes) \<Rightarrow> 'm pg_effect \<Rightarrow> ('m, 'x) pg_world control \<Rightarrow> ('r, 'm) tx_op
     \<Rightarrow> ('r, ('m, 'x) pg_world) op" where
  "controlled_read sha256 eff c operation w =
     (case control_check c w of
        Inl k \<Rightarrow> (Err k, w)
      | Inr _ \<Rightarrow> control_run c (transact sha256 eff ReadOnly operation) w)"

definition reading :: "('m pg_db \<Rightarrow> proj_error + 'r) \<Rightarrow> ('r, 'm) tx_op" where
  "reading f db = and_then (f db) (\<lambda>r. Ok (r, db))"

definition pg_execute ::
  "(bytes \<Rightarrow> bytes) \<Rightarrow> 'm pg_effect \<Rightarrow> pg_claim \<Rightarrow> position option \<Rightarrow> proj_event
     \<Rightarrow> ('m, 'x) pg_world control \<Rightarrow> (apply_outcome, ('m, 'x) pg_world) op" where
  "pg_execute sha256 eff cl expected e c w =
     (if ev_source e \<noteq> ps_source (cl_scope cl) then (Err PScopeMismatch, w)
      else controlled_tx sha256 eff c (execute_op sha256 eff cl expected e) w)"

definition pg_projection ::
  "(bytes \<Rightarrow> bytes) \<Rightarrow> 'm pg_effect \<Rightarrow> pg_claim \<Rightarrow> ('m, 'x) pg_world execution" where
  "pg_projection sha256 eff cl =
     \<lparr>ex_scope = cl_scope cl, ex_definition = cl_definition cl,
      ex_checkpoint = transact sha256 eff ReadWrite (reading (checkpoint_op cl)),
      ex_execute = pg_execute sha256 eff cl\<rparr>"

definition pg_advance ::
  "(bytes \<Rightarrow> bytes) \<Rightarrow> 'm pg_effect \<Rightarrow> pg_claim \<Rightarrow> position option \<Rightarrow> proj_event
     \<Rightarrow> ('m, 'x) pg_world control \<Rightarrow> (unit, ('m, 'x) pg_world) op" where
  "pg_advance sha256 eff cl expected e c w =
     (if ev_source e \<noteq> ps_source (cl_scope cl) then (Err PScopeMismatch, w)
      else controlled_tx sha256 eff c (finish_tx sha256 cl expected e) w)"

definition pg_checkpoint ::
  "(bytes \<Rightarrow> bytes) \<Rightarrow> 'm pg_effect \<Rightarrow> pg_claim \<Rightarrow> ('m, 'x) pg_world external_checkpoint" where
  "pg_checkpoint sha256 eff cl =
     \<lparr>xc_scope = cl_scope cl, xc_definition = cl_definition cl,
      xc_load = transact sha256 eff ReadWrite (reading (checkpoint_op cl)),
      xc_advance = pg_advance sha256 eff cl\<rparr>"

definition pg_read :: "(bytes \<Rightarrow> bytes) \<Rightarrow> 'm pg_effect \<Rightarrow> ('m, 'x) pg_world source_read" where
  "pg_read sha256 eff s after limit = transact sha256 eff ReadWrite (reading (read_op s after limit))"

definition pg_receipt_status ::
  "(bytes \<Rightarrow> bytes) \<Rightarrow> 'm pg_effect \<Rightarrow> receipt_query \<Rightarrow> ('m, 'x) pg_world control
     \<Rightarrow> (receipt_status, ('m, 'x) pg_world) op" where
  "pg_receipt_status sha256 eff q c = controlled_read sha256 eff c (reading (receipt_status_op q))"

definition pg_initialize ::
  "(bytes \<Rightarrow> bytes) \<Rightarrow> 'm pg_effect \<Rightarrow> projection_scope \<Rightarrow> definition_identity \<Rightarrow> generation_start
     \<Rightarrow> replay_bound \<Rightarrow> ('m, 'x) pg_world control \<Rightarrow> (unit, ('m, 'x) pg_world) op" where
  "pg_initialize sha256 eff sc d start bound c w =
     (if \<exists>r \<in> set (gs_receipts start). br_source r \<noteq> ps_source sc then (Err PScopeMismatch, w)
      else controlled_tx sha256 eff c (initialize_op sc d start bound) w)"

definition pg_takeover ::
  "(bytes \<Rightarrow> bytes) \<Rightarrow> 'm pg_effect \<Rightarrow> nat \<Rightarrow> projection_scope \<Rightarrow> definition_identity \<Rightarrow> token
     \<Rightarrow> ('m, 'x) pg_world control \<Rightarrow> (pg_claim, ('m, 'x) pg_world) op" where
  "pg_takeover sha256 eff identity sc d tok c = controlled_tx sha256 eff c (takeover_op identity sc d tok)"

text \<open>An external target acts on its own state only.\<close>

definition external_effect ::
  "(projection_scope \<Rightarrow> definition_identity \<Rightarrow> proj_event \<Rightarrow> 'x \<Rightarrow> (proj_error + apply_outcome) \<times> 'x)
     \<Rightarrow> ('m, 'x) pg_world external_target" where
  "external_effect t sc d e c w =
     (case t sc d e (pw_external w) of (r, x) \<Rightarrow> (r, w\<lparr>pw_external := x\<rparr>))"

subsection \<open>What a committed transaction does\<close>

lemma transact_Ok_iff:
  "fst (transact_with_mode mode f operation db) = Ok v \<longleftrightarrow>
     f_start f = None \<and> f_statement f = None \<and> f_commit f = CommitAcked \<and>
     (\<exists>db'. operation db = Ok (v, db') \<and> snd (transact_with_mode mode f operation db) = db')"
  by (auto simp: transact_with_mode_def split: option.splits sum.splits commit_fate.splits)

definition took_effect :: "fate \<Rightarrow> proj_error + 'r \<Rightarrow> bool" where
  "took_effect f r \<longleftrightarrow> f_start f = None \<and> f_statement f = None \<and> f_commit f \<noteq> CommitLost \<and> is_ok r"

lemma transact_db:
  "snd (transact_with_mode mode f operation db) =
     (if took_effect f (operation db) then snd (projr (operation db)) else db)"
  by (auto simp: transact_with_mode_def took_effect_def is_ok_def
      split: option.splits sum.splits commit_fate.splits prod.splits)

lemma do_action_cases:
  obtains "do_action sha256 eff af db = db" "\<not> took_effect (snd af) (action_op sha256 eff (fst af) db)"
  | "action_op sha256 eff (fst af) db = Ok ((), do_action sha256 eff af db)"
    "took_effect (snd af) (action_op sha256 eff (fst af) db)"
proof (cases "took_effect (snd af) (action_op sha256 eff (fst af) db)")
  case True
  then show ?thesis using that(2)
    by (cases "action_op sha256 eff (fst af) db") (auto simp: do_action_def transact_db took_effect_def)
next
  case False
  then show ?thesis using that(1) by (simp add: do_action_def transact_db)
qed

lemma run_history_invariant:
  assumes "P db" and "\<And>a db db'. P db \<Longrightarrow> action_op sha256 eff a db = Ok ((), db') \<Longrightarrow> P db'"
  shows "P (run_history sha256 eff h db)"
  using assms(1)
proof (induction h arbitrary: db)
  case (Cons a h)
  have "P (do_action sha256 eff a db)"
    using Cons.prems by (cases rule: do_action_cases [of sha256 eff a db]) (auto dest: assms(2))
  then show ?case by (simp add: Cons.IH)
qed simp

lemma sql_Ok_iff [simp]: "sql r = Ok v \<longleftrightarrow> r = Ok v"
  by (simp add: sql_def)

text \<open>The fence every event passes: current epoch and token, expected position, order, bound.\<close>

definition fenced_row :: "int \<Rightarrow> token \<Rightarrow> int option \<Rightarrow> int \<Rightarrow> definition_identity \<Rightarrow> checkpoint_row \<Rightarrow> bool" where
  "fenced_row n tok expected at_position d c \<longleftrightarrow>
     cr_epoch c = n \<and> cr_token c = Some tok \<and> cr_position c = expected \<and> cr_definition c = d \<and>
     0 \<le> at_position \<and> (case cr_position c of None \<Rightarrow> True | Some p \<Rightarrow> p < at_position) \<and>
     (\<not> cr_replay c \<or> (case cr_end c of None \<Rightarrow> False | Some b \<Rightarrow> at_position \<le> b))"

lemma lock_event_Ok_iff:
  "lock_event tenant sc n tok expected at_position i digest d db = Ok dup \<longleftrightarrow>
     tenant = ss_tenant (ps_source sc) \<and> length digest = 32 \<and>
     (\<exists>c. db_checkpoints db sc = Some c \<and> fenced_row n tok expected at_position d c) \<and>
     (case find_receipt sc i (db_receipts db) of
        None \<Rightarrow> \<not> dup | Some r \<Rightarrow> dup \<and> rc_fingerprint r = digest)"
  by (auto simp: lock_event_def assert_tenant_def fenced_row_def split: option.splits if_splits)

lemma finish_event_Ok_iff:
  "finish_event tenant sc n tok expected at_position i digest d db = Ok (u, db') \<longleftrightarrow>
     (\<exists>dup. lock_event tenant sc n tok expected at_position i digest d db = Ok dup) \<and> check_name i \<and>
     db' = db\<lparr>db_receipts := db_receipts db @ (if find_receipt sc i (db_receipts db) = None
                then [\<lparr>rc_scope = sc, rc_event = i, rc_fingerprint = digest, rc_baseline = False\<rparr>] else []),
              db_checkpoints := (db_checkpoints db)
                (sc \<mapsto> (the (db_checkpoints db sc))\<lparr>cr_position := Some at_position\<rparr>)\<rparr>"
  by (auto simp: finish_event_def and_then_Inr_iff lock_event_Ok_iff Let_def split: if_splits)

text \<open>One settled event, as seen in the component tables.\<close>

definition settles ::
  "(bytes \<Rightarrow> bytes) \<Rightarrow> pg_claim \<Rightarrow> position option \<Rightarrow> proj_event \<Rightarrow> bool \<Rightarrow> 'm pg_db \<Rightarrow> 'm pg_db \<Rightarrow> bool" where
  "settles sha256 cl expected e dup db db' \<longleftrightarrow>
     (\<exists>c. db_checkpoints db (cl_scope cl) = Some c \<and>
        fenced_row (cl_epoch cl) (cl_token cl) (encode_position expected) (int (ev_position e)) (cl_definition cl) c \<and>
        db_checkpoints db' = (db_checkpoints db)(cl_scope cl \<mapsto> c\<lparr>cr_position := Some (int (ev_position e))\<rparr>)) \<and>
     (case find_receipt (cl_scope cl) (ev_id e) (db_receipts db) of
        Some r \<Rightarrow> dup \<and> rc_fingerprint r = event_fingerprint sha256 e \<and> db_receipts db' = db_receipts db
      | None \<Rightarrow> \<not> dup \<and> db_receipts db' = db_receipts db @
          [\<lparr>rc_scope = cl_scope cl, rc_event = ev_id e, rc_fingerprint = event_fingerprint sha256 e,
            rc_baseline = False\<rparr>])"

lemma finish_tx_settles:
  "finish_tx sha256 cl expected e db = Ok (u, db') \<Longrightarrow>
     (\<exists>dup. settles sha256 cl expected e dup db db') \<and> db_app db' = db_app db"
  by (auto simp: finish_tx_def finish_event_Ok_iff lock_event_Ok_iff settles_def split: option.splits)

lemma execute_op_settles:
  assumes "execute_op sha256 eff cl expected e db = Ok (out, db')"
  obtains "settles sha256 cl expected e True db db'" "db_app db' = db_app db" "out = AppDuplicate"
      "lock_tx sha256 cl expected e db = Ok True"
  | eff_out where "settles sha256 cl expected e False db db'"
      "eff (cl_scope cl) e (db_app db) = Ok (eff_out, db_app db')"
      "out = (case eff_out of EffApplied \<Rightarrow> AppApplied | EffFiltered \<Rightarrow> AppFiltered)"
      "lock_tx sha256 cl expected e db = Ok False"
proof -
  obtain dup where lock: "lock_tx sha256 cl expected e db = Ok dup"
    using assms by (auto simp: execute_op_def and_then_Inr_iff)
  show ?thesis
  proof (cases dup)
    case True
    with assms lock that(1) show ?thesis
      by (auto simp: execute_op_def lock_tx_def finish_tx_def finish_event_Ok_iff lock_event_Ok_iff
          settles_def and_then_Inr_iff split: option.splits)
  next
    case False
    with assms lock obtain eff_out app where eff: "eff (cl_scope cl) e (db_app db) = Ok (eff_out, app)"
      "finish_tx sha256 cl expected e (db\<lparr>db_app := app\<rparr>) = Ok ((), db')"
      "out = (case eff_out of EffApplied \<Rightarrow> AppApplied | EffFiltered \<Rightarrow> AppFiltered)"
      by (auto simp: execute_op_def and_then_Inr_iff)
    have app: "db_app db' = app" using finish_tx_settles [OF eff(2)] by simp
    have "settles sha256 cl expected e False db db'"
      using eff(2) lock False
      by (auto simp: lock_tx_def finish_tx_def finish_event_Ok_iff lock_event_Ok_iff settles_def split: option.splits)
    with that(2) eff lock False app show ?thesis by simp
  qed
qed

lemma find_receipt_append:
  "find_receipt sc i (rows @ new) =
     (case find_receipt sc i rows of None \<Rightarrow> find_receipt sc i new | Some r \<Rightarrow> Some r)"
  unfolding find_receipt_def by (induction rows) auto

lemma find_receipt_single [simp]:
  "find_receipt sc i [] = None"
  "find_receipt sc i [r] = (if rc_scope r = sc \<and> rc_event r = i then Some r else None)"
  by (simp_all add: find_receipt_def)

lemma insert_baseline_extends:
  "insert_baseline sc xs rows = Ok rows' \<Longrightarrow>
     \<exists>new. rows' = rows @ new \<and> list_all (\<lambda>r. rc_scope r = sc \<and> rc_baseline r) new"
proof (induction sc xs rows rule: insert_baseline.induct)
  case (2 sc i d rest rows)
  then show ?case by (fastforce split: if_splits)
qed simp

lemma sql_initialize_Ok:
  assumes "sql_initialize tenant sc start_at is_replay end_at ids digests d db = Ok (u, db')"
  shows "db' = db \<or> (db_checkpoints db sc = None \<and>
    (\<exists>c new. cr_position c = cr_start c \<and> cr_epoch c = 0 \<and>
       list_all (\<lambda>r. rc_scope r = sc \<and> rc_baseline r) new \<and> db_app db' = db_app db \<and>
       db_checkpoints db' = (db_checkpoints db)(sc \<mapsto> c) \<and> db_receipts db' = db_receipts db @ new))"
proof (cases "db_checkpoints db sc")
  case None
  define row where "row = \<lparr>cr_start = start_at, cr_position = start_at, cr_replay = is_replay,
      cr_end = end_at, cr_epoch = 0, cr_token = None, cr_definition = d\<rparr>"
  from assms None obtain rows where rows: "insert_baseline sc (zip ids digests) (db_receipts db) = Ok rows"
      "db' = db\<lparr>db_checkpoints := (db_checkpoints db)(sc \<mapsto> row), db_receipts := rows\<rparr>"
    by (auto simp: sql_initialize_def and_then_Inr_iff row_def split: if_splits)
  obtain new where new: "rows = db_receipts db @ new" "list_all (\<lambda>r. rc_scope r = sc \<and> rc_baseline r) new"
    using insert_baseline_extends [OF rows(1)] by blast
  have "cr_position row = cr_start row" "cr_epoch row = 0" by (simp_all add: row_def)
  with rows(2) new None show ?thesis
    by (intro disjI2 conjI exI [of _ row] exI [of _ new]) simp_all
next
  case (Some c)
  with assms show ?thesis by (auto simp: sql_initialize_def and_then_Inr_iff split: if_splits)
qed

lemma initialize_op_Ok:
  assumes "action_op sha256 eff (AInitialize sc d start bound) db = Ok ((), db')"
  obtains start_at is_replay end_at ids digests where
    "sql_initialize (ss_tenant (ps_source sc)) sc start_at is_replay end_at ids digests d db = Ok ((), db')"
  using assms by (auto simp: initialize_op_def split: if_splits prod.splits)

text \<open>The ways a committed transaction changes the component tables.\<close>

lemma action_cases:
  assumes "action_op sha256 eff a db = Ok ((), db')"
  obtains (settled) cl expected e dup where "a = AExecute cl expected e \<or> a = AAdvance cl expected e"
      "ev_source e = ps_source (cl_scope cl)" "settles sha256 cl expected e dup db db'"
  | (claimed) sc c n tok where "db_checkpoints db sc = Some c" "n = cr_epoch c + 1"
      "db' = db\<lparr>db_checkpoints := (db_checkpoints db)(sc \<mapsto> c\<lparr>cr_epoch := n, cr_token := Some tok\<rparr>)\<rparr>"
  | (created) sc c new where "db_checkpoints db sc = None" "cr_position c = cr_start c" "cr_epoch c = 0"
      "list_all (\<lambda>r. rc_scope r = sc \<and> rc_baseline r) new" "db_app db' = db_app db"
      "db_checkpoints db' = (db_checkpoints db)(sc \<mapsto> c)" "db_receipts db' = db_receipts db @ new"
  | (other) "db_checkpoints db' = db_checkpoints db" "db_receipts db' = db_receipts db"
proof (cases a)
  case (AInitialize sc d start bound)
  with assms obtain start_at is_replay end_at ids digests where
      "sql_initialize (ss_tenant (ps_source sc)) sc start_at is_replay end_at ids digests d db = Ok ((), db')"
    by (blast elim: initialize_op_Ok)
  from sql_initialize_Ok [OF this] show ?thesis
    using created other by auto
next
  case (ATakeover sc d tok)
  then show ?thesis using assms claimed
    by (auto simp: unit_op_def takeover_op_def sql_takeover_def and_then_Inr_iff i64_checked_add_Some
        split: if_splits option.splits)
next
  case (AExecute cl expected e)
  then obtain out where src: "ev_source e = ps_source (cl_scope cl)"
      and ex: "execute_op sha256 eff cl expected e db = Ok (out, db')"
    using assms by (auto simp: unit_op_def and_then_Inr_iff split: if_splits)
  from ex show ?thesis
    by (cases rule: execute_op_settles) (use AExecute src settled in blast)+
next
  case (AAdvance cl expected e)
  then show ?thesis
    using assms settled by (auto split: if_splits dest!: finish_tx_settles)
next
  case (AAppend s i payload)
  then show ?thesis
    using assms other by (auto simp: unit_op_def append_op_def and_then_Inr_iff)
next
  case (ALocal f)
  then show ?thesis using assms other by (auto simp: app_op_def and_then_Inr_iff)
next
  case (AOwned before s i payload after)
  then show ?thesis
    using assms other by (auto simp: owned_op_def app_op_def append_op_def and_then_Inr_iff)
qed

subsection \<open>Exactly once\<close>

text \<open>
  The committed log: what the transactions that took effect did to the application tables, in
  commit order. Folding it over the initial tables reproduces them.
\<close>

datatype 'm entry =
  EEffect projection_scope proj_event | EAppend source_scope string bytes | ESql "'m app_sql"

definition apply_entry :: "'m pg_effect \<Rightarrow> 'm entry \<Rightarrow> 'm pg_app \<Rightarrow> 'm pg_app option" where
  "apply_entry eff en app =
     (case en of
        EEffect sc e \<Rightarrow> (case eff sc e app of Inl _ \<Rightarrow> None | Inr (_, app') \<Rightarrow> Some app')
      | EAppend s i payload \<Rightarrow>
          (case append_event (ss_tenant s) s i payload app of Inl _ \<Rightarrow> None | Inr (_, app') \<Rightarrow> Some app')
      | ESql f \<Rightarrow> (case f app of Inl _ \<Rightarrow> None | Inr app' \<Rightarrow> Some app'))"

fun replay :: "'m pg_effect \<Rightarrow> 'm entry list \<Rightarrow> 'm pg_app \<Rightarrow> 'm pg_app option" where
  "replay eff [] app = Some app"
| "replay eff (en # log) app = Option.bind (apply_entry eff en app) (replay eff log)"

definition entry_of :: "(bytes \<Rightarrow> bytes) \<Rightarrow> 'm action \<Rightarrow> 'm pg_db \<Rightarrow> 'm entry list" where
  "entry_of sha256 a db =
     (case a of
        AExecute cl expected e \<Rightarrow> if lock_tx sha256 cl expected e db = Ok False then [EEffect (cl_scope cl) e] else []
      | AAppend s i payload \<Rightarrow> [EAppend s i payload]
      | ALocal f \<Rightarrow> [ESql f]
      | AOwned before s i payload after \<Rightarrow> [ESql before, EAppend s i payload, ESql after]
      | _ \<Rightarrow> [])"

fun committed_log :: "(bytes \<Rightarrow> bytes) \<Rightarrow> 'm pg_effect \<Rightarrow> 'm history \<Rightarrow> 'm pg_db \<Rightarrow> 'm entry list" where
  "committed_log sha256 eff [] db = []"
| "committed_log sha256 eff (af # h) db =
     (if took_effect (snd af) (action_op sha256 eff (fst af) db) then entry_of sha256 (fst af) db else [])
       @ committed_log sha256 eff h (do_action sha256 eff af db)"

fun effects_of :: "projection_scope \<Rightarrow> 'm entry list \<Rightarrow> proj_event list" where
  "effects_of sc [] = []"
| "effects_of sc (EEffect sc' e # log) = (if sc' = sc then e # effects_of sc log else effects_of sc log)"
| "effects_of sc (EAppend s i payload # log) = effects_of sc log"
| "effects_of sc (ESql f # log) = effects_of sc log"

lemma effects_of_append [simp]: "effects_of sc (log @ log') = effects_of sc log @ effects_of sc log'"
  by (induction sc log rule: effects_of.induct) auto

lemma replay_append [simp]: "replay eff (log @ log') app = Option.bind (replay eff log app) (replay eff log')"
  by (induction eff log app rule: replay.induct) (auto split: bind_splits)

definition empty_db :: "'m pg_app \<Rightarrow> 'm pg_db" where
  "empty_db app = \<lparr>db_app = app, db_checkpoints = Map.empty, db_receipts = []\<rparr>"

text \<open>The event is settled for the generation: its receipt exists and the checkpoint is past it.\<close>

definition settled_fact :: "(bytes \<Rightarrow> bytes) \<Rightarrow> projection_scope \<Rightarrow> 'm pg_db \<Rightarrow> proj_event \<Rightarrow> bool" where
  "settled_fact sha256 sc db e \<longleftrightarrow>
     (case find_receipt sc (ev_id e) (db_receipts db) of
        None \<Rightarrow> False | Some r \<Rightarrow> rc_fingerprint r = event_fingerprint sha256 e) \<and>
     (case db_checkpoints db sc of
        None \<Rightarrow> False
      | Some c \<Rightarrow> (case cr_position c of None \<Rightarrow> False | Some p \<Rightarrow> int (ev_position e) \<le> p))"

definition generation_log :: "(bytes \<Rightarrow> bytes) \<Rightarrow> projection_scope \<Rightarrow> 'm pg_db \<Rightarrow> proj_event list \<Rightarrow> bool" where
  "generation_log sha256 sc db es \<longleftrightarrow>
     sorted_wrt (<) (map ev_position es) \<and> distinct (map ev_id es) \<and>
     list_all (settled_fact sha256 sc db) es"

text \<open>Transactions only ever extend the receipts and move checkpoints and epochs forward.\<close>

definition row_le :: "checkpoint_row \<Rightarrow> checkpoint_row \<Rightarrow> bool" where
  "row_le c c' \<longleftrightarrow>
     cr_start c' = cr_start c \<and> cr_replay c' = cr_replay c \<and> cr_end c' = cr_end c \<and>
     cr_definition c' = cr_definition c \<and> cr_epoch c \<le> cr_epoch c' \<and>
     (cr_epoch c' = cr_epoch c \<longrightarrow> cr_token c' = cr_token c) \<and>
     (case cr_position c of None \<Rightarrow> True
      | Some p \<Rightarrow> (case cr_position c' of None \<Rightarrow> False | Some q \<Rightarrow> p \<le> q))"

definition db_le :: "'m pg_db \<Rightarrow> 'm pg_db \<Rightarrow> bool" where
  "db_le db db' \<longleftrightarrow>
     (\<exists>new. db_receipts db' = db_receipts db @ new) \<and>
     (\<forall>sc c. db_checkpoints db sc = Some c \<longrightarrow> (\<exists>c'. db_checkpoints db' sc = Some c' \<and> row_le c c'))"

lemma row_le_refl [simp]: "row_le c c"
  by (simp add: row_le_def split: option.splits)

lemma row_le_trans: "row_le a b \<Longrightarrow> row_le b c \<Longrightarrow> row_le a c"
  by (auto simp: row_le_def split: option.splits)

lemma db_le_refl [simp]: "db_le db db"
  by (simp add: db_le_def)

lemma db_le_trans: "db_le a b \<Longrightarrow> db_le b c \<Longrightarrow> db_le a c"
  unfolding db_le_def by (metis append_assoc row_le_trans)

lemma db_le_update:
  "db_receipts db' = db_receipts db @ new \<Longrightarrow> db_checkpoints db' = (db_checkpoints db)(sc \<mapsto> c') \<Longrightarrow>
   (\<And>c. db_checkpoints db sc = Some c \<Longrightarrow> row_le c c') \<Longrightarrow> db_le db db'"
  by (auto simp: db_le_def)

lemma row_le_position:
  "fenced_row n tok expected at_position d c \<Longrightarrow> row_le c (c\<lparr>cr_position := Some at_position\<rparr>)"
  by (auto simp: fenced_row_def row_le_def split: option.splits)

lemma settles_le:
  assumes "settles sha256 cl expected e dup db db'"
  shows "db_le db db'"
proof -
  from assms obtain c where c: "db_checkpoints db (cl_scope cl) = Some c"
      "row_le c (c\<lparr>cr_position := Some (int (ev_position e))\<rparr>)"
      "db_checkpoints db' = (db_checkpoints db)(cl_scope cl \<mapsto> c\<lparr>cr_position := Some (int (ev_position e))\<rparr>)"
    by (auto simp: settles_def dest: row_le_position)
  moreover obtain new where "db_receipts db' = db_receipts db @ new"
    using assms by (auto simp: settles_def split: option.splits)
  ultimately show ?thesis by (intro db_le_update) auto
qed

lemma action_le:
  assumes "action_op sha256 eff a db = Ok ((), db')"
  shows "db_le db db'"
  using assms
proof (cases rule: action_cases)
  case settled
  then show ?thesis by (auto intro: settles_le)
next
  case (claimed sc c n tok)
  then show ?thesis
    by (intro db_le_update [where new = "[]" and sc = sc]) (auto simp: row_le_def split: option.splits)
next
  case created
  then show ?thesis by (auto intro: db_le_update)
qed (simp add: db_le_def)

lemma history_le: "db_le db (run_history sha256 eff h db)"
  by (rule run_history_invariant [where P = "db_le db"]) (auto intro: db_le_trans dest: action_le)

lemma settled_fact_mono:
  assumes le: "db_le db db'" and fact: "settled_fact sha256 sc db e"
  shows "settled_fact sha256 sc db' e"
proof -
  from fact obtain r c p where r: "find_receipt sc (ev_id e) (db_receipts db) = Some r"
      "rc_fingerprint r = event_fingerprint sha256 e" "db_checkpoints db sc = Some c"
      "cr_position c = Some p" "int (ev_position e) \<le> p"
    by (auto simp: settled_fact_def split: option.splits)
  from le r(1) have "find_receipt sc (ev_id e) (db_receipts db') = Some r"
    by (auto simp: db_le_def find_receipt_append)
  moreover obtain c' q where "db_checkpoints db' sc = Some c'" "cr_position c' = Some q" "p \<le> q"
    using le r(3,4) by (fastforce simp: db_le_def row_le_def split: option.splits)
  ultimately show ?thesis using r by (simp add: settled_fact_def)
qed

lemma settles_fact: "settles sha256 cl expected e dup db db' \<Longrightarrow> settled_fact sha256 (cl_scope cl) db' e"
  by (auto simp: settles_def settled_fact_def find_receipt_append split: option.splits)

text \<open>One transaction keeps every generation's log ordered and free of repetitions.\<close>

lemma settles_new:
  assumes "settles sha256 cl expected e False db db'" and "settled_fact sha256 (cl_scope cl) db d"
  shows "ev_position d < ev_position e \<and> ev_id d \<noteq> ev_id e"
  using assms by (auto simp: settles_def settled_fact_def fenced_row_def split: option.splits)

lemma generation_log_snoc:
  assumes "generation_log sha256 sc db es" and "settles sha256 cl expected e False db db'" and "cl_scope cl = sc"
  shows "generation_log sha256 sc db' (es @ [e])"
proof -
  have "settled_fact sha256 sc db' e" using settles_fact [OF assms(2)] assms(3) by simp
  moreover have "settled_fact sha256 sc db' d" if "d \<in> set es" for d
    using assms(1) that settled_fact_mono [OF settles_le [OF assms(2)]]
    by (auto simp: generation_log_def list_all_iff)
  moreover have "\<forall>d \<in> set es. ev_position d < ev_position e \<and> ev_id d \<noteq> ev_id e"
    using assms settles_new [OF assms(2)] by (auto simp: generation_log_def list_all_iff)
  ultimately show ?thesis
    using assms(1) by (fastforce simp: generation_log_def list_all_iff sorted_wrt_append)
qed

lemma generation_log_mono: "db_le db db' \<Longrightarrow> generation_log sha256 sc db es \<Longrightarrow> generation_log sha256 sc db' es"
  by (auto simp: generation_log_def list_all_iff dest: settled_fact_mono)

lemma entry_generation_log:
  assumes "action_op sha256 eff a db = Ok ((), db')" and "generation_log sha256 sc db es"
  shows "generation_log sha256 sc db' (es @ effects_of sc (entry_of sha256 a db))"
proof (cases "effects_of sc (entry_of sha256 a db) = []")
  case True
  then show ?thesis using generation_log_mono [OF action_le [OF assms(1)] assms(2)] by simp
next
  case False
  then obtain cl expected e where a: "a = AExecute cl expected e" "lock_tx sha256 cl expected e db = Ok False"
      "cl_scope cl = sc"
    by (auto simp: entry_of_def split: action.splits if_splits)
  then obtain out where "execute_op sha256 eff cl expected e db = Ok (out, db')"
    using assms(1) by (auto simp: unit_op_def and_then_Inr_iff split: if_splits)
  then have "settles sha256 cl expected e False db db'"
    using a(2) by (cases rule: execute_op_settles) auto
  then show ?thesis
    using a assms(2) by (auto simp: entry_of_def intro: generation_log_snoc)
qed

lemma entry_replay:
  assumes "action_op sha256 eff a db = Ok ((), db')"
  shows "replay eff (entry_of sha256 a db) (db_app db) = Some (db_app db')"
proof (cases a)
  case (AExecute cl expected e)
  then obtain out where "execute_op sha256 eff cl expected e db = Ok (out, db')"
    using assms by (auto simp: unit_op_def and_then_Inr_iff split: if_splits)
  then show ?thesis
    by (cases rule: execute_op_settles) (auto simp: entry_of_def AExecute apply_entry_def)
next
  case (AAppend s i payload)
  then show ?thesis using assms
    by (auto simp: entry_of_def apply_entry_def unit_op_def append_op_def and_then_Inr_iff
        proj_event_new_def split: if_splits)
next
  case (AInitialize sc d start bound)
  with assms obtain start_at is_replay end_at ids digests where
      "sql_initialize (ss_tenant (ps_source sc)) sc start_at is_replay end_at ids digests d db = Ok ((), db')"
    by (blast elim: initialize_op_Ok)
  from sql_initialize_Ok [OF this] show ?thesis by (auto simp: entry_of_def AInitialize)
next
  case (ATakeover sc d tok)
  then show ?thesis using assms
    by (auto simp: entry_of_def unit_op_def takeover_op_def sql_takeover_def and_then_Inr_iff
        split: if_splits option.splits)
next
  case (AAdvance cl expected e)
  then show ?thesis using assms by (auto simp: entry_of_def split: if_splits dest!: finish_tx_settles)
next
  case (ALocal f)
  then show ?thesis using assms by (auto simp: entry_of_def apply_entry_def app_op_def and_then_Inr_iff)
next
  case (AOwned before s i payload after)
  then show ?thesis using assms
    by (auto simp: entry_of_def apply_entry_def owned_op_def app_op_def append_op_def and_then_Inr_iff
        proj_event_new_def split: if_splits)
qed

lemma committed_log_replay:
  "replay eff (committed_log sha256 eff h db) (db_app db) = Some (db_app (run_history sha256 eff h db))"
proof (induction h arbitrary: db)
  case (Cons af h)
  show ?case
    by (cases rule: do_action_cases [of sha256 eff af db]) (simp_all add: Cons.IH entry_replay)
qed simp

lemma committed_generation_log:
  "generation_log sha256 sc db es \<Longrightarrow>
   generation_log sha256 sc (run_history sha256 eff h db) (es @ effects_of sc (committed_log sha256 eff h db))"
proof (induction h arbitrary: db es)
  case (Cons af h)
  show ?case
  proof (cases rule: do_action_cases [of sha256 eff af db])
    case 1
    then show ?thesis using Cons by simp
  next
    case 2
    from Cons.IH [OF entry_generation_log [OF 2(1) Cons.prems]] show ?thesis using 2(2) by simp
  qed
qed simp

text \<open>
  C6. Exactly-once projection. For any interleaving of initialisations, takeovers, executions,
  external advances, appends, application transactions of \<open>local_tx\<close> and transactions the
  application owns and appends in, with any pattern of refused, aborted or unacknowledged
  transactions: the application tables and the journal are the fold of the committed log of
  effects, appends and application SQL, and within every generation the log applies the effect of
  each event id at most once, in strictly ascending positions, and each applied event holds a
  receipt with its fingerprint below the checkpoint.
\<close>

theorem exactly_once:
  "replay eff (committed_log sha256 eff h (empty_db app)) app =
     Some (db_app (run_history sha256 eff h (empty_db app))) \<and>
   generation_log sha256 sc (run_history sha256 eff h (empty_db app))
     (effects_of sc (committed_log sha256 eff h (empty_db app)))"
proof -
  have "generation_log sha256 sc (empty_db app) []" by (simp add: generation_log_def)
  from committed_generation_log [OF this] show ?thesis
    using committed_log_replay [of eff sha256 h "empty_db app"] by (simp add: empty_db_def)
qed

subsection \<open>Fencing\<close>

lemma takeover_op_Ok:
  assumes "takeover_op store sc d tok db = Ok (cl, db')"
  shows "cl_scope cl = sc \<and> (\<exists>c. db_checkpoints db sc = Some c \<and> cl_epoch cl = cr_epoch c + 1) \<and>
         (\<exists>c'. db_checkpoints db' sc = Some c' \<and> cr_epoch c' = cl_epoch cl) \<and> db_le db db'"
proof -
  have "action_op undefined undefined (ATakeover sc d tok) db = Ok ((), db')"
    using assms by (auto simp: unit_op_def takeover_op_def and_then_Inr_iff)
  from action_le [OF this] show ?thesis
    using assms by (auto simp: takeover_op_def sql_takeover_def and_then_Inr_iff i64_checked_add_Some
        split: option.splits if_splits)
qed

lemma stale_epoch_fenced:
  assumes "db_checkpoints db (cl_scope cl) = Some c" and "cl_epoch cl < cr_epoch c"
  shows "execute_op sha256 eff cl expected e db = Err PFenced"
    and "finish_tx sha256 cl expected e db = Err PFenced"
    and "checkpoint_op cl db = Err PFenced"
  using assms
  by (simp_all add: execute_op_def finish_tx_def lock_tx_def finish_event_def lock_event_def assert_tenant_def
      claim_tenant_def checkpoint_op_def sql_def code_kind_def)

lemma claims_superseded:
  assumes first: "takeover_op s1 sc d1 tok1 db0 = Ok (cl, db1)"
    and second: "takeover_op s2 sc d2 tok2 (run_history sha256 eff h db1) = Ok (cl2, db2)"
  shows "\<exists>c. db_checkpoints (run_history sha256 eff h' db2) (cl_scope cl) = Some c \<and> cl_epoch cl < cr_epoch c"
proof -
  from takeover_op_Ok [OF first] obtain c1 where c1: "cl_scope cl = sc"
      "db_checkpoints db1 sc = Some c1" "cr_epoch c1 = cl_epoch cl" by blast
  with history_le [of db1 sha256 eff h] obtain c2 where c2:
      "db_checkpoints (run_history sha256 eff h db1) sc = Some c2" "cl_epoch cl \<le> cr_epoch c2"
    by (force simp: db_le_def row_le_def)
  from takeover_op_Ok [OF second] c2 obtain c3 where c3: "db_checkpoints db2 sc = Some c3" "cl_epoch cl < cr_epoch c3"
    by force
  with history_le [of db2 sha256 eff h'] c1(1) show ?thesis by (force simp: db_le_def row_le_def)
qed

subsection \<open>The session settles what it acknowledges\<close>

text \<open>
  A dropped transaction is rolled back or, when its commit was already under way, committed:
  an interrupted operation leaves the world it started in or the one it would have reached.
\<close>

definition drop_atomic :: "'w control \<Rightarrow> bool" where
  "drop_atomic c \<longleftrightarrow> (\<forall>w w' b w''. ctl_interrupt c w w' = Some (b, w'') \<longrightarrow> w'' = w \<or> w'' = w')"

definition monotone_op :: "('r, 'm) tx_op \<Rightarrow> bool" where
  "monotone_op f \<longleftrightarrow> (\<forall>db v db'. f db = Ok (v, db') \<longrightarrow> db_le db db')"

lemma transact_history:
  obtains h ft where "fst (transact sha256 eff mode f w) =
      fst (transact_with_mode mode ft f (run_history sha256 eff h (pw_db w)))"
    and "pw_db (snd (transact sha256 eff mode f w)) =
      snd (transact_with_mode mode ft f (run_history sha256 eff h (pw_db w)))"
proof -
  obtain h ft where eq: "(case pw_schedule w of [] \<Rightarrow> ([], no_fault) | hf # _ \<Rightarrow> hf) = (h, ft)" by fastforce
  show ?thesis
    by (rule that [of ft h]) (simp_all add: transact_def eq split: prod.splits)
qed

lemma transact_le:
  assumes "monotone_op f"
  shows "db_le (pw_db w) (pw_db (snd (transact sha256 eff mode f w)))"
proof -
  have step: "db_le db (snd (transact_with_mode mode ft f db))" for db ft
    using assms by (cases "f db") (auto simp: transact_db monotone_op_def took_effect_def)
  obtain h ft where "pw_db (snd (transact sha256 eff mode f w)) =
      snd (transact_with_mode mode ft f (run_history sha256 eff h (pw_db w)))"
    by (rule transact_history)
  then show ?thesis using db_le_trans [OF history_le step] by simp
qed

lemma control_run_le:
  assumes "drop_atomic c" and "db_le (pw_db w) (pw_db (snd (f w)))"
  shows "db_le (pw_db w) (pw_db (snd (control_run c f w)))"
proof -
  obtain r w' where f: "f w = (r, w')" by fastforce
  have "w'' = w \<or> w'' = w'" if "ctl_interrupt c w w' = Some (b, w'')" for b w''
    using assms(1) that unfolding drop_atomic_def by blast
  with assms(2) f show ?thesis
    by (auto simp: control_run_def split: sum.splits option.splits prod.splits)
qed

lemma reading_monotone [simp]: "monotone_op (reading f)"
  by (auto simp: monotone_op_def reading_def and_then_Inr_iff)

lemma finish_monotone [simp]: "monotone_op (finish_tx sha256 cl expected e)"
  by (auto simp: monotone_op_def dest!: finish_tx_settles intro: settles_le)

lemma execute_monotone [simp]: "monotone_op (execute_op sha256 eff cl expected e)"
  by (auto simp: monotone_op_def elim!: execute_op_settles intro: settles_le)

lemma controlled_tx_le:
  "drop_atomic c \<Longrightarrow> monotone_op f \<Longrightarrow> db_le (pw_db w) (pw_db (snd (controlled_tx sha256 eff c f w)))"
  using control_run_le [of c w "transact sha256 eff ReadWrite f"] transact_le [of f w sha256 eff ReadWrite]
  by (auto simp: controlled_tx_def split: sum.splits prod.splits)

lemma transact_Ok:
  assumes "transact sha256 eff mode f w = (Ok v, w')"
  shows "\<exists>db. f db = Ok (v, pw_db w')"
proof -
  obtain h ft where "fst (transact_with_mode mode ft f (run_history sha256 eff h (pw_db w))) = Ok v"
      "pw_db w' = snd (transact_with_mode mode ft f (run_history sha256 eff h (pw_db w)))"
    using assms by (metis transact_history fst_conv snd_conv)
  then show ?thesis by (auto simp: transact_Ok_iff)
qed

lemma controlled_tx_Ok:
  "controlled_tx sha256 eff c f w = (Ok v, w') \<Longrightarrow> \<exists>db. f db = Ok (v, pw_db w')"
  by (auto simp: controlled_tx_def split: sum.splits prod.splits dest!: control_run_Ok transact_Ok)

lemma pg_execute_le:
  "drop_atomic c \<Longrightarrow> db_le (pw_db w) (pw_db (snd (pg_execute sha256 eff cl expected e c w)))"
  by (simp add: pg_execute_def controlled_tx_le)

lemma pg_advance_le:
  "drop_atomic c \<Longrightarrow> db_le (pw_db w) (pw_db (snd (pg_advance sha256 eff cl expected e c w)))"
  by (simp add: pg_advance_def controlled_tx_le)

lemma pg_execute_fact:
  "pg_execute sha256 eff cl expected e c w = (Ok out, w') \<Longrightarrow> settled_fact sha256 (cl_scope cl) (pw_db w') e"
  by (auto simp: pg_execute_def split: if_splits dest!: controlled_tx_Ok elim!: execute_op_settles intro: settles_fact)

lemma pg_advance_fact:
  "pg_advance sha256 eff cl expected e c w = (Ok u, w') \<Longrightarrow> settled_fact sha256 (cl_scope cl) (pw_db w') e"
  by (auto simp: pg_advance_def split: if_splits dest!: controlled_tx_Ok finish_tx_settles intro: settles_fact)

lemma external_effect_db [simp]: "pw_db (snd (external_effect t sc d e c w)) = pw_db w"
  by (simp add: external_effect_def split: prod.splits)

interpretation pg: settling_execution "pg_read sha256 eff" "pg_projection sha256 eff cl" drop_atomic
  "\<lambda>w. settled_fact sha256 (cl_scope cl) (pw_db w)"
proof unfold_locales
  fix c :: "('a, 'b) pg_world control" and w :: "('a, 'b) pg_world" and d s p n
  assume "drop_atomic c" and "settled_fact sha256 (cl_scope cl) (pw_db w) d"
  then show "settled_fact sha256 (cl_scope cl) (pw_db (snd (control_run c (pg_read sha256 eff s p n) w))) d"
    by (simp add: pg_read_def settled_fact_mono [OF control_run_le [OF _ transact_le]])
next
  fix c :: "('a, 'b) pg_world control" and w :: "('a, 'b) pg_world" and d p e
  assume "drop_atomic c" and "settled_fact sha256 (cl_scope cl) (pw_db w) d"
  then show "settled_fact sha256 (cl_scope cl)
      (pw_db (snd (control_run c (ex_execute (pg_projection sha256 eff cl) p e c) w))) d"
    by (simp add: pg_projection_def settled_fact_mono [OF control_run_le [OF _ pg_execute_le]])
next
  fix c :: "('a, 'b) pg_world control" and p e w out w'
  assume "control_run c (ex_execute (pg_projection sha256 eff cl) p e c) w = (Ok out, w')"
  then show "settled_fact sha256 (cl_scope cl) (pw_db w') e"
    by (auto simp: pg_projection_def dest!: control_run_Ok intro: pg_execute_fact)
qed

interpretation pgx: settling_checkpoint "pg_read sha256 eff" "pg_checkpoint sha256 eff cl" "external_effect t"
  drop_atomic "\<lambda>w. settled_fact sha256 (cl_scope cl) (pw_db w)"
proof unfold_locales
  fix c :: "('a, 'b) pg_world control" and w :: "('a, 'b) pg_world" and d
  assume adm: "drop_atomic c" and fact: "settled_fact sha256 (cl_scope cl) (pw_db w) d"
  note keeps = settled_fact_mono [OF control_run_le [OF adm] fact]
  show "settled_fact sha256 (cl_scope cl) (pw_db (snd (control_run c (pg_read sha256 eff s p n) w))) d" for s p n
    by (rule keeps) (simp add: pg_read_def transact_le)
  show "settled_fact sha256 (cl_scope cl) (pw_db (snd (control_run c (xc_load (pg_checkpoint sha256 eff cl)) w))) d"
    by (rule keeps) (simp add: pg_checkpoint_def transact_le)
  show "settled_fact sha256 (cl_scope cl) (pw_db (snd (control_run c (external_effect t sc df e c) w))) d" for sc df e
    by (rule keeps) simp
  show "settled_fact sha256 (cl_scope cl)
      (pw_db (snd (control_run c (xc_advance (pg_checkpoint sha256 eff cl) p e c) w))) d" for p e
    by (rule keeps) (simp add: pg_checkpoint_def pg_advance_le adm)
next
  fix c :: "('a, 'b) pg_world control" and p e w u w'
  assume "control_run c (xc_advance (pg_checkpoint sha256 eff cl) p e c) w = (Ok u, w')"
  then show "settled_fact sha256 (cl_scope cl) (pw_db w') e"
    by (auto simp: pg_checkpoint_def dest!: control_run_Ok intro: pg_advance_fact)
next
  fix c :: "('a, 'b) pg_world control" and w w' b w'' d
  assume "drop_atomic c" "ctl_interrupt c w w' = Some (b, w'')"
    "settled_fact sha256 (cl_scope cl) (pw_db w) d" "settled_fact sha256 (cl_scope cl) (pw_db w') d"
  then show "settled_fact sha256 (cl_scope cl) (pw_db w'') d"
    unfolding drop_atomic_def by blast
qed

subsection \<open>A concrete generation\<close>

text \<open>One source with one event and one claimed generation, used to instantiate the properties.\<close>

definition demo_source :: source_scope where
  "demo_source = \<lparr>ss_tenant = 7, ss_source = ''s''\<rparr>"

definition demo_scope :: projection_scope where
  "demo_scope = \<lparr>ps_source = demo_source, ps_projection = ''p'', ps_generation = ''g''\<rparr>"

definition demo_hash :: "bytes \<Rightarrow> bytes" where
  "demo_hash payload = replicate 32 0"

definition demo_effect :: "nat pg_effect" where
  "demo_effect sc e app = Ok (EffApplied, app\<lparr>app_model := app_model app + 1\<rparr>)"

definition demo_target ::
  "projection_scope \<Rightarrow> definition_identity \<Rightarrow> proj_event \<Rightarrow> nat \<Rightarrow> (proj_error + apply_outcome) \<times> nat" where
  "demo_target sc d e x = (Ok AppApplied, x + 1)"

definition demo_control :: "'w control" where
  "demo_control = \<lparr>ctl_cancelled = (\<lambda>_. False), ctl_expired = (\<lambda>_. False), ctl_interrupt = (\<lambda>_ _. None)\<rparr>"

definition demo_claim :: pg_claim where
  "demo_claim = \<lparr>cl_scope = demo_scope, cl_definition = [], cl_epoch = 1, cl_token = 5, cl_store = 0\<rparr>"

definition demo_event :: proj_event where
  "demo_event = \<lparr>ev_source = demo_source, ev_position = 0, ev_id = ''a'', ev_payload = []\<rparr>"

definition demo_db :: "nat pg_db" where
  "demo_db =
     \<lparr>db_app = \<lparr>app_sources = [demo_source \<mapsto> 1],
        app_events = [\<lparr>er_source = demo_source, er_position = 0, er_id = ''a'', er_payload = []\<rparr>],
        app_model = 0\<rparr>,
      db_checkpoints = [demo_scope \<mapsto>
        \<lparr>cr_start = None, cr_position = None, cr_replay = False, cr_end = None,
         cr_epoch = 1, cr_token = Some 5, cr_definition = []\<rparr>],
      db_receipts = []\<rparr>"

definition demo_world :: "(nat, nat) pg_world" where
  "demo_world = \<lparr>pw_db = demo_db, pw_schedule = [], pw_external = 0\<rparr>"

definition demo_local :: "(nat, nat) pg_world execution" where
  "demo_local = pg_projection demo_hash demo_effect demo_claim"

definition demo_external :: "(nat, nat) pg_world execution" where
  "demo_external = at_least_once (pg_checkpoint demo_hash demo_effect demo_claim) (external_effect demo_target)"

lemmas demo_defs = demo_source_def demo_scope_def demo_hash_def demo_effect_def demo_control_def
  demo_claim_def demo_db_def demo_world_def demo_event_def demo_target_def
  demo_local_def demo_external_def

lemmas demo_steps = demo_defs control_run_def control_check_def transact_def transact_with_mode_def
  no_fault_def reading_def checkpoint_op_def decode_optional_def controlled_tx_def lock_tx_def
  finish_tx_def lock_event_def finish_event_def sql_def assert_tenant_def claim_tenant_def
  encode_position_def event_fingerprint_def find_receipt_def Let_def check_name_def
  pg_projection_def at_least_once_def pg_checkpoint_def

lemma demo_name: "validate_name ''a'' = Ok ()"
  by (simp add: validate_name_def name_byte_def rust_defs)

lemma demo_control_check: "control_check demo_control w = Ok ()"
  by (simp add: demo_control_def control_check_def)

lemma demo_drop_atomic: "drop_atomic demo_control"
  by (simp add: drop_atomic_def demo_control_def)

lemma demo_scope_fields:
  "ex_scope demo_local = demo_scope" "ex_scope demo_external = demo_scope" "ev_source demo_event = ps_source demo_scope"
  by (simp_all add: demo_defs pg_projection_def at_least_once_def pg_checkpoint_def)

lemma demo_load:
  "control_run demo_control (ex_checkpoint demo_local) demo_world = (Ok \<lparr>cp_position = None, cp_bound = Live\<rparr>, demo_world)"
  "control_run demo_control (ex_checkpoint demo_external) demo_world = (Ok \<lparr>cp_position = None, cp_bound = Live\<rparr>, demo_world)"
  by (simp_all add: demo_steps)

lemma demo_read:
  "control_run demo_control (pg_read demo_hash demo_effect (ps_source demo_scope) None (Suc 0)) demo_world =
     (Ok [demo_event], demo_world)"
  by (simp add: demo_steps pg_read_def read_op_def order_by_position_def decode_position_def position_new_def
      i64_max_def proj_event_new_def demo_name)

lemma demo_execute:
  "\<exists>w. control_run demo_control (ex_execute demo_local None demo_event demo_control) demo_world = (Ok AppApplied, w)"
  by (simp add: demo_steps pg_execute_def execute_op_def demo_name)

lemma demo_external_execute:
  "\<exists>w. control_run demo_control (ex_execute demo_external None demo_event demo_control) demo_world = (Ok AppApplied, w)"
  by (simp add: demo_steps at_least_once_execute_def external_effect_def pg_advance_def validate_next_def demo_name)

lemma demo_run:
  assumes "ex \<in> {demo_local, demo_external}"
  shows "\<exists>w. run (pg_read demo_hash demo_effect) ex demo_control \<lparr>rl_batch = 10, rl_events = 1\<rparr> demo_world =
           (one_event_report 0, ObsStopped (one_event_report 0), w)"
proof -
  obtain w where "control_run demo_control (ex_execute ex None demo_event demo_control) demo_world = (Ok AppApplied, w)"
    using assms demo_execute demo_external_execute by blast
  then have "run (pg_read demo_hash demo_effect) ex demo_control \<lparr>rl_batch = 10, rl_events = 1\<rparr> demo_world =
      (one_event_report (ev_position demo_event), ObsStopped (one_event_report (ev_position demo_event)), w)"
    using assms by (intro run_one_event) (auto simp: demo_control_check demo_load demo_read demo_scope_fields)
  then show ?thesis by (auto simp: demo_event_def)
qed

lemma demo_takeover: "\<exists>cl db. takeover_op 0 demo_scope [] 6 demo_db = Ok (cl, db) \<and>
    (\<exists>cl' db'. takeover_op 0 demo_scope [] 8 db = Ok (cl', db'))"
  by (simp add: demo_defs takeover_op_def sql_takeover_def assert_tenant_def sql_def i64_checked_add_def i64_defs)

text \<open>
  C7. Fencing. Once a later takeover of the same generation has committed, the superseded
  claim can neither execute nor advance nor load: whatever any session does before and after
  the takeover, each of its transactions is refused as fenced.
\<close>

theorem superseded_claim_fenced:
  assumes "takeover_op s1 sc d1 tok1 db0 = Ok (cl, db1)"
    and "takeover_op s2 sc d2 tok2 (run_history sha256 eff h db1) = Ok (cl2, db2)"
  shows "execute_op sha256 eff cl expected e (run_history sha256 eff h' db2) = Err PFenced \<and>
         finish_tx sha256 cl expected e (run_history sha256 eff h' db2) = Err PFenced \<and>
         checkpoint_op cl (run_history sha256 eff h' db2) = Err PFenced"
  using claims_superseded [OF assms, of h'] stale_epoch_fenced by blast

theorem superseded_claim_fenced_witness:
  "\<exists>cl db1 cl2 db2. takeover_op 0 demo_scope [] 6 demo_db = Ok (cl, db1) \<and>
     takeover_op 0 demo_scope [] 8 (run_history demo_hash demo_effect [] db1) = Ok (cl2, db2) \<and>
     execute_op demo_hash demo_effect cl None demo_event (run_history demo_hash demo_effect [] db2) = Err PFenced"
proof -
  obtain cl db1 cl2 db2 where t: "takeover_op 0 demo_scope [] 6 demo_db = Ok (cl, db1)"
      "takeover_op 0 demo_scope [] 8 (run_history demo_hash demo_effect [] db1) = Ok (cl2, db2)"
    using demo_takeover by auto
  from superseded_claim_fenced [OF t, of None demo_event "[]"] t show ?thesis by blast
qed

text \<open>
  C9. Acknowledged means settled. Whatever other sessions commit between its transactions and
  wherever it is interrupted, one invocation of the runner on a PostgreSQL session reports
  exactly the counts and the last position of a log of events that is strictly ordered above
  the loaded checkpoint, within the replay bound and the budget, and every event of that log
  is settled in the database when the invocation returns.
\<close>

theorem run_settles_acknowledged:
  assumes "drop_atomic c"
    and "control_run c (ex_checkpoint (pg_projection sha256 eff cl)) w = (Ok cp, w0)"
    and "run (pg_read sha256 eff) (pg_projection sha256 eff cl) c lim w = (r, obs, w')"
  shows "\<exists>log. report_of_log (cp_position cp) log r \<and> log_ordered cp (ps_source (cl_scope cl)) log \<and>
           length log \<le> rl_events lim \<and>
           list_all (\<lambda>(e, _). settled_fact sha256 (cl_scope cl) (pw_db w') e) log"
  using pg.run_settled [OF assms] by (simp add: pg_projection_def)

theorem run_settles_acknowledged_witness:
  "\<exists>w (log :: (proj_event \<times> apply_outcome) list). run (pg_read demo_hash demo_effect) demo_local demo_control \<lparr>rl_batch = 10, rl_events = 1\<rparr> demo_world =
       (one_event_report 0, ObsStopped (one_event_report 0), w) \<and> log \<noteq> [] \<and>
     list_all (\<lambda>(e, _). settled_fact demo_hash demo_scope (pw_db w) e) log"
proof -
  obtain w where w: "run (pg_read demo_hash demo_effect) demo_local demo_control \<lparr>rl_batch = 10, rl_events = 1\<rparr> demo_world =
      (one_event_report 0, ObsStopped (one_event_report 0), w)"
    using demo_run [of demo_local] by auto
  from run_settles_acknowledged [OF demo_drop_atomic demo_load(1) [unfolded demo_local_def] w [unfolded demo_local_def]]
  obtain log where log: "report_of_log None log (one_event_report 0)"
      "list_all (\<lambda>(e, _). settled_fact demo_hash demo_scope (pw_db w) e) log"
    by (auto simp: demo_claim_def)
  from log(1) have "log \<noteq> []" by (auto simp: report_of_log_def one_event_report_def)
  with w log(2) show ?thesis by (intro exI [of _ w] exI [of _ log] conjI)
qed

text \<open>
  The same for an external target behind a PostgreSQL checkpoint (\<open>AtLeastOnce\<close>): what the
  invocation acknowledges has its receipt and checkpoint committed.
\<close>

theorem external_run_settles_acknowledged:
  assumes "drop_atomic c"
    and "control_run c (ex_checkpoint (at_least_once (pg_checkpoint sha256 eff cl) (external_effect t))) w = (Ok cp, w0)"
    and "run (pg_read sha256 eff) (at_least_once (pg_checkpoint sha256 eff cl) (external_effect t)) c lim w = (r, obs, w')"
  shows "\<exists>log. report_of_log (cp_position cp) log r \<and> log_ordered cp (ps_source (cl_scope cl)) log \<and>
           length log \<le> rl_events lim \<and>
           list_all (\<lambda>(e, _). settled_fact sha256 (cl_scope cl) (pw_db w') e) log"
  using pgx.run_settled [OF assms] by (simp add: at_least_once_def pg_checkpoint_def)

theorem external_run_settles_acknowledged_witness:
  "\<exists>w (log :: (proj_event \<times> apply_outcome) list). run (pg_read demo_hash demo_effect) demo_external demo_control \<lparr>rl_batch = 10, rl_events = 1\<rparr> demo_world =
       (one_event_report 0, ObsStopped (one_event_report 0), w) \<and> log \<noteq> [] \<and>
     list_all (\<lambda>(e, _). settled_fact demo_hash demo_scope (pw_db w) e) log"
proof -
  obtain w where w: "run (pg_read demo_hash demo_effect) demo_external demo_control \<lparr>rl_batch = 10, rl_events = 1\<rparr> demo_world =
      (one_event_report 0, ObsStopped (one_event_report 0), w)"
    using demo_run [of demo_external] by auto
  from external_run_settles_acknowledged [OF demo_drop_atomic demo_load(2) [unfolded demo_external_def] w [unfolded demo_external_def]]
  obtain log where log: "report_of_log None log (one_event_report 0)"
      "list_all (\<lambda>(e, _). settled_fact demo_hash demo_scope (pw_db w) e) log"
    by (auto simp: demo_claim_def)
  from log(1) have "log \<noteq> []" by (auto simp: report_of_log_def one_event_report_def)
  with w log(2) show ?thesis by (intro exI [of _ w] exI [of _ log] conjI)
qed

subsection \<open>Generations are immutable\<close>

text \<open>Receipts refer to existing checkpoints (the foreign key of the receipts table).\<close>

definition receipts_owned :: "'m pg_db \<Rightarrow> bool" where
  "receipts_owned db \<longleftrightarrow> list_all (\<lambda>r. db_checkpoints db (rc_scope r) \<noteq> None) (db_receipts db)"

lemma action_owned:
  assumes "receipts_owned db" and "action_op sha256 eff a db = Ok ((), db')"
  shows "receipts_owned db'"
  using assms(2)
proof (cases rule: action_cases)
  case (settled cl expected e dup)
  then show ?thesis
    using assms(1) by (auto simp: settles_def receipts_owned_def list_all_iff split: option.splits)
qed (use assms(1) in \<open>auto simp: receipts_owned_def list_all_iff\<close>)

lemma history_owned: "receipts_owned (run_history sha256 eff h (empty_db app))"
  by (rule run_history_invariant [where P = receipts_owned])
    (simp add: receipts_owned_def empty_db_def, rule action_owned)

text \<open>What the definition of a generation consists of.\<close>

definition generation_is ::
  "projection_scope \<Rightarrow> definition_identity \<Rightarrow> int option \<Rightarrow> bool \<Rightarrow> int option \<Rightarrow> (string \<times> bytes) set
     \<Rightarrow> 'm pg_db \<Rightarrow> bool" where
  "generation_is sc d start_at is_replay end_at baseline db \<longleftrightarrow>
     (\<exists>c. db_checkpoints db sc = Some c \<and> cr_definition c = d \<and> cr_start c = start_at \<and>
          cr_replay c = is_replay \<and> cr_end c = end_at) \<and>
     set (baseline_of sc (db_receipts db)) = baseline"

lemma generation_is_unique:
  "generation_is sc d s r e b db \<Longrightarrow> generation_is sc d' s' r' e' b' db \<Longrightarrow>
     d' = d \<and> s' = s \<and> r' = r \<and> e' = e \<and> b' = b"
  by (auto simp: generation_is_def)

lemma action_generation:
  assumes "generation_is sc d s r e b db" and "action_op sha256 eff a db = Ok ((), db')"
  shows "generation_is sc d s r e b db'"
proof -
  obtain c c' where c: "db_checkpoints db sc = Some c" "db_checkpoints db' sc = Some c'" "row_le c c'"
    using assms(1) action_le [OF assms(2)] by (fastforce simp: generation_is_def db_le_def)
  have "baseline_of sc (db_receipts db') = baseline_of sc (db_receipts db)"
    using assms(2)
  proof (cases rule: action_cases)
    case settled
    then show ?thesis by (auto simp: settles_def baseline_of_def split: option.splits)
  next
    case (created sc' c0 new)
    then have "sc' \<noteq> sc" using c by auto
    then show ?thesis using created by (auto simp: baseline_of_def list_all_iff filter_empty_conv)
  qed simp_all
  then show ?thesis using assms(1) c by (auto simp: generation_is_def row_le_def)
qed

lemma insert_baseline_values:
  "insert_baseline sc xs rows = Ok rows' \<Longrightarrow> baseline_of sc rows' = baseline_of sc rows @ xs"
  by (induction sc xs rows rule: insert_baseline.induct) (auto simp: baseline_of_def split: if_splits)

lemma sql_initialize_generation:
  assumes "receipts_owned db" and "sql_initialize tenant sc s r e ids digests d db = Ok ((), db')"
  shows "generation_is sc d s r e (set (zip ids digests)) db' \<and> (db_checkpoints db sc \<noteq> None \<longrightarrow> db' = db)"
proof (cases "db_checkpoints db sc")
  case None
  then have "baseline_of sc (db_receipts db) = []"
    using assms(1) by (auto simp: receipts_owned_def baseline_of_def list_all_iff filter_empty_conv)
  then show ?thesis using assms(2) None
    by (auto simp: sql_initialize_def and_then_Inr_iff generation_is_def split: if_splits dest!: insert_baseline_values)
next
  case (Some c)
  then show ?thesis using assms(2)
    by (auto simp: sql_initialize_def and_then_Inr_iff generation_is_def split: if_splits)
qed

definition bound_columns :: "replay_bound \<Rightarrow> bool \<times> int option" where
  "bound_columns b = (case b of Live \<Rightarrow> (False, None) | Through e \<Rightarrow> (True, encode_position e))"

definition baseline_columns :: "generation_start \<Rightarrow> (string \<times> bytes) set" where
  "baseline_columns start = set (map (\<lambda>r. (br_id r, br_fingerprint r)) (gs_receipts start))"

lemma encode_position_eq [simp]: "encode_position p = encode_position q \<longleftrightarrow> p = q"
  by (cases p; cases q) (auto simp: encode_position_def)

lemma bound_columns_eq [simp]: "bound_columns b = bound_columns b' \<longleftrightarrow> b = b'"
  by (auto simp: bound_columns_def split: replay_bound.splits)

lemma initialize_op_generation:
  assumes "receipts_owned db" and "initialize_op sc d start bound db = Ok ((), db')"
  shows "generation_is sc d (encode_position (gs_after start)) (fst (bound_columns bound)) (snd (bound_columns bound))
           (baseline_columns start) db' \<and> (db_checkpoints db sc \<noteq> None \<longrightarrow> db' = db)"
proof -
  have zip: "set (zip (map br_id rs) (map br_fingerprint rs)) = set (map (\<lambda>r. (br_id r, br_fingerprint r)) rs)" for rs
    by (simp add: zip_map_map zip_same_conv_map)
  have "sql_initialize (ss_tenant (ps_source sc)) sc (encode_position (gs_after start)) (fst (bound_columns bound))
      (snd (bound_columns bound)) (map br_id (gs_receipts start)) (map br_fingerprint (gs_receipts start)) d db = Ok ((), db')"
    using assms(2) by (cases bound) (auto simp: initialize_op_def bound_columns_def encode_position_def)
  from sql_initialize_generation [OF assms(1) this] show ?thesis
    unfolding zip baseline_columns_def .
qed

text \<open>
  C33. A generation is immutable. After a generation was initialised, every initialisation of
  the same scope that succeeds, after any history of other transactions, names the same
  definition, the same start position, the same replay bound and the same baseline receipts,
  and changes nothing.
\<close>

theorem generation_immutable:
  assumes "initialize_op sc d start bound (run_history sha256 eff h0 (empty_db app)) = Ok ((), db1)"
    and "initialize_op sc d' start' bound' (run_history sha256 eff h db1) = Ok ((), db2)"
  shows "d' = d \<and> gs_after start' = gs_after start \<and> bound' = bound \<and>
         baseline_columns start' = baseline_columns start \<and> db2 = run_history sha256 eff h db1"
proof -
  define cols where "cols = bound_columns bound"
  have owned: "receipts_owned (run_history sha256 eff h0 (empty_db app))" by (rule history_owned)
  note first = initialize_op_generation [OF owned assms(1)]
  have "receipts_owned db1"
  proof -
    obtain s r e ids digests where "sql_initialize (ss_tenant (ps_source sc)) sc s r e ids digests d
        (run_history sha256 eff h0 (empty_db app)) = Ok ((), db1)"
      using assms(1) by (auto simp: initialize_op_def split: prod.splits)
    from sql_initialize_Ok [OF this] owned show ?thesis by (auto simp: receipts_owned_def list_all_iff)
  qed
  then have owned': "receipts_owned (run_history sha256 eff h db1)"
    by (rule run_history_invariant [where P = receipts_owned]) (rule action_owned)
  let ?g = "generation_is sc d (encode_position (gs_after start)) (fst (bound_columns bound))
      (snd (bound_columns bound)) (baseline_columns start)"
  have gen: "?g (run_history sha256 eff h db1)"
    by (rule run_history_invariant [where P = ?g]) (use first action_generation in blast)+
  note second = initialize_op_generation [OF owned' assms(2)]
  have same: "db2 = run_history sha256 eff h db1"
    using second gen by (auto simp: generation_is_def)
  from generation_is_unique [OF gen, of d' "encode_position (gs_after start')"] second same
  have "d' = d" "gs_after start' = gs_after start" "baseline_columns start' = baseline_columns start"
    "fst (bound_columns bound') = fst (bound_columns bound)" "snd (bound_columns bound') = snd (bound_columns bound)"
    by auto
  then show ?thesis using same bound_columns_eq [of bound' bound] by (auto simp: prod_eq_iff)
qed

definition demo_definition :: definition_identity where
  "demo_definition = replicate 32 9"

definition demo_app :: "nat pg_app" where
  "demo_app = \<lparr>app_sources = Map.empty, app_events = [], app_model = 0\<rparr>"

lemma demo_initialize:
  "\<exists>db. initialize_op demo_scope demo_definition gs_beginning Live (empty_db demo_app) = Ok ((), db) \<and>
     initialize_op demo_scope demo_definition gs_beginning Live db = Ok ((), db)"
proof -
  have names: "check_name ''s''" "check_name ''p''" "check_name ''g''"
    by (simp_all add: check_name_def validate_name_def name_byte_def rust_defs)
  show ?thesis
    by (simp add: demo_scope_def demo_source_def demo_definition_def initialize_op_def sql_initialize_def sql_def
        assert_tenant_def checkpoint_checks_def empty_db_def gs_beginning_def encode_position_def baseline_of_def names)
qed

theorem generation_immutable_witness:
  "\<exists>db. initialize_op demo_scope demo_definition gs_beginning Live (empty_db demo_app) = Ok ((), db) \<and>
     (\<forall>start bound db2. initialize_op demo_scope demo_definition start bound db = Ok ((), db2) \<longrightarrow>
        gs_after start = None \<and> bound = Live)"
proof -
  obtain db where db: "initialize_op demo_scope demo_definition gs_beginning Live
      (run_history demo_hash demo_effect [] (empty_db demo_app)) = Ok ((), db)"
      "initialize_op demo_scope demo_definition gs_beginning Live db = Ok ((), db)"
    using demo_initialize by auto
  have "gs_after start = None \<and> bound = Live" if "initialize_op demo_scope demo_definition start bound db = Ok ((), db2)" for start bound db2
    using generation_immutable [OF db(1), of demo_definition start bound "[]" db2] that by (simp add: gs_beginning_def)
  with db(1) show ?thesis by auto
qed

end
