(* ===== verification/Saga_Model.thy ===== *)
theory Saga_Model
  imports Contract_Values
begin

section \<open>Saga model (\<^verbatim>\<open>crates/saga\<close>)\<close>

text \<open>
  The pinned definition (\<^verbatim>\<open>definition.rs\<close>), the finite history accounting (\<^verbatim>\<open>history.rs\<close>) and
  the single replay algorithm of live execution and recovery (\<^verbatim>\<open>model.rs\<close>): the transition of
  the progress projection, the settlement reservation, and the snapshot that replays or admits
  journal events.

  Attempts and revisions are natural numbers with the overflow tests of \<open>checked_add\<close> written
  out. The canonical JSON writer, SHA-256 and the text form of a UUID are parameters.
\<close>

subsection \<open>Errors and resource bounds\<close>

datatype history_limit = DurableCapacity | ReadBudgetLimit | AuthenticationAllowance

datatype saga_error =
  SHistoryLimited history_limit | SHistoryReadLimit | SDefinition | SUnsupportedDefinition
  | SIntegrity | SProtection | SStore | SCommitUnknown | SRollbackUnknown | SFenced | SConflict
  | SCancelled | SDeadline | SEffectUnknown | SInvalidBudget | SStorageContract | SLeaseInput
  | SReceiptUnavailable | SReceiptType

definition u32_checked_succ :: "nat \<Rightarrow> nat option" where
  "u32_checked_succ n = (if n + 1 < 2 ^ 32 then Some (n + 1) else None)"

definition u64_checked :: "nat \<Rightarrow> nat \<Rightarrow> nat option" where
  "u64_checked a b = (if a + b < 2 ^ 64 then Some (a + b) else None)"

definition i64_max_nat :: nat where
  "i64_max_nat = 9223372036854775807"

definition event_bytes :: nat where
  "event_bytes = 256"

definition plaintext_bytes :: nat where
  "plaintext_bytes = 1024 * 1024"

definition aad_bytes :: nat where
  "aad_bytes = 4096"

definition receipt_bytes :: nat where
  "receipt_bytes = 1024 + 6 * (1024 + 64) + 5 * (2 * 1024 * 1024 + 4096 + 32)"

record history_capacity =
  max_entries :: nat
  max_encoded_bytes :: nat

definition history_capacity_new :: "nat \<Rightarrow> nat \<Rightarrow> saga_error + history_capacity" where
  "history_capacity_new entries bytes =
     (if entries = 0 \<or> bytes = 0 \<or> entries > i64_max_nat \<or> bytes > i64_max_nat
      then Err SInvalidBudget
      else Ok \<lparr>max_entries = entries, max_encoded_bytes = bytes\<rparr>)"

definition capacity_contains :: "history_capacity \<Rightarrow> nat \<Rightarrow> nat \<Rightarrow> bool" where
  "capacity_contains c entries bytes \<longleftrightarrow> entries \<le> max_entries c \<and> bytes \<le> max_encoded_bytes c"

definition capacity_extends :: "history_capacity \<Rightarrow> history_capacity \<Rightarrow> bool" where
  "capacity_extends c previous \<longleftrightarrow>
     max_entries c \<ge> max_entries previous \<and> max_encoded_bytes c \<ge> max_encoded_bytes previous \<and>
     c \<noteq> previous"

record read_budget =
  rb_history :: history_capacity
  rb_authentication :: nat

definition read_budget_new :: "history_capacity \<Rightarrow> nat \<Rightarrow> saga_error + read_budget" where
  "read_budget_new h a =
     (if a = 0 \<or> a > i64_max_nat then Err SInvalidBudget
      else Ok \<lparr>rb_history = h, rb_authentication = a\<rparr>)"

definition read_check :: "read_budget \<Rightarrow> nat \<Rightarrow> nat \<Rightarrow> nat \<Rightarrow> saga_error + unit" where
  "read_check r entries bytes receipts =
     (if receipts * plaintext_bytes \<ge> 2 ^ 64 then Err SHistoryReadLimit
      else if \<not> capacity_contains (rb_history r) entries bytes
             \<or> receipts * plaintext_bytes > rb_authentication r then Err SHistoryReadLimit
      else Ok ())"

subsection \<open>Definitions\<close>

record saga_identity =
  id_contract :: string
  id_version :: nat
  id_schema :: string
  id_generation :: string

definition action_generation_parse :: "string \<Rightarrow> saga_error + string" where
  "action_generation_parse v = map_err (\<lambda>_. SDefinition) (schema_digest_parse v)"

record identity_wire =
  iw_contract :: string
  iw_version :: string
  iw_schema :: string
  iw_generation :: string

definition identity_to_wire :: "saga_identity \<Rightarrow> identity_wire" where
  "identity_to_wire i =
     \<lparr>iw_contract = id_contract i, iw_version = contract_version_display (id_version i),
      iw_schema = id_schema i, iw_generation = id_generation i\<rparr>"

definition identity_from_wire :: "identity_wire \<Rightarrow> saga_error + saga_identity" where
  "identity_from_wire w =
     and_then (map_err (\<lambda>_. SDefinition) (contract_id_parse (iw_contract w))) (\<lambda>c.
     and_then (map_err (\<lambda>_. SDefinition) (contract_version_parse (iw_version w))) (\<lambda>v.
     and_then (map_err (\<lambda>_. SDefinition) (schema_digest_parse (iw_schema w))) (\<lambda>s.
     and_then (action_generation_parse (iw_generation w)) (\<lambda>g.
       Ok \<lparr>id_contract = c, id_version = v, id_schema = s, id_generation = g\<rparr>))))"

record step_spec =
  sp_name :: string
  sp_receipt_schema :: string
  sp_forward_scope :: string
  sp_compensation_scope :: string
  sp_max_failures :: nat

definition saga_validate_name :: "string \<Rightarrow> saga_error + unit" where
  "saga_validate_name v =
     (if v = [] \<or> length v > 255 \<or>
         \<not> list_all (\<lambda>b. is_ascii_alphanumeric b \<or> b \<in> set ''_.:-'') v
      then Err SDefinition else Ok ())"

definition step_spec_new ::
  "string \<Rightarrow> string \<Rightarrow> string \<Rightarrow> string \<Rightarrow> nat \<Rightarrow> saga_error + step_spec" where
  "step_spec_new name schema forward compensation failures =
     and_then (saga_validate_name name) (\<lambda>_.
     and_then (saga_validate_name schema) (\<lambda>_.
     and_then (saga_validate_name forward) (\<lambda>_.
     and_then (saga_validate_name compensation) (\<lambda>_.
       if failures = 0 then Err SDefinition
       else Ok \<lparr>sp_name = name, sp_receipt_schema = schema, sp_forward_scope = forward,
                sp_compensation_scope = compensation, sp_max_failures = failures\<rparr>))))"

record saga_definition =
  df_owner :: string
  df_identity :: saga_identity
  df_steps :: "step_spec list"
  df_fingerprint :: bytes

text \<open>The loop over the steps: every step is valid and its name is new.\<close>

fun check_steps :: "string set \<Rightarrow> step_spec list \<Rightarrow> saga_error + unit" where
  "check_steps names [] = Ok ()"
| "check_steps names (s # ss) =
     and_then (step_spec_new (sp_name s) (sp_receipt_schema s) (sp_forward_scope s)
                 (sp_compensation_scope s) (sp_max_failures s)) (\<lambda>_.
       if sp_name s \<in> names then Err SDefinition else check_steps (insert (sp_name s) names) ss)"

type_synonym definition_encoder = "string \<times> saga_identity \<times> step_spec list \<Rightarrow> bytes option"

definition definition_new ::
  "definition_encoder \<Rightarrow> (bytes \<Rightarrow> bytes) \<Rightarrow> string \<Rightarrow> saga_identity \<Rightarrow> step_spec list
     \<Rightarrow> saga_error + saga_definition" where
  "definition_new canon sha256 owner identity steps =
     and_then (saga_validate_name owner) (\<lambda>_.
       if steps = [] \<or> length steps > 1024 then Err SDefinition
       else and_then (check_steps {} steps) (\<lambda>_.
            and_then (ok_or (canon (owner, identity, steps)) SDefinition) (\<lambda>bytes.
              Ok \<lparr>df_owner = owner, df_identity = identity, df_steps = steps,
                  df_fingerprint = sha256 bytes\<rparr>)))"

definition definition_validate ::
  "definition_encoder \<Rightarrow> (bytes \<Rightarrow> bytes) \<Rightarrow> saga_definition \<Rightarrow> saga_error + unit" where
  "definition_validate canon sha256 d =
     and_then (definition_new canon sha256 (df_owner d) (df_identity d) (df_steps d)) (\<lambda>expected.
       if expected \<noteq> d then Err SDefinition else Ok ())"

datatype phase = Forward | Compensation

fun phase_as_str :: "phase \<Rightarrow> string" where
  "phase_as_str Forward = ''forward''"
| "phase_as_str Compensation = ''compensation''"

record saga_scope =
  sg_tenant :: "128 word"
  sg_id :: "128 word"

text \<open>The hash input of \<open>effect_key\<close>: the domain label, then length-prefixed coordinates.\<close>

definition effect_fields ::
  "(128 word \<Rightarrow> string) \<Rightarrow> saga_identity \<Rightarrow> saga_scope \<Rightarrow> step_spec \<Rightarrow> phase \<Rightarrow> bytes list" where
  "effect_fields uuid_text i sc s ph =
     [ascii_bytes (uuid_text (sg_tenant sc)), be_bytes 16 (unat (sg_id sc)),
      ascii_bytes (id_contract i), ascii_bytes (contract_version_display (id_version i)),
      ascii_bytes (id_schema i), ascii_bytes (id_generation i), ascii_bytes (sp_name s),
      ascii_bytes (phase_as_str ph),
      ascii_bytes (case ph of Forward \<Rightarrow> sp_forward_scope s | Compensation \<Rightarrow> sp_compensation_scope s)]"

definition effect_key_input ::
  "(128 word \<Rightarrow> string) \<Rightarrow> saga_identity \<Rightarrow> saga_scope \<Rightarrow> step_spec \<Rightarrow> phase \<Rightarrow> bytes" where
  "effect_key_input uuid_text i sc s ph =
     ascii_bytes ''rss.saga.idempotency-key.v1'' @ framed 8 (effect_fields uuid_text i sc s ph)"

definition effect_key ::
  "(128 word \<Rightarrow> string) \<Rightarrow> (bytes \<Rightarrow> bytes) \<Rightarrow> saga_definition \<Rightarrow> saga_scope \<Rightarrow> nat \<Rightarrow> phase
     \<Rightarrow> saga_error + bytes" where
  "effect_key uuid_text sha256 d sc step ph =
     (if step < length (df_steps d)
      then Ok (sha256 (effect_key_input uuid_text (df_identity d) sc (df_steps d ! step) ph))
      else Err SIntegrity)"

subsection \<open>Journal events and progress\<close>

datatype saga_status = Ready | Running | Compensating | StatusCompensationFailed | Succeeded | Compensated

definition saga_is_terminal :: "saga_status \<Rightarrow> bool" where
  "saga_is_terminal s \<longleftrightarrow> s \<in> {Succeeded, Compensated}"

datatype event_kind =
  ForwardIntent | ForwardApplied | ForwardNotApplied | ForwardProbeNotApplied | Abort
  | CompensationIntent | CompensationApplied | CompensationNotApplied | CompensationFailed | Resume

definition kind_phase :: "event_kind \<Rightarrow> phase" where
  "kind_phase k =
     (if k \<in> {ForwardIntent, ForwardApplied, ForwardNotApplied, ForwardProbeNotApplied, Abort}
      then Forward else Compensation)"

record ciphertext =
  ct_key_ref :: string
  ct_bytes :: bytes

definition ciphertext_new :: "string \<Rightarrow> bytes \<Rightarrow> saga_error + ciphertext" where
  "ciphertext_new key_ref bytes =
     (if key_ref = [] \<or> length key_ref > 1024 \<or> bytes = [] \<or> length bytes > 2 * 1024 * 1024
      then Err SProtection else Ok \<lparr>ct_key_ref = key_ref, ct_bytes = bytes\<rparr>)"

record protected_receipt =
  pr_ciphertext :: ciphertext
  pr_key_id :: string
  pr_digest :: bytes
  pr_aad :: bytes
  pr_format :: nat
  pr_attempt :: nat
  pr_seq :: nat

definition receipt_encoded_bytes :: "protected_receipt \<Rightarrow> saga_error + nat" where
  "receipt_encoded_bytes r =
     (let c = pr_ciphertext r in
      if ct_key_ref c = [] \<or> length (ct_key_ref c) > 1024 \<or> ct_bytes c = []
         \<or> length (ct_bytes c) > 2 * 1024 * 1024 \<or> length (pr_aad r) > aad_bytes
         \<or> pr_key_id r = [] \<or> length (pr_key_id r) > 64 \<or> length (pr_digest r) \<noteq> 32
         \<or> pr_format r \<noteq> 1
      then Err SIntegrity
      else Ok (1024 + 6 * (length (ct_key_ref c) + length (pr_key_id r))
                 + 5 * (length (ct_bytes c) + length (pr_aad r) + length (pr_digest r))))"

record saga_event =
  se_seq :: nat
  se_step :: nat
  se_attempt :: nat
  se_kind :: event_kind
  se_receipt :: "protected_receipt option"

definition event_encoded_bytes :: "saga_event \<Rightarrow> saga_error + nat" where
  "event_encoded_bytes e =
     (case se_receipt e of
        None \<Rightarrow> Ok event_bytes
      | Some r \<Rightarrow> and_then (receipt_encoded_bytes r) (\<lambda>n. Ok (event_bytes + n)))"

record intent =
  it_step :: nat
  it_attempt :: nat
  it_kind :: event_kind

definition intent_event :: "intent \<Rightarrow> nat \<Rightarrow> saga_event" where
  "intent_event i seq =
     \<lparr>se_seq = seq, se_step = it_step i, se_attempt = it_attempt i, se_kind = it_kind i, se_receipt = None\<rparr>"

record progress =
  pg_status :: saga_status
  pg_forward :: nat
  pg_forward_attempt :: nat
  pg_forward_failures :: nat
  pg_compensation :: "nat option"
  pg_compensation_attempt :: nat
  pg_pending :: "intent option"
  pg_last_kind :: "event_kind option"

definition progress_empty :: progress where
  "progress_empty =
     \<lparr>pg_status = Ready, pg_forward = 0, pg_forward_attempt = 0, pg_forward_failures = 0,
      pg_compensation = None, pg_compensation_attempt = 0, pg_pending = None, pg_last_kind = None\<rparr>"

definition progress_reserve :: "progress \<Rightarrow> saga_error + (nat \<times> nat)" where
  "progress_reserve p =
     (if pg_forward p > 1024
         \<or> (case pg_compensation p of None \<Rightarrow> False | Some c \<Rightarrow> c \<ge> 1024)
         \<or> (case pg_pending p of None \<Rightarrow> False
            | Some i \<Rightarrow> it_step i \<ge> 1024 \<or> it_kind i \<notin> {ForwardIntent, CompensationIntent})
      then Err SIntegrity
      else if saga_is_terminal (pg_status p) then Ok (0, 0)
      else (let (entries, receipt) =
              (if pg_status p \<in> {Ready, Running}
               then (2 * pg_forward p + 1 + (if pg_pending p \<noteq> None then 3 else 0), pg_pending p \<noteq> None)
               else (2 * (case pg_compensation p of None \<Rightarrow> 0 | Some c \<Rightarrow> c) +
                       (if pg_pending p \<noteq> None then 1
                        else if pg_compensation_attempt p = 0 \<or> pg_last_kind p = Some Resume then 2
                        else 0), False))
            in Ok (entries, entries * event_bytes + (if receipt then receipt_bytes else 0))))"

definition checked_pred :: "nat \<Rightarrow> nat option" where
  "checked_pred n = (if n = 0 then None else Some (n - 1))"

definition admit :: "saga_event \<Rightarrow> intent" where
  "admit e = \<lparr>it_step = se_step e, it_attempt = se_attempt e, it_kind = se_kind e\<rparr>"

text \<open>The event settles the pending intent of the given kind.\<close>

definition settles_intent :: "progress \<Rightarrow> saga_event \<Rightarrow> event_kind \<Rightarrow> bool" where
  "settles_intent p e k \<longleftrightarrow>
     pg_pending p = Some \<lparr>it_step = se_step e, it_attempt = se_attempt e, it_kind = k\<rparr>"

definition progress_transition :: "saga_definition \<Rightarrow> progress \<Rightarrow> saga_event \<Rightarrow> saga_error + progress" where
  "progress_transition d p e =
     (if saga_is_terminal (pg_status p) \<or> se_step e \<ge> length (df_steps d) \<or> se_attempt e = 0
         \<or> (se_kind e = ForwardApplied) \<noteq> (se_receipt e \<noteq> None)
      then Err SIntegrity
      else and_then
        (case se_kind e of
           ForwardIntent \<Rightarrow>
             if pg_status p \<notin> {Ready, Running} \<or> pg_pending p \<noteq> None \<or> se_step e \<noteq> pg_forward p
                \<or> Some (se_attempt e) \<noteq> u32_checked_succ (pg_forward_attempt p)
                \<or> pg_forward_failures p \<ge> sp_max_failures (df_steps d ! se_step e)
             then Err SIntegrity
             else Ok (p\<lparr>pg_forward_attempt := se_attempt e, pg_pending := Some (admit e), pg_status := Running\<rparr>)
         | ForwardApplied \<Rightarrow>
             if \<not> settles_intent p e ForwardIntent then Err SIntegrity
             else (case se_receipt e of
                     None \<Rightarrow> Err SIntegrity
                   | Some r \<Rightarrow>
                       if pr_attempt r \<noteq> se_attempt e \<or> pr_seq r \<noteq> se_seq e then Err SIntegrity
                       else Ok (p\<lparr>pg_forward := pg_forward p + 1, pg_forward_attempt := 0,
                                 pg_forward_failures := 0, pg_pending := None,
                                 pg_status := (if pg_forward p + 1 = length (df_steps d)
                                               then Succeeded else Running)\<rparr>))
         | ForwardNotApplied \<Rightarrow>
             if \<not> settles_intent p e ForwardIntent then Err SIntegrity
             else (case u32_checked_succ (pg_forward_failures p) of
                     None \<Rightarrow> Err SIntegrity
                   | Some n \<Rightarrow> Ok (p\<lparr>pg_pending := None, pg_forward_failures := n, pg_status := Ready\<rparr>))
         | ForwardProbeNotApplied \<Rightarrow>
             if \<not> settles_intent p e ForwardIntent then Err SIntegrity
             else Ok (p\<lparr>pg_pending := None, pg_status := Ready\<rparr>)
         | Abort \<Rightarrow>
             if pg_status p \<noteq> Ready \<or> pg_pending p \<noteq> None \<or> se_step e \<noteq> pg_forward p
                \<or> se_attempt e \<noteq> pg_forward_attempt p
                \<or> pg_forward_failures p < sp_max_failures (df_steps d ! se_step e)
                \<or> pg_last_kind p \<noteq> Some ForwardNotApplied
             then Err SIntegrity
             else Ok (p\<lparr>pg_compensation := checked_pred (pg_forward p), pg_compensation_attempt := 0,
                       pg_status := (if checked_pred (pg_forward p) = None
                                     then Compensated else Compensating)\<rparr>)
         | CompensationIntent \<Rightarrow>
             if pg_status p \<noteq> Compensating \<or> pg_pending p \<noteq> None \<or> pg_compensation p \<noteq> Some (se_step e)
                \<or> Some (se_attempt e) \<noteq> u32_checked_succ (pg_compensation_attempt p)
             then Err SIntegrity
             else Ok (p\<lparr>pg_compensation_attempt := se_attempt e, pg_pending := Some (admit e)\<rparr>)
         | CompensationApplied \<Rightarrow>
             if pg_status p \<noteq> Compensating \<or> \<not> settles_intent p e CompensationIntent then Err SIntegrity
             else Ok (p\<lparr>pg_pending := None, pg_compensation := checked_pred (se_step e),
                       pg_compensation_attempt := 0,
                       pg_status := (if checked_pred (se_step e) = None
                                     then Compensated else Compensating)\<rparr>)
         | CompensationNotApplied \<Rightarrow>
             if pg_status p \<noteq> Compensating \<or> \<not> settles_intent p e CompensationIntent then Err SIntegrity
             else Ok (p\<lparr>pg_pending := None\<rparr>)
         | CompensationFailed \<Rightarrow>
             if pg_status p \<noteq> Compensating \<or> \<not> settles_intent p e CompensationIntent then Err SIntegrity
             else Ok (p\<lparr>pg_pending := None, pg_status := StatusCompensationFailed\<rparr>)
         | Resume \<Rightarrow>
             if pg_status p \<noteq> StatusCompensationFailed \<or> pg_pending p \<noteq> None
                \<or> pg_compensation p \<noteq> Some (se_step e) \<or> se_attempt e \<noteq> pg_compensation_attempt p
             then Err SIntegrity
             else Ok (p\<lparr>pg_status := Compensating\<rparr>))
        (\<lambda>p'. Ok (p'\<lparr>pg_last_kind := Some (se_kind e)\<rparr>)))"

subsection \<open>History head\<close>

record history_head =
  hh_revision :: nat
  hh_encoded_bytes :: nat
  hh_capacity :: history_capacity
  hh_progress :: progress

definition check_read :: "history_head \<Rightarrow> read_budget \<Rightarrow> saga_error + unit" where
  "check_read h r = read_check r (hh_revision h) (hh_encoded_bytes h) (pg_forward (hh_progress h))"

definition check_capacity :: "history_head \<Rightarrow> saga_error + (nat \<times> nat)" where
  "check_capacity h =
     and_then (progress_reserve (hh_progress h)) (\<lambda>(e, b).
     and_then (ok_or (u64_checked (hh_revision h) e) (SHistoryLimited DurableCapacity)) (\<lambda>entries.
     and_then (ok_or (u64_checked (hh_encoded_bytes h) b) (SHistoryLimited DurableCapacity)) (\<lambda>bytes.
       if \<not> capacity_contains (hh_capacity h) entries bytes then Err (SHistoryLimited DurableCapacity)
       else Ok (entries, bytes))))"

definition check_admission :: "history_head \<Rightarrow> read_budget \<Rightarrow> saga_error + unit" where
  "check_admission h r =
     and_then (check_capacity h) (\<lambda>(entries, bytes).
       map_err (\<lambda>_. SHistoryLimited ReadBudgetLimit)
         (read_check r entries bytes
            (pg_forward (hh_progress h) +
              (if pg_pending (hh_progress h) \<noteq> None \<or> pg_last_kind (hh_progress h) = Some Resume
               then 1 else 0))))"

subsection \<open>Snapshots\<close>

record snapshot =
  sn_definition :: saga_definition
  sn_events :: "saga_event list"
  sn_receipts :: "nat list"
  sn_head :: history_head
  sn_read :: read_budget

definition snapshot_empty ::
  "definition_encoder \<Rightarrow> (bytes \<Rightarrow> bytes) \<Rightarrow> saga_definition \<Rightarrow> history_capacity \<Rightarrow> read_budget
     \<Rightarrow> saga_error + snapshot" where
  "snapshot_empty canon sha256 d c r =
     and_then (definition_validate canon sha256 d) (\<lambda>_.
       Ok \<lparr>sn_definition = d, sn_events = [], sn_receipts = [],
           sn_head = \<lparr>hh_revision = 0, hh_encoded_bytes = 0, hh_capacity = c,
                      hh_progress = progress_empty\<rparr>,
           sn_read = r\<rparr>)"

definition sn_progress :: "snapshot \<Rightarrow> progress" where
  "sn_progress s = hh_progress (sn_head s)"

definition sn_revision :: "snapshot \<Rightarrow> nat" where
  "sn_revision s = hh_revision (sn_head s)"

definition sn_transition :: "snapshot \<Rightarrow> saga_event \<Rightarrow> saga_error + history_head" where
  "sn_transition s e =
     and_then (progress_transition (sn_definition s) (sn_progress s) e) (\<lambda>p.
     and_then (ok_or (u64_checked (sn_revision s) 1) (SHistoryLimited DurableCapacity)) (\<lambda>rev.
     and_then (event_encoded_bytes e) (\<lambda>n.
     and_then (ok_or (u64_checked (hh_encoded_bytes (sn_head s)) n) (SHistoryLimited DurableCapacity)) (\<lambda>bytes.
       Ok \<lparr>hh_revision = rev, hh_encoded_bytes = bytes, hh_capacity = hh_capacity (sn_head s),
           hh_progress = p\<rparr>))))"

definition prepare :: "snapshot \<Rightarrow> saga_event \<Rightarrow> bool \<Rightarrow> saga_error + history_head" where
  "prepare s e admission =
     (if se_seq e \<noteq> sn_revision s then Err (if admission then SConflict else SIntegrity)
      else and_then (sn_transition s e) (\<lambda>after.
           and_then (if admission then check_admission after (sn_read s) else check_read after (sn_read s))
             (\<lambda>_. Ok after)))"

definition accept :: "saga_event \<Rightarrow> history_head \<Rightarrow> snapshot \<Rightarrow> snapshot" where
  "accept e h s =
     s\<lparr>sn_receipts := (if se_kind e = ForwardApplied then sn_receipts s @ [length (sn_events s)]
                       else sn_receipts s),
       sn_events := sn_events s @ [e], sn_head := h\<rparr>"

definition sn_replay :: "snapshot \<Rightarrow> saga_event \<Rightarrow> saga_error + snapshot" where
  "sn_replay s e = and_then (prepare s e False) (\<lambda>h. Ok (accept e h s))"

definition sn_apply :: "snapshot \<Rightarrow> saga_event \<Rightarrow> saga_error + snapshot" where
  "sn_apply s e = and_then (prepare s e True) (\<lambda>h. Ok (accept e h s))"

definition sn_receipt :: "snapshot \<Rightarrow> nat \<Rightarrow> saga_error + saga_event" where
  "sn_receipt s step =
     (if step < length (sn_receipts s) \<and> sn_receipts s ! step < length (sn_events s)
      then Ok (sn_events s ! (sn_receipts s ! step)) else Err SReceiptUnavailable)"

definition extend_capacity ::
  "snapshot \<Rightarrow> history_capacity \<Rightarrow> history_capacity \<Rightarrow> saga_error + snapshot" where
  "extend_capacity s expected next =
     (if hh_capacity (sn_head s) \<noteq> expected \<or> \<not> capacity_extends next expected then Err SConflict
      else Ok (s\<lparr>sn_head := (sn_head s)\<lparr>hh_capacity := next\<rparr>\<rparr>))"

definition with_read_budget :: "snapshot \<Rightarrow> read_budget \<Rightarrow> saga_error + snapshot" where
  "with_read_budget s r = and_then (check_read (sn_head s) r) (\<lambda>_. Ok (s\<lparr>sn_read := r\<rparr>))"

definition next_event :: "snapshot \<Rightarrow> saga_error + saga_event option" where
  "next_event s =
     (let p = sn_progress s; mk = (\<lambda>step attempt kind.
            map_option (\<lambda>a. \<lparr>se_seq = sn_revision s, se_step = step, se_attempt = a,
                            se_kind = kind, se_receipt = None\<rparr>) attempt)
      in if pg_status p = Compensating then
           and_then (ok_or (pg_compensation p) SIntegrity) (\<lambda>step.
             Ok (mk step (u32_checked_succ (pg_compensation_attempt p)) CompensationIntent))
         else if pg_forward p \<ge> length (df_steps (sn_definition s)) then Err SIntegrity
         else if pg_forward_failures p \<ge> sp_max_failures (df_steps (sn_definition s) ! pg_forward p)
         then Ok (mk (pg_forward p) (Some (pg_forward_attempt p)) Abort)
         else Ok (mk (pg_forward p) (u32_checked_succ (pg_forward_attempt p)) ForwardIntent))"

datatype candidate_filter = Runnable | CapacityBlocked

definition candidate_filter_of :: "snapshot \<Rightarrow> saga_error + candidate_filter option" where
  "candidate_filter_of s =
     (if saga_is_terminal (pg_status (sn_progress s)) \<or> pg_status (sn_progress s) = StatusCompensationFailed
      then Ok None
      else if pg_pending (sn_progress s) \<noteq> None then Ok (Some Runnable)
      else and_then (next_event s) (\<lambda>next.
        case next of
          None \<Rightarrow> Ok None
        | Some e \<Rightarrow>
            and_then (sn_transition s e) (\<lambda>h.
              case check_capacity h of
                Inr _ \<Rightarrow> Ok (Some Runnable)
              | Inl k \<Rightarrow> if k = SHistoryLimited DurableCapacity then Ok (Some CapacityBlocked) else Err k)))"

subsection \<open>Transitions\<close>

text \<open>The accepted transitions, one case per kind of event.\<close>

lemma progress_transition_cases:
  assumes "progress_transition d p e = Ok q"
  obtains (fwd_intent) "se_kind e = ForwardIntent" "pg_status p \<in> {Ready, Running}" "pg_pending p = None"
      "se_step e = pg_forward p" "u32_checked_succ (pg_forward_attempt p) = Some (se_attempt e)"
      "pg_forward_failures p < sp_max_failures (df_steps d ! se_step e)" "pg_forward p < length (df_steps d)" "se_receipt e = None"
      "q = p\<lparr>pg_forward_attempt := se_attempt e, pg_pending := Some (admit e), pg_status := Running, pg_last_kind := Some ForwardIntent\<rparr>"
  | (fwd_applied) r where "se_kind e = ForwardApplied" "\<not> saga_is_terminal (pg_status p)" "settles_intent p e ForwardIntent" "se_receipt e = Some r"
      "pr_attempt r = se_attempt e" "pr_seq r = se_seq e"
      "q = p\<lparr>pg_forward := pg_forward p + 1, pg_forward_attempt := 0, pg_forward_failures := 0, pg_pending := None,
             pg_status := (if pg_forward p + 1 = length (df_steps d) then Succeeded else Running), pg_last_kind := Some ForwardApplied\<rparr>"
  | (fwd_not_applied) m where "se_kind e = ForwardNotApplied" "\<not> saga_is_terminal (pg_status p)" "settles_intent p e ForwardIntent" "se_receipt e = None"
      "u32_checked_succ (pg_forward_failures p) = Some m"
      "q = p\<lparr>pg_pending := None, pg_forward_failures := m, pg_status := Ready, pg_last_kind := Some ForwardNotApplied\<rparr>"
  | (fwd_probe) "se_kind e = ForwardProbeNotApplied" "\<not> saga_is_terminal (pg_status p)" "settles_intent p e ForwardIntent" "se_receipt e = None"
      "q = p\<lparr>pg_pending := None, pg_status := Ready, pg_last_kind := Some ForwardProbeNotApplied\<rparr>"
  | (abort) "se_kind e = Abort" "pg_status p = Ready" "pg_pending p = None" "se_step e = pg_forward p" "pg_forward p < length (df_steps d)"
      "sp_max_failures (df_steps d ! pg_forward p) \<le> pg_forward_failures p" "se_receipt e = None"
      "pg_last_kind p = Some ForwardNotApplied" "se_attempt e = pg_forward_attempt p"
      "q = p\<lparr>pg_compensation := checked_pred (pg_forward p), pg_compensation_attempt := 0,
             pg_status := (if pg_forward p = 0 then Compensated else Compensating), pg_last_kind := Some Abort\<rparr>"
  | (comp_intent) "se_kind e = CompensationIntent" "pg_status p = Compensating" "pg_pending p = None" "pg_compensation p = Some (se_step e)"
      "u32_checked_succ (pg_compensation_attempt p) = Some (se_attempt e)" "se_receipt e = None"
      "q = p\<lparr>pg_compensation_attempt := se_attempt e, pg_pending := Some (admit e), pg_last_kind := Some CompensationIntent\<rparr>"
  | (comp_applied) "se_kind e = CompensationApplied" "pg_status p = Compensating" "settles_intent p e CompensationIntent" "se_receipt e = None"
      "q = p\<lparr>pg_pending := None, pg_compensation := checked_pred (se_step e), pg_compensation_attempt := 0,
             pg_status := (if se_step e = 0 then Compensated else Compensating), pg_last_kind := Some CompensationApplied\<rparr>"
  | (comp_not_applied) "se_kind e = CompensationNotApplied" "pg_status p = Compensating" "settles_intent p e CompensationIntent" "se_receipt e = None"
      "q = p\<lparr>pg_pending := None, pg_last_kind := Some CompensationNotApplied\<rparr>"
  | (comp_failed) "se_kind e = CompensationFailed" "pg_status p = Compensating" "settles_intent p e CompensationIntent" "se_receipt e = None"
      "q = p\<lparr>pg_pending := None, pg_status := StatusCompensationFailed, pg_last_kind := Some CompensationFailed\<rparr>"
  | (resume) "se_kind e = Resume" "pg_status p = StatusCompensationFailed" "pg_pending p = None" "pg_compensation p = Some (se_step e)"
      "se_attempt e = pg_compensation_attempt p" "se_receipt e = None"
      "q = p\<lparr>pg_status := Compensating, pg_last_kind := Some Resume\<rparr>"
proof (cases "se_kind e")
  case ForwardIntent
  with assms show ?thesis
    by (intro fwd_intent) (auto simp: progress_transition_def and_then_Inr_iff split: if_splits)
next
  case ForwardApplied
  with assms obtain r where "se_receipt e = Some r" by (auto simp: progress_transition_def split: if_splits)
  with ForwardApplied assms show ?thesis
    by (intro fwd_applied [of r]) (auto simp: progress_transition_def and_then_Inr_iff split: if_splits)
next
  case ForwardNotApplied
  with assms obtain m where "u32_checked_succ (pg_forward_failures p) = Some m"
    by (auto simp: progress_transition_def and_then_Inr_iff split: if_splits option.splits)
  with ForwardNotApplied assms show ?thesis
    by (intro fwd_not_applied [of m]) (auto simp: progress_transition_def and_then_Inr_iff split: if_splits)
next
  case ForwardProbeNotApplied
  with assms show ?thesis
    by (intro fwd_probe) (auto simp: progress_transition_def and_then_Inr_iff split: if_splits)
next
  case Abort
  with assms show ?thesis
    by (intro abort) (auto simp: progress_transition_def and_then_Inr_iff checked_pred_def split: if_splits)
next
  case CompensationIntent
  with assms show ?thesis
    by (intro comp_intent) (auto simp: progress_transition_def and_then_Inr_iff split: if_splits)
next
  case CompensationApplied
  with assms show ?thesis
    by (intro comp_applied) (auto simp: progress_transition_def and_then_Inr_iff checked_pred_def split: if_splits)
next
  case CompensationNotApplied
  with assms show ?thesis
    by (intro comp_not_applied) (auto simp: progress_transition_def and_then_Inr_iff split: if_splits)
next
  case CompensationFailed
  with assms show ?thesis
    by (intro comp_failed) (auto simp: progress_transition_def and_then_Inr_iff split: if_splits)
next
  case Resume
  with assms show ?thesis
    by (intro resume) (auto simp: progress_transition_def and_then_Inr_iff split: if_splits)
qed

subsection \<open>Progress invariant\<close>

definition definition_ok :: "saga_definition \<Rightarrow> bool" where
  "definition_ok d \<longleftrightarrow>
     df_steps d \<noteq> [] \<and> length (df_steps d) \<le> 1024 \<and> list_all (\<lambda>s. 0 < sp_max_failures s) (df_steps d)"

abbreviation step_limit :: "saga_definition \<Rightarrow> progress \<Rightarrow> nat" where
  "step_limit d p \<equiv> sp_max_failures (df_steps d ! pg_forward p)"

text \<open>
  Moving forward: the failures of the current step stay within its limit, and once they
  reach it nothing but the abort is left.
\<close>

definition forward_phase :: "saga_definition \<Rightarrow> progress \<Rightarrow> bool" where
  "forward_phase d p \<longleftrightarrow>
     pg_forward p < length (df_steps d) \<and> pg_compensation p = None \<and>
     (pg_forward_failures p < step_limit d p \<or>
      pg_forward_failures p = step_limit d p \<and> pg_status p = Ready \<and>
      pg_last_kind p = Some ForwardNotApplied \<and> 0 < pg_forward_attempt p)"

definition reverse_phase :: "saga_definition \<Rightarrow> progress \<Rightarrow> bool" where
  "reverse_phase d p \<longleftrightarrow>
     pg_forward p < length (df_steps d) \<and> pg_forward_failures p \<le> step_limit d p \<and>
     (case pg_compensation p of None \<Rightarrow> False | Some c \<Rightarrow> c < pg_forward p)"

definition progress_ok :: "saga_definition \<Rightarrow> progress \<Rightarrow> bool" where
  "progress_ok d p \<longleftrightarrow>
     (case pg_status p of
        Ready \<Rightarrow> forward_phase d p \<and> pg_pending p = None
      | Running \<Rightarrow> forward_phase d p \<and>
          (pg_pending p = None \<or> 0 < pg_forward_attempt p \<and>
           pg_pending p = Some \<lparr>it_step = pg_forward p, it_attempt = pg_forward_attempt p, it_kind = ForwardIntent\<rparr>)
      | Compensating \<Rightarrow> reverse_phase d p \<and>
          (pg_pending p = None \<or> 0 < pg_compensation_attempt p \<and>
           pg_pending p = Some \<lparr>it_step = the (pg_compensation p), it_attempt = pg_compensation_attempt p,
                               it_kind = CompensationIntent\<rparr>)
      | StatusCompensationFailed \<Rightarrow> reverse_phase d p \<and> pg_pending p = None \<and> 0 < pg_compensation_attempt p
      | Succeeded \<Rightarrow> pg_forward p = length (df_steps d) \<and> pg_compensation p = None \<and> pg_pending p = None
      | Compensated \<Rightarrow> pg_forward p < length (df_steps d) \<and> pg_forward_failures p \<le> step_limit d p \<and>
          pg_compensation p = None \<and> pg_pending p = None)"

lemma checked_pred_simps [simp]:
  "checked_pred 0 = None"
  "checked_pred (Suc n) = Some n"
  by (simp_all add: checked_pred_def)

lemma u32_checked_succ_Some: "u32_checked_succ n = Some m \<Longrightarrow> m = Suc n"
  by (auto simp: u32_checked_succ_def split: if_splits)

lemma definition_ok_limit: "definition_ok d \<Longrightarrow> i < length (df_steps d) \<Longrightarrow> 0 < sp_max_failures (df_steps d ! i)"
  by (auto simp: definition_ok_def list_all_length)

text \<open>A pending intent identifies its phase.\<close>

lemma settles_forward:
  assumes "progress_ok d p" and "settles_intent p e ForwardIntent"
  shows "pg_status p = Running \<and> se_step e = pg_forward p \<and> se_attempt e = pg_forward_attempt p \<and>
         0 < pg_forward_attempt p \<and> pg_pending p \<noteq> None \<and>
         pg_forward p < length (df_steps d) \<and> pg_compensation p = None \<and> pg_forward_failures p < step_limit d p"
  using assms by (auto simp: progress_ok_def settles_intent_def forward_phase_def split: saga_status.splits)

lemma settles_reverse:
  assumes "progress_ok d p" and "settles_intent p e CompensationIntent"
  shows "pg_status p = Compensating \<and> pg_compensation p = Some (se_step e) \<and>
         0 < pg_compensation_attempt p \<and> pg_pending p \<noteq> None \<and>
         se_step e < pg_forward p \<and> pg_forward p < length (df_steps d) \<and> pg_forward_failures p \<le> step_limit d p"
  using assms by (auto simp: progress_ok_def settles_intent_def reverse_phase_def split: saga_status.splits option.splits)

lemma progress_transition_ok:
  assumes "definition_ok d" and ok: "progress_ok d p" and step: "progress_transition d p e = Ok q"
  shows "progress_ok d q"
  using step
proof (cases rule: progress_transition_cases)
  case fwd_intent
  then show ?thesis using ok
    by (auto simp: progress_ok_def forward_phase_def admit_def dest!: u32_checked_succ_Some)
next
  case (fwd_applied r)
  with settles_forward [OF ok fwd_applied(3)] definition_ok_limit [OF assms(1), of "Suc (pg_forward p)"] show ?thesis
    by (auto simp: progress_ok_def forward_phase_def)
next
  case (fwd_not_applied m)
  with settles_forward [OF ok fwd_not_applied(3)] show ?thesis
    by (auto simp: progress_ok_def forward_phase_def dest!: u32_checked_succ_Some)
next
  case fwd_probe
  with settles_forward [OF ok] show ?thesis
    by (auto simp: progress_ok_def forward_phase_def)
next
  case abort
  then show ?thesis using ok
    by (cases "pg_forward p") (auto simp: progress_ok_def forward_phase_def reverse_phase_def)
next
  case comp_intent
  then show ?thesis using ok
    by (auto simp: progress_ok_def reverse_phase_def admit_def dest!: u32_checked_succ_Some)
next
  case comp_applied
  with settles_reverse [OF ok comp_applied(3)] show ?thesis
    by (cases "se_step e") (auto simp: progress_ok_def reverse_phase_def)
next
  case comp_not_applied
  with settles_reverse [OF ok comp_not_applied(3)] show ?thesis by (auto simp: progress_ok_def reverse_phase_def)
next
  case comp_failed
  with settles_reverse [OF ok comp_failed(3)] show ?thesis by (auto simp: progress_ok_def reverse_phase_def)
next
  case resume
  then show ?thesis using ok by (auto simp: progress_ok_def reverse_phase_def)
qed

lemma progress_empty_ok: "definition_ok d \<Longrightarrow> progress_ok d progress_empty"
  using definition_ok_limit [of d 0]
  by (auto simp: progress_empty_def progress_ok_def forward_phase_def definition_ok_def)

subsection \<open>Journal invariant\<close>

definition steps_of :: "event_kind \<Rightarrow> saga_event list \<Rightarrow> nat list" where
  "steps_of k es = map se_step (filter (\<lambda>e. se_kind e = k) es)"

lemma steps_of_simps [simp]:
  "steps_of k [] = []"
  "steps_of k (es @ [e]) = steps_of k es @ (if se_kind e = k then [se_step e] else [])"
  by (simp_all add: steps_of_def)

text \<open>The steps whose compensation is confirmed, most recent step first.\<close>

definition undone :: "progress \<Rightarrow> nat list" where
  "undone p =
     (case pg_status p of
        Compensated \<Rightarrow> rev [0..<pg_forward p]
      | Compensating \<Rightarrow> rev [Suc (the (pg_compensation p))..<pg_forward p]
      | StatusCompensationFailed \<Rightarrow> rev [Suc (the (pg_compensation p))..<pg_forward p]
      | _ \<Rightarrow> [])"

definition failures_at :: "nat \<Rightarrow> saga_event list \<Rightarrow> nat" where
  "failures_at i es = count_list (steps_of ForwardNotApplied es) i"

definition failure_limit :: "saga_definition \<Rightarrow> nat \<Rightarrow> nat \<Rightarrow> nat \<Rightarrow> nat" where
  "failure_limit d forward failures i =
     (if i < forward then sp_max_failures (df_steps d ! i) else if i = forward then failures else 0)"

definition journal_inv :: "saga_definition \<Rightarrow> saga_event list \<Rightarrow> progress \<Rightarrow> bool" where
  "journal_inv d es p \<longleftrightarrow>
     steps_of ForwardApplied es = [0..<pg_forward p] \<and>
     steps_of CompensationApplied es = undone p \<and>
     (\<forall>i. failures_at i es \<le> failure_limit d (pg_forward p) (pg_forward_failures p) i)"

lemma failures_at_snoc [simp]:
  "failures_at i (es @ [e]) = failures_at i es + (if se_kind e = ForwardNotApplied \<and> se_step e = i then 1 else 0)"
  by (simp add: failures_at_def count_list_append)

lemma rev_upt_Suc: "c < n \<Longrightarrow> rev [Suc c..<n] @ [c] = rev [c..<n]"
  by (simp add: upt_conv_Cons)

lemma journal_inv_empty: "journal_inv d [] progress_empty"
  by (simp add: journal_inv_def progress_empty_def undone_def failures_at_def)

lemma journal_inv_step:
  assumes "definition_ok d" and ok: "progress_ok d p" and inv: "journal_inv d es p"
    and step: "progress_transition d p e = Ok q"
  shows "journal_inv d (es @ [e]) q"
  using step
proof (cases rule: progress_transition_cases)
  case fwd_intent
  then show ?thesis using inv ok
    by (auto simp: journal_inv_def undone_def progress_ok_def)
next
  case (fwd_applied r)
  then have f: "pg_status p = Running" "se_step e = pg_forward p" "pg_forward_failures p < step_limit d p"
    using settles_forward [OF ok] by auto
  have "failures_at i es \<le> failure_limit d (Suc (pg_forward p)) 0 i" for i
  proof -
    have "failures_at i es \<le> failure_limit d (pg_forward p) (pg_forward_failures p) i"
      using inv by (simp add: journal_inv_def)
    also have "\<dots> \<le> failure_limit d (Suc (pg_forward p)) 0 i"
      using f(3) by (auto simp: failure_limit_def less_Suc_eq)
    finally show ?thesis .
  qed
  with fwd_applied f inv show ?thesis by (auto simp: journal_inv_def undone_def)
next
  case (fwd_not_applied m)
  then have f: "pg_status p = Running" "se_step e = pg_forward p" "pg_forward_failures p < step_limit d p" "m = Suc (pg_forward_failures p)"
    using settles_forward [OF ok] by (auto dest: u32_checked_succ_Some)
  have "failures_at i es + (if pg_forward p = i then 1 else 0) \<le> failure_limit d (pg_forward p) m i" for i
  proof -
    have "failures_at i es \<le> failure_limit d (pg_forward p) (pg_forward_failures p) i"
      using inv by (simp add: journal_inv_def)
    then show ?thesis using f(4) by (auto simp: failure_limit_def)
  qed
  with fwd_not_applied f inv show ?thesis by (auto simp: journal_inv_def undone_def)
next
  case fwd_probe
  then show ?thesis using inv settles_forward [OF ok] by (auto simp: journal_inv_def undone_def)
next
  case abort
  then show ?thesis using inv ok
    by (cases "pg_forward p") (auto simp: journal_inv_def undone_def)
next
  case comp_intent
  then show ?thesis using inv by (auto simp: journal_inv_def undone_def)
next
  case comp_applied
  with settles_reverse [OF ok comp_applied(3)] inv show ?thesis
    by (cases "se_step e") (auto simp: journal_inv_def undone_def rev_upt_Suc)
next
  case comp_not_applied
  then show ?thesis using inv by (auto simp: journal_inv_def undone_def)
next
  case comp_failed
  then show ?thesis using inv by (auto simp: journal_inv_def undone_def)
next
  case resume
  then show ?thesis using inv by (auto simp: journal_inv_def undone_def)
qed

subsection \<open>Snapshots\<close>

text \<open>
  The invariant of every snapshot that replay or admission can build: the journal is numbered
  by position, the head counts it, the receipt references point at the completed forward
  events in step order, and the projection is the one of the journal.
\<close>

definition receipts_inv :: "saga_event list \<Rightarrow> nat list \<Rightarrow> bool" where
  "receipts_inv es refs \<longleftrightarrow>
     list_all2 (\<lambda>i j. j < length es \<and> se_kind (es ! j) = ForwardApplied \<and> se_step (es ! j) = i \<and>
                      se_seq (es ! j) = j \<and> se_receipt (es ! j) \<noteq> None)
       [0..<length refs] refs"

definition snapshot_inv :: "snapshot \<Rightarrow> bool" where
  "snapshot_inv s \<longleftrightarrow>
     definition_ok (sn_definition s) \<and> progress_ok (sn_definition s) (sn_progress s) \<and>
     journal_inv (sn_definition s) (sn_events s) (sn_progress s) \<and>
     sn_revision s = length (sn_events s) \<and> map se_seq (sn_events s) = [0..<length (sn_events s)] \<and>
     length (sn_receipts s) = pg_forward (sn_progress s) \<and> receipts_inv (sn_events s) (sn_receipts s)"

lemma sn_transition_Ok:
  assumes "sn_transition s e = Ok h"
  shows "progress_transition (sn_definition s) (sn_progress s) e = Ok (hh_progress h) \<and>
         hh_revision h = Suc (sn_revision s) \<and> hh_capacity h = hh_capacity (sn_head s) \<and>
         (\<exists>n. event_encoded_bytes e = Ok n \<and> hh_encoded_bytes h = hh_encoded_bytes (sn_head s) + n)"
  using assms by (auto simp: sn_transition_def and_then_Inr_iff u64_checked_def split: if_splits)

lemma prepare_Ok:
  "prepare s e admission = Ok h \<Longrightarrow> se_seq e = sn_revision s \<and> sn_transition s e = Ok h \<and>
     (if admission then check_admission h (sn_read s) = Ok () else check_read h (sn_read s) = Ok ())"
  by (auto simp: prepare_def and_then_Inr_iff split: if_splits)

lemma receipts_inv_mono: "receipts_inv es refs \<Longrightarrow> receipts_inv (es @ [e]) refs"
  by (auto simp: receipts_inv_def nth_append elim!: list_all2_mono)

lemma receipts_inv_snoc:
  assumes "receipts_inv es refs" and "se_kind e = ForwardApplied" "se_step e = length refs" "se_seq e = length es" "se_receipt e \<noteq> None"
  shows "receipts_inv (es @ [e]) (refs @ [length es])"
  using receipts_inv_mono [OF assms(1), of e] assms(2-)
  by (simp add: receipts_inv_def list_all2_append)

lemma accept_inv:
  assumes inv: "snapshot_inv s" and prep: "prepare s e admission = Ok h"
  shows "snapshot_inv (accept e h s)"
proof -
  note p = prepare_Ok [OF prep]
  note t = sn_transition_Ok [of s e h]
  have step: "progress_transition (sn_definition s) (sn_progress s) e = Ok (hh_progress h)" using p t by blast
  have ok: "progress_ok (sn_definition s) (sn_progress s)" "definition_ok (sn_definition s)" using inv by (auto simp: snapshot_inv_def)
  have applied: "se_step e = pg_forward (sn_progress s) \<and> pg_forward (hh_progress h) = Suc (pg_forward (sn_progress s)) \<and> se_receipt e \<noteq> None"
    if "se_kind e = ForwardApplied"
    using step
    by (cases rule: progress_transition_cases) (use that settles_forward [OF ok(1)] in auto)
  have same: "pg_forward (hh_progress h) = pg_forward (sn_progress s)" if "se_kind e \<noteq> ForwardApplied"
    using step by (cases rule: progress_transition_cases) (use that in auto)
  have refs: "receipts_inv (sn_events s @ [e]) (if se_kind e = ForwardApplied then sn_receipts s @ [length (sn_events s)] else sn_receipts s)"
    using inv applied p by (auto simp: snapshot_inv_def intro: receipts_inv_snoc receipts_inv_mono)
  show ?thesis
    using inv p t applied same refs progress_transition_ok [OF ok(2,1) step] journal_inv_step [OF ok(2,1) _ step]
    by (auto simp: snapshot_inv_def accept_def sn_progress_def sn_revision_def)
qed

text \<open>The input of a snapshot: an event to replay or to admit, growth, or another reader.\<close>

datatype saga_input = InReplay saga_event | InApply saga_event | InExtend history_capacity history_capacity | InRead read_budget

fun saga_step :: "snapshot \<Rightarrow> saga_input \<Rightarrow> saga_error + snapshot" where
  "saga_step s (InReplay e) = sn_replay s e"
| "saga_step s (InApply e) = sn_apply s e"
| "saga_step s (InExtend expected grown) = extend_capacity s expected grown"
| "saga_step s (InRead r) = with_read_budget s r"

lemma accept_revision: "prepare s e admission = Ok h \<Longrightarrow> sn_revision (accept e h s) = Suc (sn_revision s)"
  by (auto simp: accept_def sn_revision_def dest!: prepare_Ok sn_transition_Ok)

lemma saga_step_inv:
  assumes "snapshot_inv s" and "saga_step s i = Ok s'"
  shows "snapshot_inv s' \<and> sn_revision s \<le> sn_revision s'"
proof (cases i)
  case (InReplay e)
  then obtain h where "prepare s e False = Ok h" "s' = accept e h s"
    using assms(2) by (auto simp: sn_replay_def and_then_Inr_iff)
  then show ?thesis using accept_inv [OF assms(1)] accept_revision by simp
next
  case (InApply e)
  then obtain h where "prepare s e True = Ok h" "s' = accept e h s"
    using assms(2) by (auto simp: sn_apply_def and_then_Inr_iff)
  then show ?thesis using accept_inv [OF assms(1)] accept_revision by simp
next
  case (InExtend expected grown)
  then show ?thesis using assms
    by (auto simp: extend_capacity_def snapshot_inv_def sn_progress_def sn_revision_def split: if_splits)
next
  case (InRead r)
  then show ?thesis using assms
    by (auto simp: with_read_budget_def and_then_Inr_iff snapshot_inv_def sn_progress_def sn_revision_def)
qed

interpretation saga: reducer saga_step snapshot_inv sn_revision
  by unfold_locales (auto dest: saga_step_inv)

lemma check_steps_limits: "check_steps names ss = Ok () \<Longrightarrow> list_all (\<lambda>s. 0 < sp_max_failures s) ss"
  by (induction names ss rule: check_steps.induct)
    (auto simp: and_then_Inr_iff step_spec_new_def split: if_splits)

lemma definition_validate_ok: "definition_validate canon sha256 d = Ok () \<Longrightarrow> definition_ok d"
  by (auto simp: definition_validate_def definition_new_def definition_ok_def and_then_Inr_iff check_steps_limits split: if_splits)

lemma snapshot_empty_inv: "snapshot_empty canon sha256 d c r = Ok s \<Longrightarrow> snapshot_inv s"
  by (auto simp: snapshot_empty_def and_then_Inr_iff snapshot_inv_def sn_progress_def sn_revision_def receipts_inv_def
      journal_inv_empty progress_empty_ok dest!: definition_validate_ok) (simp add: progress_empty_def)

lemma reachable_inv:
  "snapshot_empty canon sha256 d c r = Ok s \<Longrightarrow> snapshot_inv (run_inputs saga_step s is)"
  by (intro saga.run_valid snapshot_empty_inv)

lemma saga_step_definition: "saga_step s i = Ok s' \<Longrightarrow> sn_definition s' = sn_definition s"
  by (cases i) (auto simp: sn_replay_def sn_apply_def extend_capacity_def with_read_budget_def and_then_Inr_iff accept_def split: if_splits)

lemma run_definition: "sn_definition (run_inputs saga_step s is) = sn_definition s"
proof (induction "is" arbitrary: s)
  case (Cons i "is")
  have "sn_definition (keep_on_err s (saga_step s i)) = sn_definition s"
    by (cases "saga_step s i") (auto dest: saga_step_definition)
  then show ?case by (simp add: Cons.IH)
qed simp

subsection \<open>Reservation\<close>

text \<open>What a well-formed projection reserves.\<close>

definition reserve_entries :: "progress \<Rightarrow> nat" where
  "reserve_entries p =
     (case pg_status p of
        Succeeded \<Rightarrow> 0 | Compensated \<Rightarrow> 0
      | Ready \<Rightarrow> 2 * pg_forward p + 1
      | Running \<Rightarrow> 2 * pg_forward p + (if pg_pending p = None then 1 else 4)
      | _ \<Rightarrow> 2 * the (pg_compensation p) +
          (if pg_pending p \<noteq> None then 1
           else if pg_compensation_attempt p = 0 \<or> pg_last_kind p = Some Resume then 2 else 0))"

definition reserve_bytes :: "progress \<Rightarrow> nat" where
  "reserve_bytes p =
     reserve_entries p * event_bytes + (if pg_status p = Running \<and> pg_pending p \<noteq> None then receipt_bytes else 0)"

lemma progress_reserve_ok:
  assumes "definition_ok d" and "progress_ok d p"
  shows "progress_reserve p = Ok (reserve_entries p, reserve_bytes p)"
  using assms
  by (auto simp: progress_reserve_def reserve_entries_def reserve_bytes_def saga_is_terminal_def progress_ok_def
      forward_phase_def reverse_phase_def definition_ok_def event_bytes_def Let_def
      split: saga_status.splits option.splits)

lemma receipt_encoded_le: "receipt_encoded_bytes r = Ok n \<Longrightarrow> n \<le> receipt_bytes"
  by (auto simp: receipt_encoded_bytes_def receipt_bytes_def aad_bytes_def Let_def split: if_splits)

lemma event_encoded_cases:
  assumes "event_encoded_bytes e = Ok n"
  shows "(se_receipt e = None \<longrightarrow> n = event_bytes) \<and> n \<le> event_bytes + receipt_bytes"
  using assms by (auto simp: event_encoded_bytes_def and_then_Inr_iff split: option.splits dest: receipt_encoded_le)

text \<open>
  Events that settle an admitted obligation, as opposed to the ones that take on a new one: a
  forward intent, a resume, and a repeated compensation intent.
\<close>

definition settlement :: "progress \<Rightarrow> saga_event \<Rightarrow> bool" where
  "settlement p e \<longleftrightarrow>
     se_kind e \<notin> {ForwardIntent, Resume, CompensationIntent} \<or>
     se_kind e = CompensationIntent \<and> (pg_compensation_attempt p = 0 \<or> pg_last_kind p = Some Resume)"

lemma reserve_entries_step:
  assumes "progress_ok d p" and "progress_transition d p e = Ok q" and "settlement p e"
  shows "Suc (reserve_entries q) \<le> reserve_entries p"
  using assms(2)
proof (cases rule: progress_transition_cases)
  case (fwd_applied r)
  with settles_forward [OF assms(1) fwd_applied(3)] show ?thesis by (auto simp: reserve_entries_def)
next
  case (fwd_not_applied m)
  with settles_forward [OF assms(1) fwd_not_applied(3)] show ?thesis by (auto simp: reserve_entries_def)
next
  case fwd_probe
  with settles_forward [OF assms(1) fwd_probe(3)] show ?thesis by (auto simp: reserve_entries_def)
next
  case abort
  then show ?thesis by (cases "pg_forward p") (auto simp: reserve_entries_def)
next
  case comp_intent
  then show ?thesis using assms(3) by (auto simp: reserve_entries_def settlement_def admit_def)
next
  case comp_applied
  with settles_reverse [OF assms(1) comp_applied(3)] show ?thesis
    by (cases "se_step e") (auto simp: reserve_entries_def)
next
  case comp_not_applied
  with settles_reverse [OF assms(1) comp_not_applied(3)] show ?thesis by (auto simp: reserve_entries_def)
next
  case comp_failed
  with settles_reverse [OF assms(1) comp_failed(3)] show ?thesis by (auto simp: reserve_entries_def)
qed (use assms(3) in \<open>auto simp: settlement_def\<close>)

lemma reserve_bytes_step:
  assumes "progress_ok d p" and "progress_transition d p e = Ok q" and "settlement p e"
    and "event_encoded_bytes e = Ok n"
  shows "n + reserve_bytes q \<le> reserve_bytes p"
proof -
  have "Suc (reserve_entries q) * event_bytes \<le> reserve_entries p * event_bytes"
    using reserve_entries_step [OF assms(1-3)] by (rule mult_le_mono1)
  then have entries: "event_bytes + reserve_entries q * event_bytes \<le> reserve_entries p * event_bytes" by simp
  have q: "\<not> (pg_status q = Running \<and> pg_pending q \<noteq> None)"
    using assms(2,3) by (cases rule: progress_transition_cases) (auto simp: settlement_def)
  show ?thesis
  proof (cases "se_receipt e = None")
    case True
    then have "n = event_bytes" using event_encoded_cases [OF assms(4)] by simp
    then show ?thesis using entries q by (auto simp: reserve_bytes_def)
  next
    case False
    with assms(2) have "settles_intent p e ForwardIntent"
      by (cases rule: progress_transition_cases) auto
    then have "pg_status p = Running \<and> pg_pending p \<noteq> None" using settles_forward [OF assms(1)] by blast
    then show ?thesis using entries q event_encoded_cases [OF assms(4)] by (auto simp: reserve_bytes_def)
  qed
qed

lemma check_capacity_Ok_iff:
  assumes "definition_ok d" and "progress_ok d (hh_progress h)"
  shows "check_capacity h = Ok (en, by) \<longleftrightarrow>
     en = hh_revision h + reserve_entries (hh_progress h) \<and>
     by = hh_encoded_bytes h + reserve_bytes (hh_progress h) \<and> en < 2 ^ 64 \<and> by < 2 ^ 64 \<and>
     capacity_contains (hh_capacity h) en by"
  using progress_reserve_ok [OF assms]
  by (auto simp: check_capacity_def and_then_Inr_iff u64_checked_def split: if_splits)

lemma settlement_fits:
  assumes inv: "snapshot_inv s" and cap: "check_capacity (sn_head s) = Ok (en, by)" and st: "settlement (sn_progress s) e"
    and step: "progress_transition (sn_definition s) (sn_progress s) e = Ok q" and n: "event_encoded_bytes e = Ok n"
  shows "\<exists>h en' by'. sn_transition s e = Ok h \<and> hh_progress h = q \<and> check_capacity h = Ok (en', by') \<and> en' \<le> en \<and> by' \<le> by"
proof -
  have ok: "definition_ok (sn_definition s)" "progress_ok (sn_definition s) (sn_progress s)" using inv by (auto simp: snapshot_inv_def)
  have okq: "progress_ok (sn_definition s) q" by (rule progress_transition_ok [OF ok step])
  note c = cap [unfolded check_capacity_Ok_iff [OF ok(1) ok(2) [unfolded sn_progress_def]]]
  have e: "Suc (reserve_entries q) \<le> reserve_entries (sn_progress s)" by (rule reserve_entries_step [OF ok(2) step st])
  have b: "n + reserve_bytes q \<le> reserve_bytes (sn_progress s)" by (rule reserve_bytes_step [OF ok(2) step st n])
  define h where "h = \<lparr>hh_revision = Suc (sn_revision s), hh_encoded_bytes = hh_encoded_bytes (sn_head s) + n,
      hh_capacity = hh_capacity (sn_head s), hh_progress = q\<rparr>"
  have "sn_transition s e = Ok h"
    using c e b unfolding sn_transition_def step n and_then_simps
    by (auto simp: u64_checked_def h_def sn_revision_def sn_progress_def)
  moreover have "check_capacity h = Ok (hh_revision h + reserve_entries q, hh_encoded_bytes h + reserve_bytes q)"
    using c e b by (subst check_capacity_Ok_iff [OF ok(1)]) (auto simp: h_def okq sn_revision_def sn_progress_def capacity_contains_def)
  ultimately show ?thesis
    using c e b by (intro exI [of _ h]) (auto simp: h_def sn_revision_def sn_progress_def)
qed

subsection \<open>Unwinding\<close>

fun apply_all :: "snapshot \<Rightarrow> saga_event list \<Rightarrow> saga_error + snapshot" where
  "apply_all s [] = Ok s"
| "apply_all s (e # es) = and_then (sn_apply s e) (\<lambda>s'. apply_all s' es)"

text \<open>
  The resources a snapshot still needs are in hand: its reservation fits the durable capacity
  and the reader can authenticate one receipt more than the confirmed steps.
\<close>

definition funded :: "snapshot \<Rightarrow> bool" where
  "funded s \<longleftrightarrow>
     (\<exists>en by. check_capacity (sn_head s) = Ok (en, by) \<and>
        read_check (sn_read s) en by (Suc (pg_forward (sn_progress s))) = Ok ())"

lemma read_check_mono:
  "read_check r en by k = Ok () \<Longrightarrow> en' \<le> en \<Longrightarrow> by' \<le> by \<Longrightarrow> k' \<le> k \<Longrightarrow> read_check r en' by' k' = Ok ()"
proof -
  assume a: "read_check r en by k = Ok ()" "en' \<le> en" "by' \<le> by" "k' \<le> k"
  have "k' * plaintext_bytes \<le> k * plaintext_bytes" using a(4) by (rule mult_le_mono1)
  moreover have "k * plaintext_bytes < 2 ^ 64" "k * plaintext_bytes \<le> rb_authentication r"
      "capacity_contains (rb_history r) en by"
    using a(1) by (auto simp: read_check_def split: if_splits)
  ultimately have "k' * plaintext_bytes < 2 ^ 64" "k' * plaintext_bytes \<le> rb_authentication r"
      "capacity_contains (rb_history r) en' by'"
    using a(2,3) by (auto simp only: capacity_contains_def)
  then show ?thesis by (simp add: read_check_def)
qed

lemma apply_settlement:
  assumes "snapshot_inv s" "funded s" and "se_seq e = sn_revision s" and "settlement (sn_progress s) e"
    and "progress_transition (sn_definition s) (sn_progress s) e = Ok q" and "se_receipt e = None"
    and "pg_forward q = pg_forward (sn_progress s)"
  shows "\<exists>s'. sn_apply s e = Ok s' \<and> sn_progress s' = q \<and> sn_definition s' = sn_definition s \<and>
           sn_revision s' = Suc (sn_revision s) \<and> snapshot_inv s' \<and> funded s'"
proof -
  have n: "event_encoded_bytes e = Ok event_bytes" using assms(6) by (simp add: event_encoded_bytes_def)
  obtain en "by" where cap: "check_capacity (sn_head s) = Ok (en, by)"
      "read_check (sn_read s) en by (Suc (pg_forward (sn_progress s))) = Ok ()"
    using assms(2) by (auto simp: funded_def)
  obtain h en' by' where h: "sn_transition s e = Ok h" "hh_progress h = q" "check_capacity h = Ok (en', by')" "en' \<le> en" "by' \<le> by"
    using settlement_fits [OF assms(1) cap(1) assms(4,5) n] by blast
  have "check_admission h (sn_read s) = Ok ()"
    using h assms(7) read_check_mono [OF cap(2) h(4,5)] by (auto simp: check_admission_def)
  then have prep: "prepare s e True = Ok h" using assms(3) h(1) by (simp add: prepare_def)
  have "read_check (sn_read s) en' by' (Suc (pg_forward q)) = Ok ()"
    using read_check_mono [OF cap(2) h(4,5)] assms(7) by simp
  then have "funded (accept e h s)" using h by (simp add: funded_def accept_def sn_progress_def)
  with prep accept_inv [OF assms(1) prep] accept_revision [OF prep] h(2) show ?thesis
    by (auto simp: sn_apply_def accept_def sn_progress_def)
qed

lemma unwind_one:
  assumes "snapshot_inv s" "funded s" and "pg_status (sn_progress s) = Compensating" "pg_pending (sn_progress s) = None"
    "pg_compensation (sn_progress s) = Some i" "pg_compensation_attempt (sn_progress s) = 0"
  shows "\<exists>es s'. apply_all s es = Ok s' \<and> snapshot_inv s' \<and> funded s' \<and>
           pg_pending (sn_progress s') = None \<and> pg_compensation (sn_progress s') = checked_pred i \<and>
           pg_compensation_attempt (sn_progress s') = 0 \<and>
           pg_status (sn_progress s') = (if i = 0 then Compensated else Compensating)"
proof -
  define e1 where "e1 = \<lparr>se_seq = sn_revision s, se_step = i, se_attempt = 1, se_kind = CompensationIntent, se_receipt = None\<rparr>"
  have i: "i < length (df_steps (sn_definition s))"
    using assms(1,3,5) by (auto simp: snapshot_inv_def progress_ok_def reverse_phase_def)
  have t1: "progress_transition (sn_definition s) (sn_progress s) e1 = Ok ((sn_progress s)\<lparr>pg_compensation_attempt := 1,
      pg_pending := Some (admit e1), pg_last_kind := Some CompensationIntent\<rparr>)"
    using i assms by (simp add: progress_transition_def e1_def saga_is_terminal_def u32_checked_succ_def)
  obtain s1 where s1: "sn_apply s e1 = Ok s1" "sn_progress s1 = (sn_progress s)\<lparr>pg_compensation_attempt := 1,
      pg_pending := Some (admit e1), pg_last_kind := Some CompensationIntent\<rparr>" "sn_definition s1 = sn_definition s"
      "snapshot_inv s1" "funded s1"
    using apply_settlement [OF assms(1,2) _ _ t1] assms(6) by (auto simp: e1_def settlement_def)
  define e2 where "e2 = e1\<lparr>se_seq := sn_revision s1, se_kind := CompensationApplied\<rparr>"
  have t2: "progress_transition (sn_definition s1) (sn_progress s1) e2 = Ok ((sn_progress s1)\<lparr>pg_pending := None,
      pg_compensation := checked_pred i, pg_compensation_attempt := 0,
      pg_status := (if i = 0 then Compensated else Compensating), pg_last_kind := Some CompensationApplied\<rparr>)"
    using i assms(3) s1(2,3)
    by (simp add: progress_transition_def e1_def e2_def saga_is_terminal_def settles_intent_def admit_def checked_pred_def)
  obtain s2 where s2: "sn_apply s1 e2 = Ok s2" "sn_progress s2 = (sn_progress s1)\<lparr>pg_pending := None,
      pg_compensation := checked_pred i, pg_compensation_attempt := 0,
      pg_status := (if i = 0 then Compensated else Compensating), pg_last_kind := Some CompensationApplied\<rparr>"
      "snapshot_inv s2" "funded s2"
    using apply_settlement [OF s1(4,5) _ _ t2] by (auto simp: e1_def e2_def settlement_def)
  show ?thesis
    using s1(1) s2 by (intro exI [of _ "[e1, e2]"] exI [of _ s2]) simp
qed

lemma apply_all_append: "apply_all s (xs @ ys) = and_then (apply_all s xs) (\<lambda>s'. apply_all s' ys)"
  by (induction s xs rule: apply_all.induct) (auto simp: and_then_def split: sum.splits)

lemma unwind_all:
  "snapshot_inv s \<Longrightarrow> funded s \<Longrightarrow> pg_status (sn_progress s) = Compensating \<Longrightarrow> pg_pending (sn_progress s) = None \<Longrightarrow>
   pg_compensation (sn_progress s) = Some i \<Longrightarrow> pg_compensation_attempt (sn_progress s) = 0 \<Longrightarrow>
   \<exists>es s'. apply_all s es = Ok s' \<and> pg_status (sn_progress s') = Compensated"
proof (induction i arbitrary: s)
  case 0
  from unwind_one [OF 0] show ?case by auto
next
  case (Suc i)
  from unwind_one [OF Suc.prems] obtain es s1 where s1: "apply_all s es = Ok s1" "snapshot_inv s1" "funded s1"
      "pg_pending (sn_progress s1) = None" "pg_compensation (sn_progress s1) = Some i"
      "pg_compensation_attempt (sn_progress s1) = 0" "pg_status (sn_progress s1) = Compensating"
    by auto
  from Suc.IH [OF s1(2,3,7,4,5,6)] obtain es' s2 where "apply_all s1 es' = Ok s2" "pg_status (sn_progress s2) = Compensated" by blast
  then show ?case using s1(1) by (intro exI [of _ "es @ es'"] exI [of _ s2]) (simp add: apply_all_append)
qed

lemma abort_unwinds:
  assumes "snapshot_inv s" "funded s" and "pg_status (sn_progress s) = Ready"
    and "step_limit (sn_definition s) (sn_progress s) \<le> pg_forward_failures (sn_progress s)"
  shows "\<exists>es s'. apply_all s es = Ok s' \<and> pg_status (sn_progress s') = Compensated"
proof -
  let ?p = "sn_progress s"
  have p: "pg_pending ?p = None" "pg_forward ?p < length (df_steps (sn_definition s))"
      "pg_last_kind ?p = Some ForwardNotApplied" "0 < pg_forward_attempt ?p"
    using assms by (auto simp: snapshot_inv_def progress_ok_def forward_phase_def)
  define e where "e = \<lparr>se_seq = sn_revision s, se_step = pg_forward ?p, se_attempt = pg_forward_attempt ?p, se_kind = Abort, se_receipt = None\<rparr>"
  define q where "q = ?p\<lparr>pg_compensation := checked_pred (pg_forward ?p), pg_compensation_attempt := 0,
      pg_status := (if checked_pred (pg_forward ?p) = None then Compensated else Compensating), pg_last_kind := Some Abort\<rparr>"
  have t: "progress_transition (sn_definition s) ?p e = Ok q"
    using assms(3,4) p by (simp add: progress_transition_def e_def q_def saga_is_terminal_def)
  obtain s1 where s1: "sn_apply s e = Ok s1" "sn_progress s1 = q" "snapshot_inv s1" "funded s1"
    using apply_settlement [OF assms(1,2) _ _ t] by (auto simp: e_def q_def settlement_def)
  show ?thesis
  proof (cases "pg_forward ?p")
    case 0
    then show ?thesis using s1 by (intro exI [of _ "[e]"] exI [of _ s1]) (simp add: q_def)
  next
    case (Suc i)
    then obtain es s2 where "apply_all s1 es = Ok s2" "pg_status (sn_progress s2) = Compensated"
      using unwind_all [OF s1(3,4), of i] p by (auto simp: s1(2) q_def)
    then show ?thesis using s1(1) by (intro exI [of _ "e # es"] exI [of _ s2]) simp
  qed
qed

subsection \<open>The next event\<close>

lemma u32_checked_succ_None: "u32_checked_succ n = None \<Longrightarrow> 2 ^ 32 - 1 \<le> n"
  by (auto simp: u32_checked_succ_def split: if_splits)

lemma next_compensation_event:
  assumes "progress_ok d (sn_progress s)" and "pg_status (sn_progress s) = Compensating"
    and "pg_pending (sn_progress s) = None" and "sn_definition s = d"
  shows "\<exists>next. next_event s = Ok next \<and>
    (case next of
       Some e \<Rightarrow> is_ok (progress_transition d (sn_progress s) e) \<and> se_seq e = sn_revision s
     | None \<Rightarrow> 2 ^ 32 - 1 \<le> pg_forward_attempt (sn_progress s) \<or> 2 ^ 32 - 1 \<le> pg_compensation_attempt (sn_progress s))"
proof -
  obtain i where i: "pg_compensation (sn_progress s) = Some i" "i < length (df_steps d)"
    using assms(1,2) by (auto simp: progress_ok_def reverse_phase_def split: option.splits)
  show ?thesis
  proof (cases "u32_checked_succ (pg_compensation_attempt (sn_progress s))")
    case None
    from u32_checked_succ_None [OF this] show ?thesis
      using None i assms(2) by (simp add: next_event_def Let_def)
  next
    case (Some a)
    then have "a = Suc (pg_compensation_attempt (sn_progress s))" by (rule u32_checked_succ_Some)
    then show ?thesis
      using Some i assms(2,3) by (simp add: next_event_def Let_def progress_transition_def saga_is_terminal_def)
  qed
qed

lemma next_forward_event:
  assumes "progress_ok d (sn_progress s)" and "pg_status (sn_progress s) \<in> {Ready, Running}"
    and "pg_pending (sn_progress s) = None" and "sn_definition s = d"
  shows "\<exists>next. next_event s = Ok next \<and>
    (case next of
       Some e \<Rightarrow> is_ok (progress_transition d (sn_progress s) e) \<and> se_seq e = sn_revision s
     | None \<Rightarrow> 2 ^ 32 - 1 \<le> pg_forward_attempt (sn_progress s) \<or> 2 ^ 32 - 1 \<le> pg_compensation_attempt (sn_progress s))"
proof -
  have f: "forward_phase d (sn_progress s)" using assms(1,2) by (auto simp: progress_ok_def)
  then have n: "pg_forward (sn_progress s) < length (df_steps d)" by (simp add: forward_phase_def)
  show ?thesis
  proof (cases "pg_forward_failures (sn_progress s) < step_limit d (sn_progress s)")
    case False
    then have "pg_status (sn_progress s) = Ready" "pg_last_kind (sn_progress s) = Some ForwardNotApplied"
        "0 < pg_forward_attempt (sn_progress s)" using f by (auto simp: forward_phase_def)
    then show ?thesis
      using False n assms(3,4) by (simp add: next_event_def Let_def progress_transition_def saga_is_terminal_def)
  next
    case True
    show ?thesis
    proof (cases "u32_checked_succ (pg_forward_attempt (sn_progress s))")
      case None
      from u32_checked_succ_None [OF this] show ?thesis
        using None True n assms(2,4) by (auto simp: next_event_def Let_def)
    next
      case (Some a)
      then have "a = Suc (pg_forward_attempt (sn_progress s))" by (rule u32_checked_succ_Some)
      then show ?thesis
        using Some True n assms(2-4)
        by (auto simp: next_event_def Let_def progress_transition_def saga_is_terminal_def)
    qed
  qed
qed

subsection \<open>A concrete saga\<close>

text \<open>Two steps; the first is confirmed and the second fails for good.\<close>

definition saga_demo_identity :: saga_identity where
  "saga_demo_identity = \<lparr>id_contract = ''a.b'', id_version = 1, id_schema = ''s'', id_generation = ''g''\<rparr>"

definition saga_demo_step :: "string \<Rightarrow> step_spec" where
  "saga_demo_step n = \<lparr>sp_name = n, sp_receipt_schema = ''r'', sp_forward_scope = ''f'', sp_compensation_scope = ''c'', sp_max_failures = 1\<rparr>"

definition saga_demo_definition :: saga_definition where
  "saga_demo_definition = \<lparr>df_owner = ''o'', df_identity = saga_demo_identity, df_steps = [saga_demo_step ''x'', saga_demo_step ''y''], df_fingerprint = []\<rparr>"

definition saga_demo_receipt :: protected_receipt where
  "saga_demo_receipt = \<lparr>pr_ciphertext = \<lparr>ct_key_ref = ''k'', ct_bytes = [0]\<rparr>, pr_key_id = ''i'', pr_digest = replicate 32 0,
     pr_aad = [], pr_format = 1, pr_attempt = 1, pr_seq = 1\<rparr>"

definition saga_demo_snapshot :: snapshot where
  "saga_demo_snapshot = \<lparr>sn_definition = saga_demo_definition, sn_events = [], sn_receipts = [],
     sn_head = \<lparr>hh_revision = 0, hh_encoded_bytes = 0, hh_capacity = \<lparr>max_entries = 100, max_encoded_bytes = 100000000\<rparr>, hh_progress = progress_empty\<rparr>,
     sn_read = \<lparr>rb_history = \<lparr>max_entries = 100, max_encoded_bytes = 100000000\<rparr>, rb_authentication = 100000000\<rparr>\<rparr>"

definition saga_demo_inputs :: "saga_input list" where
  "saga_demo_inputs =
     [InApply \<lparr>se_seq = 0, se_step = 0, se_attempt = 1, se_kind = ForwardIntent, se_receipt = None\<rparr>,
      InApply \<lparr>se_seq = 1, se_step = 0, se_attempt = 1, se_kind = ForwardApplied, se_receipt = Some saga_demo_receipt\<rparr>,
      InApply \<lparr>se_seq = 2, se_step = 1, se_attempt = 1, se_kind = ForwardIntent, se_receipt = None\<rparr>,
      InApply \<lparr>se_seq = 3, se_step = 1, se_attempt = 1, se_kind = ForwardNotApplied, se_receipt = None\<rparr>]"

lemma saga_demo_empty: "snapshot_empty (\<lambda>_. Some []) (\<lambda>_. []) saga_demo_definition \<lparr>max_entries = 100, max_encoded_bytes = 100000000\<rparr>
   \<lparr>rb_history = \<lparr>max_entries = 100, max_encoded_bytes = 100000000\<rparr>, rb_authentication = 100000000\<rparr> = Ok saga_demo_snapshot"
  by (simp add: snapshot_empty_def definition_validate_def definition_new_def saga_demo_definition_def saga_demo_step_def step_spec_new_def saga_validate_name_def rust_defs saga_demo_snapshot_def)

definition saga_demo_failed :: snapshot where
  "saga_demo_failed = run_inputs saga_step saga_demo_snapshot saga_demo_inputs"

lemmas saga_demo_steps = saga_demo_inputs_def saga_demo_snapshot_def sn_apply_def prepare_def sn_revision_def
  sn_transition_def sn_progress_def progress_transition_def saga_demo_definition_def progress_empty_def
  saga_is_terminal_def u32_checked_succ_def saga_demo_step_def u64_checked_def event_encoded_bytes_def
  check_admission_def check_capacity_def progress_reserve_def capacity_contains_def read_check_def accept_def
  plaintext_bytes_def event_bytes_def receipt_bytes_def admit_def settles_intent_def saga_demo_receipt_def
  receipt_encoded_bytes_def aad_bytes_def Let_def

lemma saga_demo_failed_state:
  "pg_status (sn_progress saga_demo_failed) = Ready \<and> pg_forward (sn_progress saga_demo_failed) = 1 \<and>
   pg_forward_failures (sn_progress saga_demo_failed) = 1 \<and> funded saga_demo_failed \<and>
   sn_revision saga_demo_failed = 4 \<and> pg_forward_attempt (sn_progress saga_demo_failed) = 1"
  by (simp add: saga_demo_failed_def funded_def) (simp add: saga_demo_steps)

lemma saga_demo_failed_definition: "sn_definition saga_demo_failed = saga_demo_definition"
  unfolding saga_demo_failed_def run_definition by (simp add: saga_demo_snapshot_def)

lemma saga_demo_limit: "step_limit (sn_definition saga_demo_failed) (sn_progress saga_demo_failed) = 1"
  using saga_demo_failed_state saga_demo_failed_definition by (simp add: saga_demo_definition_def saga_demo_step_def)

subsection \<open>Properties\<close>

text \<open>
  C15. Effects and their reversal. Whatever sequence of replayed and admitted events, capacity
  extensions and readers a fresh snapshot of a validated definition goes through, its journal
  confirms the forward steps once each in definition order; a succeeded saga has confirmed
  every step and undone none; a compensated saga has undone exactly the confirmed steps, once
  each, in reverse order; in between, the confirmed compensations are the last confirmed steps
  in reverse order; and no step was charged more proven failures than its pinned limit.
\<close>

theorem compensation_reverses:
  assumes "snapshot_empty canon sha256 d c r = Ok s0" and "s = run_inputs saga_step s0 is"
  shows "steps_of ForwardApplied (sn_events s) = [0..<pg_forward (sn_progress s)] \<and>
    (case pg_status (sn_progress s) of
       Succeeded \<Rightarrow> pg_forward (sn_progress s) = length (df_steps d) \<and> steps_of CompensationApplied (sn_events s) = []
     | Compensated \<Rightarrow> pg_forward (sn_progress s) < length (df_steps d) \<and>
         steps_of CompensationApplied (sn_events s) = rev (steps_of ForwardApplied (sn_events s))
     | Ready \<Rightarrow> steps_of CompensationApplied (sn_events s) = []
     | Running \<Rightarrow> steps_of CompensationApplied (sn_events s) = []
     | _ \<Rightarrow> (\<exists>step. pg_compensation (sn_progress s) = Some step \<and>
              steps_of CompensationApplied (sn_events s) = rev [Suc step..<pg_forward (sn_progress s)])) \<and>
    (\<forall>i. i < length (df_steps d) \<longrightarrow> failures_at i (sn_events s) \<le> sp_max_failures (df_steps d ! i))"
proof -
  have inv: "snapshot_inv s" using reachable_inv [OF assms(1)] assms(2) by simp
  have d: "sn_definition s = d"
    using assms run_definition [of s0 "is"] by (auto simp: snapshot_empty_def and_then_Inr_iff)
  have ok: "progress_ok d (sn_progress s)" and j: "journal_inv d (sn_events s) (sn_progress s)"
    using inv d by (auto simp: snapshot_inv_def)
  have bound: "failures_at i (sn_events s) \<le> sp_max_failures (df_steps d ! i)" if "i < length (df_steps d)" for i
  proof -
    have "failures_at i (sn_events s) \<le> failure_limit d (pg_forward (sn_progress s)) (pg_forward_failures (sn_progress s)) i"
      using j by (simp add: journal_inv_def)
    then show ?thesis using ok that
      by (auto simp: failure_limit_def progress_ok_def forward_phase_def reverse_phase_def split: if_splits saga_status.splits)
  qed
  show ?thesis
    using ok j bound
    by (auto simp: journal_inv_def undone_def progress_ok_def reverse_phase_def split: saga_status.splits option.splits)
qed

theorem compensation_reverses_witness:
  "pg_status (sn_progress saga_demo_failed) = Ready \<and> steps_of ForwardApplied (sn_events saga_demo_failed) = [0] \<and>
   steps_of CompensationApplied (sn_events saga_demo_failed) = []"
  using compensation_reverses [OF saga_demo_empty saga_demo_failed_def] saga_demo_failed_state by simp

text \<open>
  C21. The reservation covers every settlement. In every reachable snapshot whose head passes the
  capacity check, an event that settles what was admitted (everything but a forward intent, a
  resume or a repeated compensation intent) is never refused for lack of capacity: the
  transition succeeds, the new head passes the check, and neither the entries nor the bytes
  committed together with the reservation grow.
\<close>

theorem settlement_never_refused:
  assumes "snapshot_empty canon sha256 d c r = Ok s0" and "s = run_inputs saga_step s0 is"
    and "check_capacity (sn_head s) = Ok (en, by)" and "settlement (sn_progress s) e"
    and "progress_transition d (sn_progress s) e = Ok q" and "event_encoded_bytes e = Ok n"
  shows "\<exists>h en' by'. sn_transition s e = Ok h \<and> check_capacity h = Ok (en', by') \<and> en' \<le> en \<and> by' \<le> by"
proof -
  have inv: "snapshot_inv s" using reachable_inv [OF assms(1)] assms(2) by simp
  have "sn_definition s = d"
    using assms(1,2) run_definition [of s0 "is"] by (auto simp: snapshot_empty_def and_then_Inr_iff)
  with settlement_fits [OF inv assms(3,4) _ assms(6)] assms(5) show ?thesis by blast
qed

theorem settlement_never_refused_witness:
  "\<exists>h en' by'. sn_transition saga_demo_failed
       \<lparr>se_seq = 4, se_step = 1, se_attempt = 1, se_kind = Abort, se_receipt = None\<rparr> = Ok h \<and>
     check_capacity h = Ok (en', by')"
proof -
  let ?e = "\<lparr>se_seq = 4, se_step = 1, se_attempt = 1, se_kind = Abort, se_receipt = None\<rparr>"
  obtain en "by" where cap: "check_capacity (sn_head saga_demo_failed) = Ok (en, by)"
    using saga_demo_failed_state by (auto simp: funded_def)
  obtain q where q: "progress_transition saga_demo_definition (sn_progress saga_demo_failed) ?e = Ok q"
    by (simp add: saga_demo_failed_def) (simp add: saga_demo_steps)
  have "settlement (sn_progress saga_demo_failed) ?e" "event_encoded_bytes ?e = Ok event_bytes"
    by (simp_all add: settlement_def event_encoded_bytes_def)
  from settlement_never_refused [OF saga_demo_empty saga_demo_failed_def cap this(1) q this(2)] show ?thesis by blast
qed

text \<open>
  C18. Compensation always completes within what was admitted. When the failures of a step have
  used up its limit in a reachable snapshot whose reservation fits the durable capacity and
  whose reader can authenticate one receipt more than the confirmed steps, there is a sequence
  of events that admission accepts one after the other and that ends in \<open>Compensated\<close>.
\<close>

theorem exhausted_saga_unwinds:
  assumes "snapshot_empty canon sha256 d c r = Ok s0" and "s = run_inputs saga_step s0 is"
    and "pg_status (sn_progress s) = Ready" and "step_limit d (sn_progress s) \<le> pg_forward_failures (sn_progress s)"
    and "check_capacity (sn_head s) = Ok (en, by)"
    and "read_check (sn_read s) en by (Suc (pg_forward (sn_progress s))) = Ok ()"
  shows "\<exists>es s'. apply_all s es = Ok s' \<and> pg_status (sn_progress s') = Compensated"
proof -
  have "snapshot_inv s" "funded s" using reachable_inv [OF assms(1)] assms(2,5,6) by (auto simp: funded_def)
  moreover have "sn_definition s = d"
    using assms(1,2) run_definition [of s0 "is"] by (auto simp: snapshot_empty_def and_then_Inr_iff)
  ultimately show ?thesis using abort_unwinds [of s] assms(3,4) by simp
qed

theorem exhausted_saga_unwinds_witness:
  "\<exists>es s'. apply_all saga_demo_failed es = Ok s' \<and> pg_status (sn_progress s') = Compensated"
proof -
  obtain en "by" where cap: "check_capacity (sn_head saga_demo_failed) = Ok (en, by)"
      "read_check (sn_read saga_demo_failed) en by (Suc (pg_forward (sn_progress saga_demo_failed))) = Ok ()"
    using saga_demo_failed_state by (auto simp: funded_def)
  from exhausted_saga_unwinds [OF saga_demo_empty saga_demo_failed_def _ _ cap] show ?thesis
    using saga_demo_failed_state saga_demo_limit saga_demo_failed_definition by simp
qed

text \<open>
  C27. What was admitted can be recovered: replaying an event the live path admitted succeeds
  and yields the same snapshot, because admission also checked that the reader can load the
  history it leads to.
\<close>

theorem admitted_event_replays:
  assumes "sn_apply s e = Ok s'"
  shows "sn_replay s e = Ok s'"
proof -
  from assms obtain h where h: "prepare s e True = Ok h" "s' = accept e h s"
    by (auto simp: sn_apply_def and_then_Inr_iff)
  note p = prepare_Ok [OF h(1)]
  then obtain en "by" k where adm: "check_capacity h = Ok (en, by)" "read_check (sn_read s) en by k = Ok ()"
      "pg_forward (hh_progress h) \<le> k"
    by (force simp: check_admission_def and_then_Inr_iff)
  have "hh_revision h \<le> en" "hh_encoded_bytes h \<le> by"
    using adm(1) by (auto simp: check_capacity_def and_then_Inr_iff u64_checked_def split: if_splits)
  from read_check_mono [OF adm(2) this adm(3)] have "check_read h (sn_read s) = Ok ()"
    by (simp add: check_read_def)
  with p h(2) show ?thesis by (simp add: sn_replay_def prepare_def)
qed

theorem admitted_event_replays_witness:
  "\<exists>s'. sn_replay saga_demo_snapshot
     \<lparr>se_seq = 0, se_step = 0, se_attempt = 1, se_kind = ForwardIntent, se_receipt = None\<rparr> = Ok s'"
proof -
  obtain s' where "sn_apply saga_demo_snapshot
      \<lparr>se_seq = 0, se_step = 0, se_attempt = 1, se_kind = ForwardIntent, se_receipt = None\<rparr> = Ok s'"
    by (simp add: saga_demo_steps)
  from admitted_event_replays [OF this] show ?thesis by blast
qed

text \<open>
  The driver is never stuck: in every reachable snapshot that is neither terminal nor paused
  and has no pending intent, the next event exists and is an accepted transition, unless the
  32-bit attempt ordinal is exhausted, in which case there is none.
\<close>

theorem next_event_accepted:
  assumes "snapshot_empty canon sha256 d c r = Ok s0" and "s = run_inputs saga_step s0 is"
    and "\<not> saga_is_terminal (pg_status (sn_progress s))" and "pg_status (sn_progress s) \<noteq> StatusCompensationFailed"
    and "pg_pending (sn_progress s) = None"
  shows "\<exists>next. next_event s = Ok next \<and>
    (case next of
       Some e \<Rightarrow> is_ok (progress_transition d (sn_progress s) e) \<and> se_seq e = sn_revision s
     | None \<Rightarrow> 2 ^ 32 - 1 \<le> pg_forward_attempt (sn_progress s) \<or> 2 ^ 32 - 1 \<le> pg_compensation_attempt (sn_progress s))"
proof -
  have inv: "snapshot_inv s" using reachable_inv [OF assms(1)] assms(2) by simp
  have d: "sn_definition s = d"
    using assms(1,2) run_definition [of s0 "is"] by (auto simp: snapshot_empty_def and_then_Inr_iff)
  have ok: "progress_ok d (sn_progress s)" using inv d by (simp add: snapshot_inv_def)
  show ?thesis
  proof (cases "pg_status (sn_progress s) = Compensating")
    case True
    then show ?thesis by (rule next_compensation_event [OF ok _ assms(5) d])
  next
    case False
    then have "pg_status (sn_progress s) \<in> {Ready, Running}"
      using assms(3,4) by (cases "pg_status (sn_progress s)") (auto simp: saga_is_terminal_def)
    then show ?thesis by (rule next_forward_event [OF ok _ assms(5) d])
  qed
qed

theorem next_event_accepted_witness:
  "\<exists>e. next_event saga_demo_failed = Ok (Some e) \<and> is_ok (progress_transition saga_demo_definition (sn_progress saga_demo_failed) e)"
proof -
  have p: "pg_pending (sn_progress saga_demo_failed) = None"
    by (simp add: saga_demo_failed_def) (simp add: saga_demo_steps)
  have c: "pg_compensation_attempt (sn_progress saga_demo_failed) = 0"
    by (simp add: saga_demo_failed_def) (simp add: saga_demo_steps)
  from next_event_accepted [OF saga_demo_empty saga_demo_failed_def _ _ p] saga_demo_failed_state c show ?thesis
    by (auto simp: saga_is_terminal_def split: option.splits)
qed

text \<open>
  The idempotency key is bound to its coordinates: the hash input of the effect key
  determines tenant, instance, pinned identity, step name, phase and effect scope.
\<close>

theorem effect_key_input_injective:
  assumes "effect_key_input uuid_text i sc s ph = effect_key_input uuid_text i' sc' s' ph'"
    and "inj uuid_text" and "list_all (\<lambda>f. length f < 2 ^ 64) (effect_fields uuid_text i sc s ph)"
    and "list_all (\<lambda>f. length f < 2 ^ 64) (effect_fields uuid_text i' sc' s' ph')"
  shows "sc = sc' \<and> id_contract i = id_contract i' \<and> id_version i = id_version i' \<and> id_schema i = id_schema i' \<and>
         id_generation i = id_generation i' \<and> sp_name s = sp_name s' \<and> ph = ph'"
proof -
  have "framed 8 (effect_fields uuid_text i sc s ph) @ [] = framed 8 (effect_fields uuid_text i' sc' s' ph') @ []"
    using assms(1) by (simp add: effect_key_input_def)
  then have eq: "effect_fields uuid_text i sc s ph = effect_fields uuid_text i' sc' s' ph'"
  proof (rule conjunct1 [OF framed_inject])
    show "length (effect_fields uuid_text i sc s ph) = length (effect_fields uuid_text i' sc' s' ph')"
      by (simp add: effect_fields_def)
  qed (use assms(3,4) in \<open>simp_all only: u64_range\<close>)
  have id: "sg_id sc = sg_id sc'"
  proof -
    have "be_bytes 16 (unat (sg_id sc)) = be_bytes 16 (unat (sg_id sc'))" using eq by (simp add: effect_fields_def)
    then have "unat (sg_id sc) = unat (sg_id sc')"
      using unsigned_less [of "sg_id sc"] unsigned_less [of "sg_id sc'"] power_mult [of "2 :: nat" 8 16]
      by (intro be_bytes_inject [of 16]) simp_all
    then show ?thesis by (simp add: word_unat_eq_iff)
  qed
  have "ph = ph'" using eq by (cases ph; cases ph') (auto simp: effect_fields_def)
  moreover have "id_version i = id_version i'"
  proof -
    have "show_nat (id_version i) = show_nat (id_version i')"
      using eq by (simp add: effect_fields_def contract_version_display_def)
    then show ?thesis by (metis show_nat_value)
  qed
  moreover have "sc = sc'" using eq id assms(2) by (cases sc; cases sc') (auto simp: effect_fields_def dest: injD)
  ultimately show ?thesis using eq by (simp add: effect_fields_def)
qed

theorem effect_key_input_injective_witness:
  "effect_key_input (\<lambda>w. replicate (unat w) CHR ''0'') saga_demo_identity \<lparr>sg_tenant = 1, sg_id = 2\<rparr> (saga_demo_step ''x'') Forward \<noteq>
   effect_key_input (\<lambda>w. replicate (unat w) CHR ''0'') saga_demo_identity \<lparr>sg_tenant = 1, sg_id = 2\<rparr> (saga_demo_step ''y'') Forward"
proof
  let ?u = "\<lambda>w :: 128 word. replicate (unat w) CHR ''0''"
  assume eq: "effect_key_input ?u saga_demo_identity \<lparr>sg_tenant = 1, sg_id = 2\<rparr> (saga_demo_step ''x'') Forward =
    effect_key_input ?u saga_demo_identity \<lparr>sg_tenant = 1, sg_id = 2\<rparr> (saga_demo_step ''y'') Forward"
  have "inj ?u" by (rule injI) (metis length_replicate word_unat_eq_iff)
  from effect_key_input_injective [OF eq this] show False
    by (simp add: effect_fields_def saga_demo_identity_def saga_demo_step_def contract_version_display_def show_nat.simps)
qed

end
