(* ===== verification/Saga_Receipt.thy ===== *)
theory Saga_Receipt
  imports Saga_Model
begin

section \<open>Saga receipt protection\<close>

text \<open>
  Keyed integrity with key rotation (\<^verbatim>\<open>crates/saga/src/integrity.rs\<close>) and the sealing of action
  receipts under an executor-derived context (\<^verbatim>\<open>crates/saga/src/receipt.rs\<close>). HMAC-SHA256, SHA-256,
  the text form of a UUID and the application's cipher are parameters. Sealing and opening are
  given as the checks before and after the provider call, so that the executor can place the
  call among its other requests, and as whole operations over a provider function.
\<close>

subsection \<open>Integrity keys\<close>

datatype integrity_error = KeyTooShort | InvalidKeyId | DuplicateKeyId | InvalidDigestLength

definition key_id_max_bytes :: nat where
  "key_id_max_bytes = 64"

definition key_min_bytes :: nat where
  "key_min_bytes = 32"

definition key_id_parse :: "string \<Rightarrow> integrity_error + string" where
  "key_id_parse raw =
     (if raw = [] \<or> length raw > key_id_max_bytes
         \<or> \<not> list_all (\<lambda>b. is_ascii_alphanumeric b \<or> b \<in> set ''._-'') raw
      then Err InvalidKeyId else Ok raw)"

record integrity_key =
  ik_id :: string
  ik_key :: bytes

definition integrity_key_from_bytes :: "string \<Rightarrow> bytes \<Rightarrow> integrity_error + integrity_key" where
  "integrity_key_from_bytes i k =
     (if length k < key_min_bytes then Err KeyTooShort else Ok \<lparr>ik_id = i, ik_key = k\<rparr>)"

record integrity_keyring =
  kr_current :: integrity_key
  kr_previous :: "integrity_key list"

text \<open>The loop of \<open>SagaReceiptIntegrityKeyring::new\<close>: the keys before the index, then the rest.\<close>

fun check_key_ids :: "string \<Rightarrow> integrity_key list \<Rightarrow> integrity_key list \<Rightarrow> integrity_error + unit" where
  "check_key_ids current before [] = Ok ()"
| "check_key_ids current before (k # ks) =
     (if ik_id k = current \<or> list_ex (\<lambda>prior. ik_id prior = ik_id k) before then Err DuplicateKeyId
      else check_key_ids current (before @ [k]) ks)"

definition keyring_new :: "integrity_key \<Rightarrow> integrity_key list \<Rightarrow> integrity_error + integrity_keyring" where
  "keyring_new current previous =
     and_then (check_key_ids (ik_id current) [] previous) (\<lambda>_.
       Ok \<lparr>kr_current = current, kr_previous = previous\<rparr>)"

definition keyring_keys :: "integrity_keyring \<Rightarrow> integrity_key list" where
  "keyring_keys r = kr_current r # kr_previous r"

subsection \<open>Fingerprints\<close>

type_synonym hmac = "bytes \<Rightarrow> bytes \<Rightarrow> bytes"

record receipt_fingerprint =
  rf_key_id :: string
  rf_digest :: bytes

definition fingerprint_from_stored :: "string \<Rightarrow> bytes \<Rightarrow> integrity_error + receipt_fingerprint" where
  "fingerprint_from_stored i digest =
     (if length digest \<noteq> 32 then Err InvalidDigestLength else Ok \<lparr>rf_key_id = i, rf_digest = digest\<rparr>)"

definition integrity_context :: bytes where
  "integrity_context = ascii_bytes ''rss.saga-receipt.integrity.v1''"

definition keyed_fingerprint :: "hmac \<Rightarrow> integrity_key \<Rightarrow> bytes list \<Rightarrow> receipt_fingerprint" where
  "keyed_fingerprint hm k components =
     \<lparr>rf_key_id = ik_id k, rf_digest = hm (ik_key k) (framed 8 (integrity_context # components))\<rparr>"

text \<open>
  The padded comparison of key ids, in constant time in the source. A parsed id has at most
  \<open>key_id_max_bytes\<close> bytes, so it always fits the buffer.
\<close>

definition padded_key_id :: "string \<Rightarrow> bytes" where
  "padded_key_id i =
     word_of_nat (length i) # ascii_bytes i @ replicate (key_id_max_bytes - length i) 0"

definition constant_time_key_id_eq :: "string \<Rightarrow> string \<Rightarrow> bool" where
  "constant_time_key_id_eq a b \<longleftrightarrow> padded_key_id a = padded_key_id b"

definition keyring_current :: "hmac \<Rightarrow> integrity_keyring \<Rightarrow> bytes list \<Rightarrow> receipt_fingerprint" where
  "keyring_current hm r components = keyed_fingerprint hm (kr_current r) components"

definition keyring_verify :: "hmac \<Rightarrow> integrity_keyring \<Rightarrow> bytes list \<Rightarrow> receipt_fingerprint \<Rightarrow> bool" where
  "keyring_verify hm r components candidate =
     fold (\<lambda>k verified. verified \<or>
         constant_time_key_id_eq (ik_id k) (rf_key_id candidate) \<and>
         rf_digest (keyed_fingerprint hm k components) = rf_digest candidate)
       (keyring_keys r) False"

subsection \<open>Receipt context\<close>

record receipt_context =
  rcx_scope :: saga_scope
  rcx_canonical :: bytes
  rcx_components :: "bytes list"
  rcx_attempt :: nat
  rcx_seq :: nat

record saga_coders =
  sc_uuid :: "128 word \<Rightarrow> string"
  sc_sha256 :: "bytes \<Rightarrow> bytes"
  sc_hmac :: hmac

definition aad_fields ::
  "saga_coders \<Rightarrow> saga_scope \<Rightarrow> saga_definition \<Rightarrow> step_spec \<Rightarrow> bytes \<Rightarrow> bytes list" where
  "aad_fields c sc d spec key =
     (let i = df_identity d in
      [ascii_bytes (sc_uuid c (sg_tenant sc)), ascii_bytes (sc_uuid c (sg_id sc)),
       ascii_bytes (df_owner d), ascii_bytes (id_contract i),
       ascii_bytes (contract_version_display (id_version i)), ascii_bytes (id_schema i),
       ascii_bytes (id_generation i), ascii_bytes (sp_name spec), key,
       ascii_bytes (sp_receipt_schema spec)])"

definition receipt_components ::
  "saga_coders \<Rightarrow> saga_scope \<Rightarrow> saga_definition \<Rightarrow> step_spec \<Rightarrow> bytes \<Rightarrow> nat \<Rightarrow> nat \<Rightarrow> bytes list" where
  "receipt_components c sc d spec key attempt seq =
     (let i = df_identity d in
      [ascii_bytes ''rss.saga-receipt.content.v1'', ascii_bytes (sc_uuid c (sg_tenant sc)),
       be_bytes 16 (unat (sg_id sc)), ascii_bytes (df_owner d), ascii_bytes (id_contract i),
       ascii_bytes (contract_version_display (id_version i)), ascii_bytes (id_schema i),
       ascii_bytes (id_generation i), ascii_bytes (sp_name spec), key,
       ascii_bytes (sp_receipt_schema spec), be_bytes 2 1, be_bytes 4 attempt, be_bytes 8 seq])"

definition receipt_context_new ::
  "saga_coders \<Rightarrow> saga_scope \<Rightarrow> saga_definition \<Rightarrow> nat \<Rightarrow> nat \<Rightarrow> nat \<Rightarrow> saga_error + receipt_context" where
  "receipt_context_new c sc d step attempt seq =
     (if step < length (df_steps d)
      then and_then (effect_key (sc_uuid c) (sc_sha256 c) d sc step Forward) (\<lambda>key.
        Ok \<lparr>rcx_scope = sc,
            rcx_canonical = ascii_bytes ''rss-saga-receipt-aad-v1''
              @ framed 4 (aad_fields c sc d (df_steps d ! step) key @ [be_bytes 2 1]),
            rcx_components = receipt_components c sc d (df_steps d ! step) key attempt seq,
            rcx_attempt = attempt, rcx_seq = seq\<rparr>)
      else Err SIntegrity)"

definition receipt_content :: "receipt_context \<Rightarrow> bytes \<Rightarrow> bytes" where
  "receipt_content ctx plaintext = framed 8 (rcx_components ctx @ [plaintext])"

subsection \<open>Sealing and opening\<close>

definition seal_admits :: "bytes \<Rightarrow> saga_error + unit" where
  "seal_admits plaintext = (if length plaintext > 1024 * 1024 then Err SProtection else Ok ())"

definition seal_result ::
  "saga_coders \<Rightarrow> integrity_keyring \<Rightarrow> bytes \<Rightarrow> receipt_context \<Rightarrow> saga_error + ciphertext
     \<Rightarrow> saga_error + protected_receipt" where
  "seal_result c ring plaintext ctx sealed =
     and_then (map_err (\<lambda>_. SProtection) sealed) (\<lambda>ct.
       let f = keyring_current (sc_hmac c) ring [receipt_content ctx plaintext] in
       Ok \<lparr>pr_ciphertext = ct, pr_key_id = rf_key_id f, pr_digest = rf_digest f,
           pr_aad = rcx_canonical ctx, pr_format = 1, pr_attempt = rcx_attempt ctx, pr_seq = rcx_seq ctx\<rparr>)"

definition open_admits :: "protected_receipt \<Rightarrow> receipt_context \<Rightarrow> saga_error + receipt_fingerprint" where
  "open_admits r ctx =
     (if pr_aad r \<noteq> rcx_canonical ctx \<or> pr_format r \<noteq> 1 \<or> pr_attempt r \<noteq> rcx_attempt ctx
         \<or> pr_seq r \<noteq> rcx_seq ctx then Err SProtection
      else and_then (map_err (\<lambda>_. SProtection) (key_id_parse (pr_key_id r))) (\<lambda>i.
           map_err (\<lambda>_. SProtection) (fingerprint_from_stored i (pr_digest r))))"

definition open_result ::
  "saga_coders \<Rightarrow> integrity_keyring \<Rightarrow> receipt_context \<Rightarrow> receipt_fingerprint \<Rightarrow> saga_error + bytes
     \<Rightarrow> saga_error + bytes" where
  "open_result c ring ctx f opened =
     and_then (map_err (\<lambda>_. SProtection) opened) (\<lambda>plaintext.
       if length plaintext > plaintext_bytes then Err SProtection
       else if \<not> keyring_verify (sc_hmac c) ring [receipt_content ctx plaintext] f then Err SProtection
       else Ok plaintext)"

record receipt_provider =
  rpv_seal :: "bytes \<Rightarrow> receipt_context \<Rightarrow> saga_error + ciphertext"
  rpv_open :: "ciphertext \<Rightarrow> receipt_context \<Rightarrow> saga_error + bytes"

definition protection_seal ::
  "saga_coders \<Rightarrow> receipt_provider \<Rightarrow> integrity_keyring \<Rightarrow> bytes \<Rightarrow> receipt_context
     \<Rightarrow> saga_error + protected_receipt" where
  "protection_seal c provider ring plaintext ctx =
     and_then (seal_admits plaintext) (\<lambda>_.
       seal_result c ring plaintext ctx (rpv_seal provider plaintext ctx))"

definition protection_open ::
  "saga_coders \<Rightarrow> receipt_provider \<Rightarrow> integrity_keyring \<Rightarrow> protected_receipt \<Rightarrow> receipt_context
     \<Rightarrow> saga_error + bytes" where
  "protection_open c provider ring r ctx =
     and_then (open_admits r ctx) (\<lambda>f. open_result c ring ctx f (rpv_open provider (pr_ciphertext r) ctx))"

subsection \<open>Effect context\<close>

record effect_context =
  efc_scope :: saga_scope
  efc_step :: string
  efc_phase :: phase
  efc_key :: bytes

definition effect_context_new ::
  "saga_coders \<Rightarrow> saga_scope \<Rightarrow> saga_definition \<Rightarrow> nat \<Rightarrow> phase \<Rightarrow> saga_error + effect_context" where
  "effect_context_new c sc d step ph =
     (if step < length (df_steps d)
      then and_then (effect_key (sc_uuid c) (sc_sha256 c) d sc step ph) (\<lambda>key.
        Ok \<lparr>efc_scope = sc, efc_step = sp_name (df_steps d ! step), efc_phase = ph, efc_key = key\<rparr>)
      else Err SIntegrity)"

section \<open>Theorems\<close>

subsection \<open>Key rotation\<close>

lemma check_key_ids_ok:
  "check_key_ids current before ks = Ok () \<longleftrightarrow>
     distinct (map ik_id ks) \<and> current \<notin> ik_id ` set ks \<and> ik_id ` set before \<inter> ik_id ` set ks = {}"
  by (induction ks arbitrary: before) (auto simp: list_ex_iff intro: rev_image_eqI)

lemma keyring_new_ok:
  "keyring_new current previous = Ok r \<longleftrightarrow>
     r = \<lparr>kr_current = current, kr_previous = previous\<rparr> \<and> distinct (map ik_id (keyring_keys r))"
proof -
  have "check_key_ids (ik_id current) [] previous = Ok () \<longleftrightarrow> distinct (map ik_id (current # previous))"
    by (auto simp: check_key_ids_ok)
  then show ?thesis by (auto simp: keyring_new_def and_then_Inr_iff keyring_keys_def)
qed

lemma padded_key_id_eq:
  assumes "length a \<le> key_id_max_bytes" and "length b \<le> key_id_max_bytes"
  shows "constant_time_key_id_eq a b \<longleftrightarrow> a = b"
proof
  assume eq: "constant_time_key_id_eq a b"
  then have "(word_of_nat (length a) :: u8) = word_of_nat (length b)"
    by (simp add: constant_time_key_id_eq_def padded_key_id_def)
  with assms have "length a = length b"
    by (simp add: word_of_nat_eq_iff take_bit_eq_mod key_id_max_bytes_def)
  with eq show "a = b"
    by (simp add: constant_time_key_id_eq_def padded_key_id_def append_eq_append_conv)
qed (simp add: constant_time_key_id_eq_def)

lemma verify_fold:
  "fold (\<lambda>k verified. verified \<or> P k) ks b \<longleftrightarrow> b \<or> (\<exists>k \<in> set ks. P k)"
  by (induction ks arbitrary: b) auto

lemma key_id_parse_ok: "key_id_parse raw = Ok i \<Longrightarrow> i = raw \<and> length i \<le> key_id_max_bytes"
  by (auto simp: key_id_parse_def split: if_splits)

lemma keyring_verify_iff:
  assumes "list_all (\<lambda>k. length (ik_id k) \<le> key_id_max_bytes) (keyring_keys r)"
    and "length (rf_key_id f) \<le> key_id_max_bytes"
  shows "keyring_verify hm r comps f \<longleftrightarrow>
    (\<exists>k \<in> set (keyring_keys r). keyed_fingerprint hm k comps = f)"
  unfolding keyring_verify_def verify_fold
  using assms
  by (cases f) (auto simp: padded_key_id_eq keyed_fingerprint_def list_all_iff)

text \<open>
  Verification over the rotation window is the reference check: with the parsed key ids of a
  constructed window, a fingerprint is accepted exactly when the one key that carries its id
  produces its digest, so a previous key still verifies what it signed and no other key can.
\<close>

theorem keyring_verify_reference:
  assumes "keyring_new current previous = Ok r"
    and "\<And>k. k \<in> set (current # previous) \<Longrightarrow> key_id_parse (ik_id k) = Ok (ik_id k)"
    and "key_id_parse (rf_key_id f) = Ok (rf_key_id f)"
  shows "keyring_verify hm r comps f \<longleftrightarrow>
    (\<exists>!k. k \<in> set (current # previous) \<and> ik_id k = rf_key_id f \<and>
       hm (ik_key k) (framed 8 (integrity_context # comps)) = rf_digest f)"
proof -
  have r: "keyring_keys r = current # previous" and d: "distinct (map ik_id (current # previous))"
    using assms(1) by (auto simp: keyring_new_ok keyring_keys_def)
  then have inj: "inj_on ik_id (set (current # previous))" by (simp only: distinct_map)
  have "list_all (\<lambda>k. length (ik_id k) \<le> key_id_max_bytes) (keyring_keys r)"
    using key_id_parse_ok [OF assms(2)] unfolding r by (auto simp: list_all_iff)
  with key_id_parse_ok [OF assms(3)] have "keyring_verify hm r comps f \<longleftrightarrow>
      (\<exists>k \<in> set (current # previous). keyed_fingerprint hm k comps = f)"
    unfolding r [symmetric] by (intro keyring_verify_iff) auto
  also have "\<dots> \<longleftrightarrow> (\<exists>k. k \<in> set (current # previous) \<and> ik_id k = rf_key_id f \<and>
       hm (ik_key k) (framed 8 (integrity_context # comps)) = rf_digest f)"
    by (cases f) (auto simp: keyed_fingerprint_def)
  also have "\<dots> \<longleftrightarrow> (\<exists>!k. k \<in> set (current # previous) \<and> ik_id k = rf_key_id f \<and>
       hm (ik_key k) (framed 8 (integrity_context # comps)) = rf_digest f)"
    using inj by (metis (no_types, lifting) inj_onD)
  finally show ?thesis .
qed

definition demo_key :: "string \<Rightarrow> nat \<Rightarrow> integrity_key" where
  "demo_key i n = \<lparr>ik_id = i, ik_key = replicate 32 (word_of_nat n)\<rparr>"

definition demo_hmac :: hmac where
  "demo_hmac k m = replicate 32 (hd k)"

lemma demo_key_parse: "key_id_parse (ik_id (demo_key ''a'' n)) = Ok (ik_id (demo_key ''a'' n))"
  "key_id_parse (ik_id (demo_key ''b'' n)) = Ok (ik_id (demo_key ''b'' n))"
  by (simp_all add: key_id_parse_def demo_key_def key_id_max_bytes_def rust_defs)

theorem keyring_verify_reference_witness:
  "keyring_new (demo_key ''b'' 2) [demo_key ''a'' 1]
     = Ok \<lparr>kr_current = demo_key ''b'' 2, kr_previous = [demo_key ''a'' 1]\<rparr> \<and>
   keyring_verify demo_hmac \<lparr>kr_current = demo_key ''b'' 2, kr_previous = [demo_key ''a'' 1]\<rparr> []
     \<lparr>rf_key_id = ''a'', rf_digest = replicate 32 1\<rparr> \<and>
   \<not> keyring_verify demo_hmac \<lparr>kr_current = demo_key ''b'' 2, kr_previous = [demo_key ''a'' 1]\<rparr> []
     \<lparr>rf_key_id = ''b'', rf_digest = replicate 32 1\<rparr>"
proof -
  have new: "keyring_new (demo_key ''b'' 2) [demo_key ''a'' 1]
     = Ok \<lparr>kr_current = demo_key ''b'' 2, kr_previous = [demo_key ''a'' 1]\<rparr>"
    by (simp add: keyring_new_def demo_key_def)
  have ids: "key_id_parse (ik_id k) = Ok (ik_id k)" if "k \<in> set [demo_key ''b'' 2, demo_key ''a'' 1]" for k
    using that demo_key_parse by auto
  have f: "key_id_parse (rf_key_id \<lparr>rf_key_id = i, rf_digest = d\<rparr>) = Ok (rf_key_id \<lparr>rf_key_id = i, rf_digest = d\<rparr>)"
    if "i = ''a'' \<or> i = ''b''" for i d
    using that demo_key_parse by (auto simp: demo_key_def)
  have "(\<exists>!k. k \<in> set [demo_key ''b'' 2, demo_key ''a'' 1] \<and> ik_id k = i \<and>
       demo_hmac (ik_key k) (framed 8 [integrity_context]) = replicate 32 1) \<longleftrightarrow> i = ''a''" for i
    by (auto simp: demo_key_def demo_hmac_def)
  with keyring_verify_reference [OF new ids f, where hm = demo_hmac and comps = "[]"] new
  show ?thesis by simp
qed

subsection \<open>Round trip across a rotation\<close>

text \<open>
  What was sealed can be opened in the same context, also after the key that signed it has
  moved to the previous keys: for a provider that opens what it sealed in the same context, the
  original receipt comes back.
\<close>

theorem seal_open_roundtrip:
  assumes "protection_seal c provider ring plaintext ctx = Ok r"
    and "\<And>p ct. rpv_seal provider p ctx = Ok ct \<Longrightarrow> rpv_open provider ct ctx = Ok p"
    and "kr_current ring \<in> set (keyring_keys later)"
    and "\<And>k. k \<in> set (keyring_keys later) \<Longrightarrow> key_id_parse (ik_id k) = Ok (ik_id k)"
    and "\<And>k m. length (sc_hmac c k m) = 32"
  shows "protection_open c provider later r ctx = Ok plaintext"
proof -
  let ?f = "keyed_fingerprint (sc_hmac c) (kr_current ring) [receipt_content ctx plaintext]"
  obtain ct where size: "length plaintext \<le> 1024 * 1024" and ct: "rpv_seal provider plaintext ctx = Ok ct"
    and r: "r = \<lparr>pr_ciphertext = ct, pr_key_id = rf_key_id ?f, pr_digest = rf_digest ?f,
       pr_aad = rcx_canonical ctx, pr_format = 1, pr_attempt = rcx_attempt ctx, pr_seq = rcx_seq ctx\<rparr>"
    using assms(1)
    by (auto simp: protection_seal_def seal_admits_def seal_result_def keyring_current_def and_then_Inr_iff
        Let_def split: if_splits)
  have "open_admits r ctx = Ok ?f"
    using assms(4) [OF assms(3)] assms(5)
    by (simp add: open_admits_def r keyed_fingerprint_def fingerprint_from_stored_def)
  moreover have "keyring_verify (sc_hmac c) later [receipt_content ctx plaintext] ?f"
  proof (subst keyring_verify_iff)
    show "list_all (\<lambda>k. length (ik_id k) \<le> key_id_max_bytes) (keyring_keys later)"
      using key_id_parse_ok [OF assms(4)] by (auto simp: list_all_iff)
    show "length (rf_key_id ?f) \<le> key_id_max_bytes"
      using key_id_parse_ok [OF assms(4) [OF assms(3)]] by (simp add: keyed_fingerprint_def)
  qed (use assms(3) in auto)
  ultimately show ?thesis
    using size assms(2) [OF ct] by (simp add: protection_open_def open_result_def r plaintext_bytes_def)
qed

definition demo_coders :: saga_coders where
  "demo_coders = \<lparr>sc_uuid = (\<lambda>w. replicate (unat w) CHR ''0''), sc_sha256 = (\<lambda>_. []), sc_hmac = demo_hmac\<rparr>"

definition demo_provider :: receipt_provider where
  "demo_provider =
     \<lparr>rpv_seal = (\<lambda>p ctx. ciphertext_new ''k'' (1 # p)), rpv_open = (\<lambda>ct ctx. Ok (tl (ct_bytes ct)))\<rparr>"

definition demo_context :: receipt_context where
  "demo_context = \<lparr>rcx_scope = \<lparr>sg_tenant = 1, sg_id = 2\<rparr>, rcx_canonical = [9], rcx_components = [[1]],
     rcx_attempt = 1, rcx_seq = 1\<rparr>"

definition demo_ring :: "integrity_keyring" where
  "demo_ring = \<lparr>kr_current = demo_key ''a'' 1, kr_previous = []\<rparr>"

definition demo_ring_rotated :: "integrity_keyring" where
  "demo_ring_rotated = \<lparr>kr_current = demo_key ''b'' 2, kr_previous = [demo_key ''a'' 1]\<rparr>"

theorem seal_open_roundtrip_witness:
  "\<exists>r. protection_seal demo_coders demo_provider demo_ring [7] demo_context = Ok r \<and>
     protection_open demo_coders demo_provider demo_ring_rotated r demo_context = Ok [7]"
proof -
  obtain r where seal: "protection_seal demo_coders demo_provider demo_ring [7] demo_context = Ok r"
    by (simp add: protection_seal_def seal_admits_def seal_result_def demo_provider_def ciphertext_new_def Let_def)
  moreover have "protection_open demo_coders demo_provider demo_ring_rotated r demo_context = Ok [7]"
  proof (rule seal_open_roundtrip [OF seal])
    show "key_id_parse (ik_id k) = Ok (ik_id k)" if "k \<in> set (keyring_keys demo_ring_rotated)" for k
      using that demo_key_parse by (auto simp: demo_ring_rotated_def keyring_keys_def)
  qed (auto simp: demo_provider_def ciphertext_new_def demo_ring_def demo_ring_rotated_def keyring_keys_def
      demo_coders_def demo_hmac_def split: if_splits)
  ultimately show ?thesis by blast
qed

subsection \<open>Binding to the expected effect\<close>

lemma receipt_context_fields:
  assumes "receipt_context_new c sc d step attempt seq = Ok ctx"
  obtains key where "step < length (df_steps d)"
    "rcx_canonical ctx = ascii_bytes ''rss-saga-receipt-aad-v1''
       @ framed 4 (aad_fields c sc d (df_steps d ! step) key @ [be_bytes 2 1])"
    "rcx_attempt ctx = attempt" "rcx_seq ctx = seq"
    "effect_key (sc_uuid c) (sc_sha256 c) d sc step Forward = Ok key"
  using assms by (auto simp: receipt_context_new_def and_then_Inr_iff split: if_splits)

lemma aad_fields_inject:
  assumes "aad_fields c sc d s key = aad_fields c sc' d' s' key'" and "inj (sc_uuid c)"
  shows "sc = sc' \<and> df_owner d = df_owner d' \<and> df_identity d = df_identity d' \<and>
    sp_name s = sp_name s' \<and> sp_receipt_schema s = sp_receipt_schema s'"
proof -
  have "sc = sc'" using assms by (cases sc; cases sc') (auto simp: aad_fields_def Let_def dest: injD)
  moreover have "show_nat (id_version (df_identity d)) = show_nat (id_version (df_identity d'))"
    using assms(1) by (simp add: aad_fields_def Let_def contract_version_display_def)
  then have "id_version (df_identity d) = id_version (df_identity d')" by (metis show_nat_value)
  ultimately show ?thesis
    using assms(1) by (simp add: aad_fields_def Let_def)
qed

text \<open>
  C38. A sealed receipt opens only where it belongs: if it opens in the context of some scope,
  definition, step, attempt and sequence number, these are the ones it was sealed for. No stored
  receipt can be moved to another instance, step or attempt.
\<close>

theorem receipt_opens_only_in_place:
  assumes "receipt_context_new c sc d step attempt seq = Ok ctx"
    and "receipt_context_new c sc' d' step' attempt' seq' = Ok ctx'"
    and "protection_seal c provider ring plaintext ctx = Ok r"
    and "protection_open c provider' ring' r ctx' = Ok plaintext'"
    and "inj (sc_uuid c)"
    and "list_all (\<lambda>f. length f < 2 ^ 32) (aad_fields c sc d (df_steps d ! step) [])"
    and "list_all (\<lambda>f. length f < 2 ^ 32) (aad_fields c sc' d' (df_steps d' ! step') [])"
    and "\<And>m. length (sc_sha256 c m) < 2 ^ 32"
  shows "sc' = sc \<and> df_owner d' = df_owner d \<and> df_identity d' = df_identity d \<and>
    sp_name (df_steps d' ! step') = sp_name (df_steps d ! step) \<and>
    sp_receipt_schema (df_steps d' ! step') = sp_receipt_schema (df_steps d ! step) \<and>
    attempt' = attempt \<and> seq' = seq"
proof -
  obtain key where ctx: "step < length (df_steps d)"
    "rcx_canonical ctx = ascii_bytes ''rss-saga-receipt-aad-v1''
       @ framed 4 (aad_fields c sc d (df_steps d ! step) key @ [be_bytes 2 1])"
    "rcx_attempt ctx = attempt" "rcx_seq ctx = seq" "effect_key (sc_uuid c) (sc_sha256 c) d sc step Forward = Ok key"
    using receipt_context_fields [OF assms(1)] by metis
  obtain key' where ctx': "step' < length (df_steps d')"
    "rcx_canonical ctx' = ascii_bytes ''rss-saga-receipt-aad-v1''
       @ framed 4 (aad_fields c sc' d' (df_steps d' ! step') key' @ [be_bytes 2 1])"
    "rcx_attempt ctx' = attempt'" "rcx_seq ctx' = seq'" "effect_key (sc_uuid c) (sc_sha256 c) d' sc' step' Forward = Ok key'"
    using receipt_context_fields [OF assms(2)] by metis
  have "length key < 2 ^ 32" "length key' < 2 ^ 32"
    using ctx(5) ctx'(5) assms(8) by (auto simp: effect_key_def split: if_splits)
  then have len: "list_all (\<lambda>f. length f < 256 ^ 4) (aad_fields c sc d (df_steps d ! step) key @ [be_bytes 2 1])"
    "list_all (\<lambda>f. length f < 256 ^ 4) (aad_fields c sc' d' (df_steps d' ! step') key' @ [be_bytes 2 1])"
    using assms(6,7) by (simp_all add: aad_fields_def Let_def)
  have r: "pr_aad r = rcx_canonical ctx" "pr_attempt r = attempt" "pr_seq r = seq"
    using assms(3) ctx by (auto simp: protection_seal_def seal_result_def and_then_Inr_iff Let_def)
  have same: "pr_aad r = rcx_canonical ctx'" "pr_attempt r = attempt'" "pr_seq r = seq'"
    using assms(4) ctx' by (auto simp: protection_open_def open_admits_def and_then_Inr_iff split: if_splits)
  have "framed 4 (aad_fields c sc d (df_steps d ! step) key @ [be_bytes 2 1]) @ [] =
      framed 4 (aad_fields c sc' d' (df_steps d' ! step') key' @ [be_bytes 2 1]) @ []"
    using r(1) same(1) ctx(2) ctx'(2) by simp
  from framed_inject [OF this _ len]
  have "aad_fields c sc d (df_steps d ! step) key = aad_fields c sc' d' (df_steps d' ! step') key'"
    by (simp add: aad_fields_def Let_def)
  from aad_fields_inject [OF this assms(5)] r same show ?thesis by auto
qed

theorem receipt_opens_only_in_place_witness:
  "\<exists>ctx ctx' r. receipt_context_new demo_coders \<lparr>sg_tenant = 1, sg_id = 2\<rparr> saga_demo_definition 0 1 1 = Ok ctx \<and>
     receipt_context_new demo_coders \<lparr>sg_tenant = 1, sg_id = 2\<rparr> saga_demo_definition 1 1 1 = Ok ctx' \<and>
     protection_seal demo_coders demo_provider demo_ring [7] ctx = Ok r \<and>
     (\<forall>p. protection_open demo_coders demo_provider demo_ring r ctx' \<noteq> Ok p)"
proof -
  let ?sc = "\<lparr>sg_tenant = 1, sg_id = 2\<rparr> :: saga_scope"
  have steps: "length (df_steps saga_demo_definition) = 2" by (simp add: saga_demo_definition_def)
  obtain ctx where ctx: "receipt_context_new demo_coders ?sc saga_demo_definition 0 1 1 = Ok ctx"
    by (simp add: receipt_context_new_def effect_key_def steps)
  obtain ctx' where ctx': "receipt_context_new demo_coders ?sc saga_demo_definition 1 1 1 = Ok ctx'"
    by (simp add: receipt_context_new_def effect_key_def steps)
  obtain r where r: "protection_seal demo_coders demo_provider demo_ring [7] ctx = Ok r"
    by (simp add: protection_seal_def seal_admits_def seal_result_def demo_provider_def ciphertext_new_def Let_def)
  have uuid: "inj (sc_uuid demo_coders)"
    by (rule injI) (metis demo_coders_def length_replicate saga_coders.select_convs(1) word_unat_eq_iff)
  have len: "list_all (\<lambda>f. length f < 2 ^ 32) (aad_fields demo_coders ?sc saga_demo_definition
      (df_steps saga_demo_definition ! i) [])" if "i = 0 \<or> i = 1" for i
    using that
    by (auto simp: aad_fields_def Let_def demo_coders_def saga_demo_definition_def saga_demo_identity_def
        saga_demo_step_def contract_version_display_def show_nat.simps)
  have "False" if "protection_open demo_coders demo_provider demo_ring r ctx' = Ok p" for p
    using receipt_opens_only_in_place [OF ctx ctx' r that uuid len len]
    by (simp add: demo_coders_def saga_demo_definition_def saga_demo_step_def)
  with ctx ctx' r show ?thesis by blast
qed

end
