(* ===== verification/Request_Tree.thy ===== *)
theory Request_Tree
  imports Main
begin

section \<open>Asynchronous code as request trees\<close>

text \<open>
  An \<open>async fn\<close> over injected ports is a tree: it returns, or issues a request and awaits the
  answer, or the executor chooses which of two flows is polled next. A request is issued and
  answered in two steps, so that a flow dropped by \<open>select!\<close> may leave an issued request without
  an answer. The theory gives the composition of trees, their execution against an environment,
  and a total-correctness calculus over a log of what was issued and answered.
\<close>

datatype ('q, 'r, 'a) task =
    Done 'a
  | Never
  | Fork "bool \<Rightarrow> ('q, 'r, 'a) task"
  | Issue 'q "('q, 'r, 'a) task"
  | Await 'q "'r \<Rightarrow> ('q, 'r, 'a) task"

datatype ('q, 'r) task_event = Issued 'q | Answered 'q 'r

definition ask :: "'q \<Rightarrow> ('r \<Rightarrow> ('q, 'r, 'a) task) \<Rightarrow> ('q, 'r, 'a) task" where
  "ask q k = Issue q (Await q k)"

primrec bind_task :: "('q, 'r, 'a) task \<Rightarrow> ('a \<Rightarrow> ('q, 'r, 'b) task) \<Rightarrow> ('q, 'r, 'b) task" where
  "bind_task (Done a) f = f a"
| "bind_task Never f = Never"
| "bind_task (Fork k) f = Fork (\<lambda>x. bind_task (k x) f)"
| "bind_task (Issue q t) f = Issue q (bind_task t f)"
| "bind_task (Await q k) f = Await q (\<lambda>x. bind_task (k x) f)"

lemma bind_ask [simp]: "bind_task (ask q k) f = ask q (\<lambda>r. bind_task (k r) f)"
  by (simp add: ask_def)

subsection \<open>Racing two flows\<close>

primrec children :: "('q, 'r, 'a) task \<Rightarrow> ('q, 'r, 'a) task set" where
  "children (Done a) = {}"
| "children Never = {}"
| "children (Fork k) = range k"
| "children (Issue q t) = {t}"
| "children (Await q k) = range k"

text \<open>One step of a flow, the rest given to \<open>f\<close> together with the event, if any.\<close>

definition poll ::
  "('q, 'r, 'a) task \<Rightarrow> (('q, 'r) task_event option \<Rightarrow> ('q, 'r, 'a) task \<Rightarrow> ('q, 'r, 'b) task)
     \<Rightarrow> ('q, 'r, 'b) task" where
  "poll t f =
     (case t of
        Done a \<Rightarrow> Never
      | Never \<Rightarrow> Never
      | Fork k \<Rightarrow> Fork (\<lambda>x. f None (k x))
      | Issue q t' \<Rightarrow> Issue q (f (Some (Issued q)) t')
      | Await q k \<Rightarrow> Await q (\<lambda>r. f (Some (Answered q r)) (k r)))"

lemma poll_cong [fundef_cong]:
  assumes "t = t'" and "\<And>e s. s \<in> children t' \<Longrightarrow> f e s = g e s"
  shows "poll t f = poll t' g"
  using assms by (cases t') (auto simp: poll_def)

definition child_rel :: "(('q, 'r, 'a) task \<times> ('q, 'r, 'a) task) set" where
  "child_rel = {(s, t). s \<in> children t}"

lemma wf_child_rel [simp, intro]: "wf (child_rel :: (('q, 'r, 'a) task \<times> ('q, 'r, 'a) task) set)"
proof (rule wfUNIVI)
  fix P :: "('q, 'r, 'a) task \<Rightarrow> bool" and t
  assume "\<forall>t. (\<forall>s. (s, t) \<in> child_rel \<longrightarrow> P s) \<longrightarrow> P t"
  then have step: "(\<And>s. s \<in> children t \<Longrightarrow> P s) \<Longrightarrow> P t" for t
    by (simp add: child_rel_def)
  show "P t" by (induction t) (auto intro: step)
qed

definition finished :: "('q, 'r, 'a) task \<Rightarrow> 'a option" where
  "finished t = (case t of Done a \<Rightarrow> Some a | _ \<Rightarrow> None)"

definition stuck :: "('q, 'r, 'a) task \<Rightarrow> bool" where
  "stuck t = (case t of Never \<Rightarrow> True | _ \<Rightarrow> False)"

text \<open>
  \<open>select!\<close>: the flow that finishes first wins; the first flow is taken when both are finished, and
  an unfinished first flow is handed to the branch of the second. The state \<open>s\<close> follows the events
  of both flows (\<open>True\<close> marks the first), as the variables their branches share.
\<close>

function select_biased ::
  "(bool \<Rightarrow> ('q, 'r) task_event \<Rightarrow> 's \<Rightarrow> 's) \<Rightarrow> 's \<Rightarrow> ('q, 'r, 'a) task \<Rightarrow> ('q, 'r, 'b) task
     \<Rightarrow> ('s \<Rightarrow> 'a \<Rightarrow> ('q, 'r, 'd) task) \<Rightarrow> ('s \<Rightarrow> 'b \<Rightarrow> ('q, 'r, 'a) task \<Rightarrow> ('q, 'r, 'd) task)
     \<Rightarrow> ('q, 'r, 'd) task" where
  "select_biased track s first second on_first on_second =
     (case finished first of
        Some a \<Rightarrow> on_first s a
      | None \<Rightarrow>
          (case finished second of
             Some b \<Rightarrow> on_second s b first
           | None \<Rightarrow>
               if stuck second then poll first (\<lambda>e rest.
                      select_biased track (case e of None \<Rightarrow> s | Some e \<Rightarrow> track True e s) rest second on_first on_second)
               else if stuck first then poll second (\<lambda>e rest.
                      select_biased track (case e of None \<Rightarrow> s | Some e \<Rightarrow> track False e s) first rest on_first on_second)
               else Fork (\<lambda>left.
                 if left then poll first (\<lambda>e rest.
                      select_biased track (case e of None \<Rightarrow> s | Some e \<Rightarrow> track True e s) rest second on_first on_second)
                 else poll second (\<lambda>e rest.
                      select_biased track (case e of None \<Rightarrow> s | Some e \<Rightarrow> track False e s) first rest on_first on_second))))"
  by pat_completeness auto
termination
  by (relation "inv_image (child_rel <*lex*> child_rel) (\<lambda>(_, _, first, second, _, _). (first, second))")
    (rule wf_inv_image wf_lex_prod wf_child_rel | simp add: child_rel_def)+

declare select_biased.simps [simp del]

lemma finished_Some [simp]: "finished t = Some a \<longleftrightarrow> t = Done a"
  by (cases t) (auto simp: finished_def)

lemma stuck_iff [simp]: "stuck t \<longleftrightarrow> t = Never"
  by (cases t) (auto simp: stuck_def)

lemma finished_ask [simp]: "finished (ask q k) = None" "finished (Await q k) = None"
  by (simp_all add: finished_def ask_def)

lemma finished_None: "finished t = None \<longleftrightarrow> (\<forall>a. t \<noteq> Done a)"
  by (cases t) (auto simp: finished_def)

subsection \<open>Execution\<close>

record ('q, 'r, 'w) task_env =
  te_choose :: "'w \<Rightarrow> bool \<times> 'w"
  te_issue :: "'q \<Rightarrow> 'w \<Rightarrow> 'w"
  te_answer :: "'q \<Rightarrow> 'w \<Rightarrow> 'r \<times> 'w"

text \<open>The events of a run and its result, \<open>None\<close> if it waits forever.\<close>

primrec run_task ::
  "('q, 'r, 'w) task_env \<Rightarrow> ('q, 'r, 'a) task \<Rightarrow> 'w \<Rightarrow> ('q, 'r) task_event list \<times> 'a option \<times> 'w" where
  "run_task env (Done a) = (\<lambda>w. ([], Some a, w))"
| "run_task env Never = (\<lambda>w. ([], None, w))"
| "run_task env (Fork k) = (\<lambda>w. case te_choose env w of (x, w') \<Rightarrow> run_task env (k x) w')"
| "run_task env (Issue q t) = (\<lambda>w. apfst ((#) (Issued q)) (run_task env t (te_issue env q w)))"
| "run_task env (Await q k) = (\<lambda>w.
     case te_answer env q w of (r, w') \<Rightarrow> apfst ((#) (Answered q r)) (run_task env (k r) w'))"

lemma run_ask [simp]:
  "run_task env (ask q k) w =
     (case te_answer env q (te_issue env q w) of
        (r, w') \<Rightarrow> apfst (\<lambda>es. Issued q # Answered q r # es) (run_task env (k r) w'))"
  by (simp add: ask_def apfst_def map_prod_def split: prod.split)

lemma run_bind:
  "run_task env (bind_task t f) w =
     (case run_task env t w of
        (es, None, w') \<Rightarrow> (es, None, w')
      | (es, Some a, w') \<Rightarrow> apfst ((@) es) (run_task env (f a) w'))"
  by (induction t arbitrary: w)
    (auto simp: apfst_def map_prod_def split: prod.split option.split)

subsection \<open>Total correctness\<close>

text \<open>
  A log observes the events. \<open>ensures ok obs I t l Q\<close>: for every answer that fits its request, \<open>t\<close>
  started with log \<open>l\<close> returns, the log satisfies \<open>I\<close> as long as it runs, and its result and log
  satisfy \<open>Q\<close>.
\<close>

primrec ensures ::
  "('q \<Rightarrow> 'r \<Rightarrow> bool) \<Rightarrow> (('q, 'r) task_event \<Rightarrow> 'l \<Rightarrow> 'l) \<Rightarrow> ('l \<Rightarrow> bool)
     \<Rightarrow> ('q, 'r, 'a) task \<Rightarrow> 'l \<Rightarrow> ('a \<Rightarrow> 'l \<Rightarrow> bool) \<Rightarrow> bool" where
  "ensures ok obs I (Done a) = (\<lambda>l Q. Q a l)"
| "ensures ok obs I Never = (\<lambda>l Q. False)"
| "ensures ok obs I (Fork k) = (\<lambda>l Q. I l \<and> (\<forall>x. ensures ok obs I (k x) l Q))"
| "ensures ok obs I (Issue q t) = (\<lambda>l Q. I l \<and> ensures ok obs I t (obs (Issued q) l) Q)"
| "ensures ok obs I (Await q k) =
     (\<lambda>l Q. I l \<and> (\<forall>r. ok q r \<longrightarrow> ensures ok obs I (k r) (obs (Answered q r) l) Q))"

lemma ensures_run:
  assumes "ensures ok obs I t l Q" and "\<And>q w. ok q (fst (te_answer env q w))"
    and "run_task env t w = (es, r, w')"
  shows "\<exists>a. r = Some a \<and> Q a (fold obs es l)"
  using assms(1,3)
proof (induction t arbitrary: l w es)
  case (Await q k)
  obtain x v where x: "te_answer env q w = (x, v)" by fastforce
  with assms(2) [of q w] have "ok q x" by simp
  with Await x show ?case
    by (fastforce simp: apfst_def map_prod_def split: prod.splits)
qed (fastforce simp: apfst_def map_prod_def split: prod.splits)+

lemma ensures_ask:
  assumes "I l" and "I (obs (Issued q) l)"
    and "\<And>r. ok q r \<Longrightarrow> ensures ok obs I (k r) (obs (Answered q r) (obs (Issued q) l)) Q"
  shows "ensures ok obs I (ask q k) l Q"
  using assms by (simp add: ask_def)

lemma ensures_live: "ensures ok obs I t l Q \<Longrightarrow> finished t = None \<Longrightarrow> I l"
  by (cases t) (auto simp: finished_def)

lemma ensures_mono:
  "ensures ok obs I t l Q \<Longrightarrow> (\<And>a l. Q a l \<Longrightarrow> R a l) \<Longrightarrow> ensures ok obs I t l R"
  by (induction t arbitrary: l) auto

lemma ensures_weaken: "ensures ok obs I t l Q \<Longrightarrow> (\<And>l. I l \<Longrightarrow> J l) \<Longrightarrow> ensures ok obs J t l Q"
  by (induction t arbitrary: l) auto

lemma ensures_bind:
  "ensures ok obs J t l R \<Longrightarrow> (\<And>l. J l \<Longrightarrow> I l) \<Longrightarrow> (\<And>a l. R a l \<Longrightarrow> ensures ok obs I (f a) l Q)
     \<Longrightarrow> ensures ok obs I (bind_task t f) l Q"
  by (induction t arbitrary: l) auto

text \<open>A flow whose requests the log does not observe; its results satisfy \<open>P\<close>.\<close>

primrec unobserved :: "(('q, 'r) task_event \<Rightarrow> 'l \<Rightarrow> 'l) \<Rightarrow> ('a \<Rightarrow> bool) \<Rightarrow> ('q, 'r, 'a) task \<Rightarrow> bool" where
  "unobserved obs P (Done a) = P a"
| "unobserved obs P Never = True"
| "unobserved obs P (Fork k) = (\<forall>x. unobserved obs P (k x))"
| "unobserved obs P (Issue q t) = ((\<forall>l. obs (Issued q) l = l) \<and> unobserved obs P t)"
| "unobserved obs P (Await q k) = (\<forall>r. (\<forall>l. obs (Answered q r) l = l) \<and> unobserved obs P (k r))"

lemma unobserved_child: "unobserved obs P t \<Longrightarrow> s \<in> children t \<Longrightarrow> unobserved obs P s"
  by (cases t) auto

lemma unobserved_ask [simp]:
  "unobserved obs P (ask q k) \<longleftrightarrow>
     (\<forall>l. obs (Issued q) l = l) \<and> (\<forall>r. (\<forall>l. obs (Answered q r) l = l) \<and> unobserved obs P (k r))"
  by (simp add: ask_def)

lemma poll_unobserved:
  assumes "unobserved obs P t" and "finished t = None" and "t \<noteq> Never" and "I l"
    and "\<And>e s. s \<in> children t \<Longrightarrow> ensures ok obs I (f e s) l Q"
  shows "ensures ok obs I (poll t f) l Q"
  using assms by (cases t) (auto simp: poll_def finished_def)

text \<open>
  \<open>F s l\<close> relates the tracked state to the log at every point where the first flow may be dropped.
\<close>

lemma ensures_poll:
  assumes "ensures ok obs J t l R" and "finished t = None" and "I l" and "F s l"
    and "\<And>e s l. F s l \<Longrightarrow> F (track e s) (obs e l)"
    and "\<And>e rest l'. rest \<in> children t \<Longrightarrow> ensures ok obs J rest l' R
      \<Longrightarrow> F (case e of None \<Rightarrow> s | Some e \<Rightarrow> track e s) l' \<Longrightarrow> ensures ok obs I (f e rest) l' Q"
  shows "ensures ok obs I (poll t f) l Q"
  using assms(1-4) by (cases t) (auto simp: poll_def finished_def intro!: assms(5,6))

lemma select_biased_equations:
  "select_biased track s (Done a) t f g = f s a"
  "finished u = None \<Longrightarrow> select_biased track s u (Done b) f g = g s b u"
  "finished u = None \<Longrightarrow> select_biased track s u Never f g =
     poll u (\<lambda>e rest. select_biased track (case e of None \<Rightarrow> s | Some e \<Rightarrow> track True e s) rest Never f g)"
  "finished u = None \<Longrightarrow> u \<noteq> Never \<Longrightarrow> finished t = None \<Longrightarrow> t \<noteq> Never \<Longrightarrow>
     select_biased track s u t f g =
       Fork (\<lambda>left. if left
         then poll u (\<lambda>e rest. select_biased track (case e of None \<Rightarrow> s | Some e \<Rightarrow> track True e s) rest t f g)
         else poll t (\<lambda>e rest. select_biased track (case e of None \<Rightarrow> s | Some e \<Rightarrow> track False e s) u rest f g))"
  by (subst select_biased.simps; simp add: finished_def Let_def)+

lemma poll_ask [simp]:
  "poll (ask q k) f = Issue q (f (Some (Issued q)) (Await q k))"
  "poll (Await q k) f = Await q (\<lambda>r. f (Some (Answered q r)) (k r))"
  by (simp_all add: poll_def ask_def)

lemma ensures_select:
  assumes "ensures ok obs J first l R" and "unobserved obs P second" and "F s l"
    and "\<And>e s l. F s l \<Longrightarrow> F (track True e s) (obs e l)" and "\<And>e s l. F s l \<Longrightarrow> F (track False e s) l"
    and "\<And>l. J l \<Longrightarrow> I l"
    and "\<And>s a l. R a l \<Longrightarrow> F s l \<Longrightarrow> ensures ok obs I (on_first s a) l Q"
    and "\<And>s b rest l. P b \<Longrightarrow> F s l \<Longrightarrow> J l \<Longrightarrow> ensures ok obs J rest l R \<Longrightarrow>
      ensures ok obs I (on_second s b rest) l Q"
  shows "ensures ok obs I (select_biased track s first second on_first on_second) l Q"
  using assms
proof (induction track s first second on_first on_second arbitrary: l rule: select_biased.induct)
  case (1 track s first second on_first on_second)
  note first = 1(5) and second = 1(6) and F = 1(7) and follows = 1(8) 1(9)
  note rest = follows 1(10) 1(11) 1(12)
  have live: "first \<noteq> Never" using first by auto
  let ?left = "\<lambda>e rest. select_biased track (case e of None \<Rightarrow> s | Some e \<Rightarrow> track True e s) rest second on_first on_second"
  let ?right = "\<lambda>e rest. select_biased track (case e of None \<Rightarrow> s | Some e \<Rightarrow> track False e s) first rest on_first on_second"
  consider (fst) a where "first = Done a"
    | (snd) b where "finished first = None" "second = Done b"
    | (never) "finished first = None" "second = Never"
    | (both) "finished first = None" "finished second = None" "\<not> stuck second" "\<not> stuck first"
    using live by (metis finished_Some not_Some_eq stuck_iff)
  then show ?case
  proof cases
    case fst
    then show ?thesis using first F 1(11) by (simp add: select_biased_equations)
  next
    case snd
    then show ?thesis
      using second F first 1(12) ensures_live [OF first] by (simp add: select_biased_equations)
  next
    case never
    have I: "I l" using ensures_live [OF first never(1)] by (rule 1(10))
    have none: "finished second = None" using never(2) by (simp add: finished_def)
    have stk: "stuck second" using never(2) by simp
    have "ensures ok obs I (?left e r) l' Q"
      if "r \<in> children first" "ensures ok obs J r l' R" "F (case e of None \<Rightarrow> s | Some e \<Rightarrow> track True e s) l'" for e r l'
      by (rule 1(1) [OF never(1) none stk that(1,2) second that(3) rest])
    then have "ensures ok obs I (poll first ?left) l Q"
      using I F follows(1) by (intro ensures_poll [where F = F and s = s and track = "track True", OF first never(1)]) auto
    with never show ?thesis by (simp add: select_biased_equations)
  next
    case both
    have not_left: "\<not> False" by simp
    have I: "I l" using ensures_live [OF first both(1)] by (rule 1(10))
    have "ensures ok obs I (?left e r) l' Q"
      if "r \<in> children first" "ensures ok obs J r l' R" "F (case e of None \<Rightarrow> s | Some e \<Rightarrow> track True e s) l'" for e r l'
      by (rule 1(3) [OF both TrueI that(1,2) second that(3) rest])
    then have left: "ensures ok obs I (poll first ?left) l Q"
      using I F follows(1) by (intro ensures_poll [where F = F and s = s and track = "track True", OF first both(1)]) auto
    have "F (case e of None \<Rightarrow> s | Some e \<Rightarrow> track False e s) l" for e
      using F follows(2) by (cases e) auto
    then have "ensures ok obs I (?right e r) l Q" if "r \<in> children second" for e r
      by (rule 1(4) [OF both not_left that first unobserved_child [OF second that] _ rest])
    then have right: "ensures ok obs I (poll second ?right) l Q"
      using both I by (intro poll_unobserved [OF second]) auto
    show ?thesis using both I left right by (simp add: select_biased_equations)
  qed
qed

end
