(* ===== verification/Saga_Executor.thy ===== *)
theory Saga_Executor
  imports Saga_Receipt Request_Tree
begin

section \<open>Saga executor\<close>

text \<open>
  The bounded driver of \<^verbatim>\<open>crates/saga/src/executor.rs\<close> with the registry (\<^verbatim>\<open>action.rs\<close>), the
  control of deadline and cancellation (\<^verbatim>\<open>control.rs\<close>) and the store's values (\<^verbatim>\<open>store.rs\<close>). Store,
  cipher, actions and clock are the environment; the executor is a request tree. The renewal
  flow is unfolded \<open>fuel\<close> times and then stays pending; the theorems hold for every \<open>fuel\<close>.
\<close>

subsection \<open>Actions and the registry\<close>

datatype 'a action_outcome = Applied 'a | NotApplied | Unknown

text \<open>
  The typed adapters: \<open>to_json\<close> is the canonical encoder of a step's receipt type and \<open>from_json\<close>
  its decoder. A \<open>ProbeOutcome\<close> has the same three values as an \<open>EffectOutcome\<close>.
\<close>

definition encode_outcome ::
  "('r \<Rightarrow> bytes option) \<Rightarrow> 'r action_outcome \<Rightarrow> saga_error + bytes action_outcome" where
  "encode_outcome to_json out =
     (case out of
        Applied receipt \<Rightarrow> and_then (ok_or (to_json receipt) SEffectUnknown) (\<lambda>b. Ok (Applied b))
      | NotApplied \<Rightarrow> Ok NotApplied
      | Unknown \<Rightarrow> Ok Unknown)"

definition typed_execute ::
  "('r \<Rightarrow> bytes option) \<Rightarrow> (effect_context \<Rightarrow> 'r action_outcome) \<Rightarrow> (effect_context \<Rightarrow> 'r action_outcome)
     \<Rightarrow> effect_context \<Rightarrow> bool \<Rightarrow> saga_error + bytes action_outcome" where
  "typed_execute to_json execute probe_of ctx probe =
     encode_outcome to_json (if probe then probe_of ctx else execute ctx)"

definition typed_compensate ::
  "(bytes \<Rightarrow> 'r option) \<Rightarrow> (effect_context \<Rightarrow> 'r \<Rightarrow> unit action_outcome)
     \<Rightarrow> (effect_context \<Rightarrow> 'r \<Rightarrow> unit action_outcome) \<Rightarrow> effect_context \<Rightarrow> bytes \<Rightarrow> bool
     \<Rightarrow> saga_error + unit action_outcome" where
  "typed_compensate from_json compensate_of probe_of ctx receipt probe =
     and_then (ok_or (from_json receipt) SProtection) (\<lambda>r.
       Ok (if probe then probe_of ctx r else compensate_of ctx r))"

text \<open>An action is the type of its receipt; its code is behind the environment.\<close>

record registered =
  rg_definition :: saga_definition
  rg_actions :: "nat list"

definition definition_builder_new ::
  "definition_encoder \<Rightarrow> (bytes \<Rightarrow> bytes) \<Rightarrow> saga_definition \<Rightarrow> saga_error + registered" where
  "definition_builder_new canon sha256 d =
     and_then (definition_validate canon sha256 d) (\<lambda>_. Ok \<lparr>rg_definition = d, rg_actions = []\<rparr>)"

definition builder_step :: "registered \<Rightarrow> string \<Rightarrow> string \<Rightarrow> nat \<Rightarrow> saga_error + registered" where
  "builder_step b name schema receipt_type =
     (let i = length (rg_actions b); steps = df_steps (rg_definition b) in
      if (if i < length steps then Some (sp_receipt_schema (steps ! i)) else None) \<noteq> Some schema
      then Err SDefinition
      else if sp_name (steps ! i) \<noteq> name then Err SDefinition
      else Ok (b\<lparr>rg_actions := rg_actions b @ [receipt_type]\<rparr>))"

record completion =
  cm_definition :: saga_definition
  cm_step :: nat
  cm_type :: nat

definition builder_last_step ::
  "registered \<Rightarrow> string \<Rightarrow> string \<Rightarrow> nat \<Rightarrow> saga_error + (registered \<times> completion)" where
  "builder_last_step b name schema receipt_type =
     (let i = length (rg_actions b) in
      if i + 1 \<noteq> length (df_steps (rg_definition b)) then Err SDefinition
      else and_then (builder_step b name schema receipt_type) (\<lambda>b'.
        Ok (b', \<lparr>cm_definition = rg_definition b, cm_step = i, cm_type = receipt_type\<rparr>)))"

type_synonym saga_registry = "(saga_identity \<times> registered) list"

definition registry_register :: "saga_registry \<Rightarrow> registered \<Rightarrow> saga_error + saga_registry" where
  "registry_register entries b =
     (if length (rg_actions b) \<noteq> length (df_steps (rg_definition b))
         \<or> list_ex (\<lambda>(i, _). id_contract i = id_contract (df_identity (rg_definition b))
                          \<and> id_version i = id_version (df_identity (rg_definition b))) entries
      then Err SDefinition
      else Ok ((df_identity (rg_definition b), b) # entries))"

definition registry_resolve :: "saga_registry \<Rightarrow> saga_definition \<Rightarrow> saga_error + registered" where
  "registry_resolve entries d =
     and_then (ok_or (map_of entries (df_identity d)) SUnsupportedDefinition) (\<lambda>entry.
       if rg_definition entry \<noteq> d then Err SUnsupportedDefinition else Ok entry)"

subsection \<open>Store values\<close>

record saga_lease =
  le_scope :: saga_scope
  le_token :: "128 word"
  le_epoch :: int

definition lease_from_provider :: "saga_scope \<Rightarrow> 128 word \<Rightarrow> int \<Rightarrow> saga_error + saga_lease" where
  "lease_from_provider sc token epoch =
     (if epoch \<le> 0 then Err SFenced else Ok \<lparr>le_scope = sc, le_token = token, le_epoch = epoch\<rparr>)"

record mutation =
  mu_scope :: saga_scope
  mu_event :: saga_event
  mu_before :: history_head
  mu_after :: history_head
  mu_key :: bytes

definition mutation_new :: "saga_coders \<Rightarrow> saga_scope \<Rightarrow> snapshot \<Rightarrow> saga_event \<Rightarrow> saga_error + mutation" where
  "mutation_new c sc s e =
     and_then (prepare s e True) (\<lambda>h.
     and_then (effect_key (sc_uuid c) (sc_sha256 c) (sn_definition s) sc (se_step e) (kind_phase (se_kind e))) (\<lambda>key.
       Ok \<lparr>mu_scope = sc, mu_event = e, mu_before = sn_head s, mu_after = h, mu_key = key\<rparr>))"

definition mutation_accept :: "mutation \<Rightarrow> snapshot \<Rightarrow> snapshot" where
  "mutation_accept m s = accept (mu_event m) (mu_after m) s"

definition lease_policy_new :: "nat \<Rightarrow> saga_error + nat" where
  "lease_policy_new ttl =
     (if ttl < 30 * 1000000 \<or> ttl > 86400 * 1000000000 then Err SLeaseInput else Ok ttl)"

definition renewal_interval :: "nat \<Rightarrow> nat" where
  "renewal_interval ttl = ttl div 3"

definition saga_uncertain :: "saga_error \<Rightarrow> saga_error" where
  "saga_uncertain e = (if e \<in> {SCancelled, SDeadline} then SCommitUnknown else e)"

subsection \<open>Requests\<close>

datatype interruption = InterruptCancelled | InterruptDeadline

fun interruption_error :: "interruption \<Rightarrow> saga_error" where
  "interruption_error InterruptCancelled = SCancelled"
| "interruption_error InterruptDeadline = SDeadline"

text \<open>The answer of a call raced with cancellation and deadline.\<close>

datatype 'x call_reply = Interrupted interruption | Returned "saga_error + 'x"

definition reply_result :: "'x call_reply \<Rightarrow> saga_error + 'x" where
  "reply_result r = (case r of Interrupted i \<Rightarrow> Err (interruption_error i) | Returned x \<Rightarrow> x)"

datatype effect_call =
    ForwardCall nat effect_context bool
  | ReverseCall nat effect_context bytes bool

datatype exec_request =
    QCheck
  | QSleep nat
  | QRegister saga_scope saga_definition history_capacity
  | QClaim saga_scope nat
  | QRenew saga_lease nat
  | QRelease saga_lease
  | QHistoryHead saga_lease
  | QExtendHistory saga_lease nat history_capacity history_capacity
  | QSnapshot saga_lease read_budget
  | QCommit saga_lease mutation
  | QCandidates candidate_filter "128 word" "128 word option" nat
  | QSeal bytes receipt_context
  | QOpen ciphertext receipt_context
  | QEffect effect_call

datatype exec_answer =
    AChecked "interruption option"
  | ADone "unit call_reply"
  | AClaimed "saga_lease call_reply"
  | AHead "history_head call_reply"
  | ASnapshot "snapshot call_reply"
  | ACandidates "saga_scope list call_reply"
  | ASealed "ciphertext call_reply"
  | AOpened "bytes call_reply"
  | AForward "bytes action_outcome call_reply"
  | AReverse "unit action_outcome call_reply"

type_synonym 'a exec_task = "(exec_request, exec_answer, 'a) task"

definition saga_check :: "(saga_error + unit \<Rightarrow> 'a exec_task) \<Rightarrow> 'a exec_task" where
  "saga_check k =
     ask QCheck (\<lambda>a. case a of
       AChecked None \<Rightarrow> k (Ok ())
     | AChecked (Some i) \<Rightarrow> k (Err (interruption_error i))
     | _ \<Rightarrow> Never)"

text \<open>\<open>Control::run\<close> of one provider call; \<open>pick\<close> reads the answer of its request.\<close>

definition saga_call ::
  "exec_request \<Rightarrow> (exec_answer \<Rightarrow> 'x call_reply option) \<Rightarrow> (saga_error + 'x \<Rightarrow> 'a exec_task) \<Rightarrow> 'a exec_task" where
  "saga_call q pick k =
     saga_check (\<lambda>c. case c of
       Inl e \<Rightarrow> k (Err e)
     | Inr _ \<Rightarrow> ask q (\<lambda>a. case pick a of None \<Rightarrow> Never | Some r \<Rightarrow> k (reply_result r)))"

definition pick_done :: "exec_answer \<Rightarrow> unit call_reply option" where
  "pick_done a = (case a of ADone r \<Rightarrow> Some r | _ \<Rightarrow> None)"

definition pick_claimed :: "exec_answer \<Rightarrow> saga_lease call_reply option" where
  "pick_claimed a = (case a of AClaimed r \<Rightarrow> Some r | _ \<Rightarrow> None)"

definition pick_head :: "exec_answer \<Rightarrow> history_head call_reply option" where
  "pick_head a = (case a of AHead r \<Rightarrow> Some r | _ \<Rightarrow> None)"

definition pick_snapshot :: "exec_answer \<Rightarrow> snapshot call_reply option" where
  "pick_snapshot a = (case a of ASnapshot r \<Rightarrow> Some r | _ \<Rightarrow> None)"

definition pick_candidates :: "exec_answer \<Rightarrow> saga_scope list call_reply option" where
  "pick_candidates a = (case a of ACandidates r \<Rightarrow> Some r | _ \<Rightarrow> None)"

definition pick_sealed :: "exec_answer \<Rightarrow> ciphertext call_reply option" where
  "pick_sealed a = (case a of ASealed r \<Rightarrow> Some r | _ \<Rightarrow> None)"

definition pick_opened :: "exec_answer \<Rightarrow> bytes call_reply option" where
  "pick_opened a = (case a of AOpened r \<Rightarrow> Some r | _ \<Rightarrow> None)"

definition pick_forward :: "exec_answer \<Rightarrow> bytes action_outcome call_reply option" where
  "pick_forward a = (case a of AForward r \<Rightarrow> Some r | _ \<Rightarrow> None)"

definition pick_reverse :: "exec_answer \<Rightarrow> unit action_outcome call_reply option" where
  "pick_reverse a = (case a of AReverse r \<Rightarrow> Some r | _ \<Rightarrow> None)"

lemmas pick_defs = pick_done_def pick_claimed_def pick_head_def pick_snapshot_def pick_candidates_def
  pick_sealed_def pick_opened_def pick_forward_def pick_reverse_def

text \<open>Which answer belongs to which request; a store grants a claim for the requested scope only.\<close>

definition answer_fits :: "exec_request \<Rightarrow> exec_answer \<Rightarrow> bool" where
  "answer_fits q a =
     (case q of
        QCheck \<Rightarrow> (case a of AChecked _ \<Rightarrow> True | _ \<Rightarrow> False)
      | QClaim sc _ \<Rightarrow>
          (case pick_claimed a of
             None \<Rightarrow> False
           | Some (Returned (Inr lease)) \<Rightarrow> le_scope lease = sc
           | Some _ \<Rightarrow> True)
      | QHistoryHead _ \<Rightarrow> pick_head a \<noteq> None
      | QSnapshot _ _ \<Rightarrow> pick_snapshot a \<noteq> None
      | QCandidates _ _ _ _ \<Rightarrow> pick_candidates a \<noteq> None
      | QSeal _ _ \<Rightarrow> pick_sealed a \<noteq> None
      | QOpen _ _ \<Rightarrow> pick_opened a \<noteq> None
      | QEffect (ForwardCall _ _ _) \<Rightarrow> pick_forward a \<noteq> None
      | QEffect (ReverseCall _ _ _ _) \<Rightarrow> pick_reverse a \<noteq> None
      | _ \<Rightarrow> pick_done a \<noteq> None)"

lemma pick_Some [simp]:
  "pick_done a = Some u \<longleftrightarrow> a = ADone u" "pick_claimed a = Some v \<longleftrightarrow> a = AClaimed v"
  "pick_head a = Some h \<longleftrightarrow> a = AHead h" "pick_snapshot a = Some s \<longleftrightarrow> a = ASnapshot s"
  "pick_candidates a = Some cs \<longleftrightarrow> a = ACandidates cs" "pick_sealed a = Some ct \<longleftrightarrow> a = ASealed ct"
  "pick_opened a = Some b \<longleftrightarrow> a = AOpened b" "pick_forward a = Some f \<longleftrightarrow> a = AForward f"
  "pick_reverse a = Some x \<longleftrightarrow> a = AReverse x"
  by (cases a; simp add: pick_defs)+

lemma answer_fits_check: "answer_fits QCheck a \<longleftrightarrow> (\<exists>i. a = AChecked i)"
  by (cases a) (auto simp: answer_fits_def)

lemma answer_fits_claim:
  "answer_fits (QClaim sc d) a \<longleftrightarrow>
     (\<exists>r. a = AClaimed r \<and> (\<forall>lease. r = Returned (Inr lease) \<longrightarrow> le_scope lease = sc))"
  by (cases a) (auto simp: answer_fits_def pick_claimed_def split: call_reply.splits sum.splits)

subsection \<open>Reports\<close>

datatype run_stop = StopHistoryLimited history_limit | StopCompleted | StopPaused | StopYielded

datatype failure_kind = ForwardRetriesExhausted | CompensationWasNotApplied

record saga_report =
  rt_head :: history_head
  rt_advances :: nat
  rt_stop :: run_stop
  rt_failure :: "(string \<times> failure_kind) option"
  rt_success :: "(saga_scope \<times> saga_definition) option"

definition report_of :: "saga_scope \<Rightarrow> snapshot \<Rightarrow> nat \<Rightarrow> saga_report" where
  "report_of sc s advances =
     (let status = pg_status (sn_progress s); steps = df_steps (sn_definition s) in
      \<lparr>rt_head = sn_head s, rt_advances = advances,
       rt_stop = (if saga_is_terminal status then StopCompleted
                  else if status = StatusCompensationFailed then StopPaused else StopYielded),
       rt_failure =
         (if status = StatusCompensationFailed
          then map_option (\<lambda>step. (sp_name (steps ! step), CompensationWasNotApplied))
                 (pg_compensation (sn_progress s))
          else if status \<in> {Compensating, Compensated}
          then Some (sp_name (steps ! pg_forward (sn_progress s)), ForwardRetriesExhausted)
          else None),
       rt_success = (if status = Succeeded then Some (sc, sn_definition s) else None)\<rparr>)"

definition limited_report :: "saga_scope \<Rightarrow> snapshot \<Rightarrow> nat \<Rightarrow> saga_error \<Rightarrow> saga_error + saga_report" where
  "limited_report sc s advances e =
     (case e of
        SHistoryLimited reason \<Rightarrow> Ok (report_of sc s advances\<lparr>rt_stop := StopHistoryLimited reason\<rparr>)
      | _ \<Rightarrow> Err e)"

subsection \<open>Receipts under an authentication allowance\<close>

record executor =
  ex_coders :: saga_coders
  ex_ring :: integrity_keyring
  ex_registry :: saga_registry
  ex_ttl :: nat
  ex_read :: read_budget

definition require_open :: "nat \<Rightarrow> saga_error + unit" where
  "require_open work =
     (if work < plaintext_bytes then Err (SHistoryLimited AuthenticationAllowance) else Ok ())"

definition charge :: "nat \<Rightarrow> saga_error + nat" where
  "charge work = and_then (require_open work) (\<lambda>_. Ok (work - plaintext_bytes))"

definition control_seal ::
  "executor \<Rightarrow> bytes \<Rightarrow> receipt_context \<Rightarrow> (saga_error + protected_receipt \<Rightarrow> 'a exec_task) \<Rightarrow> 'a exec_task" where
  "control_seal x plaintext ctx k =
     saga_check (\<lambda>c. case and_then c (\<lambda>_. seal_admits plaintext) of
       Inl e \<Rightarrow> k (Err e)
     | Inr _ \<Rightarrow> ask (QSeal plaintext ctx) (\<lambda>a. case pick_sealed a of
         None \<Rightarrow> Never
       | Some (Interrupted i) \<Rightarrow> k (Err (interruption_error i))
       | Some (Returned r) \<Rightarrow> k (seal_result (ex_coders x) (ex_ring x) plaintext ctx r)))"

definition control_open ::
  "executor \<Rightarrow> protected_receipt \<Rightarrow> receipt_context \<Rightarrow> (saga_error + bytes \<Rightarrow> 'a exec_task) \<Rightarrow> 'a exec_task" where
  "control_open x r ctx k =
     saga_check (\<lambda>c. case and_then c (\<lambda>_. open_admits r ctx) of
       Inl e \<Rightarrow> k (Err e)
     | Inr f \<Rightarrow> ask (QOpen (pr_ciphertext r) ctx) (\<lambda>a. case pick_opened a of
         None \<Rightarrow> Never
       | Some (Interrupted i) \<Rightarrow> k (Err (interruption_error i))
       | Some (Returned p) \<Rightarrow> k (open_result (ex_coders x) (ex_ring x) ctx f p)))"

text \<open>The allowance left is passed on also when the provider call fails.\<close>

definition open_receipt ::
  "executor \<Rightarrow> protected_receipt \<Rightarrow> receipt_context \<Rightarrow> nat
     \<Rightarrow> (saga_error + bytes \<Rightarrow> nat \<Rightarrow> 'a exec_task) \<Rightarrow> 'a exec_task" where
  "open_receipt x r ctx work k =
     (case charge work of
        Inl e \<Rightarrow> k (Err e) work
      | Inr left \<Rightarrow> control_open x r ctx (\<lambda>p. k p left))"

fun verify_receipts ::
  "executor \<Rightarrow> saga_scope \<Rightarrow> saga_definition \<Rightarrow> saga_event list \<Rightarrow> nat
     \<Rightarrow> (saga_error + nat \<Rightarrow> 'a exec_task) \<Rightarrow> 'a exec_task" where
  "verify_receipts x sc d [] work k = k (Ok work)"
| "verify_receipts x sc d (e # es) work k =
     (case se_receipt e of
        None \<Rightarrow> verify_receipts x sc d es work k
      | Some r \<Rightarrow>
          (case receipt_context_new (ex_coders x) sc d (se_step e) (se_attempt e) (se_seq e) of
             Inl err \<Rightarrow> k (Err err)
           | Inr ctx \<Rightarrow> open_receipt x r ctx work (\<lambda>p left. case p of
               Inl err \<Rightarrow> k (Err err)
             | Inr _ \<Rightarrow> verify_receipts x sc d es left k)))"

subsection \<open>Durable progress\<close>

definition persist ::
  "saga_lease \<Rightarrow> snapshot \<Rightarrow> mutation \<Rightarrow> (saga_error + unit \<Rightarrow> snapshot \<Rightarrow> 'a exec_task) \<Rightarrow> 'a exec_task" where
  "persist lease s m k =
     saga_call (QCommit lease m) pick_done (\<lambda>r. case map_err saga_uncertain r of
       Inl e \<Rightarrow> k (Err e) s
     | Inr _ \<Rightarrow> k (Ok ()) (mutation_accept m s))"

definition commit ::
  "executor \<Rightarrow> saga_lease \<Rightarrow> snapshot \<Rightarrow> saga_event
     \<Rightarrow> (saga_error + unit \<Rightarrow> snapshot \<Rightarrow> 'a exec_task) \<Rightarrow> 'a exec_task" where
  "commit x lease s e k =
     (case mutation_new (ex_coders x) (le_scope lease) s e of
        Inl err \<Rightarrow> k (Err err) s
      | Inr m \<Rightarrow> persist lease s m k)"

definition commit_admission ::
  "executor \<Rightarrow> saga_lease \<Rightarrow> snapshot \<Rightarrow> saga_event \<Rightarrow> nat
     \<Rightarrow> (saga_error + unit \<Rightarrow> snapshot \<Rightarrow> 'a exec_task) \<Rightarrow> 'a exec_task" where
  "commit_admission x lease s e work k =
     (case mutation_new (ex_coders x) (le_scope lease) s e of
        Inl err \<Rightarrow> k (Err err) s
      | Inr m \<Rightarrow>
          (case (if se_kind (mu_event m) \<in> {CompensationIntent, Resume} then require_open work else Ok ()) of
             Inl err \<Rightarrow> k (Err err) s
           | Inr _ \<Rightarrow> persist lease s m k))"

definition forward_event ::
  "snapshot \<Rightarrow> saga_event \<Rightarrow> event_kind \<Rightarrow> protected_receipt option \<Rightarrow> saga_event" where
  "forward_event s intent kind receipt =
     \<lparr>se_seq = sn_revision s, se_step = se_step intent, se_attempt = se_attempt intent, se_kind = kind,
      se_receipt = receipt\<rparr>"

definition exec_forward ::
  "executor \<Rightarrow> saga_scope \<Rightarrow> snapshot \<Rightarrow> registered \<Rightarrow> saga_event \<Rightarrow> bool
     \<Rightarrow> (saga_error + saga_event \<Rightarrow> 'a exec_task) \<Rightarrow> 'a exec_task" where
  "exec_forward x sc s entry intent probe k =
     (case effect_context_new (ex_coders x) sc (rg_definition entry) (se_step intent) Forward of
        Inl e \<Rightarrow> k (Err e)
      | Inr ctx \<Rightarrow>
          saga_call (QEffect (ForwardCall (se_step intent) ctx probe)) pick_forward (\<lambda>out. case out of
            Inl e \<Rightarrow> k (Err e)
          | Inr (Applied plaintext) \<Rightarrow>
              (case receipt_context_new (ex_coders x) sc (rg_definition entry) (se_step intent)
                      (se_attempt intent) (sn_revision s) of
                 Inl e \<Rightarrow> k (Err e)
               | Inr rctx \<Rightarrow> control_seal x plaintext rctx (\<lambda>sealed. case sealed of
                   Inl e \<Rightarrow> k (Err e)
                 | Inr receipt \<Rightarrow> k (Ok (forward_event s intent ForwardApplied (Some receipt)))))
          | Inr NotApplied \<Rightarrow>
              k (Ok (forward_event s intent (if probe then ForwardProbeNotApplied else ForwardNotApplied) None))
          | Inr Unknown \<Rightarrow> k (Err SEffectUnknown)))"

definition exec_compensate ::
  "executor \<Rightarrow> saga_scope \<Rightarrow> snapshot \<Rightarrow> registered \<Rightarrow> nat \<Rightarrow> bool
     \<Rightarrow> (saga_error + saga_event \<Rightarrow> nat \<Rightarrow> 'a exec_task) \<Rightarrow> 'a exec_task" where
  "exec_compensate x sc s entry work probe k =
     (case (pg_pending (sn_progress s), pg_compensation (sn_progress s)) of
        (Some intent, Some step) \<Rightarrow>
          if step \<noteq> it_step intent then k (Err SIntegrity) work
          else
            (case and_then (sn_receipt s step) (\<lambda>e. ok_or (se_receipt e) SIntegrity) of
               Inl err \<Rightarrow> k (Err err) work
             | Inr receipt \<Rightarrow>
                 (case receipt_context_new (ex_coders x) sc (rg_definition entry) step
                         (pr_attempt receipt) (pr_seq receipt) of
                    Inl err \<Rightarrow> k (Err err) work
                  | Inr rctx \<Rightarrow> open_receipt x receipt rctx work (\<lambda>opened left. case opened of
                      Inl err \<Rightarrow> k (Err err) left
                    | Inr plaintext \<Rightarrow>
                        (case effect_context_new (ex_coders x) sc (rg_definition entry) step Compensation of
                           Inl err \<Rightarrow> k (Err err) left
                         | Inr ctx \<Rightarrow>
                             saga_call (QEffect (ReverseCall step ctx plaintext probe)) pick_reverse
                               (\<lambda>out. case out of
                                  Inl err \<Rightarrow> k (Err err) left
                                | Inr Unknown \<Rightarrow> k (Err SEffectUnknown) left
                                | Inr (Applied _) \<Rightarrow> k (Ok
                                    \<lparr>se_seq = sn_revision s, se_step = step, se_attempt = it_attempt intent,
                                     se_kind = CompensationApplied, se_receipt = None\<rparr>) left
                                | Inr NotApplied \<Rightarrow> k (Ok
                                    \<lparr>se_seq = sn_revision s, se_step = step, se_attempt = it_attempt intent,
                                     se_kind = (if probe then CompensationNotApplied else CompensationFailed),
                                     se_receipt = None\<rparr>) left)))))
      | _ \<Rightarrow> k (Err SIntegrity) work)"

text \<open>
  One advance: settle the pending intent if there is one (by probing), otherwise admit the next
  intent durably before its effect. The snapshot is updated in place by acknowledged commits, so
  the continuation gets it with the error as well.
\<close>

definition settle_intent ::
  "executor \<Rightarrow> saga_lease \<Rightarrow> registered \<Rightarrow> saga_event \<Rightarrow> bool \<Rightarrow> snapshot \<Rightarrow> nat
     \<Rightarrow> (saga_error + unit \<Rightarrow> snapshot \<Rightarrow> nat \<Rightarrow> 'a exec_task) \<Rightarrow> 'a exec_task" where
  "settle_intent x lease entry intent recovery s work k =
     (if se_kind intent = ForwardIntent
      then exec_forward x (le_scope lease) s entry intent recovery (\<lambda>r. case r of
        Inl e \<Rightarrow> k (Err e) s work
      | Inr event \<Rightarrow> commit x lease s event (\<lambda>r s. k r s work))
      else exec_compensate x (le_scope lease) s entry work recovery (\<lambda>r left. case r of
        Inl e \<Rightarrow> k (Err e) s left
      | Inr event \<Rightarrow> commit x lease s event (\<lambda>r s. k r s left)))"

definition exec_advance ::
  "executor \<Rightarrow> saga_lease \<Rightarrow> registered \<Rightarrow> snapshot \<Rightarrow> nat
     \<Rightarrow> (saga_error + unit \<Rightarrow> snapshot \<Rightarrow> nat \<Rightarrow> 'a exec_task) \<Rightarrow> 'a exec_task" where
  "exec_advance x lease entry s work k =
     (case pg_pending (sn_progress s) of
        Some i \<Rightarrow> settle_intent x lease entry (intent_event i (sn_revision s)) True s work k
      | None \<Rightarrow>
          (case and_then (next_event s) (\<lambda>e. ok_or e SIntegrity) of
             Inl err \<Rightarrow> k (Err err) s work
           | Inr event \<Rightarrow>
               if se_kind event = Abort then commit x lease s event (\<lambda>r s. k r s work)
               else commit_admission x lease s event work (\<lambda>r s'. case r of
                 Inl err \<Rightarrow> k (Err err) s' work
               | Inr _ \<Rightarrow> settle_intent x lease entry event False s' work k)))"

primrec advance_loop ::
  "executor \<Rightarrow> saga_lease \<Rightarrow> registered \<Rightarrow> nat \<Rightarrow> nat \<Rightarrow> snapshot \<Rightarrow> nat
     \<Rightarrow> (saga_error + saga_report) exec_task" where
  "advance_loop x lease entry budget 0 s work = Done (Ok (report_of (le_scope lease) s budget))"
| "advance_loop x lease entry budget (Suc left) s work =
     saga_check (\<lambda>c. case c of
       Inl e \<Rightarrow> Done (Err e)
     | Inr _ \<Rightarrow>
         (let advances = budget - Suc left; status = pg_status (sn_progress s) in
          if saga_is_terminal status \<or> status = StatusCompensationFailed
          then Done (Ok (report_of (le_scope lease) s advances))
          else exec_advance x lease entry s work (\<lambda>r s' work'. case r of
            Inl e \<Rightarrow> Done (limited_report (le_scope lease) s' advances e)
          | Inr _ \<Rightarrow> advance_loop x lease entry budget left s' work')))"

definition pending_admission :: "executor \<Rightarrow> snapshot \<Rightarrow> saga_error + unit" where
  "pending_admission x s =
     (if pg_pending (sn_progress s) = None then Ok ()
      else map_err (\<lambda>e. if e = SHistoryLimited ReadBudgetLimit then SHistoryReadLimit else e)
             (check_admission (sn_head s) (ex_read x)))"

definition resume_event :: "snapshot \<Rightarrow> nat \<Rightarrow> saga_error + saga_event" where
  "resume_event s revision =
     (if revision \<noteq> sn_revision s \<or> pg_status (sn_progress s) \<noteq> StatusCompensationFailed then Err SConflict
      else and_then (ok_or (pg_compensation (sn_progress s)) SIntegrity) (\<lambda>step.
        Ok \<lparr>se_seq = revision, se_step = step, se_attempt = pg_compensation_attempt (sn_progress s),
            se_kind = Resume, se_receipt = None\<rparr>))"

definition recover_loaded ::
  "executor \<Rightarrow> saga_lease \<Rightarrow> nat option \<Rightarrow> nat \<Rightarrow> snapshot \<Rightarrow> (saga_error + saga_report) exec_task" where
  "recover_loaded x lease resume budget s =
     (case registry_resolve (ex_registry x) (sn_definition s) of
        Inl e \<Rightarrow> Done (Err e)
      | Inr entry \<Rightarrow>
          (case pending_admission x s of
             Inl e \<Rightarrow> Done (Err e)
           | Inr _ \<Rightarrow>
               verify_receipts x (le_scope lease) (sn_definition s) (sn_events s)
                 (rb_authentication (ex_read x)) (\<lambda>verified. case verified of
                   Inl e \<Rightarrow> Done (Err e)
                 | Inr work \<Rightarrow>
                     (case resume of
                        None \<Rightarrow> advance_loop x lease entry budget budget s work
                      | Some revision \<Rightarrow>
                          (case resume_event s revision of
                             Inl e \<Rightarrow> Done (Err e)
                           | Inr event \<Rightarrow> commit_admission x lease s event work (\<lambda>r s'. case r of
                               Inl e \<Rightarrow> Done (limited_report (le_scope lease) s' 0 e)
                             | Inr _ \<Rightarrow> advance_loop x lease entry budget budget s' work))))))"

definition recover ::
  "executor \<Rightarrow> saga_lease \<Rightarrow> nat option \<Rightarrow> nat \<Rightarrow> (saga_error + saga_report) exec_task" where
  "recover x lease resume budget =
     saga_call (QSnapshot lease (ex_read x)) pick_snapshot (\<lambda>r. case r of
       Inl e \<Rightarrow> Done (Err e)
     | Inr s \<Rightarrow> recover_loaded x lease resume budget s)"

primrec renew_until_done :: "nat \<Rightarrow> executor \<Rightarrow> saga_lease \<Rightarrow> saga_error exec_task" where
  "renew_until_done 0 x lease = Never"
| "renew_until_done (Suc fuel) x lease =
     saga_call (QSleep (renewal_interval (ex_ttl x))) pick_done (\<lambda>r. case r of
       Inl e \<Rightarrow> Done e
     | Inr _ \<Rightarrow> saga_call (QRenew lease (ex_ttl x)) pick_done (\<lambda>r. case r of
         Inl e \<Rightarrow> Done e
       | Inr _ \<Rightarrow> renew_until_done fuel x lease))"

text \<open>
  The cell \<open>commit_inflight\<close>: set while the work has issued a commit that is not answered. The
  renewal does not touch it.
\<close>

fun track_commit :: "bool \<Rightarrow> (exec_request, exec_answer) task_event \<Rightarrow> bool \<Rightarrow> bool" where
  "track_commit True (Issued (QCommit l m)) b = True"
| "track_commit True (Answered (QCommit l m) a) b = False"
| "track_commit _ e b = b"

definition retains_lease :: "saga_error + 'x \<Rightarrow> bool" where
  "retains_lease r \<longleftrightarrow>
     (case r of
        Inl e \<Rightarrow> e \<in> {SCommitUnknown, SRollbackUnknown, SCancelled, SDeadline, SFenced}
      | Inr _ \<Rightarrow> False)"

definition finish_run ::
  "saga_lease \<Rightarrow> saga_error + saga_report \<Rightarrow> (saga_error + saga_report) exec_task" where
  "finish_run lease result =
     (if retains_lease result then Done result
      else saga_call (QRelease lease) pick_done (\<lambda>r. case r of
        Inl e \<Rightarrow> Done (Err e)
      | Inr _ \<Rightarrow> Done result))"

definition exec_enter ::
  "nat \<Rightarrow> executor \<Rightarrow> saga_scope \<Rightarrow> nat option \<Rightarrow> nat \<Rightarrow> (saga_error + saga_report) exec_task" where
  "exec_enter fuel x sc resume budget =
     (if budget = 0 then Done (Err SInvalidBudget)
      else saga_check (\<lambda>c. case c of
        Inl e \<Rightarrow> Done (Err e)
      | Inr _ \<Rightarrow> saga_call (QClaim sc (ex_ttl x)) pick_claimed (\<lambda>r. case r of
          Inl e \<Rightarrow> Done (Err e)
        | Inr lease \<Rightarrow>
            select_biased track_commit False (recover x lease resume budget) (renew_until_done fuel x lease)
              (\<lambda>_. finish_run lease)
              (\<lambda>inflight e _. finish_run lease (Err (if inflight then SCommitUnknown else e))))))"

definition exec_run :: "nat \<Rightarrow> executor \<Rightarrow> saga_scope \<Rightarrow> nat \<Rightarrow> (saga_error + saga_report) exec_task" where
  "exec_run fuel x sc budget = exec_enter fuel x sc None budget"

definition exec_resume ::
  "nat \<Rightarrow> executor \<Rightarrow> saga_scope \<Rightarrow> nat \<Rightarrow> nat \<Rightarrow> (saga_error + saga_report) exec_task" where
  "exec_resume fuel x sc revision budget = exec_enter fuel x sc (Some revision) budget"

subsection \<open>Registration and metadata\<close>

definition exec_register ::
  "executor \<Rightarrow> saga_scope \<Rightarrow> saga_definition \<Rightarrow> history_capacity \<Rightarrow> (saga_error + unit) exec_task" where
  "exec_register x sc d capacity =
     (case registry_resolve (ex_registry x) d of
        Inl e \<Rightarrow> Done (Err e)
      | Inr _ \<Rightarrow> saga_call (QRegister sc d capacity) pick_done Done)"

definition exec_history_head :: "executor \<Rightarrow> saga_scope \<Rightarrow> (saga_error + history_head) exec_task" where
  "exec_history_head x sc =
     saga_call (QClaim sc (ex_ttl x)) pick_claimed (\<lambda>r. case r of
       Inl e \<Rightarrow> Done (Err e)
     | Inr lease \<Rightarrow>
         saga_call (QHistoryHead lease) pick_head (\<lambda>result.
         saga_call (QRelease lease) pick_done (\<lambda>released.
           Done (and_then result (\<lambda>head. and_then released (\<lambda>_. Ok head))))))"

definition exec_extend_history ::
  "executor \<Rightarrow> saga_scope \<Rightarrow> nat \<Rightarrow> history_capacity \<Rightarrow> history_capacity \<Rightarrow> (saga_error + unit) exec_task" where
  "exec_extend_history x sc revision expected capacity =
     (if \<not> capacity_extends capacity expected then Done (Err SConflict)
      else saga_call (QClaim sc (ex_ttl x)) pick_claimed (\<lambda>r. case r of
        Inl e \<Rightarrow> Done (Err e)
      | Inr lease \<Rightarrow>
          saga_call (QExtendHistory lease revision expected capacity) pick_done (\<lambda>r.
            let result = map_err saga_uncertain r in
            if (case result of Inl e \<Rightarrow> e \<in> {SCommitUnknown, SRollbackUnknown, SFenced} | Inr _ \<Rightarrow> False)
            then Done result
            else saga_call (QRelease lease) pick_done (\<lambda>released.
              Done (and_then result (\<lambda>_. released))))))"

text \<open>The decoded value is left to the receipt type's decoder \<open>from_json\<close>.\<close>

definition success_plaintext ::
  "executor \<Rightarrow> saga_scope \<Rightarrow> saga_definition \<Rightarrow> nat \<Rightarrow> snapshot \<Rightarrow> (bytes \<Rightarrow> 'r option)
     \<Rightarrow> (saga_error + 'r) exec_task" where
  "success_plaintext x sc d step s from_json =
     (if pg_status (sn_progress s) \<noteq> Succeeded \<or> sn_definition s \<noteq> d then Done (Err SReceiptUnavailable)
      else
        (case sn_receipt s step of
           Inl e \<Rightarrow> Done (Err e)
         | Inr event \<Rightarrow>
             (case and_then (ok_or (se_receipt event) SIntegrity) (\<lambda>r.
                     and_then (receipt_context_new (ex_coders x) sc d step (se_attempt event) (se_seq event))
                       (\<lambda>ctx. Ok (r, ctx))) of
                Inl e \<Rightarrow> Done (Err e)
              | Inr (r, ctx) \<Rightarrow> open_receipt x r ctx (rb_authentication (ex_read x)) (\<lambda>p left.
                  Done (and_then p (\<lambda>b. ok_or (from_json b) SReceiptType))))))"

definition success_receipt ::
  "executor \<Rightarrow> saga_scope \<times> saga_definition \<Rightarrow> completion \<Rightarrow> nat \<Rightarrow> (bytes \<Rightarrow> 'r option)
     \<Rightarrow> (saga_error + 'r) exec_task" where
  "success_receipt x reference completion receipt_type from_json =
     (case reference of
        (sc, d) \<Rightarrow>
          if cm_definition completion \<noteq> d then Done (Err SReceiptType)
          else
            (case registry_resolve (ex_registry x) d of
               Inl e \<Rightarrow> Done (Err e)
             | Inr entry \<Rightarrow>
                 if rg_actions entry ! cm_step completion \<noteq> receipt_type then Done (Err SReceiptType)
                 else saga_call (QClaim sc (ex_ttl x)) pick_claimed (\<lambda>r. case r of
                   Inl e \<Rightarrow> Done (Err e)
                 | Inr lease \<Rightarrow>
                     saga_call (QSnapshot lease (ex_read x)) pick_snapshot (\<lambda>loaded.
                     saga_call (QRelease lease) pick_done (\<lambda>released.
                       case and_then loaded (\<lambda>s. and_then released (\<lambda>_. Ok s)) of
                         Inl e \<Rightarrow> Done (Err e)
                       | Inr s \<Rightarrow> success_plaintext x sc d (cm_step completion) s from_json)))))"

subsection \<open>Sweeps\<close>

record sweep_budget =
  sw_instances :: nat
  sw_advances :: nat

definition sweep_budget_new :: "nat \<Rightarrow> nat \<Rightarrow> saga_error + sweep_budget" where
  "sweep_budget_new instances advances =
     (if instances = 0 \<or> instances > 10000 \<or> advances = 0 then Err SInvalidBudget
      else Ok \<lparr>sw_instances = instances, sw_advances = advances\<rparr>)"

datatype sweep_stop = PageComplete | SweepCancelled | SweepDeadline

definition sweep_stop_of :: "saga_error \<Rightarrow> sweep_stop" where
  "sweep_stop_of e = (if e = SCancelled then SweepCancelled else SweepDeadline)"

record sweep_report =
  sw_items :: "(saga_scope \<times> (saga_error + saga_report)) list"
  sw_next_cursor :: "saga_scope option"
  sw_stop :: sweep_stop

fun candidates_ascend :: "128 word \<Rightarrow> 128 word option \<Rightarrow> saga_scope list \<Rightarrow> saga_error + unit" where
  "candidates_ascend tenant previous [] = Ok ()"
| "candidates_ascend tenant previous (sc # scs) =
     (if sg_tenant sc \<noteq> tenant \<or> (case previous of None \<Rightarrow> False | Some i \<Rightarrow> sg_id sc \<le> i)
      then Err SIntegrity else candidates_ascend tenant (Some (sg_id sc)) scs)"

definition validate_candidates ::
  "saga_scope list \<Rightarrow> 128 word \<Rightarrow> saga_scope option \<Rightarrow> nat \<Rightarrow> saga_error + unit" where
  "validate_candidates candidates tenant cursor limit =
     (if length candidates > limit then Err SIntegrity
      else candidates_ascend tenant (map_option sg_id cursor) candidates)"

definition foreign_cursor :: "128 word \<Rightarrow> saga_scope option \<Rightarrow> bool" where
  "foreign_cursor tenant cursor \<longleftrightarrow> (case cursor of None \<Rightarrow> False | Some sc \<Rightarrow> sg_tenant sc \<noteq> tenant)"

definition capacity_blocked ::
  "128 word \<Rightarrow> saga_scope option \<Rightarrow> nat \<Rightarrow> (saga_error + saga_scope list) exec_task" where
  "capacity_blocked tenant cursor limit =
     (if limit = 0 \<or> limit > 10000 then Done (Err SInvalidBudget)
      else if foreign_cursor tenant cursor then Done (Err SDefinition)
      else saga_call (QCandidates CapacityBlocked tenant (map_option sg_id cursor) limit) pick_candidates
        (\<lambda>r. Done (and_then r (\<lambda>scopes.
          and_then (validate_candidates scopes tenant cursor limit) (\<lambda>_. Ok scopes)))))"

fun sweep_loop ::
  "nat \<Rightarrow> executor \<Rightarrow> saga_scope list \<Rightarrow> sweep_report \<Rightarrow> sweep_report exec_task" where
  "sweep_loop fuel x [] report = Done report"
| "sweep_loop fuel x (sc # scs) report =
     saga_check (\<lambda>c. case c of
       Inl e \<Rightarrow> Done (report\<lparr>sw_stop := sweep_stop_of e\<rparr>)
     | Inr _ \<Rightarrow> bind_task (exec_run fuel x sc 1) (\<lambda>result.
         let report' = report\<lparr>sw_items := sw_items report @ [(sc, result)], sw_next_cursor := Some sc\<rparr> in
         case result of
           Inl e \<Rightarrow>
             if e \<in> {SCancelled, SDeadline} then Done (report'\<lparr>sw_stop := sweep_stop_of e\<rparr>)
             else sweep_loop fuel x scs report'
         | Inr _ \<Rightarrow> sweep_loop fuel x scs report'))"

definition run_once ::
  "nat \<Rightarrow> executor \<Rightarrow> 128 word \<Rightarrow> saga_scope option \<Rightarrow> sweep_budget \<Rightarrow> (saga_error + sweep_report) exec_task" where
  "run_once fuel x tenant cursor budget =
     (if foreign_cursor tenant cursor then Done (Err SDefinition)
      else
        let limit = min (sw_instances budget) (sw_advances budget) in
        saga_call (QCandidates Runnable tenant (map_option sg_id cursor) limit) pick_candidates (\<lambda>r.
          case and_then r (\<lambda>scopes. and_then (validate_candidates scopes tenant cursor limit) (\<lambda>_. Ok scopes)) of
            Inl e \<Rightarrow> Done (Err e)
          | Inr candidates \<Rightarrow>
              if candidates = []
              then Done (Ok \<lparr>sw_items = [], sw_next_cursor = None, sw_stop = PageComplete\<rparr>)
              else bind_task
                (sweep_loop fuel x candidates \<lparr>sw_items = [], sw_next_cursor = cursor, sw_stop = PageComplete\<rparr>)
                (\<lambda>report. Done (Ok report))))"

section \<open>Theorems\<close>

subsection \<open>What an invocation did\<close>

text \<open>
  The log of an invocation: the snapshot it loaded, the snapshot acknowledged commits have made of
  it, the acknowledged mutations, an issued mutation without acknowledgement (with the error the
  store returned, if any), the effect calls with the state in which they were issued, and the
  releases.
\<close>

record exec_log =
  xl_loaded :: "snapshot option"
  xl_state :: "snapshot option"
  xl_acked :: "mutation list"
  xl_open :: "(mutation \<times> saga_error option) option"
  xl_flight :: bool
  xl_effects :: "(effect_call \<times> snapshot option \<times> mutation list) list"
  xl_releases :: nat

definition exec_log_empty :: exec_log where
  "exec_log_empty = \<lparr>xl_loaded = None, xl_state = None, xl_acked = [], xl_open = None, xl_flight = False,
     xl_effects = [], xl_releases = 0\<rparr>"

definition commit_answer :: "mutation \<Rightarrow> unit call_reply \<Rightarrow> exec_log \<Rightarrow> exec_log" where
  "commit_answer m r l =
     (case r of
        Returned (Inr _) \<Rightarrow> l\<lparr>xl_open := None, xl_flight := False,
          xl_state := map_option (mutation_accept m) (xl_state l), xl_acked := xl_acked l @ [m]\<rparr>
      | Returned (Inl e) \<Rightarrow> l\<lparr>xl_open := Some (m, Some e), xl_flight := False\<rparr>
      | Interrupted _ \<Rightarrow> l\<lparr>xl_flight := False\<rparr>)"

definition observe_exec :: "(exec_request, exec_answer) task_event \<Rightarrow> exec_log \<Rightarrow> exec_log" where
  "observe_exec e l =
     (case e of
        Issued (QCommit lease m) \<Rightarrow> l\<lparr>xl_open := Some (m, None), xl_flight := True\<rparr>
      | Issued (QEffect c) \<Rightarrow> l\<lparr>xl_effects := xl_effects l @ [(c, xl_state l, xl_acked l)]\<rparr>
      | Issued (QRelease lease) \<Rightarrow> l\<lparr>xl_releases := Suc (xl_releases l)\<rparr>
      | Answered (QCommit lease m) a \<Rightarrow>
          (case pick_done a of None \<Rightarrow> l\<lparr>xl_flight := False\<rparr> | Some r \<Rightarrow> commit_answer m r l)
      | Answered (QSnapshot lease b) a \<Rightarrow>
          (case pick_snapshot a of
             Some (Returned (Inr s)) \<Rightarrow> l\<lparr>xl_loaded := Some s, xl_state := Some s, xl_acked := []\<rparr>
           | _ \<Rightarrow> l)
      | _ \<Rightarrow> l)"

abbreviation exec_ensures ::
  "(exec_log \<Rightarrow> bool) \<Rightarrow> 'a exec_task \<Rightarrow> exec_log \<Rightarrow> ('a \<Rightarrow> exec_log \<Rightarrow> bool) \<Rightarrow> bool" where
  "exec_ensures \<equiv> ensures answer_fits observe_exec"

lemma observe_exec_simps [simp]:
  "observe_exec (Issued QCheck) l = l" "observe_exec (Answered QCheck a) l = l"
  "observe_exec (Issued (QSleep d)) l = l" "observe_exec (Answered (QSleep d) a) l = l"
  "observe_exec (Issued (QRenew lease d)) l = l" "observe_exec (Answered (QRenew lease d) a) l = l"
  "observe_exec (Issued (QClaim sc d)) l = l" "observe_exec (Answered (QClaim sc d) a) l = l"
  "observe_exec (Issued (QSnapshot lease b)) l = l"
  "observe_exec (Issued (QSeal p ctx)) l = l" "observe_exec (Answered (QSeal p ctx) a) l = l"
  "observe_exec (Issued (QOpen ct ctx)) l = l" "observe_exec (Answered (QOpen ct ctx) a) l = l"
  "observe_exec (Answered (QEffect c) a) l = l" "observe_exec (Answered (QRelease lease) a) l = l"
  "observe_exec (Issued (QRelease lease)) l = l\<lparr>xl_releases := Suc (xl_releases l)\<rparr>"
  "observe_exec (Issued (QCommit lease m)) l = l\<lparr>xl_open := Some (m, None), xl_flight := True\<rparr>"
  "observe_exec (Answered (QCommit lease m) (ADone r)) l = commit_answer m r l"
  "observe_exec (Issued (QEffect c)) l = l\<lparr>xl_effects := xl_effects l @ [(c, xl_state l, xl_acked l)]\<rparr>"
  by (simp_all add: observe_exec_def pick_done_def)

lemma track_commit_flight: "xl_flight l = b \<Longrightarrow> xl_flight (observe_exec e l) = track_commit True e b"
  by (cases "(True, e, b)" rule: track_commit.cases)
    (auto simp: observe_exec_def commit_answer_def split: option.split call_reply.split sum.split)

subsection \<open>Rules for the provider calls\<close>

lemma ensures_check:
  assumes "I l" and "\<And>i. exec_ensures I (k (Err (interruption_error i))) l Q"
    and "exec_ensures I (k (Ok ())) l Q"
  shows "exec_ensures I (saga_check k) l Q"
  unfolding saga_check_def
  using assms by (intro ensures_ask) (auto simp: answer_fits_check split: option.split)

lemma ensures_call:
  assumes "I l" and "I (observe_exec (Issued q) l)"
    and "\<And>i. exec_ensures I (k (Err (interruption_error i))) l Q"
    and "\<And>a r. answer_fits q a \<Longrightarrow> pick a = Some r \<Longrightarrow>
      exec_ensures I (k (reply_result r)) (observe_exec (Answered q a) (observe_exec (Issued q) l)) Q"
    and "\<And>a. answer_fits q a \<Longrightarrow> pick a \<noteq> None"
  shows "exec_ensures I (saga_call q pick k) l Q"
  unfolding saga_call_def
  using assms by (intro ensures_check) (auto intro!: ensures_ask split: option.split)

lemma ensures_open:
  assumes "I l" and "\<And>e. exec_ensures I (k (Err e)) l Q"
    and "\<And>f p. open_admits r ctx = Ok f \<Longrightarrow>
      keyring_verify (sc_hmac (ex_coders x)) (ex_ring x) [receipt_content ctx p] f \<Longrightarrow>
      exec_ensures I (k (Ok p)) l Q"
  shows "exec_ensures I (control_open x r ctx k) l Q"
  unfolding control_open_def
proof (intro ensures_check assms(1))
  show "exec_ensures I (case and_then (Ok ()) (\<lambda>_. open_admits r ctx) of
      Inl e \<Rightarrow> k (Err e)
    | Inr f \<Rightarrow> ask (QOpen (pr_ciphertext r) ctx) (\<lambda>a. case pick_opened a of
        None \<Rightarrow> Never
      | Some (Interrupted i) \<Rightarrow> k (Err (interruption_error i))
      | Some (Returned p) \<Rightarrow> k (open_result (ex_coders x) (ex_ring x) ctx f p))) l Q"
    using assms
    by (auto simp: answer_fits_def open_result_def and_then_def intro!: ensures_ask
        split: sum.split option.split call_reply.split)
qed (use assms(2) in simp)

lemma ensures_seal:
  assumes "I l" and "\<And>e. exec_ensures I (k (Err e)) l Q"
    and "\<And>ct. exec_ensures I (k (seal_result (ex_coders x) (ex_ring x) p ctx (Ok ct))) l Q"
  shows "exec_ensures I (control_seal x p ctx k) l Q"
  unfolding control_seal_def
proof (intro ensures_check assms(1))
  have "exec_ensures I (k (seal_result (ex_coders x) (ex_ring x) p ctx r)) l Q" for r
    using assms(2,3) by (cases r) (auto simp: seal_result_def)
  then show "exec_ensures I (case and_then (Ok ()) (\<lambda>_. seal_admits p) of
      Inl e \<Rightarrow> k (Err e)
    | Inr _ \<Rightarrow> ask (QSeal p ctx) (\<lambda>a. case pick_sealed a of
        None \<Rightarrow> Never
      | Some (Interrupted i) \<Rightarrow> k (Err (interruption_error i))
      | Some (Returned r) \<Rightarrow> k (seal_result (ex_coders x) (ex_ring x) p ctx r))) l Q"
    using assms
    by (auto simp: answer_fits_def intro!: ensures_ask split: sum.split option.split call_reply.split)
qed (use assms(2) in simp)

subsection \<open>Authority of an effect call\<close>

text \<open>
  A call that is not a probe follows the acknowledged commit of exactly its intent in the same
  invocation; a probe resolves the intent found in the loaded snapshot, before anything else was
  committed.
\<close>

definition intent_fresh :: "bool \<Rightarrow> intent \<Rightarrow> mutation list \<Rightarrow> bool" where
  "intent_fresh probe i acked \<longleftrightarrow>
     (if probe then acked = [] else acked \<noteq> [] \<and> admit (mu_event (last acked)) = i)"

text \<open>The receipt handed to a compensation is the authenticated receipt of that step.\<close>

definition authentic_receipt :: "executor \<Rightarrow> saga_scope \<Rightarrow> snapshot \<Rightarrow> nat \<Rightarrow> bytes \<Rightarrow> bool" where
  "authentic_receipt x sc s step p \<longleftrightarrow>
     (\<exists>ev r ctx f. sn_receipt s step = Ok ev \<and> se_receipt ev = Some r \<and>
        receipt_context_new (ex_coders x) sc (sn_definition s) step (pr_attempt r) (pr_seq r) = Ok ctx \<and>
        open_admits r ctx = Ok f \<and>
        keyring_verify (sc_hmac (ex_coders x)) (ex_ring x) [receipt_content ctx p] f)"

definition effect_authorised ::
  "executor \<Rightarrow> saga_scope \<Rightarrow> effect_call \<times> snapshot option \<times> mutation list \<Rightarrow> bool" where
  "effect_authorised x sc entry \<longleftrightarrow>
     (case entry of
        (c, st, acked) \<Rightarrow>
          (\<exists>s i. st = Some s \<and> pg_pending (sn_progress s) = Some i \<and>
             (case c of
                ForwardCall step ctx probe \<Rightarrow>
                  i = \<lparr>it_step = step, it_attempt = it_attempt i, it_kind = ForwardIntent\<rparr> \<and>
                  effect_context_new (ex_coders x) sc (sn_definition s) step Forward = Ok ctx \<and>
                  intent_fresh probe i acked
              | ReverseCall step ctx p probe \<Rightarrow>
                  i = \<lparr>it_step = step, it_attempt = it_attempt i, it_kind = CompensationIntent\<rparr> \<and>
                  effect_context_new (ex_coders x) sc (sn_definition s) step Compensation = Ok ctx \<and>
                  authentic_receipt x sc s step p \<and> intent_fresh probe i acked)))"

text \<open>The acknowledged commits are admissions that lead from the loaded to the current snapshot.\<close>

definition acked_chain :: "exec_log \<Rightarrow> bool" where
  "acked_chain l \<longleftrightarrow>
     (case xl_loaded l of
        None \<Rightarrow> xl_state l = None \<and> xl_acked l = []
      | Some s0 \<Rightarrow> \<exists>s. xl_state l = Some s \<and> apply_all s0 (map mu_event (xl_acked l)) = Ok s)"

lemma acked_chain_frame [simp]:
  "acked_chain (l\<lparr>xl_open := m\<rparr>) = acked_chain l" "acked_chain (l\<lparr>xl_flight := b\<rparr>) = acked_chain l"
  "acked_chain (l\<lparr>xl_effects := es\<rparr>) = acked_chain l" "acked_chain (l\<lparr>xl_releases := n\<rparr>) = acked_chain l"
  by (simp_all add: acked_chain_def split: option.split)

definition sound_log :: "executor \<Rightarrow> saga_scope \<Rightarrow> nat \<Rightarrow> exec_log \<Rightarrow> bool" where
  "sound_log x sc n l \<longleftrightarrow>
     list_all (effect_authorised x sc) (xl_effects l) \<and> length (xl_effects l) \<le> n \<and> acked_chain l"

text \<open>While the work flow runs; between its calls; and when it has failed.\<close>

definition running_log :: "executor \<Rightarrow> saga_scope \<Rightarrow> nat \<Rightarrow> exec_log \<Rightarrow> bool" where
  "running_log x sc n l \<longleftrightarrow>
     sound_log x sc n l \<and> xl_releases l = 0 \<and>
     (if xl_flight l then (\<exists>m. xl_open l = Some (m, None)) else xl_open l = None)"

definition idle_log :: "executor \<Rightarrow> saga_scope \<Rightarrow> nat \<Rightarrow> snapshot \<Rightarrow> exec_log \<Rightarrow> bool" where
  "idle_log x sc n s l \<longleftrightarrow>
     sound_log x sc n l \<and> xl_releases l = 0 \<and> \<not> xl_flight l \<and> xl_open l = None \<and> xl_state l = Some s"

definition failed_log :: "executor \<Rightarrow> saga_scope \<Rightarrow> nat \<Rightarrow> snapshot \<Rightarrow> saga_error \<Rightarrow> exec_log \<Rightarrow> bool" where
  "failed_log x sc n s e l \<longleftrightarrow>
     sound_log x sc n l \<and> xl_releases l = 0 \<and> \<not> xl_flight l \<and> xl_state l = Some s \<and>
     (case xl_open l of
        None \<Rightarrow> True
      | Some (m, None) \<Rightarrow> e = SCommitUnknown
      | Some (m, Some e') \<Rightarrow> e = saga_uncertain e')"

lemma idle_running: "idle_log x sc n s l \<Longrightarrow> n \<le> n' \<Longrightarrow> running_log x sc n' l"
  by (auto simp: idle_log_def running_log_def sound_log_def)

lemma idle_failed: "idle_log x sc n s l \<Longrightarrow> failed_log x sc n s e l"
  by (simp add: idle_log_def failed_log_def)

lemma saga_uncertain_interruption [simp]: "saga_uncertain (interruption_error i) = SCommitUnknown"
  by (cases i) (simp_all add: saga_uncertain_def)

lemma mutation_new_Ok:
  assumes "mutation_new c sc s e = Ok m"
  shows "mu_event m = e" and "prepare s e True = Ok (mu_after m)" and "sn_apply s e = Ok (mutation_accept m s)"
  using assms by (auto simp: mutation_new_def and_then_Inr_iff sn_apply_def mutation_accept_def)

lemma ensures_persist:
  assumes idle: "idle_log x sc n s l" and m: "mutation_new c sc s e = Ok m" and "n \<le> bound"
    and ok: "\<And>l'. idle_log x sc n (mutation_accept m s) l' \<Longrightarrow> xl_acked l' = xl_acked l @ [m] \<Longrightarrow>
      exec_ensures (running_log x sc bound) (k (Ok ()) (mutation_accept m s)) l' Q"
    and err: "\<And>e l'. failed_log x sc n s e l' \<Longrightarrow> exec_ensures (running_log x sc bound) (k (Err e) s) l' Q"
  shows "exec_ensures (running_log x sc bound) (persist lease s m k) l Q"
  unfolding persist_def
proof (rule ensures_call)
  let ?I = "running_log x sc bound"
  let ?l = "l\<lparr>xl_open := Some (m, None), xl_flight := True\<rparr>"
  have sound: "sound_log x sc n l" using idle by (simp add: idle_log_def)
  have sound': "sound_log x sc n' ?l" if "n \<le> n'" for n'
    using sound that by (simp add: sound_log_def)
  show "?I l" by (rule idle_running [OF idle assms(3)])
  show "?I (observe_exec (Issued (QCommit lease m)) l)"
    using sound' [OF assms(3)] idle by (simp add: running_log_def idle_log_def)
  show "exec_ensures ?I (case map_err saga_uncertain (Err (interruption_error i)) of
      Inl e \<Rightarrow> k (Err e) s | Inr _ \<Rightarrow> k (Ok ()) (mutation_accept m s)) l Q" for i
    using err [OF idle_failed [OF idle]] by simp
  have chain: "acked_chain (commit_answer m (Returned (Inr u)) ?l)" for u
    using sound mutation_new_Ok(1,3) [OF m] idle
    by (auto simp: sound_log_def acked_chain_def commit_answer_def idle_log_def apply_all_append
        split: option.splits)
  have acked: "idle_log x sc n (mutation_accept m s) (commit_answer m (Returned (Inr u)) ?l)" for u
    using sound idle chain by (simp add: idle_log_def sound_log_def commit_answer_def)
  have refused: "failed_log x sc n s (case r of Interrupted _ \<Rightarrow> SCommitUnknown | Returned (Inl e) \<Rightarrow> saga_uncertain e)
      (commit_answer m r ?l)" if "\<forall>u. r \<noteq> Returned (Inr u)" for r
    using sound idle that
    by (cases r) (auto simp: failed_log_def commit_answer_def idle_log_def sound_log_def
        split: sum.splits)
  show "exec_ensures ?I (case map_err saga_uncertain (reply_result r) of
      Inl e \<Rightarrow> k (Err e) s | Inr _ \<Rightarrow> k (Ok ()) (mutation_accept m s))
      (observe_exec (Answered (QCommit lease m) a) (observe_exec (Issued (QCommit lease m)) l)) Q"
    if "pick_done a = Some r" for a r
  proof (cases "\<exists>u. r = Returned (Inr u)")
    case True
    then obtain u where u: "r = Returned (Inr u)" by blast
    have "exec_ensures ?I (k (Ok ()) (mutation_accept m s)) (commit_answer m (Returned (Inr u)) ?l) Q"
      by (rule ok [OF acked]) (simp add: commit_answer_def)
    with u that show ?thesis by (simp add: reply_result_def)
  next
    case False
    then have "failed_log x sc n s (case r of Interrupted _ \<Rightarrow> SCommitUnknown | Returned (Inl e) \<Rightarrow> saga_uncertain e)
        (commit_answer m r ?l)" by (intro refused) auto
    from err [OF this] False that show ?thesis
      by (cases r) (auto simp: reply_result_def split: sum.splits)
  qed
qed (auto simp: answer_fits_def)

lemma ensures_commit:
  assumes idle: "idle_log x sc n s l" and "le_scope lease = sc" and "n \<le> bound"
    and ok: "\<And>m l'. mutation_new (ex_coders x) sc s e = Ok m \<Longrightarrow> idle_log x sc n (mutation_accept m s) l' \<Longrightarrow>
      xl_acked l' = xl_acked l @ [m] \<Longrightarrow>
      exec_ensures (running_log x sc bound) (k (Ok ()) (mutation_accept m s)) l' Q"
    and err: "\<And>e l'. failed_log x sc n s e l' \<Longrightarrow> exec_ensures (running_log x sc bound) (k (Err e) s) l' Q"
  shows "exec_ensures (running_log x sc bound) (commit x lease s e k) l Q"
    and "exec_ensures (running_log x sc bound) (commit_admission x lease s e work k) l Q"
proof -
  have persist: "exec_ensures (running_log x sc bound) (persist lease s m k) l Q"
    if "mutation_new (ex_coders x) sc s e = Ok m" for m
    by (rule ensures_persist [OF idle that assms(3)]) (use ok [OF that] err in auto)
  then show "exec_ensures (running_log x sc bound) (commit x lease s e k) l Q"
    "exec_ensures (running_log x sc bound) (commit_admission x lease s e work k) l Q"
    using err [OF idle_failed [OF idle]] assms(2)
    by (auto simp: commit_def commit_admission_def split: sum.split)
qed

lemma idle_mono: "idle_log x sc n s l \<Longrightarrow> n \<le> n' \<Longrightarrow> idle_log x sc n' s l"
  by (auto simp: idle_log_def sound_log_def)

lemma ensures_effect:
  assumes idle: "idle_log x sc n s l" and "Suc n \<le> bound"
    and auth: "effect_authorised x sc (c, Some s, xl_acked l)"
    and reply: "\<And>r l'. idle_log x sc (Suc n) s l' \<Longrightarrow> xl_acked l' = xl_acked l \<Longrightarrow>
      exec_ensures (running_log x sc bound) (k r) l' Q"
    and pick: "\<And>a. answer_fits (QEffect c) a \<Longrightarrow> pick a \<noteq> None"
  shows "exec_ensures (running_log x sc bound) (saga_call (QEffect c) pick k) l Q"
proof (rule ensures_call [OF _ _ _ _ pick])
  let ?l = "observe_exec (Issued (QEffect c)) l"
  have called: "idle_log x sc (Suc n) s ?l"
    using idle auth by (simp add: idle_log_def sound_log_def)
  show "running_log x sc bound l" by (rule idle_running [OF idle]) (use assms(2) in simp)
  show "running_log x sc bound ?l" by (rule idle_running [OF called assms(2)])
  show "exec_ensures (running_log x sc bound) (k (Err (interruption_error i))) l Q" for i
    by (rule reply [OF idle_mono [OF idle]]) simp_all
  show "exec_ensures (running_log x sc bound) (k (reply_result r)) (observe_exec (Answered (QEffect c) a) ?l) Q" for a r
    using reply [OF called] by simp
qed

text \<open>The events that settle an intent.\<close>

definition settling :: "event_kind \<Rightarrow> bool" where
  "settling k \<longleftrightarrow> k \<in> {ForwardApplied, ForwardNotApplied, ForwardProbeNotApplied, CompensationApplied,
     CompensationNotApplied, CompensationFailed}"

lemma ensures_forward:
  assumes idle: "idle_log x sc n s l" and bound: "Suc n \<le> bound" and entry: "rg_definition entry = sn_definition s"
    and pending: "pg_pending (sn_progress s) = Some (admit intent)" and kind: "se_kind intent = ForwardIntent"
    and fresh: "intent_fresh probe (admit intent) (xl_acked l)"
    and ok: "\<And>ev l'. idle_log x sc (Suc n) s l' \<Longrightarrow> settling (se_kind ev) \<Longrightarrow>
      exec_ensures (running_log x sc bound) (k (Ok ev)) l' Q"
    and err: "\<And>e l'. idle_log x sc (Suc n) s l' \<Longrightarrow> exec_ensures (running_log x sc bound) (k (Err e)) l' Q"
  shows "exec_ensures (running_log x sc bound) (exec_forward x sc s entry intent probe k) l Q"
proof (cases "effect_context_new (ex_coders x) sc (rg_definition entry) (se_step intent) Forward")
  case (Inl e)
  then show ?thesis using err [OF idle_mono [OF idle]] by (simp add: exec_forward_def)
next
  case (Inr ctx)
  then have auth: "effect_authorised x sc (ForwardCall (se_step intent) ctx probe, Some s, xl_acked l)"
    using entry pending fresh kind by (simp add: effect_authorised_def admit_def)
  have seal: "exec_ensures (running_log x sc bound) (control_seal x p rctx (\<lambda>sealed. case sealed of
      Inl e \<Rightarrow> k (Err e)
    | Inr receipt \<Rightarrow> k (Ok (forward_event s intent ForwardApplied (Some receipt))))) l' Q"
    if "idle_log x sc (Suc n) s l'" for p rctx l'
    by (rule ensures_seal)
      (use idle_running [OF that bound] err [OF that] ok [OF that] in
        \<open>auto simp: seal_result_def forward_event_def settling_def Let_def\<close>)
  show ?thesis
    unfolding exec_forward_def Inr sum.case
    by (rule ensures_effect [OF idle bound auth])
      (use err ok seal in \<open>auto simp: answer_fits_def forward_event_def settling_def
        split: sum.split action_outcome.split\<close>)
qed

lemma ensures_compensate:
  assumes idle: "idle_log x sc n s l" and bound: "Suc n \<le> bound" and entry: "rg_definition entry = sn_definition s"
    and pending: "pg_pending (sn_progress s) = Some i" and kind: "it_kind i = CompensationIntent"
    and fresh: "intent_fresh probe i (xl_acked l)"
    and ok: "\<And>ev l' left. idle_log x sc (Suc n) s l' \<Longrightarrow> settling (se_kind ev) \<Longrightarrow>
      exec_ensures (running_log x sc bound) (k (Ok ev) left) l' Q"
    and err: "\<And>e l' left. idle_log x sc (Suc n) s l' \<Longrightarrow> exec_ensures (running_log x sc bound) (k (Err e) left) l' Q"
  shows "exec_ensures (running_log x sc bound) (exec_compensate x sc s entry work probe k) l Q"
proof -
  let ?I = "running_log x sc bound"
  note err_now = err [OF idle_mono [OF idle, of "Suc n"]]
  have I: "?I l" by (rule idle_running [OF idle]) (use bound in simp)
  have called: "exec_ensures ?I (case effect_context_new (ex_coders x) sc (rg_definition entry) (it_step i) Compensation of
      Inl err \<Rightarrow> k (Err err) left
    | Inr ctx \<Rightarrow> saga_call (QEffect (ReverseCall (it_step i) ctx p probe)) pick_reverse
        (\<lambda>out. case out of
           Inl err \<Rightarrow> k (Err err) left
         | Inr Unknown \<Rightarrow> k (Err SEffectUnknown) left
         | Inr (Applied _) \<Rightarrow> k (Ok \<lparr>se_seq = sn_revision s, se_step = it_step i, se_attempt = it_attempt i,
             se_kind = CompensationApplied, se_receipt = None\<rparr>) left
         | Inr NotApplied \<Rightarrow> k (Ok \<lparr>se_seq = sn_revision s, se_step = it_step i, se_attempt = it_attempt i,
             se_kind = (if probe then CompensationNotApplied else CompensationFailed), se_receipt = None\<rparr>) left)) l Q"
    if "authentic_receipt x sc s (it_step i) p" for p left
  proof (cases "effect_context_new (ex_coders x) sc (rg_definition entry) (it_step i) Compensation")
    case (Inr ctx)
    then have auth: "effect_authorised x sc (ReverseCall (it_step i) ctx p probe, Some s, xl_acked l)"
      using entry pending fresh kind that by (cases i) (simp add: effect_authorised_def)
    show ?thesis
      unfolding Inr sum.case
      by (rule ensures_effect [OF idle bound auth])
        (use err ok in \<open>auto simp: answer_fits_def settling_def split: sum.split action_outcome.split\<close>)
  qed (use err_now in simp)
  show ?thesis
    unfolding exec_compensate_def pending open_receipt_def
    using err_now I called entry
    by (auto simp: authentic_receipt_def and_then_Inr_iff intro!: ensures_open
        split: option.split sum.split)
qed

subsection \<open>One advance\<close>

lemma accepted_pending:
  assumes "mutation_new c sc s e = Ok m"
  shows "sn_definition (mutation_accept m s) = sn_definition s"
    and "se_kind e \<in> {ForwardIntent, CompensationIntent} \<Longrightarrow>
      pg_pending (sn_progress (mutation_accept m s)) = Some (admit e)"
    and "se_kind e \<notin> {ForwardIntent, CompensationIntent} \<Longrightarrow>
      pg_pending (sn_progress (mutation_accept m s)) = None"
proof -
  have t: "progress_transition (sn_definition s) (sn_progress s) e = Ok (hh_progress (mu_after m))"
    using prepare_Ok [OF mutation_new_Ok(2) [OF assms]] sn_transition_Ok by blast
  have p: "sn_progress (mutation_accept m s) = hh_progress (mu_after m)"
    by (simp add: mutation_accept_def accept_def sn_progress_def)
  show "sn_definition (mutation_accept m s) = sn_definition s"
    by (simp add: mutation_accept_def accept_def)
  show "pg_pending (sn_progress (mutation_accept m s)) = Some (admit e)"
    if "se_kind e \<in> {ForwardIntent, CompensationIntent}"
    unfolding p using t by (cases rule: progress_transition_cases) (use that in auto)
  show "pg_pending (sn_progress (mutation_accept m s)) = None"
    if "se_kind e \<notin> {ForwardIntent, CompensationIntent}"
    unfolding p using t by (cases rule: progress_transition_cases) (use that in auto)
qed

lemma ensures_settle:
  assumes idle: "idle_log x sc n s l" and bound: "Suc n \<le> bound" and entry: "rg_definition entry = sn_definition s"
    and lease: "le_scope lease = sc"
    and pending: "pg_pending (sn_progress s) = Some (admit intent)"
    and kind: "se_kind intent \<in> {ForwardIntent, CompensationIntent}"
    and fresh: "intent_fresh probe (admit intent) (xl_acked l)"
    and ok: "\<And>s' l' left. idle_log x sc (Suc n) s' l' \<Longrightarrow> sn_definition s' = sn_definition s \<Longrightarrow>
      pg_pending (sn_progress s') = None \<Longrightarrow> exec_ensures (running_log x sc bound) (k (Ok ()) s' left) l' Q"
    and err: "\<And>e s' l' left. failed_log x sc (Suc n) s' e l' \<Longrightarrow>
      exec_ensures (running_log x sc bound) (k (Err e) s' left) l' Q"
  shows "exec_ensures (running_log x sc bound) (settle_intent x lease entry intent probe s work k) l Q"
proof -
  have commit: "exec_ensures (running_log x sc bound) (commit x lease s ev (\<lambda>r s. k r s left)) l' Q"
    if "idle_log x sc (Suc n) s l'" "settling (se_kind ev)" for ev l' left
    by (rule ensures_commit(1) [OF that(1) lease bound])
      (use accepted_pending ok err that(2) in \<open>auto simp: settling_def\<close>)
  have failed: "exec_ensures (running_log x sc bound) (k (Err e) s left) l' Q"
    if "idle_log x sc (Suc n) s l'" for e l' left
    by (rule err [OF idle_failed [OF that]])
  show ?thesis
  proof (cases "se_kind intent = ForwardIntent")
    case True
    have "exec_ensures (running_log x sc bound) (exec_forward x sc s entry intent probe (\<lambda>r. case r of
        Inl e \<Rightarrow> k (Err e) s work | Inr event \<Rightarrow> commit x lease s event (\<lambda>r s. k r s work))) l Q"
      by (rule ensures_forward [OF idle bound entry pending True fresh]) (use commit failed in simp_all)
    with True lease show ?thesis by (simp add: settle_intent_def)
  next
    case False
    then have rev: "it_kind (admit intent) = CompensationIntent" using kind by (simp add: admit_def)
    have "exec_ensures (running_log x sc bound) (exec_compensate x sc s entry work probe (\<lambda>r left. case r of
        Inl e \<Rightarrow> k (Err e) s left | Inr event \<Rightarrow> commit x lease s event (\<lambda>r s. k r s left))) l Q"
      by (rule ensures_compensate [OF idle bound entry pending rev fresh]) (use commit failed in simp_all)
    with False lease show ?thesis by (simp add: settle_intent_def)
  qed
qed

text \<open>The pending intent of a loaded snapshot is a forward or a compensation intent.\<close>

definition resumable :: "exec_log \<Rightarrow> snapshot \<Rightarrow> bool" where
  "resumable l s \<longleftrightarrow>
     (case pg_pending (sn_progress s) of
        None \<Rightarrow> True
      | Some i \<Rightarrow> xl_acked l = [] \<and> it_kind i \<in> {ForwardIntent, CompensationIntent})"

lemma next_event_kind: "next_event s = Ok (Some e) \<Longrightarrow> se_kind e \<in> {ForwardIntent, CompensationIntent, Abort}"
  by (auto simp: next_event_def Let_def and_then_Inr_iff split: if_splits)

lemma ensures_advance:
  assumes idle: "idle_log x sc n s l" and bound: "Suc n \<le> bound" and entry: "rg_definition entry = sn_definition s"
    and lease: "le_scope lease = sc" and resumable: "resumable l s"
    and ok: "\<And>s' l' left. idle_log x sc (Suc n) s' l' \<Longrightarrow> sn_definition s' = sn_definition s \<Longrightarrow>
      pg_pending (sn_progress s') = None \<Longrightarrow> exec_ensures (running_log x sc bound) (k (Ok ()) s' left) l' Q"
    and err: "\<And>e s' l' left. failed_log x sc (Suc n) s' e l' \<Longrightarrow>
      exec_ensures (running_log x sc bound) (k (Err e) s' left) l' Q"
  shows "exec_ensures (running_log x sc bound) (exec_advance x lease entry s work k) l Q"
proof (cases "pg_pending (sn_progress s)")
  case (Some i)
  have "exec_ensures (running_log x sc bound)
      (settle_intent x lease entry (intent_event i (sn_revision s)) True s work k) l Q"
    by (rule ensures_settle [OF idle bound entry lease])
      (use Some resumable ok err in \<open>auto simp: resumable_def intent_event_def admit_def intent_fresh_def\<close>)
  with Some show ?thesis by (simp add: exec_advance_def)
next
  case None
  note up = idle_mono [OF idle, of "Suc n"]
  show ?thesis
  proof (cases "and_then (next_event s) (\<lambda>e. ok_or e SIntegrity)")
    case (Inl e)
    then show ?thesis using None err [OF idle_failed [OF up]] by (simp add: exec_advance_def)
  next
    case (Inr ev)
    then have ev: "se_kind ev \<in> {ForwardIntent, CompensationIntent, Abort}"
      by (auto simp: and_then_Inr_iff dest: next_event_kind)
    show ?thesis
    proof (cases "se_kind ev = Abort")
      case True
      have "exec_ensures (running_log x sc bound) (commit x lease s ev (\<lambda>r s. k r s work)) l Q"
        by (rule ensures_commit(1) [OF up lease bound]) (use True ok err accepted_pending in auto)
      with None Inr True show ?thesis by (simp add: exec_advance_def)
    next
      case False
      with ev have kind: "se_kind ev \<in> {ForwardIntent, CompensationIntent}" by auto
      have "exec_ensures (running_log x sc bound) (commit_admission x lease s ev work (\<lambda>r s'. case r of
          Inl err \<Rightarrow> k (Err err) s' work
        | Inr _ \<Rightarrow> settle_intent x lease entry ev False s' work k)) l Q"
      proof (rule ensures_commit(2) [OF idle lease])
        show "n \<le> bound" using bound by simp
        fix m l' assume m: "mutation_new (ex_coders x) sc s ev = Ok m"
          and i': "idle_log x sc n (mutation_accept m s) l'" and "xl_acked l' = xl_acked l @ [m]"
        then have fresh: "intent_fresh False (admit ev) (xl_acked l')"
          using mutation_new_Ok(1) [OF m] by (simp add: intent_fresh_def)
        have def: "rg_definition entry = sn_definition (mutation_accept m s)"
          using entry accepted_pending(1) [OF m] by simp
        have "exec_ensures (running_log x sc bound)
            (settle_intent x lease entry ev False (mutation_accept m s) work k) l' Q"
          by (rule ensures_settle [OF i' bound def lease accepted_pending(2) [OF m kind] kind fresh])
            (use ok err accepted_pending(1) [OF m] in simp_all)
        then show "exec_ensures (running_log x sc bound) (case Ok () of
            Inl err \<Rightarrow> k (Err err) (mutation_accept m s) work
          | Inr _ \<Rightarrow> settle_intent x lease entry ev False (mutation_accept m s) work k) l' Q" by simp
      next
        fix e l' assume "failed_log x sc n s e l'"
        then have "failed_log x sc (Suc n) s e l'" by (auto simp: failed_log_def sound_log_def)
        from err [OF this] show "exec_ensures (running_log x sc bound) (case Err e of
            Inl err \<Rightarrow> k (Err err) s work
          | Inr _ \<Rightarrow> settle_intent x lease entry ev False s work k) l' Q" by simp
      qed
      with None Inr False show ?thesis by (simp add: exec_advance_def)
    qed
  qed
qed

subsection \<open>The invocation\<close>

text \<open>What the work flow has established when it returns.\<close>

definition work_result :: "executor \<Rightarrow> saga_scope \<Rightarrow> nat \<Rightarrow> saga_error + saga_report \<Rightarrow> exec_log \<Rightarrow> bool" where
  "work_result x sc budget r l \<longleftrightarrow>
     sound_log x sc budget l \<and> xl_releases l = 0 \<and>
     (case r of
        Inr rep \<Rightarrow>
          rt_advances rep \<le> budget \<and> (\<exists>s. xl_state l = Some s \<and> rt_head rep = sn_head s \<and>
            rt_success rep = (if pg_status (sn_progress s) = Succeeded then Some (sc, sn_definition s) else None)) \<and>
          (\<forall>m y. xl_open l = Some (m, y) \<longrightarrow>
             (\<exists>reason. y = Some (SHistoryLimited reason) \<and> rt_stop rep = StopHistoryLimited reason))
      | Inl e \<Rightarrow>
          (case xl_open l of
             None \<Rightarrow> True
           | Some (m, None) \<Rightarrow> e = SCommitUnknown
           | Some (m, Some e') \<Rightarrow> e = saga_uncertain e'))"

lemma report_of_simps [simp]:
  "rt_head (report_of sc s n) = sn_head s" "rt_advances (report_of sc s n) = n"
  "rt_success (report_of sc s n) = (if pg_status (sn_progress s) = Succeeded then Some (sc, sn_definition s) else None)"
  by (simp_all add: report_of_def Let_def)

lemma idle_result:
  assumes "idle_log x sc n s l" and "n \<le> budget" and "adv \<le> budget"
  shows "work_result x sc budget (Ok (report_of sc s adv)) l" and "work_result x sc budget (Err e) l"
  using assms by (auto simp: work_result_def idle_log_def sound_log_def)

lemma saga_uncertain_limited: "saga_uncertain e = SHistoryLimited reason \<longleftrightarrow> e = SHistoryLimited reason"
  by (auto simp: saga_uncertain_def)

lemma failed_result:
  assumes "failed_log x sc n s e l" and "n \<le> budget" and "adv \<le> budget"
  shows "work_result x sc budget (limited_report sc s adv e) l"
proof -
  have sound: "sound_log x sc budget l" "xl_releases l = 0" "\<not> xl_flight l" "xl_state l = Some s"
    and fate: "case xl_open l of None \<Rightarrow> True | Some (m, None) \<Rightarrow> e = SCommitUnknown | Some (m, Some e') \<Rightarrow> e = saga_uncertain e'"
    using assms(1,2) by (auto simp: failed_log_def sound_log_def)
  show ?thesis
  proof (cases "\<exists>reason. e = SHistoryLimited reason")
    case True
    then obtain reason where e: "e = SHistoryLimited reason" ..
    have "\<exists>reason'. y = Some (SHistoryLimited reason') \<and> reason = reason'" if "xl_open l = Some (m, y)" for m y
      using fate that e saga_uncertain_limited [THEN iffD1, OF sym] by (cases y) auto
    with sound assms(3) e show ?thesis by (auto simp: work_result_def limited_report_def)
  next
    case False
    then have "limited_report sc s adv e = Err e" by (cases e) (auto simp: limited_report_def)
    with sound fate show ?thesis by (simp add: work_result_def)
  qed
qed

lemma ensures_advances:
  assumes "idle_log x sc (budget - left) s l" and "left \<le> budget" and "rg_definition entry = sn_definition s"
    and "le_scope lease = sc" and "resumable l s"
  shows "exec_ensures (running_log x sc budget) (advance_loop x lease entry budget left s work) l (work_result x sc budget)"
  using assms
proof (induction left arbitrary: s l work)
  case 0
  then show ?case using idle_result(1) [of x sc budget s l budget budget] by simp
next
  case (Suc left)
  let ?I = "running_log x sc budget"
  note idle = Suc.prems(1)
  have I: "?I l" by (rule idle_running [OF idle]) simp
  have n: "Suc (budget - Suc left) = budget - left" using Suc.prems(2) by simp
  have adv: "exec_ensures ?I (exec_advance x lease entry s work (\<lambda>r s' work'. case r of
      Inl e \<Rightarrow> Done (limited_report (le_scope lease) s' (budget - Suc left) e)
    | Inr _ \<Rightarrow> advance_loop x lease entry budget left s' work')) l (work_result x sc budget)"
  proof (rule ensures_advance [OF idle _ Suc.prems(3,4,5)])
    show "Suc (budget - Suc left) \<le> budget" using n by simp
    fix s' l' left'
    assume "idle_log x sc (Suc (budget - Suc left)) s' l'" "sn_definition s' = sn_definition s"
      "pg_pending (sn_progress s') = None"
    then show "exec_ensures ?I (case Ok () of
        Inl e \<Rightarrow> Done (limited_report (le_scope lease) s' (budget - Suc left) e)
      | Inr _ \<Rightarrow> advance_loop x lease entry budget left s' left') l' (work_result x sc budget)"
      using Suc.IH Suc.prems n by (simp add: resumable_def)
  next
    fix e s' l' left'
    assume "failed_log x sc (Suc (budget - Suc left)) s' e l'"
    from failed_result [OF this] n Suc.prems(4)
    show "exec_ensures ?I (case Err e of
        Inl e \<Rightarrow> Done (limited_report (le_scope lease) s' (budget - Suc left) e)
      | Inr _ \<Rightarrow> advance_loop x lease entry budget left s' left') l' (work_result x sc budget)"
      by simp
  qed
  show ?case
    unfolding advance_loop.simps(2)
    by (rule ensures_check)
      (use I adv idle_result [OF idle, of budget "budget - Suc left"] Suc.prems(4) in \<open>auto simp: Let_def\<close>)
qed

lemma ensures_verify:
  assumes "I l" and "\<And>e. exec_ensures I (k (Err e)) l Q" and "\<And>work. exec_ensures I (k (Ok work)) l Q"
  shows "exec_ensures I (verify_receipts x sc d es work k) l Q"
proof (induction es arbitrary: work)
  case (Cons e es)
  then show ?case
    using assms(1,2)
    by (auto simp: open_receipt_def intro!: ensures_open split: option.split sum.split)
qed (use assms(3) in simp)

lemma pending_admission_kind:
  "pending_admission x s = Ok () \<Longrightarrow> pg_pending (sn_progress s) = Some i \<Longrightarrow>
     it_kind i \<in> {ForwardIntent, CompensationIntent}"
  by (auto simp: pending_admission_def check_admission_def check_capacity_def progress_reserve_def
      and_then_Inr_iff sn_progress_def split: if_splits option.splits)

lemma resolve_definition: "registry_resolve r d = Ok entry \<Longrightarrow> rg_definition entry = d"
  by (auto simp: registry_resolve_def and_then_Inr_iff split: if_splits)

lemma resume_kind: "resume_event s n = Ok e \<Longrightarrow> se_kind e = Resume"
  by (auto simp: resume_event_def and_then_Inr_iff split: if_splits)

lemma ensures_loaded:
  assumes idle: "idle_log x sc 0 s l" and "xl_acked l = []" and lease: "le_scope lease = sc"
  shows "exec_ensures (running_log x sc budget) (recover_loaded x lease resume budget s) l (work_result x sc budget)"
proof -
  let ?I = "running_log x sc budget"
  have I: "?I l" by (rule idle_running [OF idle]) simp
  note err = idle_result(2) [OF idle, of budget 0]
  show ?thesis
  proof (cases "registry_resolve (ex_registry x) (sn_definition s)")
    case (Inl e)
    with err show ?thesis by (simp add: recover_loaded_def)
  next
    case entry: (Inr entry)
    note def = resolve_definition [OF entry]
    show ?thesis
    proof (cases "pending_admission x s")
      case (Inl e)
      with entry err show ?thesis by (simp add: recover_loaded_def)
    next
      case (Inr u)
      then have "resumable l s"
        using assms(2) pending_admission_kind [of x s] by (auto simp: resumable_def split: option.split)
      then have run: "exec_ensures ?I (advance_loop x lease entry budget budget s work) l (work_result x sc budget)" for work
        using ensures_advances [OF _ _ def lease] idle by simp
      have resumed: "exec_ensures ?I (commit_admission x lease s event work (\<lambda>r s'. case r of
          Inl e \<Rightarrow> Done (limited_report (le_scope lease) s' 0 e)
        | Inr _ \<Rightarrow> advance_loop x lease entry budget budget s' work)) l (work_result x sc budget)"
        if "se_kind event = Resume" for event work
      proof (rule ensures_commit(2) [OF idle lease])
        fix m l' assume m: "mutation_new (ex_coders x) sc s event = Ok m"
          and i: "idle_log x sc 0 (mutation_accept m s) l'" and "xl_acked l' = xl_acked l @ [m]"
        show "exec_ensures ?I (case Ok () of
            Inl e \<Rightarrow> Done (limited_report (le_scope lease) (mutation_accept m s) 0 e)
          | Inr _ \<Rightarrow> advance_loop x lease entry budget budget (mutation_accept m s) work) l' (work_result x sc budget)"
          using ensures_advances [of x sc budget budget "mutation_accept m s" l' entry lease work] i def lease that
            accepted_pending(1,3) [OF m] by (simp add: resumable_def)
      next
        fix e l' assume "failed_log x sc 0 s e l'"
        from failed_result [OF this, of budget 0] lease
        show "exec_ensures ?I (case Err e of
            Inl e \<Rightarrow> Done (limited_report (le_scope lease) s 0 e)
          | Inr _ \<Rightarrow> advance_loop x lease entry budget budget s work) l' (work_result x sc budget)" by simp
      qed simp
      show ?thesis
        unfolding recover_loaded_def entry Inr sum.case
        by (rule ensures_verify)
          (use I err run resumed resume_kind in \<open>auto split: option.split sum.split\<close>)
    qed
  qed
qed

lemma exec_empty_idle: "xl_loaded l = None \<Longrightarrow> xl_state l = None \<Longrightarrow> xl_acked l = [] \<Longrightarrow> acked_chain l"
  by (simp add: acked_chain_def)

lemma fresh_exec_log [simp]:
  "xl_loaded exec_log_empty = None" "xl_state exec_log_empty = None" "xl_acked exec_log_empty = []"
  "xl_open exec_log_empty = None" "\<not> xl_flight exec_log_empty" "xl_effects exec_log_empty = []"
  "xl_releases exec_log_empty = 0"
  by (simp_all add: exec_log_empty_def)

lemma ensures_recover:
  assumes lease: "le_scope lease = sc"
  shows "exec_ensures (running_log x sc budget) (recover x lease resume budget) exec_log_empty (work_result x sc budget)"
proof -
  let ?I = "running_log x sc budget"
  have sound: "sound_log x sc budget exec_log_empty"
    by (simp add: sound_log_def acked_chain_def)
  then have I: "?I exec_log_empty" and err: "work_result x sc budget (Err e) exec_log_empty" for e
    by (simp_all add: running_log_def work_result_def)
  have loaded: "exec_ensures ?I (recover_loaded x lease resume budget s)
      (exec_log_empty\<lparr>xl_loaded := Some s, xl_state := Some s, xl_acked := []\<rparr>) (work_result x sc budget)" for s
    by (rule ensures_loaded [OF _ _ lease])
      (simp_all add: idle_log_def sound_log_def acked_chain_def)
  show ?thesis
    unfolding recover_def
    by (rule ensures_call)
      (use I err loaded in \<open>auto simp: observe_exec_def reply_result_def answer_fits_def pick_snapshot_def
        split: call_reply.splits sum.splits exec_answer.splits\<close>)
qed

lemma renew_unobserved: "unobserved observe_exec (\<lambda>_. True) (renew_until_done fuel x lease)"
proof (induction fuel)
  case (Suc fuel)
  then show ?case
    by (auto simp: saga_call_def saga_check_def split: option.split exec_answer.split sum.split)
qed simp

text \<open>The contract of one invocation.\<close>

definition invocation_contract ::
  "executor \<Rightarrow> saga_scope \<Rightarrow> nat \<Rightarrow> saga_error + saga_report \<Rightarrow> exec_log \<Rightarrow> bool" where
  "invocation_contract x sc budget r l \<longleftrightarrow>
     list_all (effect_authorised x sc) (xl_effects l) \<and> length (xl_effects l) \<le> budget \<and> acked_chain l \<and>
     xl_releases l \<le> 1 \<and>
     (\<forall>m. xl_open l = Some (m, None) \<longrightarrow> r = Err SCommitUnknown \<and> xl_releases l = 0) \<and>
     (\<forall>rep. r = Ok rep \<longrightarrow>
        xl_releases l = 1 \<and> rt_advances rep \<le> budget \<and>
        (\<exists>s. xl_state l = Some s \<and> rt_head rep = sn_head s \<and>
           rt_success rep = (if pg_status (sn_progress s) = Succeeded then Some (sc, sn_definition s) else None)))"

lemma ensures_finish:
  assumes "work_result x sc budget r l"
  shows "exec_ensures (\<lambda>_. True) (finish_run lease r) l (invocation_contract x sc budget)"
proof (cases "retains_lease r")
  case True
  then obtain e where "r = Err e" by (cases r) (auto simp: retains_lease_def)
  with assms True show ?thesis
    by (auto simp: finish_run_def invocation_contract_def work_result_def sound_log_def split: option.splits)
next
  case False
  have nopen: "xl_open l \<noteq> Some (m, None)" for m
    using assms False by (cases r) (auto simp: work_result_def retains_lease_def)
  let ?l = "l\<lparr>xl_releases := Suc (xl_releases l)\<rparr>"
  have "invocation_contract x sc budget (Err e) l" "invocation_contract x sc budget (Err e) ?l"
    "invocation_contract x sc budget r ?l" for e
    using assms nopen
    by (auto simp: invocation_contract_def work_result_def sound_log_def split: sum.splits)
  with False show ?thesis
    unfolding finish_run_def
    by (auto simp: answer_fits_def intro!: ensures_call split: sum.split)
qed

lemma dropped_result:
  assumes "running_log x sc budget l" and "xl_flight l = inflight"
  shows "work_result x sc budget (Err (if inflight then SCommitUnknown else e)) l"
  using assms by (auto simp: running_log_def work_result_def sound_log_def)

lemma ensures_enter:
  "exec_ensures (\<lambda>_. True) (exec_enter fuel x sc resume budget) exec_log_empty (invocation_contract x sc budget)"
proof -
  let ?I = "\<lambda>_ :: exec_log. True"
  let ?Q = "invocation_contract x sc budget"
  have err: "invocation_contract x sc b (Err e) exec_log_empty" for b e
    by (simp add: invocation_contract_def acked_chain_def)
  have raced: "exec_ensures ?I
      (select_biased track_commit False (recover x lease resume budget) (renew_until_done fuel x lease)
        (\<lambda>_. finish_run lease) (\<lambda>inflight e _. finish_run lease (Err (if inflight then SCommitUnknown else e))))
      exec_log_empty ?Q" if "le_scope lease = sc" for lease
  proof (rule ensures_select [OF ensures_recover [OF that] renew_unobserved, where F = "\<lambda>b l. xl_flight l = b"])
    show "xl_flight exec_log_empty = False" by simp
    show "xl_flight (observe_exec e l) = track_commit True e b" if "xl_flight l = b" for e b l
      using track_commit_flight [OF that] .
    show "xl_flight l = track_commit False e b" if "xl_flight l = b" for e b l
      using that by (cases "(False, e, b)" rule: track_commit.cases) auto
    show "exec_ensures ?I (finish_run lease r) l ?Q" if "work_result x sc budget r l" for r l
      by (rule ensures_finish [OF that])
    show "exec_ensures ?I (finish_run lease (Err (if inflight then SCommitUnknown else e))) l ?Q"
      if "xl_flight l = inflight" "running_log x sc budget l" for inflight e l
      by (rule ensures_finish [OF dropped_result [OF that(2,1)]])
  qed simp
  show ?thesis
    unfolding exec_enter_def
    by (auto simp: answer_fits_claim reply_result_def err intro!: ensures_check ensures_call raced
        split: sum.split call_reply.splits)
qed

text \<open>
  C12. Running or resuming a saga always returns, whatever store, cipher, actions, clock and the
  executor of the host do, for a store that grants claims for the requested scope only. Every
  effect call was authorised: a first attempt by the acknowledged commit of exactly that intent
  just before it, a probe by the intent found in the loaded snapshot; it carries the idempotency
  key of its scope and step, and a compensation gets the authenticated receipt of its step. At most
  \<open>budget\<close> effects are called. The acknowledged commits are admissions that lead from the loaded
  to the reported snapshot. A commit whose fate is unknown is the last act: the result says so
  and the lease is left to expire.
\<close>

theorem saga_invocation_contract:
  assumes "\<And>q w. answer_fits q (fst (te_answer env q w))"
    and "run_task env (exec_enter fuel x sc resume budget) w = (es, r, w')"
  shows "\<exists>a. r = Some a \<and> invocation_contract x sc budget a (fold observe_exec es exec_log_empty)"
  by (rule ensures_run [OF ensures_enter assms])

subsection \<open>Sweeps\<close>

lemma candidates_ascend_iff:
  "candidates_ascend tenant previous scs = Ok () \<longleftrightarrow>
     list_all (\<lambda>sc. sg_tenant sc = tenant) scs \<and> sorted_wrt (<) (map sg_id scs) \<and>
     (\<forall>i sc. previous = Some i \<longrightarrow> sc \<in> set scs \<longrightarrow> i < sg_id sc)"
proof (induction scs arbitrary: previous)
  case (Cons sc scs)
  then show ?case
    by (auto split: option.splits dest: order.strict_trans)
qed simp

text \<open>What a finished sweep reports about the page it was given.\<close>

definition sweep_outcome ::
  "128 word \<Rightarrow> saga_scope option \<Rightarrow> nat \<Rightarrow> saga_scope list \<Rightarrow> sweep_report \<Rightarrow> bool" where
  "sweep_outcome tenant cursor limit page rep \<longleftrightarrow>
     map fst (sw_items rep) = take (length (sw_items rep)) page \<and>
     length page \<le> limit \<and> list_all (\<lambda>sc. sg_tenant sc = tenant) page \<and> sorted_wrt (<) (map sg_id page) \<and>
     (\<forall>c sc. cursor = Some c \<longrightarrow> sc \<in> set page \<longrightarrow> sg_id c < sg_id sc) \<and>
     sw_next_cursor rep =
       (if page = [] then None else if sw_items rep = [] then cursor else Some (fst (last (sw_items rep)))) \<and>
     (sw_stop rep = PageComplete \<longleftrightarrow> length (sw_items rep) = length page \<and>
        (\<forall>r \<in> snd ` set (sw_items rep). r \<notin> {Err SCancelled, Err SDeadline}))"

lemma run_check:
  assumes "\<And>q w. answer_fits q (fst (te_answer env q w))" and "run_task env (saga_check k) w = (es, r, w')"
  obtains c es' w1 where "run_task env (k c) w1 = (es', r, w')" "set es' \<subseteq> set es" "c = Ok () \<or> (\<exists>i. c = Err (interruption_error i))"
proof -
  obtain a w1 where a: "te_answer env QCheck (te_issue env QCheck w) = (a, w1)" by fastforce
  have "answer_fits QCheck a" using assms(1) [of QCheck "te_issue env QCheck w"] a by simp
  then obtain i where i: "a = AChecked i" by (auto simp: answer_fits_check)
  obtain c where c: "c = (case i of None \<Rightarrow> Ok () | Some j \<Rightarrow> Err (interruption_error j))" by blast
  obtain es' w2 r2 where k: "run_task env (k c) w1 = (es', r2, w2)" by (metis prod_cases3)
  then have "r2 = r" "w2 = w'" "set es' \<subseteq> set es"
    using assms(2) a i c by (auto simp: saga_check_def split: option.splits)
  with k c that [of c w1 es'] show ?thesis by (auto split: option.splits)
qed

lemma sweep_stops:
  "sweep_stop_of e \<noteq> PageComplete"
  by (simp add: sweep_stop_of_def)

lemma sweep_loop_run:
  assumes fits: "\<And>q w. answer_fits q (fst (te_answer env q w))"
    and "run_task env (sweep_loop fuel x scs rep) w = (es, r, w')"
    and "sw_stop rep = PageComplete"
  shows "\<exists>rep' new. r = Some rep' \<and> sw_items rep' = sw_items rep @ new \<and> map fst new = take (length new) scs \<and>
    sw_next_cursor rep' = (if new = [] then sw_next_cursor rep else Some (fst (last new))) \<and>
    (sw_stop rep' = PageComplete \<longleftrightarrow> length new = length scs \<and>
       (\<forall>r \<in> snd ` set new. r \<notin> {Err SCancelled, Err SDeadline}))"
  using assms(2,3)
proof (induction scs arbitrary: rep w es)
  case Nil
  then show ?case by auto
next
  case (Cons sc scs)
  obtain c :: "saga_error + unit" and es' w1 where run: "run_task env (case c of
        Inl e \<Rightarrow> Done (rep\<lparr>sw_stop := sweep_stop_of e\<rparr>)
      | Inr _ \<Rightarrow> bind_task (exec_run fuel x sc 1) (\<lambda>result.
         let rep' = rep\<lparr>sw_items := sw_items rep @ [(sc, result)], sw_next_cursor := Some sc\<rparr> in
         case result of
           Inl e \<Rightarrow>
             if e \<in> {SCancelled, SDeadline} then Done (rep'\<lparr>sw_stop := sweep_stop_of e\<rparr>)
             else sweep_loop fuel x scs rep'
         | Inr _ \<Rightarrow> sweep_loop fuel x scs rep')) w1 = (es', r, w')"
    by (rule run_check [OF fits Cons.prems(1) [unfolded sweep_loop.simps]]) (rule that)
  show ?case
  proof (cases c)
    case (Inl e)
    with run sweep_stops show ?thesis by auto
  next
    case (Inr u)
    obtain es1 o1 w2 where enter: "run_task env (exec_enter fuel x sc None 1) w1 = (es1, o1, w2)"
      by (cases "run_task env (exec_enter fuel x sc None 1) w1")
    then obtain a where step: "run_task env (exec_run fuel x sc 1) w1 = (es1, Some a, w2)"
      using ensures_run [OF ensures_enter fits enter] by (auto simp: exec_run_def)
    let ?rep = "rep\<lparr>sw_items := sw_items rep @ [(sc, a)], sw_next_cursor := Some sc\<rparr>"
    show ?thesis
    proof (cases "a \<in> {Err SCancelled, Err SDeadline}")
      case True
      then obtain e where e: "a = Err e" "e \<in> {SCancelled, SDeadline}" by auto
      with run Inr step have "r = Some (?rep\<lparr>sw_stop := sweep_stop_of e\<rparr>)"
        by (simp add: run_bind Let_def apfst_def)
      with e sweep_stops show ?thesis by (intro exI [of _ "?rep\<lparr>sw_stop := sweep_stop_of e\<rparr>"] exI [of _ "[(sc, a)]"]) auto
    next
      case False
      have "apfst ((@) es1) (run_task env (sweep_loop fuel x scs ?rep) w2) = (es', r, w')"
        using run Inr step False by (cases a) (simp_all add: run_bind Let_def)
      then obtain es2 where "run_task env (sweep_loop fuel x scs ?rep) w2 = (es2, r, w')"
        by (cases "run_task env (sweep_loop fuel x scs ?rep) w2") simp
      moreover have "sw_stop ?rep = PageComplete" using Cons.prems(2) by simp
      ultimately obtain rep' new where "r = Some rep'" "sw_items rep' = sw_items ?rep @ new"
        "map fst new = take (length new) scs"
        "sw_next_cursor rep' = (if new = [] then sw_next_cursor ?rep else Some (fst (last new)))"
        "sw_stop rep' = PageComplete \<longleftrightarrow> length new = length scs \<and>
           (\<forall>r \<in> snd ` set new. r \<notin> {Err SCancelled, Err SDeadline})"
        using Cons.IH by blast
      with False show ?thesis by (intro exI [of _ rep'] exI [of _ "(sc, a) # new"]) auto
    qed
  qed
qed

lemma run_candidates:
  assumes fits: "\<And>q w. answer_fits q (fst (te_answer env q w))"
    and "run_task env (saga_call (QCandidates f t c n) pick_candidates k) w = (es, r, w')"
  obtains p es' w1 where "run_task env (k p) w1 = (es', r, w')"
    "\<And>page. p = Ok page \<Longrightarrow> Answered (QCandidates f t c n) (ACandidates (Returned (Ok page))) \<in> set es"
proof -
  let ?q = "QCandidates f t c n"
  obtain ch :: "saga_error + unit" and es1 w1 where run: "run_task env (case ch of
        Inl e \<Rightarrow> k (Err e)
      | Inr _ \<Rightarrow> ask ?q (\<lambda>a. case pick_candidates a of None \<Rightarrow> Never | Some r \<Rightarrow> k (reply_result r))) w1 = (es1, r, w')"
    and sub: "set es1 \<subseteq> set es"
    by (rule run_check [OF fits assms(2) [unfolded saga_call_def]]) (rule that)
  show thesis
  proof (cases ch)
    case (Inl e)
    with run that [of "Err e" w1 es1] show thesis by simp
  next
    case (Inr u)
    obtain a w2 where a: "te_answer env ?q (te_issue env ?q w1) = (a, w2)" by fastforce
    have "answer_fits ?q a" using fits [of ?q "te_issue env ?q w1"] a by simp
    then obtain p where p: "a = ACandidates p" by (auto simp: answer_fits_def)
    obtain es2 r2 w3 where k: "run_task env (k (reply_result p)) w2 = (es2, r2, w3)" by (metis prod_cases3)
    have eq: "r2 = r" "w3 = w'" "es1 = Issued ?q # Answered ?q a # es2"
      using run Inr a p k by (auto simp: pick_candidates_def)
    have "Answered ?q (ACandidates (Returned (Ok page))) \<in> set es" if "reply_result p = Ok page" for page
      using that sub eq p by (auto simp: reply_result_def split: call_reply.splits)
    with k eq that [of "reply_result p" w2 es2] show thesis by simp
  qed
qed

text \<open>
  A sweep always returns. Its report covers a prefix of the page the store answered, in order;
  the page belongs to the tenant, is within the budget and strictly ascends from the cursor, so
  no instance is run twice and the next cursor moves on; an empty page restarts the pass; and the
  sweep calls itself complete exactly when the whole page was run and nothing was interrupted.
\<close>

theorem sweep_covers_page:
  assumes "\<And>q w. answer_fits q (fst (te_answer env q w))"
    and "run_task env (run_once fuel x tenant cursor budget) w = (es, r, w')"
  shows "\<exists>a. r = Some a \<and> (\<forall>rep. a = Ok rep \<longrightarrow> (\<exists>page.
    Answered (QCandidates Runnable tenant (map_option sg_id cursor) (min (sw_instances budget) (sw_advances budget)))
      (ACandidates (Returned (Ok page))) \<in> set es \<and>
    sweep_outcome tenant cursor (min (sw_instances budget) (sw_advances budget)) page rep))"
proof (cases "foreign_cursor tenant cursor")
  case True
  with assms(2) show ?thesis by (auto simp: run_once_def)
next
  case False
  let ?limit = "min (sw_instances budget) (sw_advances budget)"
  let ?start = "\<lparr>sw_items = [], sw_next_cursor = cursor, sw_stop = PageComplete\<rparr>"
  note unfolded = assms(2) [unfolded run_once_def Let_def if_not_P [OF False]]
  obtain p es' w1 where run: "run_task env (case and_then p (\<lambda>scopes.
          and_then (validate_candidates scopes tenant cursor ?limit) (\<lambda>_. Ok scopes)) of
        Inl e \<Rightarrow> Done (Err e)
      | Inr candidates \<Rightarrow>
          if candidates = [] then Done (Ok \<lparr>sw_items = [], sw_next_cursor = None, sw_stop = PageComplete\<rparr>)
          else bind_task (sweep_loop fuel x candidates ?start) (\<lambda>report. Done (Ok report))) w1 = (es', r, w')"
    and asked: "\<And>page. p = Ok page \<Longrightarrow>
      Answered (QCandidates Runnable tenant (map_option sg_id cursor) ?limit) (ACandidates (Returned (Ok page))) \<in> set es"
    by (rule run_candidates [OF assms(1) unfolded]) (rule that)
  show ?thesis
  proof (cases "and_then p (\<lambda>scopes. and_then (validate_candidates scopes tenant cursor ?limit) (\<lambda>_. Ok scopes))")
    case (Inl e)
    with run show ?thesis by auto
  next
    case (Inr page)
    then have p: "p = Ok page" and v: "validate_candidates page tenant cursor ?limit = Ok ()"
      by (auto simp: and_then_Inr_iff)
    have page: "length page \<le> ?limit" "list_all (\<lambda>sc. sg_tenant sc = tenant) page" "sorted_wrt (<) (map sg_id page)"
      "\<forall>c sc. cursor = Some c \<longrightarrow> sc \<in> set page \<longrightarrow> sg_id c < sg_id sc"
      using v by (auto simp: validate_candidates_def candidates_ascend_iff split: if_splits)
    show ?thesis
    proof (cases "page = []")
      case True
      with run Inr asked [OF p] page show ?thesis by (auto simp: sweep_outcome_def)
    next
      case False
      obtain es2 r2 w2 where loop: "run_task env (sweep_loop fuel x page ?start) w1 = (es2, r2, w2)"
        by (metis prod_cases3)
      obtain rep new where r2: "r2 = Some rep" and new: "sw_items rep = sw_items ?start @ new"
        and items: "map fst new = take (length new) page"
        and nxt: "sw_next_cursor rep = (if new = [] then sw_next_cursor ?start else Some (fst (last new)))"
        and stop: "sw_stop rep = PageComplete \<longleftrightarrow> length new = length page \<and>
          (\<forall>r \<in> snd ` set new. r \<notin> {Err SCancelled, Err SDeadline})"
        using sweep_loop_run [OF assms(1) loop] by auto
      have "r = Some (Ok rep)" using run Inr False loop r2 by (simp add: run_bind)
      moreover have "sweep_outcome tenant cursor ?limit page rep"
        using False page items nxt stop new by (simp add: sweep_outcome_def)
      ultimately show ?thesis using asked [OF p] by auto
    qed
  qed
qed

subsection \<open>A sample invocation\<close>

text \<open>Two steps, none done yet; the providers answer every call, and one advance is allowed.\<close>

definition demo_saga_scope :: saga_scope where
  "demo_saga_scope = \<lparr>sg_tenant = 1, sg_id = 2\<rparr>"

definition demo_executor :: executor where
  "demo_executor = \<lparr>ex_coders = demo_coders, ex_ring = demo_ring,
     ex_registry = [(df_identity saga_demo_definition, \<lparr>rg_definition = saga_demo_definition, rg_actions = [0, 0]\<rparr>)],
     ex_ttl = 30000000000, ex_read = sn_read saga_demo_snapshot\<rparr>"

definition demo_answer :: "exec_request \<Rightarrow> exec_answer" where
  "demo_answer q =
     (case q of
        QCheck \<Rightarrow> AChecked None
      | QClaim sc _ \<Rightarrow> AClaimed (Returned (Ok \<lparr>le_scope = sc, le_token = 1, le_epoch = 1\<rparr>))
      | QHistoryHead _ \<Rightarrow> AHead (Returned (Ok (sn_head saga_demo_snapshot)))
      | QSnapshot _ _ \<Rightarrow> ASnapshot (Returned (Ok saga_demo_snapshot))
      | QCandidates _ _ _ _ \<Rightarrow> ACandidates (Returned (Ok [demo_saga_scope]))
      | QSeal p _ \<Rightarrow> ASealed (Returned (Ok \<lparr>ct_key_ref = ''k'', ct_bytes = 1 # p\<rparr>))
      | QOpen ct _ \<Rightarrow> AOpened (Returned (Ok (tl (ct_bytes ct))))
      | QEffect (ForwardCall _ _ _) \<Rightarrow> AForward (Returned (Ok (Applied [7])))
      | QEffect (ReverseCall _ _ _ _) \<Rightarrow> AReverse (Returned (Ok (Applied ())))
      | _ \<Rightarrow> ADone (Returned (Ok ())))"

definition demo_exec_env :: "(exec_request, exec_answer, unit) task_env" where
  "demo_exec_env = \<lparr>te_choose = (\<lambda>w. (True, w)), te_issue = (\<lambda>q w. w), te_answer = (\<lambda>q w. (demo_answer q, w))\<rparr>"

lemma demo_exec_fits: "answer_fits q (fst (te_answer demo_exec_env q w))"
  by (auto simp: demo_exec_env_def demo_answer_def answer_fits_def pick_defs
      split: exec_request.split effect_call.split)

lemmas exec_eval =
  exec_enter_def saga_check_def saga_call_def select_biased_equations demo_exec_env_def demo_answer_def
  recover_def recover_loaded_def registry_resolve_def demo_executor_def pending_admission_def
  exec_advance_def next_event_def commit_admission_def commit_def mutation_new_def persist_def
  settle_intent_def exec_forward_def effect_context_new_def effect_key_def control_seal_def seal_admits_def
  seal_result_def receipt_context_new_def forward_event_def limited_report_def finish_run_def
  retains_lease_def reply_result_def pick_defs saga_uncertain_def kind_phase_def mutation_accept_def
  saga_demo_steps keyring_current_def keyed_fingerprint_def demo_coders_def demo_hmac_def demo_ring_def
  demo_key_def aad_fields_def demo_saga_scope_def saga_demo_identity_def contract_version_display_def
  show_nat.simps commit_answer_def observe_exec_def

lemma demo_invocation:
  "\<exists>es rep w'. run_task demo_exec_env (exec_enter 0 demo_executor demo_saga_scope None 1) () = (es, Some (Ok rep), w') \<and>
     length (xl_effects (fold observe_exec es exec_log_empty)) = 1"
  by (simp add: exec_eval)

theorem saga_invocation_contract_witness:
  "\<exists>es rep w'. run_task demo_exec_env (exec_enter 0 demo_executor demo_saga_scope None 1) () = (es, Some (Ok rep), w') \<and>
     length (xl_effects (fold observe_exec es exec_log_empty)) = 1 \<and>
     invocation_contract demo_executor demo_saga_scope 1 (Ok rep) (fold observe_exec es exec_log_empty)"
proof -
  obtain es rep w' where run: "run_task demo_exec_env (exec_enter 0 demo_executor demo_saga_scope None 1) () = (es, Some (Ok rep), w')"
    and one: "length (xl_effects (fold observe_exec es exec_log_empty)) = 1"
    using demo_invocation by blast
  from saga_invocation_contract [OF demo_exec_fits run] run one show ?thesis by auto
qed

lemma demo_sweep:
  "\<exists>es rep w'. run_task demo_exec_env (run_once 0 demo_executor 1 None \<lparr>sw_instances = 5, sw_advances = 5\<rparr>) ()
     = (es, Some (Ok rep), w')"
proof -
  obtain es rep w' where run: "run_task demo_exec_env (exec_run 0 demo_executor demo_saga_scope 1) () = (es, Some (Ok rep), w')"
    using demo_invocation unfolding exec_run_def by blast
  have env: "te_issue demo_exec_env q w = w" "te_answer demo_exec_env q w = (demo_answer q, w)" for q w
    by (simp_all add: demo_exec_env_def)
  have "sg_tenant demo_saga_scope = 1" by (simp add: demo_saga_scope_def)
  with run show ?thesis
    by (simp add: run_once_def foreign_cursor_def saga_call_def saga_check_def validate_candidates_def
        run_bind env Let_def pick_candidates_def reply_result_def demo_answer_def)
qed

theorem sweep_covers_page_witness:
  "\<exists>es rep w' page. run_task demo_exec_env (run_once 0 demo_executor 1 None \<lparr>sw_instances = 5, sw_advances = 5\<rparr>) ()
     = (es, Some (Ok rep), w') \<and> sweep_outcome 1 None 5 page rep"
proof -
  obtain es rep w' where run: "run_task demo_exec_env (run_once 0 demo_executor 1 None
      \<lparr>sw_instances = 5, sw_advances = 5\<rparr>) () = (es, Some (Ok rep), w')"
    using demo_sweep by blast
  from sweep_covers_page [OF demo_exec_fits run] run show ?thesis by auto
qed

end
