(* ===== verification/Messaging_Message.thy ===== *)
theory Messaging_Message
  imports Contract_Values "HOL-Library.Char_ord" "HOL-Library.List_Lexorder" "HOL-Library.Multiset"
begin

section \<open>Messages and execution bindings\<close>

text \<open>
  Models \<^verbatim>\<open>crates/transactional-messaging/src/message.rs\<close> and \<^verbatim>\<open>fence.rs\<close>: the validated
  names, the authored envelope, its canonical bytes and fingerprint, and the fixed tenant scope
  of an executor. A tenant is the 128-bit value of its UUID; the payload is its bytes. SHA-256
  and the text form of a tenant are parameters.
\<close>

subsection \<open>Validated names\<close>

datatype message_identity_error = MsgIdEmpty | MsgIdTooLong | MsgIdInvalidChar

definition is_ascii_control :: "char \<Rightarrow> bool" where
  "is_ascii_control c \<longleftrightarrow> byte_of c < 32 \<or> byte_of c = 127"

definition message_id_max_len :: nat where
  "message_id_max_len = 255"

definition partition_key_max_len :: nat where
  "partition_key_max_len = 255"

definition identity_byte :: "char \<Rightarrow> bool" where
  "identity_byte c \<longleftrightarrow>
     is_ascii_alphanumeric c \<or> c = CHR ''.'' \<or> c = CHR ''-'' \<or> c = CHR ''_'' \<or> c = CHR '':''"

definition validate_transport_identity :: "string \<Rightarrow> nat \<Rightarrow> message_identity_error + unit" where
  "validate_transport_identity raw max_len =
     (if raw = [] then Err MsgIdEmpty
      else if length raw > max_len then Err MsgIdTooLong
      else if \<not> list_all identity_byte raw then Err MsgIdInvalidChar
      else Ok ())"

definition message_id_parse :: "string \<Rightarrow> message_identity_error + string" where
  "message_id_parse raw = and_then (validate_transport_identity raw message_id_max_len) (\<lambda>_. Ok raw)"

definition messaging_domain_parse :: "string \<Rightarrow> message_identity_error + string" where
  "messaging_domain_parse raw = and_then (validate_transport_identity raw message_id_max_len) (\<lambda>_. Ok raw)"

definition message_route_parse :: "string \<Rightarrow> message_identity_error + string" where
  "message_route_parse raw = and_then (validate_transport_identity raw message_id_max_len) (\<lambda>_. Ok raw)"

definition partition_key_parse :: "string \<Rightarrow> message_identity_error + string" where
  "partition_key_parse raw =
     (if raw = [] then Err MsgIdEmpty
      else if length raw > partition_key_max_len then Err MsgIdTooLong
      else if list_ex is_ascii_control raw then Err MsgIdInvalidChar
      else Ok raw)"

subsection \<open>Envelope\<close>

type_synonym tenant_id = "128 word"

definition octets :: "tenant_id \<Rightarrow> bytes" where
  "octets t = be_bytes 16 (unat t)"

record contract_identity =
  ci_id :: string
  ci_version :: nat
  ci_schema_digest :: string

record subscription_identity =
  sub_domain :: string
  sub_route :: string
  sub_contract :: contract_identity

record partition_identity =
  pt_tenant :: tenant_id
  pt_domain :: string
  pt_key :: string

record authored_message_metadata =
  am_tenant :: tenant_id
  am_occurred_at :: timepoint
  am_domain :: string
  am_route :: string
  am_contract :: contract_identity

text \<open>A \<open>BTreeMap\<close> is the list of its entries in key order.\<close>

record message_metadata_extensions =
  mx_correlation :: "string option"
  mx_partition_key :: "string option"
  mx_causation :: "string option"
  mx_attributes :: "(string \<times> string) list"

record message_metadata =
  mm_tenant :: tenant_id
  mm_occurred_at :: timepoint
  mm_correlation :: "string option"
  mm_domain :: string
  mm_route :: string
  mm_contract :: contract_identity
  mm_partition :: "partition_identity option"
  mm_causation :: "string option"
  mm_attributes :: "(string \<times> string) list"

definition message_metadata_new ::
  "authored_message_metadata \<Rightarrow> message_metadata_extensions \<Rightarrow> message_metadata" where
  "message_metadata_new r x =
     \<lparr>mm_tenant = am_tenant r, mm_occurred_at = am_occurred_at r, mm_correlation = mx_correlation x,
      mm_domain = am_domain r, mm_route = am_route r, mm_contract = am_contract r,
      mm_partition = map_option
        (\<lambda>key. \<lparr>pt_tenant = am_tenant r, pt_domain = am_domain r, pt_key = key\<rparr>) (mx_partition_key x),
      mm_causation = mx_causation x, mm_attributes = mx_attributes x\<rparr>"

record transport_context =
  tc_trace :: "string option"
  tc_tenant_authority :: "string option"

record message_envelope =
  me_id :: string
  me_metadata :: message_metadata
  me_transport :: transport_context
  me_payload :: bytes

definition envelope_new :: "string \<Rightarrow> message_metadata \<Rightarrow> bytes \<Rightarrow> message_envelope" where
  "envelope_new i md p =
     \<lparr>me_id = i, me_metadata = md,
      me_transport = \<lparr>tc_trace = None, tc_tenant_authority = None\<rparr>, me_payload = p\<rparr>"

definition with_transport_context :: "transport_context \<Rightarrow> message_envelope \<Rightarrow> message_envelope" where
  "with_transport_context t m = m\<lparr>me_transport := t\<rparr>"

definition subscription_accepts :: "subscription_identity \<Rightarrow> message_envelope \<Rightarrow> bool" where
  "subscription_accepts s m \<longleftrightarrow>
     mm_domain (me_metadata m) = sub_domain s \<and> mm_route (me_metadata m) = sub_route s \<and>
     mm_contract (me_metadata m) = sub_contract s"

subsection \<open>Canonical bytes\<close>

definition u64_of_len :: "nat \<Rightarrow> nat" where
  "u64_of_len n = (if n < 2 ^ 64 then n else 2 ^ 64 - 1)"

definition be_bytes_i64 :: "int \<Rightarrow> bytes" where
  "be_bytes_i64 n = be_bytes 8 (nat (n mod 2 ^ 64))"

definition frame :: "u8 \<Rightarrow> bytes \<Rightarrow> bytes" where
  "frame tag value = tag # be_bytes_u64 (u64_of_len (length value)) @ value"

definition frame_optional :: "u8 \<Rightarrow> bytes option \<Rightarrow> bytes" where
  "frame_optional tag v =
     (case v of Some b \<Rightarrow> frame tag [1] @ frame tag b | None \<Rightarrow> frame tag [0])"

definition fingerprint_domain :: string where
  "fingerprint_domain = ''rss-transactional-message-v1''"

definition canonical_bytes :: "message_envelope \<Rightarrow> bytes" where
  "canonical_bytes m =
     (let md = me_metadata m; ct = mm_contract md in
      frame 0 (ascii_bytes fingerprint_domain)
      @ frame 1 (ascii_bytes (me_id m))
      @ frame 2 (octets (mm_tenant md))
      @ frame 3 (be_bytes_i64 (mm_occurred_at md))
      @ frame_optional 4 (map_option ascii_bytes (mm_correlation md))
      @ frame 5 (ascii_bytes (mm_domain md))
      @ frame 6 (ascii_bytes (mm_route md))
      @ frame 7 (ascii_bytes (ci_id ct))
      @ frame 8 (be_bytes 4 (ci_version ct))
      @ frame 9 (ascii_bytes (ci_schema_digest ct))
      @ (case mm_partition md of
           Some p \<Rightarrow> frame 10 [1] @ frame 11 (octets (pt_tenant p))
                     @ frame 12 (ascii_bytes (pt_domain p)) @ frame 13 (ascii_bytes (pt_key p))
         | None \<Rightarrow> frame 10 [0])
      @ frame_optional 14 (map_option ascii_bytes (mm_causation md))
      @ frame 15 (be_bytes_u64 (u64_of_len (length (mm_attributes md))))
      @ concat (map (\<lambda>(k, v). frame 16 (ascii_bytes k) @ frame 17 (ascii_bytes v)) (mm_attributes md))
      @ frame 18 (me_payload m))"

type_synonym fingerprint = bytes

definition fingerprint_of :: "(bytes \<Rightarrow> bytes) \<Rightarrow> message_envelope \<Rightarrow> fingerprint" where
  "fingerprint_of sha256 m = sha256 (canonical_bytes m)"

record message_conflict =
  mc_message_id :: string
  mc_expected :: fingerprint
  mc_actual :: fingerprint

definition fingerprint_verify ::
  "fingerprint \<Rightarrow> string \<Rightarrow> fingerprint \<Rightarrow> message_conflict + unit" where
  "fingerprint_verify self i actual =
     (if self = actual then Ok ()
      else Err \<lparr>mc_message_id = i, mc_expected = self, mc_actual = actual\<rparr>)"

subsection \<open>Execution binding\<close>

datatype invalid_binding = InvalidBinding

definition epoch_new :: "int \<Rightarrow> invalid_binding + int" where
  "epoch_new v = (if v > 0 then Ok v else Err InvalidBinding)"

definition epoch_next :: "int \<Rightarrow> invalid_binding + int" where
  "epoch_next e = and_then (ok_or (i64_checked_add e 1) InvalidBinding) epoch_new"

record storage_identity =
  si_target :: bytes
  si_lineage :: bytes

definition storage_identity_new :: "bytes \<Rightarrow> bytes \<Rightarrow> invalid_binding + storage_identity" where
  "storage_identity_new target lineage =
     (if target = replicate 16 0 \<or> lineage = replicate 16 0 then Err InvalidBinding
      else Ok \<lparr>si_target = target, si_lineage = lineage\<rparr>)"

record execution_binding =
  eb_storage :: storage_identity
  eb_tenants :: "(tenant_id \<times> int) list"

fun adjacent_same_tenant :: "(tenant_id \<times> int) list \<Rightarrow> bool" where
  "adjacent_same_tenant (a # b # xs) = (fst a = fst b \<or> adjacent_same_tenant (b # xs))"
| "adjacent_same_tenant xs = False"

definition execution_binding_new ::
  "(tenant_id \<Rightarrow> string) \<Rightarrow> storage_identity \<Rightarrow> (tenant_id \<times> int) list
     \<Rightarrow> invalid_binding + execution_binding" where
  "execution_binding_new show_tenant storage tenants =
     (if tenants = [] then Err InvalidBinding
      else
        let sorted = sort_key (\<lambda>p. show_tenant (fst p)) tenants in
        if adjacent_same_tenant sorted then Err InvalidBinding
        else Ok \<lparr>eb_storage = storage, eb_tenants = sorted\<rparr>)"

definition binding_epoch :: "execution_binding \<Rightarrow> tenant_id \<Rightarrow> int option" where
  "binding_epoch b t = map_option snd (List.find (\<lambda>p. fst p = t) (eb_tenants b))"

section \<open>Theorems\<close>

subsection \<open>Framing is uniquely decodable\<close>

lemma u64_of_len_le [simp]: "n < 2 ^ 64 \<Longrightarrow> u64_of_len n = n"
  by (simp add: u64_of_len_def)

lemma frame_length: "length (frame t v) = 9 + length v"
  by (simp add: frame_def)

lemma frame_inject:
  assumes "frame t v @ r = frame t' v' @ r'" and "length v < 2 ^ 64" and "length v' < 2 ^ 64"
  shows "t = t' \<and> v = v' \<and> r = r'"
proof -
  have eq: "t = t'" "be_bytes_u64 (length v) @ v @ r = be_bytes_u64 (length v') @ v' @ r'"
    using assms by (simp_all add: frame_def)
  then have "be_bytes_u64 (length v) = be_bytes_u64 (length v')"
    by (simp add: append_eq_append_conv)
  then have "length v = length v'"
    using assms(2,3) by (intro be_bytes_u64_inject) auto
  with eq show ?thesis by (simp add: append_eq_append_conv)
qed

text \<open>The encoding as the list of its frames.\<close>

definition frames :: "(u8 \<times> bytes) list \<Rightarrow> bytes" where
  "frames fs = concat (map (\<lambda>(t, v). frame t v) fs)"

abbreviation short_frames :: "(u8 \<times> bytes) list \<Rightarrow> bool" where
  "short_frames fs \<equiv> list_all (\<lambda>f. length (snd f) < 2 ^ 64) fs"

lemma frames_simps [simp]:
  "frames [] = []"
  "frames (f # fs) = frame (fst f) (snd f) @ frames fs"
  "frames (fs @ gs) = frames fs @ frames gs"
  by (simp_all add: frames_def split_def)

lemma frames_inject:
  "frames fs = frames gs \<Longrightarrow> short_frames fs \<Longrightarrow> short_frames gs \<Longrightarrow> fs = gs"
proof (induction fs arbitrary: gs)
  case Nil
  then show ?case by (cases gs) (auto simp: frame_def)
next
  case (Cons f fs)
  then obtain g gs' where gs: "gs = g # gs'" by (cases gs) (auto simp: frame_def)
  with Cons.prems have "fst f = fst g \<and> snd f = snd g \<and> frames fs = frames gs'"
    by (intro frame_inject) auto
  with Cons gs show ?case by (auto simp: prod_eq_iff)
qed

definition optional_frames :: "u8 \<Rightarrow> bytes option \<Rightarrow> (u8 \<times> bytes) list" where
  "optional_frames t v = (case v of Some b \<Rightarrow> [(t, [1]), (t, b)] | None \<Rightarrow> [(t, [0])])"

definition partition_frames :: "partition_identity option \<Rightarrow> (u8 \<times> bytes) list" where
  "partition_frames q =
     (case q of
        Some p \<Rightarrow> [(10, [1]), (11, octets (pt_tenant p)), (12, ascii_bytes (pt_domain p)),
                   (13, ascii_bytes (pt_key p))]
      | None \<Rightarrow> [(10, [0])])"

definition attribute_frames :: "(string \<times> string) list \<Rightarrow> (u8 \<times> bytes) list" where
  "attribute_frames as = concat (map (\<lambda>(k, v). [(16, ascii_bytes k), (17, ascii_bytes v)]) as)"

definition head_frames :: "message_envelope \<Rightarrow> (u8 \<times> bytes) list" where
  "head_frames m =
     (let md = me_metadata m; ct = mm_contract md in
      [(0, ascii_bytes fingerprint_domain), (1, ascii_bytes (me_id m)), (2, octets (mm_tenant md)),
       (3, be_bytes_i64 (mm_occurred_at md))])"

definition route_frames :: "message_envelope \<Rightarrow> (u8 \<times> bytes) list" where
  "route_frames m =
     (let md = me_metadata m; ct = mm_contract md in
      [(5, ascii_bytes (mm_domain md)), (6, ascii_bytes (mm_route md)), (7, ascii_bytes (ci_id ct)),
       (8, be_bytes 4 (ci_version ct)), (9, ascii_bytes (ci_schema_digest ct))])"

definition canonical_frames :: "message_envelope \<Rightarrow> (u8 \<times> bytes) list" where
  "canonical_frames m =
     (let md = me_metadata m in
      head_frames m @ optional_frames 4 (map_option ascii_bytes (mm_correlation md)) @ route_frames m
      @ partition_frames (mm_partition md)
      @ optional_frames 14 (map_option ascii_bytes (mm_causation md))
      @ [(15, be_bytes_u64 (u64_of_len (length (mm_attributes md))))]
      @ attribute_frames (mm_attributes md) @ [(18, me_payload m)])"

lemma frames_optional [simp]: "frames (optional_frames t v) = frame_optional t v"
  by (simp add: optional_frames_def frame_optional_def split: option.split)

lemma frames_attributes [simp]:
  "frames (attribute_frames as)
     = concat (map (\<lambda>(k, v). frame 16 (ascii_bytes k) @ frame 17 (ascii_bytes v)) as)"
  by (induction as) (auto simp: attribute_frames_def)

lemma canonical_bytes_frames: "canonical_bytes m = frames (canonical_frames m)"
  by (simp add: canonical_bytes_def canonical_frames_def head_frames_def route_frames_def
      partition_frames_def Let_def split: option.split)

text \<open>Lists of frames that share no tags split uniquely.\<close>

lemma optional_frames_inject:
  "optional_frames t v @ r = optional_frames t v' @ r' \<Longrightarrow> v = v' \<and> r = r'"
  by (auto simp: optional_frames_def split: option.splits)

lemma attribute_frames_inject:
  "attribute_frames as @ [(18, p)] = attribute_frames bs @ [(18, q)] \<Longrightarrow> as = bs \<and> p = q"
proof (induction as arbitrary: bs)
  case Nil
  then show ?case by (cases bs) (auto simp: attribute_frames_def split_def)
next
  case (Cons a as)
  then obtain b bs' where "bs = b # bs'" by (cases bs) (auto simp: attribute_frames_def split_def)
  with Cons show ?case
    by (cases a; cases b) (auto simp: attribute_frames_def)
qed

lemma octets_inject [simp]: "octets s = octets t \<longleftrightarrow> s = t"
proof
  have "(256 :: nat) ^ 16 = 2 ^ 128" using power_mult [of "2 :: nat" 8 16] by simp
  then have "unat s < 256 ^ 16" "unat t < 256 ^ 16"
    using unsigned_less [of s] unsigned_less [of t] by simp_all
  moreover assume "octets s = octets t"
  ultimately have "unat s = unat t" by (auto simp: octets_def intro: be_bytes_inject)
  then show "s = t" by (rule unsigned_word_eqI)
qed simp

lemma be_bytes_i64_inject:
  assumes "be_bytes_i64 m = be_bytes_i64 n" and "in_i64 m" and "in_i64 n"
  shows "m = n"
proof -
  have "nat (m mod 2 ^ 64) = nat (n mod 2 ^ 64)"
    using assms(1) unfolding be_bytes_i64_def
    by (rule be_bytes_inject) (simp_all add: u64_range nat_less_iff)
  then have "m mod 2 ^ 64 = n mod 2 ^ 64" by (simp add: nat_eq_iff)
  then have "(2 ^ 64) dvd (m - n)" by (simp add: mod_eq_dvd_iff)
  moreover have "\<bar>m - n\<bar> < 2 ^ 64" using assms(2,3) by (auto simp: i64_defs)
  ultimately show ?thesis using dvd_imp_le_int [of "m - n" "2 ^ 64"] by fastforce
qed

lemma partition_frames_inject:
  "partition_frames p @ r = partition_frames q @ r' \<Longrightarrow> p = q \<and> r = r'"
  by (auto simp: partition_frames_def split: option.splits)

text \<open>
  The ranges of the Rust types: lengths are \<open>usize\<close>, the time is an \<open>i64\<close>, the major version
  a \<open>u32\<close>.
\<close>

definition envelope_ranges :: "message_envelope \<Rightarrow> bool" where
  "envelope_ranges m \<longleftrightarrow>
     in_i64 (mm_occurred_at (me_metadata m)) \<and> ci_version (mm_contract (me_metadata m)) < 2 ^ 32 \<and>
     length (mm_attributes (me_metadata m)) < 2 ^ 64 \<and> short_frames (canonical_frames m)"

lemma head_frames_inject:
  assumes "head_frames m @ r = head_frames m' @ r'" and "envelope_ranges m" and "envelope_ranges m'"
  shows "me_id m = me_id m'" and "mm_tenant (me_metadata m) = mm_tenant (me_metadata m')"
    and "mm_occurred_at (me_metadata m) = mm_occurred_at (me_metadata m')" and "r = r'"
  using assms be_bytes_i64_inject
  by (auto simp: head_frames_def Let_def envelope_ranges_def)

lemma route_frames_inject:
  assumes "route_frames m @ r = route_frames m' @ r'" and "envelope_ranges m" and "envelope_ranges m'"
  shows "mm_domain (me_metadata m) = mm_domain (me_metadata m')"
    and "mm_route (me_metadata m) = mm_route (me_metadata m')"
    and "mm_contract (me_metadata m) = mm_contract (me_metadata m')" and "r = r'"
  using assms be_bytes_inject [of 4 "ci_version (mm_contract (me_metadata m))"
      "ci_version (mm_contract (me_metadata m'))"]
  by (auto simp: route_frames_def Let_def envelope_ranges_def intro!: contract_identity.equality)

lemma canonical_frames_inject:
  assumes "canonical_frames m = canonical_frames m'" and "envelope_ranges m" and "envelope_ranges m'"
  shows "me_id m = me_id m' \<and> me_metadata m = me_metadata m' \<and> me_payload m = me_payload m'"
proof -
  note eq = assms(1) [unfolded canonical_frames_def Let_def]
  note h = head_frames_inject [OF eq assms(2,3)]
  note c = optional_frames_inject [OF h(4)]
  note r = route_frames_inject [OF conjunct2 [OF c] assms(2,3)]
  note p = partition_frames_inject [OF r(4)]
  note u = optional_frames_inject [OF conjunct2 [OF p]]
  have "attribute_frames (mm_attributes (me_metadata m)) @ [(18, me_payload m)]
      = attribute_frames (mm_attributes (me_metadata m')) @ [(18, me_payload m')]"
    using u by simp
  note a = attribute_frames_inject [OF this]
  have inj: "inj (map_option ascii_bytes)"
    by (rule option.inj_map) (auto intro: injI)
  have "mm_correlation (me_metadata m) = mm_correlation (me_metadata m')"
    "mm_causation (me_metadata m) = mm_causation (me_metadata m')"
    using c u by (auto dest: injD [OF inj])
  with h r p a show ?thesis
    by (auto intro!: message_metadata.equality)
qed

lemma canonical_bytes_transport [simp]: "canonical_bytes (with_transport_context t m) = canonical_bytes m"
  by (simp add: canonical_bytes_def with_transport_context_def Let_def)

text \<open>
  C40. Two messages have the same canonical bytes, and so the same fingerprint input, exactly when
  all their authored facts agree: they may differ in the transport context only.
\<close>

theorem canonical_bytes_iff:
  assumes "envelope_ranges m" and "envelope_ranges m'"
  shows "canonical_bytes m = canonical_bytes m' \<longleftrightarrow>
    (\<exists>t. m' = with_transport_context t m)"
proof
  assume "canonical_bytes m = canonical_bytes m'"
  then have "canonical_frames m = canonical_frames m'"
    using assms by (auto simp: canonical_bytes_frames envelope_ranges_def intro: frames_inject)
  then have "m' = with_transport_context (me_transport m') m"
    using canonical_frames_inject [OF _ assms]
    by (intro message_envelope.equality) (simp_all add: with_transport_context_def)
  then show "\<exists>t. m' = with_transport_context t m" ..
qed auto

definition demo_metadata :: message_metadata where
  "demo_metadata = message_metadata_new
     \<lparr>am_tenant = 7, am_occurred_at = 100, am_domain = ''orders'', am_route = ''paid'',
      am_contract = \<lparr>ci_id = ''a.b'', ci_version = 1, ci_schema_digest = ''d''\<rparr>\<rparr>
     \<lparr>mx_correlation = None, mx_partition_key = Some ''k'', mx_causation = None,
      mx_attributes = [(''a'', ''b'')]\<rparr>"

definition demo_envelope :: message_envelope where
  "demo_envelope = envelope_new ''m1'' demo_metadata [1, 2, 3]"

lemma demo_envelope_ranges: "envelope_ranges demo_envelope"
  by (simp add: envelope_ranges_def demo_envelope_def demo_metadata_def envelope_new_def
      message_metadata_new_def canonical_frames_def head_frames_def route_frames_def
      optional_frames_def partition_frames_def attribute_frames_def octets_def be_bytes_i64_def
      fingerprint_domain_def i64_defs)

theorem canonical_bytes_iff_witness:
  "canonical_bytes demo_envelope = canonical_bytes demo_envelope \<longleftrightarrow>
    (\<exists>t. demo_envelope = with_transport_context t demo_envelope)"
  by (rule canonical_bytes_iff [OF demo_envelope_ranges demo_envelope_ranges])

subsection \<open>Execution binding\<close>

text \<open>In a list sorted by an injective key, equal tenants are neighbours.\<close>

lemma adjacent_sorted_distinct:
  assumes "inj show_tenant" and "sorted (map (\<lambda>p. show_tenant (fst p)) ps)"
  shows "adjacent_same_tenant ps \<longleftrightarrow> \<not> distinct (map fst ps)"
  using assms(2)
proof (induction ps rule: adjacent_same_tenant.induct)
  case (1 a b xs)
  have "fst a \<noteq> fst b \<Longrightarrow> fst a \<notin> fst ` set xs"
  proof
    assume "fst a \<noteq> fst b" and "fst a \<in> fst ` set xs"
    then have "show_tenant (fst b) \<le> show_tenant (fst a)" using 1(2) by auto
    moreover have "show_tenant (fst a) \<le> show_tenant (fst b)" using 1(2) by simp
    ultimately show False using \<open>fst a \<noteq> fst b\<close> assms(1) by (metis antisym injD)
  qed
  with 1 show ?case by auto
qed auto

text \<open>
  When the text form of tenants is injective, a binding is accepted exactly when the tenant
  list is not empty and names no tenant twice; every tenant then has exactly the epoch it was
  given with, and no other tenant has one.
\<close>

theorem execution_binding_exact:
  assumes "inj show_tenant"
  shows "(case execution_binding_new show_tenant storage tenants of
      Inl e \<Rightarrow> tenants = [] \<or> \<not> distinct (map fst tenants)
    | Inr b \<Rightarrow> tenants \<noteq> [] \<and> distinct (map fst tenants) \<and> eb_storage b = storage \<and>
        (\<forall>t. binding_epoch b t = map_of tenants t))"
proof -
  let ?k = "\<lambda>p. show_tenant (fst p)"
  have adj: "adjacent_same_tenant (sort_key ?k tenants) \<longleftrightarrow> \<not> distinct (map fst tenants)"
  proof -
    have "mset (map fst (sort_key ?k tenants)) = mset (map fst tenants)" by simp
    then have "distinct (map fst (sort_key ?k tenants)) \<longleftrightarrow> distinct (map fst tenants)"
      by (rule mset_eq_imp_distinct_iff)
    then show ?thesis using adjacent_sorted_distinct [OF assms sorted_sort_key] by simp
  qed
  have look: "binding_epoch \<lparr>eb_storage = storage, eb_tenants = ps\<rparr> t = map_of ps t" for ps t
    by (induction ps) (auto simp: binding_epoch_def)
  have same: "map_of (sort_key ?k tenants) = map_of tenants" if "distinct (map fst tenants)"
  proof -
    have "mset (map fst (sort_key ?k tenants)) = mset (map fst tenants)" by simp
    from mset_eq_imp_distinct_iff [OF this] that show ?thesis
      by (subst map_of_inject_set) simp_all
  qed
  show ?thesis
    using adj by (auto simp: execution_binding_new_def Let_def look same)
qed

definition demo_show_tenant :: "tenant_id \<Rightarrow> string" where
  "demo_show_tenant t = show_nat (unat t)"

definition demo_storage :: storage_identity where
  "demo_storage = \<lparr>si_target = replicate 16 1, si_lineage = replicate 16 2\<rparr>"

lemma demo_show_tenant_inj: "inj demo_show_tenant"
proof (rule injI)
  fix s t assume "demo_show_tenant s = demo_show_tenant t"
  then have "unat s = unat t" by (metis demo_show_tenant_def show_nat_value)
  then show "s = t" by (rule unsigned_word_eqI)
qed

theorem execution_binding_exact_witness:
  "inj demo_show_tenant \<and>
   (case execution_binding_new demo_show_tenant demo_storage [(2, 5), (1, 3)] of
      Inl e \<Rightarrow> [(2, 5), (1, 3)] = ([] :: (tenant_id \<times> int) list)
        \<or> \<not> distinct (map fst [(2 :: tenant_id, 5 :: int), (1, 3)])
    | Inr b \<Rightarrow> [(2, 5), (1, 3)] \<noteq> ([] :: (tenant_id \<times> int) list)
        \<and> distinct (map fst [(2 :: tenant_id, 5 :: int), (1, 3)]) \<and> eb_storage b = demo_storage \<and>
        (\<forall>t. binding_epoch b t = map_of [(2, 5), (1, 3)] t))"
  using demo_show_tenant_inj execution_binding_exact [OF demo_show_tenant_inj] by blast

end
