(* ===== verification/Messaging_Policy.thy ===== *)
theory Messaging_Policy
  imports Contract_Values
begin

section \<open>Deadlines and delivery policies\<close>

text \<open>
  Models the deadline values of \<^verbatim>\<open>crates/request-context/src/lib.rs\<close>, the budgets of
  \<^verbatim>\<open>crates/transactional-messaging/src/policy.rs\<close>, the error kinds of \<^verbatim>\<open>error.rs\<close> and the
  subscription backoff of \<^verbatim>\<open>crates/transactional-messaging-runtime/src/consumer.rs\<close>.
  A \<open>Duration\<close> is its number of nanoseconds, at most \<open>duration_max\<close>; an \<open>Instant\<close> is the
  nanoseconds of the monotonic clock, at most \<open>instant_max\<close> (a signed 64-bit second count).
  Attempt numbers are \<open>NonZeroU32\<close>, here positive \<open>nat\<close> up to \<open>u32_max\<close>.
\<close>

subsection \<open>Time\<close>

type_synonym instant = nat
type_synonym deadline = instant

abbreviation nanos_per_sec :: nat where
  "nanos_per_sec \<equiv> 1000000000"

definition from_secs :: "nat \<Rightarrow> duration" where
  "from_secs s = s * nanos_per_sec"

definition from_millis :: "nat \<Rightarrow> duration" where
  "from_millis n = n * 1000000"

definition duration_max :: duration where
  "duration_max = (2 ^ 64 - 1) * nanos_per_sec + 999999999"

definition instant_max :: instant where
  "instant_max = (2 ^ 63 - 1) * nanos_per_sec + 999999999"

definition duration_checked_add :: "duration \<Rightarrow> duration \<Rightarrow> duration option" where
  "duration_checked_add a b = (if a + b \<le> duration_max then Some (a + b) else None)"

definition duration_saturating_add :: "duration \<Rightarrow> duration \<Rightarrow> duration" where
  "duration_saturating_add a b = min (a + b) duration_max"

definition duration_saturating_mul :: "duration \<Rightarrow> nat \<Rightarrow> duration" where
  "duration_saturating_mul a n = min (a * n) duration_max"

definition instant_checked_add :: "instant \<Rightarrow> duration \<Rightarrow> instant option" where
  "instant_checked_add t d = (if t + d \<le> instant_max then Some (t + d) else None)"

datatype deadline_overflow = DeadlineOverflow

text \<open>A clock observation is passed as the instant it returned.\<close>

definition from_timeout :: "instant \<Rightarrow> duration \<Rightarrow> deadline_overflow + deadline" where
  "from_timeout now timeout = ok_or (instant_checked_add now timeout) DeadlineOverflow"

definition shortened_to :: "deadline \<Rightarrow> instant \<Rightarrow> deadline" where
  "shortened_to self earlier = min self earlier"

definition capped :: "deadline \<Rightarrow> instant \<Rightarrow> duration \<Rightarrow> deadline" where
  "capped self now cap =
     (case instant_checked_add now cap of None \<Rightarrow> self | Some i \<Rightarrow> shortened_to self i)"

definition is_expired :: "deadline \<Rightarrow> instant \<Rightarrow> bool" where
  "is_expired self now \<longleftrightarrow> now \<ge> self"

definition deadline_remaining :: "deadline \<Rightarrow> instant \<Rightarrow> duration option" where
  "deadline_remaining self now = (if now \<le> self then Some (self - now) else None)"

text \<open>\<open>remaining(now).unwrap_or_default()\<close>.\<close>

definition remaining_or_zero :: "deadline \<Rightarrow> instant \<Rightarrow> duration" where
  "remaining_or_zero self now = (case deadline_remaining self now of Some d \<Rightarrow> d | None \<Rightarrow> 0)"

definition from_cutoff :: "deadline \<Rightarrow> instant \<Rightarrow> duration" where
  "from_cutoff dl now = remaining_or_zero dl now"

subsection \<open>Errors\<close>

datatype messaging_error_kind =
  MTransient | MPermanent | MConflict | MOwnershipLost | MInvariant | MDeadlineElapsed

text \<open>A \<open>MessagingError\<close> is observed through its kind only; the source is redacted.\<close>

type_synonym messaging_error = messaging_error_kind

definition is_recoverable :: "messaging_error_kind \<Rightarrow> bool" where
  "is_recoverable k \<longleftrightarrow> k = MTransient \<or> k = MDeadlineElapsed"

definition deadline_elapsed :: messaging_error where
  "deadline_elapsed = MDeadlineElapsed"

subsection \<open>Retry policy\<close>

datatype retry_policy_error = AttemptsExceeded nat | ZeroBackoff | BaseExceedsCap

definition retry_attempts_max :: nat where
  "retry_attempts_max = 128"

record retry_policy =
  rp_max_attempts :: nat
  rp_base :: duration
  rp_cap :: duration

definition retry_standard :: retry_policy where
  "retry_standard = \<lparr>rp_max_attempts = 3, rp_base = from_secs 1, rp_cap = from_secs 60\<rparr>"

definition retry_policy_new ::
  "nat \<Rightarrow> duration \<Rightarrow> duration \<Rightarrow> retry_policy_error + retry_policy" where
  "retry_policy_new max_attempts base cap =
     (if max_attempts > retry_attempts_max then Err (AttemptsExceeded retry_attempts_max)
      else if base = 0 then Err ZeroBackoff
      else if base > cap then Err BaseExceedsCap
      else Ok \<lparr>rp_max_attempts = max_attempts, rp_base = base, rp_cap = cap\<rparr>)"

definition allows_attempt :: "retry_policy \<Rightarrow> nat \<Rightarrow> bool" where
  "allows_attempt p attempt \<longleftrightarrow> attempt \<le> rp_max_attempts p"

text \<open>The doubling loop with its early exit; the counter is the loop's range.\<close>

fun delay_loop :: "nat \<Rightarrow> duration \<Rightarrow> duration \<Rightarrow> duration" where
  "delay_loop 0 cap delay = delay"
| "delay_loop (Suc n) cap delay =
     (let delay' = min (duration_saturating_mul delay 2) cap in
      if delay' = cap then delay' else delay_loop n cap delay')"

definition delay_after :: "retry_policy \<Rightarrow> nat \<Rightarrow> duration" where
  "delay_after p failed_attempt =
     delay_loop (min (failed_attempt - 1) 128) (rp_cap p) (min (rp_base p) (rp_cap p))"

subsection \<open>Delivery, shutdown and execution budgets\<close>

datatype delivery_budget_error =
  DbZero | NonIntegralMilliseconds | DbOperationalRangeExceeded | RequiredBudgetOverflow
  | RequiredBudgetNotBelowLease

definition delivery_budget_max :: duration where
  "delivery_budget_max = from_secs (24 * 60 * 60)"

record delivery_budget =
  db_lease_ttl :: duration
  db_publish_timeout :: duration
  db_settle_timeout :: duration
  db_safety_margin :: duration

definition subsec_nanos :: "duration \<Rightarrow> nat" where
  "subsec_nanos d = d mod nanos_per_sec"

fun check_components :: "duration list \<Rightarrow> delivery_budget_error + unit" where
  "check_components [] = Ok ()"
| "check_components (d # ds) =
     (if d = 0 then Err DbZero
      else if subsec_nanos d mod 1000000 \<noteq> 0 then Err NonIntegralMilliseconds
      else if d > delivery_budget_max then Err DbOperationalRangeExceeded
      else check_components ds)"

definition delivery_budget_new ::
  "duration \<Rightarrow> duration \<Rightarrow> duration \<Rightarrow> duration \<Rightarrow> delivery_budget_error + delivery_budget" where
  "delivery_budget_new lease publish settle margin =
     and_then (check_components [lease, publish, settle, margin]) (\<lambda>_.
       case Option.bind (duration_checked_add publish settle) (\<lambda>v. duration_checked_add v margin) of
         None \<Rightarrow> Err RequiredBudgetOverflow
       | Some required \<Rightarrow>
           if required \<ge> lease then Err RequiredBudgetNotBelowLease
           else Ok \<lparr>db_lease_ttl = lease, db_publish_timeout = publish,
                    db_settle_timeout = settle, db_safety_margin = margin\<rparr>)"

definition required_budget :: "delivery_budget \<Rightarrow> duration" where
  "required_budget b =
     duration_saturating_add (duration_saturating_add (db_publish_timeout b) (db_settle_timeout b))
       (db_safety_margin b)"

definition can_start_attempt :: "delivery_budget \<Rightarrow> duration \<Rightarrow> bool" where
  "can_start_attempt b remaining \<longleftrightarrow> remaining > required_budget b"

datatype shutdown_budget_error = SbZero | SbOperationalRangeExceeded

definition shutdown_budget_max :: duration where
  "shutdown_budget_max = from_secs (24 * 60 * 60)"

definition shutdown_standard :: duration where
  "shutdown_standard = from_secs 45"

definition shutdown_budget_new :: "duration \<Rightarrow> shutdown_budget_error + duration" where
  "shutdown_budget_new timeout =
     (if timeout = 0 then Err SbZero
      else if timeout > shutdown_budget_max then Err SbOperationalRangeExceeded
      else Ok timeout)"

datatype execution_budget_error = ZeroTotal | InvalidSettlementReserve | EbDeadlineOverflow

record execution_budget =
  xb_total :: duration
  xb_settlement_reserve :: duration

definition execution_standard :: execution_budget where
  "execution_standard = \<lparr>xb_total = from_secs 10, xb_settlement_reserve = from_secs 2\<rparr>"

definition execution_budget_new :: "duration \<Rightarrow> duration \<Rightarrow> execution_budget_error + execution_budget" where
  "execution_budget_new whole reserve =
     (if whole = 0 then Err ZeroTotal
      else if reserve = 0 \<or> reserve \<ge> whole then Err InvalidSettlementReserve
      else Ok \<lparr>xb_total = whole, xb_settlement_reserve = reserve\<rparr>)"

record execution_deadlines =
  ed_operation :: deadline
  ed_settlement :: deadline

definition from_budget :: "instant \<Rightarrow> execution_budget \<Rightarrow> execution_budget_error + execution_deadlines" where
  "from_budget now b =
     and_then (ok_or (instant_checked_add now (xb_total b - xb_settlement_reserve b)) EbDeadlineOverflow)
       (\<lambda>operation.
         and_then (ok_or (instant_checked_add now (xb_total b)) EbDeadlineOverflow)
           (\<lambda>settlement. Ok \<lparr>ed_operation = operation, ed_settlement = settlement\<rparr>))"

subsection \<open>Lease renewal\<close>

datatype lease_renewal_policy_error = ZeroTtl | TtlTooShort

definition lease_renewal_interval_min :: duration where
  "lease_renewal_interval_min = from_millis 1"

record lease_renewal_policy =
  lr_ttl :: duration
  lr_interval :: duration

definition from_ttl :: "duration \<Rightarrow> lease_renewal_policy_error + lease_renewal_policy" where
  "from_ttl ttl =
     (if ttl = 0 then Err ZeroTtl
      else if ttl \<le> lease_renewal_interval_min then Err TtlTooShort
      else Ok \<lparr>lr_ttl = ttl, lr_interval = max (ttl div 3) lease_renewal_interval_min\<rparr>)"

definition renewal_fits :: "lease_renewal_policy \<Rightarrow> duration \<Rightarrow> bool" where
  "renewal_fits p remaining \<longleftrightarrow> lr_interval p < remaining"

record consumer_execution_policy =
  cp_retry :: retry_policy
  cp_budget :: execution_budget

subsection \<open>Subscription backoff\<close>

datatype subscription_backoff_error = SubZeroBase | SubBaseExceedsCap

record subscription_backoff_policy =
  sb_base :: duration
  sb_cap :: duration

definition backoff_standard :: subscription_backoff_policy where
  "backoff_standard = \<lparr>sb_base = from_secs 1, sb_cap = from_secs 60\<rparr>"

definition subscription_backoff_new ::
  "duration \<Rightarrow> duration \<Rightarrow> subscription_backoff_error + subscription_backoff_policy" where
  "subscription_backoff_new base cap =
     (if base = 0 then Err SubZeroBase
      else if base > cap then Err SubBaseExceedsCap
      else Ok \<lparr>sb_base = base, sb_cap = cap\<rparr>)"

definition subscription_delay_after :: "subscription_backoff_policy \<Rightarrow> nat \<Rightarrow> duration" where
  "subscription_delay_after p failed_attempt =
     delay_loop (min (failed_attempt - 1) 128) (sb_cap p) (sb_base p)"

section \<open>Theorems\<close>

lemma remaining_or_zero_eq: "remaining_or_zero dl now = dl - now"
  by (simp add: remaining_or_zero_def deadline_remaining_def)

lemma capped_le: "capped d now c \<le> d"
  by (simp add: capped_def shortened_to_def split: option.split)

lemma capped_le_now:
  assumes "now + c \<le> instant_max \<or> d \<le> now + c" shows "capped d now c \<le> now + c"
  using assms by (auto simp: capped_def shortened_to_def instant_checked_add_def split: option.split)

subsection \<open>Backoff\<close>

lemma doubling_min:
  assumes "d \<le> cap" and "cap \<le> duration_max"
  shows "min (duration_saturating_mul d 2) cap = min (d * 2) cap"
  using assms by (auto simp: duration_saturating_mul_def)

lemma delay_loop_closed:
  assumes "d \<le> cap" and "cap \<le> duration_max" and "0 < d"
  shows "delay_loop n cap d = min cap (d * 2 ^ n)"
  using assms
proof (induction n arbitrary: d)
  case (Suc n)
  have m: "min (duration_saturating_mul d 2) cap = min (d * 2) cap"
    using Suc.prems(1,2) by (rule doubling_min)
  show ?case
  proof (cases "cap \<le> d * 2")
    case True
    then have "cap \<le> d * (2 * 2 ^ n)"
      using Suc.prems by (metis le_trans mult.assoc mult_le_mono2 mult.right_neutral one_le_power one_le_numeral)
    with True m show ?thesis by (simp add: min_def)
  next
    case False
    then have "delay_loop n cap (d * 2) = min cap (d * 2 * 2 ^ n)"
      using Suc.prems by (intro Suc.IH) auto
    with False m show ?thesis by (simp add: min_def mult.assoc)
  qed
qed simp

text \<open>Every representable cap is reached within the loop's 128 rounds.\<close>

lemma duration_max_less: "duration_max < 2 ^ 128"
proof -
  have "duration_max < 2 ^ 64 * 2 ^ 30" by (simp add: duration_max_def)
  also have "\<dots> \<le> (2 :: nat) ^ 128" by (simp flip: power_add)
  finally show ?thesis .
qed

lemma capped_power:
  assumes "0 < d" and "cap \<le> duration_max"
  shows "min cap (d * 2 ^ min n 128) = min cap (d * 2 ^ n)"
proof (cases "n \<le> 128")
  case False
  have "cap \<le> 2 ^ 128" using assms(2) duration_max_less by simp
  also have "\<dots> \<le> d * 2 ^ 128" using assms(1) by simp
  finally have a: "cap \<le> d * 2 ^ 128" .
  also have "\<dots> \<le> d * 2 ^ n" using False by (intro mult_le_mono2 power_increasing) auto
  finally show ?thesis using a False by (simp add: min_def)
qed (simp add: min_def)

text \<open>
  The backoff after the n-th failure of an accepted retry policy is exactly the base doubled
  n - 1 times, cut at the cap: bounding the loop, its early exit and the saturating product
  change nothing.
\<close>

theorem delay_after_closed:
  assumes "retry_policy_new m base cap = Inr p" and "cap \<le> duration_max"
  shows "delay_after p n = min cap (base * 2 ^ (n - 1))"
proof -
  have p: "rp_base p = base" "rp_cap p = cap" "0 < base" "base \<le> cap"
    using assms(1) by (auto simp: retry_policy_new_def split: if_splits)
  then show ?thesis
    using assms(2) capped_power [OF p(3) assms(2)]
    by (simp add: delay_after_def delay_loop_closed min_absorb1)
qed

theorem delay_after_closed_witness:
  "delay_after \<lparr>rp_max_attempts = 3, rp_base = 1000000000, rp_cap = 60000000000\<rparr> 5
     = min 60000000000 (1000000000 * 2 ^ (5 - 1))"
proof (rule delay_after_closed)
  show "retry_policy_new 3 1000000000 60000000000
    = Inr \<lparr>rp_max_attempts = 3, rp_base = 1000000000, rp_cap = 60000000000\<rparr>"
    by (simp add: retry_policy_new_def retry_attempts_max_def)
  show "60000000000 \<le> duration_max" by (simp add: duration_max_def)
qed

lemma subscription_delay_closed:
  assumes "subscription_backoff_new base cap = Inr p" and "cap \<le> duration_max"
  shows "subscription_delay_after p n = min cap (base * 2 ^ (n - 1))"
proof -
  have p: "sb_base p = base" "sb_cap p = cap" "0 < base" "base \<le> cap"
    using assms(1) by (auto simp: subscription_backoff_new_def split: if_splits)
  then show ?thesis
    using assms(2) capped_power [OF p(3) assms(2)]
    by (simp add: subscription_delay_after_def delay_loop_closed)
qed

subsection \<open>Budgets\<close>

lemma check_components_iff:
  "check_components ds = Inr () \<longleftrightarrow>
     list_all (\<lambda>d. 0 < d \<and> d mod 1000000 = 0 \<and> d \<le> delivery_budget_max) ds"
proof (induction ds)
  case (Cons d ds)
  have "d mod nanos_per_sec mod 1000000 = d mod 1000000"
    by (intro mod_mod_cancel) simp
  with Cons show ?case by (auto simp: subsec_nanos_def)
qed simp

lemma delivery_budget_new_iff:
  "delivery_budget_new l p s g = Inr b \<longleftrightarrow>
     list_all (\<lambda>d. 0 < d \<and> d mod 1000000 = 0 \<and> d \<le> delivery_budget_max) [l, p, s, g] \<and>
     p + s + g < l \<and>
     b = \<lparr>db_lease_ttl = l, db_publish_timeout = p, db_settle_timeout = s, db_safety_margin = g\<rparr>"
  (is "?L \<longleftrightarrow> ?R")
proof (cases "check_components [l, p, s, g]")
  case (Inl e)
  then show ?thesis using check_components_iff [of "[l, p, s, g]"]
    by (auto simp: delivery_budget_new_def)
next
  case (Inr u)
  then have c: "list_all (\<lambda>d. 0 < d \<and> d mod 1000000 = 0 \<and> d \<le> delivery_budget_max) [l, p, s, g]"
    using check_components_iff [of "[l, p, s, g]"] by simp
  moreover have "3 * delivery_budget_max \<le> duration_max"
    by (simp add: delivery_budget_max_def duration_max_def from_secs_def)
  ultimately have "p + s \<le> duration_max" "p + s + g \<le> duration_max" by auto
  then have "delivery_budget_new l p s g =
      (if p + s + g \<ge> l then Err RequiredBudgetNotBelowLease
       else Ok \<lparr>db_lease_ttl = l, db_publish_timeout = p, db_settle_timeout = s, db_safety_margin = g\<rparr>)"
    using Inr by (simp add: delivery_budget_new_def duration_checked_add_def)
  with c show ?thesis by auto
qed

lemma required_budget_exact:
  assumes "delivery_budget_new l p s g = Inr b"
  shows "required_budget b = p + s + g" and "required_budget b < l"
proof -
  have "delivery_budget_max \<le> duration_max"
    by (simp add: delivery_budget_max_def duration_max_def from_secs_def)
  with assms show "required_budget b = p + s + g" "required_budget b < l"
    by (auto simp: delivery_budget_new_iff required_budget_def duration_saturating_add_def)
qed

text \<open>Both cutoffs come from one clock read and keep the settlement reserve between them.\<close>

lemma from_budget_reserve:
  assumes "execution_budget_new whole reserve = Inr b" and "from_budget now b = Inr d"
  shows "ed_operation d + reserve = ed_settlement d" and "now < ed_operation d"
    and "ed_settlement d = now + whole"
  using assms
  by (auto simp: execution_budget_new_def from_budget_def instant_checked_add_def result_iffs
      split: if_splits)

lemma from_ttl_interval:
  assumes "from_ttl ttl = Inr p"
  shows "0 < lr_interval p" and "lr_interval p < ttl" and "lr_ttl p = ttl" and "renewal_fits p ttl"
  using assms
  by (auto simp: from_ttl_def renewal_fits_def lease_renewal_interval_min_def from_millis_def
      split: if_splits)

end
