(* ===== verification/Messaging_Ports.thy ===== *)
theory Messaging_Ports
  imports Messaging_Message Messaging_Policy
begin

section \<open>Values exchanged with the messaging ports\<close>

text \<open>
  Models the values and pure operations of \<^verbatim>\<open>crates/transactional-messaging/src\<close>: outbox
  settlement and the partition head (\<^verbatim>\<open>outbox.rs\<close>), publication evidence (\<^verbatim>\<open>transport.rs\<close>), the
  consumer identity and lease evidence (\<^verbatim>\<open>inbox.rs\<close>), transaction outcomes, ingress
  verification and settlement authority (\<^verbatim>\<open>transaction.rs\<close>), and the observations
  (\<^verbatim>\<open>observability.rs\<close>). The asynchronous ports themselves are modelled with their callers.
\<close>

subsection \<open>Outbox\<close>

datatype append_outcome = Inserted | AlreadyPresent

datatype outbox_disposition = OdPublished | OdRetry | OdDeadLetter

datatype outbox_lease_status = OutboxHeld duration "duration option" | OutboxLost

datatype 'r outbox_settlement = SetPublished 'r | SetRetry | SetDeadLetter

fun disposition :: "'r outbox_settlement \<Rightarrow> outbox_disposition" where
  "disposition (SetPublished r) = OdPublished"
| "disposition SetRetry = OdRetry"
| "disposition SetDeadLetter = OdDeadLetter"

datatype partition_head_state = HeadAvailable | HeadInFlight | HeadDeadLettered | HeadResolved

datatype partition_transition_error = NotClaimable | NotInFlight | NotDeadLettered

record partition_head =
  ph_identity :: partition_identity
  ph_message_id :: string
  ph_state :: partition_head_state

definition partition_head_new :: "partition_identity \<Rightarrow> string \<Rightarrow> partition_head" where
  "partition_head_new i m = \<lparr>ph_identity = i, ph_message_id = m, ph_state = HeadAvailable\<rparr>"

definition allows_successor :: "partition_head \<Rightarrow> bool" where
  "allows_successor h \<longleftrightarrow> ph_state h = HeadResolved"

definition head_claim :: "partition_head \<Rightarrow> partition_transition_error + partition_head" where
  "head_claim h =
     (if ph_state h \<noteq> HeadAvailable then Err NotClaimable else Ok (h\<lparr>ph_state := HeadInFlight\<rparr>))"

definition head_settle ::
  "outbox_disposition \<Rightarrow> partition_head \<Rightarrow> partition_transition_error + partition_head" where
  "head_settle d h =
     (if ph_state h \<noteq> HeadInFlight then Err NotInFlight
      else Ok (h\<lparr>ph_state :=
        (case d of OdPublished \<Rightarrow> HeadResolved | OdRetry \<Rightarrow> HeadAvailable
         | OdDeadLetter \<Rightarrow> HeadDeadLettered)\<rparr>))"

definition resolve_dead_letter :: "partition_head \<Rightarrow> partition_transition_error + partition_head" where
  "resolve_dead_letter h =
     (if ph_state h \<noteq> HeadDeadLettered then Err NotDeadLettered
      else Ok (h\<lparr>ph_state := HeadResolved\<rparr>))"

record pending_message =
  pm_envelope :: message_envelope
  pm_fingerprint :: fingerprint

definition pending_message_new :: "(bytes \<Rightarrow> bytes) \<Rightarrow> message_envelope \<Rightarrow> pending_message" where
  "pending_message_new sha256 m = \<lparr>pm_envelope = m, pm_fingerprint = fingerprint_of sha256 m\<rparr>"

record claim_batch_error =
  cb_limit :: nat
  cb_actual :: nat

definition try_from_provider :: "'c list \<Rightarrow> nat \<Rightarrow> claim_batch_error + 'c list" where
  "try_from_provider claims limit =
     (if length claims > limit then Err \<lparr>cb_limit = limit, cb_actual = length claims\<rparr>
      else Ok claims)"

subsection \<open>Publication evidence\<close>

datatype publish_failure_kind = PfTransient | PfPermanent

datatype publish_failure_stage = StageEncode | StageAdmission | StageSend | StageConfirm

datatype publish_failure_reason =
  InvalidMessage | TransportUnavailable | PubDeadlineElapsed | ProviderRejected

record publish_failure =
  pf_kind :: publish_failure_kind
  pf_stage :: publish_failure_stage
  pf_reason :: publish_failure_reason

definition is_retryable :: "publish_failure_kind \<Rightarrow> bool" where
  "is_retryable k \<longleftrightarrow> k = PfTransient"

datatype 'r publish_outcome =
  Confirmed 'r | DefinitelyNotPublished publish_failure | Ambiguous publish_failure

fun outcome_failure :: "'r publish_outcome \<Rightarrow> publish_failure option" where
  "outcome_failure (Confirmed r) = None"
| "outcome_failure (DefinitelyNotPublished f) = Some f"
| "outcome_failure (Ambiguous f) = Some f"

fun is_ambiguous :: "'r publish_outcome \<Rightarrow> bool" where
  "is_ambiguous (Ambiguous f) = True"
| "is_ambiguous _ = False"

fun into_settlement :: "'r publish_outcome \<Rightarrow> 'r outbox_settlement" where
  "into_settlement (Confirmed r) = SetPublished r"
| "into_settlement (DefinitelyNotPublished f) =
     (if is_retryable (pf_kind f) then SetRetry else SetDeadLetter)"
| "into_settlement (Ambiguous f) = SetRetry"

subsection \<open>Inbox identity and lease evidence\<close>

datatype consumer_group_error = GroupEmpty | GroupTooLong | GroupInvalidChar

definition consumer_group_parse :: "string \<Rightarrow> consumer_group_error + string" where
  "consumer_group_parse raw =
     (if raw = [] then Err GroupEmpty
      else if length raw > 255 then Err GroupTooLong
      else if list_ex is_ascii_control raw then Err GroupInvalidChar
      else Ok raw)"

record consumer_identity =
  cn_tenant :: tenant_id
  cn_group :: string
  cn_message_id :: string
  cn_contract :: contract_identity

datatype lease_status = LeaseHeld duration | LeaseLost

subsection \<open>Transaction outcomes and settlement authority\<close>

datatype failure_class = FailTransient | FailPermanent | FailInfrastructure

datatype reject_kind = RejectPermanent | RejectInvariant

datatype terminal_disposition = Succeeded | RejectedAs reject_kind

record terminal_receipt =
  tr_consumer :: consumer_identity
  tr_fingerprint :: fingerprint
  tr_disposition :: terminal_disposition

definition receipt_matches :: "terminal_receipt \<Rightarrow> consumer_identity \<Rightarrow> fingerprint \<Rightarrow> bool" where
  "receipt_matches r c f \<longleftrightarrow> tr_consumer r = c \<and> tr_fingerprint r = f"

datatype 'c idempotency_disposition = Acquired 'c | InProgress | Terminal terminal_receipt

record receipt_intent =
  ri_consumer :: consumer_identity
  ri_fingerprint :: fingerprint

text \<open>A \<open>TerminalSettlement\<close> and a \<open>CommittedTransaction\<close> are the receipt they carry.\<close>

datatype 'p transaction_outcome =
  TxCommitted 'p terminal_receipt | TxNotStarted failure_class | TxRolledBack failure_class
  | TxRollbackFailed | TxCommitUnknown | TxFenced

definition intent_committed ::
  "receipt_intent \<Rightarrow> 'p \<Rightarrow> terminal_disposition \<Rightarrow> 'p transaction_outcome" where
  "intent_committed i proof d =
     TxCommitted proof
       \<lparr>tr_consumer = ri_consumer i, tr_fingerprint = ri_fingerprint i, tr_disposition = d\<rparr>"

fun may_retry :: "'p transaction_outcome \<Rightarrow> bool" where
  "may_retry (TxNotStarted FailTransient) = True"
| "may_retry (TxRolledBack FailTransient) = True"
| "may_retry _ = False"

datatype transaction_status =
  StCommitted | StHandlerTransient | StInfrastructureTransient | StRejectedPermanent
  | StCommitUnknown | StRollbackFailed | StFenced

fun class_status :: "failure_class \<Rightarrow> transaction_status" where
  "class_status FailTransient = StHandlerTransient"
| "class_status FailPermanent = StRejectedPermanent"
| "class_status FailInfrastructure = StInfrastructureTransient"

fun outcome_status :: "'p transaction_outcome \<Rightarrow> transaction_status" where
  "outcome_status (TxCommitted p r) = StCommitted"
| "outcome_status (TxNotStarted c) = class_status c"
| "outcome_status (TxRolledBack c) = class_status c"
| "outcome_status TxRollbackFailed = StRollbackFailed"
| "outcome_status TxCommitUnknown = StCommitUnknown"
| "outcome_status TxFenced = StFenced"

datatype settlement_kind = Acknowledge | Requeue | Reject

text \<open>A \<open>SettlementDecision\<close> is its kind; these are its only constructors.\<close>

definition settlement_for_disposition :: "terminal_disposition \<Rightarrow> settlement_kind" where
  "settlement_for_disposition d = (case d of Succeeded \<Rightarrow> Acknowledge | RejectedAs _ \<Rightarrow> Reject)"

definition terminal_into_decision :: "terminal_receipt \<Rightarrow> settlement_kind" where
  "terminal_into_decision r = settlement_for_disposition (tr_disposition r)"

definition decision_requeue :: settlement_kind where
  "decision_requeue = Requeue"

datatype envelope_validation_failure =
  MalformedIdentity | MalformedMetadata | UnsupportedContract | FingerprintConflict

text \<open>An \<open>IngressRejection\<close> and a \<open>DecodeRejection\<close> are their reason; both decide Reject.\<close>

definition rejection_into_decision :: "envelope_validation_failure \<Rightarrow> settlement_kind" where
  "rejection_into_decision reason = Reject"

record verified_ingress =
  vi_subscription :: subscription_identity
  vi_tenant :: tenant_id
  vi_message_id :: string
  vi_contract :: contract_identity
  vi_fingerprint :: fingerprint

definition challenge_verified ::
  "(bytes \<Rightarrow> bytes) \<Rightarrow> subscription_identity \<Rightarrow> message_envelope \<Rightarrow> verified_ingress" where
  "challenge_verified sha256 s m =
     \<lparr>vi_subscription = s, vi_tenant = mm_tenant (me_metadata m), vi_message_id = me_id m,
      vi_contract = mm_contract (me_metadata m), vi_fingerprint = fingerprint_of sha256 m\<rparr>"

record consumer_binding =
  bn_identity :: consumer_identity
  bn_fingerprint :: fingerprint

type_synonym ingress_validator =
  "subscription_identity \<Rightarrow> message_envelope \<Rightarrow> envelope_validation_failure + verified_ingress"

definition verify_ingress ::
  "(bytes \<Rightarrow> bytes) \<Rightarrow> ingress_validator \<Rightarrow> string \<Rightarrow> subscription_identity \<Rightarrow> message_envelope
     \<Rightarrow> envelope_validation_failure + consumer_binding" where
  "verify_ingress sha256 validator grp s m =
     and_then (validator s m) (\<lambda>v.
       let f = fingerprint_of sha256 m in
       if vi_subscription v \<noteq> s \<or> vi_tenant v \<noteq> mm_tenant (me_metadata m) \<or> vi_message_id v \<noteq> me_id m
          \<or> vi_contract v \<noteq> mm_contract (me_metadata m) \<or> vi_fingerprint v \<noteq> f
       then Err FingerprintConflict
       else Ok \<lparr>bn_identity = \<lparr>cn_tenant = vi_tenant v, cn_group = grp,
                               cn_message_id = vi_message_id v, cn_contract = vi_contract v\<rparr>,
                bn_fingerprint = f\<rparr>)"

definition binding_receipt_intent :: "consumer_binding \<Rightarrow> receipt_intent" where
  "binding_receipt_intent b = \<lparr>ri_consumer = bn_identity b, ri_fingerprint = bn_fingerprint b\<rparr>"

definition validate_terminal ::
  "consumer_binding \<Rightarrow> terminal_receipt \<Rightarrow> envelope_validation_failure + terminal_receipt" where
  "validate_terminal b r =
     (if receipt_matches r (bn_identity b) (bn_fingerprint b) then Ok r else Err FingerprintConflict)"

subsection \<open>Observations\<close>

datatype obs_disposition = ObsAck | ObsRequeue | ObsReject

datatype relay_phase = PhaseClaim | PhasePublish

datatype io_outcome = IoOk | IoError

datatype runtime_phase =
  ConsumerDeadline | ConsumerSubscribe | ConsumerClaim | ConsumerLease | ConsumerTransaction
  | ConsumerAbandon | ConsumerRelease | ConsumerSettlement | RelayClaim | RelayLease
  | RelaySettlement | RelayDeadline

datatype subscribe_outcome = SubscribeError | StreamEnd | DeliveryError

datatype tm_observation =
  ObsRuntimeFailure runtime_phase messaging_error_kind
  | ObsOutboxPublish obs_disposition
  | ObsOutboxPublishFailure publish_failure_stage publish_failure_reason bool
  | ObsOutboxBacklog nat duration nat
  | ObsOutboxBacklogUnavailable
  | ObsRelayTick relay_phase duration
  | ObsInboxBacklog nat duration
  | ObsInboxBacklogUnavailable
  | ObsConsumerClaimInProgress
  | ObsConsumerIngressRejected envelope_validation_failure
  | ObsConsumerTransaction transaction_status
  | ObsConsumerSettlement obs_disposition io_outcome
  | ObsConsumerSubscribeRetry subscribe_outcome
  | ObsConsumerLeaseLost
  | ObsRelayLeaseLost
  | ObsConsumerReleaseFailed

subsection \<open>Answers of a port\<close>

text \<open>
  The answer to a call made under \<open>within\<close>: nothing when the deadline fired first. \<open>flatten\<close> is
  \<^verbatim>\<open>.and_then(std::convert::identity)\<close>.
\<close>

type_synonym 'a reply = "'a option"

definition flatten :: "messaging_error + (messaging_error + 'x) \<Rightarrow> messaging_error + 'x" where
  "flatten r = and_then r (\<lambda>x. x)"

section \<open>Theorems\<close>

lemma flatten_simps [simp]:
  "flatten (Inl e) = Inl e" "flatten (Inr x) = x"
  by (simp_all add: flatten_def)

lemma flatten_ok_or: "flatten (ok_or a e) = (case a of None \<Rightarrow> Inl e | Some x \<Rightarrow> x)"
  by (cases a) simp_all

subsection \<open>Partition heads\<close>

text \<open>The requests a host makes of a head, and the head after a sequence of them.\<close>

datatype head_request = ReqClaim | ReqSettle outbox_disposition | ReqResolve

fun head_step :: "partition_head \<Rightarrow> head_request \<Rightarrow> partition_transition_error + partition_head" where
  "head_step h ReqClaim = head_claim h"
| "head_step h (ReqSettle d) = head_settle d h"
| "head_step h ReqResolve = resolve_dead_letter h"

fun state_rank :: "partition_head_state \<Rightarrow> nat" where
  "state_rank HeadResolved = 1"
| "state_rank _ = 0"

lemma head_step_Inr:
  "head_step h q = Inr h' \<longleftrightarrow>
     (ph_state h = HeadAvailable \<and> q = ReqClaim \<and> h' = h\<lparr>ph_state := HeadInFlight\<rparr>) \<or>
     (ph_state h = HeadInFlight \<and> q = ReqSettle OdPublished \<and> h' = h\<lparr>ph_state := HeadResolved\<rparr>) \<or>
     (ph_state h = HeadInFlight \<and> q = ReqSettle OdRetry \<and> h' = h\<lparr>ph_state := HeadAvailable\<rparr>) \<or>
     (ph_state h = HeadInFlight \<and> q = ReqSettle OdDeadLetter \<and> h' = h\<lparr>ph_state := HeadDeadLettered\<rparr>) \<or>
     (ph_state h = HeadDeadLettered \<and> q = ReqResolve \<and> h' = h\<lparr>ph_state := HeadResolved\<rparr>)"
  by (cases q)
    (auto simp: head_claim_def head_settle_def resolve_dead_letter_def split: outbox_disposition.split)

interpretation head: reducer head_step "\<lambda>h. True" "\<lambda>h. state_rank (ph_state h)"
  by unfold_locales (auto simp: head_step_Inr)

text \<open>
  Accepted requests only: a resolved head accepts nothing, so \<open>accepted\<close> is the history of one
  head.
\<close>

fun accepted :: "partition_head \<Rightarrow> head_request list \<Rightarrow> head_request list" where
  "accepted h [] = []"
| "accepted h (q # qs) =
     (case head_step h q of Inl e \<Rightarrow> accepted h qs | Inr h' \<Rightarrow> q # accepted h' qs)"

lemma accepted_snoc:
  "accepted h (qs @ [q]) = accepted h qs @
     (case head_step (run_inputs head_step h qs) q of Inl e \<Rightarrow> [] | Inr h' \<Rightarrow> [q])"
  by (induction qs arbitrary: h) (auto split: sum.split)

definition ends_with :: "'a list \<Rightarrow> 'a list \<Rightarrow> bool" where
  "ends_with xs suffix \<longleftrightarrow> (\<exists>pre. xs = pre @ suffix)"

lemma ends_with_snoc [simp]:
  "ends_with (xs @ [x]) [y] \<longleftrightarrow> x = y"
  "ends_with (xs @ [x]) [z, y] \<longleftrightarrow> x = y \<and> ends_with xs [z]"
  "\<not> ends_with [] [y]" "\<not> ends_with [] [z, y]"
  by (auto simp: ends_with_def append_eq_append_conv2 Cons_eq_append_conv)

lemma head_history:
  assumes "ph_state h0 = HeadAvailable"
  defines "h \<equiv> run_inputs head_step h0"
  shows "(ph_state (h qs) = HeadResolved \<longleftrightarrow> ends_with (accepted h0 qs) [ReqSettle OdPublished] \<or>
       ends_with (accepted h0 qs) [ReqSettle OdDeadLetter, ReqResolve]) \<and>
     (ph_state (h qs) = HeadDeadLettered \<longleftrightarrow> ends_with (accepted h0 qs) [ReqSettle OdDeadLetter]) \<and>
     (ph_state (h qs) = HeadInFlight \<longleftrightarrow> ends_with (accepted h0 qs) [ReqClaim]) \<and>
     ph_identity (h qs) = ph_identity h0 \<and> ph_message_id (h qs) = ph_message_id h0"
proof (induction qs rule: rev_induct)
  case Nil
  then show ?case using assms by simp
next
  case (snoc q qs)
  show ?case
  proof (cases "head_step (h qs) q")
    case (Inl e)
    with snoc show ?thesis by (simp add: h_def accepted_snoc)
  next
    case (Inr h')
    then have "h (qs @ [q]) = h'" "accepted h0 (qs @ [q]) = accepted h0 qs @ [q]"
      by (simp_all add: h_def accepted_snoc)
    with Inr snoc show ?thesis by (auto simp: head_step_Inr)
  qed
qed

lemma state_rank_resolved: "1 \<le> state_rank s \<longleftrightarrow> s = HeadResolved"
  by (cases s) auto

text \<open>
  After any sequence of requests, accepted or refused, a partition head lets its successor
  through exactly when the last accepted request is a confirmed publication or the explicit
  resolution of a dead letter, which the head had reached; a resolved head stays resolved, and
  partition and message never change.
\<close>

theorem successor_only_after_resolution:
  "(allows_successor (run_inputs head_step (partition_head_new i m) qs) \<longleftrightarrow>
      ends_with (accepted (partition_head_new i m) qs) [ReqSettle OdPublished] \<or>
      ends_with (accepted (partition_head_new i m) qs) [ReqSettle OdDeadLetter, ReqResolve]) \<and>
   (allows_successor (run_inputs head_step (partition_head_new i m) qs) \<longrightarrow>
      allows_successor (run_inputs head_step (partition_head_new i m) (qs @ later))) \<and>
   ph_identity (run_inputs head_step (partition_head_new i m) qs) = i \<and>
   ph_message_id (run_inputs head_step (partition_head_new i m) qs) = m"
proof -
  let ?h0 = "partition_head_new i m"
  have init: "ph_state ?h0 = HeadAvailable" "ph_identity ?h0 = i" "ph_message_id ?h0 = m"
    by (simp_all add: partition_head_new_def)
  have keep: "ph_state (run_inputs head_step h later) = HeadResolved" if "ph_state h = HeadResolved" for h
    using head.run_version [of h later] that state_rank_resolved by fastforce
  show ?thesis
    using head_history [OF init(1), of qs] init(2,3) keep
    by (simp add: allows_successor_def)
qed

definition demo_partition :: partition_identity where
  "demo_partition = \<lparr>pt_tenant = 1, pt_domain = ''d'', pt_key = ''k''\<rparr>"

definition demo_requests :: "head_request list" where
  "demo_requests = [ReqClaim, ReqSettle OdRetry, ReqResolve, ReqClaim, ReqSettle OdPublished]"

theorem successor_only_after_resolution_witness:
  "allows_successor (run_inputs head_step (partition_head_new demo_partition ''m'') demo_requests) \<and>
   allows_successor
     (run_inputs head_step (partition_head_new demo_partition ''m'') (demo_requests @ [ReqClaim]))"
proof -
  have "accepted (partition_head_new demo_partition ''m'') demo_requests
      = [ReqClaim, ReqSettle OdRetry, ReqClaim] @ [ReqSettle OdPublished]"
    by (simp add: demo_requests_def partition_head_new_def head_claim_def head_settle_def
        resolve_dead_letter_def)
  then have "ends_with (accepted (partition_head_new demo_partition ''m'') demo_requests)
      [ReqSettle OdPublished]"
    unfolding ends_with_def by blast
  with successor_only_after_resolution [of demo_partition "''m''" demo_requests "[ReqClaim]"]
  show ?thesis by blast
qed

end
