(* ===== verification/Messaging_Relay.thy ===== *)
theory Messaging_Relay
  imports Messaging_Ports
begin

section \<open>The outbox relay\<close>

text \<open>
  Models \<^verbatim>\<open>crates/transactional-messaging-runtime/src/relay.rs\<close> with \<open>within\<close> of
  \<^verbatim>\<open>crates/transactional-messaging/src/policy.rs\<close>. An \<open>async fn\<close> is a tree of requests: each node
  asks a port, the clock or the emitter for one answer and continues with it. A port call under
  \<open>within\<close> is answered by \<open>None\<close> when its deadline fires first. \<open>relay_env\<close> answers the requests
  on an arbitrary world; the concurrent part of a batch runs under an arbitrary schedule of its
  claims. The receipt of the publisher has type \<open>'r\<close>, a claim type \<open>'c\<close>.
\<close>

subsection \<open>Configuration and report\<close>

datatype relay_config_error = PollIntervalTooSmall | PollIntervalTooLarge

definition min_poll_interval :: duration where
  "min_poll_interval = from_millis 100"

definition max_poll_interval :: duration where
  "max_poll_interval = from_secs 300"

record relay_config =
  rc_poll_interval :: duration
  rc_max_in_flight :: nat

definition relay_config_new :: "duration \<Rightarrow> nat \<Rightarrow> relay_config_error + relay_config" where
  "relay_config_new poll_interval max_in_flight =
     (if poll_interval < min_poll_interval then Err PollIntervalTooSmall
      else if poll_interval > max_poll_interval then Err PollIntervalTooLarge
      else Ok \<lparr>rc_poll_interval = poll_interval, rc_max_in_flight = max_in_flight\<rparr>)"

record relay_report =
  rr_claimed :: nat
  rr_published :: nat
  rr_retried :: nat
  rr_dead_lettered :: nat
  rr_fenced :: nat

subsection \<open>Requests\<close>

datatype ('c, 'r, 'a) relay_task =
    RelayDone "messaging_error + 'a"
  | RelayNow "instant \<Rightarrow> ('c, 'r, 'a) relay_task"
  | RelayEmit tm_observation "('c, 'r, 'a) relay_task"
  | RelayClaimHeads nat duration "(messaging_error + 'c list) reply \<Rightarrow> ('c, 'r, 'a) relay_task"
  | RelayLeaseStatus 'c duration "(messaging_error + outbox_lease_status) reply \<Rightarrow> ('c, 'r, 'a) relay_task"
  | RelayExtend 'c duration "(messaging_error + outbox_lease_status) reply \<Rightarrow> ('c, 'r, 'a) relay_task"
  | RelayPublish message_envelope duration "'r publish_outcome reply \<Rightarrow> ('c, 'r, 'a) relay_task"
  | RelaySettle 'c "'r outbox_settlement" duration "(messaging_error + unit) reply \<Rightarrow> ('c, 'r, 'a) relay_task"

text \<open>
  An elapsed deadline does not start the call. Otherwise the call starts with the remaining
  time, and the deadline firing first (no reply) is an error like an elapsed one.
\<close>

definition relay_within ::
  "deadline \<Rightarrow> (duration \<Rightarrow> ('x reply \<Rightarrow> ('c, 'r, 'a) relay_task) \<Rightarrow> ('c, 'r, 'a) relay_task)
     \<Rightarrow> (messaging_error + 'x \<Rightarrow> ('c, 'r, 'a) relay_task) \<Rightarrow> ('c, 'r, 'a) relay_task" where
  "relay_within dl start k =
     RelayNow (\<lambda>now.
       let operation_deadline = from_cutoff dl now in
       if operation_deadline = 0 then k (Err deadline_elapsed)
       else start operation_deadline (\<lambda>reply. k (ok_or reply deadline_elapsed)))"

definition relay_failure ::
  "runtime_phase \<Rightarrow> messaging_error \<Rightarrow> ('c, 'r, 'a) relay_task \<Rightarrow> ('c, 'r, 'a) relay_task" where
  "relay_failure phase e t = RelayEmit (ObsRuntimeFailure phase e) t"

definition absolute_deadline ::
  "duration \<Rightarrow> (deadline \<Rightarrow> ('c, 'r, 'a) relay_task) \<Rightarrow> ('c, 'r, 'a) relay_task" where
  "absolute_deadline timeout k =
     RelayNow (\<lambda>now. case from_timeout now timeout of
         Inl _ \<Rightarrow> relay_failure RelayDeadline MInvariant (RelayDone (Err MInvariant))
       | Inr d \<Rightarrow> k d)"

definition deadline_elapsed_publish_outcome :: "'r publish_outcome" where
  "deadline_elapsed_publish_outcome =
     Ambiguous \<lparr>pf_kind = PfTransient, pf_stage = StageConfirm, pf_reason = PubDeadlineElapsed\<rparr>"

subsection \<open>One claim\<close>

definition publish_status :: "outbox_disposition \<Rightarrow> obs_disposition" where
  "publish_status d =
     (case d of OdPublished \<Rightarrow> ObsAck | OdRetry \<Rightarrow> ObsRequeue | OdDeadLetter \<Rightarrow> ObsReject)"

definition relay_settle ::
  "delivery_budget \<Rightarrow> 'c \<Rightarrow> deadline \<Rightarrow> instant \<Rightarrow> 'r outbox_settlement
     \<Rightarrow> ('c, 'r, outbox_disposition option) relay_task" where
  "relay_settle budget claim attempt_deadline publish_started settlement =
     RelayNow (\<lambda>now.
       relay_within (capped attempt_deadline now (db_settle_timeout budget)) (RelaySettle claim settlement)
         (\<lambda>r. case flatten r of
             Inl e \<Rightarrow> relay_failure RelaySettlement e (RelayDone (Err e))
           | Inr _ \<Rightarrow>
               RelayNow (\<lambda>now'.
                 RelayEmit (ObsRelayTick PhasePublish (now' - publish_started))
                   (RelayEmit (ObsOutboxPublish (publish_status (disposition settlement)))
                     (RelayDone (Ok (Some (disposition settlement))))))))"

definition relay_publish ::
  "('c \<Rightarrow> pending_message) \<Rightarrow> delivery_budget \<Rightarrow> 'c \<Rightarrow> deadline
     \<Rightarrow> ('r outbox_settlement \<Rightarrow> ('c, 'r, outbox_disposition option) relay_task)
     \<Rightarrow> ('c, 'r, outbox_disposition option) relay_task" where
  "relay_publish message budget claim attempt_deadline k =
     RelayNow (\<lambda>now.
       relay_within (capped attempt_deadline now (db_publish_timeout budget))
         (RelayPublish (pm_envelope (message claim)))
         (\<lambda>r.
           let outcome = (case r of Inr out \<Rightarrow> out | Inl _ \<Rightarrow> deadline_elapsed_publish_outcome) in
           case outcome_failure outcome of
             Some f \<Rightarrow>
               RelayEmit (ObsOutboxPublishFailure (pf_stage f) (pf_reason f) (is_ambiguous outcome))
                 (k (into_settlement outcome))
           | None \<Rightarrow> k (into_settlement outcome)))"

definition relay_attempt ::
  "('c \<Rightarrow> pending_message) \<Rightarrow> delivery_budget \<Rightarrow> 'c \<Rightarrow> instant \<Rightarrow> duration \<Rightarrow> duration option
     \<Rightarrow> ('c, 'r, outbox_disposition option) relay_task" where
  "relay_attempt message budget claim extend_started reported delivery_remaining =
     RelayNow (\<lambda>now.
       let elapsed = now - extend_started;
           remaining = reported - elapsed;
           expired = (delivery_remaining = Some 0);
           delivery_budget = (case delivery_remaining of
               None \<Rightarrow> remaining | Some v \<Rightarrow> min (v - elapsed) remaining) in
       RelayNow (\<lambda>publish_started.
         absolute_deadline (remaining - db_safety_margin budget) (\<lambda>attempt_deadline.
           if expired then relay_settle budget claim attempt_deadline publish_started SetDeadLetter
           else if can_start_attempt budget delivery_budget then
             relay_publish message budget claim attempt_deadline
               (relay_settle budget claim attempt_deadline publish_started)
           else relay_settle budget claim attempt_deadline publish_started SetRetry)))"

definition relay_extend ::
  "('c \<Rightarrow> pending_message) \<Rightarrow> delivery_budget \<Rightarrow> 'c \<Rightarrow> ('c, 'r, outbox_disposition option) relay_task" where
  "relay_extend message budget claim =
     absolute_deadline (db_settle_timeout budget) (\<lambda>extend_deadline.
       RelayNow (\<lambda>extend_started.
         relay_within extend_deadline (RelayExtend claim) (\<lambda>extended.
           case flatten extended of
             Inl e \<Rightarrow> relay_failure RelayLease e (RelayDone (Err e))
           | Inr (OutboxHeld remaining delivery_remaining) \<Rightarrow>
               relay_attempt message budget claim extend_started remaining delivery_remaining
           | Inr OutboxLost \<Rightarrow> RelayEmit ObsRelayLeaseLost (RelayDone (Ok None)))))"

definition relay_claim ::
  "('c \<Rightarrow> pending_message) \<Rightarrow> delivery_budget \<Rightarrow> 'c \<Rightarrow> ('c, 'r, outbox_disposition option) relay_task" where
  "relay_claim message budget claim =
     absolute_deadline (db_settle_timeout budget) (\<lambda>lease_deadline.
       relay_within lease_deadline (RelayLeaseStatus claim) (\<lambda>lease.
         case flatten lease of
           Inl e \<Rightarrow> relay_failure RelayLease e (RelayDone (Err e))
         | Inr OutboxLost \<Rightarrow> RelayEmit ObsRelayLeaseLost (RelayDone (Ok None))
         | Inr (OutboxHeld _ _) \<Rightarrow> relay_extend message budget claim))"

subsection \<open>One batch\<close>

definition claim_phase :: "delivery_budget \<Rightarrow> nat \<Rightarrow> ('c, 'r, 'c list) relay_task" where
  "claim_phase budget limit =
     RelayNow (\<lambda>claim_started.
       absolute_deadline (db_settle_timeout budget) (\<lambda>claim_deadline.
         relay_within claim_deadline (RelayClaimHeads limit) (\<lambda>r.
           case flatten r of
             Inl e \<Rightarrow> relay_failure RelayClaim e (RelayDone (Err e))
           | Inr claims \<Rightarrow>
               RelayNow (\<lambda>now.
                 RelayEmit (ObsRelayTick PhaseClaim (now - claim_started)) (RelayDone (Ok claims))))))"

definition count_result ::
  "messaging_error + outbox_disposition option \<Rightarrow> relay_report \<times> messaging_error option
     \<Rightarrow> relay_report \<times> messaging_error option" where
  "count_result result = (\<lambda>(report, first_error).
     case result of
       Inr None \<Rightarrow> (report\<lparr>rr_fenced := rr_fenced report + 1\<rparr>, first_error)
     | Inr (Some OdPublished) \<Rightarrow> (report\<lparr>rr_published := rr_published report + 1\<rparr>, first_error)
     | Inr (Some OdRetry) \<Rightarrow> (report\<lparr>rr_retried := rr_retried report + 1\<rparr>, first_error)
     | Inr (Some OdDeadLetter) \<Rightarrow> (report\<lparr>rr_dead_lettered := rr_dead_lettered report + 1\<rparr>, first_error)
     | Inl e \<Rightarrow> (report, if first_error = None then Some e else first_error))"

definition relay_summary ::
  "(messaging_error + outbox_disposition option) list \<Rightarrow> messaging_error + relay_report" where
  "relay_summary results =
     (case fold count_result results
        (\<lparr>rr_claimed = length results, rr_published = 0, rr_retried = 0, rr_dead_lettered = 0,
          rr_fenced = 0\<rparr>, None) of
        (report, Some e) \<Rightarrow> Err e
      | (report, None) \<Rightarrow> Ok report)"

subsection \<open>Execution\<close>

record ('c, 'r, 'w) relay_env =
  en_now :: "'w \<Rightarrow> instant \<times> 'w"
  en_emit :: "tm_observation \<Rightarrow> 'w \<Rightarrow> 'w"
  en_claim_heads :: "nat \<Rightarrow> duration \<Rightarrow> 'w \<Rightarrow> (messaging_error + 'c list) reply \<times> 'w"
  en_lease_status :: "'c \<Rightarrow> duration \<Rightarrow> 'w \<Rightarrow> (messaging_error + outbox_lease_status) reply \<times> 'w"
  en_extend :: "'c \<Rightarrow> duration \<Rightarrow> 'w \<Rightarrow> (messaging_error + outbox_lease_status) reply \<times> 'w"
  en_publish :: "message_envelope \<Rightarrow> duration \<Rightarrow> 'w \<Rightarrow> 'r publish_outcome reply \<times> 'w"
  en_settle :: "'c \<Rightarrow> 'r outbox_settlement \<Rightarrow> duration \<Rightarrow> 'w \<Rightarrow> (messaging_error + unit) reply \<times> 'w"

datatype ('c, 'r) relay_event =
    EvNow instant
  | EvEmit tm_observation
  | EvClaimHeads nat duration "(messaging_error + 'c list) reply"
  | EvLeaseStatus 'c duration "(messaging_error + outbox_lease_status) reply"
  | EvExtend 'c duration "(messaging_error + outbox_lease_status) reply"
  | EvPublish message_envelope duration "'r publish_outcome reply"
  | EvSettle 'c "'r outbox_settlement" duration "(messaging_error + unit) reply"

fun relay_step ::
  "('c, 'r, 'w) relay_env \<Rightarrow> ('c, 'r, 'a) relay_task \<Rightarrow> 'w
     \<Rightarrow> (('c, 'r) relay_event \<times> ('c, 'r, 'a) relay_task \<times> 'w) option" where
  "relay_step env (RelayDone r) w = None"
| "relay_step env (RelayNow k) w = (let (a, w') = en_now env w in Some (EvNow a, k a, w'))"
| "relay_step env (RelayEmit ob t) w = Some (EvEmit ob, t, en_emit env ob w)"
| "relay_step env (RelayClaimHeads n d k) w =
     (let (a, w') = en_claim_heads env n d w in Some (EvClaimHeads n d a, k a, w'))"
| "relay_step env (RelayLeaseStatus c d k) w =
     (let (a, w') = en_lease_status env c d w in Some (EvLeaseStatus c d a, k a, w'))"
| "relay_step env (RelayExtend c d k) w =
     (let (a, w') = en_extend env c d w in Some (EvExtend c d a, k a, w'))"
| "relay_step env (RelayPublish m d k) w =
     (let (a, w') = en_publish env m d w in Some (EvPublish m d a, k a, w'))"
| "relay_step env (RelaySettle c s d k) w =
     (let (a, w') = en_settle env c s d w in Some (EvSettle c s d a, k a, w'))"

text \<open>Running a task alone to its end.\<close>

primrec relay_run ::
  "('c, 'r, 'w) relay_env \<Rightarrow> ('c, 'r, 'a) relay_task \<Rightarrow> 'w
     \<Rightarrow> ('c, 'r) relay_event list \<times> (messaging_error + 'a) \<times> 'w" where
  "relay_run env (RelayDone r) = (\<lambda>w. ([], r, w))"
| "relay_run env (RelayNow k) = (\<lambda>w. case en_now env w of
     (a, w') \<Rightarrow> apfst ((#) (EvNow a)) (relay_run env (k a) w'))"
| "relay_run env (RelayEmit ob t) = (\<lambda>w. apfst ((#) (EvEmit ob)) (relay_run env t (en_emit env ob w)))"
| "relay_run env (RelayClaimHeads n d k) = (\<lambda>w. case en_claim_heads env n d w of
     (a, w') \<Rightarrow> apfst ((#) (EvClaimHeads n d a)) (relay_run env (k a) w'))"
| "relay_run env (RelayLeaseStatus c d k) = (\<lambda>w. case en_lease_status env c d w of
     (a, w') \<Rightarrow> apfst ((#) (EvLeaseStatus c d a)) (relay_run env (k a) w'))"
| "relay_run env (RelayExtend c d k) = (\<lambda>w. case en_extend env c d w of
     (a, w') \<Rightarrow> apfst ((#) (EvExtend c d a)) (relay_run env (k a) w'))"
| "relay_run env (RelayPublish m d k) = (\<lambda>w. case en_publish env m d w of
     (a, w') \<Rightarrow> apfst ((#) (EvPublish m d a)) (relay_run env (k a) w'))"
| "relay_run env (RelaySettle c s d k) = (\<lambda>w. case en_settle env c s d w of
     (a, w') \<Rightarrow> apfst ((#) (EvSettle c s d a)) (relay_run env (k a) w'))"

text \<open>
  The claims of a batch are driven concurrently: the schedule names whose request is answered
  next. A schedule that stops early is completed claim by claim, so every batch ends.
\<close>

fun pool_run ::
  "('c, 'r, 'w) relay_env \<Rightarrow> nat list \<Rightarrow> ('c, 'r, 'a) relay_task list \<Rightarrow> 'w
     \<Rightarrow> (nat \<times> ('c, 'r) relay_event) list \<times> ('c, 'r, 'a) relay_task list \<times> 'w" where
  "pool_run env [] ts w = ([], ts, w)"
| "pool_run env (i # schedule) ts w =
     (if i < length ts then
        (case relay_step env (ts ! i) w of
           None \<Rightarrow> pool_run env schedule ts w
         | Some (e, t, w') \<Rightarrow> apfst ((#) (i, e)) (pool_run env schedule (ts[i := t]) w'))
      else pool_run env schedule ts w)"

fun pool_drain ::
  "('c, 'r, 'w) relay_env \<Rightarrow> nat \<Rightarrow> ('c, 'r, 'a) relay_task list \<Rightarrow> 'w
     \<Rightarrow> (nat \<times> ('c, 'r) relay_event) list \<times> (messaging_error + 'a) list \<times> 'w" where
  "pool_drain env i [] w = ([], [], w)"
| "pool_drain env i (t # ts) w =
     (let (evs, r, w') = relay_run env t w;
          (evs', rs, w'') = pool_drain env (Suc i) ts w' in
      (map (Pair i) evs @ evs', r # rs, w''))"

definition pool_results ::
  "('c, 'r, 'w) relay_env \<Rightarrow> nat list \<Rightarrow> ('c, 'r, 'a) relay_task list \<Rightarrow> 'w
     \<Rightarrow> (nat \<times> ('c, 'r) relay_event) list \<times> (messaging_error + 'a) list \<times> 'w" where
  "pool_results env schedule ts w =
     (let (evs, ts', w') = pool_run env schedule ts w;
          (evs', rs, w'') = pool_drain env 0 ts' w' in
      (evs @ evs', rs, w''))"

text \<open>The trace of a batch: the events of the claim phase, then those of the claims by index.\<close>

definition relay_once ::
  "('c, 'r, 'w) relay_env \<Rightarrow> ('c \<Rightarrow> pending_message) \<Rightarrow> delivery_budget \<Rightarrow> nat list \<Rightarrow> nat \<Rightarrow> 'w
     \<Rightarrow> ('c, 'r) relay_event list \<times> (nat \<times> ('c, 'r) relay_event) list
        \<times> (messaging_error + relay_report) \<times> 'w" where
  "relay_once env message budget schedule limit w =
     (case relay_run env (claim_phase budget limit) w of
        (evs, Inl e, w') \<Rightarrow> (evs, [], Err e, w')
      | (evs, Inr claims, w') \<Rightarrow>
          (let (evs', results, w'') = pool_results env schedule (map (relay_claim message budget) claims) w' in
           (evs, evs', relay_summary results, w'')))"

text \<open>
  The worker loop: one schedule per poll tick, and cancellation after the last one. A
  recoverable batch error is retried at the next tick.
\<close>

fun relay_worker_run ::
  "('c, 'r, 'w) relay_env \<Rightarrow> ('c \<Rightarrow> pending_message) \<Rightarrow> delivery_budget \<Rightarrow> relay_config \<Rightarrow> nat list list \<Rightarrow> 'w
     \<Rightarrow> (messaging_error + unit) \<times> 'w" where
  "relay_worker_run env message budget config [] w = (Ok (), w)"
| "relay_worker_run env message budget config (schedule # ticks) w =
     (case relay_once env message budget schedule (rc_max_in_flight config) w of
        (_, _, Inl e, w') \<Rightarrow>
          if \<not> is_recoverable e then (Err e, w')
          else relay_worker_run env message budget config ticks w'
      | (_, _, Inr _, w') \<Rightarrow> relay_worker_run env message budget config ticks w')"

section \<open>Theorems\<close>

subsection \<open>Paths of a task\<close>

text \<open>The continuation of a task on one event, whatever the environment answered.\<close>

definition accept_event ::
  "('c, 'r) relay_event \<Rightarrow> ('c, 'r, 'a) relay_task \<Rightarrow> ('c, 'r, 'a) relay_task option" where
  "accept_event e t =
     (case t of
        RelayDone _ \<Rightarrow> None
      | RelayNow k \<Rightarrow> (case e of EvNow n \<Rightarrow> Some (k n) | _ \<Rightarrow> None)
      | RelayEmit ob t' \<Rightarrow> (case e of EvEmit ob' \<Rightarrow> if ob' = ob then Some t' else None | _ \<Rightarrow> None)
      | RelayClaimHeads n d k \<Rightarrow>
          (case e of EvClaimHeads n' d' a \<Rightarrow> if n' = n \<and> d' = d then Some (k a) else None | _ \<Rightarrow> None)
      | RelayLeaseStatus c d k \<Rightarrow>
          (case e of EvLeaseStatus c' d' a \<Rightarrow> if c' = c \<and> d' = d then Some (k a) else None | _ \<Rightarrow> None)
      | RelayExtend c d k \<Rightarrow>
          (case e of EvExtend c' d' a \<Rightarrow> if c' = c \<and> d' = d then Some (k a) else None | _ \<Rightarrow> None)
      | RelayPublish m d k \<Rightarrow>
          (case e of EvPublish m' d' a \<Rightarrow> if m' = m \<and> d' = d then Some (k a) else None | _ \<Rightarrow> None)
      | RelaySettle c s d k \<Rightarrow>
          (case e of EvSettle c' s' d' a \<Rightarrow> if c' = c \<and> s' = s \<and> d' = d then Some (k a) else None
           | _ \<Rightarrow> None))"

primrec follow ::
  "('c, 'r) relay_event list \<Rightarrow> ('c, 'r, 'a) relay_task \<Rightarrow> ('c, 'r, 'a) relay_task option" where
  "follow [] t = Some t"
| "follow (e # es) t = Option.bind (accept_event e t) (follow es)"

text \<open>\<open>ends t es r\<close>: along the events \<open>es\<close> the task \<open>t\<close> returns \<open>r\<close>.\<close>

definition ends ::
  "('c, 'r, 'a) relay_task \<Rightarrow> ('c, 'r) relay_event list \<Rightarrow> messaging_error + 'a \<Rightarrow> bool" where
  "ends t es r \<longleftrightarrow> follow es t = Some (RelayDone r)"

lemma follow_append: "follow (xs @ ys) t = Option.bind (follow xs t) (follow ys)"
  by (induction xs arbitrary: t) (auto simp: bind_eq_Some_conv split: option.split bind_split)

lemma ends_simps:
  "ends (RelayDone r') es r \<longleftrightarrow> es = [] \<and> r' = r"
  "ends (RelayNow k) es r \<longleftrightarrow> (\<exists>n es'. es = EvNow n # es' \<and> ends (k n) es' r)"
  "ends (RelayEmit ob t) es r \<longleftrightarrow> (\<exists>es'. es = EvEmit ob # es' \<and> ends t es' r)"
  "ends (RelayClaimHeads n d kh) es r \<longleftrightarrow> (\<exists>a es'. es = EvClaimHeads n d a # es' \<and> ends (kh a) es' r)"
  "ends (RelayLeaseStatus c d kl) es r \<longleftrightarrow> (\<exists>a es'. es = EvLeaseStatus c d a # es' \<and> ends (kl a) es' r)"
  "ends (RelayExtend c d kl) es r \<longleftrightarrow> (\<exists>a es'. es = EvExtend c d a # es' \<and> ends (kl a) es' r)"
  "ends (RelayPublish m d kp) es r \<longleftrightarrow> (\<exists>a es'. es = EvPublish m d a # es' \<and> ends (kp a) es' r)"
  "ends (RelaySettle c s d ks) es r \<longleftrightarrow> (\<exists>a es'. es = EvSettle c s d a # es' \<and> ends (ks a) es' r)"
  by (cases es; auto simp: ends_def accept_event_def bind_eq_Some_conv split: relay_event.splits if_splits)+

lemma ends_elims:
  "ends (RelayDone r') es r \<Longrightarrow> (es = [] \<Longrightarrow> r' = r \<Longrightarrow> P) \<Longrightarrow> P"
  "ends (RelayNow k) es r \<Longrightarrow> (\<And>n es'. es = EvNow n # es' \<Longrightarrow> ends (k n) es' r \<Longrightarrow> P) \<Longrightarrow> P"
  "ends (RelayEmit ob t) es r \<Longrightarrow> (\<And>es'. es = EvEmit ob # es' \<Longrightarrow> ends t es' r \<Longrightarrow> P) \<Longrightarrow> P"
  "ends (RelayClaimHeads n d kh) es r \<Longrightarrow>
     (\<And>a es'. es = EvClaimHeads n d a # es' \<Longrightarrow> ends (kh a) es' r \<Longrightarrow> P) \<Longrightarrow> P"
  "ends (RelayLeaseStatus c d kl) es r \<Longrightarrow>
     (\<And>a es'. es = EvLeaseStatus c d a # es' \<Longrightarrow> ends (kl a) es' r \<Longrightarrow> P) \<Longrightarrow> P"
  "ends (RelayExtend c d kl) es r \<Longrightarrow>
     (\<And>a es'. es = EvExtend c d a # es' \<Longrightarrow> ends (kl a) es' r \<Longrightarrow> P) \<Longrightarrow> P"
  "ends (RelayPublish m d kp) es r \<Longrightarrow>
     (\<And>a es'. es = EvPublish m d a # es' \<Longrightarrow> ends (kp a) es' r \<Longrightarrow> P) \<Longrightarrow> P"
  "ends (RelaySettle c s d ks) es r \<Longrightarrow>
     (\<And>a es'. es = EvSettle c s d a # es' \<Longrightarrow> ends (ks a) es' r \<Longrightarrow> P) \<Longrightarrow> P"
  by (auto simp: ends_simps)

lemma relay_step_accept:
  "relay_step env t w = Some (e, t', w') \<Longrightarrow> accept_event e t = Some t'"
  by (cases t) (auto simp: accept_event_def split: prod.splits)

lemma relay_run_ends: "relay_run env t w = (es, r, w') \<Longrightarrow> ends t es r"
  by (induction t arbitrary: w es) (auto simp: ends_simps apfst_def map_prod_def split: prod.splits)

subsection \<open>Concurrent claims\<close>

text \<open>The events of one claim of a batch.\<close>

definition events_of :: "nat \<Rightarrow> (nat \<times> ('c, 'r) relay_event) list \<Rightarrow> ('c, 'r) relay_event list" where
  "events_of i evs = map snd (filter (\<lambda>p. fst p = i) evs)"

lemma events_of_simps [simp]:
  "events_of i [] = []"
  "events_of i ((j, e) # evs) = (if j = i then e # events_of i evs else events_of i evs)"
  "events_of i (xs @ ys) = events_of i xs @ events_of i ys"
  "events_of i (map (Pair j) es) = (if i = j then es else [])"
  by (auto simp: events_of_def filter_map comp_def)

lemma pool_run_follow:
  "pool_run env schedule ts w = (evs, ts', w') \<Longrightarrow>
     length ts' = length ts \<and> (\<forall>i < length ts. follow (events_of i evs) (ts ! i) = Some (ts' ! i))
     \<and> (\<forall>p \<in> set evs. fst p < length ts)"
proof (induction env schedule ts w arbitrary: evs rule: pool_run.induct)
  case (1 env ts w)
  then show ?case by simp
next
  case (2 env i schedule ts w)
  show ?case
  proof (cases "i < length ts")
    case False
    with 2 show ?thesis by simp
  next
    case True
    show ?thesis
    proof (cases "relay_step env (ts ! i) w")
      case None
      with 2 True show ?thesis by simp
    next
      case (Some st)
      obtain e t w1 where st: "st = (e, t, w1)" by (cases st)
      obtain evs' where evs: "evs = (i, e) # evs'" and
        run: "pool_run env schedule (ts[i := t]) w1 = (evs', ts', w')"
        using 2(4) True Some st by (auto simp: apfst_def map_prod_def split: prod.splits)
      note IH = 2(2) [OF True Some st [symmetric] refl run]
      have acc: "accept_event e (ts ! i) = Some t"
        by (rule relay_step_accept [OF Some [unfolded st]])
      have "follow (events_of j evs) (ts ! j) = Some (ts' ! j)" if "j < length ts" for j
        using IH that acc True by (cases "j = i") (auto simp: evs)
      with IH True show ?thesis by (simp add: evs)
    qed
  qed
qed

lemma pool_drain_ends:
  "pool_drain env i ts w = (evs, rs, w') \<Longrightarrow>
     length rs = length ts \<and> (\<forall>j < length ts. ends (ts ! j) (events_of (i + j) evs) (rs ! j))
     \<and> (\<forall>p \<in> set evs. i \<le> fst p \<and> fst p < i + length ts)"
proof (induction env i ts w arbitrary: evs rs rule: pool_drain.induct)
  case (1 env i w)
  then show ?case by simp
next
  case (2 env i t ts w)
  obtain es r w1 where run: "relay_run env t w = (es, r, w1)" by (cases "relay_run env t w")
  obtain evs' rs' where drain: "pool_drain env (Suc i) ts w1 = (evs', rs', w')"
    and eq: "evs = map (Pair i) es @ evs'" "rs = r # rs'"
    using 2(2) run by (auto split: prod.splits)
  note IH = 2(1) [OF run [symmetric] refl refl drain]
  have "events_of i evs' = []" using IH by (force simp: events_of_def filter_empty_conv)
  moreover have "ends (ts ! j) (events_of (i + Suc j) evs) (rs' ! j)" if "j < length ts" for j
    using IH that by (simp add: eq)
  ultimately have "ends ((t # ts) ! j) (events_of (i + j) evs) (rs ! j)" if "j < length (t # ts)" for j
    using that relay_run_ends [OF run] by (cases j) (simp_all add: eq)
  with IH show ?case by (auto simp: eq)
qed

lemma ends_append: "follow xs t = Some t' \<Longrightarrow> ends t' ys r \<Longrightarrow> ends t (xs @ ys) r"
  by (simp add: ends_def follow_append)

lemma pool_results_ends:
  assumes "pool_results env schedule ts w = (evs, rs, w')"
  shows "length rs = length ts" and "\<And>i. i < length ts \<Longrightarrow> ends (ts ! i) (events_of i evs) (rs ! i)"
    and "\<And>p. p \<in> set evs \<Longrightarrow> fst p < length ts"
proof -
  obtain e1 ts1 w1 where run: "pool_run env schedule ts w = (e1, ts1, w1)"
    by (cases "pool_run env schedule ts w")
  obtain e2 w2 where drain: "pool_drain env 0 ts1 w1 = (e2, rs, w2)" and evs: "evs = e1 @ e2"
    using assms run by (auto simp: pool_results_def split: prod.splits)
  note r = pool_run_follow [OF run] and d = pool_drain_ends [OF drain]
  show "length rs = length ts" using r d by simp
  show "ends (ts ! i) (events_of i evs) (rs ! i)" if "i < length ts" for i
    using r d that by (auto simp: evs intro: ends_append)
  show "fst p < length ts" if "p \<in> set evs" for p
    using r d that by (auto simp: evs)
qed

subsection \<open>What one claim does\<close>

definition publishes ::
  "('c, 'r) relay_event list \<Rightarrow> (message_envelope \<times> duration \<times> 'r publish_outcome reply) list" where
  "publishes es = concat (map (\<lambda>e. case e of EvPublish m d a \<Rightarrow> [(m, d, a)] | _ \<Rightarrow> []) es)"

definition settles ::
  "('c, 'r) relay_event list
     \<Rightarrow> ('c \<times> 'r outbox_settlement \<times> duration \<times> (messaging_error + unit) reply) list" where
  "settles es = concat (map (\<lambda>e. case e of EvSettle c s d a \<Rightarrow> [(c, s, d, a)] | _ \<Rightarrow> []) es)"

definition extends ::
  "('c, 'r) relay_event list \<Rightarrow> ('c \<times> (messaging_error + outbox_lease_status) reply) list" where
  "extends es = concat (map (\<lambda>e. case e of EvExtend c d a \<Rightarrow> [(c, a)] | _ \<Rightarrow> []) es)"

lemma views_simps [simp]:
  "publishes [] = []" "settles [] = []" "extends [] = []"
  "publishes (EvNow t # es) = publishes es" "settles (EvNow t # es) = settles es"
  "extends (EvNow t # es) = extends es"
  "publishes (EvEmit ob # es) = publishes es" "settles (EvEmit ob # es) = settles es"
  "extends (EvEmit ob # es) = extends es"
  "publishes (EvLeaseStatus c d la # es) = publishes es" "settles (EvLeaseStatus c d la # es) = settles es"
  "extends (EvLeaseStatus c d la # es) = extends es"
  "publishes (EvExtend c d la # es) = publishes es" "settles (EvExtend c d la # es) = settles es"
  "extends (EvExtend c d la # es) = (c, la) # extends es"
  "publishes (EvPublish m d pa # es) = (m, d, pa) # publishes es" "settles (EvPublish m d pa # es) = settles es"
  "extends (EvPublish m d pa # es) = extends es"
  "publishes (EvSettle c s d sa # es) = publishes es" "settles (EvSettle c s d sa # es) = (c, s, d, sa) # settles es"
  "extends (EvSettle c s d sa # es) = extends es"
  by (simp_all add: publishes_def settles_def extends_def)

text \<open>The evidence on which each settlement rests.\<close>

fun justified ::
  "'r outbox_settlement \<Rightarrow> (messaging_error + outbox_lease_status) reply
     \<Rightarrow> (message_envelope \<times> duration \<times> 'r publish_outcome reply) list \<Rightarrow> bool" where
  "justified (SetPublished rc) ext pubs \<longleftrightarrow> (\<exists>m d. pubs = [(m, d, Some (Confirmed rc))])"
| "justified SetDeadLetter ext pubs \<longleftrightarrow>
     (pubs = [] \<and> (\<exists>rem. ext = Some (Inr (OutboxHeld rem (Some 0))))) \<or>
     (\<exists>m d f. pubs = [(m, d, Some (DefinitelyNotPublished f))] \<and> pf_kind f = PfPermanent)"
| "justified SetRetry ext pubs \<longleftrightarrow>
     pubs = [] \<or> (\<exists>m d. pubs = [(m, d, None)]) \<or> (\<exists>m d f. pubs = [(m, d, Some (Ambiguous f))]) \<or>
     (\<exists>m d f. pubs = [(m, d, Some (DefinitelyNotPublished f))] \<and> pf_kind f = PfTransient)"

definition claim_contract ::
  "message_envelope \<Rightarrow> 'c \<Rightarrow> ('c, 'r) relay_event list \<Rightarrow> messaging_error + outbox_disposition option \<Rightarrow> bool" where
  "claim_contract m c es r \<longleftrightarrow>
     length (publishes es) \<le> 1 \<and> (\<forall>p \<in> set (publishes es). fst p = m) \<and>
     (settles es = [] \<or>
       (\<exists>s d a ext. settles es = [(c, s, d, a)] \<and> extends es = [(c, ext)] \<and> justified s ext (publishes es))) \<and>
     (\<forall>x. r = Inr (Some x) \<longleftrightarrow> (\<exists>s d. settles es = [(c, s, d, Some (Inr ()))] \<and> disposition s = x)) \<and>
     (r = Inr None \<longrightarrow> settles es = [] \<and> publishes es = [])"

text \<open>A call under \<open>within\<close>: skipped when its deadline has passed, answered otherwise.\<close>

lemma ends_withinE:
  assumes "ends (relay_within dl start k) es r"
  obtains (elapsed) now es' where "es = EvNow now # es'" and "from_cutoff dl now = 0"
      and "ends (k (Err deadline_elapsed)) es' r"
    | (called) now es' where "es = EvNow now # es'" and "0 < from_cutoff dl now"
      and "ends (start (from_cutoff dl now) (\<lambda>reply. k (ok_or reply deadline_elapsed))) es' r"
  using assms by (auto simp: relay_within_def Let_def elim!: ends_elims split: if_splits)

lemma ends_absolute_deadlineE:
  assumes "ends (absolute_deadline timeout k) es r"
  obtains (overflow) now where "es = [EvNow now, EvEmit (ObsRuntimeFailure RelayDeadline MInvariant)]"
      and "r = Err MInvariant"
    | (set) now es' where "es = EvNow now # es'" and "ends (k (now + timeout)) es' r"
  using assms
  by (auto simp: absolute_deadline_def from_timeout_def instant_checked_add_def relay_failure_def
      elim!: ends_elims split: if_splits)

lemma settle_stage:
  assumes "ends (relay_settle b c ad ps s) es r"
  shows "publishes es = [] \<and> extends es = [] \<and>
    ((settles es = [] \<and> (\<exists>e. r = Inl e)) \<or>
     (\<exists>d a. settles es = [(c, s, d, a)] \<and> (a = Some (Inr ()) \<and> r = Inr (Some (disposition s))
        \<or> a \<noteq> Some (Inr ()) \<and> (\<exists>e. r = Inl e))))"
  using assms
  by (auto simp: relay_settle_def relay_failure_def flatten_ok_or elim!: ends_withinE ends_elims
      split: option.splits sum.splits)

lemma publish_stage:
  assumes "ends (relay_publish message b c ad (relay_settle b c ad ps)) es r"
  obtains (skipped) es' where "ends (relay_settle b c ad ps SetRetry) es' r"
      and "publishes es = publishes es'" and "settles es = settles es'" and "extends es = extends es'"
    | (answered) out d es' where "ends (relay_settle b c ad ps (into_settlement out)) es' r"
      and "publishes es = (pm_envelope (message c), d, Some out) # publishes es'"
      and "settles es = settles es'" and "extends es = extends es'"
    | (timed_out) d es' where "ends (relay_settle b c ad ps SetRetry) es' r"
      and "publishes es = (pm_envelope (message c), d, None) # publishes es'"
      and "settles es = settles es'" and "extends es = extends es'"
  using assms unfolding relay_publish_def Let_def
proof (elim ends_elims ends_withinE, goal_cases)
  case (1 n es1 now es2)
  then show ?case
    by (auto simp: deadline_elapsed_publish_outcome_def elim!: ends_elims)
next
  case (2 n es1 now es2 a es3)
  show ?case
  proof (cases a)
    case None
    with 2 show ?thesis
      by (auto simp: deadline_elapsed_publish_outcome_def elim!: ends_elims)
  next
    case (Some out)
    with 2 show ?thesis
      by (auto elim!: ends_elims split: option.splits)
  qed
qed

lemma into_settlement_justified: "justified (into_settlement out) ext [(m, d, Some out)]"
  by (cases out) (auto simp: is_retryable_def intro: publish_failure_kind.exhaust)

text \<open>The outcome of settling with evidence \<open>ext\<close>, \<open>pubs\<close>.\<close>

definition settled_with ::
  "'c \<Rightarrow> (messaging_error + outbox_lease_status) reply
     \<Rightarrow> (message_envelope \<times> duration \<times> 'r publish_outcome reply) list
     \<Rightarrow> ('c \<times> 'r outbox_settlement \<times> duration \<times> (messaging_error + unit) reply) list
     \<Rightarrow> messaging_error + outbox_disposition option \<Rightarrow> bool" where
  "settled_with c ext pubs sets r \<longleftrightarrow>
     (sets = [] \<and> (\<exists>e. r = Inl e)) \<or>
     (\<exists>s d a. sets = [(c, s, d, a)] \<and> justified s ext pubs \<and>
       (a = Some (Inr ()) \<and> r = Inr (Some (disposition s)) \<or> a \<noteq> Some (Inr ()) \<and> (\<exists>e. r = Inl e)))"

lemma settle_settled_with:
  assumes "ends (relay_settle b c ad ps s) es r" and "justified s ext pubs"
  shows "settled_with c ext pubs (settles es) r"
  using settle_stage [OF assms(1)] assms(2) unfolding settled_with_def by blast

lemma attempt_contract:
  assumes "ends (relay_attempt message b c t0 rep dr) es r"
  shows "extends es = [] \<and> length (publishes es) \<le> 1
    \<and> (\<forall>p \<in> set (publishes es). fst p = pm_envelope (message c))
    \<and> settled_with c (Some (Inr (OutboxHeld rep dr))) (publishes es) (settles es) r"
  using assms unfolding relay_attempt_def Let_def
proof (elim ends_elims ends_absolute_deadlineE, goal_cases)
  case (1 n es1 n2 es2 now)
  then show ?case by (simp add: settled_with_def)
next
  case (2 n es1 n2 es2 now es3)
  have view: "extends es = extends es3" "publishes es = publishes es3" "settles es = settles es3"
    using 2 by simp_all
  let ?ad = "now + (rep - (n - t0) - db_safety_margin b)"
  have settle: ?case if "ends (relay_settle b c ?ad n2 s) es3 r"
    and "justified s (Some (Inr (OutboxHeld rep dr))) ([] :: (message_envelope \<times> duration \<times> 'b publish_outcome reply) list)" for s
    using settle_stage [OF that(1)] settle_settled_with [OF that] by (simp add: view)
  have publish: ?case if "ends (relay_publish message b c ?ad (relay_settle b c ?ad n2)) es3 r"
    using that
  proof (cases rule: publish_stage)
    case (skipped es')
    then show ?thesis using settle_stage [OF skipped(1)] settle_settled_with [OF skipped(1)]
      by (simp add: view)
  next
    case (answered out d es')
    then show ?thesis
      using settle_stage [OF answered(1)]
        settle_settled_with [OF answered(1) into_settlement_justified] by (simp add: view)
  next
    case (timed_out d es')
    then show ?thesis using settle_stage [OF timed_out(1)] settle_settled_with [OF timed_out(1)]
      by (simp add: view)
  qed
  show ?case
    using 2(4) settle publish by (auto split: if_splits)
qed

lemma claim_contract_quiet:
  assumes "publishes es = []" and "settles es = []" and "\<And>x. r \<noteq> Inr (Some x)"
  shows "claim_contract m c es r"
  using assms by (simp add: claim_contract_def)

lemma claim_contract_settled:
  assumes "settled_with c ext (publishes es) (settles es) r" and "extends es = [(c, ext)]"
    and "length (publishes es) \<le> 1" and "\<forall>p \<in> set (publishes es). fst p = m"
  shows "claim_contract m c es r"
  using assms by (auto simp: claim_contract_def settled_with_def)

lemma claim_contract_settles:
  assumes "claim_contract m c es r"
  shows "r = Inr (Some x) \<longleftrightarrow> (\<exists>c s d. settles es = [(c, s, d, Some (Inr ()))] \<and> disposition s = x)"
proof -
  have "r = Inr (Some x) \<longleftrightarrow> (\<exists>s d. settles es = [(c, s, d, Some (Inr ()))] \<and> disposition s = x)"
    and one: "settles es = [] \<or> (\<exists>s d a. settles es = [(c, s, d, a)])"
    using assms unfolding claim_contract_def by blast+
  then show ?thesis by auto
qed

lemma claim_contract_prefix:
  assumes "claim_contract m c es r" and "publishes es' = publishes es" and "settles es' = settles es"
    and "extends es' = extends es"
  shows "claim_contract m c es' r"
  using assms by (simp add: claim_contract_def)

lemma extend_contract:
  assumes "ends (relay_extend message b c) es r"
  shows "claim_contract (pm_envelope (message c)) c es r"
  using assms unfolding relay_extend_def
proof (elim ends_absolute_deadlineE ends_withinE ends_elims, goal_cases)
  case (1 now)
  then show ?case by (simp add: claim_contract_quiet)
next
  case (2 now es1 t0 es2 now2 es3)
  then show ?case by (auto simp: relay_failure_def elim!: ends_elims intro!: claim_contract_quiet)
next
  case (3 now es1 t0 es2 now2 es3 a es4)
  show ?case
  proof (cases "flatten (ok_or a deadline_elapsed)")
    case (Inl e)
    with 3 show ?thesis by (auto simp: relay_failure_def elim!: ends_elims intro!: claim_contract_quiet)
  next
    case (Inr st)
    then have a: "a = Some (Inr st)" by (cases a) auto
    show ?thesis
    proof (cases st)
      case OutboxLost
      with 3 Inr show ?thesis by (auto elim!: ends_elims intro!: claim_contract_quiet)
    next
      case (OutboxHeld rep dr)
      with 3 Inr have "ends (relay_attempt message b c t0 rep dr) es4 r" by simp
      from attempt_contract [OF this] show ?thesis
        using 3 a OutboxHeld by (intro claim_contract_settled) auto
    qed
  qed
qed

lemma relay_claim_contract:
  assumes "ends (relay_claim message b c) es r"
  shows "claim_contract (pm_envelope (message c)) c es r"
  using assms unfolding relay_claim_def
proof (elim ends_absolute_deadlineE ends_withinE ends_elims, goal_cases)
  case (1 now)
  then show ?case by (simp add: claim_contract_quiet)
next
  case (2 now es1 now2 es2)
  then show ?case by (auto simp: relay_failure_def elim!: ends_elims intro!: claim_contract_quiet)
next
  case (3 now es1 now2 es2 a es3)
  then have held: "claim_contract (pm_envelope (message c)) c es r"
    if "ends (relay_extend message b c) es3 r"
    using extend_contract [OF that] by (auto intro: claim_contract_prefix)
  show ?case
    using 3 held by (cases a)
      (auto simp: relay_failure_def elim!: ends_elims intro!: claim_contract_quiet
        split: sum.splits outbox_lease_status.splits)
qed

subsection \<open>The batch report\<close>

fun first_error :: "('e + 'a) list \<Rightarrow> 'e option" where
  "first_error [] = None"
| "first_error (Inl e # rs) = Some e"
| "first_error (Inr _ # rs) = first_error rs"

lemma first_error_None: "first_error rs = None \<longleftrightarrow> (\<forall>r \<in> set rs. is_ok r)"
  by (induction rs rule: first_error.induct) auto

lemma first_error_Some:
  "first_error rs = Some e \<Longrightarrow> \<exists>before after. rs = before @ Inl e # after \<and> (\<forall>r \<in> set before. is_ok r)"
proof (induction rs rule: first_error.induct)
  case (2 e' rs)
  then have "Inl e' # rs = [] @ Inl e # rs" by simp
  then show ?case by fastforce
next
  case (3 x rs)
  then obtain before after where "rs = before @ Inl e # after" "\<forall>r \<in> set before. is_ok r" by auto
  then have "Inr x # rs = (Inr x # before) @ Inl e # after" "\<forall>r \<in> set (Inr x # before). is_ok r"
    by simp_all
  then show ?case by blast
qed simp

text \<open>The fields of the report after the loop over the results.\<close>

lemma count_result_fields:
  "rr_claimed (fst (count_result r st)) = rr_claimed (fst st)"
  "rr_published (fst (count_result r st)) = rr_published (fst st) + (if r = Inr (Some OdPublished) then 1 else 0)"
  "rr_retried (fst (count_result r st)) = rr_retried (fst st) + (if r = Inr (Some OdRetry) then 1 else 0)"
  "rr_dead_lettered (fst (count_result r st)) = rr_dead_lettered (fst st) + (if r = Inr (Some OdDeadLetter) then 1 else 0)"
  "rr_fenced (fst (count_result r st)) = rr_fenced (fst st) + (if r = Inr None then 1 else 0)"
  "snd (count_result r st) = (case snd st of Some e \<Rightarrow> Some e | None \<Rightarrow> first_error [r])"
  by (cases st; auto simp: count_result_def split: sum.splits option.splits outbox_disposition.splits)+

lemma fold_count_fields:
  "rr_claimed (fst (fold count_result rs st)) = rr_claimed (fst st)"
  "rr_published (fst (fold count_result rs st)) = rr_published (fst st) + count_list rs (Inr (Some OdPublished))"
  "rr_retried (fst (fold count_result rs st)) = rr_retried (fst st) + count_list rs (Inr (Some OdRetry))"
  "rr_dead_lettered (fst (fold count_result rs st)) = rr_dead_lettered (fst st) + count_list rs (Inr (Some OdDeadLetter))"
  "rr_fenced (fst (fold count_result rs st)) = rr_fenced (fst st) + count_list rs (Inr None)"
  "snd (fold count_result rs st) = (case snd st of Some e \<Rightarrow> Some e | None \<Rightarrow> first_error rs)"
proof (induction rs arbitrary: st)
  case Nil
  { case 6 then show ?case by (simp split: option.split) }
next
  case (Cons r rs)
  { case 6 then show ?case by (cases r) (auto simp: Cons.IH count_result_fields split: option.split) }
qed (simp_all add: count_result_fields)

lemma relay_summary_eq:
  "relay_summary rs =
     (case first_error rs of
        Some e \<Rightarrow> Inl e
      | None \<Rightarrow> Inr \<lparr>rr_claimed = length rs, rr_published = count_list rs (Inr (Some OdPublished)),
          rr_retried = count_list rs (Inr (Some OdRetry)),
          rr_dead_lettered = count_list rs (Inr (Some OdDeadLetter)), rr_fenced = count_list rs (Inr None)\<rparr>)"
proof -
  define st where "st = (\<lparr>rr_claimed = length rs, rr_published = 0, rr_retried = 0,
    rr_dead_lettered = 0, rr_fenced = 0\<rparr>, None :: messaging_error option)"
  have sum: "relay_summary rs = (case snd (fold count_result rs st) of
      Some e \<Rightarrow> Inl e | None \<Rightarrow> Inr (fst (fold count_result rs st)))"
    by (simp add: relay_summary_def st_def split: prod.split option.split)
  have "fst (fold count_result rs st) = \<lparr>rr_claimed = length rs,
       rr_published = count_list rs (Inr (Some OdPublished)), rr_retried = count_list rs (Inr (Some OdRetry)),
       rr_dead_lettered = count_list rs (Inr (Some OdDeadLetter)), rr_fenced = count_list rs (Inr None)\<rparr>"
    by (rule relay_report.equality) (simp_all add: fold_count_fields st_def)
  moreover have "snd (fold count_result rs st) = first_error rs"
    by (simp add: fold_count_fields st_def)
  ultimately show ?thesis by (simp add: sum split: option.split)
qed

lemma relay_summary_Inl:
  assumes "relay_summary rs = Inl e"
  obtains before after where "rs = before @ Inl e # after" and "\<forall>r \<in> set before. is_ok r"
proof -
  have "first_error rs = Some e" using assms by (simp add: relay_summary_eq split: option.splits)
  from first_error_Some [OF this] that show thesis by blast
qed

lemma results_partition:
  "\<forall>r \<in> set rs. is_ok r \<Longrightarrow>
     length rs = count_list rs (Inr (Some OdPublished)) + count_list rs (Inr (Some OdRetry))
       + count_list rs (Inr (Some OdDeadLetter)) + count_list rs (Inr None)"
proof (induction rs)
  case (Cons r rs)
  then obtain x where "r = Inr x" by (auto simp: is_ok_iff)
  moreover have "x = None \<or> x = Some OdPublished \<or> x = Some OdRetry \<or> x = Some OdDeadLetter"
    by (metis not_Some_eq outbox_disposition.exhaust)
  ultimately show ?case using Cons by (elim disjE) simp_all
qed simp

lemma count_list_card: "count_list xs x = card {i. i < length xs \<and> xs ! i = x}"
proof (induction xs)
  case (Cons y ys)
  have "{i. i < length (y # ys) \<and> (y # ys) ! i = x}
      = (if y = x then {0} else {}) \<union> Suc ` {i. i < length ys \<and> ys ! i = x}"
    by (auto simp: less_Suc_eq_0_disj)
  then show ?case using Cons by (simp add: card_image card_insert_if)
qed simp

text \<open>The claims whose settlement with disposition \<open>x\<close> the store acknowledged.\<close>

definition settled_claims ::
  "outbox_disposition \<Rightarrow> nat \<Rightarrow> (nat \<times> ('c, 'r) relay_event) list \<Rightarrow> nat set" where
  "settled_claims x n evs =
     {i. i < n \<and> (\<exists>c s d. settles (events_of i evs) = [(c, s, d, Some (Inr ()))] \<and> disposition s = x)}"

lemma relay_once_cases:
  assumes "relay_once env message budget schedule limit w = (pre, evs, result, w')"
  obtains (claim_failed) e where "result = Inl e" and "evs = []"
    | (batch) claims rs where "ends (claim_phase budget limit) pre (Inr claims)"
      and "length rs = length claims" and "result = relay_summary rs"
      and "\<And>i. i < length claims \<Longrightarrow> ends (relay_claim message budget (claims ! i)) (events_of i evs) (rs ! i)"
      and "\<And>p. p \<in> set evs \<Longrightarrow> fst p < length claims"
proof -
  obtain es r w1 where run: "relay_run env (claim_phase budget limit) w = (es, r, w1)"
    by (cases "relay_run env (claim_phase budget limit) w")
  show thesis
  proof (cases r)
    case (Inl e)
    with run assms show thesis by (auto simp: relay_once_def intro: claim_failed)
  next
    case (Inr claims)
    obtain evs' rs w2 where pool:
      "pool_results env schedule (map (relay_claim message budget) claims) w1 = (evs', rs, w2)"
      by (cases "pool_results env schedule (map (relay_claim message budget) claims) w1")
    have eq: "pre = es" "evs = evs'" "result = relay_summary rs"
      using assms run Inr pool by (auto simp: relay_once_def)
    note p = pool_results_ends [OF pool]
    show thesis
    proof (rule batch)
      show "ends (claim_phase budget limit) pre (Inr claims)"
        using relay_run_ends [OF run] Inr eq by simp
      show "ends (relay_claim message budget (claims ! i)) (events_of i evs) (rs ! i)"
        if "i < length claims" for i
        using p(2) [of i] that eq by simp
    qed (use p eq in auto)
  qed
qed

lemma claim_phase_heads:
  "ends (claim_phase budget limit) es (Inr claims) \<Longrightarrow>
     \<exists>d. EvClaimHeads limit d (Some (Inr claims)) \<in> set es"
  unfolding claim_phase_def
  by (auto simp: relay_failure_def flatten_ok_or elim!: ends_elims ends_absolute_deadlineE ends_withinE
      split: sum.splits option.splits)

text \<open>
  C34. In every batch, under every schedule of its claims and every behaviour of store, publisher
  and clock: each claimed message is published at most once and unchanged, settled at most once,
  and the settlement rests on evidence: Published on a confirmation of that publication,
  DeadLetter on an expired delivery window or a definite permanent refusal, Retry whenever
  acceptance is unknown.
\<close>

theorem relay_settles_on_evidence:
  assumes "relay_once env message budget schedule limit w = (pre, evs, result, w')"
  shows "evs = [] \<or> (\<exists>claims d. EvClaimHeads limit d (Some (Inr claims)) \<in> set pre \<and>
    (\<forall>(i, e) \<in> set evs. i < length claims \<and>
      (\<exists>r. claim_contract (pm_envelope (message (claims ! i))) (claims ! i) (events_of i evs) r)))"
  using assms
proof (cases rule: relay_once_cases)
  case (batch claims rs)
  obtain d where "EvClaimHeads limit d (Some (Inr claims)) \<in> set pre"
    using claim_phase_heads [OF batch(1)] by blast
  moreover have "i < length claims \<and>
      (\<exists>r. claim_contract (pm_envelope (message (claims ! i))) (claims ! i) (events_of i evs) r)"
    if "(i, e) \<in> set evs" for i e
    using batch(5) [OF that] relay_claim_contract [OF batch(4), of i] by auto
  ultimately show ?thesis by blast
qed simp

text \<open>
  A batch that returns a report accounts for every claim: the counts add up to the number of
  claims, and each equals the number of claims the store acknowledged with that settlement.
\<close>

theorem relay_report_exact:
  assumes "relay_once env message budget schedule limit w = (pre, evs, Inr rep, w')"
  shows "rr_claimed rep = rr_published rep + rr_retried rep + rr_dead_lettered rep + rr_fenced rep \<and>
    rr_published rep = card (settled_claims OdPublished (rr_claimed rep) evs) \<and>
    rr_retried rep = card (settled_claims OdRetry (rr_claimed rep) evs) \<and>
    rr_dead_lettered rep = card (settled_claims OdDeadLetter (rr_claimed rep) evs)"
  using assms
proof (cases rule: relay_once_cases)
  case (batch claims rs)
  then have ok: "\<forall>r \<in> set rs. is_ok r" and
    rep: "rep = \<lparr>rr_claimed = length rs, rr_published = count_list rs (Inr (Some OdPublished)),
       rr_retried = count_list rs (Inr (Some OdRetry)),
       rr_dead_lettered = count_list rs (Inr (Some OdDeadLetter)), rr_fenced = count_list rs (Inr None)\<rparr>"
    unfolding first_error_None [symmetric] by (simp_all add: relay_summary_eq split: option.splits)
  have settled: "rs ! i = Inr (Some x) \<longleftrightarrow>
      (\<exists>c s d. settles (events_of i evs) = [(c, s, d, Some (Inr ()))] \<and> disposition s = x)"
    if "i < length rs" for i x
  proof -
    have "claim_contract (pm_envelope (message (claims ! i))) (claims ! i) (events_of i evs) (rs ! i)"
      using batch(2,4) that by (intro relay_claim_contract) simp
    then show ?thesis by (rule claim_contract_settles)
  qed
  have "{i. i < length rs \<and> rs ! i = Inr (Some x)} = settled_claims x (length rs) evs" for x
    unfolding settled_claims_def using settled by (intro Collect_cong conj_cong) simp_all
  then have c: "count_list rs (Inr (Some x)) = card (settled_claims x (length rs) evs)" for x
    by (simp add: count_list_card)
  have "rr_claimed rep = rr_published rep + rr_retried rep + rr_dead_lettered rep + rr_fenced rep"
    using results_partition [OF ok] by (simp only: rep relay_report.select_convs)
  then show ?thesis by (simp only: rep relay_report.select_convs c)
qed simp

subsection \<open>Deadlines stay inside the lease\<close>

fun clock_reads :: "('c, 'r) relay_event list \<Rightarrow> instant list" where
  "clock_reads [] = []"
| "clock_reads (EvNow t # es) = t # clock_reads es"
| "clock_reads (_ # es) = clock_reads es"

text \<open>
  Start and cutoff of every publication and settlement call: the last clock read before it, and
  that plus the time the call was given.
\<close>

fun call_windows :: "instant \<Rightarrow> ('c, 'r) relay_event list \<Rightarrow> (instant \<times> instant) list" where
  "call_windows t [] = []"
| "call_windows t (EvNow t' # es) = call_windows t' es"
| "call_windows t (EvPublish m d a # es) = (t, t + d) # call_windows t es"
| "call_windows t (EvSettle c s d a # es) = (t, t + d) # call_windows t es"
| "call_windows t (_ # es) = call_windows t es"

lemma clock_reads_append [simp]: "clock_reads (xs @ ys) = clock_reads xs @ clock_reads ys"
  by (induction xs rule: clock_reads.induct) simp_all

lemma from_cutoff_pos: "0 < from_cutoff dl now \<longleftrightarrow> now < dl"
  by (auto simp: from_cutoff_def remaining_or_zero_eq)

lemma within_cutoff: "now < dl \<Longrightarrow> now + from_cutoff dl now = dl"
  by (simp add: from_cutoff_def remaining_or_zero_eq)

lemma settle_windows:
  assumes "ends (relay_settle b c ad ps s) es r" and "(u, x) \<in> set (call_windows t es)"
  shows "u < x \<and> x \<le> ad \<and> u \<in> set (clock_reads es)"
  using assms capped_le [of ad] unfolding relay_settle_def
  by (auto simp: relay_failure_def flatten_ok_or from_cutoff_pos within_cutoff elim!: ends_withinE ends_elims
      split: option.splits sum.splits)

lemma publish_windows:
  assumes "ends (relay_publish message b c ad (relay_settle b c ad ps)) es r"
    and "(u, x) \<in> set (call_windows t es)"
  shows "u < x \<and> x \<le> ad \<and> u \<in> set (clock_reads es)"
  using assms(1) unfolding relay_publish_def Let_def
proof (elim ends_elims ends_withinE, goal_cases)
  case (1 n es1 now es2)
  then show ?case
    using assms(2) settle_windows
    by (force simp: deadline_elapsed_publish_outcome_def elim!: ends_elims)
next
  case (2 n es1 now es2 a es3)
  have now: "now < capped ad n (db_publish_timeout b)"
    using 2 by (simp add: from_cutoff_pos)
  then have x: "now + from_cutoff (capped ad n (db_publish_timeout b)) now \<le> ad" "0 < from_cutoff (capped ad n (db_publish_timeout b)) now"
    using within_cutoff [OF now] capped_le [of ad] by (simp_all add: from_cutoff_pos)
  obtain es4 out where es4: "es3 = es4 \<or> (\<exists>ob. es3 = EvEmit ob # es4)"
    and settle: "ends (relay_settle b c ad ps (into_settlement out)) es4 r"
    using 2(5) by (auto elim!: ends_elims split: option.splits)
  then show ?case
    using assms(2) 2(1-4) x settle_windows [OF settle] by fastforce
qed

lemma attempt_windows:
  assumes "ends (relay_attempt message b c t0 rep dr) es r"
  obtains t1 t2 t3 es' where "es = EvNow t1 # EvNow t2 # EvNow t3 # es'"
    and "\<And>u x. (u, x) \<in> set (call_windows t3 es') \<Longrightarrow>
      u < x \<and> x \<le> t3 + (rep - (t1 - t0) - db_safety_margin b) \<and> u \<in> set (clock_reads es')"
  using assms unfolding relay_attempt_def Let_def
proof (elim ends_elims ends_absolute_deadlineE, goal_cases)
  case (1 t1 es1 t2 es2 t3)
  then show ?case by (auto simp: intro: 1(1))
next
  case (2 t1 es1 t2 es2 t3 es3)
  show ?case
  proof (rule 2(1))
    show "es = EvNow t1 # EvNow t2 # EvNow t3 # es3" using 2 by simp
    show "u < x \<and> x \<le> t3 + (rep - (t1 - t0) - db_safety_margin b) \<and> u \<in> set (clock_reads es3)"
      if "(u, x) \<in> set (call_windows t3 es3)" for u x
      using 2(5) settle_windows [OF _ that] publish_windows [OF _ that]
      by (auto split: if_splits)
  qed
qed

text \<open>
  The lease was extended by a call that started at \<open>t0\<close> and reported \<open>rep\<close> remaining; the elapsed
  time was read at \<open>t1\<close> and the attempt deadline set at \<open>t3\<close>.
\<close>

definition extension_at ::
  "'c \<Rightarrow> duration \<Rightarrow> instant \<Rightarrow> instant \<Rightarrow> instant \<Rightarrow> ('c, 'r) relay_event list \<Rightarrow> ('c, 'r) relay_event list \<Rightarrow> bool" where
  "extension_at c rep t0 t1 t3 es after \<longleftrightarrow>
     (\<exists>before tw d dr t2. es = before @ [EvNow t0, EvNow tw, EvExtend c d (Some (Inr (OutboxHeld rep dr))),
        EvNow t1, EvNow t2, EvNow t3] @ after)"

lemma extension_at_prefix: "extension_at c rep t0 t1 t3 es after \<Longrightarrow> extension_at c rep t0 t1 t3 (pre @ es) after"
  unfolding extension_at_def by (metis append_assoc)

lemma extend_windows:
  assumes "ends (relay_extend message b c) es r" and "(u, x) \<in> set (call_windows t es)"
  obtains rep t0 t1 t3 after where "extension_at c rep t0 t1 t3 es after"
    and "u < x" and "x \<le> t3 + (rep - (t1 - t0) - db_safety_margin b)" and "u \<in> set (clock_reads after)"
  using assms(1) unfolding relay_extend_def
proof (elim ends_absolute_deadlineE ends_withinE ends_elims, goal_cases)
  case (1 now)
  then show ?case using assms(2) by simp
next
  case (2 now es1 t0 es2 now2 es3)
  then show ?case using assms(2) by (auto simp: relay_failure_def elim!: ends_elims)
next
  case (3 now es1 t0 es2 now2 es3 a es4)
  show ?case
  proof (cases "\<exists>rep dr. a = Some (Inr (OutboxHeld rep dr))")
    case False
    with 3 assms(2) show ?thesis
      by (auto simp: relay_failure_def flatten_ok_or elim!: ends_elims
          split: option.splits sum.splits outbox_lease_status.splits)
  next
    case True
    then obtain rep dr where a: "a = Some (Inr (OutboxHeld rep dr))" by blast
    with 3 have "ends (relay_attempt message b c t0 rep dr) es4 r" by simp
    then obtain t1 t2 t3 es' where es4: "es4 = EvNow t1 # EvNow t2 # EvNow t3 # es'"
      and w: "\<And>u x. (u, x) \<in> set (call_windows t3 es') \<Longrightarrow>
        u < x \<and> x \<le> t3 + (rep - (t1 - t0) - db_safety_margin b) \<and> u \<in> set (clock_reads es')"
      by (rule attempt_windows) blast
    have "(u, x) \<in> set (call_windows t3 es')" using assms(2) 3(2-6) es4 by simp
    moreover have "es = [EvNow now] @ [EvNow t0, EvNow now2,
        EvExtend c (from_cutoff (now + db_settle_timeout b) now2) (Some (Inr (OutboxHeld rep dr))),
        EvNow t1, EvNow t2, EvNow t3] @ es'"
      using 3(2-6) es4 a by simp
    then have "extension_at c rep t0 t1 t3 es es'" unfolding extension_at_def by blast
    ultimately show ?thesis using w by (intro 3(1)) auto
  qed
qed

lemma claim_windows:
  assumes "ends (relay_claim message b c) es r" and "(u, x) \<in> set (call_windows t es)"
  obtains rep t0 t1 t3 after where "extension_at c rep t0 t1 t3 es after"
    and "u < x" and "x \<le> t3 + (rep - (t1 - t0) - db_safety_margin b)" and "u \<in> set (clock_reads after)"
  using assms(1) unfolding relay_claim_def
proof (elim ends_absolute_deadlineE ends_withinE ends_elims, goal_cases)
  case (1 now)
  then show ?case using assms(2) by simp
next
  case (2 now es1 now2 es2)
  then show ?case using assms(2) by (auto simp: relay_failure_def elim!: ends_elims)
next
  case (3 now es1 now2 es2 a es3)
  show ?case
  proof (cases "\<exists>rep dr. a = Some (Inr (OutboxHeld rep dr))")
    case False
    with 3 assms(2) show ?thesis
      by (auto simp: relay_failure_def flatten_ok_or elim!: ends_elims
          split: option.splits sum.splits outbox_lease_status.splits)
  next
    case True
    with 3 have ext: "ends (relay_extend message b c) es3 r" by auto
    have es: "es = [EvNow now, EvNow now2,
        EvLeaseStatus c (from_cutoff (now + db_settle_timeout b) now2) a] @ es3"
      using 3(2-6) by simp
    have "(u, x) \<in> set (call_windows now2 es3)" using assms(2) es by simp
    with ext obtain rep t0 t1 t3 after where "extension_at c rep t0 t1 t3 es3 after"
      and w: "u < x" "x \<le> t3 + (rep - (t1 - t0) - db_safety_margin b)" "u \<in> set (clock_reads after)"
      by (rule extend_windows)
    then have "extension_at c rep t0 t1 t3 es after" unfolding es by (intro extension_at_prefix)
    from 3(1) [OF this w] show ?thesis .
  qed
qed

lemma windows_inside_lease:
  assumes "ends (relay_claim message b c) es r" and "(u, x) \<in> set (call_windows t es)" and "sorted (clock_reads es)"
  obtains rep t0 t1 t3 after where "extension_at c rep t0 t1 t3 es after"
    and "x + db_safety_margin b \<le> t0 + rep + (t3 - t1)"
proof -
  obtain rep t0 t1 t3 after where e: "extension_at c rep t0 t1 t3 es after"
    and w: "u < x" "x \<le> t3 + (rep - (t1 - t0) - db_safety_margin b)" "u \<in> set (clock_reads after)"
    using claim_windows [OF assms(1,2)] by blast
  have "t3 \<le> u" using e assms(3) w(3) unfolding extension_at_def
    by (auto simp: sorted_append)
  with w(1,2) have "x + db_safety_margin b \<le> t0 + rep + (t3 - t1)" by arith
  with e show thesis by (rule that)
qed

text \<open>
  With a clock that does not run backwards, every publication and settlement call of a claim
  is cut off a safety margin before the lease that the last extension reported, counted from the
  start of that extension, up to the time that passed between the two clock reads that fix the
  attempt deadline.
\<close>

theorem relay_calls_inside_lease:
  assumes "relay_once env message budget schedule limit w = (pre, evs, result, w')"
    and "(u, x) \<in> set (call_windows 0 (events_of i evs))" and "sorted (clock_reads (events_of i evs))"
  shows "\<exists>c rep t0 t1 t3 after. extension_at c rep t0 t1 t3 (events_of i evs) after \<and>
    x + db_safety_margin budget \<le> t0 + rep + (t3 - t1)"
  using assms(1)
proof (cases rule: relay_once_cases)
  case claim_failed
  then show ?thesis using assms(2) by simp
next
  case (batch claims rs)
  have "i < length claims"
  proof (rule ccontr)
    assume "\<not> i < length claims"
    then have "events_of i evs = []" using batch(5) by (auto simp: events_of_def filter_empty_conv)
    with assms(2) show False by simp
  qed
  show ?thesis by (rule windows_inside_lease [OF batch(4) [OF \<open>i < length claims\<close>] assms(2,3)]) blast
qed

subsection \<open>A sample batch\<close>

text \<open>
  Two claims, a clock that advances by 100 ns per read, and a publisher that confirms.
  The world is the clock.
\<close>

definition demo_budget :: delivery_budget where
  "demo_budget = \<lparr>db_lease_ttl = 60000000, db_publish_timeout = 20000000,
     db_settle_timeout = 10000000, db_safety_margin = 5000000\<rparr>"

definition demo_pending :: "nat \<Rightarrow> pending_message" where
  "demo_pending n = \<lparr>pm_envelope = demo_envelope, pm_fingerprint = []\<rparr>"

definition demo_relay_env :: "(nat, unit, nat) relay_env" where
  "demo_relay_env =
     \<lparr>en_now = (\<lambda>w. (w, w + 100)), en_emit = (\<lambda>ob w. w),
      en_claim_heads = (\<lambda>n d w. (Some (Inr [0, 1]), w)),
      en_lease_status = (\<lambda>c d w. (Some (Inr (OutboxHeld 60000000 None)), w)),
      en_extend = (\<lambda>c d w. (Some (Inr (OutboxHeld 60000000 None)), w)),
      en_publish = (\<lambda>m d w. (Some (Confirmed ()), w)),
      en_settle = (\<lambda>c s d w. (Some (Inr ()), w))\<rparr>"

lemmas relay_eval =
  relay_once_def claim_phase_def relay_claim_def relay_extend_def relay_attempt_def relay_publish_def
  relay_settle_def relay_within_def absolute_deadline_def relay_failure_def from_timeout_def
  instant_checked_add_def instant_max_def from_cutoff_def remaining_or_zero_eq capped_def
  shortened_to_def can_start_attempt_def required_budget_def duration_saturating_add_def
  duration_max_def pool_results_def publish_status_def demo_relay_env_def demo_budget_def
  demo_pending_def

definition demo_batch where
  "demo_batch = relay_once demo_relay_env demo_pending demo_budget [1, 0, 1] 2 0"

lemma demo_batch_result:
  "\<exists>pre evs w'. demo_batch = (pre, evs,
     Inr \<lparr>rr_claimed = 2, rr_published = 2, rr_retried = 0, rr_dead_lettered = 0, rr_fenced = 0\<rparr>, w')
     \<and> call_windows 0 (events_of 1 evs) \<noteq> [] \<and> sorted (clock_reads (events_of 1 evs))"
  unfolding demo_batch_def by (simp add: relay_eval relay_summary_eq)

theorem relay_settles_on_evidence_witness:
  "\<exists>pre evs result w'. demo_batch = (pre, evs, result, w') \<and>
    (evs = [] \<or> (\<exists>claims d. EvClaimHeads 2 d (Some (Inr claims)) \<in> set pre \<and>
      (\<forall>(i, e) \<in> set evs. i < length claims \<and>
        (\<exists>r. claim_contract (pm_envelope (demo_pending (claims ! i))) (claims ! i) (events_of i evs) r))))"
  using demo_batch_result relay_settles_on_evidence unfolding demo_batch_def by fast

theorem relay_report_exact_witness:
  "\<exists>pre evs w'. demo_batch = (pre, evs,
      Inr \<lparr>rr_claimed = 2, rr_published = 2, rr_retried = 0, rr_dead_lettered = 0, rr_fenced = 0\<rparr>, w') \<and>
    card (settled_claims OdPublished 2 evs) = 2"
proof -
  obtain pre evs w' where r: "demo_batch = (pre, evs,
     Inr \<lparr>rr_claimed = 2, rr_published = 2, rr_retried = 0, rr_dead_lettered = 0, rr_fenced = 0\<rparr>, w')"
    using demo_batch_result by blast
  from relay_report_exact [OF this [unfolded demo_batch_def]]
  have "card (settled_claims OdPublished 2 evs) = 2" by simp
  with r show ?thesis by blast
qed

theorem relay_calls_inside_lease_witness:
  "\<exists>pre evs result w' u x. demo_batch = (pre, evs, result, w') \<and>
    (u, x) \<in> set (call_windows 0 (events_of 1 evs)) \<and>
    (\<exists>c rep t0 t1 t3 after. extension_at c rep t0 t1 t3 (events_of 1 evs) after \<and>
      x + db_safety_margin demo_budget \<le> t0 + rep + (t3 - t1))"
proof -
  obtain pre evs result w' where r: "demo_batch = (pre, evs, result, w')"
    and n: "call_windows 0 (events_of 1 evs) \<noteq> []" and c: "sorted (clock_reads (events_of 1 evs))"
    using demo_batch_result by blast
  then obtain u x where w: "(u, x) \<in> set (call_windows 0 (events_of 1 evs))"
    by (metis list.set_sel(1) surj_pair)
  note w = w c
  from relay_calls_inside_lease [OF r [unfolded demo_batch_def] w] r w(1) show ?thesis by blast
qed

end
