(* ===== verification/Messaging_Consumer.thy ===== *)
theory Messaging_Consumer
  imports Messaging_Ports
begin

section \<open>The transactional consumer\<close>

text \<open>
  Models \<open>consume_once\<close> and its stages of
  \<^verbatim>\<open>crates/transactional-messaging-runtime/src/consumer.rs\<close>. As for the relay, an \<open>async fn\<close> is a
  tree of requests. \<open>ConsumerChoose\<close> is the executor's choice in a \<open>select!\<close>: which of the two
  flows gets its next answer. The renewal loop is unfolded \<open>fuel\<close> times and then stays pending;
  every finite execution has some number of renewals, and the theorems hold for every \<open>fuel\<close>.
  A request and its answer are one step of a flow: the flow that loses the \<open>select!\<close> is dropped
  between its requests, and a transaction that was issued but dropped before it answered is not
  told apart from one that was not issued. The theorems speak of what was answered.
  Claims have type \<open>'c\<close>, commit proofs type \<open>'p\<close>.
\<close>

subsection \<open>Requests\<close>

datatype processing_disposition =
    ProcInProgress
  | ProcDuplicate terminal_disposition
  | ProcCommitted terminal_disposition
  | ProcRejected envelope_validation_failure
  | ProcFenced
  | ProcDeferred

datatype ('c, 'p, 'a) consumer_task =
    ConsumerDone 'a
  | ConsumerPending
  | ConsumerChoose "bool \<Rightarrow> ('c, 'p, 'a) consumer_task"
  | ConsumerNow "instant \<Rightarrow> ('c, 'p, 'a) consumer_task"
  | ConsumerEmit tm_observation "('c, 'p, 'a) consumer_task"
  | ConsumerSleep deadline "unit reply \<Rightarrow> ('c, 'p, 'a) consumer_task"
  | ConsumerClaimInbox consumer_identity duration
      "(messaging_error + 'c idempotency_disposition) reply \<Rightarrow> ('c, 'p, 'a) consumer_task"
  | ConsumerExtend 'c duration "(messaging_error + lease_status) reply \<Rightarrow> ('c, 'p, 'a) consumer_task"
  | ConsumerExecute 'c message_envelope receipt_intent duration
      "'p transaction_outcome reply \<Rightarrow> ('c, 'p, 'a) consumer_task"
  | ConsumerReleaseClaim 'c duration "(messaging_error + unit) reply \<Rightarrow> ('c, 'p, 'a) consumer_task"
  | ConsumerSettle settlement_kind duration "(messaging_error + unit) reply \<Rightarrow> ('c, 'p, 'a) consumer_task"
  | ConsumerAbandonDelivery duration "(messaging_error + unit) reply \<Rightarrow> ('c, 'p, 'a) consumer_task"

primrec cbind ::
  "('c, 'p, 'a) consumer_task \<Rightarrow> ('a \<Rightarrow> ('c, 'p, 'b) consumer_task) \<Rightarrow> ('c, 'p, 'b) consumer_task" where
  "cbind (ConsumerDone a) f = f a"
| "cbind ConsumerPending f = ConsumerPending"
| "cbind (ConsumerChoose k) f = ConsumerChoose (\<lambda>x. cbind (k x) f)"
| "cbind (ConsumerNow k) f = ConsumerNow (\<lambda>x. cbind (k x) f)"
| "cbind (ConsumerEmit ob t) f = ConsumerEmit ob (cbind t f)"
| "cbind (ConsumerSleep d k) f = ConsumerSleep d (\<lambda>x. cbind (k x) f)"
| "cbind (ConsumerClaimInbox i d k) f = ConsumerClaimInbox i d (\<lambda>x. cbind (k x) f)"
| "cbind (ConsumerExtend c d k) f = ConsumerExtend c d (\<lambda>x. cbind (k x) f)"
| "cbind (ConsumerExecute c m ri d k) f = ConsumerExecute c m ri d (\<lambda>x. cbind (k x) f)"
| "cbind (ConsumerReleaseClaim c d k) f = ConsumerReleaseClaim c d (\<lambda>x. cbind (k x) f)"
| "cbind (ConsumerSettle s d k) f = ConsumerSettle s d (\<lambda>x. cbind (k x) f)"
| "cbind (ConsumerAbandonDelivery d k) f = ConsumerAbandonDelivery d (\<lambda>x. cbind (k x) f)"

text \<open>One answered request of a task, the rest given to \<open>f\<close>.\<close>

definition advance_task ::
  "('c, 'p, 'a) consumer_task \<Rightarrow> (('c, 'p, 'a) consumer_task \<Rightarrow> ('c, 'p, 'b) consumer_task)
     \<Rightarrow> ('c, 'p, 'b) consumer_task" where
  "advance_task t f =
     (case t of
        ConsumerDone a \<Rightarrow> ConsumerPending
      | ConsumerPending \<Rightarrow> ConsumerPending
      | ConsumerChoose k \<Rightarrow> ConsumerChoose (\<lambda>x. f (k x))
      | ConsumerNow k \<Rightarrow> ConsumerNow (\<lambda>x. f (k x))
      | ConsumerEmit ob t' \<Rightarrow> ConsumerEmit ob (f t')
      | ConsumerSleep d k \<Rightarrow> ConsumerSleep d (\<lambda>x. f (k x))
      | ConsumerClaimInbox i d k \<Rightarrow> ConsumerClaimInbox i d (\<lambda>x. f (k x))
      | ConsumerExtend c d k \<Rightarrow> ConsumerExtend c d (\<lambda>x. f (k x))
      | ConsumerExecute c m ri d k \<Rightarrow> ConsumerExecute c m ri d (\<lambda>x. f (k x))
      | ConsumerReleaseClaim c d k \<Rightarrow> ConsumerReleaseClaim c d (\<lambda>x. f (k x))
      | ConsumerSettle s d k \<Rightarrow> ConsumerSettle s d (\<lambda>x. f (k x))
      | ConsumerAbandonDelivery d k \<Rightarrow> ConsumerAbandonDelivery d (\<lambda>x. f (k x)))"

text \<open>The immediate subtasks, the order in which the race below descends.\<close>

primrec subtasks :: "('c, 'p, 'a) consumer_task \<Rightarrow> ('c, 'p, 'a) consumer_task set" where
  "subtasks (ConsumerDone a) = {}"
| "subtasks ConsumerPending = {}"
| "subtasks (ConsumerChoose k) = range k"
| "subtasks (ConsumerNow k) = range k"
| "subtasks (ConsumerEmit ob t) = {t}"
| "subtasks (ConsumerSleep d k) = range k"
| "subtasks (ConsumerClaimInbox i d k) = range k"
| "subtasks (ConsumerExtend c d k) = range k"
| "subtasks (ConsumerExecute c m ri d k) = range k"
| "subtasks (ConsumerReleaseClaim c d k) = range k"
| "subtasks (ConsumerSettle s d k) = range k"
| "subtasks (ConsumerAbandonDelivery d k) = range k"

lemma advance_task_cong [fundef_cong]:
  assumes "t = t'" and "\<And>s. s \<in> subtasks t' \<Longrightarrow> f s = g s"
  shows "advance_task t f = advance_task t' g"
  using assms by (cases t') (auto simp: advance_task_def)

definition subtask_rel :: "(('c, 'p, 'a) consumer_task \<times> ('c, 'p, 'a) consumer_task) set" where
  "subtask_rel = {(s, t). s \<in> subtasks t}"

lemma wf_subtask_rel [simp, intro]:
  "wf (subtask_rel :: (('c, 'p, 'a) consumer_task \<times> ('c, 'p, 'a) consumer_task) set)"
proof (rule wfUNIVI)
  fix P :: "('c, 'p, 'a) consumer_task \<Rightarrow> bool" and t
  assume "\<forall>t. (\<forall>s. (s, t) \<in> subtask_rel \<longrightarrow> P s) \<longrightarrow> P t"
  then have step: "(\<And>s. s \<in> subtasks t \<Longrightarrow> P s) \<Longrightarrow> P t" for t
    by (simp add: subtask_rel_def)
  show "P t" by (induction t) (auto intro: step)
qed

text \<open>
  \<open>tokio::select!\<close> with \<open>biased\<close>: a finished first flow is taken first, and hands the unfinished
  second flow on; while both wait, either may get its next answer.
\<close>

definition result_of :: "('c, 'p, 'a) consumer_task \<Rightarrow> 'a option" where
  "result_of t = (case t of ConsumerDone a \<Rightarrow> Some a | _ \<Rightarrow> None)"

definition is_pending :: "('c, 'p, 'a) consumer_task \<Rightarrow> bool" where
  "is_pending t = (case t of ConsumerPending \<Rightarrow> True | _ \<Rightarrow> False)"

function race ::
  "('c, 'p, 'a) consumer_task \<Rightarrow> ('c, 'p, 'b) consumer_task
     \<Rightarrow> ('a \<Rightarrow> ('c, 'p, 'b) consumer_task \<Rightarrow> ('c, 'p, 'd) consumer_task)
     \<Rightarrow> ('b \<Rightarrow> ('c, 'p, 'd) consumer_task) \<Rightarrow> ('c, 'p, 'd) consumer_task" where
  "race first second on_first on_second =
     (case result_of first of
        Some a \<Rightarrow> on_first a second
      | None \<Rightarrow>
          if is_pending first then cbind second on_second
          else (case result_of second of
                  Some b \<Rightarrow> on_second b
                | None \<Rightarrow>
                    ConsumerChoose (\<lambda>left.
                      if left then advance_task first (\<lambda>rest. race rest second on_first on_second)
                      else advance_task second (\<lambda>rest. race first rest on_first on_second))))"
  by pat_completeness auto
termination
  by (relation "inv_image (subtask_rel <*lex*> subtask_rel) (\<lambda>(first, second, _, _). (first, second))")
    (rule wf_inv_image wf_lex_prod wf_subtask_rel | simp add: subtask_rel_def)+

declare race.simps [simp del]

definition consumer_within ::
  "deadline \<Rightarrow> (duration \<Rightarrow> ('x reply \<Rightarrow> ('c, 'p, 'a) consumer_task) \<Rightarrow> ('c, 'p, 'a) consumer_task)
     \<Rightarrow> (messaging_error + 'x \<Rightarrow> ('c, 'p, 'a) consumer_task) \<Rightarrow> ('c, 'p, 'a) consumer_task" where
  "consumer_within dl start k =
     ConsumerNow (\<lambda>now.
       let operation_deadline = from_cutoff dl now in
       if operation_deadline = 0 then k (Err deadline_elapsed)
       else start operation_deadline (\<lambda>reply. k (ok_or reply deadline_elapsed)))"

definition consumer_failure ::
  "runtime_phase \<Rightarrow> messaging_error \<Rightarrow> ('c, 'p, 'a) consumer_task \<Rightarrow> ('c, 'p, 'a) consumer_task" where
  "consumer_failure phase e t = ConsumerEmit (ObsRuntimeFailure phase e) t"

subsection \<open>Settlement and abandonment\<close>

definition settlement_action :: "settlement_kind \<Rightarrow> obs_disposition" where
  "settlement_action d =
     (case d of Acknowledge \<Rightarrow> ObsAck | Requeue \<Rightarrow> ObsRequeue | Reject \<Rightarrow> ObsReject)"

definition settle_observed ::
  "settlement_kind \<Rightarrow> deadline \<Rightarrow> (messaging_error + unit \<Rightarrow> ('c, 'p, 'a) consumer_task)
     \<Rightarrow> ('c, 'p, 'a) consumer_task" where
  "settle_observed decision dl k =
     consumer_within dl (ConsumerSettle decision) (\<lambda>r.
       let result = flatten r in
       ConsumerEmit
         (ObsConsumerSettlement (settlement_action decision) (if is_ok result then IoOk else IoError))
         (case result of
            Inl e \<Rightarrow> consumer_failure ConsumerSettlement e (k result)
          | Inr _ \<Rightarrow> k result))"

definition abandon_observed ::
  "deadline \<Rightarrow> (messaging_error + unit \<Rightarrow> ('c, 'p, 'a) consumer_task) \<Rightarrow> ('c, 'p, 'a) consumer_task" where
  "abandon_observed dl k =
     consumer_within dl ConsumerAbandonDelivery (\<lambda>r.
       let result = flatten r in
       case result of
         Inl e \<Rightarrow> consumer_failure ConsumerAbandon e (k result)
       | Inr _ \<Rightarrow> k result)"

definition abandon_after_error ::
  "deadline \<Rightarrow> messaging_error \<Rightarrow> (messaging_error \<Rightarrow> ('c, 'p, 'a) consumer_task)
     \<Rightarrow> ('c, 'p, 'a) consumer_task" where
  "abandon_after_error dl primary k = abandon_observed dl (\<lambda>_. k primary)"

text \<open>\<open>step.await?; Ok(disposition)\<close>.\<close>

type_synonym ('c, 'p) delivery_task =
  "('c, 'p, messaging_error + processing_disposition) consumer_task"

definition conclude ::
  "processing_disposition \<Rightarrow> messaging_error + unit \<Rightarrow> ('c, 'p) delivery_task" where
  "conclude d r = ConsumerDone (case r of Inl e \<Rightarrow> Err e | Inr _ \<Rightarrow> Ok d)"

definition fail_delivery :: "messaging_error \<Rightarrow> ('c, 'p) delivery_task" where
  "fail_delivery e = ConsumerDone (Err e)"

definition reject_invalid ::
  "envelope_validation_failure \<Rightarrow> deadline \<Rightarrow> (messaging_error + unit \<Rightarrow> ('c, 'p, 'a) consumer_task)
     \<Rightarrow> ('c, 'p, 'a) consumer_task" where
  "reject_invalid failure dl k =
     ConsumerEmit (ObsConsumerIngressRejected failure)
       (settle_observed (rejection_into_decision failure) dl k)"

definition release_or_abandon ::
  "'c \<Rightarrow> deadline \<Rightarrow> (messaging_error + unit \<Rightarrow> ('c, 'p, 'a) consumer_task) \<Rightarrow> ('c, 'p, 'a) consumer_task" where
  "release_or_abandon claim dl k =
     consumer_within dl (ConsumerReleaseClaim claim) (\<lambda>r.
       case flatten r of
         Inr _ \<Rightarrow> settle_observed decision_requeue dl k
       | Inl e \<Rightarrow>
           ConsumerEmit ObsConsumerReleaseFailed
             (consumer_failure ConsumerRelease e (abandon_after_error dl e (\<lambda>e. k (Err e)))))"

definition finalize_outcome ::
  "'c \<Rightarrow> deadline \<Rightarrow> 'p transaction_outcome \<Rightarrow> ('c, 'p) delivery_task" where
  "finalize_outcome claim dl outcome =
     (case outcome of
        TxCommitted proof receipt \<Rightarrow>
          settle_observed (terminal_into_decision receipt) dl (conclude (ProcCommitted (tr_disposition receipt)))
      | TxNotStarted _ \<Rightarrow> release_or_abandon claim dl (conclude ProcDeferred)
      | TxRolledBack _ \<Rightarrow> release_or_abandon claim dl (conclude ProcDeferred)
      | TxRollbackFailed \<Rightarrow> abandon_observed dl (conclude ProcDeferred)
      | TxCommitUnknown \<Rightarrow> abandon_observed dl (conclude ProcDeferred)
      | TxFenced \<Rightarrow> ConsumerEmit ObsConsumerLeaseLost (abandon_observed dl (conclude ProcFenced)))"

subsection \<open>Renewal and transaction flows\<close>

datatype renewal_exit = RenewalLost

definition validate_renewal_window ::
  "lease_renewal_policy \<Rightarrow> duration \<Rightarrow> (messaging_error + unit \<Rightarrow> ('c, 'p, 'a) consumer_task)
     \<Rightarrow> ('c, 'p, 'a) consumer_task" where
  "validate_renewal_window lease remaining k =
     (if renewal_fits lease remaining then k (Ok ())
      else consumer_failure ConsumerLease MInvariant (k (Err MInvariant)))"

primrec renewal_loop ::
  "nat \<Rightarrow> lease_renewal_policy \<Rightarrow> 'c \<Rightarrow> deadline \<Rightarrow> ('c, 'p, messaging_error + renewal_exit) consumer_task" where
  "renewal_loop 0 lease claim dl = ConsumerPending"
| "renewal_loop (Suc fuel) lease claim dl =
     ConsumerNow (\<lambda>now.
       let wake = capped dl now (lr_interval lease) in
       consumer_within dl (\<lambda>_. ConsumerSleep wake) (\<lambda>slept.
         case slept of
           Inl e \<Rightarrow> ConsumerDone (Err e)
         | Inr _ \<Rightarrow>
             consumer_within dl (ConsumerExtend claim) (\<lambda>r.
               case flatten r of
                 Inr (LeaseHeld remaining) \<Rightarrow>
                   validate_renewal_window lease remaining (\<lambda>v.
                     case v of Inl e \<Rightarrow> ConsumerDone (Err e) | Inr _ \<Rightarrow> renewal_loop fuel lease claim dl)
               | Inr LeaseLost \<Rightarrow> ConsumerDone (Ok RenewalLost)
               | Inl e \<Rightarrow> consumer_failure ConsumerLease e (ConsumerDone (Err e)))))"

text \<open>
  The attempt number stays at most \<open>RETRY_ATTEMPTS_MAX\<close>, so the saturating addition of the source
  is \<open>attempt + 1\<close>.
\<close>

function transaction_loop ::
  "retry_policy \<Rightarrow> 'c \<Rightarrow> message_envelope \<Rightarrow> consumer_binding \<Rightarrow> deadline \<Rightarrow> nat
     \<Rightarrow> ('c, 'p, 'p transaction_outcome) consumer_task" where
  "transaction_loop retry claim message binding dl attempt =
     ConsumerNow (\<lambda>now.
       if remaining_or_zero dl now = 0 then ConsumerDone (TxNotStarted FailInfrastructure)
       else
         consumer_within dl (ConsumerExecute claim message (binding_receipt_intent binding)) (\<lambda>r.
           let outcome = (case r of Inr out \<Rightarrow> out | Inl _ \<Rightarrow> TxCommitUnknown);
               rest =
                 ConsumerEmit (ObsConsumerTransaction (outcome_status outcome))
                   (if \<not> may_retry outcome \<or> \<not> allows_attempt retry (attempt + 1) then ConsumerDone outcome
                    else
                      let delay = delay_after retry attempt in
                      ConsumerNow (\<lambda>now2.
                        if remaining_or_zero dl now2 \<le> delay then ConsumerDone outcome
                        else
                          ConsumerNow (\<lambda>now3.
                            consumer_within dl (\<lambda>_. ConsumerSleep (capped dl now3 delay)) (\<lambda>slept.
                              case slept of
                                Inl _ \<Rightarrow> ConsumerDone outcome
                              | Inr _ \<Rightarrow>
                                  transaction_loop retry claim message binding dl (attempt + 1))))) in
           case r of Inl e \<Rightarrow> consumer_failure ConsumerTransaction e rest | Inr _ \<Rightarrow> rest))"
  by pat_completeness auto
termination
  by (relation "measure (\<lambda>(retry, _, _, _, _, attempt). rp_max_attempts retry - attempt)")
    (auto simp: allows_attempt_def)

declare transaction_loop.simps [simp del]

subsection \<open>One delivery\<close>

record consumer_execution =
  ce_group :: string
  ce_validator :: ingress_validator
  ce_subscription :: subscription_identity
  ce_policy :: consumer_execution_policy

definition process_acquired ::
  "nat \<Rightarrow> lease_renewal_policy \<Rightarrow> consumer_execution \<Rightarrow> message_envelope \<Rightarrow> 'c \<Rightarrow> consumer_binding
     \<Rightarrow> execution_deadlines \<Rightarrow> ('c, 'p) delivery_task" where
  "process_acquired fuel lease execution message claim binding deadlines =
     consumer_within (ed_operation deadlines) (ConsumerExtend claim) (\<lambda>r.
       case flatten r of
         Inr (LeaseHeld remaining) \<Rightarrow>
           validate_renewal_window lease remaining (\<lambda>v.
             case v of
               Inl e \<Rightarrow> abandon_after_error (ed_settlement deadlines) e fail_delivery
             | Inr _ \<Rightarrow>
                 race (renewal_loop fuel lease claim (ed_operation deadlines))
                   (transaction_loop (cp_retry (ce_policy execution)) claim message binding
                     (ed_operation deadlines) 1)
                   (\<lambda>renewed transaction_flow.
                     case renewed of
                       Inl e \<Rightarrow>
                         if e = MDeadlineElapsed
                         then cbind transaction_flow (finalize_outcome claim (ed_settlement deadlines))
                         else abandon_after_error (ed_settlement deadlines) e fail_delivery
                     | Inr RenewalLost \<Rightarrow>
                         ConsumerEmit ObsConsumerLeaseLost
                           (abandon_observed (ed_settlement deadlines) (conclude ProcFenced)))
                   (finalize_outcome claim (ed_settlement deadlines)))
       | Inr LeaseLost \<Rightarrow>
           ConsumerEmit ObsConsumerLeaseLost
             (abandon_observed (ed_settlement deadlines) (conclude ProcFenced))
       | Inl e \<Rightarrow>
           consumer_failure ConsumerLease e
             (abandon_after_error (ed_settlement deadlines) e fail_delivery))"

definition process_claimed ::
  "nat \<Rightarrow> lease_renewal_policy \<Rightarrow> consumer_execution \<Rightarrow> message_envelope \<Rightarrow> consumer_binding
     \<Rightarrow> execution_deadlines \<Rightarrow> 'c idempotency_disposition \<Rightarrow> ('c, 'p) delivery_task" where
  "process_claimed fuel lease execution message binding deadlines claimed =
     (case claimed of
        InProgress \<Rightarrow>
          ConsumerEmit ObsConsumerClaimInProgress
            (settle_observed decision_requeue (ed_settlement deadlines) (conclude ProcInProgress))
      | Terminal receipt \<Rightarrow>
          (case validate_terminal binding receipt of
             Inr terminal \<Rightarrow>
               settle_observed (terminal_into_decision terminal) (ed_settlement deadlines)
                 (conclude (ProcDuplicate (tr_disposition terminal)))
           | Inl failure \<Rightarrow>
               ConsumerEmit (ObsConsumerIngressRejected failure)
                 (settle_observed (rejection_into_decision failure) (ed_settlement deadlines)
                   (conclude (ProcRejected failure))))
      | Acquired claim \<Rightarrow>
          process_acquired fuel lease execution message claim binding deadlines)"

definition consume_once ::
  "(bytes \<Rightarrow> bytes) \<Rightarrow> nat \<Rightarrow> lease_renewal_policy \<Rightarrow> consumer_execution \<Rightarrow> message_envelope
     \<Rightarrow> ('c, 'p) delivery_task" where
  "consume_once sha256 fuel lease execution message =
     ConsumerNow (\<lambda>now.
       case from_budget now (cp_budget (ce_policy execution)) of
         Inl _ \<Rightarrow> consumer_failure ConsumerDeadline MInvariant (fail_delivery MInvariant)
       | Inr deadlines \<Rightarrow>
           (case verify_ingress sha256 (ce_validator execution) (ce_group execution)
                   (ce_subscription execution) message of
              Inl failure \<Rightarrow>
                ConsumerEmit (ObsConsumerIngressRejected failure)
                  (settle_observed (rejection_into_decision failure) (ed_settlement deadlines)
                    (conclude (ProcRejected failure)))
            | Inr binding \<Rightarrow>
                consumer_within (ed_operation deadlines) (ConsumerClaimInbox (bn_identity binding)) (\<lambda>r.
                  case flatten r of
                    Inl e \<Rightarrow>
                      consumer_failure ConsumerClaim e
                        (abandon_after_error (ed_settlement deadlines) e fail_delivery)
                  | Inr claimed \<Rightarrow>
                      process_claimed fuel lease execution message binding deadlines claimed)))"

subsection \<open>Execution\<close>

record ('c, 'p, 'w) consumer_env =
  ec_choose :: "'w \<Rightarrow> bool \<times> 'w"
  ec_now :: "'w \<Rightarrow> instant \<times> 'w"
  ec_emit :: "tm_observation \<Rightarrow> 'w \<Rightarrow> 'w"
  ec_sleep :: "deadline \<Rightarrow> 'w \<Rightarrow> unit reply \<times> 'w"
  ec_claim :: "consumer_identity \<Rightarrow> duration \<Rightarrow> 'w \<Rightarrow> (messaging_error + 'c idempotency_disposition) reply \<times> 'w"
  ec_extend :: "'c \<Rightarrow> duration \<Rightarrow> 'w \<Rightarrow> (messaging_error + lease_status) reply \<times> 'w"
  ec_execute :: "'c \<Rightarrow> message_envelope \<Rightarrow> receipt_intent \<Rightarrow> duration \<Rightarrow> 'w \<Rightarrow> 'p transaction_outcome reply \<times> 'w"
  ec_release :: "'c \<Rightarrow> duration \<Rightarrow> 'w \<Rightarrow> (messaging_error + unit) reply \<times> 'w"
  ec_settle :: "settlement_kind \<Rightarrow> duration \<Rightarrow> 'w \<Rightarrow> (messaging_error + unit) reply \<times> 'w"
  ec_abandon :: "duration \<Rightarrow> 'w \<Rightarrow> (messaging_error + unit) reply \<times> 'w"

datatype ('c, 'p) consumer_event =
    CevChoose bool
  | CevNow instant
  | CevEmit tm_observation
  | CevSleep deadline "unit reply"
  | CevClaim consumer_identity duration "(messaging_error + 'c idempotency_disposition) reply"
  | CevExtend 'c duration "(messaging_error + lease_status) reply"
  | CevExecute 'c message_envelope receipt_intent duration "'p transaction_outcome reply"
  | CevRelease 'c duration "(messaging_error + unit) reply"
  | CevSettle settlement_kind duration "(messaging_error + unit) reply"
  | CevAbandon duration "(messaging_error + unit) reply"

text \<open>The events of a run and its result, \<open>None\<close> if it waits forever.\<close>

primrec consumer_run ::
  "('c, 'p, 'w) consumer_env \<Rightarrow> ('c, 'p, 'a) consumer_task \<Rightarrow> 'w
     \<Rightarrow> ('c, 'p) consumer_event list \<times> 'a option \<times> 'w" where
  "consumer_run env (ConsumerDone a) = (\<lambda>w. ([], Some a, w))"
| "consumer_run env ConsumerPending = (\<lambda>w. ([], None, w))"
| "consumer_run env (ConsumerChoose k) = (\<lambda>w. case ec_choose env w of
     (x, w') \<Rightarrow> apfst ((#) (CevChoose x)) (consumer_run env (k x) w'))"
| "consumer_run env (ConsumerNow k) = (\<lambda>w. case ec_now env w of
     (x, w') \<Rightarrow> apfst ((#) (CevNow x)) (consumer_run env (k x) w'))"
| "consumer_run env (ConsumerEmit ob t) = (\<lambda>w.
     apfst ((#) (CevEmit ob)) (consumer_run env t (ec_emit env ob w)))"
| "consumer_run env (ConsumerSleep d k) = (\<lambda>w. case ec_sleep env d w of
     (x, w') \<Rightarrow> apfst ((#) (CevSleep d x)) (consumer_run env (k x) w'))"
| "consumer_run env (ConsumerClaimInbox i d k) = (\<lambda>w. case ec_claim env i d w of
     (x, w') \<Rightarrow> apfst ((#) (CevClaim i d x)) (consumer_run env (k x) w'))"
| "consumer_run env (ConsumerExtend c d k) = (\<lambda>w. case ec_extend env c d w of
     (x, w') \<Rightarrow> apfst ((#) (CevExtend c d x)) (consumer_run env (k x) w'))"
| "consumer_run env (ConsumerExecute c m ri d k) = (\<lambda>w. case ec_execute env c m ri d w of
     (x, w') \<Rightarrow> apfst ((#) (CevExecute c m ri d x)) (consumer_run env (k x) w'))"
| "consumer_run env (ConsumerReleaseClaim c d k) = (\<lambda>w. case ec_release env c d w of
     (x, w') \<Rightarrow> apfst ((#) (CevRelease c d x)) (consumer_run env (k x) w'))"
| "consumer_run env (ConsumerSettle s d k) = (\<lambda>w. case ec_settle env s d w of
     (x, w') \<Rightarrow> apfst ((#) (CevSettle s d x)) (consumer_run env (k x) w'))"
| "consumer_run env (ConsumerAbandonDelivery d k) = (\<lambda>w. case ec_abandon env d w of
     (x, w') \<Rightarrow> apfst ((#) (CevAbandon d x)) (consumer_run env (k x) w'))"

subsection \<open>The worker\<close>

text \<open>
  \<open>ConsumerWorker::run\<close> as a step function over its control points. Where the source races an
  operation with the cancellation token, the answer \<open>None\<close> means that the token won. The attempt
  counter saturates at \<open>u32::MAX\<close>. A delivery that never returned would leave the worker \<open>Hung\<close>.
\<close>

datatype incoming_delivery = DeliveryValid message_envelope | DeliveryInvalid envelope_validation_failure

record 'w worker_env =
  ew_subscribe :: "'w \<Rightarrow> (messaging_error + unit) option \<times> 'w"
  ew_next :: "'w \<Rightarrow> incoming_delivery option option \<times> 'w"
  ew_cancelled_first :: "'w \<Rightarrow> bool \<times> 'w"
  ew_wait :: "deadline \<Rightarrow> 'w \<Rightarrow> unit option \<times> 'w"

record consumer_worker =
  cw_execution :: consumer_execution
  cw_lease :: lease_renewal_policy
  cw_backoff :: subscription_backoff_policy

datatype worker_phase =
  Subscribing nat | Receiving nat | Recovering nat | Hung | Stopped "messaging_error + unit"

datatype ('c, 'p) worker_item =
    SubscribeItem "messaging_error + unit"
  | DeliveryItem incoming_delivery "('c, 'p) consumer_event list" "messaging_error + unit" bool
  | WaitItem duration
  | StopItem

definition reject_delivery ::
  "consumer_execution \<Rightarrow> envelope_validation_failure \<Rightarrow> ('c, 'p) delivery_task" where
  "reject_delivery execution failure =
     ConsumerNow (\<lambda>now.
       case from_budget now (cp_budget (ce_policy execution)) of
         Inl _ \<Rightarrow> consumer_failure ConsumerDeadline MInvariant (fail_delivery MInvariant)
       | Inr deadlines \<Rightarrow>
           reject_invalid failure (ed_settlement deadlines) (conclude (ProcRejected failure)))"

definition process_delivery ::
  "(bytes \<Rightarrow> bytes) \<Rightarrow> nat \<Rightarrow> consumer_worker \<Rightarrow> incoming_delivery \<Rightarrow> ('c, 'p) delivery_task" where
  "process_delivery sha256 fuel worker delivery =
     (case delivery of
        DeliveryValid m \<Rightarrow> consume_once sha256 fuel (cw_lease worker) (cw_execution worker) m
      | DeliveryInvalid failure \<Rightarrow> reject_delivery (cw_execution worker) failure)"

definition next_attempt :: "nat \<Rightarrow> nat" where
  "next_attempt attempt = (if attempt \<ge> 4294967295 then 4294967295 else attempt + 1)"

definition emit_retry :: "('c, 'p, 'w) consumer_env \<Rightarrow> subscribe_outcome \<Rightarrow> 'w \<Rightarrow> 'w" where
  "emit_retry env reason = ec_emit env (ObsConsumerSubscribeRetry reason)"

definition subscribe_step ::
  "('c, 'p, 'w) consumer_env \<Rightarrow> 'w worker_env \<Rightarrow> nat \<Rightarrow> 'w \<Rightarrow> ('c, 'p) worker_item \<times> worker_phase \<times> 'w" where
  "subscribe_step env wenv attempt w =
     (case ew_subscribe wenv w of
        (None, w') \<Rightarrow> (StopItem, Stopped (Ok ()), w')
      | (Some (Inr u), w') \<Rightarrow> (SubscribeItem (Ok ()), Receiving attempt, w')
      | (Some (Inl e), w') \<Rightarrow>
          let w' = ec_emit env (ObsRuntimeFailure ConsumerSubscribe e) w' in
          if is_recoverable e
          then (SubscribeItem (Err e), Recovering attempt, emit_retry env SubscribeError w')
          else (SubscribeItem (Err e), Stopped (Err e), w'))"

definition consumer_receive_step ::
  "(bytes \<Rightarrow> bytes) \<Rightarrow> nat \<Rightarrow> consumer_worker \<Rightarrow> ('c, 'p, 'w) consumer_env \<Rightarrow> 'w worker_env \<Rightarrow> nat \<Rightarrow> 'w
     \<Rightarrow> ('c, 'p) worker_item \<times> worker_phase \<times> 'w" where
  "consumer_receive_step sha256 fuel worker env wenv attempt w =
     (case ew_next wenv w of
        (None, w') \<Rightarrow> (StopItem, Stopped (Ok ()), w')
      | (Some None, w') \<Rightarrow> (SubscribeItem (Ok ()), Recovering attempt, emit_retry env StreamEnd w')
      | (Some (Some delivery), w') \<Rightarrow>
          (case consumer_run env (process_delivery sha256 fuel worker delivery) w' of
             (es, None, w') \<Rightarrow> (DeliveryItem delivery es (Ok ()) False, Hung, w')
           | (es, Some r, w') \<Rightarrow>
               let result = and_then r (\<lambda>_. Ok ()) in
               (case ew_cancelled_first wenv w' of
                  (cancelled, w') \<Rightarrow>
                    if cancelled then (DeliveryItem delivery es result True, Stopped result, w')
                    else
                      (case result of
                         Inr _ \<Rightarrow> (DeliveryItem delivery es result False, Receiving 1, w')
                       | Inl e \<Rightarrow>
                           if is_recoverable e
                           then (DeliveryItem delivery es result False, Recovering attempt,
                                 emit_retry env DeliveryError w')
                           else (DeliveryItem delivery es result False, Stopped (Err e), w')))))"

definition wait_for_recovery ::
  "consumer_worker \<Rightarrow> ('c, 'p, 'w) consumer_env \<Rightarrow> 'w worker_env \<Rightarrow> nat \<Rightarrow> 'w
     \<Rightarrow> ('c, 'p) worker_item \<times> worker_phase \<times> 'w" where
  "wait_for_recovery worker env wenv attempt w =
     (let delay = subscription_delay_after (cw_backoff worker) attempt in
      case ec_now env w of
        (now, w') \<Rightarrow>
          (case from_timeout now delay of
             Inl _ \<Rightarrow>
               (WaitItem delay, Stopped (Err MInvariant),
                ec_emit env (ObsRuntimeFailure ConsumerDeadline MInvariant) w')
           | Inr deadline \<Rightarrow>
               (case ew_wait wenv deadline w' of
                  (None, w') \<Rightarrow> (StopItem, Stopped (Ok ()), w')
                | (Some _, w') \<Rightarrow> (WaitItem delay, Subscribing (next_attempt attempt), w'))))"

definition worker_step ::
  "(bytes \<Rightarrow> bytes) \<Rightarrow> nat \<Rightarrow> consumer_worker \<Rightarrow> ('c, 'p, 'w) consumer_env \<Rightarrow> 'w worker_env
     \<Rightarrow> worker_phase \<Rightarrow> 'w \<Rightarrow> (('c, 'p) worker_item \<times> worker_phase \<times> 'w) option" where
  "worker_step sha256 fuel worker env wenv phase w =
     (case phase of
        Subscribing attempt \<Rightarrow> Some (subscribe_step env wenv attempt w)
      | Receiving attempt \<Rightarrow> Some (consumer_receive_step sha256 fuel worker env wenv attempt w)
      | Recovering attempt \<Rightarrow> Some (wait_for_recovery worker env wenv attempt w)
      | Hung \<Rightarrow> None
      | Stopped r \<Rightarrow> None)"

text \<open>The first \<open>steps\<close> steps of the worker.\<close>

primrec consumer_worker_run ::
  "nat \<Rightarrow> (bytes \<Rightarrow> bytes) \<Rightarrow> nat \<Rightarrow> consumer_worker \<Rightarrow> ('c, 'p, 'w) consumer_env \<Rightarrow> 'w worker_env
     \<Rightarrow> worker_phase \<Rightarrow> 'w \<Rightarrow> ('c, 'p) worker_item list \<times> worker_phase \<times> 'w" where
  "consumer_worker_run 0 sha256 fuel worker env wenv phase w = ([], phase, w)"
| "consumer_worker_run (Suc steps) sha256 fuel worker env wenv phase w =
     (case worker_step sha256 fuel worker env wenv phase w of
        None \<Rightarrow> ([], phase, w)
      | Some (item, phase', w') \<Rightarrow>
          apfst ((#) item) (consumer_worker_run steps sha256 fuel worker env wenv phase' w'))"

section \<open>Theorems\<close>

subsection \<open>What a run did\<close>

text \<open>
  The log of a delivery: the claim answers, the first lease answer, the transaction attempts, the
  releases, and the final acts on the broker delivery.
\<close>

datatype delivery_final =
    FinalSettle settlement_kind "(messaging_error + unit) reply"
  | FinalAbandon "(messaging_error + unit) reply"

record ('c, 'p) delivery_log =
  lg_claims :: "(consumer_identity \<times> (messaging_error + 'c idempotency_disposition) reply) list"
  lg_lease :: "(messaging_error + lease_status) reply option"
  lg_attempts :: "('c \<times> message_envelope \<times> receipt_intent \<times> 'p transaction_outcome reply) list"
  lg_releases :: "('c \<times> (messaging_error + unit) reply) list"
  lg_finals :: "delivery_final list"

definition empty_log :: "('c, 'p) delivery_log" where
  "empty_log = \<lparr>lg_claims = [], lg_lease = None, lg_attempts = [], lg_releases = [], lg_finals = []\<rparr>"

fun observe :: "('c, 'p) consumer_event \<Rightarrow> ('c, 'p) delivery_log \<Rightarrow> ('c, 'p) delivery_log" where
  "observe (CevClaim i d a) l = l\<lparr>lg_claims := lg_claims l @ [(i, a)]\<rparr>"
| "observe (CevExtend c d a) l = (if lg_lease l = None then l\<lparr>lg_lease := Some a\<rparr> else l)"
| "observe (CevExecute c m ri d a) l = l\<lparr>lg_attempts := lg_attempts l @ [(c, m, ri, a)]\<rparr>"
| "observe (CevRelease c d a) l = l\<lparr>lg_releases := lg_releases l @ [(c, a)]\<rparr>"
| "observe (CevSettle s d a) l = l\<lparr>lg_finals := lg_finals l @ [FinalSettle s a]\<rparr>"
| "observe (CevAbandon d a) l = l\<lparr>lg_finals := lg_finals l @ [FinalAbandon a]\<rparr>"
| "observe _ l = l"

definition delivery_log_of :: "('c, 'p) consumer_event list \<Rightarrow> ('c, 'p) delivery_log" where
  "delivery_log_of es = fold observe es empty_log"

subsection \<open>A total-correctness calculus for tasks\<close>

text \<open>
  \<open>after I t l Q\<close>: whatever the environment answers, \<open>t\<close> started with the log \<open>l\<close> returns, keeps
  \<open>I\<close> at every step, and its result and log satisfy \<open>Q\<close>.
\<close>

primrec after ::
  "(('c, 'p) delivery_log \<Rightarrow> bool) \<Rightarrow> ('c, 'p, 'a) consumer_task \<Rightarrow> ('c, 'p) delivery_log
     \<Rightarrow> ('a \<Rightarrow> ('c, 'p) delivery_log \<Rightarrow> bool) \<Rightarrow> bool" where
  "after I (ConsumerDone a) = (\<lambda>l Q. I l \<and> Q a l)"
| "after I ConsumerPending = (\<lambda>l Q. False)"
| "after I (ConsumerChoose k) = (\<lambda>l Q. I l \<and> (\<forall>x. after I (k x) l Q))"
| "after I (ConsumerNow k) = (\<lambda>l Q. I l \<and> (\<forall>x. after I (k x) l Q))"
| "after I (ConsumerEmit ob t) = (\<lambda>l Q. I l \<and> after I t l Q)"
| "after I (ConsumerSleep d k) = (\<lambda>l Q. I l \<and> (\<forall>x. after I (k x) l Q))"
| "after I (ConsumerClaimInbox i d k) = (\<lambda>l Q. I l \<and> (\<forall>x. after I (k x) (observe (CevClaim i d x) l) Q))"
| "after I (ConsumerExtend c d k) = (\<lambda>l Q. I l \<and> (\<forall>x. after I (k x) (observe (CevExtend c d x) l) Q))"
| "after I (ConsumerExecute c m ri d k) =
     (\<lambda>l Q. I l \<and> (\<forall>x. after I (k x) (observe (CevExecute c m ri d x) l) Q))"
| "after I (ConsumerReleaseClaim c d k) =
     (\<lambda>l Q. I l \<and> (\<forall>x. after I (k x) (observe (CevRelease c d x) l) Q))"
| "after I (ConsumerSettle s d k) = (\<lambda>l Q. I l \<and> (\<forall>x. after I (k x) (observe (CevSettle s d x) l) Q))"
| "after I (ConsumerAbandonDelivery d k) =
     (\<lambda>l Q. I l \<and> (\<forall>x. after I (k x) (observe (CevAbandon d x) l) Q))"

lemma after_run:
  "after I t l Q \<Longrightarrow> consumer_run env t w = (es, r, w') \<Longrightarrow> \<exists>a. r = Some a \<and> Q a (fold observe es l)"
  by (induction t arbitrary: l w es) (fastforce simp: apfst_def map_prod_def split: prod.splits)+

lemma after_mono:
  "after I t l Q \<Longrightarrow> (\<And>a l. Q a l \<Longrightarrow> I l \<Longrightarrow> R a l) \<Longrightarrow> after I t l R"
  by (induction t arbitrary: l) auto

lemma after_inv: "after I t l Q \<Longrightarrow> I l"
  by (cases t) auto

lemma after_weaken: "after I t l Q \<Longrightarrow> (\<And>l. I l \<Longrightarrow> J l) \<Longrightarrow> after J t l Q"
  by (induction t arbitrary: l) auto

lemma after_cbind:
  "after J t l R \<Longrightarrow> (\<And>l. J l \<Longrightarrow> I l) \<Longrightarrow> (\<And>a l. R a l \<Longrightarrow> J l \<Longrightarrow> after I (f a) l Q)
     \<Longrightarrow> after I (cbind t f) l Q"
  by (induction t arbitrary: l) auto

lemma after_within:
  assumes "I l" and "after I (k (Err deadline_elapsed)) l Q"
    and "\<And>d. after I (start d (\<lambda>reply. k (ok_or reply deadline_elapsed))) l Q"
  shows "after I (consumer_within dl start k) l Q"
  using assms by (auto simp: consumer_within_def Let_def)

subsection \<open>The race\<close>

text \<open>A flow that only waits, reports and renews; its results satisfy \<open>P\<close>.\<close>

primrec quiet :: "('a \<Rightarrow> bool) \<Rightarrow> ('c, 'p, 'a) consumer_task \<Rightarrow> bool" where
  "quiet P (ConsumerDone a) = P a"
| "quiet P ConsumerPending = True"
| "quiet P (ConsumerChoose k) = (\<forall>x. quiet P (k x))"
| "quiet P (ConsumerNow k) = (\<forall>x. quiet P (k x))"
| "quiet P (ConsumerEmit ob t) = quiet P t"
| "quiet P (ConsumerSleep d k) = (\<forall>x. quiet P (k x))"
| "quiet P (ConsumerClaimInbox i d k) = False"
| "quiet P (ConsumerExtend c d k) = (\<forall>x. quiet P (k x))"
| "quiet P (ConsumerExecute c m ri d k) = False"
| "quiet P (ConsumerReleaseClaim c d k) = False"
| "quiet P (ConsumerSettle s d k) = False"
| "quiet P (ConsumerAbandonDelivery d k) = False"

lemma quiet_subtask: "quiet P t \<Longrightarrow> s \<in> subtasks t \<Longrightarrow> quiet P s"
  by (cases t) auto

lemma result_of_Some [simp]: "result_of t = Some a \<longleftrightarrow> t = ConsumerDone a"
  by (cases t) (auto simp: result_of_def)

lemma is_pending_iff [simp]: "is_pending t \<longleftrightarrow> t = ConsumerPending"
  by (cases t) (auto simp: is_pending_def)

lemma result_of_None: "result_of t = None \<longleftrightarrow> (\<forall>a. t \<noteq> ConsumerDone a)"
  by (cases t) (auto simp: result_of_def)

text \<open>Answers to the waiting flow leave the log of a leased delivery as it is.\<close>

lemma after_advance_quiet:
  assumes "quiet P t" and "\<forall>a. t \<noteq> ConsumerDone a" and "t \<noteq> ConsumerPending"
    and "I l" and "lg_lease l \<noteq> None" and "\<And>s. s \<in> subtasks t \<Longrightarrow> after I (f s) l Q"
  shows "after I (advance_task t f) l Q"
  using assms by (cases t) (auto simp: advance_task_def)

lemma observe_keeps_lease: "lg_lease l \<noteq> None \<Longrightarrow> lg_lease (observe e l) \<noteq> None"
  by (cases e) auto

lemma after_advance:
  assumes "after J t l R" and "\<forall>a. t \<noteq> ConsumerDone a" and "I l" and "lg_lease l \<noteq> None"
    and "\<And>s l'. s \<in> subtasks t \<Longrightarrow> after J s l' R \<Longrightarrow> lg_lease l' \<noteq> None \<Longrightarrow> after I (f s) l' Q"
  shows "after I (advance_task t f) l Q"
  using assms(1-4) by (cases t) (auto simp: advance_task_def intro!: assms(5))

lemma race_equations:
  "race (ConsumerDone a) t f g = f a t"
  "race ConsumerPending t f g = cbind t g"
  "result_of s = None \<Longrightarrow> s \<noteq> ConsumerPending \<Longrightarrow> race s (ConsumerDone b) f g = g b"
  "result_of s = None \<Longrightarrow> s \<noteq> ConsumerPending \<Longrightarrow> result_of t = None \<Longrightarrow> race s t f g =
     ConsumerChoose (\<lambda>left. if left then advance_task s (\<lambda>rest. race rest t f g)
       else advance_task t (\<lambda>rest. race s rest f g))"
  by (subst race.simps; simp add: result_of_def)+

lemma after_race:
  assumes "quiet P first" and "after J second l R" and "lg_lease l \<noteq> None"
    and "\<And>l. J l \<Longrightarrow> I l"
    and "\<And>a t l'. P a \<Longrightarrow> after J t l' R \<Longrightarrow> lg_lease l' \<noteq> None \<Longrightarrow> after I (on_first a t) l' Q"
    and "\<And>b l'. R b l' \<Longrightarrow> J l' \<Longrightarrow> after I (on_second b) l' Q"
  shows "after I (race first second on_first on_second) l Q"
  using assms
proof (induction first second on_first on_second arbitrary: l rule: race.induct)
  case (1 first second on_first on_second)
  note first = 1(3) and second = 1(4) and lease = 1(5)
  note on_first = 1(7) and on_second = 1(8)
  have I: "I l" using after_inv [OF second] 1(6) by blast
  consider (fst) a where "first = ConsumerDone a" | (pend) "first = ConsumerPending"
    | (snd) b where "result_of first = None" "first \<noteq> ConsumerPending" "second = ConsumerDone b"
    | (both) "result_of first = None" "\<not> is_pending first" "result_of second = None"
    by (metis is_pending_iff not_Some_eq result_of_Some)
  then show ?case
  proof cases
    case fst
    then show ?thesis using first second lease on_first by (simp add: race_equations)
  next
    case pend
    then show ?thesis
      using after_cbind [OF second 1(6) on_second] by (simp add: race_equations)
  next
    case snd
    then show ?thesis using second on_second by (simp add: race_equations)
  next
    case both
    have not_left: "\<not> False" by simp
    have "after I (race s second on_first on_second) l Q" if "s \<in> subtasks first" for s
      by (rule 1(1) [OF both TrueI that quiet_subtask [OF first that] second lease 1(6) on_first on_second])
    then have left: "after I (advance_task first (\<lambda>rest. race rest second on_first on_second)) l Q"
      using both I lease by (intro after_advance_quiet [OF first]) (auto simp: result_of_None)
    have "after I (race first s on_first on_second) l' Q"
      if "s \<in> subtasks second" "after J s l' R" "lg_lease l' \<noteq> None" for s l'
      by (rule 1(2) [OF both not_left that(1) first that(2,3) 1(6) on_first on_second])
    then have right: "after I (advance_task second (\<lambda>rest. race first rest on_first on_second)) l Q"
      using both I lease by (intro after_advance [OF second]) (auto simp: result_of_None)
    show ?thesis using both I left right by (simp add: race_equations)
  qed
qed

subsection \<open>The flows\<close>

lemma quiet_within:
  assumes "quiet P (k (Err deadline_elapsed))"
    and "\<And>d. quiet P (start d (\<lambda>reply. k (ok_or reply deadline_elapsed)))"
  shows "quiet P (consumer_within dl start k)"
  using assms by (simp add: consumer_within_def Let_def)

lemma quiet_renewal: "quiet (\<lambda>_. True) (renewal_loop fuel lease claim dl)"
proof (induction fuel)
  case (Suc fuel)
  then show ?case
    by (auto simp: Let_def consumer_failure_def validate_renewal_window_def intro!: quiet_within
        split: sum.split lease_status.split)
qed simp

text \<open>Outcomes after which no effect of the attempt remains.\<close>

fun definite :: "'p transaction_outcome \<Rightarrow> bool" where
  "definite (TxNotStarted c) = True"
| "definite (TxRolledBack c) = True"
| "definite _ = False"

lemma may_retry_definite: "may_retry out \<Longrightarrow> definite out"
  by (cases out) auto

type_synonym ('c, 'p) attempts = "('c \<times> message_envelope \<times> receipt_intent \<times> 'p transaction_outcome reply) list"

definition attempt_reply ::
  "'c \<times> message_envelope \<times> receipt_intent \<times> 'p transaction_outcome reply \<Rightarrow> 'p transaction_outcome reply" where
  "attempt_reply x = snd (snd (snd x))"

definition attempts_ok ::
  "retry_policy \<Rightarrow> 'c \<Rightarrow> message_envelope \<Rightarrow> receipt_intent \<Rightarrow> ('c, 'p) attempts \<Rightarrow> bool" where
  "attempts_ok retry c m ri xs \<longleftrightarrow>
     length xs \<le> max 1 (rp_max_attempts retry) \<and>
     (\<forall>x \<in> set xs. \<exists>a. x = (c, m, ri, a)) \<and>
     (\<forall>x \<in> set (butlast xs). \<exists>out. attempt_reply x = Some out \<and> may_retry out)"

definition concluded :: "('c, 'p) attempts \<Rightarrow> 'p transaction_outcome \<Rightarrow> bool" where
  "concluded xs out \<longleftrightarrow>
     (case out of
        TxCommitted p rc \<Rightarrow> xs \<noteq> [] \<and> attempt_reply (last xs) = Some out
      | TxNotStarted c \<Rightarrow> (\<forall>x \<in> set xs. \<exists>out. attempt_reply x = Some out \<and> definite out)
      | TxRolledBack c \<Rightarrow> (\<forall>x \<in> set xs. \<exists>out. attempt_reply x = Some out \<and> definite out)
      | _ \<Rightarrow> True)"

definition tx_log ::
  "retry_policy \<Rightarrow> 'c \<Rightarrow> message_envelope \<Rightarrow> receipt_intent \<Rightarrow> ('c, 'p) delivery_log \<Rightarrow> ('c, 'p) delivery_log \<Rightarrow> bool" where
  "tx_log retry c m ri l0 l \<longleftrightarrow> (\<exists>xs. l = l0\<lparr>lg_attempts := xs\<rparr> \<and> attempts_ok retry c m ri xs)"

definition retried :: "'c \<Rightarrow> message_envelope \<Rightarrow> receipt_intent \<Rightarrow> ('c, 'p) attempts \<Rightarrow> bool" where
  "retried c m ri xs \<longleftrightarrow> (\<forall>x \<in> set xs. \<exists>out. x = (c, m, ri, Some out) \<and> may_retry out)"

lemma retried_ok:
  assumes "retried c m ri xs" and "length xs < max 1 (rp_max_attempts retry)"
  shows "attempts_ok retry c m ri (xs @ [(c, m, ri, a)])" and "attempts_ok retry c m ri xs"
  using assms
  by (auto simp: attempts_ok_def retried_def attempt_reply_def dest!: in_set_butlastD)

lemma retried_concluded:
  assumes "retried c m ri xs"
  shows "concluded xs (TxNotStarted k)" and "concluded (xs @ [(c, m, ri, Some out)]) out"
  using assms may_retry_definite
  by (auto simp: concluded_def retried_def attempt_reply_def split: transaction_outcome.split) fastforce+

lemma transaction_flow:
  assumes "lg_attempts l = xs" and "l = l0\<lparr>lg_attempts := xs\<rparr>"
    and "retried c m (binding_receipt_intent b) xs"
    and "length xs + 1 = attempt" and "attempt \<le> max 1 (rp_max_attempts retry)"
  shows "after (tx_log retry c m (binding_receipt_intent b) l0) (transaction_loop retry c m b dl attempt) l
    (\<lambda>out l. concluded (lg_attempts l) out)"
  using assms
proof (induction "rp_max_attempts retry - attempt" arbitrary: attempt l xs rule: less_induct)
  case less
  let ?ri = "binding_receipt_intent b"
  let ?I = "tx_log retry c m ?ri l0"
  let ?Q = "\<lambda>out l. concluded (lg_attempts l) out"
  note ok = retried_ok [OF less(4)] and fin = retried_concluded [OF less(4)]
  have len: "length xs < max 1 (rp_max_attempts retry)" using less by simp
  have I: "?I l" using ok(2) [OF len] less(3) by (auto simp: tx_log_def)
  define logged where "logged a = l\<lparr>lg_attempts := xs @ [(c, m, ?ri, a)]\<rparr>" for a
  have I': "?I (logged a)" for a
    using ok(1) [OF len] less(3) by (auto simp: tx_log_def logged_def)
  have again: "after ?I (transaction_loop retry c m b dl (Suc attempt)) (logged (Some out)) ?Q"
    if "may_retry out" and "allows_attempt retry (Suc attempt)" for out
  proof (rule less(1))
    show "rp_max_attempts retry - Suc attempt < rp_max_attempts retry - attempt"
      "Suc attempt \<le> max 1 (rp_max_attempts retry)"
      using that(2) by (auto simp: allows_attempt_def)
    show "lg_attempts (logged (Some out)) = xs @ [(c, m, ?ri, Some out)]"
      "logged (Some out) = l0\<lparr>lg_attempts := xs @ [(c, m, ?ri, Some out)]\<rparr>"
      "retried c m ?ri (xs @ [(c, m, ?ri, Some out)])"
      "length (xs @ [(c, m, ?ri, Some out)]) + 1 = Suc attempt"
      using less that(1) by (auto simp: logged_def retried_def)
  qed
  have fin': "?Q out (logged (Some out))" "?Q TxCommitUnknown (logged a)" for out a
    using fin(2) by (auto simp: logged_def concluded_def)
  have unknown: "concluded ys TxCommitUnknown" for ys :: "('a, 'b) attempts"
    by (simp add: concluded_def)
  show ?case
    by (subst transaction_loop.simps)
      (use I I' fin fin' unknown again less in
        \<open>auto simp: Let_def consumer_failure_def logged_def intro!: after_within split: sum.split\<close>)
qed

subsection \<open>The contract of a delivery\<close>

text \<open>
  The authority behind each broker decision: rejected ingress, another live owner, a durable
  receipt for exactly this identity and fingerprint, a committed transaction, or a released
  claim whose attempts left no effect.
\<close>

definition decision_authority ::
  "envelope_validation_failure + consumer_binding \<Rightarrow> ('c, 'p) delivery_log \<Rightarrow> settlement_kind \<Rightarrow> bool" where
  "decision_authority ingress l d \<longleftrightarrow>
     (case ingress of
        Inl failure \<Rightarrow> d = Reject
      | Inr b \<Rightarrow> (\<exists>a. lg_claims l = [(bn_identity b, Some (Inr a))] \<and>
          (case a of
             InProgress \<Rightarrow> d = Requeue
           | Terminal rc \<Rightarrow>
               d = (if receipt_matches rc (bn_identity b) (bn_fingerprint b)
                    then settlement_for_disposition (tr_disposition rc) else Reject)
           | Acquired c \<Rightarrow>
               (\<exists>p rc. lg_attempts l \<noteq> [] \<and> attempt_reply (last (lg_attempts l)) = Some (TxCommitted p rc)
                  \<and> d = settlement_for_disposition (tr_disposition rc)) \<or>
               d = Requeue \<and> lg_releases l = [(c, Some (Inr ()))] \<and>
                 (\<forall>x \<in> set (lg_attempts l). \<exists>out. attempt_reply x = Some out \<and> definite out))))"

text \<open>The handler runs only for an acquired claim whose lease outlasts the renewal interval.\<close>

definition attempts_authority ::
  "lease_renewal_policy \<Rightarrow> retry_policy \<Rightarrow> message_envelope \<Rightarrow> envelope_validation_failure + consumer_binding
     \<Rightarrow> ('c, 'p) delivery_log \<Rightarrow> bool" where
  "attempts_authority lease retry m ingress l \<longleftrightarrow>
     lg_attempts l = [] \<or>
     (\<exists>b c remaining. ingress = Inr b \<and> lg_claims l = [(bn_identity b, Some (Inr (Acquired c)))] \<and>
        lg_lease l = Some (Some (Inr (LeaseHeld remaining))) \<and> renewal_fits lease remaining \<and>
        attempts_ok retry c m (binding_receipt_intent b) (lg_attempts l))"

definition final_of :: "processing_disposition \<Rightarrow> delivery_final list \<Rightarrow> bool" where
  "final_of p fs \<longleftrightarrow>
     (case p of
        ProcInProgress \<Rightarrow> fs = [FinalSettle Requeue (Some (Inr ()))]
      | ProcDuplicate d \<Rightarrow> fs = [FinalSettle (settlement_for_disposition d) (Some (Inr ()))]
      | ProcCommitted d \<Rightarrow> fs = [FinalSettle (settlement_for_disposition d) (Some (Inr ()))]
      | ProcRejected f \<Rightarrow> fs = [FinalSettle Reject (Some (Inr ()))]
      | ProcFenced \<Rightarrow> fs = [FinalAbandon (Some (Inr ()))]
      | ProcDeferred \<Rightarrow> fs = [FinalSettle Requeue (Some (Inr ()))] \<or> fs = [FinalAbandon (Some (Inr ()))])"

definition delivery_contract ::
  "lease_renewal_policy \<Rightarrow> retry_policy \<Rightarrow> message_envelope \<Rightarrow> envelope_validation_failure + consumer_binding
     \<Rightarrow> messaging_error + processing_disposition \<Rightarrow> ('c, 'p) delivery_log \<Rightarrow> bool" where
  "delivery_contract lease retry m ingress r l \<longleftrightarrow>
     length (lg_finals l) \<le> 1 \<and>
     (\<forall>d a. FinalSettle d a \<in> set (lg_finals l) \<longrightarrow> decision_authority ingress l d) \<and>
     attempts_authority lease retry m ingress l \<and>
     (\<forall>p. r = Inr p \<longrightarrow> final_of p (lg_finals l))"

abbreviation always :: "('c, 'p) delivery_log \<Rightarrow> bool" where
  "always \<equiv> \<lambda>_. True"

lemma after_settle_conclude:
  assumes "\<And>e. Q (Inl e) l"
    and "\<And>e a. a \<noteq> Some (Inr ()) \<Longrightarrow> Q (Inl e) (l\<lparr>lg_finals := lg_finals l @ [FinalSettle d a]\<rparr>)"
    and "Q (Inr p) (l\<lparr>lg_finals := lg_finals l @ [FinalSettle d (Some (Inr ()))]\<rparr>)"
  shows "after always (settle_observed d dl (conclude p)) l Q"
  using assms
  by (auto simp: settle_observed_def conclude_def Let_def consumer_failure_def flatten_ok_or
      intro!: after_within split: sum.split option.split)

lemma after_abandon:
  assumes "\<And>e. after always (k (Inl e)) l Q"
    and "\<And>e a. a \<noteq> Some (Inr ()) \<Longrightarrow> after always (k (Inl e)) (l\<lparr>lg_finals := lg_finals l @ [FinalAbandon a]\<rparr>) Q"
    and "after always (k (Inr ())) (l\<lparr>lg_finals := lg_finals l @ [FinalAbandon (Some (Inr ()))]\<rparr>) Q"
  shows "after always (abandon_observed dl k) l Q"
  using assms
  by (auto simp: abandon_observed_def Let_def consumer_failure_def flatten_ok_or
      intro!: after_within split: sum.split option.split)

lemma after_abandon_conclude:
  assumes "\<And>e. Q (Inl e) l" and "\<And>e a. Q (Inl e) (l\<lparr>lg_finals := lg_finals l @ [FinalAbandon a]\<rparr>)"
    and "Q (Inr p) (l\<lparr>lg_finals := lg_finals l @ [FinalAbandon (Some (Inr ()))]\<rparr>)"
  shows "after always (abandon_observed dl (conclude p)) l Q"
  using assms by (intro after_abandon) (auto simp: conclude_def)

lemma after_abandon_error:
  assumes "Q (Inl e) l" and "\<And>a. Q (Inl e) (l\<lparr>lg_finals := lg_finals l @ [FinalAbandon a]\<rparr>)"
  shows "after always (abandon_after_error dl e fail_delivery) l Q"
  unfolding abandon_after_error_def
  using assms by (intro after_abandon) (auto simp: fail_delivery_def)

text \<open>Before any final act, an error result or an abandonment needs no authority.\<close>

lemma contract_error:
  assumes "lg_finals l = []" and "attempts_authority lease retry m ingress l"
  shows "delivery_contract lease retry m ingress (Inl e) l"
    and "delivery_contract lease retry m ingress (Inl e) (l\<lparr>lg_finals := lg_finals l @ [FinalAbandon a]\<rparr>)"
    and "final_of p [FinalAbandon (Some (Inr ()))] \<Longrightarrow>
      delivery_contract lease retry m ingress (Inr p) (l\<lparr>lg_finals := lg_finals l @ [FinalAbandon (Some (Inr ()))]\<rparr>)"
  using assms by (auto simp: delivery_contract_def attempts_authority_def)

lemma authority_finals [simp]:
  "decision_authority ingress (l\<lparr>lg_finals := fs\<rparr>) d = decision_authority ingress l d"
  "attempts_authority lease retry m ingress (l\<lparr>lg_finals := fs\<rparr>) = attempts_authority lease retry m ingress l"
  "attempts_authority lease retry m ingress (l\<lparr>lg_releases := rs\<rparr>) = attempts_authority lease retry m ingress l"
  by (simp_all add: decision_authority_def attempts_authority_def
      cong: sum.case_cong idempotency_disposition.case_cong)

lemma contract_settle:
  assumes "lg_finals l = []" and "attempts_authority lease retry m ingress l"
    and "decision_authority ingress l d"
  shows "delivery_contract lease retry m ingress (Inl e) (l\<lparr>lg_finals := lg_finals l @ [FinalSettle d a]\<rparr>)"
    and "final_of p [FinalSettle d (Some (Inr ()))] \<Longrightarrow>
      delivery_contract lease retry m ingress (Inr p) (l\<lparr>lg_finals := lg_finals l @ [FinalSettle d (Some (Inr ()))]\<rparr>)"
  using assms by (auto simp: delivery_contract_def)

lemma settle_concludes:
  assumes "lg_finals l = []" and "attempts_authority lease retry m ingress l"
    and "decision_authority ingress l d" and "final_of p [FinalSettle d (Some (Inr ()))]"
  shows "after always (settle_observed d dl (conclude p)) l (delivery_contract lease retry m ingress)"
  using contract_error [OF assms(1,2)] contract_settle [OF assms(1,2,3)] assms(4)
  by (intro after_settle_conclude) auto

lemma abandon_concludes:
  assumes "lg_finals l = []" and "attempts_authority lease retry m ingress l"
    and "final_of p [FinalAbandon (Some (Inr ()))]"
  shows "after always (abandon_observed dl (conclude p)) l (delivery_contract lease retry m ingress)"
  using contract_error [OF assms(1,2)] assms(3) by (intro after_abandon_conclude) auto

lemma conclude_error: "(\<lambda>e. conclude p (Inl e)) = fail_delivery"
  by (simp add: fun_eq_iff conclude_def fail_delivery_def)

lemma error_concludes:
  assumes "lg_finals l = []" and "attempts_authority lease retry m ingress l"
  shows "after always (abandon_after_error dl e fail_delivery) l (delivery_contract lease retry m ingress)"
  using contract_error [OF assms] by (intro after_abandon_error) auto

text \<open>The log of an acquired delivery whose lease has been checked.\<close>

definition acquired_log ::
  "lease_renewal_policy \<Rightarrow> consumer_binding \<Rightarrow> 'c \<Rightarrow> ('c, 'p) delivery_log \<Rightarrow> bool" where
  "acquired_log lease b c l \<longleftrightarrow>
     lg_claims l = [(bn_identity b, Some (Inr (Acquired c)))] \<and> lg_releases l = [] \<and> lg_finals l = [] \<and>
     (\<exists>remaining. lg_lease l = Some (Some (Inr (LeaseHeld remaining))) \<and> renewal_fits lease remaining)"

lemma acquired_authority:
  assumes "acquired_log lease b c l" and "attempts_ok retry c m (binding_receipt_intent b) (lg_attempts l)"
  shows "attempts_authority lease retry m (Inr b) l"
  using assms by (auto simp: acquired_log_def attempts_authority_def)

lemma release_concludes:
  assumes "acquired_log lease b c l" and "attempts_ok retry c m (binding_receipt_intent b) (lg_attempts l)"
    and "\<forall>x \<in> set (lg_attempts l). \<exists>out. attempt_reply x = Some out \<and> definite out"
  shows "after always (release_or_abandon c dl (conclude ProcDeferred)) l (delivery_contract lease retry m (Inr b))"
proof -
  have fs: "lg_finals l = []" using assms(1) by (simp add: acquired_log_def)
  note auth = acquired_authority [OF assms(1,2)]
  let ?l = "\<lambda>a. l\<lparr>lg_releases := lg_releases l @ [(c, a)]\<rparr>"
  have err: "after always (abandon_after_error dl e (\<lambda>e. conclude ProcDeferred (Err e))) l'
      (delivery_contract lease retry m (Inr b))"
    if "lg_finals l' = []" "attempts_authority lease retry m (Inr b) l'" for e l'
    unfolding conclude_error by (rule error_concludes [OF that])
  have "after always (settle_observed decision_requeue dl (conclude ProcDeferred)) (?l (Some (Inr ())))
      (delivery_contract lease retry m (Inr b))"
    using fs auth assms
    by (intro settle_concludes)
      (auto simp: decision_authority_def decision_requeue_def acquired_log_def final_of_def)
  then show ?thesis
    unfolding release_or_abandon_def
    using fs auth
    by (intro after_within)
      (auto simp: flatten_ok_or consumer_failure_def intro!: err split: option.split sum.split)
qed

lemma finalize_concludes:
  assumes "acquired_log lease b c l" and "attempts_ok retry c m (binding_receipt_intent b) (lg_attempts l)"
    and "concluded (lg_attempts l) out"
  shows "after always (finalize_outcome c dl out) l (delivery_contract lease retry m (Inr b))"
proof -
  have fs: "lg_finals l = []" using assms(1) by (simp add: acquired_log_def)
  note auth = acquired_authority [OF assms(1,2)]
  show ?thesis
  proof (cases out)
    case (TxCommitted p rc)
    then have "decision_authority (Inr b) l (terminal_into_decision rc)"
      using assms(1,3)
      by (auto simp: decision_authority_def acquired_log_def concluded_def terminal_into_decision_def)
    then show ?thesis
      using fs auth TxCommitted
      by (auto simp: finalize_outcome_def final_of_def terminal_into_decision_def intro!: settle_concludes)
  next
    case (TxNotStarted k)
    then show ?thesis using assms release_concludes [OF assms(1,2)]
      by (simp add: finalize_outcome_def concluded_def)
  next
    case (TxRolledBack k)
    then show ?thesis using assms release_concludes [OF assms(1,2)]
      by (simp add: finalize_outcome_def concluded_def)
  qed (use fs auth in \<open>auto simp: finalize_outcome_def final_of_def intro!: abandon_concludes\<close>)
qed

lemma race_concludes:
  assumes "acquired_log lease b c l" and "lg_attempts l = []"
  shows "after always
    (race (renewal_loop fuel lease c op) (transaction_loop retry c m b op 1)
       (\<lambda>renewed flow.
         case renewed of
           Inl e \<Rightarrow> if e = MDeadlineElapsed then cbind flow (finalize_outcome c dl)
                    else abandon_after_error dl e fail_delivery
         | Inr RenewalLost \<Rightarrow> ConsumerEmit ObsConsumerLeaseLost (abandon_observed dl (conclude ProcFenced)))
       (finalize_outcome c dl)) l (delivery_contract lease retry m (Inr b))"
proof -
  let ?J = "tx_log retry c m (binding_receipt_intent b) l"
  let ?R = "\<lambda>out l. concluded (lg_attempts l) out"
  let ?Q = "delivery_contract lease retry m (Inr b)"
  have l: "l = l\<lparr>lg_attempts := []\<rparr>" using assms(2) by simp
  have flow: "after ?J (transaction_loop retry c m b op 1) l ?R"
    using transaction_flow [OF assms(2) l] by (simp add: retried_def)
  have J: "acquired_log lease b c l' \<and> attempts_ok retry c m (binding_receipt_intent b) (lg_attempts l')"
    if "?J l'" for l'
    using that assms(1) by (auto simp: tx_log_def acquired_log_def)
  have fin: "after always (finalize_outcome c dl out) l' ?Q" if "?R out l'" "?J l'" for out l'
    using J [OF that(2)] that(1) by (intro finalize_concludes) auto
  have fenced: "lg_finals l' = [] \<and> attempts_authority lease retry m (Inr b) l'" if "?J l'" for l'
    using J [OF that] acquired_authority [of lease b c l' retry m] by (simp add: acquired_log_def)
  show ?thesis
  proof (rule after_race [OF quiet_renewal flow])
    show "lg_lease l \<noteq> None" using assms(1) by (auto simp: acquired_log_def)
  next
    fix renewed :: "messaging_error + renewal_exit" and t l'
    assume t: "after ?J t l' ?R" and "lg_lease l' \<noteq> None"
    note inv = fenced [OF after_inv [OF t]]
    show "after always (case renewed of
           Inl e \<Rightarrow> if e = MDeadlineElapsed then cbind t (finalize_outcome c dl)
                    else abandon_after_error dl e fail_delivery
         | Inr RenewalLost \<Rightarrow> ConsumerEmit ObsConsumerLeaseLost (abandon_observed dl (conclude ProcFenced))) l' ?Q"
      using inv after_cbind [OF t, of always "finalize_outcome c dl" ?Q] fin
      by (auto simp: final_of_def intro!: error_concludes abandon_concludes
          split: sum.split renewal_exit.split)
  qed (use fin in auto)
qed

lemma acquired_concludes:
  assumes "lg_claims l = [(bn_identity b, Some (Inr (Acquired c)))]" and "lg_lease l = None"
    and "lg_attempts l = []" and "lg_releases l = []" and "lg_finals l = []"
  shows "after always (process_acquired fuel lease execution m c b deadlines) l
    (delivery_contract lease (cp_retry (ce_policy execution)) m (Inr b))"
proof -
  let ?Q = "delivery_contract lease (cp_retry (ce_policy execution)) m (Inr b)"
  have none: "lg_finals l' = [] \<and> attempts_authority lease (cp_retry (ce_policy execution)) m (Inr b) l'"
    if "l' = l\<lparr>lg_lease := x\<rparr>" for l' x
    using assms that by (simp add: attempts_authority_def)
  have race: "after always
    (race (renewal_loop fuel lease c (ed_operation deadlines))
       (transaction_loop (cp_retry (ce_policy execution)) c m b (ed_operation deadlines) 1)
       (\<lambda>renewed flow.
         case renewed of
           Inl e \<Rightarrow> if e = MDeadlineElapsed then cbind flow (finalize_outcome c (ed_settlement deadlines))
                    else abandon_after_error (ed_settlement deadlines) e fail_delivery
         | Inr RenewalLost \<Rightarrow>
             ConsumerEmit ObsConsumerLeaseLost (abandon_observed (ed_settlement deadlines) (conclude ProcFenced)))
       (finalize_outcome c (ed_settlement deadlines)))
     (l\<lparr>lg_lease := Some (Some (Inr (LeaseHeld rem)))\<rparr>) ?Q" if "renewal_fits lease rem" for rem
    using assms that by (intro race_concludes) (auto simp: acquired_log_def)
  have l: "l = l\<lparr>lg_lease := None\<rparr>" using assms(2) by simp
  show ?thesis
    unfolding process_acquired_def
    using none [OF l] none [OF refl] race assms(2)
    by (intro after_within)
      (auto simp: flatten_ok_or consumer_failure_def validate_renewal_window_def final_of_def
        intro!: error_concludes abandon_concludes split: option.split sum.split lease_status.split)
qed

lemma claimed_concludes:
  assumes "l = empty_log\<lparr>lg_claims := [(bn_identity b, Some (Inr claimed))]\<rparr>"
  shows "after always (process_claimed fuel lease execution m b deadlines claimed) l
    (delivery_contract lease (cp_retry (ce_policy execution)) m (Inr b))"
proof -
  have auth: "attempts_authority lease (cp_retry (ce_policy execution)) m (Inr b) l" and fs: "lg_finals l = []"
    using assms by (simp_all add: attempts_authority_def empty_log_def)
  show ?thesis
  proof (cases claimed)
    case (Acquired c)
    then show ?thesis using assms
      by (auto simp: process_claimed_def empty_log_def intro!: acquired_concludes)
  next
    case InProgress
    then show ?thesis using assms auth fs
      by (auto simp: process_claimed_def decision_authority_def decision_requeue_def final_of_def
          intro!: settle_concludes)
  next
    case (Terminal rc)
    then show ?thesis using assms auth fs
      by (auto simp: process_claimed_def decision_authority_def validate_terminal_def final_of_def
          terminal_into_decision_def rejection_into_decision_def intro!: settle_concludes)
  qed
qed

lemma fresh_log [simp]:
  "lg_claims empty_log = []" "lg_lease empty_log = None" "lg_attempts empty_log = []"
  "lg_releases empty_log = []" "lg_finals empty_log = []"
  by (simp_all add: empty_log_def)

lemma no_attempts_authority [simp, intro]:
  "lg_attempts l = [] \<Longrightarrow> attempts_authority lease retry m ingress l"
  by (simp add: attempts_authority_def)

lemma rejection_concludes:
  "after always
     (settle_observed (rejection_into_decision failure) dl (conclude (ProcRejected failure)))
     empty_log (delivery_contract lease retry m (Inl failure))"
  by (rule settle_concludes)
    (auto simp: decision_authority_def rejection_into_decision_def final_of_def)

lemma consume_concludes:
  "after always (consume_once sha256 fuel lease execution m) empty_log
     (delivery_contract lease (cp_retry (ce_policy execution)) m
       (verify_ingress sha256 (ce_validator execution) (ce_group execution) (ce_subscription execution) m))"
  unfolding consume_once_def
  by (auto simp: consumer_failure_def fail_delivery_def flatten_ok_or
      intro!: after_within error_concludes rejection_concludes claimed_concludes contract_error
      split: sum.split option.split)

text \<open>
  C37. Processing one delivery always returns, whatever the providers, the clock and the executor
  answer, and its trace meets the delivery contract: at most one settlement or abandonment; a
  settlement only on the authority of the ingress verdict, the inbox disposition, a committed
  transaction, or a released claim whose attempts left no effect; the handler transaction only
  under an acquired claim with a sufficient lease, with the receipt intent of this delivery, at
  most \<open>max_attempts\<close> times, and again only after an outcome that may be retried; and a reported
  disposition only when the broker confirmed the matching final act.
\<close>

theorem consume_once_contract:
  assumes "consumer_run env (consume_once sha256 fuel lease execution m) w = (es, r, w')"
  shows "\<exists>a. r = Some a \<and>
    delivery_contract lease (cp_retry (ce_policy execution)) m
      (verify_ingress sha256 (ce_validator execution) (ce_group execution) (ce_subscription execution) m)
      a (delivery_log_of es)"
  unfolding delivery_log_of_def by (rule after_run [OF consume_concludes assms])

subsection \<open>The worker\<close>

text \<open>A delivery the transport could not decode is rejected, and nothing else is done with it.\<close>

definition reject_contract ::
  "messaging_error + processing_disposition \<Rightarrow> ('c, 'p) delivery_log \<Rightarrow> bool" where
  "reject_contract a l \<longleftrightarrow>
     l = empty_log\<lparr>lg_finals := lg_finals l\<rparr> \<and>
     (lg_finals l = [] \<or> (\<exists>reply. lg_finals l = [FinalSettle Reject reply])) \<and>
     (\<forall>p. a = Inr p \<longrightarrow> lg_finals l = [FinalSettle Reject (Some (Inr ()))])"

definition item_contract ::
  "(bytes \<Rightarrow> bytes) \<Rightarrow> consumer_worker \<Rightarrow> ('c, 'p) worker_item \<Rightarrow> bool" where
  "item_contract sha256 worker item \<longleftrightarrow>
     (case item of
        DeliveryItem delivery es r cancelled \<Rightarrow>
          (\<exists>a. and_then a (\<lambda>_. Ok ()) = r \<and>
             (case delivery of
                DeliveryValid m \<Rightarrow>
                  delivery_contract (cw_lease worker) (cp_retry (ce_policy (cw_execution worker))) m
                    (verify_ingress sha256 (ce_validator (cw_execution worker))
                      (ce_group (cw_execution worker)) (ce_subscription (cw_execution worker)) m)
                    a (delivery_log_of es)
              | DeliveryInvalid f \<Rightarrow> reject_contract a (delivery_log_of es)))
      | WaitItem d \<Rightarrow> sb_base (cw_backoff worker) \<le> d \<and> d \<le> sb_cap (cw_backoff worker)
      | _ \<Rightarrow> True)"

text \<open>Why a worker may have stopped: cancelled, failed for good, or its clock overflowed.\<close>

definition stop_reason :: "('c, 'p) worker_item \<Rightarrow> messaging_error + unit \<Rightarrow> bool" where
  "stop_reason item r \<longleftrightarrow>
     (case item of
        StopItem \<Rightarrow> r = Ok ()
      | SubscribeItem s \<Rightarrow> (\<exists>e. s = Err e \<and> r = Err e \<and> \<not> is_recoverable e)
      | DeliveryItem d es s cancelled \<Rightarrow> r = s \<and> (cancelled \<or> (\<exists>e. s = Err e \<and> \<not> is_recoverable e))
      | WaitItem d \<Rightarrow> r = Err MInvariant)"

lemma reject_delivery_after: "after always (reject_delivery execution f) empty_log reject_contract"
  unfolding reject_delivery_def reject_invalid_def
  by (auto simp: consumer_failure_def fail_delivery_def rejection_into_decision_def reject_contract_def
      empty_log_def intro!: after_settle_conclude split: sum.split)

lemma process_delivery_run:
  assumes "consumer_run env (process_delivery sha256 fuel worker d) w = (es, r, w')"
  shows "\<exists>a. r = Some a \<and> (\<forall>c. item_contract sha256 worker (DeliveryItem d es (and_then a (\<lambda>_. Ok ())) c))"
proof (cases d)
  case (DeliveryValid m)
  with assms have "consumer_run env
      (consume_once sha256 fuel (cw_lease worker) (cw_execution worker) m) w = (es, r, w')"
    by (simp add: process_delivery_def)
  from after_run [OF consume_concludes this] DeliveryValid show ?thesis
    by (auto simp: item_contract_def delivery_log_of_def)
next
  case (DeliveryInvalid f)
  with assms have "consumer_run env (reject_delivery (cw_execution worker) f) w = (es, r, w')"
    by (simp add: process_delivery_def)
  from after_run [OF reject_delivery_after this] DeliveryInvalid show ?thesis
    by (auto simp: item_contract_def delivery_log_of_def)
qed

lemma item_contract_simps [simp]:
  "item_contract sha256 worker StopItem" "item_contract sha256 worker (SubscribeItem r)"
  "item_contract sha256 worker (WaitItem d) \<longleftrightarrow>
     sb_base (cw_backoff worker) \<le> d \<and> d \<le> sb_cap (cw_backoff worker)"
  by (simp_all add: item_contract_def)

lemma stopped_run [simp]:
  "consumer_worker_run steps sha256 fuel worker env wenv (Stopped r) w = ([], Stopped r, w)"
  by (cases steps) (simp_all add: worker_step_def)

lemma backoff_bounds:
  assumes "subscription_backoff_new base cap = Inr p" and "cap \<le> duration_max"
  shows "sb_base p \<le> subscription_delay_after p n \<and> subscription_delay_after p n \<le> sb_cap p"
  using subscription_delay_closed [OF assms] assms(1)
  by (auto simp: subscription_backoff_new_def split: if_splits)

lemma worker_step_contract:
  assumes "subscription_backoff_new base cap = Inr (cw_backoff worker)" and "cap \<le> duration_max"
    and "worker_step sha256 fuel worker env wenv phase w = Some (item, phase', w')"
  shows "item_contract sha256 worker item \<and> phase' \<noteq> Hung \<and> (\<forall>r. phase' = Stopped r \<longrightarrow> stop_reason item r)"
proof (cases phase)
  case (Subscribing n)
  then show ?thesis using assms(3)
    by (auto simp: worker_step_def subscribe_step_def stop_reason_def Let_def
        split: prod.splits option.splits sum.splits if_splits)
next
  case (Receiving n)
  then show ?thesis using assms(3)
    by (auto simp: worker_step_def consumer_receive_step_def stop_reason_def Let_def
        split: prod.splits option.splits sum.splits if_splits dest!: process_delivery_run)
next
  case (Recovering n)
  then show ?thesis using assms(3) backoff_bounds [OF assms(1,2)]
    by (auto simp: worker_step_def wait_for_recovery_def stop_reason_def Let_def
        split: prod.splits option.splits sum.splits)
qed (use assms(3) in \<open>simp_all add: worker_step_def\<close>)

text \<open>
  However long the worker runs, every delivery it took satisfied the delivery contract (an
  undecodable one was only rejected), every recovery pause stayed between the base and the cap of
  the backoff policy, it never hangs in a delivery, and it stops only when cancelled, on an error
  that is not recoverable, or when the recovery deadline overflows the clock.
\<close>

theorem consumer_worker_contract:
  assumes "subscription_backoff_new base cap = Inr (cw_backoff worker)" and "cap \<le> duration_max"
    and "consumer_worker_run steps sha256 fuel worker env wenv (Subscribing 1) w = (items, phase, w')"
  shows "list_all (item_contract sha256 worker) items \<and> phase \<noteq> Hung \<and>
    (\<forall>r. phase = Stopped r \<longrightarrow> items \<noteq> [] \<and> stop_reason (last items) r)"
proof -
  have "list_all (item_contract sha256 worker) items \<and> phase' \<noteq> Hung \<and>
      (\<forall>r. phase' = Stopped r \<longrightarrow> phase = Stopped r \<or> items \<noteq> [] \<and> stop_reason (last items) r)"
    if "consumer_worker_run steps sha256 fuel worker env wenv phase w = (items, phase', w')" "phase \<noteq> Hung"
    for phase phase' items w
    using that
  proof (induction steps arbitrary: phase w items)
    case (Suc steps)
    show ?case
    proof (cases "worker_step sha256 fuel worker env wenv phase w")
      case None
      then show ?thesis using Suc.prems by auto
    next
      case (Some x)
      obtain item mid w1 where x: "x = (item, mid, w1)" by (cases x)
      note step = worker_step_contract [OF assms(1,2) Some [unfolded x]]
      obtain items' where items: "items = item # items'"
        and run: "consumer_worker_run steps sha256 fuel worker env wenv mid w1 = (items', phase', w')"
        using Suc.prems(1) Some x by (auto simp: apfst_def map_prod_def split: prod.splits)
      show ?thesis
      proof (cases "\<exists>r. mid = Stopped r")
        case True
        then show ?thesis using run step items by auto
      next
        case False
        then show ?thesis using Suc.IH [OF run] step items by auto
      qed
    qed
  qed simp
  from this [OF assms(3)] show ?thesis by auto
qed

subsection \<open>A sample delivery\<close>

text \<open>
  A clock that advances by 100 ns per read is the world; the inbox grants the claim, the handler
  transaction rolls back once and then commits, and the broker confirms.
\<close>

definition demo_execution :: consumer_execution where
  "demo_execution =
     \<lparr>ce_group = ''billing'',
      ce_validator = (\<lambda>s m. Ok (challenge_verified (\<lambda>_. []) s m)),
      ce_subscription = \<lparr>sub_domain = ''d'', sub_route = ''r'', sub_contract = mm_contract demo_metadata\<rparr>,
      ce_policy = \<lparr>cp_retry = \<lparr>rp_max_attempts = 3, rp_base = 1000, rp_cap = 4000\<rparr>,
        cp_budget = \<lparr>xb_total = 1000000, xb_settlement_reserve = 100000\<rparr>\<rparr>\<rparr>"

definition demo_lease :: lease_renewal_policy where
  "demo_lease = \<lparr>lr_ttl = 3000000, lr_interval = 1000000\<rparr>"

definition demo_consumer_env :: "(nat, unit, nat) consumer_env" where
  "demo_consumer_env =
     \<lparr>ec_choose = (\<lambda>w. (False, w)), ec_now = (\<lambda>w. (w, w + 100)), ec_emit = (\<lambda>ob w. w),
      ec_sleep = (\<lambda>d w. (Some (), w + 1000)),
      ec_claim = (\<lambda>i d w. (Some (Inr (Acquired 7)), w)),
      ec_extend = (\<lambda>c d w. (Some (Inr (LeaseHeld 3000000)), w)),
      ec_execute = (\<lambda>c m ri d w. (Some (if w < 1000 then TxRolledBack FailTransient
         else intent_committed ri () Succeeded), w)),
      ec_release = (\<lambda>c d w. (Some (Inr ()), w)),
      ec_settle = (\<lambda>s d w. (Some (Inr ()), w)),
      ec_abandon = (\<lambda>d w. (Some (Inr ()), w))\<rparr>"

lemmas consumer_eval =
  consume_once_def process_claimed_def process_acquired_def consumer_within_def consumer_failure_def
  settle_observed_def finalize_outcome_def conclude_def validate_renewal_window_def renewal_fits_def
  from_budget_def instant_checked_add_def instant_max_def from_cutoff_def remaining_or_zero_eq
  capped_def shortened_to_def challenge_verified_def verify_ingress_def intent_committed_def
  flatten_simps race_equations advance_task_def result_of_def allows_attempt_def delay_after_def
  demo_execution_def demo_lease_def demo_consumer_env_def

lemma demo_delivery:
  "\<exists>es w'. consumer_run demo_consumer_env
     (consume_once (\<lambda>_. []) 1 demo_lease demo_execution demo_envelope) 0
     = (es, Some (Inr (ProcCommitted Succeeded)), w') \<and> length (lg_attempts (delivery_log_of es)) = 2"
  by (simp add: consumer_eval transaction_loop.simps delivery_log_of_def Let_def)

theorem consume_once_contract_witness:
  "\<exists>es w'. consumer_run demo_consumer_env
     (consume_once (\<lambda>_. []) 1 demo_lease demo_execution demo_envelope) 0
     = (es, Some (Inr (ProcCommitted Succeeded)), w') \<and> length (lg_attempts (delivery_log_of es)) = 2 \<and>
     delivery_contract demo_lease (cp_retry (ce_policy demo_execution)) demo_envelope
       (verify_ingress (\<lambda>_. []) (ce_validator demo_execution) (ce_group demo_execution)
         (ce_subscription demo_execution) demo_envelope)
       (Inr (ProcCommitted Succeeded)) (delivery_log_of es)"
proof -
  obtain es w' where run: "consumer_run demo_consumer_env
      (consume_once (\<lambda>_. []) 1 demo_lease demo_execution demo_envelope) 0
      = (es, Some (Inr (ProcCommitted Succeeded)), w')"
    and two: "length (lg_attempts (delivery_log_of es)) = 2"
    using demo_delivery by blast
  from consume_once_contract [OF run] run two show ?thesis by auto
qed

definition demo_worker :: consumer_worker where
  "demo_worker = \<lparr>cw_execution = demo_execution, cw_lease = demo_lease, cw_backoff = backoff_standard\<rparr>"

definition demo_worker_env :: "nat worker_env" where
  "demo_worker_env =
     \<lparr>ew_subscribe = (\<lambda>w. (Some (Inr ()), w)),
      ew_next = (\<lambda>w. (if w = 0 then Some (Some (DeliveryValid demo_envelope)) else None, w)),
      ew_cancelled_first = (\<lambda>w. (False, w)), ew_wait = (\<lambda>d w. (Some (), d))\<rparr>"

theorem consumer_worker_contract_witness:
  "\<exists>s es r w'. consumer_worker_run 3 (\<lambda>_. []) 1 demo_worker demo_consumer_env demo_worker_env (Subscribing 1) 0
     = ([s, DeliveryItem (DeliveryValid demo_envelope) es (Ok ()) False, StopItem], Stopped (Ok ()), w') \<and>
     item_contract (\<lambda>_. []) demo_worker (DeliveryItem (DeliveryValid demo_envelope) es (Ok ()) False) \<and>
     stop_reason (StopItem :: (nat, unit) worker_item) (Ok ())"
proof -
  obtain es w' where run: "consumer_run demo_consumer_env
      (consume_once (\<lambda>_. []) 1 demo_lease demo_execution demo_envelope) 0
      = (es, Some (Inr (ProcCommitted Succeeded)), w')" and "w' \<noteq> 0"
    by (simp add: consumer_eval transaction_loop.simps Let_def)
  then have steps: "consumer_worker_run 3 (\<lambda>_. []) 1 demo_worker demo_consumer_env demo_worker_env (Subscribing 1) 0
     = ([SubscribeItem (Ok ()), DeliveryItem (DeliveryValid demo_envelope) es (Ok ()) False, StopItem],
        Stopped (Ok ()), w')"
    by (simp add: numeral_3_eq_3 worker_step_def subscribe_step_def consumer_receive_step_def process_delivery_def
        demo_worker_def demo_worker_env_def)
  have "subscription_backoff_new (from_secs 1) (from_secs 60) = Inr (cw_backoff demo_worker)"
    "from_secs 60 \<le> duration_max"
    by (simp_all add: demo_worker_def backoff_standard_def subscription_backoff_new_def from_secs_def
        duration_max_def)
  from consumer_worker_contract [OF this steps] steps show ?thesis by auto
qed

end
