(* ===== verification/Reconcile.thy ===== *)
theory Reconcile
  imports Messaging_Policy Request_Tree "HOL-Library.Char_ord" "HOL-Library.List_Lexorder"
begin

section \<open>Reconciliation of one target\<close>

text \<open>
  Models \<^verbatim>\<open>crates/reconcile/src\<close>: the comparison of desired and actual state (\<^verbatim>\<open>diff.rs\<close>), scopes,
  targets and completions (\<^verbatim>\<open>model.rs\<close>), resource sets (\<^verbatim>\<open>resources.rs\<close>), the execution limits and
  the retry delay (\<^verbatim>\<open>policy.rs\<close>), deadlines and cancellation (\<^verbatim>\<open>control.rs\<close>) and the execution of one
  claim (\<^verbatim>\<open>worker.rs\<close>). Store, reconciler and timer are the environment; the code is a request tree
  over them. The renewal loop is unfolded \<open>fuel\<close> times and then stays pending; the theorems hold
  for every \<open>fuel\<close>. The runner that admits claims is in \<open>Reconcile_Worker\<close>.
\<close>

subsection \<open>Comparison\<close>

datatype drift_kind = DriftConverged | MissingActual | UnexpectedActual | Changed

datatype converge_action = ActNoop | ActCreate | ActUpdate | ActDelete

fun drift_label :: "drift_kind \<Rightarrow> string" where
  "drift_label DriftConverged = ''converged''"
| "drift_label MissingActual = ''missing_actual''"
| "drift_label UnexpectedActual = ''unexpected_actual''"
| "drift_label Changed = ''changed''"

fun for_drift :: "drift_kind \<Rightarrow> converge_action" where
  "for_drift DriftConverged = ActNoop"
| "for_drift MissingActual = ActCreate"
| "for_drift UnexpectedActual = ActDelete"
| "for_drift Changed = ActUpdate"

fun converge_label :: "converge_action \<Rightarrow> string" where
  "converge_label ActNoop = ''noop''"
| "converge_label ActCreate = ''create''"
| "converge_label ActUpdate = ''update''"
| "converge_label ActDelete = ''delete''"

record 's reconcile_diff =
  rd_desired :: "'s option"
  rd_actual :: "'s option"
  rd_drift :: drift_kind

definition diff_between :: "'s option \<Rightarrow> 's option \<Rightarrow> 's reconcile_diff" where
  "diff_between desired actual =
     \<lparr>rd_desired = desired, rd_actual = actual,
      rd_drift =
        (case (desired, actual) of
           (None, None) \<Rightarrow> DriftConverged
         | (Some _, None) \<Rightarrow> MissingActual
         | (None, Some _) \<Rightarrow> UnexpectedActual
         | (Some d, Some a) \<Rightarrow> if d = a then DriftConverged else Changed)\<rparr>"

definition diff_converge_action :: "'s reconcile_diff \<Rightarrow> converge_action" where
  "diff_converge_action d = for_drift (rd_drift d)"

text \<open>The reference: what the named action makes of the actual state.\<close>

fun converge :: "converge_action \<Rightarrow> 's option \<Rightarrow> 's option \<Rightarrow> 's option" where
  "converge ActNoop desired actual = actual"
| "converge ActCreate desired actual = (if actual = None then desired else actual)"
| "converge ActUpdate desired actual = (if actual = None then None else desired)"
| "converge ActDelete desired actual = None"

subsection \<open>Errors, names and targets\<close>

datatype reconcile_error_kind =
    RInvalidInput
  | RStorageContract
  | RTransient
  | RPermanent
  | RInvariant
  | RFenced
  | RBindingChanged
  | RCancelled
  | RDeadline
  | RCommitUnknown
  | RRollbackFailed

text \<open>An \<open>Error\<close> is observed through its kind only; the source is redacted.\<close>

type_synonym reconcile_error = reconcile_error_kind

definition reconcile_uncertain :: "reconcile_error \<Rightarrow> reconcile_error" where
  "reconcile_uncertain e = (if e \<in> {RCancelled, RDeadline} then RCommitUnknown else e)"

definition name_char :: "char \<Rightarrow> bool" where
  "name_char c \<longleftrightarrow> is_ascii_alphanumeric c \<or> c \<in> {CHR ''_'', CHR ''-'', CHR ''.'', CHR '':''}"

definition reconcile_name :: "string \<Rightarrow> reconcile_error + string" where
  "reconcile_name value =
     (if value = [] \<or> length value > 128 \<or> \<not> list_all name_char value then Err RInvalidInput else Ok value)"

record reconcile_scope =
  rs_tenant :: "128 word"
  rs_reconciler :: string

definition reconcile_scope_new :: "128 word \<Rightarrow> string \<Rightarrow> reconcile_error + reconcile_scope" where
  "reconcile_scope_new tenant reconciler =
     and_then (reconcile_name reconciler) (\<lambda>n. Ok \<lparr>rs_tenant = tenant, rs_reconciler = n\<rparr>)"

record target =
  tg_scope :: reconcile_scope
  tg_entity :: string

definition target_new :: "reconcile_scope \<Rightarrow> string \<Rightarrow> reconcile_error + target" where
  "target_new sc entity =
     and_then (reconcile_name entity) (\<lambda>n. Ok \<lparr>tg_scope = sc, tg_entity = n\<rparr>)"

datatype reconcile_completion =
    Converged
  | Reobserve duration
  | Deferred duration
  | Retry duration nat
  | Suspended nat

record resource_set =
  rr_tenant :: "128 word"
  rr_keys :: "string list"

fun resource_collect :: "string list \<Rightarrow> string list \<Rightarrow> reconcile_error + string list" where
  "resource_collect canonical [] = Ok canonical"
| "resource_collect canonical (key # keys) =
     (if length canonical = 1000 then Err RInvalidInput
      else and_then (reconcile_name key) (\<lambda>n. resource_collect (canonical @ [n]) keys))"

definition resource_set_new :: "128 word \<Rightarrow> string list \<Rightarrow> reconcile_error + resource_set" where
  "resource_set_new tenant keys =
     and_then (resource_collect [] keys) (\<lambda>canonical.
       Ok \<lparr>rr_tenant = tenant, rr_keys = remdups_adj (sort canonical)\<rparr>)"

definition resource_set_empty :: "128 word \<Rightarrow> resource_set" where
  "resource_set_empty tenant = \<lparr>rr_tenant = tenant, rr_keys = []\<rparr>"

datatype 'a reconcile_step = Ready 'a | StepDeferred duration

subsection \<open>Policy\<close>

record policy_config =
  pc_concurrency :: nat
  pc_lease_ttl :: duration
  pc_attempt_timeout :: duration
  pc_scan_interval :: duration
  pc_idle_scan_interval :: duration
  pc_initial_backoff :: duration
  pc_max_backoff :: duration
  pc_max_attempts :: nat

record reconcile_policy =
  pl_concurrency :: nat
  pl_lease :: duration
  pl_attempt :: duration
  pl_scan :: duration
  pl_idle_scan :: duration
  pl_backoff :: duration
  pl_cap :: duration
  pl_max_attempts :: nat

definition policy_duration_valid :: "duration \<Rightarrow> bool" where
  "policy_duration_valid d \<longleftrightarrow>
     d \<noteq> 0 \<and> d \<le> from_secs 86400 \<and> (d mod nanos_per_sec) mod 1000000 = 0"

definition rc_policy_try_from :: "policy_config \<Rightarrow> reconcile_error + reconcile_policy" where
  "rc_policy_try_from c =
     (if \<not> (1 \<le> pc_concurrency c \<and> pc_concurrency c \<le> 64)
         \<or> \<not> list_all policy_duration_valid
              [pc_lease_ttl c, pc_attempt_timeout c, pc_scan_interval c, pc_idle_scan_interval c,
               pc_initial_backoff c, pc_max_backoff c]
         \<or> pc_lease_ttl c < from_millis 3
         \<or> pc_max_backoff c < pc_initial_backoff c
         \<or> \<not> (1 \<le> pc_max_attempts c \<and> pc_max_attempts c \<le> 1000)
      then Err RInvalidInput
      else Ok \<lparr>pl_concurrency = pc_concurrency c, pl_lease = pc_lease_ttl c, pl_attempt = pc_attempt_timeout c,
               pl_scan = pc_scan_interval c, pl_idle_scan = pc_idle_scan_interval c,
               pl_backoff = pc_initial_backoff c, pl_cap = pc_max_backoff c,
               pl_max_attempts = pc_max_attempts c\<rparr>)"

definition checked_shl_one :: "nat \<Rightarrow> nat option" where
  "checked_shl_one n = (if n < 32 then Some (2 ^ n) else None)"

definition whole_millis :: "duration \<Rightarrow> nat" where
  "whole_millis d = as_secs d * 1000 + (d mod nanos_per_sec) div 1000000"

text \<open>The hasher of the standard library has no specified algorithm; \<open>hash\<close> is its 64-bit digest.\<close>

definition retry_delay :: "(target \<Rightarrow> nat \<Rightarrow> u64) \<Rightarrow> reconcile_policy \<Rightarrow> target \<Rightarrow> nat \<Rightarrow> duration" where
  "retry_delay hash p t failures =
     (let upper = min (duration_saturating_mul (pl_backoff p)
                    (case checked_shl_one (max failures 1) of Some f \<Rightarrow> f | None \<Rightarrow> u32_max)) (pl_cap p);
          upper = whole_millis upper;
          floor = whole_millis (pl_backoff p);
          lower = max floor ((upper + 1) div 2) in
      from_millis (lower + unat (hash t failures) mod (upper - lower + 1)))"

subsection \<open>Deadline and cancellation\<close>

datatype rc_interruption = CancelledFirst | DeadlineFirst

definition rc_interruption_error :: "rc_interruption \<Rightarrow> reconcile_error" where
  "rc_interruption_error i = (case i of CancelledFirst \<Rightarrow> RCancelled | DeadlineFirst \<Rightarrow> RDeadline)"

text \<open>The answer of an operation raced with cancellation and its deadline.\<close>

datatype 'x rc_reply = RcInterrupted rc_interruption | RcReturned "reconcile_error + 'x"

definition rc_result :: "'x rc_reply \<Rightarrow> reconcile_error + 'x" where
  "rc_result r = (case r of RcInterrupted i \<Rightarrow> Err (rc_interruption_error i) | RcReturned x \<Rightarrow> x)"

text \<open>What the claim's trait reports; its token stays with the provider.\<close>

record claim =
  cl_target :: target
  cl_failures :: nat

text \<open>
  The requests of the worker. The last argument of a provider call is the deadline of its control.
  \<open>RElapsed\<close> is a reading of the clock by \<open>elapsed\<close>, \<open>RNow\<close> one inside the control.
\<close>

datatype 's rc_request =
    RIsCancelled
  | RNow
  | RElapsed
  | RSleepUntil instant
  | RObserve claim instant
  | RApply claim "'s reconcile_diff" instant
  | RRenew claim duration instant
  | RFinish claim reconcile_completion instant

datatype 's rc_answer =
    AIsCancelled bool
  | AClock instant
  | ASlept
  | AObserved "'s reconcile_diff reconcile_step rc_reply"
  | AApplied "unit reconcile_step rc_reply"
  | AUnit "unit rc_reply"

type_synonym ('s, 'a) rc_task = "('s rc_request, 's rc_answer, 'a) task"

definition answered_clock :: "'s rc_answer \<Rightarrow> instant option" where
  "answered_clock a = (case a of AClock t \<Rightarrow> Some t | _ \<Rightarrow> None)"

definition answered_observed :: "'s rc_answer \<Rightarrow> 's reconcile_diff reconcile_step rc_reply option" where
  "answered_observed a = (case a of AObserved r \<Rightarrow> Some r | _ \<Rightarrow> None)"

definition answered_applied :: "'s rc_answer \<Rightarrow> unit reconcile_step rc_reply option" where
  "answered_applied a = (case a of AApplied r \<Rightarrow> Some r | _ \<Rightarrow> None)"

definition answered_unit :: "'s rc_answer \<Rightarrow> unit rc_reply option" where
  "answered_unit a = (case a of AUnit r \<Rightarrow> Some r | _ \<Rightarrow> None)"

definition clock_read :: "'s rc_request \<Rightarrow> (instant \<Rightarrow> ('s, 'a) rc_task) \<Rightarrow> ('s, 'a) rc_task" where
  "clock_read q k = ask q (\<lambda>a. case answered_clock a of Some t \<Rightarrow> k t | None \<Rightarrow> Never)"

definition rc_check :: "instant \<Rightarrow> (reconcile_error + unit \<Rightarrow> ('s, 'a) rc_task) \<Rightarrow> ('s, 'a) rc_task" where
  "rc_check deadline k =
     ask RIsCancelled (\<lambda>a. case a of
       AIsCancelled True \<Rightarrow> k (Err RCancelled)
     | AIsCancelled False \<Rightarrow> clock_read RNow (\<lambda>now. k (if now \<ge> deadline then Err RDeadline else Ok ()))
     | _ \<Rightarrow> Never)"

definition control_child :: "instant \<Rightarrow> duration \<Rightarrow> (instant \<Rightarrow> ('s, 'a) rc_task) \<Rightarrow> ('s, 'a) rc_task" where
  "control_child deadline timeout k =
     clock_read RNow (\<lambda>now. k (min (duration_saturating_add now timeout) deadline))"

definition rc_control_run ::
  "instant \<Rightarrow> 's rc_request \<Rightarrow> ('s rc_answer \<Rightarrow> 'x rc_reply option)
     \<Rightarrow> (reconcile_error + 'x \<Rightarrow> ('s, 'a) rc_task) \<Rightarrow> ('s, 'a) rc_task" where
  "rc_control_run deadline q pick k =
     rc_check deadline (\<lambda>c. case c of
       Inl e \<Rightarrow> k (Err e)
     | Inr _ \<Rightarrow> ask q (\<lambda>a. case pick a of None \<Rightarrow> Never | Some r \<Rightarrow> k (rc_result r)))"

subsection \<open>One attempt\<close>

datatype stage = StageObserve | StageApply | StageRenew | StageFinish

record failure =
  fl_stage :: stage
  fl_error :: reconcile_error

record rc_outcome =
  oc_result :: "failure + reconcile_completion"
  oc_prior :: "failure list"

definition outcome_failed :: "stage \<Rightarrow> reconcile_error \<Rightarrow> rc_outcome" where
  "outcome_failed st e = \<lparr>oc_result = Err \<lparr>fl_stage = st, fl_error = e\<rparr>, oc_prior = []\<rparr>"

definition reconcile_action ::
  "reconcile_policy \<Rightarrow> claim \<Rightarrow> instant \<Rightarrow> ('s, failure + reconcile_completion) rc_task" where
  "reconcile_action p c deadline =
     rc_control_run deadline (RObserve c deadline) answered_observed (\<lambda>observed. case observed of
       Inl e \<Rightarrow> Done (Err \<lparr>fl_stage = StageObserve, fl_error = e\<rparr>)
     | Inr (StepDeferred after) \<Rightarrow> Done (Ok (Deferred after))
     | Inr (Ready diff) \<Rightarrow>
         if rd_drift diff = DriftConverged then Done (Ok Converged)
         else rc_control_run deadline (RApply c diff deadline) answered_applied (\<lambda>applied. case applied of
           Inl e \<Rightarrow> Done (Err \<lparr>fl_stage = StageApply, fl_error = e\<rparr>)
         | Inr (Ready _) \<Rightarrow> Done (Ok (Reobserve (pl_scan p)))
         | Inr (StepDeferred after) \<Rightarrow> Done (Ok (Deferred after))))"

definition renew_lease ::
  "reconcile_policy \<Rightarrow> claim \<Rightarrow> instant \<Rightarrow> (reconcile_error + instant \<Rightarrow> ('s, 'a) rc_task) \<Rightarrow> ('s, 'a) rc_task" where
  "renew_lease p c outer k =
     clock_read RElapsed (\<lambda>started.
     control_child outer (pl_lease p div 3) (\<lambda>deadline.
     rc_control_run deadline (RRenew c (pl_lease p) deadline) answered_unit (\<lambda>r. case r of
       Inl e \<Rightarrow> k (Err e)
     | Inr _ \<Rightarrow> k (Ok (duration_saturating_add started (pl_lease p div 3))))))"

text \<open>
  The renewal branch of a \<open>select!\<close> loop: a renewal that succeeds re-arms the branch, one that fails
  ends it. The other branch is kept across the iterations.
\<close>

primrec renewals ::
  "nat \<Rightarrow> reconcile_policy \<Rightarrow> claim \<Rightarrow> instant \<Rightarrow> instant \<Rightarrow> ('s, reconcile_error) rc_task" where
  "renewals 0 p c outer renew_at = Never"
| "renewals (Suc fuel) p c outer renew_at =
     ask (RSleepUntil renew_at) (\<lambda>_. renew_lease p c outer (\<lambda>r. case r of
       Inl e \<Rightarrow> Done e
     | Inr at \<Rightarrow> renewals fuel p c outer at))"

text \<open>The variable \<open>renew_at\<close> of the loops, with the start of the renewal under way.\<close>

fun track_renewal ::
  "reconcile_policy \<Rightarrow> bool \<Rightarrow> ('s rc_request, 's rc_answer) task_event \<Rightarrow> instant \<times> instant \<Rightarrow> instant \<times> instant" where
  "track_renewal p False (Answered RElapsed (AClock t)) (renew_at, started) = (renew_at, t)"
| "track_renewal p False (Answered (RRenew c l d) (AUnit (RcReturned (Inr u)))) (renew_at, started) =
     (duration_saturating_add started (pl_lease p div 3), started)"
| "track_renewal p side e s = s"

text \<open>What a failed renewal makes of the attempt it interrupts.\<close>

definition renewal_failure :: "reconcile_policy \<Rightarrow> reconcile_error \<Rightarrow> failure + reconcile_completion" where
  "renewal_failure p e =
     (if e = RBindingChanged then Ok (Deferred (pl_scan p))
      else Err \<lparr>fl_stage = StageRenew, fl_error = e\<rparr>)"

definition attempt_loop ::
  "nat \<Rightarrow> reconcile_policy \<Rightarrow> claim \<Rightarrow> instant \<Rightarrow> instant
     \<Rightarrow> ('s, (failure + reconcile_completion) \<times> instant) rc_task" where
  "attempt_loop fuel p c outer renew_at =
     control_child outer (pl_attempt p) (\<lambda>deadline.
       select_biased (track_renewal p) (renew_at, 0) (reconcile_action p c deadline) (renewals fuel p c outer renew_at)
         (\<lambda>s result. Done (result, fst s))
         (\<lambda>s e _. Done (renewal_failure p e, fst s)))"

definition attempt_with_renewal ::
  "nat \<Rightarrow> reconcile_policy \<Rightarrow> claim \<Rightarrow> instant \<Rightarrow> instant
     \<Rightarrow> ('s, (failure + reconcile_completion) \<times> instant) rc_task" where
  "attempt_with_renewal fuel p c outer renew_at =
     clock_read RElapsed (\<lambda>now.
       if now \<ge> renew_at
       then renew_lease p c outer (\<lambda>r. case r of
         Inl e \<Rightarrow> Done (renewal_failure p e, renew_at)
       | Inr at \<Rightarrow> attempt_loop fuel p c outer at)
       else attempt_loop fuel p c outer renew_at)"

subsection \<open>Settlement\<close>

definition abandons :: "reconcile_error \<Rightarrow> bool" where
  "abandons e \<longleftrightarrow> e \<in> {RFenced, RCancelled, RCommitUnknown, RRollbackFailed}"

definition suspends :: "reconcile_error \<Rightarrow> bool" where
  "suspends e \<longleftrightarrow> e \<in> {RPermanent, RInvariant, RStorageContract, RInvalidInput}"

definition failures_after :: "claim \<Rightarrow> nat" where
  "failures_after c = min (Suc (cl_failures c)) u32_max"

text \<open>The first match of \<open>settle\<close>: the completion to persist with the failures to report, or none.\<close>

definition settle_plan ::
  "(target \<Rightarrow> nat \<Rightarrow> u64) \<Rightarrow> reconcile_policy \<Rightarrow> claim \<Rightarrow> failure + reconcile_completion
     \<Rightarrow> (reconcile_completion \<times> failure list) option" where
  "settle_plan hash p c result =
     (case result of
        Inr completion \<Rightarrow> Some (completion, [])
      | Inl f \<Rightarrow>
          if fl_error f = RBindingChanged then Some (Deferred (pl_scan p), [])
          else if abandons (fl_error f) then None
          else
            (let failures = failures_after c in
             Some (if suspends (fl_error f) \<or> failures \<ge> pl_max_attempts p then Suspended failures
                   else Retry (retry_delay hash p (cl_target c) failures) failures, [f])))"

definition finish_claim ::
  "claim \<Rightarrow> instant \<Rightarrow> reconcile_completion \<Rightarrow> (reconcile_error + unit \<Rightarrow> ('s, 'a) rc_task) \<Rightarrow> ('s, 'a) rc_task" where
  "finish_claim c deadline completion k =
     rc_control_run deadline (RFinish c completion deadline) answered_unit (\<lambda>r. k (map_err reconcile_uncertain r))"

definition settled :: "failure list \<Rightarrow> reconcile_completion \<Rightarrow> reconcile_error + unit \<Rightarrow> rc_outcome" where
  "settled prior completion result =
     \<lparr>oc_result = (case result of
        Inr _ \<Rightarrow> Ok completion
      | Inl e \<Rightarrow> Err \<lparr>fl_stage = StageFinish, fl_error = e\<rparr>), oc_prior = prior\<rparr>"

definition settle ::
  "(target \<Rightarrow> nat \<Rightarrow> u64) \<Rightarrow> reconcile_policy \<Rightarrow> claim \<Rightarrow> instant \<Rightarrow> failure + reconcile_completion
     \<Rightarrow> ('s, rc_outcome) rc_task" where
  "settle hash p c outer result =
     (case settle_plan hash p c result of
        None \<Rightarrow> Done \<lparr>oc_result = result, oc_prior = []\<rparr>
      | Some (completion, prior) \<Rightarrow>
          control_child outer (pl_attempt p) (\<lambda>deadline.
          finish_claim c deadline completion (\<lambda>r.
            if r = Err RBindingChanged
            then finish_claim c deadline (Deferred (pl_scan p)) (\<lambda>r'.
              Done (settled prior (Deferred (pl_scan p)) r'))
            else Done (settled prior completion r))))"

definition add_renewal_failure :: "reconcile_error \<Rightarrow> rc_outcome \<Rightarrow> rc_outcome" where
  "add_renewal_failure e o' =
     (if \<not> is_ok (oc_result o') \<and> e \<noteq> RBindingChanged
      then o'\<lparr>oc_prior := oc_prior o' @ [\<lparr>fl_stage = StageRenew, fl_error = e\<rparr>]\<rparr> else o')"

definition settle_loop ::
  "nat \<Rightarrow> (target \<Rightarrow> nat \<Rightarrow> u64) \<Rightarrow> reconcile_policy \<Rightarrow> claim \<Rightarrow> instant \<Rightarrow> instant
     \<Rightarrow> failure + reconcile_completion \<Rightarrow> ('s, rc_outcome) rc_task" where
  "settle_loop fuel hash p c outer renew_at result =
     select_biased (track_renewal p) (renew_at, 0) (settle hash p c outer result)
       (renewals fuel p c outer renew_at) (\<lambda>_. Done)
       (\<lambda>_ e rest. bind_task rest (\<lambda>o'. Done (add_renewal_failure e o')))"

definition reconcile_execute ::
  "nat \<Rightarrow> (target \<Rightarrow> nat \<Rightarrow> u64) \<Rightarrow> reconcile_policy \<Rightarrow> claim \<Rightarrow> instant \<Rightarrow> instant \<Rightarrow> ('s, rc_outcome) rc_task" where
  "reconcile_execute fuel hash p c outer claimed_at =
     bind_task (attempt_with_renewal fuel p c outer
         (duration_saturating_add claimed_at (pl_lease p div 3))) (\<lambda>(result, renew_at).
       case result of
         Inl f \<Rightarrow>
           if fl_stage f = StageRenew then Done (outcome_failed StageRenew (fl_error f))
           else settle_loop fuel hash p c outer renew_at result
       | Inr _ \<Rightarrow> settle_loop fuel hash p c outer renew_at result)"

subsection \<open>Values\<close>

text \<open>
  The action named for a drift turns the actual state into the desired one, and it is no
  action exactly when they are equal.
\<close>

theorem diff_action_converges:
  "converge (diff_converge_action (diff_between desired actual)) desired actual = desired"
  "diff_converge_action (diff_between desired actual) = ActNoop \<longleftrightarrow> desired = actual"
  by (auto simp: diff_between_def diff_converge_action_def split: option.split)

lemma resource_collect_eq:
  "length acc \<le> 1000 \<Longrightarrow> resource_collect acc keys =
     (if length acc + length keys \<le> 1000 \<and> list_all (\<lambda>k. reconcile_name k = Ok k) keys
      then Ok (acc @ keys) else Err RInvalidInput)"
proof (induction keys arbitrary: acc)
  case (Cons k keys)
  have k: "reconcile_name k = Ok k \<or> reconcile_name k = Err RInvalidInput"
    by (simp add: reconcile_name_def)
  show ?case
  proof (cases "length acc = 1000")
    case False
    with Cons.prems have "length (acc @ [k]) \<le> 1000" by simp
    from Cons.IH [OF this] False k show ?thesis by auto
  qed simp
qed simp

lemma distinct_remdups_adj_sorted: "sorted xs \<Longrightarrow> distinct (remdups_adj xs)"
  by (induction xs rule: remdups_adj.induct) (auto simp: order_antisym)

text \<open>
  A resource set is accepted exactly for at most 1000 valid keys, and holds each of them once
  in ascending order: two declarations of the same keys are the same set.
\<close>

theorem resource_set_canonical:
  "resource_set_new tenant keys =
     (if length keys \<le> 1000 \<and> list_all (\<lambda>k. reconcile_name k = Ok k) keys
      then Ok \<lparr>rr_tenant = tenant, rr_keys = sorted_list_of_set (set keys)\<rparr>
      else Err RInvalidInput)"
proof -
  have "sorted_list_of_set (set (remdups_adj (sort keys))) = remdups_adj (sort keys)"
    by (rule sorted_list_of_set.idem_if_sorted_distinct) (auto intro: distinct_remdups_adj_sorted)
  then show ?thesis
    by (simp add: resource_set_new_def resource_collect_eq)
qed

lemma whole_millis_eq: "whole_millis d = d div 1000000"
proof -
  have "d div 1000000 = (d mod nanos_per_sec + (d div nanos_per_sec * 1000) * 1000000) div 1000000"
    using mod_mult_div_eq [of d nanos_per_sec] by (simp add: mult.commute)
  also have "\<dots> = d div nanos_per_sec * 1000 + (d mod nanos_per_sec) div 1000000"
    by (subst div_mult_self1) simp_all
  finally show ?thesis by (simp add: whole_millis_def as_secs_def)
qed

lemma policy_durations:
  assumes "rc_policy_try_from c = Ok p"
  shows "0 < pl_backoff p" "pl_backoff p \<le> pl_cap p" "1000000 dvd pl_backoff p" "1000000 dvd pl_cap p"
    "pl_cap p \<le> duration_max" "0 < pl_concurrency p" "0 < pl_idle_scan p"
proof -
  have "(d mod nanos_per_sec) mod 1000000 = d mod 1000000" for d :: nat
    by (rule mod_mod_cancel) simp
  then show "0 < pl_backoff p" "pl_backoff p \<le> pl_cap p" "1000000 dvd pl_backoff p" "1000000 dvd pl_cap p"
    "pl_cap p \<le> duration_max" "0 < pl_concurrency p" "0 < pl_idle_scan p"
    using assms
    by (auto simp: rc_policy_try_from_def policy_duration_valid_def duration_max_def from_secs_def
        split: if_splits)
qed

text \<open>
  Under a validated policy the retry delay is a whole number of milliseconds between the
  configured floor and the cap, and at least half of the doubled backoff for the failure count;
  it is fixed when floor and cap agree.
\<close>

theorem retry_delay_bounds:
  assumes "rc_policy_try_from c = Ok p"
  shows "pl_backoff p \<le> retry_delay hash p t failures \<and> retry_delay hash p t failures \<le> pl_cap p \<and>
    1000000 dvd retry_delay hash p t failures \<and>
    (1 \<le> failures \<longrightarrow> failures < 32 \<longrightarrow>
       min (pl_backoff p * 2 ^ failures) (pl_cap p) \<le> 2 * retry_delay hash p t failures)"
proof -
  define factor where "factor = (case checked_shl_one (max failures 1) of Some f \<Rightarrow> f | None \<Rightarrow> u32_max)"
  define upper where "upper = min (duration_saturating_mul (pl_backoff p) factor) (pl_cap p)"
  note p = policy_durations [OF assms]
  have factor: "1 \<le> factor"
    by (simp add: factor_def checked_shl_one_def u32_max_def)
  have "pl_backoff p * factor \<ge> pl_backoff p" using factor by simp
  then have upper: "pl_backoff p \<le> upper" "upper \<le> pl_cap p" "1000000 dvd upper"
    and scaled: "upper = min (pl_backoff p * factor) (pl_cap p)"
    using p by (auto simp: upper_def duration_saturating_mul_def min_def)
  obtain u where u: "upper = 1000000 * u" using upper(3) by (elim dvdE)
  obtain b where b: "pl_backoff p = 1000000 * b" using p(3) by (elim dvdE)
  define lower where "lower = max b ((u + 1) div 2)"
  have lower: "lower \<le> u" "b \<le> lower" "u \<le> 2 * lower"
    using upper(1) p(1) u b by (auto simp: lower_def)
  define delay where "delay = lower + unat (hash t failures) mod (u - lower + 1)"
  have delay: "retry_delay hash p t failures = 1000000 * delay"
    unfolding retry_delay_def Let_def factor_def [symmetric] upper_def [symmetric]
    by (simp add: whole_millis_eq u b delay_def lower_def from_millis_def)
  have "unat (hash t failures) mod (u - lower + 1) < u - lower + 1" by (rule mod_less_divisor) simp
  then have range: "lower \<le> delay" "delay \<le> u" using lower(1) unfolding delay_def by linarith+
  have "factor = 2 ^ failures" if "1 \<le> failures" "failures < 32"
    using that by (simp add: factor_def checked_shl_one_def max_def)
  then show ?thesis
    using delay range lower upper u b scaled by auto
qed

subsection \<open>What an execution does to the providers\<close>

definition rc_fits :: "'s rc_request \<Rightarrow> 's rc_answer \<Rightarrow> bool" where
  "rc_fits q a =
     (case q of
        RIsCancelled \<Rightarrow> (\<exists>b. a = AIsCancelled b)
      | RNow \<Rightarrow> answered_clock a \<noteq> None
      | RElapsed \<Rightarrow> answered_clock a \<noteq> None
      | RSleepUntil _ \<Rightarrow> a = ASlept
      | RObserve _ _ \<Rightarrow> answered_observed a \<noteq> None
      | RApply _ _ _ \<Rightarrow> answered_applied a \<noteq> None
      | RRenew _ _ _ \<Rightarrow> answered_unit a \<noteq> None
      | RFinish _ _ _ \<Rightarrow> answered_unit a \<noteq> None)"

text \<open>
  The log: the observations requested and the last answer, the applications requested and the
  last answer, the settlements requested and the answers they got.
\<close>

record 's rc_log =
  lg_observes :: nat
  lg_observed :: "(reconcile_error + 's reconcile_diff reconcile_step) option"
  lg_applies :: "'s reconcile_diff list"
  lg_applied :: "(reconcile_error + unit reconcile_step) option"
  lg_finishes :: "(claim \<times> reconcile_completion) list"
  lg_answers :: "(reconcile_error + unit) list"

definition rc_log_empty :: "'s rc_log" where
  "rc_log_empty = \<lparr>lg_observes = 0, lg_observed = None, lg_applies = [], lg_applied = None,
     lg_finishes = [], lg_answers = []\<rparr>"

definition observe_rc :: "('s rc_request, 's rc_answer) task_event \<Rightarrow> 's rc_log \<Rightarrow> 's rc_log" where
  "observe_rc e l =
     (case e of
        Issued (RObserve _ _) \<Rightarrow> l\<lparr>lg_observes := Suc (lg_observes l)\<rparr>
      | Issued (RApply _ d _) \<Rightarrow> l\<lparr>lg_applies := lg_applies l @ [d]\<rparr>
      | Issued (RFinish c x _) \<Rightarrow> l\<lparr>lg_finishes := lg_finishes l @ [(c, x)]\<rparr>
      | Answered (RObserve _ _) a \<Rightarrow> l\<lparr>lg_observed := map_option rc_result (answered_observed a)\<rparr>
      | Answered (RApply _ _ _) a \<Rightarrow> l\<lparr>lg_applied := map_option rc_result (answered_applied a)\<rparr>
      | Answered (RFinish _ _ _) a \<Rightarrow>
          (case answered_unit a of None \<Rightarrow> l | Some r \<Rightarrow> l\<lparr>lg_answers := lg_answers l @ [rc_result r]\<rparr>)
      | _ \<Rightarrow> l)"

abbreviation rc_ensures ::
  "('s rc_log \<Rightarrow> bool) \<Rightarrow> ('s, 'a) rc_task \<Rightarrow> 's rc_log \<Rightarrow> ('a \<Rightarrow> 's rc_log \<Rightarrow> bool) \<Rightarrow> bool" where
  "rc_ensures \<equiv> ensures rc_fits observe_rc"

lemma answered_Some [simp]:
  "answered_clock a = Some t \<longleftrightarrow> a = AClock t" "answered_observed a = Some u \<longleftrightarrow> a = AObserved u"
  "answered_applied a = Some v \<longleftrightarrow> a = AApplied v" "answered_unit a = Some w \<longleftrightarrow> a = AUnit w"
  by (cases a; simp add: answered_clock_def answered_observed_def answered_applied_def answered_unit_def)+

lemma answered_hit [simp]:
  "answered_clock (AClock t) = Some t" "answered_observed (AObserved u) = Some u"
  "answered_applied (AApplied v) = Some v" "answered_unit (AUnit w) = Some w"
  by simp_all

lemma observe_rc_simps [simp]:
  "observe_rc (Issued RIsCancelled) l = l" "observe_rc (Issued RNow) l = l" "observe_rc (Issued RElapsed) l = l"
  "observe_rc (Issued (RSleepUntil t)) l = l" "observe_rc (Issued (RRenew c n d)) l = l"
  "observe_rc (Answered RIsCancelled a) l = l" "observe_rc (Answered RNow a) l = l" "observe_rc (Answered RElapsed a) l = l"
  "observe_rc (Answered (RSleepUntil t) a) l = l" "observe_rc (Answered (RRenew c n d) a) l = l"
  "observe_rc (Issued (RObserve c d)) l = l\<lparr>lg_observes := Suc (lg_observes l)\<rparr>"
  "observe_rc (Issued (RApply c x d)) l = l\<lparr>lg_applies := lg_applies l @ [x]\<rparr>"
  "observe_rc (Issued (RFinish c y d)) l = l\<lparr>lg_finishes := lg_finishes l @ [(c, y)]\<rparr>"
  "observe_rc (Answered (RObserve c d) (AObserved r)) l = l\<lparr>lg_observed := Some (rc_result r)\<rparr>"
  "observe_rc (Answered (RApply c x d) (AApplied v)) l = l\<lparr>lg_applied := Some (rc_result v)\<rparr>"
  "observe_rc (Answered (RFinish c y d) (AUnit w)) l = l\<lparr>lg_answers := lg_answers l @ [rc_result w]\<rparr>"
  by (simp_all add: observe_rc_def answered_observed_def answered_applied_def answered_unit_def)

lemma ensures_clock:
  assumes "I l" and "\<And>t. rc_ensures I (k t) l Q" and "q = RNow \<or> q = RElapsed"
  shows "rc_ensures I (clock_read q k) l Q"
  unfolding clock_read_def using assms by (intro ensures_ask) (auto simp: rc_fits_def)

lemma ensures_rc_check:
  assumes "I l" and "\<And>r. r \<in> {Ok (), Err RCancelled, Err RDeadline} \<Longrightarrow> rc_ensures I (k r) l Q"
  shows "rc_ensures I (rc_check deadline k) l Q"
  unfolding rc_check_def
  using assms by (intro ensures_ask) (auto simp: rc_fits_def intro!: ensures_clock split: bool.split)

lemma ensures_rc_run:
  assumes "I l" and "I (observe_rc (Issued q) l)"
    and "\<And>e. e \<in> {RCancelled, RDeadline} \<Longrightarrow> rc_ensures I (k (Err e)) l Q"
    and "\<And>a r. rc_fits q a \<Longrightarrow> pick a = Some r \<Longrightarrow>
      rc_ensures I (k (rc_result r)) (observe_rc (Answered q a) (observe_rc (Issued q) l)) Q"
    and "\<And>a. rc_fits q a \<Longrightarrow> pick a \<noteq> None"
  shows "rc_ensures I (rc_control_run deadline q pick k) l Q"
  unfolding rc_control_run_def
  using assms by (intro ensures_rc_check) (auto intro!: ensures_ask split: option.split sum.split)

lemma unobserved_clock:
  assumes "\<And>t. unobserved observe_rc P (k t)" and "q = RNow \<or> q = RElapsed"
  shows "unobserved observe_rc P (clock_read q k)"
  using assms by (auto simp: clock_read_def split: option.split)

lemma unobserved_rc_check:
  assumes "\<And>r. unobserved observe_rc P (k r)"
  shows "unobserved observe_rc P (rc_check deadline k)"
  using assms by (auto simp: rc_check_def intro!: unobserved_clock split: rc_answer.split bool.split)

lemma unobserved_renew:
  assumes "\<And>r. unobserved observe_rc P (k r)"
  shows "unobserved observe_rc P (renew_lease p c outer k)"
  using assms
  by (auto simp: renew_lease_def control_child_def rc_control_run_def intro!: unobserved_clock unobserved_rc_check
      split: option.split sum.split)

lemma unobserved_renewals: "unobserved observe_rc (\<lambda>_. True) (renewals fuel p c outer renew_at)"
  by (induction fuel arbitrary: renew_at) (auto intro!: unobserved_renew split: sum.split)

text \<open>A renewal is not observed, so it can be passed over wherever the invariant holds.\<close>

lemma ensures_renew:
  assumes "I l" and "\<And>r. rc_ensures I (k r) l Q"
  shows "rc_ensures I (renew_lease p c outer k) l Q"
  unfolding renew_lease_def control_child_def
  using assms
  by (auto intro!: ensures_clock ensures_rc_run simp: rc_fits_def split: sum.split)

subsection \<open>Contract of an execution\<close>

text \<open>Something is applied at most once, and only the very drift that was observed.\<close>

definition drift_applied :: "'s rc_log \<Rightarrow> bool" where
  "drift_applied l \<longleftrightarrow>
     lg_observes l \<le> 1 \<and> length (lg_applies l) \<le> 1 \<and>
     (\<forall>d \<in> set (lg_applies l). lg_observed l = Some (Ok (Ready d)) \<and> rd_drift d \<noteq> DriftConverged)"

definition not_applied :: "'s rc_log \<Rightarrow> bool" where
  "not_applied l \<longleftrightarrow> (\<forall>x. lg_applied l \<noteq> Some (Ok x))"

text \<open>What must have been observed for a completion to be persisted.\<close>

definition justified ::
  "(target \<Rightarrow> nat \<Rightarrow> u64) \<Rightarrow> reconcile_policy \<Rightarrow> claim \<Rightarrow> 's rc_log \<Rightarrow> reconcile_completion \<Rightarrow> bool" where
  "justified hash p c l x =
     (case x of
        Converged \<Rightarrow>
          (\<exists>d. lg_observed l = Some (Ok (Ready d)) \<and> rd_drift d = DriftConverged) \<and> lg_applies l = []
      | Reobserve after \<Rightarrow> after = pl_scan p \<and> lg_applied l = Some (Ok (Ready ()))
      | Deferred after \<Rightarrow>
          after = pl_scan p \<or> lg_observed l = Some (Ok (StepDeferred after)) \<or> lg_applied l = Some (Ok (StepDeferred after))
      | Retry after n \<Rightarrow>
          n = failures_after c \<and> n < pl_max_attempts p \<and> after = retry_delay hash p (cl_target c) n \<and> not_applied l
      | Suspended n \<Rightarrow> n = failures_after c \<and> not_applied l)"

definition settlement_ok ::
  "(target \<Rightarrow> nat \<Rightarrow> u64) \<Rightarrow> reconcile_policy \<Rightarrow> claim \<Rightarrow> 's rc_log \<Rightarrow> bool" where
  "settlement_ok hash p c l \<longleftrightarrow>
     drift_applied l \<and> length (lg_answers l) \<le> length (lg_finishes l) \<and> length (lg_finishes l) \<le> 2 \<and>
     fst ` set (lg_finishes l) \<subseteq> {c} \<and>
     (lg_finishes l \<noteq> [] \<longrightarrow> justified hash p c l (snd (hd (lg_finishes l)))) \<and>
     (length (lg_finishes l) = 2 \<longrightarrow>
        lg_answers l \<noteq> [] \<and> hd (lg_answers l) = Err RBindingChanged \<and> snd (last (lg_finishes l)) = Deferred (pl_scan p))"

definition execution_contract ::
  "(target \<Rightarrow> nat \<Rightarrow> u64) \<Rightarrow> reconcile_policy \<Rightarrow> claim \<Rightarrow> rc_outcome \<Rightarrow> 's rc_log \<Rightarrow> bool" where
  "execution_contract hash p c o' l \<longleftrightarrow>
     settlement_ok hash p c l \<and>
     (case oc_result o' of
        Inr x \<Rightarrow>
          lg_finishes l \<noteq> [] \<and> snd (last (lg_finishes l)) = x \<and>
          length (lg_answers l) = length (lg_finishes l) \<and> last (lg_answers l) = Ok () \<and>
          (\<forall>after n. x \<in> {Retry after n, Suspended n} \<longrightarrow> (\<exists>f. oc_prior o' = [f] \<and> fl_stage f \<in> {StageObserve, StageApply} \<and>
             fl_error f \<noteq> RBindingChanged \<and> \<not> abandons (fl_error f) \<and> (x = Retry after n \<longrightarrow> \<not> suspends (fl_error f))))
      | Inl f \<Rightarrow>
          Ok () \<notin> set (lg_answers l) \<and>
          (fl_stage f \<noteq> StageFinish \<longrightarrow> lg_finishes l = []) \<and>
          (fl_stage f \<in> {StageObserve, StageApply} \<longrightarrow> abandons (fl_error f)) \<and>
          (fl_stage f = StageFinish \<longrightarrow> fl_error f \<notin> {RCancelled, RDeadline}))"

definition attempt_result ::
  "(target \<Rightarrow> nat \<Rightarrow> u64) \<Rightarrow> reconcile_policy \<Rightarrow> claim \<Rightarrow> failure + reconcile_completion \<Rightarrow> 's rc_log \<Rightarrow> bool" where
  "attempt_result hash p c r l \<longleftrightarrow>
     drift_applied l \<and> lg_finishes l = [] \<and> lg_answers l = [] \<and>
     (case r of
        Inr x \<Rightarrow> justified hash p c l x \<and> (\<forall>a n. x \<notin> {Retry a n, Suspended n})
      | Inl f \<Rightarrow> fl_stage f \<noteq> StageFinish \<and> (fl_stage f \<noteq> StageRenew \<longrightarrow> not_applied l))"

definition attempting :: "'s rc_log \<Rightarrow> bool" where
  "attempting l \<longleftrightarrow> drift_applied l \<and> lg_finishes l = [] \<and> lg_answers l = []"

lemmas rc_contract_defs = drift_applied_def not_applied_def justified_def attempt_result_def attempting_def

lemma ensures_action:
  "rc_ensures attempting (reconcile_action p c deadline) rc_log_empty (attempt_result hash p c)"
  unfolding reconcile_action_def
  by (auto simp: rc_contract_defs rc_fits_def rc_log_empty_def intro!: ensures_rc_run
      split: sum.split reconcile_step.split)

lemma attempting_empty: "attempting rc_log_empty"
  by (simp add: attempting_def drift_applied_def rc_log_empty_def)

lemma renewal_failure_result:
  "attempting l \<Longrightarrow> attempt_result hash p c (renewal_failure p e) l"
  by (auto simp: renewal_failure_def attempt_result_def attempting_def justified_def)

lemma ensures_attempt_loop:
  "rc_ensures attempting (attempt_loop fuel p c outer renew_at) rc_log_empty (\<lambda>(r, _). attempt_result hash p c r)"
  unfolding attempt_loop_def control_child_def
proof (intro ensures_clock attempting_empty)
  show "rc_ensures attempting (select_biased (track_renewal p) (renew_at, 0) (reconcile_action p c d)
      (renewals fuel p c outer renew_at) (\<lambda>s result. Done (result, fst s)) (\<lambda>s e _. Done (renewal_failure p e, fst s)))
      rc_log_empty (\<lambda>(r, _). attempt_result hash p c r)" for d
    by (rule ensures_select [OF ensures_action unobserved_renewals, where F = "\<lambda>_ _. True"])
      (auto intro: renewal_failure_result)
qed simp

lemma ensures_attempt:
  "rc_ensures attempting (attempt_with_renewal fuel p c outer renew_at) rc_log_empty (\<lambda>(r, _). attempt_result hash p c r)"
  unfolding attempt_with_renewal_def
  by (auto intro!: ensures_clock ensures_renew attempting_empty ensures_attempt_loop
      renewal_failure_result split: sum.split)

lemma frame_finish [simp]:
  "drift_applied (l\<lparr>lg_finishes := x\<rparr>) = drift_applied l" "drift_applied (l\<lparr>lg_answers := y\<rparr>) = drift_applied l"
  "justified hash p c (l\<lparr>lg_finishes := x\<rparr>) z = justified hash p c l z"
  "justified hash p c (l\<lparr>lg_answers := y\<rparr>) z = justified hash p c l z"
  by (auto simp: drift_applied_def justified_def not_applied_def split: reconcile_completion.split)

lemma stage_cases: "fl_stage f \<noteq> StageFinish \<Longrightarrow> fl_stage f \<noteq> StageRenew \<Longrightarrow> fl_stage f \<in> {StageObserve, StageApply}"
  by (cases "fl_stage f") auto

text \<open>The failures reported with a completion that counts a failure.\<close>

definition failure_reported :: "reconcile_completion \<Rightarrow> failure list \<Rightarrow> bool" where
  "failure_reported x prior \<longleftrightarrow>
     (\<forall>after n. x \<in> {Retry after n, Suspended n} \<longrightarrow> (\<exists>f. prior = [f] \<and> fl_stage f \<in> {StageObserve, StageApply} \<and>
        fl_error f \<noteq> RBindingChanged \<and> \<not> abandons (fl_error f) \<and> (x = Retry after n \<longrightarrow> \<not> suspends (fl_error f))))"

lemma settle_plan_justified:
  assumes "attempt_result hash p c r l" and "\<And>f. r = Err f \<Longrightarrow> fl_stage f \<noteq> StageRenew"
    and "settle_plan hash p c r = Some (x, prior)"
  shows "justified hash p c l x \<and> failure_reported x prior"
proof (cases r)
  case (Inr y)
  with assms show ?thesis by (auto simp: settle_plan_def attempt_result_def failure_reported_def)
next
  case (Inl f)
  with assms(1,2) have f: "fl_stage f \<in> {StageObserve, StageApply}" "not_applied l"
    using stage_cases [of f] by (auto simp: attempt_result_def)
  with Inl assms(3) show ?thesis
    by (auto simp: settle_plan_def Let_def failure_reported_def justified_def split: if_splits)
qed

lemma ensures_finish_claim:
  assumes "I l" and "I (l\<lparr>lg_finishes := lg_finishes l @ [(c, x)]\<rparr>)"
    and "rc_ensures I (k (Err RCommitUnknown)) l Q"
    and "\<And>r. rc_ensures I (k (map_err reconcile_uncertain r))
      (l\<lparr>lg_finishes := lg_finishes l @ [(c, x)], lg_answers := lg_answers l @ [r]\<rparr>) Q"
  shows "rc_ensures I (finish_claim c deadline x k) l Q"
  unfolding finish_claim_def
  using assms by (intro ensures_rc_run) (auto simp: rc_fits_def reconcile_uncertain_def)

text \<open>What is known of the log when a settlement ends with an answer or without one.\<close>

lemma settled_contract:
  assumes "settlement_ok hash p c l" and "failure_reported x prior"
    and "\<And>u. r = Ok u \<Longrightarrow> lg_finishes l \<noteq> [] \<and> snd (last (lg_finishes l)) = x \<and>
      length (lg_answers l) = length (lg_finishes l) \<and> last (lg_answers l) = Ok ()"
    and "\<And>e. r = Err e \<Longrightarrow> Ok () \<notin> set (lg_answers l) \<and> e \<notin> {RCancelled, RDeadline}"
  shows "execution_contract hash p c (settled prior x r) l"
  using assms by (cases r) (auto simp: execution_contract_def settled_def failure_reported_def)

lemma ensures_settlement:
  assumes "attempt_result hash p c r l" and "\<And>f. r = Err f \<Longrightarrow> fl_stage f \<noteq> StageRenew"
  shows "rc_ensures (settlement_ok hash p c) (settle hash p c outer r) l (execution_contract hash p c)"
proof (cases "settle_plan hash p c r")
  case None
  with assms show ?thesis
    by (auto simp: settle_def settle_plan_def execution_contract_def settlement_ok_def attempt_result_def Let_def
        split: sum.splits if_splits)
next
  case (Some plan)
  obtain x prior where plan: "plan = (x, prior)" by (cases plan)
  with assms Some have x: "justified hash p c l x" "failure_reported x prior"
    using settle_plan_justified by blast+
  have l: "drift_applied l" "lg_finishes l = []" "lg_answers l = []"
    using assms(1) by (auto simp: attempt_result_def)
  have none: "failure_reported (Deferred d) ps" for d ps by (simp add: failure_reported_def)
  have "rc_ensures (settlement_ok hash p c)
      (if map_err reconcile_uncertain a = Err RBindingChanged
       then finish_claim c d (Deferred (pl_scan p)) (\<lambda>r'. Done (settled prior (Deferred (pl_scan p)) r'))
       else Done (settled prior x (map_err reconcile_uncertain a)))
      (l\<lparr>lg_finishes := [(c, x)], lg_answers := [a]\<rparr>) (execution_contract hash p c)" for a d
    using l x none
    by (auto simp: settlement_ok_def map_err_Inl_iff reconcile_uncertain_def
        intro!: ensures_finish_claim settled_contract split: if_splits)
  then show ?thesis
    using Some plan l x
    by (auto simp: settle_def control_child_def settlement_ok_def intro!: ensures_clock ensures_finish_claim settled_contract)
qed

lemma add_renewal_contract:
  "execution_contract hash p c o' l \<Longrightarrow> execution_contract hash p c (add_renewal_failure e o') l"
  by (auto simp: add_renewal_failure_def execution_contract_def split: sum.split)

lemma ensures_settle_loop:
  assumes "attempt_result hash p c r l" and "\<And>f. r = Err f \<Longrightarrow> fl_stage f \<noteq> StageRenew"
  shows "rc_ensures (\<lambda>_. True) (settle_loop fuel hash p c outer renew_at r) l (execution_contract hash p c)"
  unfolding settle_loop_def
proof (rule ensures_select [OF ensures_settlement [OF assms] unobserved_renewals, where F = "\<lambda>_ _. True"])
  show "rc_ensures (\<lambda>_. True) (bind_task rest (\<lambda>o'. Done (add_renewal_failure e o'))) l' (execution_contract hash p c)"
    if "rc_ensures (settlement_ok hash p c) rest l' (execution_contract hash p c)" for e rest l'
    by (rule ensures_bind [OF that]) (auto intro: add_renewal_contract)
qed auto

lemma ensures_execute:
  "rc_ensures (\<lambda>_. True) (reconcile_execute fuel hash p c outer claimed_at) rc_log_empty (execution_contract hash p c)"
  unfolding reconcile_execute_def
proof (rule ensures_bind [OF ensures_attempt [where hash = hash]])
  fix a :: "(failure + reconcile_completion) \<times> instant" and l :: "'a rc_log"
  assume "(\<lambda>(r, _). attempt_result hash p c r) a l"
  then show "rc_ensures (\<lambda>_. True) (case a of (result, renew_at) \<Rightarrow> case result of
         Inl f \<Rightarrow>
           if fl_stage f = StageRenew then Done (outcome_failed StageRenew (fl_error f))
           else settle_loop fuel hash p c outer renew_at result
       | Inr _ \<Rightarrow> settle_loop fuel hash p c outer renew_at result) l (execution_contract hash p c)"
    by (auto simp: outcome_failed_def execution_contract_def settlement_ok_def attempt_result_def
        intro!: ensures_settle_loop split: sum.split)
qed simp

text \<open>
  C13. Executing a claim always returns, whatever store, reconciler, timer and cancellation do.
  The reconciler is asked to apply at most once, and only the drift it observed in this
  execution. At most two completions are sent to the store, all for this claim; the first follows
  from what was observed (\<open>Converged\<close> only from an observation without drift, a retry with the next
  failure count and its delay, and no failure is counted once something was applied); a second
  only defers, after the binding changed. The rc_outcome is a completion exactly when the store
  acknowledged that completion; without authority (fenced, cancelled, unknown commit, failed
  renewal) nothing is settled, and an interrupted settlement is reported as unknown.
\<close>

theorem reconcile_execution_contract:
  assumes "\<And>q w. rc_fits q (fst (te_answer env q w))"
    and "run_task env (reconcile_execute fuel hash p c outer claimed_at) w = (es, r, w')"
  shows "\<exists>a. r = Some a \<and> execution_contract hash p c a (fold observe_rc es rc_log_empty)"
  by (rule ensures_run [OF ensures_execute assms])

subsection \<open>A sample execution\<close>

text \<open>A missing actual state is observed and created; the clock stands still, nothing is cancelled.\<close>

definition demo_policy_config :: policy_config where
  "demo_policy_config = \<lparr>pc_concurrency = 2, pc_lease_ttl = from_secs 30, pc_attempt_timeout = from_secs 10,
     pc_scan_interval = from_secs 5, pc_idle_scan_interval = from_secs 60, pc_initial_backoff = from_secs 1,
     pc_max_backoff = from_secs 60, pc_max_attempts = 3\<rparr>"

definition demo_policy :: reconcile_policy where
  "demo_policy = \<lparr>pl_concurrency = 2, pl_lease = from_secs 30, pl_attempt = from_secs 10, pl_scan = from_secs 5,
     pl_idle_scan = from_secs 60, pl_backoff = from_secs 1, pl_cap = from_secs 60, pl_max_attempts = 3\<rparr>"

lemma demo_policy_valid: "rc_policy_try_from demo_policy_config = Ok demo_policy"
  by (simp add: rc_policy_try_from_def demo_policy_config_def demo_policy_def policy_duration_valid_def
      from_secs_def from_millis_def)

definition demo_target :: target where
  "demo_target = \<lparr>tg_scope = \<lparr>rs_tenant = 1, rs_reconciler = ''r''\<rparr>, tg_entity = ''e''\<rparr>"

definition demo_claim :: claim where
  "demo_claim = \<lparr>cl_target = demo_target, cl_failures = 0\<rparr>"

definition demo_rc_answer :: "nat rc_request \<Rightarrow> nat rc_answer" where
  "demo_rc_answer q =
     (case q of
        RIsCancelled \<Rightarrow> AIsCancelled False
      | RNow \<Rightarrow> AClock 0
      | RElapsed \<Rightarrow> AClock 0
      | RSleepUntil _ \<Rightarrow> ASlept
      | RObserve _ _ \<Rightarrow> AObserved (RcReturned (Ok (Ready (diff_between (Some 7) None))))
      | RApply _ _ _ \<Rightarrow> AApplied (RcReturned (Ok (Ready ())))
      | _ \<Rightarrow> AUnit (RcReturned (Ok ())))"

definition demo_rc_env :: "(nat rc_request, nat rc_answer, unit) task_env" where
  "demo_rc_env = \<lparr>te_choose = (\<lambda>w. (True, w)), te_issue = (\<lambda>q w. w), te_answer = (\<lambda>q w. (demo_rc_answer q, w))\<rparr>"

lemma demo_rc_fits: "rc_fits q (fst (te_answer demo_rc_env q w))"
  by (auto simp: demo_rc_env_def demo_rc_answer_def rc_fits_def split: rc_request.split)

lemmas rc_eval = reconcile_execute_def attempt_with_renewal_def attempt_loop_def control_child_def clock_read_def
  rc_check_def rc_control_run_def reconcile_action_def settle_loop_def settle_def settle_plan_def finish_claim_def
  settled_def rc_result_def diff_between_def select_biased_equations demo_rc_env_def demo_rc_answer_def
  demo_policy_def duration_saturating_add_def duration_max_def from_secs_def

lemma demo_execution:
  "\<exists>es a w'. run_task demo_rc_env (reconcile_execute 0 (\<lambda>_ _. 0) demo_policy demo_claim (from_secs 100) 0) () = (es, Some a, w') \<and>
     oc_result a = Ok (Reobserve (from_secs 5))"
  by (simp add: rc_eval)

theorem reconcile_execution_contract_witness:
  "\<exists>es a w'. run_task demo_rc_env (reconcile_execute 0 (\<lambda>_ _. 0) demo_policy demo_claim (from_secs 100) 0) () = (es, Some a, w') \<and>
     oc_result a = Ok (Reobserve (from_secs 5)) \<and>
     execution_contract (\<lambda>_ _. 0) demo_policy demo_claim a (fold observe_rc es rc_log_empty)"
proof -
  obtain es a w' where run: "run_task demo_rc_env (reconcile_execute 0 (\<lambda>_ _. 0) demo_policy demo_claim (from_secs 100) 0) ()
      = (es, Some a, w')" and a: "oc_result a = Ok (Reobserve (from_secs 5))"
    using demo_execution by blast
  from reconcile_execution_contract [OF demo_rc_fits run] run a show ?thesis by auto
qed

theorem retry_delay_bounds_witness:
  "from_secs 2 \<le> retry_delay (\<lambda>_ _. 5) demo_policy demo_target 2 \<and>
   retry_delay (\<lambda>_ _. 5) demo_policy demo_target 2 \<le> from_secs 60"
  using retry_delay_bounds [OF demo_policy_valid, of "\<lambda>_ _. 5" demo_target 2]
  by (simp add: demo_policy_def from_secs_def)

end
