(* ===== verification/Reconcile_Worker.thy ===== *)
theory Reconcile_Worker
  imports Reconcile
begin

section \<open>The reconcile runner\<close>

text \<open>
  Models \<open>run_inner\<close> of \<^verbatim>\<open>crates/reconcile/src/worker.rs\<close>: bounded admission of claims, the accounting
  of their outcomes, scheduling hints and draining. The concurrently running executions are
  the claims of the started list that have no outcome yet; what each of them does is
  \<open>reconcile_execute\<close> of theory \<open>Reconcile\<close>. The runner is a state machine: a phase for every point at
  which the code waits or reads a signal, and an input for what it then gets. An input that cannot
  occur in a phase is refused. Counters are unbounded here; the source counts in \<open>u64\<close>, and each grows by one per outcome.
\<close>

subsection \<open>State\<close>

datatype reconcile_observation =
    AttemptFailed target stage reconcile_error
  | DeferredSeen target
  | ScanFailed reconcile_scope reconcile_error

record reconcile_report =
  rp_converged :: nat
  rp_reobserve :: nat
  rp_deferred :: nat
  rp_retried :: nat
  rp_suspended :: nat
  rp_fenced :: nat
  rp_execution_failed :: nat
  rp_scan_failed :: nat
  rp_claim_unknown_batches :: nat

definition report_default :: reconcile_report where
  "report_default = \<lparr>rp_converged = 0, rp_reobserve = 0, rp_deferred = 0, rp_retried = 0, rp_suspended = 0,
     rp_fenced = 0, rp_execution_failed = 0, rp_scan_failed = 0, rp_claim_unknown_batches = 0\<rparr>"

text \<open>
  \<open>tasks\<close> as the targets of the unfinished executions, \<open>targets\<close> the set the code keeps beside them;
  \<open>due\<close> ascending; \<open>observed\<close> what the observer callback was given, \<open>started\<close> the claims executed.
\<close>

record active =
  ac_tasks :: "target list"
  ac_targets :: "target set"
  ac_report :: reconcile_report
  ac_due :: "instant list"
  ac_idle_scan :: duration
  ac_observed :: "reconcile_observation list"
  ac_started :: "claim list"

definition active_new :: "reconcile_policy \<Rightarrow> active" where
  "active_new p = \<lparr>ac_tasks = [], ac_targets = {}, ac_report = report_default, ac_due = [],
     ac_idle_scan = pl_idle_scan p, ac_observed = [], ac_started = []\<rparr>"

definition active_observe :: "reconcile_observation \<Rightarrow> active \<Rightarrow> active" where
  "active_observe ob a = a\<lparr>ac_observed := ac_observed a @ [ob]\<rparr>"

definition active_emit :: "target \<Rightarrow> failure \<Rightarrow> active \<Rightarrow> active" where
  "active_emit t f = active_observe (AttemptFailed t (fl_stage f) (fl_error f))"

definition active_schedule :: "instant \<Rightarrow> duration \<Rightarrow> active \<Rightarrow> active" where
  "active_schedule now after a =
     (if after < ac_idle_scan a
      then a\<lparr>ac_due := insort_insert (duration_saturating_add now after) (ac_due a)\<rparr> else a)"

definition scanned_through :: "instant \<Rightarrow> active \<Rightarrow> active" where
  "scanned_through started a = a\<lparr>ac_due := dropWhile (\<lambda>d. d \<le> started) (ac_due a)\<rparr>"

definition active_delay :: "instant \<Rightarrow> active \<Rightarrow> duration" where
  "active_delay now a =
     (case ac_due a of [] \<Rightarrow> ac_idle_scan a | due # _ \<Rightarrow> min (due - now) (ac_idle_scan a))"

definition rc_count_result :: "failure + reconcile_completion \<Rightarrow> reconcile_report \<Rightarrow> reconcile_report" where
  "rc_count_result result r =
     (case result of
        Inr Converged \<Rightarrow> r\<lparr>rp_converged := Suc (rp_converged r)\<rparr>
      | Inr (Reobserve _) \<Rightarrow> r\<lparr>rp_reobserve := Suc (rp_reobserve r)\<rparr>
      | Inr (Deferred _) \<Rightarrow> r\<lparr>rp_deferred := Suc (rp_deferred r)\<rparr>
      | Inr (Retry _ _) \<Rightarrow> r\<lparr>rp_retried := Suc (rp_retried r)\<rparr>
      | Inr (Suspended _) \<Rightarrow> r\<lparr>rp_suspended := Suc (rp_suspended r)\<rparr>
      | Inl f \<Rightarrow>
          if fl_error f = RFenced then r\<lparr>rp_fenced := Suc (rp_fenced r)\<rparr>
          else r\<lparr>rp_execution_failed := Suc (rp_execution_failed r)\<rparr>)"

definition next_run :: "failure + reconcile_completion \<Rightarrow> duration option" where
  "next_run result =
     (case result of
        Inr (Reobserve after) \<Rightarrow> Some after
      | Inr (Deferred after) \<Rightarrow> Some after
      | Inr (Retry after _) \<Rightarrow> Some after
      | _ \<Rightarrow> None)"

definition observe_result :: "target \<Rightarrow> failure + reconcile_completion \<Rightarrow> active \<Rightarrow> active" where
  "observe_result t result =
     (case result of
        Inr (Deferred _) \<Rightarrow> active_observe (DeferredSeen t)
      | Inr _ \<Rightarrow> id
      | Inl f \<Rightarrow> active_emit t f)"

definition record_outcome :: "target \<Rightarrow> rc_outcome \<Rightarrow> instant \<Rightarrow> active \<Rightarrow> active" where
  "record_outcome t out now a =
     (let a = (case next_run (oc_result out) of Some after \<Rightarrow> active_schedule now after a | None \<Rightarrow> a);
          a = a\<lparr>ac_targets := ac_targets a - {t}, ac_tasks := remove1 t (ac_tasks a)\<rparr>;
          a = fold (active_emit t) (oc_prior out) a in
      observe_result t (oc_result out) (a\<lparr>ac_report := rc_count_result (oc_result out) (ac_report a)\<rparr>))"

definition active_scan_error :: "reconcile_scope \<Rightarrow> reconcile_error \<Rightarrow> active \<Rightarrow> active" where
  "active_scan_error sc e a =
     (let r = ac_report a in
      active_observe (ScanFailed sc e)
        (a\<lparr>ac_report :=
           (if e = RCommitUnknown then r\<lparr>rp_claim_unknown_batches := Suc (rp_claim_unknown_batches r)\<rparr>
            else r\<lparr>rp_scan_failed := Suc (rp_scan_failed r)\<rparr>)\<rparr>))"

text \<open>The admission loop; it stops at a claim of another scope or of a target that is running.\<close>

fun admit_claims :: "reconcile_scope \<Rightarrow> claim list \<Rightarrow> active \<Rightarrow> bool \<times> active" where
  "admit_claims sc [] a = (True, a)"
| "admit_claims sc (c # cs) a =
     (if tg_scope (cl_target c) \<noteq> sc \<or> cl_target c \<in> ac_targets a then (False, a)
      else admit_claims sc cs
        (a\<lparr>ac_targets := insert (cl_target c) (ac_targets a), ac_tasks := ac_tasks a @ [cl_target c],
           ac_started := ac_started a @ [c]\<rparr>))"

subsection \<open>Transitions\<close>

record claim_batch =
  cb_claims :: "claim list"
  cb_more :: bool

datatype runner_phase =
    AtStop
  | AtCheck
  | AtScan
  | Scanning nat instant
  | ScanInterrupted reconcile_error bool
  | ScanStopped reconcile_error
  | AtBackoff bool
  | AtDelay
  | Waiting duration
  | WaitInterrupted reconcile_error
  | Draining "reconcile_error option"
  | Finished "reconcile_error + reconcile_report"

datatype runner_input =
    StopRead bool
  | ControlRead "reconcile_error option"
  | ClockRead instant
  | TaskDone target rc_outcome instant
  | ScanDone "reconcile_error + claim_batch"
  | Woken
  | Interrupt reconcile_error

type_synonym runner = "runner_phase \<times> active"

definition runner_new :: "reconcile_policy \<Rightarrow> runner" where
  "runner_new p = (AtStop, active_new p)"

definition drained :: "reconcile_error option \<Rightarrow> active \<Rightarrow> runner" where
  "drained exit a =
     (if ac_tasks a = [] then (Finished (case exit of None \<Rightarrow> Ok (ac_report a) | Some e \<Rightarrow> Err e), a)
      else (Draining exit, a))"

text \<open>The end of an iteration: scan again at once, or wait.\<close>

definition after_scan :: "reconcile_policy \<Rightarrow> bool \<Rightarrow> active \<Rightarrow> runner" where
  "after_scan p again a =
     (if again \<and> length (ac_tasks a) < pl_concurrency p then (AtStop, a) else (AtDelay, a))"

definition scan_ok :: "reconcile_policy \<Rightarrow> reconcile_scope \<Rightarrow> nat \<Rightarrow> bool \<Rightarrow> claim_batch \<Rightarrow> active \<Rightarrow> runner" where
  "scan_ok p sc available freed batch a =
     (if length (cb_claims batch) > available then drained (Some RInvariant) a
      else case admit_claims sc (cb_claims batch) a of
        (True, a') \<Rightarrow> after_scan p (freed \<or> cb_more batch) a'
      | (False, a') \<Rightarrow> drained (Some RInvariant) a')"

text \<open>A failed scan whose error is not an interruption of the whole run.\<close>

definition scan_failed :: "reconcile_scope \<Rightarrow> bool \<Rightarrow> reconcile_error \<Rightarrow> active \<Rightarrow> runner" where
  "scan_failed sc freed e a =
     (if e \<in> {RTransient, RDeadline, RCommitUnknown} then (AtBackoff freed, active_scan_error sc e a)
      else drained (Some e) (active_scan_error sc e a))"

definition runner_step :: "reconcile_policy \<Rightarrow> reconcile_scope \<Rightarrow> runner \<Rightarrow> runner_input \<Rightarrow> unit + runner" where
  "runner_step p sc st i =
     (case st of (ph, a) \<Rightarrow>
      case (ph, i) of
        (AtStop, StopRead stop) \<Rightarrow> Ok (if stop then drained None a else (AtCheck, a))
      | (AtCheck, ControlRead r) \<Rightarrow>
          Ok (if r \<noteq> None then (Finished (Ok (ac_report a)), a)
              else if length (ac_tasks a) < pl_concurrency p then (AtScan, a) else (AtDelay, a))
      | (AtScan, ClockRead started) \<Rightarrow> Ok (Scanning (length (ac_tasks a)) started, a)
      | (Scanning before started, TaskDone t out now) \<Rightarrow>
          if t \<in> set (ac_tasks a) then Ok (ph, record_outcome t out now a) else Err ()
      | (Scanning before started, ScanDone r) \<Rightarrow>
          (let a = scanned_through started a; freed = length (ac_tasks a) < before in
           Ok (case r of
                 Inr batch \<Rightarrow> scan_ok p sc (pl_concurrency p - before) freed batch a
               | Inl e \<Rightarrow>
                   if e \<in> {RCancelled, RDeadline} then (ScanInterrupted e freed, a)
                   else scan_failed sc freed e a))
      | (ScanInterrupted e freed, ControlRead r) \<Rightarrow>
          Ok (if r \<noteq> None then (ScanStopped e, a) else scan_failed sc freed e a)
      | (ScanStopped e, StopRead stop) \<Rightarrow> Ok (Finished (if stop then Err e else Ok (ac_report a)), a)
      | (AtBackoff freed, ClockRead now) \<Rightarrow> Ok (after_scan p freed (active_schedule now (pl_scan p) a))
      | (AtDelay, ClockRead now) \<Rightarrow> Ok (Waiting (active_delay now a), a)
      | (Waiting _, TaskDone t out now) \<Rightarrow>
          if t \<in> set (ac_tasks a) then Ok (AtStop, record_outcome t out now a) else Err ()
      | (Waiting _, Woken) \<Rightarrow> Ok (AtStop, a)
      | (Waiting _, Interrupt e) \<Rightarrow> Ok (WaitInterrupted e, a)
      | (WaitInterrupted e, StopRead stop) \<Rightarrow> Ok (Finished (if stop then Err e else Ok (ac_report a)), a)
      | (Draining exit, TaskDone t out now) \<Rightarrow>
          if t \<in> set (ac_tasks a) then Ok (drained exit (record_outcome t out now a)) else Err ()
      | (Draining _, Interrupt e) \<Rightarrow> Ok (Finished (Err e), a)
      | _ \<Rightarrow> Err ())"

definition runner_run :: "reconcile_policy \<Rightarrow> reconcile_scope \<Rightarrow> runner_input list \<Rightarrow> runner" where
  "runner_run p sc inputs = run_inputs (runner_step p sc) (runner_new p) inputs"

subsection \<open>Accounting\<close>

definition completed :: "reconcile_report \<Rightarrow> nat" where
  "completed r = rp_converged r + rp_reobserve r + rp_deferred r + rp_retried r + rp_suspended r + rp_fenced r +
     rp_execution_failed r"

definition is_deferral :: "reconcile_observation \<Rightarrow> bool" where
  "is_deferral ob \<longleftrightarrow> (case ob of DeferredSeen _ \<Rightarrow> True | _ \<Rightarrow> False)"

definition is_scan_failure :: "reconcile_observation \<Rightarrow> bool" where
  "is_scan_failure ob \<longleftrightarrow> (case ob of ScanFailed _ _ \<Rightarrow> True | _ \<Rightarrow> False)"

lemma completed_count [simp]: "completed (rc_count_result result r) = Suc (completed r)"
  by (auto simp: completed_def rc_count_result_def split: sum.split reconcile_completion.split)

lemma active_observe_fields [simp]:
  "ac_tasks (active_observe ob a) = ac_tasks a" "ac_targets (active_observe ob a) = ac_targets a"
  "ac_report (active_observe ob a) = ac_report a" "ac_due (active_observe ob a) = ac_due a"
  "ac_idle_scan (active_observe ob a) = ac_idle_scan a" "ac_started (active_observe ob a) = ac_started a"
  "ac_observed (active_observe ob a) = ac_observed a @ [ob]"
  by (simp_all add: active_observe_def)

lemma emit_all_fields [simp]:
  "ac_tasks (fold (active_emit t) fs a) = ac_tasks a" "ac_targets (fold (active_emit t) fs a) = ac_targets a"
  "ac_report (fold (active_emit t) fs a) = ac_report a" "ac_due (fold (active_emit t) fs a) = ac_due a"
  "ac_idle_scan (fold (active_emit t) fs a) = ac_idle_scan a" "ac_started (fold (active_emit t) fs a) = ac_started a"
  "ac_observed (fold (active_emit t) fs a) =
     ac_observed a @ map (\<lambda>f. AttemptFailed t (fl_stage f) (fl_error f)) fs"
  by (induction fs arbitrary: a) (simp_all add: active_emit_def)

lemma active_schedule_fields [simp]:
  "ac_tasks (active_schedule now d a) = ac_tasks a" "ac_targets (active_schedule now d a) = ac_targets a"
  "ac_report (active_schedule now d a) = ac_report a" "ac_idle_scan (active_schedule now d a) = ac_idle_scan a"
  "ac_started (active_schedule now d a) = ac_started a" "ac_observed (active_schedule now d a) = ac_observed a"
  "set (ac_due (active_schedule now d a)) =
     (if d < ac_idle_scan a then insert (duration_saturating_add now d) (set (ac_due a)) else set (ac_due a))"
  by (simp_all add: active_schedule_def set_insort_insert)

lemma scanned_through_fields [simp]:
  "ac_tasks (scanned_through t a) = ac_tasks a" "ac_targets (scanned_through t a) = ac_targets a"
  "ac_report (scanned_through t a) = ac_report a" "ac_idle_scan (scanned_through t a) = ac_idle_scan a"
  "ac_started (scanned_through t a) = ac_started a" "ac_observed (scanned_through t a) = ac_observed a"
  by (simp_all add: scanned_through_def)

lemma record_outcome_fields [simp]:
  "ac_tasks (record_outcome t out now a) = remove1 t (ac_tasks a)"
  "ac_targets (record_outcome t out now a) = ac_targets a - {t}"
  "ac_report (record_outcome t out now a) = rc_count_result (oc_result out) (ac_report a)"
  "ac_idle_scan (record_outcome t out now a) = ac_idle_scan a"
  "ac_started (record_outcome t out now a) = ac_started a"
  "ac_due (record_outcome t out now a) =
     ac_due (case next_run (oc_result out) of Some after \<Rightarrow> active_schedule now after a | None \<Rightarrow> a)"
  by (simp_all add: record_outcome_def observe_result_def active_emit_def split: option.split sum.split reconcile_completion.split)

text \<open>What the observer hears of one rc_outcome.\<close>

definition outcome_observations :: "target \<Rightarrow> rc_outcome \<Rightarrow> reconcile_observation list" where
  "outcome_observations t out =
     map (\<lambda>f. AttemptFailed t (fl_stage f) (fl_error f)) (oc_prior out) @
     (case oc_result out of
        Inr (Deferred _) \<Rightarrow> [DeferredSeen t]
      | Inr _ \<Rightarrow> []
      | Inl f \<Rightarrow> [AttemptFailed t (fl_stage f) (fl_error f)])"

lemma record_outcome_observed [simp]:
  "ac_observed (record_outcome t out now a) = ac_observed a @ outcome_observations t out"
  by (simp add: record_outcome_def observe_result_def active_emit_def outcome_observations_def Let_def
      split: option.split sum.split reconcile_completion.split)

lemma deferred_count:
  "rp_deferred (rc_count_result (oc_result out) r) = rp_deferred r + length (filter is_deferral (outcome_observations t out))"
  by (auto simp: outcome_observations_def rc_count_result_def is_deferral_def o_def
      split: sum.split reconcile_completion.split)

lemma outcome_observations_counts [simp]:
  "filter is_scan_failure (outcome_observations t out) = []"
  "rp_scan_failed (rc_count_result (oc_result out) r) = rp_scan_failed r"
  "rp_claim_unknown_batches (rc_count_result (oc_result out) r) = rp_claim_unknown_batches r"
  by (auto simp: outcome_observations_def rc_count_result_def is_scan_failure_def is_deferral_def filter_empty_conv o_def
      split: sum.split reconcile_completion.split)

lemma active_scan_error_fields [simp]:
  "ac_tasks (active_scan_error sc e a) = ac_tasks a" "ac_targets (active_scan_error sc e a) = ac_targets a"
  "ac_due (active_scan_error sc e a) = ac_due a" "ac_idle_scan (active_scan_error sc e a) = ac_idle_scan a"
  "ac_started (active_scan_error sc e a) = ac_started a" "completed (ac_report (active_scan_error sc e a)) = completed (ac_report a)"
  "ac_observed (active_scan_error sc e a) = ac_observed a @ [ScanFailed sc e]"
  "rp_deferred (ac_report (active_scan_error sc e a)) = rp_deferred (ac_report a)"
  "rp_scan_failed (ac_report (active_scan_error sc e a)) + rp_claim_unknown_batches (ac_report (active_scan_error sc e a)) =
     Suc (rp_scan_failed (ac_report a) + rp_claim_unknown_batches (ac_report a))"
  by (simp_all add: active_scan_error_def completed_def Let_def)

text \<open>The books: running targets are distinct and of the scope, every started claim is running or counted once.\<close>

definition books :: "reconcile_policy \<Rightarrow> reconcile_scope \<Rightarrow> active \<Rightarrow> bool" where
  "books p sc a \<longleftrightarrow>
     distinct (ac_tasks a) \<and> set (ac_tasks a) = ac_targets a \<and> (\<forall>t \<in> ac_targets a. tg_scope t = sc) \<and>
     length (ac_tasks a) \<le> pl_concurrency p \<and> ac_idle_scan a = pl_idle_scan p \<and>
     sorted (ac_due a) \<and> distinct (ac_due a) \<and>
     completed (ac_report a) + length (ac_tasks a) = length (ac_started a) \<and>
     rp_deferred (ac_report a) = length (filter is_deferral (ac_observed a)) \<and>
     rp_scan_failed (ac_report a) + rp_claim_unknown_batches (ac_report a) = length (filter is_scan_failure (ac_observed a))"

definition runner_inv :: "reconcile_policy \<Rightarrow> reconcile_scope \<Rightarrow> runner \<Rightarrow> bool" where
  "runner_inv p sc st \<longleftrightarrow>
     (case st of (ph, a) \<Rightarrow>
        books p sc a \<and>
        (case ph of
           AtScan \<Rightarrow> length (ac_tasks a) < pl_concurrency p
         | Scanning before _ \<Rightarrow> before < pl_concurrency p \<and> length (ac_tasks a) \<le> before
         | Waiting d \<Rightarrow> d \<le> pl_idle_scan p
         | Draining _ \<Rightarrow> ac_tasks a \<noteq> []
         | Finished (Inr r) \<Rightarrow> r = ac_report a
         | _ \<Rightarrow> True))"

lemma books_new: "books p sc (active_new p)"
  by (simp add: books_def active_new_def report_default_def completed_def)

lemma books_schedule: "books p sc a \<Longrightarrow> books p sc (active_schedule now d a)"
  by (simp add: books_def) (simp add: active_schedule_def sorted_insort_insert distinct_insort_insert)

lemma books_scanned: "books p sc a \<Longrightarrow> books p sc (scanned_through t a)"
  by (simp add: books_def) (simp add: scanned_through_def sorted_wrt_dropWhile distinct_dropWhile)

lemma Suc_length_remove1: "t \<in> set ts \<Longrightarrow> Suc (length (remove1 t ts)) = length ts"
  by (induction ts) auto

lemma books_record: "books p sc a \<Longrightarrow> t \<in> set (ac_tasks a) \<Longrightarrow> books p sc (record_outcome t out now a)"
  using books_schedule [of p sc a now] Suc_length_remove1 [of t "ac_tasks a"]
  by (auto simp: books_def deferred_count [of out _ t] split: option.split)

lemma books_scan_error: "books p sc a \<Longrightarrow> books p sc (active_scan_error sc e a)"
  by (simp add: books_def is_deferral_def is_scan_failure_def)

lemma books_admit:
  assumes "books p sc a" and "length (ac_tasks a) + length cs \<le> pl_concurrency p"
    and "admit_claims sc cs a = (ok, a')"
  shows "books p sc a' \<and> length (ac_tasks a') \<le> length (ac_tasks a) + length cs \<and>
    (\<exists>n \<le> length cs. ac_started a' = ac_started a @ take n cs \<and> (ok \<longrightarrow> n = length cs))"
  using assms
proof (induction cs arbitrary: a)
  case (Cons c cs)
  show ?case
  proof (cases "tg_scope (cl_target c) \<noteq> sc \<or> cl_target c \<in> ac_targets a")
    case True
    with Cons.prems show ?thesis by auto
  next
    case False
    let ?a = "a\<lparr>ac_targets := insert (cl_target c) (ac_targets a), ac_tasks := ac_tasks a @ [cl_target c],
      ac_started := ac_started a @ [c]\<rparr>"
    have "books p sc ?a" using Cons.prems(1,2) False by (auto simp: books_def)
    moreover have "length (ac_tasks ?a) + length cs \<le> pl_concurrency p" using Cons.prems(2) by simp
    moreover have "admit_claims sc cs ?a = (ok, a')" using Cons.prems(3) False by simp
    ultimately have "books p sc a' \<and> length (ac_tasks a') \<le> length (ac_tasks ?a) + length cs \<and>
      (\<exists>n \<le> length cs. ac_started a' = ac_started ?a @ take n cs \<and> (ok \<longrightarrow> n = length cs))"
      by (rule Cons.IH)
    then obtain n where "books p sc a'" "length (ac_tasks a') \<le> length (ac_tasks ?a) + length cs"
      "n \<le> length cs" "ac_started a' = ac_started ?a @ take n cs" "ok \<longrightarrow> n = length cs" by blast
    then show ?thesis by (auto intro!: exI [of _ "Suc n"])
  qed
qed auto

lemma drained_inv: "books p sc a \<Longrightarrow> runner_inv p sc (drained exit a)"
  by (simp add: drained_def runner_inv_def split: option.split)

lemma after_scan_inv: "books p sc a \<Longrightarrow> runner_inv p sc (after_scan p again a)"
  by (simp add: after_scan_def runner_inv_def)

lemma scan_ok_inv:
  assumes "books p sc a" and "length (ac_tasks a) + available \<le> pl_concurrency p"
  shows "runner_inv p sc (scan_ok p sc available freed batch a)"
proof (cases "admit_claims sc (cb_claims batch) a")
  case (Pair ok a')
  with assms books_admit [of p sc a "cb_claims batch" ok a'] show ?thesis
    by (cases ok) (auto simp: scan_ok_def intro!: drained_inv after_scan_inv)
qed

lemma scan_failed_inv: "books p sc a \<Longrightarrow> runner_inv p sc (scan_failed sc freed e a)"
  using books_scan_error [of p sc a e]
  by (auto simp: scan_failed_def intro: drained_inv) (simp_all add: runner_inv_def)

lemma active_delay_le: "active_delay now a \<le> ac_idle_scan a"
  by (simp add: active_delay_def split: list.split)

lemma runner_step_inv:
  assumes "runner_inv p sc st" and "runner_step p sc st i = Ok st'"
  shows "runner_inv p sc st'"
proof -
  obtain ph a where st: "st = (ph, a)" by (cases st)
  from assms(1) st have b: "books p sc a" by (simp add: runner_inv_def)
  then have d: "active_delay now a \<le> pl_idle_scan p" for now
    using active_delay_le [of now a] by (simp add: books_def)
  from assms show ?thesis
    unfolding st
    by (cases ph; cases i)
      (auto simp: runner_step_def Let_def runner_inv_def [of p sc "(_, _)"] b d length_remove1 split: if_splits sum.splits
        intro!: drained_inv after_scan_inv scan_ok_inv scan_failed_inv books_record books_scanned books_schedule)
qed

lemma admit_started: "admit_claims sc cs a = (ok, a') \<Longrightarrow> \<exists>n. ac_started a' = ac_started a @ take n cs"
proof (induction cs arbitrary: a)
  case (Cons c cs)
  show ?case
  proof (cases "tg_scope (cl_target c) \<noteq> sc \<or> cl_target c \<in> ac_targets a")
    case True
    with Cons.prems show ?thesis by (intro exI [of _ 0]) simp
  next
    case False
    with Cons.prems Cons.IH obtain n where "ac_started a' = (ac_started a @ [c]) @ take n cs" by fastforce
    then show ?thesis by (intro exI [of _ "Suc n"]) simp
  qed
qed simp

lemma drained_started [simp]: "ac_started (snd (drained exit a)) = ac_started a"
  by (simp add: drained_def)

lemma after_scan_started [simp]: "ac_started (snd (after_scan p again a)) = ac_started a"
  by (simp add: after_scan_def)

lemma scan_failed_started [simp]: "ac_started (snd (scan_failed sc freed e a)) = ac_started a"
  by (simp add: scan_failed_def)

lemma scan_ok_started: "length (ac_started a) \<le> length (ac_started (snd (scan_ok p sc available freed batch a)))"
proof (cases "admit_claims sc (cb_claims batch) a")
  case (Pair ok a')
  from admit_started [OF Pair] Pair show ?thesis by (cases ok) (auto simp: scan_ok_def)
qed

interpretation runner: reducer "runner_step p sc" "runner_inv p sc" "\<lambda>st. length (ac_started (snd st))"
proof
  fix st i st'
  assume inv: "runner_inv p sc st" and step: "runner_step p sc st i = Inr st'"
  then show "runner_inv p sc st'" by (rule runner_step_inv)
  have "length (ac_started a) \<le> length (ac_started (snd (scan_ok p sc n freed batch (scanned_through t a))))" for a n freed batch t
    using scan_ok_started [of "scanned_through t a" p sc n freed batch] by simp
  then show "length (ac_started (snd st)) \<le> length (ac_started (snd st'))"
    using step
    by (cases st; cases "fst st"; cases i) (auto simp: runner_step_def Let_def split: if_splits sum.splits)
qed

text \<open>
  C29. After any sequence of signals, outcomes and scans the runner executes at most \<open>concurrency\<close>
  targets at a time, all distinct and of its own scope; every claim it started is either still
  running or counted exactly once in the report; the observer heard of every deferral and of
  every failed scan; a wait never exceeds the recovery interval, and a result is the report.
\<close>

theorem runner_accounts: "runner_inv p sc (runner_run p sc inputs)"
  unfolding runner_run_def
  by (rule runner.run_valid) (simp add: runner_new_def runner_inv_def books_new)

text \<open>After a stop no claim is started, and the run ends with a report only when everything is recorded.\<close>

definition stopping :: "claim list \<Rightarrow> runner \<Rightarrow> bool" where
  "stopping started st \<longleftrightarrow>
     ac_started (snd st) = started \<and>
     (fst st = Draining None \<or> (\<exists>e. fst st = Finished (Err e)) \<or>
      fst st = Finished (Ok (ac_report (snd st))) \<and> ac_tasks (snd st) = [])"

lemma stopping_drained: "ac_started a = started \<Longrightarrow> stopping started (drained None a)"
  by (simp add: drained_def stopping_def)

lemma stopping_step: "stopping started st \<Longrightarrow> runner_step p sc st i = Ok st' \<Longrightarrow> stopping started st'"
  by (cases st; cases i) (auto simp: stopping_def runner_step_def drained_def split: if_splits)

text \<open>
  C31. A stop request seen at the head of the loop ends admission: whatever follows, no further
  claim is started, and if the run ends with a report, then no execution is left running and the
  report counts every claim that was ever started. An interrupted drain ends with an error.
\<close>

theorem runner_stop_drains:
  assumes "fst (runner_run p sc inputs) = AtStop"
  shows "stopping (ac_started (snd (runner_run p sc inputs))) (runner_run p sc (inputs @ StopRead True # later)) \<and>
    (\<forall>r. fst (runner_run p sc (inputs @ StopRead True # later)) = Finished (Ok r) \<longrightarrow>
       completed r = length (ac_started (snd (runner_run p sc inputs))))"
proof -
  let ?st = "runner_run p sc inputs" and ?fin = "runner_run p sc (inputs @ StopRead True # later)"
  let ?started = "ac_started (snd ?st)"
  have fin: "?fin = run_inputs (runner_step p sc) (keep_on_err ?st (runner_step p sc ?st (StopRead True))) later"
    by (simp add: runner_run_def)
  have first: "runner_step p sc ?st (StopRead True) = Ok (drained None (snd ?st))"
    using assms by (cases ?st) (simp add: runner_step_def)
  have "stopping ?started (drained None (snd ?st)) \<and> runner_inv p sc (drained None (snd ?st))"
    using runner_step_inv [OF _ first] runner_accounts by (simp add: stopping_drained)
  then have "stopping ?started ?fin"
    unfolding fin first using runner.run_invariant [where P = "stopping ?started"] stopping_step by fastforce
  moreover have "runner_inv p sc ?fin" by (rule runner_accounts)
  ultimately show ?thesis
    by (cases ?fin) (auto simp: stopping_def runner_inv_def books_def)
qed

lemma admit_due: "ac_due (snd (admit_claims sc cs a)) = ac_due a"
  by (induction sc cs a rule: admit_claims.induct) auto

lemma phase_due [simp]:
  "ac_due (snd (drained exit a)) = ac_due a" "ac_due (snd (after_scan p again a)) = ac_due a"
  "ac_due (snd (scan_failed sc freed e a)) = ac_due a" "ac_due (snd (scan_ok p sc available freed batch a)) = ac_due a"
  using admit_due [of sc "cb_claims batch" a]
  by (auto simp: drained_def after_scan_def scan_failed_def scan_ok_def split: prod.splits bool.splits)

lemma dropWhile_keeps: "d \<in> set ds \<Longrightarrow> \<not> P d \<Longrightarrow> d \<in> set (dropWhile P ds)"
  by (induction ds) auto

lemma scanned_through_due: "d \<in> set (ac_due a) \<Longrightarrow> t < d \<Longrightarrow> d \<in> set (ac_due (scanned_through t a))"
  by (simp add: scanned_through_def dropWhile_keeps)

lemma record_outcome_due: "d \<in> set (ac_due a) \<Longrightarrow> d \<in> set (ac_due (record_outcome t out now a))"
  by (auto split: option.split)

lemma runner_step_due:
  assumes "runner_step p sc (ph, a) i = Ok st'" and "d \<in> set (ac_due a)"
  shows "d \<in> set (ac_due (snd st')) \<or> (\<exists>before started r. ph = Scanning before started \<and> i = ScanDone r \<and> d \<le> started)"
proof (cases "\<exists>before started r. ph = Scanning before started \<and> i = ScanDone r")
  case True
  then obtain before started r where s: "ph = Scanning before started" "i = ScanDone r" by blast
  have "d \<in> set (ac_due (snd st'))" if "started < d"
    using assms(1) scanned_through_due [OF assms(2) that] s by (auto simp: runner_step_def Let_def split: sum.splits)
  with s show ?thesis by (cases "started < d") auto
next
  case False
  with assms record_outcome_due [OF assms(2)] show ?thesis
    by (cases ph; cases i) (auto simp: runner_step_def split: if_splits)
qed

lemma active_delay_due:
  assumes "sorted (ac_due a)" and "d \<in> set (ac_due a)"
  shows "now + active_delay now a \<le> max now d"
  using assms by (cases "ac_due a") (auto simp: active_delay_def)

text \<open>
  A scheduling hint is not lost: it stays until a scan that started no earlier than it has
  ended, and a wait never lasts beyond the earliest hint.
\<close>

theorem runner_keeps_hints:
  assumes "runner_step p sc (runner_run p sc inputs) i = Ok (ph', a')"
    and "d \<in> set (ac_due (snd (runner_run p sc inputs)))"
  shows "(d \<in> set (ac_due a') \<or>
      (\<exists>before started r. fst (runner_run p sc inputs) = Scanning before started \<and> i = ScanDone r \<and> d \<le> started)) \<and>
    (\<forall>now w. i = ClockRead now \<longrightarrow> ph' = Waiting w \<longrightarrow> now + w \<le> max now d)"
proof -
  obtain ph a where st: "runner_run p sc inputs = (ph, a)" by fastforce
  have sorted: "sorted (ac_due a)" using runner_accounts [of p sc inputs] st by (simp add: runner_inv_def books_def)
  have "w = active_delay now a" if "i = ClockRead now" "ph' = Waiting w" for now w
    using assms(1) st that
    by (cases ph) (auto simp: runner_step_def after_scan_def split: if_splits)
  then have "\<forall>now w. i = ClockRead now \<longrightarrow> ph' = Waiting w \<longrightarrow> now + w \<le> max now d"
    using active_delay_due [OF sorted, of d] assms(2) st by (metis snd_conv)
  then show ?thesis
    using runner_step_due [of p sc ph a i "(ph', a')" d] assms st by auto
qed

subsection \<open>A sample run\<close>

definition demo_inputs :: "runner_input list" where
  "demo_inputs = [StopRead False, ControlRead None, ClockRead 0,
     ScanDone (Ok \<lparr>cb_claims = [demo_claim], cb_more = False\<rparr>), ClockRead 1,
     TaskDone demo_target \<lparr>oc_result = Ok (Reobserve (from_secs 5)), oc_prior = []\<rparr> 2]"

lemmas runner_eval = runner_run_def runner_new_def runner_step_def active_new_def report_default_def scanned_through_def
  scan_ok_def after_scan_def active_delay_def record_outcome_def next_run_def rc_count_result_def observe_result_def
  active_schedule_def duration_saturating_add_def duration_max_def demo_claim_def demo_target_def demo_policy_def
  from_secs_def insort_insert_key_def drained_def

lemma demo_runner_run:
  "runner_run demo_policy (tg_scope demo_target) demo_inputs =
     (AtStop, (active_new demo_policy)\<lparr>ac_report := report_default\<lparr>rp_reobserve := 1\<rparr>, ac_due := [5000000002],
        ac_started := [demo_claim]\<rparr>)"
  by (simp add: runner_eval demo_inputs_def)

theorem runner_stop_drains_witness:
  "stopping [demo_claim] (runner_run demo_policy (tg_scope demo_target) (demo_inputs @ StopRead True # []))"
  using runner_stop_drains [of demo_policy "tg_scope demo_target" demo_inputs "[]"]
  by (simp only: demo_runner_run) simp

theorem runner_keeps_hints_witness:
  "\<exists>ph' a'. runner_step demo_policy (tg_scope demo_target)
      (runner_run demo_policy (tg_scope demo_target) demo_inputs) (StopRead False) = Ok (ph', a') \<and>
    5000000002 \<in> set (ac_due a')"
proof -
  let ?a = "(active_new demo_policy)\<lparr>ac_report := report_default\<lparr>rp_reobserve := 1\<rparr>, ac_due := [5000000002],
    ac_started := [demo_claim]\<rparr>"
  have "runner_step demo_policy (tg_scope demo_target)
      (runner_run demo_policy (tg_scope demo_target) demo_inputs) (StopRead False) = Ok (AtCheck, ?a)"
    unfolding demo_runner_run by (simp add: runner_step_def)
  from runner_keeps_hints [OF this, of 5000000002] this show ?thesis
    unfolding demo_runner_run by simp
qed

end
