(* ===== verification/Runtime_Lifecycle.thy ===== *)
theory Runtime_Lifecycle
  imports Messaging_Policy
begin

section \<open>Process lifecycle\<close>

text \<open>
  Models \<^verbatim>\<open>crates/runtime/src\<close>: managed tasks and dedicated threads with their status
  (\<^verbatim>\<open>resource.rs\<close>, \<^verbatim>\<open>blocking.rs\<close>), the admission gate (\<^verbatim>\<open>admission.rs\<close>), the registration phases
  (\<^verbatim>\<open>transaction.rs\<close>), the bounded reverse-order drain (\<^verbatim>\<open>shutdown.rs\<close>) and the scope that owns one
  execution (\<^verbatim>\<open>scope.rs\<close>). What a resource does when it is shut down, which branch of a race is
  ready first and which metadata call panics come from the environment. The effects of a drain
  are the trace of what it closes, cancels, starts, aborts and drops.
\<close>

subsection \<open>Failures\<close>

datatype shutdown_error_kind = OperationFailed | TaskPanicked | TaskCancelled | TaskUnknown | DeadlineExceeded

fun shutdown_error_label :: "shutdown_error_kind \<Rightarrow> string" where
  "shutdown_error_label OperationFailed = ''operation''"
| "shutdown_error_label TaskPanicked = ''task_panicked''"
| "shutdown_error_label TaskCancelled = ''task_cancelled''"
| "shutdown_error_label TaskUnknown = ''task_unknown''"
| "shutdown_error_label DeadlineExceeded = ''deadline_exceeded''"

text \<open>A \<open>ShutdownError\<close> is observed through its kind only. What Tokio says of a task that did not return:\<close>

datatype join_error = JoinPanic | JoinCancelled | JoinOther

definition from_join_error :: "join_error \<Rightarrow> shutdown_error_kind" where
  "from_join_error e = (if e = JoinPanic then TaskPanicked else if e = JoinCancelled then TaskCancelled else TaskUnknown)"

datatype shutdown_failure_kind =
    FailedWith shutdown_error_kind
  | TimedOut duration
  | ShutdownPanicked
  | BackgroundCancelled
  | BackgroundUnknown
  | NestedDeadline
  | BudgetExhausted

definition observe_returned_shutdown_error :: "shutdown_error_kind \<Rightarrow> shutdown_failure_kind" where
  "observe_returned_shutdown_error e =
     (case e of
        OperationFailed \<Rightarrow> FailedWith e
      | TaskPanicked \<Rightarrow> ShutdownPanicked
      | TaskCancelled \<Rightarrow> BackgroundCancelled
      | TaskUnknown \<Rightarrow> BackgroundUnknown
      | DeadlineExceeded \<Rightarrow> NestedDeadline)"

record resource_shutdown_error =
  re_name :: string
  re_kind :: shutdown_failure_kind

definition total_drain_budget_new :: "duration \<Rightarrow> unit + duration" where
  "total_drain_budget_new d = (if d = 0 then Err () else Ok d)"

subsection \<open>Managed tasks\<close>

datatype task_exit = ExitCancelled | ExitCompleted | ExitFailed shutdown_error_kind

datatype task_state = TaskPending | TaskRunning | TaskStopped task_exit

text \<open>
  \<open>result\<close> is what joining the spawned task or thread yields, once it has ended; \<open>joined\<close> the result
  cached by the owner's \<open>shutdown\<close>.
\<close>

record managed_task =
  mt_state :: task_state
  mt_cancelled :: bool
  mt_result :: "(join_error + (shutdown_error_kind + unit)) option"
  mt_joined :: "(shutdown_error_kind + unit) option"

definition task_prepare :: managed_task where
  "task_prepare = \<lparr>mt_state = TaskPending, mt_cancelled = False, mt_result = None, mt_joined = None\<rparr>"

definition task_start_drop :: "managed_task \<Rightarrow> managed_task" where
  "task_start_drop t =
     (if mt_state t = TaskPending then t\<lparr>mt_state := TaskStopped (ExitFailed TaskCancelled)\<rparr> else t)"

definition task_spawn :: "managed_task \<Rightarrow> managed_task" where
  "task_spawn t = (if mt_state t = TaskPending then t\<lparr>mt_state := TaskRunning\<rparr> else t)"

text \<open>The body has returned, or it or its factory has panicked (\<open>None\<close>).\<close>

definition task_finish :: "(shutdown_error_kind + unit) option \<Rightarrow> managed_task \<Rightarrow> managed_task" where
  "task_finish body t =
     (if mt_state t \<noteq> TaskRunning then t
      else case body of
        Some (Inr _) \<Rightarrow>
          t\<lparr>mt_state := TaskStopped (if mt_cancelled t then ExitCancelled else ExitCompleted), mt_result := Some (Ok (Ok ()))\<rparr>
      | Some (Inl e) \<Rightarrow> t\<lparr>mt_state := TaskStopped (ExitFailed e), mt_result := Some (Ok (Err e))\<rparr>
      | None \<Rightarrow>
          t\<lparr>mt_state := TaskStopped (ExitFailed TaskPanicked), mt_result := Some (Ok (Err TaskPanicked))\<rparr>)"

definition task_cancel :: "managed_task \<Rightarrow> managed_task" where
  "task_cancel t = t\<lparr>mt_cancelled := True\<rparr>"

text \<open>The owner is dropped: the token is cancelled and a running Tokio task is aborted, which drops its guard.\<close>

definition task_owner_drop :: "managed_task \<Rightarrow> managed_task" where
  "task_owner_drop t =
     (if mt_state t = TaskRunning
      then t\<lparr>mt_cancelled := True, mt_state := TaskStopped (ExitFailed TaskCancelled), mt_result := Some (Err JoinCancelled)\<rparr>
      else t\<lparr>mt_cancelled := True\<rparr>)"

definition join_result :: "join_error + (shutdown_error_kind + unit) \<Rightarrow> shutdown_error_kind + unit" where
  "join_result r = and_then (map_err from_join_error r) (\<lambda>x. x)"

text \<open>One poll of \<open>ManagedTask::shutdown\<close>; its value is \<open>mt_joined\<close>, \<open>None\<close> while it is pending.\<close>

definition task_shutdown :: "managed_task \<Rightarrow> managed_task" where
  "task_shutdown t =
     (let t = task_cancel t in
      case (mt_joined t, mt_result t) of
        (None, Some r) \<Rightarrow> t\<lparr>mt_joined := Some (join_result r)\<rparr>
      | _ \<Rightarrow> t)"

text \<open>
  A dedicated thread may still panic after its runner was classified, and cannot be aborted. Its
  \<open>shutdown\<close> then reports the panic and replaces the published outcome.
\<close>

definition thread_unwinds :: "managed_task \<Rightarrow> managed_task" where
  "thread_unwinds t =
     (if mt_result t \<noteq> None \<and> mt_joined t = None then t\<lparr>mt_result := Some (Err JoinPanic)\<rparr> else t)"

definition worker_shutdown :: "managed_task \<Rightarrow> managed_task" where
  "worker_shutdown t =
     (let t = task_cancel t in
      case (mt_joined t, mt_result t) of
        (None, Some (Inr r)) \<Rightarrow> t\<lparr>mt_joined := Some r\<rparr>
      | (None, Some (Inl _)) \<Rightarrow>
          t\<lparr>mt_state := TaskStopped (ExitFailed TaskPanicked), mt_joined := Some (Err TaskPanicked)\<rparr>
      | _ \<Rightarrow> t)"

definition worker_owner_drop :: "managed_task \<Rightarrow> managed_task" where
  "worker_owner_drop t = task_cancel t"

datatype task_input =
    StartDropped
  | Spawned
  | BodyEnded "(shutdown_error_kind + unit) option"
  | TokenCancelled
  | OwnerDropped
  | ShutdownPolled

fun task_step :: "managed_task \<Rightarrow> task_input \<Rightarrow> managed_task" where
  "task_step t StartDropped = task_start_drop t"
| "task_step t Spawned = task_spawn t"
| "task_step t (BodyEnded r) = task_finish r t"
| "task_step t TokenCancelled = task_cancel t"
| "task_step t OwnerDropped = task_owner_drop t"
| "task_step t ShutdownPolled = task_shutdown t"

datatype worker_input =
    RunnerEnded "(shutdown_error_kind + unit) option"
  | ThreadUnwound
  | WorkerCancelled
  | WorkerDropped
  | WorkerPolled

fun worker_step :: "managed_task \<Rightarrow> worker_input \<Rightarrow> managed_task" where
  "worker_step t (RunnerEnded r) = task_finish r t"
| "worker_step t ThreadUnwound = thread_unwinds t"
| "worker_step t WorkerCancelled = task_cancel t"
| "worker_step t WorkerDropped = worker_owner_drop t"
| "worker_step t WorkerPolled = worker_shutdown t"

definition worker_spawned :: managed_task where
  "worker_spawned = task_spawn task_prepare"

text \<open>\<open>TaskStatus::wait_stopped\<close>: the terminal outcome, or unknown when the publisher is gone.\<close>

definition wait_stopped :: "task_state \<Rightarrow> bool \<Rightarrow> task_exit option" where
  "wait_stopped s publisher_gone =
     (case s of TaskStopped e \<Rightarrow> Some e | _ \<Rightarrow> if publisher_gone then Some (ExitFailed TaskUnknown) else None)"

subsection \<open>Admission\<close>

datatype admission_phase = BeforeOpen | AdmissionOpen | AdmissionClosed

datatype admission_error = NotOpen | GateClosed | AlreadyOpen

text \<open>The tracker counts the permits that are held.\<close>

record admission =
  ad_phase :: admission_phase
  ad_permits :: nat
  ad_tracker_closed :: bool

definition admission_new :: admission where
  "admission_new = \<lparr>ad_phase = BeforeOpen, ad_permits = 0, ad_tracker_closed = False\<rparr>"

definition admission_open :: "admission \<Rightarrow> (admission_error + unit) \<times> admission" where
  "admission_open a =
     (case ad_phase a of
        BeforeOpen \<Rightarrow> (Ok (), a\<lparr>ad_phase := AdmissionOpen\<rparr>)
      | AdmissionOpen \<Rightarrow> (Err AlreadyOpen, a)
      | AdmissionClosed \<Rightarrow> (Err GateClosed, a))"

definition admission_close :: "admission \<Rightarrow> admission" where
  "admission_close a = a\<lparr>ad_phase := AdmissionClosed, ad_tracker_closed := True\<rparr>"

definition try_admit :: "admission \<Rightarrow> (admission_error + unit) \<times> admission" where
  "try_admit a =
     (case ad_phase a of
        AdmissionOpen \<Rightarrow> (Ok (), a\<lparr>ad_permits := Suc (ad_permits a)\<rparr>)
      | BeforeOpen \<Rightarrow> (Err NotOpen, a)
      | AdmissionClosed \<Rightarrow> (Err GateClosed, a))"

definition permit_drop :: "admission \<Rightarrow> admission" where
  "permit_drop a = a\<lparr>ad_permits := ad_permits a - 1\<rparr>"

text \<open>\<open>AdmissionDrain::shutdown\<close>: close, then return once the tracker is closed and empty.\<close>

definition admission_drained :: "admission \<Rightarrow> bool" where
  "admission_drained a \<longleftrightarrow> ad_tracker_closed a \<and> ad_permits a = 0"

datatype admission_input = GateOpens | GateCloses | AdmitTried | PermitDropped

fun admission_step :: "admission \<Rightarrow> admission_input \<Rightarrow> admission" where
  "admission_step a GateOpens = snd (admission_open a)"
| "admission_step a GateCloses = admission_close a"
| "admission_step a AdmitTried = snd (try_admit a)"
| "admission_step a PermitDropped = permit_drop a"

subsection \<open>The shutdown stack\<close>

text \<open>A resource whose \<open>name\<close> or \<open>shutdown_timeout\<close> panics has \<open>None\<close> there.\<close>

datatype token_kind = NoToken | RootChild | DeferredToken

record resource =
  rs_name :: "string option"
  rs_timeout :: "duration option"
  rs_token :: token_kind

datatype registration_phase = RegOpen | RegStartup | RegLaunch | RegSealed

record stack =
  sk_budget :: duration
  sk_resources :: "resource list"
  sk_phase :: registration_phase
  sk_critical :: "string list"
  sk_admission :: bool

definition stack_try_new :: "bool \<Rightarrow> duration \<Rightarrow> unit + stack" where
  "stack_try_new runtime_active budget =
     (if \<not> runtime_active then Err ()
      else Ok \<lparr>sk_budget = budget, sk_resources = [], sk_phase = RegOpen, sk_critical = [], sk_admission = False\<rparr>)"

definition stack_push :: "resource \<Rightarrow> stack \<Rightarrow> stack" where
  "stack_push r s = s\<lparr>sk_resources := sk_resources s @ [r]\<rparr>"

definition register_detached :: "resource \<Rightarrow> stack \<Rightarrow> stack" where
  "register_detached r = stack_push (r\<lparr>rs_token := NoToken\<rparr>)"

definition register_with_token :: "resource \<Rightarrow> stack \<Rightarrow> stack" where
  "register_with_token r = stack_push (r\<lparr>rs_token := RootChild\<rparr>)"

text \<open>The wrapper reads name and timeout once; a panic there reaches the caller before anything is registered.\<close>

definition register_deferred_with_token :: "resource \<Rightarrow> stack \<Rightarrow> stack option" where
  "register_deferred_with_token r s =
     (case (rs_name r, rs_timeout r) of
        (Some n, Some t) \<Rightarrow> Some (stack_push \<lparr>rs_name = Some n, rs_timeout = Some t, rs_token = DeferredToken\<rparr> s)
      | _ \<Rightarrow> None)"

definition observe_critical :: "bool \<Rightarrow> string \<Rightarrow> stack \<Rightarrow> stack" where
  "observe_critical critical name s = (if critical then s\<lparr>sk_critical := sk_critical s @ [name]\<rparr> else s)"

definition register_managed_task :: "bool \<Rightarrow> token_kind \<Rightarrow> string \<Rightarrow> duration \<Rightarrow> stack \<Rightarrow> stack" where
  "register_managed_task critical token name timeout s =
     stack_push \<lparr>rs_name = Some name, rs_timeout = Some timeout, rs_token = token\<rparr> (observe_critical critical name s)"

text \<open>A dedicated thread that cannot be created is not registered.\<close>

definition try_register_blocking ::
  "bool \<Rightarrow> bool \<Rightarrow> token_kind \<Rightarrow> string \<Rightarrow> duration \<Rightarrow> stack \<Rightarrow> unit + stack" where
  "try_register_blocking thread_started critical token name timeout s =
     (if \<not> thread_started then Err () else Ok (register_managed_task critical token name timeout s))"

definition stack_startup :: "stack \<Rightarrow> unit + stack" where
  "stack_startup s = (if sk_phase s \<noteq> RegOpen then Err () else Ok (s\<lparr>sk_phase := RegStartup\<rparr>))"

definition enter_launch :: "stack \<Rightarrow> stack" where
  "enter_launch s = s\<lparr>sk_phase := RegLaunch\<rparr>"

definition seal_registration :: "stack \<Rightarrow> stack" where
  "seal_registration s = s\<lparr>sk_phase := RegSealed\<rparr>"

definition finish_with_admission :: "string \<Rightarrow> duration \<Rightarrow> stack \<Rightarrow> stack" where
  "finish_with_admission name timeout s =
     seal_registration ((stack_push \<lparr>rs_name = Some name, rs_timeout = Some timeout, rs_token = NoToken\<rparr> s)
       \<lparr>sk_admission := True\<rparr>)"

subsection \<open>The drain\<close>

definition default_shutdown_timeout :: duration where
  "default_shutdown_timeout = from_secs 30"

definition panicked_resource_name :: string where
  "panicked_resource_name = ''<resource-metadata-panicked>''"

definition safe_resource_name :: "resource \<Rightarrow> string" where
  "safe_resource_name r = (case rs_name r of Some n \<Rightarrow> n | None \<Rightarrow> panicked_resource_name)"

definition safe_resource_metadata :: "resource \<Rightarrow> string \<times> duration \<times> resource_shutdown_error option" where
  "safe_resource_metadata r =
     (let name = safe_resource_name r; panicked = \<lparr>re_name = name, re_kind = ShutdownPanicked\<rparr> in
      case rs_timeout r of
        Some t \<Rightarrow> (name, t, if rs_name r = None then Some panicked else None)
      | None \<Rightarrow> (name, default_shutdown_timeout, Some panicked))"

text \<open>
  How the race of a resource ends: the total budget elapses, its shutdown task is joined, or its own
  timeout elapses. The flag of an interrupted rt_race says whether the task had been polled.
\<close>

datatype rt_race =
    BudgetElapsed bool
  | Joined "join_error + (shutdown_error_kind + unit)"
  | ResourceElapsed bool

datatype lifecycle_event =
    AdmissionClosing
  | RootCancelled
  | ShutdownSpawned nat
  | TokenCancelledFor nat
  | ShutdownAborted nat
  | ResourceDropped nat

definition deferred_cancel :: "nat \<Rightarrow> resource \<Rightarrow> lifecycle_event list" where
  "deferred_cancel i r = (if rs_token r = DeferredToken then [TokenCancelledFor i] else [])"

text \<open>Dropping the wrapper of a deferred resource cancels its token.\<close>

definition resource_drop :: "nat \<Rightarrow> resource \<Rightarrow> lifecycle_event list" where
  "resource_drop i r = ResourceDropped i # deferred_cancel i r"

datatype shutdown_step = StepExhausted string | StepDone "resource_shutdown_error option"

definition shutdown_one :: "rt_race \<Rightarrow> nat \<Rightarrow> resource \<Rightarrow> lifecycle_event list \<times> shutdown_step" where
  "shutdown_one outcome i r =
     (case safe_resource_metadata r of
        (name, budget, metadata_failure) \<Rightarrow>
          (case outcome of
             BudgetElapsed polled \<Rightarrow>
               (ShutdownSpawned i # (if polled then deferred_cancel i r else []) @ ShutdownAborted i # resource_drop i r,
                StepExhausted name)
           | Joined (Inr (Inr _)) \<Rightarrow>
               (ShutdownSpawned i # deferred_cancel i r @ resource_drop i r, StepDone metadata_failure)
           | Joined (Inr (Inl e)) \<Rightarrow>
               (ShutdownSpawned i # deferred_cancel i r @ resource_drop i r,
                StepDone (Some \<lparr>re_name = name, re_kind = observe_returned_shutdown_error e\<rparr>))
           | Joined (Inl _) \<Rightarrow>
               (ShutdownSpawned i # deferred_cancel i r @ resource_drop i r,
                StepDone (Some \<lparr>re_name = name, re_kind = ShutdownPanicked\<rparr>))
           | ResourceElapsed polled \<Rightarrow>
               (ShutdownSpawned i # (if polled then deferred_cancel i r else []) @ ShutdownAborted i # resource_drop i r,
                StepDone (Some \<lparr>re_name = name, re_kind = TimedOut budget\<rparr>))))"

definition budget_exhausted :: "string \<Rightarrow> resource_shutdown_error" where
  "budget_exhausted name = \<lparr>re_name = name, re_kind = BudgetExhausted\<rparr>"

definition drain_budget_exhausted ::
  "string \<Rightarrow> (nat \<times> resource) list \<Rightarrow> lifecycle_event list \<times> resource_shutdown_error list" where
  "drain_budget_exhausted current remaining =
     (concat (map (\<lambda>(i, r). resource_drop i r) remaining),
      budget_exhausted current # map (\<lambda>(_, r). budget_exhausted (safe_resource_name r)) remaining)"

datatype drain_completion = DrainComplete | DrainBudgetExhausted

record shutdown_receipt =
  sr_registered :: nat
  sr_completion :: drain_completion
  sr_failures :: "resource_shutdown_error list"

definition receipt_is_clean :: "shutdown_receipt \<Rightarrow> bool" where
  "receipt_is_clean r \<longleftrightarrow> sr_completion r = DrainComplete \<and> sr_failures r = []"

fun drain_loop ::
  "(nat \<Rightarrow> rt_race) \<Rightarrow> (nat \<times> resource) list
     \<Rightarrow> lifecycle_event list \<times> drain_completion \<times> resource_shutdown_error list" where
  "drain_loop rt_race [] = ([], DrainComplete, [])"
| "drain_loop rt_race ((i, r) # rest) =
     (case shutdown_one (rt_race i) i r of
        (es, StepExhausted name) \<Rightarrow>
          (case drain_budget_exhausted name rest of (es', fs) \<Rightarrow> (es @ es', DrainBudgetExhausted, fs))
      | (es, StepDone failure) \<Rightarrow>
          (case drain_loop rt_race rest of
             (es', c, fs) \<Rightarrow> (es @ es', c, (case failure of Some f \<Rightarrow> f # fs | None \<Rightarrow> fs))))"

definition drain_resources :: "(nat \<Rightarrow> rt_race) \<Rightarrow> resource list \<Rightarrow> lifecycle_event list \<times> shutdown_receipt" where
  "drain_resources rt_race rs =
     (case drain_loop rt_race (rev (enumerate 0 rs)) of
        (es, c, fs) \<Rightarrow> (es, \<lparr>sr_registered = length rs, sr_completion = c, sr_failures = fs\<rparr>))"

text \<open>\<open>shutdown\<close> and the drop of an owner submit the same drain, once: both take the resources.\<close>

definition spawn_owned_drain :: "(nat \<Rightarrow> rt_race) \<Rightarrow> stack \<Rightarrow> lifecycle_event list \<times> shutdown_receipt" where
  "spawn_owned_drain rt_race s =
     (case drain_resources rt_race (sk_resources s) of
        (es, receipt) \<Rightarrow> ((if sk_admission s then [AdmissionClosing] else []) @ RootCancelled # es, receipt))"

subsection \<open>Transactions\<close>

text \<open>
  What a startup or launch transaction can do. The types of the two transactions admit each
  operation only in its phase; elsewhere there is no transaction to call it on.
\<close>

datatype stage_op =
    StageResource resource
  | StageWithToken resource
  | StageDeferred resource
  | StageTask bool token_kind string duration
  | StageBlocking bool bool token_kind string duration
  | CommitStartup
  | FinishLaunch
  | FinishWithAdmission string duration

definition staging :: "stack \<Rightarrow> bool" where
  "staging s \<longleftrightarrow> sk_phase s \<in> {RegStartup, RegLaunch}"

definition apply_stage :: "stack \<Rightarrow> stage_op \<Rightarrow> stack" where
  "apply_stage s op =
     (case op of
        StageResource r \<Rightarrow> if staging s then register_detached r s else s
      | StageWithToken r \<Rightarrow> if staging s then register_with_token r s else s
      | StageDeferred r \<Rightarrow>
          if staging s then (case register_deferred_with_token r s of Some s' \<Rightarrow> s' | None \<Rightarrow> s) else s
      | StageTask critical token name timeout \<Rightarrow>
          if staging s then register_managed_task critical token name timeout s else s
      | StageBlocking ok critical token name timeout \<Rightarrow>
          if staging s then keep_on_err s (try_register_blocking ok critical token name timeout s) else s
      | CommitStartup \<Rightarrow> if sk_phase s = RegStartup then enter_launch s else s
      | FinishLaunch \<Rightarrow> if sk_phase s = RegLaunch then seal_registration s else s
      | FinishWithAdmission name timeout \<Rightarrow>
          if sk_phase s = RegLaunch then finish_with_admission name timeout s else s)"

subsection \<open>The scope\<close>

datatype ('t, 'e, 's) scope_exit =
    ScopeCompleted "'e + 't"
  | StopRequested "'s + unit"
  | CriticalTaskExited string task_exit
  | DriveCancelled
  | ExecutionPanicked
  | RegistrationIncomplete 't

text \<open>What the futures of one poll of \<open>drive\<close> yield: stop, critical monitor, execution (\<open>Some None\<close> if it panicked).\<close>

record ('t, 'e, 's) drive_poll =
  dp_staged :: "stage_op list"
  dp_stop :: "('s + unit) option"
  dp_critical :: "(string \<times> task_exit) option"
  dp_execution :: "('e + 't) option option"

definition select_exit :: "('t, 'e, 's) drive_poll \<Rightarrow> ('t, 'e, 's) scope_exit option" where
  "select_exit p =
     (case dp_stop p of
        Some r \<Rightarrow> Some (StopRequested r)
      | None \<Rightarrow>
          (case dp_critical p of
             Some (n, e) \<Rightarrow> Some (CriticalTaskExited n e)
           | None \<Rightarrow>
               (case dp_execution p of
                  Some (Some r) \<Rightarrow> Some (ScopeCompleted r)
                | Some None \<Rightarrow> Some ExecutionPanicked
                | None \<Rightarrow> None)))"

text \<open>The biased select stops at the first ready branch, so the execution is not polled after a ready one.\<close>

definition staged_stack :: "('t, 'e, 's) drive_poll \<Rightarrow> stack \<Rightarrow> stack" where
  "staged_stack p s =
     (if dp_stop p = None \<and> dp_critical p = None then foldl apply_stage s (dp_staged p) else s)"

definition final_exit :: "stack \<Rightarrow> ('t, 'e, 's) scope_exit \<Rightarrow> ('t, 'e, 's) scope_exit" where
  "final_exit s x =
     (case x of
        ScopeCompleted (Inr v) \<Rightarrow> if sk_phase s \<noteq> RegSealed then RegistrationIncomplete v else x
      | _ \<Rightarrow> x)"

datatype ('t, 'e, 's) scope =
    ScopeReady stack
  | ScopeDriving stack
  | ScopeDraining "('t, 'e, 's) scope_exit" stack
  | ScopeComplete "('t, 'e, 's) scope_exit" "unit + shutdown_receipt"

datatype ('t, 'e, 's) scope_input =
    DrivePolled "('t, 'e, 's) drive_poll"
  | DriveDropped
  | DrainEnded "(nat \<Rightarrow> rt_race) option"

datatype scope_error = AlreadyDriven | NotStarted

definition drive_turn :: "('t, 'e, 's) drive_poll \<Rightarrow> stack \<Rightarrow> ('t, 'e, 's) scope" where
  "drive_turn p s =
     (let s' = staged_stack p s in
      case select_exit p of
        None \<Rightarrow> ScopeDriving s'
      | Some x \<Rightarrow> ScopeDraining (final_exit s' x) s')"

text \<open>
  A poll of \<open>drive\<close> on a fresh scope first opens the startup phase. \<open>DrainEnded None\<close>: the runtime stopped
  before the drain gave a receipt.
\<close>

definition scope_step :: "('t, 'e, 's) scope \<Rightarrow> ('t, 'e, 's) scope_input \<Rightarrow> scope_error + ('t, 'e, 's) scope" where
  "scope_step sc i =
     (case (sc, i) of
        (ScopeReady s, DrivePolled p) \<Rightarrow> Ok (drive_turn p (keep_on_err s (stack_startup s)))
      | (ScopeDriving s, DrivePolled p) \<Rightarrow> Ok (drive_turn p s)
      | (ScopeDriving s, DriveDropped) \<Rightarrow> Ok (ScopeDraining DriveCancelled s)
      | (ScopeDraining x s, DrainEnded r) \<Rightarrow>
          Ok (ScopeComplete x (case r of None \<Rightarrow> Err () | Some rt_race \<Rightarrow> Ok (snd (spawn_owned_drain rt_race s))))
      | (ScopeReady s, _) \<Rightarrow> Err NotStarted
      | _ \<Rightarrow> Err AlreadyDriven)"

subsection \<open>Outcome of a task\<close>

text \<open>The published outcome tells the same as the result of the join.\<close>

definition exit_matches :: "task_exit \<Rightarrow> shutdown_error_kind + unit \<Rightarrow> bool" where
  "exit_matches e r \<longleftrightarrow> (case r of Inr _ \<Rightarrow> e \<in> {ExitCancelled, ExitCompleted} | Inl k \<Rightarrow> e = ExitFailed k)"

definition task_ok :: "managed_task \<Rightarrow> bool" where
  "task_ok t \<longleftrightarrow>
     (case mt_state t of
        TaskStopped e \<Rightarrow>
          (case mt_result t of
             None \<Rightarrow> mt_joined t = None
           | Some r \<Rightarrow> exit_matches e (join_result r) \<and> mt_joined t \<in> {None, Some (join_result r)})
      | _ \<Rightarrow> mt_result t = None \<and> mt_joined t = None)"

lemmas task_defs = task_start_drop_def task_spawn_def task_finish_def task_cancel_def task_owner_drop_def
  task_shutdown_def join_result_def Let_def

lemma task_step_ok: "task_ok t \<Longrightarrow> task_ok (task_step t i)"
  by (cases i) (auto simp: task_ok_def task_defs exit_matches_def from_join_error_def
      split: task_state.splits option.splits sum.splits)

lemma task_step_sticky:
  "mt_state t = TaskStopped e \<Longrightarrow> mt_state (task_step t i) = TaskStopped e"
  "mt_joined t = Some r \<Longrightarrow> mt_joined (task_step t i) = Some r"
  by (cases i; auto simp: task_defs split: option.splits sum.splits)+

lemma task_run_ok: "task_ok (foldl task_step task_prepare is)"
proof -
  have "task_ok (foldl task_step t is)" if "task_ok t" for t
    using that by (induction "is" arbitrary: t) (auto intro: task_step_ok)
  then show ?thesis by (simp add: task_ok_def task_prepare_def)
qed

lemma task_run_sticky:
  "mt_state t = TaskStopped e \<Longrightarrow> mt_state (foldl task_step t is) = TaskStopped e"
  "mt_joined t = Some r \<Longrightarrow> mt_joined (foldl task_step t is) = Some r"
  by (induction "is" arbitrary: t) (auto intro: task_step_sticky)

text \<open>
  Whatever the order of cancellation, completion, panic, abort and shutdown calls, the status
  of a managed task moves once to a terminal outcome and keeps it; every shutdown call returns
  the same join result, which agrees with that outcome; a task that has ended can be joined.
\<close>

theorem managed_task_outcome:
  assumes "t = foldl task_step task_prepare before" and "u = foldl task_step t after"
  shows "(\<forall>e. mt_state t = TaskStopped e \<longrightarrow> mt_state u = TaskStopped e) \<and>
    (\<forall>r. mt_joined t = Some r \<longrightarrow> mt_joined u = Some r \<and> (\<exists>e. mt_state u = TaskStopped e \<and> exit_matches e r)) \<and>
    (mt_result t \<noteq> None \<longrightarrow> mt_joined (task_shutdown u) \<noteq> None)"
proof -
  have ok: "task_ok t" "task_ok u"
    using assms task_run_ok [of before] task_run_ok [of "before @ after"] by simp_all
  have e: "\<forall>e. mt_state t = TaskStopped e \<longrightarrow> mt_state u = TaskStopped e"
    using assms(2) task_run_sticky(1) by blast
  have r: "mt_joined u = Some r \<and> (\<exists>e. mt_state u = TaskStopped e \<and> exit_matches e r)" if "mt_joined t = Some r" for r
  proof -
    have "mt_joined u = Some r" using assms(2) task_run_sticky(2) that by blast
    with ok(2) show ?thesis by (auto simp: task_ok_def split: task_state.splits option.splits)
  qed
  have keep: "mt_result (task_step v i) \<noteq> None" if "mt_result v \<noteq> None" for v i
    using that by (cases i) (auto simp: task_defs split: option.splits sum.splits)
  have "mt_result (foldl task_step v is) \<noteq> None" if "mt_result v \<noteq> None" for v "is"
    using that by (induction "is" arbitrary: v) (auto simp: keep simp del: not_None_eq)
  then have "mt_result u \<noteq> None" if "mt_result t \<noteq> None" using assms(2) that by blast
  then have "mt_joined (task_shutdown u) \<noteq> None" if "mt_result t \<noteq> None"
    using that by (auto simp: task_shutdown_def task_cancel_def Let_def split: option.splits)
  with e r show ?thesis by blast
qed

theorem managed_task_outcome_witness:
  "mt_joined (foldl task_step (foldl task_step task_prepare [Spawned, BodyEnded (Some (Ok ())), ShutdownPolled])
     [OwnerDropped, ShutdownPolled]) = Some (Ok ())"
  using managed_task_outcome [OF refl refl, of "[Spawned, BodyEnded (Some (Ok ())), ShutdownPolled]" "[OwnerDropped, ShutdownPolled]"]
  by (simp add: task_prepare_def task_defs)

text \<open>A dedicated thread: the outcome published after the join tells the same as its result.\<close>

definition worker_ok :: "managed_task \<Rightarrow> bool" where
  "worker_ok t \<longleftrightarrow>
     (case (mt_joined t, mt_result t) of
        (Some r, _) \<Rightarrow> (\<exists>e. mt_state t = TaskStopped e \<and> exit_matches e r)
      | (None, Some (Inr r)) \<Rightarrow> (\<exists>e. mt_state t = TaskStopped e \<and> exit_matches e r)
      | (None, _) \<Rightarrow> True)"

lemma worker_step_ok: "worker_ok t \<Longrightarrow> worker_ok (worker_step t i)"
  by (cases i)
    (auto simp: worker_ok_def task_finish_def task_cancel_def thread_unwinds_def worker_shutdown_def worker_owner_drop_def
      exit_matches_def Let_def split: option.splits sum.splits)

lemma worker_run_ok: "worker_ok (foldl worker_step worker_spawned is)"
proof -
  have "worker_ok (foldl worker_step t is)" if "worker_ok t" for t
    using that by (induction "is" arbitrary: t) (auto intro: worker_step_ok)
  then show ?thesis by (simp add: worker_ok_def worker_spawned_def task_prepare_def task_spawn_def)
qed

subsection \<open>Admission is one way\<close>

lemma admission_closed_step:
  assumes "ad_phase a = AdmissionClosed" and "ad_tracker_closed a"
  shows "ad_phase (admission_step a i) = AdmissionClosed \<and> ad_tracker_closed (admission_step a i) \<and>
    ad_permits (admission_step a i) \<le> ad_permits a"
  using assms by (cases i) (auto simp: admission_open_def admission_close_def try_admit_def permit_drop_def)

lemma admission_closed_run:
  assumes "ad_phase a = AdmissionClosed" and "ad_tracker_closed a"
  shows "ad_phase (foldl admission_step a is) = AdmissionClosed \<and> ad_tracker_closed (foldl admission_step a is) \<and>
    ad_permits (foldl admission_step a is) \<le> ad_permits a"
  using assms
proof (induction "is" arbitrary: a)
  case (Cons i "is")
  from admission_closed_step [OF Cons.prems] Cons.IH [of "admission_step a i"] show ?case
    by (auto intro: order_trans)
qed simp

lemma admission_tracker: "ad_tracker_closed (foldl admission_step admission_new is) \<longleftrightarrow>
    ad_phase (foldl admission_step admission_new is) = AdmissionClosed"
proof -
  have "ad_tracker_closed (foldl admission_step a is) \<longleftrightarrow> ad_phase (foldl admission_step a is) = AdmissionClosed"
    if "ad_tracker_closed a \<longleftrightarrow> ad_phase a = AdmissionClosed" for a
    using that
  proof (induction "is" arbitrary: a)
    case (Cons i "is")
    have "ad_tracker_closed (admission_step a i) \<longleftrightarrow> ad_phase (admission_step a i) = AdmissionClosed"
      using Cons.prems
      by (cases i) (auto simp: admission_open_def admission_close_def try_admit_def permit_drop_def split: admission_phase.split)
    then show ?case using Cons.IH by simp
  qed simp
  then show ?thesis by (simp add: admission_new_def)
qed

text \<open>
  Admission closes for good: once the gate is closed no later call opens it or admits work, the
  number of permits only falls, and once the drain has seen it empty it stays empty.
\<close>

theorem admission_closes_for_good:
  assumes "a = foldl admission_step admission_new before" and "ad_phase a = AdmissionClosed"
    and "b = foldl admission_step a after"
  shows "fst (try_admit b) = Err GateClosed \<and> fst (admission_open b) = Err GateClosed \<and>
    ad_permits b \<le> ad_permits a \<and> (admission_drained a \<longrightarrow> admission_drained b)"
proof -
  have "ad_tracker_closed a" using admission_tracker [of before] assms(1,2) by simp
  from admission_closed_run [OF assms(2) this, of after] assms(3) show ?thesis
    by (auto simp: try_admit_def admission_open_def admission_drained_def)
qed

theorem admission_closes_for_good_witness:
  "fst (try_admit (foldl admission_step (foldl admission_step admission_new [GateOpens, AdmitTried, GateCloses])
     [PermitDropped, GateOpens])) = Err GateClosed"
  using admission_closes_for_good [OF refl _ refl, of "[GateOpens, AdmitTried, GateCloses]" "[PermitDropped, GateOpens]"]
  by (simp add: admission_new_def admission_open_def try_admit_def admission_close_def permit_drop_def)

subsection \<open>Order and completeness of the drain\<close>

fun event_resource :: "lifecycle_event \<Rightarrow> nat option" where
  "event_resource (ShutdownSpawned i) = Some i"
| "event_resource (TokenCancelledFor i) = Some i"
| "event_resource (ShutdownAborted i) = Some i"
| "event_resource (ResourceDropped i) = Some i"
| "event_resource _ = None"

definition exhausts :: "rt_race \<Rightarrow> bool" where
  "exhausts o' \<longleftrightarrow> (case o' of BudgetElapsed _ \<Rightarrow> True | _ \<Rightarrow> False)"

text \<open>The resources in the order in which they are visited, and the part visited within the budget.\<close>

abbreviation visits :: "stack \<Rightarrow> (nat \<times> resource) list" where
  "visits s \<equiv> rev (enumerate 0 (sk_resources s))"

text \<open>
  The resources whose shutdown is started: all up to and including the one at which the total
  budget runs out. Errors, panics and timeouts of single resources do not stop the drain.
\<close>

definition attempted :: "(nat \<Rightarrow> rt_race) \<Rightarrow> (nat \<times> resource) list \<Rightarrow> (nat \<times> resource) list" where
  "attempted rt_race xs =
     takeWhile (\<lambda>(i, _). \<not> exhausts (rt_race i)) xs @ take 1 (dropWhile (\<lambda>(i, _). \<not> exhausts (rt_race i)) xs)"

definition elapses :: "rt_race \<Rightarrow> bool" where
  "elapses o' \<longleftrightarrow> (case o' of Joined _ \<Rightarrow> False | _ \<Rightarrow> True)"

definition event_resources :: "lifecycle_event list \<Rightarrow> nat list" where
  "event_resources es = List.map_filter event_resource es"

definition started_shutdowns :: "lifecycle_event list \<Rightarrow> nat list" where
  "started_shutdowns es = List.map_filter (\<lambda>e. case e of ShutdownSpawned i \<Rightarrow> Some i | _ \<Rightarrow> None) es"

definition aborted_shutdowns :: "lifecycle_event list \<Rightarrow> nat list" where
  "aborted_shutdowns es = List.map_filter (\<lambda>e. case e of ShutdownAborted i \<Rightarrow> Some i | _ \<Rightarrow> None) es"

definition dropped_resources :: "lifecycle_event list \<Rightarrow> nat list" where
  "dropped_resources es = List.map_filter (\<lambda>e. case e of ResourceDropped i \<Rightarrow> Some i | _ \<Rightarrow> None) es"

definition cancelled_resources :: "lifecycle_event list \<Rightarrow> nat list" where
  "cancelled_resources es = List.map_filter (\<lambda>e. case e of TokenCancelledFor i \<Rightarrow> Some i | _ \<Rightarrow> None) es"

lemmas trace_defs = event_resources_def started_shutdowns_def aborted_shutdowns_def dropped_resources_def
  cancelled_resources_def

lemma trace_append [simp]:
  "event_resources (es @ es') = event_resources es @ event_resources es'"
  "started_shutdowns (es @ es') = started_shutdowns es @ started_shutdowns es'"
  "aborted_shutdowns (es @ es') = aborted_shutdowns es @ aborted_shutdowns es'"
  "dropped_resources (es @ es') = dropped_resources es @ dropped_resources es'"
  "cancelled_resources (es @ es') = cancelled_resources es @ cancelled_resources es'"
  by (simp_all add: trace_defs List.map_filter_def)

text \<open>
  The trace \<open>es\<close> of closing \<open>xs\<close>, of which the shutdowns of \<open>as\<close> were started: started and dropped
  in order, aborted exactly where time ran out, deferred tokens cancelled, and all events of one
  resource before all events of the next.
\<close>

definition drain_trace ::
  "(nat \<Rightarrow> rt_race) \<Rightarrow> (nat \<times> resource) list \<Rightarrow> (nat \<times> resource) list \<Rightarrow> lifecycle_event list \<Rightarrow> bool" where
  "drain_trace rt_race xs as es \<longleftrightarrow>
     started_shutdowns es = map fst as \<and> dropped_resources es = map fst xs \<and>
     aborted_shutdowns es = filter (\<lambda>i. elapses (rt_race i)) (map fst as) \<and>
     set (cancelled_resources es) = fst ` set (filter (\<lambda>x. rs_token (snd x) = DeferredToken) xs) \<and>
     set (event_resources es) = fst ` set xs \<and>
     (sorted_wrt (\<ge>) (map fst xs) \<longrightarrow> sorted_wrt (\<ge>) (event_resources es))"

lemma drain_trace_Nil: "drain_trace rt_race [] [] []"
  by (simp add: drain_trace_def trace_defs List.map_filter_simps)

lemma drain_trace_append:
  "drain_trace rt_race xs as es \<Longrightarrow> drain_trace rt_race ys bs fs \<Longrightarrow> drain_trace rt_race (xs @ ys) (as @ bs) (es @ fs)"
  unfolding drain_trace_def by (auto simp: sorted_wrt_append image_Un)

lemma drain_trace_shutdown:
  assumes "shutdown_one (rt_race i) i r = (es, st)"
  shows "drain_trace rt_race [(i, r)] [(i, r)] es"
  using assms
  by (auto simp: drain_trace_def shutdown_one_def resource_drop_def deferred_cancel_def elapses_def trace_defs
      List.map_filter_simps split: rt_race.splits sum.splits prod.splits if_splits)

lemma drain_trace_release: "drain_trace rt_race xs [] (concat (map (\<lambda>(i, r). resource_drop i r) xs))"
proof (induction xs)
  case (Cons x xs)
  have "drain_trace rt_race [x] [] (resource_drop (fst x) (snd x))"
    by (auto simp: drain_trace_def resource_drop_def deferred_cancel_def trace_defs List.map_filter_simps)
  from drain_trace_append [OF this Cons.IH] show ?case by (cases x) simp
qed (simp add: drain_trace_Nil)

lemma drain_loop_trace: "drain_trace rt_race xs (attempted rt_race xs) (fst (drain_loop rt_race xs))"
proof (induction xs)
  case (Cons x xs)
  obtain i r where x: "x = (i, r)" by (cases x)
  obtain es st where one: "shutdown_one (rt_race i) i r = (es, st)" by fastforce
  have head: "drain_trace rt_race [(i, r)] [(i, r)] es" by (rule drain_trace_shutdown) (rule one)
  have ex: "exhausts (rt_race i) \<longleftrightarrow> (\<exists>name. st = StepExhausted name)"
    using one by (auto simp: shutdown_one_def exhausts_def split: rt_race.splits sum.splits prod.splits)
  show ?case
  proof (cases st)
    case (StepExhausted name)
    then show ?thesis
      using drain_trace_append [OF head drain_trace_release [of rt_race xs]] ex
      by (simp add: x one attempted_def drain_budget_exhausted_def)
  next
    case (StepDone f)
    then show ?thesis
      using drain_trace_append [OF head Cons.IH] ex
      by (cases "drain_loop rt_race xs") (simp add: x one attempted_def)
  qed
qed (simp add: drain_trace_Nil attempted_def)

lemma visits_descending: "map fst (visits s) = rev [0..<length (sk_resources s)]"
  by (simp add: rev_map [symmetric])

lemma rev_upt_descending: "sorted_wrt (\<ge>) (rev [0..<n])"
  by (simp add: sorted_wrt_rev)

text \<open>
  C14. A shutdown closes resources in the reverse of their registration: admission is closed where
  there is one and the root token cancelled before anything concerns a resource; the shutdown of
  every resource is started, newest first, up to and including the one at which the total budget
  runs out, whatever the errors, panics and timeouts of single resources; exactly those that ran
  out of time are aborted; every resource is released, newest first, the skipped ones too; deferred
  tokens and no others are cancelled; and everything that concerns a later resource is over before
  anything concerns an earlier one.
\<close>

theorem drain_in_reverse_order:
  "\<exists>es. fst (spawn_owned_drain rt_race s) = (if sk_admission s then [AdmissionClosing] else []) @ RootCancelled # es \<and>
    started_shutdowns es = map fst (attempted rt_race (visits s)) \<and>
    aborted_shutdowns es = filter (\<lambda>i. elapses (rt_race i)) (map fst (attempted rt_race (visits s))) \<and>
    dropped_resources es = rev [0..<length (sk_resources s)] \<and>
    set (cancelled_resources es) = {i. i < length (sk_resources s) \<and> rs_token (sk_resources s ! i) = DeferredToken} \<and>
    sorted_wrt (\<ge>) (event_resources es)"
proof -
  let ?es = "fst (drain_loop rt_race (visits s))"
  have t: "drain_trace rt_race (visits s) (attempted rt_race (visits s)) ?es" by (rule drain_loop_trace)
  have c: "fst ` set (filter (\<lambda>x. rs_token (snd x) = DeferredToken) (visits s)) =
      {i. i < length (sk_resources s) \<and> rs_token (sk_resources s ! i) = DeferredToken}"
    by (force simp: in_set_enumerate_eq image_iff)
  have "fst (spawn_owned_drain rt_race s) = (if sk_admission s then [AdmissionClosing] else []) @ RootCancelled # ?es"
    by (simp add: spawn_owned_drain_def drain_resources_def split: prod.split)
  with t c show ?thesis
    by (intro exI [of _ ?es]) (simp add: drain_trace_def visits_descending rev_upt_descending)
qed

definition demo_stack :: stack where
  "demo_stack = \<lparr>sk_budget = from_secs 60,
     sk_resources = [\<lparr>rs_name = Some ''db'', rs_timeout = Some 1, rs_token = NoToken\<rparr>,
       \<lparr>rs_name = Some ''relay'', rs_timeout = Some 1, rs_token = DeferredToken\<rparr>],
     sk_phase = RegSealed, sk_critical = [], sk_admission = False\<rparr>"

text \<open>What a resource that was visited within the budget contributes to the receipt.\<close>

definition resource_failure :: "rt_race \<Rightarrow> resource \<Rightarrow> resource_shutdown_error option" where
  "resource_failure o' r =
     (case o' of
        Joined (Inr (Inr _)) \<Rightarrow>
          if rs_name r = None \<or> rs_timeout r = None
          then Some \<lparr>re_name = safe_resource_name r, re_kind = ShutdownPanicked\<rparr> else None
      | Joined (Inr (Inl e)) \<Rightarrow> Some \<lparr>re_name = safe_resource_name r, re_kind = observe_returned_shutdown_error e\<rparr>
      | Joined (Inl _) \<Rightarrow> Some \<lparr>re_name = safe_resource_name r, re_kind = ShutdownPanicked\<rparr>
      | ResourceElapsed _ \<Rightarrow>
          Some \<lparr>re_name = safe_resource_name r,
            re_kind = TimedOut (case rs_timeout r of Some t \<Rightarrow> t | None \<Rightarrow> default_shutdown_timeout)\<rparr>
      | BudgetElapsed _ \<Rightarrow> None)"

lemma shutdown_one_step:
  "snd (shutdown_one o' i r) =
     (if exhausts o' then StepExhausted (safe_resource_name r) else StepDone (resource_failure o' r))"
  by (auto simp: shutdown_one_def exhausts_def resource_failure_def safe_resource_metadata_def Let_def
      split: rt_race.split sum.split option.split)

lemma drain_loop_receipt:
  "snd (drain_loop rt_race xs) =
     (if list_ex (\<lambda>(i, _). exhausts (rt_race i)) xs then DrainBudgetExhausted else DrainComplete,
      List.map_filter (\<lambda>(i, r). resource_failure (rt_race i) r) (takeWhile (\<lambda>(i, _). \<not> exhausts (rt_race i)) xs) @
      map (\<lambda>(_, r). budget_exhausted (safe_resource_name r)) (dropWhile (\<lambda>(i, _). \<not> exhausts (rt_race i)) xs))"
proof (induction xs)
  case (Cons x xs)
  obtain i r where x: "x = (i, r)" by (cases x)
  obtain es st where one: "shutdown_one (rt_race i) i r = (es, st)" by fastforce
  then have st: "st = (if exhausts (rt_race i) then StepExhausted (safe_resource_name r) else StepDone (resource_failure (rt_race i) r))"
    using shutdown_one_step [of "rt_race i" i r] by simp
  obtain es' c fs where rest: "drain_loop rt_race xs = (es', c, fs)" by (cases "drain_loop rt_race xs")
  show ?case
    using Cons.IH one st x rest
    by (auto simp: drain_budget_exhausted_def List.map_filter_simps(1) split: option.split)
qed (simp add: List.map_filter_simps)

lemma map_filter_Nil_iff: "List.map_filter f xs = [] \<longleftrightarrow> (\<forall>x \<in> set xs. f x = None)"
  by (auto simp: List.map_filter_def filter_empty_conv)

lemma resource_clean_iff:
  "\<not> exhausts o' \<and> resource_failure o' r = None \<longleftrightarrow> o' = Joined (Ok (Ok ())) \<and> rs_name r \<noteq> None \<and> rs_timeout r \<noteq> None"
  by (auto simp: exhausts_def resource_failure_def split: rt_race.split sum.split)

lemma drain_loop_clean:
  assumes "drain_loop rt_race xs = (es, c, fs)"
  shows "c = DrainComplete \<and> fs = [] \<longleftrightarrow> (\<forall>(i, r) \<in> set xs. \<not> exhausts (rt_race i) \<and> resource_failure (rt_race i) r = None)"
proof (cases "list_ex (\<lambda>(i, _). exhausts (rt_race i)) xs")
  case True
  then show ?thesis using drain_loop_receipt [of rt_race xs] assms by (auto simp: list_ex_iff)
next
  case False
  then have tw: "takeWhile (\<lambda>(i, _). \<not> exhausts (rt_race i)) xs = xs" and dw: "dropWhile (\<lambda>(i, _). \<not> exhausts (rt_race i)) xs = []"
    by (auto simp: list_ex_iff takeWhile_eq_all_conv dropWhile_eq_Nil_conv)
  have "c = DrainComplete \<and> fs = List.map_filter (\<lambda>(i, r). resource_failure (rt_race i) r) xs"
    using drain_loop_receipt [of rt_race xs, unfolded tw dw] assms False by simp
  with False show ?thesis by (auto simp: map_filter_Nil_iff list_ex_iff)
qed

text \<open>
  C36. The receipt is exact: it counts every registered resource; the drain is complete exactly when
  the total budget never ran out; the failures are, in order, those of the resources visited
  within the budget (one each: error, panic, timeout or panicking metadata) followed by one
  exhaustion entry for every other resource. It is clean exactly when every resource returned
  without error and its metadata could be read.
\<close>

theorem drain_receipt_exact:
  "sr_registered (snd (spawn_owned_drain rt_race s)) = length (sk_resources s) \<and>
   (sr_completion (snd (spawn_owned_drain rt_race s)) = DrainComplete \<longleftrightarrow>
     list_all (\<lambda>i. \<not> exhausts (rt_race i)) [0..<length (sk_resources s)]) \<and>
   sr_failures (snd (spawn_owned_drain rt_race s)) =
     List.map_filter (\<lambda>(i, r). resource_failure (rt_race i) r) (takeWhile (\<lambda>(i, _). \<not> exhausts (rt_race i)) (visits s)) @
     map (\<lambda>(_, r). budget_exhausted (safe_resource_name r)) (dropWhile (\<lambda>(i, _). \<not> exhausts (rt_race i)) (visits s)) \<and>
   (receipt_is_clean (snd (spawn_owned_drain rt_race s)) \<longleftrightarrow>
     list_all (\<lambda>i. rt_race i = Joined (Ok (Ok ())) \<and>
        rs_name (sk_resources s ! i) \<noteq> None \<and> rs_timeout (sk_resources s ! i) \<noteq> None)
       [0..<length (sk_resources s)])"
proof -
  let ?rs = "sk_resources s" and ?xs = "visits s"
  obtain es c fs where loop: "drain_loop rt_race ?xs = (es, c, fs)" by (cases "drain_loop rt_race ?xs")
  note receipt = drain_loop_receipt [of rt_race ?xs, unfolded loop snd_conv prod.inject]
  have snd: "snd (spawn_owned_drain rt_race s) = \<lparr>sr_registered = length ?rs, sr_completion = c, sr_failures = fs\<rparr>"
    using loop by (simp add: spawn_owned_drain_def drain_resources_def)
  have ex: "list_ex (\<lambda>(i, _). exhausts (rt_race i)) ?xs \<longleftrightarrow> (\<exists>i < length ?rs. exhausts (rt_race i))"
    by (fastforce simp: list_ex_iff in_set_enumerate_eq)
  have "receipt_is_clean (snd (spawn_owned_drain rt_race s)) \<longleftrightarrow>
      (\<forall>(i, r) \<in> set ?xs. rt_race i = Joined (Ok (Ok ())) \<and> rs_name r \<noteq> None \<and> rs_timeout r \<noteq> None)"
    using drain_loop_clean [OF loop] by (simp add: snd receipt_is_clean_def resource_clean_iff)
  also have "\<dots> \<longleftrightarrow> (\<forall>i < length ?rs. rt_race i = Joined (Ok (Ok ())) \<and> rs_name (?rs ! i) \<noteq> None \<and> rs_timeout (?rs ! i) \<noteq> None)"
    by (fastforce simp: in_set_enumerate_eq)
  finally show ?thesis
    using receipt ex by (simp add: snd list_all_iff Ball_def)
qed

subsection \<open>Staging and sealing\<close>

lemma sealed_step: "sk_phase s = RegSealed \<Longrightarrow> apply_stage s op = s"
  by (simp add: apply_stage_def staging_def split: stage_op.split)

lemma sealed_for_good: "sk_phase s = RegSealed \<Longrightarrow> foldl apply_stage s ops = s"
  by (induction ops) (simp_all add: sealed_step)

text \<open>
  A launch that ends with admission seals the stack: nothing can be staged after it, and its
  shutdown closes admission, broadcasts cancellation and starts waiting for the permits before
  it touches any other resource.
\<close>

theorem admission_drains_first:
  assumes "sk_phase s = RegLaunch"
  shows "\<exists>es. fst (spawn_owned_drain rt_race (foldl apply_stage (apply_stage s (FinishWithAdmission name timeout)) ops)) =
    AdmissionClosing # RootCancelled # ShutdownSpawned (length (sk_resources s)) # es"
proof -
  let ?r = "\<lparr>rs_name = Some name, rs_timeout = Some timeout, rs_token = NoToken\<rparr>"
  let ?s = "apply_stage s (FinishWithAdmission name timeout)"
  have s: "sk_phase ?s = RegSealed" "sk_resources ?s = sk_resources s @ [?r]" "sk_admission ?s"
    using assms by (simp_all add: apply_stage_def finish_with_admission_def seal_registration_def stack_push_def)
  have xs: "visits ?s = (length (sk_resources s), ?r) # visits s"
    using s(2) by (simp add: enumerate_append_eq)
  have spawned: "\<exists>es. fst (drain_loop rt_race ((i, r) # rest)) = ShutdownSpawned i # es" for i r rest
    by (auto simp: shutdown_one_def drain_budget_exhausted_def split: rt_race.split sum.split prod.split)
  obtain es where "fst (drain_loop rt_race (visits ?s)) = ShutdownSpawned (length (sk_resources s)) # es"
    using spawned unfolding xs by blast
  then show ?thesis
    unfolding sealed_for_good [OF s(1)]
    using s(3) by (cases "drain_loop rt_race (visits ?s)") (simp add: spawn_owned_drain_def drain_resources_def)
qed

theorem admission_drains_first_witness:
  "\<exists>es. fst (spawn_owned_drain (\<lambda>_. Joined (Ok (Ok ())))
      (foldl apply_stage (apply_stage (demo_stack\<lparr>sk_phase := RegLaunch\<rparr>) (FinishWithAdmission ''gate'' 5)) [CommitStartup])) =
    AdmissionClosing # RootCancelled # ShutdownSpawned 2 # es"
  using admission_drains_first [of "demo_stack\<lparr>sk_phase := RegLaunch\<rparr>" "\<lambda>_. Joined (Ok (Ok ()))" "''gate''" 5 "[CommitStartup]"]
  by (simp add: demo_stack_def numeral_2_eq_2)

subsection \<open>The scope keeps one exit\<close>

text \<open>The exit of a scope and the stack whose drain was submitted with it.\<close>

fun scope_exit_of :: "('t, 'e, 's) scope \<Rightarrow> ('t, 'e, 's) scope_exit option" where
  "scope_exit_of (ScopeDraining x s) = Some x"
| "scope_exit_of (ScopeComplete x r) = Some x"
| "scope_exit_of _ = None"

lemma scope_exit_kept: "scope_exit_of sc = Some x \<Longrightarrow> scope_exit_of (keep_on_err sc (scope_step sc i)) = Some x"
  by (cases sc; cases i) (auto simp: scope_step_def)

lemma scope_complete_kept: "run_inputs scope_step (ScopeComplete x r) is = ScopeComplete x r"
  by (induction "is") (simp_all add: scope_step_def)

text \<open>How an exit arises: from which poll, or from a dropped drive.\<close>

definition exit_justified :: "('t, 'e, 's) scope_input \<Rightarrow> stack \<Rightarrow> ('t, 'e, 's) scope_exit \<Rightarrow> bool" where
  "exit_justified i s x \<longleftrightarrow>
     (case x of
        DriveCancelled \<Rightarrow> i = DriveDropped
      | StopRequested r \<Rightarrow> (\<exists>p. i = DrivePolled p \<and> dp_stop p = Some r)
      | CriticalTaskExited n e \<Rightarrow> (\<exists>p. i = DrivePolled p \<and> dp_stop p = None \<and> dp_critical p = Some (n, e))
      | ExecutionPanicked \<Rightarrow> (\<exists>p. i = DrivePolled p \<and> dp_stop p = None \<and> dp_critical p = None \<and> dp_execution p = Some None)
      | ScopeCompleted r \<Rightarrow>
          (\<exists>p. i = DrivePolled p \<and> dp_stop p = None \<and> dp_critical p = None \<and> dp_execution p = Some (Some r)) \<and>
          (is_ok r \<longrightarrow> sk_phase s = RegSealed)
      | RegistrationIncomplete v \<Rightarrow>
          (\<exists>p. i = DrivePolled p \<and> dp_stop p = None \<and> dp_critical p = None \<and> dp_execution p = Some (Some (Ok v))) \<and>
          sk_phase s \<noteq> RegSealed)"

lemma drive_turn_exit:
  "scope_exit_of (drive_turn p s) = Some x \<Longrightarrow> \<exists>s'. drive_turn p s = ScopeDraining x s' \<and> exit_justified (DrivePolled p) s' x"
  by (auto simp: drive_turn_def select_exit_def final_exit_def exit_justified_def Let_def
      split: option.splits prod.splits sum.splits if_splits)

lemma scope_exit_step:
  assumes "scope_exit_of sc = None" and "scope_step sc i = Ok sc'" and "scope_exit_of sc' = Some x"
  shows "\<exists>s. sc' = ScopeDraining x s \<and> exit_justified i s x"
  using assms
  by (cases sc; cases i) (auto simp: scope_step_def exit_justified_def [of DriveDropped] dest: drive_turn_exit)

text \<open>
  A lifecycle scope ends once: the exit is decided by the first poll that is ready, with a stop
  before a critical task before the execution, or by dropping the drive; success counts only with
  sealed registration. That exit is never replaced, the stack of that moment is drained, and once
  the drain has ended the outcome carries the same exit and the receipt of that drain.
\<close>

theorem scope_ends_once:
  assumes "scope_exit_of (run_inputs scope_step (ScopeReady s0) before) = None"
    and "scope_step (run_inputs scope_step (ScopeReady s0) before) i = Ok sc" and "scope_exit_of sc = Some x"
  shows "\<exists>s. sc = ScopeDraining x s \<and> exit_justified i s x \<and>
    scope_exit_of (run_inputs scope_step (ScopeReady s0) (before @ i # after)) = Some x \<and>
    run_inputs scope_step (ScopeReady s0) (before @ i # DrainEnded (Some rt_race) # after) =
      ScopeComplete x (Ok (snd (spawn_owned_drain rt_race s)))"
proof -
  obtain s where s: "sc = ScopeDraining x s" "exit_justified i s x" using scope_exit_step [OF assms] by blast
  have "scope_exit_of (run_inputs scope_step sc js) = Some x" for js
    using assms(3) by (induction js arbitrary: sc) (auto intro: scope_exit_kept)
  moreover have "run_inputs scope_step sc (DrainEnded (Some rt_race) # after) =
      ScopeComplete x (Ok (snd (spawn_owned_drain rt_race s)))"
    using s(1) by (simp add: scope_step_def scope_complete_kept)
  ultimately show ?thesis using s assms(2) by simp
qed

definition demo_poll :: "(nat, unit, unit) drive_poll" where
  "demo_poll = \<lparr>dp_staged = [CommitStartup, FinishLaunch], dp_stop = None, dp_critical = None, dp_execution = Some (Some (Ok 7))\<rparr>"

theorem scope_ends_once_witness:
  "\<exists>s. run_inputs scope_step (ScopeReady (demo_stack\<lparr>sk_phase := RegOpen\<rparr>))
     [DrivePolled demo_poll, DrainEnded (Some (\<lambda>_. Joined (Ok (Ok ())))), DriveDropped] =
     ScopeComplete (ScopeCompleted (Ok 7)) (Ok (snd (spawn_owned_drain (\<lambda>_. Joined (Ok (Ok ()))) s)))"
proof -
  let ?s0 = "demo_stack\<lparr>sk_phase := RegOpen\<rparr>"
  let ?sc = "ScopeDraining (ScopeCompleted (Ok 7)) demo_stack :: (nat, unit, unit) scope"
  have step: "scope_step (run_inputs scope_step (ScopeReady ?s0) []) (DrivePolled demo_poll) = Ok ?sc"
    by (simp add: scope_step_def drive_turn_def select_exit_def final_exit_def staged_stack_def demo_poll_def
        stack_startup_def apply_stage_def enter_launch_def seal_registration_def demo_stack_def)
  have "scope_exit_of (run_inputs scope_step (ScopeReady ?s0 :: (nat, unit, unit) scope) []) = None" by simp
  from scope_ends_once [OF this step, of "ScopeCompleted (Ok 7)" "[DriveDropped]" "\<lambda>_. Joined (Ok (Ok ()))"]
  show ?thesis by auto
qed

end
