(* ===== verification/Timeseries_Model.thy ===== *)
theory Timeseries_Model
  imports Contract_Values "HOL-Library.List_Lexorder" "HOL-Library.Product_Lexorder"
begin

section \<open>Time series: definitions, samples and queries\<close>

text \<open>
  Models \<^verbatim>\<open>crates/timeseries/src\<close>: values (\<^verbatim>\<open>value.rs\<close>), versioned definitions (\<^verbatim>\<open>definition.rs\<close>),
  series, samples and batches (\<^verbatim>\<open>model.rs\<close>), queries and pages (\<^verbatim>\<open>query.rs\<close>), maintenance requests
  (\<^verbatim>\<open>lifecycle.rs\<close>) and receipts (\<^verbatim>\<open>ports.rs\<close>). Aggregation is in \<open>Timeseries_Aggregate\<close>. A \<open>BTreeMap\<close> is
  the list of its entries in key order, a \<open>BTreeSet\<close> a set. A float is its 64 IEEE bits; the
  comparisons are those of finite floats, rounding addition and subtraction are parameters of the
  aggregation. SHA-256 over the JSON form is a parameter.
\<close>

datatype ts_error =
    TsInvalidInput
  | TsBudgetExceeded
  | TsNumericRange
  | TsConflict
  | TsIncompatibleDefinition
  | TsRetired
  | TsUnsupported
  | TsUnauthorized
  | TsInvalidCursor
  | TsHistoryExpired
  | TsDeadline
  | TsUnavailable
  | TsInvariant

subsection \<open>Values\<close>

type_synonym ts_id = ustring

definition ts_id_new :: "ustring \<Rightarrow> ts_error + ts_id" where
  "ts_id_new v =
     (if v = [] \<or> utf8_len v > 256 \<or> list_ex char_is_control v then Err TsInvalidInput else Ok v)"

type_synonym timestamp = int

definition timestamp_new :: "int \<Rightarrow> ts_error + timestamp" where
  "timestamp_new micros = (if micros < 0 then Err TsNumericRange else Ok micros)"

definition timestamp_from_system_time :: "system_time \<Rightarrow> ts_error + timestamp" where
  "timestamp_from_system_time t =
     and_then (ok_or (duration_since_epoch t) TsNumericRange) (\<lambda>d.
       if (d mod 1000000000) mod 1000 \<noteq> 0 then Err TsNumericRange
       else if int (d div 1000) > i64_max then Err TsNumericRange
       else timestamp_new (int (d div 1000)))"

definition timestamp_to_system_time :: "(system_time \<Rightarrow> bool) \<Rightarrow> timestamp \<Rightarrow> ts_error + system_time" where
  "timestamp_to_system_time representable p =
     (if representable (p * 1000) then Ok (p * 1000) else Err TsNumericRange)"

type_synonym f64 = "64 word"

definition f64_is_finite :: "f64 \<Rightarrow> bool" where
  "f64_is_finite v \<longleftrightarrow> (unat v div 2 ^ 52) mod 2048 \<noteq> 2047"

text \<open>The signed magnitude of the bits orders finite floats, and maps both zeros to zero.\<close>

definition f64_key :: "f64 \<Rightarrow> int" where
  "f64_key v = (if unat v < 2 ^ 63 then int (unat v) else - int (unat v - 2 ^ 63))"

definition finite_f64_new :: "f64 \<Rightarrow> ts_error + f64" where
  "finite_f64_new v =
     (if \<not> f64_is_finite v then Err TsNumericRange else Ok (if f64_key v = 0 then 0 else v))"

datatype number = I64 int | U64 nat | F64 f64

datatype number_kind = KindI64 | KindU64 | KindF64

fun number_kind_of :: "number \<Rightarrow> number_kind" where
  "number_kind_of (I64 _) = KindI64"
| "number_kind_of (U64 _) = KindU64"
| "number_kind_of (F64 _) = KindF64"

fun number_is_negative :: "number \<Rightarrow> bool" where
  "number_is_negative (I64 v) = (v < 0)"
| "number_is_negative (U64 _) = False"
| "number_is_negative (F64 v) = (f64_key v < 0)"

datatype ts_value = NumberValue number | BoolValue bool | StateValueOf ts_id

datatype reading = ValidReading ts_value | MissingReading | FailedReading

record interval =
  iv_start :: timestamp
  iv_end :: timestamp

definition interval_new :: "timestamp \<Rightarrow> timestamp \<Rightarrow> ts_error + interval" where
  "interval_new start stop = (if start > stop then Err TsInvalidInput else Ok \<lparr>iv_start = start, iv_end = stop\<rparr>)"

definition width_micros :: "interval \<Rightarrow> nat" where
  "width_micros w = nat (iv_end w - iv_start w)"

subsection \<open>Definitions\<close>

record ts_scope =
  tsc_tenant :: "128 word"
  tsc_namespace :: ts_id

datatype temporality = Cumulative | Delta

datatype metric =
    Gauge number_kind
  | Counter number_kind temporality
  | BoolMetric
  | StateMetric "ts_id set"

fun metric_accepts :: "metric \<Rightarrow> ts_value \<Rightarrow> bool" where
  "metric_accepts (Gauge k) (NumberValue n) = (k = number_kind_of n)"
| "metric_accepts (Counter k _) (NumberValue n) = (k = number_kind_of n \<and> \<not> number_is_negative n)"
| "metric_accepts BoolMetric (BoolValue _) = True"
| "metric_accepts (StateMetric members) (StateValueOf v) = (v \<in> members)"
| "metric_accepts _ _ = False"

fun metric_extends :: "metric \<Rightarrow> metric \<Rightarrow> bool" where
  "metric_extends (StateMetric new) (StateMetric old) = (old \<subseteq> new)"
| "metric_extends new old = (new = old)"

record dimension_rules =
  dr_allowed :: "ts_id set"
  dr_required :: "ts_id set"
  dr_max_count :: nat
  dr_max_value_bytes :: nat
  dr_max_total_bytes :: nat

definition dimension_rules_validate :: "dimension_rules \<Rightarrow> ts_error + unit" where
  "dimension_rules_validate r =
     (if card (dr_allowed r) > 64 \<or> dr_max_count r > 64 \<or> card (dr_required r) > dr_max_count r
         \<or> \<not> dr_required r \<subseteq> dr_allowed r \<or> dr_max_value_bytes r = 0 \<or> dr_max_value_bytes r > 256
         \<or> dr_max_total_bytes r = 0 \<or> dr_max_total_bytes r > 32768
      then Err TsInvalidInput else Ok ())"

type_synonym dimensions = "(ts_id \<times> ts_id) list"

fun dimension_bytes :: "nat \<Rightarrow> dimensions \<Rightarrow> nat \<Rightarrow> ts_error + nat" where
  "dimension_bytes limit [] acc = Ok acc"
| "dimension_bytes limit ((k, v) # vs) acc =
     (if utf8_len v > limit then Err TsBudgetExceeded
      else dimension_bytes limit vs (acc + (utf8_len k + utf8_len v)))"

definition validate_values :: "dimension_rules \<Rightarrow> dimensions \<Rightarrow> ts_error + unit" where
  "validate_values r vs =
     and_then (dimension_rules_validate r) (\<lambda>_.
       if length vs > dr_max_count r then Err TsBudgetExceeded
       else if \<not> dr_required r \<subseteq> fst ` set vs \<or> \<not> fst ` set vs \<subseteq> dr_allowed r then Err TsInvalidInput
       else and_then (dimension_bytes (dr_max_value_bytes r) vs 0) (\<lambda>acc.
         if acc > dr_max_total_bytes r then Err TsBudgetExceeded else Ok ()))"

definition dimension_rules_extends :: "dimension_rules \<Rightarrow> dimension_rules \<Rightarrow> bool" where
  "dimension_rules_extends new old \<longleftrightarrow>
     dr_allowed old \<subseteq> dr_allowed new \<and> dr_required new = dr_required old \<and>
     dr_max_count new \<ge> dr_max_count old \<and> dr_max_value_bytes new \<ge> dr_max_value_bytes old \<and>
     dr_max_total_bytes new \<ge> dr_max_total_bytes old"

record ts_definition =
  td_scope :: ts_scope
  td_key :: ts_id
  td_version :: nat
  td_unit :: ts_id
  td_metric :: metric
  td_dimensions :: dimension_rules

definition ts_definition_new :: "ts_definition \<Rightarrow> ts_error + ts_definition" where
  "ts_definition_new spec =
     (if td_version spec = 0 then Err TsInvalidInput
      else and_then (dimension_rules_validate (td_dimensions spec)) (\<lambda>_.
        case td_metric spec of
          StateMetric members \<Rightarrow> if members = {} \<or> card members > 256 then Err TsInvalidInput else Ok spec
        | _ \<Rightarrow> Ok spec))"

datatype definition_change = DefinitionReplay | CompatibleVersion

definition ts_definition_compare :: "ts_definition \<Rightarrow> ts_definition \<Rightarrow> ts_error + definition_change" where
  "ts_definition_compare new old =
     (if td_scope new \<noteq> td_scope old \<or> td_key new \<noteq> td_key old then Err TsInvalidInput
      else if td_version new = td_version old
      then (if new = old then Ok DefinitionReplay else Err TsConflict)
      else if td_version new < td_version old \<or> td_unit new \<noteq> td_unit old
         \<or> \<not> metric_extends (td_metric new) (td_metric old)
         \<or> \<not> dimension_rules_extends (td_dimensions new) (td_dimensions old)
      then Err TsIncompatibleDefinition
      else Ok CompatibleVersion)"

datatype definition_state = DefinitionActive | DefinitionRetired

definition definition_admit :: "definition_state \<Rightarrow> bool \<Rightarrow> ts_error + unit" where
  "definition_admit s already_accepted =
     (if s = DefinitionRetired \<and> \<not> already_accepted then Err TsRetired else Ok ())"

subsection \<open>Series, samples and batches\<close>

record ts_stream =
  st_scope :: ts_scope
  st_source :: ts_id
  st_generation :: ts_id

record series =
  se_definition :: ts_definition
  se_subject :: ts_id
  se_resource :: ts_id
  se_dimensions :: dimensions

text \<open>The decoder of a dimension object: at most 64 entries, no key twice.\<close>

fun unique_dimensions :: "dimensions \<Rightarrow> dimensions \<Rightarrow> unit + dimensions" where
  "unique_dimensions acc [] = Ok acc"
| "unique_dimensions acc ((k, v) # rest) =
     (if length acc \<ge> 64 \<or> k \<in> fst ` set acc then Err ()
      else unique_dimensions (insort_key fst (k, v) acc) rest)"

definition series_new :: "ts_definition \<Rightarrow> ts_id \<Rightarrow> ts_id \<Rightarrow> dimensions \<Rightarrow> ts_error + series" where
  "series_new d subject res dims =
     and_then (validate_values (td_dimensions d) dims) (\<lambda>_.
       Ok \<lparr>se_definition = d, se_subject = subject, se_resource = res, se_dimensions = dims\<rparr>)"

record sample =
  sm_stream :: ts_stream
  sm_series :: series
  sm_id :: ts_id
  sm_sequence :: nat
  sm_observed_at :: timestamp
  sm_interval :: "interval option"
  sm_reading :: reading

definition counter_temporality :: "metric \<Rightarrow> temporality option" where
  "counter_temporality mt = (case mt of Counter _ t \<Rightarrow> Some t | _ \<Rightarrow> None)"

definition sample_new :: "sample \<Rightarrow> ts_error + sample" where
  "sample_new s =
     (if sm_observed_at s = i64_max then Err TsNumericRange
      else if st_scope (sm_stream s) \<noteq> td_scope (se_definition (sm_series s)) then Err TsInvalidInput
      else if (case sm_reading s of
                 ValidReading v \<Rightarrow> \<not> metric_accepts (td_metric (se_definition (sm_series s))) v
               | _ \<Rightarrow> False) then Err TsInvalidInput
      else if (case sm_interval s of Some i \<Rightarrow> iv_end i \<noteq> sm_observed_at s | None \<Rightarrow> False) then Err TsInvalidInput
      else case counter_temporality (td_metric (se_definition (sm_series s))) of
        None \<Rightarrow> Ok s
      | Some t \<Rightarrow>
          (case sm_interval s of
             None \<Rightarrow> Err TsInvalidInput
           | Some i \<Rightarrow> if t = Delta \<and> width_micros i = 0 then Err TsInvalidInput else Ok s))"

definition order_key :: "sample \<Rightarrow> timestamp \<times> nat \<times> ts_id" where
  "order_key s = (sm_observed_at s, sm_sequence s, sm_id s)"

datatype ordering = Less | Equal | Greater

definition cmp_of :: "'a::linorder \<Rightarrow> 'a \<Rightarrow> ordering" where
  "cmp_of a b = (if a < b then Less else if a = b then Equal else Greater)"

definition latest_cmp :: "sample \<Rightarrow> sample \<Rightarrow> ts_error + ordering" where
  "latest_cmp s t =
     (if sm_stream s \<noteq> sm_stream t \<or> sm_series s \<noteq> sm_series t then Err TsInvalidInput
      else Ok (cmp_of (order_key s) (order_key t)))"

datatype identity_match = IdentityDistinct | IdentityReplay

definition sample_compare :: "sample \<Rightarrow> sample \<Rightarrow> ts_error + identity_match" where
  "sample_compare s old =
     (if sm_stream s \<noteq> sm_stream old \<or> sm_id s \<noteq> sm_id old then Ok IdentityDistinct
      else if s = old then Ok IdentityReplay else Err TsConflict)"

record ts_batch =
  tb_stream :: ts_stream
  tb_id :: ts_id
  tb_samples :: "sample list"

fun batch_ids_unique :: "ts_stream \<Rightarrow> ts_id set \<Rightarrow> sample list \<Rightarrow> ts_error + unit" where
  "batch_ids_unique st ids [] = Ok ()"
| "batch_ids_unique st ids (s # ss) =
     (if sm_stream s \<noteq> st then Err TsInvalidInput
      else if sm_id s \<in> ids then Err TsConflict
      else batch_ids_unique st (insert (sm_id s) ids) ss)"

definition batch_max_samples :: nat where
  "batch_max_samples = 4096"

definition batch_max_bytes :: nat where
  "batch_max_bytes = 4 * 1024 * 1024"

text \<open>The bounded writer under the JSON writer; \<open>json\<close> gives the chunks of a batch.\<close>

fun ts_bounded_write :: "bytes \<Rightarrow> bytes list \<Rightarrow> bytes option" where
  "ts_bounded_write out [] = Some out"
| "ts_bounded_write out (c # cs) =
     (if length c > batch_max_bytes - length out then None else ts_bounded_write (out @ c) cs)"

definition ts_batch_encode :: "(ts_batch \<Rightarrow> bytes list) \<Rightarrow> ts_batch \<Rightarrow> ts_error + bytes" where
  "ts_batch_encode json b = ok_or (ts_bounded_write [] (json b)) TsBudgetExceeded"

definition ts_batch_new ::
  "(ts_batch \<Rightarrow> bytes list) \<Rightarrow> ts_stream \<Rightarrow> ts_id \<Rightarrow> sample list \<Rightarrow> ts_error + ts_batch" where
  "ts_batch_new json st i ss =
     (if ss = [] then Err TsInvalidInput
      else if length ss > batch_max_samples then Err TsBudgetExceeded
      else and_then (batch_ids_unique st {} ss) (\<lambda>_.
        let b = \<lparr>tb_stream = st, tb_id = i, tb_samples = ss\<rparr> in
        and_then (ts_batch_encode json b) (\<lambda>_. Ok b)))"

definition ts_batch_compare :: "ts_batch \<Rightarrow> ts_batch \<Rightarrow> ts_error + identity_match" where
  "ts_batch_compare b old =
     (if tb_stream b \<noteq> tb_stream old \<or> tb_id b \<noteq> tb_id old then Ok IdentityDistinct
      else if b = old then Ok IdentityReplay else Err TsConflict)"

definition ts_batch_decode :: "(bytes \<Rightarrow> ts_batch option) \<Rightarrow> bytes \<Rightarrow> ts_error + ts_batch" where
  "ts_batch_decode from_json bytes =
     (if length bytes > batch_max_bytes then Err TsBudgetExceeded else ok_or (from_json bytes) TsInvalidInput)"

subsection \<open>Queries and pages\<close>

text \<open>A digest is its 32 bytes; \<open>dg\<close> is \<open>Series::digest\<close>.\<close>

type_synonym ts_digest = bytes

datatype selection =
    SelExact ts_stream series
  | SelResource ts_scope ts_id ts_id "ts_id set"

fun selection_scope :: "selection \<Rightarrow> ts_scope" where
  "selection_scope (SelExact st _) = st_scope st"
| "selection_scope (SelResource sc _ _ _) = sc"

fun selection_validate :: "selection \<Rightarrow> ts_error + unit" where
  "selection_validate (SelExact st se) =
     (if st_scope st \<noteq> td_scope (se_definition se) then Err TsInvalidInput else Ok ())"
| "selection_validate (SelResource _ _ _ keys) = (if card keys > 64 then Err TsBudgetExceeded else Ok ())"

fun selection_matches :: "selection \<Rightarrow> sample \<Rightarrow> bool" where
  "selection_matches (SelExact st se) s \<longleftrightarrow> st = sm_stream s \<and> se = sm_series s"
| "selection_matches (SelResource sc subject res keys) s \<longleftrightarrow>
     sc = st_scope (sm_stream s) \<and> subject = se_subject (sm_series s) \<and> res = se_resource (sm_series s) \<and>
     (keys = {} \<or> td_key (se_definition (sm_series s)) \<in> keys)"

datatype query_mode = HistoryMode | LatestMode

record query_budget =
  qb_max_series :: nat
  qb_max_points :: nat

record ts_query =
  tq_selection :: selection
  tq_window :: interval
  tq_budget :: query_budget
  tq_mode :: query_mode

definition ts_query_new :: "selection \<Rightarrow> interval \<Rightarrow> query_budget \<Rightarrow> query_mode \<Rightarrow> ts_error + ts_query" where
  "ts_query_new sel w b mode =
     and_then (selection_validate sel) (\<lambda>_.
       if width_micros w = 0 then Err TsInvalidInput
       else Ok \<lparr>tq_selection = sel, tq_window = w, tq_budget = b, tq_mode = mode\<rparr>)"

definition ts_query_matches :: "ts_query \<Rightarrow> sample \<Rightarrow> bool" where
  "ts_query_matches q s \<longleftrightarrow>
     selection_matches (tq_selection q) s \<and> iv_start (tq_window q) \<le> sm_observed_at s \<and>
     sm_observed_at s < iv_end (tq_window q)"

record observed_sample =
  os_sample :: sample
  os_received_at :: timestamp

type_synonym page_key = "ts_digest \<times> ts_id \<times> ts_id"

type_synonym page_order = "page_key \<times> timestamp \<times> nat \<times> ts_id"

definition page_key_of :: "ts_digest \<Rightarrow> sample \<Rightarrow> page_key" where
  "page_key_of d s = (d, st_source (sm_stream s), st_generation (sm_stream s))"

fun validate_rows ::
  "(series \<Rightarrow> ts_error + ts_digest) \<Rightarrow> ts_query \<Rightarrow> page_key set \<Rightarrow> page_order option \<Rightarrow>
   observed_sample list \<Rightarrow> ts_error + page_key set" where
  "validate_rows dg q seen previous [] = Ok seen"
| "validate_rows dg q seen previous (row # rows) =
     (let s = os_sample row in
      if \<not> ts_query_matches q s then Err TsInvariant
      else and_then (dg (sm_series s)) (\<lambda>d.
        let key = page_key_of d s; ord = (key, order_key s) in
        if tq_mode q = LatestMode \<and> key \<in> seen then Err TsInvariant
        else if (case previous of Some old \<Rightarrow> ord \<le> old | None \<Rightarrow> False) then Err TsInvariant
        else validate_rows dg q (insert key seen) (Some ord) rows))"

definition validate_page ::
  "(series \<Rightarrow> ts_error + ts_digest) \<Rightarrow> ts_query \<Rightarrow> observed_sample list \<Rightarrow> ts_error + unit" where
  "validate_page dg q rows =
     (if length rows > qb_max_points (tq_budget q) then Err TsBudgetExceeded
      else and_then (validate_rows dg q {} None rows) (\<lambda>seen.
        if card seen > qb_max_series (tq_budget q) then Err TsBudgetExceeded else Ok ()))"

record continuation =
  ct_binding :: ts_digest
  ct_token :: ustring

definition continuation_verify :: "continuation \<Rightarrow> ts_digest \<Rightarrow> ts_error + ustring" where
  "continuation_verify c binding = (if ct_binding c \<noteq> binding then Err TsInvalidCursor else Ok (ct_token c))"

datatype aggregate_op =
    OpMin | OpMax | OpSum | OpCount | OpMean | OpIncrease | OpRate | OpTimeline | OpTransitions | OpCoverage

definition aggregate_op_validate :: "aggregate_op \<Rightarrow> metric \<Rightarrow> ts_error + unit" where
  "aggregate_op_validate op mt =
     (if (case mt of
            Gauge _ \<Rightarrow> op \<in> {OpMin, OpMax, OpSum, OpCount, OpMean}
          | Counter _ Cumulative \<Rightarrow> op \<in> {OpIncrease, OpRate}
          | Counter _ Delta \<Rightarrow> op \<in> {OpSum, OpRate}
          | BoolMetric \<Rightarrow> op \<in> {OpTimeline, OpTransitions, OpCoverage}
          | StateMetric _ \<Rightarrow> op \<in> {OpTimeline, OpTransitions, OpCoverage})
      then Ok () else Err TsUnsupported)"

datatype coverage_policy = ObservedOnly | HoldLast nat

record summary_spec =
  ss_stream :: ts_stream
  ss_series :: series
  ss_resolution :: nat
  ss_coverage :: coverage_policy
  ss_max_gap :: "nat option"

definition spec_metric :: "summary_spec \<Rightarrow> metric" where
  "spec_metric sp = td_metric (se_definition (ss_series sp))"

definition spec_selection :: "summary_spec \<Rightarrow> selection" where
  "spec_selection sp = SelExact (ss_stream sp) (ss_series sp)"

definition summary_spec_validate :: "summary_spec \<Rightarrow> ts_error + unit" where
  "summary_spec_validate sp =
     and_then (selection_validate (spec_selection sp)) (\<lambda>_.
       if int (ss_resolution sp) > i64_max then Err TsNumericRange
       else
         let counter = (case spec_metric sp of Counter _ _ \<Rightarrow> True | _ \<Rightarrow> False);
             state = (case spec_metric sp of BoolMetric \<Rightarrow> True | StateMetric _ \<Rightarrow> True | _ \<Rightarrow> False) in
         if counter \<noteq> (ss_max_gap sp \<noteq> None) \<or> \<not> state \<and> ss_coverage sp \<noteq> ObservedOnly
         then Err TsInvalidInput else Ok ())"

definition summary_spec_new :: "summary_spec \<Rightarrow> ts_error + summary_spec" where
  "summary_spec_new sp = and_then (summary_spec_validate sp) (\<lambda>_. Ok sp)"

definition saturating_add_i64 :: "int \<Rightarrow> int \<Rightarrow> int" where
  "saturating_add_i64 a b = min i64_max (max i64_min (a + b))"

definition spec_bucket :: "summary_spec \<Rightarrow> timestamp \<Rightarrow> ts_error + interval" where
  "spec_bucket sp at =
     (let r = int (ss_resolution sp); start = at div r * r in
      and_then (timestamp_new start) (\<lambda>a.
        and_then (timestamp_new (saturating_add_i64 start r)) (\<lambda>b. interval_new a b)))"

definition spec_lookback :: "summary_spec \<Rightarrow> nat" where
  "spec_lookback sp =
     (case ss_coverage sp of
        HoldLast n \<Rightarrow> n
      | ObservedOnly \<Rightarrow> (case ss_max_gap sp of Some g \<Rightarrow> g | None \<Rightarrow> 0))"

record aggregate_query =
  aq_spec :: summary_spec
  aq_query :: ts_query
  aq_operation :: aggregate_op

definition aggregate_query_new ::
  "summary_spec \<Rightarrow> interval \<Rightarrow> query_budget \<Rightarrow> aggregate_op \<Rightarrow> ts_error + aggregate_query" where
  "aggregate_query_new sp w b op =
     and_then (summary_spec_validate sp) (\<lambda>_.
     and_then (aggregate_op_validate op (spec_metric sp)) (\<lambda>_.
       if op = OpCoverage \<and> ss_coverage sp = ObservedOnly then Err TsInvalidInput
       else and_then (ts_query_new (spec_selection sp) w b HistoryMode) (\<lambda>q.
         Ok \<lparr>aq_spec = sp, aq_query = q, aq_operation = op\<rparr>)))"

subsection \<open>Maintenance requests, receipts and authorisation\<close>

datatype maintenance_action =
    Recompute summary_spec interval
  | AdvanceCutoff selection timestamp
  | Prune selection timestamp timestamp
  | ExpireReceipts ts_stream timestamp
  | DeleteRange selection interval timestamp
  | RestoreRange selection interval ts_id
  | CloseStream ts_stream
  | Reclaim ts_stream

fun maintenance_scope :: "maintenance_action \<Rightarrow> ts_scope" where
  "maintenance_scope (Recompute sp _) = st_scope (ss_stream sp)"
| "maintenance_scope (AdvanceCutoff sel _) = selection_scope sel"
| "maintenance_scope (Prune sel _ _) = selection_scope sel"
| "maintenance_scope (DeleteRange sel _ _) = selection_scope sel"
| "maintenance_scope (RestoreRange sel _ _) = selection_scope sel"
| "maintenance_scope (CloseStream st) = st_scope st"
| "maintenance_scope (Reclaim st) = st_scope st"
| "maintenance_scope (ExpireReceipts st _) = st_scope st"

definition positive_window :: "interval \<Rightarrow> ts_error + unit" where
  "positive_window w = (if width_micros w = 0 then Err TsInvalidInput else Ok ())"

fun maintenance_validate :: "maintenance_action \<Rightarrow> ts_error + unit" where
  "maintenance_validate (Recompute sp w) = and_then (summary_spec_validate sp) (\<lambda>_. positive_window w)"
| "maintenance_validate (DeleteRange sel w _) = and_then (selection_validate sel) (\<lambda>_. positive_window w)"
| "maintenance_validate (RestoreRange sel w _) = and_then (selection_validate sel) (\<lambda>_. positive_window w)"
| "maintenance_validate (AdvanceCutoff sel _) = selection_validate sel"
| "maintenance_validate (Prune sel _ _) = selection_validate sel"
| "maintenance_validate (CloseStream _) = Ok ()"
| "maintenance_validate (Reclaim _) = Ok ()"
| "maintenance_validate (ExpireReceipts _ _) = Ok ()"

record maintenance_request =
  mr_id :: ts_id
  mr_action :: maintenance_action
  mr_rows :: nat
  mr_buckets :: nat

definition maintenance_request_new ::
  "ts_id \<Rightarrow> maintenance_action \<Rightarrow> nat \<Rightarrow> nat \<Rightarrow> ts_error + maintenance_request" where
  "maintenance_request_new i action rows buckets =
     and_then (maintenance_validate action) (\<lambda>_.
       Ok \<lparr>mr_id = i, mr_action = action, mr_rows = rows, mr_buckets = buckets\<rparr>)"

record ts_receipt_query =
  rq_stream :: ts_stream
  rq_batch_id :: ts_id
  rq_digest :: ts_digest

record ts_receipt =
  rc_identity :: ts_receipt_query
  rc_received_at :: timestamp
  rc_new_samples :: nat
  rc_replayed_samples :: nat
  rc_replay_until :: timestamp

definition receipt_from_durable :: "ts_receipt \<Rightarrow> ts_error + ts_receipt" where
  "receipt_from_durable s =
     (let n = rc_new_samples s + rc_replayed_samples s in
      if n \<ge> 2 ^ 32 then Err TsInvariant
      else if n = 0 \<or> n > batch_max_samples \<or> rc_replay_until s \<le> rc_received_at s then Err TsInvariant
      else Ok s)"

text \<open>\<open>Authorized\<close> wraps a request that the product's authority accepted; there is no other constructor.\<close>

datatype 'a ts_authorized = Authorized 'a

definition authorized_verify :: "('a \<Rightarrow> ts_error + unit) \<Rightarrow> 'a \<Rightarrow> ts_error + 'a ts_authorized" where
  "authorized_verify authority request = and_then (authority request) (\<lambda>_. Ok (Authorized request))"

subsection \<open>Version compatibility\<close>

lemma metric_extends_accepts:
  "metric_extends new old \<Longrightarrow> metric_accepts old v \<Longrightarrow> metric_accepts new v"
  by (cases new; cases old; cases v) auto

lemma metric_extends_temporality:
  "metric_extends new old \<Longrightarrow> counter_temporality new = counter_temporality old"
  by (cases new; cases old) (auto simp: counter_temporality_def)

lemma dimension_bytes_mono:
  "dimension_bytes l vs n = Ok b \<Longrightarrow> l \<le> l' \<Longrightarrow> dimension_bytes l' vs n = Ok b"
  by (induction l vs n rule: dimension_bytes.induct) (auto split: if_splits)

lemma dimension_rules_extends_validate:
  assumes ext: "dimension_rules_extends new old" and new: "dimension_rules_validate new = Ok ()"
    and ok: "validate_values old vs = Ok ()"
  shows "validate_values new vs = Ok ()"
proof -
  obtain n where old: "length vs \<le> dr_max_count old" "dr_required old \<subseteq> fst ` set vs"
      "fst ` set vs \<subseteq> dr_allowed old" "dimension_bytes (dr_max_value_bytes old) vs 0 = Ok n"
      "n \<le> dr_max_total_bytes old"
    using ok by (auto simp: validate_values_def result_iffs split: if_splits)
  have "dimension_bytes (dr_max_value_bytes new) vs 0 = Ok n"
    using dimension_bytes_mono [OF old(4)] ext by (simp add: dimension_rules_extends_def)
  moreover have "length vs \<le> dr_max_count new" "dr_required new \<subseteq> fst ` set vs"
      "fst ` set vs \<subseteq> dr_allowed new" "n \<le> dr_max_total_bytes new"
    using old ext by (auto simp: dimension_rules_extends_def)
  ultimately show ?thesis by (simp add: validate_values_def new)
qed

lemma compatible_extends:
  assumes "ts_definition_compare new old = Ok CompatibleVersion"
  shows "td_scope new = td_scope old" and "metric_extends (td_metric new) (td_metric old)"
    and "dimension_rules_extends (td_dimensions new) (td_dimensions old)"
    and "td_version old < td_version new" and "td_key new = td_key old" and "td_unit new = td_unit old"
  using assms by (auto simp: ts_definition_compare_def split: if_splits)

definition upgrade_series :: "ts_definition \<Rightarrow> series \<Rightarrow> series" where
  "upgrade_series d se = se\<lparr>se_definition := d\<rparr>"

definition upgrade_sample :: "ts_definition \<Rightarrow> sample \<Rightarrow> sample" where
  "upgrade_sample d s = s\<lparr>sm_series := upgrade_series d (sm_series s)\<rparr>"

lemma upgrade_series_ok:
  assumes cmp: "ts_definition_compare new old = Ok CompatibleVersion"
    and new: "ts_definition_new new = Ok new" and ok: "series_new old sj rs dims = Ok se"
  shows "series_new new sj rs dims = Ok (upgrade_series new se)"
proof -
  have "dimension_rules_validate (td_dimensions new) = Ok ()"
    using new by (auto simp: ts_definition_new_def result_iffs split: if_splits)
  moreover have "validate_values (td_dimensions old) dims = Ok ()"
    using ok by (auto simp: series_new_def result_iffs)
  ultimately have "validate_values (td_dimensions new) dims = Ok ()"
    by (rule dimension_rules_extends_validate [OF compatible_extends(3) [OF cmp]])
  then show ?thesis using ok by (auto simp: series_new_def upgrade_series_def result_iffs)
qed

lemma upgrade_sample_ok:
  assumes cmp: "ts_definition_compare new (se_definition (sm_series s)) = Ok CompatibleVersion"
    and ok: "sample_new s = Ok s"
  shows "sample_new (upgrade_sample new s) = Ok (upgrade_sample new s)"
  using ok metric_extends_accepts [OF compatible_extends(2) [OF cmp]]
    metric_extends_temporality [OF compatible_extends(2) [OF cmp]] compatible_extends(1) [OF cmp]
  by (auto simp: sample_new_def upgrade_sample_def upgrade_series_def
      split: if_splits reading.splits option.splits)

text \<open>C39. A definition version the registry accepts as compatible keeps all that was recorded under its
  predecessor meaningful: the version number grows, key and unit stay, every dimension set that made a
  series of the old version makes the same series of the new one, and every sample valid for that
  series is valid for the upgraded series.\<close>

theorem compatible_version_keeps_samples:
  assumes "ts_definition_compare new old = Ok CompatibleVersion" and "ts_definition_new new = Ok new"
  shows "td_version old < td_version new \<and> td_key new = td_key old \<and> td_unit new = td_unit old \<and>
    (\<forall>sj rs dims se. series_new old sj rs dims = Ok se \<longrightarrow>
       series_new new sj rs dims = Ok (upgrade_series new se)) \<and>
    (\<forall>s. se_definition (sm_series s) = old \<and> sample_new s = Ok s \<longrightarrow>
       sample_new (upgrade_sample new s) = Ok (upgrade_sample new s))"
  using compatible_extends [OF assms(1)] upgrade_series_ok [OF assms] upgrade_sample_ok assms(1) by blast

definition demo_definition :: "nat \<Rightarrow> ts_id set \<Rightarrow> ts_definition" where
  "demo_definition version members =
     \<lparr>td_scope = \<lparr>tsc_tenant = 1, tsc_namespace = [112]\<rparr>, td_key = [100], td_version = version, td_unit = [49],
      td_metric = StateMetric members,
      td_dimensions = \<lparr>dr_allowed = {[120]}, dr_required = {}, dr_max_count = 1, dr_max_value_bytes = 8,
        dr_max_total_bytes = 64\<rparr>\<rparr>"

theorem compatible_version_keeps_samples_witness:
  "ts_definition_compare (demo_definition 2 {[97], [98]}) (demo_definition 1 {[97]}) = Ok CompatibleVersion \<and>
   series_new (demo_definition 2 {[97], [98]}) [115] [114] [([120], [121])] =
     Ok (upgrade_series (demo_definition 2 {[97], [98]})
       \<lparr>se_definition = demo_definition 1 {[97]}, se_subject = [115], se_resource = [114],
        se_dimensions = [([120], [121])]\<rparr>)"
proof -
  have 1: "ts_definition_compare (demo_definition 2 {[97], [98]}) (demo_definition 1 {[97]}) = Ok CompatibleVersion"
    by (simp add: ts_definition_compare_def demo_definition_def dimension_rules_extends_def)
  have 2: "ts_definition_new (demo_definition 2 {[97], [98]}) = Ok (demo_definition 2 {[97], [98]})"
    by (simp add: ts_definition_new_def demo_definition_def dimension_rules_validate_def)
  have "series_new (demo_definition 1 {[97]}) [115] [114] [([120], [121])] =
     Ok \<lparr>se_definition = demo_definition 1 {[97]}, se_subject = [115], se_resource = [114],
        se_dimensions = [([120], [121])]\<rparr>"
    by (simp add: series_new_def demo_definition_def validate_values_def dimension_rules_validate_def
        utf8_len_def utf8_width_def)
  then show ?thesis using 1 compatible_version_keeps_samples [OF 1 2] by blast
qed

subsection \<open>Pages\<close>

definition row_key :: "(series \<Rightarrow> ts_error + ts_digest) \<Rightarrow> observed_sample \<Rightarrow> page_key" where
  "row_key dg row = page_key_of (projr (dg (sm_series (os_sample row)))) (os_sample row)"

definition row_order :: "(series \<Rightarrow> ts_error + ts_digest) \<Rightarrow> observed_sample \<Rightarrow> page_order" where
  "row_order dg row = (row_key dg row, order_key (os_sample row))"

lemma validate_rows_iff:
  "validate_rows dg q seen prev rows = Ok out \<longleftrightarrow>
     list_all (\<lambda>r. ts_query_matches q (os_sample r) \<and> is_ok (dg (sm_series (os_sample r)))) rows \<and>
     (tq_mode q = LatestMode \<longrightarrow> distinct (map (row_key dg) rows) \<and> seen \<inter> row_key dg ` set rows = {}) \<and>
     sorted_wrt (<) ((case prev of None \<Rightarrow> [] | Some p \<Rightarrow> [p]) @ map (row_order dg) rows) \<and>
     out = seen \<union> row_key dg ` set rows"
proof (induction rows arbitrary: seen prev)
  case Nil
  then show ?case by (auto split: option.splits)
next
  case (Cons r rows)
  show ?case
  proof (cases "ts_query_matches q (os_sample r)")
    case True
    note m = this
    show ?thesis
    proof (cases "dg (sm_series (os_sample r))")
      case (Inr d)
      then have k: "page_key_of d (os_sample r) = row_key dg r"
        by (simp add: row_key_def)
      have o: "(row_key dg r, order_key (os_sample r)) = row_order dg r"
        by (simp add: row_order_def)
      show ?thesis
        using m Inr
        by (cases prev) (auto simp: Let_def Cons.IH k o not_le intro: less_trans)
    qed (use m in \<open>simp add: Let_def\<close>)
  qed (simp add: Let_def)
qed

text \<open>A page passes exactly when it fits the point budget, every row matches the query and has a
  digest, the rows are strictly ordered by (series digest, source, generation, time, sequence, id), a
  latest page has one row per series and stream, and the distinct series fit their budget.\<close>

theorem validate_page_iff:
  "validate_page dg q rows = Ok () \<longleftrightarrow>
     length rows \<le> qb_max_points (tq_budget q) \<and>
     list_all (\<lambda>r. ts_query_matches q (os_sample r) \<and> is_ok (dg (sm_series (os_sample r)))) rows \<and>
     sorted_wrt (<) (map (row_order dg) rows) \<and>
     (if tq_mode q = LatestMode then distinct (map (row_key dg) rows) else True) \<and>
     card (row_key dg ` set rows) \<le> qb_max_series (tq_budget q)"
proof -
  have "validate_rows dg q {} None rows = Ok out \<longleftrightarrow>
     list_all (\<lambda>r. ts_query_matches q (os_sample r) \<and> is_ok (dg (sm_series (os_sample r)))) rows \<and>
     (tq_mode q = LatestMode \<longrightarrow> distinct (map (row_key dg) rows)) \<and>
     sorted_wrt (<) (map (row_order dg) rows) \<and> out = row_key dg ` set rows" for out
    by (simp add: validate_rows_iff)
  then show ?thesis
    by (auto simp: validate_page_def and_then_Inr_iff not_less split: if_splits)
qed

end
