(* ===== verification/Timeseries_Aggregate.thy ===== *)
theory Timeseries_Aggregate
  imports Timeseries_Model
begin

section \<open>Time series: aggregation\<close>

text \<open>
  Models \<^verbatim>\<open>crates/timeseries/src/aggregate.rs\<close> with \<^verbatim>\<open>aggregate/numeric.rs\<close> and
  \<^verbatim>\<open>aggregate/ordered.rs\<close>, and the result types of \<^verbatim>\<open>query.rs\<close>. An \<open>i128\<close> is an \<open>int\<close> and a
  \<open>u128\<close> or \<open>u64\<close> a \<open>nat\<close>, with the checked operations testing the range; IEEE addition rounds the
  exact sum to the nearest even double. The digest of a specification's semantics is a parameter.
  A builder that has returned an error is dropped by its callers, so an operation returns either
  the error or the next builder.
\<close>

subsection \<open>Finite doubles\<close>

text \<open>A finite double is an integer multiple of \<open>2 ^ -1074\<close>.\<close>

definition f64_scaled :: "f64 \<Rightarrow> int" where
  "f64_scaled v =
     (let m = unat v mod 2 ^ 63; e = m div 2 ^ 52; f = m mod 2 ^ 52;
          mag = (if e = 0 then f else (2 ^ 52 + f) * 2 ^ (e - 1)) in
      if unat v < 2 ^ 63 then int mag else - int mag)"

fun bit_width :: "nat \<Rightarrow> nat" where
  "bit_width n = (if n = 0 then 0 else Suc (bit_width (n div 2)))"

declare bit_width.simps [simp del]

text \<open>Rounding to nearest, ties to even; the mantissa's carry runs into the exponent, and past the last
  exponent into infinity.\<close>

definition f64_round :: "int \<Rightarrow> f64" where
  "f64_round n =
     (let a = nat \<bar>n\<bar>; k = bit_width a - 53; q = a div 2 ^ k; r = a mod 2 ^ k;
          q' = (if 2 * r > 2 ^ k \<or> 2 * r = 2 ^ k \<and> odd q then q + 1 else q);
          bits = min (k * 2 ^ 52 + q') (2047 * 2 ^ 52) in
      word_of_nat (if n < 0 then bits + 2 ^ 63 else bits))"

definition f64_add :: "f64 \<Rightarrow> f64 \<Rightarrow> f64" where
  "f64_add a b = f64_round (f64_scaled a + f64_scaled b)"

definition f64_sub :: "f64 \<Rightarrow> f64 \<Rightarrow> f64" where
  "f64_sub a b = f64_round (f64_scaled a - f64_scaled b)"

subsection \<open>Sums\<close>

datatype ts_sum = SumI128 int | SumU128 nat | SumF64 f64

definition in_i128 :: "int \<Rightarrow> bool" where
  "in_i128 n \<longleftrightarrow> - (2 ^ 127) \<le> n \<and> n < 2 ^ 127"

fun sum_zero :: "number_kind \<Rightarrow> ts_sum" where
  "sum_zero KindI64 = SumI128 0"
| "sum_zero KindU64 = SumU128 0"
| "sum_zero KindF64 = SumF64 0"

fun sum_checked_add :: "ts_sum \<Rightarrow> ts_sum \<Rightarrow> ts_error + ts_sum" where
  "sum_checked_add (SumI128 a) (SumI128 b) = (if in_i128 (a + b) then Ok (SumI128 (a + b)) else Err TsNumericRange)"
| "sum_checked_add (SumU128 a) (SumU128 b) = (if a + b < 2 ^ 128 then Ok (SumU128 (a + b)) else Err TsNumericRange)"
| "sum_checked_add (SumF64 a) (SumF64 b) = and_then (finite_f64_new (f64_add a b)) (\<lambda>v. Ok (SumF64 v))"
| "sum_checked_add _ _ = Err TsInvalidInput"

fun as_sum :: "number \<Rightarrow> ts_sum" where
  "as_sum (I64 v) = SumI128 v"
| "as_sum (U64 v) = SumU128 v"
| "as_sum (F64 v) = SumF64 v"

definition count_checked_add :: "nat \<Rightarrow> nat \<Rightarrow> ts_error + nat" where
  "count_checked_add a b = (if a + b < 2 ^ 64 then Ok (a + b) else Err TsNumericRange)"

fun number_compare :: "number \<Rightarrow> number \<Rightarrow> ts_error + ordering" where
  "number_compare (I64 a) (I64 b) = Ok (cmp_of a b)"
| "number_compare (U64 a) (U64 b) = Ok (cmp_of a b)"
| "number_compare (F64 a) (F64 b) = Ok (cmp_of (f64_key a) (f64_key b))"
| "number_compare _ _ = Err TsInvalidInput"

datatype state_value = StateBool bool | StateId ts_id

record state_segment =
  sg_value :: state_value
  sg_window :: interval

record ts_transition =
  tr_at :: timestamp
  tr_from :: state_value
  tr_to :: state_value

record state_duration =
  sd_value :: state_value
  sd_micros :: nat

datatype aggregate_value =
    AvNumber number
  | AvSum ts_sum
  | AvCount nat
  | AvMean ts_sum nat
  | AvRate ts_sum nat
  | AvStateSegments "state_segment list"
  | AvTransitions "ts_transition list"
  | AvStateCoverage "state_duration list"
  | AvMissing

datatype completeness = Gaps | Overlap | ResetBoundary | Boundary

record aggregate_bucket =
  ab_window :: interval
  ab_value :: aggregate_value
  ab_valid_samples :: nat
  ab_covered_micros :: nat
  ab_completeness :: "completeness set"

definition inside :: "timestamp \<Rightarrow> interval \<Rightarrow> bool" where
  "inside at w \<longleftrightarrow> iv_start w \<le> at \<and> at < iv_end w"

subsection \<open>Gauge statistics\<close>

record numeric =
  nm_sum :: ts_sum
  nm_count :: nat
  nm_min :: "number option"
  nm_max :: "number option"

definition numeric_zero :: "number_kind \<Rightarrow> numeric" where
  "numeric_zero k = \<lparr>nm_sum = sum_zero k, nm_count = 0, nm_min = None, nm_max = None\<rparr>"

definition beats :: "(ordering \<Rightarrow> bool) \<Rightarrow> number \<Rightarrow> number option \<Rightarrow> ts_error + bool" where
  "beats P n best = (case best of None \<Rightarrow> Ok True | Some v \<Rightarrow> and_then (number_compare n v) (\<lambda>o1. Ok (P o1)))"

definition numeric_extrema :: "number \<Rightarrow> numeric \<Rightarrow> ts_error + numeric" where
  "numeric_extrema n s =
     and_then (beats (\<lambda>o1. o1 = Less) n (nm_min s)) (\<lambda>lo.
       let s1 = (if lo then s\<lparr>nm_min := Some n\<rparr> else s) in
       and_then (beats (\<lambda>o1. o1 = Greater) n (nm_max s1)) (\<lambda>hi.
         Ok (if hi then s1\<lparr>nm_max := Some n\<rparr> else s1)))"

definition numeric_add :: "number \<Rightarrow> numeric \<Rightarrow> ts_error + numeric" where
  "numeric_add n s =
     and_then (sum_checked_add (nm_sum s) (as_sum n)) (\<lambda>t.
     and_then (count_checked_add (nm_count s) 1) (\<lambda>c.
       numeric_extrema n (s\<lparr>nm_sum := t, nm_count := c\<rparr>)))"

definition number_of :: "sample \<Rightarrow> number option" where
  "number_of s = (case sm_reading s of ValidReading (NumberValue n) \<Rightarrow> Some n | _ \<Rightarrow> None)"

fun numeric_loop :: "interval \<Rightarrow> sample list \<Rightarrow> numeric \<Rightarrow> ts_error + numeric" where
  "numeric_loop w [] s = Ok s"
| "numeric_loop w (x # xs) s =
     (case number_of x of
        Some n \<Rightarrow> if inside (sm_observed_at x) w then and_then (numeric_add n s) (numeric_loop w xs)
                  else numeric_loop w xs s
      | None \<Rightarrow> numeric_loop w xs s)"

definition numeric_compute :: "number_kind \<Rightarrow> interval \<Rightarrow> sample list \<Rightarrow> ts_error + numeric" where
  "numeric_compute k w xs = numeric_loop w xs (numeric_zero k)"

definition extrema_opt :: "number option \<Rightarrow> numeric \<Rightarrow> ts_error + numeric" where
  "extrema_opt n s = (case n of Some v \<Rightarrow> numeric_extrema v s | None \<Rightarrow> Ok s)"

definition numeric_merge :: "numeric \<Rightarrow> numeric \<Rightarrow> ts_error + numeric" where
  "numeric_merge s b =
     and_then (sum_checked_add (nm_sum s) (nm_sum b)) (\<lambda>t.
     and_then (count_checked_add (nm_count s) (nm_count b)) (\<lambda>c.
     and_then (extrema_opt (nm_min b) (s\<lparr>nm_sum := t, nm_count := c\<rparr>)) (\<lambda>s1.
       extrema_opt (nm_max b) s1)))"

definition numeric_project :: "numeric \<Rightarrow> aggregate_op \<Rightarrow> ts_error + aggregate_value" where
  "numeric_project s op =
     (if nm_count s = 0 then Ok AvMissing
      else case op of
        OpSum \<Rightarrow> Ok (AvSum (nm_sum s))
      | OpCount \<Rightarrow> Ok (AvCount (nm_count s))
      | OpMean \<Rightarrow> Ok (AvMean (nm_sum s) (nm_count s))
      | OpMin \<Rightarrow> and_then (ok_or (nm_min s) TsInvariant) (\<lambda>n. Ok (AvNumber n))
      | OpMax \<Rightarrow> and_then (ok_or (nm_max s) TsInvariant) (\<lambda>n. Ok (AvNumber n))
      | _ \<Rightarrow> Err TsUnsupported)"

record gauge_statistics =
  gs_sum :: ts_sum
  gs_count :: nat
  gs_min :: "number option"
  gs_max :: "number option"
  gs_gaps :: bool

definition integer_statistics_valid :: "number_kind \<Rightarrow> gauge_statistics \<Rightarrow> bool" where
  "integer_statistics_valid k st =
     (case (k, gs_sum st, gs_min st, gs_max st) of
        (KindI64, SumI128 t, Some (I64 lo), Some (I64 hi)) \<Rightarrow>
          gs_count st > 0 \<and> lo \<le> hi \<and> lo * int (gs_count st) \<le> t \<and> t \<le> hi * int (gs_count st)
      | (KindU64, SumU128 t, Some (U64 lo), Some (U64 hi)) \<Rightarrow>
          gs_count st > 0 \<and> lo \<le> hi \<and> lo * gs_count st \<le> t \<and> t \<le> hi * gs_count st
      | (KindI64, SumI128 t, None, None) \<Rightarrow> t = 0 \<and> gs_count st = 0
      | (KindU64, SumU128 t, None, None) \<Rightarrow> t = 0 \<and> gs_count st = 0
      | _ \<Rightarrow> False)"

definition from_integer_statistics :: "number_kind \<Rightarrow> gauge_statistics \<Rightarrow> ts_error + numeric" where
  "from_integer_statistics k st =
     (if \<not> integer_statistics_valid k st then Err TsInvariant
      else Ok \<lparr>nm_sum = gs_sum st, nm_count = gs_count st, nm_min = gs_min st, nm_max = gs_max st\<rparr>)"

subsection \<open>Counters\<close>

record contribution =
  cb_window :: interval
  cb_increase :: ts_sum

fun difference :: "number \<Rightarrow> number \<Rightarrow> ts_error + ts_sum" where
  "difference (I64 a) (I64 b) = Ok (SumI128 (b - a))"
| "difference (U64 a) (U64 b) = (if a \<le> b then Ok (SumU128 (b - a)) else Err TsNumericRange)"
| "difference (F64 a) (F64 b) = and_then (finite_f64_new (f64_sub b a)) (\<lambda>v. Ok (SumF64 v))"
| "difference _ _ = Err TsInvalidInput"

definition points_push :: "sample list \<Rightarrow> sample \<Rightarrow> sample list" where
  "points_push out s =
     (if out \<noteq> [] \<and> sm_observed_at (last out) = sm_observed_at s then butlast out else out) @ [s]"

definition points :: "sample list \<Rightarrow> sample list" where
  "points ss = foldl points_push [] ss"

type_synonym defects = "completeness set"

definition cumulative ::
  "sample \<Rightarrow> sample \<Rightarrow> nat \<Rightarrow> defects \<Rightarrow> ts_error + contribution option \<times> defects" where
  "cumulative a b max_gap ds =
     (case (number_of a, number_of b) of
        (Some x, Some y) \<Rightarrow>
          and_then (ok_or (sm_interval a) TsInvariant) (\<lambda>ai.
          and_then (ok_or (sm_interval b) TsInvariant) (\<lambda>bi.
          and_then (if iv_start ai \<noteq> iv_start bi \<or> width_micros bi = 0 then Ok True
                    else and_then (number_compare y x) (\<lambda>o1. Ok (o1 = Less))) (\<lambda>reset.
            if reset then Ok (None, insert ResetBoundary ds)
            else and_then (interval_new (sm_observed_at a) (sm_observed_at b)) (\<lambda>w.
              if width_micros w > max_gap then Ok (None, insert Gaps ds)
              else and_then (difference x y) (\<lambda>d. Ok (Some \<lparr>cb_window = w, cb_increase = d\<rparr>, ds))))))
      | _ \<Rightarrow> Ok (None, insert Gaps ds))"

fun delta_loop ::
  "nat \<Rightarrow> interval \<Rightarrow> sample list \<Rightarrow> contribution list \<Rightarrow> defects \<Rightarrow> ts_error + contribution list \<times> defects" where
  "delta_loop max_gap w [] out ds = Ok (out, ds)"
| "delta_loop max_gap w (s # ss) out ds =
     (if \<not> inside (sm_observed_at s) w then delta_loop max_gap w ss out ds
      else case number_of s of
        None \<Rightarrow> delta_loop max_gap w ss out ds
      | Some n \<Rightarrow>
          and_then (ok_or (sm_interval s) TsInvariant) (\<lambda>i.
            if width_micros i > max_gap then delta_loop max_gap w ss out (insert Gaps ds)
            else delta_loop max_gap w ss (out @ [\<lparr>cb_window = i, cb_increase = as_sum n\<rparr>]) ds))"

fun cumulative_loop ::
  "nat \<Rightarrow> interval \<Rightarrow> sample list \<Rightarrow> contribution list \<Rightarrow> defects \<Rightarrow> ts_error + contribution list \<times> defects" where
  "cumulative_loop max_gap w (a # b # ss) out ds =
     (if inside (sm_observed_at b) w
      then and_then (cumulative a b max_gap ds) (\<lambda>(c, ds').
        cumulative_loop max_gap w (b # ss) (out @ (case c of Some x \<Rightarrow> [x] | None \<Rightarrow> [])) ds')
      else cumulative_loop max_gap w (b # ss) out ds)"
| "cumulative_loop max_gap w _ out ds = Ok (out, ds)"

definition counter_contributions ::
  "summary_spec \<Rightarrow> interval \<Rightarrow> sample list \<Rightarrow> temporality \<Rightarrow> defects \<Rightarrow> ts_error + contribution list \<times> defects" where
  "counter_contributions sp w ss t ds =
     and_then (ok_or (ss_max_gap sp) TsInvariant) (\<lambda>max_gap.
       if t = Delta then delta_loop max_gap w ss [] ds
       else cumulative_loop max_gap w (points ss) [] ds)"

record counter_walk =
  cw_sum :: ts_sum
  cw_covered :: nat
  cw_last :: "timestamp option"
  cw_overlap :: bool
  cw_defects :: defects

fun walk_contributions :: "interval \<Rightarrow> contribution list \<Rightarrow> counter_walk \<Rightarrow> ts_error + counter_walk" where
  "walk_contributions w [] cw = Ok cw"
| "walk_contributions w (c # cs) cw =
     (if iv_start (cb_window c) < iv_start w \<or> iv_end (cb_window c) > iv_end w
      then walk_contributions w cs (cw\<lparr>cw_defects := insert Boundary (cw_defects cw)\<rparr>)
      else
        let over = (case cw_last cw of Some e \<Rightarrow> iv_start (cb_window c) < e | None \<Rightarrow> False);
            lst = (case cw_last cw of Some e \<Rightarrow> max e (iv_end (cb_window c)) | None \<Rightarrow> iv_end (cb_window c)) in
        and_then (sum_checked_add (cw_sum cw) (cb_increase c)) (\<lambda>t.
        and_then (count_checked_add (cw_covered cw) (width_micros (cb_window c))) (\<lambda>n.
          walk_contributions w cs
            (cw\<lparr>cw_sum := t, cw_covered := n, cw_last := Some lst, cw_overlap := cw_overlap cw \<or> over\<rparr>))))"

definition contribution_order :: "contribution \<Rightarrow> timestamp \<times> timestamp" where
  "contribution_order c = (iv_start (cb_window c), iv_end (cb_window c))"

definition project_counter ::
  "number_kind \<Rightarrow> contribution list \<Rightarrow> interval \<Rightarrow> aggregate_op \<Rightarrow> defects \<Rightarrow>
   ts_error + (aggregate_value \<times> nat) \<times> defects" where
  "project_counter k cs w op ds =
     and_then (walk_contributions w (sort_key contribution_order cs)
         \<lparr>cw_sum = sum_zero k, cw_covered = 0, cw_last = None, cw_overlap = False, cw_defects = ds\<rparr>) (\<lambda>cw.
       if cw_overlap cw then Ok ((AvMissing, 0), insert Overlap (cw_defects cw))
       else if cw_covered cw = 0 then Ok ((AvMissing, 0), cw_defects cw)
       else if op = OpSum \<or> op = OpIncrease then Ok ((AvSum (cw_sum cw), cw_covered cw), cw_defects cw)
       else if op = OpRate then Ok ((AvRate (cw_sum cw) (cw_covered cw), cw_covered cw), cw_defects cw)
       else Err TsUnsupported)"

subsection \<open>States\<close>

definition state_value_of :: "sample \<Rightarrow> state_value option" where
  "state_value_of s =
     (case sm_reading s of
        ValidReading (BoolValue b) \<Rightarrow> Some (StateBool b)
      | ValidReading (StateValueOf v) \<Rightarrow> Some (StateId v)
      | _ \<Rightarrow> None)"

definition state_transition ::
  "summary_spec \<Rightarrow> interval \<Rightarrow> sample option \<Rightarrow> sample \<Rightarrow> state_value \<Rightarrow> ts_transition option" where
  "state_transition sp w previous s v =
     (case previous of
        None \<Rightarrow> None
      | Some prev \<Rightarrow>
          if \<not> inside (sm_observed_at s) w then None
          else (case state_value_of prev of
            None \<Rightarrow> None
          | Some from \<Rightarrow>
              if (case ss_coverage sp of
                    ObservedOnly \<Rightarrow> True
                  | HoldLast n \<Rightarrow> (sm_observed_at s - sm_observed_at prev) mod 2 ^ 64 \<le> int n) \<and> from \<noteq> v
              then Some \<lparr>tr_at = sm_observed_at s, tr_from = from, tr_to = v\<rparr> else None))"

definition hold_end :: "summary_spec \<Rightarrow> interval \<Rightarrow> timestamp \<Rightarrow> sample option \<Rightarrow> ts_error + timestamp" where
  "hold_end sp w at nxt =
     (case ss_coverage sp of
        ObservedOnly \<Rightarrow> Ok at
      | HoldLast n \<Rightarrow>
          and_then (timestamp_new (saturating_add_i64 at (min (int n) i64_max))) (\<lambda>t.
            Ok (min (min t (case nxt of Some x \<Rightarrow> sm_observed_at x | None \<Rightarrow> iv_end w)) (iv_end w))))"

definition state_piece ::
  "summary_spec \<Rightarrow> interval \<Rightarrow> sample option \<Rightarrow> sample \<Rightarrow> sample option \<Rightarrow>
   ts_error + state_segment option \<times> ts_transition option" where
  "state_piece sp w previous s nxt =
     (case state_value_of s of
        None \<Rightarrow> Ok (None, None)
      | Some v \<Rightarrow>
          if sm_observed_at s \<ge> iv_end w then Ok (None, None)
          else and_then (hold_end sp w (sm_observed_at s) nxt) (\<lambda>e.
            let start = max (sm_observed_at s) (iv_start w); tr = state_transition sp w previous s v in
            if e \<ge> start
            then and_then (interval_new start e) (\<lambda>i. Ok (Some \<lparr>sg_value = v, sg_window = i\<rparr>, tr))
            else Ok (None, tr)))"

fun add_duration :: "state_value \<Rightarrow> nat \<Rightarrow> state_duration list \<Rightarrow> ts_error + state_duration list" where
  "add_duration v n [] = Ok [\<lparr>sd_value = v, sd_micros = n\<rparr>]"
| "add_duration v n (d # ds) =
     (if sd_value d = v then and_then (count_checked_add (sd_micros d) n) (\<lambda>m. Ok (d\<lparr>sd_micros := m\<rparr> # ds))
      else and_then (add_duration v n ds) (\<lambda>r. Ok (d # r)))"

definition compact_push :: "state_segment list \<Rightarrow> state_segment \<Rightarrow> ts_error + state_segment list" where
  "compact_push cs s =
     (if cs \<noteq> [] \<and> sg_value (last cs) = sg_value s \<and> iv_end (sg_window (last cs)) = iv_start (sg_window s)
      then and_then (interval_new (iv_start (sg_window (last cs))) (iv_end (sg_window s))) (\<lambda>i.
        Ok (butlast cs @ [(last cs)\<lparr>sg_window := i\<rparr>]))
      else Ok (cs @ [s]))"

record state_walk =
  sw_durations :: "state_duration list"
  sw_compact :: "state_segment list"
  sw_covered :: nat

fun walk_segments :: "state_segment list \<Rightarrow> state_walk \<Rightarrow> ts_error + state_walk" where
  "walk_segments [] sw = Ok sw"
| "walk_segments (s # ss) sw =
     and_then (count_checked_add (sw_covered sw) (width_micros (sg_window s))) (\<lambda>n.
     and_then (add_duration (sg_value s) (width_micros (sg_window s)) (sw_durations sw)) (\<lambda>ds.
     and_then (compact_push (sw_compact sw) s) (\<lambda>cs.
       walk_segments ss \<lparr>sw_durations = ds, sw_compact = cs, sw_covered = n\<rparr>)))"

definition project_state ::
  "state_segment list \<Rightarrow> ts_transition list \<Rightarrow> aggregate_op \<Rightarrow> ts_error + aggregate_value \<times> nat" where
  "project_state segs trs op =
     and_then (walk_segments segs \<lparr>sw_durations = [], sw_compact = [], sw_covered = 0\<rparr>) (\<lambda>sw.
       if segs = [] then Ok (AvMissing, 0)
       else case op of
         OpTimeline \<Rightarrow> Ok (AvStateSegments (sw_compact sw), sw_covered sw)
       | OpTransitions \<Rightarrow> Ok (AvTransitions trs, sw_covered sw)
       | OpCoverage \<Rightarrow> Ok (AvStateCoverage (sw_durations sw), sw_covered sw)
       | _ \<Rightarrow> Err TsUnsupported)"

subsection \<open>Summaries\<close>

datatype statistics =
    StatNumeric numeric
  | StatCounter number_kind "contribution list"
  | StatState "state_segment list" "ts_transition list"

record summary =
  su_window :: interval
  su_semantics :: ts_digest
  su_valid :: nat
  su_defects :: defects
  su_data :: statistics

definition from_integer_gauge ::
  "(summary_spec \<Rightarrow> ts_error + ts_digest) \<Rightarrow> summary_spec \<Rightarrow> interval \<Rightarrow> gauge_statistics \<Rightarrow> ts_error + summary" where
  "from_integer_gauge sem sp w st =
     and_then (summary_spec_validate sp) (\<lambda>_.
       case spec_metric sp of
         Gauge k \<Rightarrow>
           if width_micros w = 0 then Err TsInvalidInput
           else and_then (from_integer_statistics k st) (\<lambda>n.
             and_then (sem sp) (\<lambda>d.
               Ok \<lparr>su_window = w, su_semantics = d, su_valid = gs_count st,
                   su_defects = (if gs_gaps st then {Gaps} else {}), su_data = StatNumeric n\<rparr>))
       | _ \<Rightarrow> Err TsUnsupported)"

fun statistics_size :: "statistics \<Rightarrow> nat" where
  "statistics_size (StatNumeric _) = 1"
| "statistics_size (StatCounter _ cs) = length cs"
| "statistics_size (StatState segs trs) = length segs + length trs"

definition check_size :: "nat \<Rightarrow> summary \<Rightarrow> ts_error + unit" where
  "check_size max_items s = (if statistics_size (su_data s) > max_items then Err TsBudgetExceeded else Ok ())"

fun statistics_merge :: "statistics \<Rightarrow> statistics \<Rightarrow> ts_error + statistics" where
  "statistics_merge (StatNumeric a) (StatNumeric b) = and_then (numeric_merge a b) (\<lambda>n. Ok (StatNumeric n))"
| "statistics_merge (StatCounter a x) (StatCounter b y) =
     (if a = b then Ok (StatCounter a (x @ y)) else Err TsInvalidInput)"
| "statistics_merge (StatState a x) (StatState b y) = Ok (StatState (a @ b) (x @ y))"
| "statistics_merge _ _ = Err TsInvalidInput"

definition summary_merge :: "summary \<Rightarrow> summary \<Rightarrow> nat \<Rightarrow> ts_error + summary" where
  "summary_merge s t max_items =
     (if iv_end (su_window s) \<noteq> iv_start (su_window t) \<or> su_semantics s \<noteq> su_semantics t then Err TsInvalidInput
      else and_then (interval_new (iv_start (su_window s)) (iv_end (su_window t))) (\<lambda>w.
        and_then (count_checked_add (su_valid s) (su_valid t)) (\<lambda>n.
        and_then (statistics_merge (su_data s) (su_data t)) (\<lambda>d.
          let r = \<lparr>su_window = w, su_semantics = su_semantics s, su_valid = n,
                   su_defects = su_defects s \<union> su_defects t, su_data = d\<rparr> in
          and_then (check_size max_items r) (\<lambda>_. Ok r)))))"

definition summary_project :: "summary \<Rightarrow> aggregate_op \<Rightarrow> ts_error + aggregate_bucket" where
  "summary_project s op =
     and_then (case su_data s of
         StatNumeric n \<Rightarrow> and_then (numeric_project n op) (\<lambda>v. Ok ((v, 0), su_defects s))
       | StatCounter k cs \<Rightarrow> project_counter k cs (su_window s) op (su_defects s)
       | StatState segs trs \<Rightarrow> and_then (project_state segs trs op) (\<lambda>r. Ok (r, su_defects s)))
     (\<lambda>((v, covered), ds).
       let ds' = (if (case su_data s of StatNumeric _ \<Rightarrow> False | _ \<Rightarrow> True) \<and> covered < width_micros (su_window s)
                  then insert Gaps ds else ds) in
       Ok \<lparr>ab_window = su_window s, ab_value = v, ab_valid_samples = su_valid s, ab_covered_micros = covered,
           ab_completeness = ds'\<rparr>)"

subsection \<open>The resumable builder\<close>

record summary_builder =
  sb_spec :: summary_spec
  sb_summary :: summary
  sb_previous :: "sample option"
  sb_pending :: "sample option"

definition empty_statistics :: "metric \<Rightarrow> statistics" where
  "empty_statistics mt =
     (case mt of
        Gauge k \<Rightarrow> StatNumeric (numeric_zero k)
      | Counter k _ \<Rightarrow> StatCounter k []
      | _ \<Rightarrow> StatState [] [])"

definition builder_new ::
  "(summary_spec \<Rightarrow> ts_error + ts_digest) \<Rightarrow> summary_spec \<Rightarrow> interval \<Rightarrow> ts_error + summary_builder" where
  "builder_new sem sp w =
     and_then (summary_spec_validate sp) (\<lambda>_.
       if width_micros w = 0 then Err TsInvalidInput
       else and_then (sem sp) (\<lambda>d.
         Ok \<lparr>sb_spec = sp,
             sb_summary = \<lparr>su_window = w, su_semantics = d, su_valid = 0, su_defects = {},
               su_data = empty_statistics (spec_metric sp)\<rparr>,
             sb_previous = None, sb_pending = None\<rparr>))"

text \<open>The part of \<open>flush\<close> that counts the point, and the part that extends the statistics.\<close>

definition count_point :: "sample \<Rightarrow> summary \<Rightarrow> ts_error + summary" where
  "count_point p s =
     (if inside (sm_observed_at p) (su_window s)
      then (case sm_reading p of
              ValidReading _ \<Rightarrow> and_then (count_checked_add (su_valid s) 1) (\<lambda>n. Ok (s\<lparr>su_valid := n\<rparr>))
            | _ \<Rightarrow> Ok (s\<lparr>su_defects := insert Gaps (su_defects s)\<rparr>))
      else Ok s)"

definition extend_statistics ::
  "summary_spec \<Rightarrow> sample option \<Rightarrow> sample \<Rightarrow> sample option \<Rightarrow> summary \<Rightarrow> ts_error + summary" where
  "extend_statistics sp previous p nxt s =
     (case su_data s of
        StatNumeric n \<Rightarrow>
          (case number_of p of
             Some v \<Rightarrow> if inside (sm_observed_at p) (su_window s)
               then and_then (numeric_add v n) (\<lambda>n'. Ok (s\<lparr>su_data := StatNumeric n'\<rparr>)) else Ok s
           | None \<Rightarrow> Ok s)
      | StatCounter k cs \<Rightarrow>
          if inside (sm_observed_at p) (su_window s)
          then and_then (ok_or (counter_temporality (spec_metric sp)) TsInvariant) (\<lambda>t.
            let input = (case previous of Some q \<Rightarrow> [q] | None \<Rightarrow> []) @ [p];
                only = (if t = Delta then drop (length input - 1) input else input) in
            and_then (counter_contributions sp (su_window s) only t (su_defects s)) (\<lambda>(new, ds).
              Ok (s\<lparr>su_data := StatCounter k (cs @ new), su_defects := ds\<rparr>)))
          else Ok s
      | StatState segs trs \<Rightarrow>
          and_then (state_piece sp (su_window s) previous p nxt) (\<lambda>(seg, tr).
            Ok (s\<lparr>su_data := StatState (segs @ (case seg of Some x \<Rightarrow> [x] | None \<Rightarrow> []))
                    (trs @ (case tr of Some x \<Rightarrow> [x] | None \<Rightarrow> []))\<rparr>)))"

definition flush_point ::
  "summary_spec \<Rightarrow> sample option \<Rightarrow> sample \<Rightarrow> sample option \<Rightarrow> summary \<Rightarrow> ts_error + summary" where
  "flush_point sp previous p nxt s =
     and_then (count_point p s) (extend_statistics sp previous p nxt)"

definition builder_flush :: "sample option \<Rightarrow> summary_builder \<Rightarrow> ts_error + summary_builder" where
  "builder_flush nxt b =
     (case sb_pending b of
        None \<Rightarrow> Ok b
      | Some p \<Rightarrow>
          and_then (flush_point (sb_spec b) (sb_previous b) p nxt (sb_summary b)) (\<lambda>s.
            Ok (b\<lparr>sb_summary := s, sb_previous := Some p, sb_pending := None\<rparr>)))"

definition ordered_metric :: "metric \<Rightarrow> bool" where
  "ordered_metric mt = (case mt of Gauge _ \<Rightarrow> False | Counter _ t \<Rightarrow> t = Cumulative | _ \<Rightarrow> True)"

definition builder_flush_push :: "sample \<Rightarrow> nat \<Rightarrow> summary_builder \<Rightarrow> ts_error + summary_builder" where
  "builder_flush_push s max_items b =
     and_then (builder_flush (Some s) b) (\<lambda>b'.
     and_then (check_size max_items (sb_summary b')) (\<lambda>_. Ok (b'\<lparr>sb_pending := Some s\<rparr>)))"

definition builder_push :: "sample \<Rightarrow> nat \<Rightarrow> summary_builder \<Rightarrow> ts_error + summary_builder" where
  "builder_push s max_items b =
     (if \<not> selection_matches (spec_selection (sb_spec b)) s then Err TsInvalidInput
      else case sb_pending b of
        None \<Rightarrow> builder_flush_push s max_items b
      | Some p \<Rightarrow>
          and_then (latest_cmp s p) (\<lambda>o1.
            if o1 \<noteq> Greater then Err TsConflict
            else if ordered_metric (spec_metric (sb_spec b)) \<and> sm_observed_at p = sm_observed_at s
            then Ok (b\<lparr>sb_pending := Some s\<rparr>)
            else builder_flush_push s max_items b))"

definition builder_interrupt :: "timestamp \<Rightarrow> summary_builder \<Rightarrow> ts_error + summary_builder" where
  "builder_interrupt at b =
     (let full = su_window (sb_summary b) in
      and_then (interval_new (iv_start full) (min (max at (iv_start full)) (iv_end full))) (\<lambda>w.
      and_then (builder_flush None (b\<lparr>sb_summary := (sb_summary b)\<lparr>su_window := w\<rparr>\<rparr>)) (\<lambda>b'.
        Ok (b'\<lparr>sb_summary := (sb_summary b')\<lparr>su_window := full, su_defects := insert Gaps (su_defects (sb_summary b'))\<rparr>,
               sb_previous := None\<rparr>))))"

definition last_observed_at :: "summary_builder \<Rightarrow> timestamp option" where
  "last_observed_at b =
     map_option sm_observed_at (case sb_pending b of Some p \<Rightarrow> Some p | None \<Rightarrow> sb_previous b)"

definition builder_finish :: "nat \<Rightarrow> summary_builder \<Rightarrow> ts_error + summary" where
  "builder_finish max_items b =
     and_then (builder_flush None b) (\<lambda>b'.
     and_then (check_size max_items (sb_summary b')) (\<lambda>_. Ok (sb_summary b')))"

fun push_all :: "nat \<Rightarrow> sample list \<Rightarrow> summary_builder \<Rightarrow> ts_error + summary_builder" where
  "push_all max_items [] b = Ok b"
| "push_all max_items (s # ss) b = and_then (builder_push s max_items b) (push_all max_items ss)"

fun check_input ::
  "selection \<Rightarrow> (timestamp \<times> nat \<times> ts_id) option \<Rightarrow> ts_id set \<Rightarrow> sample list \<Rightarrow> ts_error + unit" where
  "check_input sel previous ids [] = Ok ()"
| "check_input sel previous ids (s # ss) =
     (if \<not> selection_matches sel s then Err TsInvalidInput
      else if (case previous of Some k \<Rightarrow> order_key s \<le> k | None \<Rightarrow> False) \<or> sm_id s \<in> ids then Err TsConflict
      else check_input sel (Some (order_key s)) (insert (sm_id s) ids) ss)"

definition summary_compute ::
  "(summary_spec \<Rightarrow> ts_error + ts_digest) \<Rightarrow> summary_spec \<Rightarrow> interval \<Rightarrow> sample list \<Rightarrow> nat \<Rightarrow> ts_error + summary" where
  "summary_compute sem sp w ss max_items =
     (if length ss > max_items \<or> width_micros w = 0 then Err TsBudgetExceeded
      else and_then (check_input (spec_selection sp) None {} ss) (\<lambda>_.
        and_then (builder_new sem sp w) (\<lambda>b.
        and_then (push_all max_items ss b) (builder_finish max_items))))"

end
