(* ===== verification/Timeseries_Laws.thy ===== *)
theory Timeseries_Laws
  imports Timeseries_Aggregate
begin

section \<open>Time series: laws of the summaries\<close>

text \<open>
  What a computed summary says of its samples: the coverage of a bucket never exceeds its window, a
  gauge summary holds exactly the statistics of the samples in the window, and summaries of adjacent
  windows merge into the summary of their union.
\<close>

subsection \<open>Windows\<close>

lemma count_checked_add_Ok [simp]: "count_checked_add a b = Ok c \<longleftrightarrow> c = a + b \<and> a + b < 2 ^ 64"
  by (auto simp: count_checked_add_def)

lemma interval_new_Ok [simp]:
  "interval_new a b = Ok w \<longleftrightarrow> a \<le> b \<and> w = \<lparr>iv_start = a, iv_end = b\<rparr>"
  by (auto simp: interval_new_def)

lemma flush_point_keeps:
  assumes "flush_point sp prev p nxt s = Ok s'"
  shows "su_window s' = su_window s" and "su_semantics s' = su_semantics s"
  using assms
  by (auto simp: flush_point_def count_point_def extend_statistics_def result_iffs Let_def
      split: if_splits reading.splits statistics.splits option.splits)

lemma filter_adjacent:
  assumes "sorted (map f xs)" and "a \<le> b" and "b \<le> (c :: 'a :: linorder)"
  shows "filter (\<lambda>x. a \<le> f x \<and> f x < c) xs =
    filter (\<lambda>x. a \<le> f x \<and> f x < b) xs @ filter (\<lambda>x. b \<le> f x \<and> f x < c) xs"
  using assms(1)
proof (induction xs)
  case (Cons x xs)
  then have IH: "filter (\<lambda>x. a \<le> f x \<and> f x < c) xs =
    filter (\<lambda>x. a \<le> f x \<and> f x < b) xs @ filter (\<lambda>x. b \<le> f x \<and> f x < c) xs" by simp
  have "filter (\<lambda>x. a \<le> f x \<and> f x < b) xs = []" if "b \<le> f x"
    using Cons.prems that by (auto simp: filter_empty_conv)
  then show ?case using IH assms(2,3) by (cases "f x < b") auto
qed simp

subsection \<open>Coverage of a counter\<close>

definition reached :: "interval \<Rightarrow> timestamp option \<Rightarrow> int" where
  "reached w lst = (case lst of None \<Rightarrow> 0 | Some e \<Rightarrow> max 0 (e - iv_start w))"

lemma walk_contributions_overlap:
  "walk_contributions w cs cw = Ok cw' \<Longrightarrow> cw_overlap cw \<Longrightarrow> cw_overlap cw'"
  by (induction w cs cw rule: walk_contributions.induct)
    (auto simp: result_iffs Let_def split: if_splits)

lemma walk_contributions_covered:
  assumes "walk_contributions w cs cw = Ok cw'" and "\<not> cw_overlap cw'"
    and "int (cw_covered cw) \<le> reached w (cw_last cw)" and "reached w (cw_last cw) \<le> int (width_micros w)"
  shows "int (cw_covered cw') \<le> int (width_micros w)"
  using assms
proof (induction w cs cw rule: walk_contributions.induct)
  case (2 w c cs cw)
  show ?case
  proof (cases "iv_start (cb_window c) < iv_start w \<or> iv_end (cb_window c) > iv_end w")
    case True
    then show ?thesis using 2 by auto
  next
    case False
    define e where "e = (case cw_last cw of Some x \<Rightarrow> max x (iv_end (cb_window c)) | None \<Rightarrow> iv_end (cb_window c))"
    define o1 where "o1 = (case cw_last cw of Some x \<Rightarrow> iv_start (cb_window c) < x | None \<Rightarrow> False)"
    obtain t n where tn: "sum_checked_add (cw_sum cw) (cb_increase c) = Ok t"
        "n = cw_covered cw + width_micros (cb_window c)" "n < 2 ^ 64"
      and rec: "walk_contributions w cs
        (cw\<lparr>cw_sum := t, cw_covered := n, cw_last := Some e, cw_overlap := cw_overlap cw \<or> o1\<rparr>) = Ok cw'"
      using 2(3) False by (auto simp: result_iffs Let_def e_def o1_def)
    have "\<not> o1" using walk_contributions_overlap [OF rec] 2(4) by auto
    then have "int n \<le> max 0 (e - iv_start w)" "e - iv_start w \<le> int (width_micros w)"
      using 2(5,6) False
      by (auto simp: tn(2) e_def o1_def reached_def width_micros_def split: option.splits)
    then show ?thesis
      using 2(2) [OF False o1_def e_def rec 2(4)] by (simp add: reached_def)
  qed
qed simp

lemma project_counter_covered:
  "project_counter k cs w op ds = Ok ((v, covered), ds') \<Longrightarrow> covered \<le> width_micros w"
  using walk_contributions_covered [of w "sort_key contribution_order cs"
      "\<lparr>cw_sum = sum_zero k, cw_covered = 0, cw_last = None, cw_overlap = False, cw_defects = ds\<rparr>"]
  by (fastforce simp: project_counter_def result_iffs reached_def split: if_splits)

subsection \<open>Coverage of a state\<close>

definition held :: "state_segment list \<Rightarrow> nat" where
  "held segs = (\<Sum>s\<leftarrow>segs. width_micros (sg_window s))"

lemma walk_segments_covered:
  "walk_segments segs sw = Ok sw' \<Longrightarrow> sw_covered sw' = sw_covered sw + held segs"
  by (induction segs sw rule: walk_segments.induct) (auto simp: result_iffs held_def)

lemma project_state_covered: "project_state segs trs op = Ok (v, covered) \<Longrightarrow> covered = held segs"
  by (auto simp: project_state_def result_iffs held_def dest!: walk_segments_covered
      split: if_splits aggregate_op.splits)

text \<open>What the segments written so far may hold before a point at time \<open>t\<close>.\<close>

definition room_before :: "interval \<Rightarrow> timestamp \<Rightarrow> int" where
  "room_before w t = max 0 (min t (iv_end w) - iv_start w)"

lemma hold_end_le:
  assumes "hold_end sp w at nxt = Ok e"
  shows "e \<le> at \<or> e \<le> min (case nxt of Some x \<Rightarrow> sm_observed_at x | None \<Rightarrow> iv_end w) (iv_end w)"
  using assms by (auto simp: hold_end_def result_iffs split: coverage_policy.splits)

lemma state_piece_segment:
  assumes "state_piece sp w prev p nxt = Ok (Some seg, tr)"
  shows "iv_start (sg_window seg) = max (sm_observed_at p) (iv_start w)"
    and "hold_end sp w (sm_observed_at p) nxt = Ok (iv_end (sg_window seg))"
    and "sm_observed_at p < iv_end w"
  using assms by (auto simp: state_piece_def result_iffs Let_def split: option.splits if_splits)

lemma state_piece_held:
  assumes ok: "state_piece sp w prev p nxt = Ok (seg, tr)"
    and t: "t = (case nxt of Some x \<Rightarrow> sm_observed_at x | None \<Rightarrow> iv_end w)"
      "min (sm_observed_at p) (iv_end w) \<le> t"
  shows "room_before w (sm_observed_at p) + int (held (case seg of Some x \<Rightarrow> [x] | None \<Rightarrow> [])) \<le> room_before w t"
proof (cases seg)
  case None
  then show ?thesis using t by (auto simp: room_before_def held_def split: option.splits)
next
  case (Some x)
  note seg = state_piece_segment [OF ok [unfolded Some]]
  have "iv_end (sg_window x) \<le> sm_observed_at p \<or> iv_end (sg_window x) \<le> min t (iv_end w)"
    using hold_end_le [OF seg(2)] t(1) by simp
  then show ?thesis
    using seg(1,3) t(2) Some by (auto simp: room_before_def held_def width_micros_def max_def min_def)
qed

definition segments_of :: "summary \<Rightarrow> state_segment list" where
  "segments_of s = (case su_data s of StatState segs _ \<Rightarrow> segs | _ \<Rightarrow> [])"

lemma segments_of_count: "count_point p s = Ok s' \<Longrightarrow> segments_of s' = segments_of s \<and> su_window s' = su_window s"
  by (auto simp: count_point_def segments_of_def result_iffs split: if_splits reading.splits)

lemma flush_point_held:
  assumes ok: "flush_point sp prev p nxt s = Ok s'"
    and t: "t = (case nxt of Some x \<Rightarrow> sm_observed_at x | None \<Rightarrow> iv_end (su_window s))"
      "min (sm_observed_at p) (iv_end (su_window s)) \<le> t"
    and held: "int (held (segments_of s)) \<le> room_before (su_window s) (sm_observed_at p)"
  shows "int (held (segments_of s')) \<le> room_before (su_window s') t"
proof -
  obtain u where u: "count_point p s = Ok u" "extend_statistics sp prev p nxt u = Ok s'"
    using ok by (auto simp: flush_point_def result_iffs)
  note same = segments_of_count [OF u(1)] flush_point_keeps [OF ok]
  have mono: "room_before (su_window s) (sm_observed_at p) \<le> room_before (su_window s) t"
    using t(2) by (auto simp: room_before_def)
  show ?thesis
  proof (cases "su_data u")
    case (StatState segs trs)
    then obtain seg tr where piece: "state_piece sp (su_window s) prev p nxt = Ok (seg, tr)"
      and s': "segments_of s' = segs @ (case seg of Some x \<Rightarrow> [x] | None \<Rightarrow> [])"
      using u(2) same by (auto simp: extend_statistics_def segments_of_def result_iffs)
    have "segments_of u = segs" using StatState by (simp add: segments_of_def)
    then show ?thesis
      using state_piece_held [OF piece t] held same s' by (simp add: held_def)
  next
    case (StatNumeric n)
    then have "segments_of s' = []"
      using u(2) by (auto simp: extend_statistics_def segments_of_def result_iffs split: option.splits if_splits)
    then show ?thesis using mono held same by (simp add: held_def)
  next
    case (StatCounter k cs)
    then have "segments_of s' = []"
      using u(2) by (auto simp: extend_statistics_def segments_of_def result_iffs Let_def split: if_splits)
    then show ?thesis using mono held same by (simp add: held_def)
  qed
qed

definition builder_fits :: "interval \<Rightarrow> summary_builder \<Rightarrow> bool" where
  "builder_fits w b \<longleftrightarrow> su_window (sb_summary b) = w \<and>
     (case sb_pending b of
        None \<Rightarrow> held (segments_of (sb_summary b)) = 0
      | Some p \<Rightarrow> int (held (segments_of (sb_summary b))) \<le> room_before w (sm_observed_at p))"

lemma builder_flush_push_fits:
  assumes "builder_flush_push s m b = Ok b'" and "builder_fits w b"
    and "\<And>p. sb_pending b = Some p \<Longrightarrow> sm_observed_at p \<le> sm_observed_at s"
  shows "builder_fits w b'"
proof (cases "sb_pending b")
  case None
  then show ?thesis
    using assms(1,2)
    by (auto simp: builder_flush_push_def builder_flush_def builder_fits_def result_iffs room_before_def)
next
  case (Some p)
  then obtain u where u: "flush_point (sb_spec b) (sb_previous b) p (Some s) (sb_summary b) = Ok u"
      "sb_summary b' = u" "sb_pending b' = Some s"
    using assms(1) by (auto simp: builder_flush_push_def builder_flush_def result_iffs)
  have "int (held (segments_of u)) \<le> room_before (su_window u) (sm_observed_at s)"
    by (rule flush_point_held [OF u(1)]) (use assms(2) assms(3) [OF Some] Some in \<open>auto simp: builder_fits_def\<close>)
  then show ?thesis
    using u flush_point_keeps(1) [OF u(1)] assms(2) by (simp add: builder_fits_def)
qed

lemma latest_cmp_Greater:
  "latest_cmp s p = Ok Greater \<longleftrightarrow> sm_stream s = sm_stream p \<and> sm_series s = sm_series p \<and> order_key p < order_key s"
  by (auto simp: latest_cmp_def cmp_of_def)

lemma latest_cmp_observed: "latest_cmp s p = Ok Greater \<Longrightarrow> sm_observed_at p \<le> sm_observed_at s"
  by (auto simp: latest_cmp_Greater order_key_def less_prod_def')

lemma builder_push_cases:
  assumes "builder_push s m b = Ok b'"
  obtains
    (flush) "builder_flush_push s m b = Ok b'"
      "\<And>p. sb_pending b = Some p \<Longrightarrow> sm_observed_at p \<le> sm_observed_at s"
  | (replace) p where "sb_pending b = Some p" "sm_observed_at p = sm_observed_at s" "b' = b\<lparr>sb_pending := Some s\<rparr>"
  using assms
  by (auto simp: builder_push_def result_iffs dest: latest_cmp_observed split: if_splits option.splits)

lemma builder_push_fits:
  assumes "builder_push s m b = Ok b'" and "builder_fits w b"
  shows "builder_fits w b'"
  using assms(1)
proof (cases rule: builder_push_cases)
  case flush
  from flush(1) assms(2) flush(2) show ?thesis by (rule builder_flush_push_fits)
next
  case (replace p)
  then show ?thesis using assms(2) by (simp add: builder_fits_def)
qed

lemma push_all_fits: "push_all m ss b = Ok b' \<Longrightarrow> builder_fits w b \<Longrightarrow> builder_fits w b'"
  by (induction ss arbitrary: b) (auto simp: result_iffs dest: builder_push_fits)

lemma builder_finish_fits:
  assumes "builder_finish m b = Ok s" and "builder_fits w b"
  shows "su_window s = w \<and> held (segments_of s) \<le> width_micros w"
proof (cases "sb_pending b")
  case None
  then show ?thesis
    using assms by (auto simp: builder_finish_def builder_flush_def builder_fits_def result_iffs)
next
  case (Some p)
  then have f: "flush_point (sb_spec b) (sb_previous b) p None (sb_summary b) = Ok s"
    using assms(1) by (auto simp: builder_finish_def builder_flush_def result_iffs)
  have "int (held (segments_of s)) \<le> room_before (su_window s) (iv_end (su_window (sb_summary b)))"
    by (rule flush_point_held [OF f]) (use assms(2) Some in \<open>auto simp: builder_fits_def\<close>)
  then show ?thesis
    using flush_point_keeps(1) [OF f] assms(2) by (auto simp: builder_fits_def room_before_def width_micros_def)
qed

lemma summary_compute_held:
  assumes "summary_compute sem sp w ss m = Ok s"
  shows "su_window s = w \<and> held (segments_of s) \<le> width_micros w"
proof -
  obtain b b' where b: "builder_new sem sp w = Ok b" "push_all m ss b = Ok b'" "builder_finish m b' = Ok s"
    using assms by (auto simp: summary_compute_def result_iffs split: if_splits)
  have "builder_fits w b"
    using b(1)
    by (auto simp: builder_new_def builder_fits_def segments_of_def held_def empty_statistics_def result_iffs
        split: if_splits metric.splits)
  then show ?thesis using builder_finish_fits [OF b(3) push_all_fits [OF b(2)]] by blast
qed

text \<open>The summaries a provider can hold: computed ones and merges of such.\<close>

inductive derived :: "(summary_spec \<Rightarrow> ts_error + ts_digest) \<Rightarrow> summary \<Rightarrow> bool" for sem where
  computed: "summary_compute sem sp w ss m = Ok s \<Longrightarrow> derived sem s"
| from_gauge: "from_integer_gauge sem sp w st = Ok s \<Longrightarrow> derived sem s"
| merged: "derived sem s \<Longrightarrow> derived sem t \<Longrightarrow> summary_merge s t m = Ok r \<Longrightarrow> derived sem r"

lemma summary_merge_held:
  assumes ok: "summary_merge s t m = Ok r" and wf: "iv_start (su_window s) \<le> iv_end (su_window s)"
      "iv_start (su_window t) \<le> iv_end (su_window t)"
    and "held (segments_of s) \<le> width_micros (su_window s)" "held (segments_of t) \<le> width_micros (su_window t)"
  shows "held (segments_of r) \<le> width_micros (su_window r)"
proof -
  have r: "iv_end (su_window s) = iv_start (su_window t)"
      "su_window r = \<lparr>iv_start = iv_start (su_window s), iv_end = iv_end (su_window t)\<rparr>"
      "statistics_merge (su_data s) (su_data t) = Ok (su_data r)"
    using ok by (auto simp: summary_merge_def result_iffs Let_def split: if_splits)
  have "segments_of r = segments_of s @ segments_of t"
    using r(3) by (cases "su_data s"; cases "su_data t"; cases "su_data r") (auto simp: segments_of_def result_iffs split: if_splits)
  then show ?thesis using assms(4,5) wf r(1,2) by (simp add: held_def width_micros_def)
qed

lemma width_positive: "width_micros w \<noteq> 0 \<Longrightarrow> iv_start w \<le> iv_end w"
  by (simp add: width_micros_def)

lemma derived_held:
  "derived sem s \<Longrightarrow> iv_start (su_window s) \<le> iv_end (su_window s) \<and> held (segments_of s) \<le> width_micros (su_window s)"
proof (induction rule: derived.induct)
  case (computed sp w ss m s)
  then show ?case
    using summary_compute_held [OF computed] by (auto simp: summary_compute_def intro: width_positive split: if_splits)
next
  case (from_gauge sp w st s)
  then show ?case
    by (auto simp: from_integer_gauge_def result_iffs segments_of_def held_def intro: width_positive
        split: metric.splits if_splits)
next
  case (merged s t m r)
  have "iv_start (su_window r) \<le> iv_end (su_window r)"
    using merged.hyps(3) by (auto simp: summary_merge_def result_iffs Let_def split: if_splits)
  then show ?case using summary_merge_held [OF merged.hyps(3)] merged.IH by simp
qed

text \<open>C32. The bucket projected from any computed or merged summary never claims more covered time than its
  window has. A counter or state bucket that reports no gap covers its window completely; a gauge bucket
  measures points, not time, and always reports zero covered time.\<close>

theorem bucket_coverage_bounded:
  assumes "derived sem s" and "summary_project s op = Ok b"
  shows "ab_window b = su_window s \<and> ab_covered_micros b \<le> width_micros (su_window s) \<and>
    (case su_data s of
       StatNumeric _ \<Rightarrow> ab_covered_micros b = 0
     | _ \<Rightarrow> (Gaps \<notin> ab_completeness b \<longrightarrow> ab_covered_micros b = width_micros (su_window s)))"
proof -
  have held: "held (segments_of s) \<le> width_micros (su_window s)"
    using derived_held [OF assms(1)] by simp
  have "ab_covered_micros b \<le> width_micros (su_window s)"
  proof (cases "su_data s")
    case (StatCounter k cs)
    then show ?thesis using assms(2) by (auto simp: summary_project_def result_iffs dest: project_counter_covered)
  next
    case (StatState segs trs)
    then have "ab_covered_micros b = held (segments_of s)"
      using assms(2) by (auto simp: summary_project_def result_iffs segments_of_def dest: project_state_covered)
    then show ?thesis using held by simp
  qed (use assms(2) in \<open>auto simp: summary_project_def result_iffs\<close>)
  then show ?thesis
    using assms(2) by (auto simp: summary_project_def result_iffs Let_def split: statistics.splits if_splits)
qed

definition demo_spec :: "metric \<Rightarrow> coverage_policy \<Rightarrow> nat option \<Rightarrow> summary_spec" where
  "demo_spec mt cov gap =
     \<lparr>ss_stream = \<lparr>st_scope = td_scope (demo_definition 1 {}), st_source = [115], st_generation = [103]\<rparr>,
      ss_series = \<lparr>se_definition = (demo_definition 1 {})\<lparr>td_metric := mt\<rparr>, se_subject = [98], se_resource = [114],
        se_dimensions = []\<rparr>,
      ss_resolution = 60, ss_coverage = cov, ss_max_gap = gap\<rparr>"

definition demo_sample :: "summary_spec \<Rightarrow> nat \<Rightarrow> timestamp \<Rightarrow> interval option \<Rightarrow> ts_value \<Rightarrow> sample" where
  "demo_sample sp n t iv v =
     \<lparr>sm_stream = ss_stream sp, sm_series = ss_series sp, sm_id = [n], sm_sequence = n, sm_observed_at = t,
      sm_interval = iv, sm_reading = ValidReading v\<rparr>"

lemmas demo_defs = demo_spec_def demo_sample_def demo_definition_def

definition demo_state_summary :: summary where
  "demo_state_summary =
     \<lparr>su_window = \<lparr>iv_start = 0, iv_end = 20\<rparr>, su_semantics = [], su_valid = 2, su_defects = {},
      su_data = StatState
        [\<lparr>sg_value = StateBool True, sg_window = \<lparr>iv_start = 0, iv_end = 5\<rparr>\<rparr>,
         \<lparr>sg_value = StateBool False, sg_window = \<lparr>iv_start = 5, iv_end = 15\<rparr>\<rparr>]
        [\<lparr>tr_at = 5, tr_from = StateBool True, tr_to = StateBool False\<rparr>]\<rparr>"

lemma demo_state_computed:
  "summary_compute (\<lambda>_. Ok []) (demo_spec BoolMetric (HoldLast 10) None) \<lparr>iv_start = 0, iv_end = 20\<rparr>
     [demo_sample (demo_spec BoolMetric (HoldLast 10) None) 1 0 None (BoolValue True),
      demo_sample (demo_spec BoolMetric (HoldLast 10) None) 2 5 None (BoolValue False)] 8 = Ok demo_state_summary"
  by (simp add: summary_compute_def demo_defs spec_selection_def order_key_def builder_new_def
      summary_spec_validate_def spec_metric_def width_micros_def i64_max_def empty_statistics_def
      builder_push_def latest_cmp_def cmp_of_def builder_flush_push_def builder_flush_def check_size_def
      ordered_metric_def flush_point_def count_point_def inside_def extend_statistics_def state_piece_def
      state_value_of_def hold_end_def saturating_add_i64_def i64_min_def timestamp_new_def
      state_transition_def interval_new_def count_checked_add_def builder_finish_def demo_state_summary_def Let_def)

theorem bucket_coverage_bounded_witness:
  "summary_project demo_state_summary OpTransitions =
     Ok \<lparr>ab_window = \<lparr>iv_start = 0, iv_end = 20\<rparr>,
         ab_value = AvTransitions [\<lparr>tr_at = 5, tr_from = StateBool True, tr_to = StateBool False\<rparr>],
         ab_valid_samples = 2, ab_covered_micros = 15, ab_completeness = {Gaps}\<rparr> \<and>
   (15 :: nat) \<le> width_micros (su_window demo_state_summary)"
proof -
  have p: "summary_project demo_state_summary OpTransitions =
     Ok \<lparr>ab_window = \<lparr>iv_start = 0, iv_end = 20\<rparr>,
         ab_value = AvTransitions [\<lparr>tr_at = 5, tr_from = StateBool True, tr_to = StateBool False\<rparr>],
         ab_valid_samples = 2, ab_covered_micros = 15, ab_completeness = {Gaps}\<rparr>"
    by (simp add: summary_project_def demo_state_summary_def project_state_def width_micros_def
        count_checked_add_def compact_push_def)
  show ?thesis using bucket_coverage_bounded [OF derived.computed [OF demo_state_computed] p] p by simp
qed

subsection \<open>The builder as a fold over the kept points\<close>

text \<open>For an ordered metric the last of several samples at one time is kept; a gauge or counter summary
  folds \<open>flush_point\<close> over the kept points, each with its predecessor.\<close>

fun kept_points :: "bool \<Rightarrow> sample list \<Rightarrow> sample list" where
  "kept_points ord (a # b # ss) =
     (if ord \<and> sm_observed_at a = sm_observed_at b then kept_points ord (b # ss) else a # kept_points ord (b # ss))"
| "kept_points ord ss = ss"

fun settle :: "summary_spec \<Rightarrow> sample option \<Rightarrow> sample list \<Rightarrow> summary \<Rightarrow> ts_error + summary" where
  "settle sp prev [] s = Ok s"
| "settle sp prev (p # ps) s =
     and_then (flush_point sp prev p None s) (settle sp (Some p) ps)"

text \<open>\<open>n\<close> more points cannot exceed the item budget of a gauge or counter summary.\<close>

definition has_room :: "nat \<Rightarrow> nat \<Rightarrow> summary \<Rightarrow> bool" where
  "has_room m n s =
     (case su_data s of
        StatNumeric _ \<Rightarrow> 1 \<le> m
      | StatCounter _ cs \<Rightarrow> length cs + n \<le> m
      | StatState _ _ \<Rightarrow> False)"

lemma has_room_check: "has_room m n s \<Longrightarrow> check_size m s = Ok ()"
  by (auto simp: has_room_def check_size_def split: statistics.splits)

lemma count_point_data: "count_point p s = Ok s' \<Longrightarrow> su_data s' = su_data s"
  by (auto simp: count_point_def result_iffs split: if_splits reading.splits)

definition piece_input :: "temporality \<Rightarrow> sample option \<Rightarrow> sample \<Rightarrow> sample list" where
  "piece_input t prev p = (case (t, prev) of (Cumulative, Some q) \<Rightarrow> [q, p] | _ \<Rightarrow> [p])"

lemma piece_input_eq:
  "(let input = (case prev of Some q \<Rightarrow> [q] | None \<Rightarrow> []) @ [p] in
      if t = Delta then drop (length input - 1) input else input) = piece_input t prev p"
  by (cases t; cases prev) (simp_all add: piece_input_def)

lemma points_short [simp]:
  "points [p] = [p]"
  "points [q, p] = (if sm_observed_at q = sm_observed_at p then [p] else [q, p])"
  by (simp_all add: points_def points_push_def)

lemma piece_short:
  assumes "counter_contributions sp w (piece_input t prev p) t ds = Ok (cs, ds')"
  shows "length cs \<le> 1"
proof (cases t)
  case Delta
  then show ?thesis using assms
    by (auto simp: counter_contributions_def piece_input_def result_iffs split: if_splits option.splits)
next
  case Cumulative
  then show ?thesis using assms
    by (cases prev) (auto simp: counter_contributions_def piece_input_def result_iffs split: if_splits option.splits)
qed

lemma extend_counter_eq:
  "su_data u = StatCounter k cs \<Longrightarrow> extend_statistics sp prev p nxt u =
     (if inside (sm_observed_at p) (su_window u)
      then and_then (ok_or (counter_temporality (spec_metric sp)) TsInvariant) (\<lambda>t.
        and_then (counter_contributions sp (su_window u) (piece_input t prev p) t (su_defects u)) (\<lambda>(new, ds).
          Ok (u\<lparr>su_data := StatCounter k (cs @ new), su_defects := ds\<rparr>)))
      else Ok u)"
  by (simp add: extend_statistics_def piece_input_eq [symmetric] Let_def)

lemma extend_counter:
  assumes "extend_statistics sp prev p nxt u = Ok s'" and "su_data u = StatCounter k cs"
  shows "\<exists>new. su_data s' = StatCounter k (cs @ new) \<and> length new \<le> 1"
  using assms by (auto simp: extend_counter_eq [OF assms(2)] result_iffs dest!: piece_short split: if_splits)

lemma flush_point_room:
  assumes ok: "flush_point sp prev p nxt s = Ok s'" and room: "has_room m (Suc n) s"
  shows "has_room m n s'"
proof -
  obtain u where u: "count_point p s = Ok u" "extend_statistics sp prev p nxt u = Ok s'"
    using ok by (auto simp: flush_point_def result_iffs)
  have room: "has_room m (Suc n) u" using room count_point_data [OF u(1)] by (simp add: has_room_def)
  show ?thesis
  proof (cases "su_data u")
    case (StatNumeric n)
    then show ?thesis using u(2) room
      by (auto simp: extend_statistics_def has_room_def result_iffs split: option.splits if_splits)
  next
    case (StatCounter k cs)
    then show ?thesis using extend_counter [OF u(2) StatCounter] room by (auto simp: has_room_def)
  next
    case (StatState segs trs)
    then show ?thesis using room by (simp add: has_room_def)
  qed
qed

lemma flush_point_next:
  "has_room m n s \<Longrightarrow> flush_point sp prev p nxt s = flush_point sp prev p None s"
  by (cases "count_point p s")
    (auto simp: flush_point_def extend_statistics_def has_room_def dest!: count_point_data split: statistics.splits)

definition chained :: "summary_spec \<Rightarrow> sample list \<Rightarrow> bool" where
  "chained sp ss \<longleftrightarrow> list_all (selection_matches (spec_selection sp)) ss \<and> sorted_wrt (<) (map order_key ss)"

lemma chained_later:
  "chained sp (p # s # ss) \<Longrightarrow> latest_cmp s p = Ok Greater \<and> selection_matches (spec_selection sp) s"
  by (auto simp: chained_def latest_cmp_Greater spec_selection_def)

lemma finish_settle:
  assumes "chained sp (p # ss)" and "has_room m (Suc (length ss)) (sb_summary b)"
    and "sb_spec b = sp" and "sb_pending b = Some p"
  shows "and_then (push_all m ss b) (builder_finish m) =
    settle sp (sb_previous b) (kept_points (ordered_metric (spec_metric sp)) (p # ss)) (sb_summary b)"
  using assms
proof (induction ss arbitrary: p b)
  case Nil
  show ?case
  proof (cases "flush_point sp (sb_previous b) p None (sb_summary b)")
    case (Inr s)
    then show ?thesis
      using Nil has_room_check [OF flush_point_room [OF Inr Nil(2)]]
      by (simp add: builder_finish_def builder_flush_def)
  qed (use Nil in \<open>simp add: builder_finish_def builder_flush_def\<close>)
next
  case (Cons s ss)
  note step = chained_later [OF Cons.prems(1)]
  have chained: "chained sp (s # ss)" using Cons.prems(1) by (simp add: chained_def)
  show ?case
  proof (cases "ordered_metric (spec_metric sp) \<and> sm_observed_at p = sm_observed_at s")
    case True
    have "has_room m (Suc (length ss)) (sb_summary b)"
      using Cons.prems(2) by (auto simp: has_room_def split: statistics.splits)
    then show ?thesis
      using Cons.IH [OF chained, of "b\<lparr>sb_pending := Some s\<rparr>"] Cons.prems True step
      by (simp add: builder_push_def)
  next
    case False
    have push: "builder_push s m b = builder_flush_push s m b"
      using False step Cons.prems by (auto simp: builder_push_def)
    show ?thesis
    proof (cases "flush_point sp (sb_previous b) p None (sb_summary b)")
      case (Inr u)
      have room: "has_room m (Suc (length ss)) u"
        using flush_point_room [OF Inr] Cons.prems(2) by simp
      let ?b = "b\<lparr>sb_summary := u, sb_previous := Some p, sb_pending := Some s\<rparr>"
      have "builder_push s m b = Ok ?b"
        using Inr flush_point_next [OF Cons.prems(2), of sp "sb_previous b" p "Some s"] Cons.prems(3,4)
          has_room_check [OF room]
        by (simp add: push builder_flush_push_def builder_flush_def)
      then show ?thesis
        using Cons.IH [OF chained, of ?b] room Cons.prems(3) False Inr by auto
    next
      case (Inl e)
      then show ?thesis
        using flush_point_next [OF Cons.prems(2), of sp "sb_previous b" p "Some s"] Cons.prems(3,4) False
        by (auto simp: push builder_flush_push_def builder_flush_def)
    qed
  qed
qed

definition fresh_summary :: "ts_digest \<Rightarrow> summary_spec \<Rightarrow> interval \<Rightarrow> summary" where
  "fresh_summary d sp w =
     \<lparr>su_window = w, su_semantics = d, su_valid = 0, su_defects = {}, su_data = empty_statistics (spec_metric sp)\<rparr>"

lemma check_input_chained:
  "check_input (spec_selection sp) prev ids ss = Ok () \<Longrightarrow>
     list_all (selection_matches (spec_selection sp)) ss \<and>
     sorted_wrt (<) ((case prev of Some k \<Rightarrow> [k] | None \<Rightarrow> []) @ map order_key ss)"
proof (induction ss arbitrary: prev ids)
  case (Cons s ss)
  from Cons.IH [of "Some (order_key s)" "insert (sm_id s) ids"] Cons.prems show ?case
    by (auto split: if_splits option.splits intro: less_trans simp: not_le)
qed (auto split: option.splits)

lemma compute_settle:
  assumes input: "check_input (spec_selection sp) None {} ss = Ok ()" and len: "length ss \<le> m" "1 \<le> m"
    and w: "width_micros w \<noteq> 0" and sp: "summary_spec_validate sp = Ok ()" "sem sp = Ok d"
    and metric: "case spec_metric sp of Gauge _ \<Rightarrow> True | Counter _ _ \<Rightarrow> True | _ \<Rightarrow> False"
  shows "summary_compute sem sp w ss m =
    settle sp None (kept_points (ordered_metric (spec_metric sp)) ss) (fresh_summary d sp w)"
proof -
  define b where "b = \<lparr>sb_spec = sp, sb_summary = fresh_summary d sp w, sb_previous = None, sb_pending = None\<rparr>"
  have new: "builder_new sem sp w = Ok b"
    using w sp by (simp add: builder_new_def b_def fresh_summary_def)
  have room: "has_room m (length ss) (fresh_summary d sp w)"
    using metric len by (auto simp: has_room_def fresh_summary_def empty_statistics_def split: metric.splits)
  have "and_then (push_all m ss b) (builder_finish m) =
      settle sp None (kept_points (ordered_metric (spec_metric sp)) ss) (fresh_summary d sp w)"
  proof (cases ss)
    case Nil
    then show ?thesis
      using has_room_check [OF room] by (simp add: builder_finish_def builder_flush_def b_def)
  next
    case (Cons p rest)
    have chained: "chained sp (p # rest)"
      using check_input_chained [OF input] Cons by (simp add: chained_def)
    have "builder_push p m b = Ok (b\<lparr>sb_pending := Some p\<rparr>)"
      using chained has_room_check [OF room]
      by (simp add: builder_push_def builder_flush_push_def builder_flush_def b_def chained_def)
    then show ?thesis
      using finish_settle [OF chained, of m "b\<lparr>sb_pending := Some p\<rparr>"] room Cons by (simp add: b_def)
  qed
  then show ?thesis using input len w new by (simp add: summary_compute_def)
qed

subsection \<open>Gauge summaries are exact\<close>

text \<open>Reference statistics of a list of integers.\<close>

fun kind_lo :: "number_kind \<Rightarrow> int" where
  "kind_lo KindI64 = - (2 ^ 63)" | "kind_lo _ = 0"

fun kind_hi :: "number_kind \<Rightarrow> int" where
  "kind_hi KindI64 = 2 ^ 63 - 1" | "kind_hi _ = 2 ^ 64 - 1"

fun num_int :: "number \<Rightarrow> int" where
  "num_int (I64 v) = v" | "num_int (U64 v) = int v" | "num_int (F64 v) = 0"

definition ref_number :: "number_kind \<Rightarrow> int \<Rightarrow> number" where
  "ref_number k z = (case k of KindI64 \<Rightarrow> I64 z | _ \<Rightarrow> U64 (nat z))"

definition ref_sum :: "number_kind \<Rightarrow> int \<Rightarrow> ts_sum" where
  "ref_sum k z = (case k of KindI64 \<Rightarrow> SumI128 z | _ \<Rightarrow> SumU128 (nat z))"

definition ref_min :: "number_kind \<Rightarrow> int list \<Rightarrow> number option" where
  "ref_min k zs = (if zs = [] then None else Some (ref_number k (Min (set zs))))"

definition ref_max :: "number_kind \<Rightarrow> int list \<Rightarrow> number option" where
  "ref_max k zs = (if zs = [] then None else Some (ref_number k (Max (set zs))))"

definition ref_numeric :: "number_kind \<Rightarrow> int list \<Rightarrow> numeric" where
  "ref_numeric k zs =
     \<lparr>nm_sum = ref_sum k (sum_list zs), nm_count = length zs, nm_min = ref_min k zs, nm_max = ref_max k zs\<rparr>"

definition in_kind :: "number_kind \<Rightarrow> int \<Rightarrow> bool" where
  "in_kind k z \<longleftrightarrow> k \<noteq> KindF64 \<and> kind_lo k \<le> z \<and> z \<le> kind_hi k"

lemma number_compare_ref:
  "in_kind k a \<Longrightarrow> in_kind k b \<Longrightarrow> number_compare (ref_number k a) (ref_number k b) = Ok (cmp_of a b)"
  by (cases k) (auto simp: in_kind_def ref_number_def cmp_of_def nat_less_eq_zless)

lemma extrema_ref:
  assumes "in_kind k z" and "list_all (in_kind k) xs"
  shows "numeric_extrema (ref_number k z) \<lparr>nm_sum = t, nm_count = c, nm_min = ref_min k xs, nm_max = ref_max k xs\<rparr> =
    Ok \<lparr>nm_sum = t, nm_count = c, nm_min = ref_min k (z # xs), nm_max = ref_max k (z # xs)\<rparr>"
proof (cases "xs = []")
  case False
  then obtain lo hi where lh: "Min (set xs) = lo" "Max (set xs) = hi" "in_kind k lo" "in_kind k hi"
    using assms(2) Min_in [of "set xs"] Max_in [of "set xs"] by (auto simp: list_all_iff)
  have "ref_min k xs = Some (ref_number k lo)" "ref_min k (z # xs) = Some (ref_number k (min z lo))"
    "ref_max k xs = Some (ref_number k hi)" "ref_max k (z # xs) = Some (ref_number k (max z hi))"
    using False lh(1,2) by (simp_all add: ref_min_def ref_max_def)
  then show ?thesis
    using lh(3,4) assms(1)
    by (simp add: numeric_extrema_def beats_def number_compare_ref cmp_of_def min_def max_def)
qed (simp add: numeric_extrema_def beats_def ref_min_def ref_max_def)

lemma sum_list_range:
  fixes zs :: "int list"
  shows "list_all (\<lambda>z. a \<le> z \<and> z \<le> b) zs \<Longrightarrow> a * int (length zs) \<le> sum_list zs \<and> sum_list zs \<le> b * int (length zs)"
  by (induction zs) (auto simp: algebra_simps)

lemma sum_list_in_range:
  assumes "list_all (in_kind k) zs" and "length zs < 2 ^ 64" and "k \<noteq> KindF64"
  shows "(if k = KindI64 then in_i128 (sum_list zs) else 0 \<le> sum_list zs \<and> sum_list zs < 2 ^ 128)"
proof -
  have r: "list_all (\<lambda>z. kind_lo k \<le> z \<and> z \<le> kind_hi k) zs"
    using assms(1) by (auto simp: list_all_iff in_kind_def)
  have l: "0 \<le> int (length zs)" "int (length zs) \<le> 2 ^ 64 - 1" using assms(2) by auto
  show ?thesis
  proof (cases k)
    case KindI64
    then show ?thesis using sum_list_range [OF r] l by (auto simp: in_i128_def)
  next
    case KindU64
    have "kind_hi k * int (length zs) \<le> (2 ^ 64 - 1) * (2 ^ 64 - 1)"
      using l KindU64 by simp
    then show ?thesis using sum_list_range [OF r] l KindU64 by auto
  qed (use assms in simp)
qed

lemma sum_add_ref:
  assumes "list_all (in_kind k) (xs @ ys)" and "length (xs @ ys) < 2 ^ 64" and "k \<noteq> KindF64"
  shows "sum_checked_add (ref_sum k (sum_list xs)) (ref_sum k (sum_list ys)) = Ok (ref_sum k (sum_list (xs @ ys)))"
proof -
  have x: "if k = KindI64 then in_i128 (sum_list xs) else 0 \<le> sum_list xs \<and> sum_list xs < 2 ^ 128"
    and y: "if k = KindI64 then in_i128 (sum_list ys) else 0 \<le> sum_list ys \<and> sum_list ys < 2 ^ 128"
    using assms sum_list_in_range [of k xs] sum_list_in_range [of k ys] by simp_all
  show ?thesis
    using sum_list_in_range [OF assms] x y assms(3)
    by (cases k) (auto simp: ref_sum_def nat_add_distrib [symmetric] nat_less_iff)
qed

lemma ref_sum_single: "in_kind k (num_int n) \<Longrightarrow> number_kind_of n = k \<Longrightarrow> as_sum n = ref_sum k (sum_list [num_int n]) \<and> n = ref_number k (num_int n)"
  by (cases n) (auto simp: ref_sum_def ref_number_def in_kind_def)

lemma numeric_add_ref:
  assumes "in_kind k (num_int n)" and "number_kind_of n = k" and "list_all (in_kind k) zs" and "length zs < 2 ^ 64 - 1"
  shows "numeric_add n (ref_numeric k zs) = Ok (ref_numeric k (zs @ [num_int n]))"
proof -
  have "sum_checked_add (ref_sum k (sum_list zs)) (as_sum n) = Ok (ref_sum k (sum_list (zs @ [num_int n])))"
    using sum_add_ref [of k zs "[num_int n]"] assms ref_sum_single [OF assms(1,2)] by (auto simp: in_kind_def)
  then show ?thesis
    using extrema_ref [OF assms(1,3), of "ref_sum k (sum_list (zs @ [num_int n]))" "Suc (length zs)"]
      ref_sum_single [OF assms(1,2)] assms(4)
    by (simp add: numeric_add_def ref_numeric_def count_checked_add_def ref_min_def ref_max_def)
qed

lemma ref_extremes:
  assumes "ys \<noteq> []"
  shows "ref_min k (Max (set ys) # Min (set ys) # xs) = ref_min k (xs @ ys)"
    and "ref_max k (Max (set ys) # Min (set ys) # xs) = ref_max k (xs @ ys)"
proof -
  obtain lo hi where lh: "Min (set ys) = lo" "Max (set ys) = hi" "lo \<le> hi"
    using assms Min_le [of "set ys" "Max (set ys)"] Max_in [of "set ys"] by simp
  have "Min (set (hi # lo # xs)) = Min (set (xs @ ys)) \<and> Max (set (hi # lo # xs)) = Max (set (xs @ ys))"
  proof (cases "xs = []")
    case False
    then have "Min (set xs \<union> set ys) = min (Min (set xs)) lo" "Max (set xs \<union> set ys) = max (Max (set xs)) hi"
      using assms lh by (simp_all add: Min_Un Max_Un)
    then show ?thesis using False lh(3) by simp linarith
  qed (use lh in simp)
  then show "ref_min k (Max (set ys) # Min (set ys) # xs) = ref_min k (xs @ ys)"
    "ref_max k (Max (set ys) # Min (set ys) # xs) = ref_max k (xs @ ys)"
    using assms lh(1,2) by (simp_all add: ref_min_def ref_max_def)
qed

lemma numeric_merge_ref:
  assumes "list_all (in_kind k) (xs @ ys)" and "length (xs @ ys) < 2 ^ 64" and "k \<noteq> KindF64"
  shows "numeric_merge (ref_numeric k xs) (ref_numeric k ys) = Ok (ref_numeric k (xs @ ys))"
proof (cases "ys = []")
  case True
  then show ?thesis
    using sum_add_ref [OF assms] assms(2)
    by (simp add: numeric_merge_def ref_numeric_def count_checked_add_def extrema_opt_def ref_min_def ref_max_def)
next
  case False
  let ?lo = "Min (set ys)" and ?hi = "Max (set ys)" and ?t = "ref_sum k (sum_list (xs @ ys))" and ?c = "length xs + length ys"
  have lh: "in_kind k ?lo" "in_kind k ?hi" and xs: "list_all (in_kind k) xs"
    using assms(1) False Min_in [of "set ys"] Max_in [of "set ys"] by (auto simp: list_all_iff)
  have ys: "ref_min k ys = Some (ref_number k ?lo)" "ref_max k ys = Some (ref_number k ?hi)"
    using False by (simp_all add: ref_min_def ref_max_def)
  have "numeric_merge (ref_numeric k xs) (ref_numeric k ys) =
      and_then (numeric_extrema (ref_number k ?lo)
        \<lparr>nm_sum = ?t, nm_count = ?c, nm_min = ref_min k xs, nm_max = ref_max k xs\<rparr>) (numeric_extrema (ref_number k ?hi))"
    using sum_add_ref [OF assms] assms(2) ys
    by (simp add: numeric_merge_def ref_numeric_def count_checked_add_def extrema_opt_def)
  also have "\<dots> = Ok \<lparr>nm_sum = ?t, nm_count = ?c, nm_min = ref_min k (xs @ ys), nm_max = ref_max k (xs @ ys)\<rparr>"
    using extrema_ref [OF lh(1) xs, of ?t ?c] extrema_ref [OF lh(2), of "?lo # xs" ?t ?c] lh xs
      ref_extremes [OF False]
    by simp
  finally show ?thesis by (simp add: ref_numeric_def)
qed

definition in_window :: "interval \<Rightarrow> sample list \<Rightarrow> sample list" where
  "in_window w ss = filter (\<lambda>s. inside (sm_observed_at s) w) ss"

definition gauge_values :: "interval \<Rightarrow> sample list \<Rightarrow> int list" where
  "gauge_values w ss = map num_int (List.map_filter number_of (in_window w ss))"

definition gauge_gaps :: "interval \<Rightarrow> sample list \<Rightarrow> defects" where
  "gauge_gaps w ss = (if list_ex (\<lambda>s. number_of s = None) (in_window w ss) then {Gaps} else {})"

definition gauge_summary :: "ts_digest \<Rightarrow> number_kind \<Rightarrow> interval \<Rightarrow> defects \<Rightarrow> int list \<Rightarrow> summary" where
  "gauge_summary d k w ds zs =
     \<lparr>su_window = w, su_semantics = d, su_valid = length zs, su_defects = ds, su_data = StatNumeric (ref_numeric k zs)\<rparr>"

text \<open>A reading an integer gauge accepts, with its number in the range of its type.\<close>

definition gauge_reading :: "number_kind \<Rightarrow> sample \<Rightarrow> bool" where
  "gauge_reading k s =
     (case sm_reading s of
        ValidReading (NumberValue n) \<Rightarrow> number_kind_of n = k \<and> in_kind k (num_int n)
      | ValidReading _ \<Rightarrow> False
      | _ \<Rightarrow> True)"

lemma gauge_reading_cases:
  assumes "gauge_reading k s"
  obtains n where "sm_reading s = ValidReading (NumberValue n)" "number_of s = Some n" "number_kind_of n = k" "in_kind k (num_int n)"
  | "\<And>v. sm_reading s \<noteq> ValidReading v" "number_of s = None"
  using assms by (auto simp: gauge_reading_def number_of_def split: reading.splits ts_value.splits)

lemma flush_gauge:
  assumes "gauge_reading k p" and "list_all (in_kind k) zs" and "length zs < 2 ^ 64 - 1"
  shows "flush_point sp prev p nxt (gauge_summary d k w ds zs) =
    Ok (gauge_summary d k w (ds \<union> gauge_gaps w [p]) (zs @ gauge_values w [p]))"
  using assms(1)
proof (cases rule: gauge_reading_cases)
  case (1 n)
  have "flush_point sp prev p nxt (gauge_summary d k w ds zs) =
      and_then (numeric_add n (ref_numeric k zs)) (\<lambda>n'.
        Ok (gauge_summary d k w ds zs\<lparr>su_valid := Suc (length zs), su_data := StatNumeric n'\<rparr>))"
    if "inside (sm_observed_at p) w"
    using that 1 assms(3)
    by (simp add: flush_point_def count_point_def extend_statistics_def gauge_summary_def count_checked_add_def)
  moreover have "flush_point sp prev p nxt (gauge_summary d k w ds zs) = Ok (gauge_summary d k w ds zs)"
    if "\<not> inside (sm_observed_at p) w"
    using that 1 by (simp add: flush_point_def count_point_def extend_statistics_def gauge_summary_def)
  ultimately show ?thesis
    using 1 numeric_add_ref [OF 1(4,3) assms(2,3)]
    by (auto simp: gauge_values_def gauge_gaps_def in_window_def gauge_summary_def map_filter_simps)
next
  case 2
  then show ?thesis
    by (cases "sm_reading p")
      (auto simp: flush_point_def count_point_def extend_statistics_def gauge_summary_def gauge_gaps_def
        gauge_values_def in_window_def map_filter_simps)
qed

lemma gauge_Cons:
  "gauge_values w (p # ss) = gauge_values w [p] @ gauge_values w ss"
  "gauge_gaps w (p # ss) = gauge_gaps w [p] \<union> gauge_gaps w ss"
  by (auto simp: gauge_values_def gauge_gaps_def in_window_def map_filter_simps split: option.splits)

lemma gauge_values_length: "length (gauge_values w ss) \<le> length ss"
proof -
  have "length (List.map_filter f xs) \<le> length xs" for f :: "sample \<Rightarrow> number option" and xs
    by (induction xs) (auto simp: map_filter_simps split: option.splits)
  then show ?thesis
    unfolding gauge_values_def in_window_def length_map by (rule order_trans) (rule length_filter_le)
qed

lemma gauge_values_kind: "list_all (gauge_reading k) ss \<Longrightarrow> list_all (in_kind k) (gauge_values w ss)"
  by (induction ss)
    (auto simp: gauge_values_def in_window_def map_filter_simps gauge_reading_def number_of_def
      split: option.splits reading.splits ts_value.splits)

lemma settle_gauge:
  "list_all (gauge_reading k) ss \<Longrightarrow> list_all (in_kind k) zs \<Longrightarrow> length zs + length ss < 2 ^ 64 \<Longrightarrow>
   settle sp prev ss (gauge_summary d k w ds zs) =
     Ok (gauge_summary d k w (ds \<union> gauge_gaps w ss) (zs @ gauge_values w ss))"
proof (induction ss arbitrary: prev ds zs)
  case Nil
  then show ?case by (simp add: gauge_gaps_def gauge_values_def in_window_def map_filter_simps)
next
  case (Cons p ss)
  have len: "length (gauge_values w [p]) \<le> 1" using gauge_values_length [of w "[p]"] by simp
  have kind: "list_all (in_kind k) (gauge_values w [p])" using Cons.prems(1) gauge_values_kind [of k "[p]" w] by simp
  have "settle sp (Some p) ss (gauge_summary d k w (ds \<union> gauge_gaps w [p]) (zs @ gauge_values w [p])) =
      Ok (gauge_summary d k w ((ds \<union> gauge_gaps w [p]) \<union> gauge_gaps w ss) ((zs @ gauge_values w [p]) @ gauge_values w ss))"
    using Cons.prems len kind by (intro Cons.IH) auto
  moreover have "flush_point sp prev p None (gauge_summary d k w ds zs) =
      Ok (gauge_summary d k w (ds \<union> gauge_gaps w [p]) (zs @ gauge_values w [p]))"
    using Cons.prems by (intro flush_gauge) auto
  ultimately show ?case using gauge_Cons [of w p ss] by (simp add: Un_assoc)
qed

lemma kept_points_False [simp]: "kept_points False ss = ss"
  by (induction "False" ss rule: kept_points.induct) auto

lemma sample_gauge_reading:
  assumes "sample_new s = Ok s" and "td_metric (se_definition (sm_series s)) = Gauge k"
    and "case number_of s of Some n \<Rightarrow> in_kind k (num_int n) | None \<Rightarrow> True"
  shows "gauge_reading k s"
  using assms
  by (auto simp: gauge_reading_def number_of_def sample_new_def split: reading.splits ts_value.splits if_splits)

lemma compute_gauge:
  assumes input: "check_input (spec_selection sp) None {} ss = Ok ()" and len: "length ss \<le> m" "1 \<le> m" "length ss < 2 ^ 64"
    and w: "width_micros w \<noteq> 0" and sp: "summary_spec_validate sp = Ok ()" "sem sp = Ok d"
    and metric: "spec_metric sp = Gauge k" and ss: "list_all (gauge_reading k) ss" and k: "k \<noteq> KindF64"
  shows "summary_compute sem sp w ss m = Ok (gauge_summary d k w (gauge_gaps w ss) (gauge_values w ss))"
proof -
  have "fresh_summary d sp w = gauge_summary d k w {} []"
    using k metric
    by (cases k) (simp_all add: fresh_summary_def gauge_summary_def empty_statistics_def numeric_zero_def
        ref_numeric_def ref_sum_def ref_min_def ref_max_def)
  then show ?thesis
    using compute_settle [where sem = sem, OF input len(1,2) w sp] settle_gauge [OF ss, of "[]" sp None d w "{}"] metric len(3)
    by (simp add: ordered_metric_def)
qed

subsection \<open>Counter summaries\<close>

definition counter_summary ::
  "ts_digest \<Rightarrow> number_kind \<Rightarrow> interval \<Rightarrow> nat \<Rightarrow> defects \<Rightarrow> contribution list \<Rightarrow> summary" where
  "counter_summary d k w n ds cs =
     \<lparr>su_window = w, su_semantics = d, su_valid = n, su_defects = ds, su_data = StatCounter k cs\<rparr>"

text \<open>What one point adds, given its predecessor: the count of valid readings, defects, contributions.\<close>

definition point_part ::
  "summary_spec \<Rightarrow> temporality \<Rightarrow> sample option \<times> sample \<Rightarrow> ts_error + nat \<times> defects \<times> contribution list" where
  "point_part sp t x =
     (let p = snd x; v = (case sm_reading p of ValidReading _ \<Rightarrow> True | _ \<Rightarrow> False) in
      and_then (counter_contributions sp \<lparr>iv_start = sm_observed_at p, iv_end = sm_observed_at p + 1\<rparr>
          (piece_input t (fst x) p) t (if v then {} else {Gaps})) (\<lambda>(new, ds).
        Ok (if v then 1 else 0, ds, new)))"

fun gather ::
  "summary_spec \<Rightarrow> temporality \<Rightarrow> (sample option \<times> sample) list \<Rightarrow> ts_error + nat \<times> defects \<times> contribution list" where
  "gather sp t [] = Ok (0, {}, [])"
| "gather sp t (x # xs) =
     and_then (point_part sp t x) (\<lambda>(i, d, c). and_then (gather sp t xs) (\<lambda>(j, e, c'). Ok (i + j, d \<union> e, c @ c')))"

lemma cumulative_defects:
  "cumulative a b g (ds \<union> ds') = and_then (cumulative a b g ds') (\<lambda>(c, d). Ok (c, ds \<union> d))"
  by (auto simp: cumulative_def and_then_def interval_new_def split: option.splits sum.splits)

lemma piece_defects:
  assumes "inside (sm_observed_at p) w" and "inside (sm_observed_at p) w'"
  shows "counter_contributions sp w (piece_input t prev p) t (ds \<union> ds') =
    and_then (counter_contributions sp w' (piece_input t prev p) t ds') (\<lambda>(c, d). Ok (c, ds \<union> d))"
proof (cases t)
  case Delta
  then show ?thesis
    using assms by (auto simp: counter_contributions_def piece_input_def and_then_def split: option.splits sum.splits)
next
  case Cumulative
  show ?thesis
  proof (cases "\<exists>q g. prev = Some q \<and> ss_max_gap sp = Some g")
    case True
    then obtain q g where q: "prev = Some q" "ss_max_gap sp = Some g" by blast
    show ?thesis
      using Cumulative q assms
      by (auto simp: counter_contributions_def piece_input_def cumulative_defects and_then_def
          split: option.splits sum.splits)
  qed (use Cumulative assms in \<open>auto simp: counter_contributions_def piece_input_def and_then_def
        split: option.splits sum.splits\<close>)
qed

lemma flush_counter:
  assumes "counter_temporality (spec_metric sp) = Some t" and "n < 2 ^ 64 - 1"
  shows "flush_point sp prev p nxt (counter_summary d k w n ds cs) =
    (if inside (sm_observed_at p) w
     then and_then (point_part sp t (prev, p)) (\<lambda>(i, e, c). Ok (counter_summary d k w (n + i) (ds \<union> e) (cs @ c)))
     else Ok (counter_summary d k w n ds cs))"
proof (cases "inside (sm_observed_at p) w")
  case True
  define w' where "w' = \<lparr>iv_start = sm_observed_at p, iv_end = sm_observed_at p + 1\<rparr>"
  define v where "v \<longleftrightarrow> (case sm_reading p of ValidReading _ \<Rightarrow> True | _ \<Rightarrow> False)"
  have w': "inside (sm_observed_at p) w'" by (simp add: w'_def inside_def)
  have "count_point p (counter_summary d k w n ds cs) =
      Ok (counter_summary d k w (n + (if v then 1 else 0)) (ds \<union> (if v then {} else {Gaps})) cs)"
    using True assms(2)
    by (auto simp: count_point_def counter_summary_def count_checked_add_def v_def split: reading.splits)
  then show ?thesis
    using True assms(1)
    by (simp add: flush_point_def extend_counter_eq [where k = k and cs = cs] counter_summary_def
        piece_defects [OF True w'] point_part_def Let_def v_def [symmetric] w'_def [symmetric] and_then_def
        split: sum.splits prod.splits)
next
  case False
  then show ?thesis
    by (simp add: flush_point_def count_point_def extend_statistics_def counter_summary_def)
qed

definition paired :: "sample option \<Rightarrow> sample list \<Rightarrow> (sample option \<times> sample) list" where
  "paired prev ps = zip (prev # map Some ps) ps"

definition pairs_in :: "interval \<Rightarrow> (sample option \<times> sample) list \<Rightarrow> (sample option \<times> sample) list" where
  "pairs_in w xs = filter (\<lambda>x. inside (sm_observed_at (snd x)) w) xs"

lemma paired_simps [simp]:
  "paired prev [] = []"
  "paired prev (p # ps) = (prev, p) # paired (Some p) ps"
  by (simp_all add: paired_def)

lemma paired_times: "map (\<lambda>x. sm_observed_at (snd x)) (paired prev ps) = map sm_observed_at ps"
  by (induction ps arbitrary: prev) simp_all

lemma point_part_le: "point_part sp t x = Ok (i, d, c) \<Longrightarrow> i \<le> 1 \<and> length c \<le> 1"
  by (auto simp: point_part_def Let_def result_iffs dest: piece_short split: if_splits)

lemma gather_le: "gather sp t xs = Ok (i, d, c) \<Longrightarrow> i \<le> length xs \<and> length c \<le> length xs"
  by (induction xs arbitrary: i d c) (fastforce simp: result_iffs dest: point_part_le)+

lemma gather_append:
  "gather sp t (xs @ ys) =
     and_then (gather sp t xs) (\<lambda>(i, d, c). and_then (gather sp t ys) (\<lambda>(j, e, c'). Ok (i + j, d \<union> e, c @ c')))"
  by (induction xs) (auto simp: and_then_def ac_simps split: sum.splits prod.splits)

lemma settle_counter:
  assumes t: "counter_temporality (spec_metric sp) = Some t" and "n + length ps < 2 ^ 64"
  shows "settle sp prev ps (counter_summary d k w n ds cs) =
    and_then (gather sp t (pairs_in w (paired prev ps))) (\<lambda>(i, e, c). Ok (counter_summary d k w (n + i) (ds \<union> e) (cs @ c)))"
  using assms(2)
proof (induction ps arbitrary: prev n ds cs)
  case Nil
  then show ?case by (simp add: pairs_in_def)
next
  case (Cons p ps)
  have flush: "flush_point sp prev p None (counter_summary d k w n ds cs) =
    (if inside (sm_observed_at p) w
     then and_then (point_part sp t (prev, p)) (\<lambda>(i, e, c). Ok (counter_summary d k w (n + i) (ds \<union> e) (cs @ c)))
     else Ok (counter_summary d k w n ds cs))"
    using Cons.prems by (intro flush_counter [OF t]) simp
  show ?case
  proof (cases "inside (sm_observed_at p) w")
    case True
    show ?thesis
    proof (cases "point_part sp t (prev, p)")
      case (Inr r)
      obtain i e c where r: "r = (i, e, c)" by (cases r)
      have "n + i + length ps < 2 ^ 64" using point_part_le [OF Inr [unfolded r]] Cons.prems by simp
      from Cons.IH [OF this, of "Some p" "ds \<union> e" "cs @ c"] show ?thesis
        using True Inr r flush by (auto simp: pairs_in_def and_then_def ac_simps split: sum.splits)
    qed (use True flush in \<open>simp add: pairs_in_def\<close>)
  next
    case False
    then show ?thesis using flush Cons.IH [of n "Some p" ds cs] Cons.prems by (simp add: pairs_in_def)
  qed
qed

lemma kept_points_length: "length (kept_points o1 ss) \<le> length ss"
  by (induction o1 ss rule: kept_points.induct) auto

lemma kept_points_set: "set (kept_points o1 ss) \<subseteq> set ss"
  by (induction o1 ss rule: kept_points.induct) auto

lemma kept_points_sorted: "sorted (map sm_observed_at ss) \<Longrightarrow> sorted (map sm_observed_at (kept_points o1 ss))"
proof (induction o1 ss rule: kept_points.induct)
  case (1 o1 a b ss)
  have "\<forall>x \<in> set (kept_points o1 (b # ss)). sm_observed_at a \<le> sm_observed_at x"
    using "1.prems" kept_points_set [of o1 "b # ss"] by auto
  then show ?case using 1 by simp
qed simp_all

lemma check_input_sorted:
  assumes "check_input (spec_selection sp) None {} ss = Ok ()"
  shows "sorted (map sm_observed_at ss)"
proof -
  have "sorted_wrt (<) (map order_key ss)" using check_input_chained [OF assms] by simp
  then have "sorted_wrt (\<lambda>a b. order_key a < order_key b) ss" by (simp add: sorted_wrt_map)
  then have "sorted_wrt (\<lambda>a b. sm_observed_at a \<le> sm_observed_at b) ss"
    by (rule sorted_wrt_mono_rel [rotated]) (auto simp: order_key_def less_prod_def')
  then show ?thesis by (simp add: sorted_wrt_map)
qed

definition joined :: "interval \<Rightarrow> interval \<Rightarrow> interval" where
  "joined w v = \<lparr>iv_start = iv_start w, iv_end = iv_end v\<rparr>"

lemma pairs_in_joined:
  assumes "sorted (map sm_observed_at ps)" and "iv_start w \<le> iv_end w" "iv_end w = iv_start v" "iv_start v \<le> iv_end v"
  shows "pairs_in (joined w v) (paired prev ps) = pairs_in w (paired prev ps) @ pairs_in v (paired prev ps)"
  using filter_adjacent [of "\<lambda>x. sm_observed_at (snd x)" "paired prev ps" "iv_start w" "iv_end w" "iv_end v"] assms
  by (simp add: paired_times pairs_in_def inside_def joined_def)

lemma compute_input:
  assumes "summary_compute sem sp w ss m = Ok x"
  shows "check_input (spec_selection sp) None {} ss = Ok ()" and "length ss \<le> m" and "width_micros w \<noteq> 0"
    and "summary_spec_validate sp = Ok ()" and "\<exists>d. sem sp = Ok d"
  using assms by (auto simp: summary_compute_def builder_new_def result_iffs split: if_splits)

lemma compute_counter:
  assumes input: "check_input (spec_selection sp) None {} ss = Ok ()" and len: "length ss \<le> m" "1 \<le> m" "length ss < 2 ^ 64"
    and w: "width_micros w \<noteq> 0" and sp: "summary_spec_validate sp = Ok ()" "sem sp = Ok d"
    and metric: "spec_metric sp = Counter k t"
  shows "summary_compute sem sp w ss m =
    and_then (gather sp t (pairs_in w (paired None (kept_points (t = Cumulative) ss)))) (\<lambda>(i, e, c).
      Ok (counter_summary d k w i e c))"
proof -
  have "fresh_summary d sp w = counter_summary d k w 0 {} []"
    using metric by (simp add: fresh_summary_def counter_summary_def empty_statistics_def)
  moreover have "length (kept_points (t = Cumulative) ss) < 2 ^ 64"
    using kept_points_length len(3) by (rule le_less_trans)
  ultimately show ?thesis
    using compute_settle [where sem = sem, OF input len(1,2) w sp] metric
      settle_counter [of sp t 0 "kept_points (t = Cumulative) ss" None d k w "{}" "[]"]
    by (simp add: ordered_metric_def counter_temporality_def)
qed

lemma joined_width:
  "width_micros w \<noteq> 0 \<Longrightarrow> width_micros v \<noteq> 0 \<Longrightarrow> iv_end w = iv_start v \<Longrightarrow> width_micros (joined w v) \<noteq> 0"
  by (auto simp: joined_def width_micros_def)

lemma counter_rollup:
  assumes "spec_metric sp = Counter k t" and w: "summary_compute sem sp w ss m = Ok x"
    and v: "summary_compute sem sp v ss m = Ok y" and adj: "iv_end w = iv_start v"
    and len: "1 \<le> m" "length ss < 2 ^ 64"
  shows "summary_merge x y m = summary_compute sem sp (joined w v) ss m \<and> is_ok (summary_merge x y m)"
proof -
  obtain d where d: "sem sp = Ok d" using compute_input(5) [OF w] by blast
  note widths = compute_input(3) [OF w] compute_input(3) [OF v]
  let ?g = "\<lambda>u. gather sp t (pairs_in u (paired None (kept_points (t = Cumulative) ss)))"
  have eq: "summary_compute sem sp u ss m = and_then (?g u) (\<lambda>(i, e, c). Ok (counter_summary d k u i e c))"
    if "width_micros u \<noteq> 0" for u
    by (rule compute_counter [where sem = sem, OF compute_input(1,2) [OF w] len that compute_input(4) [OF w] d assms(1)])
  obtain i e c where x: "?g w = Ok (i, e, c)" "x = counter_summary d k w i e c"
    using w eq [OF widths(1)] by (auto simp: result_iffs)
  obtain j f c' where y: "?g v = Ok (j, f, c')" "y = counter_summary d k v j f c'"
    using v eq [OF widths(2)] by (auto simp: result_iffs)
  have split: "pairs_in (joined w v) (paired None (kept_points (t = Cumulative) ss)) =
      pairs_in w (paired None (kept_points (t = Cumulative) ss)) @ pairs_in v (paired None (kept_points (t = Cumulative) ss))"
    by (rule pairs_in_joined [OF kept_points_sorted [OF check_input_sorted [OF compute_input(1) [OF w]]]])
      (use width_positive [OF widths(1)] width_positive [OF widths(2)] adj in simp_all)
  have g: "?g (joined w v) = Ok (i + j, e \<union> f, c @ c')"
    using x(1) y(1) by (simp add: split gather_append)
  have "length (pairs_in (joined w v) (paired None (kept_points (t = Cumulative) ss))) \<le> length ss"
    unfolding pairs_in_def
    by (rule order_trans [OF length_filter_le]) (simp add: paired_def kept_points_length)
  then have "i + j < 2 ^ 64" "length c + length c' \<le> m"
    using gather_le [OF g] len compute_input(2) [OF w] by simp_all
  then have "summary_merge x y m = Ok (counter_summary d k (joined w v) (i + j) (e \<union> f) (c @ c'))"
    using adj x(2) y(2) widths
    by (simp add: summary_merge_def counter_summary_def interval_new_def width_micros_def count_checked_add_def
        check_size_def Let_def joined_def)
  then show ?thesis using eq [OF joined_width [OF widths adj]] g by simp
qed

lemma gauge_rollup:
  assumes metric: "spec_metric sp = Gauge k" "k \<noteq> KindF64" and ss: "list_all (gauge_reading k) ss"
    and w: "summary_compute sem sp w ss m = Ok x" and v: "summary_compute sem sp v ss m = Ok y"
    and adj: "iv_end w = iv_start v" and len: "1 \<le> m" "length ss < 2 ^ 64"
  shows "summary_merge x y m = summary_compute sem sp (joined w v) ss m \<and> is_ok (summary_merge x y m)"
proof -
  obtain d where d: "sem sp = Ok d" using compute_input(5) [OF w] by blast
  note widths = compute_input(3) [OF w] compute_input(3) [OF v]
  have eq: "summary_compute sem sp u ss m = Ok (gauge_summary d k u (gauge_gaps u ss) (gauge_values u ss))"
    if "width_micros u \<noteq> 0" for u
    by (rule compute_gauge [where sem = sem, OF compute_input(1,2) [OF w] len that compute_input(4) [OF w] d metric(1) ss metric(2)])
  have split: "in_window (joined w v) ss = in_window w ss @ in_window v ss"
    using filter_adjacent [of sm_observed_at ss "iv_start w" "iv_end w" "iv_end v"] adj
      width_positive [OF widths(1)] width_positive [OF widths(2)] check_input_sorted [OF compute_input(1) [OF w]]
    by (simp add: in_window_def inside_def joined_def)
  have vals: "gauge_values (joined w v) ss = gauge_values w ss @ gauge_values v ss"
    "gauge_gaps (joined w v) ss = gauge_gaps w ss \<union> gauge_gaps v ss"
    by (simp_all add: gauge_values_def gauge_gaps_def split map_filter_def)
  have len': "length (gauge_values w ss @ gauge_values v ss) < 2 ^ 64"
    using gauge_values_length [of "joined w v" ss] len(2) by (simp add: vals)
  have "list_all (in_kind k) (gauge_values w ss @ gauge_values v ss)"
    using gauge_values_kind [OF ss] by (simp add: vals [symmetric])
  note merge = numeric_merge_ref [OF this len' metric(2)]
  have "summary_merge (gauge_summary d k w (gauge_gaps w ss) (gauge_values w ss))
      (gauge_summary d k v (gauge_gaps v ss) (gauge_values v ss)) m =
      Ok (gauge_summary d k (joined w v) (gauge_gaps (joined w v) ss) (gauge_values (joined w v) ss))"
    using adj widths len' len(1) merge
    by (simp add: summary_merge_def gauge_summary_def interval_new_def width_micros_def count_checked_add_def
        check_size_def Let_def vals [unfolded joined_def] joined_def)
  then show ?thesis
    using w v eq [OF widths(1)] eq [OF widths(2)] eq [OF joined_width [OF widths adj]] by simp
qed

text \<open>A gauge summary is exact. Whatever the values, the computation over any well-formed ordered
  input succeeds and holds the sum, count, minimum and maximum of the valid readings inside the window, in
  the wide sum type without overflow, and reports a gap exactly when a reading inside is not valid.\<close>

theorem gauge_summary_exact:
  assumes "check_input (spec_selection sp) None {} ss = Ok ()" and "length ss \<le> m" "1 \<le> m" "length ss < 2 ^ 64"
    and "width_micros w \<noteq> 0" and "summary_spec_validate sp = Ok ()" "sem sp = Ok d"
    and "spec_metric sp = Gauge k" and "k \<noteq> KindF64" and "list_all (gauge_reading k) ss"
  shows "summary_compute sem sp w ss m =
    Ok \<lparr>su_window = w, su_semantics = d, su_valid = length (gauge_values w ss), su_defects = gauge_gaps w ss,
        su_data = StatNumeric
          \<lparr>nm_sum = ref_sum k (sum_list (gauge_values w ss)), nm_count = length (gauge_values w ss),
           nm_min = ref_min k (gauge_values w ss), nm_max = ref_max k (gauge_values w ss)\<rparr>\<rparr>"
  using compute_gauge [where sem = sem, OF assms(1-8) assms(10,9)] by (simp add: gauge_summary_def ref_numeric_def)

definition gauge_columns :: "number_kind \<Rightarrow> interval \<Rightarrow> sample list \<Rightarrow> gauge_statistics" where
  "gauge_columns k w ss =
     (let zs = gauge_values w ss in
      \<lparr>gs_sum = ref_sum k (sum_list zs), gs_count = length zs, gs_min = ref_min k zs, gs_max = ref_max k zs,
       gs_gaps = (gauge_gaps w ss \<noteq> {})\<rparr>)"

lemma ref_statistics_valid:
  assumes "list_all (in_kind k) zs" and "k \<noteq> KindF64"
  shows "integer_statistics_valid k
    \<lparr>gs_sum = ref_sum k (sum_list zs), gs_count = length zs, gs_min = ref_min k zs, gs_max = ref_max k zs, gs_gaps = g\<rparr>"
proof (cases "zs = []")
  case False
  obtain lo hi where lh: "Min (set zs) = lo" "Max (set zs) = hi" by blast
  have "list_all (\<lambda>z. lo \<le> z \<and> z \<le> hi) zs" using lh by (auto simp: list_all_iff)
  note r = sum_list_range [OF this]
  have "lo \<in> set zs" "hi \<in> set zs" using False lh Min_in [of "set zs"] Max_in [of "set zs"] by auto
  then have b: "lo \<le> hi" "in_kind k lo" "in_kind k hi" using lh assms(1) by (auto simp: list_all_iff)
  have mm: "ref_min k zs = Some (ref_number k lo)" "ref_max k zs = Some (ref_number k hi)"
    using False lh by (simp_all add: ref_min_def ref_max_def)
  show ?thesis
  proof (cases k)
    case KindU64
    have lo: "0 \<le> lo" using b(2) KindU64 by (simp add: in_kind_def)
    have "nat z * length zs = nat (z * int (length zs))" if "0 \<le> z" for z
      using that by (simp add: nat_mult_distrib)
    then have "nat lo * length zs \<le> nat (sum_list zs)" "nat (sum_list zs) \<le> nat hi * length zs"
      using r b(1) lo by (simp_all add: nat_mono)
    then show ?thesis using False b(1) mm KindU64 by (simp add: integer_statistics_valid_def ref_sum_def ref_number_def)
  qed (use r b False mm assms(2) in \<open>simp_all add: integer_statistics_valid_def ref_sum_def ref_number_def\<close>)
qed (use assms(2) in \<open>cases k; simp add: integer_statistics_valid_def ref_sum_def ref_min_def ref_max_def\<close>)

text \<open>The statistics of a computed integer gauge summary, sent through a provider's own columns,
  always pass the consistency test and rebuild the same summary.\<close>

theorem gauge_columns_roundtrip:
  assumes "summary_compute sem sp w ss m = Ok x" and "1 \<le> m" and "length ss < 2 ^ 64"
    and "spec_metric sp = Gauge k" and "k \<noteq> KindF64" and "list_all (gauge_reading k) ss"
  shows "from_integer_gauge sem sp w (gauge_columns k w ss) = Ok x"
proof -
  obtain d where d: "sem sp = Ok d" using compute_input(5) [OF assms(1)] by blast
  have x: "x = gauge_summary d k w (gauge_gaps w ss) (gauge_values w ss)"
    using compute_gauge [where sem = sem, OF compute_input(1,2) [OF assms(1)] assms(2,3)
        compute_input(3,4) [OF assms(1)] d assms(4,6,5)] assms(1) by simp
  have "gauge_gaps w ss = (if gauge_gaps w ss \<noteq> {} then {Gaps} else {})" by (simp add: gauge_gaps_def)
  then show ?thesis
    using ref_statistics_valid [OF gauge_values_kind [OF assms(6)] assms(5)] compute_input(3,4) [OF assms(1)] d assms(4)
    by (simp add: from_integer_gauge_def from_integer_statistics_def gauge_columns_def Let_def x gauge_summary_def
        ref_numeric_def)
qed

definition demo_gauge :: summary_spec where
  "demo_gauge = demo_spec (Gauge KindI64) ObservedOnly None"

theorem gauge_summary_exact_witness:
  "summary_compute (\<lambda>_. Ok []) demo_gauge \<lparr>iv_start = 0, iv_end = 20\<rparr>
     [demo_sample demo_gauge 1 4 None (NumberValue (I64 5)), demo_sample demo_gauge 2 11 None (NumberValue (I64 (- 3)))] 8 =
   Ok \<lparr>su_window = \<lparr>iv_start = 0, iv_end = 20\<rparr>, su_semantics = [], su_valid = 2, su_defects = {},
       su_data = StatNumeric
         \<lparr>nm_sum = SumI128 2, nm_count = 2, nm_min = Some (I64 (- 3)), nm_max = Some (I64 5)\<rparr>\<rparr>"
  using gauge_summary_exact [of demo_gauge
      "[demo_sample demo_gauge 1 4 None (NumberValue (I64 5)), demo_sample demo_gauge 2 11 None (NumberValue (I64 (- 3)))]"
      8 "\<lparr>iv_start = 0, iv_end = 20\<rparr>" "\<lambda>_. Ok []" "[]" KindI64]
  by (simp add: demo_gauge_def demo_defs spec_selection_def order_key_def width_micros_def summary_spec_validate_def
      spec_metric_def i64_max_def gauge_reading_def in_kind_def gauge_values_def in_window_def inside_def
      map_filter_simps number_of_def gauge_gaps_def ref_sum_def ref_min_def ref_max_def ref_number_def)

theorem gauge_columns_roundtrip_witness:
  "from_integer_gauge (\<lambda>_. Ok []) demo_gauge \<lparr>iv_start = 0, iv_end = 20\<rparr>
     (gauge_columns KindI64 \<lparr>iv_start = 0, iv_end = 20\<rparr> []) =
   Ok (gauge_summary [] KindI64 \<lparr>iv_start = 0, iv_end = 20\<rparr> {} [])"
proof -
  have "summary_compute (\<lambda>_. Ok []) demo_gauge \<lparr>iv_start = 0, iv_end = 20\<rparr> [] 1 =
      Ok (gauge_summary [] KindI64 \<lparr>iv_start = 0, iv_end = 20\<rparr> {} [])"
    by (simp add: summary_compute_def builder_new_def demo_gauge_def demo_defs width_micros_def summary_spec_validate_def
        spec_selection_def spec_metric_def i64_max_def empty_statistics_def numeric_zero_def builder_finish_def
        builder_flush_def check_size_def gauge_summary_def ref_numeric_def ref_sum_def ref_min_def ref_max_def)
  from gauge_columns_roundtrip [OF this] show ?thesis
    by (simp add: demo_gauge_def demo_defs spec_metric_def)
qed

text \<open>C24. Rolling up is exact: merging the summaries of two adjacent windows over the same input gives the
  summary computed over their union, for integer gauges and for counters of every kind, and never exceeds
  the item budget.\<close>

theorem rollup_exact:
  assumes "summary_compute sem sp w ss m = Ok x" and "summary_compute sem sp v ss m = Ok y"
    and "iv_end w = iv_start v" and "1 \<le> m" and "length ss < 2 ^ 64"
    and "(\<exists>k t. spec_metric sp = Counter k t) \<or>
      (\<exists>k. spec_metric sp = Gauge k \<and> k \<noteq> KindF64 \<and> list_all (gauge_reading k) ss)"
  shows "summary_merge x y m = summary_compute sem sp (joined w v) ss m \<and> is_ok (summary_merge x y m)"
  using assms counter_rollup [of sp _ _ sem w ss m x v y] gauge_rollup [of sp _ ss sem w m x v y] by blast

definition demo_counter :: summary_spec where
  "demo_counter = demo_spec (Counter KindU64 Delta) ObservedOnly (Some 100)"

definition demo_deltas :: "sample list" where
  "demo_deltas =
     [demo_sample demo_counter 1 4 (Some \<lparr>iv_start = 1, iv_end = 4\<rparr>) (NumberValue (U64 5)),
      demo_sample demo_counter 2 11 (Some \<lparr>iv_start = 10, iv_end = 11\<rparr>) (NumberValue (U64 7))]"

lemmas demo_counter_simps = demo_counter_def demo_deltas_def demo_defs compute_counter [where sem = "\<lambda>_. Ok []"]
  spec_selection_def order_key_def width_micros_def summary_spec_validate_def spec_metric_def i64_max_def
  pairs_in_def inside_def point_part_def counter_contributions_def piece_input_def number_of_def

theorem rollup_exact_witness:
  "summary_merge
     (counter_summary [] KindU64 \<lparr>iv_start = 0, iv_end = 10\<rparr> 1 {} [\<lparr>cb_window = \<lparr>iv_start = 1, iv_end = 4\<rparr>, cb_increase = SumU128 5\<rparr>])
     (counter_summary [] KindU64 \<lparr>iv_start = 10, iv_end = 20\<rparr> 1 {} [\<lparr>cb_window = \<lparr>iv_start = 10, iv_end = 11\<rparr>, cb_increase = SumU128 7\<rparr>]) 8 =
   summary_compute (\<lambda>_. Ok []) demo_counter \<lparr>iv_start = 0, iv_end = 20\<rparr> demo_deltas 8"
proof -
  have 1: "summary_compute (\<lambda>_. Ok []) demo_counter \<lparr>iv_start = 0, iv_end = 10\<rparr> demo_deltas 8 =
      Ok (counter_summary [] KindU64 \<lparr>iv_start = 0, iv_end = 10\<rparr> 1 {} [\<lparr>cb_window = \<lparr>iv_start = 1, iv_end = 4\<rparr>, cb_increase = SumU128 5\<rparr>])"
    by (simp add: demo_counter_simps)
  have 2: "summary_compute (\<lambda>_. Ok []) demo_counter \<lparr>iv_start = 10, iv_end = 20\<rparr> demo_deltas 8 =
      Ok (counter_summary [] KindU64 \<lparr>iv_start = 10, iv_end = 20\<rparr> 1 {} [\<lparr>cb_window = \<lparr>iv_start = 10, iv_end = 11\<rparr>, cb_increase = SumU128 7\<rparr>])"
    by (simp add: demo_counter_simps)
  show ?thesis
    using rollup_exact [OF 1 2] by (simp add: joined_def demo_counter_def demo_defs demo_deltas_def spec_metric_def)
qed

end
