(* ===== verification/Request_Context.thy ===== *)
theory Request_Context
  imports Rust_Prelude
begin

section \<open>Request identities\<close>

text \<open>
  Models the identities of \<^verbatim>\<open>crates/request-context/src/lib.rs\<close>: the canonical text of a tenant, its
  parser over the lenient parser of the uuid library, and request identifiers. The deadlines of the
  same file are in \<open>Messaging_Ports\<close>. Text is a list of Unicode scalar values.
\<close>

definition ut :: "string \<Rightarrow> ustring" where
  "ut s = map byte_of s"

definition lower_hex :: "nat \<Rightarrow> nat" where
  "lower_hex d = (if d < 10 then 48 + d else 87 + d)"

fun hex_text :: "nat \<Rightarrow> nat \<Rightarrow> ustring" where
  "hex_text 0 n = []"
| "hex_text (Suc k) n = hex_text k (n div 16) @ [lower_hex (n mod 16)]"

definition hyphenated :: "128 word \<Rightarrow> ustring" where
  "hyphenated u =
     (let h = hex_text 32 (unat u) in
      take 8 h @ ut ''-'' @ take 4 (drop 8 h) @ ut ''-'' @ take 4 (drop 12 h) @ ut ''-'' @
      take 4 (drop 16 h) @ ut ''-'' @ drop 20 h)"

type_synonym tenant_id = "128 word"

datatype tenant_id_error = TenantEmpty | TenantNil | TenantInvalidFormat

text \<open>\<open>try_parse\<close> is \<open>Uuid::try_parse\<close>, which accepts several spellings of one value.\<close>

definition tenant_id_parse :: "(ustring \<Rightarrow> 128 word option) \<Rightarrow> ustring \<Rightarrow> tenant_id_error + tenant_id" where
  "tenant_id_parse try_parse s =
     (if s = [] then Err TenantEmpty
      else and_then (ok_or (try_parse s) TenantInvalidFormat) (\<lambda>u.
        if hyphenated u \<noteq> s then Err TenantInvalidFormat
        else if u = 0 then Err TenantNil
        else Ok u))"

definition tenant_id_display :: "tenant_id \<Rightarrow> ustring" where
  "tenant_id_display u = hyphenated u"

datatype context_value_error = ContextEmpty | ContextTooLong | ContextInvalidFormat

datatype request_id = RequestId string

definition request_id_byte :: "char \<Rightarrow> bool" where
  "request_id_byte c \<longleftrightarrow> is_ascii_alphanumeric c \<or> c \<in> {CHR ''.'', CHR ''_'', CHR ''-''}"

definition request_id_parse :: "string \<Rightarrow> context_value_error + request_id" where
  "request_id_parse s =
     (if s = [] then Err ContextEmpty
      else if length s > 128 then Err ContextTooLong
      else if \<not> list_all request_id_byte s then Err ContextInvalidFormat
      else Ok (RequestId s))"

subsection \<open>The canonical form is unique\<close>

lemma hex_text_length [simp]: "length (hex_text k n) = k"
  by (induction k arbitrary: n) simp_all

lemma lower_hex_inject: "a < 16 \<Longrightarrow> b < 16 \<Longrightarrow> lower_hex a = lower_hex b \<Longrightarrow> a = b"
  by (auto simp: lower_hex_def split: if_splits)

lemma hex_text_inject: "hex_text k m = hex_text k n \<Longrightarrow> m < 16 ^ k \<Longrightarrow> n < 16 ^ k \<Longrightarrow> m = n"
proof (induction k arbitrary: m n)
  case (Suc k)
  have "m div 16 = n div 16"
    using Suc.prems by (intro Suc.IH) (auto simp: less_mult_imp_div_less mult.commute)
  moreover have "m mod 16 = n mod 16" by (rule lower_hex_inject) (use Suc.prems(1) in simp_all)
  ultimately show ?case by (metis div_mult_mod_eq)
qed simp

lemma take_drop_join: "take k (drop i h) @ drop (i + k) h = drop i h"
  using append_take_drop_id [of k "drop i h"] by (simp only: drop_drop add.commute [of i k])

lemma split_five:
  "take 8 h @ take 4 (drop 8 h) @ take 4 (drop 12 h) @ take 4 (drop 16 h) @ drop 20 h = h"
  using take_drop_join [of 4 16 h] take_drop_join [of 4 12 h] take_drop_join [of 4 8 h] by simp

lemma hyphenated_inject [simp]: "hyphenated u = hyphenated v \<longleftrightarrow> u = v"
proof
  assume eq: "hyphenated u = hyphenated v"
  let ?h = "hex_text 32 (unat u)" and ?g = "hex_text 32 (unat v)"
  have parts: "take 8 ?h = take 8 ?g \<and> take 4 (drop 8 ?h) = take 4 (drop 8 ?g) \<and> take 4 (drop 12 ?h) = take 4 (drop 12 ?g) \<and>
      take 4 (drop 16 ?h) = take 4 (drop 16 ?g) \<and> drop 20 ?h = drop 20 ?g"
    using eq by (simp add: hyphenated_def Let_def append_eq_append_conv)
  have "?h = take 8 ?h @ take 4 (drop 8 ?h) @ take 4 (drop 12 ?h) @ take 4 (drop 16 ?h) @ drop 20 ?h"
    by (rule split_five [symmetric])
  also have "\<dots> = ?g" unfolding parts [THEN conjunct1] using parts by (metis split_five)
  finally have "?h = ?g" .
  moreover have "(16 :: nat) ^ 32 = 2 ^ LENGTH(128)" by simp
  then have "unat u < 16 ^ 32" "unat v < 16 ^ 32" using unsigned_less [of u] unsigned_less [of v] by simp_all
  ultimately have "unat u = unat v" using hex_text_inject [of 32 "unat u" "unat v"] by blast
  then show "u = v" by (simp add: word_unat_eq_iff)
qed simp

lemma hyphenated_ascii: "c \<in> set (hyphenated u) \<Longrightarrow> c < 128"
proof -
  have "c < 128" if "c \<in> set (hex_text k n)" for k n
    using that
  proof (induction k arbitrary: n)
    case (Suc k)
    have "n mod 16 < 16" by simp
    then have "lower_hex (n mod 16) < 128" by (cases "n mod 16 < 10") (simp_all add: lower_hex_def)
    with Suc show ?case by auto
  qed simp
  then show "c \<in> set (hyphenated u) \<Longrightarrow> c < 128"
    by (auto simp: hyphenated_def Let_def ut_def byte_of_def dest!: in_set_takeD in_set_dropD)
qed

text \<open>When the uuid library reads back what it prints, the tenant parser accepts exactly the printed
  form of every nonzero tenant: printing inverts parsing, no second spelling of a tenant is accepted,
  and two tenants never share a text.\<close>

theorem tenant_parse_iff_canonical:
  assumes "\<And>u. try_parse (hyphenated u) = Some u"
  shows "tenant_id_parse try_parse s = Ok u \<longleftrightarrow> u \<noteq> 0 \<and> s = tenant_id_display u"
proof -
  have "hyphenated u \<noteq> []" by (simp add: hyphenated_def Let_def ut_def)
  then show ?thesis
    using assms [of u] by (auto simp: tenant_id_parse_def tenant_id_display_def result_iffs split: if_splits)
qed

text \<open>A strict reader of the canonical form, as a concrete instance of the library parser.\<close>

definition hex_value :: "ustring \<Rightarrow> nat" where
  "hex_value s = foldl (\<lambda>n c. n * 16 + (if c < 58 then c - 48 else c - 87)) 0 s"

definition canonical_reader :: "ustring \<Rightarrow> 128 word option" where
  "canonical_reader s =
     (let u = word_of_nat (hex_value (filter (\<lambda>c. c \<noteq> 45) s)) in if hyphenated u = s then Some u else None)"

lemma hex_value_text: "n < 16 ^ k \<Longrightarrow> hex_value (hex_text k n) = n"
proof (induction k arbitrary: n)
  case (Suc k)
  have "n div 16 < 16 ^ k" using Suc.prems by (simp add: less_mult_imp_div_less mult.commute)
  then have "hex_value (hex_text k (n div 16)) = n div 16" by (rule Suc.IH)
  moreover have "(if lower_hex d < 58 then lower_hex d - 48 else lower_hex d - 87) = d" if "d < 16" for d
    using that by (simp add: lower_hex_def)
  ultimately show ?case by (simp add: hex_value_def)
qed (simp add: hex_value_def)

lemma hex_text_no_dash: "filter (\<lambda>c. c \<noteq> 45) (hex_text k n) = hex_text k n"
  by (induction k arbitrary: n) (auto simp: lower_hex_def)

lemma canonical_reader_hyphenated: "canonical_reader (hyphenated u) = Some u"
proof -
  let ?h = "hex_text 32 (unat u)"
  have all: "\<forall>c \<in> set ?h. c \<noteq> 45" using hex_text_no_dash [of 32 "unat u"] by (simp only: filter_id_conv)
  have "filter (\<lambda>c. c \<noteq> 45) (hyphenated u) =
      take 8 ?h @ take 4 (drop 8 ?h) @ take 4 (drop 12 ?h) @ take 4 (drop 16 ?h) @ drop 20 ?h"
  proof -
    have keep: "filter (\<lambda>c. c \<noteq> 45) (take i (drop j ?h)) = take i (drop j ?h)" "filter (\<lambda>c. c \<noteq> 45) (drop j ?h) = drop j ?h"
      for i j
      using all by (auto simp only: filter_id_conv dest: in_set_takeD in_set_dropD)
    have "filter (\<lambda>c. c \<noteq> 45) (take 8 ?h) = take 8 ?h" using keep(1) [where j = 0] by simp
    then show ?thesis
      by (simp only: hyphenated_def Let_def filter_append keep) (simp add: ut_def byte_of_def)
  qed
  also have "\<dots> = ?h" by (rule split_five)
  finally have digits: "filter (\<lambda>c. c \<noteq> 45) (hyphenated u) = ?h" .
  have "unat u < 2 ^ LENGTH(128)" by (rule unsigned_less)
  then have "hex_value ?h = unat u" by (intro hex_value_text) simp
  then show ?thesis using digits by (simp add: canonical_reader_def Let_def)
qed

theorem tenant_parse_iff_canonical_witness:
  "tenant_id_parse canonical_reader (tenant_id_display 1) = Ok 1"
  using tenant_parse_iff_canonical [OF canonical_reader_hyphenated] by simp

end
