(* ===== verification/Redaction.thy ===== *)
theory Redaction
  imports Contract_Values Request_Context "HOL-Library.Sublist"
begin

section \<open>Redaction of fields, structures and URLs\<close>

text \<open>
  Models \<^verbatim>\<open>crates/redact/src\<close>: the modes and their masks, the scoped rendering of a structure, the
  key and URL funnels and the keyed hash token of \<^verbatim>\<open>redaction.rs\<close>, and the fixed renderings of
  \<^verbatim>\<open>error_summary.rs\<close>, \<^verbatim>\<open>redacted_bytes.rs\<close>, \<^verbatim>\<open>redacted_source.rs\<close> and \<^verbatim>\<open>secret_text.rs\<close>.
  Text is a list of Unicode scalar values. Parameters stand for tables and algorithms that are
  not part of the crate: the Unicode format category (icu), Unicode lower-casing, the quoting of
  \<open>Debug\<close> for strings, and HMAC-SHA256.
\<close>

definition redacted_placeholder :: ustring where
  "redacted_placeholder = ut ''<redacted>''"

subsection \<open>Closed vocabularies\<close>

datatype error_summary = SumIo | SumProtocol | SumState | SumRuntime | SumHeartbeat | SumClient | SumUnknown

fun error_summary_label :: "error_summary \<Rightarrow> ustring" where
  "error_summary_label SumIo = ut ''io''"
| "error_summary_label SumProtocol = ut ''protocol''"
| "error_summary_label SumState = ut ''state''"
| "error_summary_label SumRuntime = ut ''runtime''"
| "error_summary_label SumHeartbeat = ut ''heartbeat''"
| "error_summary_label SumClient = ut ''client''"
| "error_summary_label SumUnknown = ut ''unknown''"

datatype last_error = LastError error_summary

fun last_error_label :: "last_error \<Rightarrow> ustring" where
  "last_error_label (LastError s) = error_summary_label s"

fun last_error_debug :: "last_error \<Rightarrow> ustring" where
  "last_error_debug (LastError s) = ut ''LastError('' @ error_summary_label s @ ut '')''"

text \<open>Carriers of raw material, with the renderings of \<open>Debug\<close>, \<open>Display\<close> and \<open>Redact\<close>.\<close>

datatype redacted_bytes = RedactedBytes bytes

definition redacted_bytes_debug :: "redacted_bytes \<Rightarrow> ustring" where
  "redacted_bytes_debug b = redacted_placeholder"

datatype 'e redacted_source = RedactedSource 'e

definition redacted_source_debug :: "'e redacted_source \<Rightarrow> ustring" where
  "redacted_source_debug s = ut ''RedactedSource(<redacted>)''"

definition redacted_source_display :: "'e redacted_source \<Rightarrow> ustring" where
  "redacted_source_display s = redacted_placeholder"

datatype secret_text = SecretText ustring

fun secret_text_expose :: "secret_text \<Rightarrow> ustring" where
  "secret_text_expose (SecretText s) = s"

definition secret_text_debug :: "secret_text \<Rightarrow> ustring" where
  "secret_text_debug s = ut ''SecretText(<redacted>)''"

datatype redaction_hash_key = RedactionHashKey bytes

datatype redaction_hash_error = HashKeyTooShort

definition redaction_hash_key_new :: "bytes \<Rightarrow> redaction_hash_error + redaction_hash_key" where
  "redaction_hash_key_new b = (if length b < 32 then Err HashKeyTooShort else Ok (RedactionHashKey b))"

definition redaction_hash_key_debug :: "redaction_hash_key \<Rightarrow> ustring" where
  "redaction_hash_key_debug k = ut ''RedactionHashKey(<redacted>)''"

subsection \<open>Modes\<close>

datatype pii_kind = PiiEmail | PiiPhone | PiiName | PiiAddress | PiiGeneric

datatype redaction_mode = ModeShow | ModeFixed | ModeLast4 | ModeEmailMask | ModeDrop

fun pii_default_mode :: "pii_kind \<Rightarrow> redaction_mode" where
  "pii_default_mode PiiEmail = ModeEmailMask"
| "pii_default_mode PiiPhone = ModeLast4"
| "pii_default_mode _ = ModeFixed"

fun default_for_data_class :: "data_class \<Rightarrow> redaction_mode" where
  "default_for_data_class DC_Public = ModeShow"
| "default_for_data_class _ = ModeFixed"

text \<open>The text around the first occurrence of a pattern: \<open>find\<close>, \<open>contains\<close> and \<open>split_once\<close>.\<close>

fun split_at_sub :: "ustring \<Rightarrow> ustring \<Rightarrow> (ustring \<times> ustring) option" where
  "split_at_sub p [] = (if p = [] then Some ([], []) else None)"
| "split_at_sub p (c # cs) =
     (if prefix p (c # cs) then Some ([], drop (length p) (c # cs))
      else map_option (\<lambda>(a, b). (c # a, b)) (split_at_sub p cs))"

definition contains :: "ustring \<Rightarrow> ustring \<Rightarrow> bool" where
  "contains s p \<longleftrightarrow> split_at_sub p s \<noteq> None"

definition sensitive_key_patterns :: "ustring list" where
  "sensitive_key_patterns = map ut
     [''password'', ''secret'', ''token'', ''credential'', ''apikey'', ''api_key'', ''key'', ''authorization'',
      ''cookie'', ''jwt'', ''session'', ''bearer'', ''salt'', ''private'']"

definition data_class_from_key :: "(ustring \<Rightarrow> ustring) \<Rightarrow> ustring \<Rightarrow> data_class" where
  "data_class_from_key lowercase key =
     (if list_ex (contains (lowercase key)) sensitive_key_patterns then DC_Secret else DC_Public)"

subsection \<open>Values\<close>

datatype redact_value =
    RvStr ustring
  | RvBytes bytes
  | RvBool bool
  | RvSigned int
  | RvUnsigned nat
  | RvUuid "128 word"
  | RvDuration nat
  | RvSystemTime int
  | RvOffsetDateTime int
  | RvDebug ustring
  | RvAbsent

definition show_nat_text :: "nat \<Rightarrow> ustring" where
  "show_nat_text n = ut (show_nat n)"

definition show_int_text :: "int \<Rightarrow> ustring" where
  "show_int_text z = (if z < 0 then ut ''-'' @ show_nat_text (nat (- z)) else show_nat_text (nat z))"

fun write_scalar :: "redact_value \<Rightarrow> ustring" where
  "write_scalar (RvBool b) = ut (if b then ''true'' else ''false'')"
| "write_scalar (RvSigned z) = show_int_text z"
| "write_scalar (RvUnsigned n) = show_nat_text n"
| "write_scalar (RvUuid u) = hyphenated u"
| "write_scalar (RvDuration d) = show_nat_text d @ ut ''ns''"
| "write_scalar (RvSystemTime t) =
     (if 0 \<le> t then show_nat_text (nat t) else ut ''-'' @ show_nat_text (nat (- t))) @ ut ''ns_since_unix_epoch''"
| "write_scalar (RvOffsetDateTime t) = show_int_text t @ ut ''ns_since_unix_epoch''"
| "write_scalar (RvStr s) = s"
| "write_scalar (RvBytes b) = ut ''['' @ show_nat_text (length b) @ ut '' bytes]''"
| "write_scalar (RvDebug r) = r"
| "write_scalar RvAbsent = ut ''None''"

fun mask_show :: "redact_value \<Rightarrow> ustring" where
  "mask_show (RvStr s) = s"
| "mask_show (RvBytes b) = ut ''['' @ show_nat_text (length b) @ ut '' bytes]''"
| "mask_show (RvDebug r) = r"
| "mask_show RvAbsent = ut ''None''"
| "mask_show v = write_scalar v"

definition char_is_whitespace :: "nat \<Rightarrow> bool" where
  "char_is_whitespace c \<longleftrightarrow> 9 \<le> c \<and> c \<le> 13 \<or> 8192 \<le> c \<and> c \<le> 8202 \<or>
     c \<in> {32, 133, 160, 5760, 8232, 8233, 8239, 8287, 12288}"

definition has_unsafe_mask_characters :: "(nat \<Rightarrow> bool) \<Rightarrow> ustring \<Rightarrow> bool" where
  "has_unsafe_mask_characters is_format s =
     list_ex (\<lambda>c. char_is_whitespace c \<or> char_is_control c \<or> is_format c) s"

text \<open>What the partial modes read: the text of a string or scalar, nothing of bytes, debug views and absence.\<close>

definition maskable_text :: "redact_value \<Rightarrow> ustring option" where
  "maskable_text v =
     (case v of RvBytes _ \<Rightarrow> None | RvDebug _ \<Rightarrow> None | RvAbsent \<Rightarrow> None | RvStr s \<Rightarrow> Some s | _ \<Rightarrow> Some (write_scalar v))"

definition mask_last4 :: "(nat \<Rightarrow> bool) \<Rightarrow> redact_value \<Rightarrow> ustring" where
  "mask_last4 is_format v =
     (case maskable_text v of
        None \<Rightarrow> redacted_placeholder
      | Some s \<Rightarrow>
          if has_unsafe_mask_characters is_format s then redacted_placeholder
          else if length s \<le> 4 then redacted_placeholder
          else ut ''****'' @ drop (length s - 4) s)"

definition mask_email :: "(nat \<Rightarrow> bool) \<Rightarrow> redact_value \<Rightarrow> ustring" where
  "mask_email is_format v =
     (case maskable_text v of
        None \<Rightarrow> redacted_placeholder
      | Some s \<Rightarrow>
          if has_unsafe_mask_characters is_format s then redacted_placeholder
          else case split_at_sub (ut ''@'') s of
            Some (local, domain) \<Rightarrow>
              if domain \<noteq> [] \<and> \<not> contains domain (ut ''@'')
              then (case local of c # _ \<Rightarrow> [c] @ ut ''***@'' @ domain | [] \<Rightarrow> redacted_placeholder)
              else redacted_placeholder
          | None \<Rightarrow> redacted_placeholder)"

definition mask :: "(nat \<Rightarrow> bool) \<Rightarrow> redaction_mode \<Rightarrow> redact_value \<Rightarrow> ustring" where
  "mask is_format mode v =
     (case mode of
        ModeShow \<Rightarrow> mask_show v
      | ModeFixed \<Rightarrow> redacted_placeholder
      | ModeDrop \<Rightarrow> []
      | ModeLast4 \<Rightarrow> mask_last4 is_format v
      | ModeEmailMask \<Rightarrow> mask_email is_format v)"

subsection \<open>Hash tokens\<close>

text \<open>The bytes of UTF-8.\<close>

definition utf8_char :: "nat \<Rightarrow> bytes" where
  "utf8_char c =
     map word_of_nat
       (if c < 128 then [c]
        else if c < 2048 then [192 + c div 64, 128 + c mod 64]
        else if c < 65536 then [224 + c div 4096, 128 + c div 64 mod 64, 128 + c mod 64]
        else [240 + c div 262144, 128 + c div 4096 mod 64, 128 + c div 64 mod 64, 128 + c mod 64])"

definition utf8_bytes :: "ustring \<Rightarrow> bytes" where
  "utf8_bytes s = concat (map utf8_char s)"

definition hash_truncate_bytes :: nat where
  "hash_truncate_bytes = 6"

definition mask_hmac :: "(bytes \<Rightarrow> bytes \<Rightarrow> bytes) \<Rightarrow> redact_value \<Rightarrow> redaction_hash_key \<Rightarrow> ustring option" where
  "mask_hmac hmac v k =
     (case k of RedactionHashKey key \<Rightarrow>
        map_option (\<lambda>message.
            ut ''hmac-sha256:'' @ concat (map (\<lambda>b. hex_text 2 (unat b)) (take hash_truncate_bytes (hmac key message))))
          (case v of
             RvStr s \<Rightarrow> Some (utf8_bytes s)
           | RvBytes b \<Rightarrow> Some b
           | RvAbsent \<Rightarrow> None
           | RvDebug _ \<Rightarrow> None
           | _ \<Rightarrow> Some (utf8_bytes (write_scalar v))))"

definition redact_hash :: "(bytes \<Rightarrow> bytes \<Rightarrow> bytes) \<Rightarrow> redact_value \<Rightarrow> redaction_hash_key \<Rightarrow> ustring" where
  "redact_hash hmac v k = (case mask_hmac hmac v k of Some t \<Rightarrow> t | None \<Rightarrow> redacted_placeholder)"

subsection \<open>Structures\<close>

datatype redact_scope = ServerLog | Wire

record field_redaction =
  fr_name :: "ustring option"
  fr_mode :: redaction_mode
  fr_value :: redact_value

fun scope_effective_mode :: "redaction_mode \<Rightarrow> redact_scope \<Rightarrow> redaction_mode" where
  "scope_effective_mode ModeLast4 Wire = ModeFixed"
| "scope_effective_mode ModeEmailMask Wire = ModeFixed"
| "scope_effective_mode mode _ = mode"

definition render_field :: "(nat \<Rightarrow> bool) \<Rightarrow> (ustring \<Rightarrow> ustring) \<Rightarrow> redaction_mode \<Rightarrow> redact_value \<Rightarrow> ustring" where
  "render_field is_format debug_str mode v =
     (let masked = mask is_format mode v in
      if mode = ModeShow then (case v of RvDebug _ \<Rightarrow> masked | _ \<Rightarrow> debug_str masked) else masked)"

fun join_text :: "ustring \<Rightarrow> ustring list \<Rightarrow> ustring" where
  "join_text sep [] = []"
| "join_text sep [x] = x"
| "join_text sep (x # y # xs) = x @ sep @ join_text sep (y # xs)"

definition rendered_fields ::
  "(nat \<Rightarrow> bool) \<Rightarrow> (ustring \<Rightarrow> ustring) \<Rightarrow> redact_scope \<Rightarrow> field_redaction list \<Rightarrow> (ustring option \<times> ustring) list" where
  "rendered_fields is_format debug_str scope fs =
     List.map_filter (\<lambda>f.
       let mode = scope_effective_mode (fr_mode f) scope in
       if mode = ModeDrop then None else Some (fr_name f, render_field is_format debug_str mode (fr_value f))) fs"

definition redact_struct ::
  "(nat \<Rightarrow> bool) \<Rightarrow> (ustring \<Rightarrow> ustring) \<Rightarrow> ustring \<Rightarrow> bool \<Rightarrow> redact_scope \<Rightarrow> field_redaction list \<Rightarrow> ustring" where
  "redact_struct is_format debug_str type_name is_tuple scope fs =
     (let rendered = rendered_fields is_format debug_str scope fs in
      if rendered = [] then type_name
      else if is_tuple then type_name @ ut ''('' @ join_text (ut '', '') (map snd rendered) @ ut '')''
      else type_name @ ut '' { '' @
        join_text (ut '', '') (map (\<lambda>(n, v). (case n of Some x \<Rightarrow> x @ ut '': '' | None \<Rightarrow> []) @ v) rendered) @ ut '' }'')"

subsection \<open>Keys and URLs\<close>

definition redact_field :: "(nat \<Rightarrow> bool) \<Rightarrow> (ustring \<Rightarrow> ustring) \<Rightarrow> ustring \<Rightarrow> ustring \<Rightarrow> ustring" where
  "redact_field is_format lowercase key v =
     mask is_format (default_for_data_class (data_class_from_key lowercase key)) (RvStr v)"

definition authority_end :: "nat \<Rightarrow> bool" where
  "authority_end c \<longleftrightarrow> c \<in> set (ut ''/?#'') \<or> char_is_whitespace c"

text \<open>The part after the last \<open>@\<close>, when there is one.\<close>

fun after_last_at :: "ustring \<Rightarrow> ustring option" where
  "after_last_at [] = None"
| "after_last_at (c # cs) =
     (case after_last_at cs of Some h \<Rightarrow> Some h | None \<Rightarrow> if c = 64 then Some cs else None)"

definition scrub_authority :: "ustring \<Rightarrow> ustring" where
  "scrub_authority a = (case after_last_at a of Some host \<Rightarrow> redacted_placeholder @ [64] @ host | None \<Rightarrow> a)"

lemma split_at_sub_eq: "split_at_sub p s = Some (a, b) \<Longrightarrow> s = a @ p @ b"
  by (induction p s arbitrary: a b rule: split_at_sub.induct)
    (auto simp: prefix_def split: if_splits)

text \<open>The scanning loop; the text not yet searched is the suffix that starts at \<open>search_start\<close>.\<close>

function redact_url_credentials :: "ustring \<Rightarrow> ustring" where
  "redact_url_credentials url =
     (case split_at_sub (ut ''://'') url of
        None \<Rightarrow> url
      | Some (before, rest) \<Rightarrow>
          let authority = takeWhile (\<lambda>c. \<not> authority_end c) rest;
              remaining = dropWhile (\<lambda>c. \<not> authority_end c) rest in
          before @ ut ''://'' @ scrub_authority authority @ redact_url_credentials remaining)"
  by pat_completeness auto
termination
proof (relation "measure length", goal_cases)
  case (2 url x before rest)
  have "length (dropWhile (\<lambda>c. \<not> authority_end c) rest) \<le> length rest"
    by (rule length_dropWhile_le)
  with 2 show ?case by (auto dest!: split_at_sub_eq simp: ut_def)
qed simp

declare redact_url_credentials.simps [simp del]

definition redact_observation_field :: "(nat \<Rightarrow> bool) \<Rightarrow> (ustring \<Rightarrow> ustring) \<Rightarrow> ustring \<Rightarrow> ustring \<Rightarrow> ustring" where
  "redact_observation_field is_format lowercase key v = redact_url_credentials (redact_field is_format lowercase key v)"

subsection \<open>What a rendered structure reveals\<close>

definition same_shape :: "field_redaction \<Rightarrow> field_redaction \<Rightarrow> bool" where
  "same_shape f g \<longleftrightarrow> fr_name f = fr_name g \<and> fr_mode f = fr_mode g \<and> (fr_mode f = ModeShow \<longrightarrow> fr_value f = fr_value g)"

lemma same_shape_rendered:
  assumes "same_shape f g"
  shows "render_field is_format debug_str (scope_effective_mode (fr_mode f) Wire) (fr_value f) =
    render_field is_format debug_str (scope_effective_mode (fr_mode g) Wire) (fr_value g)"
  using assms by (cases "fr_mode f") (auto simp: same_shape_def render_field_def mask_def)

lemma map_filter_cong2:
  "list_all2 (\<lambda>x y. f x = g y) xs ys \<Longrightarrow> List.map_filter f xs = List.map_filter g ys"
  by (induction rule: list_all2_induct) (auto simp: map_filter_simps split: option.splits)

text \<open>C35. On an external sink a structure reveals nothing of the fields that are not declared as shown: two
  values of the same shape that agree on the shown fields render to the same text, whatever the
  masked, fixed and dropped fields hold.\<close>

theorem wire_render_noninterference:
  assumes "list_all2 same_shape fs gs"
  shows "redact_struct is_format debug_str t tup Wire fs = redact_struct is_format debug_str t tup Wire gs"
proof -
  have "rendered_fields is_format debug_str Wire fs = rendered_fields is_format debug_str Wire gs"
    unfolding rendered_fields_def
    by (rule map_filter_cong2, rule list_all2_mono [OF assms])
      (simp add: same_shape_rendered [of _ _ is_format debug_str] Let_def, simp add: same_shape_def)
  then show ?thesis by (simp add: redact_struct_def)
qed

theorem wire_render_noninterference_witness:
  "redact_struct (\<lambda>_. False) id (ut ''T'') False Wire
     [\<lparr>fr_name = Some (ut ''phone''), fr_mode = ModeLast4, fr_value = RvStr (ut ''5551234'')\<rparr>] =
   redact_struct (\<lambda>_. False) id (ut ''T'') False Wire
     [\<lparr>fr_name = Some (ut ''phone''), fr_mode = ModeLast4, fr_value = RvBytes [1]\<rparr>] \<and>
   redact_struct (\<lambda>_. False) id (ut ''T'') False ServerLog
     [\<lparr>fr_name = Some (ut ''phone''), fr_mode = ModeLast4, fr_value = RvStr (ut ''5551234'')\<rparr>] =
   ut ''T { phone: ****1234 }''"
proof
  show "redact_struct (\<lambda>_. False) id (ut ''T'') False Wire
     [\<lparr>fr_name = Some (ut ''phone''), fr_mode = ModeLast4, fr_value = RvStr (ut ''5551234'')\<rparr>] =
   redact_struct (\<lambda>_. False) id (ut ''T'') False Wire
     [\<lparr>fr_name = Some (ut ''phone''), fr_mode = ModeLast4, fr_value = RvBytes [1]\<rparr>]"
    by (rule wire_render_noninterference) (simp add: same_shape_def)
  show "redact_struct (\<lambda>_. False) id (ut ''T'') False ServerLog
     [\<lparr>fr_name = Some (ut ''phone''), fr_mode = ModeLast4, fr_value = RvStr (ut ''5551234'')\<rparr>] =
   ut ''T { phone: ****1234 }''"
    by (simp add: redact_struct_def rendered_fields_def map_filter_simps render_field_def mask_def mask_last4_def
        maskable_text_def has_unsafe_mask_characters_def char_is_whitespace_def char_is_control_def ut_def byte_of_def Let_def)
qed

text \<open>The last-four mask of a text shows its last four characters and only when more are hidden.\<close>

lemma mask_last4_reveals:
  "mask_last4 is_format v = redacted_placeholder \<or>
   (\<exists>hidden shown. maskable_text v = Some (hidden @ shown) \<and> hidden \<noteq> [] \<and> length shown = 4 \<and>
      mask_last4 is_format v = ut ''****'' @ shown)"
proof (cases "\<exists>s. maskable_text v = Some s \<and> \<not> has_unsafe_mask_characters is_format s \<and> 4 < length s")
  case True
  then obtain s where s: "maskable_text v = Some s" "\<not> has_unsafe_mask_characters is_format s" "4 < length s" by blast
  show ?thesis
    by (rule disjI2, rule exI [of _ "take (length s - 4) s"], rule exI [of _ "drop (length s - 4) s"])
      (use s in \<open>auto simp: mask_last4_def\<close>)
qed (auto simp: mask_last4_def not_less split: option.splits)

text \<open>The email mask shows the first character and the domain of a text with one at-sign.\<close>

lemma split_at_sub_None: "split_at_sub [c] s = None \<longleftrightarrow> c \<notin> set s"
  by (induction s) (auto simp: prefix_Cons)

lemma split_at_sub_first: "split_at_sub [c] s = Some (a, b) \<Longrightarrow> c \<notin> set a"
  by (induction s arbitrary: a b) (auto simp: prefix_Cons split: if_splits)

lemma mask_email_reveals:
  "mask_email is_format v = redacted_placeholder \<or>
   (\<exists>c hidden domain. maskable_text v = Some ((c # hidden) @ 64 # domain) \<and> 64 \<notin> set (c # hidden @ domain) \<and>
      domain \<noteq> [] \<and> mask_email is_format v = [c] @ ut ''***@'' @ domain)"
proof -
  have at: "ut ''@'' = [64]" by (simp add: ut_def byte_of_def)
  show ?thesis
  proof (cases "\<exists>s c l d. maskable_text v = Some s \<and> split_at_sub [64] s = Some (c # l, d) \<and>
      \<not> has_unsafe_mask_characters is_format s \<and> d \<noteq> [] \<and> 64 \<notin> set d")
    case True
    then obtain s c l d where s: "maskable_text v = Some s" "split_at_sub [64] s = Some (c # l, d)"
      "\<not> has_unsafe_mask_characters is_format s" "d \<noteq> []" "64 \<notin> set d" by blast
    have eq: "s = (c # l) @ 64 # d" "64 \<notin> set (c # l)"
      using split_at_sub_eq [OF s(2)] split_at_sub_first [OF s(2)] by simp_all
    show ?thesis
      by (rule disjI2, rule exI [of _ c], rule exI [of _ l], rule exI [of _ d])
        (use s eq in \<open>simp add: mask_email_def at contains_def split_at_sub_None\<close>)
  qed (auto simp: mask_email_def at contains_def split_at_sub_None split: option.splits list.splits)
qed

subsection \<open>URL credentials\<close>

text \<open>The scanner's view of a text: the pieces before each authority, the authorities, and the tail.\<close>

function url_scan :: "ustring \<Rightarrow> (ustring \<times> ustring) list \<times> ustring" where
  "url_scan url =
     (case split_at_sub (ut ''://'') url of
        None \<Rightarrow> ([], url)
      | Some (before, rest) \<Rightarrow>
          let (segs, tl) = url_scan (dropWhile (\<lambda>c. \<not> authority_end c) rest) in
          ((before @ ut ''://'', takeWhile (\<lambda>c. \<not> authority_end c) rest) # segs, tl))"
  by pat_completeness auto
termination
proof (relation "measure length", goal_cases)
  case (2 url x before rest)
  have "length (dropWhile (\<lambda>c. \<not> authority_end c) rest) \<le> length rest"
    by (rule length_dropWhile_le)
  with 2 show ?case by (auto dest!: split_at_sub_eq simp: ut_def)
qed simp

declare url_scan.simps [simp del]

definition unscan :: "(ustring \<times> ustring) list \<times> ustring \<Rightarrow> ustring" where
  "unscan r = concat (map (\<lambda>(a, b). a @ b) (fst r)) @ snd r"

lemma unscan_scan: "unscan (url_scan url) = url"
proof (induction url rule: url_scan.induct)
  case (1 url)
  show ?case
  proof (cases "split_at_sub (ut ''://'') url")
    case (Some r)
    obtain a b where r: "r = (a, b)" by (cases r)
    have "unscan (url_scan (dropWhile (\<lambda>c. \<not> authority_end c) b)) = dropWhile (\<lambda>c. \<not> authority_end c) b"
      using 1 Some r by blast
    then show ?thesis
      using Some r split_at_sub_eq [of "ut ''://''" url a b]
      by (subst url_scan.simps) (auto simp: unscan_def split: prod.splits)
  qed (subst url_scan.simps, simp add: unscan_def)
qed

lemma redact_unscan:
  "redact_url_credentials url = unscan (map (apsnd scrub_authority) (fst (url_scan url)), snd (url_scan url))"
proof (induction url rule: url_scan.induct)
  case (1 url)
  show ?case
  proof (cases "split_at_sub (ut ''://'') url")
    case (Some r)
    obtain a b where r: "r = (a, b)" by (cases r)
    have "redact_url_credentials (dropWhile (\<lambda>c. \<not> authority_end c) b) =
        unscan (map (apsnd scrub_authority) (fst (url_scan (dropWhile (\<lambda>c. \<not> authority_end c) b))),
          snd (url_scan (dropWhile (\<lambda>c. \<not> authority_end c) b)))"
      using 1 Some r by blast
    then show ?thesis
      using Some r
      by (auto simp: redact_url_credentials.simps [of url] url_scan.simps [of url] unscan_def split: prod.splits)
  qed (simp add: redact_url_credentials.simps [of url] url_scan.simps [of url] unscan_def)
qed

lemma prefix_inside: "length p \<le> length u \<Longrightarrow> prefix p (u @ x) \<longleftrightarrow> prefix p u"
  by (auto simp: prefix_append prefix_length_le dest: prefix_length_le)

lemma split_at_sub_again:
  "split_at_sub p s = Some (a, b) \<Longrightarrow> p \<noteq> [] \<Longrightarrow> split_at_sub p (a @ p @ x) = Some (a, x)"
proof (induction s arbitrary: a)
  case (Cons c cs)
  show ?case
  proof (cases "prefix p (c # cs)")
    case True
    then have "a = []" using Cons.prems by auto
    then show ?thesis using Cons.prems(2) by (cases p) auto
  next
    case False
    then obtain a' where a: "a = c # a'" "split_at_sub p cs = Some (a', b)"
      using Cons.prems by (auto split: if_splits)
    have "c # cs = (c # a' @ p) @ b" using split_at_sub_eq [OF a(2)] by simp
    then have "\<not> prefix p (c # a' @ p)" using False prefix_inside [of p "c # a' @ p" b] by simp
    then have "\<not> prefix p (c # a' @ p @ x)" using prefix_inside [of p "c # a' @ p" x] by simp
    then show ?thesis using Cons.IH [OF a(2) Cons.prems(2)] a(1) by simp
  qed
qed simp

lemma scheme_nonempty [simp]: "ut ''://'' \<noteq> []"
  by (simp add: ut_def)

lemma redact_head:
  assumes "authority_end c"
  shows "\<exists>r. redact_url_credentials (c # cs) = c # r"
proof (cases "split_at_sub (ut ''://'') (c # cs)")
  case (Some p)
  obtain a b where p: "p = (a, b)" by (cases p)
  have "c \<noteq> 58" using assms by (auto simp: authority_end_def char_is_whitespace_def ut_def byte_of_def)
  then have "\<not> prefix (ut ''://'') (c # cs)" by (simp add: ut_def byte_of_def prefix_Cons)
  then obtain a' where "a = c # a'" using Some p by auto
  then show ?thesis using Some p by (simp add: redact_url_credentials.simps [of "c # cs"] Let_def)
qed (simp add: redact_url_credentials.simps)

lemma redact_dropWhile:
  "redact_url_credentials (dropWhile (\<lambda>c. \<not> authority_end c) b) = [] \<or>
   authority_end (hd (redact_url_credentials (dropWhile (\<lambda>c. \<not> authority_end c) b)))"
proof (cases "dropWhile (\<lambda>c. \<not> authority_end c) b")
  case Nil
  show ?thesis unfolding Nil by (simp add: redact_url_credentials.simps [of "[]"])
next
  case (Cons c cs)
  then have "authority_end c" using hd_dropWhile [of "\<lambda>c. \<not> authority_end c" b] by simp
  then show ?thesis using redact_head [of c cs] Cons by auto
qed

lemma after_last_at_set: "after_last_at a = Some h \<Longrightarrow> set h \<subseteq> set a"
  by (induction a arbitrary: h) (auto split: option.splits if_splits)

lemma after_last_at_clean: "after_last_at a = Some h \<Longrightarrow> 64 \<notin> set h"
proof (induction a arbitrary: h)
  case (Cons c cs)
  have "64 \<notin> set cs" if "after_last_at cs = None"
    using that by (induction cs) (auto split: option.splits if_splits)
  with Cons show ?case by (auto split: option.splits if_splits)
qed simp

lemma scrub_no_end:
  assumes "\<forall>c \<in> set a. \<not> authority_end c"
  shows "\<forall>c \<in> set (scrub_authority a). \<not> authority_end c"
proof (cases "after_last_at a")
  case (Some h)
  have "\<forall>c \<in> set (redacted_placeholder @ [64]). \<not> authority_end c"
    by (simp add: redacted_placeholder_def ut_def byte_of_def authority_end_def char_is_whitespace_def)
  then show ?thesis using Some after_last_at_set [OF Some] assms by (auto simp: scrub_authority_def)
qed (use assms in \<open>simp add: scrub_authority_def\<close>)

lemma takeWhile_scrubbed:
  assumes "\<forall>c \<in> set a. \<not> P c" and "r = [] \<or> P (hd r)"
  shows "takeWhile (\<lambda>c. \<not> P c) (a @ r) = a" and "dropWhile (\<lambda>c. \<not> P c) (a @ r) = r"
  using assms by (induction a) (cases r; auto)+

lemma scan_redacted:
  "url_scan (redact_url_credentials url) = (map (apsnd scrub_authority) (fst (url_scan url)), snd (url_scan url))"
proof (induction url rule: url_scan.induct)
  case (1 url)
  show ?case
  proof (cases "split_at_sub (ut ''://'') url")
    case None
    then show ?thesis by (simp add: redact_url_credentials.simps [of url] url_scan.simps [of url])
  next
    case (Some p)
    obtain a b where p: "p = (a, b)" by (cases p)
    let ?auth = "takeWhile (\<lambda>c. \<not> authority_end c) b" and ?rem = "dropWhile (\<lambda>c. \<not> authority_end c) b"
    let ?r = "redact_url_credentials ?rem"
    have out: "redact_url_credentials url = a @ ut ''://'' @ scrub_authority ?auth @ ?r"
      using Some p by (simp add: redact_url_credentials.simps [of url] Let_def)
    have clean: "\<forall>c \<in> set (scrub_authority ?auth). \<not> authority_end c"
      by (rule scrub_no_end) (blast dest: set_takeWhileD)
    have cut: "takeWhile (\<lambda>c. \<not> authority_end c) (scrub_authority ?auth @ ?r) = scrub_authority ?auth"
      "dropWhile (\<lambda>c. \<not> authority_end c) (scrub_authority ?auth @ ?r) = ?r"
      by (rule takeWhile_scrubbed [OF clean redact_dropWhile [of b]])+
    have "split_at_sub (ut ''://'') (a @ ut ''://'' @ scrub_authority ?auth @ ?r) = Some (a, scrub_authority ?auth @ ?r)"
      using Some p by (intro split_at_sub_again) simp_all
    then have "url_scan (redact_url_credentials url) =
        (let (segs, tl) = url_scan ?r in ((a @ ut ''://'', scrub_authority ?auth) # segs, tl))"
      unfolding out
      by (subst url_scan.simps) (simp only: option.case prod.case cut)
    moreover have "url_scan ?r = (map (apsnd scrub_authority) (fst (url_scan ?rem)), snd (url_scan ?rem))"
      using 1 Some p by blast
    ultimately show ?thesis
      using Some p by (simp add: url_scan.simps [of url] split: prod.splits)
  qed
qed

definition userinfo_hidden :: "ustring \<Rightarrow> bool" where
  "userinfo_hidden a \<longleftrightarrow> 64 \<notin> set a \<or> (\<exists>host. a = redacted_placeholder @ [64] @ host \<and> 64 \<notin> set host)"

lemma scrub_hidden: "userinfo_hidden (scrub_authority a)"
proof (cases "after_last_at a")
  case None
  then have "64 \<notin> set a" by (induction a) (auto split: option.splits if_splits)
  then show ?thesis using None by (simp add: scrub_authority_def userinfo_hidden_def)
next
  case (Some h)
  then show ?thesis using after_last_at_clean by (auto simp: scrub_authority_def userinfo_hidden_def)
qed

lemma after_last_at_append: "64 \<notin> set h \<Longrightarrow> after_last_at (x @ 64 # h) = Some h"
proof (induction x)
  case Nil
  then have "after_last_at h = None" by (induction h) auto
  then show ?case by simp
qed simp

lemma scrub_idem: "userinfo_hidden a \<Longrightarrow> scrub_authority a = a"
proof -
  have "after_last_at a = None" if "64 \<notin> set a" using that by (induction a) auto
  then show "userinfo_hidden a \<Longrightarrow> scrub_authority a = a"
    by (auto simp: userinfo_hidden_def scrub_authority_def after_last_at_append)
qed

text \<open>The URL funnel hides every userinfo and nothing else: read by the same scanner, its output has the
  same text around the same authorities with the part up to the last at-sign replaced, so no
  authority of the output shows a userinfo, and running the funnel again changes nothing.\<close>

theorem url_credentials_hidden:
  "url_scan (redact_url_credentials url) = (map (apsnd scrub_authority) (fst (url_scan url)), snd (url_scan url)) \<and>
   unscan (url_scan url) = url \<and>
   list_all (\<lambda>(_, a). userinfo_hidden a) (fst (url_scan (redact_url_credentials url))) \<and>
   redact_url_credentials (redact_url_credentials url) = redact_url_credentials url"
proof -
  have h: "list_all (\<lambda>(_, a). userinfo_hidden a) (fst (url_scan (redact_url_credentials url)))"
    by (auto simp: scan_redacted list_all_iff scrub_hidden)
  have idem: "map (apsnd scrub_authority) (map (apsnd scrub_authority) xs) = map (apsnd scrub_authority) xs" for xs
    by (auto simp: scrub_idem [OF scrub_hidden])
  have "redact_url_credentials (redact_url_credentials url) =
      unscan (map (apsnd scrub_authority) (fst (url_scan (redact_url_credentials url))),
        snd (url_scan (redact_url_credentials url)))"
    by (rule redact_unscan)
  also have "\<dots> = redact_url_credentials url"
    by (simp only: scan_redacted fst_conv snd_conv idem redact_unscan [of url, symmetric])
  finally show ?thesis using h scan_redacted unscan_scan by simp
qed

end
