(* ===== verification/Data_Protection.thy ===== *)
theory Data_Protection
  imports Redaction
begin

section \<open>Data protection: blind indexes, associated data and envelopes\<close>

text \<open>
  Models \<^verbatim>\<open>crates/data-protection/src\<close>: the keyed blind index of \<^verbatim>\<open>blind_index.rs\<close>, the canonical
  associated data of \<^verbatim>\<open>protection.rs\<close> and the envelope of \<^verbatim>\<open>envelope.rs\<close>. A \<open>str\<close> of which only the
  bytes are used is its bytes; a plaintext that is transformed is a list of Unicode scalar values.
  HMAC-SHA256 and the Unicode tables (case-ignorable, cased, lower-case mapping) are parameters; the
  ciphers behind the \<open>Aead\<close> trait are code of other crates.
\<close>

subsection \<open>Keys, scopes and subkeys\<close>

datatype blind_index_error = BiKeyTooShort | BiFilterBitsOutOfRange | BiEmptyPlaintext | BiEmptyScope

datatype blind_index_key = BlindIndexKey bytes

fun blind_key_bytes :: "blind_index_key \<Rightarrow> bytes" where
  "blind_key_bytes (BlindIndexKey b) = b"

definition blind_index_key_from_bytes :: "bytes \<Rightarrow> blind_index_error + blind_index_key" where
  "blind_index_key_from_bytes b = (if length b < 32 then Err BiKeyTooShort else Ok (BlindIndexKey b))"

record index_scope =
  ix_tenant :: tenant_id
  ix_domain :: bytes
  ix_field :: bytes
  ix_name :: bytes

definition index_scope_new :: "tenant_id \<Rightarrow> bytes \<Rightarrow> bytes \<Rightarrow> bytes \<Rightarrow> blind_index_error + index_scope" where
  "index_scope_new t d f n =
     (if d = [] \<or> f = [] \<or> n = [] then Err BiEmptyScope
      else Ok \<lparr>ix_tenant = t, ix_domain = d, ix_field = f, ix_name = n\<rparr>)"

definition tenant_bytes :: "tenant_id \<Rightarrow> bytes" where
  "tenant_bytes t = utf8_bytes (tenant_id_display t)"

definition subkey_context :: bytes where
  "subkey_context = ascii_bytes ''rss.blind-index.subkey.v1''"

definition encode_lp :: "bytes \<Rightarrow> bytes \<Rightarrow> bytes" where
  "encode_lp buf x = buf @ be_bytes_u64 (length x) @ x"

definition subkey_message :: "index_scope \<Rightarrow> bytes" where
  "subkey_message sc =
     foldl encode_lp [] [subkey_context, tenant_bytes (ix_tenant sc), ix_domain sc, ix_field sc, ix_name sc]"

datatype sub_key = SubKey bytes

definition derive_subkey :: "(bytes \<Rightarrow> bytes \<Rightarrow> bytes) \<Rightarrow> blind_index_key \<Rightarrow> index_scope \<Rightarrow> sub_key" where
  "derive_subkey hmac root sc = SubKey (hmac (blind_key_bytes root) (subkey_message sc))"

subsection \<open>Transforms\<close>

datatype text_transform = TfLowercase | TfTrim | TfDigitsOnly | TfLastN nat

record unicode_tables =
  ut_ignorable :: "nat \<Rightarrow> bool"
  ut_cased :: "nat \<Rightarrow> bool"
  ut_lower :: "nat \<Rightarrow> ustring"

text \<open>The one contextual mapping: a capital sigma at the end of a word.\<close>

definition final_sigma :: "unicode_tables \<Rightarrow> ustring \<Rightarrow> ustring \<Rightarrow> bool" where
  "final_sigma tb before after =
     ((case find (\<lambda>c. \<not> ut_ignorable tb c) (rev before) of Some c \<Rightarrow> ut_cased tb c | None \<Rightarrow> False) \<and>
      \<not> (case find (\<lambda>c. \<not> ut_ignorable tb c) after of Some c \<Rightarrow> ut_cased tb c | None \<Rightarrow> False))"

fun lowercase_from :: "unicode_tables \<Rightarrow> ustring \<Rightarrow> ustring \<Rightarrow> ustring" where
  "lowercase_from tb before [] = []"
| "lowercase_from tb before (c # cs) =
     ut_lower tb (if c = 931 then (if final_sigma tb before cs then 962 else 963) else c) @
     lowercase_from tb (before @ [c]) cs"

definition lowercase_chars :: "unicode_tables \<Rightarrow> ustring \<Rightarrow> ustring" where
  "lowercase_chars tb s = lowercase_from tb [] s"

definition trim_text :: "ustring \<Rightarrow> ustring" where
  "trim_text s = rev (dropWhile char_is_whitespace (rev (dropWhile char_is_whitespace s)))"

definition char_is_ascii_digit :: "nat \<Rightarrow> bool" where
  "char_is_ascii_digit c \<longleftrightarrow> 48 \<le> c \<and> c \<le> 57"

text \<open>\<open>char_indices().rev().nth(n)\<close> is the character before the last \<open>n\<close>, when there is one.\<close>

definition last_n :: "nat \<Rightarrow> ustring \<Rightarrow> ustring" where
  "last_n n s = (if n < length (rev s) then drop (length s - n) s else s)"

fun apply_transform :: "unicode_tables \<Rightarrow> ustring \<Rightarrow> text_transform \<Rightarrow> ustring" where
  "apply_transform tb s TfLowercase = lowercase_chars tb s"
| "apply_transform tb s TfTrim = trim_text s"
| "apply_transform tb s TfDigitsOnly = filter char_is_ascii_digit s"
| "apply_transform tb s (TfLastN n) = last_n n s"

definition apply_transforms :: "unicode_tables \<Rightarrow> ustring \<Rightarrow> text_transform list \<Rightarrow> ustring" where
  "apply_transforms tb s ts = foldl (apply_transform tb) s ts"

subsection \<open>Index values\<close>

datatype filter_bits = FilterBits nat

fun filter_bits_get :: "filter_bits \<Rightarrow> nat" where
  "filter_bits_get (FilterBits n) = n"

definition filter_bits_default :: filter_bits where
  "filter_bits_default = FilterBits 256"

definition filter_bits_new :: "nat \<Rightarrow> blind_index_error + filter_bits" where
  "filter_bits_new n = (if n = 0 \<or> n > 256 then Err BiFilterBitsOutOfRange else Ok (FilterBits n))"

datatype blind_index_value = BlindIndexValue bytes

fun blind_value_bytes :: "blind_index_value \<Rightarrow> bytes" where
  "blind_value_bytes (BlindIndexValue b) = b"

definition blind_value_hex :: "blind_index_value \<Rightarrow> ustring" where
  "blind_value_hex v = concat (map (\<lambda>b. hex_text 2 (unat b)) (blind_value_bytes v))"

definition blind_ct_eq :: "blind_index_value \<Rightarrow> blind_index_value \<Rightarrow> bool" where
  "blind_ct_eq v w \<longleftrightarrow> blind_value_bytes v = blind_value_bytes w"

definition truncate_tag :: "bytes \<Rightarrow> nat \<Rightarrow> bytes" where
  "truncate_tag tag n =
     (let nbytes = (n + 7) div 8; result = take nbytes tag in
      if n mod 8 \<noteq> 0 then result[nbytes - 1 := and (result ! (nbytes - 1)) (push_bit (8 - n mod 8) (- 1))]
      else result)"

definition blind_compute ::
  "(bytes \<Rightarrow> bytes \<Rightarrow> bytes) \<Rightarrow> sub_key \<Rightarrow> ustring \<Rightarrow> filter_bits \<Rightarrow> blind_index_error + blind_index_value" where
  "blind_compute hmac k text bits =
     (if text = [] then Err BiEmptyPlaintext
      else case k of SubKey key \<Rightarrow>
        Ok (BlindIndexValue (truncate_tag (hmac key (utf8_bytes text)) (filter_bits_get bits))))"

record blind_env =
  be_hmac :: "bytes \<Rightarrow> bytes \<Rightarrow> bytes"
  be_tables :: unicode_tables

record blind_index =
  bi_scope :: index_scope
  bi_transforms :: "text_transform list"
  bi_filter_bits :: filter_bits

definition blind_index_of :: "blind_env \<Rightarrow> blind_index \<Rightarrow> blind_index_key \<Rightarrow> ustring \<Rightarrow> blind_index_error + blind_index_value" where
  "blind_index_of env bi root plaintext =
     (let transformed = apply_transforms (be_tables env) plaintext (bi_transforms bi);
          subkey = derive_subkey (be_hmac env) root (bi_scope bi) in
      blind_compute (be_hmac env) subkey transformed (bi_filter_bits bi))"

fun lookup_previous ::
  "blind_env \<Rightarrow> blind_index \<Rightarrow> ustring \<Rightarrow> blind_index_key list \<Rightarrow> blind_index_value list \<Rightarrow>
   blind_index_error + blind_index_value list" where
  "lookup_previous env bi p [] out = Ok out"
| "lookup_previous env bi p (k # ks) out =
     and_then (blind_index_of env bi k p) (\<lambda>v. lookup_previous env bi p ks (out @ [v]))"

definition lookup_set ::
  "blind_env \<Rightarrow> blind_index \<Rightarrow> blind_index_key \<Rightarrow> blind_index_key list \<Rightarrow> ustring \<Rightarrow>
   blind_index_error + blind_index_value list" where
  "lookup_set env bi current previous p =
     and_then (blind_index_of env bi current p) (\<lambda>v. lookup_previous env bi p previous [v])"

subsection \<open>Associated data and envelopes\<close>

datatype aad_error = AadEmptyDimension | AadInvalidVersion

record protection_aad =
  pa_tenant :: tenant_id
  pa_config_key :: bytes
  pa_field :: bytes
  pa_schema_version :: nat

definition protection_aad_new :: "tenant_id \<Rightarrow> bytes \<Rightarrow> bytes \<Rightarrow> nat \<Rightarrow> aad_error + protection_aad" where
  "protection_aad_new t k f v =
     (if k = [] \<or> f = [] then Err AadEmptyDimension
      else if v = 0 then Err AadInvalidVersion
      else Ok \<lparr>pa_tenant = t, pa_config_key = k, pa_field = f, pa_schema_version = v\<rparr>)"

definition aad_domain_label :: bytes where
  "aad_domain_label = ascii_bytes ''rss-field-protection-aad-v2''"

text \<open>The length of a dimension is written as a \<open>u32\<close>; \<open>be_bytes 4\<close> keeps its low 32 bits.\<close>

definition aad_canonical_bytes :: "protection_aad \<Rightarrow> bytes" where
  "aad_canonical_bytes a =
     foldl (\<lambda>out d. out @ be_bytes 4 (length d) @ d) aad_domain_label
       [tenant_bytes (pa_tenant a), pa_config_key a, pa_field a, be_bytes 4 (pa_schema_version a)]"

datatype protection_context = ProtectionContext protection_aad

definition protection_context_new :: "tenant_id \<Rightarrow> bytes \<Rightarrow> bytes \<Rightarrow> nat \<Rightarrow> aad_error + protection_context" where
  "protection_context_new t k f v = and_then (protection_aad_new t k f v) (\<lambda>a. Ok (ProtectionContext a))"

record derived_aad =
  da_canonical :: bytes
  da_aad :: protection_aad

fun aad_derive :: "protection_context \<Rightarrow> derived_aad" where
  "aad_derive (ProtectionContext a) = \<lparr>da_canonical = aad_canonical_bytes a, da_aad = a\<rparr>"

datatype cipher_alg = Aes256Gcm | Aes256Siv

datatype encryption_mode = RandomizedMode | DeterministicMode

datatype envelope_error = EnvelopeEmptyKeyId | EnvelopeAlgModeMismatch

fun alg_mode_consistent :: "cipher_alg \<Rightarrow> encryption_mode \<Rightarrow> bool" where
  "alg_mode_consistent Aes256Gcm RandomizedMode = True"
| "alg_mode_consistent Aes256Siv DeterministicMode = True"
| "alg_mode_consistent _ _ = False"

definition envelope_version :: nat where
  "envelope_version = 2"

record ciphertext_envelope =
  ce_version :: nat
  ce_alg :: cipher_alg
  ce_mode :: encryption_mode
  ce_kid :: bytes
  ce_key_version :: nat
  ce_nonce :: bytes
  ce_ciphertext :: bytes
  ce_tag :: bytes
  ce_aad :: protection_aad

definition ciphertext_envelope_new ::
  "cipher_alg \<Rightarrow> encryption_mode \<Rightarrow> bytes \<Rightarrow> nat \<Rightarrow> bytes \<Rightarrow> bytes \<Rightarrow> bytes \<Rightarrow> protection_aad \<Rightarrow>
   envelope_error + ciphertext_envelope" where
  "ciphertext_envelope_new alg mode kid version nonce text tag a =
     (if kid = [] then Err EnvelopeEmptyKeyId
      else if \<not> alg_mode_consistent alg mode then Err EnvelopeAlgModeMismatch
      else Ok \<lparr>ce_version = envelope_version, ce_alg = alg, ce_mode = mode, ce_kid = kid, ce_key_version = version,
               ce_nonce = nonce, ce_ciphertext = text, ce_tag = tag, ce_aad = a\<rparr>)"

subsection \<open>Domain separation\<close>

lemma tenant_bytes_eq: "tenant_bytes t = map word_of_nat (hyphenated t)"
proof -
  have "utf8_bytes s = map word_of_nat s" if "\<forall>c \<in> set s. c < 128" for s
    using that by (induction s) (auto simp: utf8_bytes_def utf8_char_def)
  then show ?thesis using hyphenated_ascii by (simp add: tenant_bytes_def tenant_id_display_def)
qed

lemma tenant_bytes_inject [simp]: "tenant_bytes t = tenant_bytes u \<longleftrightarrow> t = u"
proof
  assume "tenant_bytes t = tenant_bytes u"
  moreover have "inj_on (word_of_nat :: nat \<Rightarrow> u8) {c. c < 128}"
    by (auto simp: inj_on_def word_of_nat_eq_iff take_bit_eq_mod)
  ultimately have "hyphenated t = hyphenated u"
    unfolding tenant_bytes_eq by (intro map_inj_on [of word_of_nat "hyphenated t" "hyphenated u"])
      (auto elim: inj_on_subset dest: hyphenated_ascii)
  then show "t = u" by simp
qed simp

lemma tenant_bytes_length [simp]: "length (tenant_bytes t) = 36"
  by (simp add: tenant_bytes_eq hyphenated_def Let_def ut_def)

lemma subkey_message_framed:
  "subkey_message sc = framed 8 [subkey_context, tenant_bytes (ix_tenant sc), ix_domain sc, ix_field sc, ix_name sc]"
  by (simp add: subkey_message_def encode_lp_def be_bytes_u64_def)

lemma aad_canonical_framed:
  "aad_canonical_bytes a =
     aad_domain_label @ framed 4 [tenant_bytes (pa_tenant a), pa_config_key a, pa_field a, be_bytes 4 (pa_schema_version a)]"
  by (simp add: aad_canonical_bytes_def)

text \<open>Domains do not collide: as long as no part is longer than its length field can say, two index
  scopes give the same subkey message only when they are equal, and two sets of coordinates give the
  same associated data only when they are equal. Concatenation can move no byte between tenant,
  domain, field and name.\<close>

theorem protection_domains_separate:
  assumes "list_all (\<lambda>b. length b < 2 ^ 64) [ix_domain s, ix_field s, ix_name s, ix_domain t, ix_field t, ix_name t]"
    and "list_all (\<lambda>b. length b < 2 ^ 32) [pa_config_key a, pa_field a, pa_config_key b, pa_field b]"
    and "pa_schema_version a < 2 ^ 32" and "pa_schema_version b < 2 ^ 32"
  shows "(subkey_message s = subkey_message t \<longleftrightarrow> s = t) \<and> (aad_canonical_bytes a = aad_canonical_bytes b \<longleftrightarrow> a = b)"
proof -
  have p: "(256 :: nat) ^ 4 = 2 ^ 32" "(256 :: nat) ^ 8 = 2 ^ 64" by simp_all
  have "s = t" if "subkey_message s = subkey_message t"
  proof -
    have "[subkey_context, tenant_bytes (ix_tenant s), ix_domain s, ix_field s, ix_name s] =
        [subkey_context, tenant_bytes (ix_tenant t), ix_domain t, ix_field t, ix_name t] \<and> ([] :: bytes) = []"
      by (rule framed_inject [where w = 8])
        (use that assms(1) in \<open>simp_all add: subkey_message_framed subkey_context_def\<close>)
    then show ?thesis by (cases s; cases t) simp
  qed
  moreover have "a = b" if "aad_canonical_bytes a = aad_canonical_bytes b"
  proof -
    have "[tenant_bytes (pa_tenant a), pa_config_key a, pa_field a, be_bytes 4 (pa_schema_version a)] =
        [tenant_bytes (pa_tenant b), pa_config_key b, pa_field b, be_bytes 4 (pa_schema_version b)] \<and> ([] :: bytes) = []"
      by (rule framed_inject [where w = 4]) (use that assms(2) in \<open>simp_all add: aad_canonical_framed\<close>)
    moreover from this have "pa_schema_version a = pa_schema_version b"
      using assms(3,4) by (intro be_bytes_inject [where w = 4]) simp_all
    ultimately show ?thesis by (cases a; cases b) simp
  qed
  ultimately show ?thesis by blast
qed

theorem protection_domains_separate_witness:
  "subkey_message \<lparr>ix_tenant = 1, ix_domain = [1], ix_field = [2, 3], ix_name = [4]\<rparr> \<noteq>
     subkey_message \<lparr>ix_tenant = 1, ix_domain = [1, 2], ix_field = [3], ix_name = [4]\<rparr> \<and>
   aad_canonical_bytes \<lparr>pa_tenant = 1, pa_config_key = [1], pa_field = [2, 3], pa_schema_version = 1\<rparr> \<noteq>
     aad_canonical_bytes \<lparr>pa_tenant = 1, pa_config_key = [1, 2], pa_field = [3], pa_schema_version = 1\<rparr>"
  using protection_domains_separate
    [of "\<lparr>ix_tenant = 1, ix_domain = [1], ix_field = [2, 3], ix_name = [4]\<rparr>"
        "\<lparr>ix_tenant = 1, ix_domain = [1, 2], ix_field = [3], ix_name = [4]\<rparr>"
        "\<lparr>pa_tenant = 1, pa_config_key = [1], pa_field = [2, 3], pa_schema_version = 1\<rparr>"
        "\<lparr>pa_tenant = 1, pa_config_key = [1, 2], pa_field = [3], pa_schema_version = 1\<rparr>"]
  by simp

subsection \<open>Truncation\<close>

text \<open>The bits of a byte string, most significant first.\<close>

definition byte_bits :: "u8 \<Rightarrow> bool list" where
  "byte_bits b = map (bit b) (rev [0..<8])"

definition bits_of :: "bytes \<Rightarrow> bool list" where
  "bits_of bs = concat (map byte_bits bs)"

lemma byte_bits_length [simp]: "length (byte_bits b) = 8"
  by (simp add: byte_bits_def)

lemma bits_of_simps [simp]:
  "bits_of [] = []" "bits_of (b # bs) = byte_bits b @ bits_of bs" "bits_of (xs @ ys) = bits_of xs @ bits_of ys"
  by (simp_all add: bits_of_def)

lemma bits_of_length [simp]: "length (bits_of bs) = 8 * length bs"
  by (induction bs) simp_all

lemma bits_of_take: "bits_of (take n bs) = take (8 * n) (bits_of bs)"
proof (induction bs arbitrary: n)
  case (Cons b bs)
  then show ?case by (cases n) simp_all
qed simp

lemma byte_bits_masked:
  assumes "r \<le> 8"
  shows "byte_bits (and b (push_bit (8 - r) (- 1))) = take r (byte_bits b) @ replicate (8 - r) False"
  using assms
  by (intro nth_equalityI)
    (auto simp: byte_bits_def nth_append rev_nth bit_and_iff bit_not_iff bit_mask_iff min_def)

lemma truncate_tag_bits:
  assumes "0 < n" and "n \<le> 8 * length tag"
  shows "bits_of (truncate_tag tag n) = take n (bits_of tag) @ replicate (8 * ((n + 7) div 8) - n) False"
proof (cases "n mod 8 = 0")
  case True
  then have "8 * ((n + 7) div 8) = n" by (auto elim!: dvdE simp: mod_eq_0_iff_dvd)
  then show ?thesis using True by (simp add: truncate_tag_def bits_of_take)
next
  case False
  define k where "k = n div 8"
  define r where "r = n mod 8"
  have r: "0 < r" "r < 8" "n = 8 * k + r" using False by (simp_all add: k_def r_def)
  moreover have "(8 * k + r + 7) div 8 = Suc k" using r(1,2) by (intro div_nat_eqI) simp_all
  ultimately have r: "0 < r" "r < 8" "n = 8 * k + r" "(n + 7) div 8 = Suc k" by simp_all
  then have k: "k < length tag" using assms(2) by linarith
  have take: "take (Suc k) tag = take k tag @ [tag ! k]" using k by (rule take_Suc_conv_app_nth)
  have "truncate_tag tag n = take k tag @ [and (tag ! k) (push_bit (8 - r) (- 1))]"
    using r k False by (simp add: truncate_tag_def Let_def take r_def [symmetric] list_update_append nth_append)
  moreover have "take n (bits_of tag) = take (8 * k) (bits_of tag) @ take r (byte_bits (tag ! k))"
  proof -
    have "bits_of tag = bits_of (take k tag) @ byte_bits (tag ! k) @ bits_of (drop (Suc k) tag)"
      using arg_cong [OF id_take_nth_drop [OF k], of bits_of] by (simp only: bits_of_simps append.simps)
    then show ?thesis using k r by (simp add: bits_of_take [symmetric])
  qed
  ultimately show ?thesis
    using r byte_bits_masked [of r "tag ! k"] by (simp add: bits_of_take)
qed

text \<open>An index value is the first \<open>filter_bits\<close> bits of the tag and zeros up to the next whole byte: no
  later bit of the tag leaves the function, whatever the tag.\<close>

theorem index_value_truncated:
  assumes "filter_bits_new n = Ok bits" and "\<And>k m. length (hmac k m) = 32"
    and "blind_compute hmac key pt bits = Ok v"
  shows "\<exists>k. key = SubKey k \<and> bits_of (blind_value_bytes v) =
    take n (bits_of (hmac k (utf8_bytes pt))) @ replicate (8 * ((n + 7) div 8) - n) False"
proof -
  obtain k where k: "key = SubKey k" by (cases key)
  have n: "0 < n" "n \<le> 8 * length (hmac k (utf8_bytes pt))" "filter_bits_get bits = n"
    using assms(1,2) by (auto simp: filter_bits_new_def split: if_splits)
  have "blind_value_bytes v = truncate_tag (hmac k (utf8_bytes pt)) n"
    using assms(3) k n(3) by (auto simp: blind_compute_def split: if_splits)
  then show ?thesis using k truncate_tag_bits [OF n(1,2)] by simp
qed

theorem index_value_truncated_witness:
  "bits_of (blind_value_bytes (BlindIndexValue (truncate_tag (replicate 32 255) 3))) =
     [True, True, True, False, False, False, False, False]"
proof -
  have "\<exists>k. SubKey [] = SubKey k \<and> bits_of (blind_value_bytes (BlindIndexValue (truncate_tag (replicate 32 255) 3))) =
      take 3 (bits_of ((\<lambda>_ _. replicate 32 (255 :: u8)) k (utf8_bytes [97]))) @ replicate (8 * ((3 + 7) div 8) - 3) False"
    by (rule index_value_truncated [where bits = "FilterBits 3" and pt = "[97]"]) (simp_all add: filter_bits_new_def blind_compute_def)
  moreover have "take 3 (bits_of (replicate 32 255)) = [True, True, True]"
  proof -
    have "(32 :: nat) = Suc 31" by simp
    then have "bits_of (replicate 32 255) = byte_bits 255 @ bits_of (replicate 31 255)" by (simp only: replicate_Suc bits_of_simps)
    moreover have "byte_bits 255 = replicate 8 True" by code_simp
    ultimately have "take 3 (bits_of (replicate 32 255)) = replicate 3 True" by simp
    then show ?thesis by (simp only: numeral_3_eq_3 replicate.simps)
  qed
  moreover have "replicate 5 False = [False, False, False, False, False]" by code_simp
  ultimately show ?thesis by simp
qed

subsection \<open>Rotation\<close>

lemma lookup_previous_Ok:
  "lookup_previous env bi p ks out = Ok vs \<longleftrightarrow>
     (\<exists>ws. vs = out @ ws \<and> list_all2 (\<lambda>k w. blind_index_of env bi k p = Ok w) ks ws)"
proof (induction ks arbitrary: out)
  case (Cons k ks)
  show ?case
  proof (cases "blind_index_of env bi k p")
    case (Inr v)
    then show ?thesis
      by (auto simp: Cons.IH list_all2_Cons1)
  qed (auto simp: list_all2_Cons1)
qed auto

lemma blind_index_of_error:
  "blind_index_of env bi k p = Err e \<longleftrightarrow>
     e = BiEmptyPlaintext \<and> apply_transforms (be_tables env) p (bi_transforms bi) = []"
  by (auto simp: blind_index_of_def blind_compute_def Let_def split: sub_key.splits)

lemma lookup_set_Ok:
  "apply_transforms (be_tables env) p (bi_transforms bi) \<noteq> [] \<Longrightarrow>
   \<exists>vs. lookup_set env bi current previous p = Ok vs \<and>
     list_all2 (\<lambda>k w. blind_index_of env bi k p = Ok w) (current # previous) vs"
proof -
  assume ne: "apply_transforms (be_tables env) p (bi_transforms bi) \<noteq> []"
  then have ok: "\<exists>w. blind_index_of env bi k p = Ok w" for k
    using blind_index_of_error [of env bi k p] by (cases "blind_index_of env bi k p") auto
  have "\<exists>ws. list_all2 (\<lambda>k w. blind_index_of env bi k p = Ok w) ks ws" for ks
  proof (induction ks)
    case (Cons k ks)
    then obtain ws where "list_all2 (\<lambda>k w. blind_index_of env bi k p = Ok w) ks ws" by blast
    moreover obtain w where "blind_index_of env bi k p = Ok w" using ok by blast
    ultimately show ?case by (intro exI [of _ "w # ws"]) simp
  qed simp
  then obtain ws where ws: "list_all2 (\<lambda>k w. blind_index_of env bi k p = Ok w) previous ws" by blast
  obtain v where v: "blind_index_of env bi current p = Ok v" using ok by blast
  have "lookup_set env bi current previous p = Ok ([v] @ ws)"
    using v ws by (auto simp: lookup_set_def lookup_previous_Ok)
  then show ?thesis using v ws by auto
qed

text \<open>Key rotation loses no row. A value written under any key of the rotation window is in the lookup
  set of every plaintext with the same normal form; the lookup set has one value per key in order,
  and a lookup fails only when the normal form is empty, which no write accepts either.\<close>

theorem rotation_window_finds_rows:
  assumes "blind_index_of env bi written stored = Ok v" and "written \<in> set (current # previous)"
    and "apply_transforms (be_tables env) p (bi_transforms bi) = apply_transforms (be_tables env) stored (bi_transforms bi)"
  shows "\<exists>vs. lookup_set env bi current previous p = Ok vs \<and> v \<in> set vs \<and>
    list_all2 (\<lambda>k w. blind_index_of env bi k p = Ok w) (current # previous) vs"
proof -
  have same: "blind_index_of env bi k p = blind_index_of env bi k stored" for k
    using assms(3) by (simp add: blind_index_of_def)
  have "apply_transforms (be_tables env) p (bi_transforms bi) \<noteq> []"
    using assms(1,3) blind_index_of_error [of env bi written stored] by (auto simp: blind_index_of_def blind_compute_def Let_def)
  from lookup_set_Ok [OF this] obtain vs where vs: "lookup_set env bi current previous p = Ok vs"
    "list_all2 (\<lambda>k w. blind_index_of env bi k p = Ok w) (current # previous) vs" by blast
  obtain i where i: "i < length (current # previous)" "(current # previous) ! i = written"
    using assms(2) unfolding in_set_conv_nth by blast
  then have "vs ! i = v" "i < length vs"
    using list_all2_nthD [OF vs(2) i(1)] list_all2_lengthD [OF vs(2)] assms(1) same by simp_all
  then show ?thesis using vs nth_mem by blast
qed

definition demo_env :: blind_env where
  "demo_env = \<lparr>be_hmac = \<lambda>k m. take 32 (k @ m @ replicate 32 0),
     be_tables = \<lparr>ut_ignorable = \<lambda>_. False, ut_cased = \<lambda>_. False, ut_lower = \<lambda>c. [c]\<rparr>\<rparr>"

definition demo_index :: blind_index where
  "demo_index = \<lparr>bi_scope = \<lparr>ix_tenant = 1, ix_domain = [1], ix_field = [2], ix_name = [3]\<rparr>,
     bi_transforms = [TfDigitsOnly, TfLastN 2], bi_filter_bits = FilterBits 16\<rparr>"

theorem rotation_window_finds_rows_witness:
  "\<exists>v vs. blind_index_of demo_env demo_index (BlindIndexKey [7]) [49, 50, 51] = Ok v \<and>
     lookup_set demo_env demo_index (BlindIndexKey [8]) [BlindIndexKey [7]] [57, 50, 45, 51] = Ok vs \<and> v \<in> set vs"
proof -
  obtain v where v: "blind_index_of demo_env demo_index (BlindIndexKey [7]) [49, 50, 51] = Ok v"
    by (simp add: blind_index_of_def blind_compute_def derive_subkey_def demo_env_def demo_index_def apply_transforms_def
        char_is_ascii_digit_def last_n_def)
  have "\<exists>vs. lookup_set demo_env demo_index (BlindIndexKey [8]) [BlindIndexKey [7]] [57, 50, 45, 51] = Ok vs \<and> v \<in> set vs \<and>
      list_all2 (\<lambda>k w. blind_index_of demo_env demo_index k [57, 50, 45, 51] = Ok w) [BlindIndexKey [8], BlindIndexKey [7]] vs"
    by (rule rotation_window_finds_rows [OF v])
      (simp_all add: demo_env_def demo_index_def apply_transforms_def char_is_ascii_digit_def last_n_def)
  then show ?thesis using v by blast
qed

end
