(* ===== verification/Tracewire.thy ===== *)
theory Tracewire
  imports Rust_Prelude
begin

section \<open>W3C trace context\<close>

text \<open>
  Models \<^verbatim>\<open>crates/tracewire/src/lib.rs\<close>: validation of a \<open>traceparent\<close> value, capture of the current
  context and restoring of a remote parent. Text is a list of bytes. The propagator and the span are
  those of the tracing libraries: injection gives the two header values it writes, extraction tells
  whether the carrier holds a valid context, attaching whether the span took it.
\<close>

datatype trace_parent_error = TraceMalformed | TraceOversized | TraceUnsupportedVersion

definition max_trace_context_bytes :: nat where
  "max_trace_context_bytes = 512"

definition is_lower_hex :: "char \<Rightarrow> bool" where
  "is_lower_hex c \<longleftrightarrow> is_ascii_digit c \<or> 97 \<le> byte_of c \<and> byte_of c \<le> 102"

definition pr_is_ascii_control :: "char \<Rightarrow> bool" where
  "pr_is_ascii_control c \<longleftrightarrow> byte_of c < 32 \<or> byte_of c = 127"

definition byte_slice :: "nat \<Rightarrow> nat \<Rightarrow> string \<Rightarrow> string" where
  "byte_slice i j s = drop i (take j s)"

text \<open>A validated value; \<open>trace_parent_parse\<close> is its only constructor.\<close>

datatype trace_parent = TraceParent string

fun trace_parent_text :: "trace_parent \<Rightarrow> string" where
  "trace_parent_text (TraceParent s) = s"

definition trace_parent_parse :: "string \<Rightarrow> trace_parent_error + trace_parent" where
  "trace_parent_parse s =
     (if length s > max_trace_context_bytes then Err TraceOversized
      else if length s < 55 \<or> \<not> list_all (\<lambda>c. byte_of c < 128) s \<or> list_ex pr_is_ascii_control s
        \<or> s ! 2 \<noteq> CHR ''-'' \<or> s ! 35 \<noteq> CHR ''-'' \<or> s ! 52 \<noteq> CHR ''-'' \<or> \<not> list_all is_lower_hex (take 2 s)
      then Err TraceMalformed
      else if take 2 s = ''ff'' then Err TraceUnsupportedVersion
      else if \<not> list_all is_lower_hex (byte_slice 3 35 s) \<or> list_all (\<lambda>c. c = CHR ''0'') (byte_slice 3 35 s)
        \<or> \<not> list_all is_lower_hex (byte_slice 36 52 s) \<or> list_all (\<lambda>c. c = CHR ''0'') (byte_slice 36 52 s)
        \<or> \<not> list_all is_lower_hex (byte_slice 53 55 s)
      then Err TraceMalformed
      else
        let version_zero = (take 2 s = ''00'') in
        if version_zero \<and> length s \<noteq> 55 \<or> \<not> version_zero \<and> length s > 55 \<and> s ! 55 \<noteq> CHR ''-''
        then Err TraceMalformed
        else Ok (TraceParent s))"

record w3c_trace_context =
  wt_traceparent :: trace_parent
  wt_tracestate :: "string option"

text \<open>\<open>inject\<close> gives the header values the propagator writes for the current span.\<close>

definition capture_current :: "string option \<times> string option \<Rightarrow> w3c_trace_context option" where
  "capture_current inject =
     (case fst inject of
        None \<Rightarrow> None
      | Some p \<Rightarrow>
          (case trace_parent_parse p of
             Inl e \<Rightarrow> None
           | Inr tp \<Rightarrow>
               Some \<lparr>wt_traceparent = tp,
                     wt_tracestate = (case snd inject of
                        Some st \<Rightarrow> if st \<noteq> [] \<and> length st \<le> max_trace_context_bytes then Some st else None
                      | None \<Rightarrow> None)\<rparr>))"

datatype restore_outcome = Restored | RestoreUnavailable

text \<open>\<open>extract\<close> gives the remote context of a carrier when it is valid, \<open>set_parent\<close> attaches it.\<close>

definition restore_remote_parent ::
  "(string \<times> string option \<Rightarrow> 'c option) \<Rightarrow> ('c \<Rightarrow> bool) \<Rightarrow> trace_parent \<Rightarrow> string option \<Rightarrow> restore_outcome" where
  "restore_remote_parent extract set_parent tp state =
     (let kept = (case state of
          Some st \<Rightarrow> if length st \<le> max_trace_context_bytes then Some st else None
        | None \<Rightarrow> None) in
      case extract (trace_parent_text tp, kept) of
        None \<Rightarrow> RestoreUnavailable
      | Some cx \<Rightarrow> if set_parent cx then Restored else RestoreUnavailable)"

subsection \<open>The grammar of the header\<close>

definition hex_id :: "nat \<Rightarrow> string \<Rightarrow> bool" where
  "hex_id n s \<longleftrightarrow> length s = n \<and> list_all is_lower_hex s \<and> \<not> list_all (\<lambda>c. c = CHR ''0'') s"

definition header_parts :: "string \<Rightarrow> string \<Rightarrow> string \<Rightarrow> string \<Rightarrow> string \<Rightarrow> bool" where
  "header_parts version trace span flags suffix \<longleftrightarrow>
     length version = 2 \<and> list_all is_lower_hex version \<and> version \<noteq> ''ff'' \<and>
     hex_id 32 trace \<and> hex_id 16 span \<and> length flags = 2 \<and> list_all is_lower_hex flags \<and>
     list_all (\<lambda>c. byte_of c < 128 \<and> \<not> pr_is_ascii_control c) suffix \<and>
     (suffix = [] \<or> version \<noteq> ''00'' \<and> hd suffix = CHR ''-'') \<and> length suffix \<le> 457"

lemma lower_hex_clean: "is_lower_hex c \<Longrightarrow> byte_of c < 128 \<and> \<not> pr_is_ascii_control c"
  by (auto simp: is_lower_hex_def is_ascii_digit_def pr_is_ascii_control_def)

lemma dash_clean: "byte_of CHR ''-'' < 128 \<and> \<not> pr_is_ascii_control CHR ''-''"
  by (simp add: byte_of_def pr_is_ascii_control_def)

lemma drop_slice:
  assumes "i \<le> j" and "j < length s"
  shows "drop i s = byte_slice i j s @ s ! j # drop (Suc j) s"
proof -
  have "drop i s = take (j - i) (drop i s) @ drop (j - i) (drop i s)" by (simp only: append_take_drop_id)
  also have "drop (j - i) (drop i s) = drop j s" using assms(1) by simp
  also have "drop j s = s ! j # drop (Suc j) s" using assms(2) by (simp add: Cons_nth_drop_Suc)
  finally show ?thesis by (simp add: byte_slice_def drop_take)
qed

lemma header_split:
  assumes "55 \<le> length s" and "s ! 2 = CHR ''-''" and "s ! 35 = CHR ''-''" and "s ! 52 = CHR ''-''"
  shows "s = take 2 s @ [CHR ''-''] @ byte_slice 3 35 s @ [CHR ''-''] @ byte_slice 36 52 s @ [CHR ''-''] @ byte_slice 53 55 s @ drop 55 s"
proof -
  have "drop 53 s = take 2 (drop 53 s) @ drop 55 s" using append_take_drop_id [of 2 "drop 53 s"] by simp
  then have tl: "drop 53 s = byte_slice 53 55 s @ drop 55 s" by (simp add: byte_slice_def drop_take)
  have "drop 0 s = byte_slice 0 2 s @ s ! 2 # drop 3 s" "drop 3 s = byte_slice 3 35 s @ s ! 35 # drop 36 s"
    "drop 36 s = byte_slice 36 52 s @ s ! 52 # drop 53 s"
    using drop_slice [of 0 2 s] drop_slice [of 3 35 s] drop_slice [of 36 52 s] assms(1) by simp_all
  then show ?thesis using tl assms(2-4) by (simp add: byte_slice_def)
qed

lemma slices_of_parts:
  assumes "length v = 2" and "length t = 32" and "length p = 16" and "length f = 2"
    and s: "s = v @ [CHR ''-''] @ t @ [CHR ''-''] @ p @ [CHR ''-''] @ f @ x"
  shows "take 2 s = v" "byte_slice 3 35 s = t" "byte_slice 36 52 s = p" "byte_slice 53 55 s = f" "drop 55 s = x"
    and "s ! 2 = CHR ''-''" "s ! 35 = CHR ''-''" "s ! 52 = CHR ''-''" "length s = 55 + length x"
  using assms(1-4) by (simp_all add: s byte_slice_def nth_append)

text \<open>A value is accepted exactly when it is a version, a trace identifier, a span identifier and flags in
  lower-case hexadecimal with nonzero identifiers, separated by dashes, at most 512 bytes long; version
  00 has nothing after the flags, ff is refused, and a later version may carry further printable text
  after another dash. The accepted value is the input unchanged.\<close>

theorem trace_parent_grammar:
  "trace_parent_parse s = Ok tp \<longleftrightarrow>
     tp = TraceParent s \<and>
     (\<exists>v t p f x. header_parts v t p f x \<and> s = v @ ''-'' @ t @ ''-'' @ p @ ''-'' @ f @ x)"
proof
  assume ok: "trace_parent_parse s = Ok tp"
  then have c: "length s \<le> 512" "55 \<le> length s" "list_all (\<lambda>c. byte_of c < 128) s" "\<not> list_ex pr_is_ascii_control s"
      "s ! 2 = CHR ''-''" "s ! 35 = CHR ''-''" "s ! 52 = CHR ''-''" "list_all is_lower_hex (take 2 s)" "take 2 s \<noteq> ''ff''"
      "list_all is_lower_hex (byte_slice 3 35 s)" "\<not> list_all (\<lambda>c. c = CHR ''0'') (byte_slice 3 35 s)"
      "list_all is_lower_hex (byte_slice 36 52 s)" "\<not> list_all (\<lambda>c. c = CHR ''0'') (byte_slice 36 52 s)"
      "list_all is_lower_hex (byte_slice 53 55 s)" "tp = TraceParent s"
      "take 2 s = ''00'' \<longrightarrow> length s = 55" "take 2 s \<noteq> ''00'' \<and> length s > 55 \<longrightarrow> s ! 55 = CHR ''-''"
    by (auto simp: trace_parent_parse_def max_trace_context_bytes_def Let_def not_le not_less split: if_splits)
  have suffix: "drop 55 s = [] \<or> take 2 s \<noteq> ''00'' \<and> hd (drop 55 s) = CHR ''-''"
    using c(2,16,17) by (cases "length s = 55") (auto simp: hd_drop_conv_nth)
  have "list_all (\<lambda>c. byte_of c < 128 \<and> \<not> pr_is_ascii_control c) (drop 55 s)"
    using c(3,4) by (auto simp: list_all_iff list_ex_iff dest: in_set_dropD)
  then have "header_parts (take 2 s) (byte_slice 3 35 s) (byte_slice 36 52 s) (byte_slice 53 55 s) (drop 55 s)"
    using c suffix by (simp add: header_parts_def hex_id_def byte_slice_def)
  then show "tp = TraceParent s \<and> (\<exists>v t p f x. header_parts v t p f x \<and> s = v @ ''-'' @ t @ ''-'' @ p @ ''-'' @ f @ x)"
    using header_split [OF c(2,5-7)] c(15) by blast
next
  assume "tp = TraceParent s \<and> (\<exists>v t p f x. header_parts v t p f x \<and> s = v @ ''-'' @ t @ ''-'' @ p @ ''-'' @ f @ x)"
  then obtain v t p f x where tp: "tp = TraceParent s" and h: "header_parts v t p f x"
    and s: "s = v @ ''-'' @ t @ ''-'' @ p @ ''-'' @ f @ x" by blast
  have l: "length v = 2" "length t = 32" "length p = 16" "length f = 2" using h by (simp_all add: header_parts_def hex_id_def)
  note parts = slices_of_parts [OF l s]
  have "list_all (\<lambda>c. byte_of c < 128 \<and> \<not> pr_is_ascii_control c) s"
    using h lower_hex_clean dash_clean by (auto simp: s header_parts_def hex_id_def list_all_iff)
  then have clean: "list_all (\<lambda>c. byte_of c < 128) s" "\<not> list_ex pr_is_ascii_control s"
    by (auto simp: list_all_iff list_ex_iff)
  have nth: "55 < length s \<longrightarrow> s ! 55 = hd x"
    using parts(5) hd_drop_conv_nth [of 55 s] by simp
  show "trace_parent_parse s = Ok tp"
    using h clean parts nth
    by (auto simp: trace_parent_parse_def max_trace_context_bytes_def header_parts_def hex_id_def Let_def tp)
qed

text \<open>Whatever the propagator writes, a captured context holds a valid parent and a bounded state.\<close>

lemma captured_context_valid:
  assumes "capture_current inject = Some cx"
  shows "trace_parent_parse (trace_parent_text (wt_traceparent cx)) = Ok (wt_traceparent cx) \<and>
    (case wt_tracestate cx of Some st \<Rightarrow> st \<noteq> [] \<and> length st \<le> 512 | None \<Rightarrow> True)"
proof -
  obtain p where p: "trace_parent_parse p = Ok (wt_traceparent cx)"
    and st: "wt_tracestate cx = (case snd inject of
        Some st \<Rightarrow> if st \<noteq> [] \<and> length st \<le> 512 then Some st else None | None \<Rightarrow> None)"
    using assms by (auto simp: capture_current_def max_trace_context_bytes_def split: option.splits sum.splits)
  have "wt_traceparent cx = TraceParent p"
    using p by (auto simp: trace_parent_parse_def Let_def split: if_splits)
  then show ?thesis using p st by (auto split: option.splits if_splits)
qed

end
