(* ===== verification/Recovery_Completion.thy ===== *)
theory Recovery_Completion
  imports Request_Tree Messaging_Policy
begin

section \<open>Bounded execution with readback\<close>

text \<open>
  Models \<^verbatim>\<open>LocalTxAttempt\<close> of \<^verbatim>\<open>crates/transactional-messaging/src/transaction.rs\<close>, the deadline
  combinator \<open>within\<close> of \<^verbatim>\<open>policy.rs\<close> around code of several awaits, and
  \<^verbatim>\<open>crates/transactional-messaging-recovery/src/completion.rs\<close>, the one owner of bounded
  execution, receipt readback and observation. The clock, the ports and the observer are requests of
  a tree; a deadline may fire before every step of the code it bounds.
\<close>

datatype ('t, 'e) local_tx_attempt =
  LtCommitted 't | LtNotStarted 'e | LtRolledBack 'e | LtRollbackFailed 'e | LtCommitUnknown 'e | LtFenced 'e

fun attempt_fold ::
  "('t, 'e) local_tx_attempt \<Rightarrow> ('t \<Rightarrow> 'x) \<Rightarrow> ('e \<Rightarrow> 'x) \<Rightarrow> ('e \<Rightarrow> 'x) \<Rightarrow> ('e \<Rightarrow> 'x) \<Rightarrow> ('e \<Rightarrow> 'x) \<Rightarrow> ('e \<Rightarrow> 'x) \<Rightarrow> 'x" where
  "attempt_fold (LtCommitted v) c n r f u x = c v"
| "attempt_fold (LtNotStarted e) c n r f u x = n e"
| "attempt_fold (LtRolledBack e) c n r f u x = r e"
| "attempt_fold (LtRollbackFailed e) c n r f u x = f e"
| "attempt_fold (LtCommitUnknown e) c n r f u x = u e"
| "attempt_fold (LtFenced e) c n r f u x = x e"

datatype attempt_status =
  AsCommitted | AsNotStarted | AsRolledBack | AsRollbackFailed | AsCommitUnknown | AsFenced

datatype ('q, 'o) bounded_request =
  ClockNow | Port 'q | Observe 'o

datatype 'r bounded_reply = NowIs instant | PortReply 'r

type_synonym ('q, 'o, 'r, 'a) bounded_task = "(('q, 'o) bounded_request, 'r bounded_reply, 'a) task"
type_synonym ('q, 'o, 'r) bounded_event = "(('q, 'o) bounded_request, 'r bounded_reply) task_event"

definition ask_now :: "(instant \<Rightarrow> ('q, 'o, 'r, 'a) bounded_task) \<Rightarrow> ('q, 'o, 'r, 'a) bounded_task" where
  "ask_now k = ask ClockNow (\<lambda>r. case r of NowIs t \<Rightarrow> k t | PortReply _ \<Rightarrow> Never)"

text \<open>A call of a port; \<open>answer\<close> reads the replies of the type the port returns.\<close>

definition call_port ::
  "'q \<Rightarrow> ('r \<Rightarrow> 'x option) \<Rightarrow> ('x \<Rightarrow> ('q, 'o, 'r, 'a) bounded_task) \<Rightarrow> ('q, 'o, 'r, 'a) bounded_task" where
  "call_port q answer k =
     ask (Port q) (\<lambda>r. case r of
       NowIs _ \<Rightarrow> Never | PortReply x \<Rightarrow> (case answer x of Some a \<Rightarrow> k a | None \<Rightarrow> Never))"

text \<open>
  The body of \<open>within\<close>: the deadline is polled before the operation, so it may fire at every step,
  also when the operation is ready; the dropped operation leaves what it has issued. \<open>s\<close> is what the
  closures share, followed along the events.
\<close>

primrec timed :: "(('q, 'r) task_event \<Rightarrow> 's \<Rightarrow> 's) \<Rightarrow> ('q, 'r, 'a) task \<Rightarrow> 's \<Rightarrow> ('q, 'r, 's \<times> 'a option) task" where
  "timed track (Done a) = (\<lambda>s. Fork (\<lambda>fired. if fired then Done (s, None) else Done (s, Some a)))"
| "timed track Never = (\<lambda>s. Done (s, None))"
| "timed track (Fork k) = (\<lambda>s. Fork (\<lambda>fired. if fired then Done (s, None) else Fork (\<lambda>x. timed track (k x) s)))"
| "timed track (Issue q t) = (\<lambda>s. Fork (\<lambda>fired.
     if fired then Done (s, None) else Issue q (timed track t (track (Issued q) s))))"
| "timed track (Await q k) = (\<lambda>s. Fork (\<lambda>fired.
     if fired then Done (s, None) else Await q (\<lambda>r. timed track (k r) (track (Answered q r) s))))"

definition within_task ::
  "(('q, 'o, 'r) bounded_event \<Rightarrow> 's \<Rightarrow> 's) \<Rightarrow> 's \<Rightarrow> deadline \<Rightarrow> (duration \<Rightarrow> ('q, 'o, 'r, 'a) bounded_task)
     \<Rightarrow> ('q, 'o, 'r, 's \<times> 'a option) bounded_task" where
  "within_task track s dl start =
     ask_now (\<lambda>now.
       let budget = from_cutoff dl now in
       if budget = 0 then Done (s, None) else timed track (start budget) s)"

subsection \<open>Execution\<close>

definition observe_attempt ::
  "(attempt_status \<Rightarrow> 't option \<Rightarrow> 'e option \<Rightarrow> 'o) \<Rightarrow> ('t, 'e) local_tx_attempt
     \<Rightarrow> ('q, 'o, 'r, ('t, 'e) local_tx_attempt) bounded_task" where
  "observe_attempt observe attempt =
     attempt_fold attempt
       (\<lambda>v. Issue (Observe (observe AsCommitted (Some v) None)) (Done (LtCommitted v)))
       (\<lambda>e. Issue (Observe (observe AsNotStarted None (Some e))) (Done (LtNotStarted e)))
       (\<lambda>e. Issue (Observe (observe AsRolledBack None (Some e))) (Done (LtRolledBack e)))
       (\<lambda>e. Issue (Observe (observe AsRollbackFailed None (Some e))) (Done (LtRollbackFailed e)))
       (\<lambda>e. Issue (Observe (observe AsCommitUnknown None (Some e))) (Done (LtCommitUnknown e)))
       (\<lambda>e. Issue (Observe (observe AsFenced None (Some e))) (Done (LtFenced e)))"

definition completion_apply ::
  "(('q, 'o, 'r) bounded_event \<Rightarrow> 's \<Rightarrow> 's) \<Rightarrow> 's \<Rightarrow> execution_deadlines \<Rightarrow> 'e
     \<Rightarrow> (duration \<Rightarrow> ('q, 'o, 'r, ('t, 'e) local_tx_attempt) bounded_task)
     \<Rightarrow> ('q, 'o, 'r, 's \<times> ('t, 'e) local_tx_attempt) bounded_task" where
  "completion_apply track s deadlines expired apply =
     ask_now (\<lambda>now.
       if remaining_or_zero (ed_operation deadlines) now = 0 then Done (s, LtNotStarted expired)
       else bind_task (within_task track s (ed_operation deadlines) apply) (\<lambda>(s, r).
         case r of Some attempt \<Rightarrow> Done (s, attempt) | None \<Rightarrow> Done (s, LtCommitUnknown expired)))"

definition completion_readback ::
  "execution_deadlines \<Rightarrow> (duration \<Rightarrow> ('q, 'o, 'r, 'e + 't option) bounded_task)
     \<Rightarrow> ('t, 'e) local_tx_attempt \<Rightarrow> ('q, 'o, 'r, ('t, 'e) local_tx_attempt) bounded_task" where
  "completion_readback deadlines readback attempt =
     (let (unknown, attempt) =
        attempt_fold attempt
          (\<lambda>v. (False, LtCommitted v)) (\<lambda>e. (False, LtNotStarted e)) (\<lambda>e. (False, LtRolledBack e))
          (\<lambda>e. (False, LtRollbackFailed e)) (\<lambda>e. (True, LtCommitUnknown e)) (\<lambda>e. (False, LtFenced e)) in
      if unknown then
        bind_task (within_task (\<lambda>_ s. s) () (ed_settlement deadlines) readback) (\<lambda>(_, r).
          case r of Some (Inr (Some receipt)) \<Rightarrow> Done (LtCommitted receipt) | _ \<Rightarrow> Done attempt)
      else Done attempt)"

definition completion_execute ::
  "(('q, 'o, 'r) bounded_event \<Rightarrow> 's \<Rightarrow> 's) \<Rightarrow> 's \<Rightarrow> execution_deadlines \<Rightarrow> 'e
     \<Rightarrow> (duration \<Rightarrow> ('q, 'o, 'r, ('t, 'e) local_tx_attempt) bounded_task)
     \<Rightarrow> ('s \<Rightarrow> duration \<Rightarrow> ('q, 'o, 'r, 'e + 't option) bounded_task)
     \<Rightarrow> (attempt_status \<Rightarrow> 't option \<Rightarrow> 'e option \<Rightarrow> 'o)
     \<Rightarrow> ('q, 'o, 'r, ('t, 'e) local_tx_attempt) bounded_task" where
  "completion_execute track s deadlines expired apply readback observe =
     bind_task (completion_apply track s deadlines expired apply) (\<lambda>(s, attempt).
       bind_task (completion_readback deadlines (readback s) attempt) (observe_attempt observe))"

section \<open>Theorems\<close>

subsection \<open>Logs of events\<close>

definition keep_log :: "'x \<Rightarrow> 'x list \<Rightarrow> 'x list" where
  "keep_log e l = l @ [e]"

lemma fold_keep_log [simp]: "fold keep_log es l = l @ es"
  by (induction es arbitrary: l) (simp_all add: keep_log_def)

text \<open>The log only grows, so what it starts with is a fact about the whole run.\<close>

lemma ensures_timed:
  assumes "ensures ok obs I t l R" and "F s l"
    and track: "\<And>e s l. F s l \<Longrightarrow> F (track e s) (obs e l)"
    and fired: "\<And>s l. I l \<Longrightarrow> F s l \<Longrightarrow> Q (s, None) l"
    and ended: "\<And>a s l. R a l \<Longrightarrow> F s l \<Longrightarrow> I l \<and> Q (s, Some a) l"
  shows "ensures ok obs I (timed track t s) l Q"
  using assms(1,2)
proof (induction t arbitrary: l s)
  case (Done a)
  then show ?case using ended fired by auto
next
  case Never
  then show ?case by simp
next
  case (Fork k)
  then show ?case using fired by auto
next
  case (Issue q t)
  then show ?case using fired track by auto
next
  case (Await q k)
  then show ?case using fired track by fastforce
qed

text \<open>A timed flow ends even when the operation never does.\<close>

lemma ensures_timed_Never [simp]: "ensures ok obs I (timed track Never s) l Q \<longleftrightarrow> Q (s, None) l"
  by simp

fun attempt_status_of :: "('t, 'e) local_tx_attempt \<Rightarrow> attempt_status" where
  "attempt_status_of (LtCommitted v) = AsCommitted"
| "attempt_status_of (LtNotStarted e) = AsNotStarted"
| "attempt_status_of (LtRolledBack e) = AsRolledBack"
| "attempt_status_of (LtRollbackFailed e) = AsRollbackFailed"
| "attempt_status_of (LtCommitUnknown e) = AsCommitUnknown"
| "attempt_status_of (LtFenced e) = AsFenced"

fun attempt_value :: "('t, 'e) local_tx_attempt \<Rightarrow> 't option" where
  "attempt_value (LtCommitted v) = Some v"
| "attempt_value _ = None"

fun attempt_error :: "('t, 'e) local_tx_attempt \<Rightarrow> 'e option" where
  "attempt_error (LtCommitted v) = None"
| "attempt_error (LtNotStarted e) = Some e"
| "attempt_error (LtRolledBack e) = Some e"
| "attempt_error (LtRollbackFailed e) = Some e"
| "attempt_error (LtCommitUnknown e) = Some e"
| "attempt_error (LtFenced e) = Some e"

definition attempt_observed ::
  "(attempt_status \<Rightarrow> 't option \<Rightarrow> 'e option \<Rightarrow> 'o) \<Rightarrow> ('t, 'e) local_tx_attempt \<Rightarrow> ('q, 'o) bounded_request" where
  "attempt_observed observe a = Observe (observe (attempt_status_of a) (attempt_value a) (attempt_error a))"

lemma observe_attempt_eq: "observe_attempt observe a = Issue (attempt_observed observe a) (Done a)"
  by (cases a) (simp_all add: observe_attempt_def attempt_observed_def)

fun event_request :: "('q, 'r) task_event \<Rightarrow> 'q" where
  "event_request (Issued q) = q"
| "event_request (Answered q r) = q"

fun is_observation :: "('q, 'o) bounded_request \<Rightarrow> bool" where
  "is_observation (Observe obs) = True"
| "is_observation _ = False"

text \<open>No event of the log satisfies \<open>P\<close>.\<close>

definition silent :: "('q \<Rightarrow> bool) \<Rightarrow> ('q, 'r) task_event list \<Rightarrow> bool" where
  "silent P l \<longleftrightarrow> list_all (\<lambda>e. \<not> P (event_request e)) l"

lemma silent_simps [simp]:
  "silent P []" "silent P (xs @ ys) \<longleftrightarrow> silent P xs \<and> silent P ys"
  "silent P (keep_log e l) \<longleftrightarrow> silent P l \<and> \<not> P (event_request e)"
  by (auto simp: silent_def keep_log_def)

text \<open>
  The evidence behind an attempt that \<open>execute\<close> returns. \<open>claims a l\<close> says that the log holds the
  port's own answer \<open>a\<close>, \<open>reads v l\<close> that it holds a receipt read back; \<open>early l\<close> holds before the
  operation is called and \<open>unread l\<close> until the readback is.
\<close>

definition attempt_evidence ::
  "(('t, 'e) local_tx_attempt \<Rightarrow> 'l \<Rightarrow> bool) \<Rightarrow> ('t \<Rightarrow> 'l \<Rightarrow> bool) \<Rightarrow> ('l \<Rightarrow> bool) \<Rightarrow> ('l \<Rightarrow> bool) \<Rightarrow> 'e
     \<Rightarrow> ('t, 'e) local_tx_attempt \<Rightarrow> 'l \<Rightarrow> bool" where
  "attempt_evidence claims reads early unread expired a l \<longleftrightarrow>
     (case a of
        LtCommitted v \<Rightarrow> claims a l \<and> unread l \<or> reads v l
      | LtNotStarted e \<Rightarrow> unread l \<and> (claims a l \<or> e = expired \<and> early l)
      | LtCommitUnknown e \<Rightarrow> claims a l \<or> e = expired
      | _ \<Rightarrow> claims a l \<and> unread l)"

subsection \<open>The contract of an execution\<close>

text \<open>
  What a client of \<open>execute\<close> supplies: replies of the clock fit, \<open>apply\<close> and \<open>readback\<close> return and
  emit no observation, and evidence is never lost. \<open>sound\<close> is what the client keeps true of the log,
  \<open>shared\<close> relates the log to what the two closures share.
\<close>

locale bounded_operation =
  fixes ok :: "('q, 'o) bounded_request \<Rightarrow> 'r bounded_reply \<Rightarrow> bool"
    and apply_task :: "duration \<Rightarrow> ('q, 'o, 'r, ('t, 'e) local_tx_attempt) bounded_task"
    and readback_task :: "'s \<Rightarrow> duration \<Rightarrow> ('q, 'o, 'r, 'e + 't option) bounded_task"
    and track :: "('q, 'o, 'r) bounded_event \<Rightarrow> 's \<Rightarrow> 's"
    and start :: 's
    and shared :: "'s \<Rightarrow> ('q, 'o, 'r) bounded_event list \<Rightarrow> bool"
    and early :: "('q, 'o, 'r) bounded_event list \<Rightarrow> bool"
    and unread :: "('q, 'o, 'r) bounded_event list \<Rightarrow> bool"
    and sound :: "('q, 'o, 'r) bounded_event list \<Rightarrow> bool"
    and claims :: "('t, 'e) local_tx_attempt \<Rightarrow> ('q, 'o, 'r) bounded_event list \<Rightarrow> bool"
    and reads :: "'t \<Rightarrow> ('q, 'o, 'r) bounded_event list \<Rightarrow> bool"
  assumes clock: "ok ClockNow (NowIs n) \<and> \<not> ok ClockNow (PortReply x)"
    and begins: "shared start [] \<and> early [] \<and> unread [] \<and> sound []"
    and clock_events: "e = Issued ClockNow \<or> (\<exists>n. e = Answered ClockNow (NowIs n)) \<Longrightarrow>
      (shared s (keep_log e l) \<longleftrightarrow> shared s l) \<and> (early (keep_log e l) \<longleftrightarrow> early l) \<and>
      (unread (keep_log e l) \<longleftrightarrow> unread l) \<and> (sound (keep_log e l) \<longleftrightarrow> sound l)"
    and follows: "shared s l \<Longrightarrow> shared (track e s) (keep_log e l)"
    and applies: "early l \<Longrightarrow> unread l \<Longrightarrow> sound l \<Longrightarrow> silent is_observation l \<Longrightarrow>
      ensures ok keep_log (\<lambda>l. unread l \<and> sound l \<and> silent is_observation l) (apply_task d) l
        (\<lambda>a l. unread l \<and> sound l \<and> silent is_observation l \<and> claims a l)"
    and reads_back: "shared s l \<Longrightarrow> unread l \<Longrightarrow> sound l \<Longrightarrow> silent is_observation l \<Longrightarrow>
      ensures ok keep_log (\<lambda>l. sound l \<and> silent is_observation l) (readback_task s d) l
        (\<lambda>r l. sound l \<and> silent is_observation l \<and> (\<forall>v. r = Inr (Some v) \<longrightarrow> reads v l))"
    and kept: "claims a l \<Longrightarrow> claims a (keep_log e l)"
begin

lemma clock_step:
  assumes "\<And>n. ensures ok keep_log I (k n) (l @ [Issued ClockNow, Answered ClockNow (NowIs n)]) Q"
    and "I l" and "I (keep_log (Issued ClockNow) l)"
  shows "ensures ok keep_log I (ask_now k) l Q"
  unfolding ask_now_def
  using assms clock by (auto intro!: ensures_ask simp: keep_log_def split: bounded_reply.split)

lemma clock_pair:
  "shared s (l @ [Issued ClockNow, Answered ClockNow (NowIs n)]) \<longleftrightarrow> shared s l"
  "early (l @ [Issued ClockNow, Answered ClockNow (NowIs n)]) \<longleftrightarrow> early l"
  "unread (l @ [Issued ClockNow, Answered ClockNow (NowIs n)]) \<longleftrightarrow> unread l"
  "sound (l @ [Issued ClockNow, Answered ClockNow (NowIs n)]) \<longleftrightarrow> sound l"
  using clock_events [of "Answered ClockNow (NowIs n)" _ "keep_log (Issued ClockNow) l"]
    clock_events [of "Issued ClockNow" _ l]
  by (auto simp: keep_log_def)

lemma clock_one:
  "early (keep_log (Issued ClockNow) l) \<longleftrightarrow> early l" "unread (keep_log (Issued ClockNow) l) \<longleftrightarrow> unread l"
  "sound (keep_log (Issued ClockNow) l) \<longleftrightarrow> sound l"
  using clock_events [of "Issued ClockNow" _ l] by auto

lemma silent_clock [simp]:
  "silent is_observation [Issued ClockNow, Answered ClockNow r]"
  by (simp add: silent_def)

lemmas clock_logs = clock_pair clock_one

abbreviation calm :: "('q, 'o, 'r) bounded_event list \<Rightarrow> bool" where
  "calm l \<equiv> unread l \<and> sound l \<and> silent is_observation l"

lemma within_ensures:
  assumes "I l" and "I (keep_log (Issued ClockNow) l)"
    and "\<And>n. Q (s, None) (l @ [Issued ClockNow, Answered ClockNow (NowIs n)])"
    and "\<And>n d. ensures ok keep_log I (timed f (t d) s) (l @ [Issued ClockNow, Answered ClockNow (NowIs n)]) Q"
  shows "ensures ok keep_log I (within_task f s dl t) l Q"
  unfolding within_task_def using assms by (intro clock_step) (simp_all add: Let_def)

lemma completion_apply_ensures:
  "ensures ok keep_log calm (completion_apply track start deadlines expired apply_task) []
     (\<lambda>(s, a) l. calm l \<and> shared s l \<and> (claims a l \<or> a = LtNotStarted expired \<and> early l \<or> a = LtCommitUnknown expired))"
proof -
  let ?R = "\<lambda>(s, r) l. calm l \<and> shared s l \<and> (\<forall>a. r = Some a \<longrightarrow> claims a l)"
  have timed: "ensures ok keep_log calm (timed track (apply_task d) s) l ?R" if "shared s l" "early l" "calm l" for s l d
    using that by (intro ensures_timed [OF applies, where F = shared]) (simp_all add: follows)
  have within: "ensures ok keep_log calm (within_task track s dl apply_task) l ?R"
    if "shared s l" "early l" "calm l" for s dl l
    by (rule within_ensures; (rule timed)?) (use that in \<open>simp_all add: clock_logs\<close>)
  let ?S = "\<lambda>(s, a) l. calm l \<and> shared s l \<and> (claims a l \<or> a = LtNotStarted expired \<and> early l \<or> a = LtCommitUnknown expired)"
  have start: "shared start [Issued ClockNow, Answered ClockNow (NowIs n)] \<and> early [Issued ClockNow, Answered ClockNow (NowIs n)] \<and>
      calm [Issued ClockNow, Answered ClockNow (NowIs n)]" for n
    using begins clock_pair [where l = "[]" and n = n] by simp
  then have "ensures ok keep_log calm
      (bind_task (within_task track start (ed_operation deadlines) apply_task) (\<lambda>(s, r).
         case r of Some attempt \<Rightarrow> Done (s, attempt) | None \<Rightarrow> Done (s, LtCommitUnknown expired)))
      [Issued ClockNow, Answered ClockNow (NowIs n)] ?S" for n
    by (intro ensures_bind [OF within]) (auto split: option.split)
  with start show ?thesis
    unfolding completion_apply_def
    using begins by (intro clock_step) (simp_all add: clock_logs)
qed

lemma ensures_kept:
  assumes "ensures ok keep_log I t l Q" and "claims a l \<or> c"
  shows "ensures ok keep_log (\<lambda>l. I l \<and> (claims a l \<or> c)) t l (\<lambda>x l. Q x l \<and> (claims a l \<or> c))"
  using assms
proof (induction t arbitrary: l)
  case (Issue q t)
  then have "claims a (keep_log (Issued q) l) \<or> c" using kept by blast
  with Issue show ?case by auto
next
  case (Await q k)
  then have "claims a (keep_log (Answered q r) l) \<or> c" for r using kept by blast
  with Await show ?case by auto
qed auto

lemma completion_readback_ensures:
  assumes "calm l" and "shared s l" and "claims a l \<or> a = LtNotStarted expired \<and> early l \<or> a = LtCommitUnknown expired"
  shows "ensures ok keep_log (\<lambda>l. sound l \<and> silent is_observation l) (completion_readback deadlines (readback_task s) a) l
     (\<lambda>a l. sound l \<and> silent is_observation l \<and> attempt_evidence claims reads early unread expired a l)"
proof (cases a)
  case (LtCommitUnknown e)
  let ?I = "\<lambda>l. sound l \<and> silent is_observation l"
  let ?c = "a = LtCommitUnknown expired"
  let ?J = "\<lambda>l. ?I l \<and> (claims a l \<or> ?c)"
  let ?Q = "\<lambda>(_ :: unit, r) l. ?J l \<and> (\<forall>v. r = Some (Inr (Some v)) \<longrightarrow> reads v l)"
  have timed: "ensures ok keep_log ?J (timed (\<lambda>_ s. s) (readback_task s d) ()) l ?Q"
    if "shared s l" "calm l" "claims a l \<or> ?c" for d l
    by (rule ensures_timed [OF ensures_kept [OF reads_back], where F = "\<lambda>_ _. True"]) (use that in auto)
  have c: "claims a l \<or> ?c" using assms(3) LtCommitUnknown by simp
  then have "claims a (keep_log (Issued ClockNow) l) \<or> ?c" using kept by blast
  moreover from this have "claims a (l @ [Issued ClockNow, Answered ClockNow (NowIs n)]) \<or> ?c" for n
    using kept [where l = "keep_log (Issued ClockNow) l" and e = "Answered ClockNow (NowIs n)"] by (auto simp: keep_log_def)
  ultimately have "ensures ok keep_log ?J (within_task (\<lambda>_ s. s) () dl (readback_task s)) l ?Q" for dl
    using assms(1,2) c by (intro within_ensures timed) (simp_all add: clock_logs)
  from ensures_bind [OF this] have "ensures ok keep_log ?I
      (bind_task (within_task (\<lambda>_ s. s) () (ed_settlement deadlines) (readback_task s)) (\<lambda>(_, r).
        case r of Some (Inr (Some receipt)) \<Rightarrow> Done (LtCommitted receipt) | _ \<Rightarrow> Done a)) l
      (\<lambda>a l. ?I l \<and> attempt_evidence claims reads early unread expired a l)"
    by (rule meta_mp) (auto simp: attempt_evidence_def LtCommitUnknown split: option.split sum.split)
  then show ?thesis unfolding LtCommitUnknown completion_readback_def by simp
qed (use assms in \<open>auto simp: completion_readback_def attempt_evidence_def\<close>)

theorem settles:
  "ensures ok keep_log (\<lambda>l. True) (completion_execute track start deadlines expired apply_task readback_task observe) []
     (\<lambda>a l. \<exists>l'. l = l' @ [Issued (attempt_observed observe a)] \<and> silent is_observation l' \<and> sound l' \<and> attempt_evidence claims reads early unread expired a l')"
  unfolding completion_execute_def
proof (rule ensures_bind [OF completion_apply_ensures], simp, clarify)
  fix s a l
  assume l: "unread l" "sound l" "silent is_observation l" "shared s l"
    "claims a l \<or> a = LtNotStarted expired \<and> early l \<or> a = LtCommitUnknown expired"
  show "ensures ok keep_log (\<lambda>l. True) (bind_task (completion_readback deadlines (readback_task s) a) (observe_attempt observe)) l
     (\<lambda>a l. \<exists>l'. l = l' @ [Issued (attempt_observed observe a)] \<and> silent is_observation l' \<and> sound l' \<and>
       attempt_evidence claims reads early unread expired a l')"
    by (rule ensures_bind [OF completion_readback_ensures])
      (use l in \<open>auto simp: observe_attempt_eq keep_log_def\<close>)
qed

lemma run_settles:
  assumes "\<And>x w. ok x (fst (te_answer env x w))"
    and "run_task env (completion_execute track start deadlines expired apply_task readback_task observe) w = (es, r, w')"
  shows "\<exists>a l. r = Some a \<and> es = l @ [Issued (attempt_observed observe a)] \<and> silent is_observation l \<and> sound l \<and>
    attempt_evidence claims reads early unread expired a l"
  using ensures_run [OF settles assms] by auto

end

subsection \<open>Operations of one call\<close>

text \<open>
  An operation whose \<open>apply\<close> and \<open>readback\<close> are one call of the port each: the log is \<open>early\<close> and
  \<open>unread\<close> while that call has not been issued, and the evidence is the port's answer.
\<close>

definition one_call :: "(duration \<Rightarrow> 'q) \<Rightarrow> ('r \<Rightarrow> 'x option) \<Rightarrow> duration \<Rightarrow> ('q, 'o, 'r, 'x) bounded_task" where
  "one_call q answer d = call_port (q d) answer Done"

definition requests_of :: "(duration \<Rightarrow> 'q) \<Rightarrow> ('q, 'o) bounded_request \<Rightarrow> bool" where
  "requests_of q x = (case x of Port y \<Rightarrow> (\<exists>d. y = q d) | _ \<Rightarrow> False)"

lemma requests_of_simps [simp]:
  "\<not> requests_of q ClockNow" "\<not> requests_of q (Observe obs)" "requests_of q (Port y) \<longleftrightarrow> (\<exists>d. y = q d)"
  by (auto simp: requests_of_def)

definition answered_with ::
  "(duration \<Rightarrow> 'q) \<Rightarrow> ('r \<Rightarrow> 'x option) \<Rightarrow> 'x \<Rightarrow> ('q, 'o, 'r) bounded_event list \<Rightarrow> bool" where
  "answered_with q answer a l \<longleftrightarrow> (\<exists>d r. Answered (Port (q d)) (PortReply r) \<in> set l \<and> answer r = Some a)"

lemma answered_with_keep: "answered_with q answer a l \<Longrightarrow> answered_with q answer a (keep_log e l)"
  by (auto simp: answered_with_def keep_log_def)

text \<open>How often a call of the port was issued.\<close>

fun issue_count :: "(duration \<Rightarrow> 'q) \<Rightarrow> ('q, 'o, 'r) bounded_event list \<Rightarrow> nat" where
  "issue_count q [] = 0"
| "issue_count q (Issued x # l) = (if requests_of q x then Suc (issue_count q l) else issue_count q l)"
| "issue_count q (Answered x r # l) = issue_count q l"

lemma issue_count_append [simp]: "issue_count q (l @ l') = issue_count q l + issue_count q l'"
  by (induction q l rule: issue_count.induct) simp_all

lemma silent_issue_count: "silent (requests_of q) l \<Longrightarrow> issue_count q l = 0"
  by (induction q l rule: issue_count.induct) (auto simp: silent_def)

definition called_once :: "(duration \<Rightarrow> 'q) \<Rightarrow> (duration \<Rightarrow> 'q) \<Rightarrow> ('q, 'o, 'r) bounded_event list \<Rightarrow> bool" where
  "called_once q p l \<longleftrightarrow> issue_count q l \<le> 1 \<and> issue_count p l \<le> 1"

lemma called_once_clock [simp]:
  "called_once q p []" "called_once q p (keep_log (Issued ClockNow) l) \<longleftrightarrow> called_once q p l"
  "called_once q p (keep_log (Answered x r) l) \<longleftrightarrow> called_once q p l"
  by (simp_all add: called_once_def keep_log_def)

text \<open>The replies that fit a port of two calls.\<close>

definition fits_port ::
  "(duration \<Rightarrow> 'q) \<Rightarrow> ('r \<Rightarrow> 'x option) \<Rightarrow> (duration \<Rightarrow> 'q) \<Rightarrow> ('r \<Rightarrow> 'y option)
     \<Rightarrow> ('q, 'o) bounded_request \<Rightarrow> 'r bounded_reply \<Rightarrow> bool" where
  "fits_port q answer p receipt x r \<longleftrightarrow>
     (case r of
        NowIs n \<Rightarrow> x = ClockNow
      | PortReply y \<Rightarrow> x \<noteq> ClockNow \<and> (requests_of q x \<longrightarrow> answer y \<noteq> None) \<and> (requests_of p x \<longrightarrow> receipt y \<noteq> None))"

locale port_operation =
  fixes q :: "duration \<Rightarrow> 'q" and answer :: "'r \<Rightarrow> ('t, 'e) local_tx_attempt option"
    and p :: "duration \<Rightarrow> 'q" and receipt :: "'r \<Rightarrow> ('e + 't option) option"
  assumes distinct_calls: "q d \<noteq> p d'"
begin

lemma one_call_ensures:
  fixes I :: "('q, 'o, 'r) bounded_event list \<Rightarrow> bool"
  assumes "I l" and "I (keep_log (Issued (Port (c d))) l)"
    and "\<And>r a. fits_port q answer p receipt (Port (c d) :: ('q, 'o) bounded_request) (PortReply r) \<Longrightarrow> f r = Some a \<Longrightarrow>
      Q a (keep_log (Answered (Port (c d)) (PortReply r)) (keep_log (Issued (Port (c d))) l))"
    and "\<And>r. fits_port q answer p receipt (Port (c d) :: ('q, 'o) bounded_request) (PortReply r) \<Longrightarrow> f r \<noteq> None"
  shows "ensures (fits_port q answer p receipt) keep_log I (one_call c f d) l Q"
  unfolding one_call_def call_port_def
proof (rule ensures_ask)
  fix r assume fits: "fits_port q answer p receipt (Port (c d) :: ('q, 'o) bounded_request) r"
  then obtain y where y: "r = PortReply y" by (cases r) (simp_all add: fits_port_def)
  with fits assms(4) [of y] obtain a where "f y = Some a" by auto
  with y fits assms(3) show "ensures (fits_port q answer p receipt) keep_log I
      (case r of NowIs _ \<Rightarrow> Never | PortReply x \<Rightarrow> (case f x of None \<Rightarrow> Never | Some a \<Rightarrow> Done a))
      (keep_log (Answered (Port (c d)) r) (keep_log (Issued (Port (c d))) l)) Q"
    by simp
qed (use assms in auto)

lemma apply_call:
  fixes l :: "('q, 'o, 'r) bounded_event list"
  assumes "silent (requests_of q) l" and "silent (requests_of p) l" and "silent is_observation l"
  shows "ensures (fits_port q answer p receipt) keep_log
      (\<lambda>l. silent (requests_of p) l \<and> called_once q p l \<and> silent is_observation l) (one_call q answer d) l
      (\<lambda>a l. silent (requests_of p) l \<and> called_once q p l \<and> silent is_observation l \<and> answered_with q answer a l)"
  using assms distinct_calls
  by (intro one_call_ensures)
    (auto simp: fits_port_def answered_with_def keep_log_def silent_def silent_issue_count [unfolded silent_def] called_once_def)

lemma receipt_call:
  fixes l :: "('q, 'o, 'r) bounded_event list"
  assumes "silent (requests_of p) l" and "called_once q p l" and "silent is_observation l"
  shows "ensures (fits_port q answer p receipt) keep_log (\<lambda>l. called_once q p l \<and> silent is_observation l) (one_call p receipt d) l
      (\<lambda>r l. called_once q p l \<and> silent is_observation l \<and>
        (\<forall>v. r = Inr (Some v) \<longrightarrow> answered_with p receipt (Inr (Some v)) l))"
  using assms distinct_calls [symmetric]
  by (intro one_call_ensures)
    (auto simp: fits_port_def answered_with_def keep_log_def silent_def silent_issue_count [unfolded silent_def] called_once_def)

end

sublocale port_operation \<subseteq> bounded_operation
  "fits_port q answer p receipt" "one_call q answer" "\<lambda>_. one_call p receipt" "\<lambda>_ s. s" "()" "\<lambda>_ _. True"
  "silent (requests_of q)" "silent (requests_of p)" "called_once q p" "answered_with q answer"
  "\<lambda>v. answered_with p receipt (Inr (Some v))"
  by unfold_locales
    (auto simp: fits_port_def intro: apply_call receipt_call answered_with_keep)

text \<open>The evidence of an execution over a port of two calls.\<close>

abbreviation port_evidence ::
  "(duration \<Rightarrow> 'q) \<Rightarrow> ('r \<Rightarrow> ('t, 'e) local_tx_attempt option) \<Rightarrow> (duration \<Rightarrow> 'q) \<Rightarrow> ('r \<Rightarrow> ('e + 't option) option)
     \<Rightarrow> 'e \<Rightarrow> ('t, 'e) local_tx_attempt \<Rightarrow> ('q, 'o, 'r) bounded_event list \<Rightarrow> bool" where
  "port_evidence q answer p receipt \<equiv>
     attempt_evidence (answered_with q answer) (\<lambda>v. answered_with p receipt (Inr (Some v)))
       (silent (requests_of q)) (silent (requests_of p))"

end
