(* ===== verification/Recovery_Model.thy ===== *)
theory Recovery_Model
  imports Recovery_Completion Messaging_Ports Data_Protection "HOL-Library.Product_Lexorder"
begin

section \<open>Recovery of dead letters and of a restored broker\<close>

text \<open>
  Models \<^verbatim>\<open>crates/transactional-messaging-recovery/src\<close>: the values of \<^verbatim>\<open>model.rs\<close>, the
  authorization of \<^verbatim>\<open>access.rs\<close>, the execution of \<^verbatim>\<open>store.rs\<close> and the plans of \<^verbatim>\<open>dr/mod.rs\<close>. A \<open>str\<close>
  is its bytes, as characters; a UUID is its 128-bit value. SHA-256, the parser of the uuid library
  and the product's authorizer are parameters, the store a port.
\<close>

subsection \<open>Errors and identities\<close>

datatype store_failure_kind = SfTransient | SfPermanent | SfOwnershipLost | SfInvariant

datatype recovery_error =
  RxArchived | RxInvalid | RxUnauthorized | RxConflict | RxNotFound | RxExpired | RxNotExpired | RxEvidence
  | RxProtection | RxStore store_failure_kind | RxDeadline | RxStorageContract

fun store_failure_text :: "store_failure_kind \<Rightarrow> string" where
  "store_failure_text SfTransient = ''transient''"
| "store_failure_text SfPermanent = ''permanent''"
| "store_failure_text SfOwnershipLost = ''ownership_lost''"
| "store_failure_text SfInvariant = ''invariant''"

definition uuid_text :: "128 word \<Rightarrow> string" where
  "uuid_text u = map char_of (hyphenated u)"

datatype operation_id = OperationId "128 word"

datatype dead_letter_id = DeadLetterId "128 word"

definition operation_id_parse :: "(string \<Rightarrow> 128 word option) \<Rightarrow> string \<Rightarrow> recovery_error + operation_id" where
  "operation_id_parse parse_str s =
     and_then (ok_or (parse_str s) RxInvalid) (\<lambda>u. if u = 0 then Err RxInvalid else Ok (OperationId u))"

definition dead_letter_id_parse :: "(string \<Rightarrow> 128 word option) \<Rightarrow> string \<Rightarrow> recovery_error + dead_letter_id" where
  "dead_letter_id_parse parse_str s =
     and_then (ok_or (parse_str s) RxInvalid) (\<lambda>u. if u = 0 then Err RxInvalid else Ok (DeadLetterId u))"

fun operation_id_text :: "operation_id \<Rightarrow> string" where
  "operation_id_text (OperationId u) = uuid_text u"

fun dead_letter_id_text :: "dead_letter_id \<Rightarrow> string" where
  "dead_letter_id_text (DeadLetterId u) = uuid_text u"

datatype rec_version = RecVersion int

fun rec_version_get :: "rec_version \<Rightarrow> int" where
  "rec_version_get (RecVersion v) = v"

definition rec_version_new :: "int \<Rightarrow> recovery_error + rec_version" where
  "rec_version_new v = (if v \<le> 0 then Err RxInvalid else Ok (RecVersion v))"

definition show_i64 :: "int \<Rightarrow> string" where
  "show_i64 v = (if v < 0 then CHR ''-'' # show_nat (nat (- v)) else show_nat (nat v))"

subsection \<open>Mutations\<close>

datatype rec_target = TargetDeadLetter dead_letter_id | TargetOutbox string

fun target_kind :: "rec_target \<Rightarrow> string" where
  "target_kind (TargetDeadLetter _) = ''consumer''"
| "target_kind (TargetOutbox _) = ''outbox''"

fun target_key :: "rec_target \<Rightarrow> string" where
  "target_key (TargetDeadLetter i) = dead_letter_id_text i"
| "target_key (TargetOutbox m) = m"

datatype resolution = AcceptedGap | Compensated string

datatype rec_action = ActReplay string | ActRedrive | ActResolve resolution

fun rec_action_label :: "rec_action \<Rightarrow> string" where
  "rec_action_label (ActReplay _) = ''replay''"
| "rec_action_label ActRedrive = ''redrive''"
| "rec_action_label (ActResolve _) = ''resolve''"

record rcv_mutation =
  mu_tenant :: tenant_id
  mu_operation :: operation_id
  mu_target :: rec_target
  mu_version :: rec_version
  mu_action :: rec_action

fun action_fits :: "rec_target \<Rightarrow> rec_action \<Rightarrow> bool" where
  "action_fits (TargetDeadLetter _) (ActReplay _) = True"
| "action_fits (TargetOutbox _) ActRedrive = True"
| "action_fits (TargetOutbox _) (ActResolve _) = True"
| "action_fits _ _ = False"

definition rcv_mutation_new ::
  "tenant_id \<Rightarrow> operation_id \<Rightarrow> rec_target \<Rightarrow> rec_version \<Rightarrow> rec_action \<Rightarrow> recovery_error + rcv_mutation" where
  "rcv_mutation_new tenant operation target version action =
     (if \<not> action_fits target action then Err RxInvalid
      else Ok \<lparr>mu_tenant = tenant, mu_operation = operation, mu_target = target, mu_version = version, mu_action = action\<rparr>)"

text \<open>The bytes that \<open>hash\<close> feeds to SHA-256, part by part.\<close>

definition hash_input :: "string list \<Rightarrow> bytes" where
  "hash_input parts = foldl (\<lambda>buf part. buf @ be_bytes_u64 (length part) @ ascii_bytes part) [] parts"

definition recovery_hash :: "(bytes \<Rightarrow> bytes) \<Rightarrow> string list \<Rightarrow> bytes" where
  "recovery_hash sha256 parts = sha256 (hash_input parts)"

fun action_parts :: "rec_action \<Rightarrow> string \<times> string" where
  "action_parts (ActReplay i) = (''replay'', i)"
| "action_parts ActRedrive = (''redrive'', '''')"
| "action_parts (ActResolve AcceptedGap) = (''accepted_gap'', '''')"
| "action_parts (ActResolve (Compensated i)) = (''compensated'', i)"

definition mutation_parts :: "rcv_mutation \<Rightarrow> string list" where
  "mutation_parts m =
     (let (kind, i) = action_parts (mu_action m) in
      [''rss-recovery-mutation-v1'', uuid_text (mu_tenant m), operation_id_text (mu_operation m),
       target_kind (mu_target m), target_key (mu_target m), show_i64 (rec_version_get (mu_version m)), kind, i])"

definition mutation_digest :: "(bytes \<Rightarrow> bytes) \<Rightarrow> rcv_mutation \<Rightarrow> bytes" where
  "mutation_digest sha256 m = recovery_hash sha256 (mutation_parts m)"

subsection \<open>Queries\<close>

datatype rec_source = SourceConsumer | SourceOutbox

fun source_label :: "rec_source \<Rightarrow> string" where
  "source_label SourceConsumer = ''consumer''"
| "source_label SourceOutbox = ''outbox''"

record rec_query =
  rq_tenant :: tenant_id
  rq_kind :: rec_source
  rq_after :: "string option"
  rq_limit :: nat
  rq_target :: "rec_target option"

definition strip_prefix :: "string \<Rightarrow> string \<Rightarrow> string option" where
  "strip_prefix p s = (if take (length p) s = p then Some (drop (length p) s) else None)"

definition cursor_prefix :: "tenant_id \<Rightarrow> rec_source \<Rightarrow> string" where
  "cursor_prefix tenant source = uuid_text tenant @ '':'' @ source_label source @ '':''"

definition query_list ::
  "tenant_id \<Rightarrow> rec_source \<Rightarrow> nat \<Rightarrow> string option \<Rightarrow> recovery_error + rec_query" where
  "query_list tenant source limit cursor =
     (if limit = 0 \<or> limit > 1000 then Err RxInvalid
      else
        and_then
          (case cursor of
             None \<Rightarrow> Ok None
           | Some raw \<Rightarrow>
               and_then (ok_or (strip_prefix (cursor_prefix tenant source) raw) RxInvalid) (\<lambda>key.
                 if key = [] \<or> length key > 512 then Err RxInvalid else Ok (Some key)))
          (\<lambda>after. Ok \<lparr>rq_tenant = tenant, rq_kind = source, rq_after = after, rq_limit = limit, rq_target = None\<rparr>))"

definition query_inspect :: "tenant_id \<Rightarrow> rec_target \<Rightarrow> rec_query" where
  "query_inspect tenant target =
     \<lparr>rq_tenant = tenant,
      rq_kind = (case target of TargetDeadLetter _ \<Rightarrow> SourceConsumer | TargetOutbox _ \<Rightarrow> SourceOutbox),
      rq_after = None, rq_limit = 1, rq_target = Some target\<rparr>"

definition query_cursor :: "rec_query \<Rightarrow> string \<Rightarrow> string" where
  "query_cursor q key = uuid_text (rq_tenant q) @ '':'' @ source_label (rq_kind q) @ '':'' @ key"

definition query_parts :: "rec_query \<Rightarrow> string list" where
  "query_parts q =
     [''rss-recovery-query-v1'', uuid_text (rq_tenant q), source_label (rq_kind q),
      (case rq_after q of Some a \<Rightarrow> a | None \<Rightarrow> ''''), show_nat (rq_limit q),
      (case rq_target q of Some t \<Rightarrow> target_key t | None \<Rightarrow> '''')]"

definition query_digest :: "(bytes \<Rightarrow> bytes) \<Rightarrow> rec_query \<Rightarrow> bytes" where
  "query_digest sha256 q = recovery_hash sha256 (query_parts q)"

record consumer_details =
  cd_hot_available :: bool
  cd_group :: string
  cd_contract :: contract_identity
  cd_reason :: reject_kind
  cd_captured_at :: int
  cd_replay_count :: nat
  cd_last_replay :: "string option"

datatype eligibility = NoWindow | WithinWindow | EligExpired | EligResolved

record outbox_details =
  od_domain :: string
  od_route :: string
  od_contract :: contract_identity
  od_deadline :: "int option"
  od_eligibility :: eligibility

datatype rec_details = DetailsConsumer consumer_details | DetailsOutbox outbox_details

record rec_entry =
  re_target :: rec_target
  re_version :: rec_version
  re_message :: string
  re_details :: rec_details

record rec_page =
  pg_entries :: "rec_entry list"
  pg_next_cursor :: "string option"

datatype rec_outcome = Replayed | Redriven | RecResolved

record rec_receipt =
  rr_request :: rcv_mutation
  rr_outcome :: rec_outcome
  rr_version :: rec_version

subsection \<open>Disaster recovery plans\<close>

record restore_evidence =
  rv_database :: bytes
  rv_broker :: bytes

definition restore_evidence_new :: "bytes \<Rightarrow> bytes \<Rightarrow> recovery_error + restore_evidence" where
  "restore_evidence_new database broker =
     (if database = replicate 32 0 \<or> broker = replicate 32 0 then Err RxEvidence
      else Ok \<lparr>rv_database = database, rv_broker = broker\<rparr>)"

datatype dr_direction = DatabaseAhead | BrokerAhead

datatype dr_member =
  DrOutbox string fingerprint rec_version
  | DrConsumer consumer_identity fingerprint

fun member_direction :: "dr_member \<Rightarrow> dr_direction" where
  "member_direction (DrOutbox _ _ _) = DatabaseAhead"
| "member_direction (DrConsumer _ _) = BrokerAhead"

fun member_message :: "dr_member \<Rightarrow> string" where
  "member_message (DrOutbox m _ _) = m"
| "member_message (DrConsumer i _) = cn_message_id i"

fun member_fingerprint :: "dr_member \<Rightarrow> fingerprint" where
  "member_fingerprint (DrOutbox _ f _) = f"
| "member_fingerprint (DrConsumer _ f) = f"

definition member_key :: "dr_member \<Rightarrow> string \<times> string" where
  "member_key m = (member_message m, (case m of DrConsumer i _ \<Rightarrow> cn_group i | _ \<Rightarrow> ''''))"

datatype plan_action =
  PlanRecover restore_evidence dr_direction "dr_member list"
  | PlanTerminate operation_id bytes

record dr_plan =
  dp_tenant :: tenant_id
  dp_operation :: operation_id
  dp_storage :: storage_identity
  dp_expected :: int
  dp_next :: int
  dp_action :: plan_action
  dp_digest :: bytes

definition max_members :: nat where
  "max_members = 500"

fun plan_action_members :: "plan_action \<Rightarrow> dr_member list" where
  "plan_action_members (PlanRecover _ _ ms) = ms"
| "plan_action_members (PlanTerminate _ _) = []"

definition plan_members :: "dr_plan \<Rightarrow> dr_member list" where
  "plan_members p = plan_action_members (dp_action p)"

fun member_frames :: "dr_member \<Rightarrow> bytes list" where
  "member_frames (DrOutbox m f v) = [ascii_bytes m, f, be_bytes_i64 (rec_version_get v)]"
| "member_frames (DrConsumer i f) =
     [ascii_bytes (cn_message_id i), f, ascii_bytes (cn_group i), ascii_bytes (ci_id (cn_contract i)),
      ascii_bytes (contract_version_display (ci_version (cn_contract i))),
      ascii_bytes (ci_schema_digest (cn_contract i))]"

fun direction_label :: "dr_direction \<Rightarrow> string" where
  "direction_label DatabaseAhead = ''database''"
| "direction_label BrokerAhead = ''broker''"

fun plan_action_frames :: "plan_action \<Rightarrow> bytes list" where
  "plan_action_frames (PlanTerminate operation digest) =
     [ascii_bytes ''terminate'', ascii_bytes (operation_id_text operation), digest]"
| "plan_action_frames (PlanRecover evidence direction ms) =
     [ascii_bytes ''recover'', rv_database evidence, rv_broker evidence, ascii_bytes (direction_label direction)]
     @ concat (map member_frames ms)"

definition plan_frames :: "dr_plan \<Rightarrow> bytes list" where
  "plan_frames p =
     [ascii_bytes ''rss.message-dr.v2'', ascii_bytes (uuid_text (dp_tenant p)),
      ascii_bytes (operation_id_text (dp_operation p)), si_target (dp_storage p), si_lineage (dp_storage p),
      be_bytes_i64 (dp_expected p), be_bytes_i64 (dp_next p)]
     @ plan_action_frames (dp_action p)"

definition dr_frame :: "bytes \<Rightarrow> bytes \<Rightarrow> bytes" where
  "dr_frame buf x = buf @ be_bytes_u64 (length x) @ x"

definition calculate_digest :: "(bytes \<Rightarrow> bytes) \<Rightarrow> dr_plan \<Rightarrow> bytes" where
  "calculate_digest sha256 p = sha256 (foldl dr_frame [] (plan_frames p))"

fun adjacent_same_key :: "dr_member list \<Rightarrow> bool" where
  "adjacent_same_key (a # b # xs) = (member_key a = member_key b \<or> adjacent_same_key (b # xs))"
| "adjacent_same_key xs = False"

definition foreign_consumer :: "tenant_id \<Rightarrow> dr_member \<Rightarrow> bool" where
  "foreign_consumer tenant m = (case m of DrConsumer i _ \<Rightarrow> cn_tenant i \<noteq> tenant | _ \<Rightarrow> False)"

definition plan_new ::
  "(bytes \<Rightarrow> bytes) \<Rightarrow> tenant_id \<Rightarrow> operation_id \<Rightarrow> storage_identity \<Rightarrow> int \<Rightarrow> restore_evidence
     \<Rightarrow> dr_member list \<Rightarrow> recovery_error + dr_plan" where
  "plan_new sha256 tenant operation storage expected evidence members =
     and_then (map_err (\<lambda>_. RxInvalid) (epoch_next expected)) (\<lambda>next_epoch.
       case members of
         [] \<Rightarrow> Err RxInvalid
       | first # _ \<Rightarrow>
           (let direction = member_direction first in
            if length members > max_members
               \<or> list_ex (\<lambda>m. member_direction m \<noteq> direction \<or> foreign_consumer tenant m) members
            then Err RxInvalid
            else
              (let sorted = sort_key member_key members in
               if adjacent_same_key sorted then Err RxInvalid
               else
                 (let p = \<lparr>dp_tenant = tenant, dp_operation = operation, dp_storage = storage, dp_expected = expected,
                           dp_next = next_epoch, dp_action = PlanRecover evidence direction sorted,
                           dp_digest = replicate 32 0\<rparr> in
                  Ok (p\<lparr>dp_digest := calculate_digest sha256 p\<rparr>)))))"

definition plan_terminate ::
  "(bytes \<Rightarrow> bytes) \<Rightarrow> tenant_id \<Rightarrow> operation_id \<Rightarrow> storage_identity \<Rightarrow> int \<Rightarrow> operation_id \<Rightarrow> bytes
     \<Rightarrow> recovery_error + dr_plan" where
  "plan_terminate sha256 tenant operation storage expected prior_operation prior_digest =
     (if operation = prior_operation \<or> prior_digest = replicate 32 0 then Err RxInvalid
      else
        and_then (map_err (\<lambda>_. RxInvalid) (epoch_next expected)) (\<lambda>next_epoch.
          let p = \<lparr>dp_tenant = tenant, dp_operation = operation, dp_storage = storage, dp_expected = expected,
                   dp_next = next_epoch, dp_action = PlanTerminate prior_operation prior_digest,
                   dp_digest = replicate 32 0\<rparr> in
          Ok (p\<lparr>dp_digest := calculate_digest sha256 p\<rparr>)))"

record dr_receipt =
  dx_operation :: operation_id
  dx_digest :: bytes
  dx_epoch :: int

datatype block_reason = DeadlineExpired | PermanentPublishFailure

datatype member_status =
  MemberPending | MemberPublishing | MemberCompleted | MemberBlocked block_reason
  | MemberSuperseded "block_reason option" | MemberTerminated "block_reason option"

record dr_progress =
  dg_receipt :: dr_receipt
  dg_members :: "member_status list"

subsection \<open>Authorization\<close>

datatype authorization_subject = SubjectMutation rcv_mutation | SubjectQuery rec_query | SubjectDr dr_plan

record rec_challenge =
  ch_subject :: authorization_subject
  ch_digest :: bytes
  ch_tenant :: tenant_id

record rec_authorization =
  az_digest :: bytes
  az_tenant :: tenant_id

definition challenge_authorized :: "rec_challenge \<Rightarrow> rec_authorization" where
  "challenge_authorized c = \<lparr>az_digest = ch_digest c, az_tenant = ch_tenant c\<rparr>"

text \<open>The product's answer to a challenge within a budget; nothing when the deadline fires first.\<close>

type_synonym rec_authorizer = "rec_challenge \<Rightarrow> duration \<Rightarrow> (recovery_error + rec_authorization) reply"

definition within_call :: "deadline \<Rightarrow> instant \<Rightarrow> (duration \<Rightarrow> 'a reply) \<Rightarrow> 'a reply" where
  "within_call dl now start = (let budget = from_cutoff dl now in if budget = 0 then None else start budget)"

definition authorize_mutation ::
  "(bytes \<Rightarrow> bytes) \<Rightarrow> rec_authorizer \<Rightarrow> rcv_mutation \<Rightarrow> instant \<Rightarrow> deadline \<Rightarrow> recovery_error + rcv_mutation" where
  "authorize_mutation sha256 authorizer request now cutoff =
     (let digest = mutation_digest sha256 request; tenant = mu_tenant request;
          challenge = \<lparr>ch_subject = SubjectMutation request, ch_digest = digest, ch_tenant = tenant\<rparr> in
      and_then (ok_or (within_call cutoff now (authorizer challenge)) RxDeadline) (\<lambda>answer.
        and_then answer (\<lambda>proof.
          if az_digest proof \<noteq> digest \<or> az_tenant proof \<noteq> tenant then Err RxUnauthorized else Ok request)))"

definition authorize_query ::
  "(bytes \<Rightarrow> bytes) \<Rightarrow> rec_authorizer \<Rightarrow> rec_query \<Rightarrow> instant \<Rightarrow> deadline \<Rightarrow> recovery_error + rec_query" where
  "authorize_query sha256 authorizer request now cutoff =
     (let digest = query_digest sha256 request; tenant = rq_tenant request;
          challenge = \<lparr>ch_subject = SubjectQuery request, ch_digest = digest, ch_tenant = tenant\<rparr> in
      and_then (ok_or (within_call cutoff now (authorizer challenge)) RxDeadline) (\<lambda>answer.
        and_then answer (\<lambda>proof.
          if az_digest proof \<noteq> digest \<or> az_tenant proof \<noteq> tenant then Err RxUnauthorized else Ok request)))"

definition authorize_dr :: "rec_authorizer \<Rightarrow> dr_plan \<Rightarrow> instant \<Rightarrow> deadline \<Rightarrow> recovery_error + dr_plan" where
  "authorize_dr authorizer request now cutoff =
     (let digest = dp_digest request; tenant = dp_tenant request;
          challenge = \<lparr>ch_subject = SubjectDr request, ch_digest = digest, ch_tenant = tenant\<rparr> in
      and_then (ok_or (within_call cutoff now (authorizer challenge)) RxDeadline) (\<lambda>answer.
        and_then answer (\<lambda>proof.
          if az_digest proof \<noteq> digest \<or> az_tenant proof \<noteq> tenant then Err RxUnauthorized else Ok request)))"

subsection \<open>Execution\<close>

datatype recovery_action_kind = KindDrApply | KindDrTerminate | KindReplay | KindRedrive | KindResolve

record recovery_observation =
  ro_action :: recovery_action_kind
  ro_status :: attempt_status
  ro_error :: "recovery_error option"

datatype recovery_call =
  StoreMutate rcv_mutation duration | StoreReceipt rcv_mutation duration
  | DrApply dr_plan duration | DrReceipt dr_plan duration

datatype recovery_answer =
  MutateAnswer "(rec_receipt, recovery_error) local_tx_attempt"
  | ReceiptAnswer "recovery_error + rec_receipt option"
  | DrApplyAnswer "(dr_receipt, recovery_error) local_tx_attempt"
  | DrReceiptAnswer "recovery_error + dr_receipt option"

fun mutate_answer :: "recovery_answer \<Rightarrow> (rec_receipt, recovery_error) local_tx_attempt option" where
  "mutate_answer (MutateAnswer a) = Some a"
| "mutate_answer _ = None"

fun receipt_answer :: "recovery_answer \<Rightarrow> (recovery_error + rec_receipt option) option" where
  "receipt_answer (ReceiptAnswer a) = Some a"
| "receipt_answer _ = None"

fun dr_apply_answer :: "recovery_answer \<Rightarrow> (dr_receipt, recovery_error) local_tx_attempt option" where
  "dr_apply_answer (DrApplyAnswer a) = Some a"
| "dr_apply_answer _ = None"

fun dr_receipt_answer :: "recovery_answer \<Rightarrow> (recovery_error + dr_receipt option) option" where
  "dr_receipt_answer (DrReceiptAnswer a) = Some a"
| "dr_receipt_answer _ = None"

fun mutation_action_kind :: "rec_action \<Rightarrow> recovery_action_kind" where
  "mutation_action_kind (ActReplay _) = KindReplay"
| "mutation_action_kind ActRedrive = KindRedrive"
| "mutation_action_kind (ActResolve _) = KindResolve"

fun plan_action_kind :: "plan_action \<Rightarrow> recovery_action_kind" where
  "plan_action_kind (PlanRecover _ _ _) = KindDrApply"
| "plan_action_kind (PlanTerminate _ _) = KindDrTerminate"

definition recovery_execute ::
  "rcv_mutation \<Rightarrow> execution_deadlines
     \<Rightarrow> (recovery_call, recovery_observation, recovery_answer, (rec_receipt, recovery_error) local_tx_attempt) bounded_task" where
  "recovery_execute request deadlines =
     (let action = mutation_action_kind (mu_action request) in
      completion_execute (\<lambda>_ s. s) () deadlines RxDeadline
        (one_call (StoreMutate request) mutate_answer) (\<lambda>_. one_call (StoreReceipt request) receipt_answer)
        (\<lambda>status _ error. \<lparr>ro_action = action, ro_status = status, ro_error = error\<rparr>))"

definition dr_execute ::
  "dr_plan \<Rightarrow> execution_deadlines
     \<Rightarrow> (recovery_call, recovery_observation, recovery_answer, (dr_receipt, recovery_error) local_tx_attempt) bounded_task" where
  "dr_execute plan deadlines =
     completion_execute (\<lambda>_ s. s) () deadlines RxDeadline
       (one_call (DrApply plan) dr_apply_answer) (\<lambda>_. one_call (DrReceipt plan) dr_receipt_answer)
       (\<lambda>status _ error. \<lparr>ro_action = plan_action_kind (dp_action plan), ro_status = status, ro_error = error\<rparr>)"

section \<open>Theorems\<close>

subsection \<open>Injective texts\<close>

lemma uuid_text_length [simp]: "length (uuid_text u) = 36"
  by (simp add: uuid_text_def hyphenated_def Let_def ut_def)

lemma uuid_text_inject [simp]: "uuid_text u = uuid_text v \<longleftrightarrow> u = v"
proof
  assume "uuid_text u = uuid_text v"
  then have "map byte_of (uuid_text u) = map byte_of (uuid_text v)" by simp
  moreover have "map byte_of (uuid_text u) = hyphenated u" for u
    by (auto simp: uuid_text_def intro!: map_idI dest: hyphenated_ascii)
  ultimately show "u = v" by simp
qed simp

lemma operation_id_text_inject [simp]: "operation_id_text a = operation_id_text b \<longleftrightarrow> a = b"
  by (cases a; cases b) simp

lemma dead_letter_id_text_inject [simp]: "dead_letter_id_text a = dead_letter_id_text b \<longleftrightarrow> a = b"
  by (cases a; cases b) simp

lemma show_nat_inject [simp]: "show_nat a = show_nat b \<longleftrightarrow> a = b"
  by (metis show_nat_value)

lemma minus_not_digit: "\<not> is_ascii_digit CHR ''-''"
  by (simp add: is_ascii_digit_def byte_of_def)

lemma show_i64_inject [simp]: "show_i64 a = show_i64 b \<longleftrightarrow> a = b"
proof -
  have "show_nat n \<noteq> CHR ''-'' # s" for n s
    using show_nat_digits [of n] minus_not_digit by auto
  then show ?thesis by (metis (no_types, lifting) show_i64_def show_nat_inject list.inject nat_eq_iff2 neg_equal_iff_equal not_less neg_0_le_iff_le less_imp_le nat_0_le)
qed

lemma framed_inject_all:
  "framed w xs = framed w ys \<Longrightarrow> 0 < w \<Longrightarrow> list_all (\<lambda>f. length f < 256 ^ w) xs \<Longrightarrow>
   list_all (\<lambda>f. length f < 256 ^ w) ys \<Longrightarrow> xs = ys"
proof (induction xs arbitrary: ys)
  case Nil
  then show ?case by (cases ys) (auto dest: arg_cong [where f = length])
next
  case (Cons x xs)
  from Cons.prems(1,2) obtain y ys' where ys: "ys = y # ys'"
    by (cases ys) (auto dest: arg_cong [where f = length])
  have "[x] = [y] \<and> framed w xs = framed w ys'"
    by (rule framed_inject [where w = w]) (use Cons.prems ys in simp_all)
  with Cons ys show ?case by simp
qed

lemma foldl_frames: "foldl (\<lambda>buf x. buf @ be_bytes_u64 (length x) @ f x) buf xs = buf @ concat (map (\<lambda>x. be_bytes_u64 (length x) @ f x) xs)"
  by (induction xs arbitrary: buf) simp_all

lemma hash_input_framed: "hash_input parts = framed 8 (map ascii_bytes parts)"
  unfolding hash_input_def foldl_frames by (simp add: framed_def be_bytes_u64_def comp_def)

lemma plan_digest_framed: "foldl dr_frame [] fs = framed 8 fs"
  unfolding dr_frame_def foldl_frames by (simp add: framed_def be_bytes_u64_def)

subsection \<open>What a digest binds\<close>

fun subject_frames :: "authorization_subject \<Rightarrow> bytes list" where
  "subject_frames (SubjectMutation m) = map ascii_bytes (mutation_parts m)"
| "subject_frames (SubjectQuery q) = map ascii_bytes (query_parts q)"
| "subject_frames (SubjectDr p) = plan_frames p"

text \<open>The bytes the source hashes for a request: those of \<open>hash\<close> and of \<open>calculate_digest\<close>.\<close>

definition subject_preimage :: "authorization_subject \<Rightarrow> bytes" where
  "subject_preimage s =
     (case s of
        SubjectMutation m \<Rightarrow> hash_input (mutation_parts m)
      | SubjectQuery q \<Rightarrow> hash_input (query_parts q)
      | SubjectDr p \<Rightarrow> foldl dr_frame [] (plan_frames p))"

lemma subject_preimage_framed: "subject_preimage s = framed 8 (subject_frames s)"
  by (cases s) (simp_all add: subject_preimage_def hash_input_framed plan_digest_framed)

fun subject_digest :: "(bytes \<Rightarrow> bytes) \<Rightarrow> authorization_subject \<Rightarrow> bytes" where
  "subject_digest sha256 (SubjectMutation m) = mutation_digest sha256 m"
| "subject_digest sha256 (SubjectQuery q) = query_digest sha256 q"
| "subject_digest sha256 (SubjectDr p) = dp_digest p"

fun subject_tenant :: "authorization_subject \<Rightarrow> tenant_id" where
  "subject_tenant (SubjectMutation m) = mu_tenant m"
| "subject_tenant (SubjectQuery q) = rq_tenant q"
| "subject_tenant (SubjectDr p) = dp_tenant p"

definition target_ok :: "rec_target \<Rightarrow> bool" where
  "target_ok t = (case t of TargetOutbox m \<Rightarrow> message_id_parse m = Ok m | TargetDeadLetter _ \<Rightarrow> True)"

definition member_ok :: "dr_member \<Rightarrow> bool" where
  "member_ok m = (case m of DrOutbox _ _ v \<Rightarrow> in_i64 (rec_version_get v) | DrConsumer _ _ \<Rightarrow> True)"

text \<open>
  A subject as the constructors make it, from values in the ranges of their types; no frame is longer
  than its length field can say.
\<close>

fun constructed :: "(bytes \<Rightarrow> bytes) \<Rightarrow> authorization_subject \<Rightarrow> bool" where
  "constructed sha256 (SubjectMutation m) \<longleftrightarrow>
     rcv_mutation_new (mu_tenant m) (mu_operation m) (mu_target m) (mu_version m) (mu_action m) = Ok m"
| "constructed sha256 (SubjectQuery q) \<longleftrightarrow>
     (\<exists>t s n c. query_list t s n c = Ok q) \<or> (\<exists>t x. target_ok x \<and> q = query_inspect t x)"
| "constructed sha256 (SubjectDr p) \<longleftrightarrow> list_all member_ok (plan_members p) \<and>
     ((\<exists>t i st e v ms. plan_new sha256 t i st e v ms = Ok p) \<or> (\<exists>t i st e j d. plan_terminate sha256 t i st e j d = Ok p))"

definition subject_ok :: "(bytes \<Rightarrow> bytes) \<Rightarrow> authorization_subject \<Rightarrow> bool" where
  "subject_ok sha256 s \<longleftrightarrow> constructed sha256 s \<and> list_all (\<lambda>f. length f < 2 ^ 64) (subject_frames s)"

lemma action_parts_inject: "action_parts a = action_parts b \<longleftrightarrow> a = b"
  by (cases a rule: action_parts.cases; cases b rule: action_parts.cases) simp_all

lemma target_inject: "target_kind a = target_kind b \<Longrightarrow> target_key a = target_key b \<Longrightarrow> a = b"
  by (cases a; cases b) simp_all

lemma mutation_parts_inject: "mutation_parts m = mutation_parts m' \<Longrightarrow> m = m'"
  using action_parts_inject [of "mu_action m" "mu_action m'"]
  by (cases m; cases m'; cases "action_parts (mu_action m)"; cases "action_parts (mu_action m')";
      cases "mu_version m"; cases "mu_version m'") (auto simp: mutation_parts_def intro: target_inject)

lemma source_label_inject [simp]: "source_label a = source_label b \<longleftrightarrow> a = b"
  by (cases a; cases b) simp_all

lemma query_list_Ok:
  "query_list t s n c = Ok q \<longleftrightarrow> 0 < n \<and> n \<le> 1000 \<and>
     (\<exists>a. q = \<lparr>rq_tenant = t, rq_kind = s, rq_after = a, rq_limit = n, rq_target = None\<rparr> \<and>
       (case c of None \<Rightarrow> a = None
        | Some raw \<Rightarrow> \<exists>key. raw = cursor_prefix t s @ key \<and> key \<noteq> [] \<and> length key \<le> 512 \<and> a = Some key))"
proof -
  have "strip_prefix p raw = Some key \<longleftrightarrow> raw = p @ key" for p raw key
    by (auto simp: strip_prefix_def) (metis append_take_drop_id)
  then show ?thesis
    by (cases c) (auto simp: query_list_def and_then_Inr_iff not_less split: if_splits)
qed

lemma target_key_nonempty: "target_ok t \<Longrightarrow> target_key t \<noteq> []"
proof (cases t)
  case (TargetDeadLetter i)
  then have "length (target_key t) = 36" by (cases i) simp
  then show ?thesis by auto
qed (auto simp: target_ok_def message_id_parse_def validate_transport_identity_def)

lemma query_parts_inject:
  assumes "constructed sha256 (SubjectQuery q)" and "constructed sha256 (SubjectQuery q')" and "query_parts q = query_parts q'"
  shows "q = q'"
proof -
  have after: "rq_after q = Some [] \<Longrightarrow> False" if "constructed sha256 (SubjectQuery q)" for q
    using that by (auto simp: query_list_Ok query_inspect_def split: option.splits)
  have target: "case rq_target q of None \<Rightarrow> True | Some x \<Rightarrow> target_key x \<noteq> [] \<and> source_label (rq_kind q) = target_kind x"
    if "constructed sha256 (SubjectQuery q)" for q
    using that by (auto simp: query_list_Ok query_inspect_def target_key_nonempty split: option.splits rec_target.split)
  from assms(3) after [OF assms(1)] after [OF assms(2)] have "rq_after q = rq_after q'"
    by (auto simp: query_parts_def split: option.splits)
  moreover from assms(3) target [OF assms(1)] target [OF assms(2)] have "rq_target q = rq_target q'"
    by (auto simp: query_parts_def split: option.splits intro: target_inject)
  ultimately show ?thesis using assms(3) by (cases q; cases q') (auto simp: query_parts_def)
qed

lemma contract_version_display_inject [simp]: "contract_version_display a = contract_version_display b \<longleftrightarrow> a = b"
  by (simp add: contract_version_display_def)

lemma members_inject:
  assumes "list_all (\<lambda>m. member_direction m = d \<and> \<not> foreign_consumer t m \<and> member_ok m) ms"
    and "list_all (\<lambda>m. member_direction m = d \<and> \<not> foreign_consumer t m \<and> member_ok m) ms'"
    and "concat (map member_frames ms) = concat (map member_frames ms')"
  shows "ms = ms'"
  using assms
proof (induction ms arbitrary: ms')
  case Nil
  then show ?case by (cases ms') (auto elim: member_frames.elims)
next
  case (Cons m ms)
  then obtain m' ns where ms': "ms' = m' # ns" by (cases ms') (auto elim: member_frames.elims)
  have "m = m' \<and> concat (map member_frames ms) = concat (map member_frames ns)"
  proof (cases m)
    case (DrOutbox i f v)
    moreover from this Cons.prems ms' obtain j g w where "m' = DrOutbox j g w" by (cases m') auto
    ultimately show ?thesis
      using Cons.prems ms' by (cases v; cases w) (auto simp: member_ok_def intro: be_bytes_i64_inject)
  next
    case (DrConsumer i f)
    moreover from this Cons.prems ms' obtain j g where "m' = DrConsumer j g" by (cases m') auto
    ultimately show ?thesis
      using Cons.prems ms' by (cases i; cases j; cases "cn_contract i"; cases "cn_contract j") (auto simp: foreign_consumer_def)
  qed
  with Cons ms' show ?case by simp
qed

lemma adjacent_same_key_distinct:
  "sorted (map member_key ms) \<Longrightarrow> adjacent_same_key ms \<longleftrightarrow> \<not> distinct (map member_key ms)"
  by (induction ms rule: adjacent_same_key.induct) (auto dest: order.antisym)

lemma adjacent_same_key_sort: "adjacent_same_key (sort_key member_key ms) \<longleftrightarrow> \<not> distinct (map member_key ms)"
proof -
  have "mset (map member_key (sort_key member_key ms)) = mset (map member_key ms)" by simp
  then have "distinct (map member_key (sort_key member_key ms)) \<longleftrightarrow> distinct (map member_key ms)"
    by (rule mset_eq_imp_distinct_iff)
  then show ?thesis using adjacent_same_key_distinct [OF sorted_sort_key] by simp
qed

text \<open>The plan with given contents: the epoch advances by one and the digest is that of the contents.\<close>

definition sealed_plan ::
  "(bytes \<Rightarrow> bytes) \<Rightarrow> tenant_id \<Rightarrow> operation_id \<Rightarrow> storage_identity \<Rightarrow> int \<Rightarrow> plan_action \<Rightarrow> dr_plan" where
  "sealed_plan sha256 t i st e a =
     (let p = \<lparr>dp_tenant = t, dp_operation = i, dp_storage = st, dp_expected = e, dp_next = e + 1, dp_action = a,
               dp_digest = replicate 32 0\<rparr> in p\<lparr>dp_digest := calculate_digest sha256 p\<rparr>)"

lemma epoch_next_Ok: "epoch_next e = Ok n \<longleftrightarrow> n = e + 1 \<and> 0 \<le> e \<and> e < i64_max"
  by (auto simp: epoch_next_def epoch_new_def and_then_Inr_iff i64_checked_add_def i64_defs)

lemma plan_new_Ok:
  "plan_new sha256 t i st e v ms = Ok p \<longleftrightarrow>
     0 \<le> e \<and> e < i64_max \<and> ms \<noteq> [] \<and> length ms \<le> max_members \<and> distinct (map member_key ms) \<and>
     (\<exists>d. list_all (\<lambda>m. member_direction m = d \<and> \<not> foreign_consumer t m) ms \<and>
       p = sealed_plan sha256 t i st e (PlanRecover v d (sort_key member_key ms)))"
proof (cases ms)
  case (Cons m rest)
  have ex: "list_ex (\<lambda>x. member_direction x \<noteq> d \<or> foreign_consumer t x) ms \<longleftrightarrow>
      \<not> list_all (\<lambda>x. member_direction x = d \<and> \<not> foreign_consumer t x) ms" for d
    by (auto simp: list_ex_iff list_all_iff)
  have d: "d = member_direction m" if "list_all (\<lambda>x. member_direction x = d \<and> \<not> foreign_consumer t x) ms" for d
    using that Cons by simp
  have first: "(case ms of [] \<Rightarrow> Err RxInvalid | first # _ \<Rightarrow> f first) = f m" for f :: "dr_member \<Rightarrow> recovery_error + dr_plan"
    by (simp add: Cons)
  have "ms \<noteq> []" by (simp add: Cons)
  then show ?thesis
    unfolding plan_new_def first ex adjacent_same_key_sort Let_def [of "sort_key member_key ms"] Let_def [of "member_direction m"]
    by (auto simp: and_then_Inr_iff epoch_next_Ok sealed_plan_def Let_def not_less dest: d)
qed (simp add: plan_new_def and_then_Inr_iff)

lemma plan_terminate_Ok:
  "plan_terminate sha256 t i st e j d = Ok p \<longleftrightarrow>
     i \<noteq> j \<and> d \<noteq> replicate 32 0 \<and> 0 \<le> e \<and> e < i64_max \<and> p = sealed_plan sha256 t i st e (PlanTerminate j d)"
  by (auto simp: plan_terminate_def and_then_Inr_iff epoch_next_Ok Let_def sealed_plan_def)

lemma sealed_plan_simps [simp]:
  "dp_tenant (sealed_plan h t i st e a) = t" "dp_operation (sealed_plan h t i st e a) = i"
  "dp_storage (sealed_plan h t i st e a) = st" "dp_expected (sealed_plan h t i st e a) = e"
  "dp_next (sealed_plan h t i st e a) = e + 1" "dp_action (sealed_plan h t i st e a) = a"
  by (simp_all add: sealed_plan_def Let_def)

lemma plan_frames_digest [simp]: "plan_frames (p\<lparr>dp_digest := x\<rparr>) = plan_frames p"
  by (simp add: plan_frames_def)

lemma sealed_plan_digest: "dp_digest (sealed_plan h t i st e a) = h (framed 8 (plan_frames (sealed_plan h t i st e a)))"
  unfolding sealed_plan_def Let_def plan_frames_digest
  by (simp only: calculate_digest_def plan_digest_framed dr_plan.select_convs dr_plan.surjective dr_plan.update_convs)

definition members_uniform :: "tenant_id \<Rightarrow> plan_action \<Rightarrow> bool" where
  "members_uniform t a =
     (case a of
        PlanRecover v d ms \<Rightarrow> list_all (\<lambda>m. member_direction m = d \<and> \<not> foreign_consumer t m \<and> member_ok m) ms
      | PlanTerminate j x \<Rightarrow> True)"

lemma constructed_plan:
  assumes "constructed sha256 (SubjectDr p)"
  shows "p = sealed_plan sha256 (dp_tenant p) (dp_operation p) (dp_storage p) (dp_expected p) (dp_action p)"
    and "in_i64 (dp_expected p)" and "members_uniform (dp_tenant p) (dp_action p)"
  using assms
  by (auto simp: plan_new_Ok plan_terminate_Ok i64_defs plan_members_def list_all_iff members_uniform_def)

lemma plan_action_frames_inject:
  assumes "plan_action_frames a = plan_action_frames b" and "members_uniform t a" and "members_uniform t b"
  shows "a = b"
proof (cases a; cases b)
  fix v d ms v' d' ms' assume a: "a = PlanRecover v d ms" and b: "b = PlanRecover v' d' ms'"
  then have "d = d'" using assms(1) by (cases d; cases d') simp_all
  moreover have "v = v'" using assms(1) a b by (cases v; cases v') simp
  moreover have "ms = ms'"
    by (rule members_inject [where d = d and t = t]) (use assms a b \<open>d = d'\<close> in \<open>auto simp: members_uniform_def\<close>)
  ultimately show ?thesis using a b by simp
qed (use assms(1) in auto)

lemma plan_frames_inject:
  assumes "constructed sha256 (SubjectDr p)" and "constructed sha256 (SubjectDr p')" and "plan_frames p = plan_frames p'"
  shows "p = p'"
proof -
  note p = constructed_plan [OF assms(1)] and p' = constructed_plan [OF assms(2)]
  have eq: "dp_tenant p = dp_tenant p'" "dp_operation p = dp_operation p'"
    "si_target (dp_storage p) = si_target (dp_storage p')" "si_lineage (dp_storage p) = si_lineage (dp_storage p')"
    "be_bytes_i64 (dp_expected p) = be_bytes_i64 (dp_expected p')"
    "plan_action_frames (dp_action p) = plan_action_frames (dp_action p')"
    using assms(3) by (simp_all add: plan_frames_def)
  have "dp_action p = dp_action p'" by (rule plan_action_frames_inject [OF eq(6) p(3)]) (use p'(3) eq(1) in simp)
  moreover have "dp_expected p = dp_expected p'" by (rule be_bytes_i64_inject [OF eq(5) p(2) p'(2)])
  moreover have "dp_storage p = dp_storage p'" using eq(3,4) by (cases "dp_storage p"; cases "dp_storage p'") simp
  ultimately show ?thesis using eq(1,2) by (subst p(1), subst p'(1)) simp
qed

lemma constructed_digest: "constructed sha256 s \<Longrightarrow> subject_digest sha256 s = sha256 (subject_preimage s)"
proof (cases s)
  case (SubjectDr p)
  assume "constructed sha256 s"
  with SubjectDr have "p = sealed_plan sha256 (dp_tenant p) (dp_operation p) (dp_storage p) (dp_expected p) (dp_action p)"
    using constructed_plan by blast
  with SubjectDr show ?thesis using sealed_plan_digest by (metis subject_digest.simps(3) subject_frames.simps(3) subject_preimage_framed)
qed (simp_all add: mutation_digest_def query_digest_def recovery_hash_def subject_preimage_def)

fun subject_domain :: "authorization_subject \<Rightarrow> string" where
  "subject_domain (SubjectMutation m) = ''rss-recovery-mutation-v1''"
| "subject_domain (SubjectQuery q) = ''rss-recovery-query-v1''"
| "subject_domain (SubjectDr p) = ''rss.message-dr.v2''"

lemma hd_subject_frames: "hd (subject_frames s) = ascii_bytes (subject_domain s)"
  by (cases s) (simp_all add: mutation_parts_def query_parts_def plan_frames_def split_def Let_def)

lemma subject_frames_inject:
  assumes "constructed sha256 s" and "constructed sha256 s'" and "subject_frames s = subject_frames s'"
  shows "s = s'"
proof -
  have inj: "map ascii_bytes xs = map ascii_bytes ys \<longleftrightarrow> xs = ys" for xs ys
    by (intro inj_map_eq_map) (auto simp: inj_def)
  have "subject_domain s = subject_domain s'" using arg_cong [OF assms(3), of hd] by (simp add: hd_subject_frames)
  then consider m m' where "s = SubjectMutation m" "s' = SubjectMutation m'"
    | q q' where "s = SubjectQuery q" "s' = SubjectQuery q'" | p p' where "s = SubjectDr p" "s' = SubjectDr p'"
    by (cases s; cases s') simp_all
  then show ?thesis
  proof cases
    case 1
    then show ?thesis using assms(3) mutation_parts_inject by (simp add: inj)
  next
    case 2
    then show ?thesis using assms query_parts_inject by (simp add: inj del: constructed.simps)
  next
    case 3
    then show ?thesis using assms plan_frames_inject by (simp del: constructed.simps)
  qed
qed

text \<open>C22. What is hashed determines what is authorized: two requests as the constructors make them (a
  mutation, a bounded query or a recovery plan) give SHA-256 the same input only when they are the
  same request of the same kind, and the digest of each is SHA-256 of that input. Tenant, operation, target, revision, action, cursor, page size,
  storage, epochs, evidence and every member are bound, and no byte can move between them.\<close>

theorem recovery_request_bound:
  assumes "subject_ok sha256 s" and "subject_ok sha256 s'"
  shows "(subject_preimage s = subject_preimage s' \<longleftrightarrow> s = s') \<and>
    subject_digest sha256 s = sha256 (subject_preimage s) \<and> subject_digest sha256 s' = sha256 (subject_preimage s')"
  using framed_inject_all [of 8 "subject_frames s" "subject_frames s'"] subject_frames_inject [of sha256 s s'] assms
    constructed_digest [of sha256 s] constructed_digest [of sha256 s']
  by (auto simp: subject_ok_def subject_preimage_framed u64_range)

theorem recovery_request_bound_witness:
  "subject_ok (\<lambda>_. []) (SubjectQuery (query_inspect 1 (TargetOutbox ''m''))) \<and>
   subject_preimage (SubjectQuery (query_inspect 1 (TargetOutbox ''m''))) \<noteq>
     subject_preimage (SubjectQuery (query_inspect 1 (TargetOutbox ''n'')))"
proof -
  have "message_id_parse [c] = Ok [c]" if "identity_byte c" for c
    using that by (simp add: message_id_parse_def validate_transport_identity_def message_id_max_len_def)
  moreover have "identity_byte CHR ''m''" "identity_byte CHR ''n''" by code_simp+
  ultimately have ok: "subject_ok (\<lambda>_. []) (SubjectQuery (query_inspect 1 (TargetOutbox m)))" if "m = ''m'' \<or> m = ''n''" for m
    using that by (auto simp: subject_ok_def target_ok_def query_parts_def query_inspect_def show_nat.simps
        intro!: exI [of _ 1] exI [of _ "TargetOutbox m"])
  then show ?thesis
    using recovery_request_bound [of "\<lambda>_. []" "SubjectQuery (query_inspect 1 (TargetOutbox ''m''))"
        "SubjectQuery (query_inspect 1 (TargetOutbox ''n''))"]
    by (simp add: query_inspect_def)
qed

subsection \<open>Authorization\<close>

definition challenge_for :: "(bytes \<Rightarrow> bytes) \<Rightarrow> authorization_subject \<Rightarrow> rec_challenge" where
  "challenge_for sha256 s = \<lparr>ch_subject = s, ch_digest = subject_digest sha256 s, ch_tenant = subject_tenant s\<rparr>"

definition proof_for :: "(bytes \<Rightarrow> bytes) \<Rightarrow> authorization_subject \<Rightarrow> rec_authorization" where
  "proof_for sha256 s = challenge_authorized (challenge_for sha256 s)"

text \<open>The three entry points as one.\<close>

fun authorize_subject ::
  "(bytes \<Rightarrow> bytes) \<Rightarrow> rec_authorizer \<Rightarrow> authorization_subject \<Rightarrow> instant \<Rightarrow> deadline
     \<Rightarrow> recovery_error + authorization_subject" where
  "authorize_subject sha256 az (SubjectMutation m) now cutoff =
     and_then (authorize_mutation sha256 az m now cutoff) (\<lambda>x. Ok (SubjectMutation x))"
| "authorize_subject sha256 az (SubjectQuery q) now cutoff =
     and_then (authorize_query sha256 az q now cutoff) (\<lambda>x. Ok (SubjectQuery x))"
| "authorize_subject sha256 az (SubjectDr p) now cutoff =
     and_then (authorize_dr az p now cutoff) (\<lambda>x. Ok (SubjectDr x))"

lemma proof_for_eq:
  "a = proof_for sha256 s \<longleftrightarrow> az_digest a = subject_digest sha256 s \<and> az_tenant a = subject_tenant s"
  by (cases a) (auto simp: proof_for_def challenge_for_def challenge_authorized_def)

lemma within_call_Some: "within_call dl now f = Some x \<longleftrightarrow> now < dl \<and> f (dl - now) = Some x"
  by (auto simp: within_call_def Let_def from_cutoff_def remaining_or_zero_def deadline_remaining_def)

lemma authorize_subject_Ok:
  "authorize_subject sha256 az s now cutoff = Ok x \<longleftrightarrow>
     x = s \<and> now < cutoff \<and> az (challenge_for sha256 s) (cutoff - now) = Some (Ok (proof_for sha256 s))"
proof -
  have "az c d = Some (Ok (proof_for sha256 s)) \<longleftrightarrow>
      (\<exists>a. az c d = Some (Ok a) \<and> az_digest a = subject_digest sha256 s \<and> az_tenant a = subject_tenant s)" for c d
    using proof_for_eq by metis
  then show ?thesis
    by (cases s)
      (auto simp: authorize_mutation_def authorize_query_def authorize_dr_def Let_def and_then_Inr_iff within_call_Some
        challenge_for_def split: if_splits)
qed

text \<open>C16. An authorization is for one request. A request is let through unchanged exactly when, before
  the cutoff, the authorizer answered its challenge with the proof minted for that very challenge; a
  proof minted for any other request, also one of another kind or another tenant, is refused unless two
  different inputs collide under SHA-256; an elapsed cutoff never reaches the authorizer.\<close>

theorem authorization_binds_request:
  "(authorize_subject sha256 az s now cutoff = Ok x \<longleftrightarrow>
      x = s \<and> now < cutoff \<and> az (challenge_for sha256 s) (cutoff - now) = Some (Ok (proof_for sha256 s))) \<and>
   (subject_ok sha256 s \<and> subject_ok sha256 s' \<and> s \<noteq> s' \<and> now < cutoff \<and>
      az (challenge_for sha256 s) (cutoff - now) = Some (Ok (proof_for sha256 s')) \<longrightarrow>
      authorize_subject sha256 az s now cutoff = Err RxUnauthorized \<or>
      subject_preimage s \<noteq> subject_preimage s' \<and> sha256 (subject_preimage s) = sha256 (subject_preimage s'))"
proof -
  have refused: "authorize_subject sha256 az s now cutoff = Err RxUnauthorized"
    if "now < cutoff" "az (challenge_for sha256 s) (cutoff - now) = Some (Ok a)" "a \<noteq> proof_for sha256 s" for a
  proof -
    have "within_call cutoff now (az (challenge_for sha256 s)) = Some (Ok a)"
      using that by (simp add: within_call_Some)
    then show ?thesis
      using that(3) by (cases s)
        (auto simp: proof_for_eq authorize_mutation_def authorize_query_def authorize_dr_def challenge_for_def)
  qed
  have "sha256 (subject_preimage s) = sha256 (subject_preimage s')"
    if "subject_ok sha256 s" "subject_ok sha256 s'" "proof_for sha256 s' = proof_for sha256 s"
    using that proof_for_eq [of "proof_for sha256 s'" sha256 s] proof_for_eq [of "proof_for sha256 s'" sha256 s']
      constructed_digest by (simp add: subject_ok_def)
  moreover have "subject_preimage s \<noteq> subject_preimage s'" if "subject_ok sha256 s" "subject_ok sha256 s'" "s \<noteq> s'"
  proof -
    from that have "list_all (\<lambda>f. length f < 256 ^ 8) (subject_frames x)" if "x = s \<or> x = s'" for x
      using that by (auto simp: subject_ok_def u64_range)
    then show ?thesis
      using that framed_inject_all [of 8 "subject_frames s" "subject_frames s'"] subject_frames_inject [of sha256 s s']
      by (auto simp: subject_ok_def subject_preimage_framed)
  qed
  ultimately show ?thesis using refused authorize_subject_Ok by metis
qed

theorem authorization_binds_request_witness:
  "authorize_subject (\<lambda>b. b) (\<lambda>c d. Some (Ok (challenge_authorized c))) (SubjectQuery (query_inspect 1 (TargetDeadLetter (DeadLetterId 2)))) 5 9
     = Ok (SubjectQuery (query_inspect 1 (TargetDeadLetter (DeadLetterId 2)))) \<and>
   authorize_subject (\<lambda>b. b) (\<lambda>c d. Some (Ok (challenge_authorized c))) (SubjectQuery (query_inspect 1 (TargetDeadLetter (DeadLetterId 2)))) 9 9
     \<noteq> Ok (SubjectQuery (query_inspect 1 (TargetDeadLetter (DeadLetterId 2))))"
  using authorization_binds_request [of "\<lambda>b. b" "\<lambda>c d. Some (Ok (challenge_authorized c))"
      "SubjectQuery (query_inspect 1 (TargetDeadLetter (DeadLetterId 2)))" 5 9]
    authorization_binds_request [of "\<lambda>b. b" "\<lambda>c d. Some (Ok (challenge_authorized c))"
      "SubjectQuery (query_inspect 1 (TargetDeadLetter (DeadLetterId 2)))" 9 9]
  by (simp add: proof_for_def)

subsection \<open>Plans\<close>

lemma plan_new_Err: "plan_new sha256 t i st e v ms = Err x \<Longrightarrow> x = RxInvalid"
  by (cases ms; simp add: plan_new_def and_then_Inl_iff map_err_Inl_iff Let_def)
    (auto simp: Let_def split: if_splits)

lemma plan_new_permuted:
  assumes "mset ms = mset ms'" and "plan_new sha256 t i st e v ms = Ok p"
  shows "plan_new sha256 t i st e v ms' = Ok p"
proof -
  from assms(2) have d: "distinct (map member_key ms)" by (simp add: plan_new_Ok)
  then have "sort_key member_key ms = sort_key member_key ms'"
    using assms(1) by (intro sort_key_inj_key_eq) (auto simp: distinct_map)
  moreover have "distinct (map member_key ms')"
    using d assms(1) by (metis mset_eq_imp_distinct_iff mset_map)
  moreover have "set ms = set ms'" "length ms = length ms'" "ms \<noteq> [] \<longleftrightarrow> ms' \<noteq> []"
    using assms(1) mset_eq_setD mset_eq_length by auto
  ultimately show ?thesis using assms(2) by (simp add: plan_new_Ok list_all_iff)
qed

text \<open>C28. A recovery plan is canonical: whatever the order in which the members are given, the same set
  gives the same plan or is refused alike. An accepted plan has between 1 and 500 members of one
  direction, no message twice for a group, no consumer of another tenant, in ascending key order, and
  advances the epoch by exactly one without overflow.\<close>

theorem recovery_plan_canonical:
  assumes "mset ms = mset ms'"
  shows "plan_new sha256 t i st e v ms = plan_new sha256 t i st e v ms' \<and>
    (\<forall>p. plan_new sha256 t i st e v ms = Ok p \<longrightarrow>
       mset (plan_members p) = mset ms \<and> length (plan_members p) \<in> {1..500} \<and>
       sorted_wrt (<) (map member_key (plan_members p)) \<and>
       (\<exists>d. list_all (\<lambda>m. member_direction m = d \<and> \<not> foreign_consumer t m) (plan_members p)) \<and>
       dp_expected p = e \<and> dp_next p = e + 1 \<and> in_i64 (dp_next p))"
proof
  show "plan_new sha256 t i st e v ms = plan_new sha256 t i st e v ms'"
    using plan_new_permuted [OF assms] plan_new_permuted [OF assms [symmetric]]
    by (metis (no_types) plan_new_Err sumE)
  have "mset (plan_members p) = mset ms \<and> length (plan_members p) \<in> {1..500} \<and>
       sorted_wrt (<) (map member_key (plan_members p)) \<and>
       (\<exists>d. list_all (\<lambda>m. member_direction m = d \<and> \<not> foreign_consumer t m) (plan_members p)) \<and>
       dp_expected p = e \<and> dp_next p = e + 1 \<and> in_i64 (dp_next p)" if "plan_new sha256 t i st e v ms = Ok p" for p
  proof -
    from that obtain d where p: "p = sealed_plan sha256 t i st e (PlanRecover v d (sort_key member_key ms))"
      "list_all (\<lambda>m. member_direction m = d \<and> \<not> foreign_consumer t m) ms" "distinct (map member_key ms)"
      "0 \<le> e" "e < i64_max" "ms \<noteq> []" "length ms \<le> 500"
      by (auto simp: plan_new_Ok max_members_def)
    have "distinct (map member_key (sort_key member_key ms))"
      using p(3) by (metis mset_eq_imp_distinct_iff mset_map mset_sort)
    then have "sorted_wrt (<) (map member_key (sort_key member_key ms))"
      by (simp add: strict_sorted_iff)
    with p show ?thesis
      by (auto simp: plan_members_def list_all_iff i64_defs Suc_le_eq)
  qed
  then show "\<forall>p. plan_new sha256 t i st e v ms = Ok p \<longrightarrow>
       mset (plan_members p) = mset ms \<and> length (plan_members p) \<in> {1..500} \<and>
       sorted_wrt (<) (map member_key (plan_members p)) \<and>
       (\<exists>d. list_all (\<lambda>m. member_direction m = d \<and> \<not> foreign_consumer t m) (plan_members p)) \<and>
       dp_expected p = e \<and> dp_next p = e + 1 \<and> in_i64 (dp_next p)"
    by blast
qed

definition example_members :: "dr_member list" where
  "example_members = [DrOutbox ''b'' [1] (RecVersion 1), DrOutbox ''a'' [2] (RecVersion 3)]"

theorem recovery_plan_canonical_witness:
  "\<exists>p. plan_new (\<lambda>b. b) 1 (OperationId 2) \<lparr>si_target = [1], si_lineage = [2]\<rparr> 7 \<lparr>rv_database = [1], rv_broker = [2]\<rparr> example_members = Ok p \<and>
     plan_new (\<lambda>b. b) 1 (OperationId 2) \<lparr>si_target = [1], si_lineage = [2]\<rparr> 7 \<lparr>rv_database = [1], rv_broker = [2]\<rparr> (rev example_members) = Ok p \<and>
     dp_next p = 8 \<and> sorted_wrt (<) (map member_key (plan_members p))"
proof -
  let ?new = "plan_new (\<lambda>b. b) 1 (OperationId 2) \<lparr>si_target = [1], si_lineage = [2]\<rparr> 7 \<lparr>rv_database = [1], rv_broker = [2]\<rparr>"
  have "\<exists>p. ?new example_members = Ok p"
    by (auto simp: plan_new_Ok example_members_def max_members_def i64_defs member_key_def foreign_consumer_def)
  then obtain p where p: "?new example_members = Ok p" ..
  with recovery_plan_canonical [of example_members "rev example_members" "\<lambda>b. b" 1 "OperationId 2"
      "\<lparr>si_target = [1], si_lineage = [2]\<rparr>" 7 "\<lparr>rv_database = [1], rv_broker = [2]\<rparr>"]
  show ?thesis by (intro exI [of _ p]) simp
qed

subsection \<open>Cursors\<close>

text \<open>A page continues only where it was cut: a cursor made for a query is accepted exactly for the same
  tenant and source, and then resumes after the key it was made from.\<close>

theorem cursor_bound_to_scope:
  "query_list t s n (Some (query_cursor q key)) = Ok q' \<longleftrightarrow>
     t = rq_tenant q \<and> s = rq_kind q \<and> 0 < n \<and> n \<le> 1000 \<and> key \<noteq> [] \<and> length key \<le> 512 \<and>
     q' = \<lparr>rq_tenant = t, rq_kind = s, rq_after = Some key, rq_limit = n, rq_target = None\<rparr>"
proof -
  have "query_cursor q key = cursor_prefix t s @ key' \<longleftrightarrow> t = rq_tenant q \<and> s = rq_kind q \<and> key = key'" for key'
  proof -
    have "query_cursor q key = cursor_prefix t s @ key' \<longleftrightarrow>
        rq_tenant q = t \<and> source_label (rq_kind q) @ '':'' @ key = source_label s @ '':'' @ key'"
      by (auto simp: query_cursor_def cursor_prefix_def append_eq_append_conv)
    also have "source_label (rq_kind q) @ '':'' @ key = source_label s @ '':'' @ key' \<longleftrightarrow> rq_kind q = s \<and> key = key'"
      by (cases "rq_kind q"; cases s) simp_all
    finally show ?thesis by auto
  qed
  then show ?thesis by (auto simp: query_list_Ok)
qed

subsection \<open>Settlement\<close>

interpretation store_port: port_operation "StoreMutate m" mutate_answer "StoreReceipt m" receipt_answer for m
  by unfold_locales simp

interpretation dr_port: port_operation "DrApply p" dr_apply_answer "DrReceipt p" dr_receipt_answer for p
  by unfold_locales simp

text \<open>C10. A rcv_mutation is rcv_settled with the certainty its store gave, never more. For every behaviour of the
  clock and the store the execution returns; the mutation is issued at most once, and so is the readback,
  which happens only after an unknown commit. Success rests on an acknowledged commit or on the exact
  receipt read back; a rollback, a failed rollback and a lost fence on the store's own answer;
  "not started" on the store's answer or on an elapsed budget with nothing issued. One observation closes
  the run, with the status and the error that are returned.\<close>

theorem recovery_mutation_settled:
  assumes "\<And>x w. fits_port (StoreMutate m) mutate_answer (StoreReceipt m) receipt_answer x (fst (te_answer env x w))"
    and "run_task env (recovery_execute m deadlines) w = (es, r, w')"
  shows "\<exists>a l. r = Some a \<and>
     es = l @ [Issued (Observe \<lparr>ro_action = mutation_action_kind (mu_action m), ro_status = attempt_status_of a, ro_error = attempt_error a\<rparr>)] \<and>
     silent is_observation l \<and> called_once (StoreMutate m) (StoreReceipt m) l \<and>
     port_evidence (StoreMutate m) mutate_answer (StoreReceipt m) receipt_answer RxDeadline a l"
  using store_port.run_settles [OF assms(1) assms(2) [unfolded recovery_execute_def Let_def]]
  by (simp add: attempt_observed_def)

text \<open>The same for the application of a recovery plan.\<close>

theorem recovery_plan_settled:
  assumes "\<And>x w. fits_port (DrApply p) dr_apply_answer (DrReceipt p) dr_receipt_answer x (fst (te_answer env x w))"
    and "run_task env (dr_execute p deadlines) w = (es, r, w')"
  shows "\<exists>a l. r = Some a \<and>
     es = l @ [Issued (Observe \<lparr>ro_action = plan_action_kind (dp_action p), ro_status = attempt_status_of a, ro_error = attempt_error a\<rparr>)] \<and>
     silent is_observation l \<and> called_once (DrApply p) (DrReceipt p) l \<and>
     port_evidence (DrApply p) dr_apply_answer (DrReceipt p) dr_receipt_answer RxDeadline a l"
  using dr_port.run_settles [OF assms(1) assms(2) [unfolded dr_execute_def]]
  by (simp add: attempt_observed_def)

definition example_mutation :: rcv_mutation where
  "example_mutation = \<lparr>mu_tenant = 1, mu_operation = OperationId 2, mu_target = TargetOutbox ''m'', mu_version = RecVersion 1, mu_action = ActRedrive\<rparr>"

text \<open>A store that loses the acknowledgement and finds the receipt.\<close>

definition example_store ::
  "((recovery_call, recovery_observation) bounded_request, recovery_answer bounded_reply, unit) task_env" where
  "example_store =
     \<lparr>te_choose = (\<lambda>w. (False, w)), te_issue = (\<lambda>x w. w),
      te_answer = (\<lambda>x w. ((case x of
         Port (StoreMutate m d) \<Rightarrow> PortReply (MutateAnswer (LtCommitUnknown RxConflict))
       | Port _ \<Rightarrow> PortReply (ReceiptAnswer (Ok (Some \<lparr>rr_request = example_mutation, rr_outcome = Redriven, rr_version = RecVersion 2\<rparr>)))
       | Observe _ \<Rightarrow> PortReply (MutateAnswer (LtCommitUnknown RxConflict))
       | ClockNow \<Rightarrow> NowIs 3), w))\<rparr>"

theorem recovery_mutation_settled_witness:
  "fst (snd (run_task example_store (recovery_execute example_mutation \<lparr>ed_operation = 5, ed_settlement = 8\<rparr>) ())) =
     Some (LtCommitted \<lparr>rr_request = example_mutation, rr_outcome = Redriven, rr_version = RecVersion 2\<rparr>) \<and>
   called_once (StoreMutate example_mutation) (StoreReceipt example_mutation)
     (butlast (fst (run_task example_store (recovery_execute example_mutation \<lparr>ed_operation = 5, ed_settlement = 8\<rparr>) ())))"
proof -
  let ?t = "recovery_execute example_mutation \<lparr>ed_operation = 5, ed_settlement = 8\<rparr>"
  obtain es r w' where run: "run_task example_store ?t () = (es, r, w')" using prod_cases3 by blast
  have "fits_port (StoreMutate example_mutation) mutate_answer (StoreReceipt example_mutation) receipt_answer x
      (fst (te_answer example_store x w))" for x w
    by (auto simp: fits_port_def example_store_def split: bounded_request.split recovery_call.split)
  from recovery_mutation_settled [OF this run]
  have "called_once (StoreMutate example_mutation) (StoreReceipt example_mutation) (butlast es)" by auto
  moreover have "fst (snd (run_task example_store ?t ())) =
     Some (LtCommitted \<lparr>rr_request = example_mutation, rr_outcome = Redriven, rr_version = RecVersion 2\<rparr>)"
    by code_simp
  ultimately show ?thesis using run by simp
qed

end
