(* ===== verification/Recovery_Capsule.thy ===== *)
theory Recovery_Capsule
  imports Recovery_Model
begin

section \<open>Protected dead letters and their archive objects\<close>

text \<open>
  Models \<^verbatim>\<open>protection.rs\<close>, \<^verbatim>\<open>archive/model.rs\<close> and \<^verbatim>\<open>archive/crypto.rs\<close> of
  \<^verbatim>\<open>crates/transactional-messaging-recovery/src\<close>, and the correlation identifier of
  \<^verbatim>\<open>crates/diagctx/src/ctx.rs\<close>: the authored envelope, the capsule that binds it to the coordinates of
  one dead letter, and the archive object made of it. Parameters are SHA-256, the parser of the uuid
  library, the JSON codec of serde for each stored type, and the two ciphers behind the \<open>Aead\<close> trait.
  Zeroing of memory on drop is not modelled.
\<close>

subsection \<open>Parameters\<close>

text \<open>A \<open>str\<close> is its bytes, as characters; \<open>text_of\<close> reads bytes as such a string.\<close>

definition text_of :: "bytes \<Rightarrow> string" where
  "text_of b = map (\<lambda>x. char_of (unat x)) b"

record rec_envelope =
  ev_id :: string
  ev_tenant :: string
  ev_occurred_at :: int
  ev_domain :: string
  ev_route :: string
  ev_contract :: string
  ev_version :: string
  ev_schema :: string
  ev_correlation :: "string option"
  ev_partition :: "string option"
  ev_causation :: "string option"
  ev_attributes :: "(string \<times> string) list"
  ev_payload :: bytes

record stored_cipher =
  sc_version :: nat
  sc_key :: bytes
  sc_key_version :: nat
  sc_nonce :: bytes
  sc_ciphertext :: bytes
  sc_tag :: bytes

record archive_canonical =
  ac_version :: nat
  ac_tenant :: string
  ac_dead_letter :: string
  ac_captured_at :: int
  ac_reason :: string
  ac_fingerprint :: bytes
  ac_authored :: string

record rec_env =
  re_sha256 :: "bytes \<Rightarrow> bytes"
  re_uuid :: "ustring \<Rightarrow> 128 word option"
  re_envelope_enc :: "rec_envelope \<Rightarrow> string option"
  re_envelope_dec :: "string \<Rightarrow> rec_envelope option"
  re_cipher_enc :: "stored_cipher \<Rightarrow> bytes option"
  re_cipher_dec :: "bytes \<Rightarrow> stored_cipher option"
  re_canonical_enc :: "archive_canonical \<Rightarrow> bytes option"
  re_canonical_dec :: "bytes \<Rightarrow> archive_canonical option"
  re_hot_key :: "bytes \<Rightarrow> bytes option"

record aead =
  ae_seal :: "bytes \<Rightarrow> derived_aad \<Rightarrow> ciphertext_envelope option"
  ae_open :: "ciphertext_envelope \<Rightarrow> derived_aad \<Rightarrow> bytes option"

text \<open>\<open>str::from_utf8\<close>.\<close>

definition utf8_cont :: "u8 \<Rightarrow> bool" where
  "utf8_cont b \<longleftrightarrow> 128 \<le> b \<and> b \<le> 191"

function (sequential) utf8_valid :: "bytes \<Rightarrow> bool" where
  "utf8_valid [] = True"
| "utf8_valid (a # bs) =
     (if a \<le> 127 then utf8_valid bs
      else if 194 \<le> a \<and> a \<le> 223 then (case bs of b # r \<Rightarrow> utf8_cont b \<and> utf8_valid r | _ \<Rightarrow> False)
      else if 224 \<le> a \<and> a \<le> 239 then
        (case bs of b # c # r \<Rightarrow>
           (if a = 224 then 160 \<le> b \<and> b \<le> 191 else if a = 237 then 128 \<le> b \<and> b \<le> 159 else utf8_cont b) \<and>
           utf8_cont c \<and> utf8_valid r
         | _ \<Rightarrow> False)
      else if 240 \<le> a \<and> a \<le> 244 then
        (case bs of b # c # d # r \<Rightarrow>
           (if a = 240 then 144 \<le> b \<and> b \<le> 191 else if a = 244 then 128 \<le> b \<and> b \<le> 143 else utf8_cont b) \<and>
           utf8_cont c \<and> utf8_cont d \<and> utf8_valid r
         | _ \<Rightarrow> False)
      else False)"
  by pat_completeness auto
termination by (relation "measure length") auto

datatype correlation_id_error = CorrEmpty | CorrTooLong | CorrInvalidChar

definition correlation_byte :: "char \<Rightarrow> bool" where
  "correlation_byte c \<longleftrightarrow> is_ascii_alphanumeric c \<or> c \<in> {CHR ''-'', CHR ''_'', CHR ''.''}"

definition correlation_id_parse :: "string \<Rightarrow> correlation_id_error + string" where
  "correlation_id_parse raw =
     (if raw = [] then Err CorrEmpty
      else if length raw > 128 then Err CorrTooLong
      else if \<not> list_all correlation_byte raw then Err CorrInvalidChar
      else Ok raw)"

subsection \<open>The authored envelope\<close>

definition envelope_encode :: "rec_env \<Rightarrow> message_envelope \<Rightarrow> recovery_error + string" where
  "envelope_encode env m =
     (let md = me_metadata m in
      ok_or (re_envelope_enc env
        \<lparr>ev_id = me_id m, ev_tenant = uuid_text (mm_tenant md), ev_occurred_at = mm_occurred_at md,
         ev_domain = mm_domain md, ev_route = mm_route md, ev_contract = ci_id (mm_contract md),
         ev_version = contract_version_display (ci_version (mm_contract md)),
         ev_schema = ci_schema_digest (mm_contract md), ev_correlation = mm_correlation md,
         ev_partition = map_option pt_key (mm_partition md), ev_causation = mm_causation md,
         ev_attributes = mm_attributes md, ev_payload = me_payload m\<rparr>) RxProtection)"

definition protect :: "'e + 'a \<Rightarrow> recovery_error + 'a" where
  "protect r = map_err (\<lambda>_. RxProtection) r"

definition parse_optional :: "(string \<Rightarrow> 'e + string) \<Rightarrow> string option \<Rightarrow> recovery_error + string option" where
  "parse_optional parse v = (case v of None \<Rightarrow> Ok None | Some s \<Rightarrow> and_then (protect (parse s)) (\<lambda>x. Ok (Some x)))"

definition envelope_decode :: "rec_env \<Rightarrow> string \<Rightarrow> recovery_error + message_envelope" where
  "envelope_decode env raw =
     and_then (ok_or (re_envelope_dec env raw) RxProtection) (\<lambda>v.
     and_then (protect (contract_id_parse (ev_contract v))) (\<lambda>cid.
     and_then (protect (contract_version_parse (ev_version v))) (\<lambda>cversion.
     and_then (protect (schema_digest_parse (ev_schema v))) (\<lambda>cschema.
     and_then (protect (tenant_id_parse (re_uuid env) (ut (ev_tenant v)))) (\<lambda>tenant.
     and_then (protect (timepoint_try_from_i64 (ev_occurred_at v))) (\<lambda>occurred.
     and_then (protect (messaging_domain_parse (ev_domain v))) (\<lambda>domain.
     and_then (protect (message_route_parse (ev_route v))) (\<lambda>route.
     and_then (parse_optional correlation_id_parse (ev_correlation v)) (\<lambda>correlation.
     and_then (parse_optional partition_key_parse (ev_partition v)) (\<lambda>partition.
     and_then (parse_optional message_id_parse (ev_causation v)) (\<lambda>causation.
     and_then (protect (message_id_parse (ev_id v))) (\<lambda>i.
       Ok (envelope_new i
         (message_metadata_new
           \<lparr>am_tenant = tenant, am_occurred_at = occurred, am_domain = domain, am_route = route,
            am_contract = \<lparr>ci_id = cid, ci_version = cversion, ci_schema_digest = cschema\<rparr>\<rparr>
           \<lparr>mx_correlation = correlation, mx_partition_key = partition, mx_causation = causation,
            mx_attributes = ev_attributes v\<rparr>)
         (ev_payload v))))))))))))))"

subsection \<open>Capsules\<close>

record capture_context =
  cx_id :: dead_letter_id
  cx_consumer :: consumer_identity
  cx_fingerprint :: fingerprint

definition hex_string :: "bytes \<Rightarrow> string" where
  "hex_string b = map char_of (concat (map (\<lambda>x. hex_text 2 (unat x)) b))"

definition derive_aad :: "tenant_id \<Rightarrow> string \<Rightarrow> string \<Rightarrow> nat \<Rightarrow> aad_error + derived_aad" where
  "derive_aad t key field version =
     and_then (protection_context_new t (ascii_bytes key) (ascii_bytes field) version) (\<lambda>c. Ok (aad_derive c))"

definition context_parts :: "rec_env \<Rightarrow> capture_context \<Rightarrow> string list" where
  "context_parts env cx =
     (let c = cx_consumer cx; contract = cn_contract c in
      [dead_letter_id_text (cx_id cx), cn_message_id c, cn_group c, ci_id contract,
       contract_version_display (ci_version contract), ci_schema_digest contract,
       hex_string (re_sha256 env (cx_fingerprint cx))])"

definition context_aad :: "rec_env \<Rightarrow> capture_context \<Rightarrow> recovery_error + derived_aad" where
  "context_aad env cx =
     (let coordinates = recovery_hash (re_sha256 env) (context_parts env cx) in
      protect (derive_aad (cn_tenant (cx_consumer cx)) (hex_string coordinates) ''rss.message.recovery.capsule'' 1))"

definition context_validate :: "rec_env \<Rightarrow> capture_context \<Rightarrow> message_envelope \<Rightarrow> recovery_error + unit" where
  "context_validate env cx m =
     (if mm_tenant (me_metadata m) \<noteq> cn_tenant (cx_consumer cx) \<or> me_id m \<noteq> cn_message_id (cx_consumer cx)
         \<or> mm_contract (me_metadata m) \<noteq> cn_contract (cx_consumer cx)
         \<or> fingerprint_of (re_sha256 env) m \<noteq> cx_fingerprint cx
      then Err RxProtection else Ok ())"

definition capsule_from_provider :: "bytes \<Rightarrow> recovery_error + bytes" where
  "capsule_from_provider b = (if b = [] \<or> length b > 16 * 1024 * 1024 then Err RxProtection else Ok b)"

definition capsule_plain_max :: nat where
  "capsule_plain_max = 4 * 1024 * 1024"

definition capsule_seal :: "rec_env \<Rightarrow> aead \<Rightarrow> capture_context \<Rightarrow> message_envelope \<Rightarrow> recovery_error + bytes" where
  "capsule_seal env key cx m =
     and_then (context_validate env cx m) (\<lambda>_.
     and_then (envelope_encode env m) (\<lambda>plain.
     if length plain > capsule_plain_max then Err RxProtection
     else
     and_then (context_aad env cx) (\<lambda>aad.
     and_then (ok_or (ae_seal key (ascii_bytes plain) aad) RxProtection) (\<lambda>cipher.
     if ce_alg cipher \<noteq> Aes256Gcm \<or> ce_mode cipher \<noteq> RandomizedMode \<or> ce_aad cipher \<noteq> da_aad aad then Err RxProtection
     else
     and_then (ok_or (re_cipher_enc env
         \<lparr>sc_version = 1, sc_key = ce_kid cipher, sc_key_version = ce_key_version cipher, sc_nonce = ce_nonce cipher,
          sc_ciphertext = ce_ciphertext cipher, sc_tag = ce_tag cipher\<rparr>) RxProtection)
       capsule_from_provider))))"

definition stored_envelope :: "stored_cipher \<Rightarrow> derived_aad \<Rightarrow> envelope_error + ciphertext_envelope" where
  "stored_envelope s aad =
     ciphertext_envelope_new Aes256Gcm RandomizedMode (sc_key s) (sc_key_version s) (sc_nonce s) (sc_ciphertext s)
       (sc_tag s) (da_aad aad)"

definition capsule_open :: "rec_env \<Rightarrow> aead \<Rightarrow> capture_context \<Rightarrow> bytes \<Rightarrow> recovery_error + message_envelope" where
  "capsule_open env key cx capsule =
     and_then (ok_or (re_cipher_dec env capsule) RxProtection) (\<lambda>stored.
     if sc_version stored \<noteq> 1 then Err RxProtection
     else
     and_then (context_aad env cx) (\<lambda>aad.
     and_then (protect (stored_envelope stored aad)) (\<lambda>cipher.
     and_then (ok_or (ae_open key cipher aad) RxProtection) (\<lambda>plain.
     if length plain > capsule_plain_max then Err RxProtection
     else if \<not> utf8_valid plain then Err RxProtection
     else
     and_then (envelope_decode env (text_of plain)) (\<lambda>message.
     and_then (context_validate env cx message) (\<lambda>_. Ok message))))))"

subsection \<open>Archive values\<close>

datatype archive_error =
  AxInvalid | AxUnauthorized | AxConflict | AxBusy | AxNotFound | AxRetention | AxProtection | AxEvidence | AxMissing
  | AxUnavailable | AxPermanent | AxStorageContract | AxDeadline

record retention =
  rt_hot_seconds :: int
  rt_cold_seconds :: int

definition retention_new :: "int \<Rightarrow> int \<Rightarrow> archive_error + retention" where
  "retention_new hot cold =
     (if hot \<le> 0 \<or> cold \<le> 0 then Err AxRetention else Ok \<lparr>rt_hot_seconds = hot, rt_cold_seconds = cold\<rparr>)"

definition validate_hot_floor :: "retention \<Rightarrow> int \<Rightarrow> int \<Rightarrow> archive_error + unit" where
  "validate_hot_floor r window safety =
     (if window \<le> 0 \<or> safety \<le> 0 then Err AxRetention
      else and_then (ok_or (i64_checked_add window safety) AxRetention) (\<lambda>floor.
        if rt_hot_seconds r < floor then Err AxRetention else Ok ()))"

definition minimum_lock_until :: "retention \<Rightarrow> int \<Rightarrow> int \<Rightarrow> archive_error + int" where
  "minimum_lock_until r now receipt =
     (if receipt \<le> 0 then Err AxRetention
      else ok_or (i64_checked_add now (max (rt_cold_seconds r) receipt)) AxRetention)"

datatype hold = Retain | Release

record archive_request =
  ar_tenant :: tenant_id
  ar_id :: dead_letter_id
  ar_operation :: operation_id
  ar_version :: rec_version
  ar_retention :: retention
  ar_hold :: hold

definition archive_request_parts :: "archive_request \<Rightarrow> string list" where
  "archive_request_parts r =
     [''rss-archive-request-v1'', uuid_text (ar_tenant r), dead_letter_id_text (ar_id r), operation_id_text (ar_operation r),
      show_i64 (rec_version_get (ar_version r)), show_i64 (rt_hot_seconds (ar_retention r)),
      show_i64 (rt_cold_seconds (ar_retention r)), (case ar_hold r of Retain \<Rightarrow> ''hold'' | Release \<Rightarrow> ''release'')]"

definition archive_digest :: "(bytes \<Rightarrow> bytes) \<Rightarrow> archive_request \<Rightarrow> bytes" where
  "archive_digest sha256 r = recovery_hash sha256 (archive_request_parts r)"

text \<open>The product answers a challenge with the digest of the request it authorized.\<close>

definition archive_authorize ::
  "(bytes \<Rightarrow> bytes) \<Rightarrow> (archive_request \<Rightarrow> duration \<Rightarrow> (archive_error + bytes) reply) \<Rightarrow> archive_request
     \<Rightarrow> instant \<Rightarrow> deadline \<Rightarrow> archive_error + archive_request" where
  "archive_authorize sha256 authorizer request now cutoff =
     and_then (ok_or (within_call cutoff now (authorizer request)) AxDeadline) (\<lambda>answer.
       and_then answer (\<lambda>proof.
         if proof \<noteq> archive_digest sha256 request then Err AxUnauthorized else Ok request))"

record archive_candidate =
  cand_context :: capture_context
  cand_capsule :: bytes
  cand_reason :: reject_kind
  cand_captured_at :: int

record archive_object =
  ao_key :: string
  ao_checksum :: bytes
  ao_length :: nat
  ao_version :: "string option"
  ao_retain_until :: int

record archive_prepared =
  ap_object :: archive_object
  ap_bytes :: bytes

record archive_claim =
  cl_retired :: "archive_object list"
  cl_generation :: string
  cl_token :: string
  cl_request_digest :: bytes
  cl_candidate :: "archive_candidate option"
  cl_prepared :: "archive_prepared option"
  cl_object :: "archive_object option"
  cl_now :: int
  cl_hot_until :: int
  cl_receipt_seconds :: int
  cl_purged :: bool

record object_observation =
  ob_object :: archive_object
  ob_compliance :: bool
  ob_bytes :: "bytes option"

datatype verified_proof = Verified archive_object bytes string

datatype missing_proof = Missing archive_object bytes string

subsection \<open>Archive objects\<close>

definition format_version :: nat where
  "format_version = 1"

definition object_suffix :: string where
  "object_suffix = ''.v1.enc''"

definition max_object_bytes :: nat where
  "max_object_bytes = 64 * 1024 * 1024"

definition reason_label :: "archive_candidate \<Rightarrow> string" where
  "reason_label c = (case cand_reason c of RejectPermanent \<Rightarrow> ''rejected_permanent'' | RejectInvariant \<Rightarrow> ''rejected_invariant'')"

definition object_key :: "archive_request \<Rightarrow> string \<Rightarrow> string" where
  "object_key r generation =
     ''consumer/'' @ uuid_text (ar_tenant r) @ ''/'' @ dead_letter_id_text (ar_id r) @ ''/'' @ generation @ object_suffix"

definition archive_aad :: "archive_request \<Rightarrow> string \<Rightarrow> archive_error + derived_aad" where
  "archive_aad r key =
     map_err (\<lambda>_. AxProtection) (derive_aad (ar_tenant r) key ''rss.message.recovery.archive'' format_version)"

definition archive_prepare ::
  "rec_env \<Rightarrow> aead \<Rightarrow> aead \<Rightarrow> archive_request \<Rightarrow> archive_claim \<Rightarrow> archive_candidate \<Rightarrow> archive_error + archive_prepared" where
  "archive_prepare env hot archive r claim c =
     (if cx_id (cand_context c) \<noteq> ar_id r \<or> cn_tenant (cx_consumer (cand_context c)) \<noteq> ar_tenant r then Err AxEvidence
      else
        and_then (map_err (\<lambda>_. AxProtection) (capsule_open env hot (cand_context c) (cand_capsule c))) (\<lambda>message.
        and_then (map_err (\<lambda>_. AxProtection) (envelope_encode env message)) (\<lambda>authored.
        and_then (ok_or (re_canonical_enc env
            \<lparr>ac_version = format_version, ac_tenant = uuid_text (ar_tenant r), ac_dead_letter = dead_letter_id_text (ar_id r),
             ac_captured_at = cand_captured_at c, ac_reason = reason_label c,
             ac_fingerprint = cx_fingerprint (cand_context c), ac_authored = authored\<rparr>) AxProtection) (\<lambda>plain.
        let key = object_key r (cl_generation claim) in
        and_then (archive_aad r key) (\<lambda>aad.
        and_then (ok_or (ae_seal archive plain aad) AxProtection) (\<lambda>cipher.
        and_then (ok_or (re_hot_key env (cand_capsule c)) AxProtection) (\<lambda>old.
        if ce_kid cipher = old \<or> ce_alg cipher \<noteq> Aes256Gcm \<or> ce_mode cipher \<noteq> RandomizedMode
           \<or> ce_aad cipher \<noteq> da_aad aad then Err AxProtection
        else
        and_then (ok_or (re_cipher_enc env
            \<lparr>sc_version = format_version, sc_key = ce_kid cipher, sc_key_version = ce_key_version cipher,
             sc_nonce = ce_nonce cipher, sc_ciphertext = ce_ciphertext cipher, sc_tag = ce_tag cipher\<rparr>) AxProtection) (\<lambda>bytes.
        if length bytes > max_object_bytes then Err AxProtection
        else
        and_then (minimum_lock_until (ar_retention r) (max (cl_now claim) (cl_hot_until claim)) (cl_receipt_seconds claim)) (\<lambda>floor.
        and_then (ok_or (i64_checked_add floor (cl_receipt_seconds claim)) AxRetention) (\<lambda>until.
          Ok \<lparr>ap_object = \<lparr>ao_key = key, ao_checksum = re_sha256 env bytes, ao_length = length bytes, ao_version = None,
                            ao_retain_until = until\<rparr>,
              ap_bytes = bytes\<rparr>))))))))))"

definition archive_validate ::
  "rec_env \<Rightarrow> aead \<Rightarrow> archive_request \<Rightarrow> archive_candidate \<Rightarrow> string \<Rightarrow> bytes \<Rightarrow> archive_error + unit" where
  "archive_validate env archive r c key bytes =
     and_then (ok_or (re_cipher_dec env bytes) AxEvidence) (\<lambda>stored.
     if sc_version stored \<noteq> format_version then Err AxEvidence
     else
     and_then (archive_aad r key) (\<lambda>aad.
     and_then (map_err (\<lambda>_. AxEvidence) (stored_envelope stored aad)) (\<lambda>cipher.
     and_then (ok_or (ae_open archive cipher aad) AxProtection) (\<lambda>plain.
     and_then (ok_or (re_canonical_dec env plain) AxEvidence) (\<lambda>v.
     if ac_version v \<noteq> format_version \<or> ac_tenant v \<noteq> uuid_text (ar_tenant r)
        \<or> ac_dead_letter v \<noteq> dead_letter_id_text (ar_id r) \<or> ac_captured_at v \<noteq> cand_captured_at c
        \<or> ac_reason v \<noteq> reason_label c \<or> ac_fingerprint v \<noteq> cx_fingerprint (cand_context c)
     then Err AxEvidence
     else
     and_then (map_err (\<lambda>_. AxEvidence) (envelope_decode env (ac_authored v))) (\<lambda>message.
       map_err (\<lambda>_. AxEvidence) (context_validate env (cand_context c) message)))))))"

section \<open>Theorems\<close>

subsection \<open>The envelope round trip\<close>

text \<open>What the code relies on: serde reads back what it writes and writes UTF-8, the uuid library reads
  back what it prints, and a cipher opens what it sealed, in an envelope made by its constructor.\<close>

definition codec_laws :: "rec_env \<Rightarrow> bool" where
  "codec_laws env \<longleftrightarrow>
     (\<forall>v s. re_envelope_enc env v = Some s \<longrightarrow> re_envelope_dec env s = Some v \<and> utf8_valid (ascii_bytes s)) \<and>
     (\<forall>v b. re_cipher_enc env v = Some b \<longrightarrow> re_cipher_dec env b = Some v) \<and>
     (\<forall>v b. re_canonical_enc env v = Some b \<longrightarrow> re_canonical_dec env b = Some v) \<and>
     (\<forall>u. re_uuid env (hyphenated u) = Some u)"

definition aead_laws :: "aead \<Rightarrow> bool" where
  "aead_laws k \<longleftrightarrow>
     (\<forall>p a c. ae_seal k p a = Some c \<longrightarrow> ae_open k c a = Some p \<and> ce_version c = envelope_version \<and> ce_kid c \<noteq> [])"

fun optional_ok :: "(string \<Rightarrow> 'e + string) \<Rightarrow> string option \<Rightarrow> bool" where
  "optional_ok parse None = True"
| "optional_ok parse (Some s) \<longleftrightarrow> parse s = Ok s"

text \<open>A message whose parts are the values of their constructors.\<close>

definition message_ok :: "message_envelope \<Rightarrow> bool" where
  "message_ok m \<longleftrightarrow>
     (let md = me_metadata m; ct = mm_contract md in
      message_id_parse (me_id m) = Ok (me_id m) \<and> contract_id_parse (ci_id ct) = Ok (ci_id ct) \<and>
      0 < ci_version ct \<and> ci_version ct \<le> u32_max \<and> schema_digest_parse (ci_schema_digest ct) = Ok (ci_schema_digest ct) \<and>
      mm_tenant md \<noteq> 0 \<and> 0 \<le> mm_occurred_at md \<and> messaging_domain_parse (mm_domain md) = Ok (mm_domain md) \<and>
      message_route_parse (mm_route md) = Ok (mm_route md) \<and> optional_ok correlation_id_parse (mm_correlation md) \<and>
      optional_ok message_id_parse (mm_causation md) \<and>
      (case mm_partition md of None \<Rightarrow> True
       | Some p \<Rightarrow> pt_tenant p = mm_tenant md \<and> pt_domain p = mm_domain md \<and> partition_key_parse (pt_key p) = Ok (pt_key p)))"

definition without_transport :: "message_envelope \<Rightarrow> message_envelope" where
  "without_transport m = m\<lparr>me_transport := \<lparr>tc_trace = None, tc_tenant_authority = None\<rparr>\<rparr>"

lemma protect_simps [simp]: "protect (Inl e) = Err RxProtection" "protect (Inr a) = Ok a"
  by (simp_all add: protect_def)

lemma protect_Ok [simp]: "protect r = Ok a \<longleftrightarrow> r = Ok a"
  by (simp add: protect_def)

lemma parse_optional_Ok: "optional_ok parse v \<Longrightarrow> parse_optional parse v = Ok v"
  by (cases v) (simp_all add: parse_optional_def)

lemma ut_uuid_text [simp]: "ut (uuid_text u) = hyphenated u"
  by (auto simp: ut_def uuid_text_def intro!: map_idI dest: hyphenated_ascii)

lemma tenant_read_back: "codec_laws env \<Longrightarrow> t \<noteq> 0 \<Longrightarrow> tenant_id_parse (re_uuid env) (hyphenated t) = Ok t"
  by (subst tenant_parse_iff_canonical) (simp_all add: codec_laws_def tenant_id_display_def)

lemma contract_version_read_back:
  "0 < v \<Longrightarrow> v \<le> u32_max \<Longrightarrow> contract_version_parse (contract_version_display v) = Ok v"
  by (simp add: contract_version_roundtrip)

lemma envelope_roundtrip:
  assumes laws: "codec_laws env" and ok: "message_ok m" and enc: "envelope_encode env m = Ok s"
  shows "envelope_decode env s = Ok (without_transport m)"
proof -
  obtain i tenant occurred corr domain route cid cv cs part caus attrs tr pay where m: "m =
      \<lparr>me_id = i, me_metadata = \<lparr>mm_tenant = tenant, mm_occurred_at = occurred, mm_correlation = corr, mm_domain = domain,
         mm_route = route, mm_contract = \<lparr>ci_id = cid, ci_version = cv, ci_schema_digest = cs\<rparr>, mm_partition = part,
         mm_causation = caus, mm_attributes = attrs\<rparr>, me_transport = tr, me_payload = pay\<rparr>"
    by (metis contract_identity.cases message_envelope.cases message_metadata.cases)
  let ?v = "\<lparr>ev_id = i, ev_tenant = uuid_text tenant, ev_occurred_at = occurred, ev_domain = domain, ev_route = route,
      ev_contract = cid, ev_version = contract_version_display cv, ev_schema = cs, ev_correlation = corr,
      ev_partition = map_option pt_key part, ev_causation = caus, ev_attributes = attrs, ev_payload = pay\<rparr>"
  have "re_envelope_enc env ?v = Some s" using enc by (simp add: envelope_encode_def m Let_def)
  then have dec: "re_envelope_dec env s = Some ?v" using laws by (simp add: codec_laws_def)
  have f: "message_id_parse i = Ok i" "contract_id_parse cid = Ok cid" "contract_version_parse (contract_version_display cv) = Ok cv"
    "schema_digest_parse cs = Ok cs" "tenant_id_parse (re_uuid env) (hyphenated tenant) = Ok tenant" "\<not> occurred < 0"
    "messaging_domain_parse domain = Ok domain" "message_route_parse route = Ok route"
    "parse_optional correlation_id_parse corr = Ok corr" "parse_optional message_id_parse caus = Ok caus"
    "parse_optional partition_key_parse (map_option pt_key part) = Ok (map_option pt_key part)"
    using ok laws
    by (auto simp: message_ok_def m Let_def parse_optional_Ok contract_version_read_back tenant_read_back
        intro!: parse_optional_Ok split: option.splits)
  have part: "map_option (\<lambda>key. \<lparr>pt_tenant = tenant, pt_domain = domain, pt_key = key\<rparr>) (map_option pt_key part) = part"
    using ok by (cases part) (auto simp: message_ok_def m Let_def)
  show ?thesis
    by (simp add: envelope_decode_def dec f timepoint_try_from_i64_def envelope_new_def message_metadata_new_def part
        without_transport_def m)
qed

lemma parse_fixed:
  "message_id_parse s = Ok x \<Longrightarrow> x = s" "messaging_domain_parse s = Ok x \<Longrightarrow> x = s" "message_route_parse s = Ok x \<Longrightarrow> x = s"
  "contract_id_parse s = Ok x \<Longrightarrow> x = s" "schema_digest_parse s = Ok x \<Longrightarrow> x = s"
  by (auto simp: message_id_parse_def messaging_domain_parse_def message_route_parse_def contract_id_parse_def
      schema_digest_parse_def and_then_Inr_iff split: if_splits)

lemma parse_optional_Inr:
  "parse_optional correlation_id_parse v = Ok w \<Longrightarrow> w = v \<and> optional_ok correlation_id_parse v"
  "parse_optional message_id_parse v = Ok w \<Longrightarrow> w = v \<and> optional_ok message_id_parse v"
  "parse_optional partition_key_parse v = Ok w \<Longrightarrow> w = v \<and> optional_ok partition_key_parse v"
  by (cases v; auto simp: parse_optional_def and_then_Inr_iff correlation_id_parse_def message_id_parse_def
      partition_key_parse_def split: if_splits)+

lemma envelope_decode_ok:
  assumes "envelope_decode env s = Ok m"
  shows "message_ok m \<and> without_transport m = m"
proof -
  show ?thesis
    using assms unfolding envelope_decode_def and_then_Inr_iff protect_Ok
  proof (elim exE conjE)
  fix v cid cv cs tenant occurred domain route corr part caus i
  assume p: "contract_id_parse (ev_contract v) = Ok cid" "contract_version_parse (ev_version v) = Ok cv"
      "schema_digest_parse (ev_schema v) = Ok cs" "tenant_id_parse (re_uuid env) (ut (ev_tenant v)) = Ok tenant"
      "timepoint_try_from_i64 (ev_occurred_at v) = Ok occurred" "messaging_domain_parse (ev_domain v) = Ok domain"
      "message_route_parse (ev_route v) = Ok route" "message_id_parse (ev_id v) = Ok i"
    and o: "parse_optional correlation_id_parse (ev_correlation v) = Ok corr"
      "parse_optional message_id_parse (ev_causation v) = Ok caus"
      "parse_optional partition_key_parse (ev_partition v) = Ok part"
    and m: "Ok (envelope_new i
         (message_metadata_new
           \<lparr>am_tenant = tenant, am_occurred_at = occurred, am_domain = domain, am_route = route,
            am_contract = \<lparr>ci_id = cid, ci_version = cv, ci_schema_digest = cs\<rparr>\<rparr>
           \<lparr>mx_correlation = corr, mx_partition_key = part, mx_causation = caus, mx_attributes = ev_attributes v\<rparr>)
         (ev_payload v)) = Ok m"
  note eq = p(1) [THEN parse_fixed(4)] p(3) [THEN parse_fixed(5)] p(6) [THEN parse_fixed(2)] p(7) [THEN parse_fixed(3)]
    p(8) [THEN parse_fixed(1)] o(1) [THEN parse_optional_Inr(1)] o(2) [THEN parse_optional_Inr(2)] o(3) [THEN parse_optional_Inr(3)]
  have "tenant \<noteq> 0" "0 \<le> occurred" "0 < cv" "cv \<le> u32_max"
    using p(2,4,5) by (auto simp: tenant_id_parse_def and_then_Inr_iff timepoint_try_from_i64_def contract_version_roundtrip split: if_splits)
  then show ?thesis
    using p eq m [symmetric]
    by (cases "ev_partition v") (simp_all add: message_ok_def without_transport_def envelope_new_def message_metadata_new_def Let_def)
  qed
qed

subsection \<open>Capsules\<close>

lemma text_of_ascii [simp]: "text_of (ascii_bytes s) = s"
proof -
  have "char_of (unat (word_of_nat (byte_of c) :: u8)) = c" for c
    by (simp add: unat_of_nat take_bit_eq_mod byte_of_def)
  then show ?thesis by (simp add: text_of_def ascii_bytes_def comp_def map_idI)
qed

lemma context_validate_transport: "context_validate env cx (without_transport m) = context_validate env cx m"
  by (simp add: context_validate_def without_transport_def fingerprint_of_def canonical_bytes_def)

lemma stored_envelope_eq:
  assumes "ce_alg c = Aes256Gcm" "ce_mode c = RandomizedMode" "ce_aad c = da_aad a" "ce_version c = envelope_version" "ce_kid c \<noteq> []"
  shows "stored_envelope \<lparr>sc_version = n, sc_key = ce_kid c, sc_key_version = ce_key_version c, sc_nonce = ce_nonce c,
      sc_ciphertext = ce_ciphertext c, sc_tag = ce_tag c\<rparr> a = Ok c"
  using assms by (cases c) (simp add: stored_envelope_def ciphertext_envelope_new_def)

text \<open>C19. A captured dead letter survives its capsule: when serde, the uuid library and the cipher keep their
  contracts, what was sealed under a context opens under that context to the same message, with every
  authored fact and the payload unchanged and the unverified transport data stripped.\<close>

theorem capsule_roundtrip:
  assumes "codec_laws env" and "aead_laws key" and "message_ok m" and "capsule_seal env key cx m = Ok capsule"
  shows "capsule_open env key cx capsule = Ok (without_transport m)"
proof -
  from assms(4) obtain plain aad cipher where
    v: "context_validate env cx m = Ok ()" and e: "envelope_encode env m = Ok plain" "length plain \<le> capsule_plain_max"
    and a: "context_aad env cx = Ok aad" and c: "ae_seal key (ascii_bytes plain) aad = Some cipher"
      "ce_alg cipher = Aes256Gcm" "ce_mode cipher = RandomizedMode" "ce_aad cipher = da_aad aad"
    and s: "re_cipher_enc env \<lparr>sc_version = 1, sc_key = ce_kid cipher, sc_key_version = ce_key_version cipher,
        sc_nonce = ce_nonce cipher, sc_ciphertext = ce_ciphertext cipher, sc_tag = ce_tag cipher\<rparr> = Some capsule"
    by (auto simp: capsule_seal_def and_then_Inr_iff capsule_from_provider_def split: if_splits)
  have "utf8_valid (ascii_bytes plain)"
    using e(1) assms(1) by (auto simp: envelope_encode_def codec_laws_def Let_def)
  moreover have "ae_open key cipher aad = Some (ascii_bytes plain)" "ce_version cipher = envelope_version" "ce_kid cipher \<noteq> []"
    using assms(2) c(1) by (auto simp: aead_laws_def)
  moreover have "re_cipher_dec env capsule = Some \<lparr>sc_version = 1, sc_key = ce_kid cipher, sc_key_version = ce_key_version cipher,
        sc_nonce = ce_nonce cipher, sc_ciphertext = ce_ciphertext cipher, sc_tag = ce_tag cipher\<rparr>"
    using s assms(1) by (simp add: codec_laws_def)
  ultimately show ?thesis
    using envelope_roundtrip [OF assms(1,3) e(1)] v e(2) a c
    by (simp add: capsule_open_def stored_envelope_eq context_validate_transport)
qed

text \<open>Whatever the cipher and the codec do, an opened capsule holds a valid message of the tenant, message
  identity, contract and fingerprint of its context, and no transport data.\<close>

theorem capsule_open_bound:
  assumes "capsule_open env key cx capsule = Ok m"
  shows "message_ok m \<and> without_transport m = m \<and> mm_tenant (me_metadata m) = cn_tenant (cx_consumer cx) \<and>
    me_id m = cn_message_id (cx_consumer cx) \<and> mm_contract (me_metadata m) = cn_contract (cx_consumer cx) \<and>
    fingerprint_of (re_sha256 env) m = cx_fingerprint cx"
proof -
  from assms obtain plain where "envelope_decode env (text_of plain) = Ok m" "context_validate env cx m = Ok ()"
    by (auto simp: capsule_open_def and_then_Inr_iff split: if_splits)
  then show ?thesis using envelope_decode_ok by (auto simp: context_validate_def split: if_splits)
qed

subsection \<open>Archive objects\<close>

lemma minimum_lock_until_Ok:
  "minimum_lock_until r now receipt = Ok n \<longleftrightarrow>
     0 < receipt \<and> n = now + max (rt_cold_seconds r) receipt \<and> in_i64 (now + max (rt_cold_seconds r) receipt)"
  by (auto simp: minimum_lock_until_def i64_checked_add_def split: if_splits)

text \<open>C25. A prepared archive object can replace the hot capsule: it was encrypted under another key, the
  format reader that later mints the purge proof accepts it for the same request and candidate, its
  checksum and length are those of its bytes, at most 64 MiB, and its lock outlasts the strict lower bound,
  both now and at the earliest purge, by a full receipt horizon, without overflow.\<close>

theorem archive_object_replaces_capsule:
  assumes "codec_laws env" and "aead_laws archive" and "archive_prepare env hot archive r claim c = Ok p"
  shows "archive_validate env archive r c (ao_key (ap_object p)) (ap_bytes p) = Ok () \<and>
    (\<exists>x. re_cipher_dec env (ap_bytes p) = Some x \<and> re_hot_key env (cand_capsule c) \<noteq> Some (sc_key x)) \<and>
    ao_checksum (ap_object p) = re_sha256 env (ap_bytes p) \<and> ao_length (ap_object p) = length (ap_bytes p) \<and>
    length (ap_bytes p) \<le> 64 * 1024 * 1024 \<and> in_i64 (ao_retain_until (ap_object p)) \<and>
    (\<forall>t. t \<in> {cl_now claim, cl_hot_until claim} \<longrightarrow>
       t + max (rt_cold_seconds (ar_retention r)) (cl_receipt_seconds claim) + cl_receipt_seconds claim
         \<le> ao_retain_until (ap_object p)) \<and> 0 < cl_receipt_seconds claim"
proof -
  from assms(3) obtain message authored plain aad cipher old bytes floor until where
    m: "capsule_open env hot (cand_context c) (cand_capsule c) = Ok message" "envelope_encode env message = Ok authored"
    and k: "re_canonical_enc env
            \<lparr>ac_version = format_version, ac_tenant = uuid_text (ar_tenant r), ac_dead_letter = dead_letter_id_text (ar_id r),
             ac_captured_at = cand_captured_at c, ac_reason = reason_label c,
             ac_fingerprint = cx_fingerprint (cand_context c), ac_authored = authored\<rparr> = Some plain"
    and a: "archive_aad r (object_key r (cl_generation claim)) = Ok aad" and s: "ae_seal archive plain aad = Some cipher"
    and h: "re_hot_key env (cand_capsule c) = Some old" "ce_kid cipher \<noteq> old"
    and e: "ce_alg cipher = Aes256Gcm" "ce_mode cipher = RandomizedMode" "ce_aad cipher = da_aad aad"
    and b: "re_cipher_enc env \<lparr>sc_version = format_version, sc_key = ce_kid cipher, sc_key_version = ce_key_version cipher,
        sc_nonce = ce_nonce cipher, sc_ciphertext = ce_ciphertext cipher, sc_tag = ce_tag cipher\<rparr> = Some bytes"
      "length bytes \<le> max_object_bytes"
    and f: "minimum_lock_until (ar_retention r) (max (cl_now claim) (cl_hot_until claim)) (cl_receipt_seconds claim) = Ok floor"
      "i64_checked_add floor (cl_receipt_seconds claim) = Some until"
    and p: "p = \<lparr>ap_object = \<lparr>ao_key = object_key r (cl_generation claim), ao_checksum = re_sha256 env bytes,
        ao_length = length bytes, ao_version = None, ao_retain_until = until\<rparr>, ap_bytes = bytes\<rparr>"
    by (auto simp: archive_prepare_def and_then_Inr_iff map_err_Inr_iff Let_def split: if_splits)
  have o: "ae_open archive cipher aad = Some plain" "ce_version cipher = envelope_version" "ce_kid cipher \<noteq> []"
    using assms(2) s by (auto simp: aead_laws_def)
  have d: "re_cipher_dec env bytes = Some \<lparr>sc_version = format_version, sc_key = ce_kid cipher, sc_key_version = ce_key_version cipher,
        sc_nonce = ce_nonce cipher, sc_ciphertext = ce_ciphertext cipher, sc_tag = ce_tag cipher\<rparr>"
    "re_canonical_dec env plain = Some
            \<lparr>ac_version = format_version, ac_tenant = uuid_text (ar_tenant r), ac_dead_letter = dead_letter_id_text (ar_id r),
             ac_captured_at = cand_captured_at c, ac_reason = reason_label c,
             ac_fingerprint = cx_fingerprint (cand_context c), ac_authored = authored\<rparr>"
    using b(1) k assms(1) by (auto simp: codec_laws_def)
  from m(1) obtain raw where "envelope_decode env raw = Ok message" "context_validate env (cand_context c) message = Ok ()"
    by (auto simp: capsule_open_def and_then_Inr_iff split: if_splits)
  moreover from this have "envelope_decode env authored = Ok message"
    using envelope_roundtrip [OF assms(1) _ m(2)] envelope_decode_ok by metis
  ultimately have "archive_validate env archive r c (ao_key (ap_object p)) (ap_bytes p) = Ok ()"
    by (simp add: p archive_validate_def d a o stored_envelope_eq e)
  moreover from f have "until = max (cl_now claim) (cl_hot_until claim) + max (rt_cold_seconds (ar_retention r)) (cl_receipt_seconds claim)
      + cl_receipt_seconds claim" "in_i64 until" "0 < cl_receipt_seconds claim"
    by (auto simp: minimum_lock_until_Ok i64_checked_add_def split: if_splits)
  ultimately show ?thesis using h b(2) by (auto simp: p d max_object_bytes_def)
qed

subsection \<open>A concrete instance\<close>

definition sample_message :: message_envelope where
  "sample_message = envelope_new ''m''
     (message_metadata_new
       \<lparr>am_tenant = 1, am_occurred_at = 7, am_domain = ''d'', am_route = ''r'',
        am_contract = \<lparr>ci_id = ''a.b'', ci_version = 1, ci_schema_digest = ''sha256:'' @ replicate 64 CHR ''0''\<rparr>\<rparr>
       \<lparr>mx_correlation = None, mx_partition_key = None, mx_causation = None, mx_attributes = []\<rparr>) [5]"

definition sample_context :: capture_context where
  "sample_context =
     \<lparr>cx_id = DeadLetterId 2,
      cx_consumer = \<lparr>cn_tenant = 1, cn_group = ''g'', cn_message_id = ''m'', cn_contract = mm_contract (me_metadata sample_message)\<rparr>,
      cx_fingerprint = [3]\<rparr>"

definition sample_request :: archive_request where
  "sample_request =
     \<lparr>ar_tenant = 1, ar_id = DeadLetterId 2, ar_operation = OperationId 3, ar_version = RecVersion 1,
      ar_retention = \<lparr>rt_hot_seconds = 10, rt_cold_seconds = 20\<rparr>, ar_hold = Release\<rparr>"

definition sample_envelope :: rec_envelope where
  "sample_envelope =
     \<lparr>ev_id = ''m'', ev_tenant = uuid_text 1, ev_occurred_at = 7, ev_domain = ''d'', ev_route = ''r'', ev_contract = ''a.b'',
      ev_version = ''v1'', ev_schema = ''sha256:'' @ replicate 64 CHR ''0'', ev_correlation = None, ev_partition = None,
      ev_causation = None, ev_attributes = [], ev_payload = [5]\<rparr>"

definition sample_canonical :: archive_canonical where
  "sample_canonical =
     \<lparr>ac_version = 1, ac_tenant = uuid_text 1, ac_dead_letter = uuid_text 2, ac_captured_at = 4,
      ac_reason = ''rejected_permanent'', ac_fingerprint = [3], ac_authored = ''E''\<rparr>"

text \<open>A codec of the sample values, and a cipher that stores its plaintext under a one-byte key.\<close>

definition sample_cipher :: "u8 \<Rightarrow> bytes \<Rightarrow> stored_cipher" where
  "sample_cipher k t = \<lparr>sc_version = 1, sc_key = [k], sc_key_version = 1, sc_nonce = [0], sc_ciphertext = t, sc_tag = []\<rparr>"

definition sample_env :: rec_env where
  "sample_env =
     \<lparr>re_sha256 = (\<lambda>_. [3]), re_uuid = canonical_reader,
      re_envelope_enc = (\<lambda>v. if v = sample_envelope then Some ''E'' else None),
      re_envelope_dec = (\<lambda>s. if s = ''E'' then Some sample_envelope else None),
      re_cipher_enc = (\<lambda>v. if v = sample_cipher (hd (sc_key v)) (sc_ciphertext v) then Some (hd (sc_key v) # sc_ciphertext v) else None),
      re_cipher_dec = (\<lambda>b. if b = [] then None else Some (sample_cipher (hd b) (tl b))),
      re_canonical_enc = (\<lambda>v. if v = sample_canonical then Some [7] else None),
      re_canonical_dec = (\<lambda>b. if b = [7] then Some sample_canonical else None),
      re_hot_key = (\<lambda>b. if b = [] then None else Some [hd b])\<rparr>"

definition sample_key :: "u8 \<Rightarrow> aead" where
  "sample_key k =
     \<lparr>ae_seal = (\<lambda>p a. Some \<lparr>ce_version = envelope_version, ce_alg = Aes256Gcm, ce_mode = RandomizedMode, ce_kid = [k],
         ce_key_version = 1, ce_nonce = [0], ce_ciphertext = p, ce_tag = [], ce_aad = da_aad a\<rparr>),
      ae_open = (\<lambda>c a. Some (ce_ciphertext c))\<rparr>"

definition sample_claim :: archive_claim where
  "sample_claim =
     \<lparr>cl_retired = [], cl_generation = ''g1'', cl_token = ''t'', cl_request_digest = [3],
      cl_candidate = Some \<lparr>cand_context = sample_context, cand_capsule = [1, 69], cand_reason = RejectPermanent, cand_captured_at = 4\<rparr>,
      cl_prepared = None, cl_object = None, cl_now = 100, cl_hot_until = 90, cl_receipt_seconds = 5, cl_purged = False\<rparr>"

lemma sample_codec: "codec_laws sample_env"
  by (auto simp: codec_laws_def sample_env_def canonical_reader_hyphenated ascii_bytes_def byte_of_def split: if_splits)

lemma sample_aead: "aead_laws (sample_key k)"
  by (auto simp: aead_laws_def sample_key_def)

lemmas sample_defs = sample_env_def sample_message_def sample_context_def sample_request_def sample_claim_def
  sample_key_def sample_cipher_def sample_envelope_def sample_canonical_def

lemma sample_texts: "contract_version_display (Suc 0) = ''v1''" "hex_string [3] = ''03''" "ascii_bytes ''E'' = [69]"
  by code_simp+

lemmas sample_steps = sample_texts context_validate_def fingerprint_of_def envelope_encode_def context_aad_def recovery_hash_def derive_aad_def
  protection_context_new_def protection_aad_new_def envelope_new_def message_metadata_new_def
  capsule_plain_max_def Let_def capsule_from_provider_def ascii_bytes_def byte_of_def

lemma sample_sealed: "capsule_seal sample_env (sample_key 1) sample_context sample_message = Ok [1, 69]"
  by (simp add: capsule_seal_def sample_defs sample_steps)

lemma sample_ok: "message_ok sample_message"
proof -
  have "contract_id_parse ''a.b'' = Ok ''a.b''" "message_id_parse ''m'' = Ok ''m''" "messaging_domain_parse ''d'' = Ok ''d''"
    "message_route_parse ''r'' = Ok ''r''" by code_simp+
  moreover have "schema_digest_parse (''sha256:'' @ replicate 64 CHR ''0'') = Ok (''sha256:'' @ replicate 64 CHR ''0'')"
    by (simp add: schema_digest_parse_def valid_schema_digest_def list_all_iff is_ascii_digit_def byte_of_def)
  ultimately show ?thesis
    by (simp add: message_ok_def sample_message_def envelope_new_def message_metadata_new_def Let_def u32_max_def)
qed

theorem capsule_roundtrip_witness:
  "message_ok sample_message \<and> capsule_seal sample_env (sample_key 1) sample_context sample_message = Ok [1, 69] \<and>
   capsule_open sample_env (sample_key 1) sample_context [1, 69] = Ok (without_transport sample_message)"
  using capsule_roundtrip [OF sample_codec sample_aead sample_ok sample_sealed] sample_ok sample_sealed by simp

lemma sample_decode: "envelope_decode sample_env ''E'' = Ok (without_transport sample_message)"
  by (rule envelope_roundtrip [OF sample_codec sample_ok]) (simp add: sample_defs sample_steps)

lemma sample_valid: "context_validate sample_env sample_context (without_transport sample_message) = Ok ()"
  by (simp add: without_transport_def sample_defs sample_steps)

lemma capsule_open_sample: "capsule_open sample_env (sample_key 1) sample_context [1, 69] = Ok (without_transport sample_message)"
proof -
  note d = sample_decode and v = sample_valid
  have t: "text_of [69] = ''E''" by code_simp
  have a: "\<exists>a. context_aad sample_env sample_context = Ok a" by (simp add: sample_defs sample_steps)
  have "re_cipher_dec sample_env [1, 69] = Some (sample_cipher 1 [69])" by (simp add: sample_env_def)
  with a d v t show ?thesis
    by (auto simp: capsule_open_def sample_cipher_def sample_key_def stored_envelope_def ciphertext_envelope_new_def capsule_plain_max_def)
qed

theorem archive_object_replaces_capsule_witness:
  "\<exists>p. archive_prepare sample_env (sample_key 1) (sample_key 2) sample_request sample_claim (the (cl_candidate sample_claim)) = Ok p \<and>
     archive_validate sample_env (sample_key 2) sample_request (the (cl_candidate sample_claim)) (ao_key (ap_object p)) (ap_bytes p) = Ok () \<and>
     125 \<le> ao_retain_until (ap_object p)"
proof -
  have "capsule_open sample_env (sample_key 1) sample_context [1, 69] = Ok (without_transport sample_message)"
    using capsule_open_sample .
  then have "is_ok (archive_prepare sample_env (sample_key 1) (sample_key 2) sample_request sample_claim (the (cl_candidate sample_claim)))"
    by (simp add: archive_prepare_def without_transport_def sample_defs sample_steps archive_aad_def object_key_def reason_label_def format_version_def
      max_object_bytes_def minimum_lock_until_def i64_checked_add_def i64_defs)
  then obtain p where p: "archive_prepare sample_env (sample_key 1) (sample_key 2) sample_request sample_claim
      (the (cl_candidate sample_claim)) = Ok p" by (auto simp: is_ok_iff)
  moreover note archive_object_replaces_capsule [OF sample_codec sample_aead p]
  ultimately show ?thesis by (intro exI [of _ p]) (simp add: sample_claim_def sample_request_def)
qed

end
