(* ===== verification/Recovery_Archive.thy ===== *)
theory Recovery_Archive
  imports Recovery_Capsule
begin

section \<open>The archive lifecycle\<close>

text \<open>
  Models \<^verbatim>\<open>archive/lifecycle.rs\<close> of \<^verbatim>\<open>crates/transactional-messaging-recovery/src\<close>: one bounded attempt
  that claims a dead letter, uploads its encrypted copy, verifies it at the provider, records the proof
  and removes the hot capsule. The repository and the object store are ports; the whole attempt runs
  under the deadline of \<open>completion::execute\<close>, which may drop it at every step.
\<close>

subsection \<open>Ports\<close>

datatype archive_outcome = OutHeld | OutArchived | OutPurged | OutRetained | OutReconciled

record archive_event =
  ae_status :: attempt_status
  ae_outcome :: "archive_outcome option"
  ae_error :: "archive_error option"

datatype archive_call =
  RepoReceipt archive_request duration
  | RepoClaim archive_request duration
  | RepoPrepare archive_request archive_claim archive_prepared duration
  | RepoRecord archive_request archive_claim verified_proof duration
  | RepoPurge archive_request archive_claim verified_proof duration
  | RepoReconcile archive_request archive_claim missing_proof duration
  | RepoFault archive_request archive_claim archive_error duration
  | PutObject archive_prepared duration
  | InspectObject archive_object bool duration

datatype archive_answer =
  ReceiptReply "archive_error + archive_outcome option"
  | ClaimReply "(archive_claim, archive_error) local_tx_attempt"
  | UnitReply "(unit, archive_error) local_tx_attempt"
  | PutReply "archive_error + archive_object"
  | InspectReply "archive_error + object_observation option"

fun receipt_reply :: "archive_answer \<Rightarrow> (archive_error + archive_outcome option) option" where
  "receipt_reply (ReceiptReply r) = Some r"
| "receipt_reply _ = None"

fun claim_reply :: "archive_answer \<Rightarrow> (archive_claim, archive_error) local_tx_attempt option" where
  "claim_reply (ClaimReply r) = Some r"
| "claim_reply _ = None"

fun unit_reply :: "archive_answer \<Rightarrow> (unit, archive_error) local_tx_attempt option" where
  "unit_reply (UnitReply r) = Some r"
| "unit_reply _ = None"

fun put_reply :: "archive_answer \<Rightarrow> (archive_error + archive_object) option" where
  "put_reply (PutReply r) = Some r"
| "put_reply _ = None"

fun inspect_reply :: "archive_answer \<Rightarrow> (archive_error + object_observation option) option" where
  "inspect_reply (InspectReply r) = Some r"
| "inspect_reply _ = None"

type_synonym 'a archive_task = "(archive_call, archive_event, archive_answer, 'a) bounded_task"
type_synonym archive_log = "(archive_call, archive_event, archive_answer) bounded_event list"
type_synonym archive_attempt = "(archive_outcome, archive_error) local_tx_attempt"

definition rcv_settled :: "('t, archive_error) local_tx_attempt \<Rightarrow> archive_attempt + 't" where
  "rcv_settled attempt =
     attempt_fold attempt Inr (\<lambda>e. Inl (LtNotStarted e)) (\<lambda>e. Inl (LtRolledBack e)) (\<lambda>e. Inl (LtRollbackFailed e))
       (\<lambda>e. Inl (LtCommitUnknown e)) (\<lambda>e. Inl (LtFenced e))"

text \<open>A rcv_settled call and the \<open>?\<close> after it; \<open>then_ok\<close> is the \<open>?\<close> after a task.\<close>

definition call_settled ::
  "archive_call \<Rightarrow> (archive_attempt + 'b) archive_task \<Rightarrow> (archive_attempt + 'b) archive_task" where
  "call_settled q k = call_port q unit_reply (\<lambda>a. case rcv_settled a of Inl e \<Rightarrow> Done (Inl e) | Inr _ \<Rightarrow> k)"

definition then_ok ::
  "(archive_attempt + 'a) archive_task \<Rightarrow> ('a \<Rightarrow> (archive_attempt + 'b) archive_task) \<Rightarrow> (archive_attempt + 'b) archive_task" where
  "then_ok t k = bind_task t (\<lambda>r. case r of Inl e \<Rightarrow> Done (Inl e) | Inr a \<Rightarrow> k a)"

definition or_fail ::
  "archive_error + 'a \<Rightarrow> ('a \<Rightarrow> (archive_attempt + 'b) archive_task) \<Rightarrow> (archive_attempt + 'b) archive_task" where
  "or_fail r k = (case r of Inl e \<Rightarrow> Done (Inl (LtNotStarted e)) | Inr a \<Rightarrow> k a)"

subsection \<open>Verification\<close>

definition version_unusable :: "string option \<Rightarrow> bool" where
  "version_unusable v = (case v of None \<Rightarrow> True | Some s \<Rightarrow> s = [] \<or> s = ''null'')"

definition validate_object ::
  "(bytes \<Rightarrow> bytes) \<Rightarrow> archive_object \<Rightarrow> object_observation \<Rightarrow> archive_error + unit" where
  "validate_object sha256 expected observed =
     (let actual = ob_object observed in
      if ao_key actual \<noteq> ao_key expected
         \<or> ao_version expected \<noteq> None \<and> ao_version actual \<noteq> ao_version expected
         \<or> version_unusable (ao_version actual)
         \<or> ao_checksum actual \<noteq> ao_checksum expected
         \<or> ao_length actual \<noteq> ao_length expected
         \<or> \<not> ob_compliance observed
         \<or> ao_retain_until actual < ao_retain_until expected
      then Err AxEvidence
      else and_then (ok_or (ob_bytes observed) AxEvidence) (\<lambda>bytes.
        if length bytes \<noteq> ao_length expected \<or> sha256 bytes \<noteq> ao_checksum expected then Err AxEvidence else Ok ()))"

definition archive_verify ::
  "rec_env \<Rightarrow> aead \<Rightarrow> archive_request \<Rightarrow> archive_claim \<Rightarrow> archive_object \<Rightarrow> object_observation \<Rightarrow> archive_error + verified_proof" where
  "archive_verify env archive r claim expected observed =
     and_then (validate_object (re_sha256 env) expected observed) (\<lambda>_.
     and_then (ok_or (cl_candidate claim) AxEvidence) (\<lambda>candidate.
     and_then (ok_or (ob_bytes observed) AxEvidence) (\<lambda>bytes.
     and_then (archive_validate env archive r candidate (ao_key expected) bytes) (\<lambda>_.
     and_then (minimum_lock_until (ar_retention r) (cl_now claim) (cl_receipt_seconds claim)) (\<lambda>floor.
     if ao_retain_until (ob_object observed) \<le> floor then Err AxRetention
     else Ok (Verified (ob_object observed) (archive_digest (re_sha256 env) r) (cl_generation claim)))))))"

definition strip_suffix :: "string \<Rightarrow> string \<Rightarrow> string option" where
  "strip_suffix sfx s =
     (if length sfx \<le> length s \<and> drop (length s - length sfx) s = sfx
      then Some (take (length s - length sfx) s) else None)"

definition object_generation :: "archive_object \<Rightarrow> archive_error + string" where
  "object_generation object = ok_or (strip_suffix object_suffix (last (split_on CHR ''/'' (ao_key object)))) AxEvidence"

subsection \<open>Steps\<close>

fun reconcile_retired ::
  "rec_env \<Rightarrow> archive_request \<Rightarrow> archive_claim \<Rightarrow> duration \<Rightarrow> archive_object list \<Rightarrow> (archive_attempt + unit) archive_task" where
  "reconcile_retired env r claim d [] = Done (Inr ())"
| "reconcile_retired env r claim d (object # rest) =
     (if ao_retain_until object > cl_now claim then Done (Inl (LtNotStarted AxEvidence))
      else
        call_port (InspectObject object True d) inspect_reply (\<lambda>answer.
        or_fail answer (\<lambda>found.
          case found of
            Some observed \<Rightarrow>
              or_fail (validate_object (re_sha256 env) object observed) (\<lambda>_.
                if ao_version object = None then
                  or_fail (object_generation object) (\<lambda>generation.
                    call_settled
                      (RepoRecord r claim (Verified (ob_object observed) (archive_digest (re_sha256 env) r) generation) d)
                      (reconcile_retired env r claim d rest))
                else reconcile_retired env r claim d rest)
          | None \<Rightarrow>
              if ao_version object \<noteq> None then
                or_fail (object_generation object) (\<lambda>generation.
                  call_settled
                    (RepoReconcile r claim (Missing object (archive_digest (re_sha256 env) r) generation) d)
                    (reconcile_retired env r claim d rest))
              else reconcile_retired env r claim d rest)))"

text \<open>The object of the claim, or the prepared bytes uploaded; preparation is persisted before the upload.\<close>

definition upload_object :: "archive_prepared \<Rightarrow> duration \<Rightarrow> (archive_attempt + archive_object) archive_task" where
  "upload_object prepared d =
     call_port (PutObject prepared d) put_reply (\<lambda>answer.
       case answer of
         Inl e \<Rightarrow> Done (Inl (LtCommitUnknown e))
       | Inr uploaded \<Rightarrow>
           if ao_key uploaded \<noteq> ao_key (ap_object prepared) \<or> ao_checksum uploaded \<noteq> ao_checksum (ap_object prepared)
              \<or> ao_length uploaded \<noteq> ao_length (ap_object prepared)
           then Done (Inl (LtNotStarted AxEvidence))
           else Done (Inr uploaded))"

definition obtain_object ::
  "rec_env \<Rightarrow> aead \<Rightarrow> aead \<Rightarrow> archive_request \<Rightarrow> archive_claim \<Rightarrow> duration \<Rightarrow> (archive_attempt + archive_object) archive_task" where
  "obtain_object env hot archive r claim d =
     (case cl_object claim of
        Some object \<Rightarrow> Done (Inr object)
      | None \<Rightarrow>
          (case cl_prepared claim of
             Some prepared \<Rightarrow> upload_object prepared d
           | None \<Rightarrow>
               or_fail (ok_or (cl_candidate claim) AxEvidence) (\<lambda>candidate.
               or_fail (archive_prepare env hot archive r claim candidate) (\<lambda>prepared.
                 call_settled (RepoPrepare r claim prepared d) (upload_object prepared d)))))"

definition rcv_settle_observed ::
  "rec_env \<Rightarrow> aead \<Rightarrow> archive_request \<Rightarrow> archive_claim \<Rightarrow> duration \<Rightarrow> archive_object \<Rightarrow> object_observation
     \<Rightarrow> (archive_attempt + archive_outcome) archive_task" where
  "rcv_settle_observed env archive r claim d object observed =
     (if cl_purged claim then
        or_fail (validate_object (re_sha256 env) object observed) (\<lambda>_.
          Done (Inr (if cl_now claim \<ge> ao_retain_until object then OutRetained else OutPurged)))
      else
        or_fail (archive_verify env archive r claim object observed) (\<lambda>proof.
          call_settled (RepoRecord r claim proof d)
            (if cl_now claim < cl_hot_until claim then Done (Inr OutArchived)
             else call_settled (RepoPurge r claim proof d) (Done (Inr OutPurged)))))"

definition rcv_advance ::
  "rec_env \<Rightarrow> aead \<Rightarrow> aead \<Rightarrow> archive_request \<Rightarrow> archive_claim \<Rightarrow> duration \<Rightarrow> (archive_attempt + archive_outcome) archive_task" where
  "rcv_advance env hot archive r claim d =
     then_ok (reconcile_retired env r claim d (cl_retired claim)) (\<lambda>_.
     then_ok (obtain_object env hot archive r claim d) (\<lambda>object.
       call_port (InspectObject object True d) inspect_reply (\<lambda>answer.
       or_fail answer (\<lambda>found.
         case found of
           None \<Rightarrow>
             if cl_purged claim \<and> cl_now claim \<ge> ao_retain_until object then
               call_settled
                 (RepoReconcile r claim (Missing object (archive_digest (re_sha256 env) r) (cl_generation claim)) d)
                 (Done (Inr OutReconciled))
             else Done (Inl (LtNotStarted AxMissing))
         | Some observed \<Rightarrow> rcv_settle_observed env archive r claim d object observed))))"

definition integrity_fault :: "archive_error \<Rightarrow> archive_error option" where
  "integrity_fault e = (if e = AxMissing \<or> e = AxEvidence then Some e else None)"

definition attempt_fault :: "archive_attempt \<Rightarrow> archive_error option" where
  "attempt_fault a =
     attempt_fold a (\<lambda>_. None) integrity_fault integrity_fault integrity_fault integrity_fault integrity_fault"

definition archive_run ::
  "rec_env \<Rightarrow> aead \<Rightarrow> aead \<Rightarrow> archive_request \<Rightarrow> duration \<Rightarrow> archive_attempt archive_task" where
  "archive_run env hot archive r d =
     call_port (RepoClaim r d) claim_reply (\<lambda>answer.
       case rcv_settled answer of
         Inl e \<Rightarrow> Done e
       | Inr claim \<Rightarrow>
           if ar_hold r = Retain then Done (LtCommitted OutHeld)
           else bind_task (rcv_advance env hot archive r claim d) (\<lambda>result.
             case result of
               Inr outcome \<Rightarrow> Done (LtCommitted outcome)
             | Inl attempt \<Rightarrow>
                 (case attempt_fault attempt of
                    None \<Rightarrow> Done attempt
                  | Some e \<Rightarrow>
                      call_port (RepoFault r claim e d) unit_reply (\<lambda>answer.
                        case rcv_settled answer of Inl failure \<Rightarrow> Done failure | Inr _ \<Rightarrow> Done attempt))))"

text \<open>\<open>integrity_observed\<close> is set in the step that issues the fault.\<close>

fun track_integrity :: "(archive_call, archive_event, archive_answer) bounded_event \<Rightarrow> bool \<Rightarrow> bool" where
  "track_integrity (Issued (Port (RepoFault r c e d))) seen = True"
| "track_integrity _ seen = seen"

definition archive_readback :: "archive_request \<Rightarrow> bool \<Rightarrow> duration \<Rightarrow> (archive_error + archive_outcome option) archive_task" where
  "archive_readback r integrity_observed d =
     (if integrity_observed then Done (Inr None) else one_call (RepoReceipt r) receipt_reply d)"

definition archive_execute ::
  "rec_env \<Rightarrow> aead \<Rightarrow> aead \<Rightarrow> archive_request \<Rightarrow> execution_deadlines \<Rightarrow> archive_attempt archive_task" where
  "archive_execute env hot archive r deadlines =
     completion_execute track_integrity False deadlines AxDeadline (archive_run env hot archive r) (archive_readback r)
       (\<lambda>status outcome error. \<lparr>ae_status = status, ae_outcome = outcome, ae_error = error\<rparr>)"

section \<open>Theorems\<close>

subsection \<open>What every call rests on\<close>

definition claimed :: "archive_request \<Rightarrow> duration \<Rightarrow> archive_claim \<Rightarrow> archive_log \<Rightarrow> bool" where
  "claimed r d claim l \<longleftrightarrow> Answered (Port (RepoClaim r d)) (PortReply (ClaimReply (LtCommitted claim))) \<in> set l"

definition acknowledged :: "archive_call \<Rightarrow> archive_log \<Rightarrow> bool" where
  "acknowledged q l \<longleftrightarrow> Answered (Port q) (PortReply (UnitReply (LtCommitted ()))) \<in> set l"

definition inspected :: "archive_object \<Rightarrow> duration \<Rightarrow> object_observation option \<Rightarrow> archive_log \<Rightarrow> bool" where
  "inspected object d x l \<longleftrightarrow> Answered (Port (InspectObject object True d)) (PortReply (InspectReply (Inr x))) \<in> set l"

lemmas log_facts = claimed_def acknowledged_def inspected_def

text \<open>The verified copy: the exact bytes, locked in compliance mode beyond the retention bound, open with the
  archive key to the facts of the captured dead letter.\<close>

definition copy_verified ::
  "rec_env \<Rightarrow> aead \<Rightarrow> archive_request \<Rightarrow> archive_claim \<Rightarrow> archive_object \<Rightarrow> object_observation \<Rightarrow> bool" where
  "copy_verified env archive r claim object observed \<longleftrightarrow>
     (\<exists>candidate bytes. cl_candidate claim = Some candidate \<and> ob_bytes observed = Some bytes \<and>
        re_sha256 env bytes = ao_checksum object \<and> length bytes = ao_length object \<and> ob_compliance observed \<and>
        ao_key (ob_object observed) = ao_key object \<and> \<not> version_unusable (ao_version (ob_object observed)) \<and>
        archive_validate env archive r candidate (ao_key object) bytes = Ok () \<and>
        cl_now claim + max (rt_cold_seconds (ar_retention r)) (cl_receipt_seconds claim) < ao_retain_until (ob_object observed))"

fun justified :: "rec_env \<Rightarrow> aead \<Rightarrow> aead \<Rightarrow> archive_request \<Rightarrow> archive_log \<Rightarrow> archive_call \<Rightarrow> bool" where
  "justified env hot archive r l (RepoPurge r' claim proof d) \<longleftrightarrow>
     r' = r \<and> ar_hold r = Release \<and> claimed r d claim l \<and> \<not> cl_purged claim \<and> cl_hot_until claim \<le> cl_now claim \<and>
     acknowledged (RepoRecord r claim proof d) l \<and>
     (\<exists>object observed. inspected object d (Some observed) l \<and> copy_verified env archive r claim object observed \<and>
        proof = Verified (ob_object observed) (archive_digest (re_sha256 env) r) (cl_generation claim))"
| "justified env hot archive r l (PutObject prepared d) \<longleftrightarrow>
     (\<exists>claim. claimed r d claim l \<and> ar_hold r = Release \<and> cl_object claim = None \<and>
        (cl_prepared claim = Some prepared \<or>
         acknowledged (RepoPrepare r claim prepared d) l \<and>
         (\<exists>c. cl_candidate claim = Some c \<and> archive_prepare env hot archive r claim c = Ok prepared)))"
| "justified env hot archive r l (RepoReconcile r' claim (Missing object digest generation) d) \<longleftrightarrow>
     r' = r \<and> claimed r d claim l \<and> inspected object d None l \<and> ao_retain_until object \<le> cl_now claim \<and>
     digest = archive_digest (re_sha256 env) r \<and>
     (object \<in> set (cl_retired claim) \<and> ao_version object \<noteq> None \<or> cl_purged claim)"
| "justified env hot archive r l (RepoRecord r' claim (Verified actual digest generation) d) \<longleftrightarrow>
     r' = r \<and> claimed r d claim l \<and> digest = archive_digest (re_sha256 env) r \<and>
     (\<exists>object observed. inspected object d (Some observed) l \<and> actual = ob_object observed \<and>
        validate_object (re_sha256 env) object observed = Ok ())"
| "justified env hot archive r l (RepoFault r' claim e d) \<longleftrightarrow> r' = r \<and> claimed r d claim l \<and> e \<in> {AxMissing, AxEvidence}"
| "justified env hot archive r l _ \<longleftrightarrow> True"

definition audited :: "rec_env \<Rightarrow> aead \<Rightarrow> aead \<Rightarrow> archive_request \<Rightarrow> archive_log \<Rightarrow> bool" where
  "audited env hot archive r l \<longleftrightarrow>
     (\<forall>before q rest. l = before @ Issued (Port q) # rest \<longrightarrow> justified env hot archive r before q)"

lemma audited_Nil [simp]: "audited env hot archive r []"
  by (simp add: audited_def)

lemma audited_keep [simp]:
  "audited env hot archive r (keep_log e l) \<longleftrightarrow>
     audited env hot archive r l \<and> (\<forall>q. e = Issued (Port q) \<longrightarrow> justified env hot archive r l q)"
proof
  assume *: "audited env hot archive r (keep_log e l)"
  have "justified env hot archive r before q" if "l = before @ Issued (Port q) # rest" for before q rest
    using * that by (auto simp: audited_def keep_log_def)
  moreover have "justified env hot archive r l q" if "e = Issued (Port q)" for q
    using * that by (auto simp: audited_def keep_log_def)
  ultimately show "audited env hot archive r l \<and> (\<forall>q. e = Issued (Port q) \<longrightarrow> justified env hot archive r l q)"
    by (simp add: audited_def)
next
  assume *: "audited env hot archive r l \<and> (\<forall>q. e = Issued (Port q) \<longrightarrow> justified env hot archive r l q)"
  have "justified env hot archive r before q" if "l @ [e] = before @ Issued (Port q) # rest" for before q rest
    using * that by (cases rest rule: rev_cases) (auto simp: audited_def)
  then show "audited env hot archive r (keep_log e l)" by (simp add: audited_def keep_log_def)
qed

definition outcome_evidence :: "rec_env \<Rightarrow> archive_request \<Rightarrow> archive_outcome \<Rightarrow> archive_log \<Rightarrow> bool" where
  "outcome_evidence env r outcome l \<longleftrightarrow>
     (\<exists>claim d. claimed r d claim l \<and>
       (case outcome of
          OutHeld \<Rightarrow> ar_hold r = Retain
        | OutArchived \<Rightarrow> (\<exists>proof. acknowledged (RepoRecord r claim proof d) l) \<and> cl_now claim < cl_hot_until claim
        | OutPurged \<Rightarrow> (\<exists>proof. acknowledged (RepoPurge r claim proof d) l) \<or>
            cl_purged claim \<and> (\<exists>object observed. inspected object d (Some observed) l \<and>
              validate_object (re_sha256 env) object observed = Ok () \<and> cl_now claim < ao_retain_until object)
        | OutRetained \<Rightarrow> cl_purged claim \<and> (\<exists>object observed. inspected object d (Some observed) l \<and>
              validate_object (re_sha256 env) object observed = Ok () \<and> ao_retain_until object \<le> cl_now claim)
        | OutReconciled \<Rightarrow> cl_purged claim \<and> (\<exists>proof. acknowledged (RepoReconcile r claim proof d) l)))"

fun attempt_supported :: "rec_env \<Rightarrow> archive_request \<Rightarrow> archive_attempt \<Rightarrow> archive_log \<Rightarrow> bool" where
  "attempt_supported env r (LtCommitted outcome) l = outcome_evidence env r outcome l"
| "attempt_supported env r _ l = True"

fun is_fault :: "(archive_call, archive_event, archive_answer) bounded_event \<Rightarrow> bool" where
  "is_fault (Issued (Port (RepoFault r claim e d))) = True"
| "is_fault _ = False"

definition fault_issued :: "archive_log \<Rightarrow> bool" where
  "fault_issued l \<longleftrightarrow> list_ex is_fault l"

lemma fault_issued_simps [simp]:
  "\<not> fault_issued []" "fault_issued (keep_log e l) \<longleftrightarrow> fault_issued l \<or> is_fault e"
  by (auto simp: fault_issued_def keep_log_def)

fun is_port :: "('q, 'o) bounded_request \<Rightarrow> bool" where
  "is_port (Port q) = True"
| "is_port _ = False"

definition receipt_read :: "archive_request \<Rightarrow> archive_outcome \<Rightarrow> archive_log \<Rightarrow> bool" where
  "receipt_read r outcome l \<longleftrightarrow> answered_with (RepoReceipt r) receipt_reply (Inr (Some outcome)) l \<and> \<not> fault_issued l"

fun answer_fits :: "archive_call \<Rightarrow> archive_answer \<Rightarrow> bool" where
  "answer_fits (RepoReceipt _ _) (ReceiptReply _) = True"
| "answer_fits (RepoClaim _ _) (ClaimReply _) = True"
| "answer_fits (RepoPrepare _ _ _ _) (UnitReply _) = True"
| "answer_fits (RepoRecord _ _ _ _) (UnitReply _) = True"
| "answer_fits (RepoPurge _ _ _ _) (UnitReply _) = True"
| "answer_fits (RepoReconcile _ _ _ _) (UnitReply _) = True"
| "answer_fits (RepoFault _ _ _ _) (UnitReply _) = True"
| "answer_fits (PutObject _ _) (PutReply _) = True"
| "answer_fits (InspectObject _ _ _) (InspectReply _) = True"
| "answer_fits _ _ = False"

fun archive_fits :: "(archive_call, archive_event) bounded_request \<Rightarrow> archive_answer bounded_reply \<Rightarrow> bool" where
  "archive_fits ClockNow (NowIs n) = True"
| "archive_fits (Port q) (PortReply y) = answer_fits q y"
| "archive_fits (Observe x) _ = True"
| "archive_fits _ _ = False"

subsection \<open>The calculus of one attempt\<close>

definition calm :: "rec_env \<Rightarrow> aead \<Rightarrow> aead \<Rightarrow> archive_request \<Rightarrow> archive_log \<Rightarrow> bool" where
  "calm env hot archive r l \<longleftrightarrow> silent (requests_of (RepoReceipt r)) l \<and> audited env hot archive r l \<and> silent is_observation l"

definition result_post ::
  "(archive_log \<Rightarrow> bool) \<Rightarrow> ('a \<Rightarrow> archive_log \<Rightarrow> bool) \<Rightarrow> archive_attempt + 'a \<Rightarrow> archive_log \<Rightarrow> bool" where
  "result_post I P x l \<longleftrightarrow> I l \<and> (case x of Inl a \<Rightarrow> attempt_value a = None | Inr a \<Rightarrow> P a l)"

lemma ensures_keeps:
  assumes "ensures ok obs I t l Q" and "P l" and "\<And>e l. P l \<Longrightarrow> P (obs e l)"
  shows "ensures ok obs I t l (\<lambda>a l. Q a l \<and> P l)"
  using assms(1,2) by (induction t arbitrary: l) (auto intro: assms(3))

lemma calm_call:
  assumes "calm env hot archive r l" and "justified env hot archive r l q" and "\<And>d. q \<noteq> RepoReceipt r d"
  shows "calm env hot archive r (keep_log (Issued (Port q)) l)"
    and "calm env hot archive r (l @ [Issued (Port q), Answered (Port q) x])"
proof -
  have "keep_log (Answered (Port q) x) (keep_log (Issued (Port q)) l) = l @ [Issued (Port q), Answered (Port q) x]"
    by (simp add: keep_log_def)
  moreover show "calm env hot archive r (keep_log (Issued (Port q)) l)" using assms by (simp add: calm_def)
  ultimately show "calm env hot archive r (l @ [Issued (Port q), Answered (Port q) x])"
    using assms by (simp add: calm_def flip: \<open>keep_log (Answered (Port q) x) (keep_log (Issued (Port q)) l) = _\<close>)
qed

lemma port_call:
  assumes "calm env hot archive r l" and "justified env hot archive r l q" and "\<And>d. q \<noteq> RepoReceipt r d"
    and "\<And>y. answer_fits q y \<Longrightarrow> answer y \<noteq> None"
    and "\<And>y a. answer_fits q y \<Longrightarrow> answer y = Some a \<Longrightarrow> calm env hot archive r (l @ [Issued (Port q), Answered (Port q) (PortReply y)]) \<Longrightarrow>
      ensures archive_fits keep_log (calm env hot archive r) (k a) (l @ [Issued (Port q), Answered (Port q) (PortReply y)]) Q"
  shows "ensures archive_fits keep_log (calm env hot archive r) (call_port q answer k) l Q"
  unfolding call_port_def
proof (rule ensures_ask)
  fix x assume "archive_fits (Port q) x"
  then obtain y where y: "x = PortReply y" "answer_fits q y" by (cases x) auto
  then obtain a where "answer y = Some a" using assms(4) by blast
  with y assms(5) calm_call(2) [OF assms(1,2,3)]
  show "ensures archive_fits keep_log (calm env hot archive r)
      (case x of NowIs _ \<Rightarrow> Never | PortReply x \<Rightarrow> (case answer x of None \<Rightarrow> Never | Some a \<Rightarrow> k a))
      (keep_log (Answered (Port q) x) (keep_log (Issued (Port q)) l)) Q"
    by (simp add: keep_log_def)
qed (use assms calm_call in auto)

lemma settled_Inr: "rcv_settled a = Inr v \<longleftrightarrow> a = LtCommitted v"
  by (cases a) (simp_all add: rcv_settled_def)

lemma settled_Inl: "rcv_settled a = Inl e \<Longrightarrow> attempt_value e = None"
  by (cases a) (auto simp: rcv_settled_def)

abbreviation attempt_ensures ::
  "rec_env \<Rightarrow> aead \<Rightarrow> aead \<Rightarrow> archive_request \<Rightarrow> (archive_attempt + 'a) archive_task \<Rightarrow> archive_log
     \<Rightarrow> ('a \<Rightarrow> archive_log \<Rightarrow> bool) \<Rightarrow> bool" where
  "attempt_ensures env hot archive r t l P \<equiv>
     ensures archive_fits keep_log (calm env hot archive r) t l (result_post (calm env hot archive r) P)"

lemma log_mono [simp, intro]:
  "claimed r d c l \<Longrightarrow> claimed r d c (l @ x)" "acknowledged q l \<Longrightarrow> acknowledged q (l @ x)"
  "inspected b d v l \<Longrightarrow> inspected b d v (l @ x)"
  by (simp_all add: log_facts)

lemma done_ensures [simp]:
  "attempt_ensures env hot archive r (Done x) l P \<longleftrightarrow> calm env hot archive r l \<and> (case x of Inl a \<Rightarrow> attempt_value a = None | Inr a \<Rightarrow> P a l)"
  by (simp add: result_post_def)

lemma or_fail_ensures:
  assumes "calm env hot archive r l" and "\<And>a. x = Inr a \<Longrightarrow> attempt_ensures env hot archive r (k a) l P"
  shows "attempt_ensures env hot archive r (or_fail x k) l P"
  using assms by (cases x) (simp_all add: or_fail_def result_post_def)

lemma then_ok_ensures:
  assumes "attempt_ensures env hot archive r t l R"
    and "\<And>a l. calm env hot archive r l \<Longrightarrow> R a l \<Longrightarrow> attempt_ensures env hot archive r (k a) l P"
  shows "attempt_ensures env hot archive r (then_ok t k) l P"
  unfolding then_ok_def
  by (rule ensures_bind [OF assms(1)]) (use assms(2) in \<open>auto simp: result_post_def split: sum.splits\<close>)

lemma call_settled_ensures:
  assumes "calm env hot archive r l" and "justified env hot archive r l q" and "\<And>d. q \<noteq> RepoReceipt r d"
    and "\<And>y. answer_fits q y \<Longrightarrow> unit_reply y \<noteq> None"
    and "\<And>l'. \<exists>x. l' = l @ x \<Longrightarrow> calm env hot archive r l' \<Longrightarrow> acknowledged q l' \<Longrightarrow> attempt_ensures env hot archive r k l' P"
  shows "attempt_ensures env hot archive r (call_settled q k) l P"
  unfolding call_settled_def
proof (rule port_call [OF assms(1-4)])
  fix y a
  assume "answer_fits q y" "unit_reply y = Some a" and c: "calm env hot archive r (l @ [Issued (Port q), Answered (Port q) (PortReply y)])"
  then have y: "y = UnitReply a" by (cases y) auto
  show "attempt_ensures env hot archive r (case rcv_settled a of Inl e \<Rightarrow> Done (Inl e) | Inr _ \<Rightarrow> k)
      (l @ [Issued (Port q), Answered (Port q) (PortReply y)]) P"
  proof (cases "rcv_settled a")
    case (Inr u)
    then have "acknowledged q (l @ [Issued (Port q), Answered (Port q) (PortReply y)])"
      by (simp add: y settled_Inr acknowledged_def)
    with Inr c assms(5) show ?thesis by auto
  qed (use c in \<open>simp add: result_post_def settled_Inl\<close>)
qed

lemma unit_calls [simp]:
  "answer_fits (RepoPrepare a b c d) y \<longleftrightarrow> (\<exists>u. y = UnitReply u)" "answer_fits (RepoRecord a b v d) y \<longleftrightarrow> (\<exists>u. y = UnitReply u)"
  "answer_fits (RepoPurge a b v d) y \<longleftrightarrow> (\<exists>u. y = UnitReply u)" "answer_fits (RepoReconcile a b m d) y \<longleftrightarrow> (\<exists>u. y = UnitReply u)"
  "answer_fits (RepoFault a b e d) y \<longleftrightarrow> (\<exists>u. y = UnitReply u)" "answer_fits (RepoClaim a d) y \<longleftrightarrow> (\<exists>u. y = ClaimReply u)"
  "answer_fits (PutObject p d) y \<longleftrightarrow> (\<exists>u. y = PutReply u)" "answer_fits (InspectObject q f d) y \<longleftrightarrow> (\<exists>u. y = InspectReply u)"
  "answer_fits (RepoReceipt a d) y \<longleftrightarrow> (\<exists>u. y = ReceiptReply u)"
  by (cases y; simp)+

lemma inspect_ensures:
  assumes "calm env hot archive r l"
    and "\<And>x l'. \<exists>z. l' = l @ z \<Longrightarrow> calm env hot archive r l' \<Longrightarrow> inspected object d x l' \<Longrightarrow> attempt_ensures env hot archive r (k x) l' P"
  shows "attempt_ensures env hot archive r (call_port (InspectObject object True d) inspect_reply (\<lambda>answer. or_fail answer k)) l P"
proof (rule port_call [OF assms(1)])
  fix y a
  assume "answer_fits (InspectObject object True d) y" "inspect_reply y = Some a"
    and c: "calm env hot archive r (l @ [Issued (Port (InspectObject object True d)), Answered (Port (InspectObject object True d)) (PortReply y)])"
  then have y: "y = InspectReply a" by (cases y) auto
  show "attempt_ensures env hot archive r (or_fail a k)
      (l @ [Issued (Port (InspectObject object True d)), Answered (Port (InspectObject object True d)) (PortReply y)]) P"
    by (rule or_fail_ensures [OF c], rule assms(2)) (use c in \<open>auto simp: y inspected_def\<close>)
qed auto

lemma reconcile_retired_ensures:
  assumes "calm env hot archive r l" and "claimed r d claim l" and "set objects \<subseteq> set (cl_retired claim)"
  shows "attempt_ensures env hot archive r (reconcile_retired env r claim d objects) l (\<lambda>_ l. claimed r d claim l)"
  using assms
proof (induction objects arbitrary: l)
  case (Cons object rest)
  have rest: "attempt_ensures env hot archive r (reconcile_retired env r claim d rest) l' (\<lambda>_ l. claimed r d claim l)"
    if "calm env hot archive r l'" "claimed r d claim l'" for l'
    using Cons that by simp
  show ?case
  proof (cases "ao_retain_until object > cl_now claim")
    case False
    have "attempt_ensures env hot archive r
      (case x of
         Some observed \<Rightarrow>
              or_fail (validate_object (re_sha256 env) object observed) (\<lambda>_.
                if ao_version object = None then
                  or_fail (object_generation object) (\<lambda>generation.
                    call_settled
                      (RepoRecord r claim (Verified (ob_object observed) (archive_digest (re_sha256 env) r) generation) d)
                      (reconcile_retired env r claim d rest))
                else reconcile_retired env r claim d rest)
       | None \<Rightarrow>
              if ao_version object \<noteq> None then
                or_fail (object_generation object) (\<lambda>generation.
                  call_settled
                    (RepoReconcile r claim (Missing object (archive_digest (re_sha256 env) r) generation) d)
                    (reconcile_retired env r claim d rest))
              else reconcile_retired env r claim d rest) l' (\<lambda>_ l. claimed r d claim l)"
      if l': "\<exists>z. l' = l @ z" "calm env hot archive r l'" "inspected object d x l'" for x l'
    proof -
      have c: "claimed r d claim l'" using l'(1) Cons.prems(2) by auto
      have "ao_retain_until object \<le> cl_now claim" "object \<in> set (cl_retired claim)" using False Cons.prems(3) by auto
      with l' c show ?thesis
        by (cases x; auto intro!: or_fail_ensures call_settled_ensures rest; blast)
    qed
    from inspect_ensures [OF Cons.prems(1) this] show ?thesis using False by (simp only: reconcile_retired.simps if_False)
  qed (use Cons.prems in \<open>simp add: result_post_def\<close>)
qed (simp add: result_post_def)

lemma upload_ensures:
  assumes "calm env hot archive r l" and "justified env hot archive r l (PutObject prepared d)" and "claimed r d claim l"
  shows "attempt_ensures env hot archive r (upload_object prepared d) l (\<lambda>_ l. claimed r d claim l)"
  unfolding upload_object_def
  by (rule port_call [OF assms(1,2)]) (use assms(3) in \<open>auto simp: result_post_def split: sum.split\<close>)

lemma obtain_object_ensures:
  assumes "calm env hot archive r l" and "claimed r d claim l" and "ar_hold r = Release"
  shows "attempt_ensures env hot archive r (obtain_object env hot archive r claim d) l (\<lambda>_ l. claimed r d claim l)"
proof (cases "cl_object claim")
  case None
  show ?thesis
  proof (cases "cl_prepared claim")
    case (Some prepared)
    with None assms show ?thesis by (auto simp: obtain_object_def intro!: upload_ensures)
  next
    case none: None
    have "attempt_ensures env hot archive r (call_settled (RepoPrepare r claim prepared d) (upload_object prepared d)) l
        (\<lambda>_ l. claimed r d claim l)"
      if "cl_candidate claim = Some c" "archive_prepare env hot archive r claim c = Ok prepared" for c prepared
      using assms that None
      by (auto intro!: call_settled_ensures upload_ensures exI [of _ claim])
    with None none assms(1) show ?thesis by (auto simp: obtain_object_def intro!: or_fail_ensures)
  qed
qed (use assms in \<open>simp add: obtain_object_def result_post_def\<close>)

lemma archive_verify_Ok:
  assumes "archive_verify env archive r claim object observed = Ok proof"
  shows "copy_verified env archive r claim object observed \<and> validate_object (re_sha256 env) object observed = Ok () \<and>
    proof = Verified (ob_object observed) (archive_digest (re_sha256 env) r) (cl_generation claim)"
  using assms
  by (auto simp: archive_verify_def copy_verified_def validate_object_def Let_def and_then_Inr_iff minimum_lock_until_Ok split: if_splits)

lemma settle_observed_ensures:
  assumes "calm env hot archive r l" and "claimed r d claim l" and "ar_hold r = Release" and "inspected object d (Some observed) l"
  shows "attempt_ensures env hot archive r (rcv_settle_observed env archive r claim d object observed) l (outcome_evidence env r)"
proof (cases "cl_purged claim")
  case True
  have "outcome_evidence env r (if cl_now claim \<ge> ao_retain_until object then OutRetained else OutPurged) l"
    if "validate_object (re_sha256 env) object observed = Ok ()"
    using that assms True by (auto simp: outcome_evidence_def intro!: exI [of _ claim] exI [of _ d] exI [of _ object] exI [of _ observed])
  with True assms(1) show ?thesis by (auto simp: rcv_settle_observed_def result_post_def intro!: or_fail_ensures)
next
  case False
  have "attempt_ensures env hot archive r
      (call_settled (RepoRecord r claim pf d)
         (if cl_now claim < cl_hot_until claim then Done (Inr OutArchived)
          else call_settled (RepoPurge r claim pf d) (Done (Inr OutPurged)))) l (outcome_evidence env r)"
    if "archive_verify env archive r claim object observed = Ok pf" for pf
  proof (rule call_settled_ensures [OF assms(1)])
    note v = archive_verify_Ok [OF that]
    show "justified env hot archive r l (RepoRecord r claim pf d)" using v assms(2,4) by auto
    fix l' assume l': "\<exists>x. l' = l @ x" "calm env hot archive r l'" "acknowledged (RepoRecord r claim pf d) l'"
    then have c: "claimed r d claim l'" "inspected object d (Some observed) l'" using assms(2,4) by auto
    show "attempt_ensures env hot archive r (if cl_now claim < cl_hot_until claim then Done (Inr OutArchived)
        else call_settled (RepoPurge r claim pf d) (Done (Inr OutPurged))) l' (outcome_evidence env r)"
    proof (cases "cl_now claim < cl_hot_until claim")
      case True
      then show ?thesis using l' c by (auto simp: outcome_evidence_def result_post_def)
    next
      case later: False
      have "justified env hot archive r l' (RepoPurge r claim pf d)"
        using v c l'(3) later False assms(3) by auto
      moreover have "outcome_evidence env r OutPurged l''"
        if "\<exists>x. l'' = l' @ x" "acknowledged (RepoPurge r claim pf d) l''" for l''
        using that c(1) unfolding outcome_evidence_def by (auto intro!: exI [of _ claim] exI [of _ d])
      ultimately have "attempt_ensures env hot archive r (call_settled (RepoPurge r claim pf d) (Done (Inr OutPurged))) l' (outcome_evidence env r)"
        using l'(2) by (intro call_settled_ensures) (auto simp: result_post_def)
      with later show ?thesis by simp
    qed
  qed auto
  with False assms(1) show ?thesis by (simp add: rcv_settle_observed_def or_fail_ensures)
qed

lemma advance_ensures:
  assumes "calm env hot archive r l" and "claimed r d claim l" and "ar_hold r = Release"
  shows "attempt_ensures env hot archive r (rcv_advance env hot archive r claim d) l (outcome_evidence env r)"
  unfolding rcv_advance_def
proof (rule then_ok_ensures [OF reconcile_retired_ensures [OF assms(1,2) order.refl]], rule then_ok_ensures)
  fix l assume "calm env hot archive r l" "claimed r d claim l"
  then show "attempt_ensures env hot archive r (obtain_object env hot archive r claim d) l (\<lambda>_ l. claimed r d claim l)"
    using assms(3) by (rule obtain_object_ensures)
next
  fix object l assume l: "calm env hot archive r l" "claimed r d claim l"
  show "attempt_ensures env hot archive r (call_port (InspectObject object True d) inspect_reply (\<lambda>answer. or_fail answer (\<lambda>found.
         case found of
           None \<Rightarrow>
             if cl_purged claim \<and> cl_now claim \<ge> ao_retain_until object then
               call_settled
                 (RepoReconcile r claim (Missing object (archive_digest (re_sha256 env) r) (cl_generation claim)) d)
                 (Done (Inr OutReconciled))
             else Done (Inl (LtNotStarted AxMissing))
         | Some observed \<Rightarrow> rcv_settle_observed env archive r claim d object observed))) l (outcome_evidence env r)"
  proof (rule inspect_ensures [OF l(1)])
    fix x l' assume l': "\<exists>z. l' = l @ z" "calm env hot archive r l'" "inspected object d x l'"
    then have c: "claimed r d claim l'" using l(2) by auto
    show "attempt_ensures env hot archive r (case x of
           None \<Rightarrow>
             if cl_purged claim \<and> cl_now claim \<ge> ao_retain_until object then
               call_settled
                 (RepoReconcile r claim (Missing object (archive_digest (re_sha256 env) r) (cl_generation claim)) d)
                 (Done (Inr OutReconciled))
             else Done (Inl (LtNotStarted AxMissing))
         | Some observed \<Rightarrow> rcv_settle_observed env archive r claim d object observed) l' (outcome_evidence env r)"
      using l'(2,3) c assms(3)
      by (cases x; auto simp: outcome_evidence_def result_post_def intro!: call_settled_ensures settle_observed_ensures; blast)
  qed
qed

lemma attempt_fault_Some: "attempt_fault a = Some e \<Longrightarrow> e \<in> {AxMissing, AxEvidence} \<and> (\<forall>v. a \<noteq> LtCommitted v)"
  by (cases a) (auto simp: attempt_fault_def integrity_fault_def split: if_splits)

lemma supported_failure: "attempt_value e = None \<Longrightarrow> attempt_supported env r e l"
  by (cases e) auto

abbreviation run_post :: "rec_env \<Rightarrow> aead \<Rightarrow> aead \<Rightarrow> archive_request \<Rightarrow> archive_attempt \<Rightarrow> archive_log \<Rightarrow> bool" where
  "run_post env hot archive r a l \<equiv> calm env hot archive r l \<and> attempt_supported env r a l"

lemma fault_ensures:
  assumes "calm env hot archive r l" and "claimed r d claim l" and "attempt_fault a = Some e"
  shows "ensures archive_fits keep_log (calm env hot archive r)
    (call_port (RepoFault r claim e d) unit_reply (\<lambda>answer. case rcv_settled answer of Inl failure \<Rightarrow> Done failure | Inr _ \<Rightarrow> Done a)) l
    (run_post env hot archive r)"
proof (rule port_call [OF assms(1)])
  have supported: "attempt_supported env r a l'" for l' using attempt_fault_Some [OF assms(3)] by (cases a) auto
  show "justified env hot archive r l (RepoFault r claim e d)" using assms attempt_fault_Some by auto
  fix y x assume "calm env hot archive r (l @ [Issued (Port (RepoFault r claim e d)), Answered (Port (RepoFault r claim e d)) (PortReply y)])"
  then show "ensures archive_fits keep_log (calm env hot archive r) (case rcv_settled x of Inl failure \<Rightarrow> Done failure | Inr _ \<Rightarrow> Done a)
      (l @ [Issued (Port (RepoFault r claim e d)), Answered (Port (RepoFault r claim e d)) (PortReply y)]) (run_post env hot archive r)"
    by (cases "rcv_settled x") (auto simp: supported supported_failure settled_Inl)
qed auto

lemma run_ensures:
  assumes "calm env hot archive r l"
  shows "ensures archive_fits keep_log (calm env hot archive r) (archive_run env hot archive r d) l (run_post env hot archive r)"
  unfolding archive_run_def
proof (rule port_call [OF assms])
  fix y a
  let ?l = "l @ [Issued (Port (RepoClaim r d)), Answered (Port (RepoClaim r d)) (PortReply y)]"
  assume "answer_fits (RepoClaim r d) y" "claim_reply y = Some a" and l: "calm env hot archive r ?l"
  then have y: "y = ClaimReply a" by auto
  show "ensures archive_fits keep_log (calm env hot archive r)
     (case rcv_settled a of
         Inl e \<Rightarrow> Done e
       | Inr claim \<Rightarrow>
           if ar_hold r = Retain then Done (LtCommitted OutHeld)
           else bind_task (rcv_advance env hot archive r claim d) (\<lambda>result.
             case result of
               Inr outcome \<Rightarrow> Done (LtCommitted outcome)
             | Inl attempt \<Rightarrow>
                 (case attempt_fault attempt of
                    None \<Rightarrow> Done attempt
                  | Some e \<Rightarrow>
                      call_port (RepoFault r claim e d) unit_reply (\<lambda>answer.
                        case rcv_settled answer of Inl failure \<Rightarrow> Done failure | Inr _ \<Rightarrow> Done attempt)))) ?l (run_post env hot archive r)"
  proof (cases "rcv_settled a")
    case (Inr claim)
    then have c: "claimed r d claim ?l" by (simp add: y settled_Inr claimed_def)
    show ?thesis
    proof (cases "ar_hold r")
      case Retain
      with Inr l c show ?thesis by (auto simp: outcome_evidence_def)
    next
      case Release
      have kept: "ensures archive_fits keep_log (calm env hot archive r) (rcv_advance env hot archive r claim d) ?l
          (\<lambda>x l. result_post (calm env hot archive r) (outcome_evidence env r) x l \<and> claimed r d claim l)"
        by (rule ensures_keeps [where P = "claimed r d claim", OF advance_ensures [OF l c Release] c]) (simp add: keep_log_def)
      have "ensures archive_fits keep_log (calm env hot archive r)
          (bind_task (rcv_advance env hot archive r claim d) (\<lambda>result.
             case result of
               Inr outcome \<Rightarrow> Done (LtCommitted outcome)
             | Inl attempt \<Rightarrow>
                 (case attempt_fault attempt of
                    None \<Rightarrow> Done attempt
                  | Some e \<Rightarrow>
                      call_port (RepoFault r claim e d) unit_reply (\<lambda>answer.
                        case rcv_settled answer of Inl failure \<Rightarrow> Done failure | Inr _ \<Rightarrow> Done attempt)))) ?l (run_post env hot archive r)"
        by (rule ensures_bind [OF kept])
          (auto simp: result_post_def supported_failure intro!: fault_ensures split: sum.splits option.split)
      with Inr Release show ?thesis by simp
    qed
  qed (use l in \<open>auto simp: supported_failure settled_Inl\<close>)
qed auto

subsection \<open>The whole execution\<close>

lemma supported_keep: "attempt_supported env r a l \<Longrightarrow> attempt_supported env r a (keep_log e l)"
proof (cases a)
  case (LtCommitted outcome)
  assume "attempt_supported env r a l"
  with LtCommitted obtain claim d where "claimed r d claim l" "outcome_evidence env r outcome l" by (auto simp: outcome_evidence_def)
  with LtCommitted show ?thesis
    unfolding outcome_evidence_def keep_log_def by (cases outcome) (auto simp: outcome_evidence_def; blast)+
qed simp_all

interpretation archive_operation: bounded_operation
  archive_fits "archive_run env hot archive r" "archive_readback r" track_integrity False "\<lambda>s l. s \<longleftrightarrow> fault_issued l"
  "silent is_port" "silent (requests_of (RepoReceipt r))" "audited env hot archive r" "attempt_supported env r" "receipt_read r"
  for env hot archive r
proof
  fix l d
  assume l: "silent is_port l" "silent (requests_of (RepoReceipt r)) l" "audited env hot archive r l" "silent is_observation l"
  then have "calm env hot archive r l" by (simp add: calm_def)
  from run_ensures [OF this]
  show "ensures archive_fits keep_log (\<lambda>l. silent (requests_of (RepoReceipt r)) l \<and> audited env hot archive r l \<and> silent is_observation l)
      (archive_run env hot archive r d) l
      (\<lambda>a l. silent (requests_of (RepoReceipt r)) l \<and> audited env hot archive r l \<and> silent is_observation l \<and> attempt_supported env r a l)"
    unfolding calm_def by simp
next
  fix s l d
  assume l: "s \<longleftrightarrow> fault_issued l" "silent (requests_of (RepoReceipt r)) l" "audited env hot archive r l" "silent is_observation l"
  show "ensures archive_fits keep_log (\<lambda>l. audited env hot archive r l \<and> silent is_observation l) (archive_readback r s d) l
      (\<lambda>x l. audited env hot archive r l \<and> silent is_observation l \<and> (\<forall>v. x = Inr (Some v) \<longrightarrow> receipt_read r v l))"
  proof (cases s)
    case False
    let ?l = "keep_log (Issued (Port (RepoReceipt r d))) l"
    have "audited env hot archive r ?l \<and> silent is_observation ?l \<and> \<not> fault_issued ?l"
      using l False by simp
    moreover have "receipt_read r v (keep_log (Answered (Port (RepoReceipt r d)) (PortReply (ReceiptReply (Inr (Some v))))) ?l)" for v
      using calculation
      by (simp add: receipt_read_def answered_with_def) (auto simp: keep_log_def intro!: exI [of _ d] exI [of _ "ReceiptReply (Inr (Some v))"])
    ultimately show ?thesis
      using l False by (auto simp: archive_readback_def one_call_def call_port_def ask_def split: bounded_reply.split)
  qed (use l in \<open>simp add: archive_readback_def\<close>)
next
  fix s and l :: archive_log and e
  assume "s \<longleftrightarrow> fault_issued l"
  then show "track_integrity e s \<longleftrightarrow> fault_issued (keep_log e l)"
    by (cases "(e, s)" rule: track_integrity.cases) auto
qed (auto intro: supported_keep)

text \<open>C4. The hot copy of a dead letter is removed only behind a verified cold copy. In every run, whatever
  the repository, the object store and the clock answer and wherever the deadline cuts it: the purge is
  requested only for the claimed, released and unpurged record, after its hot time, after the proof was
  durably recorded, and after the provider showed the exact bytes under a compliance lock that outlasts
  the retention bound and opens to the captured facts; an upload only after its bytes are durable; a
  missing proof only for an expired object the provider reported absent. The run returns, one observation
  closes it, a committed outcome has its evidence in the run or in a receipt, and a receipt never settles
  a run that found an integrity fault.\<close>

theorem archive_purge_behind_copy:
  assumes "\<And>x w. archive_fits x (fst (te_answer world x w))"
    and "run_task world (archive_execute env hot archive r deadlines) w = (es, result, w')"
  shows "\<exists>a l. result = Some a \<and>
     es = l @ [Issued (Observe \<lparr>ae_status = attempt_status_of a, ae_outcome = attempt_value a, ae_error = attempt_error a\<rparr>)] \<and>
     silent is_observation l \<and> audited env hot archive r l \<and>
     attempt_evidence (attempt_supported env r) (receipt_read r) (silent is_port) (silent (requests_of (RepoReceipt r))) AxDeadline a l"
  using archive_operation.run_settles [OF assms(1) assms(2) [unfolded archive_execute_def]]
  by (simp add: attempt_observed_def)

text \<open>A provider that keeps the uploaded object, and a repository that grants every step.\<close>

definition sample_prepared :: archive_prepared where
  "sample_prepared =
     \<lparr>ap_object = \<lparr>ao_key = object_key sample_request ''g1'', ao_checksum = [3], ao_length = 2, ao_version = None, ao_retain_until = 125\<rparr>,
      ap_bytes = [2, 7]\<rparr>"

definition sample_world ::
  "((archive_call, archive_event) bounded_request, archive_answer bounded_reply, unit) task_env" where
  "sample_world =
     \<lparr>te_choose = (\<lambda>w. (False, w)), te_issue = (\<lambda>x w. w),
      te_answer = (\<lambda>x w. ((case x of
         ClockNow \<Rightarrow> NowIs 3
       | Observe _ \<Rightarrow> NowIs 3
       | Port (RepoReceipt _ _) \<Rightarrow> PortReply (ReceiptReply (Inr None))
       | Port (RepoClaim _ _) \<Rightarrow> PortReply (ClaimReply (LtCommitted sample_claim))
       | Port (PutObject p _) \<Rightarrow> PortReply (PutReply (Inr ((ap_object p)\<lparr>ao_version := Some ''v''\<rparr>)))
       | Port (InspectObject q _ _) \<Rightarrow>
           PortReply (InspectReply (Inr (Some \<lparr>ob_object = q, ob_compliance = True, ob_bytes = Some (ap_bytes sample_prepared)\<rparr>)))
       | Port _ \<Rightarrow> PortReply (UnitReply (LtCommitted ()))), w))\<rparr>"

lemma sample_prepare:
  "archive_prepare sample_env (sample_key 1) (sample_key 2) sample_request sample_claim (the (cl_candidate sample_claim)) = Ok sample_prepared"
proof -
  have "cand_context (the (cl_candidate sample_claim)) = sample_context" "cand_capsule (the (cl_candidate sample_claim)) = [1, 69]"
    by (simp_all add: sample_claim_def)
  with capsule_open_sample show ?thesis
    by (simp add: archive_prepare_def)
      (simp add: without_transport_def sample_defs sample_steps archive_aad_def object_key_def reason_label_def format_version_def
        max_object_bytes_def minimum_lock_until_def i64_checked_add_def i64_defs sample_prepared_def)
qed

definition sample_object :: archive_object where
  "sample_object = (ap_object sample_prepared)\<lparr>ao_version := Some ''v''\<rparr>"

lemma sample_verify:
  "archive_verify sample_env (sample_key 2) sample_request sample_claim sample_object
     \<lparr>ob_object = sample_object, ob_compliance = True, ob_bytes = Some (ap_bytes sample_prepared)\<rparr>
   = Ok (Verified sample_object [3] ''g1'')"
proof -
  let ?c = "the (cl_candidate sample_claim)"
  have c: "cl_candidate sample_claim = Some ?c" "cand_context ?c = sample_context" by (simp_all add: sample_claim_def)
  obtain aad where aad: "archive_aad sample_request (ao_key sample_object) = Ok aad"
    by (auto simp: archive_aad_def sample_object_def sample_prepared_def object_key_def sample_request_def derive_aad_def
        protection_context_new_def protection_aad_new_def format_version_def ascii_bytes_def)
  have "archive_validate sample_env (sample_key 2) sample_request ?c (ao_key sample_object) (ap_bytes sample_prepared) = Ok ()"
    using sample_decode sample_valid aad c(2)
    by (simp add: archive_validate_def sample_prepared_def sample_cipher_def stored_envelope_def ciphertext_envelope_new_def
        sample_key_def sample_canonical_def format_version_def sample_env_def sample_request_def reason_label_def sample_claim_def
        sample_context_def)
  then show ?thesis
    using c by (simp add: archive_verify_def validate_object_def sample_object_def sample_prepared_def sample_env_def version_unusable_def
        minimum_lock_until_def i64_checked_add_def i64_defs sample_claim_def sample_request_def archive_digest_def recovery_hash_def)
qed

theorem archive_purge_behind_copy_witness:
  "fst (snd (run_task sample_world (archive_execute sample_env (sample_key 1) (sample_key 2) sample_request
      \<lparr>ed_operation = 5, ed_settlement = 8\<rparr>) ())) = Some (LtCommitted OutPurged) \<and>
   audited sample_env (sample_key 1) (sample_key 2) sample_request
     (butlast (fst (run_task sample_world (archive_execute sample_env (sample_key 1) (sample_key 2) sample_request
      \<lparr>ed_operation = 5, ed_settlement = 8\<rparr>) ())))"
proof -
  let ?t = "archive_execute sample_env (sample_key 1) (sample_key 2) sample_request \<lparr>ed_operation = 5, ed_settlement = 8\<rparr>"
  obtain es x w' where run: "run_task sample_world ?t () = (es, x, w')" using prod_cases3 by blast
  have "archive_fits q (fst (te_answer sample_world q w))" for q w
    by (cases q; simp add: sample_world_def split: archive_call.split)
  from archive_purge_behind_copy [OF this run]
  have a: "audited sample_env (sample_key 1) (sample_key 2) sample_request (butlast es)" by auto
  obtain c where "cl_candidate sample_claim = Some c" by (simp add: sample_claim_def)
  moreover from this have "archive_prepare sample_env (sample_key 1) (sample_key 2) sample_request sample_claim c = Ok sample_prepared"
    using sample_prepare by simp
  moreover have "cl_retired sample_claim = []" "cl_object sample_claim = None"
    "cl_prepared sample_claim = None" "\<not> cl_purged sample_claim" "\<not> cl_now sample_claim < cl_hot_until sample_claim"
    "ar_hold sample_request = Release"
    by (simp_all add: sample_claim_def sample_request_def)
  ultimately have "fst (snd (run_task sample_world ?t ())) = Some (LtCommitted OutPurged)"
    using sample_verify [unfolded sample_object_def]
    by (simp add: archive_execute_def completion_execute_def completion_apply_def within_task_def ask_now_def archive_run_def
        call_port_def rcv_advance_def then_ok_def obtain_object_def or_fail_def call_settled_def upload_object_def rcv_settle_observed_def
        rcv_settled_def sample_world_def run_bind from_cutoff_def remaining_or_zero_def deadline_remaining_def Let_def
        completion_readback_def observe_attempt_def ask_def)
  with run a show ?thesis by simp
qed

end
