(* ===== verification/Messaging_Memory.thy ===== *)
theory Messaging_Memory
  imports Messaging_Ports "HOL-Library.Multiset"
begin

section \<open>The in-memory reference providers\<close>

text \<open>
  Models \<^verbatim>\<open>crates/transactional-messaging-testkit/src/memory.rs\<close>: the outbox store, the scripted
  publisher, the inbox store and the recording settlement that the conformance suites and the
  hosts' tests run against, as functions on the state behind their mutex. None of their
  asynchronous operations awaits anything, so each is one atomic step. An \<open>Arc\<close> is the value it
  points to; a \<open>HashMap\<close> is a partial function. The clock of the file is modelled by its instant
  and its registered wakers.
\<close>

subsection \<open>Clock\<close>

record fake_clock =
  fc_now :: instant
  fc_waiters :: "nat list"

text \<open>\<open>advance\<close>: the wakers woken, and the clock; an overflowing advance changes nothing.\<close>

definition fake_advance :: "duration \<Rightarrow> fake_clock \<Rightarrow> (deadline_overflow + nat list) \<times> fake_clock" where
  "fake_advance d c =
     (case instant_checked_add (fc_now c) d of
        None \<Rightarrow> (Err DeadlineOverflow, c)
      | Some now \<Rightarrow> (Ok (fc_waiters c), \<lparr>fc_now = now, fc_waiters = []\<rparr>))"

text \<open>
  One poll of the future of \<open>sleep_until\<close> by the task with waker \<open>w\<close>: whether it is ready. The
  second reading of the clock under the lock of the waiters gives \<open>now'\<close>.
\<close>

definition fake_sleep_poll :: "deadline \<Rightarrow> nat \<Rightarrow> instant \<Rightarrow> fake_clock \<Rightarrow> bool \<times> fake_clock" where
  "fake_sleep_poll dl w now' c =
     (if fc_now c \<ge> dl then (True, c)
      else if now' \<ge> dl then (True, c)
      else if w \<notin> set (fc_waiters c) then (False, c\<lparr>fc_waiters := fc_waiters c @ [w]\<rparr>)
      else (False, c))"

subsection \<open>Outbox store\<close>

type_synonym outbox_identity = "tenant_id \<times> string"

definition outbox_identity_of :: "pending_message \<Rightarrow> outbox_identity" where
  "outbox_identity_of m = (mm_tenant (me_metadata (pm_envelope m)), me_id (pm_envelope m))"

definition pm_partition :: "pending_message \<Rightarrow> partition_identity option" where
  "pm_partition m = mm_partition (me_metadata (pm_envelope m))"

definition attempt_exhausted :: messaging_error where
  "attempt_exhausted = MInvariant"

datatype outbox_entry_state = EntryPending | EntryClaimed u64 | EntryDeadLetter

record outbox_entry =
  oe_message :: pending_message
  oe_state :: outbox_entry_state

type_synonym outbox_claim = "pending_message \<times> u64"

definition entry_owns :: "outbox_entry \<Rightarrow> outbox_claim \<Rightarrow> bool" where
  "entry_owns e c \<longleftrightarrow>
     outbox_identity_of (oe_message e) = outbox_identity_of (fst c) \<and> oe_state e = EntryClaimed (snd c)"

record outbox_state =
  ob_entries :: "outbox_entry list"
  ob_fingerprints :: "outbox_identity \<rightharpoonup> fingerprint"
  ob_next_attempt :: u64
  ob_settlements :: "outbox_disposition list"

definition outbox_state_default :: outbox_state where
  "outbox_state_default =
     \<lparr>ob_entries = [], ob_fingerprints = Map.empty, ob_next_attempt = 0, ob_settlements = []\<rparr>"

definition memory_budget :: delivery_budget where
  "memory_budget =
     \<lparr>db_lease_ttl = from_secs 30, db_publish_timeout = from_secs 2,
      db_settle_timeout = from_secs 1, db_safety_margin = from_secs 1\<rparr>"

definition fence_claims :: "outbox_state \<Rightarrow> outbox_state" where
  "fence_claims s = s\<lparr>ob_entries := map
     (\<lambda>e. case oe_state e of EntryClaimed _ \<Rightarrow> e\<lparr>oe_state := EntryPending\<rparr> | _ \<Rightarrow> e) (ob_entries s)\<rparr>"

definition resolve_partition :: "partition_identity \<Rightarrow> outbox_state \<Rightarrow> outbox_state" where
  "resolve_partition p s = s\<lparr>ob_entries := filter
     (\<lambda>e. oe_state e \<noteq> EntryDeadLetter \<or> pm_partition (oe_message e) \<noteq> Some p) (ob_entries s)\<rparr>"

definition pending_len :: "outbox_state \<Rightarrow> nat" where
  "pending_len s = length (ob_entries s)"

definition outbox_append ::
  "pending_message \<Rightarrow> outbox_state \<Rightarrow> (messaging_error + append_outcome) \<times> outbox_state" where
  "outbox_append m s =
     (case ob_fingerprints s (outbox_identity_of m) of
        Some existing \<Rightarrow>
          if existing = pm_fingerprint m then (Ok AlreadyPresent, s) else (Err MConflict, s)
      | None \<Rightarrow>
          (Ok Inserted, s
            \<lparr>ob_fingerprints := (ob_fingerprints s)(outbox_identity_of m \<mapsto> pm_fingerprint m),
             ob_entries := ob_entries s @ [\<lparr>oe_message = m, oe_state = EntryPending\<rparr>]\<rparr>))"

text \<open>The loop of \<open>claim_partition_heads\<close> over the entries.\<close>

fun claim_scan ::
  "nat \<Rightarrow> partition_identity list \<Rightarrow> outbox_claim list \<Rightarrow> u64 \<Rightarrow> outbox_entry list
     \<Rightarrow> outbox_entry list \<times> outbox_claim list \<times> u64" where
  "claim_scan limit seen claims n [] = ([], claims, n)"
| "claim_scan limit seen claims n (e # es) =
     (let p = pm_partition (oe_message e) in
      if p \<in> Some ` set seen then apfst ((#) e) (claim_scan limit seen claims n es)
      else
        let seen' = (case p of Some q \<Rightarrow> seen @ [q] | None \<Rightarrow> seen) in
        if length claims \<ge> limit then apfst ((#) e) (claim_scan limit seen' claims n es)
        else if oe_state e = EntryPending then
          apfst ((#) (e\<lparr>oe_state := EntryClaimed (n + 1)\<rparr>))
            (claim_scan limit seen' (claims @ [(oe_message e, n + 1)]) (n + 1) es)
        else apfst ((#) e) (claim_scan limit seen' claims n es))"

text \<open>\<open>u64::try_from(usize)\<close>.\<close>

definition u64_try_from :: "nat \<Rightarrow> u64 option" where
  "u64_try_from n = (if n < 2 ^ 64 then Some (of_nat n) else None)"

definition claim_partition_heads ::
  "nat \<Rightarrow> outbox_state \<Rightarrow> (messaging_error + outbox_claim list) \<times> outbox_state" where
  "claim_partition_heads limit s =
     (case u64_try_from (min (length (ob_entries s)) limit) of
        None \<Rightarrow> (Err attempt_exhausted, s)
      | Some maximum \<Rightarrow>
          (case u64_checked_add (ob_next_attempt s) maximum of
             None \<Rightarrow> (Err attempt_exhausted, s)
           | Some _ \<Rightarrow>
               (let (es, claims, n) = claim_scan limit [] [] (ob_next_attempt s) (ob_entries s) in
                (map_err (\<lambda>_. MInvariant) (try_from_provider claims limit),
                 s\<lparr>ob_entries := es, ob_next_attempt := n\<rparr>))))"

definition outbox_lease_status_of ::
  "outbox_claim \<Rightarrow> duration \<Rightarrow> outbox_state \<Rightarrow> messaging_error + outbox_lease_status" where
  "outbox_lease_status_of c timeout s =
     (if timeout = 0 then Ok OutboxLost
      else if list_ex (\<lambda>e. entry_owns e c) (ob_entries s)
      then Ok (OutboxHeld (db_lease_ttl memory_budget) None)
      else Ok OutboxLost)"

definition outbox_extend ::
  "outbox_claim \<Rightarrow> duration \<Rightarrow> outbox_state \<Rightarrow> messaging_error + outbox_lease_status" where
  "outbox_extend c timeout s = outbox_lease_status_of c timeout s"

definition outbox_message :: "outbox_claim \<Rightarrow> pending_message" where
  "outbox_message c = fst c"

text \<open>The index of the first entry with the identity of the claim.\<close>

fun position_of :: "outbox_identity \<Rightarrow> outbox_entry list \<Rightarrow> nat option" where
  "position_of i [] = None"
| "position_of i (e # es) =
     (if outbox_identity_of (oe_message e) = i then Some 0 else map_option Suc (position_of i es))"

definition remove_at :: "nat \<Rightarrow> 'a list \<Rightarrow> 'a list" where
  "remove_at i xs = take i xs @ drop (Suc i) xs"

definition outbox_settle ::
  "outbox_claim \<Rightarrow> 'r outbox_settlement \<Rightarrow> duration \<Rightarrow> outbox_state
     \<Rightarrow> (messaging_error + unit) \<times> outbox_state" where
  "outbox_settle c settlement timeout s =
     (case position_of (outbox_identity_of (fst c)) (ob_entries s) of
        None \<Rightarrow> (Err MOwnershipLost, s)
      | Some i \<Rightarrow>
          let e = ob_entries s ! i;
              owned = entry_owns e c;
              put = (\<lambda>st. (ob_entries s)[i := e\<lparr>oe_state := st\<rparr>]) in
          if timeout = 0 then
            (Err MDeadlineElapsed, if owned then s\<lparr>ob_entries := put EntryPending\<rparr> else s)
          else if \<not> owned then (Err MOwnershipLost, s)
          else
            (Ok (), s\<lparr>ob_settlements := ob_settlements s @ [disposition settlement],
               ob_entries := (case settlement of
                   SetPublished _ \<Rightarrow> remove_at i (ob_entries s)
                 | SetRetry \<Rightarrow> put EntryPending
                 | SetDeadLetter \<Rightarrow> put EntryDeadLetter)\<rparr>))"

subsection \<open>Scripted publisher\<close>

record 'r memory_publisher =
  mp_outcomes :: "'r publish_outcome list"
  mp_ids :: "string list"
  mp_exhausted :: bool

definition memory_publisher_new :: "'r publish_outcome list \<Rightarrow> 'r memory_publisher" where
  "memory_publisher_new outcomes = \<lparr>mp_outcomes = outcomes, mp_ids = [], mp_exhausted = False\<rparr>"

definition memory_publish ::
  "message_envelope \<Rightarrow> 'r memory_publisher \<Rightarrow> 'r publish_outcome \<times> 'r memory_publisher" where
  "memory_publish m p =
     (let p = p\<lparr>mp_ids := mp_ids p @ [me_id m]\<rparr> in
      case mp_outcomes p of
        out # rest \<Rightarrow> (out, p\<lparr>mp_outcomes := rest\<rparr>)
      | [] \<Rightarrow> (DefinitelyNotPublished
                \<lparr>pf_kind = PfPermanent, pf_stage = StageAdmission, pf_reason = InvalidMessage\<rparr>,
              p\<lparr>mp_exhausted := True\<rparr>))"

subsection \<open>Inbox store\<close>

record inbox_key =
  ik_tenant :: bytes
  ik_group :: string
  ik_message_id :: string
  ik_contract_id :: string
  ik_contract_major :: nat
  ik_schema_digest :: string

datatype inbox_record =
  InboxClaimed u64
  | InboxTerminal consumer_identity fingerprint terminal_disposition

record inbox_state =
  ib_records :: "inbox_key \<rightharpoonup> inbox_record"
  ib_next_epoch :: u64

definition inbox_state_default :: inbox_state where
  "inbox_state_default = \<lparr>ib_records = Map.empty, ib_next_epoch = 1\<rparr>"

definition memory_lease :: duration where
  "memory_lease = from_secs 30"

definition identity_key :: "consumer_identity \<Rightarrow> inbox_key" where
  "identity_key i =
     \<lparr>ik_tenant = octets (cn_tenant i), ik_group = cn_group i, ik_message_id = cn_message_id i,
      ik_contract_id = ci_id (cn_contract i), ik_contract_major = ci_version (cn_contract i),
      ik_schema_digest = ci_schema_digest (cn_contract i)\<rparr>"

definition store_terminal ::
  "consumer_identity \<Rightarrow> fingerprint \<Rightarrow> terminal_disposition \<Rightarrow> inbox_state \<Rightarrow> inbox_state" where
  "store_terminal i f d s =
     s\<lparr>ib_records := (ib_records s)(identity_key i \<mapsto> InboxTerminal i f d)\<rparr>"

definition inbox_expire :: "consumer_identity \<Rightarrow> inbox_state \<Rightarrow> inbox_state" where
  "inbox_expire i s =
     (case ib_records s (identity_key i) of
        Some (InboxClaimed _) \<Rightarrow> s\<lparr>ib_records := (ib_records s)(identity_key i := None)\<rparr>
      | _ \<Rightarrow> s)"

definition from_durable ::
  "consumer_identity \<Rightarrow> fingerprint \<Rightarrow> terminal_disposition \<Rightarrow> terminal_receipt" where
  "from_durable i f d = \<lparr>tr_consumer = i, tr_fingerprint = f, tr_disposition = d\<rparr>"

type_synonym inbox_claim = "consumer_identity \<times> u64"

definition u64_saturating_succ :: "u64 \<Rightarrow> u64" where
  "u64_saturating_succ n = (if n = - 1 then n else n + 1)"

definition inbox_claim_of ::
  "consumer_identity \<Rightarrow> inbox_state
     \<Rightarrow> (messaging_error + inbox_claim idempotency_disposition) \<times> inbox_state" where
  "inbox_claim_of i s =
     (case ib_records s (identity_key i) of
        Some (InboxClaimed _) \<Rightarrow> (Ok InProgress, s)
      | Some (InboxTerminal j f d) \<Rightarrow> (Ok (Terminal (from_durable j f d)), s)
      | None \<Rightarrow>
          (Ok (Acquired (i, ib_next_epoch s)),
           s\<lparr>ib_next_epoch := u64_saturating_succ (ib_next_epoch s),
             ib_records := (ib_records s)(identity_key i \<mapsto> InboxClaimed (ib_next_epoch s))\<rparr>))"

definition inbox_read_terminal ::
  "consumer_identity \<Rightarrow> inbox_state \<Rightarrow> messaging_error + terminal_receipt option" where
  "inbox_read_terminal i s =
     Ok (case ib_records s (identity_key i) of
           Some (InboxTerminal j f d) \<Rightarrow> Some (from_durable j f d) | _ \<Rightarrow> None)"

definition inbox_extend ::
  "inbox_claim \<Rightarrow> duration \<Rightarrow> inbox_state \<Rightarrow> messaging_error + lease_status" where
  "inbox_extend c timeout s =
     (if timeout = 0 then Ok LeaseLost
      else case ib_records s (identity_key (fst c)) of
          Some (InboxClaimed epoch) \<Rightarrow>
            if epoch = snd c then Ok (LeaseHeld memory_lease) else Ok LeaseLost
        | _ \<Rightarrow> Ok LeaseLost)"

definition inbox_release ::
  "inbox_claim \<Rightarrow> duration \<Rightarrow> inbox_state \<Rightarrow> (messaging_error + unit) \<times> inbox_state" where
  "inbox_release c timeout s =
     (if timeout = 0 then (Err MDeadlineElapsed, s)
      else if ib_records s (identity_key (fst c)) = Some (InboxClaimed (snd c))
      then (Ok (), s\<lparr>ib_records := (ib_records s)(identity_key (fst c) := None)\<rparr>)
      else (Err MOwnershipLost, s))"

subsection \<open>Recording settlement\<close>

record recording_settlement =
  rs_settlements :: "settlement_kind list"
  rs_abandons :: nat
  rs_fail :: bool

definition recording_new :: recording_settlement where
  "recording_new = \<lparr>rs_settlements = [], rs_abandons = 0, rs_fail = False\<rparr>"

definition recording_failing :: recording_settlement where
  "recording_failing = recording_new\<lparr>rs_fail := True\<rparr>"

definition recording_result :: "recording_settlement \<Rightarrow> messaging_error + unit" where
  "recording_result r = (if rs_fail r then Err MTransient else Ok ())"

definition recording_settle ::
  "settlement_kind \<Rightarrow> recording_settlement \<Rightarrow> (messaging_error + unit) \<times> recording_settlement" where
  "recording_settle d r = (recording_result r, r\<lparr>rs_settlements := rs_settlements r @ [d]\<rparr>)"

definition recording_abandon ::
  "recording_settlement \<Rightarrow> (messaging_error + unit) \<times> recording_settlement" where
  "recording_abandon r = (recording_result r, r\<lparr>rs_abandons := Suc (rs_abandons r)\<rparr>)"

section \<open>Theorems\<close>

subsection \<open>The outbox queue\<close>

text \<open>
  The contract of the store is a queue per partition: only the oldest unresolved message of a
  partition may be claimed, dead-lettered or removed. \<open>only_heads\<close> says that every entry behind
  another one of its partition is pending.
\<close>

definition entry_id :: "outbox_entry \<Rightarrow> outbox_identity" where
  "entry_id e = outbox_identity_of (oe_message e)"

abbreviation entry_partition :: "outbox_entry \<Rightarrow> partition_identity option" where
  "entry_partition e \<equiv> pm_partition (oe_message e)"

definition see :: "partition_identity option \<Rightarrow> partition_identity set \<Rightarrow> partition_identity set" where
  "see p S = (case p of Some q \<Rightarrow> insert q S | None \<Rightarrow> S)"

fun only_heads :: "partition_identity set \<Rightarrow> outbox_entry list \<Rightarrow> bool" where
  "only_heads S [] = True"
| "only_heads S (e # es) =
     ((entry_partition e \<in> Some ` S \<longrightarrow> oe_state e = EntryPending) \<and>
      only_heads (see (entry_partition e) S) es)"

fun attempts :: "outbox_entry list \<Rightarrow> nat list" where
  "attempts [] = []"
| "attempts (e # es) = (case oe_state e of EntryClaimed a \<Rightarrow> [unat a] | _ \<Rightarrow> []) @ attempts es"

fun pending_heads :: "partition_identity set \<Rightarrow> outbox_entry list \<Rightarrow> outbox_entry list" where
  "pending_heads S [] = []"
| "pending_heads S (e # es) =
     (if entry_partition e \<notin> Some ` S \<and> oe_state e = EntryPending then [e] else [])
     @ pending_heads (see (entry_partition e) S) es"

definition outbox_ok :: "outbox_state \<Rightarrow> bool" where
  "outbox_ok s \<longleftrightarrow>
     distinct (map entry_id (ob_entries s)) \<and> only_heads {} (ob_entries s) \<and>
     entry_id ` set (ob_entries s) \<subseteq> dom (ob_fingerprints s) \<and>
     distinct (attempts (ob_entries s)) \<and>
     (\<forall>a \<in> set (attempts (ob_entries s)). a \<le> unat (ob_next_attempt s))"

lemma see_simps [simp]: "see None S = S" "see (Some q) S = insert q S"
  by (simp_all add: see_def)

lemma see_mono: "S \<subseteq> T \<Longrightarrow> see p S \<subseteq> see p T"
  by (cases p) auto

lemma only_heads_antimono: "only_heads T es \<Longrightarrow> S \<subseteq> T \<Longrightarrow> only_heads S es"
proof (induction es arbitrary: S T)
  case (Cons e es)
  then show ?case using see_mono [OF Cons.prems(2), of "entry_partition e"] by (auto intro: Cons.IH)
qed simp

lemma only_heads_filter: "only_heads S es \<Longrightarrow> only_heads S (filter P es)"
proof (induction es arbitrary: S)
  case (Cons e es)
  then have "only_heads (see (entry_partition e) S) (filter P es)" by simp
  moreover have "S \<subseteq> see (entry_partition e) S" by (cases "entry_partition e") auto
  ultimately show ?case using Cons.prems by (auto intro: only_heads_antimono)
qed simp

lemma only_heads_seen_pending:
  "only_heads S es \<Longrightarrow> p \<in> S \<Longrightarrow> e \<in> set es \<Longrightarrow> entry_partition e = Some p \<Longrightarrow> oe_state e = EntryPending"
proof (induction es arbitrary: S)
  case (Cons x es)
  have "p \<in> see (entry_partition x) S" using Cons.prems(2) by (cases "entry_partition x") auto
  then show ?case using Cons.prems Cons.IH [of "see (entry_partition x) S"] by auto
qed simp

lemma only_heads_append_pending:
  "only_heads S es \<Longrightarrow> oe_state e = EntryPending \<Longrightarrow> only_heads S (es @ [e])"
  by (induction es arbitrary: S) auto

text \<open>A claimed or dead-lettered entry is the first of its partition, so its state may change.\<close>

lemma only_heads_state:
  "only_heads S (xs @ e # ys) \<Longrightarrow> oe_state e \<noteq> EntryPending \<Longrightarrow>
     only_heads S (xs @ e\<lparr>oe_state := st\<rparr> # ys)"
  by (induction xs arbitrary: S) auto

lemma only_heads_map:
  assumes "\<And>e. oe_message (f e) = oe_message e" and "\<And>e. oe_state e = EntryPending \<Longrightarrow> oe_state (f e) = EntryPending"
  shows "only_heads S es \<Longrightarrow> only_heads S (map f es)"
  by (induction es arbitrary: S) (auto simp: assms)

text \<open>What leaves a partition because it is not pending is a prefix of the partition.\<close>

lemma only_heads_prefix:
  assumes "only_heads S es" and "\<And>e. e \<in> set es \<Longrightarrow> \<not> P e \<Longrightarrow> oe_state e \<noteq> EntryPending"
  shows "filter (\<lambda>e. entry_partition e = Some p) es =
    filter (\<lambda>e. entry_partition e = Some p) (filter (\<lambda>e. \<not> P e) es)
    @ filter (\<lambda>e. entry_partition e = Some p) (filter P es)"
  using assms
proof (induction es arbitrary: S)
  case (Cons e es)
  note IH = Cons.IH [OF conjunct2 [OF Cons.prems(1) [unfolded only_heads.simps]] Cons.prems(2)]
  show ?case
  proof (cases "P e \<and> entry_partition e = Some p")
    case True
    then have "P x" if "x \<in> set es" "entry_partition x = Some p" for x
      using that Cons.prems only_heads_seen_pending [of "see (Some p) S" es p x] by auto
    then have "filter (\<lambda>e. entry_partition e = Some p) (filter (\<lambda>e. \<not> P e) es) = []"
      by (auto simp: filter_empty_conv)
    then show ?thesis using True IH by simp
  next
    case False
    then show ?thesis using IH by auto
  qed
qed simp

subsection \<open>One operation\<close>

lemma attempts_append [simp]: "attempts (xs @ ys) = attempts xs @ attempts ys"
  by (induction xs) auto

lemma attempts_filter: "set (attempts (filter P es)) \<subseteq> set (attempts es)"
  by (induction es) (auto split: outbox_entry_state.splits)

lemma distinct_attempts_filter: "distinct (attempts es) \<Longrightarrow> distinct (attempts (filter P es))"
  by (induction es) (auto split: outbox_entry_state.splits dest: subsetD [OF attempts_filter])

lemma attempts_mem: "a \<in> set (attempts es) \<longleftrightarrow> (\<exists>e \<in> set es. \<exists>w. oe_state e = EntryClaimed w \<and> unat w = a)"
proof (induction es)
  case (Cons e es)
  then show ?case by (cases "oe_state e") auto
qed simp

lemma position_of_None: "position_of i es = None \<longleftrightarrow> i \<notin> entry_id ` set es"
  by (induction es) (auto simp: entry_id_def)

lemma position_of_Some:
  "position_of i es = Some k \<Longrightarrow> \<exists>xs e ys. es = xs @ e # ys \<and> length xs = k \<and> entry_id e = i"
proof (induction es arbitrary: k)
  case (Cons e es)
  show ?case
  proof (cases "entry_id e = i")
    case True
    then have "e # es = [] @ e # es \<and> length [] = k \<and> entry_id e = i"
      using Cons.prems by (simp add: entry_id_def)
    then show ?thesis by blast
  next
    case False
    then obtain j where "position_of i es = Some j" "k = Suc j"
      using Cons.prems by (auto simp: entry_id_def)
    then obtain xs x ys where "es = xs @ x # ys" "length xs = j" "entry_id x = i"
      using Cons.IH by blast
    then have "e # es = (e # xs) @ x # ys \<and> length (e # xs) = k \<and> entry_id x = i"
      using \<open>k = Suc j\<close> by simp
    then show ?thesis by blast
  qed
qed simp

text \<open>
  The effect of a settlement: nothing unless the claim is the current one of an entry, and
  otherwise on that entry only.
\<close>

lemma outbox_settle_cases:
  obtains
    (refused) err where "outbox_settle c st t s = (Inl err, s)"
      "err \<in> {MOwnershipLost, MDeadlineElapsed}"
  | (late) xs e ys where "ob_entries s = xs @ e # ys" "entry_owns e c" "t = 0"
      "outbox_settle c st t s = (Inl MDeadlineElapsed, s\<lparr>ob_entries := xs @ e\<lparr>oe_state := EntryPending\<rparr> # ys\<rparr>)"
  | (published) xs e ys r where "ob_entries s = xs @ e # ys" "entry_owns e c" "t \<noteq> 0" "st = SetPublished r"
      "outbox_settle c st t s = (Inr (), s\<lparr>ob_settlements := ob_settlements s @ [OdPublished], ob_entries := xs @ ys\<rparr>)"
  | (kept) xs e ys st' where "ob_entries s = xs @ e # ys" "entry_owns e c" "t \<noteq> 0" "st \<in> {SetRetry, SetDeadLetter}"
      "st' = (if st = SetRetry then EntryPending else EntryDeadLetter)"
      "outbox_settle c st t s = (Inr (), s\<lparr>ob_settlements := ob_settlements s @ [disposition st],
         ob_entries := xs @ e\<lparr>oe_state := st'\<rparr> # ys\<rparr>)"
proof (cases "position_of (outbox_identity_of (fst c)) (ob_entries s)")
  case None
  then show thesis using refused by (simp add: outbox_settle_def)
next
  case (Some i)
  then obtain xs e ys where es: "ob_entries s = xs @ e # ys" and i: "length xs = i"
    by (auto dest: position_of_Some)
  have up: "(xs @ e # ys)[i := e\<lparr>oe_state := z\<rparr>] = xs @ e\<lparr>oe_state := z\<rparr> # ys" for z
    using i by auto
  have at: "(xs @ e # ys) ! i = e" and rm: "remove_at i (xs @ e # ys) = xs @ ys"
    using i by (auto simp: remove_at_def)
  note pos = Some [unfolded es]
  note d = outbox_settle_def [of c st t s, unfolded es pos Let_def option.case at up rm]
  show thesis
  proof (cases "entry_owns e c")
    case True
    show thesis
    proof (cases "t = 0")
      case True
      then show thesis using late [OF es \<open>entry_owns e c\<close>] d \<open>entry_owns e c\<close> by simp
    next
      case False
      then show thesis
        using published [OF es True] kept [OF es True] d True by (cases st) simp_all
    qed
  qed (use refused d in \<open>cases "t = 0"; simp\<close>)
qed


text \<open>The messages an operation added to the store and those it removed, in queue order.\<close>

definition ob_messages :: "outbox_state \<Rightarrow> pending_message list" where
  "ob_messages s = map oe_message (ob_entries s)"

definition arrived :: "outbox_state \<Rightarrow> outbox_state \<Rightarrow> pending_message list" where
  "arrived s s' = filter (\<lambda>m. m \<notin> set (ob_messages s)) (ob_messages s')"

definition departed :: "outbox_state \<Rightarrow> outbox_state \<Rightarrow> pending_message list" where
  "departed s s' = filter (\<lambda>m. m \<notin> set (ob_messages s')) (ob_messages s)"

definition of_partition :: "partition_identity \<Rightarrow> pending_message list \<Rightarrow> pending_message list" where
  "of_partition p ms = filter (\<lambda>m. pm_partition m = Some p) ms"

lemma of_partition_append [simp]: "of_partition p (xs @ ys) = of_partition p xs @ of_partition p ys"
  and of_partition_Nil [simp]: "of_partition p [] = []"
  by (simp_all add: of_partition_def)

text \<open>
  From store \<open>s\<close> to store \<open>t\<close>, accepting the messages \<open>a\<close> and releasing \<open>d\<close>, every partition is a
  queue.
\<close>

definition queue_rel ::
  "outbox_state \<Rightarrow> pending_message list \<Rightarrow> pending_message list \<Rightarrow> outbox_state \<Rightarrow> bool" where
  "queue_rel s a d t \<longleftrightarrow> outbox_ok t \<and>
     (\<forall>p. of_partition p d @ of_partition p (ob_messages t) = of_partition p (ob_messages s) @ of_partition p a) \<and>
     mset d + mset (ob_messages t) = mset (ob_messages s) + mset a \<and>
     dom (ob_fingerprints t) = dom (ob_fingerprints s) \<union> outbox_identity_of ` set a \<and>
     distinct (map outbox_identity_of a) \<and>
     outbox_identity_of ` set a \<inter> dom (ob_fingerprints s) = {} \<and>
     ob_next_attempt s \<le> ob_next_attempt t"

definition queue_step :: "outbox_state \<Rightarrow> outbox_state \<Rightarrow> bool" where
  "queue_step s s' \<longleftrightarrow> queue_rel s (arrived s s') (departed s s') s'"

lemma queue_rel_trans:
  assumes 1: "queue_rel s a d t" and 2: "queue_rel t a' d' u"
  shows "queue_rel s (a @ a') (d @ d') u"
proof -
  have "of_partition p (d @ d') @ of_partition p (ob_messages u) =
      of_partition p (ob_messages s) @ of_partition p (a @ a')" for p
  proof -
    have "of_partition p (d @ d') @ of_partition p (ob_messages u) =
        (of_partition p d @ of_partition p (ob_messages t)) @ of_partition p a'"
      using 2 by (simp add: queue_rel_def)
    also have "\<dots> = of_partition p (ob_messages s) @ of_partition p (a @ a')"
      using 1 unfolding queue_rel_def by simp
    finally show ?thesis .
  qed
  moreover have "mset (d @ d') + mset (ob_messages u) = mset (ob_messages s) + mset (a @ a')"
  proof -
    have "mset (d @ d') + mset (ob_messages u) = mset d + mset (ob_messages t) + mset a'"
      using 2 by (simp add: queue_rel_def add.assoc)
    also have "\<dots> = mset (ob_messages s) + mset (a @ a')"
      using 1 unfolding queue_rel_def by (simp add: add.assoc)
    finally show ?thesis .
  qed
  ultimately show ?thesis
    using 1 2 by (auto simp: queue_rel_def)
qed

lemma queue_step_same_messages:
  assumes "outbox_ok s'" and "ob_messages s' = ob_messages s" and "ob_fingerprints s' = ob_fingerprints s"
    and "ob_next_attempt s \<le> ob_next_attempt s'"
  shows "queue_step s s'"
  using assms by (simp add: queue_step_def queue_rel_def arrived_def departed_def of_partition_def)

lemma queue_step_filter:
  assumes ok: "outbox_ok s" and s': "ob_entries s' = filter P (ob_entries s)"
    and same: "ob_fingerprints s' = ob_fingerprints s" "ob_next_attempt s' = ob_next_attempt s"
    and out: "\<And>e. e \<in> set (ob_entries s) \<Longrightarrow> \<not> P e \<Longrightarrow> oe_state e \<noteq> EntryPending"
  shows "queue_step s s'"
proof -
  have d: "distinct (map oe_message (ob_entries s))"
    using ok by (auto simp: outbox_ok_def distinct_map inj_on_def entry_id_def)
  have arr: "arrived s s' = []"
    by (auto simp: arrived_def ob_messages_def s' filter_empty_conv)
  have inj: "inj_on oe_message (set (ob_entries s))" using d by (simp add: distinct_map)
  have dep: "departed s s' = map oe_message (filter (\<lambda>e. \<not> P e) (ob_entries s))"
    unfolding departed_def ob_messages_def s' filter_map comp_def
    by (rule arg_cong [of _ _ "map oe_message"], rule filter_cong)
      (auto dest: inj_onD [OF inj])
  have ok': "outbox_ok s'"
    using ok subsetD [OF attempts_filter, of _ P "ob_entries s"]
    by (auto simp: outbox_ok_def s' same distinct_map inj_on_def
        intro: only_heads_filter distinct_attempts_filter)
  have q: "of_partition p (ob_messages s) = of_partition p (departed s s') @ of_partition p (ob_messages s')" for p
    using only_heads_prefix [of "{}" "ob_entries s" P p] ok out
    unfolding dep ob_messages_def of_partition_def s' outbox_ok_def filter_map comp_def
    by (metis map_append)
  have "mset (ob_entries s) = mset (filter (\<lambda>e. \<not> P e) (ob_entries s)) + mset (filter P (ob_entries s))"
    using multiset_partition [of "mset (ob_entries s)" "\<lambda>e. \<not> P e"] by simp
  then have "mset (departed s s') + mset (ob_messages s') = mset (ob_messages s)"
    unfolding dep ob_messages_def s' by (metis image_mset_union mset_map)
  with ok' q show ?thesis by (simp add: queue_step_def queue_rel_def arr of_partition_def same)
qed


lemma queue_step_append:
  assumes "outbox_ok s"
  shows "queue_step s (snd (outbox_append m s))"
proof (cases "ob_fingerprints s (outbox_identity_of m)")
  case None
  define s' where "s' = snd (outbox_append m s)"
  define e where "e = \<lparr>oe_message = m, oe_state = EntryPending\<rparr>"
  have es: "ob_entries s' = ob_entries s @ [e]" and n: "ob_next_attempt s' = ob_next_attempt s"
    and f: "ob_fingerprints s' = (ob_fingerprints s)(outbox_identity_of m \<mapsto> pm_fingerprint m)"
    using None by (simp_all add: s'_def e_def outbox_append_def)
  have new: "outbox_identity_of m \<notin> entry_id ` set (ob_entries s)"
    using assms None by (auto simp: outbox_ok_def)
  then have m: "m \<notin> set (ob_messages s)" by (auto simp: ob_messages_def entry_id_def)
  have "outbox_ok s'"
    using assms new by (auto simp: outbox_ok_def es f n e_def entry_id_def intro: only_heads_append_pending)
  moreover have "arrived s s' = [m]" "departed s s' = []"
    using m by (auto simp: arrived_def departed_def ob_messages_def es e_def filter_empty_conv)
  moreover have "ob_messages s' = ob_messages s @ [m]" by (simp add: ob_messages_def es e_def)
  ultimately show ?thesis
    using None unfolding s'_def [symmetric] by (auto simp: queue_step_def queue_rel_def of_partition_def f n)
qed (auto simp: outbox_append_def assms intro: queue_step_same_messages)

lemma queue_step_fence: "outbox_ok s \<Longrightarrow> queue_step s (fence_claims s)"
proof (rule queue_step_same_messages)
  let ?f = "\<lambda>e. case oe_state e of EntryClaimed _ \<Rightarrow> e\<lparr>oe_state := EntryPending\<rparr> | _ \<Rightarrow> e"
  have m: "oe_message (?f e) = oe_message e" for e by (simp split: outbox_entry_state.split)
  then have i: "entry_id (?f e) = entry_id e" for e
    by (simp add: entry_id_def split: outbox_entry_state.split)
  have no_attempts: "attempts (map ?f es) = []" for es
    by (induction es) (auto split: outbox_entry_state.splits)
  have heads: "only_heads S (map ?f es)" if "only_heads S es" for S es
    using that by (rule only_heads_map [rotated 2]) (auto simp: m)
  assume "outbox_ok s"
  then show "outbox_ok (fence_claims s)"
    by (simp add: outbox_ok_def fence_claims_def no_attempts heads i comp_def image_image)
  show "ob_messages (fence_claims s) = ob_messages s"
    by (simp add: ob_messages_def fence_claims_def m comp_def)
qed (simp_all add: fence_claims_def)

lemma queue_step_resolve: "outbox_ok s \<Longrightarrow> queue_step s (resolve_partition p s)"
  by (rule queue_step_filter
      [where P = "\<lambda>e. oe_state e \<noteq> EntryDeadLetter \<or> pm_partition (oe_message e) \<noteq> Some p"])
    (auto simp: resolve_partition_def)

lemma remove_is_filter:
  assumes "distinct (map entry_id (xs @ e # ys))"
  shows "xs @ ys = filter (\<lambda>x. entry_id x \<noteq> entry_id e) (xs @ e # ys)"
proof -
  have "filter (\<lambda>x. entry_id x \<noteq> entry_id e) zs = zs" if "entry_id e \<notin> entry_id ` set zs" for zs
    using that by (intro filter_True) (metis imageI)
  then show ?thesis using assms by auto
qed

lemma queue_step_state:
  assumes ok: "outbox_ok s" and es: "ob_entries s = xs @ e # ys" and own: "entry_owns e c"
    and st: "st \<in> {EntryPending, EntryDeadLetter}"
    and s': "ob_entries s' = xs @ e\<lparr>oe_state := st\<rparr> # ys" "ob_fingerprints s' = ob_fingerprints s"
      "ob_next_attempt s' = ob_next_attempt s"
  shows "queue_step s s'"
proof (rule queue_step_same_messages)
  have id: "entry_id (e\<lparr>oe_state := st\<rparr>) = entry_id e" by (simp add: entry_id_def)
  have "only_heads {} (xs @ e\<lparr>oe_state := st\<rparr> # ys)"
    using ok own es by (intro only_heads_state) (auto simp: outbox_ok_def entry_owns_def)
  then show "outbox_ok s'"
    using ok st id by (auto simp: outbox_ok_def s' es)
qed (simp_all add: ob_messages_def es s')

lemma queue_step_settle:
  assumes ok: "outbox_ok s"
  shows "queue_step s (snd (outbox_settle c st t s))"
proof (cases rule: outbox_settle_cases [of c st t s])
  case refused
  then show ?thesis using ok by (auto intro: queue_step_same_messages)
next
  case (late xs e ys)
  show ?thesis unfolding late(4) snd_conv
    by (rule queue_step_state [OF ok late(1,2), of EntryPending]) simp_all
next
  case (published xs e ys r)
  have "queue_step s (s\<lparr>ob_settlements := ob_settlements s @ [OdPublished], ob_entries := xs @ ys\<rparr>)"
  proof (rule queue_step_filter [OF ok, of _ "\<lambda>x. entry_id x \<noteq> entry_id e"])
    show "oe_state x \<noteq> EntryPending" if "x \<in> set (ob_entries s)" "\<not> entry_id x \<noteq> entry_id e" for x
    proof -
      have "inj_on entry_id (set (ob_entries s))" using ok by (simp add: outbox_ok_def distinct_map)
      moreover have "e \<in> set (ob_entries s)" by (simp add: published(1))
      ultimately have "x = e" using that by (blast dest: inj_onD)
      then show ?thesis using published(2) by (simp add: entry_owns_def)
    qed
  qed (use ok remove_is_filter [of xs e ys] in \<open>simp_all add: outbox_ok_def published(1)\<close>)
  then show ?thesis by (simp only: published(5) snd_conv)
next
  case (kept xs e ys st')
  show ?thesis unfolding kept(6) snd_conv
    by (rule queue_step_state [OF ok kept(1,2), of st']) (simp_all add: kept(5))
qed


text \<open>The scan: it changes no message, claims the first pending heads, with consecutive attempts.\<close>

lemma claim_scan_messages: "map oe_message (fst (claim_scan limit seen claims n es)) = map oe_message es"
  by (induction es arbitrary: seen claims n) (simp_all add: Let_def)

lemma claim_scan_heads:
  "only_heads (set seen) es \<Longrightarrow> only_heads (set seen) (fst (claim_scan limit seen claims n es))"
proof (induction es arbitrary: seen claims n)
  case (Cons e es)
  let ?seen = "case entry_partition e of Some q \<Rightarrow> seen @ [q] | None \<Rightarrow> seen"
  have s: "set ?seen = see (entry_partition e) (set seen)" by (simp split: option.split)
  have in_seen: "see (entry_partition e) (set seen) = set seen" if "entry_partition e \<in> Some ` set seen"
    using that by (auto simp: insert_absorb)
  show ?case
    using Cons.prems Cons.IH [of seen] Cons.IH [of ?seen] in_seen unfolding s
    by (cases "entry_partition e \<in> Some ` set seen") (simp_all add: Let_def)
qed simp

lemma claim_scan_claims:
  "snd (claim_scan limit seen claims n es) =
    (let ms = take (limit - length claims) (map oe_message (pending_heads (set seen) es)) in
     (claims @ zip ms (map (\<lambda>k. n + of_nat (Suc k)) [0..<length ms]), n + of_nat (length ms)))"
proof (induction es arbitrary: seen claims n)
  case (Cons e es)
  let ?seen = "case entry_partition e of Some q \<Rightarrow> seen @ [q] | None \<Rightarrow> seen"
  have s: "set ?seen = see (entry_partition e) (set seen)" by (simp split: option.split)
  show ?case
  proof (cases "entry_partition e \<in> Some ` set seen \<or> length claims \<ge> limit \<or> oe_state e \<noteq> EntryPending")
    case True
    moreover have "see (entry_partition e) (set seen) = set seen" if "entry_partition e \<in> Some ` set seen"
      using that by (auto simp: insert_absorb)
    ultimately show ?thesis
      using Cons.IH [of seen] Cons.IH [of ?seen] unfolding s by (auto simp: Let_def)
  next
    case False
    then have lim: "limit - length claims = Suc (limit - Suc (length claims))" by arith
    have up: "map (\<lambda>k. n + of_nat (Suc k)) [0..<Suc j] =
      (n + 1) # map (\<lambda>k. n + 1 + of_nat (Suc k)) [0..<j]" for j
      by (simp add: upt_conv_Cons map_Suc_upt [symmetric] comp_def add.assoc del: upt_Suc)
    show ?thesis
      using False Cons.IH [of ?seen "claims @ [(oe_message e, n + 1)]" "n + 1"] unfolding s
      by (simp add: Let_def lim up add.assoc del: upt_Suc of_nat_Suc) (simp add: add.assoc)
  qed
qed (simp add: Let_def)

lemma claim_scan_attempts:
  "mset (attempts (fst (claim_scan limit seen claims n es))) + mset (map (unat \<circ> snd) claims) =
   mset (attempts es) + mset (map (unat \<circ> snd) (fst (snd (claim_scan limit seen claims n es))))"
proof (induction es arbitrary: seen claims n)
  case (Cons e es)
  let ?seen = "case entry_partition e of Some q \<Rightarrow> seen @ [q] | None \<Rightarrow> seen"
  show ?case
    using Cons.IH [of seen claims n] Cons.IH [of ?seen claims n]
      Cons.IH [of ?seen "claims @ [(oe_message e, n + 1)]" "n + 1"]
    by (cases "oe_state e") (simp_all add: Let_def)
qed simp

lemma claim_scan_owned:
  assumes "c \<in> set (fst (snd (claim_scan limit seen claims n es)))" and "c \<notin> set claims"
  shows "\<exists>e \<in> set (fst (claim_scan limit seen claims n es)). entry_owns e c"
  using assms
proof (induction es arbitrary: seen claims n)
  case (Cons e es)
  then show ?case
    by (fastforce simp: Let_def entry_owns_def split: if_splits)
qed simp


lemma length_pending_heads: "length (pending_heads S es) \<le> length es"
proof (induction es arbitrary: S)
  case (Cons e es)
  show ?case using Cons.IH [of "see (entry_partition e) S"] by (auto intro: le_SucI)
qed simp

lemma claim_scan_entries:
  assumes "e' \<in> set (fst (claim_scan limit seen claims n es))"
  shows "e' \<in> set es \<or>
    (\<exists>w. oe_state e' = EntryClaimed w \<and> (oe_message e', w) \<in> set (fst (snd (claim_scan limit seen claims n es))))"
  using assms
proof (induction es arbitrary: seen claims n)
  case (Cons e es)
  have keep: "set claims \<subseteq> set (fst (snd (claim_scan limit seen claims n es)))" for seen claims n
    by (simp add: claim_scan_claims Let_def)
  show ?case
    using Cons.prems keep [of "claims @ [(oe_message e, n + 1)]"] Cons.IH
    by (simp add: Let_def split: if_splits) (auto dest: Cons.IH)
qed simp

lemma map_add_Suc_upt: "map (\<lambda>k. a + Suc k) [0..<l] = [Suc a..<Suc (a + l)]"
  by (induction l) auto

text \<open>The outcome of claiming: exhaustion changes nothing, and otherwise no attempt wraps.\<close>

lemma claim_partition_heads_cases:
  obtains (exhausted) "claim_partition_heads limit s = (Inl MInvariant, s)"
      "2 ^ 64 \<le> unat (ob_next_attempt s) + min (length (ob_entries s)) limit"
  | (claimed) es claims n where
      "claim_scan limit [] [] (ob_next_attempt s) (ob_entries s) = (es, claims, n)"
      "claim_partition_heads limit s = (Inr claims, s\<lparr>ob_entries := es, ob_next_attempt := n\<rparr>)"
      "map fst claims = take limit (map oe_message (pending_heads {} (ob_entries s)))"
      "map (unat \<circ> snd) claims = [Suc (unat (ob_next_attempt s))..<Suc (unat n)]"
      "unat n = unat (ob_next_attempt s) + length claims"
proof (cases "unat (ob_next_attempt s) + min (length (ob_entries s)) limit < 2 ^ 64")
  case False
  let ?m = "min (length (ob_entries s)) limit"
  have "u64_checked_add (ob_next_attempt s) (of_nat ?m) = None" if "?m < 2 ^ 64"
  proof -
    have "unat (of_nat ?m :: u64) = ?m" using that by (simp add: unat_of_nat)
    then show ?thesis using False by (simp add: u64_checked_add_def)
  qed
  then show thesis
    using exhausted False
    by (cases "?m < 2 ^ 64") (simp_all add: claim_partition_heads_def u64_try_from_def attempt_exhausted_def
        del: u64_checked_add_None)
next
  case True
  let ?m = "min (length (ob_entries s)) limit" and ?n = "ob_next_attempt s"
  obtain es claims n where scan: "claim_scan limit [] [] ?n (ob_entries s) = (es, claims, n)"
    by (metis prod_cases3)
  define ms where "ms = take limit (map oe_message (pending_heads {} (ob_entries s)))"
  have ms: "length ms \<le> ?m" using length_pending_heads [of "{}" "ob_entries s"] by (simp add: ms_def)
  have claims: "claims = zip ms (map (\<lambda>k. ?n + of_nat (Suc k)) [0..<length ms])"
    and n: "n = ?n + of_nat (length ms)"
    using claim_scan_claims [of limit "[]" "[]" ?n "ob_entries s"] by (simp_all add: scan Let_def ms_def)
  have un: "unat (?n + of_nat k) = unat ?n + k" if "k \<le> length ms" for k
  proof -
    have "unat ?n + k < 2 ^ 64" using that ms True by linarith
    then show ?thesis by (simp add: unat_word_ariths unat_of_nat)
  qed
  have len: "length claims = length ms" by (simp add: claims)
  have "map (unat \<circ> snd) claims = map unat (map snd claims)" by simp
  also have "\<dots> = map (\<lambda>k. unat ?n + Suc k) [0..<length ms]"
    unfolding claims map_snd_zip_take by (auto simp: un simp del: of_nat_Suc)
  also have "\<dots> = [Suc (unat ?n)..<Suc (unat n)]"
    unfolding n un [OF order_refl] by (rule map_add_Suc_upt)
  finally have at: "map (unat \<circ> snd) claims = [Suc (unat ?n)..<Suc (unat n)]" .
  have mx: "unat (of_nat ?m :: u64) = ?m" using True by (simp add: unat_of_nat)
  have "claim_partition_heads limit s = (Inr claims, s\<lparr>ob_entries := es, ob_next_attempt := n\<rparr>)"
    using True mx len by (simp add: claim_partition_heads_def u64_try_from_def u64_checked_add_def scan
        try_from_provider_def ms_def)
  then show thesis
    using claimed [OF scan] at un [of "length ms"] len by (simp add: claims n ms_def)
qed

lemma queue_step_claim:
  assumes ok: "outbox_ok s"
  shows "queue_step s (snd (claim_partition_heads limit s))"
proof (cases rule: claim_partition_heads_cases [of limit s])
  case exhausted
  then show ?thesis using ok by (auto intro: queue_step_same_messages)
next
  case (claimed es claims n)
  note scan = claimed(1)
  have msg: "map oe_message es = map oe_message (ob_entries s)"
    using claim_scan_messages [of limit "[]" "[]" _ "ob_entries s"] scan by (metis fst_conv)
  have "map entry_id xs = map outbox_identity_of (map oe_message xs)" for xs
    by (simp add: entry_id_def)
  then have ids: "map entry_id es = map entry_id (ob_entries s)" by (simp add: msg del: map_map)
  have heads: "only_heads {} es"
    using claim_scan_heads [of "[]" "ob_entries s" limit "[]" "ob_next_attempt s"] ok scan by (simp add: outbox_ok_def)
  have at: "mset (attempts es) = mset (attempts (ob_entries s) @ [Suc (unat (ob_next_attempt s))..<Suc (unat n)])"
    using claim_scan_attempts [of limit "[]" "[]" "ob_next_attempt s" "ob_entries s"]
    unfolding scan fst_conv snd_conv claimed(4) by (simp del: upt_Suc)
  have "distinct (attempts (ob_entries s) @ [Suc (unat (ob_next_attempt s))..<Suc (unat n)])"
    using ok by (auto simp: outbox_ok_def simp del: upt_Suc)
  then have dist: "distinct (attempts es)" using mset_eq_imp_distinct_iff [OF at] by blast
  have bound: "a \<le> unat n" if "a \<in> set (attempts es)" for a
    using that mset_eq_setD [OF at] ok claimed(5) by (auto simp: outbox_ok_def simp del: upt_Suc)
  have img: "entry_id ` set es = entry_id ` set (ob_entries s)" using ids by (metis set_map)
  have "outbox_ok (s\<lparr>ob_entries := es, ob_next_attempt := n\<rparr>)"
    using ok heads dist bound by (simp add: outbox_ok_def ids img)
  then show ?thesis unfolding claimed(2) snd_conv
    by (rule queue_step_same_messages) (simp_all add: ob_messages_def msg word_le_nat_alt claimed(5))
qed


subsection \<open>Histories of the outbox\<close>

datatype outbox_op =
  OpAppend pending_message
  | OpClaim nat
  | OpSettle outbox_claim "unit outbox_settlement" duration
  | OpFence
  | OpResolve partition_identity

fun outbox_apply :: "outbox_op \<Rightarrow> outbox_state \<Rightarrow> outbox_state" where
  "outbox_apply (OpAppend m) s = snd (outbox_append m s)"
| "outbox_apply (OpClaim limit) s = snd (claim_partition_heads limit s)"
| "outbox_apply (OpSettle c st t) s = snd (outbox_settle c st t s)"
| "outbox_apply OpFence s = fence_claims s"
| "outbox_apply (OpResolve p) s = resolve_partition p s"

text \<open>The messages accepted and the messages released over a sequence of operations, and the store.\<close>

fun outbox_history ::
  "outbox_op list \<Rightarrow> outbox_state \<Rightarrow> pending_message list \<times> pending_message list \<times> outbox_state" where
  "outbox_history [] s = ([], [], s)"
| "outbox_history (op # ops) s =
     (let s' = outbox_apply op s; (a, d, t) = outbox_history ops s' in
      (arrived s s' @ a, departed s s' @ d, t))"

lemma queue_step_apply: "outbox_ok s \<Longrightarrow> queue_step s (outbox_apply op s)"
  by (cases op)
    (simp_all add: queue_step_append queue_step_claim queue_step_settle queue_step_fence queue_step_resolve)

lemma outbox_ok_default: "outbox_ok outbox_state_default"
  by (simp add: outbox_ok_def outbox_state_default_def)

lemma queue_step_ok: "queue_step s s' \<Longrightarrow> outbox_ok s'"
  and queue_step_next: "queue_step s s' \<Longrightarrow> ob_next_attempt s \<le> ob_next_attempt s'"
  by (simp_all add: queue_step_def queue_rel_def)

lemma outbox_history_queue:
  "outbox_ok s \<Longrightarrow> outbox_history ops s = (a, d, t) \<Longrightarrow> queue_rel s a d t"
proof (induction ops arbitrary: s a d)
  case Nil
  then show ?case by (simp add: queue_rel_def)
next
  case (Cons op ops)
  define s' where "s' = outbox_apply op s"
  obtain a' d' where h: "outbox_history ops s' = (a', d', t)"
    and a: "a = arrived s s' @ a'" and d: "d = departed s s' @ d'"
    using Cons.prems(2) by (auto simp: s'_def Let_def split: prod.splits)
  have q: "queue_step s s'" unfolding s'_def by (rule queue_step_apply) (rule Cons.prems)
  show ?case
    unfolding a d using q Cons.IH [OF queue_step_ok [OF q] h] queue_rel_trans
    unfolding queue_step_def by blast
qed

lemma reachable_outbox_ok: "outbox_history ops outbox_state_default = (a, d, s) \<Longrightarrow> outbox_ok s"
  using outbox_history_queue [OF outbox_ok_default] by (auto simp: queue_rel_def)

lemma claim_keeps_messages: "ob_messages (snd (claim_partition_heads n s)) = ob_messages s"
proof (cases rule: claim_partition_heads_cases [of n s])
  case (claimed es claims n')
  have "map oe_message es = map oe_message (ob_entries s)"
    using claim_scan_messages [of n "[]" "[]" _ "ob_entries s"] claimed(1) by (metis fst_conv)
  then show ?thesis by (simp add: claimed(2) ob_messages_def)
qed simp

text \<open>
  What the answers of the operations report, without looking at the store afterwards: a message is
  accepted when its append answers \<open>Inserted\<close>; it is released when the settlement of its claim as
  published is acknowledged, or when its partition is resolved after it was dead-lettered.
\<close>

definition accepted_by :: "outbox_op \<Rightarrow> outbox_state \<Rightarrow> pending_message list" where
  "accepted_by op s =
     (case op of OpAppend m \<Rightarrow> if fst (outbox_append m s) = Ok Inserted then [m] else [] | _ \<Rightarrow> [])"

definition released_by :: "outbox_op \<Rightarrow> outbox_state \<Rightarrow> pending_message list" where
  "released_by op s =
     (case op of
        OpSettle c st t \<Rightarrow>
          if st = SetPublished () \<and> fst (outbox_settle c st t s) = Ok ()
          then map oe_message (filter (\<lambda>e. entry_owns e c) (ob_entries s)) else []
      | OpResolve p \<Rightarrow>
          map oe_message (filter (\<lambda>e. oe_state e = EntryDeadLetter \<and> entry_partition e = Some p) (ob_entries s))
      | _ \<Rightarrow> [])"

fun outbox_log ::
  "outbox_op list \<Rightarrow> outbox_state \<Rightarrow> pending_message list \<times> pending_message list \<times> outbox_state" where
  "outbox_log [] s = ([], [], s)"
| "outbox_log (op # ops) s =
     (let (a, d, t) = outbox_log ops (outbox_apply op s) in (accepted_by op s @ a, released_by op s @ d, t))"

text \<open>Nothing else enters or leaves the store: the answers account for every change of it.\<close>

lemma same_messages_silent:
  "ob_messages s' = ob_messages s \<Longrightarrow> arrived s s' = [] \<and> departed s s' = []"
  by (simp add: arrived_def departed_def)

lemma removed_messages:
  assumes ok: "outbox_ok s" and s': "ob_entries s' = filter (\<lambda>e. \<not> P e) (ob_entries s)"
  shows "arrived s s' = [] \<and> departed s s' = map oe_message (filter P (ob_entries s))"
proof -
  have inj: "inj_on oe_message (set (ob_entries s))"
    using ok by (auto simp: outbox_ok_def distinct_map inj_on_def entry_id_def)
  have "departed s s' = map oe_message (filter P (ob_entries s))"
    unfolding departed_def ob_messages_def s' filter_map comp_def
    by (rule arg_cong [of _ _ "map oe_message"], rule filter_cong) (auto dest: inj_onD [OF inj])
  then show ?thesis by (auto simp: arrived_def ob_messages_def s' filter_empty_conv)
qed

lemma fence_keeps_messages: "ob_messages (fence_claims s) = ob_messages s"
  by (auto simp: ob_messages_def fence_claims_def split: outbox_entry_state.splits)

lemma append_accounts:
  assumes "outbox_ok s"
  shows "arrived s (snd (outbox_append m s)) = accepted_by (OpAppend m) s \<and> departed s (snd (outbox_append m s)) = []"
proof (cases "ob_fingerprints s (outbox_identity_of m)")
  case None
  then have "outbox_identity_of m \<notin> entry_id ` set (ob_entries s)" using assms by (auto simp: outbox_ok_def)
  then have "m \<notin> set (ob_messages s)" by (auto simp: ob_messages_def entry_id_def)
  then show ?thesis
    using None by (auto simp: accepted_by_def outbox_append_def arrived_def departed_def ob_messages_def filter_empty_conv)
qed (simp add: accepted_by_def outbox_append_def arrived_def departed_def)

lemma settle_accounts:
  assumes ok: "outbox_ok s"
  shows "arrived s (snd (outbox_settle c st t s)) = [] \<and>
    departed s (snd (outbox_settle c st t s)) = released_by (OpSettle c st t) s"
proof (cases rule: outbox_settle_cases [of c st t s])
  case (published xs e ys r)
  have own: "entry_owns x c \<longleftrightarrow> entry_id x = entry_id e" if "x \<in> set (ob_entries s)" for x
  proof -
    have "inj_on entry_id (set (ob_entries s))" using ok by (simp add: outbox_ok_def distinct_map)
    moreover have "e \<in> set (ob_entries s)" by (simp add: published(1))
    ultimately have "x = e" if "entry_id x = entry_id e" using \<open>x \<in> _\<close> that by (blast dest: inj_onD)
    then show ?thesis using published(2) by (auto simp: entry_owns_def entry_id_def)
  qed
  have "xs @ ys = filter (\<lambda>x. \<not> entry_owns x c) (ob_entries s)"
    using remove_is_filter [of xs e ys] ok own unfolding outbox_ok_def published(1) by (metis (mono_tags, lifting) filter_cong)
  then show ?thesis
    using removed_messages [OF ok, of "snd (outbox_settle c st t s)" "\<lambda>x. entry_owns x c"] published(4,5)
    by (simp add: released_by_def)
qed (auto simp: released_by_def ob_messages_def intro!: same_messages_silent [THEN conjunct1] same_messages_silent [THEN conjunct2])

lemma operation_accounts:
  assumes ok: "outbox_ok s"
  shows "arrived s (outbox_apply op s) = accepted_by op s \<and> departed s (outbox_apply op s) = released_by op s"
proof (cases op)
  case (OpAppend m)
  then show ?thesis using append_accounts [OF ok] by (simp add: released_by_def)
next
  case (OpSettle c st t)
  then show ?thesis using settle_accounts [OF ok] by (simp add: accepted_by_def)
next
  case (OpResolve p)
  then show ?thesis
    using removed_messages [OF ok, of "resolve_partition p s" "\<lambda>e. oe_state e = EntryDeadLetter \<and> entry_partition e = Some p"]
    by (simp add: accepted_by_def released_by_def resolve_partition_def de_Morgan_conj)
qed (simp_all add: accepted_by_def released_by_def same_messages_silent claim_keeps_messages fence_keeps_messages)

lemma outbox_log_history: "outbox_ok s \<Longrightarrow> outbox_log ops s = outbox_history ops s"
proof (induction ops arbitrary: s)
  case (Cons op ops)
  then show ?case
    using Cons.IH [OF queue_step_ok [OF queue_step_apply [OF Cons.prems]], of op] operation_accounts [OF Cons.prems, of op]
    by (simp add: Let_def)
qed simp

text \<open>
  C20. The outbox store is a queue per partition that loses nothing. Over any sequence of appends,
  claims, settlements, fences and resolutions, with any claims and deadlines, count a message as
  accepted when its append answers \<open>Inserted\<close> and as released when its settlement as published is
  acknowledged or its partition is resolved after it was dead-lettered: then in every partition the
  released messages followed by the stored ones are exactly the accepted ones in order, overall
  each accepted message is released or still stored and not both, and no identity is accepted twice.
\<close>

theorem memory_outbox_fifo:
  "(case outbox_log ops outbox_state_default of (appended, released, s) \<Rightarrow>
     (\<forall>p. of_partition p released @ of_partition p (ob_messages s) = of_partition p appended) \<and>
     mset released + mset (ob_messages s) = mset appended \<and>
     distinct (map outbox_identity_of appended))"
proof -
  obtain a d t where h: "outbox_history ops outbox_state_default = (a, d, t)" by (metis prod_cases3)
  have "ob_messages outbox_state_default = []" by (simp add: ob_messages_def outbox_state_default_def)
  then show ?thesis
    using outbox_history_queue [OF outbox_ok_default h]
    by (simp add: outbox_log_history [OF outbox_ok_default] h queue_rel_def of_partition_def)
qed

text \<open>
  Claiming from a reachable store either reports exhaustion and changes nothing, exactly when
  the attempt counter could overflow within the batch, or claims the first \<open>limit\<close> pending
  partition heads in queue order under consecutive attempt numbers above every earlier one, which
  do not wrap around, and every claim holds its lease afterwards.
\<close>

theorem memory_claims_heads:
  assumes "outbox_history ops outbox_state_default = (a, d, s)" and "t \<noteq> 0"
  shows "(case claim_partition_heads limit s of
      (Inl err, s') \<Rightarrow> err = MInvariant \<and> s' = s \<and>
        2 ^ 64 \<le> unat (ob_next_attempt s) + min (pending_len s) limit
    | (Inr claims, s') \<Rightarrow>
        map outbox_message claims = take limit (map oe_message (pending_heads {} (ob_entries s))) \<and>
        map (unat \<circ> snd) claims = [Suc (unat (ob_next_attempt s))..<Suc (unat (ob_next_attempt s'))] \<and>
        list_all (\<lambda>n. n \<le> unat (ob_next_attempt s)) (attempts (ob_entries s)) \<and>
        list_all (\<lambda>c. outbox_lease_status_of c t s' = Inr (OutboxHeld (from_secs 30) None)) claims)"
proof (cases rule: claim_partition_heads_cases [of limit s])
  case exhausted
  then show ?thesis by (simp add: pending_len_def)
next
  case (claimed es claims n)
  have "outbox_ok s" using reachable_outbox_ok [OF assms(1)] .
  moreover have "\<exists>e \<in> set es. entry_owns e c" if "c \<in> set claims" for c
    using claim_scan_owned [of c limit "[]" "[]" "ob_next_attempt s" "ob_entries s"] that
    by (simp add: claimed(1))
  ultimately show ?thesis
    using assms(2) claimed(3,4) unfolding claimed(2)
    by (simp add: outbox_message_def [abs_def] outbox_lease_status_of_def outbox_ok_def list_all_iff list_ex_iff
        memory_budget_def del: upt_Suc)
qed


text \<open>A lease can only be gained by a claim with a new attempt number.\<close>

definition lease_held :: "outbox_claim \<Rightarrow> outbox_state \<Rightarrow> bool" where
  "lease_held c s \<longleftrightarrow> (\<exists>e \<in> set (ob_entries s). entry_owns e c)"

lemma entry_owns_state: "entry_owns (e\<lparr>oe_state := st\<rparr>) c \<Longrightarrow> st = EntryClaimed (snd c)"
  by (simp add: entry_owns_def)

lemma lease_held_settle: "lease_held c' (snd (outbox_settle c st t s)) \<Longrightarrow> lease_held c' s"
  by (cases rule: outbox_settle_cases [of c st t s])
    (auto simp: lease_held_def dest!: entry_owns_state split: if_splits)

lemma lease_held_claim:
  assumes "lease_held c (snd (claim_partition_heads limit s))"
  shows "lease_held c s \<or> ob_next_attempt s < snd c"
proof (cases rule: claim_partition_heads_cases [of limit s])
  case exhausted
  then show ?thesis using assms by simp
next
  case (claimed es claims n)
  then obtain e where e: "e \<in> set es" "entry_owns e c" using assms by (auto simp: lease_held_def)
  have "e \<in> set (ob_entries s) \<or> (\<exists>w. oe_state e = EntryClaimed w \<and> (oe_message e, w) \<in> set claims)"
    using claim_scan_entries [of e limit "[]" "[]" "ob_next_attempt s" "ob_entries s"] e(1)
    by (simp add: claimed(1))
  moreover have "ob_next_attempt s < w" if "(m, w) \<in> set claims" for m w
  proof -
    have "unat w \<in> set (map (unat \<circ> snd) claims)" using that by force
    then show ?thesis unfolding claimed(4) by (simp add: word_less_nat_alt del: upt_Suc)
  qed
  ultimately show ?thesis using e(2) by (auto simp: lease_held_def entry_owns_def)
qed

lemma lease_held_resolve: "lease_held c (resolve_partition p s) \<Longrightarrow> lease_held c s"
  by (auto simp: lease_held_def resolve_partition_def)

lemma lease_held_apply: "lease_held c (outbox_apply op s) \<Longrightarrow> lease_held c s \<or> ob_next_attempt s < snd c"
proof (cases op)
  case (OpAppend m)
  moreover assume "lease_held c (outbox_apply op s)"
  ultimately show ?thesis
    by (auto simp: lease_held_def outbox_append_def entry_owns_def split: option.splits if_splits)
next
  case OpFence
  moreover assume "lease_held c (outbox_apply op s)"
  ultimately show ?thesis
    by (auto simp: lease_held_def fence_claims_def entry_owns_def split: outbox_entry_state.splits)
      (metis outbox_entry_state.exhaust)
qed (auto dest: lease_held_settle lease_held_claim lease_held_resolve)

lemma lease_lost_history:
  assumes "outbox_ok s" and "outbox_history ops s = (a, d, t)"
    and "\<not> lease_held c s" and "snd c \<le> ob_next_attempt s"
  shows "\<not> lease_held c t"
  using assms
proof (induction ops arbitrary: s a d)
  case (Cons op ops)
  let ?s = "outbox_apply op s"
  have q: "queue_step s ?s" by (rule queue_step_apply) (rule Cons.prems)
  have "\<not> lease_held c ?s" using Cons.prems(3,4) lease_held_apply by fastforce
  moreover have "snd c \<le> ob_next_attempt ?s" using queue_step_next [OF q] Cons.prems(4) by simp
  moreover obtain a' d' where "outbox_history ops ?s = (a', d', t)"
    using Cons.prems(2) by (auto simp: Let_def split: prod.splits)
  ultimately show ?case using Cons.IH queue_step_ok [OF q] by blast
qed simp

lemma settle_needs_lease:
  assumes "\<not> lease_held c s"
  shows "\<exists>err. outbox_settle c st t s = (Inl err, s)"
  by (cases rule: outbox_settle_cases [of c st t s]) (use assms in \<open>auto simp: lease_held_def\<close>)

text \<open>
  Fencing of the outbox store: once the lease of an issued claim is lost, by expiry, settlement
  or a takeover, no later operation revives it; the lease stays lost and every settlement under
  the claim is refused without touching the store.
\<close>

theorem memory_outbox_fenced:
  assumes "outbox_history ops outbox_state_default = (a, d, s)" and "snd c \<le> ob_next_attempt s"
    and "t \<noteq> 0" and "outbox_lease_status_of c t s = Inr OutboxLost"
    and "outbox_history later s = (a', d', s')"
  shows "outbox_lease_status_of c t' s' = Inr OutboxLost"
    and "\<exists>err. outbox_settle c settlement t' s' = (Inl err, s')"
proof -
  have "\<not> lease_held c s"
    using assms(3,4) by (auto simp: outbox_lease_status_of_def lease_held_def list_ex_iff split: if_splits)
  then have "\<not> lease_held c s'"
    using lease_lost_history assms(2,5) reachable_outbox_ok [OF assms(1)] by blast
  then show "outbox_lease_status_of c t' s' = Inr OutboxLost"
    and "\<exists>err. outbox_settle c settlement t' s' = (Inl err, s')"
    by (auto simp: outbox_lease_status_of_def lease_held_def list_ex_iff intro: settle_needs_lease)
qed


subsection \<open>Histories of the inbox\<close>

datatype inbox_op =
  IbClaim consumer_identity
  | IbTerminal consumer_identity fingerprint terminal_disposition
  | IbExpire consumer_identity
  | IbRelease inbox_claim duration

fun inbox_apply :: "inbox_op \<Rightarrow> inbox_state \<Rightarrow> inbox_state" where
  "inbox_apply (IbClaim i) s = snd (inbox_claim_of i s)"
| "inbox_apply (IbTerminal i f d) s = store_terminal i f d s"
| "inbox_apply (IbExpire i) s = inbox_expire i s"
| "inbox_apply (IbRelease c t) s = snd (inbox_release c t s)"

text \<open>
  Terminal records sit under the key of their identity, and every live epoch is below the next
  one as long as the epochs last (at \<open>u64::MAX\<close> the counter saturates).
\<close>

definition inbox_ok :: "inbox_state \<Rightarrow> bool" where
  "inbox_ok s \<longleftrightarrow>
     (\<forall>k j f d. ib_records s k = Some (InboxTerminal j f d) \<longrightarrow> k = identity_key j) \<and>
     (\<forall>k e. ib_records s k = Some (InboxClaimed e) \<longrightarrow> e < ib_next_epoch s \<or> ib_next_epoch s = - 1)"

lemma identity_key_inject [simp]: "identity_key i = identity_key j \<longleftrightarrow> i = j"
  by (cases i; cases j) (auto simp: identity_key_def intro: contract_identity.equality)

lemma saturating_succ_le: "n \<le> u64_saturating_succ n"
  and saturating_succ_less: "u64_saturating_succ n \<noteq> - 1 \<Longrightarrow> n < u64_saturating_succ n"
  and saturating_succ_cases: "n < u64_saturating_succ n \<or> u64_saturating_succ n = - 1"
proof -
  have "n < n + 1" if "n \<noteq> - 1"
  proof -
    have "unat n \<noteq> 2 ^ 64 - 1" using that
      by (simp add: word_unat_eq_iff unsigned_minus_1_eq_mask mask_eq_exp_minus_1)
    moreover have "unat n < 2 ^ 64" using unsigned_less [of n] by simp
    ultimately show ?thesis by (simp add: word_less_nat_alt unat_word_ariths)
  qed
  then show "n \<le> u64_saturating_succ n"
    and "u64_saturating_succ n \<noteq> - 1 \<Longrightarrow> n < u64_saturating_succ n"
    and "n < u64_saturating_succ n \<or> u64_saturating_succ n = - 1"
    by (auto simp: u64_saturating_succ_def)
qed

lemma inbox_ok_default: "inbox_ok inbox_state_default"
  by (simp add: inbox_ok_def inbox_state_default_def)

lemma inbox_next_le: "ib_next_epoch s \<le> ib_next_epoch (inbox_apply op s)"
  by (cases op)
    (auto simp: inbox_claim_of_def store_terminal_def inbox_expire_def inbox_release_def saturating_succ_le
      split: option.splits inbox_record.splits)

lemma inbox_record_step:
  assumes "ib_records (inbox_apply op s) k = Some r"
  shows "ib_records s k = Some r \<or> (\<exists>i f d. op = IbTerminal i f d \<and> k = identity_key i \<and> r = InboxTerminal i f d)
    \<or> (r = InboxClaimed (ib_next_epoch s) \<and> ib_records s k = None \<and>
       ib_next_epoch (inbox_apply op s) = u64_saturating_succ (ib_next_epoch s))"
  using assms
  by (cases op)
    (auto simp: inbox_claim_of_def store_terminal_def inbox_expire_def inbox_release_def
      split: option.splits inbox_record.splits if_splits)

lemma inbox_ok_apply:
  assumes "inbox_ok s"
  shows "inbox_ok (inbox_apply op s)"
  unfolding inbox_ok_def
proof (intro conjI allI impI)
  fix k j f d
  assume "ib_records (inbox_apply op s) k = Some (InboxTerminal j f d)"
  from inbox_record_step [OF this] assms show "k = identity_key j" by (auto simp: inbox_ok_def)
next
  fix k e
  assume "ib_records (inbox_apply op s) k = Some (InboxClaimed e)"
  from inbox_record_step [OF this] show "e < ib_next_epoch (inbox_apply op s) \<or> ib_next_epoch (inbox_apply op s) = - 1"
  proof (elim disjE conjE)
    assume "ib_records s k = Some (InboxClaimed e)"
    then have "e < ib_next_epoch s \<or> ib_next_epoch s = - 1" using assms by (auto simp: inbox_ok_def)
    then show ?thesis using inbox_next_le [of s op]
      by (auto dest: order.strict_trans2 word_order.extremum_uniqueI)
  qed (use saturating_succ_cases [of "ib_next_epoch s"] in auto)
qed

lemma inbox_ok_run: "inbox_ok s \<Longrightarrow> inbox_ok (fold inbox_apply ops s)"
  by (induction ops arbitrary: s) (simp_all add: inbox_ok_apply)

lemma inbox_next_run: "ib_next_epoch s \<le> ib_next_epoch (fold inbox_apply ops s)"
  by (induction ops arbitrary: s) (auto intro: order.trans [OF inbox_next_le])

lemma inbox_lost_run:
  assumes "ib_records s k \<noteq> Some (InboxClaimed e)" and "e < ib_next_epoch s"
  shows "ib_records (fold inbox_apply ops s) k \<noteq> Some (InboxClaimed e)"
  using assms
proof (induction ops arbitrary: s)
  case (Cons op ops)
  have "ib_records (inbox_apply op s) k \<noteq> Some (InboxClaimed e)"
    using Cons.prems by (auto dest: inbox_record_step)
  moreover have "e < ib_next_epoch (inbox_apply op s)"
    using Cons.prems(2) inbox_next_le by (rule order.strict_trans2)
  ultimately show ?case using Cons.IH by simp
qed simp

text \<open>
  Fencing of the inbox store: an acquired claim is the only live one of its consumer identity,
  and once a claim issued before the epoch counter saturates is no longer live, by expiry,
  release or a terminal receipt, it never becomes live again: no later operation extends it, and
  releasing it is refused and frees nothing.
\<close>

theorem memory_inbox_fenced:
  assumes "s = fold inbox_apply ops inbox_state_default" and "snd c < ib_next_epoch s"
    and "t \<noteq> 0" and "inbox_extend c t s = Inr LeaseLost" and "s' = fold inbox_apply later s"
  shows "inbox_extend c t' s' = Inr LeaseLost"
    and "\<exists>err. inbox_release c t' s' = (Inl err, s')"
proof -
  have "ib_records s (identity_key (fst c)) \<noteq> Some (InboxClaimed (snd c))"
    using assms(3,4) by (auto simp: inbox_extend_def)
  then have "ib_records s' (identity_key (fst c)) \<noteq> Some (InboxClaimed (snd c))"
    unfolding assms(5) using assms(2) by (rule inbox_lost_run)
  then show "inbox_extend c t' s' = Inr LeaseLost"
    and "\<exists>err. inbox_release c t' s' = (Inl err, s')"
    by (auto simp: inbox_extend_def inbox_release_def split: option.splits inbox_record.splits)
qed

text \<open>
  A terminal receipt is answered to exactly the consumer identity it was stored for, and only a
  later receipt for that identity replaces it.
\<close>

theorem memory_inbox_terminal:
  assumes "s = fold inbox_apply ops inbox_state_default" and "inbox_read_terminal i s = Inr (Some r)"
    and "\<And>f d. IbTerminal i f d \<notin> set later"
  shows "tr_consumer r = i" and "inbox_read_terminal i (fold inbox_apply later s) = Inr (Some r)"
    and "fst (inbox_claim_of i (fold inbox_apply later s)) = Inr (Terminal r)"
proof -
  obtain j f d where rec: "ib_records s (identity_key i) = Some (InboxTerminal j f d)" and r: "r = from_durable j f d"
    using assms(2) by (auto simp: inbox_read_terminal_def split: option.splits inbox_record.splits)
  have "inbox_ok s" unfolding assms(1) by (rule inbox_ok_run) (rule inbox_ok_default)
  with rec have "identity_key i = identity_key j" unfolding inbox_ok_def by blast
  then have "j = i" by simp
  then show "tr_consumer r = i" by (simp add: r from_durable_def)
  have "ib_records (fold inbox_apply later s) (identity_key i) = Some (InboxTerminal j f d)"
    using rec assms(3)
  proof (induction later arbitrary: s)
    case (Cons op later)
    have "ib_records (inbox_apply op s) (identity_key i) = Some (InboxTerminal j f d)"
      using Cons.prems by (cases op)
        (auto simp: inbox_claim_of_def store_terminal_def inbox_expire_def inbox_release_def
          split: option.splits inbox_record.splits)
    then show ?case using Cons.IH Cons.prems(2) by simp
  qed simp
  then show "inbox_read_terminal i (fold inbox_apply later s) = Inr (Some r)"
    and "fst (inbox_claim_of i (fold inbox_apply later s)) = Inr (Terminal r)"
    by (simp_all add: inbox_read_terminal_def inbox_claim_of_def r)
qed


subsection \<open>Examples\<close>

text \<open>One message is claimed, its lease is fenced and it is claimed again and published.\<close>

definition memory_message :: pending_message where
  "memory_message = \<lparr>pm_envelope = demo_envelope, pm_fingerprint = [1]\<rparr>"

definition memory_fenced_ops :: "outbox_op list" where
  "memory_fenced_ops = [OpAppend memory_message, OpClaim 1, OpFence]"

definition memory_later_ops :: "outbox_op list" where
  "memory_later_ops = [OpClaim 1, OpSettle (memory_message, 2) (SetPublished ()) 5]"

definition memory_fenced_state :: outbox_state where
  "memory_fenced_state = snd (snd (outbox_history memory_fenced_ops outbox_state_default))"

lemmas memory_eval =
  memory_fenced_ops_def memory_later_ops_def outbox_state_default_def outbox_append_def
  claim_partition_heads_def u64_try_from_def u64_checked_add_def try_from_provider_def fence_claims_def
  outbox_settle_def arrived_def departed_def ob_messages_def entry_owns_def remove_at_def
  outbox_lease_status_of_def

lemma memory_fenced_state_eq:
  "outbox_history memory_fenced_ops outbox_state_default = ([memory_message], [], memory_fenced_state)"
  "ob_next_attempt memory_fenced_state = 1"
  "outbox_lease_status_of (memory_message, 1) 1 memory_fenced_state = Inr OutboxLost"
  "pending_len memory_fenced_state = 1"
  by (simp_all add: memory_fenced_state_def memory_eval pending_len_def)

theorem memory_claims_heads_witness:
  "(case claim_partition_heads 1 memory_fenced_state of
      (Inl err, s') \<Rightarrow> False
    | (Inr claims, s') \<Rightarrow> map (unat \<circ> snd) claims = [Suc 1..<Suc (unat (ob_next_attempt s'))])"
  using memory_claims_heads [OF memory_fenced_state_eq(1), of 1 1]
  by (auto simp: memory_fenced_state_eq split: prod.splits sum.splits simp del: upt_Suc)

theorem memory_outbox_fenced_witness:
  "\<exists>s'. outbox_history memory_later_ops memory_fenced_state = ([], [memory_message], s') \<and>
    outbox_lease_status_of (memory_message, 1) 9 s' = Inr OutboxLost \<and>
    (\<exists>err. outbox_settle (memory_message, 1) SetRetry 9 s' = (Inl err, s'))"
proof -
  have later: "\<exists>s'. outbox_history memory_later_ops memory_fenced_state = ([], [memory_message], s')"
    by (simp add: memory_fenced_state_def memory_eval)
  then obtain s' where s': "outbox_history memory_later_ops memory_fenced_state = ([], [memory_message], s')"
    by blast
  have c: "snd (memory_message, 1) \<le> ob_next_attempt memory_fenced_state"
    by (simp add: memory_fenced_state_eq)
  have t: "1 \<noteq> (0 :: duration)" by simp
  note fenced = memory_outbox_fenced
    [OF memory_fenced_state_eq(1) c t memory_fenced_state_eq(3) s']
  show ?thesis using s' fenced(1) fenced(2) by blast
qed

definition memory_consumer :: consumer_identity where
  "memory_consumer = \<lparr>cn_tenant = 7, cn_group = ''billing'', cn_message_id = ''m-1'',
     cn_contract = \<lparr>ci_id = ''order'', ci_version = 1, ci_schema_digest = ''d''\<rparr>\<rparr>"

theorem memory_inbox_fenced_witness:
  "inbox_extend (memory_consumer, 1) 9
      (fold inbox_apply [IbClaim memory_consumer, IbExpire memory_consumer, IbClaim memory_consumer]
        inbox_state_default) = Inr LeaseLost"
proof -
  let ?s = "fold inbox_apply [IbClaim memory_consumer, IbExpire memory_consumer] inbox_state_default"
  have n: "snd (memory_consumer, 1 :: u64) < ib_next_epoch ?s"
    and lost: "inbox_extend (memory_consumer, 1) 1 ?s = Inr LeaseLost"
    by (simp_all add: inbox_claim_of_def inbox_expire_def inbox_state_default_def inbox_extend_def
        u64_saturating_succ_def word_less_nat_alt)
  have t: "1 \<noteq> (0 :: duration)" by simp
  show ?thesis
    using memory_inbox_fenced(1) [OF refl n t lost refl,
        where later = "[IbClaim memory_consumer]" and t' = 9] by simp
qed

end
