(* ===== verification/Relay_On_Memory.thy ===== *)
theory Relay_On_Memory
  imports Messaging_Relay Messaging_Memory
begin

section \<open>The relay on the in-memory outbox\<close>

text \<open>
  Runs the relay of \<^verbatim>\<open>crates/transactional-messaging-runtime/src/relay.rs\<close> on the outbox store of
  \<^verbatim>\<open>crates/transactional-messaging-testkit/src/memory.rs\<close>, while other tasks append to the same
  store. Before each store call the host may append messages, and the deadline of the call may
  fire before the call is polled; since the operations of the store never wait, a call that is
  polled completes.
\<close>

definition on_store ::
  "('w \<Rightarrow> pending_message list \<times> bool \<times> 'w) \<Rightarrow> (outbox_state \<Rightarrow> 'x \<times> outbox_state)
     \<Rightarrow> outbox_state \<times> 'w \<Rightarrow> 'x reply \<times> (outbox_state \<times> 'w)" where
  "on_store host call sw =
     (case sw of (s, w) \<Rightarrow> case host w of (ms, late, w') \<Rightarrow>
        let s' = fold (\<lambda>m. outbox_apply (OpAppend m)) ms s in
        if late then (None, (s', w'))
        else case call s' of (a, s'') \<Rightarrow> (Some a, (s'', w')))"

definition memory_relay_env ::
  "('w \<Rightarrow> instant \<times> 'w) \<Rightarrow> (tm_observation \<Rightarrow> 'w \<Rightarrow> 'w)
     \<Rightarrow> (message_envelope \<Rightarrow> duration \<Rightarrow> 'w \<Rightarrow> unit publish_outcome reply \<times> 'w)
     \<Rightarrow> ('w \<Rightarrow> pending_message list \<times> bool \<times> 'w) \<Rightarrow> (outbox_claim, unit, outbox_state \<times> 'w) relay_env" where
  "memory_relay_env now emit publish host =
     \<lparr>en_now = (\<lambda>(s, w). case now w of (a, w') \<Rightarrow> (a, (s, w'))),
      en_emit = (\<lambda>ob (s, w). (s, emit ob w)),
      en_claim_heads = (\<lambda>n d. on_store host (claim_partition_heads n)),
      en_lease_status = (\<lambda>c d. on_store host (\<lambda>s. (outbox_lease_status_of c d s, s))),
      en_extend = (\<lambda>c d. on_store host (\<lambda>s. (outbox_extend c d s, s))),
      en_publish = (\<lambda>m d (s, w). case publish m d w of (a, w') \<Rightarrow> (a, (s, w'))),
      en_settle = (\<lambda>c st d. on_store host (outbox_settle c st d))\<rparr>"

section \<open>Theorems\<close>

subsection \<open>The world along a trace\<close>

fun answers ::
  "('c, 'r, 'w) relay_env \<Rightarrow> ('c, 'r) relay_event \<Rightarrow> 'w \<Rightarrow> 'w \<Rightarrow> bool" where
  "answers env (EvNow a) w w' \<longleftrightarrow> en_now env w = (a, w')"
| "answers env (EvEmit ob) w w' \<longleftrightarrow> en_emit env ob w = w'"
| "answers env (EvClaimHeads n d ca) w w' \<longleftrightarrow> en_claim_heads env n d w = (ca, w')"
| "answers env (EvLeaseStatus c d la) w w' \<longleftrightarrow> en_lease_status env c d w = (la, w')"
| "answers env (EvExtend c d la) w w' \<longleftrightarrow> en_extend env c d w = (la, w')"
| "answers env (EvPublish m d pa) w w' \<longleftrightarrow> en_publish env m d w = (pa, w')"
| "answers env (EvSettle c s d sa) w w' \<longleftrightarrow> en_settle env c s d w = (sa, w')"

primrec replays ::
  "('c, 'r, 'w) relay_env \<Rightarrow> ('c, 'r) relay_event list \<Rightarrow> 'w \<Rightarrow> 'w \<Rightarrow> bool" where
  "replays env [] w w' \<longleftrightarrow> w = w'"
| "replays env (e # es) w w' \<longleftrightarrow> (\<exists>u. answers env e w u \<and> replays env es u w')"

lemma replays_append: "replays env (xs @ ys) w w' \<longleftrightarrow> (\<exists>u. replays env xs w u \<and> replays env ys u w')"
  by (induction xs arbitrary: w) auto

lemma relay_step_answers: "relay_step env t w = Some (e, t', w') \<Longrightarrow> answers env e w w'"
  by (cases t) (auto split: prod.splits)

lemma relay_run_replays: "relay_run env t w = (es, r, w') \<Longrightarrow> replays env es w w'"
proof (induction t arbitrary: w es)
  case (RelayDone x)
  then show ?case by simp
qed (fastforce simp: apfst_def map_prod_def split: prod.splits)+

lemma pool_run_replays: "pool_run env schedule ts w = (evs, ts', w') \<Longrightarrow> replays env (map snd evs) w w'"
proof (induction schedule arbitrary: ts w evs)
  case (Cons i schedule)
  then show ?case
    by (fastforce simp: apfst_def map_prod_def dest: relay_step_answers split: if_splits option.splits prod.splits)
qed simp

lemma pool_drain_replays: "pool_drain env i ts w = (evs, rs, w') \<Longrightarrow> replays env (map snd evs) w w'"
proof (induction ts arbitrary: i w evs rs)
  case (Cons t ts)
  then show ?case
    by (fastforce simp: Let_def replays_append comp_def dest: relay_run_replays split: prod.splits)
qed simp

lemma relay_once_replays:
  assumes "relay_once env message budget schedule limit w = (pre, evs, result, w')"
  shows "\<exists>u. replays env pre w u \<and> replays env (map snd evs) u w'"
  using assms
  by (fastforce simp: relay_once_def pool_results_def replays_append
      dest: relay_run_replays pool_run_replays pool_drain_replays split: prod.splits sum.splits)


subsection \<open>The store along a trace\<close>

lemma outbox_history_append:
  assumes "outbox_history xs s = (a, d, t)" and "outbox_history ys t = (a', d', u)"
  shows "outbox_history (xs @ ys) s = (a @ a', d @ d', u)"
  using assms by (induction xs arbitrary: s a d) (auto simp: Let_def split: prod.splits)

text \<open>
  From \<open>s\<close> to \<open>t\<close> the store is changed by its operations only, and what is released has the
  identity of a message in \<open>I\<close>.
\<close>

definition store_path :: "outbox_identity set \<Rightarrow> outbox_state \<Rightarrow> outbox_state \<Rightarrow> bool" where
  "store_path I s t \<longleftrightarrow>
     (\<exists>ops a d. outbox_history ops s = (a, d, t) \<and> outbox_identity_of ` set d \<subseteq> I)"

lemma store_path_refl: "store_path I s s"
proof -
  have "outbox_history [] s = ([], [], s)" by simp
  then show ?thesis unfolding store_path_def by fastforce
qed

lemma store_path_trans: "store_path I s t \<Longrightarrow> store_path J t u \<Longrightarrow> store_path (I \<union> J) s u"
  unfolding store_path_def by (force dest: outbox_history_append)

lemma store_path_mono: "store_path I s t \<Longrightarrow> I \<subseteq> J \<Longrightarrow> store_path J s t"
  unfolding store_path_def by blast

lemma store_path_op:
  assumes "outbox_identity_of ` set (departed s (outbox_apply op s)) \<subseteq> I"
  shows "store_path I s (outbox_apply op s)"
proof -
  have "outbox_history [op] s = (arrived s (outbox_apply op s), departed s (outbox_apply op s), outbox_apply op s)"
    by (simp add: Let_def)
  then show ?thesis unfolding store_path_def using assms by blast
qed

lemma departed_append: "departed s (snd (outbox_append m s)) = []"
  by (auto simp: departed_def ob_messages_def outbox_append_def filter_empty_conv split: option.splits)

lemma departed_settle:
  "outbox_identity_of ` set (departed s (snd (outbox_settle c st t s))) \<subseteq>
     (if fst (outbox_settle c st t s) = Inr () \<and> st = SetPublished () then {outbox_identity_of (fst c)} else {})"
  by (cases rule: outbox_settle_cases [of c st t s])
    (auto simp: departed_def ob_messages_def entry_owns_def)

lemma store_path_appends: "store_path {} s (fold (\<lambda>m. outbox_apply (OpAppend m)) ms s)"
proof (induction ms arbitrary: s)
  case (Cons m ms)
  have "store_path {} s (outbox_apply (OpAppend m) s)"
    by (rule store_path_op) (simp add: departed_append)
  from store_path_trans [OF this Cons.IH] show ?case by simp
qed (simp add: store_path_refl)

lemma store_path_call:
  assumes "on_store host call (s, w) = (a, (s', w'))"
    and "\<And>s. store_path (I (Some (fst (call s)))) s (snd (call s))"
  shows "store_path (I a) s s'"
proof -
  obtain ms late w1 where h: "host w = (ms, late, w1)" by (cases "host w")
  let ?s = "fold (\<lambda>m. outbox_apply (OpAppend m)) ms s"
  show ?thesis
  proof (cases late)
    case True
    then show ?thesis
      using assms(1) h by (auto simp: on_store_def intro: store_path_mono [OF store_path_appends])
  next
    case False
    then have "a = Some (fst (call ?s))" "s' = snd (call ?s)"
      using assms(1) h by (auto simp: on_store_def split: prod.splits)
    then show ?thesis using store_path_trans [OF store_path_appends assms(2) [of ?s]] by simp
  qed
qed

lemma store_path_quiet:
  assumes "on_store host call (s, w) = (a, (s', w'))" and "\<And>s. store_path {} s (snd (call s))"
  shows "store_path {} s s'"
  using store_path_call [where I = "\<lambda>_. {}", OF assms(1)] assms(2) by simp

text \<open>The identities whose acknowledged publication the events show.\<close>

fun published_by :: "(outbox_claim, unit) relay_event \<Rightarrow> outbox_identity set" where
  "published_by (EvSettle c (SetPublished _) t (Some (Inr _))) = {outbox_identity_of (fst c)}"
| "published_by _ = {}"

lemma published_by_settle:
  "published_by (EvSettle c st t a) =
     (if st = SetPublished () \<and> a = Some (Inr ()) then {outbox_identity_of (fst c)} else {})"
  by (cases "(EvSettle c st t a)" rule: published_by.cases) auto

lemma answers_store_path:
  assumes "answers (memory_relay_env now emit publish host) e (s, w) (s', w')"
  shows "store_path (published_by e) s s'"
proof (cases e)
  case (EvClaimHeads n t a)
  have "store_path {} s (snd (claim_partition_heads n s))" for s
    using store_path_op [of s "OpClaim n" "{}"] by (simp add: departed_def claim_keeps_messages)
  then show ?thesis
    using assms EvClaimHeads store_path_quiet [of host "claim_partition_heads n" s w a s' w']
    by (simp add: memory_relay_env_def)
next
  case (EvSettle c st t a)
  have "store_path (if Some (fst (outbox_settle c st t s)) = Some (Inr ()) \<and> st = SetPublished ()
      then {outbox_identity_of (fst c)} else {}) s (snd (outbox_settle c st t s))" for s
    using store_path_op [of s "OpSettle c st t"] departed_settle by simp
  note path = store_path_call
    [where call = "outbox_settle c st t" and
      I = "\<lambda>a. if a = Some (Inr ()) \<and> st = SetPublished () then {outbox_identity_of (fst c)} else {}", OF _ this]
  show ?thesis
    using assms path [of host s w a s' w'] unfolding EvSettle published_by_settle
    by (simp add: memory_relay_env_def conj_commute)
next
  case (EvLeaseStatus c t a)
  then show ?thesis
    using assms store_path_quiet [of host "\<lambda>s. (outbox_lease_status_of c t s, s)" s w a s' w']
    by (simp add: memory_relay_env_def store_path_refl)
next
  case (EvExtend c t a)
  then show ?thesis
    using assms store_path_quiet [of host "\<lambda>s. (outbox_extend c t s, s)" s w a s' w']
    by (simp add: memory_relay_env_def store_path_refl)
qed (use assms in \<open>auto simp: memory_relay_env_def store_path_refl split: prod.splits\<close>)

lemma replays_store_path:
  "replays (memory_relay_env now emit publish host) es (s, w) (s', w') \<Longrightarrow>
     store_path (\<Union> (published_by ` set es)) s s'"
proof (induction es arbitrary: s w)
  case (Cons e es)
  then obtain s1 w1 where "answers (memory_relay_env now emit publish host) e (s, w) (s1, w1)"
    and "replays (memory_relay_env now emit publish host) es (s1, w1) (s', w')" by auto
  from store_path_trans [OF answers_store_path [OF this(1)] Cons.IH [OF this(2)]]
  show ?case by simp
qed (simp add: store_path_refl)


subsection \<open>One batch\<close>

text \<open>The identity of the message is taken, and the store holds no other message under it.\<close>

definition known :: "pending_message \<Rightarrow> outbox_state \<Rightarrow> bool" where
  "known m s \<longleftrightarrow> outbox_identity_of m \<in> dom (ob_fingerprints s) \<and>
     (\<forall>m' \<in> set (ob_messages s). outbox_identity_of m' = outbox_identity_of m \<longrightarrow> m' = m)"

lemma queue_rel_messages:
  assumes "queue_rel s a d t"
  shows "set (ob_messages t) \<union> set d = set (ob_messages s) \<union> set a"
proof -
  have "mset (d @ ob_messages t) = mset (ob_messages s @ a)" using assms by (simp add: queue_rel_def)
  from mset_eq_setD [OF this] show ?thesis by auto
qed

lemma known_queue_rel: "known m s \<Longrightarrow> queue_rel s a d t \<Longrightarrow> known m t"
  using queue_rel_messages [of s a d t] by (fastforce simp: known_def queue_rel_def)

lemma known_released:
  assumes "known m s" and "queue_rel s a d t" and "m' \<in> set d" and "outbox_identity_of m' = outbox_identity_of m"
  shows "m' = m"
  using assms queue_rel_messages [OF assms(2)] by (fastforce simp: known_def queue_rel_def)

lemma known_stored:
  assumes "outbox_ok s" and "m \<in> set (ob_messages s)"
  shows "known m s"
proof -
  have "inj_on entry_id (set (ob_entries s))" using assms(1) by (simp add: outbox_ok_def distinct_map)
  then show ?thesis
    using assms by (fastforce simp: known_def ob_messages_def outbox_ok_def entry_id_def inj_on_def)
qed

lemma pending_heads_subset: "set (pending_heads S es) \<subseteq> set es"
  by (induction es arbitrary: S) auto

lemma claimed_stored:
  assumes "fst (claim_partition_heads n s) = Inr claims" and "c \<in> set claims"
  shows "fst c \<in> set (ob_messages s)"
proof (cases rule: claim_partition_heads_cases [of n s])
  case (claimed es cs n')
  then have "claims = cs" using assms(1) by simp
  then have "fst c \<in> set (take n (map oe_message (pending_heads {} (ob_entries s))))"
    using claimed(3) assms(2) by (metis imageI set_map)
  then have "fst c \<in> oe_message ` set (pending_heads {} (ob_entries s))"
    by (metis in_set_takeD set_map)
  then show ?thesis unfolding ob_messages_def set_map
    by (rule subsetD [OF image_mono [OF pending_heads_subset]])
qed (use assms in simp)

lemma store_path_ok:
  assumes "outbox_ok s" and "store_path I s t"
  obtains ops a d where "outbox_history ops s = (a, d, t)" and "queue_rel s a d t" and "outbox_ok t"
    and "outbox_identity_of ` set d \<subseteq> I"
proof -
  obtain ops a d where h: "outbox_history ops s = (a, d, t)" and d: "outbox_identity_of ` set d \<subseteq> I"
    using assms(2) unfolding store_path_def by blast
  have q: "queue_rel s a d t" by (rule outbox_history_queue [OF assms(1) h])
  show thesis by (rule that [OF h q _ d]) (use q in \<open>simp add: queue_rel_def\<close>)
qed

lemma claim_answer_known:
  assumes "answers (memory_relay_env now emit publish host) (EvClaimHeads n t (Some (Inr claims))) (s, w) (s', w')"
    and "outbox_ok s" and "c \<in> set claims"
  shows "known (fst c) s'"
proof -
  obtain ms late w1 where h: "host w = (ms, late, w1)" by (cases "host w")
  let ?s = "fold (\<lambda>m. outbox_apply (OpAppend m)) ms s"
  have claims: "fst (claim_partition_heads n ?s) = Inr claims" and s': "s' = snd (claim_partition_heads n ?s)"
    using assms(1) h by (auto simp: memory_relay_env_def on_store_def Let_def split: if_splits prod.splits)
  have "outbox_ok ?s" using store_path_appends by (rule store_path_ok [OF assms(2)])
  then have "outbox_ok s'" unfolding s' by (rule queue_step_ok [OF queue_step_claim])
  moreover have "fst c \<in> set (ob_messages s')"
    using claimed_stored [OF claims assms(3)] by (simp add: s' claim_keeps_messages)
  ultimately show ?thesis by (rule known_stored)
qed

lemma claim_phase_known:
  assumes "replays (memory_relay_env now emit publish host) pre (s, w) (s1, w1)"
    and "ends (claim_phase budget limit) pre (Inr claims)" and "outbox_ok s" and "c \<in> set claims"
  shows "known (fst c) s1"
proof -
  let ?env = "memory_relay_env now emit publish host"
  obtain t xs ys where split: "pre = xs @ EvClaimHeads limit t (Some (Inr claims)) # ys"
    using claim_phase_heads [OF assms(2)] by (meson split_list)
  then obtain s2 w2 s3 w3 where r: "replays ?env xs (s, w) (s2, w2)"
    "answers ?env (EvClaimHeads limit t (Some (Inr claims))) (s2, w2) (s3, w3)"
    "replays ?env ys (s3, w3) (s1, w1)"
    using assms(1) by (auto simp: replays_append)
  have ok2: "outbox_ok s2" using replays_store_path [OF r(1)] by (rule store_path_ok [OF assms(3)])
  have ok3: "outbox_ok s3" using answers_store_path [OF r(2)] by (rule store_path_ok [OF ok2])
  have "known (fst c) s3" by (rule claim_answer_known [OF r(2) ok2 assms(4)])
  then show ?thesis
    using known_queue_rel by (metis store_path_ok [OF ok3 replays_store_path [OF r(3)]])
qed

lemma claim_phase_silent:
  "ends (claim_phase budget limit) es r \<Longrightarrow> \<Union> (published_by ` set es) = {}"
  unfolding claim_phase_def
  by (auto simp: relay_failure_def elim!: ends_elims ends_absolute_deadlineE ends_withinE
      split: sum.splits option.splits)

lemma relay_once_claim_phase:
  "relay_once env message budget schedule limit w = (pre, evs, result, w') \<Longrightarrow>
     \<exists>r. ends (claim_phase budget limit) pre r"
  by (auto simp: relay_once_def dest: relay_run_ends split: prod.splits sum.splits)

lemma published_confirmed:
  assumes "claim_contract m c es r" and "i \<in> \<Union> (published_by ` set es)"
  shows "i = outbox_identity_of (fst c) \<and> (\<exists>t. EvPublish m t (Some (Confirmed ())) \<in> set es)"
proof -
  obtain e where e: "e \<in> set es" "i \<in> published_by e" using assms(2) by blast
  then obtain c' t where ev: "e = EvSettle c' (SetPublished ()) t (Some (Inr ()))" and i: "i = outbox_identity_of (fst c')"
    by (cases e rule: published_by.cases) auto
  have mem: "(c', SetPublished (), t, Some (Inr ())) \<in> set (settles es)"
    using e(1) unfolding settles_def ev
    by (cases c') (auto intro!: bexI [of _ "EvSettle c' (SetPublished ()) t (Some (Inr ()))"])
  have "settles es = [] \<or> (\<exists>s d a ext. settles es = [(c, s, d, a)] \<and> justified s ext (publishes es))"
    using assms(1) unfolding claim_contract_def by blast
  then obtain ext where "c' = c" "justified (SetPublished ()) ext (publishes es)" using mem by auto
  moreover from this(2) obtain m' d where "publishes es = [(m', d, Some (Confirmed ()))]" by auto
  moreover from this have "m' = m" using assms(1) by (simp add: claim_contract_def)
  moreover have "EvPublish x d a \<in> set es" if "(x, d, a) \<in> set (publishes es)" for x d a
    using that by (auto simp: publishes_def split: relay_event.splits)
  ultimately show ?thesis using i by auto
qed


text \<open>
  C17. The relay on the reference outbox: whatever clock, publisher, schedule and concurrent
  appends, a batch changes the store through its operations only, every partition stays a queue
  over the messages appended meanwhile, and every message that leaves the store was published
  unchanged and confirmed by the publisher in this batch.
\<close>

theorem relay_on_memory_confirmed:
  assumes "outbox_history before outbox_state_default = (a0, d0, s)"
    and "relay_once (memory_relay_env now emit publish host) outbox_message memory_budget schedule limit (s, w)
           = (pre, evs, result, (s', w'))"
  shows "\<exists>ops appended released. outbox_history ops s = (appended, released, s') \<and>
    (\<forall>p. of_partition p released @ of_partition p (ob_messages s') =
         of_partition p (ob_messages s) @ of_partition p appended) \<and>
    (\<forall>m \<in> set released. \<exists>i t. EvPublish (pm_envelope m) t (Some (Confirmed ())) \<in> set (events_of i evs))"
proof -
  let ?env = "memory_relay_env now emit publish host"
  have ok: "outbox_ok s" by (rule reachable_outbox_ok [OF assms(1)])
  obtain s1 w1 where pre: "replays ?env pre (s, w) (s1, w1)" and post: "replays ?env (map snd evs) (s1, w1) (s', w')"
    using relay_once_replays [OF assms(2)] by auto
  obtain r where "ends (claim_phase memory_budget limit) pre r"
    using relay_once_claim_phase [OF assms(2)] by blast
  from claim_phase_silent [OF this] have path: "store_path {} s s1"
    using replays_store_path [OF pre] by simp
  obtain ops1 a1 d1 where h1: "outbox_history ops1 s = (a1, d1, s1)" and ok1: "outbox_ok s1"
    and q1: "queue_rel s a1 d1 s1" and "outbox_identity_of ` set d1 \<subseteq> {}"
    by (rule store_path_ok [OF ok path])
  then have d1: "d1 = []" by simp
  obtain ops2 a2 d2 where h2: "outbox_history ops2 s1 = (a2, d2, s')" and q2: "queue_rel s1 a2 d2 s'"
    and ids: "outbox_identity_of ` set d2 \<subseteq> \<Union> (published_by ` set (map snd evs))"
    by (rule store_path_ok [OF ok1 replays_store_path [OF post]])
  have conf: "\<exists>i t. EvPublish (pm_envelope m) t (Some (Confirmed ())) \<in> set (events_of i evs)"
    if m: "m \<in> set d2" for m
    using assms(2)
  proof (cases rule: relay_once_cases)
    case claim_failed
    then show ?thesis using ids m by auto
  next
    case (batch claims rs)
    obtain i e where e: "(i, e) \<in> set evs" and pub: "outbox_identity_of m \<in> published_by e"
      using ids m by auto
    have i: "i < length claims" using batch(5) [OF e] by simp
    have "outbox_identity_of m \<in> \<Union> (published_by ` set (events_of i evs))"
      using e pub by (force simp: events_of_def)
    from published_confirmed [OF relay_claim_contract [OF batch(4) [OF i]] this]
    obtain t where same: "outbox_identity_of m = outbox_identity_of (fst (claims ! i))"
      and p: "EvPublish (pm_envelope (fst (claims ! i))) t (Some (Confirmed ())) \<in> set (events_of i evs)"
      by (auto simp: outbox_message_def)
    have "known (fst (claims ! i)) s1"
      by (rule claim_phase_known [OF pre batch(1) ok]) (simp add: i)
    from known_released [OF this q2 m same] p show ?thesis by auto
  qed
  show ?thesis
    using outbox_history_append [OF h1 h2] queue_rel_trans [OF q1 q2] conf d1
    by (intro exI conjI) (auto simp: queue_rel_def)
qed


subsection \<open>Example\<close>

text \<open>One stored message, a clock that advances with each read, and a publisher that confirms.\<close>

definition memory_demo_env :: "(outbox_claim, unit, outbox_state \<times> nat) relay_env" where
  "memory_demo_env = memory_relay_env (\<lambda>w. (w, w + 100)) (\<lambda>ob w. w)
     (\<lambda>m d w. (Some (Confirmed ()), w)) (\<lambda>w. ([], False, w))"

definition memory_demo_store :: outbox_state where
  "memory_demo_store = outbox_apply (OpAppend memory_message) outbox_state_default"

definition memory_demo_batch where
  "memory_demo_batch = relay_once memory_demo_env outbox_message memory_budget [] 1 (memory_demo_store, 0)"

lemma memory_demo_store_history:
  "outbox_history [OpAppend memory_message] outbox_state_default = ([memory_message], [], memory_demo_store)"
  by (simp add: memory_demo_store_def memory_eval)

lemma memory_demo_batch_result:
  "\<exists>pre evs s' w'. memory_demo_batch = (pre, evs,
     Inr \<lparr>rr_claimed = 1, rr_published = 1, rr_retried = 0, rr_dead_lettered = 0, rr_fenced = 0\<rparr>, (s', w'))
     \<and> ob_messages s' = []"
  unfolding memory_demo_batch_def memory_demo_env_def memory_demo_store_def memory_budget_def
  by (simp add: relay_eval relay_summary_eq memory_relay_env_def on_store_def memory_eval from_secs_def
      outbox_extend_def outbox_message_def memory_budget_def)

theorem relay_on_memory_confirmed_witness:
  "\<exists>pre evs result s' w'. memory_demo_batch = (pre, evs, result, (s', w')) \<and> ob_messages s' = [] \<and>
    (\<exists>i t. EvPublish demo_envelope t (Some (Confirmed ())) \<in> set (events_of i evs))"
proof -
  obtain pre evs result s' w' where b: "memory_demo_batch = (pre, evs, result, (s', w'))"
    and e: "ob_messages s' = []"
    using memory_demo_batch_result by blast
  from relay_on_memory_confirmed [OF memory_demo_store_history b [unfolded memory_demo_batch_def memory_demo_env_def]]
  obtain ops a d where h: "outbox_history ops memory_demo_store = (a, d, s')"
    and conf: "\<And>m. m \<in> set d \<Longrightarrow> \<exists>i t. EvPublish (pm_envelope m) t (Some (Confirmed ())) \<in> set (events_of i evs)"
    by blast
  have "queue_rel memory_demo_store a d s'"
    by (rule outbox_history_queue [OF reachable_outbox_ok [OF memory_demo_store_history] h])
  moreover have "ob_messages memory_demo_store = [memory_message]"
    by (simp add: memory_demo_store_def memory_eval)
  ultimately have "memory_message \<in> set d" using queue_rel_messages by (fastforce simp: e)
  from conf [OF this] have "\<exists>i t. EvPublish demo_envelope t (Some (Confirmed ())) \<in> set (events_of i evs)"
    by (simp add: memory_message_def)
  with b e show ?thesis by blast
qed

end
