(* ===== verification/Mqtt_Driver.thy ===== *)
theory Mqtt_Driver
  imports Messaging_Ports "HOL-Library.AList" "HOL-Library.Multiset"
begin

section \<open>The MQTT connection driver\<close>

text \<open>
  Models \<^verbatim>\<open>crates/mqtt/src\<close>: the closed errors, limits and states of \<^verbatim>\<open>model.rs\<close>, the reconnect
  policy (\<^verbatim>\<open>reconnect.rs\<close>), the publication outcomes (\<^verbatim>\<open>outcome.rs\<close>), the driver task and its event
  loop (\<^verbatim>\<open>driver.rs\<close>), the publisher, settlement and receiver handles (\<^verbatim>\<open>handles.rs\<close>) and the
  transactional settlement (\<^verbatim>\<open>transactional.rs\<close>). The MQTT client and its event loop belong to
  \<^verbatim>\<open>rumqttc\<close>: their answers are inputs of each turn. Its enumerations are represented by the
  constructors the source matches on, and one more for the remaining ones. The driver is a state
  machine over the branches of its \<^verbatim>\<open>select!\<close> loops and the actions of other tasks on the shared
  state; an effect is an answer to a caller, a request to the client or a queued delivery.
\<close>

subsection \<open>Model\<close>

datatype mqtt_error =
  MqInvalidConfig | MqInvalidMessage | MqClosed | MqDeadlineElapsed | MqUnavailable
  | MqConnectionLost | MqBrokerBusy | MqAuthentication | MqProtocol | MqStaleDelivery
  | MqSettlementUnknown | MqSubscriptionRejected | MqSessionState | MqSessionStore
  | MqUnsupportedQos | MqReceiveCapacity

type_synonym u16 = "16 word"

record mqtt_limits =
  li_commands :: nat
  li_deliveries :: nat
  li_inflight :: nat
  li_packet_bytes :: nat

definition mqtt_limits_new :: "nat \<Rightarrow> nat \<Rightarrow> nat \<Rightarrow> nat \<Rightarrow> mqtt_error + mqtt_limits" where
  "mqtt_limits_new commands deliveries inflight packet_bytes =
     (if commands = 0 \<or> commands > 65535 \<or> deliveries = 0 \<or> inflight = 0
         \<or> \<not> (8 \<le> packet_bytes \<and> packet_bytes \<le> 268435455)
      then Err MqInvalidConfig
      else Ok \<lparr>li_commands = commands, li_deliveries = deliveries, li_inflight = inflight,
               li_packet_bytes = packet_bytes\<rparr>)"

datatype connection_state =
  Connecting
  | ConnReady u64 bool
  | Reconnecting mqtt_error u64
  | ConnFailed mqtt_error
  | ConnClosed

datatype puback_reason =
  AckSuccess | AckNoMatchingSubscribers | AckUnspecifiedError | AckImplementationSpecific
  | AckNotAuthorized | AckTopicNameInvalid | AckPacketIdentifierInUse | AckQuotaExceeded
  | AckPayloadFormatInvalid

datatype mqtt_reject_reason = RejUnspecified | RejNotAuthorized | RejPayloadFormatInvalid

fun reject_wire :: "mqtt_reject_reason \<Rightarrow> puback_reason" where
  "reject_wire RejUnspecified = AckUnspecifiedError"
| "reject_wire RejNotAuthorized = AckNotAuthorized"
| "reject_wire RejPayloadFormatInvalid = AckPayloadFormatInvalid"

subsection \<open>Reconnect policy\<close>

record reconnect_policy =
  rp_initial :: duration
  rp_maximum :: duration

definition reconnect_policy_new :: "duration \<Rightarrow> duration \<Rightarrow> mqtt_error + reconnect_policy" where
  "reconnect_policy_new initial maximum =
     (if initial < from_millis 1 \<or> initial > maximum div 2 \<or> maximum > from_secs 86400
      then Err MqInvalidConfig
      else Ok \<lparr>rp_initial = initial, rp_maximum = maximum\<rparr>)"

text \<open>The item of the backoff iterator, bounded by the policy.\<close>

definition reconnect_next :: "reconnect_policy \<Rightarrow> duration option \<Rightarrow> duration" where
  "reconnect_next p item = min (case item of Some d \<Rightarrow> d | None \<Rightarrow> rp_maximum p) (rp_maximum p)"

subsection \<open>Publication outcomes\<close>

definition mq_definite ::
  "publish_failure_kind \<Rightarrow> publish_failure_stage \<Rightarrow> publish_failure_reason \<Rightarrow> unit publish_outcome" where
  "mq_definite k st r = DefinitelyNotPublished \<lparr>pf_kind = k, pf_stage = st, pf_reason = r\<rparr>"

definition mq_ambiguous :: "publish_failure_reason \<Rightarrow> unit publish_outcome" where
  "mq_ambiguous r = Ambiguous \<lparr>pf_kind = PfTransient, pf_stage = StageConfirm, pf_reason = r\<rparr>"

datatype client_error =
  ClInvalidRequest | ClRequestChannelFull | ClRequestChannelDisconnected | ClTrackingUnavailable | ClOther

fun mq_admission :: "client_error \<Rightarrow> unit publish_outcome" where
  "mq_admission ClInvalidRequest = mq_definite PfPermanent StageEncode InvalidMessage"
| "mq_admission ClRequestChannelFull = mq_definite PfTransient StageAdmission TransportUnavailable"
| "mq_admission ClRequestChannelDisconnected = mq_definite PfTransient StageAdmission TransportUnavailable"
| "mq_admission ClTrackingUnavailable = mq_definite PfTransient StageAdmission TransportUnavailable"
| "mq_admission ClOther = mq_ambiguous TransportUnavailable"

fun mq_puback :: "puback_reason \<Rightarrow> unit publish_outcome" where
  "mq_puback AckSuccess = Confirmed ()"
| "mq_puback AckNoMatchingSubscribers = Confirmed ()"
| "mq_puback AckNotAuthorized = mq_definite PfPermanent StageConfirm ProviderRejected"
| "mq_puback AckTopicNameInvalid = mq_definite PfPermanent StageConfirm ProviderRejected"
| "mq_puback AckPayloadFormatInvalid = mq_definite PfPermanent StageConfirm ProviderRejected"
| "mq_puback AckUnspecifiedError = mq_definite PfTransient StageConfirm ProviderRejected"
| "mq_puback AckImplementationSpecific = mq_definite PfTransient StageConfirm ProviderRejected"
| "mq_puback AckPacketIdentifierInUse = mq_definite PfTransient StageConfirm ProviderRejected"
| "mq_puback AckQuotaExceeded = mq_definite PfTransient StageConfirm ProviderRejected"

datatype publish_notice =
  NoticeQos1 puback_reason | NoticeOtherResult | NoticeRetainNotSupported
  | NoticeBrokerOnlySessionResume | NoticeOtherError

fun mq_notice :: "publish_notice \<Rightarrow> unit publish_outcome" where
  "mq_notice (NoticeQos1 r) = mq_puback r"
| "mq_notice NoticeRetainNotSupported = mq_definite PfPermanent StageSend ProviderRejected"
| "mq_notice NoticeBrokerOnlySessionResume = mq_definite PfTransient StageAdmission TransportUnavailable"
| "mq_notice NoticeOtherResult = mq_ambiguous TransportUnavailable"
| "mq_notice NoticeOtherError = mq_ambiguous TransportUnavailable"

subsection \<open>Shared state and driver\<close>

datatype qos = AtMostOnce | AtLeastOnce | ExactlyOnce

record mqtt_publish =
  mp_qos :: qos
  mp_pkid :: u16
  mp_topic :: bytes
  mp_payload :: bytes
  mp_user_properties :: "(string \<times> string) list option"

record mqtt_delivery =
  md_publish :: mqtt_publish
  md_generation :: u64
  md_pkid :: u16

text \<open>The sender of a oneshot response is the name of the request.\<close>

type_synonym request_name = nat

datatype delivery_state = DsDelivered | DsSettling deadline request_name

datatype mqtt_command =
  CmdPublish deadline request_name
  | CmdSettle u64 u16 puback_reason deadline request_name
  | CmdShutdown deadline request_name

datatype driver_phase = AtHead | Selecting | BackoffDue | BackingOff | Finished

record mqtt_driver =
  dv_state :: connection_state
  dv_closing :: bool
  dv_generation :: u64
  dv_retire :: u64
  dv_cancelled :: bool
  dv_deliveries :: "mqtt_delivery list"
  dv_outstanding :: "(u16 \<times> delivery_state) list"
  dv_subscriptions :: "string list"
  dv_subscription :: bool
  dv_session_present :: bool
  dv_max_deliveries :: nat
  dv_reconnect :: reconnect_policy
  dv_phase :: driver_phase

definition mqtt_connect :: "mqtt_limits \<Rightarrow> string list \<Rightarrow> reconnect_policy \<Rightarrow> mqtt_driver" where
  "mqtt_connect limits subscriptions policy =
     \<lparr>dv_state = Connecting, dv_closing = False, dv_generation = 1, dv_retire = 0,
      dv_cancelled = False, dv_deliveries = [], dv_outstanding = [], dv_subscriptions = subscriptions,
      dv_subscription = False, dv_session_present = False,
      dv_max_deliveries = li_deliveries limits, dv_reconnect = policy, dv_phase = AtHead\<rparr>"

datatype mqtt_effect =
  Answered request_name "mqtt_error + unit"
  | AnsweredPublish request_name "unit publish_outcome + unit"
  | AnsweredShutdown request_name "mqtt_error + unit"
  | AckSubmitted u64 u16 puback_reason request_name
  | PublishSubmitted request_name
  | SubscribeSubmitted "string list"
  | DeliveryQueued u64 u16
  | Retired u64
  | Cleaned
  | Slept duration

subsection \<open>Shared operations\<close>

definition shared_abandon :: "u64 \<Rightarrow> mqtt_driver \<Rightarrow> mqtt_driver" where
  "shared_abandon g d = d\<lparr>dv_retire := max (dv_retire d) g\<rparr>"

text \<open>Dropping a queued delivery drops its undecided settlement, which abandons its generation.\<close>

definition clear_deliveries :: "mqtt_driver \<Rightarrow> mqtt_driver" where
  "clear_deliveries d =
     fold (\<lambda>x. shared_abandon (md_generation x)) (dv_deliveries d) (d\<lparr>dv_deliveries := []\<rparr>)"

definition invalidate :: "mqtt_driver \<Rightarrow> (mqtt_error + unit) \<times> mqtt_driver" where
  "invalidate d =
     (case u64_checked_add (dv_generation d) 1 of
        None \<Rightarrow> (Err MqClosed, d)
      | Some g \<Rightarrow> (Ok (), clear_deliveries (d\<lparr>dv_generation := g\<rparr>)))"

definition settling_requests :: "(u16 \<times> delivery_state) list \<Rightarrow> request_name list" where
  "settling_requests xs = concat (map (\<lambda>(p, s). case s of DsSettling _ r \<Rightarrow> [r] | DsDelivered \<Rightarrow> []) xs)"

definition mq_retire :: "mqtt_driver \<Rightarrow> mqtt_effect list \<times> mqtt_driver" where
  "mq_retire d =
     (let d1 = (case invalidate d of (Inl _, d') \<Rightarrow> d'\<lparr>dv_cancelled := True\<rparr> | (Inr _, d') \<Rightarrow> d') in
      (Retired (dv_generation d) # map (\<lambda>r. Answered r (Err MqSettlementUnknown)) (settling_requests (dv_outstanding d1)),
       d1\<lparr>dv_outstanding := [], dv_subscription := False\<rparr>))"

definition mq_fail :: "mqtt_error \<Rightarrow> mqtt_driver \<Rightarrow> mqtt_driver" where
  "mq_fail e d = d\<lparr>dv_state := ConnFailed e\<rparr>"

definition mq_ready :: "mqtt_driver \<Rightarrow> mqtt_driver" where
  "mq_ready d = d\<lparr>dv_state := ConnReady (dv_generation d) (dv_session_present d)\<rparr>"

definition mq_reconnecting :: "mqtt_error \<Rightarrow> mqtt_driver \<Rightarrow> mqtt_driver" where
  "mq_reconnecting cause d = d\<lparr>dv_state := Reconnecting cause (dv_generation d)\<rparr>"

definition settlement_wait :: "instant \<Rightarrow> mqtt_driver \<Rightarrow> duration option" where
  "settlement_wait now d =
     (let ws = concat (map (\<lambda>(p, s). case s of DsSettling dl _ \<Rightarrow> [remaining_or_zero dl now] | DsDelivered \<Rightarrow> [])
                 (dv_outstanding d)) in
      if ws = [] then None else Some (Min (set ws)))"

definition is_ready_state :: "connection_state \<Rightarrow> bool" where
  "is_ready_state st = (case st of ConnReady _ _ \<Rightarrow> True | _ \<Rightarrow> False)"

text \<open>What the clock and the client answer in one turn.\<close>

record mqtt_turn =
  tn_now :: instant
  tn_response_closed :: bool
  tn_publish :: "client_error + unit"
  tn_ack :: bool
  tn_subscribe :: bool

definition submit_settlement ::
  "mqtt_turn \<Rightarrow> u64 \<Rightarrow> u16 \<Rightarrow> deadline \<Rightarrow> mqtt_driver \<Rightarrow> mqtt_error + unit" where
  "submit_settlement t g pkid dl d =
     (if g \<noteq> dv_generation d then Err MqStaleDelivery
      else if dv_closing d then Err MqClosed
      else if remaining_or_zero dl (tn_now t) = 0 then Err MqDeadlineElapsed
      else if map_of (dv_outstanding d) pkid \<noteq> Some DsDelivered then Err MqStaleDelivery
      else if tn_ack t then Ok () else Err MqUnavailable)"

definition handle_command ::
  "mqtt_turn \<Rightarrow> mqtt_command \<Rightarrow> mqtt_driver \<Rightarrow> (deadline \<times> request_name) option \<times> mqtt_effect list \<times> mqtt_driver" where
  "handle_command t cmd d =
     (case cmd of
        CmdPublish dl r \<Rightarrow>
          if tn_response_closed t then (None, [], d)
          else if dv_closing d \<or> \<not> is_ready_state (dv_state d) then
            (None, [AnsweredPublish r (Inl (mq_definite PfTransient StageAdmission TransportUnavailable))], d)
          else if remaining_or_zero dl (tn_now t) = 0 then
            (None, [AnsweredPublish r (Inl (mq_definite PfTransient StageAdmission PubDeadlineElapsed))], d)
          else (case tn_publish t of
              Inl e \<Rightarrow> (None, [AnsweredPublish r (Inl (mq_admission e))], d)
            | Inr _ \<Rightarrow> (None, [PublishSubmitted r, AnsweredPublish r (Inr ())], d))
      | CmdSettle g pkid reason dl r \<Rightarrow>
          (case submit_settlement t g pkid dl d of
             Inr _ \<Rightarrow> (None, [AckSubmitted g pkid reason r],
                       d\<lparr>dv_outstanding := AList.update pkid (DsSettling dl r) (dv_outstanding d)\<rparr>)
           | Inl e \<Rightarrow> (None, [Answered r (Err e)], d))
      | CmdShutdown dl r \<Rightarrow> (Some (dl, r), [], d))"

definition mq_receive :: "mqtt_publish \<Rightarrow> mqtt_driver \<Rightarrow> (mqtt_error + unit) \<times> mqtt_effect list \<times> mqtt_driver" where
  "mq_receive p d =
     (if mp_qos p \<noteq> AtLeastOnce then (Err MqUnsupportedQos, [], d)
      else if map_of (dv_outstanding d) (mp_pkid p) \<noteq> None then (Ok (), [], d)
      else if length (dv_outstanding d) \<ge> dv_max_deliveries d then (Err MqReceiveCapacity, [], d)
      else (Ok (), [DeliveryQueued (dv_generation d) (mp_pkid p)],
            d\<lparr>dv_deliveries := dv_deliveries d @
                [\<lparr>md_publish = p, md_generation = dv_generation d, md_pkid = mp_pkid p\<rparr>],
              dv_outstanding := AList.update (mp_pkid p) DsDelivered (dv_outstanding d)\<rparr>))"

datatype mqtt_event =
  InConnAck bool | InPublish mqtt_publish | InPubAck puback_reason | OutPubAck u16 | OutDisconnect | EvOther

definition mq_event ::
  "mqtt_turn \<Rightarrow> mqtt_event \<Rightarrow> mqtt_driver \<Rightarrow> (mqtt_error + unit) \<times> mqtt_effect list \<times> mqtt_driver" where
  "mq_event t ev d =
     (case ev of
        InConnAck present \<Rightarrow>
          (let d = d\<lparr>dv_session_present := present\<rparr> in
           if dv_subscriptions d = [] then (Ok (), [], mq_ready d)
           else if tn_subscribe t
           then (Ok (), [SubscribeSubmitted (dv_subscriptions d)], d\<lparr>dv_subscription := True\<rparr>)
           else (Err MqSubscriptionRejected, [], d))
      | InPublish p \<Rightarrow> mq_receive p d
      | InPubAck reason \<Rightarrow>
          (Ok (), [], if reason = AckPacketIdentifierInUse then shared_abandon (dv_generation d) d else d)
      | OutPubAck pkid \<Rightarrow>
          (let d' = d\<lparr>dv_outstanding := AList.delete pkid (dv_outstanding d)\<rparr> in
           case map_of (dv_outstanding d) pkid of
             Some (DsSettling dl r) \<Rightarrow>
               if remaining_or_zero dl (tn_now t) = 0
               then (Ok (), [Answered r (Err MqSettlementUnknown)], shared_abandon (dv_generation d) d')
               else (Ok (), [Answered r (Ok ())], d')
           | _ \<Rightarrow> (Ok (), [], d'))
      | _ \<Rightarrow> (Ok (), [], d))"

datatype suback_code =
  SubSuccess qos | SubFailure | SubUnspecified | SubImplementationSpecific | SubQuotaExceeded | SubPkidInUse | SubOther

datatype suback_result = SubPending | SubPersistenceFailed | SubNoticeFailed | SubAcked "suback_code list"

fun suback_transient :: "suback_code \<Rightarrow> bool" where
  "suback_transient SubFailure = True"
| "suback_transient SubUnspecified = True"
| "suback_transient SubImplementationSpecific = True"
| "suback_transient SubQuotaExceeded = True"
| "suback_transient SubPkidInUse = True"
| "suback_transient _ = False"

text \<open>The loop over the return codes: whether one was transient, or the rejection.\<close>

fun scan_codes :: "suback_code list \<Rightarrow> bool \<Rightarrow> mqtt_error + bool" where
  "scan_codes [] transient = Ok transient"
| "scan_codes (c # cs) transient =
     (if c = SubSuccess AtLeastOnce then scan_codes cs transient
      else if suback_transient c then scan_codes cs True
      else Err MqSubscriptionRejected)"

definition check_subscription :: "suback_result \<Rightarrow> mqtt_driver \<Rightarrow> (mqtt_error + unit) \<times> mqtt_driver" where
  "check_subscription res d =
     (if \<not> dv_subscription d then (Ok (), d)
      else
        let d' = d\<lparr>dv_subscription := False\<rparr> in
        case res of
          SubPending \<Rightarrow> (Ok (), d)
        | SubPersistenceFailed \<Rightarrow> (Err MqSessionStore, d')
        | SubNoticeFailed \<Rightarrow> (Err MqSubscriptionRejected, d')
        | SubAcked codes \<Rightarrow>
            if length codes \<noteq> length (dv_subscriptions d) then (Err MqSubscriptionRejected, d')
            else (case scan_codes codes False of
                Inl e \<Rightarrow> (Err e, d')
              | Inr transient \<Rightarrow> if transient then (Err MqBrokerBusy, d') else (Ok (), mq_ready d')))"

text \<open>\<open>Drop for Driver\<close>, at the end of the task or when it is aborted.\<close>

definition driver_drop :: "mqtt_driver \<Rightarrow> mqtt_effect list \<times> mqtt_driver" where
  "driver_drop d =
     (let (es, d1) = mq_retire (d\<lparr>dv_closing := True\<rparr>) in
      (es, (case dv_state d1 of ConnFailed _ \<Rightarrow> d1 | _ \<Rightarrow> d1\<lparr>dv_state := ConnClosed\<rparr>)\<lparr>dv_phase := Finished\<rparr>))"


subsection \<open>Failures\<close>

datatype connect_return_code =
  RcServiceUnavailable | RcServerUnavailable | RcServerBusy | RcQuotaExceeded | RcConnectionRateExceeded
  | RcUnspecifiedError | RcImplementationSpecificError | RcBadUserNamePassword | RcNotAuthorized | RcBanned
  | RcBadAuthenticationMethod | RcOther

definition connack_failure :: "connect_return_code \<Rightarrow> mqtt_error \<times> bool" where
  "connack_failure c =
     (if c \<in> {RcServiceUnavailable, RcServerUnavailable, RcServerBusy, RcQuotaExceeded,
              RcConnectionRateExceeded, RcUnspecifiedError, RcImplementationSpecificError}
      then (MqBrokerBusy, True)
      else if c \<in> {RcBadUserNamePassword, RcNotAuthorized, RcBanned, RcBadAuthenticationMethod}
      then (MqAuthentication, False)
      else (MqProtocol, False))"

datatype disconnect_code =
  DcNormalDisconnection | DcServerBusy | DcServerShuttingDown | DcKeepAliveTimeout
  | DcConnectionRateExceeded | DcNotAuthorized | DcOther

datatype tls_io_kind =
  IoUnexpectedEof | IoConnectionReset | IoConnectionAborted | IoConnectionRefused | IoBrokenPipe
  | IoTimedOut | IoOtherKind

datatype connection_error =
  CeSessionStore | CeSessionRestore | CeSessionStateMismatch | CeConnectionRefused connect_return_code
  | CeIo | CeTimeout | CeDeserializationIo | CeTlsIo tls_io_kind | CeStateIo | CeAwaitPingResp
  | CeConnectionAborted | CeCollisionTimeout | CeServerDisconnect disconnect_code | CeTlsOther
  | CeDisconnectTimeout | CeOther

fun connection_failure :: "connection_error \<Rightarrow> mqtt_error \<times> bool" where
  "connection_failure CeSessionStore = (MqSessionStore, False)"
| "connection_failure CeSessionRestore = (MqSessionState, False)"
| "connection_failure CeSessionStateMismatch = (MqSessionState, False)"
| "connection_failure (CeConnectionRefused c) = connack_failure c"
| "connection_failure CeIo = (MqConnectionLost, True)"
| "connection_failure CeTimeout = (MqConnectionLost, True)"
| "connection_failure CeDeserializationIo = (MqConnectionLost, True)"
| "connection_failure (CeTlsIo k) =
     (if k = IoOtherKind then (MqUnavailable, False) else (MqConnectionLost, True))"
| "connection_failure CeStateIo = (MqConnectionLost, True)"
| "connection_failure CeAwaitPingResp = (MqConnectionLost, True)"
| "connection_failure CeConnectionAborted = (MqConnectionLost, True)"
| "connection_failure CeCollisionTimeout = (MqConnectionLost, True)"
| "connection_failure (CeServerDisconnect c) =
     (case c of DcNotAuthorized \<Rightarrow> (MqAuthentication, False) | DcOther \<Rightarrow> (MqProtocol, False)
      | _ \<Rightarrow> (MqConnectionLost, True))"
| "connection_failure CeTlsOther = (MqUnavailable, False)"
| "connection_failure CeDisconnectTimeout = (MqProtocol, False)"
| "connection_failure CeOther = (MqProtocol, False)"

text \<open>The polls of the event loop until the timeout of the shutdown, which ends the list.\<close>

fun shutdown_polls :: "(connection_error + mqtt_event) list \<Rightarrow> mqtt_error + unit" where
  "shutdown_polls [] = Err MqDeadlineElapsed"
| "shutdown_polls (Inr OutDisconnect # ps) = Ok ()"
| "shutdown_polls (Inr _ # ps) = shutdown_polls ps"
| "shutdown_polls (Inl CeDisconnectTimeout # ps) = Err MqDeadlineElapsed"
| "shutdown_polls (Inl e # ps) = Err (fst (connection_failure e))"

definition mqtt_shutdown :: "bool \<Rightarrow> (connection_error + mqtt_event) list \<Rightarrow> mqtt_error + unit" where
  "mqtt_shutdown disconnect_ok polls =
     (if disconnect_ok then shutdown_polls polls else Err MqUnavailable)"

subsection \<open>The driver task\<close>

text \<open>
  The inputs: the check at the head of the loop, the branches of the two \<^verbatim>\<open>select!\<close> blocks, and the
  acts of other tasks on the shared state, which may happen in every phase: a dropped settlement
  or stream, a dropped receiver or resource, the start of a shutdown, the receiver taking a
  delivery. Aborting the task drops the driver.
\<close>

datatype mqtt_input =
  HeadCheck
  | BrCancelled
  | BrWake
  | BrSettlementDue instant
  | BrEvent mqtt_turn mqtt_event suback_result
  | BrEventError connection_error
  | BrCommand mqtt_turn mqtt_command bool "(connection_error + mqtt_event) list"
  | BrChannelClosed
  | BackoffItem "duration option"
  | BrBackoffElapsed
  | ActAbandon u64
  | ActClose
  | ActClosing
  | ActTake
  | ActAbort

text \<open>One turn of \<open>MqttReceiver::next\<close>: a delivery of a retired generation is dropped.\<close>

definition receiver_take :: "mqtt_driver \<Rightarrow> mqtt_delivery option \<times> mqtt_driver" where
  "receiver_take d =
     (case dv_deliveries d of
        [] \<Rightarrow> (None, d)
      | x # xs \<Rightarrow>
          let d' = d\<lparr>dv_deliveries := xs\<rparr> in
          if md_generation x = dv_generation d then (Some x, d')
          else (None, shared_abandon (md_generation x) d'))"

definition run_retire :: "mqtt_driver \<Rightarrow> mqtt_effect list \<times> mqtt_driver" where
  "run_retire d =
     (let (es, d1) = mq_retire d in
      (es @ [Cleaned], (mq_reconnecting MqSettlementUnknown d1)\<lparr>dv_phase := AtHead\<rparr>))"

definition run_event ::
  "mqtt_turn \<Rightarrow> mqtt_event \<Rightarrow> suback_result \<Rightarrow> mqtt_driver \<Rightarrow> mqtt_effect list \<times> mqtt_driver" where
  "run_event t ev res d =
     (let (r, es, d1) = mq_event t ev d;
          (r', d2) = (case r of Inl e \<Rightarrow> (Err e, d1) | Inr _ \<Rightarrow> check_subscription res d1) in
      case r' of
        Inr _ \<Rightarrow> (es, d2\<lparr>dv_phase := AtHead\<rparr>)
      | Inl e \<Rightarrow>
          if e = MqBrokerBusy then
            (let (es', d3) = mq_retire d2 in
             (es @ es' @ [Cleaned], (mq_reconnecting e d3)\<lparr>dv_phase := BackoffDue\<rparr>))
          else (let (es', d3) = driver_drop (mq_fail e d2) in (es @ es', d3)))"

definition run_event_error :: "connection_error \<Rightarrow> mqtt_driver \<Rightarrow> mqtt_effect list \<times> mqtt_driver" where
  "run_event_error err d =
     (let (es, d1) = mq_retire d; (cause, retryable) = connection_failure err in
      if \<not> retryable then (let (es', d2) = driver_drop (mq_fail cause d1) in (es @ es', d2))
      else (es, (mq_reconnecting cause d1)\<lparr>dv_phase := BackoffDue\<rparr>))"

definition run_shutdown ::
  "request_name \<Rightarrow> mqtt_error + unit \<Rightarrow> mqtt_driver \<Rightarrow> mqtt_effect list \<times> mqtt_driver" where
  "run_shutdown r result d =
     (let (es, d1) = mq_retire d;
          d2 = (case result of Inl e \<Rightarrow> mq_fail e d1 | Inr _ \<Rightarrow> d1);
          (es', d3) = driver_drop d2 in
      (es @ [AnsweredShutdown r result] @ es', d3))"

definition run_command ::
  "driver_phase \<Rightarrow> mqtt_turn \<Rightarrow> mqtt_command \<Rightarrow> bool \<Rightarrow> (connection_error + mqtt_event) list \<Rightarrow> mqtt_driver
     \<Rightarrow> mqtt_effect list \<times> mqtt_driver" where
  "run_command back t cmd disconnect_ok polls d =
     (case handle_command t cmd d of
        (None, es, d') \<Rightarrow> (es, d'\<lparr>dv_phase := back\<rparr>)
      | (Some (dl, r), es, d') \<Rightarrow>
          let (es', d'') = run_shutdown r (mqtt_shutdown disconnect_ok polls) d' in (es @ es', d''))"

definition retire_due :: "mqtt_driver \<Rightarrow> bool" where
  "retire_due d \<longleftrightarrow> dv_retire d \<ge> dv_generation d"

text \<open>Both \<^verbatim>\<open>select!\<close> blocks are biased: once cancelled, no other branch is taken.\<close>

definition select_branch :: "mqtt_input \<Rightarrow> mqtt_driver \<Rightarrow> mqtt_effect list \<times> mqtt_driver" where
  "select_branch i d =
     (if dv_cancelled d then (if i = BrCancelled then driver_drop d else ([], d))
      else case i of
        BrWake \<Rightarrow> if retire_due d then run_retire d else ([], d\<lparr>dv_phase := AtHead\<rparr>)
      | BrSettlementDue now \<Rightarrow> if settlement_wait now d \<noteq> None then run_retire d else ([], d)
      | BrEvent t ev res \<Rightarrow> run_event t ev res d
      | BrEventError err \<Rightarrow> run_event_error err d
      | BrCommand t cmd ok polls \<Rightarrow> run_command AtHead t cmd ok polls d
      | BrChannelClosed \<Rightarrow> driver_drop d
      | _ \<Rightarrow> ([], d))"

definition backoff_branch :: "mqtt_input \<Rightarrow> mqtt_driver \<Rightarrow> mqtt_effect list \<times> mqtt_driver" where
  "backoff_branch i d =
     (if dv_cancelled d then (if i = BrCancelled then driver_drop d else ([], d))
      else case i of
        BrBackoffElapsed \<Rightarrow> ([], d\<lparr>dv_phase := AtHead\<rparr>)
      | BrCommand t cmd ok polls \<Rightarrow> run_command BackingOff t cmd ok polls d
      | BrChannelClosed \<Rightarrow> driver_drop d
      | _ \<Rightarrow> ([], d))"

definition shared_act :: "mqtt_input \<Rightarrow> mqtt_driver \<Rightarrow> mqtt_driver" where
  "shared_act i d =
     (case i of
        ActAbandon g \<Rightarrow> shared_abandon g d
      | ActClose \<Rightarrow> d\<lparr>dv_closing := True, dv_cancelled := True\<rparr>
      | ActClosing \<Rightarrow> d\<lparr>dv_closing := True\<rparr>
      | ActTake \<Rightarrow> snd (receiver_take d)
      | _ \<Rightarrow> d)"

definition is_shared_act :: "mqtt_input \<Rightarrow> bool" where
  "is_shared_act i \<longleftrightarrow> (case i of ActAbandon _ \<Rightarrow> True | ActClose \<Rightarrow> True | ActClosing \<Rightarrow> True | ActTake \<Rightarrow> True | _ \<Rightarrow> False)"

definition driver_step :: "mqtt_input \<Rightarrow> mqtt_driver \<Rightarrow> mqtt_effect list \<times> mqtt_driver" where
  "driver_step i d =
     (if is_shared_act i then ([], shared_act i d)
      else case dv_phase d of
          Finished \<Rightarrow> ([], d)
        | ph \<Rightarrow>
            if i = ActAbort then driver_drop d
            else case ph of
                AtHead \<Rightarrow>
                  if i = HeadCheck
                  then (if retire_due d then run_retire d else ([], d\<lparr>dv_phase := Selecting\<rparr>))
                  else ([], d)
              | Selecting \<Rightarrow> select_branch i d
              | BackoffDue \<Rightarrow>
                  (case i of
                     BackoffItem item \<Rightarrow> ([Slept (reconnect_next (dv_reconnect d) item)], d\<lparr>dv_phase := BackingOff\<rparr>)
                   | _ \<Rightarrow> ([], d))
              | BackingOff \<Rightarrow> backoff_branch i d)"

fun driver_run :: "mqtt_input list \<Rightarrow> mqtt_driver \<Rightarrow> mqtt_effect list \<times> mqtt_driver" where
  "driver_run [] d = ([], d)"
| "driver_run (i # is) d =
     (let (es, d') = driver_step i d; (es', d'') = driver_run is d' in (es @ es', d''))"


subsection \<open>Publisher handle\<close>

datatype reserve_result = Reserved | ReserveClosed | ReserveTimedOut

datatype driver_reply = ReplyNotice publish_notice | ReplyOutcome "unit publish_outcome" | ReplyDropped

text \<open>
  What one publication observes, in order: the preflight size check, the clock, the closing flag,
  the reservation in the command channel, the flag and the clock again, and after the command was
  sent the reply (none when the timeout fired first) and the clock.
\<close>

record publish_obs =
  po_cutoff :: deadline
  po_valid_size :: bool
  po_now1 :: instant
  po_closing1 :: bool
  po_reserve :: reserve_result
  po_closing2 :: bool
  po_now2 :: instant
  po_reply :: "driver_reply option"
  po_now3 :: instant

fun reply_outcome :: "driver_reply \<Rightarrow> unit publish_outcome" where
  "reply_outcome (ReplyNotice n) = mq_notice n"
| "reply_outcome (ReplyOutcome out) = out"
| "reply_outcome ReplyDropped = mq_ambiguous TransportUnavailable"

text \<open>The outcome, and whether the command was sent to the driver.\<close>

definition publish_until :: "publish_obs \<Rightarrow> unit publish_outcome \<times> bool" where
  "publish_until p =
     (if \<not> po_valid_size p then (mq_definite PfPermanent StageEncode InvalidMessage, False)
      else if remaining_or_zero (po_cutoff p) (po_now1 p) = 0
      then (mq_definite PfTransient StageAdmission PubDeadlineElapsed, False)
      else if po_closing1 p then (mq_definite PfTransient StageAdmission TransportUnavailable, False)
      else case po_reserve p of
          ReserveClosed \<Rightarrow> (mq_definite PfTransient StageAdmission TransportUnavailable, False)
        | ReserveTimedOut \<Rightarrow> (mq_definite PfTransient StageAdmission PubDeadlineElapsed, False)
        | Reserved \<Rightarrow>
            if po_closing2 p then (mq_definite PfTransient StageAdmission TransportUnavailable, False)
            else if remaining_or_zero (po_cutoff p) (po_now2 p) = 0
            then (mq_definite PfTransient StageAdmission PubDeadlineElapsed, False)
            else ((case po_reply p of
                None \<Rightarrow> mq_ambiguous PubDeadlineElapsed
              | Some reply \<Rightarrow>
                  if remaining_or_zero (po_cutoff p) (po_now3 p) \<noteq> 0 then reply_outcome reply
                  else mq_ambiguous PubDeadlineElapsed), True))"

definition mqtt_publish_now :: "instant \<Rightarrow> duration \<Rightarrow> publish_obs \<Rightarrow> unit publish_outcome \<times> bool" where
  "mqtt_publish_now now timeout p =
     (case from_timeout now timeout of
        Inl _ \<Rightarrow> (mq_definite PfPermanent StageAdmission InvalidMessage, False)
      | Inr cutoff \<Rightarrow> publish_until (p\<lparr>po_cutoff := cutoff\<rparr>))"

text \<open>\<open>wait_ready\<close> over the states the watch delivers; the list ends with the timeout.\<close>

fun wait_ready :: "connection_state list \<Rightarrow> mqtt_error + connection_state" where
  "wait_ready [] = Err MqDeadlineElapsed"
| "wait_ready (st # sts) =
     (case st of
        ConnReady g p \<Rightarrow> Ok (ConnReady g p)
      | ConnFailed e \<Rightarrow> Err e
      | ConnClosed \<Rightarrow> Err MqClosed
      | _ \<Rightarrow> wait_ready sts)"

subsection \<open>Settlement handle\<close>

record mqtt_settlement =
  st_generation :: u64
  st_pkid :: u16

datatype settle_reply = SettleSendFailed | SettleDropped | SettleTimedOut | SettleReply "mqtt_error + unit"

record settle_obs =
  so_shared :: bool
  so_generation :: u64
  so_closing :: bool
  so_now :: instant
  so_reply :: settle_reply

text \<open>The result, and whether dropping the settlement afterwards abandons its generation.\<close>

definition settle_result :: "mqtt_settlement \<Rightarrow> duration \<Rightarrow> settle_obs \<Rightarrow> mqtt_error + unit" where
  "settle_result st budget p =
     (if \<not> so_shared p then Err MqClosed
      else if so_generation p \<noteq> st_generation st then Err MqStaleDelivery
      else if so_closing p then Err MqClosed
      else case from_timeout (so_now p) budget of
          Inl _ \<Rightarrow> Err MqInvalidConfig
        | Inr _ \<Rightarrow>
            (case so_reply p of
               SettleSendFailed \<Rightarrow> Err MqClosed
             | SettleDropped \<Rightarrow> Err MqSettlementUnknown
             | SettleTimedOut \<Rightarrow> Err MqSettlementUnknown
             | SettleReply r \<Rightarrow> r))"

definition settle_decided :: "mqtt_settlement \<Rightarrow> duration \<Rightarrow> settle_obs \<Rightarrow> bool" where
  "settle_decided st budget p \<longleftrightarrow>
     so_shared p \<and> so_generation p = st_generation st \<and> \<not> so_closing p
     \<and> is_ok (from_timeout (so_now p) budget)
     \<and> (case so_reply p of SettleReply r \<Rightarrow> r = Inr () \<or> r = Inl MqStaleDelivery | _ \<Rightarrow> False)"

definition settlement_drop :: "bool \<Rightarrow> mqtt_settlement \<Rightarrow> mqtt_input list" where
  "settlement_drop decided st = (if decided then [] else [ActAbandon (st_generation st)])"

subsection \<open>Transactional settlement and source\<close>

definition mqtt_messaging :: "mqtt_error \<Rightarrow> messaging_error" where
  "mqtt_messaging e =
     (case e of
        MqDeadlineElapsed \<Rightarrow> MDeadlineElapsed
      | MqStaleDelivery \<Rightarrow> MOwnershipLost
      | MqUnavailable \<Rightarrow> MTransient
      | MqConnectionLost \<Rightarrow> MTransient
      | MqBrokerBusy \<Rightarrow> MTransient
      | MqSettlementUnknown \<Rightarrow> MTransient
      | _ \<Rightarrow> MPermanent)"

text \<open>\<open>retire\<close> of the transactional settlement; either way the raw authority is dropped.\<close>

definition tx_retire :: "mqtt_settlement \<Rightarrow> duration \<Rightarrow> instant \<Rightarrow> settle_obs \<Rightarrow> messaging_error + unit" where
  "tx_retire st timeout now' p =
     (if \<not> so_shared p then Err (mqtt_messaging MqClosed)
      else case from_timeout (so_now p) timeout of
          Inl _ \<Rightarrow> Err (mqtt_messaging MqInvalidConfig)
        | Inr cutoff \<Rightarrow>
            if remaining_or_zero cutoff now' = 0 then Err (mqtt_messaging MqDeadlineElapsed)
            else if so_generation p \<noteq> st_generation st then Err (mqtt_messaging MqStaleDelivery)
            else if so_closing p then Err (mqtt_messaging MqClosed)
            else Ok ())"

definition tx_ack_reason :: "settlement_kind \<Rightarrow> puback_reason option" where
  "tx_ack_reason k =
     (case k of Acknowledge \<Rightarrow> Some AckSuccess | Reject \<Rightarrow> Some (reject_wire RejUnspecified) | Requeue \<Rightarrow> None)"

definition tx_settle ::
  "settlement_kind \<Rightarrow> mqtt_settlement \<Rightarrow> duration \<Rightarrow> instant \<Rightarrow> settle_obs \<Rightarrow> messaging_error + unit" where
  "tx_settle k st timeout now' p =
     (case tx_ack_reason k of
        Some _ \<Rightarrow> map_err mqtt_messaging (settle_result st timeout p)
      | None \<Rightarrow> tx_retire st timeout now' p)"

text \<open>
  \<open>StreamLease::ready\<close> over the states the watch delivers: a stream whose predecessor retired a
  generation waits for a newer one. The list ends when the watch does.
\<close>

fun lease_ready :: "u64 option \<Rightarrow> connection_state list \<Rightarrow> messaging_error + unit" where
  "lease_ready None sts = Ok ()"
| "lease_ready (Some retired) [] = Err (mqtt_messaging MqClosed)"
| "lease_ready (Some retired) (st # sts) =
     (case st of
        ConnFailed _ \<Rightarrow> Err MPermanent
      | ConnClosed \<Rightarrow> Err (mqtt_messaging MqClosed)
      | ConnReady g _ \<Rightarrow> if g > retired then Ok () else lease_ready (Some retired) sts
      | _ \<Rightarrow> lease_ready (Some retired) sts)"

text \<open>Dropping a stream abandons the current generation and remembers it.\<close>

definition stream_lease_drop :: "mqtt_driver \<Rightarrow> u64 option \<times> mqtt_driver" where
  "stream_lease_drop d = (Some (dv_generation d), shared_abandon (dv_generation d) d)"

section \<open>Theorems\<close>

subsection \<open>Counting effects\<close>

definition acks :: "u64 \<Rightarrow> u16 \<Rightarrow> mqtt_effect list \<Rightarrow> nat" where
  "acks g p es = length (filter (\<lambda>e. case e of AckSubmitted g' p' _ _ \<Rightarrow> g' = g \<and> p' = p | _ \<Rightarrow> False) es)"

definition queued :: "u64 \<Rightarrow> u16 \<Rightarrow> mqtt_effect list \<Rightarrow> nat" where
  "queued g p es = count_list es (DeliveryQueued g p)"

definition answered :: "mqtt_effect list \<Rightarrow> request_name list" where
  "answered es = concat (map (\<lambda>e. case e of Answered r _ \<Rightarrow> [r] | _ \<Rightarrow> []) es)"

text \<open>The settlement requests that an input hands to the driver.\<close>

definition asked :: "mqtt_input \<Rightarrow> mqtt_driver \<Rightarrow> request_name list" where
  "asked i d =
     (case i of
        BrCommand t (CmdSettle _ _ _ _ r) _ _ \<Rightarrow> if dv_phase d \<in> {Selecting, BackingOff} \<and> \<not> dv_cancelled d then [r] else []
      | _ \<Rightarrow> [])"

fun asked_run :: "mqtt_input list \<Rightarrow> mqtt_driver \<Rightarrow> request_name list" where
  "asked_run [] d = []"
| "asked_run (i # is) d = asked i d @ asked_run is (snd (driver_step i d))"

lemma count_simps [simp]:
  "acks g p [] = 0" "queued g p [] = 0" "answered [] = []"
  "acks g p (xs @ ys) = acks g p xs + acks g p ys" "queued g p (xs @ ys) = queued g p xs + queued g p ys"
  "answered (xs @ ys) = answered xs @ answered ys"
  by (simp_all add: acks_def queued_def answered_def)


subsection \<open>The settlement ledger\<close>

text \<open>
  The part of the driver that decides about settlements: the connection generation and the
  outstanding deliveries of that generation. Every step of the driver is a sequence of these
  ledger steps.
\<close>

type_synonym ledger = "u64 \<times> (u16 \<times> delivery_state) list"

definition silent :: "mqtt_effect \<Rightarrow> bool" where
  "silent e = (case e of Answered _ _ \<Rightarrow> False | AckSubmitted _ _ _ _ \<Rightarrow> False | DeliveryQueued _ _ \<Rightarrow> False
     | Retired _ \<Rightarrow> False | _ \<Rightarrow> True)"

inductive ledger_step :: "nat \<Rightarrow> ledger \<Rightarrow> request_name list \<Rightarrow> mqtt_effect list \<Rightarrow> ledger \<Rightarrow> bool" for n where
  quiet: "list_all silent es \<Longrightarrow> ledger_step n s [] es s"
| retire: "ledger_step n (g, out) []
     (Retired g # map (\<lambda>r. Answered r (Inl MqSettlementUnknown)) (settling_requests out)) (g', [])"
| queue: "map_of out p = None \<Longrightarrow> length out < n \<Longrightarrow>
     ledger_step n (g, out) [] [DeliveryQueued g p] (g, AList.update p DsDelivered out)"
| ack: "map_of out p = Some DsDelivered \<Longrightarrow>
     ledger_step n (g, out) [r] [AckSubmitted g p reason r] (g, AList.update p (DsSettling dl r) out)"
| refuse: "ledger_step n s [r] [Answered r (Inl e)] s"
| finish: "map_of out p = Some (DsSettling dl r) \<Longrightarrow>
     ledger_step n (g, out) [] [Answered r res] (g, AList.delete p out)"
| forget: "map_of out p = None \<or> map_of out p = Some DsDelivered \<Longrightarrow>
     ledger_step n (g, out) [] [] (g, AList.delete p out)"

inductive ledger_path :: "nat \<Rightarrow> ledger \<Rightarrow> request_name list \<Rightarrow> mqtt_effect list \<Rightarrow> ledger \<Rightarrow> bool" for n where
  stay: "ledger_path n s [] [] s"
| more: "ledger_step n s as es s' \<Longrightarrow> ledger_path n s' as' es' s'' \<Longrightarrow> ledger_path n s (as @ as') (es @ es') s''"

lemma ledger_path_step: "ledger_step n s as es s' \<Longrightarrow> ledger_path n s as es s'"
  using ledger_path.more [OF _ ledger_path.stay] by fastforce

lemma ledger_path_trans:
  "ledger_path n s as es s' \<Longrightarrow> ledger_path n s' as' es' s'' \<Longrightarrow> ledger_path n s (as @ as') (es @ es') s''"
  by (induction rule: ledger_path.induct) (auto intro: ledger_path.more)

text \<open>The accounting of a ledger after the requests \<open>as\<close> and the effects \<open>es\<close>.\<close>

definition acked :: "request_name \<Rightarrow> mqtt_effect list \<Rightarrow> bool" where
  "acked r es \<longleftrightarrow> (\<exists>xs g p reason ys. es = xs @ AckSubmitted g p reason r # ys \<and>
     list_all (\<lambda>e. \<forall>g'. e \<noteq> Retired g') ys)"

definition answers_acked :: "mqtt_effect list \<Rightarrow> bool" where
  "answers_acked es \<longleftrightarrow> (\<forall>k < length es. \<forall>r. es ! k = Answered r (Inr ()) \<longrightarrow> acked r (take k es))"

definition open_slot :: "ledger \<Rightarrow> u64 \<Rightarrow> u16 \<Rightarrow> nat" where
  "open_slot s g p = (if g = fst s \<and> map_of (snd s) p = Some DsDelivered then 1 else 0)"

definition ledger_ok :: "nat \<Rightarrow> request_name list \<Rightarrow> mqtt_effect list \<Rightarrow> ledger \<Rightarrow> bool" where
  "ledger_ok n as es s \<longleftrightarrow>
     distinct (map fst (snd s)) \<and> length (snd s) \<le> n \<and>
     (\<forall>g p. acks g p es + open_slot s g p \<le> queued g p es) \<and>
     (\<forall>p dl r. map_of (snd s) p = Some (DsSettling dl r) \<longrightarrow> acked r es) \<and>
     answers_acked es \<and> mset as = mset (answered es) + mset (settling_requests (snd s))"

lemma acked_append: "acked r es \<Longrightarrow> list_all (\<lambda>e. \<forall>g'. e \<noteq> Retired g') es' \<Longrightarrow> acked r (es @ es')"
  unfolding acked_def by fastforce

lemma acked_snoc: "acked r (es @ [AckSubmitted g p reason r])"
  unfolding acked_def by (intro exI [of _ es] exI [of _ "[]"] exI) simp

lemma answers_acked_append:
  assumes "answers_acked es" and "\<And>k r. k < length es' \<Longrightarrow> es' ! k = Answered r (Inr ()) \<Longrightarrow> acked r (es @ take k es')"
  shows "answers_acked (es @ es')"
  using assms unfolding answers_acked_def by (auto simp: nth_append)

lemma settling_requests_simps [simp]:
  "settling_requests [] = []"
  "settling_requests ((p, DsDelivered) # xs) = settling_requests xs"
  "settling_requests ((p, DsSettling dl r) # xs) = r # settling_requests xs"
  by (simp_all add: settling_requests_def)

lemma settling_queue: "map_of out p = None \<Longrightarrow> settling_requests (AList.update p DsDelivered out) = settling_requests out"
proof (induction out)
  case (Cons x out)
  then show ?case by (cases x; cases "snd x") (auto split: if_splits)
qed simp

lemma settling_ack:
  "map_of out p = Some DsDelivered \<Longrightarrow>
     mset (settling_requests (AList.update p (DsSettling dl r) out)) = add_mset r (mset (settling_requests out))"
proof (induction out)
  case (Cons x out)
  then show ?case by (cases x; cases "snd x") (auto split: if_splits)
qed simp

lemma settling_delete_absent: "p \<notin> fst ` set out \<Longrightarrow> AList.delete p out = out"
  by (induction out) (auto simp: AList.delete_eq)

lemma settling_finish:
  "distinct (map fst out) \<Longrightarrow> map_of out p = Some (DsSettling dl r) \<Longrightarrow>
     mset (settling_requests out) = add_mset r (mset (settling_requests (AList.delete p out)))"
proof (induction out)
  case (Cons x out)
  then show ?case
    by (cases x; cases "snd x") (auto simp: settling_delete_absent split: if_splits)
qed simp

lemma settling_forget:
  "distinct (map fst out) \<Longrightarrow> map_of out p = None \<or> map_of out p = Some DsDelivered \<Longrightarrow>
     settling_requests (AList.delete p out) = settling_requests out"
proof (induction out)
  case (Cons x out)
  then show ?case
    by (cases x; cases "snd x") (auto simp: settling_delete_absent split: if_splits)
qed simp


lemma silent_counts:
  assumes "list_all silent es"
  shows "acks g p es = 0" "queued g p es = 0" "answered es = []" "list_all (\<lambda>e. \<forall>g'. e \<noteq> Retired g') es"
    "k < length es \<Longrightarrow> es ! k \<noteq> Answered r res"
proof -
  have s: "\<And>e. e \<in> set es \<Longrightarrow> silent e" using assms by (simp add: list_all_iff)
  show "acks g p es = 0" using s by (force simp: acks_def filter_empty_conv silent_def split: mqtt_effect.splits)
  show "queued g p es = 0" using s by (force simp: queued_def count_list_0_iff silent_def)
  show "answered es = []" using s by (force simp: answered_def silent_def split: mqtt_effect.splits)
  show "list_all (\<lambda>e. \<forall>g'. e \<noteq> Retired g') es" using s by (force simp: list_all_iff silent_def)
  show "es ! k \<noteq> Answered r res" if "k < length es" using s [OF nth_mem [OF that]] by (auto simp: silent_def)
qed

lemma retire_counts:
  "acks g p (Retired g' # map (\<lambda>r. Answered r (Inl e)) rs) = 0"
  "queued g p (Retired g' # map (\<lambda>r. Answered r (Inl e)) rs) = 0"
  "answered (Retired g' # map (\<lambda>r. Answered r (Inl e)) rs) = rs"
  by (induction rs) (auto simp: acks_def queued_def answered_def)

lemma single_counts:
  "acks g p [AckSubmitted g' p' reason r] = (if g' = g \<and> p' = p then 1 else 0)"
  "queued g p [DeliveryQueued g' p'] = (if g' = g \<and> p' = p then 1 else 0)"
  "acks g p [DeliveryQueued g' p'] = 0" "queued g p [AckSubmitted g' p' reason r] = 0"
  "acks g p [Answered r res] = 0" "queued g p [Answered r res] = 0"
  "answered [Answered r res] = [r]" "answered [AckSubmitted g' p' reason r] = []" "answered [DeliveryQueued g' p'] = []"
  by (simp_all add: acks_def queued_def answered_def)

text \<open>Accounts after one more effect that is not a retirement.\<close>

lemma answers_acked_snoc:
  "answers_acked es \<Longrightarrow> (\<And>r. e = Answered r (Inr ()) \<Longrightarrow> acked r es) \<Longrightarrow> answers_acked (es @ [e])"
  by (rule answers_acked_append) auto

lemma ledger_ok_step:
  assumes "ledger_step n s as' es' s'" and ok: "ledger_ok n as es s"
  shows "ledger_ok n (as @ as') (es @ es') s'"
proof -
  note L = ok [unfolded ledger_ok_def]
  have dis: "distinct (map fst (snd s))" and len: "length (snd s) \<le> n" and ans: "answers_acked es"
    and bal: "mset as = mset (answered es) + mset (settling_requests (snd s))"
    and slots: "\<And>g p. acks g p es + open_slot s g p \<le> queued g p es"
    and set: "\<And>p dl r. map_of (snd s) p = Some (DsSettling dl r) \<Longrightarrow> acked r es"
    using L by blast+
  show ?thesis
    using assms(1)
  proof (cases rule: ledger_step.cases)
    case quiet
    note c = silent_counts [OF quiet(3)]
    show ?thesis unfolding ledger_ok_def quiet(1,2)
      using dis len slots bal set ans c by (auto intro: acked_append answers_acked_append)
  next
    case (retire g out g')
    have "answers_acked (es @ es')"
      using ans unfolding retire(3)
      by (intro answers_acked_append) (auto simp: nth_Cons split: nat.splits)
    moreover have "acks g p es \<le> queued g p es" for g p using slots [of g p] by simp
    ultimately show ?thesis
      using bal by (simp add: ledger_ok_def retire retire_counts open_slot_def)
  next
    case (queue out p g)
    have "length (AList.update p DsDelivered out) = Suc (length out)"
      using queue(5) by (induction out) (auto split: if_splits)
    moreover have "answers_acked (es @ [DeliveryQueued g p])"
      using ans by (intro answers_acked_snoc) simp_all
    moreover have "acked r (es @ [DeliveryQueued g p])"
      if "map_of (AList.update p DsDelivered out) q = Some (DsSettling dl r)" for q dl r
      using set [of q dl r] that by (intro acked_append) (auto simp: queue(1) update_conv' split: if_splits)
    moreover have "acks g' q (es @ [DeliveryQueued g p]) + open_slot (g, AList.update p DsDelivered out) g' q
        \<le> queued g' q (es @ [DeliveryQueued g p])" for g' q
      using slots [of g' q] queue(5) by (auto simp: queue(1) open_slot_def single_counts update_conv' split: if_splits)
    ultimately show ?thesis
      using bal dis queue(5,6) by (simp add: ledger_ok_def queue(1-4) single_counts settling_queue distinct_update)
  next
    case (ack out p g r reason dl)
    let ?out = "AList.update p (DsSettling dl r) out"
    have "length ?out = length out" using ack(5) by (induction out) (auto split: if_splits)
    moreover have "answers_acked (es @ [AckSubmitted g p reason r])"
      using ans by (intro answers_acked_snoc) simp_all
    moreover have "acked r' (es @ [AckSubmitted g p reason r])" if "map_of ?out q = Some (DsSettling dl' r')" for q dl' r'
      using set [of q dl' r'] that acked_snoc
      by (cases "q = p") (auto simp: ack(1) update_conv' intro: acked_append)
    moreover have "acks g' q (es @ [AckSubmitted g p reason r]) + open_slot (g, ?out) g' q
        \<le> queued g' q (es @ [AckSubmitted g p reason r])" for g' q
      using slots [of g' q] ack(5) by (auto simp: ack(1) open_slot_def single_counts update_conv' split: if_splits)
    ultimately show ?thesis
      using bal dis len ack(5) by (simp add: ledger_ok_def ack(1-4) single_counts settling_ack distinct_update)
  next
    case (refuse r e)
    show ?thesis unfolding ledger_ok_def refuse
      using dis len slots bal set ans
      by (auto simp: single_counts intro: acked_append answers_acked_snoc)
  next
    case (finish out p dl r g res)
    have "acked r es" by (rule set [of p dl]) (simp add: finish)
    then have "answers_acked (es @ [Answered r res])" using ans by (auto intro: answers_acked_snoc)
    moreover have "acked r' (es @ [Answered r res])" if "map_of (AList.delete p out) q = Some (DsSettling dl' r')" for q dl' r'
      using set [of q dl' r'] that by (intro acked_append) (auto simp: finish(1) delete_conv' split: if_splits)
    moreover have "open_slot (g, AList.delete p out) g' q \<le> open_slot s g' q" for g' q
      by (auto simp: open_slot_def finish(1) delete_conv')
    then have "acks g' q es + open_slot (g, AList.delete p out) g' q \<le> queued g' q es" for g' q
      using slots [of g' q] le_trans add_left_mono by meson
    ultimately show ?thesis
      using bal dis len finish(5) le_trans [OF length_delete_le]
      by (simp add: ledger_ok_def finish(1-4) single_counts settling_finish distinct_delete)
  next
    case (forget out p g)
    have "open_slot (g, AList.delete p out) g' q \<le> open_slot s g' q" for g' q
      by (auto simp: open_slot_def forget(1) delete_conv')
    then have "acks g' q es + open_slot (g, AList.delete p out) g' q \<le> queued g' q es" for g' q
      using slots [of g' q] le_trans add_left_mono by meson
    then show ?thesis
      using bal dis len set ans forget(5) le_trans [OF length_delete_le]
      by (simp add: ledger_ok_def forget(1-4) settling_forget distinct_delete delete_conv')
  qed
qed

lemma ledger_ok_path: "ledger_path n s as' es' s' \<Longrightarrow> ledger_ok n as es s \<Longrightarrow> ledger_ok n (as @ as') (es @ es') s'"
proof (induction arbitrary: as es rule: ledger_path.induct)
  case (more s as1 es1 s1 as2 es2 s2)
  from more.IH [OF ledger_ok_step [OF more.hyps(1) more.prems]] show ?case by simp
qed simp


subsection \<open>The driver follows the ledger\<close>

definition view :: "mqtt_driver \<Rightarrow> ledger" where
  "view d = (dv_generation d, dv_outstanding d)"

lemma shared_abandon_keeps [simp]:
  "dv_generation (shared_abandon g d) = dv_generation d" "dv_outstanding (shared_abandon g d) = dv_outstanding d"
  "dv_max_deliveries (shared_abandon g d) = dv_max_deliveries d" "dv_phase (shared_abandon g d) = dv_phase d"
  "dv_cancelled (shared_abandon g d) = dv_cancelled d"
  by (simp_all add: shared_abandon_def)

lemma clear_deliveries_keeps [simp]:
  "dv_generation (clear_deliveries d) = dv_generation d" "dv_outstanding (clear_deliveries d) = dv_outstanding d"
  "dv_max_deliveries (clear_deliveries d) = dv_max_deliveries d"
proof -
  have "dv_generation (fold (\<lambda>x. shared_abandon (md_generation x)) xs d) = dv_generation d \<and>
      dv_outstanding (fold (\<lambda>x. shared_abandon (md_generation x)) xs d) = dv_outstanding d \<and>
      dv_max_deliveries (fold (\<lambda>x. shared_abandon (md_generation x)) xs d) = dv_max_deliveries d" for xs :: "mqtt_delivery list" and d
    by (induction xs arbitrary: d) simp_all
  then show "dv_generation (clear_deliveries d) = dv_generation d" "dv_outstanding (clear_deliveries d) = dv_outstanding d"
    "dv_max_deliveries (clear_deliveries d) = dv_max_deliveries d"
    by (simp_all add: clear_deliveries_def)
qed

text \<open>\<open>follows d as es d'\<close>: from \<open>d\<close> to \<open>d'\<close> the driver made ledger steps within its capacity.\<close>

definition follows :: "mqtt_driver \<Rightarrow> request_name list \<Rightarrow> mqtt_effect list \<Rightarrow> mqtt_driver \<Rightarrow> bool" where
  "follows d as es d' \<longleftrightarrow>
     ledger_path (dv_max_deliveries d) (view d) as es (view d') \<and> dv_max_deliveries d' = dv_max_deliveries d"

lemma follows_trans: "follows d as es d1 \<Longrightarrow> follows d1 as' es' d' \<Longrightarrow> follows d (as @ as') (es @ es') d'"
  by (auto simp: follows_def intro: ledger_path_trans)

lemma follows_quiet:
  "view d' = view d \<Longrightarrow> dv_max_deliveries d' = dv_max_deliveries d \<Longrightarrow> list_all silent es \<Longrightarrow> follows d [] es d'"
  by (auto simp: follows_def intro: ledger_path_step ledger_step.quiet)

lemma follows_step:
  "ledger_step (dv_max_deliveries d) (view d) as es (view d') \<Longrightarrow> dv_max_deliveries d' = dv_max_deliveries d \<Longrightarrow>
     follows d as es d'"
  by (auto simp: follows_def intro: ledger_path_step)

lemma follows_retire: "mq_retire d = (es, d') \<Longrightarrow> follows d [] es d' \<and> dv_outstanding d' = []"
proof -
  assume r: "mq_retire d = (es, d')"
  have "es = Retired (dv_generation d) # map (\<lambda>r. Answered r (Inl MqSettlementUnknown)) (settling_requests (dv_outstanding d))"
    and v: "view d' = (dv_generation d', [])" and m: "dv_max_deliveries d' = dv_max_deliveries d"
    using r by (auto simp: mq_retire_def invalidate_def view_def Let_def split: option.splits)
  then show ?thesis
    using ledger_step.retire by (auto simp: view_def intro!: follows_step)
qed

lemma follows_drop: "driver_drop d = (es, d') \<Longrightarrow> follows d [] es d' \<and> dv_outstanding d' = [] \<and> dv_phase d' = Finished"
proof -
  assume d: "driver_drop d = (es, d')"
  obtain es1 d1 where r: "mq_retire (d\<lparr>dv_closing := True\<rparr>) = (es1, d1)" by (cases "mq_retire (d\<lparr>dv_closing := True\<rparr>)")
  have eq: "es = es1" "view d' = view d1" "dv_max_deliveries d' = dv_max_deliveries d1" "dv_phase d' = Finished"
    using d r by (auto simp: driver_drop_def view_def split: connection_state.splits)
  from follows_retire [OF r] show ?thesis by (simp add: follows_def eq view_def) (use eq(2) in \<open>auto simp: view_def\<close>)
qed

lemma follows_receive: "mq_receive p d = (r, es, d') \<Longrightarrow> follows d [] es d'"
  using ledger_step.queue [of "dv_outstanding d" "mp_pkid p" "dv_max_deliveries d" "dv_generation d"]
  by (auto simp: mq_receive_def view_def intro: follows_quiet follows_step split: if_splits)

lemma follows_event: "mq_event t ev d = (r, es, d') \<Longrightarrow> follows d [] es d'"
proof (cases ev)
  case (OutPubAck pkid)
  moreover assume "mq_event t ev d = (r, es, d')"
  ultimately show ?thesis
    using ledger_step.finish [of "dv_outstanding d" pkid] ledger_step.forget [of "dv_outstanding d" pkid]
    by (auto simp: mq_event_def view_def Let_def intro!: follows_step split: option.splits delivery_state.splits if_splits)
qed (auto simp: mq_event_def mq_ready_def view_def Let_def silent_def
    intro: follows_receive follows_quiet split: if_splits)

lemma follows_check: "check_subscription res d = (r, d') \<Longrightarrow> follows d [] [] d'"
  by (rule follows_quiet)
    (auto simp: check_subscription_def mq_ready_def view_def Let_def split: if_splits suback_result.splits sum.splits)

lemma follows_command:
  assumes "handle_command t cmd d = (s, es, d')"
  shows "follows d (case cmd of CmdSettle _ _ _ _ r \<Rightarrow> [r] | _ \<Rightarrow> []) es d' \<and> dv_phase d' = dv_phase d"
proof (cases cmd)
  case (CmdSettle g pkid reason dl r)
  show ?thesis
  proof (cases "submit_settlement t g pkid dl d")
    case (Inl e)
    then show ?thesis
      using assms CmdSettle by (auto simp: handle_command_def intro!: follows_step ledger_step.refuse)
  next
    case (Inr u)
    then have "g = dv_generation d" "map_of (dv_outstanding d) pkid = Some DsDelivered"
      by (auto simp: submit_settlement_def split: if_splits)
    then show ?thesis
      using assms CmdSettle Inr ledger_step.ack [of "dv_outstanding d" pkid]
      by (auto simp: handle_command_def view_def intro!: follows_step)
  qed
qed (use assms in \<open>auto simp: handle_command_def silent_def intro!: follows_quiet split: if_splits sum.splits\<close>)


lemma follows_keep:
  "follows d as es d' \<Longrightarrow> view d'' = view d' \<Longrightarrow> dv_max_deliveries d'' = dv_max_deliveries d' \<Longrightarrow> follows d as es d''"
  by (simp add: follows_def)

lemma follows_silent_snoc: "follows d as es d' \<Longrightarrow> list_all silent es' \<Longrightarrow> follows d as (es @ es') d'"
  using follows_trans [OF _ follows_quiet [of d' d' es']] by fastforce

lemma view_updates [simp]:
  "view (d\<lparr>dv_phase := ph\<rparr>) = view d" "view (mq_reconnecting e d) = view d" "view (mq_fail e d) = view d"
  "dv_max_deliveries (mq_reconnecting e d) = dv_max_deliveries d" "dv_max_deliveries (mq_fail e d) = dv_max_deliveries d"
  by (simp_all add: view_def mq_reconnecting_def mq_fail_def)

lemma follows_from: "follows d as es d' \<Longrightarrow> view d = view d0 \<Longrightarrow> dv_max_deliveries d = dv_max_deliveries d0 \<Longrightarrow> follows d0 as es d'"
  by (simp add: follows_def)

lemma follows_run_retire: "run_retire d = (es, d') \<Longrightarrow> follows d [] es d' \<and> (dv_phase d' = Finished \<longrightarrow> dv_outstanding d' = [])"
  using follows_retire [of d]
  by (cases "mq_retire d")
    (auto simp: run_retire_def silent_def mq_reconnecting_def view_def intro!: follows_silent_snoc intro: follows_keep)

lemma follows_run_event_error:
  assumes "run_event_error err d = (es, d')"
  shows "follows d [] es d' \<and> (dv_phase d' = Finished \<longrightarrow> dv_outstanding d' = [])"
proof -
  obtain es1 d1 where r: "mq_retire d = (es1, d1)" by (cases "mq_retire d")
  note f = follows_retire [OF r]
  obtain cause retryable where c: "connection_failure err = (cause, retryable)" by (cases "connection_failure err")
  show ?thesis
  proof (cases retryable)
    case True
    then have "es = es1" "d' = (mq_reconnecting cause d1)\<lparr>dv_phase := BackoffDue\<rparr>"
      using assms r c by (auto simp: run_event_error_def)
    then show ?thesis using f by (auto intro: follows_keep)
  next
    case False
    obtain es2 where dr: "driver_drop (mq_fail cause d1) = (es2, d')" and es: "es = es1 @ es2"
      using assms r c False by (auto simp: run_event_error_def split: prod.splits)
    note f2 = follows_drop [OF dr]
    then have "follows d1 [] es2 d'" by (auto intro: follows_from)
    from follows_trans [OF conjunct1 [OF f] this] f2 show ?thesis by (simp add: es)
  qed
qed

lemma follows_run_shutdown:
  assumes "run_shutdown r result d = (es, d')"
  shows "follows d [] es d' \<and> dv_outstanding d' = []"
proof -
  obtain es1 d1 where ret: "mq_retire d = (es1, d1)" by (cases "mq_retire d")
  define d2 where "d2 = (case result of Inl e \<Rightarrow> mq_fail e d1 | Inr _ \<Rightarrow> d1)"
  obtain es2 where dr: "driver_drop d2 = (es2, d')" and es: "es = es1 @ [AnsweredShutdown r result] @ es2"
    using assms ret by (auto simp: run_shutdown_def d2_def split: prod.splits)
  have v: "view d2 = view d1" "dv_max_deliveries d2 = dv_max_deliveries d1"
    by (auto simp: d2_def split: sum.split)
  have "follows d [] (es1 @ [AnsweredShutdown r result]) d1"
    using follows_retire [OF ret] by (intro follows_silent_snoc) (auto simp: silent_def)
  moreover have "follows d1 [] es2 d'" using follows_drop [OF dr] v by (auto intro: follows_from)
  ultimately have "follows d [] es d'" using follows_trans by (fastforce simp: es)
  then show ?thesis using follows_drop [OF dr] by simp
qed

lemma follows_run_event:
  assumes "run_event t ev res d = (es, d')"
  shows "follows d [] es d' \<and> (dv_phase d' = Finished \<longrightarrow> dv_outstanding d' = [])"
proof -
  obtain r es1 d1 where e: "mq_event t ev d = (r, es1, d1)" by (cases "mq_event t ev d")
  obtain r' d2 where c: "(case r of Inl e \<Rightarrow> (Inl e, d1) | Inr _ \<Rightarrow> check_subscription res d1) = (r', d2)"
    by (cases "case r of Inl e \<Rightarrow> (Inl e, d1) | Inr _ \<Rightarrow> check_subscription res d1")
  have f1: "follows d1 [] [] d2"
    using c follows_check [of res d1 r' d2] by (auto intro: follows_quiet split: sum.splits)
  have f2: "follows d [] es1 d2" using follows_trans [OF follows_event [OF e] f1] by simp
  note eq = assms [unfolded run_event_def e c prod.case Let_def]
  show ?thesis
  proof (cases r')
    case (Inr u)
    then show ?thesis using eq f2 by (auto intro: follows_keep)
  next
    case (Inl err)
    show ?thesis
    proof (cases "err = MqBrokerBusy")
      case True
      obtain es2 d3 where ret: "mq_retire d2 = (es2, d3)" by (cases "mq_retire d2")
      have "follows d [] ((es1 @ es2) @ [Cleaned]) d3"
        by (rule follows_silent_snoc)
          (use follows_trans [OF f2 conjunct1 [OF follows_retire [OF ret]]] in \<open>simp_all add: silent_def\<close>)
      then show ?thesis
        using eq Inl True ret follows_retire [OF ret] by (auto simp: view_def mq_reconnecting_def intro: follows_keep)
    next
      case False
      obtain es2 d3 where dr: "driver_drop (mq_fail err d2) = (es2, d3)" by (cases "driver_drop (mq_fail err d2)")
      have "follows d2 [] es2 d3" using follows_drop [OF dr] by (auto intro: follows_from)
      from follows_trans [OF f2 this] show ?thesis using eq Inl False dr follows_drop [OF dr] by auto
    qed
  qed
qed

lemma follows_run_command:
  assumes "run_command back t cmd ok polls d = (es, d')" and "back \<noteq> Finished"
  shows "follows d (case cmd of CmdSettle _ _ _ _ r \<Rightarrow> [r] | _ \<Rightarrow> []) es d' \<and>
    (dv_phase d' = Finished \<longrightarrow> dv_outstanding d' = [])"
proof -
  obtain sd es1 d1 where h: "handle_command t cmd d = (sd, es1, d1)" by (cases "handle_command t cmd d")
  note f = follows_command [OF h]
  show ?thesis
  proof (cases sd)
    case None
    then show ?thesis using assms h f by (auto simp: run_command_def intro: follows_keep)
  next
    case (Some x)
    obtain es2 where s: "run_shutdown (snd x) (mqtt_shutdown ok polls) d1 = (es2, d')" and es: "es = es1 @ es2"
      using assms h Some by (cases x) (auto simp: run_command_def split: prod.splits)
    from follows_trans [OF conjunct1 [OF f] conjunct1 [OF follows_run_shutdown [OF s]]]
    show ?thesis using follows_run_shutdown [OF s] by (simp add: es)
  qed
qed


lemma view_shared_act [simp]:
  "view (shared_act i d) = view d" "dv_max_deliveries (shared_act i d) = dv_max_deliveries d"
  "dv_phase (shared_act i d) = dv_phase d"
  by (auto simp: shared_act_def receiver_take_def view_def Let_def split: mqtt_input.splits list.splits)

lemma follows_select:
  assumes "select_branch i d = (es, d')" and "dv_phase d = Selecting"
  shows "follows d (asked i d) es d' \<and> (dv_phase d' = Finished \<longrightarrow> dv_outstanding d' = [])"
proof (cases i)
  case (BrCommand t cmd ok polls)
  from follows_run_command [of AtHead t cmd ok polls d es d'] show ?thesis
    using assms BrCommand
    by (cases cmd; cases "dv_cancelled d") (auto simp: select_branch_def asked_def intro: follows_quiet)
qed (use assms follows_drop [of d es d'] follows_run_retire [of d es d'] follows_run_event [of _ _ _ d es d']
      follows_run_event_error [of _ d es d']
    in \<open>auto simp: select_branch_def asked_def view_def intro!: follows_quiet split: if_splits\<close>)

lemma follows_backoff:
  assumes "backoff_branch i d = (es, d')" and "dv_phase d = BackingOff"
  shows "follows d (asked i d) es d' \<and> (dv_phase d' = Finished \<longrightarrow> dv_outstanding d' = [])"
proof (cases i)
  case (BrCommand t cmd ok polls)
  from follows_run_command [of BackingOff t cmd ok polls d es d'] show ?thesis
    using assms BrCommand
    by (cases cmd; cases "dv_cancelled d") (auto simp: backoff_branch_def asked_def intro: follows_quiet)
qed (use assms follows_drop [of d es d'] in
    \<open>auto simp: backoff_branch_def asked_def view_def intro!: follows_quiet split: if_splits\<close>)

lemma asked_elsewhere:
  "dv_phase d \<notin> {Selecting, BackingOff} \<or> dv_cancelled d \<or> is_shared_act i \<or> i = ActAbort \<Longrightarrow> asked i d = []"
  by (auto simp: asked_def is_shared_act_def split: mqtt_input.splits mqtt_command.splits)

lemma driver_step_follows:
  assumes "driver_step i d = (es, d')" and "dv_phase d = Finished \<longrightarrow> dv_outstanding d = []"
  shows "follows d (asked i d) es d' \<and> (dv_phase d' = Finished \<longrightarrow> dv_outstanding d' = [])"
proof (cases "is_shared_act i \<or> i = ActAbort")
  case True
  then have a: "asked i d = []" by (intro asked_elsewhere) blast
  show ?thesis
  proof (cases "is_shared_act i")
    case True
    then have "es = []" "d' = shared_act i d" using assms(1) by (auto simp: driver_step_def)
    moreover have "dv_outstanding (shared_act i d) = dv_outstanding d"
      using view_shared_act(1) [of i d] by (simp add: view_def)
    ultimately show ?thesis using assms(2) by (auto simp: a intro!: follows_quiet)
  next
    case False
    then have "es = [] \<and> d' = d \<or> driver_drop d = (es, d')"
      using assms(1) True by (auto simp: driver_step_def split: driver_phase.splits)
    then show ?thesis using assms(2) follows_drop [of d es d'] by (auto simp: a intro: follows_quiet)
  qed
next
  case False
  show ?thesis
  proof (cases "dv_phase d")
    case Selecting
    then show ?thesis using assms(1) False by (intro follows_select) (auto simp: driver_step_def)
  next
    case BackingOff
    then show ?thesis using assms(1) False by (intro follows_backoff) (auto simp: driver_step_def)
  next
    case AtHead
    then show ?thesis
      using assms(1) False asked_elsewhere [of d i] follows_run_retire [of d es d']
      by (auto simp: driver_step_def view_def intro!: follows_quiet split: if_splits)
  next
    case BackoffDue
    then show ?thesis
      using assms(1) False asked_elsewhere [of d i]
      by (auto simp: driver_step_def view_def silent_def intro!: follows_quiet split: mqtt_input.splits)
  next
    case Finished
    then show ?thesis
      using assms False asked_elsewhere [of d i] by (auto simp: driver_step_def intro!: follows_quiet)
  qed
qed

lemma driver_run_follows:
  "driver_run is d = (es, d') \<Longrightarrow> dv_phase d = Finished \<longrightarrow> dv_outstanding d = [] \<Longrightarrow>
     follows d (asked_run is d) es d' \<and> (dv_phase d' = Finished \<longrightarrow> dv_outstanding d' = [])"
proof (induction "is" arbitrary: d es)
  case Nil
  then show ?case by (auto intro: follows_quiet)
next
  case (Cons i "is")
  obtain es1 d1 where s: "driver_step i d = (es1, d1)" by (cases "driver_step i d")
  obtain es2 where r: "driver_run is d1 = (es2, d')" and es: "es = es1 @ es2"
    using Cons.prems(1) s by (auto split: prod.splits)
  note f = driver_step_follows [OF s Cons.prems(2)]
  note g = Cons.IH [OF r conjunct2 [OF f]]
  from follows_trans [OF conjunct1 [OF f] conjunct1 [OF g]] g show ?case by (simp add: es s)
qed

lemma settlement_authority_facts:
  assumes "driver_run is (mqtt_connect limits subscriptions policy) = (es, d)"
  shows "acks g p es \<le> queued g p es"
    and "length (dv_outstanding d) \<le> li_deliveries limits"
    and "es = us @ Answered r (Inr ()) # vs \<Longrightarrow> acked r us"
    and "mset (answered es) \<subseteq># mset (asked_run is (mqtt_connect limits subscriptions policy))"
    and "dv_phase d = Finished \<Longrightarrow>
      mset (answered es) = mset (asked_run is (mqtt_connect limits subscriptions policy))"
proof -
  let ?d0 = "mqtt_connect limits subscriptions policy"
  have f: "follows ?d0 (asked_run is ?d0) es d" and fin: "dv_phase d = Finished \<longrightarrow> dv_outstanding d = []"
    using driver_run_follows [OF assms] by (auto simp: mqtt_connect_def)
  have "ledger_ok (dv_max_deliveries ?d0) [] [] (view ?d0)"
    by (simp add: ledger_ok_def mqtt_connect_def view_def open_slot_def answers_acked_def)
  from ledger_ok_path [OF conjunct1 [OF f [unfolded follows_def]] this]
  have ok: "ledger_ok (li_deliveries limits) (asked_run is ?d0) es (view d)" by (simp add: mqtt_connect_def)
  show "acks g p es \<le> queued g p es" "length (dv_outstanding d) \<le> li_deliveries limits"
    using ok by (auto simp: ledger_ok_def view_def dest: spec [of _ g] intro: order.trans [OF le_add1])
  show "acked r us" if "es = us @ Answered r (Inr ()) # vs"
  proof -
    have "answers_acked es" using ok by (simp add: ledger_ok_def)
    then have "acked r (take (length us) es)"
      unfolding answers_acked_def using that by (elim allE [of _ "length us"]) simp
    then show ?thesis by (simp add: that)
  qed
  have bal: "mset (asked_run is ?d0) = mset (answered es) + mset (settling_requests (dv_outstanding d))"
    using ok by (simp add: ledger_ok_def view_def)
  then show "mset (answered es) \<subseteq># mset (asked_run is ?d0)" by simp
  show "mset (answered es) = mset (asked_run is ?d0)" if "dv_phase d = Finished"
    using bal fin that by simp
qed

text \<open>
  C8. Settlement authority of the MQTT driver: whatever events, commands, failures, cancellations
  and aborts it meets, acknowledgements of a packet identifier under a connection generation are
  never more than the deliveries queued under it, outstanding deliveries stay within the receive
  capacity, a settlement succeeds only after its own acknowledgement was submitted with no
  retirement in between, and every settlement request handed to the driver is answered at most
  once, exactly once when the driver has ended.
\<close>

theorem mqtt_settlement_authority:
  assumes "driver_run is (mqtt_connect limits subscriptions policy) = (es, d)"
  shows "(\<forall>g p. acks g p es \<le> queued g p es) \<and>
    length (dv_outstanding d) \<le> li_deliveries limits \<and>
    (\<forall>us r vs. es = us @ Answered r (Inr ()) # vs \<longrightarrow> acked r us) \<and>
    mset (answered es) \<subseteq># mset (asked_run is (mqtt_connect limits subscriptions policy)) \<and>
    (dv_phase d = Finished \<longrightarrow>
      mset (answered es) = mset (asked_run is (mqtt_connect limits subscriptions policy)))"
  using settlement_authority_facts [OF assms] by blast


subsection \<open>Retired generations are fenced\<close>

text \<open>
  \<open>retires d es d'\<close>: no acknowledgement is submitted, the generation does not go back, and a
  generation retired on the way is below the new one, or the driver is cancelled because the
  generation counter is exhausted.
\<close>

definition retires :: "mqtt_driver \<Rightarrow> mqtt_effect list \<Rightarrow> mqtt_driver \<Rightarrow> bool" where
  "retires d es d' \<longleftrightarrow>
     dv_generation d \<le> dv_generation d' \<and> (dv_cancelled d \<longrightarrow> dv_cancelled d') \<and>
     (\<forall>g. Retired g \<in> set es \<longrightarrow> g < dv_generation d' \<or> dv_cancelled d') \<and>
     (\<forall>g p a r. AckSubmitted g p a r \<notin> set es)"

definition unfencing :: "mqtt_effect \<Rightarrow> bool" where
  "unfencing e = (case e of Retired _ \<Rightarrow> True | AckSubmitted _ _ _ _ \<Rightarrow> True | _ \<Rightarrow> False)"

lemma retires_trans: "retires d es d1 \<Longrightarrow> retires d1 es' d' \<Longrightarrow> retires d (es @ es') d'"
  unfolding retires_def by (auto intro: order.strict_trans2)

lemma retires_plain:
  "dv_generation d' = dv_generation d \<Longrightarrow> dv_cancelled d \<longrightarrow> dv_cancelled d' \<Longrightarrow> list_all (\<lambda>e. \<not> unfencing e) es \<Longrightarrow>
     retires d es d'"
  by (force simp: retires_def list_all_iff unfencing_def)

lemma retires_keep:
  "retires d es d' \<Longrightarrow> dv_generation d'' = dv_generation d' \<Longrightarrow> dv_cancelled d'' = dv_cancelled d' \<Longrightarrow> retires d es d''"
  by (simp add: retires_def)

lemma clear_deliveries_cancelled [simp]: "dv_cancelled (clear_deliveries d) = dv_cancelled d"
proof -
  have "dv_cancelled (fold (\<lambda>x. shared_abandon (md_generation x)) xs d) = dv_cancelled d" for xs :: "mqtt_delivery list" and d
    by (induction xs arbitrary: d) simp_all
  then show ?thesis by (simp add: clear_deliveries_def)
qed

lemma retires_retire:
  assumes "mq_retire d = (es, d')"
  shows "retires d es d'"
proof (cases "u64_checked_add (dv_generation d) 1")
  case None
  then show ?thesis
    using assms by (auto simp: retires_def mq_retire_def invalidate_def Let_def simp del: u64_checked_add_None)
next
  case (Some g)
  then have "dv_generation d < g" by (rule u64_checked_add_less) simp
  then show ?thesis using assms Some by (auto simp: retires_def mq_retire_def invalidate_def Let_def)
qed

lemma retires_drop:
  assumes "driver_drop d = (es, d')"
  shows "retires d es d'"
proof -
  obtain es1 d1 where r: "mq_retire (d\<lparr>dv_closing := True\<rparr>) = (es1, d1)" by (cases "mq_retire (d\<lparr>dv_closing := True\<rparr>)")
  then have "es = es1" "dv_generation d' = dv_generation d1" "dv_cancelled d' = dv_cancelled d1"
    using assms by (auto simp: driver_drop_def split: connection_state.splits)
  with retires_retire [OF r] show ?thesis by (simp add: retires_def)
qed

lemma retires_run_retire: "run_retire d = (es, d') \<Longrightarrow> retires d es d'"
  using retires_retire [of d] retires_trans [OF _ retires_plain [of _ _ "[Cleaned]"]]
  by (cases "mq_retire d") (auto simp: run_retire_def mq_reconnecting_def unfencing_def intro!: retires_trans
      intro: retires_plain)

lemma retires_event: "mq_event t ev d = (r, es, d') \<Longrightarrow> retires d es d'"
  by (rule retires_plain)
    (auto simp: mq_event_def mq_receive_def mq_ready_def unfencing_def Let_def
      split: mqtt_event.splits option.splits delivery_state.splits if_splits)

lemma retires_check: "check_subscription res d = (r, d') \<Longrightarrow> retires d [] d'"
  by (rule retires_plain)
    (auto simp: check_subscription_def mq_ready_def Let_def split: if_splits suback_result.splits sum.splits)

lemma retires_state: "retires (mq_fail e d) es d' \<Longrightarrow> retires d es d'" "retires d es d' \<Longrightarrow> retires d es (mq_reconnecting e d')"
  by (simp_all add: retires_def mq_fail_def mq_reconnecting_def)

lemma retires_run_event: "run_event t ev res d = (es, d') \<Longrightarrow> retires d es d'"
proof -
  assume eq: "run_event t ev res d = (es, d')"
  obtain r es1 d1 where e: "mq_event t ev d = (r, es1, d1)" by (cases "mq_event t ev d")
  obtain r' d2 where c: "(case r of Inl e \<Rightarrow> (Inl e, d1) | Inr _ \<Rightarrow> check_subscription res d1) = (r', d2)"
    by (cases "case r of Inl e \<Rightarrow> (Inl e, d1) | Inr _ \<Rightarrow> check_subscription res d1")
  have "retires d1 [] d2"
    using c retires_check [of res d1 r' d2] by (auto intro: retires_plain split: sum.splits)
  then have f: "retires d es1 d2" using retires_trans [OF retires_event [OF e]] by fastforce
  obtain es2 d3 where ret: "mq_retire d2 = (es2, d3)" by (cases "mq_retire d2")
  obtain es4 d4 where dr: "driver_drop (mq_fail (case r' of Inl e \<Rightarrow> e | Inr _ \<Rightarrow> MqClosed) d2) = (es4, d4)"
    by (cases "driver_drop (mq_fail (case r' of Inl e \<Rightarrow> e | Inr _ \<Rightarrow> MqClosed) d2)")
  note fr = retires_trans [OF f retires_retire [OF ret]] and fd = retires_trans [OF f retires_state(1) [OF retires_drop [OF dr]]]
  have clean: "retires d (es1 @ es2 @ [Cleaned]) d3"
    using retires_trans [OF fr retires_plain [of d3 d3 "[Cleaned]"]] by (simp add: unfencing_def)
  show ?thesis
    using eq [unfolded run_event_def e c prod.case Let_def] f clean fd ret dr
    by (auto simp: mq_reconnecting_def retires_def split: sum.splits if_splits)
qed

lemma retires_run_event_error: "run_event_error err d = (es, d') \<Longrightarrow> retires d es d'"
proof -
  assume eq: "run_event_error err d = (es, d')"
  obtain es1 d1 where ret: "mq_retire d = (es1, d1)" by (cases "mq_retire d")
  obtain cause retryable where c: "connection_failure err = (cause, retryable)" by (cases "connection_failure err")
  obtain es2 d2 where dr: "driver_drop (mq_fail cause d1) = (es2, d2)" by (cases "driver_drop (mq_fail cause d1)")
  show ?thesis
    using eq [unfolded run_event_error_def ret c prod.case Let_def] dr retires_retire [OF ret]
      retires_trans [OF retires_retire [OF ret] retires_state(1) [OF retires_drop [OF dr]]]
    by (auto simp: mq_reconnecting_def retires_def split: if_splits)
qed

lemma retires_run_shutdown: "run_shutdown r result d = (es, d') \<Longrightarrow> retires d es d'"
proof -
  assume eq: "run_shutdown r result d = (es, d')"
  obtain es1 d1 where ret: "mq_retire d = (es1, d1)" by (cases "mq_retire d")
  define d2 where "d2 = (case result of Inl e \<Rightarrow> mq_fail e d1 | Inr _ \<Rightarrow> d1)"
  obtain es2 where dr: "driver_drop d2 = (es2, d')" and es: "es = es1 @ [AnsweredShutdown r result] @ es2"
    using eq ret by (auto simp: run_shutdown_def d2_def split: prod.splits)
  have "retires d1 [AnsweredShutdown r result] d2"
    by (rule retires_plain) (auto simp: d2_def mq_fail_def unfencing_def split: sum.split)
  from retires_trans [OF retires_trans [OF retires_retire [OF ret] this] retires_drop [OF dr]]
  show ?thesis by (simp add: es)
qed


definition single_ack :: "mqtt_driver \<Rightarrow> mqtt_effect list \<Rightarrow> mqtt_driver \<Rightarrow> bool" where
  "single_ack d es d' \<longleftrightarrow>
     (\<exists>p a r. es = [AckSubmitted (dv_generation d) p a r]) \<and> \<not> dv_cancelled d \<and>
     dv_generation d' = dv_generation d \<and> dv_cancelled d' = dv_cancelled d"

lemma command_fences:
  assumes "run_command back t cmd ok polls d = (es, d')" and "\<not> dv_cancelled d"
  shows "retires d es d' \<or> single_ack d es d'"
proof -
  obtain sd es1 d1 where h: "handle_command t cmd d = (sd, es1, d1)" by (cases "handle_command t cmd d")
  have keep: "dv_generation d1 = dv_generation d" "dv_cancelled d1 = dv_cancelled d"
    using h by (auto simp: handle_command_def split: mqtt_command.splits if_splits sum.splits)
  have es1: "list_all (\<lambda>e. \<not> unfencing e) es1 \<or> sd = None \<and> (\<exists>p a r. es1 = [AckSubmitted (dv_generation d) p a r])"
    using h by (auto simp: handle_command_def unfencing_def submit_settlement_def
        split: mqtt_command.splits if_splits sum.splits)
  show ?thesis
  proof (cases sd)
    case None
    then have "es = es1" "d' = d1\<lparr>dv_phase := back\<rparr>" using assms(1) h by (auto simp: run_command_def)
    then show ?thesis
      using es1 keep assms(2) retires_plain [of d' d es] by (auto simp: single_ack_def)
  next
    case (Some x)
    obtain es2 where s: "run_shutdown (snd x) (mqtt_shutdown ok polls) d1 = (es2, d')" and es: "es = es1 @ es2"
      using assms h Some by (cases x) (auto simp: run_command_def split: prod.splits)
    have "retires d es1 d1" using es1 Some keep by (intro retires_plain) auto
    from retires_trans [OF this retires_run_shutdown [OF s]] show ?thesis by (simp add: es)
  qed
qed

lemma driver_step_fences:
  assumes "driver_step i d = (es, d')"
  shows "retires d es d' \<or> single_ack d es d'"
proof -
  have plain: "retires d [] (d\<lparr>dv_phase := ph\<rparr>)" "retires d [] d" for ph by (simp_all add: retires_def)
  have select: "retires d es d' \<or> single_ack d es d'" if "select_branch i d = (es, d')"
    using that retires_drop [of d es d'] retires_run_retire [of d es d'] plain
      retires_run_event [of _ _ _ d es d'] retires_run_event_error [of _ d es d'] command_fences [of AtHead]
    by (auto simp: select_branch_def split: if_splits mqtt_input.splits)
  have backoff: "retires d es d' \<or> single_ack d es d'" if "backoff_branch i d = (es, d')"
    using that retires_drop [of d es d'] plain command_fences [of BackingOff]
    by (auto simp: backoff_branch_def split: if_splits mqtt_input.splits)
  have act: "retires d [] (shared_act i d)"
    by (auto simp: retires_def shared_act_def receiver_take_def Let_def split: mqtt_input.splits list.splits)
  have slept: "retires d [Slept x] (d\<lparr>dv_phase := ph\<rparr>)" for x ph
    by (rule retires_plain) (simp_all add: unfencing_def)
  show ?thesis
    using assms select backoff act plain slept retires_drop [of d es d'] retires_run_retire [of d es d']
    by (auto simp: driver_step_def split: if_splits driver_phase.splits mqtt_input.splits)
qed

lemma driver_run_mono:
  assumes "driver_run is d = (es, d')" and "AckSubmitted g p a r \<in> set es"
  shows "dv_generation d \<le> g \<and> \<not> dv_cancelled d"
  using assms
proof (induction "is" arbitrary: d es)
  case (Cons i "is")
  obtain es1 d1 where s: "driver_step i d = (es1, d1)" by (cases "driver_step i d")
  obtain es2 where r: "driver_run is d1 = (es2, d')" and es: "es = es1 @ es2"
    using Cons.prems(1) s by (auto split: prod.splits)
  consider "AckSubmitted g p a r \<in> set es1" | "AckSubmitted g p a r \<in> set es2" using Cons.prems(2) es by auto
  then show ?case
  proof cases
    case 1
    then show ?thesis using driver_step_fences [OF s] by (auto simp: retires_def single_ack_def)
  next
    case 2
    from Cons.IH [OF r this] show ?thesis
      using driver_step_fences [OF s] by (auto simp: retires_def single_ack_def)
  qed
qed simp

text \<open>
  A retired connection generation is fenced for good: after the driver has retired it, no delivery
  received under it or an earlier generation is ever acknowledged.
\<close>

theorem mqtt_retired_fenced:
  assumes "driver_run is d = (us @ Retired g # vs, d')" and "AckSubmitted g' p a r \<in> set vs"
  shows "g < g'"
  using assms
proof (induction "is" arbitrary: d us vs)
  case (Cons i "is")
  obtain es1 d1 where s: "driver_step i d = (es1, d1)" by (cases "driver_step i d")
  obtain es2 where r: "driver_run is d1 = (es2, d')" and es: "us @ Retired g # vs = es1 @ es2"
    using Cons.prems(1) s by (auto split: prod.splits)
  from es consider (old) vs1 where "es1 = us @ Retired g # vs1" "vs = vs1 @ es2"
    | (new) us2 where "es2 = us2 @ Retired g # vs"
    by (auto simp: append_eq_append_conv2 Cons_eq_append_conv append_eq_Cons_conv)
  then show ?case
  proof cases
    case old
    then have ret: "retires d es1 d1" using driver_step_fences [OF s] by (auto simp: single_ack_def append_eq_Cons_conv)
    then have "g < dv_generation d1 \<or> dv_cancelled d1" and "AckSubmitted g' p a r \<in> set es2"
      using old Cons.prems(2) by (auto simp: retires_def)
    with driver_run_mono [OF r] show ?thesis by (auto intro: order.strict_trans2)
  next
    case new
    with Cons.IH r Cons.prems(2) show ?thesis by blast
  qed
qed simp

subsection \<open>Publication and settlement evidence\<close>

text \<open>
  A publication is reported as confirmed only on a broker acknowledgement in time, and as
  definitely not published only when the command was not sent, or the driver or the broker
  refused it; everything else is ambiguous.
\<close>

theorem mqtt_publish_classified:
  "publish_until p = (Confirmed (), sent) \<Longrightarrow> sent \<and> (\<exists>a. po_reply p = Some a \<and> reply_outcome a = Confirmed ())
     \<and> po_now3 p < po_cutoff p"
  "publish_until p = (DefinitelyNotPublished f, sent) \<Longrightarrow> sent \<longrightarrow> (\<exists>a. po_reply p = Some a \<and> reply_outcome a = DefinitelyNotPublished f)"
  "publish_until p = (out, True) \<Longrightarrow> po_reply p = None \<Longrightarrow> is_ambiguous out"
  by (auto simp: publish_until_def mq_definite_def mq_ambiguous_def remaining_or_zero_def deadline_remaining_def
      split: if_splits reserve_result.splits option.splits)

lemma reconnect_next_bounded: "reconnect_next p item \<le> rp_maximum p"
  by (simp add: reconnect_next_def)


subsection \<open>Example\<close>

text \<open>
  A connection receives one message, acknowledges it before the deadline, and is then aborted
  while a second message is being settled.
\<close>

definition demo_limits :: mqtt_limits where
  "demo_limits = \<lparr>li_commands = 4, li_deliveries = 2, li_inflight = 2, li_packet_bytes = 1024\<rparr>"

definition demo_policy :: reconnect_policy where
  "demo_policy = \<lparr>rp_initial = 1000000, rp_maximum = 4000000\<rparr>"

definition demo_turn :: "instant \<Rightarrow> mqtt_turn" where
  "demo_turn now = \<lparr>tn_now = now, tn_response_closed = False, tn_publish = Inr (), tn_ack = True, tn_subscribe = True\<rparr>"

definition demo_packet :: "u16 \<Rightarrow> mqtt_publish" where
  "demo_packet p = \<lparr>mp_qos = AtLeastOnce, mp_pkid = p, mp_topic = [], mp_payload = [1], mp_user_properties = None\<rparr>"

definition demo_event :: "instant \<Rightarrow> mqtt_event \<Rightarrow> mqtt_input list" where
  "demo_event now ev = [HeadCheck, BrEvent (demo_turn now) ev SubPending]"

definition demo_inputs :: "mqtt_input list" where
  "demo_inputs =
     demo_event 1 (InConnAck False) @ demo_event 2 (InPublish (demo_packet 7)) @ demo_event 3 (InPublish (demo_packet 8))
     @ [HeadCheck, BrCommand (demo_turn 4) (CmdSettle 1 7 AckSuccess 100 42) True []]
     @ demo_event 5 (OutPubAck 7)
     @ [HeadCheck, BrCommand (demo_turn 6) (CmdSettle 1 8 AckSuccess 100 43) True [], ActAbort]"

lemmas mqtt_eval =
  demo_inputs_def demo_event_def demo_turn_def demo_packet_def mqtt_connect_def driver_step_def is_shared_act_def
  retire_due_def select_branch_def run_event_def mq_event_def mq_receive_def check_subscription_def mq_ready_def
  run_command_def handle_command_def submit_settlement_def remaining_or_zero_def deadline_remaining_def
  driver_drop_def mq_retire_def invalidate_def clear_deliveries_def shared_abandon_def u64_checked_add_def

lemma mqtt_demo_run:
  "\<exists>d. driver_run demo_inputs (mqtt_connect demo_limits [] demo_policy) =
    ([DeliveryQueued 1 7, DeliveryQueued 1 8, AckSubmitted 1 7 AckSuccess 42, Answered 42 (Inr ()),
      AckSubmitted 1 8 AckSuccess 43, Retired 1, Answered 43 (Inl MqSettlementUnknown)], d)
    \<and> dv_phase d = Finished"
  by (simp add: mqtt_eval demo_limits_def)

theorem mqtt_settlement_authority_witness:
  "\<exists>es d us vs. driver_run demo_inputs (mqtt_connect demo_limits [] demo_policy) = (es, d) \<and>
    es = us @ Answered 42 (Inr ()) # vs \<and> acked 42 us \<and> acks 1 7 es \<le> queued 1 7 es \<and>
    mset (answered es) = mset (asked_run demo_inputs (mqtt_connect demo_limits [] demo_policy))"
proof -
  let ?us = "[DeliveryQueued 1 7, DeliveryQueued 1 8, AckSubmitted 1 7 AckSuccess 42]"
  let ?vs = "[AckSubmitted 1 8 AckSuccess 43, Retired 1, Answered 43 (Inl MqSettlementUnknown)]"
  obtain d where r: "driver_run demo_inputs (mqtt_connect demo_limits [] demo_policy) = (?us @ Answered 42 (Inr ()) # ?vs, d)"
    and fin: "dv_phase d = Finished"
    using mqtt_demo_run by auto
  show ?thesis
    using r fin mqtt_settlement_authority [OF r] by blast
qed

end
