(* ===== verification/Wire_Headers.thy ===== *)
theory Wire_Headers
  imports Recovery_Capsule "HOL-Library.AList" "HOL-Library.List_Lexorder" "HOL-Library.Char_ord"
begin

section \<open>Message headers on the wire\<close>

text \<open>
  What a codec of the messaging transports uses of headers: the header map of a message as the list of its entries, the
  readers that remove one header and parse it, and the prefix under which attributes travel.
\<close>

subsection \<open>Definitions\<close>

definition attribute_prefix :: string where
  "attribute_prefix = ''attribute.''"

definition opt_field :: "string \<Rightarrow> string option \<Rightarrow> (string \<times> string) list" where
  "opt_field k v = (case v of None \<Rightarrow> [] | Some x \<Rightarrow> [(k, x)])"

text \<open>\<open>str::parse::<i64>\<close> of the standard library.\<close>

definition parse_i64 :: "string \<Rightarrow> int option" where
  "parse_i64 s =
     (let negative = (s \<noteq> [] \<and> hd s = CHR ''-'');
          digits = (if s \<noteq> [] \<and> hd s \<in> {CHR ''-'', CHR ''+''} then tl s else s) in
      if digits = [] \<or> \<not> list_all is_ascii_digit digits then None
      else
        let n = int (digits_value 0 digits); v = (if negative then - n else n) in
        if in_i64 v then Some v else None)"

text \<open>\<open>required\<close>: a present, non-empty header and the remaining ones.\<close>

definition required ::
  "string \<Rightarrow> (string \<times> string) list \<Rightarrow> envelope_validation_failure + string \<times> (string \<times> string) list" where
  "required k hs =
     (case map_of hs k of
        Some v \<Rightarrow> if v = [] then Err MalformedMetadata else Ok (v, AList.delete k hs)
      | None \<Rightarrow> Err MalformedMetadata)"

definition parsed_header ::
  "string \<Rightarrow> (string \<Rightarrow> 'e + 'a) \<Rightarrow> envelope_validation_failure \<Rightarrow> (string \<times> string) list
     \<Rightarrow> envelope_validation_failure + 'a \<times> (string \<times> string) list" where
  "parsed_header k parse err hs =
     and_then (required k hs) (\<lambda>(v, hs'). and_then (map_err (\<lambda>_. err) (parse v)) (\<lambda>x. Ok (x, hs')))"

definition optional_header ::
  "string \<Rightarrow> (string \<Rightarrow> 'e + string) \<Rightarrow> (string \<times> string) list
     \<Rightarrow> envelope_validation_failure + string option \<times> (string \<times> string) list" where
  "optional_header k parse hs =
     (case map_of hs k of
        None \<Rightarrow> Ok (None, AList.delete k hs)
      | Some v \<Rightarrow> and_then (map_err (\<lambda>_. MalformedMetadata) (parse v)) (\<lambda>x. Ok (Some x, AList.delete k hs)))"

definition parse_occurred :: "string \<Rightarrow> unit + timepoint" where
  "parse_occurred v =
     (case parse_i64 v of
        None \<Rightarrow> Err ()
      | Some n \<Rightarrow> map_err (\<lambda>_. ()) (timepoint_try_from_i64 n))"

subsection \<open>Reading back what was written\<close>

lemma sign_not_digit [simp]: "\<not> is_ascii_digit CHR ''-''"
  by (simp add: rust_defs)

lemma hd_show_nat_digit: "is_ascii_digit (hd (show_nat n))"
  using show_nat_digits [of n] by (cases "show_nat n") auto

lemma parse_show_i64: "in_i64 n \<Longrightarrow> parse_i64 (show_i64 n) = Some n"
proof -
  have "hd (show_nat k) \<noteq> CHR ''-''" "hd (show_nat k) \<noteq> CHR ''+''" for k
    using hd_show_nat_digit [of k] by (metis plus_not_digit sign_not_digit)+
  moreover assume "in_i64 n"
  ultimately show ?thesis
    by (simp add: parse_i64_def show_i64_def show_nat_digits show_nat_value Let_def)
qed

lemma delete_absent: "k \<notin> fst ` set xs \<Longrightarrow> AList.delete k xs = xs"
  by (induction xs) (auto simp: AList.delete_eq)

lemma opt_field_simps [simp]:
  "map_of (opt_field k v) k' = (if k' = k then v else None)"
  "AList.delete k' (opt_field k v) = (if k' = k then [] else opt_field k v)"
  "map fst (opt_field k v) = (case v of None \<Rightarrow> [] | Some _ \<Rightarrow> [k])"
  by (simp_all add: opt_field_def split: option.split)

lemma delete_append [simp]: "AList.delete k (xs @ ys) = AList.delete k xs @ AList.delete k ys"
  by (simp add: AList.delete_eq)

definition attribute_fields :: "(string \<times> string) list \<Rightarrow> (string \<times> string) list" where
  "attribute_fields as = map (\<lambda>(k, v). (attribute_prefix @ k, v)) as"

lemma attribute_fields_other:
  assumes "take 10 k \<noteq> attribute_prefix"
  shows "map_of (attribute_fields as) k = None" and "AList.delete k (attribute_fields as) = attribute_fields as"
proof -
  have "k \<notin> fst ` set (attribute_fields as)"
    using assms by (auto simp: attribute_fields_def attribute_prefix_def)
  then show "map_of (attribute_fields as) k = None" "AList.delete k (attribute_fields as) = attribute_fields as"
    by (simp_all add: map_of_eq_None_iff delete_absent)
qed

lemma distinct_attribute_fields: "distinct (map fst as) \<Longrightarrow> distinct (map fst (attribute_fields as))"
  by (induction as) (force simp: attribute_fields_def)+

lemma parsed_header_ok:
  "map_of hs k = Some v \<Longrightarrow> v \<noteq> [] \<Longrightarrow> parse v = Ok x \<Longrightarrow> parsed_header k parse err hs = Ok (x, AList.delete k hs)"
  by (simp add: parsed_header_def required_def)

lemma optional_header_ok:
  "optional_ok parse (map_of hs k) \<Longrightarrow> optional_header k parse hs = Ok (map_of hs k, AList.delete k hs)"
  by (cases "map_of hs k") (simp_all add: optional_header_def)

lemma map_add_opt_field [simp]:
  "k' \<noteq> k \<Longrightarrow> (f ++ map_of (opt_field k v)) k' = f k'" "f k = None \<Longrightarrow> (f ++ map_of (opt_field k v)) k = v"
  by (auto simp: map_add_def split: option.split)


text \<open>A \<open>BTreeMap\<close> of attributes: the entries are in strict key order.\<close>

definition attributes_ordered :: "message_envelope \<Rightarrow> bool" where
  "attributes_ordered m \<longleftrightarrow>
     sorted (map fst (mm_attributes (me_metadata m))) \<and> distinct (map fst (mm_attributes (me_metadata m)))"

lemma sort_key_ordered: "attributes_ordered m \<Longrightarrow> sort_key fst (mm_attributes (me_metadata m)) = mm_attributes (me_metadata m)"
  by (simp add: attributes_ordered_def sort_key_id_if_sorted)

lemma uuid_text_nonempty [simp]: "uuid_text u \<noteq> []"
  by (simp add: uuid_text_def hyphenated_def Let_def ut_def)

end
