(* ===== verification/Mqtt_Codec.thy ===== *)
theory Mqtt_Codec
  imports Mqtt_Driver Wire_Headers
begin

section \<open>The MQTT envelope and outbox routing\<close>

text \<open>
  Models \<^verbatim>\<open>crates/mqtt/src/codec.rs\<close> and \<^verbatim>\<open>outbox.rs\<close> with the configuration and the publish request of
  \<^verbatim>\<open>model.rs\<close>. Topic and filter syntax, the size of an encoded packet and the UUID reader belong to
  third-party crates and are parameters. The header map of the decoder is the list of its entries;
  the attributes it collects are put in key order, as the \<open>BTreeMap\<close> of the source keeps them.
\<close>

subsection \<open>Configuration\<close>

record mqtt_config =
  mc_host :: string
  mc_port :: nat
  mc_client_id :: string
  mc_scope :: string
  mc_subscriptions :: "string list"
  mc_limits :: mqtt_limits
  mc_reconnect :: reconnect_policy
  mc_credentials :: "(string \<times> bytes) option"
  mc_session_expiry :: "nat option"

definition u16_max :: nat where
  "u16_max = 65535"

definition has_nul :: "string \<Rightarrow> bool" where
  "has_nul s \<longleftrightarrow> CHR 0x00 \<in> set s"

definition reconnect_policy_default :: reconnect_policy where
  "reconnect_policy_default = \<lparr>rp_initial = from_millis 100, rp_maximum = from_secs 30\<rparr>"

definition mqtt_config_new ::
  "string \<Rightarrow> nat \<Rightarrow> string \<Rightarrow> string \<Rightarrow> mqtt_limits \<Rightarrow> mqtt_error + mqtt_config" where
  "mqtt_config_new host port client_id scope limits =
     (if host = [] \<or> port = 0 \<or> client_id = [] \<or> length client_id > u16_max \<or> has_nul client_id \<or> scope = []
      then Err MqInvalidConfig
      else Ok \<lparr>mc_host = host, mc_port = port, mc_client_id = client_id, mc_scope = scope,
               mc_subscriptions = [], mc_limits = limits, mc_reconnect = reconnect_policy_default,
               mc_credentials = None, mc_session_expiry = None\<rparr>)"

definition config_credentials :: "string \<Rightarrow> bytes \<Rightarrow> mqtt_config \<Rightarrow> mqtt_error + mqtt_config" where
  "config_credentials username password c =
     (if has_nul username \<or> length username > u16_max \<or> length password > u16_max then Err MqInvalidConfig
      else Ok (c\<lparr>mc_credentials := Some (username, password)\<rparr>))"

definition config_subscriptions ::
  "(string \<Rightarrow> bool) \<Rightarrow> string list \<Rightarrow> mqtt_config \<Rightarrow> mqtt_error + mqtt_config" where
  "config_subscriptions valid_filter filters c =
     (if length filters > li_commands (mc_limits c)
         \<or> list_ex (\<lambda>v. length v > u16_max \<or> has_nul v \<or> \<not> valid_filter v) filters
      then Err MqInvalidConfig
      else if sum_list (map (\<lambda>v. length v + 3) filters) + 8 > li_packet_bytes (mc_limits c)
      then Err MqInvalidConfig
      else Ok (c\<lparr>mc_subscriptions := filters\<rparr>))"

definition config_session_expiry :: "nat \<Rightarrow> mqtt_config \<Rightarrow> mqtt_error + mqtt_config" where
  "config_session_expiry seconds c =
     (if seconds = 0 then Err MqInvalidConfig else Ok (c\<lparr>mc_session_expiry := Some seconds\<rparr>))"

subsection \<open>Publish requests\<close>

record publish_request =
  pr_topic :: string
  pr_payload :: bytes
  pr_retain :: bool
  pr_expiry :: "nat option"
  pr_correlation_data :: "bytes option"
  pr_user_properties :: "(string \<times> string) list"

definition publish_request_new ::
  "(string \<Rightarrow> bool) \<Rightarrow> string \<Rightarrow> bytes \<Rightarrow> mqtt_error + publish_request" where
  "publish_request_new valid_topic topic payload =
     (if topic = [] \<or> has_nul topic \<or> length topic > u16_max \<or> \<not> valid_topic topic then Err MqInvalidMessage
      else Ok \<lparr>pr_topic = topic, pr_payload = payload, pr_retain = False, pr_expiry = None,
               pr_correlation_data = None, pr_user_properties = []\<rparr>)"

definition valid_size :: "(publish_request \<Rightarrow> nat) \<Rightarrow> nat \<Rightarrow> publish_request \<Rightarrow> bool" where
  "valid_size packet_size max_bytes r =
     (if (case pr_correlation_data r of Some v \<Rightarrow> length v > u16_max | None \<Rightarrow> False)
         \<or> list_ex (\<lambda>(k, v). length k > u16_max \<or> length v > u16_max \<or> has_nul k \<or> has_nul v) (pr_user_properties r)
      then False
      else packet_size r \<le> max_bytes)"

subsection \<open>Encoding\<close>

definition emit ::
  "nat \<Rightarrow> string \<times> string \<Rightarrow> nat \<times> (string \<times> string) list \<Rightarrow> mqtt_error + nat \<times> (string \<times> string) list" where
  "emit limit kv st =
     (let size = fst st + length (fst kv) + length (snd kv) + 5 in
      if size \<ge> 2 ^ 64 then Err MqInvalidMessage
      else if size > limit \<or> length (fst kv) > u16_max \<or> length (snd kv) > u16_max
              \<or> has_nul (fst kv) \<or> has_nul (snd kv)
      then Err MqInvalidMessage
      else Ok (size, snd st @ [kv]))"

fun emit_all ::
  "nat \<Rightarrow> (string \<times> string) list \<Rightarrow> nat \<times> (string \<times> string) list \<Rightarrow> mqtt_error + nat \<times> (string \<times> string) list" where
  "emit_all limit [] st = Ok st"
| "emit_all limit (kv # kvs) st = and_then (emit limit kv st) (emit_all limit kvs)"

fun emit_attributes ::
  "nat \<Rightarrow> (string \<times> string) list \<Rightarrow> nat \<times> (string \<times> string) list \<Rightarrow> mqtt_error + nat \<times> (string \<times> string) list" where
  "emit_attributes limit [] st = Ok st"
| "emit_attributes limit ((k, v) # kvs) st =
     (if length k > u16_max - length attribute_prefix then Err MqInvalidMessage
      else and_then (emit limit (attribute_prefix @ k, v) st) (emit_attributes limit kvs))"

definition core_fields :: "message_envelope \<Rightarrow> (string \<times> string) list" where
  "core_fields m =
     (let md = me_metadata m in
      [(''messageId'', me_id m), (''tenantId'', uuid_text (mm_tenant md)), (''domain'', mm_domain md),
       (''route'', mm_route md), (''contractId'', ci_id (mm_contract md)),
       (''schemaVersion'', contract_version_display (ci_version (mm_contract md))),
       (''schemaHash'', ci_schema_digest (mm_contract md)), (''occurredAt'', show_i64 (mm_occurred_at md))]
      @ opt_field ''partitionKey'' (map_option pt_key (mm_partition md))
      @ opt_field ''correlation'' (mm_correlation md) @ opt_field ''causationId'' (mm_causation md)
      @ opt_field ''trace'' (tc_trace (me_transport m))
      @ opt_field ''tenantAuthority'' (tc_tenant_authority (me_transport m)))"

definition mqtt_encode :: "message_envelope \<Rightarrow> nat \<Rightarrow> mqtt_error + (string \<times> string) list" where
  "mqtt_encode m limit =
     and_then (emit_all limit (core_fields m) (length (me_payload m), [])) (\<lambda>st.
     and_then (emit_attributes limit (mm_attributes (me_metadata m)) st) (\<lambda>st'. Ok (snd st')))"

subsection \<open>Decoding\<close>

fun collect_headers ::
  "(string \<times> string) list \<Rightarrow> (string \<times> string) list \<Rightarrow> envelope_validation_failure + (string \<times> string) list" where
  "collect_headers hs [] = Ok hs"
| "collect_headers hs ((k, v) # kvs) =
     (if map_of hs k \<noteq> None then Err MalformedMetadata else collect_headers (hs @ [(k, v)]) kvs)"

fun collect_attributes ::
  "(string \<times> string) list \<Rightarrow> envelope_validation_failure + (string \<times> string) list" where
  "collect_attributes [] = Ok []"
| "collect_attributes ((k, v) # hs) =
     (case strip_prefix attribute_prefix k of
        None \<Rightarrow> Err MalformedMetadata
      | Some k' \<Rightarrow> and_then (collect_attributes hs) (\<lambda>as. Ok ((k', v) # as)))"

definition mqtt_decode ::
  "(ustring \<Rightarrow> 128 word option) \<Rightarrow> mqtt_publish \<Rightarrow> subscription_identity
     \<Rightarrow> envelope_validation_failure + message_envelope" where
  "mqtt_decode uuid p subscription =
     and_then (ok_or (mp_user_properties p) MalformedMetadata) (\<lambda>props.
     and_then (collect_headers [] props) (\<lambda>hs.
     and_then (parsed_header ''messageId'' message_id_parse MalformedIdentity hs) (\<lambda>(mid, hs).
     and_then (parsed_header ''tenantId'' (\<lambda>v. tenant_id_parse uuid (ut v)) MalformedIdentity hs) (\<lambda>(tenant, hs).
     and_then (parsed_header ''occurredAt'' parse_occurred MalformedMetadata hs) (\<lambda>(occurred, hs).
     and_then (parsed_header ''domain'' messaging_domain_parse MalformedMetadata hs) (\<lambda>(domain, hs).
     and_then (parsed_header ''route'' message_route_parse MalformedMetadata hs) (\<lambda>(route, hs).
     and_then (parsed_header ''contractId'' contract_id_parse UnsupportedContract hs) (\<lambda>(cid, hs).
     and_then (parsed_header ''schemaVersion'' contract_version_parse UnsupportedContract hs) (\<lambda>(version, hs).
     and_then (parsed_header ''schemaHash'' schema_digest_parse UnsupportedContract hs) (\<lambda>(digest, hs).
     and_then (optional_header ''correlation'' correlation_id_parse hs) (\<lambda>(correlation, hs).
     and_then (optional_header ''partitionKey'' partition_key_parse hs) (\<lambda>(partition, hs).
     and_then (optional_header ''causationId'' message_id_parse hs) (\<lambda>(causation, hs).
     let trace = map_of hs ''trace''; hs = AList.delete ''trace'' hs;
         authority = map_of hs ''tenantAuthority''; hs = AList.delete ''tenantAuthority'' hs in
     and_then (collect_attributes hs) (\<lambda>attributes.
     let message = with_transport_context \<lparr>tc_trace = trace, tc_tenant_authority = authority\<rparr>
           (envelope_new mid
              (message_metadata_new
                 \<lparr>am_tenant = tenant, am_occurred_at = occurred, am_domain = domain, am_route = route,
                  am_contract = \<lparr>ci_id = cid, ci_version = version, ci_schema_digest = digest\<rparr>\<rparr>
                 \<lparr>mx_correlation = correlation, mx_partition_key = partition, mx_causation = causation,
                  mx_attributes = sort_key fst attributes\<rparr>)
              (mp_payload p)) in
     if \<not> subscription_accepts subscription message then Err UnsupportedContract else Ok message))))))))))))))"

subsection \<open>Outbox routing\<close>

record mqtt_outbox_topic =
  ot_topic :: string
  ot_retain :: bool
  ot_expiry :: "nat option"

definition outbox_topic_new :: "(string \<Rightarrow> bool) \<Rightarrow> string \<Rightarrow> mqtt_error + mqtt_outbox_topic" where
  "outbox_topic_new valid_topic topic =
     and_then (publish_request_new valid_topic topic [])
       (\<lambda>r. Ok \<lparr>ot_topic = pr_topic r, ot_retain = False, ot_expiry = None\<rparr>)"

record mqtt_outbox_plan =
  op_domain :: string
  op_routes :: "(string \<times> mqtt_outbox_topic) list"

fun insert_routes ::
  "(string \<times> mqtt_outbox_topic) list \<Rightarrow> (string \<times> mqtt_outbox_topic) list
     \<Rightarrow> mqtt_error + (string \<times> mqtt_outbox_topic) list" where
  "insert_routes entries [] = Ok entries"
| "insert_routes entries ((route, topic) # rest) =
     (if map_of entries route \<noteq> None then Err MqInvalidConfig
      else insert_routes (entries @ [(route, topic)]) rest)"

definition outbox_plan_new ::
  "string \<Rightarrow> (string \<times> mqtt_outbox_topic) list \<Rightarrow> mqtt_error + mqtt_outbox_plan" where
  "outbox_plan_new domain routes =
     and_then (insert_routes [] routes) (\<lambda>entries.
       if entries = [] then Err MqInvalidConfig
       else Ok \<lparr>op_domain = domain, op_routes = entries\<rparr>)"

definition plan_encode ::
  "(string \<Rightarrow> bool) \<Rightarrow> mqtt_outbox_plan \<Rightarrow> message_envelope \<Rightarrow> nat \<Rightarrow> mqtt_error + publish_request" where
  "plan_encode valid_topic plan m limit =
     (if mm_domain (me_metadata m) \<noteq> op_domain plan then Err MqInvalidMessage
      else case map_of (op_routes plan) (mm_route (me_metadata m)) of
          None \<Rightarrow> Err MqInvalidMessage
        | Some topic \<Rightarrow>
            and_then (mqtt_encode m limit) (\<lambda>properties.
            and_then (publish_request_new valid_topic (ot_topic topic) (me_payload m)) (\<lambda>r.
              Ok (r\<lparr>pr_retain := ot_retain topic, pr_user_properties := properties, pr_expiry := ot_expiry topic\<rparr>))))"

text \<open>\<open>MqttOutboxPublisher::publish\<close>; the observations of the driver handle follow the encoding.\<close>

definition outbox_publish ::
  "(string \<Rightarrow> bool) \<Rightarrow> (publish_request \<Rightarrow> nat) \<Rightarrow> nat \<Rightarrow> mqtt_outbox_plan \<Rightarrow> instant \<Rightarrow> duration
     \<Rightarrow> publish_obs \<Rightarrow> message_envelope \<Rightarrow> unit publish_outcome \<times> bool" where
  "outbox_publish valid_topic packet_size packet_bytes plan now timeout p m =
     (case from_timeout now timeout of
        Inl _ \<Rightarrow> (mq_definite PfPermanent StageAdmission InvalidMessage, False)
      | Inr cutoff \<Rightarrow>
          (case plan_encode valid_topic plan m packet_bytes of
             Inl _ \<Rightarrow> (mq_definite PfPermanent StageEncode InvalidMessage, False)
           | Inr r \<Rightarrow>
               publish_until (p\<lparr>po_cutoff := cutoff, po_valid_size := valid_size packet_size packet_bytes r\<rparr>)))"


section \<open>Theorems\<close>

subsection \<open>What is written\<close>

definition message_fields :: "message_envelope \<Rightarrow> (string \<times> string) list" where
  "message_fields m = core_fields m @ map (\<lambda>(k, v). (attribute_prefix @ k, v)) (mm_attributes (me_metadata m))"

lemma emit_all_written: "emit_all limit kvs st = Ok st' \<Longrightarrow> snd st' = snd st @ kvs"
  by (induction kvs arbitrary: st) (auto simp: and_then_Inr_iff emit_def Let_def split: if_splits)

lemma emit_attributes_fields:
  "emit_attributes limit kvs st = Ok st' \<Longrightarrow> snd st' = snd st @ map (\<lambda>(k, v). (attribute_prefix @ k, v)) kvs"
proof (induction kvs arbitrary: st)
  case (Cons kv kvs)
  then show ?case by (cases kv) (auto simp: and_then_Inr_iff emit_def Let_def split: if_splits)
qed simp

lemma mqtt_encode_fields: "mqtt_encode m limit = Ok fs \<Longrightarrow> fs = message_fields m"
  by (auto simp: mqtt_encode_def message_fields_def and_then_Inr_iff dest!: emit_all_written emit_attributes_fields)

subsection \<open>Reading it back\<close>

lemma collect_headers_distinct:
  "distinct (map fst (hs @ kvs)) \<Longrightarrow> collect_headers hs kvs = Ok (hs @ kvs)"
proof (induction kvs arbitrary: hs)
  case (Cons kv kvs)
  then show ?case by (cases kv) (auto simp: map_of_eq_None_iff)
qed simp

lemma collect_attribute_fields: "collect_attributes (attribute_fields as) = Ok as"
proof (induction as)
  case (Cons kv as)
  then show ?case by (cases kv) (simp add: attribute_fields_def strip_prefix_def)
qed (simp add: attribute_fields_def)

lemma core_keys:
  "set (map fst (core_fields m)) \<subseteq> {''messageId'', ''tenantId'', ''domain'', ''route'', ''contractId'', ''schemaVersion'',
     ''schemaHash'', ''occurredAt'', ''partitionKey'', ''correlation'', ''causationId'', ''trace'', ''tenantAuthority''}"
  "distinct (map fst (core_fields m))"
  by (auto simp: core_fields_def Let_def split: option.splits)

lemma message_fields_distinct:
  assumes "distinct (map fst (mm_attributes (me_metadata m)))"
  shows "distinct (map fst (message_fields m))"
proof -
  have "k \<notin> set (map fst (attribute_fields as))" if "k \<in> set (map fst (core_fields m))" for k as
  proof -
    have "take 10 k \<noteq> attribute_prefix" using core_keys(1) [of m] that by (auto simp: attribute_prefix_def)
    then show ?thesis using attribute_fields_other(1) [of k as] by (simp add: map_of_eq_None_iff)
  qed
  then show ?thesis
    using assms core_keys(2) [of m] distinct_attribute_fields
    by (auto simp: message_fields_def attribute_fields_def [symmetric])
qed

lemma mqtt_codec_roundtrip:
  assumes "\<And>u. uuid (hyphenated u) = Some u"
    and "message_ok m" and "attributes_ordered m" and "in_i64 (mm_occurred_at (me_metadata m))"
    and "mqtt_encode m limit = Ok fs"
    and "mp_payload p = me_payload m" and "mp_user_properties p = Some fs"
    and "subscription_accepts subscription m"
  shows "mqtt_decode uuid p subscription = Ok m"
proof -
  obtain i tenant occurred corr domain route cid cv cs part caus attrs trace auth pay where m: "m =
      \<lparr>me_id = i, me_metadata = \<lparr>mm_tenant = tenant, mm_occurred_at = occurred, mm_correlation = corr, mm_domain = domain,
         mm_route = route, mm_contract = \<lparr>ci_id = cid, ci_version = cv, ci_schema_digest = cs\<rparr>, mm_partition = part,
         mm_causation = caus, mm_attributes = attrs\<rparr>, me_transport = \<lparr>tc_trace = trace, tc_tenant_authority = auth\<rparr>, me_payload = pay\<rparr>"
    by (metis contract_identity.cases message_envelope.cases message_metadata.cases transport_context.cases)
  have fs: "fs = core_fields m @ attribute_fields attrs"
    using mqtt_encode_fields [OF assms(5)] by (simp add: message_fields_def attribute_fields_def m)
  have hs: "collect_headers [] fs = Ok fs"
    using collect_headers_distinct [of "[]" fs] message_fields_distinct [of m] assms(3)
    by (simp add: attributes_ordered_def message_fields_def fs attribute_fields_def m)
  have ids: "message_id_parse i = Ok i" "contract_id_parse cid = Ok cid" "contract_version_parse (contract_version_display cv) = Ok cv"
    "schema_digest_parse cs = Ok cs" "tenant_id_parse uuid (hyphenated tenant) = Ok tenant"
    "messaging_domain_parse domain = Ok domain" "message_route_parse route = Ok route"
    "optional_ok correlation_id_parse corr" "optional_ok message_id_parse caus"
    "optional_ok partition_key_parse (map_option pt_key part)" "0 \<le> occurred"
    using assms(1,2)
    by (auto simp: message_ok_def m Let_def contract_version_read_back tenant_parse_iff_canonical tenant_id_display_def
        split: option.splits)
  have ne: "i \<noteq> []" "cid \<noteq> []" "cs \<noteq> []" "domain \<noteq> []" "route \<noteq> []" "contract_version_display cv \<noteq> []" "show_i64 occurred \<noteq> []"
    using ids by (auto simp: message_id_parse_def contract_id_parse_def schema_digest_parse_def valid_schema_digest_def
        messaging_domain_parse_def message_route_parse_def validate_transport_identity_def contract_version_display_def
        show_i64_def and_then_Inr_iff split: if_splits)
  have occ: "parse_occurred (show_i64 occurred) = Ok occurred"
    using assms(4) ids(11) by (simp add: parse_occurred_def parse_show_i64 timepoint_try_from_i64_def m)
  have part: "map_option (\<lambda>key. \<lparr>pt_tenant = tenant, pt_domain = domain, pt_key = key\<rparr>) (map_option pt_key part) = part"
    using assms(2) by (cases part) (auto simp: message_ok_def m Let_def)
  have sorted: "sort_key fst attrs = attrs" using sort_key_ordered [OF assms(3)] by (simp add: m)
  show ?thesis
    using assms(8) unfolding mqtt_decode_def assms(6,7) ok_or_simps and_then_simps hs
    by (simp add: parsed_header_ok optional_header_ok fs core_fields_def m Let_def
        attribute_fields_other attribute_prefix_def ids ne occ collect_attribute_fields part sorted
        with_transport_context_def envelope_new_def message_metadata_new_def)
qed


text \<open>
  C26. The MQTT outbox loses nothing: the request written for a message goes to the topic of the
  message's own route, and a packet with its payload and user properties decodes, for the
  subscription of the message's domain, route and contract, to exactly that message, the transport
  context and all attributes included, even attributes named like a protocol field.
\<close>

theorem mqtt_outbox_roundtrip:
  assumes "\<And>u. uuid (hyphenated u) = Some u"
    and "message_ok m" and "attributes_ordered m" and "in_i64 (mm_occurred_at (me_metadata m))"
    and "plan_encode valid_topic plan m limit = Ok r"
    and "mp_payload p = pr_payload r" and "mp_user_properties p = Some (pr_user_properties r)"
  shows "mqtt_decode uuid p \<lparr>sub_domain = mm_domain (me_metadata m), sub_route = mm_route (me_metadata m),
      sub_contract = mm_contract (me_metadata m)\<rparr> = Ok m \<and>
    op_domain plan = mm_domain (me_metadata m) \<and>
    (\<exists>topic. map_of (op_routes plan) (mm_route (me_metadata m)) = Some topic \<and> pr_topic r = ot_topic topic)"
proof -
  obtain topic fs where t: "map_of (op_routes plan) (mm_route (me_metadata m)) = Some topic" "op_domain plan = mm_domain (me_metadata m)"
    and enc: "mqtt_encode m limit = Ok fs" and r: "pr_topic r = ot_topic topic" "pr_payload r = me_payload m" "pr_user_properties r = fs"
    using assms(5) by (auto simp: plan_encode_def and_then_Inr_iff publish_request_new_def split: if_splits option.splits)
  have "mqtt_decode uuid p \<lparr>sub_domain = mm_domain (me_metadata m), sub_route = mm_route (me_metadata m),
      sub_contract = mm_contract (me_metadata m)\<rparr> = Ok m"
    by (rule mqtt_codec_roundtrip [OF assms(1-4) enc]) (simp_all add: assms(6,7) r subscription_accepts_def)
  with t r show ?thesis by simp
qed

text \<open>A decoded message is one the subscription accepts, with the payload of the packet.\<close>

theorem mqtt_decode_accepted:
  assumes "mqtt_decode uuid p subscription = Ok m"
  shows "subscription_accepts subscription m" and "me_payload m = mp_payload p"
  using assms
  by (auto simp: mqtt_decode_def and_then_Inr_iff Let_def with_transport_context_def envelope_new_def
      split: prod.splits if_splits)


subsection \<open>Example\<close>

definition demo_plan :: mqtt_outbox_plan where
  "demo_plan = \<lparr>op_domain = ''d'', op_routes = [(''r'', \<lparr>ot_topic = ''wire/events'', ot_retain = False, ot_expiry = Some 60\<rparr>)]\<rparr>"

lemma hex_text_nonzero: "c \<in> set (hex_text k n) \<Longrightarrow> c \<noteq> 0"
  by (induction k arbitrary: n) (auto simp: lower_hex_def split: if_splits)

lemma length_hex_text: "length (hex_text k n) = k"
  by (induction k arbitrary: n) simp_all

lemma nul_char_of:
  assumes "n < (256 :: nat)"
  shows "CHR 0x00 = char_of n \<longleftrightarrow> n = 0"
proof -
  have "CHR 0x00 = char_of n \<longleftrightarrow> byte_of CHR 0x00 = byte_of (char_of n)" by (simp only: byte_of_inject)
  also have "\<dots> \<longleftrightarrow> n = 0" using assms by (auto simp: byte_of_def)
  finally show ?thesis .
qed

lemma uuid_text_shape: "length (uuid_text u) = 36" "\<not> has_nul (uuid_text u)"
proof -
  show "length (uuid_text u) = 36" by (simp add: uuid_text_def hyphenated_def Let_def ut_def length_hex_text)
  have "c \<noteq> 0" if "c \<in> set (hyphenated u)" for c
    using that hex_text_nonzero
    by (fastforce simp: hyphenated_def Let_def ut_def byte_of_def dest!: in_set_takeD in_set_dropD)
  moreover have "c < 256" if "c \<in> set (hyphenated u)" for c using hyphenated_ascii [OF that] by simp
  ultimately show "\<not> has_nul (uuid_text u)"
    by (fastforce simp: has_nul_def uuid_text_def nul_char_of)
qed

lemma demo_plan_encode: "is_ok (plan_encode (\<lambda>t. t \<noteq> ''#'') demo_plan sample_message 4096)"
  by (simp add: plan_encode_def demo_plan_def sample_message_def envelope_new_def message_metadata_new_def mqtt_encode_def
      core_fields_def opt_field_def emit_def Let_def uuid_text_shape u16_max_def has_nul_def [of "_ # _"] has_nul_def [of "[]"]
      contract_version_display_def show_i64_def show_nat.simps digit_char_def publish_request_new_def nul_char_of)

theorem mqtt_outbox_roundtrip_witness:
  "\<exists>r. plan_encode (\<lambda>t. t \<noteq> ''#'') demo_plan sample_message 4096 = Ok r \<and>
    mqtt_decode canonical_reader
      \<lparr>mp_qos = AtLeastOnce, mp_pkid = 3, mp_topic = [], mp_payload = pr_payload r,
       mp_user_properties = Some (pr_user_properties r)\<rparr>
      \<lparr>sub_domain = mm_domain (me_metadata sample_message), sub_route = mm_route (me_metadata sample_message),
       sub_contract = mm_contract (me_metadata sample_message)\<rparr> = Ok sample_message"
proof -
  obtain r where r: "plan_encode (\<lambda>t. t \<noteq> ''#'') demo_plan sample_message 4096 = Ok r"
    using demo_plan_encode by (auto simp: is_ok_iff)
  have o: "attributes_ordered sample_message" and t: "in_i64 (mm_occurred_at (me_metadata sample_message))"
    by (simp_all add: attributes_ordered_def sample_message_def envelope_new_def message_metadata_new_def i64_defs)
  show ?thesis
    using r mqtt_outbox_roundtrip [OF canonical_reader_hyphenated sample_ok o t r] by simp
qed

end
