(* ===== verification/Spec2Isabelle.thy ===== *)
theory Spec2Isabelle
  imports Contract_Values Device_Command Observation Projection_Postgres Saga_Executor Messaging_Relay Messaging_Consumer Reconcile_Worker
    Runtime_Lifecycle Timeseries_Laws Data_Protection Tracewire Recovery_Archive Relay_On_Memory Mqtt_Codec
begin

text \<open>
  Verification of the RSS workspace (Rust, \<^verbatim>\<open>src/crates\<close>).

  RSS is a workspace of libraries for consistent and durable execution. An application picks
  components: a core crate holds values, pure state machines and bounded driver loops over
  traits, and a provider crate implements the traits on a database or a broker. The
  development follows that split: theories for the core of each component, with a provider
  modelled where the component's guarantee lives in it.

  How code is represented. A struct is a record or a datatype with the source's variants, a
  fallible function returns \<open>error + value\<close>, text is the bytes or Unicode scalar values the code
  inspects. Asynchronous code has three forms: a function on an explicit world (the projection
  runner, whose traits are records of functions), a tree of requests that an arbitrary
  environment answers (relay, consumer, saga and reconcile executors, recovery), and a step
  function over control points and inputs (consumer worker, reconcile runner, MQTT driver).
  Concurrency is an arbitrary interleaving: of transactions, of requests, of schedules or of inputs.

  Shared theories

  \<^item> \<^verbatim>\<open>Rust_Prelude\<close>: \<open>Result\<close>, checked integers, ASCII classes, big-endian framing, and the
    locale \<open>reducer\<close> of a pure transition over a validated snapshot, interpreted by the device
    command, the observation state, the saga snapshot, the outbox head and the reconcile runner.
  \<^item> \<^verbatim>\<open>Request_Tree\<close>: trees of requests, their composition with \<open>select!\<close>, their execution, and a
    total-correctness calculus over the log of requests and answers.
  \<^item> \<^verbatim>\<open>Contract_Values\<close>: \<^verbatim>\<open>crates/contract\<close>, the canonical value types; exact languages of the
    parsers and round trips with the printers.
  \<^item> \<^verbatim>\<open>Request_Context\<close>: \<^verbatim>\<open>crates/request-context\<close>, tenant and request identifiers.

  State machines

  \<^item> \<^verbatim>\<open>Device_Command\<close>: \<^verbatim>\<open>crates/device-command\<close>, the lifecycle of one device command as a
    record, its validator, and the reducer \<open>transition\<close>; the reducer equals the lifecycle
    table, terminal states absorb, and a command becomes Applied only on matching evidence.
  \<^item> \<^verbatim>\<open>Observation\<close>: \<^verbatim>\<open>crates/observation\<close>, canonical reports, grants and the snapshot/delta
    integrity machine, with the read model of \<^verbatim>\<open>crates/examples/src/observation/model.rs\<close>, in
    which a snapshot replaces the facts of its coverage only. Fed by any loss, reordering and
    repetition of honest reports, the read model equals the producer on the active coverage
    whenever the stream is applicable, and holds outside it what was reported there.
  \<^item> \<^verbatim>\<open>Saga_Model\<close>: \<^verbatim>\<open>crates/saga\<close> (\<^verbatim>\<open>definition.rs\<close>, \<^verbatim>\<open>history.rs\<close>, \<^verbatim>\<open>model.rs\<close>), the journal
    transition, the settlement reservation and the snapshot. Compensation undoes exactly the
    confirmed steps in reverse, every admitted obligation can be settled within the admitted
    capacity, and recovery replays what live execution admitted.
  \<^item> \<^verbatim>\<open>Saga_Receipt\<close>, \<^verbatim>\<open>Saga_Executor\<close>: the sealed receipts, which open only under the context
    they were sealed for, and the bounded driver, which calls an effect only after its intent was
    acknowledged and keeps its lease when the fate of a commit is unknown.
  \<^item> \<^verbatim>\<open>Reconcile\<close>, \<^verbatim>\<open>Reconcile_Worker\<close>: \<^verbatim>\<open>crates/reconcile\<close>, the comparison of desired and actual
    state, the execution of one claim (applies at most once, settles only on evidence) and the
    runner that admits claims, accounts for them and drains on stop.

  Projections

  \<^item> \<^verbatim>\<open>Projection\<close>: \<^verbatim>\<open>crates/projection\<close>, the bounded ordered runner. A cancelled or expired
    operation may leave any world the control parameter names. The runner is proved to
    implement the step relation \<open>ordered_session\<close>; the locales \<open>settling_execution\<close> and
    \<open>settling_checkpoint\<close> state what a provider promises and what the runner then guarantees.
  \<^item> \<^verbatim>\<open>Projection_Postgres\<close>: \<^verbatim>\<open>crates/projection-postgres\<close> with the functions of its migrations.
    A transaction is atomic with an arbitrary \<open>fate\<close>; a \<open>history\<close> interleaves the transactions
    of all sessions: claims, projection and checkpoint transactions, journal appends also inside
    transactions the caller owns, and the application's own SQL. The theory interprets both
    locales and proves exactly-once effects, fencing and the immutability of generations.

  Messaging

  \<^item> \<^verbatim>\<open>Messaging_Message\<close>, \<^verbatim>\<open>Messaging_Policy\<close>, \<^verbatim>\<open>Messaging_Ports\<close>: \<^verbatim>\<open>crates/transactional-messaging\<close>,
    the envelope with its canonical bytes, deadlines and budgets, and the values of the ports.
  \<^item> \<^verbatim>\<open>Messaging_Relay\<close>, \<^verbatim>\<open>Messaging_Consumer\<close>: \<^verbatim>\<open>crates/transactional-messaging-runtime\<close>, the two
    loops; settlement follows evidence, under any schedule and provider.
  \<^item> \<^verbatim>\<open>Messaging_Memory\<close>: the stores of \<^verbatim>\<open>crates/transactional-messaging-testkit/src/memory.rs\<close>;
    the outbox refines a queue per partition, where accepting and releasing are read off the
    answers of its operations. \<^verbatim>\<open>Relay_On_Memory\<close> runs the relay on it.
  \<^item> \<^verbatim>\<open>Recovery_Completion\<close>, \<^verbatim>\<open>Recovery_Model\<close>, \<^verbatim>\<open>Recovery_Capsule\<close>, \<^verbatim>\<open>Recovery_Archive\<close>:
    \<^verbatim>\<open>crates/transactional-messaging-recovery\<close>. The locales \<open>bounded_operation\<close> and
    \<open>port_operation\<close> state one bounded execution with receipt readback; requests and plans are
    bound by the digests the code computes, capsules round trip, and an archive run purges the
    hot copy only behind verified evidence of the archived one.
  \<^item> \<^verbatim>\<open>Wire_Headers\<close>, \<^verbatim>\<open>Mqtt_Codec\<close>, \<^verbatim>\<open>Mqtt_Driver\<close>: \<^verbatim>\<open>crates/mqtt\<close>, the envelope on the wire with
    the outbox routing, and the driver task with its handles; it acknowledges what it received in
    the same generation, within capacity, and answers every settlement once.

  Other libraries

  \<^item> \<^verbatim>\<open>Runtime_Lifecycle\<close>: \<^verbatim>\<open>crates/runtime\<close>, registration, admission and the reverse-order drain
    under a total budget, as a trace of what is started, aborted, cancelled and dropped.
  \<^item> \<^verbatim>\<open>Timeseries_Model\<close>, \<^verbatim>\<open>Timeseries_Aggregate\<close>, \<^verbatim>\<open>Timeseries_Laws\<close>: \<^verbatim>\<open>crates/timeseries\<close>, versioned
    definitions, samples and queries, the aggregation builders, and their laws: exact rollup of
    adjacent windows and bounded coverage.
  \<^item> \<^verbatim>\<open>Redaction\<close>, \<^verbatim>\<open>Data_Protection\<close>, \<^verbatim>\<open>Tracewire\<close>: \<^verbatim>\<open>crates/redact\<close>, \<^verbatim>\<open>crates/data-protection\<close> and
    \<^verbatim>\<open>crates/tracewire\<close>; noninterference of renderings, canonical associated data, and
    validation of trace headers.

  Bounds and recursion. Most loops are structural. The runner of projections decreases its event
  budget, a transaction loop its remaining attempts, a race the sizes of its two flows, the UTF-8
  and URL scanners the length of their input: functions with termination proofs. The renewal
  flows of the saga executor, of reconcile and of the consumer may run as long as the work they
  guard; they are unfolded \<open>fuel\<close> times and then stay pending, and their theorems hold for every
  fuel, hence for every finite execution. The consumer worker, the reconcile runner and the MQTT
  driver serve for ever: their theorems quantify over every finite sequence of inputs. Integers
  that the sources add with overflow checks keep the check; those that saturate saturate; the
  counters of the reconcile report are natural numbers.

  Parameters. SHA-256, HMAC, the ciphers, the JSON writers and readers, the readers of UUIDs and
  the tables of Unicode, application effects, external targets, cancellation, the database driver
  and the clients of brokers are parameters; what a property needs of them is a hypothesis of the
  property with a witness that meets it.

  Not modelled. The SQL adapters other than the projection's, whose decisions are PostgreSQL
  statements under row locks; the AMQP, Kafka, webhook, object-store and HTTP clients, which
  follow connections of third-party libraries; the platform crate, a fixed registry of typed
  handlers behind an admission view of the host; conformance suites, test containers, the
  examples apart from the observation read model, and the derive macro.
\<close>

end
